(* ===== verification/Prelude.thy ===== *)
theory Prelude
  imports "HOL-Library.Word"
begin

text \<open>
  Shared vocabulary of the development: the C integer types of \<^verbatim>\<open>src/types.h\<close> as words, the
  kernel address helpers of \<^verbatim>\<open>src/kva.h\<close>, the alignment macros, and the generic facts on
  words, lists and intervals that the components use.
\<close>

unbundle bit_operations_syntax

type_synonym u8 = "8 word"
type_synonym u16 = "16 word"
type_synonym u32 = "32 word"
type_synonym u64 = "64 word"

named_theorems align_simps \<open>alignment of addresses, read through unat\<close>
named_theorems mem_simps \<open>loads after stores\<close>

section \<open>Addresses\<close>

definition KERN_VA_OFFSET :: u64 where
  "KERN_VA_OFFSET = 0xFFFFFF8000000000"

definition phys_to_virt :: "u64 \<Rightarrow> u64" where
  "phys_to_virt pa = pa + KERN_VA_OFFSET"

definition virt_to_phys :: "u64 \<Rightarrow> u64" where
  "virt_to_phys va = va - KERN_VA_OFFSET"

lemma virt_to_phys_to_virt [simp]: "virt_to_phys (phys_to_virt pa) = pa"
  by (simp add: phys_to_virt_def virt_to_phys_def)

lemma phys_to_virt_to_phys [simp]: "phys_to_virt (virt_to_phys va) = va"
  by (simp add: phys_to_virt_def virt_to_phys_def)

lemma phys_to_virt_eq_iff [simp]: "phys_to_virt a = phys_to_virt b \<longleftrightarrow> a = b"
  by (simp add: phys_to_virt_def)

section \<open>Alignment\<close>

definition PAGE_ALIGN_DOWN :: "u64 \<Rightarrow> u64" where
  "PAGE_ALIGN_DOWN a = a AND NOT (0x1000 - 1)"

definition PAGE_ALIGN_UP :: "u64 \<Rightarrow> u64" where
  "PAGE_ALIGN_UP a = (a + 0x1000 - 1) AND NOT (0x1000 - 1)"

definition ALIGN16 :: "u64 \<Rightarrow> u64" where
  "ALIGN16 x = (x + 15) AND NOT 15"

lemma and_not_mask_shift: "(a :: 'a::len word) AND NOT (mask n) = push_bit n (drop_bit n a)"
  by (rule bit_eqI) (auto simp: bit_simps)

lemma unat_and_not_mask:
  assumes "n < LENGTH('a)"
  shows "unat ((a :: 'a::len word) AND NOT (mask n)) = unat a div 2 ^ n * 2 ^ n"
proof -
  have "unat a div 2 ^ n * 2 ^ n \<le> unat a" by (simp add: div_times_less_eq_dividend)
  also have "\<dots> < 2 ^ LENGTH('a)" by simp
  finally have small: "unat a div 2 ^ n * 2 ^ n < 2 ^ LENGTH('a)" .
  have "unat (a AND NOT (mask n)) = take_bit LENGTH('a) (push_bit n (drop_bit n (unat a)))"
    by (simp only: and_not_mask_shift unsigned_push_bit_eq unsigned_drop_bit_eq
        take_bit_push_bit, simp add: take_bit_eq_mod take_bit_push_bit)
  with small show ?thesis
    by (simp add: push_bit_eq_mult drop_bit_eq_div take_bit_eq_mod)
qed

lemma unat_and_neg_4096 [align_simps]:
  "unat ((a :: u64) AND - 4096) = unat a div 4096 * 4096"
proof -
  have "(- 4096 :: u64) = NOT (mask 12)" by (simp add: mask_eq_exp_minus_1)
  then show ?thesis using unat_and_not_mask [of 12 a] by simp
qed

lemma unat_and_neg_16 [align_simps]:
  "unat ((a :: u64) AND - 16) = unat a div 16 * 16"
proof -
  have "(- 16 :: u64) = NOT (mask 4)" by (simp add: mask_eq_exp_minus_1)
  then show ?thesis using unat_and_not_mask [of 4 a] by simp
qed

lemma unat_PAGE_ALIGN_DOWN [align_simps]:
  "unat (PAGE_ALIGN_DOWN a) = unat a div 4096 * 4096"
  by (simp add: PAGE_ALIGN_DOWN_def align_simps)

lemma unat_add_small:
  "unat (a :: 'a::len word) + unat b < 2 ^ LENGTH('a) \<Longrightarrow> unat (a + b) = unat a + unat b"
  by (simp add: unat_word_ariths)

lemma unat_sub_le:
  "b \<le> a \<Longrightarrow> unat ((a :: 'a::len word) - b) = unat a - unat b"
  by (simp add: unat_sub)

lemma unat_PAGE_ALIGN_UP [align_simps]:
  assumes "unat a < 2 ^ 64 - 4096"
  shows "unat (PAGE_ALIGN_UP a) = (unat a + 4095) div 4096 * 4096"
proof -
  have "unat (a + 4095) = unat a + 4095"
    using assms by (subst unat_add_small) simp_all
  then show ?thesis by (simp add: PAGE_ALIGN_UP_def align_simps add.commute)
qed

lemma unat_ALIGN16 [align_simps]:
  assumes "unat a < 2 ^ 64 - 16"
  shows "unat (ALIGN16 a) = (unat a + 15) div 16 * 16"
proof -
  have "unat (a + 15) = unat a + 15"
    using assms by (subst unat_add_small) simp_all
  then show ?thesis by (simp add: ALIGN16_def align_simps)
qed

lemma ALIGN16_ge: "unat a < 2 ^ 64 - 16 \<Longrightarrow> unat a \<le> unat (ALIGN16 a)"
  by (simp add: align_simps)

lemma ALIGN16_dvd: "16 dvd unat (ALIGN16 a)"
  by (simp add: ALIGN16_def align_simps)

lemma PAGE_ALIGN_UP_dvd: "4096 dvd unat (PAGE_ALIGN_UP a)"
  by (simp add: PAGE_ALIGN_UP_def align_simps)

lemma unat_of_nat_small: "n < 2 ^ LENGTH('a) \<Longrightarrow> unat (of_nat n :: 'a::len word) = n"
  by (simp add: unat_of_nat)

lemma unat_drop_bit_div: "unat (drop_bit n (a :: 'a::len word)) = unat a div 2 ^ n"
  by (simp add: unat_drop_bit_eq flip: drop_bit_eq_div)

lemma unat_take_bit: "unat (take_bit n (a :: 'a::len word)) = unat a mod 2 ^ n"
  by (simp only: unsigned_take_bit_eq) (simp only: take_bit_eq_mod)

lemma unat_ucast: "unat (ucast (a :: 'a::len word) :: 'b::len word) = unat a mod 2 ^ LENGTH('b)"
  by (simp add: unsigned_ucast_eq take_bit_eq_mod)

lemma sint_small: "unat (w :: 'a::len word) < 2 ^ (LENGTH('a) - 1) \<Longrightarrow> sint w = int (unat w)"
proof -
  assume a: "unat w < 2 ^ (LENGTH('a) - 1)"
  have u: "uint w = int (unat w)" by simp
  then have lt: "uint w < 2 ^ (LENGTH('a) - 1)" using a by (metis of_nat_less_iff of_nat_numeral of_nat_power)
  have ge: "- (2 ^ (LENGTH('a) - 1)) \<le> uint w"
  proof -
    have "0 \<le> uint w" by simp
    moreover have "- (2 ^ (LENGTH('a) - 1)) \<le> (0 :: int)" by simp
    ultimately show ?thesis by linarith
  qed
  have "signed_take_bit (LENGTH('a) - 1) (uint w) = uint w"
    using lt ge by (simp only: signed_take_bit_int_eq_self_iff)
  then have "sint w = uint w" by (simp only: sint_uint One_nat_def)
  then show ?thesis using u by (rule trans)
qed

lemma unat_push_bit_mult:
  "unat (push_bit n (a :: 'a::len word)) = unat a * 2 ^ n mod 2 ^ LENGTH('a)"
proof -
  have "unat (push_bit n a) = take_bit LENGTH('a) (push_bit n (unat a))"
    by (simp only: unsigned_push_bit_eq)
  then show ?thesis by (simp add: take_bit_eq_mod push_bit_eq_mult)
qed

section \<open>Results of C calls\<close>

text \<open>
  The result of one attempt at an operation that may have to wait: it is finished with a
  value, or the caller has to give the CPU up and try again.
\<close>

datatype 'a attempt = Done 'a | Blocked

section \<open>Lists\<close>

lemma list_update_same_index: "i < length xs \<Longrightarrow> xs[i := v] ! i = v"
  by simp

lemma filter_list_update_length:
  assumes "i < length xs"
  shows "length (filter P (xs[i := v])) + (if P (xs ! i) then 1 else 0)
       = length (filter P xs) + (if P v then 1 else 0)"
  using assms
proof (induction xs arbitrary: i)
  case Nil
  then show ?case by simp
next
  case (Cons x xs)
  then show ?case
    by (cases i) (force split: if_splits)+
qed

lemma map_le_Some: "\<lbrakk>m \<subseteq>\<^sub>m m'; m x = Some y\<rbrakk> \<Longrightarrow> m' x = Some y"
  by (metis domI map_le_def)

lemma upt_split: "a \<le> b \<Longrightarrow> b \<le> c \<Longrightarrow> [a..<c] = [a..<b] @ [b..<c]"
  by (metis le_iff_add upt_add_eq_append)

end
