(* ===== verification/Frames.thy ===== *)
theory Frames
  imports Prelude
begin

text \<open>
  The interface of the page-frame allocator as its clients (\<^verbatim>\<open>mmu.c\<close>, \<^verbatim>\<open>kmalloc.c\<close>,
  \<^verbatim>\<open>sched.c\<close>, \<^verbatim>\<open>syscall.c\<close>) see it: a set of taken frames, an allocation that returns the
  address of a frame that was not taken (or 0), and a release. The laws are discharged for
  \<^verbatim>\<open>pmm.c\<close> in theory Pmm.
\<close>

locale frame_allocator =
  fixes inv :: "'s \<Rightarrow> bool"
    and taken :: "'s \<Rightarrow> nat set"
    and frames :: nat
    and addr_of :: "nat \<Rightarrow> u64"
    and alloc :: "'s \<Rightarrow> u64 \<times> 's"
    and release :: "u64 \<Rightarrow> 's \<Rightarrow> 's"
  assumes addr_nonzero: "p < frames \<Longrightarrow> addr_of p \<noteq> 0"
    and addr_inj: "\<lbrakk>p < frames; q < frames; addr_of p = addr_of q\<rbrakk> \<Longrightarrow> p = q"
    and alloc_some: "\<lbrakk>inv s; alloc s = (a, s'); a \<noteq> 0\<rbrakk> \<Longrightarrow>
      inv s' \<and> (\<exists>p < frames. a = addr_of p \<and> p \<notin> taken s \<and> taken s' = insert p (taken s))"
    and alloc_none: "\<lbrakk>inv s; alloc s = (0, s')\<rbrakk> \<Longrightarrow> s' = s \<and> taken s = {..<frames}"
    and release_taken: "\<lbrakk>inv s; p < frames\<rbrakk> \<Longrightarrow>
      inv (release (addr_of p) s) \<and> taken (release (addr_of p) s) = taken s - {p}"
begin

lemma alloc_inv: "\<lbrakk>inv s; alloc s = (a, s')\<rbrakk> \<Longrightarrow> inv s'"
  using alloc_some [of s a s'] alloc_none [of s s'] by (cases "a = 0") auto

lemma alloc_mono: "\<lbrakk>inv s; alloc s = (a, s')\<rbrakk> \<Longrightarrow> taken s \<subseteq> taken s'"
  using alloc_some [of s a s'] alloc_none [of s s'] by (cases "a = 0") auto

lemma alloc_fresh:
  assumes "inv s" "alloc s = (a, s')" "a \<noteq> 0" "q \<in> taken s" "q < frames"
  shows "a \<noteq> addr_of q"
  using alloc_some [OF assms(1-3)] addr_inj assms(4,5) by metis

lemma alloc_taken:
  assumes "inv s" "alloc s = (addr_of p, s')" "p < frames"
  shows "p \<notin> taken s" and "taken s' = insert p (taken s)"
  using alloc_some [OF assms(1,2) addr_nonzero [OF assms(3)]] addr_inj assms(3) by metis+

text \<open>Two allocations in a row never return the same frame.\<close>

lemma alloc_twice:
  assumes "inv s" "alloc s = (a, s1)" "alloc s1 = (b, s2)" "a \<noteq> 0" "b \<noteq> 0"
  shows "a \<noteq> b"
proof -
  obtain p where p: "p < frames" "a = addr_of p" "p \<in> taken s1"
    using alloc_some [OF assms(1,2,4)] by auto
  have "b \<noteq> addr_of p"
    using alloc_fresh [OF alloc_inv [OF assms(1,2)] assms(3,5) p(3,1)] .
  with p show ?thesis by simp
qed

text \<open>Releasing what was just allocated gives the taken frames back.\<close>

lemma alloc_release:
  assumes "inv s" "alloc s = (a, s1)" "a \<noteq> 0"
  shows "inv (release a s1)" and "taken (release a s1) = taken s"
proof -
  obtain p where p: "p < frames" "a = addr_of p" "p \<notin> taken s" "taken s1 = insert p (taken s)"
    using alloc_some [OF assms] by auto
  have "inv s1" using alloc_inv [OF assms(1,2)] .
  from release_taken [OF this p(1)] p
  show "inv (release a s1)" "taken (release a s1) = taken s" by auto
qed

end

end
