(* ===== verification/Pmm.thy ===== *)
theory Pmm
  imports Frames
begin

text \<open>
  The physical page allocator, \<^verbatim>\<open>src/pmm.c\<close> and \<^verbatim>\<open>src/pmm.h\<close>: a bitmap with one bit per 4 KB
  page of the 128 MB of RAM (1 = used) and two counters. A page number is a \<open>nat\<close> below
  \<open>TOTAL_PAGES\<close>, the value of the code's \<open>uint32_t\<close> index; addresses and counters are words.
  The console messages of these functions are not modelled.
\<close>

section \<open>State and bit operations\<close>

definition RAM_BASE :: u64 where "RAM_BASE = 0x40000000"
definition RAM_END :: u64 where "RAM_END = RAM_BASE + 128 * 1024 * 1024"
definition TOTAL_PAGES :: nat where "TOTAL_PAGES = 32768"
definition BITMAP_SIZE :: nat where "BITMAP_SIZE = TOTAL_PAGES div 8"

record pmm =
  bitmap :: "u8 list"
  free_pages :: u32
  used_pages :: u32

definition bit_set :: "nat \<Rightarrow> pmm \<Rightarrow> pmm" where
  "bit_set page s = s\<lparr>bitmap := (bitmap s)[page div 8 :=
     (bitmap s ! (page div 8)) OR push_bit (page mod 8) 1]\<rparr>"

definition bit_clear :: "nat \<Rightarrow> pmm \<Rightarrow> pmm" where
  "bit_clear page s = s\<lparr>bitmap := (bitmap s)[page div 8 :=
     (bitmap s ! (page div 8)) AND NOT (push_bit (page mod 8) 1)]\<rparr>"

definition bit_test :: "nat \<Rightarrow> pmm \<Rightarrow> bool" where
  "bit_test page s \<longleftrightarrow> drop_bit (page mod 8) (bitmap s ! (page div 8)) AND 1 \<noteq> 0"

definition addr_to_page :: "u64 \<Rightarrow> u32" where
  "addr_to_page addr = ucast (drop_bit 12 (addr - RAM_BASE))"

definition page_to_addr :: "u32 \<Rightarrow> u64" where
  "page_to_addr page = RAM_BASE + push_bit 12 (ucast page)"

section \<open>Operations\<close>

text \<open>
  \<open>pmm_init\<close> clears the whole bitmap and reserves the pages below \<open>kernel_end\<close>. With more
  than \<open>TOTAL_PAGES\<close> reserved pages the C code writes past the bitmap: the result is \<open>None\<close>.
\<close>

definition pmm_init :: "u64 \<Rightarrow> pmm option" where
  "pmm_init kernel_end =
     (let s = \<lparr>bitmap = replicate BITMAP_SIZE 0, free_pages = of_nat TOTAL_PAGES, used_pages = 0\<rparr>;
          reserved_end = PAGE_ALIGN_UP kernel_end;
          reserved_count = (ucast (drop_bit 12 (reserved_end - RAM_BASE)) :: u32)
      in if unat reserved_count > TOTAL_PAGES then None
         else let s = fold bit_set [0..<unat reserved_count] s
              in Some (s\<lparr>used_pages := used_pages s + reserved_count,
                         free_pages := free_pages s - reserved_count\<rparr>))"

definition take_page :: "nat \<Rightarrow> pmm \<Rightarrow> pmm" where
  "take_page i s = (let s = bit_set i s
     in s\<lparr>free_pages := free_pages s - 1, used_pages := used_pages s + 1\<rparr>)"

function alloc_page_from :: "nat \<Rightarrow> pmm \<Rightarrow> u64 \<times> pmm" where
  "alloc_page_from i s =
     (if i < TOTAL_PAGES then
        if \<not> bit_test i s then (page_to_addr (of_nat i), take_page i s)
        else alloc_page_from (Suc i) s
      else (0, s))"
  by pat_completeness auto
termination by (relation "measure (\<lambda>(i, s). TOTAL_PAGES - i)") auto

definition pmm_alloc_page :: "pmm \<Rightarrow> u64 \<times> pmm" where
  "pmm_alloc_page s = alloc_page_from 0 s"

definition pmm_free_page :: "u64 \<Rightarrow> pmm \<Rightarrow> pmm" where
  "pmm_free_page addr s =
     (if addr < RAM_BASE \<or> addr \<ge> RAM_END then s
      else let page = unat (addr_to_page addr)
           in if bit_test page s
              then let s = bit_clear page s
                   in s\<lparr>free_pages := free_pages s + 1, used_pages := used_pages s - 1\<rparr>
              else s)"

text \<open>
  The first-fit scan of \<open>pmm_alloc_pages\<close>: \<open>run\<close> and \<open>start\<close> are the loop's variables, never
  above \<open>TOTAL_PAGES\<close>, so they are kept as \<open>nat\<close>.
\<close>

function alloc_run :: "u32 \<Rightarrow> nat \<Rightarrow> nat \<Rightarrow> nat \<Rightarrow> pmm \<Rightarrow> u64 \<times> pmm" where
  "alloc_run count i run start s =
     (if i < TOTAL_PAGES then
        if \<not> bit_test i s then
          let start = (if run = 0 then i else start); run = Suc run
          in if run = unat count then
               let s = fold bit_set [start..<start + unat count] s
               in (page_to_addr (of_nat start),
                   s\<lparr>free_pages := free_pages s - count, used_pages := used_pages s + count\<rparr>)
             else alloc_run count (Suc i) run start s
        else alloc_run count (Suc i) 0 start s
      else (0, s))"
  by pat_completeness auto
termination by (relation "measure (\<lambda>(c, i, r, t, s). TOTAL_PAGES - i)") auto

definition pmm_alloc_pages :: "u32 \<Rightarrow> pmm \<Rightarrow> u64 \<times> pmm" where
  "pmm_alloc_pages count s = (if count = 0 then (0, s) else alloc_run count 0 0 0 s)"

text \<open>The product \<open>i * PAGE_SIZE\<close> is computed in 32 bits.\<close>

definition pmm_free_pages :: "u64 \<Rightarrow> u32 \<Rightarrow> pmm \<Rightarrow> pmm" where
  "pmm_free_pages addr count s =
     fold (\<lambda>i. pmm_free_page (addr + ucast ((of_nat i :: u32) * 4096))) [0..<unat count] s"

function mark_from :: "nat \<Rightarrow> nat \<Rightarrow> pmm \<Rightarrow> pmm" where
  "mark_from i upto_page s =
     (if i < upto_page \<and> i < TOTAL_PAGES
      then mark_from (Suc i) upto_page (if \<not> bit_test i s then take_page i s else s)
      else s)"
  by pat_completeness auto
termination by (relation "measure (\<lambda>(i, l, s). TOTAL_PAGES - i)") auto

definition pmm_mark_used :: "u64 \<Rightarrow> u64 \<Rightarrow> pmm \<Rightarrow> pmm" where
  "pmm_mark_used start end_addr s =
     (let start = (if start < RAM_BASE then RAM_BASE else start);
          end_addr = (if end_addr > RAM_END then RAM_END else end_addr);
          first = unat (addr_to_page (PAGE_ALIGN_DOWN start));
          last_page = unat (addr_to_page (PAGE_ALIGN_UP end_addr))
      in mark_from first last_page s)"

definition pmm_free_count :: "pmm \<Rightarrow> u32" where "pmm_free_count s = free_pages s"
definition pmm_used_count :: "pmm \<Rightarrow> u32" where "pmm_used_count s = used_pages s"

definition used :: "pmm \<Rightarrow> nat set" where
  "used s = {p. p < TOTAL_PAGES \<and> bit_test p s}"

definition pmm_inv :: "pmm \<Rightarrow> bool" where
  "pmm_inv s \<longleftrightarrow> length (bitmap s) = BITMAP_SIZE
     \<and> unat (used_pages s) = card (used s)
     \<and> unat (free_pages s) = TOTAL_PAGES - card (used s)"

declare alloc_page_from.simps [simp del] alloc_run.simps [simp del] mark_from.simps [simp del]


section \<open>The bitmap as a set of used pages\<close>

lemma bit_test_iff: "bit_test p s \<longleftrightarrow> bit (bitmap s ! (p div 8)) (p mod 8)"
  unfolding bit_test_def and_one_eq mod_2_eq_odd even_drop_bit_iff_not_bit by simp

lemma same_page: "p div 8 = q div 8 \<Longrightarrow> p mod 8 = q mod 8 \<Longrightarrow> p = (q :: nat)"
  by (metis div_mult_mod_eq)

lemma bit_test_set:
  assumes "p div 8 < length (bitmap s)"
  shows "bit_test q (bit_set p s) \<longleftrightarrow> q = p \<or> bit_test q s"
  using assms
  by (cases "p div 8 = q div 8") (auto simp: bit_test_iff bit_set_def bit_simps dest: same_page)

lemma bit_test_clear:
  assumes "p div 8 < length (bitmap s)"
  shows "bit_test q (bit_clear p s) \<longleftrightarrow> q \<noteq> p \<and> bit_test q s"
  using assms
  by (cases "p div 8 = q div 8") (auto simp: bit_test_iff bit_clear_def bit_simps dest: same_page)

lemma bit_set_fields [simp]:
  "length (bitmap (bit_set p s)) = length (bitmap s)"
  "free_pages (bit_set p s) = free_pages s" "used_pages (bit_set p s) = used_pages s"
  by (simp_all add: bit_set_def)

lemma bit_clear_fields [simp]:
  "length (bitmap (bit_clear p s)) = length (bitmap s)"
  "free_pages (bit_clear p s) = free_pages s" "used_pages (bit_clear p s) = used_pages s"
  by (simp_all add: bit_clear_def)

lemma bit_test_counters [simp]:
  "bit_test p (s\<lparr>free_pages := f\<rparr>) = bit_test p s"
  "bit_test p (s\<lparr>used_pages := u\<rparr>) = bit_test p s"
  by (simp_all add: bit_test_def)

lemma used_counters [simp]:
  "used (s\<lparr>free_pages := f\<rparr>) = used s" "used (s\<lparr>used_pages := u\<rparr>) = used s"
  by (simp_all add: used_def)

lemma page_in_bitmap: "p < TOTAL_PAGES \<Longrightarrow> length (bitmap s) = BITMAP_SIZE \<Longrightarrow> p div 8 < length (bitmap s)"
  by (simp add: BITMAP_SIZE_def TOTAL_PAGES_def)

lemma used_bit_set:
  "\<lbrakk>p < TOTAL_PAGES; length (bitmap s) = BITMAP_SIZE\<rbrakk> \<Longrightarrow> used (bit_set p s) = insert p (used s)"
  using bit_test_set [OF page_in_bitmap] by (auto simp: used_def)

lemma used_bit_clear:
  "\<lbrakk>p < TOTAL_PAGES; length (bitmap s) = BITMAP_SIZE\<rbrakk> \<Longrightarrow> used (bit_clear p s) = used s - {p}"
  using bit_test_clear [OF page_in_bitmap] by (auto simp: used_def)

lemma used_iff [simp]: "p \<in> used s \<longleftrightarrow> p < TOTAL_PAGES \<and> bit_test p s"
  by (simp add: used_def)

lemma finite_used [simp]: "finite (used s)"
  by (simp add: used_def)

lemma used_le: "used s \<subseteq> {..<TOTAL_PAGES}"
  by (auto simp: used_def)

lemma card_used_le: "card (used s) \<le> TOTAL_PAGES"
  using card_mono [OF _ used_le] by (metis card_lessThan finite_lessThan)

lemma fold_bit_set:
  assumes "length (bitmap s) = BITMAP_SIZE" "\<forall>p \<in> set ps. p < TOTAL_PAGES"
  shows "length (bitmap (fold bit_set ps s)) = BITMAP_SIZE
       \<and> used (fold bit_set ps s) = used s \<union> set ps
       \<and> free_pages (fold bit_set ps s) = free_pages s
       \<and> used_pages (fold bit_set ps s) = used_pages s"
  using assms
proof (induction ps arbitrary: s)
  case Nil
  then show ?case by simp
next
  case (Cons p ps)
  from Cons.IH [of "bit_set p s"] Cons.prems used_bit_set [of p s] show ?case
    by auto
qed

text \<open>Two consistent states with the same used pages are the same state.\<close>

lemma bitmap_ext:
  assumes "length (bitmap s) = BITMAP_SIZE" "length (bitmap t) = BITMAP_SIZE" "used s = used t"
  shows "bitmap s = bitmap t"
proof (rule nth_equalityI)
  show "length (bitmap s) = length (bitmap t)" using assms by simp
next
  fix i assume i: "i < length (bitmap s)"
  show "bitmap s ! i = bitmap t ! i"
  proof (rule bit_word_eqI)
    fix n :: nat assume n: "n < LENGTH(8)"
    have "8 * i + n < TOTAL_PAGES"
      using i n assms(1) by (simp add: BITMAP_SIZE_def TOTAL_PAGES_def)
    then have "bit_test (8 * i + n) s = bit_test (8 * i + n) t"
      using assms(3) used_iff by metis
    then show "bit (bitmap s ! i) n = bit (bitmap t ! i) n"
      using n by (simp add: bit_test_iff)
  qed
qed

lemma pmm_ext:
  assumes "pmm_inv s" "pmm_inv t" "used s = used t"
  shows "s = (t :: pmm)"
proof -
  have "bitmap s = bitmap t" using assms bitmap_ext by (simp add: pmm_inv_def)
  moreover have "used_pages s = used_pages t" "free_pages s = free_pages t"
    using assms by (simp_all add: pmm_inv_def word_unat_eq_iff)
  ultimately show ?thesis by (simp add: pmm.equality)
qed


section \<open>Addresses and page numbers\<close>

lemma unat_page_to_addr:
  assumes "p < TOTAL_PAGES"
  shows "unat (page_to_addr (of_nat p)) = 0x40000000 + p * 4096"
proof -
  have u: "unat (of_nat p :: u32) = p"
    using assms by (simp add: TOTAL_PAGES_def unat_of_nat_small)
  have "unat (push_bit 12 (ucast (of_nat p :: u32)) :: u64) = p * 4096"
    using assms u by (simp add: unat_push_bit_mult unat_ucast TOTAL_PAGES_def)
  moreover have "p * 4096 < 2 ^ 27" using assms by (simp add: TOTAL_PAGES_def)
  ultimately show ?thesis
    unfolding page_to_addr_def RAM_BASE_def by (subst unat_add_small) auto
qed

lemma unat_addr_to_page:
  assumes "RAM_BASE \<le> a" "a < RAM_END"
  shows "unat (addr_to_page a) = (unat a - 0x40000000) div 4096"
    and "unat (addr_to_page a) < TOTAL_PAGES"
proof -
  have b: "0x40000000 \<le> unat a" "unat a < 0x48000000"
    using assms by (simp_all add: word_le_nat_alt word_less_nat_alt RAM_BASE_def RAM_END_def)
  have d: "unat (a - RAM_BASE) = unat a - 0x40000000"
    using assms(1) by (simp add: unat_sub RAM_BASE_def)
  have "unat (drop_bit 12 (a - RAM_BASE)) = (unat a - 0x40000000) div 4096"
    unfolding unat_drop_bit_div d by simp
  moreover have lt: "(unat a - 0x40000000) div 4096 < TOTAL_PAGES"
    using b unfolding TOTAL_PAGES_def by linarith
  ultimately show eq: "unat (addr_to_page a) = (unat a - 0x40000000) div 4096"
    by (simp add: addr_to_page_def unat_ucast TOTAL_PAGES_def)
  show "unat (addr_to_page a) < TOTAL_PAGES" using eq lt by simp
qed

lemma page_addr_in_RAM:
  assumes "p < TOTAL_PAGES"
  shows "RAM_BASE \<le> page_to_addr (of_nat p)" "page_to_addr (of_nat p) < RAM_END"
    "page_to_addr (of_nat p) \<noteq> 0"
  using unat_page_to_addr [OF assms] assms
  by (auto simp: word_le_nat_alt word_less_nat_alt RAM_BASE_def RAM_END_def TOTAL_PAGES_def)

lemma addr_to_page_to_addr:
  "p < TOTAL_PAGES \<Longrightarrow> unat (addr_to_page (page_to_addr (of_nat p))) = p"
  by (simp add: unat_addr_to_page page_addr_in_RAM unat_page_to_addr)

lemma page_to_addr_inj:
  "\<lbrakk>p < TOTAL_PAGES; q < TOTAL_PAGES; page_to_addr (of_nat p) = page_to_addr (of_nat q)\<rbrakk> \<Longrightarrow> p = q"
  by (metis addr_to_page_to_addr)

lemma page_to_addr_add:
  assumes "p + i < TOTAL_PAGES"
  shows "page_to_addr (of_nat p) + ucast ((of_nat i :: u32) * 4096) = page_to_addr (of_nat (p + i))"
proof -
  have p: "p < TOTAL_PAGES" and i: "i < TOTAL_PAGES" using assms by auto
  have "unat ((of_nat i :: u32) * 4096) = i * 4096"
    using i by (simp add: unat_word_ariths TOTAL_PAGES_def unat_of_nat_small)
  then have c: "unat (ucast ((of_nat i :: u32) * 4096) :: u64) = i * 4096"
    using i by (simp add: unat_ucast TOTAL_PAGES_def)
  have "unat (page_to_addr (of_nat p) + ucast ((of_nat i :: u32) * 4096))
      = 0x40000000 + (p + i) * 4096"
    using c assms by (subst unat_add_small) (simp_all add: unat_page_to_addr [OF p] TOTAL_PAGES_def)
  then show ?thesis
    by (simp only: word_unat_eq_iff unat_page_to_addr [OF assms])
qed

section \<open>One page\<close>

lemma take_page_inv:
  assumes "pmm_inv s" "p < TOTAL_PAGES" "\<not> bit_test p s"
  shows "pmm_inv (take_page p s)" "used (take_page p s) = insert p (used s)"
proof -
  have len: "length (bitmap s) = BITMAP_SIZE" using assms(1) by (simp add: pmm_inv_def)
  have u: "used (take_page p s) = insert p (used s)"
    by (simp add: take_page_def Let_def used_bit_set [OF assms(2) len])
  have new: "p \<notin> used s" using assms(3) by simp
  have c: "card (insert p (used s)) = Suc (card (used s))" using new by simp
  have "card (insert p (used s)) \<le> TOTAL_PAGES"
    using card_used_le [of "take_page p s"] u by simp
  then have lt: "card (used s) < TOTAL_PAGES" using c by simp
  have up: "unat (used_pages s + 1) = Suc (card (used s))"
    using assms(1) lt by (simp add: pmm_inv_def unat_word_ariths TOTAL_PAGES_def)
  have ne: "1 \<le> free_pages s"
    using assms(1) lt by (simp add: pmm_inv_def word_le_nat_alt)
  have dn: "unat (free_pages s - 1) = TOTAL_PAGES - Suc (card (used s))"
    using assms(1) ne by (simp add: pmm_inv_def unat_sub)
  show "used (take_page p s) = insert p (used s)" by (rule u)
  show "pmm_inv (take_page p s)"
    using u c up dn len by (simp add: pmm_inv_def take_page_def Let_def)
qed

lemma alloc_page_from_spec:
  assumes "alloc_page_from i s = (a, s')" "\<forall>q < i. bit_test q s"
  shows "(a = 0 \<and> s' = s \<and> {..<TOTAL_PAGES} \<subseteq> {q. bit_test q s})
    \<or> (\<exists>p < TOTAL_PAGES. a = page_to_addr (of_nat p) \<and> s' = take_page p s
         \<and> \<not> bit_test p s \<and> (\<forall>q < p. bit_test q s))"
  using assms
proof (induction i s rule: alloc_page_from.induct)
  case (1 i s)
  show ?case
  proof (cases "i < TOTAL_PAGES \<and> bit_test i s")
    case True
    with "1.prems" "1.IH" show ?thesis
      by (simp add: alloc_page_from.simps [of i s] less_Suc_eq)
  next
    case False
    with "1.prems" show ?thesis
      by (auto simp: alloc_page_from.simps [of i s] split: if_splits)
  qed
qed

lemma used_full: "used s = {..<TOTAL_PAGES} \<longleftrightarrow> {..<TOTAL_PAGES} \<subseteq> {q. bit_test q s}"
  by (auto simp: used_def)

lemma pmm_alloc_page_cases:
  assumes "pmm_inv s" "pmm_alloc_page s = (a, s')"
  shows "(a = 0 \<and> s' = s \<and> used s = {..<TOTAL_PAGES})
    \<or> (\<exists>p < TOTAL_PAGES. a = page_to_addr (of_nat p) \<and> p \<notin> used s \<and> {..<p} \<subseteq> used s
         \<and> used s' = insert p (used s) \<and> pmm_inv s')"
proof -
  have "alloc_page_from 0 s = (a, s')" using assms(2) by (simp add: pmm_alloc_page_def)
  from alloc_page_from_spec [OF this, simplified] show ?thesis
  proof (elim disjE exE conjE)
    fix p assume p: "p < TOTAL_PAGES" "a = page_to_addr (of_nat p)" "s' = take_page p s"
      "\<not> bit_test p s" "\<forall>q < p. bit_test q s"
    then have "{..<p} \<subseteq> used s" by auto
    with p take_page_inv [OF assms(1) p(1,4)] show ?thesis by auto
  qed (simp add: used_full)
qed

lemma pmm_free_page_used:
  assumes "pmm_inv s" "p < TOTAL_PAGES"
  shows "pmm_inv (pmm_free_page (page_to_addr (of_nat p)) s)"
    "used (pmm_free_page (page_to_addr (of_nat p)) s) = used s - {p}"
proof -
  let ?a = "page_to_addr (of_nat p)" and ?s' = "pmm_free_page (page_to_addr (of_nat p)) s"
  have nf: "\<not> (?a < RAM_BASE \<or> ?a \<ge> RAM_END)"
    using page_addr_in_RAM [OF assms(2)] by auto
  have len: "length (bitmap s) = BITMAP_SIZE" using assms(1) by (simp add: pmm_inv_def)
  have "pmm_inv ?s' \<and> used ?s' = used s - {p}"
  proof (cases "bit_test p s")
    case False
    then have "?s' = s" "p \<notin> used s"
      using nf by (simp_all add: pmm_free_page_def addr_to_page_to_addr [OF assms(2)])
    then show ?thesis using assms(1) by simp
  next
    case True
    then have s': "?s' = (bit_clear p s)\<lparr>free_pages := free_pages s + 1, used_pages := used_pages s - 1\<rparr>"
      using nf by (simp add: pmm_free_page_def addr_to_page_to_addr [OF assms(2)] Let_def)
    have u: "used ?s' = used s - {p}"
      using s' used_bit_clear [OF assms(2) len] by simp
    have c: "card (used s) = Suc (card (used s - {p}))"
      using True assms(2) by (intro card.remove) simp_all
    have up: "unat (used_pages s - 1) = card (used s - {p})"
      using assms(1) c by (simp add: pmm_inv_def unat_sub word_le_nat_alt)
    have "unat (free_pages s + 1) = TOTAL_PAGES - card (used s - {p})"
      using assms(1) c card_used_le [of s]
      by (simp add: pmm_inv_def unat_word_ariths TOTAL_PAGES_def)
    with s' u up len show ?thesis by (simp add: pmm_inv_def)
  qed
  then show "pmm_inv ?s'" "used ?s' = used s - {p}" by auto
qed

interpretation pa: frame_allocator pmm_inv used TOTAL_PAGES "\<lambda>p. page_to_addr (of_nat p)"
  pmm_alloc_page pmm_free_page
proof
  show "page_to_addr (of_nat p) \<noteq> 0" if "p < TOTAL_PAGES" for p
    using page_addr_in_RAM [OF that] by simp
  show "p = q" if "p < TOTAL_PAGES" "q < TOTAL_PAGES"
    "page_to_addr (of_nat p) = page_to_addr (of_nat q)" for p q
    using page_to_addr_inj that .
  show "pmm_inv s' \<and> (\<exists>p<TOTAL_PAGES. a = page_to_addr (of_nat p) \<and> p \<notin> used s \<and> used s' = insert p (used s))"
    if "pmm_inv s" "pmm_alloc_page s = (a, s')" "a \<noteq> 0" for s a s'
    using pmm_alloc_page_cases [OF that(1,2)] that(3) by auto
  show "s' = s \<and> used s = {..<TOTAL_PAGES}"
    if "pmm_inv s" "pmm_alloc_page s = (0, s')" for s s'
    using pmm_alloc_page_cases [OF that] page_addr_in_RAM(3) by metis
  show "pmm_inv (pmm_free_page (page_to_addr (of_nat p)) s)
      \<and> used (pmm_free_page (page_to_addr (of_nat p)) s) = used s - {p}"
    if "pmm_inv s" "p < TOTAL_PAGES" for s p
    using pmm_free_page_used [OF that] by simp
qed

section \<open>Contiguous pages\<close>

definition free_window :: "nat \<Rightarrow> nat \<Rightarrow> pmm \<Rightarrow> bool" where
  "free_window p n s \<longleftrightarrow> p + n \<le> TOTAL_PAGES \<and> (\<forall>q \<in> {p..<p + n}. \<not> bit_test q s)"

lemma free_window_used: "free_window p n s \<Longrightarrow> used s \<inter> {p..<p + n} = {}"
  by (auto simp: free_window_def used_def)

text \<open>What the scan returns, from any point of its run.\<close>

lemma alloc_run_spec:
  assumes "alloc_run count i run start s = (a, s')" "0 < count" "run < unat count"
    and "0 < run \<longrightarrow> start + run = i \<and> (\<forall>q \<in> {start..<i}. \<not> bit_test q s)"
    and "i \<le> TOTAL_PAGES"
    and "\<forall>p. free_window p (unat count) s \<longrightarrow> (if run = 0 then i else start) \<le> p"
  shows "(a = 0 \<and> s' = s \<and> (\<forall>p. \<not> free_window p (unat count) s))
    \<or> (\<exists>p. free_window p (unat count) s \<and> (\<forall>q. free_window q (unat count) s \<longrightarrow> p \<le> q)
          \<and> a = page_to_addr (of_nat p)
          \<and> s' = (fold bit_set [p..<p + unat count] s)
               \<lparr>free_pages := free_pages s - count, used_pages := used_pages s + count\<rparr>)"
  using assms
proof (induction count i run start s rule: alloc_run.induct)
  case (1 count i run start s)
  let ?st = "if run = 0 then i else start"
  consider (finished) "i = TOTAL_PAGES" | (hit) "i < TOTAL_PAGES" "\<not> bit_test i s" "Suc run = unat count"
    | (more) "i < TOTAL_PAGES" "\<not> bit_test i s" "Suc run \<noteq> unat count"
    | (used) "i < TOTAL_PAGES" "bit_test i s"
    using "1.prems"(5) by fastforce
  then show ?case
  proof cases
    case finished
    have "\<not> free_window p (unat count) s" for p
    proof
      assume w: "free_window p (unat count) s"
      then have "?st \<le> p" using "1.prems"(6) by blast
      with w finished "1.prems"(3,4) show False by (auto simp: free_window_def split: if_splits)
    qed
    with "1.prems"(1) finished show ?thesis by (simp add: alloc_run.simps [of _ TOTAL_PAGES])
  next
    case hit
    have st: "?st + unat count = Suc i" using hit(3) "1.prems"(4) by auto
    have fr: "fold bit_set xs t = fold bit_set xs t \<and> free_pages (fold bit_set xs t) = free_pages t
        \<and> used_pages (fold bit_set xs t) = used_pages t" for xs t
      by (induction xs arbitrary: t) simp_all
    have "\<not> bit_test q s" if "q \<in> {?st..<?st + unat count}" for q
      using that "1.prems"(4) hit(2) unfolding st by (cases "q = i") (auto split: if_splits)
    with st hit(1) have w: "free_window ?st (unat count) s"
      by (simp add: free_window_def)
    have res: "a = page_to_addr (of_nat ?st)"
      "s' = (fold bit_set [?st..<?st + unat count] s)
         \<lparr>free_pages := free_pages s - count, used_pages := used_pages s + count\<rparr>"
      using "1.prems"(1) hit fr by (auto simp: alloc_run.simps [of _ i] Let_def)
    show ?thesis using w "1.prems"(6) res by blast
  next
    case more
    have eq: "alloc_run count i run start s = alloc_run count (Suc i) (Suc run) ?st s"
      using more by (simp add: alloc_run.simps [of _ i] Let_def)
    show ?thesis
    proof (rule "1.IH"(1) [OF more(1,2) refl refl more(3)])
      show "alloc_run count (Suc i) (Suc run) ?st s = (a, s')" using "1.prems"(1) eq by simp
    qed (use "1.prems" more in \<open>auto simp: less_Suc_eq split: if_splits\<close>)
  next
    case used
    have eq: "alloc_run count i run start s = alloc_run count (Suc i) 0 start s"
      using used by (simp add: alloc_run.simps [of _ i] Let_def)
    have min: "Suc i \<le> p" if w: "free_window p (unat count) s" for p
    proof (rule ccontr)
      assume "\<not> Suc i \<le> p"
      moreover have "?st \<le> p" using w "1.prems"(6) by blast
      ultimately have "i \<in> {p..<p + unat count}" using "1.prems"(3,4) by (auto split: if_splits)
      then show False using w used(2) by (auto simp: free_window_def)
    qed
    show ?thesis
    proof (rule "1.IH"(2) [OF used(1)])
      show "alloc_run count (Suc i) 0 start s = (a, s')" using "1.prems"(1) eq by simp
    qed (use "1.prems" used min in auto)
  qed
qed

lemma take_window_inv:
  assumes "pmm_inv s" "free_window p (unat count) s"
  defines "s' \<equiv> (fold bit_set [p..<p + unat count] s)
     \<lparr>free_pages := free_pages s - count, used_pages := used_pages s + count\<rparr>"
  shows "pmm_inv s'" "used s' = used s \<union> {p..<p + unat count}"
proof -
  have len: "length (bitmap s) = BITMAP_SIZE" using assms(1) by (simp add: pmm_inv_def)
  have bd: "\<forall>q \<in> set [p..<p + unat count]. q < TOTAL_PAGES"
    using assms(2) by (auto simp: free_window_def)
  note f = fold_bit_set [OF len bd]
  from f have u: "used s' = used s \<union> {p..<p + unat count}" by (simp add: s'_def)
  have c: "card (used s') = card (used s) + unat count"
    unfolding u using free_window_used [OF assms(2)] by (subst card_Un_disjoint) auto
  have le: "card (used s) + unat count \<le> TOTAL_PAGES" using c card_used_le [of s'] by simp
  have "unat (used_pages s + count) = card (used s) + unat count"
    using assms(1) le by (subst unat_add_small) (auto simp: pmm_inv_def TOTAL_PAGES_def)
  moreover have "unat (free_pages s - count) = TOTAL_PAGES - (card (used s) + unat count)"
    using assms(1) le by (subst unat_sub) (auto simp: pmm_inv_def word_le_nat_alt)
  ultimately show "pmm_inv s'" using f c by (simp add: pmm_inv_def s'_def)
  show "used s' = used s \<union> {p..<p + unat count}" by (rule u)
qed

lemma pmm_alloc_pages_cases:
  assumes "pmm_inv s" "0 < count" "pmm_alloc_pages count s = (a, s')"
  shows "(a = 0 \<and> s' = s \<and> (\<forall>p. \<not> free_window p (unat count) s))
    \<or> (\<exists>p. free_window p (unat count) s \<and> (\<forall>q. free_window q (unat count) s \<longrightarrow> p \<le> q)
          \<and> a = page_to_addr (of_nat p) \<and> pmm_inv s' \<and> used s' = used s \<union> {p..<p + unat count})"
proof -
  have run: "alloc_run count 0 0 0 s = (a, s')" and c: "0 < unat count"
    using assms(2,3) by (auto simp: pmm_alloc_pages_def word_less_nat_alt split: if_splits)
  from alloc_run_spec [OF run assms(2) c] show ?thesis
    using take_window_inv [OF assms(1)] by fastforce
qed

lemma pmm_free_pages_used:
  assumes "pmm_inv s" "p + unat count \<le> TOTAL_PAGES"
  shows "pmm_inv (pmm_free_pages (page_to_addr (of_nat p)) count s)"
    "used (pmm_free_pages (page_to_addr (of_nat p)) count s) = used s - {p..<p + unat count}"
proof -
  let ?f = "\<lambda>i. pmm_free_page (page_to_addr (of_nat p) + ucast ((of_nat i :: u32) * 4096))"
  have step: "?f i = pmm_free_page (page_to_addr (of_nat (p + i)))" if "p + i < TOTAL_PAGES" for i
    using page_to_addr_add [OF that] by simp
  have "pmm_inv (fold ?f [0..<n] s) \<and> used (fold ?f [0..<n] s) = used s - {p..<p + n}"
    if "p + n \<le> TOTAL_PAGES" for n
    using that
  proof (induction n)
    case 0
    then show ?case using assms(1) by simp
  next
    case (Suc n)
    then have ih: "pmm_inv (fold ?f [0..<n] s)" "used (fold ?f [0..<n] s) = used s - {p..<p + n}"
      and n: "p + n < TOTAL_PAGES" by auto
    have "used (fold ?f [0..<Suc n] s) = used s - {p..<p + n} - {p + n}"
      using pmm_free_page_used(2) [OF ih(1) n] ih(2) step [OF n] by simp
    also have "\<dots> = used s - {p..<p + Suc n}" by auto
    finally show ?case using pmm_free_page_used(1) [OF ih(1) n] step [OF n] by simp
  qed
  from this [OF assms(2)] show "pmm_inv (pmm_free_pages (page_to_addr (of_nat p)) count s)"
    "used (pmm_free_pages (page_to_addr (of_nat p)) count s) = used s - {p..<p + unat count}"
    by (auto simp: pmm_free_pages_def)
qed

lemma pmm_init_spec:
  assumes "RAM_BASE \<le> k" "k \<le> RAM_END"
  obtains s where "pmm_init k = Some s" "pmm_inv s"
    "used s = {..<(unat k - 0x40000000 + 4095) div 4096}"
proof -
  let ?n = "(unat k - 0x40000000 + 4095) div 4096"
  let ?s0 = "\<lparr>bitmap = replicate BITMAP_SIZE 0, free_pages = of_nat TOTAL_PAGES, used_pages = 0\<rparr>"
  have kb: "0x40000000 \<le> unat k" "unat k \<le> 0x48000000"
    using assms by (simp_all add: word_le_nat_alt RAM_BASE_def RAM_END_def)
  have up: "unat (PAGE_ALIGN_UP k) = (unat k + 4095) div 4096 * 4096"
    using kb by (simp add: align_simps)
  have n: "?n \<le> TOTAL_PAGES" using kb unfolding TOTAL_PAGES_def by linarith
  define m where "m = unat k - 0x40000000"
  have m: "unat k = m + 0x40000000" using kb by (simp add: m_def)
  have "(unat k + 4095) div 4096 * 4096 = ?n * 4096 + 0x40000000"
  proof -
    have "unat k + 4095 = (m + 4095) + 262144 * 4096" using m by simp
    then show ?thesis using m by (simp only: div_mult_self1) simp
  qed
  with up have "unat (PAGE_ALIGN_UP k - RAM_BASE) = ?n * 4096"
    by (subst unat_sub) (auto simp: word_le_nat_alt RAM_BASE_def)
  then have rc: "unat (ucast (drop_bit 12 (PAGE_ALIGN_UP k - RAM_BASE)) :: u32) = ?n"
    using n unfolding unat_ucast unat_drop_bit_div by (simp add: TOTAL_PAGES_def)
  have z: "used ?s0 = {}"
    by (auto simp: used_def bit_test_iff BITMAP_SIZE_def TOTAL_PAGES_def nth_replicate)
  let ?s1 = "fold bit_set [0..<?n] ?s0"
  have f: "length (bitmap ?s1) = BITMAP_SIZE" "used ?s1 = {..<?n}"
    "free_pages ?s1 = of_nat TOTAL_PAGES" "used_pages ?s1 = 0"
    using fold_bit_set [of ?s0 "[0..<?n]"] n z by auto
  let ?rc = "ucast (drop_bit 12 (PAGE_ALIGN_UP k - RAM_BASE)) :: u32"
  let ?s = "?s1\<lparr>used_pages := used_pages ?s1 + ?rc, free_pages := free_pages ?s1 - ?rc\<rparr>"
  have "pmm_init k = Some ?s"
    unfolding pmm_init_def Let_def rc using n by simp
  moreover have u: "used ?s = {..<?n}" using f by simp
  moreover have "pmm_inv ?s"
  proof -
    have "unat (of_nat TOTAL_PAGES - ?rc) = TOTAL_PAGES - ?n"
      using n rc by (subst unat_sub) (auto simp: word_le_nat_alt TOTAL_PAGES_def)
    then show ?thesis using f rc by (simp add: pmm_inv_def)
  qed
  ultimately show ?thesis using that by blast
qed

lemma addr_to_page_RAM:
  assumes "RAM_BASE \<le> a" "a \<le> RAM_END"
  shows "unat (addr_to_page a) = (unat a - 0x40000000) div 4096"
proof -
  have b: "0x40000000 \<le> unat a" "unat a \<le> 0x48000000"
    using assms by (simp_all add: word_le_nat_alt RAM_BASE_def RAM_END_def)
  have "unat (a - RAM_BASE) = unat a - 0x40000000"
    using assms(1) by (simp add: unat_sub RAM_BASE_def)
  then have "unat (drop_bit 12 (a - RAM_BASE)) = (unat a - 0x40000000) div 4096"
    unfolding unat_drop_bit_div by simp
  then show ?thesis unfolding addr_to_page_def unat_ucast using b by simp
qed

lemma page_of_align_down:
  assumes "RAM_BASE \<le> a" "a \<le> RAM_END"
  shows "unat (addr_to_page (PAGE_ALIGN_DOWN a)) = (unat a - 0x40000000) div 4096"
proof -
  define m where "m = unat a - 0x40000000"
  have m: "unat a = m + 262144 * 4096" "m \<le> 0x8000000"
    using assms by (simp_all add: m_def word_le_nat_alt RAM_BASE_def RAM_END_def)
  have "unat a div 4096 = m div 4096 + 262144"
    unfolding m(1) by (subst div_mult_self1) simp_all
  then have d: "unat (PAGE_ALIGN_DOWN a) = m div 4096 * 4096 + 0x40000000" by (simp add: align_simps)
  have "m div 4096 * 4096 \<le> m" by simp
  then have "RAM_BASE \<le> PAGE_ALIGN_DOWN a" "PAGE_ALIGN_DOWN a \<le> RAM_END"
    using d m(2) by (simp_all add: word_le_nat_alt RAM_BASE_def RAM_END_def)
  from addr_to_page_RAM [OF this] d show ?thesis by (simp add: m_def)
qed

lemma page_of_align_up:
  assumes "RAM_BASE \<le> a" "a \<le> RAM_END"
  shows "unat (addr_to_page (PAGE_ALIGN_UP a)) = (unat a - 0x40000000 + 4095) div 4096"
proof -
  define m where "m = unat a - 0x40000000"
  have m: "unat a + 4095 = (m + 4095) + 262144 * 4096" "m \<le> 0x8000000"
    using assms by (simp_all add: m_def word_le_nat_alt RAM_BASE_def RAM_END_def)
  have "(unat a + 4095) div 4096 = (m + 4095) div 4096 + 262144"
    unfolding m(1) by (subst div_mult_self1) simp_all
  moreover have "unat a < 2 ^ 64 - 4096" using m by simp
  ultimately have d: "unat (PAGE_ALIGN_UP a) = (m + 4095) div 4096 * 4096 + 0x40000000"
    by (simp add: align_simps)
  have "(m + 4095) div 4096 \<le> 32768" using m(2) by simp
  then have "RAM_BASE \<le> PAGE_ALIGN_UP a" "PAGE_ALIGN_UP a \<le> RAM_END"
    using d by (simp_all add: word_le_nat_alt RAM_BASE_def RAM_END_def)
  from addr_to_page_RAM [OF this] d show ?thesis by (simp add: m_def)
qed

lemma mark_from_spec:
  assumes "pmm_inv s"
  shows "pmm_inv (mark_from i n s) \<and> used (mark_from i n s) = used s \<union> {i..<min n TOTAL_PAGES}"
  using assms
proof (induction i n s rule: mark_from.induct)
  case (1 i n s)
  show ?case
  proof (cases "i < n \<and> i < TOTAL_PAGES")
    case True
    let ?s = "if \<not> bit_test i s then take_page i s else s"
    have s: "pmm_inv ?s" "used ?s = insert i (used s)"
      using take_page_inv [of s i] "1.prems" True by auto
    have "{i..<min n TOTAL_PAGES} = insert i {Suc i..<min n TOTAL_PAGES}" using True by auto
    with "1.IH" [OF True s(1)] s(2) True show ?thesis
      by (simp add: mark_from.simps [of i])
  next
    case False
    then show ?thesis using "1.prems" by (auto simp: mark_from.simps [of i])
  qed
qed

definition pmm_empty :: pmm where
  "pmm_empty = \<lparr>bitmap = replicate BITMAP_SIZE 0, free_pages = of_nat TOTAL_PAGES, used_pages = 0\<rparr>"

lemma used_pmm_empty: "used pmm_empty = {}"
  by (auto simp: pmm_empty_def used_def bit_test_iff BITMAP_SIZE_def TOTAL_PAGES_def nth_replicate)

lemma pmm_inv_empty: "pmm_inv pmm_empty"
  using used_pmm_empty by (simp add: pmm_inv_def) (simp add: pmm_empty_def TOTAL_PAGES_def)

lemma window_pmm_empty: "n \<le> TOTAL_PAGES \<Longrightarrow> free_window 0 n pmm_empty"
  using used_pmm_empty by (auto simp: free_window_def used_def)

section \<open>Properties\<close>

text \<open>
  C28: \<open>pmm_alloc_pages\<close> is first-fit and complete: on a consistent state it either returns 0,
  changes nothing, and no window of \<open>count\<close> free pages exists; or it returns the address of the
  lowest such window, marks exactly that window used, and keeps bitmap and counters consistent.
\<close>

theorem pmm_alloc_pages_first_fit:
  assumes "pmm_inv s" "0 < count" "pmm_alloc_pages count s = (a, s')"
  shows "if \<exists>p. free_window p (unat count) s
    then let p = (LEAST p. free_window p (unat count) s)
         in a = page_to_addr (of_nat p) \<and> used s' = used s \<union> {p..<p + unat count} \<and> pmm_inv s'
    else a = 0 \<and> s' = s"
  using pmm_alloc_pages_cases [OF assms]
proof (elim disjE exE conjE)
  fix p assume p: "free_window p (unat count) s" "\<forall>q. free_window q (unat count) s \<longrightarrow> p \<le> q"
    "a = page_to_addr (of_nat p)" "pmm_inv s'" "used s' = used s \<union> {p..<p + unat count}"
  then have "(LEAST p. free_window p (unat count) s) = p" by (intro Least_equality) auto
  with p show ?thesis by (auto simp: Let_def)
qed simp

theorem pmm_alloc_pages_first_fit_witness:
  "used (snd (pmm_alloc_pages 3 pmm_empty)) = {0..<3}"
proof -
  obtain a s' where r: "pmm_alloc_pages 3 pmm_empty = (a, s')" by fastforce
  have w: "free_window 0 3 pmm_empty" by (rule window_pmm_empty) (simp add: TOTAL_PAGES_def)
  then have least: "(LEAST p. free_window p 3 pmm_empty) = 0" by (simp add: Least_eq_0)
  show ?thesis
    using pmm_alloc_pages_first_fit [OF pmm_inv_empty _ r] w least r used_pmm_empty
    by (auto simp: Let_def split: if_splits)
qed

text \<open>
  Releasing what \<open>pmm_alloc_pages\<close> returned gives back the very state before the
  allocation, bitmap and counters included.
\<close>

theorem pmm_alloc_free_pages:
  assumes "pmm_inv s" "0 < count" "pmm_alloc_pages count s = (a, s')" "a \<noteq> 0"
  shows "pmm_free_pages a count s' = s"
proof -
  obtain p where p: "free_window p (unat count) s" "a = page_to_addr (of_nat p)" "pmm_inv s'"
    "used s' = used s \<union> {p..<p + unat count}"
    using pmm_alloc_pages_cases [OF assms(1-3)] assms(4) by auto
  then have le: "p + unat count \<le> TOTAL_PAGES" by (simp add: free_window_def)
  note f = pmm_free_pages_used [OF p(3) le]
  have "used (pmm_free_pages a count s') = used s"
    using f(2) p(2,4) free_window_used [OF p(1)] by auto
  with f(1) p(2) assms(1) show ?thesis by (auto intro: pmm_ext)
qed

theorem pmm_alloc_free_pages_witness:
  "\<exists>a s'. pmm_alloc_pages 2 pmm_empty = (a, s') \<and> a \<noteq> 0 \<and> pmm_free_pages a 2 s' = pmm_empty"
proof -
  obtain a s' where r: "pmm_alloc_pages 2 pmm_empty = (a, s')" by fastforce
  have c: "0 < (2 :: u32)" by simp
  have "a \<noteq> 0"
    using pmm_alloc_pages_cases [OF pmm_inv_empty c r] window_pmm_empty [of 2] page_addr_in_RAM(3)
    by (auto simp: free_window_def TOTAL_PAGES_def)
  then show ?thesis using pmm_alloc_free_pages [OF pmm_inv_empty c r] r by blast
qed

text \<open>
  the single-page allocator and the contiguous allocator agree: \<open>pmm_alloc_page\<close> is
  \<open>pmm_alloc_pages\<close> with a count of one, in result and in state.
\<close>

theorem pmm_alloc_page_is_alloc_pages_1:
  assumes "pmm_inv s"
  shows "pmm_alloc_page s = pmm_alloc_pages 1 s"
proof -
  obtain a s1 b s2 where a: "pmm_alloc_page s = (a, s1)" and b: "pmm_alloc_pages 1 s = (b, s2)"
    by (metis surj_pair)
  have w: "free_window q (Suc 0) s \<longleftrightarrow> q < TOTAL_PAGES \<and> q \<notin> used s" for q
    by (auto simp: free_window_def)
  have one: "0 < (1 :: u32)" by simp
  from pmm_alloc_page_cases [OF assms a] pmm_alloc_pages_cases [OF assms one b] show ?thesis
  proof (elim disjE exE conjE)
    fix p q
    assume p: "p < TOTAL_PAGES" "a = page_to_addr (of_nat p)" "p \<notin> used s" "{..<p} \<subseteq> used s"
        "used s1 = insert p (used s)" "pmm_inv s1"
      and q: "free_window q (unat (1 :: u32)) s" "\<forall>r. free_window r (unat (1 :: u32)) s \<longrightarrow> q \<le> r"
        "b = page_to_addr (of_nat q)" "pmm_inv s2" "used s2 = used s \<union> {q..<q + unat (1 :: u32)}"
    have "q \<le> p" "q \<notin> used s" using p q w by auto
    with p(4) have "p = q" by (metis le_neq_implies_less lessThan_iff subsetD)
    moreover have "s1 = s2" using p q \<open>p = q\<close> by (intro pmm_ext) auto
    ultimately show ?thesis using a b p q by simp
  next
    fix q assume "used s = {..<TOTAL_PAGES}" "free_window q (unat (1 :: u32)) s"
    then show ?thesis using w [of q] by simp
  next
    fix p assume "\<forall>q. \<not> free_window q (unat (1 :: u32)) s" "p < TOTAL_PAGES" "p \<notin> used s"
    then show ?thesis using w [of p] by simp
  qed (simp add: a b)
qed

theorem pmm_alloc_page_is_alloc_pages_1_witness:
  "pmm_alloc_page pmm_empty = pmm_alloc_pages 1 pmm_empty"
  by (rule pmm_alloc_page_is_alloc_pages_1 [OF pmm_inv_empty])

text \<open>
  Boot-time initialisation: for a kernel that ends inside RAM, \<open>pmm_init\<close> stays inside the
  bitmap, reserves exactly the pages below the (rounded-up) end of the kernel and leaves
  consistent counters.
\<close>

theorem pmm_init_reserves_kernel:
  assumes "RAM_BASE \<le> k" "k \<le> RAM_END"
  shows "\<exists>s. pmm_init k = Some s \<and> pmm_inv s
    \<and> used s = {p. p < TOTAL_PAGES \<and> unat (page_to_addr (of_nat p)) < unat k}
    \<and> unat (free_pages s) + unat (used_pages s) = TOTAL_PAGES"
proof -
  obtain s where s: "pmm_init k = Some s" "pmm_inv s"
    "used s = {..<(unat k - 0x40000000 + 4095) div 4096}"
    using pmm_init_spec [OF assms] .
  have kb: "0x40000000 \<le> unat k" "unat k \<le> 0x48000000"
    using assms by (simp_all add: word_le_nat_alt RAM_BASE_def RAM_END_def)
  have iff: "p < (unat k - 0x40000000 + 4095) div 4096 \<longleftrightarrow> p < TOTAL_PAGES \<and> 0x40000000 + p * 4096 < unat k"
    for p
  proof -
    have "p < (m + 4095) div 4096 \<longleftrightarrow> p * 4096 < m" for m :: nat
      using less_eq_div_iff_mult_less_eq [of 4096 "Suc p" "m + 4095"] by (auto simp: Suc_le_eq)
    note e = this [of "unat k - 0x40000000"]
    show ?thesis unfolding e TOTAL_PAGES_def using kb by auto
  qed
  have "used s = {p. p < TOTAL_PAGES \<and> unat (page_to_addr (of_nat p)) < unat k}"
  proof (rule set_eqI)
    fix p
    show "p \<in> used s \<longleftrightarrow> p \<in> {p. p < TOTAL_PAGES \<and> unat (page_to_addr (of_nat p)) < unat k}"
      using iff [of p] unat_page_to_addr [of p] unfolding s(3) by auto
  qed
  with s card_used_le [of s] show ?thesis by (auto simp: pmm_inv_def)
qed

theorem pmm_init_reserves_kernel_witness:
  "\<exists>s. pmm_init 0x40234567 = Some s \<and> pmm_inv s
    \<and> used s = {p. p < TOTAL_PAGES \<and> unat (page_to_addr (of_nat p)) < 0x40234567}"
  using pmm_init_reserves_kernel [of "0x40234567"] by (auto simp: RAM_BASE_def RAM_END_def)

text \<open>
  reserving a range inside RAM marks used exactly the pages that the range touches, on top
  of those already used, and keeps the counters consistent.
\<close>

theorem pmm_mark_used_in_RAM:
  assumes "pmm_inv s" "RAM_BASE \<le> a" "a \<le> RAM_END" "RAM_BASE \<le> b" "b \<le> RAM_END"
  shows "pmm_inv (pmm_mark_used a b s) \<and> used (pmm_mark_used a b s) = used s \<union>
      {(unat a - 0x40000000) div 4096..<(unat b - 0x40000000 + 4095) div 4096}"
proof -
  let ?lo = "(unat a - 0x40000000) div 4096" and ?hi = "(unat b - 0x40000000 + 4095) div 4096"
  have hi: "?hi \<le> TOTAL_PAGES"
    using assms(5) by (simp add: word_le_nat_alt RAM_BASE_def RAM_END_def TOTAL_PAGES_def)
  have "pmm_mark_used a b s = mark_from ?lo ?hi s"
    using assms page_of_align_down [OF assms(2,3)] page_of_align_up [OF assms(4,5)]
    by (simp add: pmm_mark_used_def Let_def)
  with mark_from_spec [OF assms(1), of ?lo ?hi] hi show ?thesis by (simp add: min_absorb1)
qed

theorem pmm_mark_used_in_RAM_witness:
  "used (pmm_mark_used 0x40001800 0x40003001 pmm_empty) = {1..<4}"
proof -
  have "RAM_BASE \<le> 0x40001800" "(0x40001800 :: u64) \<le> RAM_END" "RAM_BASE \<le> 0x40003001"
    "(0x40003001 :: u64) \<le> RAM_END"
    by (simp_all add: RAM_BASE_def RAM_END_def)
  from pmm_mark_used_in_RAM [OF pmm_inv_empty this] used_pmm_empty show ?thesis by simp
qed

text \<open>
  for a range that lies wholly below RAM, as every device region of this machine does,
  \<open>pmm_mark_used\<close> does not ignore the range: the end address wraps around when it is turned
  into a page number, and every page of RAM is marked used.
\<close>

theorem pmm_mark_used_below_RAM_takes_all:
  assumes "pmm_inv s" "a < RAM_BASE" "unat b + 4095 < unat RAM_BASE"
  shows "used (pmm_mark_used a b s) = {..<TOTAL_PAGES}"
proof -
  have b: "unat b + 4095 < 0x40000000" using assms(3) by (simp add: RAM_BASE_def)
  have up: "unat (PAGE_ALIGN_UP b) = (unat b + 4095) div 4096 * 4096"
    using b by (simp add: align_simps)
  define k where "k = (unat b + 4095) div 4096"
  have k: "k < 0x40000" using b by (simp add: k_def)
  have "unat (PAGE_ALIGN_UP b - RAM_BASE) = 2 ^ 64 - (0x40000 - k) * 4096"
    using up k by (simp add: unat_sub_if' k_def [symmetric] RAM_BASE_def word_le_nat_alt)
  also have "\<dots> = (2 ^ 52 - (0x40000 - k)) * 4096" using k by simp
  finally have "unat (drop_bit 12 (PAGE_ALIGN_UP b - RAM_BASE)) = 2 ^ 52 - (0x40000 - k)"
    unfolding unat_drop_bit_div by simp
  then have "unat (addr_to_page (PAGE_ALIGN_UP b)) = (2 ^ 52 - (0x40000 - k)) mod 2 ^ 32"
    unfolding addr_to_page_def unat_ucast by simp
  also have "\<dots> = 2 ^ 32 - (0x40000 - k)"
  proof -
    have "2 ^ 52 - (0x40000 - k) = (2 ^ 32 - (0x40000 - k)) + (2 ^ 20 - 1) * 2 ^ 32"
      using k by simp
    then show ?thesis using k by (simp only: mod_mult_self1) simp
  qed
  finally have last: "TOTAL_PAGES \<le> unat (addr_to_page (PAGE_ALIGN_UP b))"
    using k by (simp add: TOTAL_PAGES_def)
  have first: "unat (addr_to_page (PAGE_ALIGN_DOWN RAM_BASE)) = 0"
    using page_of_align_down [of RAM_BASE] by (simp add: RAM_BASE_def RAM_END_def)
  have "\<not> b > RAM_END" using b by (simp add: word_less_nat_alt RAM_BASE_def RAM_END_def)
  then have "pmm_mark_used a b s = mark_from 0 (unat (addr_to_page (PAGE_ALIGN_UP b))) s"
    using assms(2) first by (simp add: pmm_mark_used_def Let_def)
  with mark_from_spec [OF assms(1), of 0 "unat (addr_to_page (PAGE_ALIGN_UP b))"] last used_le
  show ?thesis by (simp add: min_absorb2 atLeast0LessThan Un_absorb1)
qed

theorem pmm_mark_used_below_RAM_takes_all_witness:
  "used (pmm_mark_used 0x09000000 0x09001000 pmm_empty) = {..<TOTAL_PAGES}"
  by (rule pmm_mark_used_below_RAM_takes_all [OF pmm_inv_empty]) (simp_all add: RAM_BASE_def)

end
