(* ===== verification/Kmalloc.thy ===== *)
theory Kmalloc
  imports Pmm
begin

text \<open>
  The kernel heap, \<^verbatim>\<open>src/kmalloc.c\<close>: a singly linked list of blocks, each with a 32-byte
  header. Headers live in an explicit store from addresses to headers; following a pointer
  to an address that holds no header, or running off into a cycle, is \<open>None\<close>. The statistics
  dump and the console messages are not modelled; payload bytes appear only in \<open>kzalloc\<close>.
\<close>

section \<open>State\<close>

record block_header =
  bsize :: u64
  bfree :: bool
  bnext :: u64

record heap =
  hdrs :: "u64 \<rightharpoonup> block_header"
  heap_start :: u64
  heap_end :: u64
  total_allocated :: u64
  total_freed :: u64
  heap_size :: u64
  hpmm :: pmm

definition HEADER_SIZE :: u64 where "HEADER_SIZE = ALIGN16 24"

section \<open>Operations\<close>

definition put_header :: "u64 \<Rightarrow> block_header \<Rightarrow> heap \<Rightarrow> heap" where
  "put_header a b s = s\<lparr>hdrs := (hdrs s)(a \<mapsto> b)\<rparr>"

text \<open>
  \<open>heap_grow\<close>: the product \<open>pages * PAGE_SIZE\<close> is computed in 32 bits. When no pages are
  available the heap is left as it is.
\<close>

definition heap_grow :: "u32 \<Rightarrow> heap \<Rightarrow> heap option" where
  "heap_grow pages s =
     (let (pa, pm) = pmm_alloc_pages pages (hpmm s); s = s\<lparr>hpmm := pm\<rparr>
      in if pa = 0 then Some s
         else
           let new_pages = phys_to_virt pa;
               grow_size = (ucast (pages * 4096) :: u64);
               fresh = \<lparr>bsize = grow_size - HEADER_SIZE, bfree = True, bnext = 0\<rparr>;
               grown = (\<lambda>s. s\<lparr>heap_size := heap_size s + grow_size\<rparr>)
           in if heap_end s = 0
              then Some (grown ((put_header new_pages fresh s)
                     \<lparr>heap_start := new_pages, heap_end := new_pages\<rparr>))
              else case hdrs s (heap_end s) of
                None \<Rightarrow> None
              | Some e \<Rightarrow>
                  if heap_end s + HEADER_SIZE + bsize e = new_pages \<and> bfree e
                  then Some (grown (put_header (heap_end s) (e\<lparr>bsize := bsize e + grow_size\<rparr>) s))
                  else Some (grown ((put_header (heap_end s) (e\<lparr>bnext := new_pages\<rparr>)
                         (put_header new_pages fresh s))\<lparr>heap_end := new_pages\<rparr>)))"

definition kmalloc_init :: "pmm \<Rightarrow> heap option" where
  "kmalloc_init pm = heap_grow 16
     \<lparr>hdrs = Map.empty, heap_start = 0, heap_end = 0, total_allocated = 0, total_freed = 0,
      heap_size = 0, hpmm = pm\<rparr>"

text \<open>The first-fit search of \<open>kmalloc\<close>: the address of the block found, 0 at the end.\<close>

partial_function (option) find_fit :: "(u64 \<rightharpoonup> block_header) \<Rightarrow> u64 \<Rightarrow> u64 \<Rightarrow> u64 option" where
  "find_fit h sz cur =
     (if cur = 0 then Some 0
      else case h cur of
        None \<Rightarrow> None
      | Some b \<Rightarrow> if bfree b \<and> bsize b \<ge> sz then Some cur else find_fit h sz (bnext b))"

text \<open>The part of \<open>kmalloc\<close> that splits and takes the block found at \<open>cur\<close>.\<close>

definition take_block :: "u64 \<Rightarrow> u64 \<Rightarrow> heap \<Rightarrow> (u64 \<times> heap) option" where
  "take_block sz cur s =
     (case hdrs s cur of
        None \<Rightarrow> None
      | Some b \<Rightarrow>
          let (b, s) =
            (if bsize b \<ge> sz + HEADER_SIZE + 16 then
               let new_block = cur + HEADER_SIZE + sz;
                   s = put_header new_block
                     \<lparr>bsize = bsize b - sz - HEADER_SIZE, bfree = True, bnext = bnext b\<rparr> s;
                   s = (if cur = heap_end s then s\<lparr>heap_end := new_block\<rparr> else s)
               in (b\<lparr>bsize := sz, bnext := new_block\<rparr>, s)
             else (b, s));
            s = put_header cur (b\<lparr>bfree := False\<rparr>) s
          in Some (cur + HEADER_SIZE, s\<lparr>total_allocated := total_allocated s + bsize b\<rparr>))"

definition pages_needed :: "u64 \<Rightarrow> u32" where
  "pages_needed sz = (let p = (ucast ((sz + HEADER_SIZE + 4096 - 1) div 4096) :: u32)
     in if p < 4 then 4 else p)"

text \<open>\<open>kmalloc\<close> calls itself after growing the heap; \<open>None\<close> is a call that does not return.\<close>

partial_function (option) kmalloc :: "u64 \<Rightarrow> heap \<Rightarrow> (u64 \<times> heap) option" where
  "kmalloc sz s =
     (if sz = 0 then Some (0, s)
      else Option.bind (find_fit (hdrs s) (ALIGN16 sz) (heap_start s)) (\<lambda>cur.
        if cur \<noteq> 0 then take_block (ALIGN16 sz) cur s
        else Option.bind (heap_grow (pages_needed (ALIGN16 sz)) s) (\<lambda>s. kmalloc (ALIGN16 sz) s)))"

text \<open>The search of \<open>kfree\<close> for the predecessor of \<open>block\<close>.\<close>

partial_function (option) find_prev ::
  "(u64 \<rightharpoonup> block_header) \<Rightarrow> u64 \<Rightarrow> u64 \<Rightarrow> u64 \<Rightarrow> u64 option" where
  "find_prev h block prev cur =
     (if cur = 0 \<or> cur = block then Some prev
      else case h cur of None \<Rightarrow> None | Some b \<Rightarrow> find_prev h block cur (bnext b))"

definition merge_next :: "u64 \<Rightarrow> block_header \<Rightarrow> heap \<Rightarrow> heap option" where
  "merge_next block b s =
     (if bnext b = 0 then Some s
      else case hdrs s (bnext b) of
        None \<Rightarrow> None
      | Some n \<Rightarrow>
          if bfree n then
            Some ((put_header block
                     (b\<lparr>bsize := bsize b + (HEADER_SIZE + bsize n), bnext := bnext n\<rparr>) s)
                  \<lparr>heap_end := (if bnext b = heap_end s then block else heap_end s)\<rparr>)
          else Some s)"

definition merge_prev :: "u64 \<Rightarrow> heap \<Rightarrow> heap option" where
  "merge_prev block s =
     Option.bind (find_prev (hdrs s) block 0 (heap_start s)) (\<lambda>prev.
       if prev = 0 then Some s
       else Option.bind (hdrs s prev) (\<lambda>p.
         if bfree p then
           Option.bind (hdrs s block) (\<lambda>b.
             Some ((put_header prev
                      (p\<lparr>bsize := bsize p + (HEADER_SIZE + bsize b), bnext := bnext b\<rparr>) s)
                   \<lparr>heap_end := (if block = heap_end s then prev else heap_end s)\<rparr>))
         else Some s))"

definition kfree :: "u64 \<Rightarrow> heap \<Rightarrow> heap option" where
  "kfree ptr s =
     (if ptr = 0 then Some s
      else let block = ptr - HEADER_SIZE
        in case hdrs s block of
             None \<Rightarrow> None
           | Some b \<Rightarrow>
               let b = b\<lparr>bfree := True\<rparr>;
                   s = (put_header block b s)\<lparr>total_freed := total_freed s + bsize b\<rparr>
               in Option.bind (merge_next block b s) (merge_prev block))"

text \<open>\<open>kzalloc\<close> clears the payload bytes it was asked for.\<close>

definition kzalloc :: "u64 \<Rightarrow> heap \<Rightarrow> (u64 \<Rightarrow> u8) \<Rightarrow> (u64 \<times> heap \<times> (u64 \<Rightarrow> u8)) option" where
  "kzalloc sz s mem =
     map_option (\<lambda>(ptr, s). (ptr, s,
        if ptr = 0 then mem else fold (\<lambda>i m. m(ptr + of_nat i := 0)) [0..<unat sz] mem))
       (kmalloc sz s)"

lemma HEADER_SIZE_eq: "HEADER_SIZE = 32"
  by (simp add: HEADER_SIZE_def ALIGN16_def)

section \<open>The block list as a specification\<close>

text \<open>
  A block of the abstract heap is its header address, its payload size and whether it is
  free. \<open>chain h p bs q\<close>: following the headers of store \<open>h\<close> from \<open>p\<close> visits the blocks
  \<open>bs\<close> and arrives at \<open>q\<close>.
\<close>

type_synonym blk = "u64 \<times> u64 \<times> bool"

fun chain :: "(u64 \<rightharpoonup> block_header) \<Rightarrow> u64 \<Rightarrow> blk list \<Rightarrow> u64 \<Rightarrow> bool" where
  "chain h p [] q \<longleftrightarrow> p = q"
| "chain h p ((a, sz, fr) # bs) q \<longleftrightarrow>
     p = a \<and> (\<exists>n. h a = Some \<lparr>bsize = sz, bfree = fr, bnext = n\<rparr> \<and> chain h n bs q)"

fun extent :: "blk \<Rightarrow> nat set" where
  "extent (a, sz, fr) = {unat a..<unat a + 32 + unat sz}"

fun blk_ok :: "blk \<Rightarrow> bool" where
  "blk_ok (a, sz, fr) \<longleftrightarrow> a \<noteq> 0 \<and> 16 dvd unat a \<and> 16 dvd unat sz \<and> unat a + 32 + unat sz < 2 ^ 64"

fun layout :: "blk list \<Rightarrow> bool" where
  "layout [] \<longleftrightarrow> True"
| "layout (b # bs) \<longleftrightarrow> blk_ok b \<and> (\<forall>c \<in> set bs. extent b \<inter> extent c = {}) \<and> layout bs"

text \<open>
  \<open>heap_chain s bs\<close>: the pointers of state \<open>s\<close> realise the list \<open>bs\<close>; \<open>heap_is\<close> adds that the
  blocks are aligned, do not wrap around and do not overlap.
\<close>

definition heap_chain :: "heap \<Rightarrow> blk list \<Rightarrow> bool" where
  "heap_chain s bs \<longleftrightarrow> chain (hdrs s) (heap_start s) bs 0 \<and> distinct (map fst bs)
     \<and> 0 \<notin> fst ` set bs \<and> heap_end s = (if bs = [] then 0 else fst (last bs))"

definition heap_is :: "heap \<Rightarrow> blk list \<Rightarrow> bool" where
  "heap_is s bs \<longleftrightarrow> heap_chain s bs \<and> layout bs"

fun fits :: "u64 \<Rightarrow> blk \<Rightarrow> bool" where
  "fits n (a, sz, fr) \<longleftrightarrow> fr \<and> n \<le> sz"

definition carve :: "u64 \<Rightarrow> u64 \<Rightarrow> u64 \<Rightarrow> blk list" where
  "carve n a sz = (if unat n + 48 \<le> unat sz
     then [(a, n, False), (a + 32 + n, sz - n - 32, True)] else [(a, sz, False)])"

fun spec_alloc :: "u64 \<Rightarrow> blk list \<Rightarrow> (u64 \<times> blk list) option" where
  "spec_alloc n [] = None"
| "spec_alloc n ((a, sz, fr) # bs) =
     (if fits n (a, sz, fr) then Some (a, carve n a sz @ bs)
      else map_option (\<lambda>(p, bs'). (p, (a, sz, fr) # bs')) (spec_alloc n bs))"

fun join :: "blk \<Rightarrow> blk list \<Rightarrow> blk list" where
  "join (a, sz, fr) ((c, csz, cfr) # bs) =
     (if fr \<and> cfr then (a, sz + (32 + csz), True) # bs else (a, sz, fr) # (c, csz, cfr) # bs)"
| "join b [] = [b]"

fun spec_free :: "u64 \<Rightarrow> blk list \<Rightarrow> blk list" where
  "spec_free p [] = []"
| "spec_free p ((a, sz, fr) # bs) =
     (if a = p then join (a, sz, True) bs
      else case bs of
        [] \<Rightarrow> [(a, sz, fr)]
      | (c, csz, cfr) # cs \<Rightarrow>
          if c = p then join (a, sz, fr) (join (c, csz, True) cs)
          else (a, sz, fr) # spec_free p bs)"

section \<open>Lists of headers\<close>

lemma chain_append:
  "chain h p (xs @ ys) q \<longleftrightarrow> (\<exists>m. chain h p xs m \<and> chain h m ys q)"
proof (induction xs arbitrary: p)
  case Nil
  then show ?case by simp
next
  case (Cons b xs)
  then show ?case by (cases b) (simp, blast)
qed

lemma chain_upd: "a \<notin> fst ` set bs \<Longrightarrow> chain (h(a \<mapsto> v)) p bs q = chain h p bs q"
  by (induction bs arbitrary: p) auto

lemma layout_append:
  "layout (xs @ ys) \<longleftrightarrow> layout xs \<and> layout ys \<and> (\<forall>b \<in> set xs. \<forall>c \<in> set ys. extent b \<inter> extent c = {})"
  by (induction xs) auto

lemma layout_ok: "layout bs \<Longrightarrow> b \<in> set bs \<Longrightarrow> blk_ok b"
  by (induction bs) auto

lemma fst_in_extent: "unat (fst b) \<in> extent b"
  by (cases b) simp

lemma layout_distinct: "layout bs \<Longrightarrow> distinct (map fst bs)"
proof (induction bs)
  case Nil
  then show ?case by simp
next
  case (Cons b bs)
  have "fst b \<noteq> fst c" if "c \<in> set bs" for c
    using Cons.prems that fst_in_extent [of b] fst_in_extent [of c] by fastforce
  with Cons show ?case by auto
qed

lemma layout_nonzero: "layout bs \<Longrightarrow> 0 \<notin> fst ` set bs"
  using layout_ok by fastforce

lemma heap_isI:
  "\<lbrakk>chain (hdrs s) (heap_start s) bs 0; layout bs; heap_end s = (if bs = [] then 0 else fst (last bs))\<rbrakk>
    \<Longrightarrow> heap_is s bs"
  using layout_distinct layout_nonzero by (simp add: heap_is_def heap_chain_def)

lemma layout_replace:
  assumes "layout (xs @ b # ys)" "layout cs" "(\<Union>c \<in> set cs. extent c) \<subseteq> extent b"
  shows "layout (xs @ cs @ ys)"
proof -
  have sub: "extent c \<subseteq> extent b" if "c \<in> set cs" for c using assms(3) that by blast
  have A: "layout xs" "layout ys" "\<forall>x \<in> set xs. \<forall>y \<in> set ys. extent x \<inter> extent y = {}"
    "\<forall>x \<in> set xs. extent x \<inter> extent b = {}" "\<forall>y \<in> set ys. extent b \<inter> extent y = {}"
    using assms(1) by (simp_all add: layout_append)
  have B: "\<forall>x \<in> set xs. \<forall>c \<in> set cs. extent x \<inter> extent c = {}" using A(4) sub by blast
  have C: "\<forall>c \<in> set cs. \<forall>y \<in> set ys. extent c \<inter> extent y = {}" using A(5) sub by blast
  show ?thesis using A(1-3) B C assms(2) by (simp add: layout_append ball_Un)
qed

lemma heap_chain_split:
  assumes "heap_chain s (xs @ (p, sz, fr) # ys)"
  obtains n where "chain (hdrs s) (heap_start s) xs p"
    "hdrs s p = Some \<lparr>bsize = sz, bfree = fr, bnext = n\<rparr>" "chain (hdrs s) n ys 0"
    "p \<noteq> 0" "p \<notin> fst ` set xs" "p \<notin> fst ` set ys"
  using assms by (auto simp: heap_chain_def chain_append)

section \<open>Allocation refines the specification\<close>

lemma find_fit_chain:
  assumes "chain h p bs 0" "0 \<notin> fst ` set bs"
  shows "find_fit h n p = Some (case List.find (fits n) bs of None \<Rightarrow> 0 | Some b \<Rightarrow> fst b)"
  using assms
proof (induction bs arbitrary: p)
  case Nil
  then show ?case by (simp add: find_fit.simps)
next
  case (Cons b bs)
  then show ?case
    by (cases b) (auto simp: find_fit.simps [of h n p])
qed

lemma spec_alloc_None: "spec_alloc n bs = None \<longleftrightarrow> List.find (fits n) bs = None"
  by (induction n bs rule: spec_alloc.induct) auto

lemma spec_alloc_Some:
  assumes "spec_alloc n bs = Some (p, bs')"
  obtains xs sz ys where "bs = xs @ (p, sz, True) # ys" "\<forall>b \<in> set xs. \<not> fits n b" "n \<le> sz"
    "bs' = xs @ carve n p sz @ ys" "List.find (fits n) bs = Some (p, sz, True)"
proof -
  have "\<exists>xs sz ys. bs = xs @ (p, sz, True) # ys \<and> (\<forall>b \<in> set xs. \<not> fits n b) \<and> n \<le> sz
    \<and> bs' = xs @ carve n p sz @ ys \<and> List.find (fits n) bs = Some (p, sz, True)"
    using assms
  proof (induction n bs arbitrary: bs' rule: spec_alloc.induct)
    case (1 n)
    then show ?case by simp
  next
    case (2 n a sz fr bs)
    show ?case
    proof (cases "fits n (a, sz, fr)")
      case True
      with "2.prems" show ?thesis by (intro exI [of _ "[]"]) auto
    next
      case False
      with "2.prems" obtain bs1 where b: "spec_alloc n bs = Some (p, bs1)" "bs' = (a, sz, fr) # bs1"
        by auto
      from "2.IH" [OF False b(1)] obtain xs z ys where "bs = xs @ (p, z, True) # ys"
        "\<forall>b \<in> set xs. \<not> fits n b" "n \<le> z" "bs1 = xs @ carve n p z @ ys"
        "List.find (fits n) bs = Some (p, z, True)" by blast
      with False b(2) show ?thesis by (intro exI [of _ "(a, sz, fr) # xs"] exI [of _ z] exI [of _ ys]) auto
    qed
  qed
  then show ?thesis using that by blast
qed

lemma size_bound: "blk_ok (p, sz, fr) \<Longrightarrow> unat sz + 48 < 2 ^ 64"
  by (auto simp: unat_gt_0 dest!: dvd_imp_le)

lemma carve_layout:
  assumes "blk_ok (p, sz, fr)" "n \<le> sz" "16 dvd unat n"
  shows "layout (carve n p sz)" "(\<Union>c \<in> set (carve n p sz). extent c) = extent (p, sz, fr)"
proof -
  have b: "unat p + 32 + unat sz < 2 ^ 64" "16 dvd unat p" "16 dvd unat sz" "p \<noteq> 0"
    using assms(1) by auto
  have le: "unat n \<le> unat sz" using assms(2) by (simp add: word_le_nat_alt)
  have q: "unat (p + 32 + n) = unat p + 32 + unat n"
    using b(1) le by (simp add: unat_add_small)
  have r: "unat (sz - n - 32) = unat sz - unat n - 32" if "unat n + 48 \<le> unat sz"
    using that le by (simp add: unat_sub word_le_nat_alt)
  have nz: "p + 32 + n \<noteq> 0" using q by (metis add_eq_0_iff_both_eq_0 unat_0 zero_neq_numeral)
  have "layout (carve n p sz) \<and> (\<Union>c \<in> set (carve n p sz). extent c) = extent (p, sz, fr)"
  proof (cases "unat n + 48 \<le> unat sz")
    case True
    have "16 dvd unat (p + 32 + n)" "16 dvd unat (sz - n - 32)"
      unfolding q r [OF True] using b assms(3) by (auto intro!: dvd_add dvd_diff_nat)
    then show ?thesis
      using True b le nz assms(3) by (auto simp: carve_def q r)
  next
    case False
    then show ?thesis using b by (auto simp: carve_def)
  qed
  then show "layout (carve n p sz)" "(\<Union>c \<in> set (carve n p sz). extent c) = extent (p, sz, fr)"
    by auto
qed

lemma take_block_refines:
  assumes h: "heap_is s (xs @ (p, sz, True) # ys)" and n: "n \<le> sz" "16 dvd unat n"
  obtains s' where "take_block n p s = Some (p + 32, s')" "heap_is s' (xs @ carve n p sz @ ys)"
    "hpmm s' = hpmm s"
proof -
  have hc: "heap_chain s (xs @ (p, sz, True) # ys)" and lay: "layout (xs @ (p, sz, True) # ys)"
    using h by (simp_all add: heap_is_def)
  obtain m where m: "chain (hdrs s) (heap_start s) xs p"
    "hdrs s p = Some \<lparr>bsize = sz, bfree = True, bnext = m\<rparr>" "chain (hdrs s) m ys 0"
    "p \<noteq> 0" "p \<notin> fst ` set xs" "p \<notin> fst ` set ys"
    using heap_chain_split [OF hc] .
  have ok: "blk_ok (p, sz, True)" using layout_ok [OF lay, of "(p, sz, True)"] by simp
  note c = carve_layout [OF ok n]
  have lay': "layout (xs @ carve n p sz @ ys)" using layout_replace [OF lay c(1)] c(2) by simp
  have he: "heap_end s = (if ys = [] then p else fst (last ys))"
    using hc by (simp add: heap_chain_def)
  have pe: "p = heap_end s \<longleftrightarrow> ys = []" using he m(6) by auto
  have le: "unat n \<le> unat sz" using n(1) by (simp add: word_le_nat_alt)
  have fit: "n + HEADER_SIZE + 16 \<le> sz \<longleftrightarrow> unat n + 48 \<le> unat sz"
  proof -
    have "unat (n + 48) = unat n + 48"
      using size_bound [OF ok] le by (subst unat_add_small) auto
    then show ?thesis by (simp add: HEADER_SIZE_eq word_le_nat_alt add.commute)
  qed
  show ?thesis
  proof (cases "unat n + 48 \<le> unat sz")
    case True
    let ?q = "p + 32 + n"
    have car: "carve n p sz = [(p, n, False), (?q, sz - n - 32, True)]" using True by (simp add: carve_def)
    have "distinct (map fst (xs @ carve n p sz @ ys))" using layout_distinct [OF lay'] .
    then have q: "?q \<notin> fst ` set xs" "?q \<notin> fst ` set ys" "?q \<noteq> p" by (auto simp: car)
    let ?s' = "(put_header p \<lparr>bsize = n, bfree = False, bnext = ?q\<rparr>
       ((put_header ?q \<lparr>bsize = sz - n - 32, bfree = True, bnext = m\<rparr> s)
          \<lparr>heap_end := (if ys = [] then ?q else heap_end s)\<rparr>))\<lparr>total_allocated := total_allocated s + n\<rparr>"
    have "take_block n p s = Some (p + 32, ?s')"
      unfolding take_block_def using m(2) fit True pe
      by (auto simp: Let_def put_header_def HEADER_SIZE_eq add.commute add.left_commute)
    moreover have "heap_is ?s' (xs @ carve n p sz @ ys)"
      using m q he by (intro heap_isI lay') (auto simp: put_header_def car chain_append chain_upd)
    moreover have "hpmm ?s' = hpmm s" by (simp add: put_header_def)
    ultimately show ?thesis by (rule that)
  next
    case False
    have car: "carve n p sz = [(p, sz, False)]" using False by (simp add: carve_def)
    let ?s' = "(put_header p \<lparr>bsize = sz, bfree = False, bnext = m\<rparr> s)
       \<lparr>total_allocated := total_allocated s + sz\<rparr>"
    have "take_block n p s = Some (p + 32, ?s')"
      unfolding take_block_def using m(2) fit False by (simp add: Let_def put_header_def HEADER_SIZE_eq)
    moreover have "heap_is ?s' (xs @ carve n p sz @ ys)"
      using m he by (intro heap_isI lay') (auto simp: put_header_def car chain_append chain_upd)
    moreover have "hpmm ?s' = hpmm s" by (simp add: put_header_def)
    ultimately show ?thesis by (rule that)
  qed
qed

section \<open>Release refines the specification\<close>

lemma join_cases:
  "join (a, sz, fr) bs = (case bs of
     (c, csz, True) # cs \<Rightarrow> if fr then (a, sz + (32 + csz), True) # cs else (a, sz, fr) # bs
   | _ \<Rightarrow> (a, sz, fr) # bs)"
  by (cases "((a, sz, fr), bs)" rule: join.cases) (auto split: bool.splits)

lemma fst_hd_join: "fst (hd (join b bs)) = fst b" "join b bs \<noteq> []"
  by (cases b; cases "(b, bs)" rule: join.cases; simp)+

lemma spec_free_here: "spec_free p ((p, sz, fr) # bs) = join (p, sz, True) bs"
  by simp

lemma spec_free_next:
  "a \<noteq> p \<Longrightarrow> spec_free p ((a, sz, fr) # (p, csz, cfr) # cs) = join (a, sz, fr) (join (p, csz, True) cs)"
  by simp

lemma spec_free_later:
  "\<lbrakk>a \<noteq> p; bs = [] \<or> fst (hd bs) \<noteq> p\<rbrakk> \<Longrightarrow> spec_free p ((a, sz, fr) # bs) = (a, sz, fr) # spec_free p bs"
  by (cases bs) auto

lemma spec_free_cases:
  assumes "a = p \<Longrightarrow> Q (join (a, sz, True) bs)"
    and "\<And>csz cfr cs. \<lbrakk>a \<noteq> p; bs = (p, csz, cfr) # cs\<rbrakk> \<Longrightarrow> Q (join (a, sz, fr) (join (p, csz, True) cs))"
    and "\<lbrakk>a \<noteq> p; bs = [] \<or> fst (hd bs) \<noteq> p\<rbrakk> \<Longrightarrow> Q ((a, sz, fr) # spec_free p bs)"
  shows "Q (spec_free p ((a, sz, fr) # bs))"
proof (cases "a = p")
  case True
  then show ?thesis using assms(1) by simp
next
  case False
  show ?thesis
  proof (cases "bs = [] \<or> fst (hd bs) \<noteq> p")
    case True
    then show ?thesis using False assms(3) spec_free_later by metis
  next
    case 2: False
    then obtain csz cfr cs where "bs = (p, csz, cfr) # cs" by (cases bs) auto
    then show ?thesis using False assms(2) spec_free_next by metis
  qed
qed

declare spec_free.simps(2) [simp del]

lemma spec_free_split:
  assumes "p \<notin> fst ` set xs"
  shows "spec_free p (xs @ (p, sz, fr) # ys) =
    (if xs = [] then join (p, sz, True) ys
     else butlast xs @ join (last xs) (join (p, sz, True) ys))"
  using assms
proof (induction xs)
  case Nil
  then show ?case by (simp add: spec_free_here)
next
  case (Cons b xs)
  then show ?case
    by (cases b; cases xs) (auto simp: spec_free_next spec_free_later spec_free_here)
qed

lemma merge_next_refines:
  assumes h: "heap_chain s (xs @ (p, sz, True) # ys)" and b: "hdrs s p = Some b"
  obtains s' where "merge_next p b s = Some s'" "heap_chain s' (xs @ join (p, sz, True) ys)"
proof -
  obtain n where n: "chain (hdrs s) (heap_start s) xs p"
    "hdrs s p = Some \<lparr>bsize = sz, bfree = True, bnext = n\<rparr>" "chain (hdrs s) n ys 0"
    "p \<noteq> 0" "p \<notin> fst ` set xs" "p \<notin> fst ` set ys"
    using heap_chain_split [OF h] .
  have bb: "b = \<lparr>bsize = sz, bfree = True, bnext = n\<rparr>" using b n(2) by simp
  show ?thesis
  proof (cases ys)
    case Nil
    then have "merge_next p b s = Some s" using n(3) bb by (simp add: merge_next_def)
    moreover have "heap_chain s (xs @ join (p, sz, True) ys)" using h Nil by simp
    ultimately show ?thesis by (rule that)
  next
    case (Cons c cs)
    obtain a csz cfr where c: "c = (a, csz, cfr)" by (cases c)
    have a: "n = a" "a \<noteq> 0" using n(3) h Cons c by (auto simp: heap_chain_def)
    obtain m where m: "hdrs s a = Some \<lparr>bsize = csz, bfree = cfr, bnext = m\<rparr>" "chain (hdrs s) m cs 0"
      using n(3) Cons c by auto
    show ?thesis
    proof (cases cfr)
      case False
      then have "merge_next p b s = Some s" using bb a m by (simp add: merge_next_def)
      moreover have "heap_chain s (xs @ join (p, sz, True) ys)" using h Cons c False by simp
      ultimately show ?thesis by (rule that)
    next
      case True
      let ?s' = "(put_header p \<lparr>bsize = sz + (32 + csz), bfree = True, bnext = m\<rparr> s)
         \<lparr>heap_end := (if a = heap_end s then p else heap_end s)\<rparr>"
      have "merge_next p b s = Some ?s'"
        using bb a m True by (simp add: merge_next_def HEADER_SIZE_eq)
      moreover have "heap_chain ?s' (xs @ join (p, sz, True) ys)"
      proof -
        have e: "a = heap_end s \<longleftrightarrow> cs = []"
          using h Cons c by (auto simp: heap_chain_def split: if_splits)
        show ?thesis
          using h n m Cons c True e
          by (auto simp: heap_chain_def put_header_def chain_append chain_upd)
      qed
      ultimately show ?thesis by (rule that)
    qed
  qed
qed

lemma find_prev_chain:
  assumes "chain h q xs p" "p \<notin> fst ` set xs" "0 \<notin> fst ` set xs"
  shows "find_prev h p prev q = Some (if xs = [] then prev else fst (last xs))"
  using assms
proof (induction xs arbitrary: q prev)
  case Nil
  then show ?case by (simp add: find_prev.simps)
next
  case (Cons b xs)
  then show ?case by (cases b) (auto simp: find_prev.simps [of h p prev q])
qed

lemma merge_prev_refines:
  assumes h: "heap_chain s (xs @ (p, sz, True) # ys)"
  obtains s' where "merge_prev p s = Some s'"
    "heap_chain s' (if xs = [] then (p, sz, True) # ys else butlast xs @ join (last xs) ((p, sz, True) # ys))"
proof -
  obtain n where n: "chain (hdrs s) (heap_start s) xs p"
    "hdrs s p = Some \<lparr>bsize = sz, bfree = True, bnext = n\<rparr>" "chain (hdrs s) n ys 0"
    "p \<noteq> 0" "p \<notin> fst ` set xs" "p \<notin> fst ` set ys"
    using heap_chain_split [OF h] .
  have z: "0 \<notin> fst ` set xs" using h by (auto simp: heap_chain_def)
  note fp = find_prev_chain [OF n(1,5) z, of 0]
  show ?thesis
  proof (cases xs rule: rev_cases)
    case Nil
    then have "merge_prev p s = Some s" using fp by (simp add: merge_prev_def)
    moreover have "heap_chain s ((p, sz, True) # ys)" using h Nil by simp
    ultimately show ?thesis using that Nil by simp
  next
    case (snoc zs b)
    obtain q qsz qfr where b: "b = (q, qsz, qfr)" by (cases b)
    have q: "q \<noteq> 0" "q \<noteq> p" "q \<notin> fst ` set zs" "q \<notin> fst ` set ys"
      using h snoc b by (auto simp: heap_chain_def)
    have hq: "chain (hdrs s) (heap_start s) zs q"
      "hdrs s q = Some \<lparr>bsize = qsz, bfree = qfr, bnext = p\<rparr>"
      using n(1) snoc b by (auto simp: chain_append)
    show ?thesis
    proof (cases qfr)
      case False
      then have "merge_prev p s = Some s" using fp snoc b q hq by (simp add: merge_prev_def)
      moreover have "heap_chain s (butlast xs @ join (last xs) ((p, sz, True) # ys))"
        using h snoc b False by simp
      ultimately show ?thesis using that snoc by simp
    next
      case True
      let ?s' = "(put_header q \<lparr>bsize = qsz + (32 + sz), bfree = True, bnext = n\<rparr> s)
         \<lparr>heap_end := (if p = heap_end s then q else heap_end s)\<rparr>"
      have "merge_prev p s = Some ?s'"
        using fp snoc b q hq n(2) True by (simp add: merge_prev_def HEADER_SIZE_eq)
      moreover have "heap_chain ?s' (butlast xs @ join (last xs) ((p, sz, True) # ys))"
      proof -
        have e: "p = heap_end s \<longleftrightarrow> ys = []"
          using h n(6) by (auto simp: heap_chain_def split: if_splits)
        show ?thesis
          using h n q hq snoc b True e
          by (auto simp: heap_chain_def put_header_def chain_append chain_upd)
      qed
      ultimately show ?thesis using that snoc by simp
    qed
  qed
qed

lemma kfree_chain:
  assumes h: "heap_chain s bs" and p: "p \<in> fst ` set bs" and nz: "p + 32 \<noteq> 0"
  obtains s' where "kfree (p + 32) s = Some s'" "heap_chain s' (spec_free p bs)"
proof -
  obtain xs sz fr ys where bs: "bs = xs @ (p, sz, fr) # ys" "p \<notin> fst ` set xs"
  proof -
    obtain sz fr where "(p, sz, fr) \<in> set bs" using p by auto
    then obtain xs ys where b: "bs = xs @ (p, sz, fr) # ys" by (auto dest: split_list)
    with h have "p \<notin> fst ` set xs" by (auto simp: heap_chain_def)
    with b show ?thesis by (rule that)
  qed
  obtain n where n: "chain (hdrs s) (heap_start s) xs p"
    "hdrs s p = Some \<lparr>bsize = sz, bfree = fr, bnext = n\<rparr>" "chain (hdrs s) n ys 0"
    "p \<noteq> 0" "p \<notin> fst ` set xs" "p \<notin> fst ` set ys"
    using heap_chain_split [OF h [unfolded bs(1)]] .
  let ?b = "\<lparr>bsize = sz, bfree = True, bnext = n\<rparr>"
  let ?s1 = "(put_header p ?b s)\<lparr>total_freed := total_freed s + sz\<rparr>"
  have s1: "heap_chain ?s1 (xs @ (p, sz, True) # ys)"
    using h n bs by (auto simp: heap_chain_def put_header_def chain_append chain_upd)
  have b1: "hdrs ?s1 p = Some ?b" by (simp add: put_header_def)
  obtain s2 where s2: "merge_next p ?b ?s1 = Some s2" "heap_chain s2 (xs @ join (p, sz, True) ys)"
    using merge_next_refines [OF s1 b1] .
  obtain z zs where j: "join (p, sz, True) ys = (p, z, True) # zs"
  proof -
    have "\<exists>z zs. join (p, sz, True) ys = (p, z, True) # zs"
      by (cases "((p, sz, True), ys)" rule: join.cases) auto
    then show ?thesis using that by blast
  qed
  obtain s3 where s3: "merge_prev p s2 = Some s3"
    "heap_chain s3 (if xs = [] then (p, z, True) # zs else butlast xs @ join (last xs) ((p, z, True) # zs))"
    using merge_prev_refines s2(2) unfolding j by blast
  have "kfree (p + 32) s = Some s3"
    using nz n(2) s2(1) s3(1) by (simp add: kfree_def HEADER_SIZE_eq Let_def)
  moreover have "heap_chain s3 (spec_free p bs)"
    using s3(2) unfolding bs(1) spec_free_split [OF bs(2)] j by simp
  ultimately show ?thesis by (rule that)
qed

section \<open>Adjacent and coalesced heaps\<close>

text \<open>
  \<open>adjacent\<close>: each block ends where the next one begins, as on a heap that has only grown
  contiguously. \<open>coalesced\<close>: no two neighbours in the list are both free.
\<close>

fun adjacent :: "blk list \<Rightarrow> bool" where
  "adjacent ((a, sz, fr) # (c, csz, cfr) # bs) \<longleftrightarrow>
     unat a + 32 + unat sz = unat c \<and> adjacent ((c, csz, cfr) # bs)"
| "adjacent _ \<longleftrightarrow> True"

fun coalesced :: "blk list \<Rightarrow> bool" where
  "coalesced ((a, sz, fr) # (c, csz, cfr) # bs) \<longleftrightarrow>
     \<not> (fr \<and> cfr) \<and> coalesced ((c, csz, cfr) # bs)"
| "coalesced _ \<longleftrightarrow> True"

definition covers :: "blk list \<Rightarrow> nat set" where
  "covers bs = (\<Union>b \<in> set bs. extent b)"

lemma covers_simps [simp]:
  "covers [] = {}" "covers (b # bs) = extent b \<union> covers bs"
  "covers (xs @ ys) = covers xs \<union> covers ys"
  by (auto simp: covers_def)

lemma layout_Cons_covers: "layout (b # bs) \<longleftrightarrow> blk_ok b \<and> extent b \<inter> covers bs = {} \<and> layout bs"
  by (auto simp: covers_def)

lemma adjacent_tl: "adjacent (b # bs) \<Longrightarrow> adjacent bs"
  by (cases b; cases bs) auto

lemma adjacent_Cons: "adjacent (b # bs) \<longleftrightarrow>
    adjacent bs \<and> (bs \<noteq> [] \<longrightarrow> unat (fst b) + 32 + unat (fst (snd b)) = unat (fst (hd bs)))"
  by (cases b; cases bs) auto

lemma layout_merge:
  assumes "layout ((a, sz, fr) # (c, csz, cfr) # bs)" "unat a + 32 + unat sz = unat c"
  shows "layout ((a, sz + (32 + csz), fr') # bs)"
    and "extent (a, sz + (32 + csz), fr') = extent (a, sz, fr) \<union> extent (c, csz, cfr)"
    and "unat a + 32 + unat (sz + (32 + csz)) = unat c + 32 + unat csz"
proof -
  have ok: "blk_ok (a, sz, fr)" "blk_ok (c, csz, cfr)" using assms(1) by auto
  have u: "unat (sz + (32 + csz)) = unat sz + 32 + unat csz"
  proof -
    have "unat (32 + csz) = 32 + unat csz" using ok by (subst unat_add_small) auto
    then show ?thesis using ok assms(2) by (subst unat_add_small) auto
  qed
  show e: "extent (a, sz + (32 + csz), fr') = extent (a, sz, fr) \<union> extent (c, csz, cfr)"
    using assms(2) by (auto simp: u)
  show "unat a + 32 + unat (sz + (32 + csz)) = unat c + 32 + unat csz" using u assms(2) by simp
  have "blk_ok (a, sz + (32 + csz), fr')"
    using ok assms(2) by (auto simp: u intro!: dvd_add)
  with assms(1) e show "layout ((a, sz + (32 + csz), fr') # bs)"
    unfolding layout_Cons_covers covers_simps by blast
qed

lemma layout_snoc: "layout (xs @ [b]) \<longleftrightarrow> layout xs \<and> blk_ok b \<and> covers xs \<inter> extent b = {}"
  by (auto simp: layout_append covers_def)

lemma join_layout:
  assumes "layout (b # bs)" "adjacent (b # bs)"
  shows "layout (join b bs)" "adjacent (join b bs)" "covers (join b bs) = extent b \<union> covers bs"
proof -
  have "layout (join b bs) \<and> adjacent (join b bs) \<and> covers (join b bs) = extent b \<union> covers bs"
  proof (cases "(b, bs)" rule: join.cases)
    case (1 a sz fr c csz cfr cs)
    then have adj: "unat a + 32 + unat sz = unat c" "adjacent ((c, csz, cfr) # cs)"
      using assms(2) by auto
    have lay: "layout ((a, sz, fr) # (c, csz, cfr) # cs)" using assms(1) 1 by simp
    note mg = layout_merge(1,2) [OF lay adj(1), of True] layout_merge(3) [OF lay adj(1)]
    have "adjacent ((a, sz + (32 + csz), True) # cs)"
      using adj(2) mg(3) unfolding adjacent_Cons by (cases "cs = []") auto
    moreover have bb: "b = (a, sz, fr)" "bs = (c, csz, cfr) # cs" using 1 by auto
    ultimately have merged: ?thesis if "join b bs = (a, sz + (32 + csz), True) # cs"
      using mg(1,2) unfolding that
      by (simp add: bb Un_assoc del: layout.simps extent.simps)
    show ?thesis
    proof (cases "fr \<and> cfr")
      case True
      then show ?thesis using merged 1 by simp
    next
      case False
      then have "join b bs = b # bs" using 1 by auto
      then show ?thesis using assms by simp
    qed
  next
    case (2 b)
    then show ?thesis using assms by auto
  qed
  then show "layout (join b bs)" "adjacent (join b bs)" "covers (join b bs) = extent b \<union> covers bs"
    by auto
qed

lemma layout_flag: "layout ((a, sz, fr) # bs) \<Longrightarrow> layout ((a, sz, fr') # bs)"
  by auto

lemma adjacent_flag: "adjacent ((a, sz, fr) # bs) \<Longrightarrow> adjacent ((a, sz, fr') # bs)"
  by (simp add: adjacent_Cons)

lemma fst_hd_spec_free: "bs \<noteq> [] \<Longrightarrow> spec_free p bs \<noteq> [] \<and> fst (hd (spec_free p bs)) = fst (hd bs)"
proof (cases bs)
  case (Cons b cs)
  obtain a sz fr where b: "b = (a, sz, fr)" by (cases b)
  show ?thesis unfolding Cons b by (rule spec_free_cases) (auto simp: fst_hd_join)
qed simp

lemma spec_free_layout:
  assumes "layout bs" "adjacent bs"
  shows "layout (spec_free p bs) \<and> adjacent (spec_free p bs) \<and> covers (spec_free p bs) = covers bs"
  using assms
proof (induction bs)
  case Nil
  then show ?case by simp
next
  case (Cons b bs)
  obtain a sz fr where b: "b = (a, sz, fr)" by (cases b)
  note pr = Cons.prems [unfolded b]
  show ?case unfolding b
  proof (rule spec_free_cases)
    show "layout (join (a, sz, True) bs) \<and> adjacent (join (a, sz, True) bs)
        \<and> covers (join (a, sz, True) bs) = covers ((a, sz, fr) # bs)"
      using join_layout [OF layout_flag [OF pr(1)] adjacent_flag [OF pr(2)], of True] by simp
  next
    fix csz cfr cs assume bs: "bs = (p, csz, cfr) # cs"
    have l: "layout ((p, csz, True) # cs)" "adjacent ((p, csz, True) # cs)"
      using pr layout_flag [of p csz cfr cs] adjacent_flag [of p csz cfr cs]
      unfolding bs adjacent_Cons [of "(a, sz, fr)"] by auto
    note j = join_layout [OF l]
    have "layout ((a, sz, fr) # join (p, csz, True) cs)"
      using pr(1) j unfolding bs layout_Cons_covers by simp
    moreover have "adjacent ((a, sz, fr) # join (p, csz, True) cs)"
      using pr(2) j(2) unfolding bs adjacent_Cons [of "(a, sz, fr)"] by (simp add: fst_hd_join)
    ultimately show "layout (join (a, sz, fr) (join (p, csz, True) cs))
        \<and> adjacent (join (a, sz, fr) (join (p, csz, True) cs))
        \<and> covers (join (a, sz, fr) (join (p, csz, True) cs)) = covers ((a, sz, fr) # bs)"
      using join_layout j(3) bs by auto
  next
    have "layout bs" "adjacent bs" using pr adjacent_tl by auto
    from Cons.IH [OF this] show "layout ((a, sz, fr) # spec_free p bs)
        \<and> adjacent ((a, sz, fr) # spec_free p bs)
        \<and> covers ((a, sz, fr) # spec_free p bs) = covers ((a, sz, fr) # bs)"
      using pr fst_hd_spec_free [of bs p]
      unfolding layout_Cons_covers adjacent_Cons [of "(a, sz, fr)"] covers_simps
      by (cases "bs = []") auto
  qed
qed

lemma coalesced_Cons: "coalesced (b # bs) \<longleftrightarrow>
    coalesced bs \<and> (bs \<noteq> [] \<longrightarrow> \<not> (snd (snd b) \<and> snd (snd (hd bs))))"
  by (cases b; cases bs) auto

lemma join_coalesced:
  "coalesced bs \<Longrightarrow> coalesced (join b bs) \<and> snd (snd (hd (join b bs))) = snd (snd b)"
  by (cases "(b, bs)" rule: join.cases) (auto simp: coalesced_Cons)

lemma spec_free_coalesced:
  assumes "coalesced bs"
  shows "coalesced (spec_free p bs)
    \<and> (bs \<noteq> [] \<longrightarrow> fst (hd bs) \<noteq> p \<longrightarrow> snd (snd (hd (spec_free p bs))) = snd (snd (hd bs)))"
  using assms
proof (induction bs)
  case Nil
  then show ?case by simp
next
  case (Cons b bs)
  obtain a sz fr where b: "b = (a, sz, fr)" by (cases b)
  show ?case unfolding b
    by (rule spec_free_cases)
      (use Cons b in \<open>auto simp: coalesced_Cons join_coalesced fst_hd_spec_free\<close>)
qed

lemma coalesced_append: "coalesced (xs @ ys) \<longleftrightarrow> coalesced xs \<and> coalesced ys \<and>
    (xs \<noteq> [] \<longrightarrow> ys \<noteq> [] \<longrightarrow> \<not> (snd (snd (last xs)) \<and> snd (snd (hd ys))))"
  by (induction xs) (auto simp: coalesced_Cons hd_append)

text \<open>Taking a block and giving it back: on a coalesced list the split is undone.\<close>

lemma spec_free_carve:
  assumes "coalesced (xs @ (p, sz, True) # ys)" "p \<notin> fst ` set xs"
  shows "spec_free p (xs @ carve n p sz @ ys) = xs @ (p, sz, True) # ys"
proof -
  have ys: "join (p, sz, True) ys = (p, sz, True) # ys"
    using assms(1) by (cases ys) (auto simp: coalesced_append join_cases split: bool.splits)
  have xs: "butlast xs @ join (last xs) ((p, sz, True) # ys) = xs @ (p, sz, True) # ys" if "xs \<noteq> []"
  proof -
    have "\<not> snd (snd (last xs))" using assms(1) that by (simp add: coalesced_append)
    then have "join (last xs) ((p, sz, True) # ys) = last xs # (p, sz, True) # ys"
      by (cases "last xs") simp
    then show ?thesis using that by (metis append.assoc append_Cons append_Nil append_butlast_last_id)
  qed
  show ?thesis
  proof (cases "unat n + 48 \<le> unat sz")
    case True
    have "join (p, n, True) ((p + 32 + n, sz - n - 32, True) # ys) = (p, sz, True) # ys"
      by simp
    then show ?thesis
      using True xs spec_free_split [OF assms(2), of n False] by (simp add: carve_def)
  next
    case False
    then show ?thesis
      using xs ys spec_free_split [OF assms(2), of sz False] by (simp add: carve_def)
  qed
qed

section \<open>The heap inside the pages it owns\<close>

definition page_bytes :: "nat set \<Rightarrow> nat set" where
  "page_bytes P = (\<Union>p \<in> P. {0xFFFFFF8040000000 + p * 4096..<0xFFFFFF8040000000 + (p + 1) * 4096})"

definition heap_inv :: "heap \<Rightarrow> blk list \<Rightarrow> bool" where
  "heap_inv s bs \<longleftrightarrow> heap_is s bs \<and> pmm_inv (hpmm s) \<and> covers bs \<subseteq> page_bytes (used (hpmm s))"

lemma unat_page_kva:
  assumes "p < TOTAL_PAGES"
  shows "unat (phys_to_virt (page_to_addr (of_nat p))) = 0xFFFFFF8040000000 + p * 4096"
  using assms unat_page_to_addr [OF assms]
  by (simp add: phys_to_virt_def KERN_VA_OFFSET_def TOTAL_PAGES_def unat_add_small)

lemma page_bytes_Un: "page_bytes (A \<union> B) = page_bytes A \<union> page_bytes B"
  by (auto simp: page_bytes_def)

lemma page_of_byte:
  "x \<in> page_bytes A \<longleftrightarrow> 0xFFFFFF8040000000 \<le> x \<and> (x - 0xFFFFFF8040000000) div 4096 \<in> A"
proof -
  define k :: nat where "k = 0xFFFFFF8040000000"
  have "k + p * 4096 \<le> x \<and> x < k + (p + 1) * 4096 \<longleftrightarrow> k \<le> x \<and> (x - k) div 4096 = p" for p
    by (auto intro!: div_nat_eqI simp: mult.commute)
  then show ?thesis unfolding page_bytes_def k_def [symmetric] by auto
qed

lemma page_bytes_disjoint: "A \<inter> B = {} \<Longrightarrow> page_bytes A \<inter> page_bytes B = {}"
  by (auto simp: page_of_byte)

lemma page_bytes_window:
  "{0xFFFFFF8040000000 + p * 4096..<0xFFFFFF8040000000 + (p + n) * 4096} = page_bytes {p..<p + n}"
proof (induction n)
  case 0
  then show ?case by (simp add: page_bytes_def)
next
  case (Suc n)
  have "{p..<p + Suc n} = {p..<p + n} \<union> {p + n}" by auto
  then have "page_bytes {p..<p + Suc n} = page_bytes {p..<p + n} \<union> page_bytes {p + n}"
    by (simp only: page_bytes_Un)
  with Suc show ?case by (auto simp: page_bytes_def)
qed

lemma heap_inv_fit:
  assumes h: "heap_inv s bs" and sz: "sz \<noteq> 0"
    and a: "spec_alloc (ALIGN16 sz) bs = Some (p, bs')"
  obtains s' where "kmalloc sz s = Some (p + 32, s')" "heap_inv s' bs'" "hpmm s' = hpmm s"
proof -
  let ?n = "ALIGN16 sz"
  obtain xs z ys where b: "bs = xs @ (p, z, True) # ys" "?n \<le> z" "bs' = xs @ carve ?n p z @ ys"
    "List.find (fits ?n) bs = Some (p, z, True)"
    using spec_alloc_Some [OF a] .
  have hi: "heap_is s (xs @ (p, z, True) # ys)" using h b(1) by (simp add: heap_inv_def)
  obtain s' where s': "take_block ?n p s = Some (p + 32, s')" "heap_is s' bs'" "hpmm s' = hpmm s"
    using take_block_refines [OF hi b(2) ALIGN16_dvd] b(3) by blast
  have c: "chain (hdrs s) (heap_start s) bs 0" "0 \<notin> fst ` set bs"
    using h by (simp_all add: heap_inv_def heap_is_def heap_chain_def)
  have "p \<noteq> 0" using c(2) b(1) by auto
  then have "kmalloc sz s = Some (p + 32, s')"
    using sz s'(1) find_fit_chain [OF c, of ?n] b(4) by (simp add: kmalloc.simps [of sz])
  moreover have "heap_inv s' bs'"
  proof -
    have "blk_ok (p, z, True)"
      using h b(1) layout_ok [of bs "(p, z, True)"] by (simp add: heap_inv_def heap_is_def)
    from carve_layout(2) [OF this b(2) ALIGN16_dvd] have "covers bs' = covers bs"
      unfolding b(1,3) by (simp add: covers_def Un_left_commute)
    then show ?thesis using h s'(2,3) by (simp add: heap_inv_def)
  qed
  ultimately show ?thesis using s'(3) that by blast
qed

text \<open>What \<open>heap_grow\<close> adds: a new free block at the end, or room in the last block.\<close>

definition grown :: "blk list \<Rightarrow> u64 \<Rightarrow> u64 \<Rightarrow> blk list \<Rightarrow> bool" where
  "grown bs new sz bs' \<longleftrightarrow> bs' = bs @ [(new, sz - 32, True)]
     \<or> (\<exists>xs e esz. bs = xs @ [(e, esz, True)] \<and> unat e + 32 + unat esz = unat new
           \<and> unat (esz + sz) = unat esz + unat sz \<and> bs' = xs @ [(e, esz + sz, True)])"

lemma fresh_region:
  assumes p: "p + n \<le> TOTAL_PAGES" and n: "0 < n" and sz: "unat sz = n * 4096"
  defines "new \<equiv> phys_to_virt (page_to_addr (of_nat p))"
  shows "blk_ok (new, sz - 32, True)" "extent (new, sz - 32, True) = page_bytes {p..<p + n}"
    "unat new + n * 4096 < 2 ^ 64" "16 dvd unat sz" "unat (sz - 32) = n * 4096 - 32"
proof -
  have u: "unat new = 0xFFFFFF8040000000 + p * 4096"
    using p n unat_page_kva [of p] by (simp add: new_def)
  have le: "32 \<le> sz" using sz n by (simp add: word_le_nat_alt)
  show r: "unat (sz - 32) = n * 4096 - 32" using le sz by (simp add: unat_sub)
  show lt: "unat new + n * 4096 < 2 ^ 64" using u p by (simp add: TOTAL_PAGES_def)
  show d: "16 dvd unat sz" unfolding sz by simp
  have "n * 4096 - 32 = (n * 256 - 2) * 16" by simp
  then have "16 dvd n * 4096 - 32" by (simp only: dvd_triv_right)
  moreover have "0xFFFFFF8040000000 + p * 4096 = (0xFFFFFF804000000 + p * 256) * (16 :: nat)" by simp
  then have "16 dvd unat new" unfolding u by (simp only: dvd_triv_right)
  ultimately show "blk_ok (new, sz - 32, True)"
    using lt u n r by (auto simp: unat_eq_0 [symmetric])
  have "n * 4096 - 32 + 32 = n * 4096" using n by simp
  then show "extent (new, sz - 32, True) = page_bytes {p..<p + n}"
    unfolding page_bytes_window [symmetric] using u r n by (simp add: algebra_simps)
qed

lemma heap_grow_inv:
  assumes h: "heap_inv s bs" and pg: "0 < pages"
    and al: "pmm_alloc_pages pages (hpmm s) = (pa, pm)" "pa \<noteq> 0"
  obtains s' bs' where "heap_grow pages s = Some s'" "heap_inv s' bs'"
    "grown bs (phys_to_virt pa) (ucast (pages * 4096)) bs'" "unat (ucast (pages * 4096) :: u64) = unat pages * 4096"
    "hpmm s' = pm"
proof -
  have pinv: "pmm_inv (hpmm s)" and hi: "heap_is s bs" and cov: "covers bs \<subseteq> page_bytes (used (hpmm s))"
    using h by (simp_all add: heap_inv_def)
  obtain p where p: "free_window p (unat pages) (hpmm s)" "pa = page_to_addr (of_nat p)" "pmm_inv pm"
    "used pm = used (hpmm s) \<union> {p..<p + unat pages}"
    using pmm_alloc_pages_cases [OF pinv pg al(1)] al(2) by auto
  let ?n = "unat pages" and ?new = "phys_to_virt pa" and ?sz = "ucast (pages * 4096) :: u64"
  have pn: "p + ?n \<le> TOTAL_PAGES" and n0: "0 < ?n"
    using p(1) pg by (simp_all add: free_window_def word_less_nat_alt)
  have n: "?n \<le> TOTAL_PAGES" using pn by simp
  have sz: "unat ?sz = ?n * 4096"
    using n by (simp add: unat_ucast unat_word_ariths TOTAL_PAGES_def)
  note fr = fresh_region [OF pn n0 sz, folded p(2)]
  have dis: "covers bs \<inter> page_bytes {p..<p + ?n} = {}"
    using cov page_bytes_disjoint [OF free_window_used [OF p(1)]] by blast
  have used': "page_bytes (used pm) = page_bytes (used (hpmm s)) \<union> page_bytes {p..<p + ?n}"
    by (simp only: p(4) page_bytes_Un)
  have hc: "chain (hdrs s) (heap_start s) bs 0" "layout bs"
    "heap_end s = (if bs = [] then 0 else fst (last bs))" "0 \<notin> fst ` set bs"
    using hi by (simp_all add: heap_is_def heap_chain_def)
  have lay1: "layout (bs @ [(?new, ?sz - 32, True)])"
    using hc(2) fr(1,2) dis unfolding layout_append covers_def by auto
  have new: "?new \<notin> fst ` set bs" using layout_distinct [OF lay1] by auto
  let ?fresh = "\<lparr>bsize = ?sz - 32, bfree = True, bnext = 0\<rparr>"
  show ?thesis
  proof (cases bs rule: rev_cases)
    case Nil
    let ?s' = "(put_header ?new ?fresh (s\<lparr>hpmm := pm\<rparr>))
      \<lparr>heap_start := ?new, heap_end := ?new, heap_size := heap_size s + ?sz\<rparr>"
    have "heap_grow pages s = Some ?s'"
      using al hc(3) Nil by (simp add: heap_grow_def put_header_def HEADER_SIZE_eq Let_def)
    moreover have "heap_is ?s' [(?new, ?sz - 32, True)]"
      using lay1 Nil by (intro heap_isI) (simp_all add: put_header_def)
    then have "heap_inv ?s' [(?new, ?sz - 32, True)]"
      using p(3) fr(2) used' by (simp add: heap_inv_def put_header_def)
    moreover have "grown bs ?new ?sz [(?new, ?sz - 32, True)]" using Nil by (simp add: grown_def)
    ultimately show ?thesis using that sz by (simp add: put_header_def)
  next
    case (snoc xs b)
    obtain e esz efr where b: "b = (e, esz, efr)" by (cases b)
    have e: "heap_end s = e" "e \<noteq> 0" "e \<noteq> ?new" "e \<notin> fst ` set xs"
      using hc snoc b new layout_distinct [OF hc(2)] by auto
    obtain m where he: "hdrs s e = Some \<lparr>bsize = esz, bfree = efr, bnext = 0\<rparr>"
      and hx: "chain (hdrs s) (heap_start s) xs e"
      using hc(1) snoc b by (auto simp: chain_append)
    have ok: "blk_ok (e, esz, efr)" using layout_ok [OF hc(2), of b] snoc b by simp
    have ends: "e + 32 + esz = ?new \<longleftrightarrow> unat e + 32 + unat esz = unat ?new"
      using ok by (simp add: word_unat_eq_iff unat_add_small)
    show ?thesis
    proof (cases "e + 32 + esz = ?new \<and> efr")
      case True
      let ?s' = "(put_header e \<lparr>bsize = esz + ?sz, bfree = True, bnext = 0\<rparr> (s\<lparr>hpmm := pm\<rparr>))
         \<lparr>heap_size := heap_size s + ?sz\<rparr>"
      let ?bs' = "xs @ [(e, esz + ?sz, True)]"
      have adj: "unat e + 32 + unat esz = unat ?new" using True ends by simp
      have ue: "unat (esz + ?sz) = unat esz + ?n * 4096"
        using fr(3) adj sz by (subst unat_add_small) auto
      have ext: "extent (e, esz + ?sz, True) = extent (e, esz, True) \<union> page_bytes {p..<p + ?n}"
        using adj fr(2,5) n0 by (auto simp: ue fr(2) [symmetric])
      have okb: "blk_ok (e, esz + ?sz, True)"
        using ok fr(3,4) adj sz by (auto simp: ue intro!: dvd_add)
      have "layout ?bs'"
      proof -
        have "covers xs \<inter> extent (e, esz, True) = {}" "layout xs"
          using hc(2) unfolding snoc b layout_snoc by simp_all
        moreover have "covers xs \<inter> page_bytes {p..<p + ?n} = {}"
          using dis unfolding snoc by auto
        ultimately show ?thesis using okb unfolding layout_snoc ext Int_Un_distrib by simp
      qed
      then have "heap_is ?s' ?bs'"
        using hx e hc(3) snoc b by (intro heap_isI) (auto simp: put_header_def chain_append chain_upd)
      moreover have "covers ?bs' \<subseteq> page_bytes (used pm)"
        using cov ext used' snoc b True by (auto simp del: extent.simps)
      ultimately have "heap_inv ?s' ?bs'" using p(3) by (simp add: heap_inv_def put_header_def)
      moreover have "heap_grow pages s = Some ?s'"
        using al e he True by (simp add: heap_grow_def put_header_def HEADER_SIZE_eq Let_def)
      moreover have "grown bs ?new ?sz ?bs'" using snoc b True adj ue sz by (auto simp: grown_def)
      ultimately show ?thesis using that sz by (simp add: put_header_def)
    next
      case False
      let ?s' = "(put_header e \<lparr>bsize = esz, bfree = efr, bnext = ?new\<rparr>
         (put_header ?new ?fresh (s\<lparr>hpmm := pm\<rparr>)))\<lparr>heap_end := ?new, heap_size := heap_size s + ?sz\<rparr>"
      let ?bs' = "bs @ [(?new, ?sz - 32, True)]"
      have "heap_is ?s' ?bs'"
        using lay1 hx he e new snoc b
        by (intro heap_isI) (auto simp: put_header_def chain_append chain_upd)
      moreover have "covers ?bs' \<subseteq> page_bytes (used pm)" using cov fr(2) used' by auto
      ultimately have "heap_inv ?s' ?bs'" using p(3) by (simp add: heap_inv_def put_header_def)
      moreover have "heap_grow pages s = Some ?s'"
        using al e he False by (auto simp: heap_grow_def put_header_def HEADER_SIZE_eq Let_def)
      moreover have "grown bs ?new ?sz ?bs'" by (simp add: grown_def)
      ultimately show ?thesis using that sz by (simp add: put_header_def)
    qed
  qed
qed

section \<open>Growing and retrying\<close>

lemma ALIGN16_idem: "unat sz \<le> 2 ^ 31 \<Longrightarrow> ALIGN16 (ALIGN16 sz) = ALIGN16 sz"
proof -
  assume a: "unat sz \<le> 2 ^ 31"
  have u: "unat (ALIGN16 sz) = (unat sz + 15) div 16 * 16" using a by (simp add: unat_ALIGN16)
  have "unat (ALIGN16 (ALIGN16 sz)) = (unat (ALIGN16 sz) + 15) div 16 * 16"
    using a u by (subst unat_ALIGN16) simp_all
  also have "\<dots> = unat (ALIGN16 sz)" unfolding u by simp
  finally show ?thesis by (simp add: word_unat_eq_iff)
qed

lemma ALIGN16_nonzero: "\<lbrakk>sz \<noteq> 0; unat sz \<le> 2 ^ 31\<rbrakk> \<Longrightarrow> ALIGN16 sz \<noteq> 0"
proof
  assume a: "sz \<noteq> 0" "unat sz \<le> 2 ^ 31" "ALIGN16 sz = 0"
  have "unat (ALIGN16 sz) = (unat sz + 15) div 16 * 16" using a(2) by (simp add: unat_ALIGN16)
  then have "(unat sz + 15) div 16 * 16 = 0" using a(3) by simp
  then have "unat sz = 0" by linarith
  then show False using a(1) by (simp add: unat_eq_zero)
qed

lemma ALIGN16_le: "unat sz \<le> 2 ^ 31 \<Longrightarrow> unat (ALIGN16 sz) \<le> 2 ^ 31"
proof -
  assume a: "unat sz \<le> 2 ^ 31"
  then have "unat (ALIGN16 sz) = (unat sz + 15) div 16 * 16" by (simp add: unat_ALIGN16)
  moreover have "(unat sz + 15) div 16 \<le> (2 ^ 31 + 15) div 16" using a by (intro div_le_mono) simp
  ultimately show ?thesis by simp
qed

lemma pages_needed_bounds:
  assumes "unat n \<le> 2 ^ 31"
  shows "0 < pages_needed n" "unat n + 32 \<le> unat (pages_needed n) * 4096"
proof -
  let ?q = "(n + HEADER_SIZE + 4096 - 1) div 4096"
  have "unat (n + 4127) = unat n + 4127" using assms by (subst unat_add_small) auto
  moreover have "n + HEADER_SIZE + 4096 - 1 = n + 4127" by (simp add: HEADER_SIZE_eq)
  moreover have "unat (4096 :: u64) = 4096" by simp
  ultimately have "unat ?q = (unat n + 4127) div 4096" by (simp only: unat_div)
  then have q: "unat (ucast ?q :: u32) = (unat n + 4127) div 4096"
    using assms by (simp add: unat_ucast)
  then have "unat n + 32 \<le> unat (ucast ?q :: u32) * 4096" by (simp add: q)
  then show "0 < pages_needed n" "unat n + 32 \<le> unat (pages_needed n) * 4096"
    by (auto simp: pages_needed_def Let_def word_less_nat_alt)
qed

lemma grown_fits:
  assumes g: "grown bs new gsz bs'" and gsz: "unat gsz = k * 4096" and n: "unat n + 32 \<le> k * 4096"
  shows "List.find (fits n) bs' \<noteq> None"
proof -
  have "\<exists>b \<in> set bs'. fits n b"
    using g unfolding grown_def
  proof (elim disjE exE conjE)
    assume b: "bs' = bs @ [(new, gsz - 32, True)]"
    have "unat (gsz - 32) = unat gsz - 32" using gsz n by (subst unat_sub) (auto simp: word_le_nat_alt)
    then have "fits n (new, gsz - 32, True)" using gsz n by (simp add: word_le_nat_alt)
    then show ?thesis using b by auto
  next
    fix xs e esz
    assume b: "unat (esz + gsz) = unat esz + unat gsz" "bs' = xs @ [(e, esz + gsz, True)]"
    then have "fits n (e, esz + gsz, True)" using gsz n by (simp add: word_le_nat_alt)
    then show ?thesis using b by auto
  qed
  then show ?thesis unfolding find_None_iff by blast
qed

lemma kmalloc_grows:
  assumes h: "heap_inv s bs" and sz: "sz \<noteq> 0" "unat sz \<le> 2 ^ 31"
    and nofit: "List.find (fits (ALIGN16 sz)) bs = None"
    and al: "pmm_alloc_pages (pages_needed (ALIGN16 sz)) (hpmm s) = (pa, pm)" "pa \<noteq> 0"
  obtains bs1 p bs2 s2 g where "grown bs (phys_to_virt pa) g bs1"
    "spec_alloc (ALIGN16 sz) bs1 = Some (p, bs2)" "kmalloc sz s = Some (p + 32, s2)" "heap_inv s2 bs2"
    "layout bs1"
proof -
  let ?n = "ALIGN16 sz" and ?k = "pages_needed (ALIGN16 sz)"
  note pg = pages_needed_bounds [OF ALIGN16_le [OF sz(2)]]
  obtain s1 bs1 where g: "heap_grow ?k s = Some s1" "heap_inv s1 bs1"
    "grown bs (phys_to_virt pa) (ucast (?k * 4096)) bs1" "unat (ucast (?k * 4096) :: u64) = unat ?k * 4096"
    using heap_grow_inv [OF h pg(1) al] by blast
  have "List.find (fits ?n) bs1 \<noteq> None" by (rule grown_fits [OF g(3,4) pg(2)])
  then obtain p bs2 where a: "spec_alloc ?n bs1 = Some (p, bs2)"
    using spec_alloc_None [of ?n bs1] by auto
  have a': "spec_alloc (ALIGN16 ?n) bs1 = Some (p, bs2)" using a ALIGN16_idem [OF sz(2)] by simp
  obtain s2 where s2: "kmalloc ?n s1 = Some (p + 32, s2)" "heap_inv s2 bs2"
    using heap_inv_fit [OF g(2) ALIGN16_nonzero [OF sz] a'] .
  have c: "chain (hdrs s) (heap_start s) bs 0" "0 \<notin> fst ` set bs"
    using h by (simp_all add: heap_inv_def heap_is_def heap_chain_def)
  have "kmalloc sz s = Some (p + 32, s2)"
    using sz(1) find_fit_chain [OF c, of ?n] nofit g(1) s2(1) by (simp add: kmalloc.simps [of sz])
  moreover have "layout bs1" using g(2) by (simp add: heap_inv_def heap_is_def)
  ultimately show ?thesis using that g(3) a s2(2) by blast
qed

section \<open>Blocks in use\<close>

definition in_use :: "blk list \<Rightarrow> blk set" where
  "in_use bs = {b \<in> set bs. \<not> snd (snd b)}"

lemma in_use_simps [simp]:
  "in_use [] = {}"
  "in_use ((a, sz, fr) # bs) = (if fr then in_use bs else insert (a, sz, False) (in_use bs))"
  "in_use (xs @ ys) = in_use xs \<union> in_use ys"
  by (auto simp: in_use_def)

lemma in_use_grown: "grown bs new g bs' \<Longrightarrow> in_use bs' = in_use bs"
  by (auto simp: grown_def)

lemma layout_pair:
  "\<lbrakk>layout bs; b \<in> set bs; c \<in> set bs; b \<noteq> c\<rbrakk> \<Longrightarrow> extent b \<inter> extent c = {}"
  by (induction bs) auto

lemma in_use_join: "in_use (join b bs) = in_use (b # bs)"
  by (cases "(b, bs)" rule: join.cases) auto

lemma in_use_spec_free:
  assumes "distinct (map fst bs)"
  shows "in_use (spec_free p bs) = in_use bs - {b. fst b = p}"
  using assms
proof (induction bs)
  case Nil
  then show ?case by simp
next
  case (Cons b bs)
  obtain a sz fr where b: "b = (a, sz, fr)" by (cases b)
  have other: "in_use xs - {b. fst b = p} = in_use xs" if "p \<notin> fst ` set xs" for xs
    using that by (auto simp: in_use_def)
  show ?case unfolding b
    by (rule spec_free_cases) (use Cons b other in \<open>auto simp: in_use_join split: if_splits\<close>)
qed

lemma spec_alloc_in_use:
  assumes lay: "layout bs" and a: "spec_alloc n bs = Some (p, bs')" and lay': "layout bs'"
  obtains z where "in_use bs' = insert (p, z, False) (in_use bs)" "n \<le> z" "(p, z, False) \<in> set bs'"
    "\<forall>b \<in> in_use bs. extent b \<inter> extent (p, z, False) = {}" "blk_ok (p, z, False)"
proof -
  obtain xs sz ys where b: "bs = xs @ (p, sz, True) # ys" "n \<le> sz" "bs' = xs @ carve n p sz @ ys"
    using spec_alloc_Some [OF a] by metis
  let ?z = "if unat n + 48 \<le> unat sz then n else sz"
  have iu: "in_use bs' = insert (p, ?z, False) (in_use bs)"
    by (simp add: b carve_def)
  have mem: "(p, ?z, False) \<in> set bs'" by (simp add: b(3) carve_def)
  have p: "p \<notin> fst ` in_use bs"
    using layout_distinct [OF lay] unfolding b(1) by (auto simp: in_use_def)
  have "extent c \<inter> extent (p, ?z, False) = {}" if c: "c \<in> in_use bs" for c
  proof (rule layout_pair [OF lay' _ mem])
    have "c \<in> in_use bs'" using c iu by blast
    then show "c \<in> set bs'" by (simp add: in_use_def)
    show "c \<noteq> (p, ?z, False)" using p c by force
  qed
  then have "\<forall>b \<in> in_use bs. extent b \<inter> extent (p, ?z, False) = {}" by blast
  then show ?thesis using that [of ?z] iu b(2) mem layout_ok [OF lay' mem] by simp
qed

section \<open>A heap right after initialisation\<close>

lemma kmalloc_init_inv:
  assumes "pmm_inv pm" "free_window q 16 pm"
  obtains a s where "kmalloc_init pm = Some s" "heap_inv s [(a, 65504, True)]"
proof -
  obtain pa pm' where r: "pmm_alloc_pages 16 pm = (pa, pm')" by fastforce
  have nz: "pa \<noteq> 0"
    using pmm_alloc_pages_cases [OF assms(1) _ r] assms(2) page_addr_in_RAM(3)
    by (auto simp: free_window_def)
  let ?s = "\<lparr>hdrs = Map.empty, heap_start = 0, heap_end = 0, total_allocated = 0, total_freed = 0,
      heap_size = 0, hpmm = pm\<rparr>"
  have h: "heap_inv ?s []" using assms(1) by (simp add: heap_inv_def heap_is_def heap_chain_def)
  have r': "pmm_alloc_pages 16 (hpmm ?s) = (pa, pm')" using r by simp
  have c: "0 < (16 :: u32)" by simp
  obtain s bs where s: "heap_grow 16 ?s = Some s" "heap_inv s bs"
    "grown [] (phys_to_virt pa) (ucast (16 * 4096 :: u32)) bs"
    using heap_grow_inv [OF h c r' nz] by blast
  have "bs = [(phys_to_virt pa, 65504, True)]" using s(3) by (simp add: grown_def)
  then show ?thesis using s(1,2) that by (simp add: kmalloc_init_def)
qed

definition heap_empty_pmm :: heap where
  "heap_empty_pmm = the (kmalloc_init pmm_empty)"

lemma heap_empty_pmm_inv: "\<exists>a. heap_inv heap_empty_pmm [(a, 65504, True)]"
proof -
  have w: "free_window 0 16 pmm_empty" by (rule window_pmm_empty) (simp add: TOTAL_PAGES_def)
  obtain a s where "kmalloc_init pmm_empty = Some s" "heap_inv s [(a, 65504, True)]"
    using kmalloc_init_inv [OF pmm_inv_empty w] .
  then show ?thesis by (auto simp: heap_empty_pmm_def)
qed

definition pmm_full :: pmm where
  "pmm_full = mark_from 0 TOTAL_PAGES pmm_empty"

lemma pmm_full: "pmm_inv pmm_full" "used pmm_full = {..<TOTAL_PAGES}"
  using mark_from_spec [OF pmm_inv_empty, of 0 TOTAL_PAGES] used_pmm_empty
  by (auto simp: pmm_full_def)

section \<open>Properties\<close>

text \<open>
  C13: on a consistent heap, a request that some free block can hold, or for which the page
  allocator has a window of pages, succeeds: \<open>kmalloc\<close> returns, its result is a 16-byte aligned
  non-null pointer past a header inside the heap, the heap stays consistent (aligned,
  non-overlapping blocks inside pages the heap owns), and the blocks in use are the old ones
  plus one block that is large enough and disjoint from all of them.
\<close>

theorem kmalloc_gives_fresh_block:
  assumes h: "heap_inv s bs" and sz: "sz \<noteq> 0" "unat sz \<le> 2 ^ 31"
    and room: "(\<exists>b \<in> set bs. fits (ALIGN16 sz) b)
      \<or> (\<exists>q. free_window q (unat (pages_needed (ALIGN16 sz))) (hpmm s))"
  shows "\<exists>p z s' bs'. kmalloc sz s = Some (p + 32, s') \<and> p + 32 \<noteq> 0 \<and> 16 dvd unat (p + 32)
    \<and> heap_inv s' bs' \<and> in_use bs' = insert (p, z, False) (in_use bs) \<and> sz \<le> z
    \<and> (\<forall>b \<in> in_use bs. extent b \<inter> extent (p, z, False) = {})"
proof -
  have "\<exists>bs1 p bs' s'. layout bs1 \<and> in_use bs1 = in_use bs \<and> spec_alloc (ALIGN16 sz) bs1 = Some (p, bs')
      \<and> kmalloc sz s = Some (p + 32, s') \<and> heap_inv s' bs'"
  proof (cases "List.find (fits (ALIGN16 sz)) bs")
    case (Some b)
    then have "spec_alloc (ALIGN16 sz) bs \<noteq> None" unfolding spec_alloc_None by (simp only: option.simps not_False_eq_True)
    then obtain y where "spec_alloc (ALIGN16 sz) bs = Some y" by blast
    then obtain p bs' where a: "spec_alloc (ALIGN16 sz) bs = Some (p, bs')" by (cases y) (rule that, simp only:)
    have l: "layout bs" using h by (simp add: heap_inv_def heap_is_def)
    obtain s' where "kmalloc sz s = Some (p + 32, s')" "heap_inv s' bs'"
      using heap_inv_fit [OF h sz(1) a] .
    then show ?thesis using l a by (intro exI [of _ bs] exI [of _ p] exI [of _ bs'] exI [of _ s'] conjI refl)
  next
    case None
    then have "\<not> (\<exists>b \<in> set bs. fits (ALIGN16 sz) b)" by (auto simp: find_None_iff)
    then obtain q where q: "free_window q (unat (pages_needed (ALIGN16 sz))) (hpmm s)" using room by blast
    obtain pa pm where r: "pmm_alloc_pages (pages_needed (ALIGN16 sz)) (hpmm s) = (pa, pm)" by fastforce
    have pinv: "pmm_inv (hpmm s)" using h by (simp add: heap_inv_def)
    note pn = pages_needed_bounds [OF ALIGN16_le [OF sz(2)]]
    have "pa \<noteq> 0"
      using pmm_alloc_pages_cases [OF pinv pn(1) r] q page_addr_in_RAM(3) pn(1)
      by (auto simp: free_window_def word_less_nat_alt)
    from kmalloc_grows [OF h sz None r this] show ?thesis using in_use_grown by metis
  qed
  then obtain bs1 p bs' s' where a: "layout bs1" "in_use bs1 = in_use bs"
    "spec_alloc (ALIGN16 sz) bs1 = Some (p, bs')" "kmalloc sz s = Some (p + 32, s')" "heap_inv s' bs'"
    by blast
  have lay': "layout bs'" using a(5) by (simp add: heap_inv_def heap_is_def)
  obtain z where z: "in_use bs' = insert (p, z, False) (in_use bs)" "ALIGN16 sz \<le> z"
    "\<forall>b \<in> in_use bs. extent b \<inter> extent (p, z, False) = {}" "blk_ok (p, z, False)"
    using spec_alloc_in_use [OF a(1,3) lay'] a(2) by metis
  have "sz \<le> ALIGN16 sz" using ALIGN16_ge [of sz] sz(2) by (simp add: word_le_nat_alt)
  then have "sz \<le> z" using z(2) by simp
  moreover have u: "unat (p + 32) = unat p + 32" using z(4) by (simp add: unat_add_small)
  moreover have "16 dvd unat (p + 32)" unfolding u using z(4) by simp
  moreover have "p + 32 \<noteq> 0" using u by (metis add_is_0 unat_0 zero_neq_numeral)
  ultimately show ?thesis using a(4,5) z(1,3) by blast
qed

theorem kmalloc_gives_fresh_block_witness:
  "\<exists>a p z s' bs'. kmalloc 100 heap_empty_pmm = Some (p + 32, s') \<and> heap_inv s' bs'
    \<and> heap_inv heap_empty_pmm [(a, 65504, True)] \<and> in_use bs' = {(p, z, False)} \<and> 100 \<le> z"
proof -
  obtain a where a: "heap_inv heap_empty_pmm [(a, 65504, True)]" using heap_empty_pmm_inv by blast
  have "fits (ALIGN16 100) (a, 65504, True)" by (simp add: ALIGN16_def)
  then obtain p z s' bs' where "kmalloc 100 heap_empty_pmm = Some (p + 32, s')" "heap_inv s' bs'"
    "in_use bs' = {(p, z, False)}" "100 \<le> z"
    using kmalloc_gives_fresh_block [OF a, of 100] by auto
  with a show ?thesis by blast
qed

text \<open>
  when no free block is large enough and the page allocator has no window for the growth,
  \<open>kmalloc\<close> does not return at all: \<open>heap_grow\<close> fails silently and \<open>kmalloc\<close> calls itself with
  an unchanged heap, for ever. (\<open>kmalloc.h\<close> promises NULL.)
\<close>

theorem kmalloc_out_of_memory:
  assumes "heap_inv s bs" "sz \<noteq> 0" "unat sz \<le> 2 ^ 31" "\<forall>b \<in> set bs. \<not> fits (ALIGN16 sz) b"
    "\<forall>q. \<not> free_window q (unat (pages_needed (ALIGN16 sz))) (hpmm s)"
  shows "kmalloc sz s = None"
proof -
  let ?stuck = "\<lambda>sz s bs. heap_inv s bs \<and> sz \<noteq> 0 \<and> unat sz \<le> 2 ^ 31
    \<and> (\<forall>b \<in> set bs. \<not> fits (ALIGN16 sz) b)
    \<and> (\<forall>q. \<not> free_window q (unat (pages_needed (ALIGN16 sz))) (hpmm s))"
  have "\<not> ?stuck sz s bs" if k: "kmalloc sz s = Some r" for r
  proof (rule kmalloc.raw_induct [where P = "\<lambda>sz s r. \<not> ?stuck sz s bs", OF _ k], rule notI)
    fix kmalloc :: "u64 \<Rightarrow> heap \<Rightarrow> (u64 \<times> heap) option" and sz s y
    assume IH: "\<And>sz s y. kmalloc sz s = Some y \<Longrightarrow> \<not> ?stuck sz s bs"
      and body: "(if sz = 0 then Some (0, s)
        else Option.bind (find_fit (hdrs s) (ALIGN16 sz) (heap_start s)) (\<lambda>cur.
          if cur \<noteq> 0 then take_block (ALIGN16 sz) cur s
          else Option.bind (heap_grow (pages_needed (ALIGN16 sz)) s) (\<lambda>s. kmalloc (ALIGN16 sz) s))) = Some y"
      and st: "?stuck sz s bs"
    let ?n = "ALIGN16 sz"
    have c: "chain (hdrs s) (heap_start s) bs 0" "0 \<notin> fst ` set bs" and pinv: "pmm_inv (hpmm s)"
      using st by (simp_all add: heap_inv_def heap_is_def heap_chain_def)
    have f: "find_fit (hdrs s) ?n (heap_start s) = Some 0"
    proof -
      have "List.find (fits ?n) bs = None" using st unfolding find_None_iff by blast
      then show ?thesis using find_fit_chain [OF c, of ?n] by simp
    qed
    obtain pa pm where r: "pmm_alloc_pages (pages_needed ?n) (hpmm s) = (pa, pm)" by fastforce
    have "pa = 0" "pm = hpmm s"
      using pmm_alloc_pages_cases [OF pinv pages_needed_bounds(1) [OF ALIGN16_le] r] st by auto
    then have "heap_grow (pages_needed ?n) s = Some s" using r by (simp add: heap_grow_def)
    then have "kmalloc ?n s = Some y" using body st f by simp
    from IH [OF this] show False
      using st ALIGN16_idem [of sz] ALIGN16_nonzero [of sz] ALIGN16_le [of sz] by simp
  qed
  then show ?thesis using assms by (cases "kmalloc sz s") auto
qed

theorem kmalloc_out_of_memory_witness:
  "kmalloc 100 \<lparr>hdrs = Map.empty, heap_start = 0, heap_end = 0, total_allocated = 0,
     total_freed = 0, heap_size = 0, hpmm = pmm_full\<rparr> = None" (is "kmalloc 100 ?s = None")
proof (rule kmalloc_out_of_memory)
  show "heap_inv ?s []" using pmm_full by (simp add: heap_inv_def heap_is_def heap_chain_def)
  have p: "0 < unat (pages_needed (ALIGN16 100))"
    using pages_needed_bounds(1) [OF ALIGN16_le, of 100] by (simp add: word_less_nat_alt)
  show "\<forall>q. \<not> free_window q (unat (pages_needed (ALIGN16 100))) (hpmm ?s)"
  proof
    fix q
    show "\<not> free_window q (unat (pages_needed (ALIGN16 100))) (hpmm ?s)"
    proof
      assume "free_window q (unat (pages_needed (ALIGN16 100))) (hpmm ?s)"
      then have w: "free_window q (unat (pages_needed (ALIGN16 100))) pmm_full" by simp
      then have "q < TOTAL_PAGES" using p by (simp add: free_window_def)
      moreover have "q \<in> {q..<q + unat (pages_needed (ALIGN16 100))}" using p by simp
      ultimately show False using free_window_used [OF w] pmm_full(2) by blast
    qed
  qed
qed simp_all

text \<open>
  C27: freeing what \<open>kmalloc\<close> has just carved out of a free block of a coalesced heap returns
  the heap to exactly the block list it had: the split is undone, nothing leaks.
\<close>

theorem kfree_kmalloc:
  assumes h: "heap_inv s bs" and co: "coalesced bs" and sz: "sz \<noteq> 0"
    and fit: "\<exists>b \<in> set bs. fits (ALIGN16 sz) b"
  shows "\<exists>ptr s' s''. kmalloc sz s = Some (ptr, s') \<and> kfree ptr s' = Some s'' \<and> heap_chain s'' bs"
proof -
  have "spec_alloc (ALIGN16 sz) bs \<noteq> None"
    using fit unfolding spec_alloc_None find_None_iff by blast
  then obtain p bs' where a: "spec_alloc (ALIGN16 sz) bs = Some (p, bs')" by force
  obtain s' where s': "kmalloc sz s = Some (p + 32, s')" "heap_inv s' bs'"
    using heap_inv_fit [OF h sz a] .
  obtain xs z ys where b: "bs = xs @ (p, z, True) # ys" "bs' = xs @ carve (ALIGN16 sz) p z @ ys"
    using spec_alloc_Some [OF a] by metis
  have hc: "heap_chain s' bs'" and lay: "layout bs'"
    using s'(2) by (simp_all add: heap_inv_def heap_is_def)
  have "\<exists>y. (p, y, False) \<in> set (carve (ALIGN16 sz) p z)"
    by (cases "unat (ALIGN16 sz) + 48 \<le> unat z") (simp_all add: carve_def)
  then obtain y where mem: "(p, y, False) \<in> set bs'" unfolding b(2) by auto
  have "unat (p + 32) = unat p + 32" using layout_ok [OF lay mem] by (simp add: unat_add_small)
  then have nz: "p + 32 \<noteq> 0" by (metis add_is_0 unat_0 zero_neq_numeral)
  have "p \<in> fst ` set bs'" using mem by force
  from kfree_chain [OF hc this nz] obtain s'' where
    "kfree (p + 32) s' = Some s''" "heap_chain s'' (spec_free p bs')" .
  moreover have "p \<notin> fst ` set xs"
    using h unfolding b(1) by (auto simp: heap_inv_def heap_is_def heap_chain_def)
  from spec_free_carve [OF co [unfolded b(1)] this] have "spec_free p bs' = bs"
    unfolding b(1,2) .
  ultimately show ?thesis using s'(1) by metis
qed

theorem kfree_kmalloc_witness:
  "\<exists>ptr s' s'' a. kmalloc 100 heap_empty_pmm = Some (ptr, s') \<and> kfree ptr s' = Some s''
    \<and> heap_chain s'' [(a, 65504, True)]"
proof -
  obtain a where a: "heap_inv heap_empty_pmm [(a, 65504, True)]" using heap_empty_pmm_inv by blast
  have "fits (ALIGN16 100) (a, 65504, True)" by (simp add: ALIGN16_def)
  then show ?thesis using kfree_kmalloc [OF a, of 100] by auto
qed

text \<open>
  C26: on a heap that has only grown contiguously, \<open>kfree\<close> of a block's pointer succeeds, keeps
  the heap consistent and contiguous, covers exactly the same memory, leaves every other block in
  use as it is, and never leaves two free neighbours behind.
\<close>

theorem kfree_adjacent_heap:
  assumes h: "heap_is s bs" and ad: "adjacent bs" and co: "coalesced bs" and p: "p \<in> fst ` set bs"
  shows "\<exists>s' bs'. kfree (p + 32) s = Some s' \<and> heap_is s' bs' \<and> adjacent bs' \<and> coalesced bs'
    \<and> covers bs' = covers bs \<and> in_use bs' = in_use bs - {b. fst b = p}"
proof -
  have hc: "heap_chain s bs" and lay: "layout bs" using h by (simp_all add: heap_is_def)
  obtain z fr where "(p, z, fr) \<in> set bs" using p by auto
  then have "unat (p + 32) = unat p + 32" using layout_ok [OF lay] by (force simp: unat_add_small)
  then have nz: "p + 32 \<noteq> 0" by (metis add_is_0 unat_0 zero_neq_numeral)
  obtain s' where s': "kfree (p + 32) s = Some s'" "heap_chain s' (spec_free p bs)"
    using kfree_chain [OF hc p nz] .
  then show ?thesis
    using spec_free_layout [OF lay ad, of p] spec_free_coalesced [OF co, of p]
      in_use_spec_free [OF layout_distinct [OF lay], of p]
    by (auto simp: heap_is_def)
qed

theorem kfree_adjacent_heap_witness:
  "\<exists>a s' bs'. kfree (a + 32) heap_empty_pmm = Some s' \<and> heap_is s' bs' \<and> in_use bs' = {}"
proof -
  obtain a where a: "heap_inv heap_empty_pmm [(a, 65504, True)]" using heap_empty_pmm_inv by blast
  then show ?thesis using kfree_adjacent_heap [of heap_empty_pmm "[(a, 65504, True)]" a]
    by (auto simp: heap_inv_def)
qed

text \<open>
  When two neighbours in the list are not neighbours in memory (the page allocator gave the
  second growth a later window), freeing the second one next to a free first one still merges
  them: the result is one free block that includes the memory in between, which the heap does
  not own.
\<close>

theorem kfree_merges_across_gap:
  assumes h: "heap_inv s [(a, asz, True), (c, csz, False)]" and gap: "unat a + 32 + unat asz < unat c"
  shows "\<exists>s'. kfree (c + 32) s = Some s' \<and> heap_chain s' [(a, asz + (32 + csz), True)]
    \<and> unat a + 32 + unat asz \<in> extent (a, asz + (32 + csz), True)
    \<and> unat a + 32 + unat asz \<notin> covers [(a, asz, True), (c, csz, False)]"
proof -
  let ?bs = "[(a, asz, True), (c, csz, False)]"
  have hc: "heap_chain s ?bs" and ok: "blk_ok (c, csz, False)" and ne: "a \<noteq> c"
    using h gap by (auto simp: heap_inv_def heap_is_def)
  have "unat (c + 32) = unat c + 32" using ok by (simp add: unat_add_small)
  then have nz: "c + 32 \<noteq> 0" by (metis add_is_0 unat_0 zero_neq_numeral)
  have "c \<in> fst ` set ?bs" by simp
  from kfree_chain [OF hc this nz] obtain s' where
    "kfree (c + 32) s = Some s'" "heap_chain s' (spec_free c ?bs)" .
  moreover have "spec_free c ?bs = [(a, asz + (32 + csz), True)]" using ne by (simp add: spec_free.simps)
  moreover have "unat (asz + (32 + csz)) = unat asz + 32 + unat csz"
    using ok gap by (simp add: unat_add_small)
  ultimately show ?thesis using gap by auto
qed

theorem kfree_merges_across_gap_witness:
  "\<exists>s s'. heap_inv s [(0xFFFFFF8040000000, 4064, True), (0xFFFFFF8040002000, 4064, False)]
    \<and> kfree 0xFFFFFF8040002020 s = Some s' \<and> heap_chain s' [(0xFFFFFF8040000000, 8160, True)]"
proof -
  define s where "s = \<lparr>hdrs = [0xFFFFFF8040000000 \<mapsto> \<lparr>bsize = 4064, bfree = True, bnext = 0xFFFFFF8040002000\<rparr>,
       0xFFFFFF8040002000 \<mapsto> \<lparr>bsize = 4064, bfree = False, bnext = 0\<rparr>],
     heap_start = 0xFFFFFF8040000000, heap_end = 0xFFFFFF8040002000, total_allocated = 0,
     total_freed = 0, heap_size = 8192, hpmm = mark_from 0 6 pmm_empty\<rparr>"
  let ?bs = "[(0xFFFFFF8040000000, 4064, True), (0xFFFFFF8040002000 :: u64, 4064 :: u64, False)]"
  have m: "pmm_inv (hpmm s)" "used (hpmm s) = {0..<6}"
    using mark_from_spec [OF pmm_inv_empty, of 0 6] used_pmm_empty by (simp_all add: s_def TOTAL_PAGES_def)
  have "heap_is s ?bs" by (intro heap_isI) (simp_all add: s_def)
  moreover have "covers ?bs \<subseteq> page_bytes {0..<6}" by (auto simp: page_of_byte)
  ultimately have "heap_inv s ?bs" using m by (simp add: heap_inv_def)
  moreover from kfree_merges_across_gap [OF this]
  obtain s' where "kfree 0xFFFFFF8040002020 s = Some s'" "heap_chain s' [(0xFFFFFF8040000000, 8160, True)]"
    by auto
  ultimately show ?thesis by blast
qed

end
