(* ===== verification/Memory.thy ===== *)
theory Memory
  imports Prelude
begin

text \<open>
  Byte-addressed memory as the kernel sees it: a function from kernel virtual addresses to
  bytes, with the little-endian 64-bit loads and stores that C pointers to \<^verbatim>\<open>uint64_t\<close> make,
  and the byte loops (copy, fill) the kernel writes out by hand.
\<close>

type_synonym memory = "u64 \<Rightarrow> u8"

definition load64 :: "memory \<Rightarrow> u64 \<Rightarrow> u64" where
  "load64 m a = foldr (\<lambda>i acc. push_bit 8 acc OR ucast (m (a + of_nat i))) [0..<8] 0"

definition store64 :: "u64 \<Rightarrow> u64 \<Rightarrow> memory \<Rightarrow> memory" where
  "store64 a v m = (\<lambda>x. if x - a < 8 then ucast (drop_bit (8 * unat (x - a)) v) else m x)"

text \<open>\<open>copy_bytes n d s m\<close>: the loop \<open>for (i = 0; i < n; i++) d[i] = s[i]\<close>.\<close>

definition copy_bytes :: "nat \<Rightarrow> u64 \<Rightarrow> u64 \<Rightarrow> memory \<Rightarrow> memory" where
  "copy_bytes n d s m = fold (\<lambda>i m. m(d + of_nat i := m (s + of_nat i))) [0..<n] m"

text \<open>\<open>fill_bytes a b d f m\<close>: the loop \<open>for (i = a; i < b; i++) d[i] = f i\<close>.\<close>

definition fill_bytes :: "nat \<Rightarrow> nat \<Rightarrow> u64 \<Rightarrow> (nat \<Rightarrow> u8) \<Rightarrow> memory \<Rightarrow> memory" where
  "fill_bytes a b d f m = fold (\<lambda>i m. m(d + of_nat i := f i)) [a..<b] m"

section \<open>Loads after stores\<close>

lemma bit_bytes:
  fixes f :: "nat \<Rightarrow> u8"
  shows "bit (foldr (\<lambda>i acc. push_bit 8 acc OR ucast (f i)) [k..<k + j] (0 :: u64)) n
    \<longleftrightarrow> n < 64 \<and> n < 8 * j \<and> bit (f (k + n div 8)) (n mod 8)"
proof (induction j arbitrary: k n)
  case 0
  then show ?case by simp
next
  case (Suc j)
  let ?F = "foldr (\<lambda>i acc. push_bit 8 acc OR ucast (f i))"
  have "[k..<k + Suc j] = k # [Suc k..<Suc k + j]" by (simp add: upt_conv_Cons)
  then have "bit (?F [k..<k + Suc j] (0 :: u64)) n \<longleftrightarrow>
      n < 64 \<and> (8 \<le> n \<and> bit (?F [Suc k..<Suc k + j] (0 :: u64)) (n - 8) \<or> bit (f k) n)"
    by (auto simp: bit_simps)
  also have "\<dots> \<longleftrightarrow> n < 64 \<and> n < 8 * Suc j \<and> bit (f (k + n div 8)) (n mod 8)"
  proof (cases "n < 8")
    case True
    then show ?thesis by simp
  next
    case False
    then have b: "\<not> bit (f k) n" by (auto dest: bit_imp_le_length)
    from False obtain i where n: "n = 8 + i" by (metis le_Suc_ex not_less)
    have "bit (?F [Suc k..<Suc k + j] (0 :: u64)) i \<longleftrightarrow>
        i < 64 \<and> i < 8 * j \<and> bit (f (k + Suc (i div 8))) (i mod 8)"
      using Suc.IH [of "Suc k" i] by simp
    moreover have "n div 8 = Suc (i div 8)" "n mod 8 = i mod 8" unfolding n by simp_all
    ultimately show ?thesis using b n by auto
  qed
  finally show ?case .
qed

lemma bit_load64:
  "bit (load64 m a) n \<longleftrightarrow> n < 64 \<and> bit (m (a + of_nat (n div 8))) (n mod 8)"
  using bit_bytes [of "\<lambda>i. m (a + of_nat i)" 0 8 n] by (auto simp: load64_def)

lemma load64_store64_same [mem_simps]: "load64 (store64 a v m) a = v"
proof (rule bit_eqI)
  fix n assume "possible_bit TYPE(u64) n"
  then have n: "n < 64" "n div 8 < 8" by simp_all
  have "unat (of_nat (n div 8) :: u64) = n div 8" using n by (intro unat_of_nat_small) simp
  then show "bit (load64 (store64 a v m) a) n = bit v n"
    using n by (simp add: bit_load64 store64_def bit_simps word_less_nat_alt)
qed

lemma load64_cong: "(\<And>i. i < 8 \<Longrightarrow> m (a + of_nat i) = m' (a + of_nat i)) \<Longrightarrow> load64 m a = load64 m' a"
  by (rule bit_eqI) (simp add: bit_load64)

lemma load64_store64_other [mem_simps]:
  assumes "8 \<le> b - a" "8 \<le> a - b"
  shows "load64 (store64 a v m) b = load64 m b"
proof (rule load64_cong)
  fix i :: nat assume i: "i < 8"
  have "\<not> b + of_nat i - a < 8"
  proof
    assume l: "b + of_nat i - a < 8"
    define d where "d = b + of_nat i - a"
    have "a - b = of_nat i - d" by (simp add: d_def)
    have u: "unat (of_nat i :: u64) = i" using i by (intro unat_of_nat_small) simp
    show False
    proof (cases "d \<le> of_nat i")
      case True
      then have "unat (a - b) = i - unat d" using \<open>a - b = _\<close> u by (simp add: unat_sub)
      then show False using assms(2) i by (simp add: word_le_nat_alt)
    next
      case False
      have "b - a = d - of_nat i" by (simp add: d_def)
      then have "unat (b - a) = unat d - i" using False u by (simp add: unat_sub)
      then show False using assms(1) l by (simp add: word_le_nat_alt word_less_nat_alt d_def)
    qed
  qed
  then show "store64 a v m (b + of_nat i) = m (b + of_nat i)" by (simp add: store64_def)
qed

section \<open>Byte loops\<close>

lemma fill_bytes_apply:
  assumes "a \<le> b" "b < 2 ^ 64"
  shows "fill_bytes a b d f m x =
    (if a \<le> unat (x - d) \<and> unat (x - d) < b then f (unat (x - d)) else m x)"
  using assms
proof (induction b)
  case 0
  then show ?case by (simp add: fill_bytes_def)
next
  case (Suc b)
  show ?case
  proof (cases "a \<le> b")
    case True
    have u: "unat (of_nat b :: u64) = b" using Suc.prems by (intro unat_of_nat_small) simp
    have eq: "x = d + of_nat b \<longleftrightarrow> unat (x - d) = b"
      using u by (metis add_diff_cancel_left' diff_add_cancel add.commute word_unat_eq_iff)
    have "fill_bytes a (Suc b) d f m = (fill_bytes a b d f m)(d + of_nat b := f b)"
      using True by (simp add: fill_bytes_def)
    then show ?thesis using Suc.IH Suc.prems True eq by auto
  next
    case False
    then have "a = Suc b" using Suc.prems by simp
    then show ?thesis by (auto simp: fill_bytes_def)
  qed
qed

lemma copy_bytes_apply:
  assumes "n < 2 ^ 64" "\<And>i j. i < n \<Longrightarrow> j < n \<Longrightarrow> d + of_nat i \<noteq> s + of_nat j"
  shows "copy_bytes n d s m x = (if unat (x - d) < n then m (s + (x - d)) else m x)"
  using assms
proof (induction n arbitrary: x)
  case 0
  then show ?case by (simp add: copy_bytes_def)
next
  case (Suc n)
  have u: "unat (of_nat n :: u64) = n" using Suc.prems(1) by (intro unat_of_nat_small) simp
  have eq: "x = d + of_nat n \<longleftrightarrow> unat (x - d) = n"
    using u by (metis add_diff_cancel_left' diff_add_cancel add.commute word_unat_eq_iff)
  have IH: "copy_bytes n d s m y = (if unat (y - d) < n then m (s + (y - d)) else m y)" for y
    using Suc.IH [of y] Suc.prems by simp
  have src: "copy_bytes n d s m (s + of_nat n) = m (s + of_nat n)"
  proof -
    have "\<not> unat (s + of_nat n - d) < n"
    proof
      assume l: "unat (s + of_nat n - d) < n"
      have "d + of_nat (unat (s + of_nat n - d)) = s + of_nat n" by simp
      then show False using Suc.prems(2) [of "unat (s + of_nat n - d)" n] l by simp
    qed
    then show ?thesis by (simp add: IH)
  qed
  have "copy_bytes (Suc n) d s m = (copy_bytes n d s m)(d + of_nat n := m (s + of_nat n))"
    using src by (simp add: copy_bytes_def)
  then show ?case using eq IH by (auto simp: less_Suc_eq)
qed

end
