(* ===== verification/Mmu.thy ===== *)
theory Mmu
  imports Pmm Memory
begin

text \<open>
  User page tables, \<^verbatim>\<open>src/mmu.c\<close>: building a process's three-level table and mapping one page
  into it, over byte memory and the page allocator; and, as the specification, the
  translation-table walk of the processor (4 KB granule, 39-bit addresses) that reads the
  tables. The TLB and cache maintenance instructions, the register writes and the console
  messages are not modelled.
\<close>

section \<open>Descriptors\<close>

definition PTE_VALID :: u64 where "PTE_VALID = push_bit 0 1"
definition PTE_TABLE :: u64 where "PTE_TABLE = push_bit 1 1"
definition PTE_PAGE :: u64 where "PTE_PAGE = push_bit 1 1"
definition PTE_AF :: u64 where "PTE_AF = push_bit 10 1"
definition PTE_SH_INNER :: u64 where "PTE_SH_INNER = push_bit 8 3"
definition PTE_AP_RW_ALL :: u64 where "PTE_AP_RW_ALL = push_bit 6 1"
definition PTE_PXN :: u64 where "PTE_PXN = push_bit 53 1"
definition PTE_ATTR_NORMAL :: u64 where "PTE_ATTR_NORMAL = push_bit 2 1"

definition USER_VA_CODE :: u64 where "USER_VA_CODE = 0x00400000"
definition USER_VA_STACK :: u64 where "USER_VA_STACK = 0x00800000"
definition USER_STACK_PAGES :: u32 where "USER_STACK_PAGES = 4"
definition USER_VA_GUARD :: u64 where
  "USER_VA_GUARD = USER_VA_STACK - (ucast USER_STACK_PAGES + 1) * 4096"

definition PT_ENTRIES :: nat where "PT_ENTRIES = 512"

text \<open>The table and page descriptors the code writes.\<close>

definition table_desc :: "u64 \<Rightarrow> u64" where
  "table_desc pa = pa OR PTE_VALID OR PTE_TABLE"

definition page_desc :: "u64 \<Rightarrow> u64" where
  "page_desc pa = pa OR PTE_VALID OR PTE_PAGE OR PTE_AF OR PTE_ATTR_NORMAL OR PTE_SH_INNER
     OR PTE_AP_RW_ALL OR PTE_PXN"

section \<open>State and operations\<close>

record kmem =
  kbytes :: memory
  kpmm :: pmm

definition table_get :: "u64 \<Rightarrow> nat \<Rightarrow> memory \<Rightarrow> u64" where
  "table_get t i m = load64 m (t + 8 * of_nat i)"

definition table_set :: "u64 \<Rightarrow> nat \<Rightarrow> u64 \<Rightarrow> memory \<Rightarrow> memory" where
  "table_set t i v m = store64 (t + 8 * of_nat i) v m"

definition zero_table :: "u64 \<Rightarrow> memory \<Rightarrow> memory" where
  "zero_table t m = fold (\<lambda>i. table_set t i 0) [0..<PT_ENTRIES] m"

definition alloc_frame :: "kmem \<Rightarrow> u64 \<times> kmem" where
  "alloc_frame s = (let (pa, pm) = pmm_alloc_page (kpmm s) in (pa, s\<lparr>kpmm := pm\<rparr>))"

definition set_entry :: "u64 \<Rightarrow> nat \<Rightarrow> u64 \<Rightarrow> kmem \<Rightarrow> kmem" where
  "set_entry t i v s = s\<lparr>kbytes := table_set t i v (kbytes s)\<rparr>"

definition clear_table :: "u64 \<Rightarrow> kmem \<Rightarrow> kmem" where
  "clear_table t s = s\<lparr>kbytes := zero_table t (kbytes s)\<rparr>"

definition va_index :: "nat \<Rightarrow> u64 \<Rightarrow> nat" where
  "va_index n va = unat (drop_bit n va AND 0x1FF)"

text \<open>
  Following entry \<open>i\<close> of table \<open>t\<close> to the next level, with a fresh zeroed table linked in when
  there is none: the block that \<^verbatim>\<open>mmu.c\<close> repeats. The result is the kernel address of the next
  table, or 0 when no page was left.
\<close>

definition next_table :: "u64 \<Rightarrow> nat \<Rightarrow> kmem \<Rightarrow> u64 \<times> kmem" where
  "next_table t i s =
     (if table_get t i (kbytes s) AND 3 = 3
      then (phys_to_virt (table_get t i (kbytes s) AND NOT 0xFFF), s)
      else
        let (pa, s) = alloc_frame s
        in if pa = 0 then (0, s)
           else let n = phys_to_virt pa; s = clear_table n s
             in (n, set_entry t i (table_desc pa) s))"

definition mmu_map_user_page_in_pgd :: "u64 \<Rightarrow> u64 \<Rightarrow> u64 \<Rightarrow> kmem \<Rightarrow> int \<times> kmem" where
  "mmu_map_user_page_in_pgd pgd va pa s =
     (let (l2, s) = next_table (phys_to_virt pgd) (va_index 30 va) s
      in if l2 = 0 then (-1, s)
         else
           let (l3, s) = next_table l2 (va_index 21 va) s
           in if l3 = 0 then (-1, s)
              else (0, set_entry l3 (va_index 12 va) (page_desc pa) s))"

text \<open>The two mapping loops of \<open>mmu_create_user_pgd\<close>, with the 32-bit products of the source.\<close>

definition map_code :: "u64 \<Rightarrow> u64 \<Rightarrow> u32 \<Rightarrow> kmem \<Rightarrow> kmem" where
  "map_code l3 code_pa code_pages s = fold (\<lambda>p.
       set_entry l3 (unat ((drop_bit 12 USER_VA_CODE + ucast (of_nat p :: u32)) AND 0x1FF))
         (page_desc (code_pa + ucast ((of_nat p :: u32) * 4096))))
     [0..<unat code_pages] s"

definition map_stack :: "u64 \<Rightarrow> u64 \<Rightarrow> u64 \<Rightarrow> u32 \<Rightarrow> kmem \<Rightarrow> kmem" where
  "map_stack l3 base stack_pa stack_pages s = fold (\<lambda>p.
       set_entry l3 (va_index 12 (base + ucast ((of_nat p :: u32) * 4096)))
         (page_desc (stack_pa + ucast ((of_nat p :: u32) * 4096))))
     [0..<unat stack_pages] s"

definition mmu_create_user_pgd :: "u64 \<Rightarrow> u32 \<Rightarrow> u64 \<Rightarrow> u32 \<Rightarrow> kmem \<Rightarrow> u64 \<times> kmem" where
  "mmu_create_user_pgd code_pa code_pages stack_pa stack_pages s =
     (let (l1_pa, s) = alloc_frame s
      in if l1_pa = 0 then (0, s)
      else
        let l1 = phys_to_virt l1_pa; s = clear_table l1 s; (l2_pa, s) = alloc_frame s
        in if l2_pa = 0 then (0, s\<lparr>kpmm := pmm_free_page l1_pa (kpmm s)\<rparr>)
        else
          let l2 = phys_to_virt l2_pa; s = clear_table l2 s;
              s = set_entry l1 0 (table_desc l2_pa) s;
              (l3_pa, s) = alloc_frame s
          in if l3_pa = 0 then (0, s)
          else
            let l3 = phys_to_virt l3_pa; s = clear_table l3 s;
                s = map_code l3 code_pa code_pages s;
                s = set_entry l2 (va_index 21 USER_VA_CODE) (table_desc l3_pa) s;
                base = USER_VA_STACK - ucast (stack_pages * 4096);
                (l3s, s) = next_table l2 (va_index 21 base) s
            in if l3s = 0 then (0, s)
               else (l1_pa, map_stack l3s base stack_pa stack_pages s))"

text \<open>\<open>mmu_switch_ttbr0\<close>: the value written to TTBR0, where 0 stands for the boot table.\<close>

definition mmu_switch_ttbr0 :: "u64 \<Rightarrow> u64 \<Rightarrow> u64" where
  "mmu_switch_ttbr0 boot_l1 pgd = (if pgd = 0 then virt_to_phys boot_l1 else pgd)"

section \<open>The hardware walk\<close>

text \<open>
  The processor reads descriptors from physical memory, which the kernel sees at a fixed
  offset. Bit 0 clear is a fault; bit 1 clear at the first two levels is a block; otherwise
  bits 47..12 are the next table. The result is the last descriptor read.
\<close>

definition desc_addr :: "u64 \<Rightarrow> u64" where
  "desc_addr d = take_bit 48 d AND NOT 0xFFF"

definition walk :: "memory \<Rightarrow> u64 \<Rightarrow> u64 \<Rightarrow> u64 option" where
  "walk m pgd va =
     (let d1 = table_get (phys_to_virt pgd) (va_index 30 va) m
      in if \<not> bit d1 0 then None else if \<not> bit d1 1 then Some d1
      else let d2 = table_get (phys_to_virt (desc_addr d1)) (va_index 21 va) m
      in if \<not> bit d2 0 then None else if \<not> bit d2 1 then Some d2
      else let d3 = table_get (phys_to_virt (desc_addr d2)) (va_index 12 va) m
      in if bit d3 0 \<and> bit d3 1 then Some d3 else None)"

section \<open>Table entries in memory\<close>

abbreviation frame :: "nat \<Rightarrow> u64" where
  "frame p \<equiv> page_to_addr (of_nat p)"

definition entry :: "memory \<Rightarrow> nat \<Rightarrow> nat \<Rightarrow> u64" where
  "entry m p i = table_get (phys_to_virt (frame p)) i m"

lemma unat_frame_kva:
  "p < TOTAL_PAGES \<Longrightarrow> unat (phys_to_virt (frame p)) = 0xFFFFFF8040000000 + p * 4096"
  using unat_page_to_addr [of p]
  by (simp add: phys_to_virt_def KERN_VA_OFFSET_def TOTAL_PAGES_def unat_add_small)

lemma frame_kva_nonzero: "p < TOTAL_PAGES \<Longrightarrow> phys_to_virt (frame p) \<noteq> 0"
  using unat_frame_kva [of p] by (auto simp: unat_eq_0 [symmetric])

lemma unat_entry_addr:
  assumes "p < TOTAL_PAGES" "i < 512"
  shows "unat (phys_to_virt (frame p) + 8 * of_nat i) = 0xFFFFFF8040000000 + p * 4096 + 8 * i"
proof -
  have "unat (8 * of_nat i :: u64) = 8 * i"
    using assms by (simp add: unat_word_ariths unat_of_nat_small)
  then show ?thesis
    using assms unat_frame_kva [of p] by (subst unat_add_small) (simp_all add: TOTAL_PAGES_def)
qed

lemma far_apart:
  assumes "unat (a :: u64) + 8 \<le> unat b" "unat b + 8 \<le> 2 ^ 64"
  shows "8 \<le> b - a" "8 \<le> a - b"
proof -
  have "unat (b - a) = unat b - unat a" using assms by (subst unat_sub) (auto simp: word_le_nat_alt)
  then show "8 \<le> b - a" using assms by (simp add: word_le_nat_alt)
  have "unat (a - b) = 2 ^ 64 + unat a - unat b"
    using assms by (simp add: unat_sub_if' word_le_nat_alt)
  then show "8 \<le> a - b" using assms by (simp add: word_le_nat_alt)
qed

lemma entry_set [mem_simps]:
  assumes "p < TOTAL_PAGES" "q < TOTAL_PAGES" "i < 512" "j < 512"
  shows "entry (table_set (phys_to_virt (frame p)) i v m) q j = (if q = p \<and> j = i then v else entry m q j)"
proof (cases "q = p \<and> j = i")
  case True
  then show ?thesis by (simp add: entry_def table_get_def table_set_def mem_simps)
next
  case False
  let ?a = "phys_to_virt (frame p) + 8 * of_nat i" and ?b = "phys_to_virt (frame q) + 8 * of_nat j"
  have "unat ?a + 8 \<le> unat ?b \<or> unat ?b + 8 \<le> unat ?a"
    unfolding unat_entry_addr [OF assms(1,3)] unat_entry_addr [OF assms(2,4)]
    using False assms(3,4) by (cases p q rule: linorder_cases; cases i j rule: linorder_cases) auto
  moreover have "unat ?a + 8 \<le> 2 ^ 64" "unat ?b + 8 \<le> 2 ^ 64"
    unfolding unat_entry_addr [OF assms(1,3)] unat_entry_addr [OF assms(2,4)]
    using assms by (simp_all add: TOTAL_PAGES_def)
  ultimately have "8 \<le> ?b - ?a \<and> 8 \<le> ?a - ?b" using far_apart by blast
  then have "load64 (store64 ?a v m) ?b = load64 m ?b" by (simp only: load64_store64_other)
  with False show ?thesis by (simp only: entry_def table_get_def table_set_def if_False)
qed

lemma entry_zero_table [mem_simps]:
  assumes "p < TOTAL_PAGES" "q < TOTAL_PAGES" "j < 512"
  shows "entry (zero_table (phys_to_virt (frame p)) m) q j = (if q = p then 0 else entry m q j)"
proof -
  have "entry (fold (\<lambda>i. table_set (phys_to_virt (frame p)) i 0) [0..<n] m) q j =
      (if q = p \<and> j < n then 0 else entry m q j)" if "n \<le> 512" for n
    using that by (induction n) (auto simp: entry_set assms less_Suc_eq)
  from this [of 512] show ?thesis using assms by (simp add: zero_table_def PT_ENTRIES_def)
qed

section \<open>Reading descriptors back\<close>

lemma frame_aligned: "p < TOTAL_PAGES \<Longrightarrow> 4096 dvd unat (frame p)"
proof -
  assume "p < TOTAL_PAGES"
  then have "unat (frame p) = (262144 + p) * 4096" by (simp add: unat_page_to_addr)
  then show ?thesis by simp
qed

lemma or_low_masked:
  assumes "4096 dvd unat (x :: u64)" "c AND - 4096 = 0"
  shows "(x OR c) AND - 4096 = x"
proof -
  have "x AND - 4096 = x"
    using assms(1) by (simp add: word_unat_eq_iff unat_and_neg_4096)
  then show ?thesis using assms(2) by (simp add: bit.conj_disj_distrib2)
qed

lemma table_desc_eq: "table_desc pa = pa OR 3"
  by (simp add: table_desc_def PTE_VALID_def PTE_TABLE_def or.assoc)

lemma table_desc_masks:
  assumes "p < TOTAL_PAGES"
  shows "table_desc (frame p) AND 3 = 3" "table_desc (frame p) AND NOT 0xFFF = frame p"
    "bit (table_desc (frame p)) 0" "bit (table_desc (frame p)) 1"
    "desc_addr (table_desc (frame p)) = frame p" "table_desc (frame p) \<noteq> 0"
proof -
  show "table_desc (frame p) AND 3 = 3" by (simp add: table_desc_eq word_ao_absorbs)
  show m: "table_desc (frame p) AND NOT 0xFFF = frame p"
    using or_low_masked [OF frame_aligned [OF assms], of 3] by (simp add: table_desc_eq)
  show b: "bit (table_desc (frame p)) 0" "bit (table_desc (frame p)) 1"
    by (simp_all add: table_desc_eq bit_simps)
  have "take_bit 48 (frame p) = frame p"
    using assms by (simp add: word_unat_eq_iff unat_take_bit unat_page_to_addr TOTAL_PAGES_def)
  then have "take_bit 48 (table_desc (frame p)) = table_desc (frame p)"
    by (simp add: table_desc_eq)
  then show "desc_addr (table_desc (frame p)) = frame p" using m by (simp add: desc_addr_def)
  show "table_desc (frame p) \<noteq> 0" using b(1) by auto
qed

lemma page_desc_bits:
  "bit (page_desc pa) 0" "bit (page_desc pa) 1" "bit (page_desc pa) (Suc 0)" "page_desc pa \<noteq> 0"
proof -
  show "bit (page_desc pa) 0" "bit (page_desc pa) 1"
    by (simp_all add: page_desc_def PTE_VALID_def PTE_PAGE_def bit_simps)
  then show "page_desc pa \<noteq> 0" "bit (page_desc pa) (Suc 0)" by auto
qed

lemma page_desc_addr:
  assumes "4096 dvd unat pa" "unat pa < 2 ^ 48"
  shows "desc_addr (page_desc pa) = pa"
proof -
  have "take_bit 48 pa = pa"
    using assms(2) by (simp add: word_unat_eq_iff unat_take_bit)
  then have "take_bit 48 (page_desc pa) = pa OR 0x747"
    by (simp add: page_desc_def PTE_VALID_def PTE_PAGE_def PTE_AF_def PTE_ATTR_NORMAL_def
        PTE_SH_INNER_def PTE_AP_RW_ALL_def PTE_PXN_def or.assoc take_bit_or)
  then show ?thesis using or_low_masked [OF assms(1), of "0x747"] by (simp add: desc_addr_def)
qed

lemma va_index_less: "va_index n va < 512"
proof -
  have "drop_bit n va AND 0x1FF = take_bit 9 (drop_bit n va)" by (simp add: take_bit_eq_mask mask_eq_exp_minus_1)
  then have "va_index n va = unat (take_bit 9 (drop_bit n va))" by (simp only: va_index_def)
  then show ?thesis by (simp only: unat_take_bit) simp
qed

lemma va_index_eq: "va_index n va = unat va div 2 ^ n mod 512"
proof -
  have "drop_bit n va AND 0x1FF = take_bit 9 (drop_bit n va)" by (simp add: take_bit_eq_mask mask_eq_exp_minus_1)
  then have "va_index n va = unat (take_bit 9 (drop_bit n va))" by (simp only: va_index_def)
  then show ?thesis by (simp only: unat_take_bit unat_drop_bit_div) simp
qed

section \<open>Well-formed table trees\<close>

text \<open>
  A table tree is described by the role of each page in it: the root, the second-level table
  for index \<open>i\<close>, the third-level table for indices \<open>i\<close> and \<open>j\<close>. Roles make the pages of
  different tables different.
\<close>

datatype role = Root | Mid nat | Low nat nat

fun child :: "role \<Rightarrow> nat \<Rightarrow> role option" where
  "child Root i = Some (Mid i)"
| "child (Mid i) j = Some (Low i j)"
| "child (Low i j) k = None"

definition pt_wf :: "(nat \<Rightarrow> role option) \<Rightarrow> nat \<Rightarrow> kmem \<Rightarrow> bool" where
  "pt_wf rl root s \<longleftrightarrow> pmm_inv (kpmm s) \<and> dom rl \<subseteq> used (kpmm s) \<and> rl root = Some Root
     \<and> (\<forall>p r i c. rl p = Some r \<longrightarrow> i < 512 \<longrightarrow> child r i = Some c \<longrightarrow>
          entry (kbytes s) p i = 0
          \<or> (\<exists>q. entry (kbytes s) p i = table_desc (frame q) \<and> rl q = Some c))"

lemma pt_wf_page: "\<lbrakk>pt_wf rl root s; rl p = Some r\<rbrakk> \<Longrightarrow> p < TOTAL_PAGES"
  using used_le by (fastforce simp: pt_wf_def)

lemma pt_wf_entry:
  assumes "pt_wf rl root s" "rl p = Some r" "i < 512" "child r i = Some c"
  obtains (none) "entry (kbytes s) p i = 0"
  | (table) q where "entry (kbytes s) p i = table_desc (frame q)" "rl q = Some c" "q < TOTAL_PAGES"
  using assms pt_wf_page [OF assms(1)] unfolding pt_wf_def by blast

lemma walk_none1: "entry m root (va_index 30 va) = 0 \<Longrightarrow> walk m (frame root) va = None"
  by (simp add: walk_def entry_def)

lemma walk_none2:
  "\<lbrakk>entry m root (va_index 30 va) = table_desc (frame q); q < TOTAL_PAGES; entry m q (va_index 21 va) = 0\<rbrakk>
    \<Longrightarrow> walk m (frame root) va = None"
  using table_desc_masks [of q] by (simp add: walk_def entry_def Let_def)

lemma walk_leaf:
  "\<lbrakk>entry m root (va_index 30 va) = table_desc (frame q); q < TOTAL_PAGES;
     entry m q (va_index 21 va) = table_desc (frame r); r < TOTAL_PAGES\<rbrakk>
    \<Longrightarrow> walk m (frame root) va =
      (let d = entry m r (va_index 12 va) in if bit d 0 \<and> bit d 1 then Some d else None)"
  using table_desc_masks [of q] table_desc_masks [of r] by (simp add: walk_def entry_def Let_def)

lemma walk_entries:
  assumes "pt_wf rl root s"
  obtains (no_mid) "entry (kbytes s) root (va_index 30 va) = 0" "walk (kbytes s) (frame root) va = None"
  | (no_low) q where "entry (kbytes s) root (va_index 30 va) = table_desc (frame q)"
      "rl q = Some (Mid (va_index 30 va))" "q < TOTAL_PAGES"
      "entry (kbytes s) q (va_index 21 va) = 0" "walk (kbytes s) (frame root) va = None"
  | (low) q r where "entry (kbytes s) root (va_index 30 va) = table_desc (frame q)"
      "rl q = Some (Mid (va_index 30 va))" "q < TOTAL_PAGES"
      "entry (kbytes s) q (va_index 21 va) = table_desc (frame r)"
      "rl r = Some (Low (va_index 30 va) (va_index 21 va))" "r < TOTAL_PAGES"
      "walk (kbytes s) (frame root) va =
        (let d = entry (kbytes s) r (va_index 12 va) in if bit d 0 \<and> bit d 1 then Some d else None)"
proof -
  have root: "rl root = Some Root" using assms by (simp add: pt_wf_def)
  show ?thesis
  proof (rule pt_wf_entry [OF assms root va_index_less child.simps(1), of 30 va])
    assume "entry (kbytes s) root (va_index 30 va) = 0"
    then show ?thesis using no_mid walk_none1 by simp
  next
    fix q assume q: "entry (kbytes s) root (va_index 30 va) = table_desc (frame q)"
      "rl q = Some (Mid (va_index 30 va))" "q < TOTAL_PAGES"
    show ?thesis
    proof (rule pt_wf_entry [OF assms q(2) va_index_less child.simps(2), of 21 va])
      assume "entry (kbytes s) q (va_index 21 va) = 0"
      then show ?thesis using no_low [of q] q walk_none2 by simp
    next
      fix r assume r: "entry (kbytes s) q (va_index 21 va) = table_desc (frame r)"
        "rl r = Some (Low (va_index 30 va) (va_index 21 va))" "r < TOTAL_PAGES"
      then show ?thesis using low [of q r] q walk_leaf by simp
    qed
  qed
qed

text \<open>Bytes outside the tables are not touched.\<close>

definition in_page :: "nat \<Rightarrow> u64 \<Rightarrow> bool" where
  "in_page p x \<longleftrightarrow> x - phys_to_virt (frame p) < 4096"

lemma kbytes_set_entry:
  assumes "i < 512" "\<not> in_page p x"
  shows "kbytes (set_entry (phys_to_virt (frame p)) i v s) x = kbytes s x"
proof -
  let ?d = "x - phys_to_virt (frame p)"
  have d: "4096 \<le> unat ?d" using assms(2) by (simp add: in_page_def word_less_nat_alt)
  have i: "unat (8 * of_nat i :: u64) = 8 * i" using assms(1) by (simp add: unat_word_ariths unat_of_nat_small)
  have "8 * of_nat i \<le> ?d" using d i assms(1) by (simp add: word_le_nat_alt)
  then have "unat (?d - 8 * of_nat i) = unat ?d - 8 * i" using i by (simp add: unat_sub)
  then have "\<not> ?d - 8 * of_nat i < 8" using d assms(1) by (simp add: word_less_nat_alt)
  then show ?thesis by (simp add: set_entry_def table_set_def store64_def diff_diff_add [symmetric])
qed

lemma kbytes_fold_set_entry:
  assumes "\<And>j. f j < 512" "\<not> in_page p x"
  shows "kbytes (fold (\<lambda>j. set_entry (phys_to_virt (frame p)) (f j) (g j)) js s) x = kbytes s x"
  by (induction js arbitrary: s) (simp_all add: kbytes_set_entry assms)

lemma kbytes_clear_table:
  assumes "\<not> in_page p x"
  shows "kbytes (clear_table (phys_to_virt (frame p)) s) x = kbytes s x"
proof -
  have c: "kbytes (clear_table (phys_to_virt (frame p)) s) =
      kbytes (fold (\<lambda>j. set_entry (phys_to_virt (frame p)) (min j 511) 0) [0..<512] s)"
  proof -
    have "kbytes (fold (\<lambda>j. set_entry (phys_to_virt (frame p)) (min j 511) 0) [0..<n] s) =
        fold (\<lambda>i. table_set (phys_to_virt (frame p)) i 0) [0..<n] (kbytes s)" if "n \<le> 512" for n
      using that by (induction n) (simp_all add: set_entry_def min_def)
    from this [of 512] show ?thesis by (simp add: clear_table_def zero_table_def PT_ENTRIES_def)
  qed
  have "min j 511 < 512" for j :: nat by simp
  from kbytes_fold_set_entry [where f = "\<lambda>j. min j 511", OF this assms]
  show ?thesis unfolding c .
qed

lemma and_0x1FF_less: "unat ((w :: u64) AND 0x1FF) < 512"
  using va_index_less [of 0 w] by (simp add: va_index_def)

lemma kbytes_map_code: "\<not> in_page p x \<Longrightarrow> kbytes (map_code (phys_to_virt (frame p)) ca n s) x = kbytes s x"
  unfolding map_code_def by (rule kbytes_fold_set_entry) (rule and_0x1FF_less)

lemma kbytes_map_stack: "\<not> in_page p x \<Longrightarrow> kbytes (map_stack (phys_to_virt (frame p)) base sa n s) x = kbytes s x"
  unfolding map_stack_def by (rule kbytes_fold_set_entry) (rule va_index_less)

text \<open>Linking a fresh, cleared page into an empty entry of a table of the tree.\<close>

lemma link_table:
  assumes wf: "pt_wf rl root s" and p: "rl p = Some r" "i < 512" "child r i = Some c"
    and empty: "entry (kbytes s) p i = 0"
    and al: "alloc_frame s = (pa, s1)" "pa \<noteq> 0"
  defines "s2 \<equiv> set_entry (phys_to_virt (frame p)) i (table_desc pa) (clear_table (phys_to_virt pa) s1)"
  obtains q where "pa = frame q" "q < TOTAL_PAGES" "q \<notin> used (kpmm s)"
    "used (kpmm s2) = insert q (used (kpmm s))"
    "pt_wf (rl(q \<mapsto> c)) root s2" "entry (kbytes s2) p i = table_desc (frame q)"
    "\<And>va. walk (kbytes s2) (frame root) va = walk (kbytes s) (frame root) va"
    "\<And>x y. \<lbrakk>x \<in> dom rl; y < 512; (x, y) \<noteq> (p, i)\<rbrakk> \<Longrightarrow> entry (kbytes s2) x y = entry (kbytes s) x y"
    "\<And>x. \<not> in_page p x \<Longrightarrow> \<not> in_page q x \<Longrightarrow> kbytes s2 x = kbytes s x"
proof -
  obtain pm where pm: "pmm_alloc_page (kpmm s) = (pa, pm)" "s1 = s\<lparr>kpmm := pm\<rparr>"
    using al(1) by (auto simp: alloc_frame_def split: prod.splits)
  have inv: "pmm_inv (kpmm s)" using wf by (simp add: pt_wf_def)
  obtain q where q: "q < TOTAL_PAGES" "pa = frame q" "q \<notin> used (kpmm s)" "pmm_inv pm"
    "used pm = insert q (used (kpmm s))"
    using pa.alloc_some [OF inv pm(1) al(2)] by auto
  have rq: "rl q = None" using q(3) wf by (auto simp: pt_wf_def)
  have pT: "p < TOTAL_PAGES" using pt_wf_page [OF wf p(1)] .
  have ent: "entry (kbytes s2) x y =
      (if x = p \<and> y = i then table_desc (frame q) else if x = q then 0 else entry (kbytes s) x y)"
    if "x < TOTAL_PAGES" "y < 512" for x y
    using that pT q(1) p(2)
    by (simp add: s2_def set_entry_def clear_table_def pm q(2) entry_set entry_zero_table)
  have wf': "pt_wf (rl(q \<mapsto> c)) root s2"
    unfolding pt_wf_def
  proof (intro conjI allI impI)
    show "pmm_inv (kpmm s2)" "dom (rl(q \<mapsto> c)) \<subseteq> used (kpmm s2)"
      using q wf by (auto simp: s2_def set_entry_def clear_table_def pm pt_wf_def)
    show "(rl(q \<mapsto> c)) root = Some Root" using wf rq by (auto simp: pt_wf_def)
    fix x r' y c'
    assume x: "(rl(q \<mapsto> c)) x = Some r'" "y < 512" "child r' y = Some c'"
    have xT: "x < TOTAL_PAGES" using x(1) q(1) pt_wf_page [OF wf] by (auto split: if_splits)
    show "entry (kbytes s2) x y = 0 \<or>
        (\<exists>z. entry (kbytes s2) x y = table_desc (frame z) \<and> (rl(q \<mapsto> c)) z = Some c')"
    proof (cases "x = q")
      case True
      then show ?thesis using ent [OF xT x(2)] p(1) rq by auto
    next
      case False
      show ?thesis
      proof (cases "x = p \<and> y = i")
        case True
        then show ?thesis using ent [OF xT x(2)] x False p by auto
      next
        case other: False
        have "rl x = Some r'" using x(1) False by simp
        from wf this x(2,3) show ?thesis
        proof (cases rule: pt_wf_entry)
          case none
          then show ?thesis using ent [OF xT x(2)] False other by simp
        next
          case (table z)
          then have "z \<noteq> q" using rq by auto
          with table show ?thesis using ent [OF xT x(2)] False other by auto
        qed
      qed
    qed
  qed
  have "walk (kbytes s2) (frame root) va = walk (kbytes s) (frame root) va" for va
  proof -
    have root: "root < TOTAL_PAGES" "root \<noteq> q"
      using wf rq pt_wf_page [OF wf, of root Root] by (auto simp: pt_wf_def)
    note e = ent [OF _ va_index_less]
    have td: "table_desc (frame x) \<noteq> 0" if "x < TOTAL_PAGES" for x using table_desc_masks(6) [OF that] .
    from wf show ?thesis
    proof (cases rule: walk_entries [of rl root s va])
      case no_mid
      have "walk (kbytes s2) (frame root) va = None"
      proof (cases "root = p \<and> va_index 30 va = i")
        case True
        then show ?thesis
          using e [OF root(1)] e [OF q(1)] rq p(1) q(1) by (intro walk_none2 [of _ _ _ q]) auto
      next
        case False
        then show ?thesis using e [OF root(1)] no_mid root(2) by (intro walk_none1) auto
      qed
      with no_mid show ?thesis by simp
    next
      case (no_low x)
      have ne: "x \<noteq> q" using no_low rq by auto
      have e1: "entry (kbytes s2) root (va_index 30 va) = table_desc (frame x)"
        using e [OF root(1)] no_low(1) root(2) empty td [OF no_low(3)] by auto
      have "walk (kbytes s2) (frame root) va = None"
      proof (cases "x = p \<and> va_index 21 va = i")
        case True
        then have e2: "entry (kbytes s2) x (va_index 21 va) = table_desc (frame q)"
          using e [OF no_low(3), of 21 va] by simp
        have "entry (kbytes s2) q (va_index 12 va) = 0" using e [OF q(1)] rq p(1) by auto
        then show ?thesis using walk_leaf [OF e1 no_low(3) e2 q(1)] by simp
      next
        case False
        then have "entry (kbytes s2) x (va_index 21 va) = 0"
          using e [OF no_low(3)] no_low(4) by auto
        then show ?thesis using walk_none2 [OF e1 no_low(3)] by simp
      qed
      with no_low show ?thesis by simp
    next
      case (low x y)
      have ne: "x \<noteq> q" "y \<noteq> q" "y \<noteq> p" using low rq p by auto
      have e1: "entry (kbytes s2) root (va_index 30 va) = table_desc (frame x)"
        using e [OF root(1)] low(1) root(2) empty td [OF low(3)] by auto
      have e2: "entry (kbytes s2) x (va_index 21 va) = table_desc (frame y)"
        using e [OF low(3)] low(4) ne(1) empty td [OF low(6)] by auto
      have "entry (kbytes s2) y (va_index 12 va) = entry (kbytes s) y (va_index 12 va)"
        using e [OF low(6)] ne by simp
      then show ?thesis using walk_leaf [OF e1 low(3) e2 low(6)] low(7) by simp
    qed
  qed
  moreover have "entry (kbytes s2) p i = table_desc (frame q)" using ent [OF pT p(2)] by simp
  moreover have "used (kpmm s2) = insert q (used (kpmm s))"
    using q(5) by (simp add: s2_def set_entry_def clear_table_def pm)
  moreover have "entry (kbytes s2) x y = entry (kbytes s) x y"
    if "x \<in> dom rl" "y < 512" "(x, y) \<noteq> (p, i)" for x y
    using ent [of x y] that rq pt_wf_page [OF wf] by auto
  moreover have "kbytes s2 x = kbytes s x" if "\<not> in_page p x" "\<not> in_page q x" for x
    using that p(2) by (simp add: s2_def q(2) kbytes_set_entry kbytes_clear_table pm)
  ultimately show ?thesis using that [OF q(2,1,3)] wf' by blast
qed

lemma next_table_spec:
  assumes wf: "pt_wf rl root s" and p: "rl p = Some r" "i < 512" "child r i = Some c"
    and nt: "next_table (phys_to_virt (frame p)) i s = (t, s')"
  obtains (full) "t = 0" "s' = s" "used (kpmm s) = {..<TOTAL_PAGES}"
  | (got) q rl' where "t = phys_to_virt (frame q)" "t \<noteq> 0" "q < TOTAL_PAGES" "pt_wf rl' root s'"
    "rl \<subseteq>\<^sub>m rl'" "rl' q = Some c" "entry (kbytes s') p i = table_desc (frame q)"
    "\<And>va. walk (kbytes s') (frame root) va = walk (kbytes s) (frame root) va"
    "used (kpmm s) \<subseteq> used (kpmm s')" "card (used (kpmm s')) \<le> Suc (card (used (kpmm s)))"
    "\<And>x y. \<lbrakk>x \<in> dom rl; y < 512; (x, y) \<noteq> (p, i)\<rbrakk> \<Longrightarrow> entry (kbytes s') x y = entry (kbytes s) x y"
    "dom rl' = dom rl \<union> (used (kpmm s') - used (kpmm s))"
    "\<And>x. \<not> (\<exists>p \<in> dom rl'. in_page p x) \<Longrightarrow> kbytes s' x = kbytes s x"
proof (rule pt_wf_entry [OF wf p])
  assume e: "entry (kbytes s) p i = 0"
  obtain pa s1 where al: "alloc_frame s = (pa, s1)" by fastforce
  then obtain pm where pm: "pmm_alloc_page (kpmm s) = (pa, pm)" "s1 = s\<lparr>kpmm := pm\<rparr>"
    by (auto simp: alloc_frame_def split: prod.splits)
  have inv: "pmm_inv (kpmm s)" using wf by (simp add: pt_wf_def)
  show ?thesis
  proof (cases "pa = 0")
    case True
    then have "pm = kpmm s \<and> used (kpmm s) = {..<TOTAL_PAGES}" using pa.alloc_none [OF inv] pm(1) by simp
    then show ?thesis using nt al pm(2) True e full
      by (simp add: next_table_def Let_def flip: entry_def)
  next
    case False
    obtain q where q: "pa = frame q" "q < TOTAL_PAGES" "q \<notin> used (kpmm s)"
      and rest: "used (kpmm s') = insert q (used (kpmm s))" "pt_wf (rl(q \<mapsto> c)) root s'"
      "entry (kbytes s') p i = table_desc (frame q)"
      "\<And>va. walk (kbytes s') (frame root) va = walk (kbytes s) (frame root) va"
      "\<And>x y. \<lbrakk>x \<in> dom rl; y < 512; (x, y) \<noteq> (p, i)\<rbrakk> \<Longrightarrow> entry (kbytes s') x y = entry (kbytes s) x y"
      and keep: "\<And>x. \<not> in_page p x \<Longrightarrow> \<not> in_page q x \<Longrightarrow> kbytes s' x = kbytes s x"
      and t: "t = phys_to_virt (frame q)"
    proof -
      have "t = phys_to_virt pa"
        "s' = set_entry (phys_to_virt (frame p)) i (table_desc pa) (clear_table (phys_to_virt pa) s1)"
        using nt al False e by (auto simp: next_table_def Let_def simp flip: entry_def)
      then show ?thesis using link_table [OF wf p e al False] that by metis
    qed
    have "rl q = None" using q(3) wf by (auto simp: pt_wf_def)
    then have "rl \<subseteq>\<^sub>m rl(q \<mapsto> c)" by (auto simp: map_le_def)
    moreover have "card (used (kpmm s')) \<le> Suc (card (used (kpmm s)))"
      using rest(1) by (simp add: card_insert_if)
    moreover have "dom (rl(q \<mapsto> c)) = dom rl \<union> (used (kpmm s') - used (kpmm s))" using rest(1) q(3) by auto
    moreover have "kbytes s' x = kbytes s x" if "\<not> (\<exists>p \<in> dom (rl(q \<mapsto> c)). in_page p x)" for x
      using that p(1) by (intro keep) auto
    ultimately show ?thesis
      using got [of q "rl(q \<mapsto> c)"] q rest t frame_kva_nonzero [of q] by auto
  qed
next
  fix q assume q: "entry (kbytes s) p i = table_desc (frame q)" "rl q = Some c" "q < TOTAL_PAGES"
  then have "t = phys_to_virt (frame q)" "s' = s"
    using nt table_desc_masks [of q] by (auto simp: next_table_def simp flip: entry_def)
  then show ?thesis using got [of q rl] q wf frame_kva_nonzero [of q] by simp
qed

lemma set_entry_proj [simp]: "kpmm (set_entry t i v s) = kpmm s"
  by (simp add: set_entry_def)

lemma va_page_iff:
  "va_index 30 v = va_index 30 w \<and> va_index 21 v = va_index 21 w \<and> va_index 12 v = va_index 12 w
    \<longleftrightarrow> unat v div 4096 mod 2 ^ 27 = unat w div 4096 mod 2 ^ 27"
proof -
  have ix: "va_index 30 x = unat x div 4096 div 2 ^ 18 mod 512" "va_index 21 x = unat x div 4096 div 512 mod 512"
    "va_index 12 x = unat x div 4096 mod 512" for x
    by (simp_all add: va_index_eq div_mult2_eq [symmetric])
  define V W where "V = unat v div 4096" and "W = unat w div 4096"
  have split: "N mod 2 ^ 27 = (N div 2 ^ 18 mod 512) * 2 ^ 18 + (N div 512 mod 512) * 512 + N mod 512" for N :: nat
  proof -
    have "N mod (512 * 2 ^ 18) = 512 * (N div 512 mod 2 ^ 18) + N mod 512" by (rule mod_mult2_eq)
    moreover have "N div 512 mod (512 * 512) = 512 * (N div 512 div 512 mod 512) + N div 512 mod 512"
      by (rule mod_mult2_eq)
    moreover have "N div 512 div 512 = N div 2 ^ 18" by (simp add: div_mult2_eq [symmetric])
    ultimately show ?thesis by simp
  qed
  have "V mod 2 ^ 27 = W mod 2 ^ 27" if "V div 2 ^ 18 mod 512 = W div 2 ^ 18 mod 512"
    "V div 512 mod 512 = W div 512 mod 512" "V mod 512 = W mod 512"
    unfolding split that ..
  moreover have "V div 2 ^ 18 mod 512 = W div 2 ^ 18 mod 512 \<and> V div 512 mod 512 = W div 512 mod 512
      \<and> V mod 512 = W mod 512" if eq: "V mod 2 ^ 27 = W mod 2 ^ 27"
  proof -
    have c: "N div 2 ^ 18 mod 512 = N mod 2 ^ 27 div 2 ^ 18" "N div 512 mod 512 = N mod 2 ^ 27 div 512 mod 512"
      "N mod 512 = N mod 2 ^ 27 mod 512" for N :: nat
    proof -
      define a b d where "a = N div 2 ^ 18 mod 512" and "b = N div 512 mod 512" and "d = N mod 512"
      have l: "a < 512" "b < 512" "d < 512" by (simp_all add: a_def b_def d_def)
      have s: "N mod 2 ^ 27 = a * 2 ^ 18 + b * 512 + d" unfolding a_def b_def d_def by (rule split)
      show "N div 2 ^ 18 mod 512 = N mod 2 ^ 27 div 2 ^ 18" unfolding s a_def [symmetric] using l by simp
      have "(a * 2 ^ 18 + b * 512 + d) div 512 = a * 512 + b" using l by simp
      then show "N div 512 mod 512 = N mod 2 ^ 27 div 512 mod 512" unfolding s b_def [symmetric] using l by simp
      have m: "((a * 512 + b) * 512 + d) mod 512 = d" using l by (simp only: mod_mult_self3 mod_less)
      have e: "a * 2 ^ 18 + b * 512 + d = (a * 512 + b) * 512 + d" by simp
      have "N mod 2 ^ 27 mod 512 = d" using s e m by metis
      then show "N mod 512 = N mod 2 ^ 27 mod 512" by (simp only: d_def)
    qed
    show ?thesis
      using c(1) [of V] c(1) [of W] c(2) [of V] c(2) [of W] c(3) [of V] c(3) [of W] eq by argo
  qed
  ultimately show ?thesis unfolding ix V_def [symmetric] W_def [symmetric] by blast
qed

text \<open>Writing a page descriptor into a third-level table changes one page's translation only.\<close>

lemma set_leaf:
  fixes va pa :: u64
  assumes wf: "pt_wf rl root s" and mid: "entry (kbytes s) root (va_index 30 va) = table_desc (frame q)"
      "rl q = Some (Mid (va_index 30 va))"
    and low: "entry (kbytes s) q (va_index 21 va) = table_desc (frame l)"
      "rl l = Some (Low (va_index 30 va) (va_index 21 va))"
  defines "s' \<equiv> set_entry (phys_to_virt (frame l)) (va_index 12 va) (page_desc pa) s"
  shows "pt_wf rl root s'"
    "walk (kbytes s') (frame root) va' = (if unat va' div 4096 mod 2 ^ 27 = unat va div 4096 mod 2 ^ 27
       then Some (page_desc pa) else walk (kbytes s) (frame root) va')"
proof -
  have root: "rl root = Some Root" using wf by (simp add: pt_wf_def)
  note T = pt_wf_page [OF wf root] pt_wf_page [OF wf mid(2)] pt_wf_page [OF wf low(2)]
  have ent: "entry (kbytes s') x y = (if x = l \<and> y = va_index 12 va then page_desc pa else entry (kbytes s) x y)"
    if "x < TOTAL_PAGES" "y < 512" for x y
    using that T va_index_less by (simp add: s'_def set_entry_def entry_set)
  have other: "entry (kbytes s') x y = entry (kbytes s) x y" if "rl x = Some Root \<or> rl x = Some (Mid i)" "y < 512" for x y i
  proof -
    have "x \<noteq> l" using that(1) low(2) by auto
    moreover have "x < TOTAL_PAGES" using that(1) pt_wf_page [OF wf] by blast
    ultimately show ?thesis using ent that(2) by simp
  qed
  have "kpmm s' = kpmm s" by (simp add: s'_def)
  then show "pt_wf rl root s'"
    using wf unfolding pt_wf_def
  proof (elim conjE, intro conjI allI impI; (simp; fail)?)
    fix p r i c assume *: "rl p = Some r" "i < 512" "child r i = Some c"
      "\<forall>p r i c. rl p = Some r \<longrightarrow> i < 512 \<longrightarrow> child r i = Some c \<longrightarrow>
         entry (kbytes s) p i = 0 \<or> (\<exists>q. entry (kbytes s) p i = table_desc (frame q) \<and> rl q = Some c)"
    have "r = Root \<or> (\<exists>i. r = Mid i)" using *(3) by (cases r) auto
    then have "entry (kbytes s') p i = entry (kbytes s) p i" using other *(1,2) by blast
    then show "entry (kbytes s') p i = 0 \<or> (\<exists>q. entry (kbytes s') p i = table_desc (frame q) \<and> rl q = Some c)"
      using * by simp
  qed
  show "walk (kbytes s') (frame root) va' = (if unat va' div 4096 mod 2 ^ 27 = unat va div 4096 mod 2 ^ 27
       then Some (page_desc pa) else walk (kbytes s) (frame root) va')"
  proof (cases "unat va' div 4096 mod 2 ^ 27 = unat va div 4096 mod 2 ^ 27")
    case True
    then have ix: "va_index 30 va' = va_index 30 va" "va_index 21 va' = va_index 21 va"
      "va_index 12 va' = va_index 12 va" using va_page_iff by blast+
    have "entry (kbytes s') root (va_index 30 va') = table_desc (frame q)"
      "entry (kbytes s') q (va_index 21 va') = table_desc (frame l)"
      using other root mid low va_index_less ix by metis+
    from walk_leaf [OF this(1) T(2) this(2) T(3)] show ?thesis
      using True ent [OF T(3) va_index_less, of 12 va'] ix page_desc_bits by (simp add: Let_def)
  next
    case False
    have "walk (kbytes s') (frame root) va' = walk (kbytes s) (frame root) va'"
      using wf
    proof (cases rule: walk_entries [of rl root s va'])
      case no_mid
      then show ?thesis using walk_none1 other [of root, OF _ va_index_less] root by metis
    next
      case (no_low x)
      then show ?thesis using walk_none2 other [OF _ va_index_less] root by metis
    next
      case (low x y)
      have "\<not> (y = l \<and> va_index 12 va' = va_index 12 va)"
        using False va_page_iff [of va' va] low(5) assms(5) by auto
      then have "entry (kbytes s') y (va_index 12 va') = entry (kbytes s) y (va_index 12 va')"
        using ent [OF low(6) va_index_less, of 12 va'] by auto
      moreover have "entry (kbytes s') root (va_index 30 va') = table_desc (frame x)"
        "entry (kbytes s') x (va_index 21 va') = table_desc (frame y)"
        using other [OF _ va_index_less] root low by metis+
      ultimately show ?thesis using walk_leaf low by metis
    qed
    with False show ?thesis by simp
  qed
qed

lemma map_user_page:
  assumes wf: "pt_wf rl root s" and r: "mmu_map_user_page_in_pgd (frame root) va pa s = (r, s')"
  obtains (ok) rl' where "r = 0" "pt_wf rl' root s'" "rl \<subseteq>\<^sub>m rl'" "used (kpmm s) \<subseteq> used (kpmm s')"
    "\<And>va'. walk (kbytes s') (frame root) va' = (if unat va' div 4096 mod 2 ^ 27 = unat va div 4096 mod 2 ^ 27
       then Some (page_desc pa) else walk (kbytes s) (frame root) va')"
    "dom rl' = dom rl \<union> (used (kpmm s') - used (kpmm s))"
    "\<And>x. \<not> (\<exists>p \<in> dom rl'. in_page p x) \<Longrightarrow> kbytes s' x = kbytes s x"
  | (failed) rl' where "r = -1" "pt_wf rl' root s'" "rl \<subseteq>\<^sub>m rl'" "used (kpmm s) \<subseteq> used (kpmm s')"
    "used (kpmm s') = {..<TOTAL_PAGES}" "card (used (kpmm s)) + 1 \<ge> TOTAL_PAGES"
    "\<And>va'. walk (kbytes s') (frame root) va' = walk (kbytes s) (frame root) va'"
    "dom rl' = dom rl \<union> (used (kpmm s') - used (kpmm s))"
    "\<And>x. \<not> (\<exists>p \<in> dom rl'. in_page p x) \<Longrightarrow> kbytes s' x = kbytes s x"
proof -
  have root: "rl root = Some Root" using wf by (simp add: pt_wf_def)
  obtain l2 s1 where n2: "next_table (phys_to_virt (frame root)) (va_index 30 va) s = (l2, s1)" by fastforce
  obtain l3 s2 where n3: "next_table l2 (va_index 21 va) s1 = (l3, s2)" by fastforce
  from wf root va_index_less child.simps(1) n2 show ?thesis
  proof (cases rule: next_table_spec)
    case full
    have "(r, s') = (-1, s)" using r n2 full by (simp add: mmu_map_user_page_in_pgd_def)
    then show ?thesis using failed [of rl] full wf by simp
  next
    case (got q rl1)
    note g = got
    from g(4) g(6) va_index_less child.simps(2) n3 [unfolded g(1)] show ?thesis
    proof (cases rule: next_table_spec)
      case full
      have "(r, s') = (-1, s1)"
        using r n2 n3 g(1,2) full by (simp add: mmu_map_user_page_in_pgd_def)
      moreover have "card (used (kpmm s)) + 1 \<ge> TOTAL_PAGES" using g(10) full(3) by simp
      ultimately show ?thesis using failed [of rl1] full g by simp
    next
      case (got l rl2)
      have s': "r = 0" "s' = set_entry l3 (va_index 12 va) (page_desc pa) s2"
        using r n2 n3 g(1,2) got(1,2) by (simp_all add: mmu_map_user_page_in_pgd_def)
      have q2: "rl2 q = Some (Mid (va_index 30 va))" using map_le_Some [OF got(5) g(6)] .
      have e2: "entry (kbytes s2) root (va_index 30 va) = table_desc (frame q)"
      proof -
        have "root \<noteq> q" "root \<in> dom rl1" using map_le_Some [OF g(5) root] g(6) by auto
        then show ?thesis using got(11) [of root "va_index 30 va"] g(7) va_index_less by auto
      qed
      note leaf = set_leaf [OF got(4) e2 q2 got(7,6), of pa, folded got(1), folded s'(2)]
      have "dom rl2 = dom rl \<union> (used (kpmm s') - used (kpmm s))" using got(12) g(12) g(9) got(9) s'(2) by auto
      moreover have "kbytes s' x = kbytes s x" if no: "\<not> (\<exists>p \<in> dom rl2. in_page p x)" for x
      proof -
        have "dom rl1 \<subseteq> dom rl2" using got(5) map_le_implies_dom_le by blast
        then have "\<not> (\<exists>p \<in> dom rl1. in_page p x)" "\<not> in_page l x" using no got(6) by blast+
        then show ?thesis using g(13) got(13) no va_index_less by (simp add: s'(2) got(1) kbytes_set_entry)
      qed
      ultimately show ?thesis
        using ok [of rl2] s' leaf g(8) got(8) map_le_trans [OF g(5) got(5)] subset_trans [OF g(9) got(9)]
        by simp
    qed
  qed
qed

section \<open>Building a process's table\<close>

lemma alloc_frame_cases:
  assumes "pmm_inv (kpmm s)" "alloc_frame s = (a, s1)"
  obtains (full) "a = 0" "s1 = s" "used (kpmm s) = {..<TOTAL_PAGES}"
  | (got) q where "q < TOTAL_PAGES" "a = frame q" "a \<noteq> 0" "q \<notin> used (kpmm s)" "pmm_inv (kpmm s1)"
      "used (kpmm s1) = insert q (used (kpmm s))" "kbytes s1 = kbytes s"
proof -
  obtain pm where pm: "pmm_alloc_page (kpmm s) = (a, pm)" "s1 = s\<lparr>kpmm := pm\<rparr>"
    using assms(2) by (auto simp: alloc_frame_def split: prod.splits)
  show ?thesis
  proof (cases "a = 0")
    case True
    then show ?thesis using pa.alloc_none [OF assms(1)] pm full by simp
  next
    case False
    then show ?thesis using pa.alloc_some [OF assms(1) pm(1)] pm(2) got by auto
  qed
qed

lemma alloc_frame_some:
  assumes "pmm_inv (kpmm s)" "alloc_frame s = (a, s1)" "card (used (kpmm s)) < TOTAL_PAGES"
  shows "a \<noteq> 0" "pmm_inv (kpmm s1)" "card (used (kpmm s1)) = Suc (card (used (kpmm s)))"
proof -
  have "used (kpmm s) \<noteq> {..<TOTAL_PAGES}"
  proof
    assume "used (kpmm s) = {..<TOTAL_PAGES}"
    then show False using assms(3) by simp
  qed
  then obtain q where "a \<noteq> 0" "q \<notin> used (kpmm s)" "pmm_inv (kpmm s1)" "used (kpmm s1) = insert q (used (kpmm s))"
    using alloc_frame_cases [OF assms(1,2)] by metis
  then show "a \<noteq> 0" "pmm_inv (kpmm s1)" "card (used (kpmm s1)) = Suc (card (used (kpmm s)))" by simp_all
qed

lemma kpmm_fold_set_entry: "kpmm (fold (\<lambda>p. set_entry l (f p) (g p)) ps s) = kpmm s"
  by (induction ps arbitrary: s) auto

lemma entry_set_entry [mem_simps]:
  assumes "p < TOTAL_PAGES" "q < TOTAL_PAGES" "i < 512" "j < 512"
  shows "entry (kbytes (set_entry (phys_to_virt (frame p)) i v s)) q j =
    (if q = p \<and> j = i then v else entry (kbytes s) q j)"
  using assms by (simp add: set_entry_def entry_set)

lemma entry_clear_table [mem_simps]:
  assumes "p < TOTAL_PAGES" "q < TOTAL_PAGES" "j < 512"
  shows "entry (kbytes (clear_table (phys_to_virt (frame p)) s)) q j = (if q = p then 0 else entry (kbytes s) q j)"
  using assms by (simp add: clear_table_def entry_zero_table)

lemma kpmm_clear_table [simp]: "kpmm (clear_table t s) = kpmm s"
  by (simp add: clear_table_def)

lemma page_offset: "y < 512 \<Longrightarrow> (ucast ((of_nat y :: u32) * 4096) :: u64) = of_nat y * 4096"
proof -
  assume y: "y < 512"
  then have "unat ((of_nat y :: u32) * 4096) = y * 4096" by (simp add: unat_word_ariths unat_of_nat_small)
  then have "unat (ucast ((of_nat y :: u32) * 4096) :: u64) = y * 4096" using y by (simp add: unat_ucast)
  moreover have "unat ((of_nat y :: u64) * 4096) = y * 4096" using y by (simp add: unat_word_ariths unat_of_nat_small)
  ultimately show ?thesis by (simp add: word_unat_eq_iff)
qed

lemma entry_map_code:
  assumes "p < TOTAL_PAGES" "x < TOTAL_PAGES" "y < 512" "unat n \<le> 512"
  shows "entry (kbytes (map_code (phys_to_virt (frame p)) ca n s)) x y =
    (if x = p \<and> y < unat n then page_desc (ca + of_nat y * 4096) else entry (kbytes s) x y)"
proof -
  have ix: "unat ((drop_bit 12 USER_VA_CODE + ucast (of_nat i :: u32)) AND 0x1FF) = i" if "i < 512" for i
  proof -
    have "drop_bit 12 USER_VA_CODE = (0x400 :: u64)" by (simp add: USER_VA_CODE_def)
    moreover have "unat (ucast (of_nat i :: u32) :: u64) = i" using that by (simp add: unat_ucast unat_of_nat_small)
    then have "unat (0x400 + ucast (of_nat i :: u32) :: u64) = 0x400 + i" using that by (simp add: unat_add_small)
    moreover have "(w :: u64) AND 0x1FF = take_bit 9 w" for w by (simp add: take_bit_eq_mask mask_eq_exp_minus_1)
    ultimately have "unat ((drop_bit 12 USER_VA_CODE + ucast (of_nat i :: u32)) AND 0x1FF) = (0x400 + i) mod 2 ^ 9"
      by (simp only: unat_take_bit)
    moreover have "(0x400 + i) mod 2 ^ 9 = i"
    proof -
      have "(i + 2 * 512) mod 512 = i" using that by (simp only: mod_mult_self1 mod_less)
      then show ?thesis by (simp add: add.commute)
    qed
    ultimately show ?thesis by (simp only:)
  qed
  have "entry (kbytes (fold (\<lambda>p'. set_entry (phys_to_virt (frame p))
         (unat ((drop_bit 12 USER_VA_CODE + ucast (of_nat p' :: u32)) AND 0x1FF))
         (page_desc (ca + ucast ((of_nat p' :: u32) * 4096)))) [0..<k] s)) x y =
       (if x = p \<and> y < k then page_desc (ca + of_nat y * 4096) else entry (kbytes s) x y)" if "k \<le> 512" for k
    using that
  proof (induction k)
    case (Suc k)
    then show ?case using assms(1-3)
      by (auto simp: entry_set_entry ix page_offset less_Suc_eq)
  qed simp
  from this [OF assms(4)] show ?thesis by (simp only: map_code_def)
qed

lemma entry_map_stack:
  assumes "p < TOTAL_PAGES" "x < TOTAL_PAGES" "y < 512" "unat n \<le> 512"
    and base: "unat base = 0x800000 - unat n * 4096"
  shows "entry (kbytes (map_stack (phys_to_virt (frame p)) base sa n s)) x y =
    (if x = p \<and> 512 - unat n \<le> y then page_desc (sa + of_nat (y - (512 - unat n)) * 4096)
     else entry (kbytes s) x y)"
proof -
  have ix: "va_index 12 (base + of_nat i * 4096) = 512 - unat n + i" if "i < unat n" for i
  proof -
    have i: "i < 512" using that assms(4) by simp
    have "unat ((of_nat i :: u64) * 4096) = i * 4096" using i by (simp add: unat_word_ariths unat_of_nat_small)
    then have "unat (base + of_nat i * 4096) = 0x800000 - unat n * 4096 + i * 4096"
      using base i by (simp add: unat_add_small)
    also have "\<dots> = (1536 + (512 - unat n + i)) * 4096" using assms(4) by (simp add: diff_mult_distrib)
    finally have "unat (base + of_nat i * 4096) div 4096 = 3 * 512 + (512 - unat n + i)" by simp
    moreover have "512 - unat n + i < 512" using that assms(4) by simp
    ultimately have "unat (base + of_nat i * 4096) div 4096 mod 512 = 512 - unat n + i"
      by (simp only: mod_mult_self3 mod_less)
    then show ?thesis by (simp add: va_index_eq)
  qed
  have "entry (kbytes (fold (\<lambda>p'. set_entry (phys_to_virt (frame p)) (va_index 12 (base + ucast ((of_nat p' :: u32) * 4096)))
         (page_desc (sa + ucast ((of_nat p' :: u32) * 4096)))) [0..<k] s)) x y =
       (if x = p \<and> 512 - unat n \<le> y \<and> y < 512 - unat n + k
        then page_desc (sa + of_nat (y - (512 - unat n)) * 4096) else entry (kbytes s) x y)" if "k \<le> unat n" for k
    using that
  proof (induction k)
    case 0
    then show ?case by auto
  next
    case (Suc k)
    have "y = 512 - unat n + k \<longleftrightarrow> 512 - unat n \<le> y \<and> y - (512 - unat n) = k" by auto
    moreover have "k < 512" "512 - unat n + k < 512" using Suc.prems assms(4) by auto
    ultimately show ?case using Suc assms(1-3)
      by (auto simp: entry_set_entry ix page_offset less_Suc_eq)
  qed
  from this [of "unat n"] assms(3,4) show ?thesis by (simp add: map_stack_def)
qed

definition pgd_pages :: "nat \<Rightarrow> nat \<Rightarrow> nat \<Rightarrow> nat \<Rightarrow> nat \<Rightarrow> role option" where
  "pgd_pages p1 p2 p3 p4 = [p1 \<mapsto> Root, p2 \<mapsto> Mid 0, p3 \<mapsto> Low 0 2, p4 \<mapsto> Low 0 3]"

lemma create_entries:
  assumes inv: "pmm_inv (kpmm s)" and cp: "unat cp \<le> 512" and sp: "0 < sp" "unat sp \<le> 512"
    and r: "mmu_create_user_pgd ca cp sa sp s = (r, s')"
    and nz: "r \<noteq> 0 \<or> card (used (kpmm s)) + 4 \<le> TOTAL_PAGES"
  obtains p1 p2 p3 p4 where "r = frame p1" "distinct [p1, p2, p3, p4]" "{p1, p2, p3, p4} \<subseteq> {..<TOTAL_PAGES}"
    "{p1, p2, p3, p4} \<inter> used (kpmm s) = {}" "used (kpmm s') = used (kpmm s) \<union> {p1, p2, p3, p4}"
    "pmm_inv (kpmm s')"
    "\<And>y. y < 512 \<Longrightarrow> entry (kbytes s') p1 y = (if y = 0 then table_desc (frame p2) else 0)"
    "\<And>y. y < 512 \<Longrightarrow> entry (kbytes s') p2 y =
       (if y = 2 then table_desc (frame p3) else if y = 3 then table_desc (frame p4) else 0)"
    "\<And>y. y < 512 \<Longrightarrow> entry (kbytes s') p3 y = (if y < unat cp then page_desc (ca + of_nat y * 4096) else 0)"
    "\<And>y. y < 512 \<Longrightarrow> entry (kbytes s') p4 y =
       (if 512 - unat sp \<le> y then page_desc (sa + of_nat (y - (512 - unat sp)) * 4096) else 0)"
    "\<And>x. \<not> (\<exists>p \<in> {p1, p2, p3, p4}. in_page p x) \<Longrightarrow> kbytes s' x = kbytes s x"
proof -
  obtain a1 s1 where 1: "alloc_frame s = (a1, s1)" by fastforce
  define t1 where "t1 = clear_table (phys_to_virt a1) s1"
  obtain a2 s2 where 2: "alloc_frame t1 = (a2, s2)" by fastforce
  define t2 where "t2 = set_entry (phys_to_virt a1) 0 (table_desc a2) (clear_table (phys_to_virt a2) s2)"
  obtain a3 s3 where 3: "alloc_frame t2 = (a3, s3)" by fastforce
  define base where "base = USER_VA_STACK - ucast (sp * 4096)"
  define t3 where "t3 = set_entry (phys_to_virt a2) (va_index 21 USER_VA_CODE) (table_desc a3)
    (map_code (phys_to_virt a3) ca cp (clear_table (phys_to_virt a3) s3))"
  obtain l3s s4 where 4: "next_table (phys_to_virt a2) (va_index 21 base) t3 = (l3s, s4)" by fastforce
  note def = mmu_create_user_pgd_def [of ca cp sa sp s, unfolded 1 Let_def prod.case,
    folded t1_def, unfolded 2 prod.case, folded t2_def, unfolded 3 prod.case, folded base_def t3_def, unfolded 4 prod.case]
  have nzr: "a1 \<noteq> 0 \<and> a2 \<noteq> 0 \<and> a3 \<noteq> 0 \<and> l3s \<noteq> 0" if "r \<noteq> 0"
    using r that unfolding def by (auto split: if_splits)
  have ub: "unat base = 0x800000 - unat sp * 4096"
  proof -
    have "unat (sp * 4096) = unat sp * 4096" using sp by (simp add: unat_word_ariths)
    then have "unat (ucast (sp * 4096) :: u64) = unat sp * 4096" using sp by (simp add: unat_ucast)
    then show ?thesis using sp by (simp add: base_def USER_VA_STACK_def unat_sub word_le_nat_alt)
  qed
  have ib: "va_index 21 base = 3"
  proof -
    have "0 < unat sp" using sp(1) by (simp add: word_less_nat_alt)
    then have "unat base div 2 ^ 21 = 3" using ub sp(2) by (intro div_nat_eqI) simp_all
    then show ?thesis by (simp add: va_index_eq)
  qed
  have ic: "va_index 21 USER_VA_CODE = 2" by (simp add: va_index_eq USER_VA_CODE_def)
  have a1: "a1 \<noteq> 0" "r \<noteq> 0 \<or> card (used (kpmm s1)) + 3 \<le> TOTAL_PAGES"
    using nz nzr alloc_frame_some [OF inv 1] by auto
  obtain p1 where p1: "p1 < TOTAL_PAGES" "a1 = frame p1" "p1 \<notin> used (kpmm s)" "pmm_inv (kpmm s1)"
    "used (kpmm s1) = insert p1 (used (kpmm s))" "kbytes s1 = kbytes s"
    using alloc_frame_cases [OF inv 1] a1(1) by metis
  have kt1: "kpmm t1 = kpmm s1" by (simp add: t1_def clear_table_def)
  have a2: "a2 \<noteq> 0" "r \<noteq> 0 \<or> card (used (kpmm s2)) + 2 \<le> TOTAL_PAGES"
    using a1 nzr alloc_frame_some [OF _ 2] p1(4) kt1 by auto
  obtain p2 where p2: "p2 < TOTAL_PAGES" "a2 = frame p2" "p2 \<notin> used (kpmm s1)" "pmm_inv (kpmm s2)"
    "used (kpmm s2) = insert p2 (used (kpmm s1))" "kbytes s2 = kbytes t1"
    using alloc_frame_cases [OF _ 2] p1(4) a2(1) kt1 by metis
  have kt2: "kpmm t2 = kpmm s2" by (simp add: t2_def clear_table_def)
  have a3: "a3 \<noteq> 0" "r \<noteq> 0 \<or> card (used (kpmm s3)) + 1 \<le> TOTAL_PAGES"
    using a2 nzr alloc_frame_some [OF _ 3] p2(4) kt2 by auto
  obtain p3 where p3: "p3 < TOTAL_PAGES" "a3 = frame p3" "p3 \<notin> used (kpmm s2)" "pmm_inv (kpmm s3)"
    "used (kpmm s3) = insert p3 (used (kpmm s2))" "kbytes s3 = kbytes t2"
    using alloc_frame_cases [OF _ 3] p2(4) a3(1) kt2 by metis
  have kmc: "kpmm (map_code l ca' n u) = kpmm u" for l ca' n u
    unfolding map_code_def by (rule kpmm_fold_set_entry)
  have kt3: "kpmm t3 = kpmm s3" by (simp add: t3_def clear_table_def kmc)
  note T = p1(1) p2(1) p3(1)
  have ne: "p1 \<noteq> p2" "p1 \<noteq> p3" "p2 \<noteq> p3" using p1 p2 p3 by auto
  have e3: "entry (kbytes t3) p1 y = (if y = 0 then table_desc (frame p2) else 0)"
    "entry (kbytes t3) p2 y = (if y = 2 then table_desc (frame p3) else 0)"
    "entry (kbytes t3) p3 y = (if y < unat cp then page_desc (ca + of_nat y * 4096) else 0)"
    if "y < 512" for y
    using that ne T cp p2(6) p3(6)
    by (simp_all add: t3_def entry_set_entry ic entry_map_code entry_clear_table t2_def t1_def p1(2) p2(2) p3(2))
  have empty: "table_get (phys_to_virt a2) 3 (kbytes t3) = 0"
    using e3(2) [of 3] by (simp add: p2(2) entry_def)
  obtain a4 s5 where 5: "alloc_frame t3 = (a4, s5)" by fastforce
  have "a4 \<noteq> 0"
    using a3(2) nzr alloc_frame_some [OF _ 5] p3(4) kt3 4 5 empty
    unfolding ib by (auto simp: next_table_def Let_def split: if_splits)
  then have a4: "a4 \<noteq> 0" "l3s = phys_to_virt a4"
    "s4 = set_entry (phys_to_virt a2) 3 (table_desc a4) (clear_table (phys_to_virt a4) s5)"
    using 4 5 empty unfolding ib by (auto simp: next_table_def Let_def split: if_splits)
  obtain p4 where p4: "p4 < TOTAL_PAGES" "a4 = frame p4" "p4 \<notin> used (kpmm s3)" "pmm_inv (kpmm s5)"
    "used (kpmm s5) = insert p4 (used (kpmm s3))" "kbytes s5 = kbytes t3"
    using alloc_frame_cases [OF _ 5] p3(4) a4(1) kt3 by metis
  have ne4: "p4 \<noteq> p1" "p4 \<noteq> p2" "p4 \<noteq> p3" using p1 p2 p3 p4 kt1 kt2 by auto
  have "l3s \<noteq> 0" using a4(2) p4(1,2) frame_kva_nonzero by simp
  then have rs: "r = a1" "s' = map_stack (phys_to_virt (frame p4)) base sa sp s4"
    using r a1(1) a2(1) a3(1) a4(2) p4(2) unfolding def by auto
  note s' = rs(2)
  have e: "entry (kbytes s') x y = (if x = p4 then
      (if 512 - unat sp \<le> y then page_desc (sa + of_nat (y - (512 - unat sp)) * 4096) else 0)
      else if x = p2 \<and> y = 3 then table_desc (frame p4) else entry (kbytes t3) x y)"
    if "x < TOTAL_PAGES" "y < 512" for x y
    using that T p4(1) ne4
    by (simp add: s' entry_map_stack [OF p4(1) _ _ sp(2) ub] a4(3) p2(2) p4(2,6) entry_set_entry entry_clear_table)
  have kp: "kpmm s' = kpmm s5" by (simp add: s' map_stack_def kpmm_fold_set_entry a4(3))
  have kb: "kbytes s' x = kbytes s x" if "\<not> (\<exists>p \<in> {p1, p2, p3, p4}. in_page p x)" for x
    using that by (simp add: s' kbytes_map_stack a4(3) p4(2,6) p2(2,6) kbytes_set_entry kbytes_clear_table
      t3_def ic kbytes_map_code p3(2,6) t2_def p1(2,6) t1_def)
  show ?thesis
  proof (rule that [of p1 p2 p3 p4])
    show "distinct [p1, p2, p3, p4]" using ne ne4 by auto
    show "{p1, p2, p3, p4} \<inter> used (kpmm s) = {}" using p1 p2 p3 p4 kt1 kt2 by auto
    show "used (kpmm s') = used (kpmm s) \<union> {p1, p2, p3, p4}"
      using p1(5) p2(5) p3(5) p4(5) kp by auto
    show "kbytes s' x = kbytes s x" if "\<not> (\<exists>p \<in> {p1, p2, p3, p4}. in_page p x)" for x
      using that by (rule kb)
  qed (use rs(1) p1(2) T p4(1,4) kp e e3 ne ne4 in auto)
qed

lemma pgd_pages_wf:
  assumes d: "distinct [p1, p2, p3, p4]" "{p1, p2, p3, p4} \<subseteq> used (kpmm s)" "pmm_inv (kpmm s)"
    and e: "\<And>y. y < 512 \<Longrightarrow> entry (kbytes s) p1 y = (if y = 0 then table_desc (frame p2) else 0)"
    "\<And>y. y < 512 \<Longrightarrow> entry (kbytes s) p2 y =
       (if y = 2 then table_desc (frame p3) else if y = 3 then table_desc (frame p4) else 0)"
  shows "pt_wf (pgd_pages p1 p2 p3 p4) p1 s"
  unfolding pt_wf_def
proof (intro conjI allI impI)
  fix p r i c
  assume *: "pgd_pages p1 p2 p3 p4 p = Some r" "i < 512" "child r i = Some c"
  have "p = p1 \<and> r = Root \<or> p = p2 \<and> r = Mid 0"
    using *(1,3) d(1) by (auto simp: pgd_pages_def split: if_splits)
  then show "entry (kbytes s) p i = 0 \<or>
      (\<exists>q. entry (kbytes s) p i = table_desc (frame q) \<and> pgd_pages p1 p2 p3 p4 q = Some c)"
  proof (elim disjE conjE)
    assume p: "p = p1" "r = Root"
    then have "entry (kbytes s) p i = (if i = 0 then table_desc (frame p2) else 0)" "c = Mid i"
      using *(2,3) e(1) by auto
    moreover have "pgd_pages p1 p2 p3 p4 p2 = Some (Mid 0)" using d(1) by (simp add: pgd_pages_def)
    ultimately show ?thesis by auto
  next
    assume p: "p = p2" "r = Mid 0"
    then have "entry (kbytes s) p i =
        (if i = 2 then table_desc (frame p3) else if i = 3 then table_desc (frame p4) else 0)" "c = Low 0 i"
      using *(2,3) e(2) by auto
    moreover have "pgd_pages p1 p2 p3 p4 p3 = Some (Low 0 2)" "pgd_pages p1 p2 p3 p4 p4 = Some (Low 0 3)"
      using d(1) by (simp_all add: pgd_pages_def)
    ultimately show ?thesis by auto
  qed
qed (use d in \<open>auto simp: pgd_pages_def split: if_splits\<close>)

lemma va_index_page:
  assumes "unat v < 2 ^ 39"
  shows "unat v div 4096 = va_index 30 v * 2 ^ 18 + va_index 21 v * 512 + va_index 12 v"
proof -
  define N where "N = unat v div 4096"
  have ix: "va_index 30 v = N div 512 div 512 mod 512" "va_index 21 v = N div 512 mod 512" "va_index 12 v = N mod 512"
    by (simp_all add: va_index_eq N_def div_mult2_eq [symmetric])
  have "N < 2 ^ 27" using assms by (simp add: N_def)
  then have "N div 512 div 512 < 512" by (simp add: div_mult2_eq [symmetric])
  then have i30: "va_index 30 v = N div 512 div 512" using ix(1) by simp
  have "N = N div 512 * 512 + N mod 512" by simp
  moreover have "N div 512 = N div 512 div 512 * 512 + N div 512 mod 512" by simp
  ultimately have "N = (va_index 30 v * 512 + va_index 21 v) * 512 + va_index 12 v"
    using i30 ix(2,3) by metis
  then show ?thesis unfolding N_def [symmetric] by simp
qed

text \<open>The translation that a new process's table is meant to give, on page numbers.\<close>

definition user_map :: "u64 \<Rightarrow> nat \<Rightarrow> u64 \<Rightarrow> nat \<Rightarrow> nat \<Rightarrow> u64 option" where
  "user_map ca cp sa sp n =
     (if 0x400 \<le> n \<and> n < 0x400 + cp then Some (page_desc (ca + of_nat (n - 0x400) * 4096))
      else if 0x800 - sp \<le> n \<and> n < 0x800 then Some (page_desc (sa + of_nat (n - (0x800 - sp)) * 4096))
      else None)"

lemma create_user_pgd:
  assumes inv: "pmm_inv (kpmm s)" and cp: "unat cp \<le> 512" and sp: "0 < sp" "unat sp \<le> 512"
    and r: "mmu_create_user_pgd ca cp sa sp s = (r, s')"
    and nz: "r \<noteq> 0 \<or> card (used (kpmm s)) + 4 \<le> TOTAL_PAGES"
  obtains p1 rl where "r = frame p1" "pt_wf rl p1 s'" "dom rl \<inter> used (kpmm s) = {}"
    "used (kpmm s') = used (kpmm s) \<union> dom rl" "card (dom rl) = 4"
    "\<And>v. unat v < 2 ^ 39 \<Longrightarrow>
      walk (kbytes s') r v = user_map ca (unat cp) sa (unat sp) (unat v div 4096)"
    "\<And>x. \<not> (\<exists>p \<in> dom rl. in_page p x) \<Longrightarrow> kbytes s' x = kbytes s x"
proof -
  show ?thesis
  proof (rule create_entries [OF assms])
  fix p1 p2 p3 p4
  assume r1: "r = frame p1" and d: "distinct [p1, p2, p3, p4]" "{p1, p2, p3, p4} \<subseteq> {..<TOTAL_PAGES}"
    "{p1, p2, p3, p4} \<inter> used (kpmm s) = {}" "used (kpmm s') = used (kpmm s) \<union> {p1, p2, p3, p4}"
    "pmm_inv (kpmm s')" and
    e: "\<And>y. y < 512 \<Longrightarrow> entry (kbytes s') p1 y = (if y = 0 then table_desc (frame p2) else 0)"
    "\<And>y. y < 512 \<Longrightarrow> entry (kbytes s') p2 y =
       (if y = 2 then table_desc (frame p3) else if y = 3 then table_desc (frame p4) else 0)"
    "\<And>y. y < 512 \<Longrightarrow> entry (kbytes s') p3 y = (if y < unat cp then page_desc (ca + of_nat y * 4096) else 0)"
    "\<And>y. y < 512 \<Longrightarrow> entry (kbytes s') p4 y =
       (if 512 - unat sp \<le> y then page_desc (sa + of_nat (y - (512 - unat sp)) * 4096) else 0)"
    and kb: "\<And>x. \<not> (\<exists>p \<in> {p1, p2, p3, p4}. in_page p x) \<Longrightarrow> kbytes s' x = kbytes s x"
  have dm: "dom (pgd_pages p1 p2 p3 p4) = {p1, p2, p3, p4}" by (auto simp: pgd_pages_def)
  show ?thesis
  proof (rule that [of p1 "pgd_pages p1 p2 p3 p4"])
    show "pt_wf (pgd_pages p1 p2 p3 p4) p1 s'"
      using d e(1,2) by (intro pgd_pages_wf) auto
    show "card (dom (pgd_pages p1 p2 p3 p4)) = 4" unfolding dm using d(1) by simp
    show "kbytes s' x = kbytes s x" if "\<not> (\<exists>p \<in> dom (pgd_pages p1 p2 p3 p4). in_page p x)" for x
      using that unfolding dm by (rule kb)
    fix v :: u64 assume v: "unat v < 2 ^ 39"
    define a b c where "a = va_index 30 v" and "b = va_index 21 v" and "c = va_index 12 v"
    have l: "a < 512" "b < 512" "c < 512" by (simp_all add: a_def b_def c_def va_index_less)
    have n: "unat v div 4096 = a * 2 ^ 18 + b * 512 + c"
      using va_index_page [OF v] by (simp add: a_def b_def c_def)
    show "walk (kbytes s') r v = user_map ca (unat cp) sa (unat sp) (unat v div 4096)"
    proof (cases "a = 0")
      case False
      then have "walk (kbytes s') r v = None"
        unfolding r1 using e(1) [OF l(1)] by (intro walk_none1) (simp add: a_def)
      then show ?thesis using False cp unfolding n user_map_def by simp
    next
      case a0: True
      then have e1: "entry (kbytes s') p1 (va_index 30 v) = table_desc (frame p2)"
        using e(1) [OF l(1)] by (simp add: a_def)
      have T: "p2 < TOTAL_PAGES" "p3 < TOTAL_PAGES" "p4 < TOTAL_PAGES" using d(2) by auto
      note e2 = e(2) [OF l(2), unfolded b_def] and e3 = e(3) [OF l(3), unfolded c_def]
        and e4 = e(4) [OF l(3), unfolded c_def]
      consider "b = 2" | "b = 3" | "b \<noteq> 2" "b \<noteq> 3" by blast
      then show ?thesis
      proof cases
        case 1
        then have e2': "entry (kbytes s') p2 (va_index 21 v) = table_desc (frame p3)" using e2 b_def by simp
        from walk_leaf [OF e1 T(1) e2' T(2)] e3
        have "walk (kbytes s') r v = (if c < unat cp then Some (page_desc (ca + of_nat c * 4096)) else None)"
          by (simp add: r1 c_def Let_def page_desc_bits)
        moreover have "\<not> 2048 - unat sp \<le> 1024 + c" using l(3) sp(2) by linarith
        ultimately show ?thesis using 1 a0 l(3) sp(2) unfolding n user_map_def by simp
      next
        case 2
        then have e2': "entry (kbytes s') p2 (va_index 21 v) = table_desc (frame p4)" using e2 b_def by simp
        from walk_leaf [OF e1 T(1) e2' T(3)] e4
        have "walk (kbytes s') r v = (if 512 - unat sp \<le> c
            then Some (page_desc (sa + of_nat (c - (512 - unat sp)) * 4096)) else None)"
          by (simp add: r1 c_def Let_def page_desc_bits)
        moreover have "\<not> 1536 + c < 1024 + unat cp" using cp by simp
        moreover have "2048 - unat sp \<le> 1536 + c \<longleftrightarrow> 512 - unat sp \<le> c" using sp(2) by linarith
        moreover have "1536 + c - (2048 - unat sp) = c - (512 - unat sp)" using sp(2) by linarith
        ultimately show ?thesis using 2 a0 l(3) sp(2) unfolding n user_map_def by simp
      next
        case 3
        then have e2': "entry (kbytes s') p2 (va_index 21 v) = 0" using e2 b_def by simp
        have "walk (kbytes s') r v = None" unfolding r1 by (rule walk_none2 [OF e1 T(1) e2'])
        moreover have "b * 512 + c < 1024 \<or> 2048 \<le> b * 512 + c" using 3 l(3) by linarith
        ultimately show ?thesis using a0 cp sp(2) unfolding n user_map_def by auto
      qed
    qed
  qed (use r1 d dm in auto)
qed
qed

section \<open>Properties\<close>

text \<open>
  Mapping one page into a well-formed table tree: on success the walk of the mapped page
  yields the page descriptor for \<open>pa\<close>, every other page translates as before, and the tree stays
  well-formed; on failure (-1) no translation has changed, and that happens only when fewer than
  two page frames were free.
\<close>

theorem mmu_map_user_page_walk:
  assumes "pt_wf rl root s" "mmu_map_user_page_in_pgd (frame root) va pa s = (r, s')"
  shows "(r = 0 \<or> r = -1) \<and> (r = -1 \<longrightarrow> TOTAL_PAGES < card (used (kpmm s)) + 2)
    \<and> (\<exists>rl'. pt_wf rl' root s' \<and> rl \<subseteq>\<^sub>m rl')
    \<and> (\<forall>va'. walk (kbytes s') (frame root) va' =
         (if r = 0 \<and> unat va' div 4096 mod 2 ^ 27 = unat va div 4096 mod 2 ^ 27
          then Some (page_desc pa) else walk (kbytes s) (frame root) va'))"
  using assms
proof (cases rule: map_user_page)
  case (ok rl')
  then show ?thesis by auto
next
  case (failed rl')
  then show ?thesis by auto
qed

definition blank_mm :: kmem where
  "blank_mm = \<lparr>kbytes = \<lambda>_. 0, kpmm = mark_from 0 1 pmm_empty\<rparr>"

lemma blank_mm: "pmm_inv (kpmm blank_mm)" "used (kpmm blank_mm) = {0}" "entry (kbytes blank_mm) p i = 0"
proof -
  show "pmm_inv (kpmm blank_mm)" "used (kpmm blank_mm) = {0}"
    using mark_from_spec [OF pmm_inv_empty, of 0 1] used_pmm_empty
    by (auto simp: blank_mm_def TOTAL_PAGES_def)
  show "entry (kbytes blank_mm) p i = 0"
    by (rule bit_eqI) (simp add: blank_mm_def entry_def table_get_def bit_load64)
qed

lemma blank_wf: "pt_wf [0 \<mapsto> Root] 0 blank_mm"
  using blank_mm by (auto simp: pt_wf_def)

theorem mmu_map_user_page_walk_witness:
  "\<exists>s'. mmu_map_user_page_in_pgd (frame 0) 0x410000 0x40800000 blank_mm = (0, s')
    \<and> walk (kbytes s') (frame 0) 0x410ABC = Some (page_desc 0x40800000)
    \<and> desc_addr (page_desc 0x40800000) = 0x40800000"
proof -
  obtain r s' where r: "mmu_map_user_page_in_pgd (frame 0) 0x410000 0x40800000 blank_mm = (r, s')" by fastforce
  note t = mmu_map_user_page_walk [OF blank_wf r]
  have "card (used (kpmm blank_mm)) = 1" by (simp only: blank_mm(2)) simp
  then have "r = 0" using t by (auto simp: TOTAL_PAGES_def)
  then have "walk (kbytes s') (frame 0) 0x410ABC = Some (page_desc 0x40800000)" using t by simp
  moreover have "desc_addr (page_desc 0x40800000) = 0x40800000" by (rule page_desc_addr) simp_all
  ultimately show ?thesis using r \<open>r = 0\<close> by blast
qed

text \<open>
  C25: the table built for a new process translates exactly the code pages at 0x400000 and the
  stack pages below 0x800000, every one to its frame; everything else below 2^39 faults, the
  guard page below the stack included. It takes four page frames that nobody used.
\<close>

theorem mmu_create_user_pgd_walk:
  assumes "pmm_inv (kpmm s)" "unat cp \<le> 512" "0 < sp" "unat sp \<le> 512"
    "mmu_create_user_pgd ca cp sa sp s = (r, s')" "r \<noteq> 0" "unat v < 2 ^ 39"
  shows "walk (kbytes s') r v = user_map ca (unat cp) sa (unat sp) (unat v div 4096)
    \<and> pmm_inv (kpmm s') \<and> used (kpmm s) \<subseteq> used (kpmm s')
    \<and> card (used (kpmm s')) = card (used (kpmm s)) + 4"
proof -
  obtain p1 rl where c: "pt_wf rl p1 s'" "dom rl \<inter> used (kpmm s) = {}"
    "used (kpmm s') = used (kpmm s) \<union> dom rl" "card (dom rl) = 4"
    "walk (kbytes s') r v = user_map ca (unat cp) sa (unat sp) (unat v div 4096)"
    using create_user_pgd [OF assms(1-5)] assms(6,7) by metis
  have "finite (dom rl)" using c(4) card.infinite by fastforce
  then have "card (used (kpmm s')) = card (used (kpmm s)) + 4"
    unfolding c(3) using c(2,4) by (subst card_Un_disjoint) auto
  then show ?thesis using c by (auto simp: pt_wf_def)
qed

theorem mmu_create_user_pgd_walk_witness:
  "\<exists>r s'. mmu_create_user_pgd 0x40100000 5 0x40200000 4 blank_mm = (r, s') \<and> r \<noteq> 0
    \<and> walk (kbytes s') r 0x402345 = Some (page_desc 0x40102000)
    \<and> walk (kbytes s') r 0x7FCFFF = Some (page_desc 0x40200000)
    \<and> walk (kbytes s') r USER_VA_GUARD = None"
proof -
  obtain r s' where r: "mmu_create_user_pgd 0x40100000 5 0x40200000 4 blank_mm = (r, s')" by fastforce
  have "card (used (kpmm blank_mm)) + 4 \<le> TOTAL_PAGES" by (simp only: blank_mm(2) TOTAL_PAGES_def) simp
  then have ok: "r \<noteq> 0 \<or> card (used (kpmm blank_mm)) + 4 \<le> TOTAL_PAGES" by blast
  have c: "unat (5 :: u32) \<le> 512" "0 < (4 :: u32)" "unat (4 :: u32) \<le> 512" by simp_all
  have nz: "r \<noteq> 0"
  proof (rule create_user_pgd [OF blank_mm(1) c r ok])
    fix p1 rl assume "r = frame p1" "pt_wf rl p1 s'"
    then show "r \<noteq> 0" using pt_wf_page [of rl p1 s' p1 Root] page_addr_in_RAM(3) by (simp add: pt_wf_def)
  qed
  note w = mmu_create_user_pgd_walk [OF blank_mm(1) _ _ _ r nz]
  have "walk (kbytes s') r 0x402345 = Some (page_desc 0x40102000)"
    using w [of "0x402345"] by (simp add: user_map_def)
  moreover have "walk (kbytes s') r 0x7FCFFF = Some (page_desc 0x40200000)"
    using w [of "0x7FCFFF"] by (simp add: user_map_def)
  moreover have "walk (kbytes s') r USER_VA_GUARD = None"
    using w [of USER_VA_GUARD] by (simp add: user_map_def USER_VA_GUARD_def USER_VA_STACK_def USER_STACK_PAGES_def)
  ultimately show ?thesis using r nz by blast
qed

text \<open>
  when the frame for a third-level table cannot be had, \<open>mmu_create_user_pgd\<close> returns 0 but
  keeps the first- and second-level tables: with two free frames left, both are gone afterwards.
\<close>

theorem mmu_create_user_pgd_leaks:
  assumes "pmm_inv (kpmm s)" "card (used (kpmm s)) + 2 = TOTAL_PAGES"
  shows "\<exists>s'. mmu_create_user_pgd ca cp sa sp s = (0, s') \<and> used (kpmm s') = {..<TOTAL_PAGES}"
proof -
  obtain a1 s1 where 1: "alloc_frame s = (a1, s1)" by fastforce
  define t1 where "t1 = clear_table (phys_to_virt a1) s1"
  obtain a2 s2 where 2: "alloc_frame t1 = (a2, s2)" by fastforce
  define t2 where "t2 = set_entry (phys_to_virt a1) 0 (table_desc a2) (clear_table (phys_to_virt a2) s2)"
  obtain a3 s3 where 3: "alloc_frame t2 = (a3, s3)" by fastforce
  have full: "card {..<TOTAL_PAGES} = TOTAL_PAGES" by simp
  obtain p1 where p1: "a1 \<noteq> 0" "p1 \<notin> used (kpmm s)" "pmm_inv (kpmm s1)" "used (kpmm s1) = insert p1 (used (kpmm s))"
    using alloc_frame_cases [OF assms(1) 1] assms(2) full by (metis add_eq_self_zero zero_neq_numeral)
  have c1: "card (used (kpmm t1)) + 1 = TOTAL_PAGES" "pmm_inv (kpmm t1)"
    using p1 assms(2) by (simp_all add: t1_def)
  obtain p2 where p2: "a2 \<noteq> 0" "p2 \<notin> used (kpmm t1)" "pmm_inv (kpmm s2)" "used (kpmm s2) = insert p2 (used (kpmm t1))"
    using alloc_frame_cases [OF c1(2) 2] c1(1) full by (metis add_eq_self_zero one_neq_zero)
  have c2: "card (used (kpmm t2)) = TOTAL_PAGES" "pmm_inv (kpmm t2)"
    using p2 c1 by (simp_all add: t2_def)
  have u2: "used (kpmm t2) = {..<TOTAL_PAGES}"
    using c2(1) used_le by (intro card_subset_eq) auto
  have "a3 = 0" "s3 = t2"
    using alloc_frame_cases [OF c2(2) 3] u2 by (metis lessThan_iff)+
  then have "mmu_create_user_pgd ca cp sa sp s = (0, t2)"
    using 1 2 3 p1(1) p2(1) by (simp add: mmu_create_user_pgd_def Let_def t1_def t2_def)
  then show ?thesis using u2 by blast
qed

theorem mmu_create_user_pgd_leaks_witness:
  "\<exists>s'. mmu_create_user_pgd 0x40100000 5 0x40200000 4 \<lparr>kbytes = \<lambda>_. 0, kpmm = mark_from 0 32766 pmm_empty\<rparr> = (0, s')
    \<and> used (kpmm s') = {..<TOTAL_PAGES}"
proof (rule mmu_create_user_pgd_leaks)
  have m: "pmm_inv (mark_from 0 32766 pmm_empty)" "used (mark_from 0 32766 pmm_empty) = {0..<32766}"
    using mark_from_spec [OF pmm_inv_empty, of 0 32766] used_pmm_empty by (simp_all add: TOTAL_PAGES_def)
  show "pmm_inv (kpmm \<lparr>kbytes = \<lambda>_. 0, kpmm = mark_from 0 32766 pmm_empty\<rparr>)" using m by simp
  show "card (used (kpmm \<lparr>kbytes = \<lambda>_. 0, kpmm = mark_from 0 32766 pmm_empty\<rparr>)) + 2 = TOTAL_PAGES"
    by (simp only: kmem.simps m(2) TOTAL_PAGES_def) simp
qed

end
