(* ===== verification/Fat16.thy ===== *)
theory Fat16
  imports Prelude
begin

text \<open>
  The read-only FAT16 driver, \<^verbatim>\<open>src/fat16.c\<close>. The block device is a parameter
  \<open>blk\<close>: \<open>blk n\<close> is the content of sector \<open>n\<close>, or \<open>None\<close> when \<open>virtio_blk_read\<close> fails for it.
  C strings are byte lists without the terminating zero; a caller's buffer is a function from
  32-bit indices to bytes. The console messages are not modelled.
\<close>

section \<open>Data\<close>

type_synonym disk = "u32 \<Rightarrow> u8 list option"

record fat16_bpb =
  bytes_per_sector :: u16
  sectors_per_cluster :: u8
  reserved_sectors :: u16
  num_fats :: u8
  root_entry_count :: u16
  total_sectors_16 :: u16
  total_sectors_32 :: u32
  fat_size_16 :: u16
  root_dir_sector :: u32
  root_dir_sectors :: u32
  data_start_sector :: u32

record fat16_dirent =
  de_name :: "u8 list"
  de_ext :: "u8 list"
  de_attr :: u8
  de_first_cluster :: u16
  de_file_size :: u32

record fat16_file =
  ff_first_cluster :: u16
  ff_file_size :: u32
  ff_position :: u32
  ff_current_cluster :: u16

record fat16_fs =
  bpb :: fat16_bpb
  fat_table :: "u16 list"

definition FAT_ATTR_VOLUME_ID :: u8 where "FAT_ATTR_VOLUME_ID = 0x08"
definition FAT_ATTR_DIRECTORY :: u8 where "FAT_ATTR_DIRECTORY = 0x10"
definition FAT_ATTR_LFN :: u8 where "FAT_ATTR_LFN = 0x0F"

definition read16 :: "u8 list \<Rightarrow> nat \<Rightarrow> u16" where
  "read16 b i = ucast (b ! i) OR push_bit 8 (ucast (b ! (i + 1)))"

definition read32 :: "u8 list \<Rightarrow> nat \<Rightarrow> u32" where
  "read32 b i = ucast (b ! i) OR push_bit 8 (ucast (b ! (i + 1)))
     OR push_bit 16 (ucast (b ! (i + 2))) OR push_bit 24 (ucast (b ! (i + 3)))"

section \<open>Mounting\<close>

definition parse_bpb :: "u8 list \<Rightarrow> fat16_bpb" where
  "parse_bpb b =
     (let bps = read16 b 11; res = read16 b 14; nf = b ! 16; rec = read16 b 17; fsz = read16 b 22;
          rds = (ucast res + ucast nf * ucast fsz :: u32);
          rdn = (ucast rec * 32 + (ucast bps - 1)) div ucast bps
      in \<lparr>bytes_per_sector = bps, sectors_per_cluster = b ! 13, reserved_sectors = res, num_fats = nf,
          root_entry_count = rec, total_sectors_16 = read16 b 19, total_sectors_32 = read32 b 32,
          fat_size_16 = fsz, root_dir_sector = rds, root_dir_sectors = rdn,
          data_start_sector = rds + rdn\<rparr>)"

fun read_fat :: "disk \<Rightarrow> u32 \<Rightarrow> nat \<Rightarrow> u8 list option" where
  "read_fat blk sec 0 = Some []"
| "read_fat blk sec (Suc n) =
     (case blk sec of
        None \<Rightarrow> None
      | Some b \<Rightarrow> map_option (\<lambda>bs. b @ bs) (read_fat blk (sec + 1) n))"

text \<open>
  \<open>fat16_mount\<close>: \<open>None\<close> for -1. \<open>got_mem n\<close> says whether \<open>kmalloc (n)\<close> returned a block; for a
  size of 0 it returns NULL.
\<close>

definition fat16_mount :: "disk \<Rightarrow> (u32 \<Rightarrow> bool) \<Rightarrow> fat16_fs option" where
  "fat16_mount blk got_mem =
     (case blk 0 of
        None \<Rightarrow> None
      | Some b \<Rightarrow>
          if b ! 510 \<noteq> 0x55 \<or> b ! 511 \<noteq> 0xAA then None
          else
            let p = parse_bpb b
            in if bytes_per_sector p \<noteq> 512 then None
               else
                 let fat_bytes = (ucast (fat_size_16 p) * 512 :: u32)
                 in if fat_bytes = 0 \<or> \<not> got_mem fat_bytes then None
                    else case read_fat blk (ucast (reserved_sectors p)) (unat (fat_size_16 p)) of
                      None \<Rightarrow> None
                    | Some f \<Rightarrow>
                        Some \<lparr>bpb = p, fat_table = map (\<lambda>i. read16 f (2 * i)) [0..<length f div 2]\<rparr>)"

section \<open>Names\<close>

definition upper :: "u8 \<Rightarrow> u8" where
  "upper c = (if 0x61 \<le> c \<and> c \<le> 0x7A then c - 32 else c)"

text \<open>The three loops of \<open>to_fat83\<close>: the name part, the skip to the extension, the extension.\<close>

fun name_part :: "u8 list \<Rightarrow> nat \<Rightarrow> u8 list \<Rightarrow> u8 list \<times> u8 list" where
  "name_part out pos (c # cs) =
     (if c \<noteq> 0x2E \<and> pos < 8 then name_part (out[pos := upper c]) (pos + 1) cs else (out, c # cs))"
| "name_part out pos [] = (out, [])"

definition skip_dot :: "u8 list \<Rightarrow> u8 list" where
  "skip_dot cs = (let r = dropWhile (\<lambda>c. c \<noteq> 0x2E) cs in if r \<noteq> [] \<and> hd r = 0x2E then tl r else r)"

fun ext_part :: "u8 list \<Rightarrow> nat \<Rightarrow> u8 list \<Rightarrow> u8 list" where
  "ext_part out pos (c # cs) =
     (if pos < 11 then ext_part (out[pos := upper c]) (pos + 1) cs else out)"
| "ext_part out pos [] = out"

definition to_fat83 :: "u8 list \<Rightarrow> u8 list" where
  "to_fat83 inp = (let (out, rest) = name_part (replicate 11 0x20) 0 inp in ext_part out 8 (skip_dot rest))"

definition fat83_cmp :: "u8 list \<Rightarrow> u8 list \<Rightarrow> bool" where
  "fat83_cmp a b = list_all (\<lambda>i. a ! i = b ! i) [0..<11]"

definition fat83_to_str :: "fat16_dirent \<Rightarrow> u8 list" where
  "fat83_to_str de = filter (\<lambda>c. c \<noteq> 0x20) (de_name de) @
     (if de_ext de ! 0 \<noteq> 0x20 then 0x2E # filter (\<lambda>c. c \<noteq> 0x20) (de_ext de) else [])"

section \<open>The root directory\<close>

definition parse_dirent :: "u8 list \<Rightarrow> fat16_dirent" where
  "parse_dirent b = \<lparr>de_name = take 8 b, de_ext = take 3 (drop 8 b), de_attr = b ! 11,
     de_first_cluster = read16 b 26, de_file_size = read32 b 28\<rparr>"

definition sector_entries :: "u8 list \<Rightarrow> fat16_dirent list" where
  "sector_entries b = map (\<lambda>i. parse_dirent (take 32 (drop (i * 32) b))) [0..<512 div 32]"

text \<open>One sector of \<open>fat16_list_root\<close>: the entries reported, and whether the end marker was met.\<close>

fun list_entries :: "fat16_dirent list \<Rightarrow> (u8 list \<times> u32) list \<times> bool" where
  "list_entries [] = ([], False)"
| "list_entries (de # des) =
     (if de_name de ! 0 = 0x00 then ([], True)
      else if de_name de ! 0 = 0xE5 then list_entries des
      else if de_attr de AND (FAT_ATTR_LFN OR FAT_ATTR_VOLUME_ID OR FAT_ATTR_DIRECTORY) \<noteq> 0
      then list_entries des
      else let (out, end) = list_entries des in ((fat83_to_str de, de_file_size de) # out, end))"

fun list_sectors :: "disk \<Rightarrow> u32 \<Rightarrow> nat \<Rightarrow> (u8 list \<times> u32) list" where
  "list_sectors blk sec 0 = []"
| "list_sectors blk sec (Suc n) =
     (case blk sec of
        None \<Rightarrow> []
      | Some b \<Rightarrow> let (out, end) = list_entries (sector_entries b)
          in if end then out else out @ list_sectors blk (sec + 1) n)"

text \<open>\<open>fat16_list_root\<close>: the calls made of \<open>callback\<close>, in order, and the returned count.\<close>

definition fat16_list_root :: "disk \<Rightarrow> fat16_fs \<Rightarrow> (u8 list \<times> u32) list \<times> int" where
  "fat16_list_root blk fs =
     (let out = list_sectors blk (root_dir_sector (bpb fs)) (unat (root_dir_sectors (bpb fs)))
      in (out, int (length out)))"

text \<open>The search of \<open>fat16_open\<close> in one sector: -1 at the end marker, a file, or go on.\<close>

datatype lookup = Absent | Found fat16_file | Go_on

fun open_entries :: "u8 list \<Rightarrow> fat16_dirent list \<Rightarrow> lookup" where
  "open_entries nm [] = Go_on"
| "open_entries nm (de # des) =
     (if de_name de ! 0 = 0x00 then Absent
      else if de_name de ! 0 = 0xE5 then open_entries nm des
      else if de_attr de AND (FAT_ATTR_LFN OR FAT_ATTR_VOLUME_ID) \<noteq> 0 then open_entries nm des
      else if fat83_cmp nm (de_name de @ de_ext de)
      then Found \<lparr>ff_first_cluster = de_first_cluster de, ff_file_size = de_file_size de,
                  ff_position = 0, ff_current_cluster = de_first_cluster de\<rparr>
      else open_entries nm des)"

fun open_sectors :: "disk \<Rightarrow> u8 list \<Rightarrow> u32 \<Rightarrow> nat \<Rightarrow> fat16_file option" where
  "open_sectors blk nm sec 0 = None"
| "open_sectors blk nm sec (Suc n) =
     (case blk sec of
        None \<Rightarrow> None
      | Some b \<Rightarrow> (case open_entries nm (sector_entries b) of
            Absent \<Rightarrow> None
          | Found f \<Rightarrow> Some f
          | Go_on \<Rightarrow> open_sectors blk nm (sec + 1) n))"

definition fat16_open :: "disk \<Rightarrow> fat16_fs \<Rightarrow> u8 list \<Rightarrow> fat16_file option" where
  "fat16_open blk fs filename = open_sectors blk (to_fat83 filename)
     (root_dir_sector (bpb fs)) (unat (root_dir_sectors (bpb fs)))"

section \<open>Reading a file\<close>

text \<open>
  The sector loop of \<open>fat16_read_file\<close>, with the byte count and buffer index at 32 bits:
  \<open>Inl\<close> for the return of -1, \<open>Inr\<close> the new count; the buffer written so far either way.
\<close>

fun read_sectors :: "disk \<Rightarrow> u32 \<Rightarrow> nat \<Rightarrow> u32 \<Rightarrow> u32 \<Rightarrow> (u32 \<Rightarrow> u8)
    \<Rightarrow> (unit + u32) \<times> (u32 \<Rightarrow> u8)" where
  "read_sectors blk sec 0 to_read n dst = (Inr n, dst)"
| "read_sectors blk sec (Suc k) to_read n dst =
     (if n < to_read then
        case blk sec of
          None \<Rightarrow> (Inl (), dst)
        | Some b \<Rightarrow>
            let chunk = (if n + 512 > to_read then to_read - n else 512);
                dst = fold (\<lambda>j d. d(n + of_nat j := b ! j)) [0..<unat chunk] dst
            in read_sectors blk (sec + 1) k to_read (n + chunk) dst
      else (Inr n, dst))"

text \<open>
  The cluster loop. \<open>None\<close>: it never ends, or it reads the cached FAT out of range.
\<close>

partial_function (option) read_chain :: "disk \<Rightarrow> fat16_fs \<Rightarrow> u32 \<Rightarrow> u16 \<Rightarrow> u32 \<Rightarrow> (u32 \<Rightarrow> u8)
    \<Rightarrow> (int \<times> (u32 \<Rightarrow> u8)) option" where
  "read_chain blk fs to_read cluster n dst =
     (if n < to_read \<and> 2 \<le> cluster \<and> cluster < 0xFFF8 then
        (case read_sectors blk
            (data_start_sector (bpb fs) + ucast (cluster - 2) * ucast (sectors_per_cluster (bpb fs)))
            (unat (sectors_per_cluster (bpb fs))) to_read n dst of
           (Inl _, dst) \<Rightarrow> Some (-1, dst)
         | (Inr n, dst) \<Rightarrow>
             if unat cluster < length (fat_table fs)
             then read_chain blk fs to_read (fat_table fs ! unat cluster) n dst
             else None)
      else Some (sint n, dst))"

definition fat16_read_file :: "disk \<Rightarrow> fat16_fs \<Rightarrow> fat16_file \<Rightarrow> (u32 \<Rightarrow> u8) \<Rightarrow> u32
    \<Rightarrow> (int \<times> (u32 \<Rightarrow> u8)) option" where
  "fat16_read_file blk fs file dst buf_size =
     (let to_read = (if ff_file_size file > buf_size then buf_size else ff_file_size file)
      in read_chain blk fs to_read (ff_first_cluster file) 0 dst)"

section \<open>Names: what the conversion does\<close>

lemma name_part_eq:
  "length out = 11 \<Longrightarrow> pos \<le> 8 \<Longrightarrow> name_part out pos cs =
    (let m = min (8 - pos) (length (takeWhile (\<lambda>c. c \<noteq> 0x2E) cs))
     in (take pos out @ map upper (take m cs) @ drop (pos + m) out, drop m cs))"
proof (induction out pos cs rule: name_part.induct)
  case (1 out pos c cs)
  show ?case
  proof (cases "c \<noteq> 0x2E \<and> pos < 8")
    case True
    then have IH: "name_part (out[pos := upper c]) (pos + 1) cs =
      (let m = min (8 - (pos + 1)) (length (takeWhile (\<lambda>c. c \<noteq> 0x2E) cs))
       in (take (pos + 1) (out[pos := upper c]) @ map upper (take m cs) @ drop (pos + 1 + m) (out[pos := upper c]), drop m cs))"
      using "1.IH" "1.prems" by simp
    have t: "take (pos + 1) (out[pos := upper c]) = take pos out @ [upper c]"
      using True "1.prems" by (simp add: take_Suc_conv_app_nth)
    have m: "min (8 - pos) (Suc k) = Suc (min (8 - (pos + 1)) k)" for k using True by auto
    show ?thesis using True IH t by (simp add: Let_def m)
  qed (auto simp: Let_def)
next
  case (2 out pos)
  then show ?case by (simp add: Let_def)
qed

lemma ext_part_eq:
  "length out = 11 \<Longrightarrow> pos \<le> 11 \<Longrightarrow> ext_part out pos cs =
    take pos out @ map upper (take (11 - pos) cs) @ drop (pos + min (11 - pos) (length cs)) out"
proof (induction out pos cs rule: ext_part.induct)
  case (1 out pos c cs)
  show ?case
  proof (cases "pos < 11")
    case True
    have t: "take (pos + 1) (out[pos := upper c]) = take pos out @ [upper c]"
      using True "1.prems" by (simp add: take_Suc_conv_app_nth)
    have m: "11 - pos = Suc (11 - (pos + 1))" using True by simp
    show ?thesis using True "1.IH" "1.prems" t by (simp add: m)
  qed (use "1.prems" in simp)
next
  case (2 out pos)
  then show ?case by simp
qed

definition pad :: "nat \<Rightarrow> u8 list \<Rightarrow> u8 list" where
  "pad n cs = take n cs @ replicate (n - length cs) 0x20"

lemma to_fat83_eq:
  "to_fat83 inp =
    (let nm = take 8 (takeWhile (\<lambda>c. c \<noteq> 0x2E) inp)
     in pad 8 (map upper nm) @ pad 3 (map upper (skip_dot (drop (length nm) inp))))"
proof -
  let ?w = "takeWhile (\<lambda>c. c \<noteq> 0x2E) inp"
  define m where "m = min 8 (length ?w)"
  have nm: "take m inp = take 8 ?w"
  proof -
    have "take 8 ?w = take m ?w" by (cases "length ?w \<le> 8") (simp_all add: m_def)
    also have "\<dots> = take m inp"
      by (metis append_eq_conv_conj m_def min.cobounded2 takeWhile_dropWhile_id take_append append_Nil2 diff_is_0_eq take_0)
    finally show ?thesis by simp
  qed
  have len: "length (take 8 ?w) = m" by (simp add: m_def)
  have "name_part (replicate 11 0x20) 0 inp = (map upper (take m inp) @ drop m (replicate 11 0x20), drop m inp)"
    using name_part_eq [of "replicate 11 0x20" 0 inp] by (simp add: m_def Let_def)
  moreover have m8: "m \<le> 8" by (simp add: m_def)
  ultimately have "to_fat83 inp = ext_part (map upper (take 8 ?w) @ replicate (11 - m) 0x20) 8 (skip_dot (drop m inp))"
    by (simp add: to_fat83_def nm)
  also have "\<dots> = pad 8 (map upper (take 8 ?w)) @ pad 3 (map upper (skip_dot (drop m inp)))"
    using m8 len by (subst ext_part_eq) (auto simp: pad_def take_map min_def)
  finally show ?thesis unfolding Let_def len .
qed

lemma pad_append: "length cs \<le> n \<Longrightarrow> pad n cs = cs @ replicate (n - length cs) 0x20"
  by (simp add: pad_def)

definition plain :: "u8 list \<Rightarrow> bool" where
  "plain cs = list_all (\<lambda>c. c \<noteq> 0x20 \<and> c \<noteq> 0x2E \<and> \<not> (0x61 \<le> c \<and> c \<le> 0x7A)) cs"

lemma map_upper_plain: "plain cs \<Longrightarrow> map upper cs = cs"
  by (induction cs) (auto simp: plain_def upper_def)

lemma filter_pad_plain: "plain cs \<Longrightarrow> filter (\<lambda>c. c \<noteq> 0x20) (cs @ replicate k 0x20) = cs"
  by (induction cs) (auto simp: plain_def)

lemma plain_word: "plain cs \<Longrightarrow> takeWhile (\<lambda>c. c \<noteq> 0x2E) (cs @ 0x2E # ds) = cs"
  "plain cs \<Longrightarrow> takeWhile (\<lambda>c. c \<noteq> 0x2E) cs = cs"
  by (induction cs) (auto simp: plain_def)

section \<open>Looking a file up\<close>

definition live :: "fat16_dirent \<Rightarrow> bool" where
  "live de \<longleftrightarrow> de_name de ! 0 \<noteq> 0xE5 \<and> de_attr de AND 0x0F = 0"

definition file_of :: "fat16_dirent \<Rightarrow> fat16_file" where
  "file_of de = \<lparr>ff_first_cluster = de_first_cluster de, ff_file_size = de_file_size de,
     ff_position = 0, ff_current_cluster = de_first_cluster de\<rparr>"

definition dir_entries :: "disk \<Rightarrow> u32 \<Rightarrow> nat \<Rightarrow> fat16_dirent list" where
  "dir_entries blk sec n = concat (map (\<lambda>i. sector_entries (the (blk (sec + of_nat i)))) [0..<n])"

definition dir_find :: "u8 list \<Rightarrow> fat16_dirent list \<Rightarrow> fat16_file option" where
  "dir_find nm des = map_option file_of
     (List.find (\<lambda>de. live de \<and> de_name de @ de_ext de = nm) (takeWhile (\<lambda>de. de_name de ! 0 \<noteq> 0) des))"

lemma attr_mask: "FAT_ATTR_LFN OR FAT_ATTR_VOLUME_ID = 0x0F"
  by (simp add: FAT_ATTR_LFN_def FAT_ATTR_VOLUME_ID_def)

lemma fat83_cmp_eq: "\<lbrakk>length a = 11; length b = 11\<rbrakk> \<Longrightarrow> fat83_cmp a b \<longleftrightarrow> a = b"
  by (auto simp: fat83_cmp_def list_all_iff list_eq_iff_nth_eq)

lemma length_to_fat83: "length (to_fat83 inp) = 11"
  by (simp add: to_fat83_eq Let_def pad_def)

lemma open_entries_find:
  assumes "length nm = 11" "\<forall>de \<in> set des. length (de_name de) = 8 \<and> length (de_ext de) = 3"
  shows "open_entries nm des =
    (case dir_find nm des of Some f \<Rightarrow> Found f
     | None \<Rightarrow> if \<exists>de \<in> set des. de_name de ! 0 = 0 then Absent else Go_on)"
  using assms
proof (induction nm des rule: open_entries.induct)
  case (1 nm)
  then show ?case by (simp add: dir_find_def)
next
  case (2 nm de des)
  have "fat83_cmp nm (de_name de @ de_ext de) \<longleftrightarrow> de_name de @ de_ext de = nm"
    using "2.prems" by (subst fat83_cmp_eq) auto
  then show ?case using 2
    by (auto simp: dir_find_def live_def file_of_def attr_mask split: option.splits)
qed

lemma dir_find_append:
  "dir_find nm (xs @ ys) = (case dir_find nm xs of Some f \<Rightarrow> Some f
     | None \<Rightarrow> if \<exists>de \<in> set xs. de_name de ! 0 = 0 then None else dir_find nm ys)"
proof (induction xs)
  case (Cons x xs)
  then show ?case by (auto simp: dir_find_def split: option.splits)
qed (simp add: dir_find_def)

lemma sector_entries_lengths:
  "length b = 512 \<Longrightarrow> de \<in> set (sector_entries b) \<Longrightarrow> length (de_name de) = 8 \<and> length (de_ext de) = 3"
  by (auto simp: sector_entries_def parse_dirent_def)

lemma dir_entries_Suc: "dir_entries blk sec (Suc n) = sector_entries (the (blk sec)) @ dir_entries blk (sec + 1) n"
proof -
  have "[0..<Suc n] = 0 # map Suc [0..<n]" by (simp add: upt_conv_Cons map_Suc_upt)
  then show ?thesis by (simp add: dir_entries_def comp_def add.assoc add.commute [of 1])
qed

definition readable :: "disk \<Rightarrow> u32 \<Rightarrow> bool" where
  "readable blk sec \<longleftrightarrow> (case blk sec of None \<Rightarrow> False | Some b \<Rightarrow> length b = 512)"

lemma open_sectors_find:
  assumes "length nm = 11" "\<forall>i < n. readable blk (sec + of_nat i)"
  shows "open_sectors blk nm sec n = dir_find nm (dir_entries blk sec n)"
  using assms(2)
proof (induction n arbitrary: sec)
  case 0
  then show ?case by (simp add: dir_entries_def dir_find_def)
next
  case (Suc n)
  have "readable blk sec" using Suc.prems [rule_format, of 0] by simp
  then obtain b where b: "blk sec = Some b" "length b = 512"
    by (auto simp: readable_def split: option.splits)
  have "\<forall>i < n. readable blk (sec + 1 + of_nat i)"
    using Suc.prems by (auto simp: add.assoc dest: spec [of _ "Suc _"])
  from Suc.IH [OF this] show ?case
    using b open_entries_find [OF assms(1), of "sector_entries b"] sector_entries_lengths [OF b(2)]
    by (auto simp: dir_entries_Suc dir_find_append split: option.splits if_splits)
qed

section \<open>Reading along a cluster chain\<close>

fun chain_at :: "fat16_fs \<Rightarrow> u16 \<Rightarrow> nat \<Rightarrow> u16" where
  "chain_at fs c 0 = c"
| "chain_at fs c (Suc k) = fat_table fs ! unat (chain_at fs c k)"

text \<open>The sector that holds 512-byte block \<open>i\<close> of the file that starts at cluster \<open>c\<close>.\<close>

definition block_sector :: "fat16_fs \<Rightarrow> u16 \<Rightarrow> nat \<Rightarrow> u32" where
  "block_sector fs c i = (let spc = unat (sectors_per_cluster (bpb fs)) in
     data_start_sector (bpb fs) + ucast (chain_at fs c (i div spc) - 2) * ucast (sectors_per_cluster (bpb fs))
       + of_nat (i mod spc))"

definition file_byte :: "disk \<Rightarrow> fat16_fs \<Rightarrow> u16 \<Rightarrow> nat \<Rightarrow> u8" where
  "file_byte blk fs c i = the (blk (block_sector fs c (i div 512))) ! (i mod 512)"

text \<open>The first \<open>n\<close> bytes of the file can be read: its chain and its sectors exist.\<close>

definition file_ok :: "disk \<Rightarrow> fat16_fs \<Rightarrow> u16 \<Rightarrow> nat \<Rightarrow> bool" where
  "file_ok blk fs c n \<longleftrightarrow>
     (\<forall>k. k * (unat (sectors_per_cluster (bpb fs)) * 512) < n \<longrightarrow>
        2 \<le> chain_at fs c k \<and> chain_at fs c k < 0xFFF8 \<and> unat (chain_at fs c k) < length (fat_table fs))
   \<and> (\<forall>i. i * 512 < n \<longrightarrow> readable blk (block_sector fs c i))"

lemma fold_store:
  assumes "N + k \<le> 2 ^ 32"
  shows "fold (\<lambda>j d. d(of_nat N + of_nat j := b ! j)) [0..<k] dst =
    (\<lambda>i :: u32. if N \<le> unat i \<and> unat i < N + k then b ! (unat i - N) else dst i)"
  using assms
proof (induction k)
  case (Suc k)
  have "unat (of_nat (N + k) :: u32) = N + k" using Suc.prems by (intro unat_of_nat_small) simp
  then have u: "unat (of_nat N + of_nat k :: u32) = N + k" by simp
  then have "i = of_nat N + of_nat k \<longleftrightarrow> unat i = N + k" for i :: u32
    by (metis word_unat_eq_iff)
  then show ?case using Suc by (auto simp: fun_eq_iff)
qed (auto simp: fun_eq_iff)

lemma read_sectors_ok:
  assumes "N \<le> T" "T + 512 < 2 ^ 32" "\<forall>s < k. N + 512 * s < T \<longrightarrow> readable blk (sec + of_nat s)"
  shows "read_sectors blk sec k (of_nat T) (of_nat N) dst =
    (Inr (of_nat (min T (N + 512 * k))),
     \<lambda>i. if N \<le> unat i \<and> unat i < min T (N + 512 * k)
         then the (blk (sec + of_nat ((unat i - N) div 512))) ! ((unat i - N) mod 512) else dst i)"
  using assms
proof (induction k arbitrary: sec N dst)
  case 0
  then show ?case by (auto simp: min_def fun_eq_iff)
next
  case (Suc k)
  have uT: "unat (of_nat T :: u32) = T" and uN: "unat (of_nat N :: u32) = N"
    using Suc.prems(1,2) by (simp_all add: unat_of_nat_small)
  show ?case
  proof (cases "N < T")
    case False
    then show ?thesis using Suc.prems(1) by (auto simp: min_def fun_eq_iff)
  next
    case True
    then have lt: "(of_nat N :: u32) < of_nat T" using uT uN by (simp add: word_less_nat_alt)
    have "readable blk sec" using Suc.prems(3) [rule_format, of 0] True by simp
    then obtain b where b: "blk sec = Some b" "length b = 512"
      by (auto simp: readable_def split: option.splits)
    define M where "M = min T (N + 512)"
    have "unat (of_nat N + 512 :: u32) = N + 512"
      using Suc.prems(1,2) uN by (subst unat_add_small) simp_all
    then have c: "(of_nat N + 512 :: u32) > of_nat T \<longleftrightarrow> N + 512 > T"
      using uT by (simp add: word_less_nat_alt)
    let ?chunk = "(if of_nat N + 512 > (of_nat T :: u32) then of_nat T - of_nat N else 512) :: u32"
    have chunk: "unat ?chunk = M - N" "of_nat N + ?chunk = of_nat M"
    proof -
      have "unat (of_nat T - of_nat N :: u32) = T - N" using lt uT uN by (simp add: unat_sub order_less_imp_le)
      then show "unat ?chunk = M - N" using c True by (auto simp: M_def min_def)
      show "of_nat N + ?chunk = of_nat M" using c True by (auto simp: M_def min_def)
    qed
    let ?dst = "\<lambda>i :: u32. if N \<le> unat i \<and> unat i < M then b ! (unat i - N) else dst i"
    have st: "fold (\<lambda>j d. d(of_nat N + of_nat j := b ! j)) [0..<unat ?chunk] dst = ?dst"
      using fold_store [of N "M - N" b dst] True Suc.prems(2) chunk(1) by (auto simp: M_def)
    have "read_sectors blk sec (Suc k) (of_nat T) (of_nat N) dst =
        read_sectors blk (sec + 1) k (of_nat T) (of_nat M) ?dst"
      using lt b st chunk(2) by (simp add: Let_def)
    moreover have "\<forall>s < k. M + 512 * s < T \<longrightarrow> readable blk (sec + 1 + of_nat s)"
    proof (intro allI impI)
      fix s assume "s < k" "M + 512 * s < T"
      then have "readable blk (sec + of_nat (Suc s))" by (intro Suc.prems(3) [rule_format]) (auto simp: M_def min_def split: if_splits)
      then show "readable blk (sec + 1 + of_nat s)" by (simp add: add.assoc)
    qed
    moreover have "M \<le> T" by (simp add: M_def)
    ultimately have e: "read_sectors blk sec (Suc k) (of_nat T) (of_nat N) dst =
        (Inr (of_nat (min T (M + 512 * k))),
         \<lambda>i. if M \<le> unat i \<and> unat i < min T (M + 512 * k)
           then the (blk (sec + 1 + of_nat ((unat i - M) div 512))) ! ((unat i - M) mod 512) else ?dst i)"
      using Suc.IH [of M "sec + 1" ?dst] Suc.prems(2) by simp
    have m: "min T (M + 512 * k) = min T (N + 512 * Suc k)" by (auto simp: M_def min_def)
    have "(if M \<le> unat i \<and> unat i < min T (M + 512 * k)
           then the (blk (sec + 1 + of_nat ((unat i - M) div 512))) ! ((unat i - M) mod 512) else ?dst i)
        = (if N \<le> unat i \<and> unat i < min T (N + 512 * Suc k)
         then the (blk (sec + of_nat ((unat i - N) div 512))) ! ((unat i - N) mod 512) else dst i)" for i :: u32
    proof (cases "M \<le> unat i")
      case ge: True
      show ?thesis
      proof (cases "unat i < min T (M + 512 * k)")
        case lt: True
        then have "M = N + 512" using ge by (auto simp: M_def min_def split: if_splits)
        then have "unat i - N = 512 + (unat i - M)" using ge by simp
        then have "(unat i - N) div 512 = Suc ((unat i - M) div 512)" "(unat i - N) mod 512 = (unat i - M) mod 512" by simp_all
        then show ?thesis using ge lt \<open>M = N + 512\<close> m by (simp add: add.assoc)
      qed (use ge m in \<open>auto simp: M_def\<close>)
    next
      case less: False
      show ?thesis
      proof (cases "N \<le> unat i")
        case True
        then have "unat i - N < 512" "unat i < min T (N + 512 * Suc k)" using less by (auto simp: M_def)
        then show ?thesis using True less b by simp
      qed (use less in auto)
    qed
    then show ?thesis unfolding e m by (simp only:)
  qed
qed

lemma read_chain_ok:
  assumes spc: "0 < unat (sectors_per_cluster (bpb fs))" and T: "T + 512 < 2 ^ 31" and ok: "file_ok blk fs c T"
  defines "bpc \<equiv> unat (sectors_per_cluster (bpb fs)) * 512"
  assumes N: "N = min T (j * bpc)"
  shows "read_chain blk fs (of_nat T) (chain_at fs c j) (of_nat N) dst =
    Some (int T, \<lambda>i. if N \<le> unat i \<and> unat i < T then file_byte blk fs c (unat i) else dst i)"
  using N
proof (induction "T - N" arbitrary: N j dst rule: less_induct)
  case less
  let ?spc = "unat (sectors_per_cluster (bpb fs))"
  have bpc: "0 < bpc" using spc by (simp add: bpc_def)
  have uT: "unat (of_nat T :: u32) = T" and uN: "unat (of_nat N :: u32) = N"
    using less.prems T by (simp_all add: unat_of_nat_small)
  have sT: "sint (of_nat T :: u32) = int T" using uT T sint_small [of "of_nat T :: u32"] by simp
  show ?case
  proof (cases "N < T")
    case False
    then have "N = T" using less.prems by simp
    then show ?thesis by (auto simp: read_chain.simps sT fun_eq_iff)
  next
    case True
    then have Nj: "N = j * bpc" using less.prems by (simp add: min_def split: if_splits)
    let ?c = "chain_at fs c j"
    have c: "2 \<le> ?c" "?c < 0xFFF8" "unat ?c < length (fat_table fs)"
      using ok True Nj unfolding file_ok_def bpc_def by blast+
    let ?sec = "data_start_sector (bpb fs) + ucast (?c - 2) * ucast (sectors_per_cluster (bpb fs))"
    have sec: "?sec + of_nat s = block_sector fs c (j * ?spc + s)" if "s < ?spc" for s
      using that spc by (simp add: block_sector_def Let_def)
    have rd: "\<forall>s < ?spc. N + 512 * s < T \<longrightarrow> readable blk (?sec + of_nat s)"
    proof (intro allI impI)
      fix s assume s: "s < ?spc" "N + 512 * s < T"
      then have "(j * ?spc + s) * 512 < T" using Nj by (simp add: bpc_def algebra_simps)
      then show "readable blk (?sec + of_nat s)" unfolding sec [OF s(1)] using ok by (simp add: file_ok_def)
    qed
    define M where "M = min T (N + 512 * ?spc)"
    have M: "M = min T (Suc j * bpc)" by (simp add: M_def Nj bpc_def algebra_simps)
    have NT: "N \<le> T" "T + 512 < 2 ^ 32" using True T by simp_all
    let ?dst = "\<lambda>i :: u32. if N \<le> unat i \<and> unat i < M
         then the (blk (?sec + of_nat ((unat i - N) div 512))) ! ((unat i - N) mod 512) else dst i"
    have r: "read_sectors blk ?sec ?spc (of_nat T) (of_nat N) dst = (Inr (of_nat M), ?dst)"
      using read_sectors_ok [OF NT rd, of dst] by (simp only: M_def)
    have dst: "?dst i = (if N \<le> unat i \<and> unat i < M then file_byte blk fs c (unat i) else dst i)" for i
    proof (cases "N \<le> unat i \<and> unat i < M")
      case True
      define k where "k = unat i - N"
      have i: "unat i = N + k" "k < 512 * ?spc" using True by (auto simp: k_def M_def)
      then have s: "k div 512 < ?spc" by (simp add: less_mult_imp_div_less mult.commute)
      have "unat i = (j * ?spc) * 512 + k" using i(1) Nj by (simp add: bpc_def)
      then have "unat i div 512 = j * ?spc + k div 512" "unat i mod 512 = k mod 512" by simp_all
      then show ?thesis using True sec [OF s] by (simp add: file_byte_def k_def [symmetric])
    qed auto
    have "read_chain blk fs (of_nat T) ?c (of_nat N) dst =
        read_chain blk fs (of_nat T) (chain_at fs c (Suc j)) (of_nat M) ?dst"
      using True c r uT uN by (subst read_chain.simps) (simp add: word_less_nat_alt)
    also have "\<dots> = Some (int T, \<lambda>i. if M \<le> unat i \<and> unat i < T then file_byte blk fs c (unat i) else ?dst i)"
    proof (rule less.hyps [OF _ M])
      have "N < N + 512 * ?spc" using spc by simp
      then show "T - M < T - N" using True by (auto simp: M_def)
    qed
    also have "(\<lambda>i. if M \<le> unat i \<and> unat i < T then file_byte blk fs c (unat i) else ?dst i)
        = (\<lambda>i. if N \<le> unat i \<and> unat i < T then file_byte blk fs c (unat i) else dst i)"
    proof -
      have "N \<le> M" "M \<le> T" using True by (simp_all add: M_def)
      then show ?thesis unfolding dst by (auto simp: fun_eq_iff)
    qed
    finally show ?thesis .
  qed
qed

text \<open>Without cycles in the way: the loop ends as soon as every cluster holds a sector.\<close>

lemma read_sectors_progress:
  assumes "n < to_read" "unat to_read + 512 < 2 ^ 32" "read_sectors blk sec k to_read n dst = (Inr n', dst')"
  shows "n \<le> n' \<and> n' \<le> to_read \<and> (0 < k \<longrightarrow> n < n')"
  using assms
proof (induction blk sec k to_read n dst rule: read_sectors.induct)
  case (1 blk sec to_read n dst)
  then show ?case by simp
next
  case (2 blk sec k to_read n dst)
  obtain b where b: "blk sec = Some b" using 2 by (cases "blk sec") auto
  let ?chunk = "if n + 512 > to_read then to_read - n else 512"
  have u: "unat (n + 512) = unat n + 512"
    using "2.prems"(1,2) by (subst unat_add_small) (simp_all add: word_less_nat_alt)
  have s: "unat (to_read - n) = unat to_read - unat n"
    using "2.prems"(1) by (simp add: unat_sub order_less_imp_le)
  have prog: "n < n + ?chunk \<and> n + ?chunk \<le> to_read"
    using "2.prems"(1) u by (auto simp: word_less_nat_alt word_le_nat_alt)
  let ?d = "fold (\<lambda>j d. d(n + of_nat j := b ! j)) [0..<unat ?chunk] dst"
  have e: "read_sectors blk (sec + 1) k to_read (n + ?chunk) ?d = (Inr n', dst')"
    using 2 b by (simp add: Let_def)
  show ?case
  proof (cases "n + ?chunk < to_read")
    case True
    have "n + ?chunk \<le> n' \<and> n' \<le> to_read"
      using "2.IH" [OF "2.prems"(1) b refl refl True "2.prems"(2)] e by simp
    then show ?thesis using prog by auto
  next
    case False
    then have "read_sectors blk (sec + 1) k to_read (n + ?chunk) ?d = (Inr (n + ?chunk), ?d)"
      by (cases k) auto
    then show ?thesis using e prog by auto
  qed
qed

text \<open>A cluster number that the FAT has an entry for, or that ends a chain.\<close>

definition in_fat :: "fat16_fs \<Rightarrow> u16 \<Rightarrow> bool" where
  "in_fat fs c \<longleftrightarrow> c < 2 \<or> 0xFFF8 \<le> c \<or> unat c < length (fat_table fs)"

lemma read_chain_ends:
  assumes "0 < unat (sectors_per_cluster (bpb fs))" "unat to_read + 512 < 2 ^ 32" "\<forall>c \<in> set (fat_table fs). in_fat fs c" "in_fat fs c"
  shows "\<exists>r. read_chain blk fs to_read c n dst = Some r"
  using assms(4)
proof (induction "unat to_read - unat n" arbitrary: c n dst rule: less_induct)
  case less
  show ?case
  proof (cases "n < to_read \<and> 2 \<le> c \<and> c < 0xFFF8")
    case False
    then show ?thesis by (subst read_chain.simps) auto
  next
    case True
    let ?sec = "data_start_sector (bpb fs) + ucast (c - 2) * ucast (sectors_per_cluster (bpb fs))"
    obtain x d where r: "read_sectors blk ?sec (unat (sectors_per_cluster (bpb fs))) to_read n dst = (x, d)"
      by fastforce
    have c: "unat c < length (fat_table fs)" using True less.prems by (auto simp: in_fat_def)
    have nx: "in_fat fs (fat_table fs ! unat c)" using assms(3) nth_mem [OF c] by blast
    show ?thesis
    proof (cases x)
      case (Inl u)
      then show ?thesis using True r by (simp add: read_chain.simps [of blk fs to_read c n dst])
    next
      case (Inr n')
      have "n < n' \<and> n' \<le> to_read"
        using read_sectors_progress [OF _ assms(2) r [unfolded Inr]] True assms(1) by simp
      then have "unat to_read - unat n' < unat to_read - unat n"
        by (auto simp: word_less_nat_alt word_le_nat_alt)
      from less.hyps [OF this nx] show ?thesis
        using True r Inr c by (simp add: read_chain.simps [of blk fs to_read c n dst])
    qed
  qed
qed

section \<open>Properties\<close>

lemma read_file_ok:
  assumes "0 < unat (sectors_per_cluster (bpb fs))"
    and "n = min (unat (ff_file_size file)) (unat buf_size)" "n + 512 < 2 ^ 31"
    and "file_ok blk fs (ff_first_cluster file) n"
  shows "fat16_read_file blk fs file dst buf_size =
    Some (int n, \<lambda>i. if unat i < n then file_byte blk fs (ff_first_cluster file) (unat i) else dst i)"
proof -
  have "(if ff_file_size file > buf_size then buf_size else ff_file_size file) = of_nat n"
    unfolding assms(2) by (simp add: min_def word_less_nat_alt)
  moreover have "read_chain blk fs (of_nat n) (ff_first_cluster file) 0 dst =
      Some (int n, \<lambda>i. if 0 \<le> unat i \<and> unat i < n then file_byte blk fs (ff_first_cluster file) (unat i) else dst i)"
    using read_chain_ok [OF assms(1,3,4), of 0 0 dst] by simp
  ultimately show ?thesis by (simp add: fat16_read_file_def)
qed

text \<open>
  C23: reading a file whose chain and sectors exist copies exactly its first
  \<open>min (file size, buffer size)\<close> bytes, in order, to the start of the buffer, leaves the rest of
  the buffer alone and returns their number.
\<close>

theorem fat16_read_file_contents:
  assumes "0 < unat (sectors_per_cluster (bpb fs))"
    and "n = min (unat (ff_file_size file)) (unat buf_size)" "n + 512 < 2 ^ 31"
    and "file_ok blk fs (ff_first_cluster file) n"
  shows "fat16_read_file blk fs file dst buf_size =
    Some (int n, \<lambda>i. if unat i < n then file_byte blk fs (ff_first_cluster file) (unat i) else dst i)"
  by (rule read_file_ok [OF assms])

definition demo_bpb :: fat16_bpb where
  "demo_bpb = \<lparr>bytes_per_sector = 512, sectors_per_cluster = 1, reserved_sectors = 1, num_fats = 1,
     root_entry_count = 16, total_sectors_16 = 100, total_sectors_32 = 0, fat_size_16 = 1,
     root_dir_sector = 2, root_dir_sectors = 1, data_start_sector = 3\<rparr>"

definition demo_fs :: fat16_fs where
  "demo_fs = \<lparr>bpb = demo_bpb, fat_table = [0xFFF8, 0xFFFF, 3, 0xFFFF]\<rparr>"

definition demo_file :: fat16_file where
  "demo_file = \<lparr>ff_first_cluster = 2, ff_file_size = 700, ff_position = 0, ff_current_cluster = 2\<rparr>"

definition demo_disk :: disk where
  "demo_disk sec = Some (if sec = 2
     then [0x48, 0x45, 0x4C, 0x4C, 0x4F, 0x20, 0x20, 0x20, 0x42, 0x49, 0x4E, 0x20] @ replicate 14 0
       @ [2, 0, 0xBC, 2, 0, 0] @ replicate 480 0
     else replicate 512 (ucast sec))"

lemma demo_readable: "readable demo_disk sec"
  by (simp add: readable_def demo_disk_def)

lemma demo_file_ok: "file_ok demo_disk demo_fs 2 700"
  unfolding file_ok_def
proof (intro conjI allI impI demo_readable)
  fix k :: nat assume k: "k * (unat (sectors_per_cluster (bpb demo_fs)) * 512) < 700"
  then have "k < 2" by (simp add: demo_fs_def demo_bpb_def)
  then have "k = 0 \<or> k = 1" by auto
  then show "2 \<le> chain_at demo_fs 2 k" "chain_at demo_fs 2 k < 0xFFF8"
    "unat (chain_at demo_fs 2 k) < length (fat_table demo_fs)"
    by (auto simp: demo_fs_def)
qed

theorem fat16_read_file_contents_witness:
  "\<exists>buf. fat16_read_file demo_disk demo_fs demo_file (\<lambda>_. 0) 4096 = Some (700, buf)
    \<and> buf 0 = 3 \<and> buf 699 = 4 \<and> buf 700 = 0"
proof -
  have "fat16_read_file demo_disk demo_fs demo_file (\<lambda>_. 0) 4096 =
      Some (int 700, \<lambda>i. if unat i < 700 then file_byte demo_disk demo_fs (ff_first_cluster demo_file) (unat i) else 0)"
    by (rule fat16_read_file_contents)
      (simp_all add: demo_file_ok demo_file_def, simp_all add: demo_fs_def demo_bpb_def)
  then show ?thesis
    by (simp add: demo_file_def file_byte_def block_sector_def demo_fs_def demo_bpb_def demo_disk_def Let_def)
qed

text \<open>
  On a readable root directory \<open>fat16_open\<close> returns the first entry before the end marker
  that is not deleted, has none of the attribute bits 0x0F, and whose 11-byte name is the
  converted file name; and nothing if there is no such entry.
\<close>

theorem fat16_open_finds:
  assumes "\<forall>i < unat (root_dir_sectors (bpb fs)). readable blk (root_dir_sector (bpb fs) + of_nat i)"
  shows "fat16_open blk fs filename = dir_find (to_fat83 filename)
    (dir_entries blk (root_dir_sector (bpb fs)) (unat (root_dir_sectors (bpb fs))))"
  using open_sectors_find [OF length_to_fat83 assms] by (simp add: fat16_open_def)

theorem fat16_open_finds_witness:
  "fat16_open demo_disk demo_fs [0x68, 0x65, 0x6C, 0x6C, 0x6F, 0x2E, 0x62, 0x69, 0x6E] = Some demo_file"
proof -
  have "fat16_open demo_disk demo_fs [0x68, 0x65, 0x6C, 0x6C, 0x6F, 0x2E, 0x62, 0x69, 0x6E] =
      dir_find (to_fat83 [0x68, 0x65, 0x6C, 0x6C, 0x6F, 0x2E, 0x62, 0x69, 0x6E]) (dir_entries demo_disk 2 1)"
    using fat16_open_finds [of demo_fs demo_disk] demo_readable by (simp add: demo_fs_def demo_bpb_def)
  moreover have "dir_entries demo_disk 2 1 = parse_dirent (take 32 (the (demo_disk 2)))
      # map (\<lambda>i. parse_dirent (take 32 (drop (i * 32) (the (demo_disk 2))))) [1..<16]"
    by (simp add: dir_entries_def sector_entries_def upt_conv_Cons)
  moreover have "to_fat83 [0x68, 0x65, 0x6C, 0x6C, 0x6F, 0x2E, 0x62, 0x69, 0x6E] =
      [0x48, 0x45, 0x4C, 0x4C, 0x4F, 0x20, 0x20, 0x20, 0x42, 0x49, 0x4E]"
    by code_simp
  moreover have "parse_dirent (take 32 (the (demo_disk 2))) =
      \<lparr>de_name = [0x48, 0x45, 0x4C, 0x4C, 0x4F, 0x20, 0x20, 0x20], de_ext = [0x42, 0x49, 0x4E], de_attr = 0x20,
        de_first_cluster = 2, de_file_size = 700\<rparr>"
    by code_simp
  ultimately show ?thesis by (simp add: dir_find_def live_def file_of_def demo_file_def)
qed

text \<open>
  The text form of a directory entry's name leads back to the entry: formatting an upper-case
  8.3 name and converting the result gives the same 11 bytes.
\<close>

theorem fat83_roundtrip:
  assumes "de_name de = nm @ replicate (8 - length nm) 0x20" "de_ext de = ex @ replicate (3 - length ex) 0x20"
    and "nm \<noteq> []" "length nm \<le> 8" "length ex \<le> 3" "plain nm" "plain ex"
  shows "to_fat83 (fat83_to_str de) = de_name de @ de_ext de"
proof -
  have fn: "filter (\<lambda>c. c \<noteq> 0x20) (de_name de) = nm" "filter (\<lambda>c. c \<noteq> 0x20) (de_ext de) = ex"
    using assms filter_pad_plain by simp_all
  show ?thesis
  proof (cases ex)
    case Nil
    then have "fat83_to_str de = nm" using fn assms(2) by (simp add: fat83_to_str_def)
    moreover have "to_fat83 nm = pad 8 nm @ pad 3 []"
      using assms(4) by (simp only: to_fat83_eq Let_def plain_word(2) [OF assms(6)])
        (simp add: map_upper_plain [OF assms(6)] skip_dot_def)
    ultimately show ?thesis using assms Nil by (simp add: pad_append)
  next
    case (Cons e es)
    then have "de_ext de ! 0 \<noteq> 0x20" using assms(2,7) by (simp add: plain_def)
    then have s: "fat83_to_str de = nm @ 0x2E # ex" using fn by (simp add: fat83_to_str_def)
    have "to_fat83 (nm @ 0x2E # ex) = pad 8 nm @ pad 3 ex"
      using assms(4) by (simp only: to_fat83_eq Let_def plain_word(1) [OF assms(6)])
        (simp add: map_upper_plain assms(6,7) skip_dot_def)
    then show ?thesis using s assms by (simp add: pad_append)
  qed
qed

theorem fat83_roundtrip_witness:
  "to_fat83 (fat83_to_str \<lparr>de_name = [0x48, 0x49, 0x20, 0x20, 0x20, 0x20, 0x20, 0x20], de_ext = [0x43, 0x20, 0x20],
      de_attr = 0x20, de_first_cluster = 2, de_file_size = 9\<rparr>)
    = [0x48, 0x49, 0x20, 0x20, 0x20, 0x20, 0x20, 0x20] @ [0x43, 0x20, 0x20]"
  (is "to_fat83 (fat83_to_str ?de) = _")
proof -
  have r: "replicate (8 - length [0x48, 0x49 :: u8]) (0x20 :: u8) = [0x20, 0x20, 0x20, 0x20, 0x20, 0x20]"
    "replicate (3 - length [0x43 :: u8]) (0x20 :: u8) = [0x20, 0x20]" by code_simp+
  have "to_fat83 (fat83_to_str ?de) = de_name ?de @ de_ext ?de"
    by (rule fat83_roundtrip [of _ "[0x48, 0x49]" "[0x43]"], unfold r) (simp_all add: plain_def)
  then show ?thesis by simp
qed

text \<open>
  C29: with at least one sector per cluster and a FAT that has an entry for every cluster that one of its entries names,
  and for the first cluster of the file, \<open>fat16_read_file\<close> ends, whatever the chain looks like, cyclic ones included.
  A FAT of full size, which every 16-bit cluster number below 0xFFF8 indexes, is such a FAT whatever it holds.
\<close>

theorem fat16_read_file_terminates:
  assumes "0 < unat (sectors_per_cluster (bpb fs))" "unat buf_size + 512 < 2 ^ 32"
    "0xFFF8 \<le> length (fat_table fs) \<or> (\<forall>c \<in> set (fat_table fs) \<union> {ff_first_cluster file}. c < 2 \<or> 0xFFF8 \<le> c \<or> unat c < length (fat_table fs))"
  shows "\<exists>r. fat16_read_file blk fs file dst buf_size = Some r"
proof -
  have f: "in_fat fs c" if "c \<in> set (fat_table fs) \<union> {ff_first_cluster file}" for c
  proof (cases "0xFFF8 \<le> length (fat_table fs)")
    case True
    then show ?thesis by (auto simp: in_fat_def word_less_nat_alt word_le_nat_alt not_le)
  next
    case False
    then show ?thesis using assms(3) that unfolding in_fat_def by blast
  qed
  let ?n = "if ff_file_size file > buf_size then buf_size else ff_file_size file"
  have "unat ?n + 512 < 2 ^ 32" using assms(2) by (auto simp: word_less_nat_alt)
  from read_chain_ends [OF assms(1) this, of "ff_first_cluster file"] f show ?thesis by (simp add: fat16_read_file_def)
qed

theorem fat16_read_file_terminates_witness:
  "(\<exists>r. fat16_read_file demo_disk (demo_fs\<lparr>fat_table := replicate 0x10000 2\<rparr>) demo_file (\<lambda>_. 0) 4096 = Some r)
    \<and> (\<exists>r. fat16_read_file demo_disk (demo_fs\<lparr>fat_table := [0xFFF8, 0xFFFF, 3, 2]\<rparr>) demo_file (\<lambda>_. 0) 4096 = Some r)"
  by (rule conjI; rule fat16_read_file_terminates) (simp_all add: demo_fs_def demo_bpb_def demo_file_def)

text \<open>
  A boot sector with zero sectors per cluster is accepted by \<open>fat16_mount\<close>, and then a cluster
  that points to itself makes \<open>fat16_read_file\<close> run for ever without reading a byte.
\<close>

theorem fat16_read_file_loops:
  assumes "sectors_per_cluster (bpb fs) = 0" "2 \<le> ff_first_cluster file" "ff_first_cluster file < 0xFFF8"
    "fat_table fs ! unat (ff_first_cluster file) = ff_first_cluster file"
    "0 < ff_file_size file" "0 < buf_size"
  shows "fat16_read_file blk fs file dst buf_size = None"
proof -
  let ?n = "if ff_file_size file > buf_size then buf_size else ff_file_size file" and ?c = "ff_first_cluster file"
  have "\<not> (to_read = ?n \<and> c = ?c \<and> m = 0 \<and> f = fs)" if "read_chain b f to_read c m d = Some r" for b f to_read c m d r
  proof (rule read_chain.raw_induct [where P = "\<lambda>b f to_read c m d r. \<not> (to_read = ?n \<and> c = ?c \<and> m = 0 \<and> f = fs)", OF _ that],
      intro notI, elim conjE)
    fix rc :: "disk \<Rightarrow> fat16_fs \<Rightarrow> u32 \<Rightarrow> u16 \<Rightarrow> u32 \<Rightarrow> (u32 \<Rightarrow> u8) \<Rightarrow> (int \<times> (u32 \<Rightarrow> u8)) option"
      and b f to_read c m d r
    assume IH: "\<And>b f to_read c m d r. rc b f to_read c m d = Some r \<Longrightarrow>
        \<not> (to_read = ?n \<and> c = ?c \<and> m = 0 \<and> f = fs)"
      and body: "(if m < to_read \<and> 2 \<le> c \<and> c < 0xFFF8 then
        (case read_sectors b
            (data_start_sector (bpb f) + ucast (c - 2) * ucast (sectors_per_cluster (bpb f)))
            (unat (sectors_per_cluster (bpb f))) to_read m d of
           (Inl _, dst) \<Rightarrow> Some (-1, dst)
         | (Inr n, dst) \<Rightarrow>
             if unat c < length (fat_table f)
             then rc b f to_read (fat_table f ! unat c) n dst
             else None)
        else Some (sint m, d)) = Some r"
      and eq: "to_read = ?n" "c = ?c" "m = 0" "f = fs"
    have "m < to_read" using assms(5,6) eq by auto
    then have "rc b f to_read c m d = Some r"
      using body eq assms(1-4) by (simp split: if_splits)
    then show False using IH eq by blast
  qed
  then have "read_chain blk fs ?n ?c 0 dst = None" by (cases "read_chain blk fs ?n ?c 0 dst") blast+
  then show ?thesis by (simp add: fat16_read_file_def)
qed

theorem fat16_read_file_loops_witness:
  "fat16_read_file demo_disk \<lparr>bpb = demo_bpb\<lparr>sectors_per_cluster := 0\<rparr>, fat_table = [0, 0, 2]\<rparr>
     demo_file (\<lambda>_. 0) 4096 = None"
  by (rule fat16_read_file_loops) (simp_all add: demo_file_def)

text \<open>
  A name without a dot never matches an entry that has an extension, so the padded spelling
  \<open>HELLO   BIN\<close> that \<^verbatim>\<open>fat16.h\<close> offers is not found.
\<close>

lemma to_fat83_without_dot: "0x2E \<notin> set inp \<Longrightarrow> drop 8 (to_fat83 inp) = [0x20, 0x20, 0x20]"
proof -
  assume n: "0x2E \<notin> set inp"
  have "0x2E \<notin> set (drop k inp)" for k using n in_set_dropD by metis
  then have "skip_dot (drop k inp) = []" for k
    by (auto simp: skip_dot_def dropWhile_eq_Nil_conv)
  then show ?thesis by (simp add: to_fat83_eq Let_def pad_def numeral_eq_Suc)
qed

end
