(* ===== verification/Uart.thy ===== *)
theory Uart
  imports Prelude
begin

text \<open>
  The PL011 console, \<^verbatim>\<open>src/uart.c\<close>: the characters waiting to be read and the characters
  sent so far. Waiting for a character that never comes is \<open>None\<close>; the polling of the flag
  register is not modelled.
\<close>

record uart =
  rx :: "u8 list"
  tx :: "u8 list"

definition uart_putc :: "u8 \<Rightarrow> uart \<Rightarrow> uart" where
  "uart_putc c u = u\<lparr>tx := tx u @ [c]\<rparr>"

definition uart_getc :: "uart \<Rightarrow> (u8 \<times> uart) option" where
  "uart_getc u = (case rx u of [] \<Rightarrow> None | c # cs \<Rightarrow> Some (c, u\<lparr>rx := cs\<rparr>))"

fun uart_puts :: "u8 list \<Rightarrow> uart \<Rightarrow> uart" where
  "uart_puts [] u = u"
| "uart_puts (c # cs) u = uart_puts cs (uart_putc c (if c = 0x0A then uart_putc 0x0D u else u))"

definition hex_digit :: "u64 \<Rightarrow> u8" where
  "hex_digit d = (map (\<lambda>i. of_nat i) ([0x30..<0x3A] @ [0x61..<0x67])) ! unat d"

definition uart_puthex :: "u64 \<Rightarrow> uart \<Rightarrow> uart" where
  "uart_puthex val u = fold (\<lambda>k. uart_putc (hex_digit (drop_bit (4 * k) val AND 0xF))) (rev [0..<16])
     (uart_puts [0x30, 0x78] u)"

text \<open>The digit loop of \<open>uart_putdec\<close> fills \<open>buf\<close> from the least significant digit.\<close>

function dec_digits :: "u64 \<Rightarrow> u8 list" where
  "dec_digits val = (if val > 0 then (0x30 + ucast (val mod 10)) # dec_digits (val div 10) else [])"
  by auto

termination
proof (relation "measure unat")
  fix val :: u64 assume "val > 0"
  then have "0 < unat val" by (simp add: word_less_nat_alt)
  then have "unat val div unat (10 :: u64) < unat val" by simp
  then have "unat (val div 10) < unat val" by (simp only: unat_div)
  then show "(val div 10, val) \<in> measure unat" by simp
qed simp

declare dec_digits.simps [simp del]

definition uart_putdec :: "u64 \<Rightarrow> uart \<Rightarrow> uart" where
  "uart_putdec val u =
     (if val = 0 then uart_putc 0x30 u else fold uart_putc (rev (dec_digits val)) u)"

section \<open>The decimal printer\<close>

text \<open>Reading a decimal string, most significant digit first.\<close>

definition dec_value :: "u8 list \<Rightarrow> nat" where
  "dec_value ds = foldl (\<lambda>n d. n * 10 + (unat d - 0x30)) 0 ds"

lemma fold_putc: "tx (fold uart_putc cs u) = tx u @ cs" "rx (fold uart_putc cs u) = rx u"
  by (induction cs arbitrary: u) (simp_all add: uart_putc_def)

lemma dec_digit:
  "unat (0x30 + ucast ((val :: u64) mod 10) :: u8) = 0x30 + unat val mod 10"
proof -
  have "unat (val mod 10) = unat val mod unat (10 :: u64)" by (simp only: unat_mod)
  then have m: "unat (val mod 10) = unat val mod 10" by simp
  moreover have "unat val mod 10 < 10" by simp
  ultimately have "unat (ucast (val mod 10) :: u8) = unat val mod 10" by (simp add: unat_ucast)
  then show ?thesis using \<open>unat val mod 10 < 10\<close> by (subst unat_add_small) simp_all
qed

lemma unat_div_10: "unat ((val :: u64) div 10) = unat val div 10"
proof -
  have "unat (val div 10) = unat val div unat (10 :: u64)" by (simp only: unat_div)
  then show ?thesis by simp
qed

lemma dec_value_digits: "dec_value (rev (dec_digits val)) = unat val"
proof (induction val rule: dec_digits.induct)
  case (1 val)
  show ?case
  proof (cases "val > 0")
    case True
    then have "dec_value (rev (dec_digits val)) =
        dec_value (rev (dec_digits (val div 10))) * 10 + unat val mod 10"
      by (simp add: dec_digits.simps [of val] dec_value_def dec_digit)
    then show ?thesis using "1.IH" [OF True] by (simp add: unat_div_10)
  next
    case False
    then show ?thesis by (simp add: dec_digits.simps dec_value_def word_less_nat_alt)
  qed
qed

lemma dec_digits_length: "unat val < 10 ^ k \<Longrightarrow> length (dec_digits val) \<le> k"
proof (induction k arbitrary: val)
  case 0
  then show ?case by (simp add: dec_digits.simps word_less_nat_alt)
next
  case (Suc k)
  show ?case
  proof (cases "val > 0")
    case True
    have "unat (val div 10) < 10 ^ k" using Suc.prems by (simp add: unat_div_10 less_mult_imp_div_less)
    then show ?thesis using True Suc.IH by (simp add: dec_digits.simps [of val])
  qed (simp add: dec_digits.simps)
qed

lemma dec_digits_range: "d \<in> set (dec_digits val) \<Longrightarrow> 0x30 \<le> d \<and> d \<le> 0x39"
proof (induction val rule: dec_digits.induct)
  case (1 val)
  have "unat (0x30 + ucast (val mod 10) :: u8) \<le> 0x39" using dec_digit [of val] by simp
  then show ?case
    using 1 dec_digit [of val] by (auto simp: dec_digits.simps [of val] word_le_nat_alt split: if_splits)
qed

section \<open>Properties\<close>

text \<open>
  \<open>uart_putdec\<close> appends the decimal representation of its argument: only digits, whose value
  is the argument, and at most 20 of them, the size of its local buffer.
\<close>

theorem uart_putdec_value:
  "\<exists>ds. tx (uart_putdec val u) = tx u @ ds \<and> dec_value ds = unat val \<and> length ds \<le> 20
    \<and> set ds \<subseteq> {0x30..0x39}"
proof (cases "val = 0")
  case True
  then show ?thesis by (simp add: uart_putdec_def uart_putc_def dec_value_def)
next
  case False
  have "unat val < 2 ^ 64" using unsigned_less [of val] by simp
  then have "length (dec_digits val) \<le> 20" by (intro dec_digits_length) simp
  then show ?thesis
    using False dec_value_digits [of val] dec_digits_range [of _ val]
    by (auto simp: uart_putdec_def fold_putc)
qed

end
