(* ===== verification/Pipe.thy ===== *)
theory Pipe
  imports Prelude
begin

text \<open>
  The pipe buffer of \<^verbatim>\<open>src/fd.h\<close> and the copying loops of \<open>fd_read\<close> and \<open>fd_write\<close> on it: a
  4096-byte ring with 32-bit positions. The specification is a bounded first-in first-out queue
  of bytes, stated as a locale and discharged for the ring.
\<close>

section \<open>Bounded byte queues\<close>

locale byte_fifo =
  fixes inv :: "'p \<Rightarrow> bool"
    and contents :: "'p \<Rightarrow> u8 list"
    and cap :: nat
    and put :: "u8 \<Rightarrow> 'p \<Rightarrow> 'p"
    and get :: "'p \<Rightarrow> u8 \<times> 'p"
  assumes put_law: "\<lbrakk>inv p; length (contents p) < cap\<rbrakk> \<Longrightarrow>
      inv (put b p) \<and> contents (put b p) = contents p @ [b]"
    and get_law: "\<lbrakk>inv p; contents p \<noteq> []\<rbrakk> \<Longrightarrow>
      inv (snd (get p)) \<and> fst (get p) = hd (contents p) \<and> contents (snd (get p)) = tl (contents p)"
    and cap_law: "inv p \<Longrightarrow> length (contents p) \<le> cap"
begin

lemma put_many:
  "\<lbrakk>inv p; length (contents p) + length bs \<le> cap\<rbrakk> \<Longrightarrow>
    inv (fold put bs p) \<and> contents (fold put bs p) = contents p @ bs"
  by (induction bs arbitrary: p) (simp_all add: put_law)

lemma get_many:
  "\<lbrakk>inv p; n \<le> length (contents p)\<rbrakk> \<Longrightarrow>
    inv (((\<lambda>q. snd (get q)) ^^ n) p) \<and> contents (((\<lambda>q. snd (get q)) ^^ n) p) = drop n (contents p)
    \<and> map (\<lambda>i. fst (get (((\<lambda>q. snd (get q)) ^^ i) p))) [0..<n] = take n (contents p)"
proof (induction n)
  case 0
  then show ?case by simp
next
  case (Suc n)
  let ?q = "((\<lambda>q. snd (get q)) ^^ n) p"
  have IH: "inv ?q" "contents ?q = drop n (contents p)"
    "map (\<lambda>i. fst (get (((\<lambda>q. snd (get q)) ^^ i) p))) [0..<n] = take n (contents p)"
    using Suc by simp_all
  have ne: "contents ?q \<noteq> []" using IH(2) Suc.prems(2) by simp
  have "hd (drop n (contents p)) = contents p ! n" using Suc.prems(2) by (simp add: hd_drop_conv_nth)
  then show ?case
    using get_law [OF IH(1) ne] IH Suc.prems(2)
    by (simp add: take_Suc_conv_app_nth drop_Suc tl_drop)
qed

text \<open>What was put into an empty queue comes out in the same order.\<close>

lemma put_get:
  assumes "inv p" "contents p = []" "length bs \<le> cap"
  shows "map (\<lambda>i. fst (get (((\<lambda>q. snd (get q)) ^^ i) (fold put bs p)))) [0..<length bs] = bs"
  using put_many [OF assms(1), of bs] get_many [of "fold put bs p" "length bs"] assms(2,3) by simp

end

section \<open>The ring buffer\<close>

definition PIPE_BUF_SIZE :: u32 where "PIPE_BUF_SIZE = 4096"

record pipe =
  pbuf :: "u8 list"
  read_pos :: u32
  write_pos :: u32
  pcount :: u32
  read_open :: bool
  write_open :: bool

definition pipe_put :: "u8 \<Rightarrow> pipe \<Rightarrow> pipe" where
  "pipe_put b p = p\<lparr>pbuf := (pbuf p)[unat (write_pos p) := b],
     write_pos := (write_pos p + 1) mod PIPE_BUF_SIZE, pcount := pcount p + 1\<rparr>"

definition pipe_get :: "pipe \<Rightarrow> u8 \<times> pipe" where
  "pipe_get p = (pbuf p ! unat (read_pos p),
     p\<lparr>read_pos := (read_pos p + 1) mod PIPE_BUF_SIZE, pcount := pcount p - 1\<rparr>)"

text \<open>The loop of \<open>fd_read\<close>: \<open>while (total < count && p->count > 0)\<close>.\<close>

fun drain :: "nat \<Rightarrow> pipe \<Rightarrow> u8 list \<times> pipe" where
  "drain 0 p = ([], p)"
| "drain (Suc n) p =
     (if pcount p > 0 then let (b, p) = pipe_get p; (bs, p) = drain n p in (b # bs, p) else ([], p))"

text \<open>The inner loop of \<open>fd_write\<close>: the bytes left over when the buffer is full, and the pipe.\<close>

fun fill :: "u8 list \<Rightarrow> pipe \<Rightarrow> u8 list \<times> pipe" where
  "fill [] p = ([], p)"
| "fill (b # bs) p = (if pcount p < PIPE_BUF_SIZE then fill bs (pipe_put b p) else (b # bs, p))"

text \<open>
  One attempt of the reader: it gives up the CPU while the pipe is empty and the write end open.
\<close>

definition pipe_read :: "u32 \<Rightarrow> pipe \<Rightarrow> u8 list attempt \<times> pipe" where
  "pipe_read count p =
     (if pcount p = 0 then (if \<not> write_open p then (Done [], p) else (Blocked, p))
      else let (bs, p) = drain (unat count) p in (Done bs, p))"

text \<open>
  One attempt of the writer from where it last gave up the CPU: \<open>None\<close> is a return of -1,
  \<open>Some []\<close> that everything was written, \<open>Some rest\<close> that it waits with \<open>rest\<close> still to write.
\<close>

definition pipe_write :: "u8 list \<Rightarrow> pipe \<Rightarrow> u8 list option \<times> pipe" where
  "pipe_write src p =
     (let (rest, p) = fill src p
      in if rest = [] then (Some [], p) else if \<not> read_open p then (None, p) else (Some rest, p))"

section \<open>The ring is a queue\<close>

definition pipe_inv :: "pipe \<Rightarrow> bool" where
  "pipe_inv p \<longleftrightarrow> length (pbuf p) = 4096 \<and> unat (read_pos p) < 4096 \<and> unat (pcount p) \<le> 4096
     \<and> unat (write_pos p) = (unat (read_pos p) + unat (pcount p)) mod 4096"

definition pipe_contents :: "pipe \<Rightarrow> u8 list" where
  "pipe_contents p = map (\<lambda>i. pbuf p ! ((unat (read_pos p) + i) mod 4096)) [0..<unat (pcount p)]"

lemma length_pipe_contents [simp]: "length (pipe_contents p) = unat (pcount p)"
  by (simp add: pipe_contents_def)

lemma next_pos:
  assumes "unat (x :: u32) < 4096"
  shows "unat ((x + 1) mod PIPE_BUF_SIZE) = (unat x + 1) mod 4096"
proof -
  have "unat (x + 1) = unat x + 1" using assms by (subst unat_add_small) simp_all
  moreover have "unat ((x + 1) mod PIPE_BUF_SIZE) = unat (x + 1) mod unat PIPE_BUF_SIZE" by (rule unat_mod)
  ultimately show ?thesis by (simp add: PIPE_BUF_SIZE_def)
qed

lemma mod_ring_neq:
  "\<lbrakk>i < n; n < 4096\<rbrakk> \<Longrightarrow> (r + i) mod 4096 \<noteq> (r + n) mod (4096 :: nat)"
proof
  assume a: "i < n" "n < 4096" "(r + i) mod 4096 = (r + n) mod (4096 :: nat)"
  then have "4096 dvd (r + n) - (r + i)" by (metis mod_eq_dvd_iff_nat nat_add_left_cancel_le order_less_imp_le)
  then have "4096 dvd n - i" by simp
  then show False using a(1,2) by (auto dest: dvd_imp_le)
qed

lemma pipe_put_queue:
  assumes i: "pipe_inv p" and c: "unat (pcount p) < 4096"
  shows "pipe_inv (pipe_put b p)" "pipe_contents (pipe_put b p) = pipe_contents p @ [b]"
proof -
  let ?r = "unat (read_pos p)" and ?n = "unat (pcount p)" and ?w = "unat (write_pos p)"
  have w: "?w = (?r + ?n) mod 4096" "?w < 4096" using i by (simp_all add: pipe_inv_def)
  have n: "unat (pcount p + 1) = ?n + 1" using c by (subst unat_add_small) simp_all
  have "(?w + 1) mod 4096 = (?r + (?n + 1)) mod 4096" unfolding w(1) by (simp add: mod_simps add.assoc)
  then show "pipe_inv (pipe_put b p)"
    using i c n next_pos [OF w(2)] by (simp add: pipe_inv_def pipe_put_def)
  have "(pbuf p)[?w := b] ! ((?r + j) mod 4096) = pbuf p ! ((?r + j) mod 4096)" if "j < ?n" for j
    using mod_ring_neq [OF that c, of ?r] w(1) by simp
  moreover have "(pbuf p)[?w := b] ! ((?r + ?n) mod 4096) = b"
    using i w by (simp add: pipe_inv_def)
  ultimately show "pipe_contents (pipe_put b p) = pipe_contents p @ [b]"
    using n by (simp add: pipe_contents_def pipe_put_def)
qed

lemma pipe_get_queue:
  assumes i: "pipe_inv p" and c: "0 < unat (pcount p)"
  shows "pipe_inv (snd (pipe_get p))" "fst (pipe_get p) = hd (pipe_contents p)"
    "pipe_contents (snd (pipe_get p)) = tl (pipe_contents p)"
proof -
  let ?r = "unat (read_pos p)" and ?n = "unat (pcount p)"
  have r: "?r < 4096" using i by (simp add: pipe_inv_def)
  have n: "unat (pcount p - 1) = ?n - 1" using c by (subst unat_sub) (simp_all add: word_le_nat_alt)
  obtain m where m: "?n = Suc m" using c by (cases ?n) auto
  have "((?r + 1) mod 4096 + (?n - 1)) mod 4096 = (?r + ?n) mod 4096" unfolding m by (simp add: mod_simps)
  then show "pipe_inv (snd (pipe_get p))"
    using i n c next_pos [OF r] by (auto simp: pipe_inv_def pipe_get_def)
  have u: "pipe_contents p = pbuf p ! ?r # map (\<lambda>j. pbuf p ! ((?r + Suc j) mod 4096)) [0..<m]"
    using r by (simp add: pipe_contents_def m upt_conv_Cons map_Suc_upt [symmetric] comp_def del: upt_Suc)
  then show "fst (pipe_get p) = hd (pipe_contents p)" by (simp add: pipe_get_def)
  have "pipe_contents (snd (pipe_get p)) = map (\<lambda>j. pbuf p ! (((?r + 1) mod 4096 + j) mod 4096)) [0..<m]"
    using n m next_pos [OF r] by (simp add: pipe_contents_def pipe_get_def)
  also have "\<dots> = map (\<lambda>j. pbuf p ! ((?r + Suc j) mod 4096)) [0..<m]" by (simp add: mod_simps)
  finally show "pipe_contents (snd (pipe_get p)) = tl (pipe_contents p)" by (simp add: u)
qed

interpretation pq: byte_fifo pipe_inv pipe_contents 4096 pipe_put pipe_get
proof
  show "pipe_inv (pipe_put b p) \<and> pipe_contents (pipe_put b p) = pipe_contents p @ [b]"
    if "pipe_inv p" "length (pipe_contents p) < 4096" for p b
    using pipe_put_queue [OF that(1)] that(2) by simp
  show "pipe_inv (snd (pipe_get p)) \<and> fst (pipe_get p) = hd (pipe_contents p)
      \<and> pipe_contents (snd (pipe_get p)) = tl (pipe_contents p)"
    if "pipe_inv p" "pipe_contents p \<noteq> []" for p
  proof -
    have "0 < length (pipe_contents p)" using that(2) by (rule length_greater_0_conv [THEN iffD2])
    then show ?thesis using pipe_get_queue [OF that(1)] by simp
  qed
  show "length (pipe_contents p) \<le> 4096" if "pipe_inv p" for p
    using that by (simp add: pipe_inv_def)
qed

lemma fill_fold:
  "pipe_inv p \<Longrightarrow>
    fill bs p = (let k = min (length bs) (4096 - unat (pcount p)) in (drop k bs, fold pipe_put (take k bs) p))"
proof (induction bs p rule: fill.induct)
  case (1 p)
  then show ?case by simp
next
  case (2 b bs p)
  show ?case
  proof (cases "pcount p < PIPE_BUF_SIZE")
    case True
    then have c: "unat (pcount p) < 4096" by (simp add: word_less_nat_alt PIPE_BUF_SIZE_def)
    have n: "unat (pcount (pipe_put b p)) = unat (pcount p) + 1"
      using c by (simp add: pipe_put_def) (subst unat_add_small, simp_all)
    have m: "min (Suc (length bs)) (4096 - unat (pcount p)) = Suc (min (length bs) (4096 - (unat (pcount p) + 1)))"
      using c by auto
    show ?thesis
      using True "2.IH" [OF True pipe_put_queue(1) [OF "2.prems" c]] m n by (simp add: Let_def)
  next
    case False
    then have "unat (pcount p) = 4096"
      using "2.prems" by (simp add: word_less_nat_alt PIPE_BUF_SIZE_def pipe_inv_def)
    then show ?thesis using False by simp
  qed
qed

lemma fill_queue:
  assumes "pipe_inv p" "fill bs p = (rest, p')"
  shows "pipe_inv p'" "bs = take (length bs - length rest) bs @ rest"
    "pipe_contents p' = pipe_contents p @ take (length bs - length rest) bs"
    "rest \<noteq> [] \<Longrightarrow> unat (pcount p') = 4096"
proof -
  define k where "k = min (length bs) (4096 - unat (pcount p))"
  have r: "rest = drop k bs" "p' = fold pipe_put (take k bs) p"
    using assms fill_fold [OF assms(1), of bs] by (simp_all add: k_def Let_def)
  have le: "length (pipe_contents p) + length (take k bs) \<le> 4096"
    using assms(1) by (auto simp: k_def pipe_inv_def min_def)
  have k: "length bs - length rest = k" by (simp add: r(1) k_def)
  note q = pq.put_many [OF assms(1) le, folded r(2)]
  show "pipe_inv p'" using q ..
  show "bs = take (length bs - length rest) bs @ rest" unfolding k unfolding r(1) by simp
  show c: "pipe_contents p' = pipe_contents p @ take (length bs - length rest) bs" unfolding k using q ..
  assume "rest \<noteq> []"
  then have "k < length bs" by (auto simp: r(1))
  then have "k = 4096 - unat (pcount p)" by (auto simp: k_def)
  moreover have "length (pipe_contents p') = unat (pcount p) + k" using c k \<open>k < length bs\<close> by simp
  ultimately show "unat (pcount p') = 4096" using assms(1) by (simp add: pipe_inv_def)
qed

lemma drain_queue:
  assumes "pipe_inv p" "drain n p = (bs, p')"
  shows "pipe_inv p' \<and> bs = take n (pipe_contents p) \<and> pipe_contents p' = drop n (pipe_contents p)"
  using assms
proof (induction n p arbitrary: bs p' rule: drain.induct)
  case (1 p)
  then show ?case by simp
next
  case (2 n p)
  show ?case
  proof (cases "pcount p > 0")
    case True
    then have c: "0 < unat (pcount p)" by (simp add: word_less_nat_alt)
    obtain b q where g: "pipe_get p = (b, q)" by fastforce
    obtain cs q' where d: "drain n q = (cs, q')" by fastforce
    note gq = pipe_get_queue [OF "2.prems"(1) c, unfolded g, simplified]
    have "pipe_inv q' \<and> cs = take n (pipe_contents q) \<and> pipe_contents q' = drop n (pipe_contents q)"
      using "2.IH" [OF True refl g [symmetric] gq(1) d] by simp
    moreover have "bs = b # cs" "p' = q'" using "2.prems"(2) True g d by simp_all
    moreover have "pipe_contents p = b # tl (pipe_contents p)"
    proof -
      have "pipe_contents p \<noteq> []" using c by (metis length_0_conv length_pipe_contents less_not_refl)
      then show ?thesis using gq(2) by simp
    qed
    ultimately show ?thesis using gq(3) by (metis drop_Suc_Cons take_Suc_Cons)
  next
    case False
    then have "unat (pcount p) = 0" by (simp add: word_less_nat_alt)
    then have "pipe_contents p = []" by (metis length_0_conv length_pipe_contents)
    then show ?thesis using False "2.prems" by simp
  qed
qed

lemma fill_ends: "fill bs p = (rest, p') \<Longrightarrow> read_open p' = read_open p \<and> write_open p' = write_open p"
  by (induction bs p rule: fill.induct) (auto simp: pipe_put_def split: if_splits)

lemma drain_ends: "drain n p = (bs, p') \<Longrightarrow> read_open p' = read_open p \<and> write_open p' = write_open p"
  by (induction n p arbitrary: bs rule: drain.induct)
    (auto simp: pipe_get_def split: if_splits prod.splits)

section \<open>Properties\<close>

text \<open>
  C24: the two ends of a pipe are a first-in first-out queue. A write attempt appends a prefix of
  the bytes and waits, or fails when the read end is closed, only with the buffer full; a read
  attempt returns the oldest bytes, up to the count asked for, and waits only on an empty buffer
  with the write end open. Bytes are neither lost, nor duplicated, nor reordered.
\<close>

theorem pipe_is_fifo:
  assumes "pipe_inv p"
  shows "(case pipe_write src p of (r, p') \<Rightarrow>
      pipe_inv p' \<and> (\<exists>sent rest. src = sent @ rest \<and> pipe_contents p' = pipe_contents p @ sent
        \<and> (rest \<noteq> [] \<longrightarrow> length (pipe_contents p') = 4096)
        \<and> r = (if rest = [] then Some [] else if read_open p then Some rest else None)))
    \<and> (case pipe_read count p of (r, p') \<Rightarrow>
      pipe_inv p' \<and> (if pipe_contents p = [] \<and> write_open p then r = Blocked \<and> p' = p
        else r = Done (take (unat count) (pipe_contents p))
          \<and> pipe_contents p' = drop (unat count) (pipe_contents p)))"
proof
  obtain rest p' where f: "fill src p = (rest, p')" by fastforce
  note q = fill_queue [OF assms f]
  have "pipe_write src p = ((if rest = [] then Some [] else if read_open p then Some rest else None), p')"
    using f fill_ends [OF f] by (simp add: pipe_write_def)
  then show "case pipe_write src p of (r, p') \<Rightarrow>
      pipe_inv p' \<and> (\<exists>sent rest. src = sent @ rest \<and> pipe_contents p' = pipe_contents p @ sent
        \<and> (rest \<noteq> [] \<longrightarrow> length (pipe_contents p') = 4096)
        \<and> r = (if rest = [] then Some [] else if read_open p then Some rest else None))"
    using q by (simp only: prod.case length_pipe_contents) blast
next
  have e: "pcount p = 0 \<longleftrightarrow> pipe_contents p = []"
    by (metis length_0_conv length_pipe_contents unat_eq_0)
  obtain bs p' where d: "drain (unat count) p = (bs, p')" by fastforce
  show "case pipe_read count p of (r, p') \<Rightarrow>
      pipe_inv p' \<and> (if pipe_contents p = [] \<and> write_open p then r = Blocked \<and> p' = p
        else r = Done (take (unat count) (pipe_contents p))
          \<and> pipe_contents p' = drop (unat count) (pipe_contents p))"
    using drain_queue [OF assms d] assms d e by (auto simp: pipe_read_def)
qed

definition demo_pipe :: pipe where
  "demo_pipe = \<lparr>pbuf = replicate 4096 0, read_pos = 4095, write_pos = 4095, pcount = 0,
     read_open = True, write_open = True\<rparr>"

lemma demo_pipe: "pipe_inv demo_pipe" "pipe_contents demo_pipe = []"
  by (simp_all add: demo_pipe_def pipe_inv_def pipe_contents_def)

theorem pipe_is_fifo_witness:
  "\<exists>p'. pipe_write [1, 2, 3] demo_pipe = (Some [], p') \<and> pipe_contents p' = [1, 2, 3]"
proof -
  obtain r p' where w: "pipe_write [1, 2, 3] demo_pipe = (r, p')" by fastforce
  obtain d rest where d: "[1, 2, 3] = d @ rest" "pipe_contents p' = d"
    "rest \<noteq> [] \<longrightarrow> length (pipe_contents p') = 4096" "r = (if rest = [] then Some [] else Some rest)"
    using pipe_is_fifo [OF demo_pipe(1), of "[1, 2, 3]" 0, unfolded w] demo_pipe
    by (auto simp: demo_pipe_def)
  have "length d \<le> 3" using arg_cong [OF d(1), of length] by simp
  then have "rest = []" using d(2,3) by auto
  then show ?thesis using d w by auto
qed

end
