(* ===== verification/Fd.thy ===== *)
theory Fd
  imports Uart Pipe Fat16
begin

text \<open>
  File descriptors, \<^verbatim>\<open>src/fd.c\<close>: per-process tables of 16 pointers into a store of shared
  \<open>open_file\<close> objects and pipes with reference counts. The heap is seen as its client sees it:
  an allocating operation takes the pointers \<open>kzalloc\<close> returned (0 is NULL) as arguments, and
  \<open>kfree\<close> removes the object from the store. Using a pointer to no object is \<open>None\<close>.
\<close>

section \<open>State\<close>

datatype fd_type = FD_TYPE_NONE | FD_TYPE_CONSOLE | FD_TYPE_FILE | FD_TYPE_PIPE

text \<open>A pointer to an \<open>open_file\<close>: the static console object or a heap block.\<close>

datatype file_ref = Console | Obj u64

record open_file =
  ftype :: fd_type
  fflags :: int
  ref_count :: int
  f_first_cluster :: u16
  f_file_size :: u32
  f_position :: u32
  f_current_cluster :: u16
  fpipe :: u64

definition O_RDONLY :: int where "O_RDONLY = 0"
definition O_WRONLY :: int where "O_WRONLY = 1"
definition O_RDWR :: int where "O_RDWR = 2"
definition MAX_FDS_PER_TASK :: nat where "MAX_FDS_PER_TASK = 16"

type_synonym fd_table = "file_ref option list"

record fdsys =
  files :: "file_ref \<rightharpoonup> open_file"
  pipes :: "u64 \<rightharpoonup> pipe"

definition zero_file :: open_file where
  "zero_file = \<lparr>ftype = FD_TYPE_NONE, fflags = 0, ref_count = 0, f_first_cluster = 0, f_file_size = 0,
     f_position = 0, f_current_cluster = 0, fpipe = 0\<rparr>"

definition console_file :: open_file where
  "console_file = zero_file\<lparr>ftype := FD_TYPE_CONSOLE, fflags := O_RDWR\<rparr>"

definition zero_pipe :: pipe where
  "zero_pipe = \<lparr>pbuf = replicate 4096 0, read_pos = 0, write_pos = 0, pcount = 0,
     read_open = False, write_open = False\<rparr>"

definition fd_boot :: fdsys where
  "fd_boot = \<lparr>files = [Console \<mapsto> console_file], pipes = Map.empty\<rparr>"

section \<open>Tables\<close>

definition put_file :: "file_ref \<Rightarrow> open_file \<Rightarrow> fdsys \<Rightarrow> fdsys" where
  "put_file r f s = s\<lparr>files := (files s)(r \<mapsto> f)\<rparr>"

definition put_pipe :: "u64 \<Rightarrow> pipe \<Rightarrow> fdsys \<Rightarrow> fdsys" where
  "put_pipe a p s = s\<lparr>pipes := (pipes s)(a \<mapsto> p)\<rparr>"

definition kfree_pipe :: "u64 \<Rightarrow> fdsys \<Rightarrow> fdsys" where
  "kfree_pipe a s = s\<lparr>pipes := (pipes s)(a := None)\<rparr>"

definition free_file :: "file_ref \<Rightarrow> fdsys \<Rightarrow> fdsys" where
  "free_file r s = (if r \<noteq> Console then s\<lparr>files := (files s)(r := None)\<rparr> else s)"

text \<open>\<open>alloc_file\<close>: a zeroed object at the address \<open>kzalloc\<close> gave.\<close>

definition alloc_file :: "u64 \<Rightarrow> fdsys \<Rightarrow> fdsys" where
  "alloc_file new s = (if new \<noteq> 0 then put_file (Obj new) zero_file s else s)"

fun find_free_from :: "nat \<Rightarrow> fd_table \<Rightarrow> int" where
  "find_free_from i [] = -1"
| "find_free_from i (x # xs) = (if x = None then int i else find_free_from (Suc i) xs)"

definition find_free_fd :: "fd_table \<Rightarrow> int" where
  "find_free_fd fdt = find_free_from 0 fdt"

definition add_ref :: "int \<Rightarrow> file_ref \<Rightarrow> fdsys \<Rightarrow> fdsys option" where
  "add_ref k r s = map_option (\<lambda>f. put_file r (f\<lparr>ref_count := ref_count f + k\<rparr>) s) (files s r)"

definition fd_table_init :: "fdsys \<Rightarrow> (fd_table \<times> fdsys) option" where
  "fd_table_init s = map_option (\<lambda>s.
     ((replicate MAX_FDS_PER_TASK None)[0 := Some Console, 1 := Some Console, 2 := Some Console], s))
     (add_ref 3 Console s)"

text \<open>The valid descriptor numbers that are open: the guard at the head of every operation.\<close>

definition fd_valid :: "fd_table \<Rightarrow> int \<Rightarrow> bool" where
  "fd_valid fdt fd \<longleftrightarrow> \<not> (fd < 0 \<or> fd \<ge> int MAX_FDS_PER_TASK \<or> fdt ! nat fd = None)"

text \<open>Closing the end of the pipe that the last reference to \<open>f\<close> kept open.\<close>

definition close_pipe_end :: "file_ref \<Rightarrow> open_file \<Rightarrow> fdsys \<Rightarrow> fdsys option" where
  "close_pipe_end r f s =
     (case pipes s (fpipe f) of
        None \<Rightarrow> None
      | Some p \<Rightarrow>
          let p = (if fflags f = O_RDONLY then p\<lparr>read_open := False\<rparr>
                   else if fflags f = O_WRONLY then p\<lparr>write_open := False\<rparr> else p);
              s = put_pipe (fpipe f) p s
          in Some (if \<not> read_open p \<and> \<not> write_open p
                   then put_file r (f\<lparr>fpipe := 0\<rparr>) (kfree_pipe (fpipe f) s) else s))"

definition fd_close :: "fd_table \<Rightarrow> int \<Rightarrow> fdsys \<Rightarrow> (int \<times> fd_table \<times> fdsys) option" where
  "fd_close fdt fd s =
     (if \<not> fd_valid fdt fd then Some (-1, fdt, s)
      else
        let r = the (fdt ! nat fd); fdt = fdt[nat fd := None]
        in case files s r of
          None \<Rightarrow> None
        | Some f \<Rightarrow>
            let f = f\<lparr>ref_count := ref_count f - 1\<rparr>; s = put_file r f s
            in case (if ftype f = FD_TYPE_PIPE \<and> fpipe f \<noteq> 0 \<and> ref_count f \<le> 0
                     then close_pipe_end r f s else Some s) of
              None \<Rightarrow> None
            | Some s \<Rightarrow> Some (0, fdt, if ref_count f \<le> 0 \<and> r \<noteq> Console then free_file r s else s))"

fun destroy_from :: "nat \<Rightarrow> nat \<Rightarrow> fd_table \<Rightarrow> fdsys \<Rightarrow> (fd_table \<times> fdsys) option" where
  "destroy_from i 0 fdt s = Some (fdt, s)"
| "destroy_from i (Suc n) fdt s =
     (if fdt ! i \<noteq> None then
        case fd_close fdt (int i) s of
          None \<Rightarrow> None
        | Some (_, fdt, s) \<Rightarrow> destroy_from (Suc i) n fdt s
      else destroy_from (Suc i) n fdt s)"

definition fd_table_destroy :: "fd_table \<Rightarrow> fdsys \<Rightarrow> (fd_table \<times> fdsys) option" where
  "fd_table_destroy fdt s = destroy_from 0 MAX_FDS_PER_TASK fdt s"

text \<open>\<open>fd_table_dup\<close>: the new table is the list of pointers copied so far.\<close>

fun fd_table_dup :: "fd_table \<Rightarrow> fdsys \<Rightarrow> (fd_table \<times> fdsys) option" where
  "fd_table_dup [] s = Some ([], s)"
| "fd_table_dup (x # src) s =
     (case (case x of None \<Rightarrow> Some s | Some r \<Rightarrow> add_ref 1 r s) of
        None \<Rightarrow> None
      | Some s \<Rightarrow> map_option (\<lambda>(dst, s). (x # dst, s)) (fd_table_dup src s))"

text \<open>\<open>opened\<close> is the result of \<open>fat16_open\<close> on the path.\<close>

definition fd_open :: "fd_table \<Rightarrow> fat16_file option \<Rightarrow> int \<Rightarrow> u64 \<Rightarrow> fdsys \<Rightarrow> int \<times> fd_table \<times> fdsys" where
  "fd_open fdt opened flags new s =
     (let fd = find_free_fd fdt
      in if fd < 0 then (-1, fdt, s)
         else case opened of
           None \<Rightarrow> (-1, fdt, s)
         | Some fat \<Rightarrow>
             if new = 0 then (-1, fdt, s)
             else (fd, fdt[nat fd := Some (Obj new)],
               put_file (Obj new) (zero_file\<lparr>ftype := FD_TYPE_FILE, fflags := flags, ref_count := 1,
                 f_first_cluster := ff_first_cluster fat, f_file_size := ff_file_size fat, f_position := 0,
                 f_current_cluster := ff_first_cluster fat\<rparr>) (alloc_file new s)))"

definition fd_pipe :: "fd_table \<Rightarrow> u64 \<Rightarrow> u64 \<Rightarrow> u64 \<Rightarrow> fdsys
    \<Rightarrow> int \<times> (int \<times> int) option \<times> fd_table \<times> fdsys" where
  "fd_pipe fdt p rnew wnew s =
     (let rfd = find_free_fd fdt
      in if rfd < 0 then (-1, None, fdt, s)
         else
           let wfd = find_free_fd (fdt[nat rfd := Some (Obj 0)])
           in if wfd < 0 then (-1, None, fdt, s)
              else if p = 0 then (-1, None, fdt, s)
              else
                let s = put_pipe p (zero_pipe\<lparr>read_open := True, write_open := True\<rparr>) s
                in if rnew = 0 then (-1, None, fdt, kfree_pipe p s)
                   else
                     let s = put_file (Obj rnew) (zero_file\<lparr>ftype := FD_TYPE_PIPE, fflags := O_RDONLY,
                               ref_count := 1, fpipe := p\<rparr>) (alloc_file rnew s)
                     in if wnew = 0 then (-1, None, fdt, free_file (Obj rnew) (kfree_pipe p s))
                        else
                          let s = put_file (Obj wnew) (zero_file\<lparr>ftype := FD_TYPE_PIPE, fflags := O_WRONLY,
                                    ref_count := 1, fpipe := p\<rparr>) (alloc_file wnew s)
                          in (0, Some (rfd, wfd),
                              fdt[nat rfd := Some (Obj rnew), nat wfd := Some (Obj wnew)], s))"

text \<open>\<open>fd_dup2\<close>: the pointer copied at the end is read from the table after the close.\<close>

definition fd_dup2 :: "fd_table \<Rightarrow> int \<Rightarrow> int \<Rightarrow> fdsys \<Rightarrow> (int \<times> fd_table \<times> fdsys) option" where
  "fd_dup2 fdt oldfd newfd s =
     (if \<not> fd_valid fdt oldfd then Some (-1, fdt, s)
      else if newfd < 0 \<or> newfd \<ge> int MAX_FDS_PER_TASK then Some (-1, fdt, s)
      else
        case (if fdt ! nat newfd \<noteq> None then map_option snd (fd_close fdt newfd s) else Some (fdt, s)) of
          None \<Rightarrow> None
        | Some (fdt, s) \<Rightarrow>
            let fdt = fdt[nat newfd := fdt ! nat oldfd]
            in case fdt ! nat newfd of
                 None \<Rightarrow> None
               | Some r \<Rightarrow> map_option (\<lambda>s. (newfd, fdt, s)) (add_ref 1 r s))"

section \<open>Reading and writing\<close>

text \<open>
  The console line editor: buffer index, buffer, echo and remaining input; \<open>None\<close> while the
  input is used up and the line is not finished. \<open>count - 1\<close> is a 32-bit difference.
\<close>

fun console_read :: "u32 \<Rightarrow> u32 \<Rightarrow> (u32 \<Rightarrow> u8) \<Rightarrow> u8 list \<Rightarrow> u8 list
    \<Rightarrow> (u32 \<times> (u32 \<Rightarrow> u8) \<times> u8 list \<times> u8 list) option" where
  "console_read count i buf echo [] =
     (if i < count - 1 then None else Some (i, buf, echo, []))"
| "console_read count i buf echo (c # inp) =
     (if i < count - 1 then
        if c = 0x0D \<or> c = 0x0A then Some (i + 1, buf(i := 0x0A), echo @ [0x0D, 0x0A], inp)
        else if c = 127 \<or> c = 8 then
          if i > 0 then console_read count (i - 1) buf (echo @ [8, 0x20, 8]) inp
          else console_read count i buf echo inp
        else if c \<ge> 32 \<and> c < 127 then console_read count (i + 1) (buf(i := c)) (echo @ [c]) inp
        else console_read count i buf echo inp
      else Some (i, buf, echo, c # inp))"

text \<open>
  The file branch of \<open>fd_read\<close>: \<open>Inl\<close> for a read that never ends. \<open>got_mem\<close> says whether
  \<open>kmalloc\<close> gave the temporary buffer and \<open>junk\<close> is what it held.
\<close>

definition file_read :: "disk \<Rightarrow> fat16_fs \<Rightarrow> bool \<Rightarrow> (u32 \<Rightarrow> u8) \<Rightarrow> open_file \<Rightarrow> (u32 \<Rightarrow> u8) \<Rightarrow> u32
    \<Rightarrow> (int \<times> (u32 \<Rightarrow> u8) \<times> open_file) option" where
  "file_read blk fs got_mem junk f dst count =
     (if f_position f \<ge> f_file_size f then Some (0, dst, f)
      else
        let remaining = f_file_size f - f_position f;
            count = (if count > remaining then remaining else count);
            tmp = \<lparr>ff_first_cluster = f_first_cluster f, ff_file_size = f_file_size f,
                   ff_position = f_position f, ff_current_cluster = f_first_cluster f\<rparr>
        in case fat16_read_file blk fs tmp dst (f_position f + count) of
          None \<Rightarrow> None
        | Some (bytes, dst) \<Rightarrow>
            if bytes < 0 then Some (-1, dst, f)
            else if (of_int bytes :: u32) > f_position f then
              if f_position f + count = 0 \<or> \<not> got_mem then Some (-1, dst, f)
              else case fat16_read_file blk fs tmp junk (f_position f + count) of
                None \<Rightarrow> None
              | Some (bytes, tmpbuf) \<Rightarrow>
                  if bytes > sint (f_position f) then
                    let actual = of_int bytes - f_position f;
                        actual = (if actual > count then count else actual);
                        dst = fold (\<lambda>j d. d(of_nat j := tmpbuf (f_position f + of_nat j))) [0..<unat actual] dst
                    in Some (sint actual, dst, f\<lparr>f_position := f_position f + actual\<rparr>)
                  else Some (0, dst, f)
            else Some (0, dst, f))"

text \<open>
  One attempt of \<open>fd_read\<close>; \<open>Blocked\<close> when the caller has to give up the CPU (pipe) or is
  still waiting for input (console, nothing consumed).
\<close>

definition fd_read :: "disk \<Rightarrow> fat16_fs \<Rightarrow> bool \<Rightarrow> (u32 \<Rightarrow> u8) \<Rightarrow> fd_table \<Rightarrow> int \<Rightarrow> (u32 \<Rightarrow> u8) \<Rightarrow> u32
    \<Rightarrow> fdsys \<Rightarrow> uart \<Rightarrow> ((int \<times> (u32 \<Rightarrow> u8)) attempt \<times> fdsys \<times> uart) option" where
  "fd_read blk fs got_mem junk fdt fd buf count s u =
     (if \<not> fd_valid fdt fd then Some (Done (-1, buf), s, u)
      else
        let r = the (fdt ! nat fd)
        in case files s r of
          None \<Rightarrow> None
        | Some f \<Rightarrow>
            (case ftype f of
               FD_TYPE_CONSOLE \<Rightarrow>
                 (case console_read count 0 buf [] (rx u) of
                    None \<Rightarrow> Some (Blocked, s, u)
                  | Some (i, buf, echo, inp) \<Rightarrow>
                      Some (Done (sint i, buf), s, u\<lparr>rx := inp, tx := tx u @ echo\<rparr>))
             | FD_TYPE_PIPE \<Rightarrow>
                 (if fpipe f = 0 then Some (Done (-1, buf), s, u)
                  else case pipes s (fpipe f) of
                    None \<Rightarrow> None
                  | Some p \<Rightarrow>
                      (case pipe_read count p of
                         (Blocked, p) \<Rightarrow> Some (Blocked, put_pipe (fpipe f) p s, u)
                       | (Done bs, p) \<Rightarrow>
                           Some (Done (int (length bs),
                                   fold (\<lambda>j b. b(of_nat j := bs ! j)) [0..<length bs] buf),
                                 put_pipe (fpipe f) p s, u)))
             | FD_TYPE_FILE \<Rightarrow>
                 map_option (\<lambda>(n, buf, f). (Done (n, buf), put_file r f s, u))
                   (file_read blk fs got_mem junk f buf count)
             | FD_TYPE_NONE \<Rightarrow> Some (Done (-1, buf), s, u)))"

fun console_write :: "u8 list \<Rightarrow> uart \<Rightarrow> uart" where
  "console_write [] u = u"
| "console_write (c # cs) u =
     console_write cs (uart_putc c (if c = 0x0A then uart_putc 0x0D u else u))"

text \<open>
  One attempt of \<open>fd_write\<close> of the bytes \<open>src\<close> still to write, of \<open>count\<close> in all; \<open>first\<close>: the
  call has just been made, and the read end is looked at before anything is written.
\<close>

datatype write_result = Wrote int | Waiting "u8 list"

definition fd_write :: "bool \<Rightarrow> fd_table \<Rightarrow> int \<Rightarrow> u8 list \<Rightarrow> int \<Rightarrow> fdsys \<Rightarrow> uart
    \<Rightarrow> (write_result \<times> fdsys \<times> uart) option" where
  "fd_write first fdt fd src count s u =
     (if \<not> fd_valid fdt fd then Some (Wrote (-1), s, u)
      else case files s (the (fdt ! nat fd)) of
        None \<Rightarrow> None
      | Some f \<Rightarrow>
          (case ftype f of
             FD_TYPE_CONSOLE \<Rightarrow> Some (Wrote count, s, console_write src u)
           | FD_TYPE_PIPE \<Rightarrow>
               (if fpipe f = 0 then Some (Wrote (-1), s, u)
                else case pipes s (fpipe f) of
                  None \<Rightarrow> None
                | Some p \<Rightarrow>
                    if first \<and> \<not> read_open p then Some (Wrote (-1), s, u)
                    else (case pipe_write src p of
                        (None, p) \<Rightarrow> Some (Wrote (-1), put_pipe (fpipe f) p s, u)
                      | (Some rest, p) \<Rightarrow>
                          Some (if rest = [] then Wrote count else Waiting rest, put_pipe (fpipe f) p s, u)))
           | _ \<Rightarrow> Some (Wrote (-1), s, u)))"

section \<open>Reference counting\<close>

lemma put_file_simps [simp]:
  "files (put_file r f s) = (files s)(r \<mapsto> f)" "pipes (put_file r f s) = pipes s"
  by (simp_all add: put_file_def)

lemma put_pipe_simps [simp]:
  "files (put_pipe a p s) = files s" "pipes (put_pipe a p s) = (pipes s)(a \<mapsto> p)"
  by (simp_all add: put_pipe_def)

lemma kfree_pipe_simps [simp]:
  "files (kfree_pipe a s) = files s" "pipes (kfree_pipe a s) = (pipes s)(a := None)"
  by (simp_all add: kfree_pipe_def)

lemma pipes_free_file [simp]: "pipes (free_file r s) = pipes s"
  by (simp add: free_file_def)

lemma files_free_file: "files (free_file r s) = (if r = Console then files s else (files s)(r := None))"
  by (simp add: free_file_def)

text \<open>
  \<open>refs tabs r\<close>: how many slots of the tables \<open>tabs\<close> point to \<open>r\<close>. The invariant: every object
  in the store is counted exactly and is pointed to (the console apart, which may be unused), no
  slot dangles, every pipe file object is the only one for its end of a live pipe, and a pipe's
  open flags say which ends still have an object.
\<close>

definition refs :: "fd_table list \<Rightarrow> file_ref \<Rightarrow> nat" where
  "refs tabs r = (\<Sum>t \<leftarrow> tabs. length (filter (\<lambda>x. x = Some r) t))"

definition pipe_ends :: "fdsys \<Rightarrow> u64 \<Rightarrow> int \<Rightarrow> file_ref set" where
  "pipe_ends s a fl = {r. \<exists>f. files s r = Some f \<and> ftype f = FD_TYPE_PIPE \<and> fpipe f = a \<and> fflags f = fl}"

definition pipe_ok :: "(int \<Rightarrow> file_ref set) \<Rightarrow> pipe \<Rightarrow> bool" where
  "pipe_ok E p \<longleftrightarrow> pipe_inv p \<and> (read_open p \<or> write_open p)
     \<and> (read_open p \<longleftrightarrow> E O_RDONLY \<noteq> {}) \<and> (write_open p \<longleftrightarrow> E O_WRONLY \<noteq> {})
     \<and> (\<forall>fl. \<forall>r1 \<in> E fl. \<forall>r2 \<in> E fl. r1 = r2)"

definition pipes_ok :: "fdsys \<Rightarrow> bool" where
  "pipes_ok s \<longleftrightarrow>
     (\<forall>r f. files s r = Some f \<longrightarrow> ftype f = FD_TYPE_PIPE \<longrightarrow>
        r \<noteq> Console \<and> fpipe f \<noteq> 0 \<and> fpipe f \<in> dom (pipes s) \<and> (fflags f = O_RDONLY \<or> fflags f = O_WRONLY))
   \<and> (\<forall>a p. pipes s a = Some p \<longrightarrow> pipe_ok (pipe_ends s a) p)"

definition fd_inv :: "fd_table list \<Rightarrow> fdsys \<Rightarrow> bool" where
  "fd_inv tabs s \<longleftrightarrow> (\<forall>t \<in> set tabs. length t = MAX_FDS_PER_TASK)
     \<and> (\<exists>f. files s Console = Some f)
     \<and> (\<forall>r f. files s r = Some f \<longrightarrow> ref_count f = int (refs tabs r) \<and> (r \<noteq> Console \<longrightarrow> 0 < refs tabs r))
     \<and> (\<forall>r. 0 < refs tabs r \<longrightarrow> r \<in> dom (files s))
     \<and> pipes_ok s"

lemma refs_update:
  assumes "k < length tabs" "i < length (tabs ! k)"
  shows "refs (tabs[k := (tabs ! k)[i := v]]) r + (if tabs ! k ! i = Some r then 1 else 0)
    = refs tabs r + (if v = Some r then 1 else 0)"
  using assms
proof (induction tabs arbitrary: k)
  case Nil
  then show ?case by simp
next
  case (Cons t tabs)
  show ?case
  proof (cases k)
    case 0
    then show ?thesis
      using filter_list_update_length [of i t "\<lambda>x. x = Some r" v] Cons.prems by (simp add: refs_def)
  next
    case (Suc m)
    then show ?thesis using Cons.IH [of m] Cons.prems by (simp add: refs_def)
  qed
qed

lemma refs_pos:
  assumes "k < length tabs" "i < length (tabs ! k)" "tabs ! k ! i = Some r"
  shows "0 < refs tabs r"
  using refs_update [OF assms(1,2), of None r] assms(3) by simp

lemma refs_cases:
  assumes "k < length tabs" "i < length (tabs ! k)"
  defines "tabs' \<equiv> tabs[k := (tabs ! k)[i := None]]"
  shows "tabs ! k ! i = Some r \<Longrightarrow> refs tabs r = Suc (refs tabs' r)"
    "tabs ! k ! i \<noteq> Some r \<Longrightarrow> refs tabs' r = refs tabs r"
  using refs_update [OF assms(1,2), of None r] by (simp_all add: tabs'_def)

lemma fd_inv_slot:
  assumes "fd_inv tabs s" "k < length tabs" "fd_valid (tabs ! k) fd"
  obtains r f where "tabs ! k ! nat fd = Some r" "nat fd < length (tabs ! k)" "files s r = Some f"
    "ref_count f = int (refs tabs r)" "0 < refs tabs r" "0 \<le> fd"
proof -
  have len: "length (tabs ! k) = MAX_FDS_PER_TASK" using assms(1,2) by (simp add: fd_inv_def)
  obtain r where r: "tabs ! k ! nat fd = Some r" "nat fd < length (tabs ! k)" "0 \<le> fd"
    using assms(3) len by (auto simp: fd_valid_def MAX_FDS_PER_TASK_def)
  have pos: "0 < refs tabs r" using refs_pos [OF assms(2) r(2,1)] .
  then have "r \<in> dom (files s)" using assms(1) unfolding fd_inv_def by blast
  then obtain f where "files s r = Some f" by blast
  then show ?thesis using that r pos assms(1) by (auto simp: fd_inv_def)
qed

lemma pipes_ok_pipe:
  assumes "pipes_ok s" "files s r = Some f" "ftype f = FD_TYPE_PIPE"
  obtains p where "pipes s (fpipe f) = Some p" "fpipe f \<noteq> 0" "r \<noteq> Console"
    "fflags f = O_RDONLY \<or> fflags f = O_WRONLY" "r \<in> pipe_ends s (fpipe f) (fflags f)"
    "pipe_inv p" "read_open p \<longleftrightarrow> pipe_ends s (fpipe f) O_RDONLY \<noteq> {}"
    "write_open p \<longleftrightarrow> pipe_ends s (fpipe f) O_WRONLY \<noteq> {}"
    "\<forall>fl. \<forall>r1 \<in> pipe_ends s (fpipe f) fl. \<forall>r2 \<in> pipe_ends s (fpipe f) fl. r1 = r2"
proof -
  have f: "r \<noteq> Console \<and> fpipe f \<noteq> 0 \<and> fpipe f \<in> dom (pipes s) \<and> (fflags f = O_RDONLY \<or> fflags f = O_WRONLY)"
    using assms unfolding pipes_ok_def by blast
  then obtain p where p: "pipes s (fpipe f) = Some p" by blast
  then have "pipe_ok (pipe_ends s (fpipe f)) p" using assms(1) unfolding pipes_ok_def by blast
  moreover have "r \<in> pipe_ends s (fpipe f) (fflags f)" using assms(2,3) by (auto simp: pipe_ends_def)
  ultimately show ?thesis using that [OF p] f unfolding pipe_ok_def by blast
qed

lemma pipes_ok_cong:
  assumes "pipes_ok s" "pipes s' = pipes s" "\<And>a. pipe_ends s' a = pipe_ends s a"
    "\<And>r f. \<lbrakk>files s' r = Some f; ftype f = FD_TYPE_PIPE\<rbrakk> \<Longrightarrow>
       \<exists>g. files s r = Some g \<and> ftype g = FD_TYPE_PIPE \<and> fpipe g = fpipe f \<and> fflags g = fflags f"
  shows "pipes_ok s'"
  unfolding pipes_ok_def assms(2,3)
proof (intro conjI allI impI)
  fix r f assume "files s' r = Some f" "ftype f = FD_TYPE_PIPE"
  from assms(4) [OF this] obtain g where g: "files s r = Some g" "ftype g = FD_TYPE_PIPE"
    "fpipe g = fpipe f" "fflags g = fflags f" by blast
  then have "r \<noteq> Console \<and> fpipe g \<noteq> 0 \<and> fpipe g \<in> dom (pipes s) \<and> (fflags g = O_RDONLY \<or> fflags g = O_WRONLY)"
    using assms(1) unfolding pipes_ok_def by blast
  then show "r \<noteq> Console" "fpipe f \<noteq> 0" "fpipe f \<in> dom (pipes s)" "fflags f = O_RDONLY \<or> fflags f = O_WRONLY"
    using g by simp_all
next
  fix a p assume "pipes s a = Some p"
  then show "pipe_ok (pipe_ends s a) p" using assms(1) by (simp add: pipes_ok_def)
qed

text \<open>Changing the count of an object changes nothing about the pipes.\<close>

lemma pipes_ok_count:
  assumes "pipes_ok s" "files s r = Some f"
  shows "pipes_ok (put_file r (f\<lparr>ref_count := n\<rparr>) s)"
  using assms by (intro pipes_ok_cong [OF assms(1)]) (auto simp: pipe_ends_def fun_eq_iff split: if_splits)

text \<open>Removing the last object of an end, with the close of that end.\<close>

lemma pipes_ok_remove:
  assumes "pipes_ok s" "files s r = Some f" "ftype f \<noteq> FD_TYPE_PIPE"
  shows "pipes_ok (free_file r s)"
  using assms by (intro pipes_ok_cong [OF assms(1)]) (auto simp: pipe_ends_def fun_eq_iff files_free_file split: if_splits)

lemma close_end:
  assumes ok: "pipes_ok s" and f: "files s r = Some f" "ftype f = FD_TYPE_PIPE"
  obtains s' where "close_pipe_end r f s = Some s'" "pipes_ok (free_file r s')"
    "files (free_file r s') = (files s)(r := None)"
proof -
  obtain p where p: "pipes s (fpipe f) = Some p" "fpipe f \<noteq> 0" "r \<noteq> Console"
    "fflags f = O_RDONLY \<or> fflags f = O_WRONLY" "r \<in> pipe_ends s (fpipe f) (fflags f)" "pipe_inv p"
    "read_open p \<longleftrightarrow> pipe_ends s (fpipe f) O_RDONLY \<noteq> {}"
    "write_open p \<longleftrightarrow> pipe_ends s (fpipe f) O_WRONLY \<noteq> {}"
    "\<forall>fl. \<forall>r1 \<in> pipe_ends s (fpipe f) fl. \<forall>r2 \<in> pipe_ends s (fpipe f) fl. r1 = r2"
    using pipes_ok_pipe [OF ok f] .
  let ?p = "if fflags f = O_RDONLY then p\<lparr>read_open := False\<rparr>
                   else if fflags f = O_WRONLY then p\<lparr>write_open := False\<rparr> else p"
  let ?closed = "\<not> read_open ?p \<and> \<not> write_open ?p"
  let ?s1 = "put_pipe (fpipe f) ?p s"
  let ?s' = "if ?closed then put_file r (f\<lparr>fpipe := 0\<rparr>) (kfree_pipe (fpipe f) ?s1) else ?s1"
  have c: "close_pipe_end r f s = Some ?s'" using p(1) by (simp add: close_pipe_end_def Let_def)
  have files: "files (free_file r ?s') = (files s)(r := None)"
    using p(3) by (auto simp: free_file_def put_file_def kfree_pipe_def put_pipe_def)
  have pips: "pipes (free_file r ?s') = (pipes s)(fpipe f := if ?closed then None else Some ?p)"
    using p(3) by (auto simp: free_file_def put_file_def kfree_pipe_def put_pipe_def)
  have ends: "pipe_ends (free_file r ?s') a fl = pipe_ends s a fl - {r}" for a fl
    unfolding pipe_ends_def files by auto
  have flags: "fl = fflags f" if "r \<in> pipe_ends s a fl" for a fl
    using that f(1) by (simp add: pipe_ends_def)
  have pipe_of: "a = fpipe f" if "r \<in> pipe_ends s a fl" for a fl
    using that f(1) by (simp add: pipe_ends_def)
  have RW: "O_RDONLY \<noteq> O_WRONLY" by (simp add: O_RDONLY_def O_WRONLY_def)
  have gone: "pipe_ends (free_file r ?s') (fpipe f) (fflags f) = {}"
    unfolding ends using p(5,9) by blast
  have kept: "pipe_ends (free_file r ?s') (fpipe f) fl = pipe_ends s (fpipe f) fl" if "fl \<noteq> fflags f" for fl
    unfolding ends using flags that by blast
  have ro: "read_open ?p \<longleftrightarrow> pipe_ends (free_file r ?s') (fpipe f) O_RDONLY \<noteq> {}"
    using gone kept [of O_RDONLY] p(4,7) RW by (cases "fflags f = O_RDONLY") auto
  have wo: "write_open ?p \<longleftrightarrow> pipe_ends (free_file r ?s') (fpipe f) O_WRONLY \<noteq> {}"
    using gone kept [of O_WRONLY] p(4,8) RW by (cases "fflags f = O_WRONLY") auto
  have "pipes_ok (free_file r ?s')"
    unfolding pipes_ok_def
  proof (intro conjI allI impI)
    fix r' f' assume r': "files (free_file r ?s') r' = Some f'" "ftype f' = FD_TYPE_PIPE"
    then have old: "files s r' = Some f'" "r' \<noteq> r" unfolding files by (auto split: if_splits)
    then have o: "r' \<noteq> Console \<and> fpipe f' \<noteq> 0 \<and> fpipe f' \<in> dom (pipes s) \<and> (fflags f' = O_RDONLY \<or> fflags f' = O_WRONLY)"
      using ok r'(2) unfolding pipes_ok_def by blast
    then show "r' \<noteq> Console" "fpipe f' \<noteq> 0" "fflags f' = O_RDONLY \<or> fflags f' = O_WRONLY" by blast+
    have "\<not> ?closed" if "fpipe f' = fpipe f"
    proof -
      have "r' \<in> pipe_ends (free_file r ?s') (fpipe f) (fflags f')"
        using r' that by (auto simp: pipe_ends_def)
      then show ?thesis using o ro wo by auto
    qed
    then show "fpipe f' \<in> dom (pipes (free_file r ?s'))" using o unfolding pips by auto
  next
    fix a q assume q: "pipes (free_file r ?s') a = Some q"
    show "pipe_ok (pipe_ends (free_file r ?s') a) q"
    proof (cases "a = fpipe f")
      case True
      then have q': "q = ?p" "\<not> ?closed" using q unfolding pips by (auto split: if_splits)
      have "pipe_inv ?p" using p(6) by (simp add: pipe_inv_def)
      moreover have "\<forall>fl. \<forall>r1 \<in> pipe_ends (free_file r ?s') (fpipe f) fl. \<forall>r2 \<in> pipe_ends (free_file r ?s') (fpipe f) fl. r1 = r2"
        using p(9) unfolding ends by blast
      ultimately show ?thesis using q'(2) ro wo unfolding pipe_ok_def q'(1) True by blast
    next
      case False
      then have "pipes s a = Some q" using q unfolding pips by simp
      moreover have "pipe_ends (free_file r ?s') a = pipe_ends s a"
        using ends pipe_of False by (intro ext) blast
      ultimately show ?thesis using ok unfolding pipes_ok_def by simp
    qed
  qed
  then show ?thesis using that c files by blast
qed

text \<open>
  The tables after an operation on table \<open>k\<close>.
\<close>

lemma fd_close_inv:
  assumes inv: "fd_inv tabs s" and k: "k < length tabs"
  obtains r t s' where "fd_close (tabs ! k) fd s = Some (r, t, s')" "fd_inv (tabs[k := t]) s'"
    "r = (if fd_valid (tabs ! k) fd then 0 else -1)"
    "t = (if fd_valid (tabs ! k) fd then (tabs ! k)[nat fd := None] else tabs ! k)"
proof (cases "fd_valid (tabs ! k) fd")
  case False
  then show ?thesis using that [of "-1" "tabs ! k" s] inv by (simp add: fd_close_def)
next
  case True
  obtain r f where r: "tabs ! k ! nat fd = Some r" "nat fd < length (tabs ! k)" "files s r = Some f"
    "ref_count f = int (refs tabs r)" "0 < refs tabs r"
    using fd_inv_slot [OF inv k True] by metis
  let ?t = "(tabs ! k)[nat fd := None]" and ?f = "f\<lparr>ref_count := ref_count f - 1\<rparr>"
  let ?tabs = "tabs[k := ?t]" and ?s1 = "put_file r ?f s"
  have same: "refs ?tabs r' = refs tabs r'" if "r' \<noteq> r" for r'
    using refs_cases(2) [OF k r(2)] r(1) that by simp
  have less: "refs tabs r = Suc (refs ?tabs r)" using refs_cases(1) [OF k r(2,1)] .
  have len: "\<forall>t \<in> set ?tabs. length t = MAX_FDS_PER_TASK"
    using set_update_subset_insert [of tabs k ?t] inv k nth_mem [OF k] by (auto simp: fd_inv_def)
  have ok: "pipes_ok s" using inv by (simp add: fd_inv_def)
  have ok1: "pipes_ok ?s1" using pipes_ok_count [OF ok r(3)] .
  have f1: "files ?s1 r = Some ?f" by (simp add: put_file_def)
  have cnt: "ref_count ?f = int (refs ?tabs r)" using r(4) less by simp
  have con: "\<exists>f. files s Console = Some f" using inv by (simp add: fd_inv_def)
  show ?thesis
  proof (cases "ref_count ?f \<le> 0 \<and> r \<noteq> Console")
    case False
    have np: "\<not> (ftype ?f = FD_TYPE_PIPE \<and> fpipe ?f \<noteq> 0 \<and> ref_count ?f \<le> 0)"
      using False pipes_ok_pipe [OF ok r(3)] by auto
    have "fd_inv ?tabs ?s1"
      unfolding fd_inv_def
    proof (intro conjI len ok1 allI impI)
      show "\<exists>f. files ?s1 Console = Some f" using con by (auto simp: put_file_def)
      fix r' f' assume f': "files ?s1 r' = Some f'"
      show "ref_count f' = int (refs ?tabs r')"
        using f' inv cnt same by (auto simp: put_file_def fd_inv_def split: if_splits)
      show "0 < refs ?tabs r'" if "r' \<noteq> Console"
        using that f' inv cnt same False by (auto simp: put_file_def fd_inv_def split: if_splits)
    next
      fix r' assume "0 < refs ?tabs r'"
      then have "r' = r \<or> r' \<in> dom (files s)" using inv same unfolding fd_inv_def by metis
      then show "r' \<in> dom (files ?s1)" by auto
    qed
    moreover have "fd_close (tabs ! k) fd s = Some (0, ?t, ?s1)"
      using True r(1,3) np False by (auto simp: fd_close_def Let_def)
    ultimately show ?thesis using that True by simp
  next
    case last: True
    then have zero: "refs ?tabs r = 0" using cnt by simp
    obtain s2 where s2: "(if ftype ?f = FD_TYPE_PIPE \<and> fpipe ?f \<noteq> 0 \<and> ref_count ?f \<le> 0
                     then close_pipe_end r ?f ?s1 else Some ?s1) = Some s2"
      "pipes_ok (free_file r s2)" "files (free_file r s2) = (files ?s1)(r := None)"
    proof (cases "ftype f = FD_TYPE_PIPE")
      case True
      then have "fpipe f \<noteq> 0" using pipes_ok_pipe [OF ok r(3)] by metis
      then show ?thesis using that close_end [OF ok1 f1] True last by auto
    next
      case False
      then show ?thesis using that [of ?s1] pipes_ok_remove [OF ok1 f1] last by (simp add: free_file_def)
    qed
    have "fd_inv ?tabs (free_file r s2)"
      unfolding fd_inv_def s2(3)
    proof (intro conjI len s2(2) allI impI)
      show "\<exists>f. ((files ?s1)(r := None)) Console = Some f" using con last by (auto simp: put_file_def)
      fix r' f' assume f': "((files ?s1)(r := None)) r' = Some f'"
      show "ref_count f' = int (refs ?tabs r')"
        using f' inv same by (auto simp: put_file_def fd_inv_def split: if_splits)
      show "0 < refs ?tabs r'" if "r' \<noteq> Console"
        using that f' inv same by (auto simp: put_file_def fd_inv_def split: if_splits)
    next
      fix r' assume pos: "0 < refs ?tabs r'"
      then have "r' \<noteq> r" using zero by auto
      then have "r' \<in> dom (files s)" using pos inv same unfolding fd_inv_def by metis
      then show "r' \<in> dom ((files ?s1)(r := None))" using \<open>r' \<noteq> r\<close> by auto
    qed
    moreover have "fd_close (tabs ! k) fd s = Some (0, ?t, free_file r s2)"
      using True r(1,3) s2(1) last by (auto simp: fd_close_def Let_def)
    ultimately show ?thesis using that True by simp
  qed
qed

section \<open>The other operations keep the invariant\<close>

lemma fd_invI:
  assumes "\<And>t. t \<in> set tabs \<Longrightarrow> length t = MAX_FDS_PER_TASK" "Console \<in> dom (files s)"
    "\<And>r f. files s r = Some f \<Longrightarrow> ref_count f = int (refs tabs r) \<and> (r \<noteq> Console \<longrightarrow> 0 < refs tabs r)"
    "\<And>r. 0 < refs tabs r \<Longrightarrow> r \<in> dom (files s)" "pipes_ok s"
  shows "fd_inv tabs s"
  using assms by (auto simp: fd_inv_def)

lemma fd_inv_tables:
  assumes "fd_inv tabs s" "k < length tabs"
  shows "length (tabs ! k) = MAX_FDS_PER_TASK" "t \<in> set (tabs[k := (tabs ! k)[i := v]]) \<Longrightarrow> length t = MAX_FDS_PER_TASK"
proof -
  show l: "length (tabs ! k) = MAX_FDS_PER_TASK" using assms by (simp add: fd_inv_def)
  assume "t \<in> set (tabs[k := (tabs ! k)[i := v]])"
  then have "t = (tabs ! k)[i := v] \<or> t \<in> set tabs" using set_update_subset_insert by fastforce
  then show "length t = MAX_FDS_PER_TASK" using l assms(1) by (auto simp: fd_inv_def)
qed

text \<open>Filling an empty slot with one more reference to a live object.\<close>

lemma add_ref_inv:
  assumes inv: "fd_inv tabs s" and k: "k < length tabs" and i: "i < length (tabs ! k)" "tabs ! k ! i = None"
    and f: "files s r = Some f"
  shows "fd_inv (tabs[k := (tabs ! k)[i := Some r]]) (put_file r (f\<lparr>ref_count := ref_count f + 1\<rparr>) s)"
    (is "fd_inv ?tabs ?s")
proof (rule fd_invI)
  have n: "refs ?tabs r' = refs tabs r' + (if r' = r then 1 else 0)" for r'
    using refs_update [OF k i(1), of "Some r" r'] i(2) by auto
  show "length t = MAX_FDS_PER_TASK" if "t \<in> set ?tabs" for t using fd_inv_tables(2) [OF inv k that] .
  show "Console \<in> dom (files ?s)" using inv by (auto simp: fd_inv_def)
  show "pipes_ok ?s" using inv f by (intro pipes_ok_count) (simp_all add: fd_inv_def)
  fix r'
  show "ref_count f' = int (refs ?tabs r') \<and> (r' \<noteq> Console \<longrightarrow> 0 < refs ?tabs r')" if "files ?s r' = Some f'" for f'
    using that inv f unfolding n by (auto simp: fd_inv_def split: if_splits)
  show "r' \<in> dom (files ?s)" if "0 < refs ?tabs r'"
    using that inv unfolding n fd_inv_def by (auto split: if_splits simp del: domIff)
qed

lemma fd_dup2_inv:
  assumes inv: "fd_inv tabs s" and k: "k < length tabs" and ne: "oldfd \<noteq> newfd"
  obtains r t s' where "fd_dup2 (tabs ! k) oldfd newfd s = Some (r, t, s')" "fd_inv (tabs[k := t]) s'"
    "r = (if fd_valid (tabs ! k) oldfd \<and> 0 \<le> newfd \<and> newfd < int MAX_FDS_PER_TASK then newfd else -1)"
    "t = (if r = -1 then tabs ! k else (tabs ! k)[nat newfd := tabs ! k ! nat oldfd])"
proof (cases "fd_valid (tabs ! k) oldfd \<and> 0 \<le> newfd \<and> newfd < int MAX_FDS_PER_TASK")
  case False
  then show ?thesis using that [of "-1" "tabs ! k" s] inv by (auto simp: fd_dup2_def)
next
  case True
  have len: "length (tabs ! k) = MAX_FDS_PER_TASK" using fd_inv_tables [OF inv k] by simp
  obtain r0 where r0: "tabs ! k ! nat oldfd = Some r0" "nat oldfd < length (tabs ! k)" "0 \<le> oldfd"
    using fd_inv_slot [OF inv k] True by metis
  have nn: "nat oldfd \<noteq> nat newfd" using ne r0(3) True by auto
  obtain t s1 where c: "(if tabs ! k ! nat newfd \<noteq> None then map_option snd (fd_close (tabs ! k) newfd s)
      else Some (tabs ! k, s)) = Some (t, s1)" "fd_inv (tabs[k := t]) s1" "t = (tabs ! k)[nat newfd := None]"
  proof (cases "tabs ! k ! nat newfd = None")
    case True
    then have "(tabs ! k)[nat newfd := None] = tabs ! k" by (metis list_update_id)
    then show ?thesis using that True inv by simp
  next
    case False
    then have "fd_valid (tabs ! k) newfd" using True by (simp add: fd_valid_def)
    then show ?thesis using fd_close_inv [OF inv k, of newfd] that False by auto
  qed
  have k': "k < length (tabs[k := t])" using k by simp
  have t: "tabs[k := t] ! k = t" using k by simp
  have slots: "t ! nat oldfd = Some r0" "t ! nat newfd = None" "nat newfd < length t" "nat oldfd < length t"
    using c(3) r0 nn len True by (auto simp: nth_list_update)
  have "0 < refs (tabs[k := t]) r0" using refs_pos [OF k'] slots(1,4) t by simp
  then have "r0 \<in> dom (files s1)" using c(2) unfolding fd_inv_def by blast
  then obtain f where f: "files s1 r0 = Some f" by blast
  let ?s = "put_file r0 (f\<lparr>ref_count := ref_count f + 1\<rparr>) s1"
  have "fd_inv (tabs[k := t[nat newfd := Some r0]]) ?s"
    using add_ref_inv [OF c(2) k' _ _ f, unfolded t, OF slots(3,2)] by simp
  moreover have "fd_dup2 (tabs ! k) oldfd newfd s = Some (newfd, t[nat newfd := Some r0], ?s)"
    using True c(1) slots f by (simp add: fd_dup2_def Let_def add_ref_def)
  moreover have "t[nat newfd := Some r0] = (tabs ! k)[nat newfd := tabs ! k ! nat oldfd]"
    using c(3) r0(1) by simp
  ultimately show ?thesis using that [of newfd] True by auto
qed

lemma find_free_from:
  "(find_free_from i xs = -1 \<and> None \<notin> set xs)
    \<or> (\<exists>j < length xs. find_free_from i xs = int (i + j) \<and> xs ! j = None \<and> (\<forall>m < j. xs ! m \<noteq> None))"
proof (induction i xs rule: find_free_from.induct)
  case (1 i)
  then show ?case by simp
next
  case (2 i x xs)
  show ?case
  proof (cases "x = None")
    case True
    then show ?thesis by (auto intro!: exI [of _ 0])
  next
    case False
    from "2.IH" [OF False] show ?thesis
    proof (elim disjE exE conjE)
      fix j assume "j < length xs" "find_free_from (Suc i) xs = int (Suc i + j)" "xs ! j = None"
        "\<forall>m < j. xs ! m \<noteq> None"
      then show ?thesis using False by (intro disjI2 exI [of _ "Suc j"]) (auto simp: less_Suc_eq_0_disj)
    qed (use False in auto)
  qed
qed

lemma find_free_fd_cases:
  obtains (full) "find_free_fd fdt = -1" "None \<notin> set fdt"
  | (free) j where "j < length fdt" "find_free_fd fdt = int j" "fdt ! j = None" "\<forall>m < j. fdt ! m \<noteq> None"
  using find_free_from [of 0 fdt] by (auto simp: find_free_fd_def)

text \<open>A new object in an empty slot.\<close>

lemma new_file_inv:
  assumes inv: "fd_inv tabs s" and k: "k < length tabs" and i: "i < length (tabs ! k)" "tabs ! k ! i = None"
    and r: "r \<notin> dom (files s)" and f: "ref_count f = 1" and s': "files s' = (files s)(r \<mapsto> f)" "pipes_ok s'"
  shows "fd_inv (tabs[k := (tabs ! k)[i := Some r]]) s'" (is "fd_inv ?tabs _")
proof (rule fd_invI)
  have n: "refs ?tabs r' = refs tabs r' + (if r' = r then 1 else 0)" for r'
    using refs_update [OF k i(1), of "Some r" r'] i(2) by auto
  have z: "refs tabs r = 0" using inv r unfolding fd_inv_def by blast
  show "length t = MAX_FDS_PER_TASK" if "t \<in> set ?tabs" for t using fd_inv_tables(2) [OF inv k that] .
  show "Console \<in> dom (files s')" using inv by (auto simp: fd_inv_def s')
  show "pipes_ok s'" by fact
  fix r'
  show "ref_count f' = int (refs ?tabs r') \<and> (r' \<noteq> Console \<longrightarrow> 0 < refs ?tabs r')" if "files s' r' = Some f'" for f'
    using that inv f z unfolding n s'(1) by (auto simp: fd_inv_def split: if_splits)
  show "r' \<in> dom (files s')" if "0 < refs ?tabs r'"
    using that inv unfolding n s'(1) fd_inv_def by (auto split: if_splits simp del: domIff)
qed

lemma pipes_ok_new:
  assumes ok: "pipes_ok s" and new: "r \<notin> dom (files s)" and s': "files s' = (files s)(r \<mapsto> f)"
    and f: "ftype f \<noteq> FD_TYPE_PIPE" and pp: "pipes s' = pipes s"
  shows "pipes_ok s'"
proof (rule pipes_ok_cong [OF ok pp])
  fix a
  show "pipe_ends s' a = pipe_ends s a"
  proof (intro ext set_eqI)
    fix fl x
    show "x \<in> pipe_ends s' a fl \<longleftrightarrow> x \<in> pipe_ends s a fl"
      using new f by (cases "x = r") (auto simp: pipe_ends_def s' domIff)
  qed
next
  fix x g assume "files s' x = Some g" "ftype g = FD_TYPE_PIPE"
  then show "\<exists>h. files s x = Some h \<and> ftype h = FD_TYPE_PIPE \<and> fpipe h = fpipe g \<and> fflags h = fflags g"
    using f by (auto simp: s' split: if_splits)
qed

lemma fd_open_inv:
  assumes inv: "fd_inv tabs s" and k: "k < length tabs" and new: "Obj new \<notin> dom (files s)"
    and o: "fd_open (tabs ! k) opened flags new s = (r, t, s')"
  shows "fd_inv (tabs[k := t]) s'"
    "r = -1 \<and> t = tabs ! k \<and> s' = s \<or>
     0 \<le> r \<and> nat r < MAX_FDS_PER_TASK \<and> tabs ! k ! nat r = None \<and> t = (tabs ! k)[nat r := Some (Obj new)]"
proof -
  have len: "length (tabs ! k) = MAX_FDS_PER_TASK" using fd_inv_tables [OF inv k] by simp
  have "fd_inv (tabs[k := t]) s' \<and> (r = -1 \<and> t = tabs ! k \<and> s' = s \<or>
     0 \<le> r \<and> nat r < MAX_FDS_PER_TASK \<and> tabs ! k ! nat r = None \<and> t = (tabs ! k)[nat r := Some (Obj new)])"
  proof (cases rule: find_free_fd_cases [of "tabs ! k"])
    case full
    then have "r = -1 \<and> t = tabs ! k \<and> s' = s" using o by (auto simp: fd_open_def)
    then show ?thesis using inv by simp
  next
    case (free j)
    show ?thesis
    proof (cases "opened = None \<or> new = 0")
      case True
      then have "r = -1 \<and> t = tabs ! k \<and> s' = s" using o free by (cases opened) (auto simp: fd_open_def)
      then show ?thesis using inv by simp
    next
      case False
      then obtain fat where fat: "opened = Some fat" "new \<noteq> 0" by auto
      let ?f = "zero_file\<lparr>ftype := FD_TYPE_FILE, fflags := flags, ref_count := 1,
                 f_first_cluster := ff_first_cluster fat, f_file_size := ff_file_size fat, f_position := 0,
                 f_current_cluster := ff_first_cluster fat\<rparr>"
      have e: "r = int j" "t = (tabs ! k)[j := Some (Obj new)]" "s' = put_file (Obj new) ?f (alloc_file new s)"
        using o free(2) fat by (simp_all add: fd_open_def)
      have fl: "files s' = (files s)(Obj new \<mapsto> ?f)" "pipes s' = pipes s"
        by (simp_all add: e(3) alloc_file_def fat)
      have ok: "pipes_ok s'"
        using inv by (intro pipes_ok_new [OF _ new fl(1) _ fl(2)]) (simp_all add: fd_inv_def)
      have "fd_inv (tabs[k := t]) s'"
        unfolding e(2) by (rule new_file_inv [OF inv k free(1,3) new _ fl(1) ok]) simp
      then show ?thesis using e free len by simp
    qed
  qed
  then show "fd_inv (tabs[k := t]) s'"
    "r = -1 \<and> t = tabs ! k \<and> s' = s \<or>
     0 \<le> r \<and> nat r < MAX_FDS_PER_TASK \<and> tabs ! k ! nat r = None \<and> t = (tabs ! k)[nat r := Some (Obj new)]"
    by blast+
qed

lemma fd_pipe_inv:
  assumes inv: "fd_inv tabs s" and k: "k < length tabs"
    and new: "p \<notin> dom (pipes s)" "Obj rn \<notin> dom (files s)" "Obj wn \<notin> dom (files s)" "rn \<noteq> wn"
    and o: "fd_pipe (tabs ! k) p rn wn s = (r, fds, t, s')"
  shows "fd_inv (tabs[k := t]) s'"
    "r = -1 \<and> t = tabs ! k \<and> fds = None \<or> r = 0 \<and> (\<exists>i j. fds = Some (int i, int j) \<and> i \<noteq> j
       \<and> t = (tabs ! k)[i := Some (Obj rn), j := Some (Obj wn)] \<and> tabs ! k ! i = None \<and> tabs ! k ! j = None)"
proof -
  have len: "length (tabs ! k) = MAX_FDS_PER_TASK" using fd_inv_tables [OF inv k] by simp
  have "fd_inv (tabs[k := t]) s' \<and> (r = -1 \<and> t = tabs ! k \<and> fds = None \<or> r = 0 \<and> (\<exists>i j. fds = Some (int i, int j) \<and> i \<noteq> j
       \<and> t = (tabs ! k)[i := Some (Obj rn), j := Some (Obj wn)] \<and> tabs ! k ! i = None \<and> tabs ! k ! j = None))"
  proof (cases rule: find_free_fd_cases [of "tabs ! k"])
    case full
    then have "r = -1 \<and> t = tabs ! k \<and> fds = None \<and> s' = s" using o by (auto simp: fd_pipe_def)
    then show ?thesis using inv by simp
  next
    case (free i)
    note i = free
    show ?thesis
    proof (cases rule: find_free_fd_cases [of "(tabs ! k)[i := Some (Obj 0)]"])
      case full
      then have "r = -1 \<and> t = tabs ! k \<and> fds = None \<and> s' = s" using o i(2) by (auto simp: fd_pipe_def)
      then show ?thesis using inv by simp
    next
      case (free j)
      have ij: "i \<noteq> j" using free i by auto
      then have j: "j < length (tabs ! k)" "tabs ! k ! j = None" using free by simp_all
      show ?thesis
      proof (cases "p = 0 \<or> rn = 0 \<or> wn = 0")
        case True
        have undo1: "kfree_pipe p (put_pipe p q s) = s" for q
          using new(1) by (simp add: kfree_pipe_def put_pipe_def domIff fun_upd_idem_iff)
        have undo2: "free_file (Obj rn) (kfree_pipe p (put_file (Obj rn) f (alloc_file rn (put_pipe p q s)))) = s" if "rn \<noteq> 0" for f q
          using new(1,2) that by (simp add: free_file_def kfree_pipe_def put_file_def alloc_file_def put_pipe_def
              domIff fun_upd_idem_iff)
        have "r = -1 \<and> t = tabs ! k \<and> fds = None \<and> s' = s"
          using True o i(2) free(2) undo1 undo2 by (auto simp: fd_pipe_def Let_def split: if_splits)
        then show ?thesis using inv by simp
      next
        case False
        let ?q = "zero_pipe\<lparr>read_open := True, write_open := True\<rparr>"
        let ?rf = "zero_file\<lparr>ftype := FD_TYPE_PIPE, fflags := O_RDONLY, ref_count := 1, fpipe := p\<rparr>"
        let ?wf = "zero_file\<lparr>ftype := FD_TYPE_PIPE, fflags := O_WRONLY, ref_count := 1, fpipe := p\<rparr>"
        have e: "r = 0" "fds = Some (int i, int j)" "t = (tabs ! k)[i := Some (Obj rn), j := Some (Obj wn)]"
          "s' = put_file (Obj wn) ?wf (alloc_file wn (put_file (Obj rn) ?rf (alloc_file rn (put_pipe p ?q s))))"
          using o i(2) free(2) False by (simp_all add: fd_pipe_def Let_def)
        have fl: "files s' = (files s)(Obj rn \<mapsto> ?rf, Obj wn \<mapsto> ?wf)" "pipes s' = (pipes s)(p \<mapsto> ?q)"
          using new(4) False by (auto simp: e(4) alloc_file_def fun_upd_twist)
        have none: "pipe_ends s p fl = {}" for fl
          using inv new(1) by (auto simp: fd_inv_def pipes_ok_def pipe_ends_def)
        have ends: "pipe_ends s' a fl = (if a = p then (if fl = O_RDONLY then {Obj rn} else if fl = O_WRONLY then {Obj wn} else {})
            else pipe_ends s a fl)" for a fl
        proof (cases "a = p")
          case True
          then show ?thesis using none [of fl] new(2-4) by (auto simp: pipe_ends_def fl O_RDONLY_def O_WRONLY_def)
        next
          case False
          then show ?thesis using new(2-4) by (auto simp: pipe_ends_def fl domIff)
        qed
        have ok: "pipes_ok s'"
          unfolding pipes_ok_def
        proof (intro conjI allI impI)
          fix r f assume "files s' r = Some f" "ftype f = FD_TYPE_PIPE"
          then have "r = Obj rn \<and> f = ?rf \<or> r = Obj wn \<and> f = ?wf
              \<or> (r \<noteq> Console \<and> fpipe f \<noteq> 0 \<and> fpipe f \<in> dom (pipes s) \<and> (fflags f = O_RDONLY \<or> fflags f = O_WRONLY))"
            using inv unfolding fd_inv_def pipes_ok_def fl by (auto split: if_splits simp del: domIff)
          then show "r \<noteq> Console" "fpipe f \<noteq> 0" "fpipe f \<in> dom (pipes s')" "fflags f = O_RDONLY \<or> fflags f = O_WRONLY"
            using False unfolding fl by auto
        next
          fix a q assume q: "pipes s' a = Some q"
          show "pipe_ok (pipe_ends s' a) q"
          proof (cases "a = p")
            case True
            then have "q = ?q" using q by (simp add: fl)
            moreover have "pipe_inv ?q" by (simp add: pipe_inv_def zero_pipe_def)
            ultimately show ?thesis
              unfolding pipe_ok_def ends using True by (auto simp: O_RDONLY_def O_WRONLY_def)
          next
            case False
            then have "pipes s a = Some q" using q by (simp add: fl)
            moreover have "pipe_ends s' a = pipe_ends s a" using ends False by (auto simp: fun_eq_iff)
            ultimately show ?thesis using inv by (simp add: fd_inv_def pipes_ok_def)
          qed
        qed
        text \<open>Counting: first the slot of the read end, then that of the write end.\<close>
        let ?t1 = "(tabs ! k)[i := Some (Obj rn)]"
        have k1: "k < length (tabs[k := ?t1])" "tabs[k := ?t1] ! k = ?t1" using k by simp_all
        have tabs': "tabs[k := t] = (tabs[k := ?t1])[k := (tabs[k := ?t1] ! k)[j := Some (Obj wn)]]"
          using k by (simp add: e(3))
        have n: "refs (tabs[k := t]) r' = refs tabs r' + (if r' = Obj rn then 1 else 0) + (if r' = Obj wn then 1 else 0)" for r'
          using refs_update [OF k i(1), of "Some (Obj rn)" r'] i(3) j ij
            refs_update [OF k1(1), of j "Some (Obj wn)" r'] unfolding tabs' k1(2) by auto
        have z: "refs tabs (Obj rn) = 0" "refs tabs (Obj wn) = 0" using inv new unfolding fd_inv_def by blast+
        have "fd_inv (tabs[k := t]) s'"
        proof (rule fd_invI)
          show "length t' = MAX_FDS_PER_TASK" if t': "t' \<in> set (tabs[k := t])" for t'
          proof -
            have "t' = t \<or> t' \<in> set tabs" using t' set_update_subset_insert by fastforce
            then show ?thesis using len inv by (auto simp: e(3) fd_inv_def)
          qed
          show "Console \<in> dom (files s')" using inv by (auto simp: fd_inv_def fl)
          fix r'
          show "ref_count f' = int (refs (tabs[k := t]) r') \<and> (r' \<noteq> Console \<longrightarrow> 0 < refs (tabs[k := t]) r')"
            if "files s' r' = Some f'" for f'
            using that inv z new(4) unfolding n fl by (auto simp: fd_inv_def split: if_splits)
          show "r' \<in> dom (files s')" if "0 < refs (tabs[k := t]) r'"
            using that inv unfolding n fl fd_inv_def by (auto split: if_splits simp del: domIff)
        qed (rule ok)
        then show ?thesis using e ij i j by auto
      qed
    qed
  qed
  then show "fd_inv (tabs[k := t]) s'"
    "r = -1 \<and> t = tabs ! k \<and> fds = None \<or> r = 0 \<and> (\<exists>i j. fds = Some (int i, int j) \<and> i \<noteq> j
       \<and> t = (tabs ! k)[i := Some (Obj rn), j := Some (Obj wn)] \<and> tabs ! k ! i = None \<and> tabs ! k ! j = None)"
    by blast+
qed

lemma dup_files:
  assumes "\<forall>r. Some r \<in> set src \<longrightarrow> r \<in> dom (files s)"
  shows "\<exists>s'. fd_table_dup src s = Some (src, s') \<and> pipes s' = pipes s
    \<and> (\<forall>r. files s' r = map_option (\<lambda>f. f\<lparr>ref_count := ref_count f + int (length (filter (\<lambda>x. x = Some r) src))\<rparr>) (files s r))"
  using assms
proof (induction src arbitrary: s)
  case Nil
  have "map_option (\<lambda>f. f\<lparr>ref_count := ref_count f\<rparr>) x = x" for x :: "open_file option" by (cases x) simp_all
  then show ?case by simp
next
  case (Cons x src)
  show ?case
  proof (cases x)
    case None
    then show ?thesis using Cons.IH [of s] Cons.prems by auto
  next
    case (Some r)
    then obtain f where f: "files s r = Some f" using Cons.prems by auto
    let ?s1 = "put_file r (f\<lparr>ref_count := ref_count f + 1\<rparr>) s"
    have "\<forall>r. Some r \<in> set src \<longrightarrow> r \<in> dom (files ?s1)" using Cons.prems by auto
    from Cons.IH [OF this] obtain s' where s': "fd_table_dup src ?s1 = Some (src, s')" "pipes s' = pipes ?s1"
      "\<forall>r. files s' r = map_option (\<lambda>f. f\<lparr>ref_count := ref_count f + int (length (filter (\<lambda>x. x = Some r) src))\<rparr>) (files ?s1 r)"
      by blast
    then show ?thesis using Some f by (auto simp: add_ref_def)
  qed
qed

lemma refs_append: "refs (tabs @ [t]) r = refs tabs r + length (filter (\<lambda>x. x = Some r) t)"
  by (simp add: refs_def)

lemma pipes_ok_counts:
  assumes "pipes_ok s" "pipes s' = pipes s"
    "\<And>r. files s' r = map_option (\<lambda>f. f\<lparr>ref_count := n r f\<rparr>) (files s r)"
  shows "pipes_ok s'"
  using assms by (intro pipes_ok_cong [OF assms(1,2)]) (auto simp: pipe_ends_def fun_eq_iff)

lemma fd_table_dup_inv:
  assumes inv: "fd_inv tabs s" and k: "k < length tabs"
  obtains s' where "fd_table_dup (tabs ! k) s = Some (tabs ! k, s')" "fd_inv (tabs @ [tabs ! k]) s'"
proof -
  let ?t = "tabs ! k"
  let ?n = "\<lambda>r. length (filter (\<lambda>x. x = Some r) ?t)"
  have pos: "0 < refs tabs r" if "Some r \<in> set ?t" for r
    using that refs_pos [OF k] by (auto simp: in_set_conv_nth)
  then have "\<forall>r. Some r \<in> set ?t \<longrightarrow> r \<in> dom (files s)" using inv unfolding fd_inv_def by blast
  from dup_files [OF this] obtain s' where s': "fd_table_dup ?t s = Some (?t, s')" "pipes s' = pipes s"
    "\<And>r. files s' r = map_option (\<lambda>f. f\<lparr>ref_count := ref_count f + int (?n r)\<rparr>) (files s r)" by blast
  have dom: "dom (files s') = dom (files s)" by (auto simp: s'(3) domIff)
  have nz: "0 < ?n r \<Longrightarrow> Some r \<in> set ?t" for r by (auto simp: filter_empty_conv)
  have "fd_inv (tabs @ [?t]) s'"
  proof (rule fd_invI)
    show "length t = MAX_FDS_PER_TASK" if "t \<in> set (tabs @ [?t])" for t
      using that inv k by (auto simp: fd_inv_def)
    show "Console \<in> dom (files s')" using inv unfolding dom by (auto simp: fd_inv_def)
    show "pipes_ok s'" using inv by (intro pipes_ok_counts [OF _ s'(2,3)]) (simp add: fd_inv_def)
    fix r
    show "ref_count f = int (refs (tabs @ [?t]) r) \<and> (r \<noteq> Console \<longrightarrow> 0 < refs (tabs @ [?t]) r)" if fs: "files s' r = Some f" for f
    proof -
      obtain g where g: "files s r = Some g" "f = g\<lparr>ref_count := ref_count g + int (?n r)\<rparr>"
        using fs by (auto simp: s'(3))
      then have "ref_count g = int (refs tabs r) \<and> (r \<noteq> Console \<longrightarrow> 0 < refs tabs r)"
        using inv unfolding fd_inv_def by blast
      then show ?thesis unfolding refs_append g(2) by simp
    qed
    show "r \<in> dom (files s')" if p: "0 < refs (tabs @ [?t]) r"
    proof -
      have "0 < refs tabs r" using p nz [of r] pos [of r] unfolding refs_append by (cases "?n r") auto
      then show ?thesis using inv unfolding dom fd_inv_def by blast
    qed
  qed
  then show ?thesis using that s'(1) by blast
qed

lemma fd_table_init_inv:
  assumes inv: "fd_inv tabs s"
  obtains t s' where "fd_table_init s = Some (t, s')" "fd_inv (tabs @ [t]) s'"
    "t = [Some Console, Some Console, Some Console] @ replicate 13 None"
proof -
  obtain f where f: "files s Console = Some f" using inv by (auto simp: fd_inv_def)
  let ?t = "[Some Console, Some Console, Some Console] @ replicate 13 (None :: file_ref option)"
  let ?s = "put_file Console (f\<lparr>ref_count := ref_count f + 3\<rparr>) s"
  have t: "(replicate MAX_FDS_PER_TASK None)[0 := Some Console, 1 := Some Console, 2 := Some Console] = ?t"
    by (simp add: MAX_FDS_PER_TASK_def numeral_eq_Suc)
  have n: "refs (tabs @ [?t]) r = refs tabs r + (if r = Console then 3 else 0)" for r
    unfolding refs_append by simp
  have "fd_inv (tabs @ [?t]) ?s"
  proof (rule fd_invI)
    show "length t = MAX_FDS_PER_TASK" if "t \<in> set (tabs @ [?t])" for t
      using that inv by (auto simp: fd_inv_def MAX_FDS_PER_TASK_def)
    show "Console \<in> dom (files ?s)" by simp
    show "pipes_ok ?s" using inv f by (intro pipes_ok_count) (simp_all add: fd_inv_def)
    fix r
    show "ref_count g = int (refs (tabs @ [?t]) r) \<and> (r \<noteq> Console \<longrightarrow> 0 < refs (tabs @ [?t]) r)" if "files ?s r = Some g" for g
      using that inv f unfolding n by (auto simp: fd_inv_def split: if_splits)
    show "r \<in> dom (files ?s)" if "0 < refs (tabs @ [?t]) r"
      using that inv unfolding n fd_inv_def by (auto split: if_splits simp del: domIff)
  qed
  then show ?thesis using that f t by (simp add: fd_table_init_def add_ref_def)
qed

lemma destroy_from_inv:
  assumes "fd_inv tabs s" "k < length tabs" "i + n = MAX_FDS_PER_TASK" "\<forall>j < i. tabs ! k ! j = None"
  shows "\<exists>s'. destroy_from i n (tabs ! k) s = Some (replicate MAX_FDS_PER_TASK None, s')
    \<and> fd_inv (tabs[k := replicate MAX_FDS_PER_TASK None]) s'"
  using assms
proof (induction n arbitrary: i tabs s)
  case 0
  have len: "length (tabs ! k) = MAX_FDS_PER_TASK" using fd_inv_tables [OF "0.prems"(1,2)] by simp
  then have "tabs ! k = replicate MAX_FDS_PER_TASK None"
    using "0.prems"(3,4) by (intro nth_equalityI) auto
  then show ?case using "0.prems"(1) by (metis destroy_from.simps(1) list_update_id)
next
  case (Suc n)
  have i: "i < MAX_FDS_PER_TASK" "Suc i + n = MAX_FDS_PER_TASK" using Suc.prems(3) by auto
  show ?case
  proof (cases "tabs ! k ! i = None")
    case True
    then have "\<forall>j < Suc i. tabs ! k ! j = None" using Suc.prems(4) by (auto simp: less_Suc_eq)
    from Suc.IH [OF Suc.prems(1,2) i(2) this] True show ?thesis by simp
  next
    case False
    then have v: "fd_valid (tabs ! k) (int i)" using i by (simp add: fd_valid_def)
    obtain r t s1 where c0: "fd_close (tabs ! k) (int i) s = Some (r, t, s1)" "fd_inv (tabs[k := t]) s1"
      "r = (if fd_valid (tabs ! k) (int i) then 0 else -1)"
      "t = (if fd_valid (tabs ! k) (int i) then (tabs ! k)[nat (int i) := None] else tabs ! k)"
      using fd_close_inv [OF Suc.prems(1,2)] .
    then have c: "fd_close (tabs ! k) (int i) s = Some (0, t, s1)" "fd_inv (tabs[k := t]) s1"
      "t = (tabs ! k)[i := None]" using v by simp_all
    have len: "length (tabs ! k) = MAX_FDS_PER_TASK" using fd_inv_tables [OF Suc.prems(1,2)] by simp
    have "\<forall>j < Suc i. tabs[k := t] ! k ! j = None"
      using Suc.prems(2,4) c(3) len i by (auto simp: less_Suc_eq nth_list_update)
    from Suc.IH [OF c(2) _ i(2) this] Suc.prems(2) False c(1)
    show ?thesis by simp
  qed
qed

lemma fd_table_destroy_inv:
  assumes "fd_inv tabs s" "k < length tabs"
  obtains s' where "fd_table_destroy (tabs ! k) s = Some (replicate MAX_FDS_PER_TASK None, s')"
    "fd_inv (tabs[k := replicate MAX_FDS_PER_TASK None]) s'"
  using destroy_from_inv [OF assms, of 0 MAX_FDS_PER_TASK] that by (auto simp: fd_table_destroy_def)

text \<open>Reading and writing change neither pointers nor counts.\<close>

lemma fd_inv_same:
  assumes inv: "fd_inv tabs s"
    and files: "\<And>r. files s' r = files s r
      \<or> (\<exists>f p. files s r = Some f \<and> ftype f \<noteq> FD_TYPE_PIPE \<and> files s' r = Some (f\<lparr>f_position := p\<rparr>))"
    and pips: "\<And>a. pipes s' a = pipes s a
      \<or> (\<exists>p q. pipes s a = Some p \<and> pipes s' a = Some q \<and> pipe_inv q
           \<and> read_open q = read_open p \<and> write_open q = write_open p)"
  shows "fd_inv tabs s'"
proof (rule fd_invI)
  show "length t = MAX_FDS_PER_TASK" if "t \<in> set tabs" for t using inv that by (simp add: fd_inv_def)
  have dom: "dom (files s') = dom (files s)"
  proof (rule set_eqI)
    show "r \<in> dom (files s') \<longleftrightarrow> r \<in> dom (files s)" for r using files [of r] by (cases "files s r") auto
  qed
  show "Console \<in> dom (files s')" using inv unfolding dom by (auto simp: fd_inv_def)
  show "ref_count f = int (refs tabs r) \<and> (r \<noteq> Console \<longrightarrow> 0 < refs tabs r)" if fs: "files s' r = Some f" for r f
  proof -
    obtain g where g: "files s r = Some g" "ref_count f = ref_count g"
      using files [of r] fs by (elim disjE exE conjE) auto
    then have "ref_count g = int (refs tabs r) \<and> (r \<noteq> Console \<longrightarrow> 0 < refs tabs r)"
      using inv unfolding fd_inv_def by blast
    then show ?thesis using g by simp
  qed
  show "r \<in> dom (files s')" if "0 < refs tabs r" for r using that inv unfolding dom fd_inv_def by blast
  have piped: "files s r = Some f" if "files s' r = Some f" "ftype f = FD_TYPE_PIPE" for r f
    using files [of r] that by (elim disjE exE conjE) auto
  have piped': "files s' r = Some f" if "files s r = Some f" "ftype f = FD_TYPE_PIPE" for r f
    using files [of r] that by (elim disjE exE conjE) auto
  have ends: "pipe_ends s' a = pipe_ends s a" for a
    unfolding pipe_ends_def using piped piped' by (intro ext) blast
  have pdom: "dom (pipes s') = dom (pipes s)"
  proof (rule set_eqI)
    show "a \<in> dom (pipes s') \<longleftrightarrow> a \<in> dom (pipes s)" for a using pips [of a] by (cases "pipes s a") auto
  qed
  show "pipes_ok s'"
    unfolding pipes_ok_def ends pdom
  proof (intro conjI allI impI)
    fix r f assume "files s' r = Some f" "ftype f = FD_TYPE_PIPE"
    then have "r \<noteq> Console \<and> fpipe f \<noteq> 0 \<and> fpipe f \<in> dom (pipes s) \<and> (fflags f = O_RDONLY \<or> fflags f = O_WRONLY)"
      using piped inv unfolding fd_inv_def pipes_ok_def by blast
    then show "r \<noteq> Console" "fpipe f \<noteq> 0" "fpipe f \<in> dom (pipes s)" "fflags f = O_RDONLY \<or> fflags f = O_WRONLY"
      by blast+
  next
    fix a q assume q: "pipes s' a = Some q"
    have ok: "pipe_ok (pipe_ends s a) p" if "pipes s a = Some p" for p
      using inv that by (simp add: fd_inv_def pipes_ok_def)
    from pips [of a] show "pipe_ok (pipe_ends s a) q"
    proof (elim disjE exE conjE)
      assume "pipes s' a = pipes s a"
      then show ?thesis using q ok by simp
    next
      fix p x assume x: "pipes s a = Some p" "pipes s' a = Some x" "pipe_inv x"
        "read_open x = read_open p" "write_open x = write_open p"
      then have "x = q" using q by simp
      then show ?thesis using ok [OF x(1)] x(3-5) unfolding pipe_ok_def by metis
    qed
  qed
qed

lemma pipe_read_keeps:
  assumes "pipe_inv p" "pipe_read count p = (r, q)"
  shows "pipe_inv q \<and> read_open q = read_open p \<and> write_open q = write_open p"
proof (cases "pcount p = 0")
  case True
  then show ?thesis using assms by (auto simp: pipe_read_def split: if_splits)
next
  case False
  obtain bs p' where d: "drain (unat count) p = (bs, p')" by fastforce
  then have "q = p'" using assms(2) False by (simp add: pipe_read_def)
  then show ?thesis using drain_queue [OF assms(1) d] drain_ends [OF d] by simp
qed

lemma pipe_write_keeps:
  assumes "pipe_inv p" "pipe_write src p = (r, q)"
  shows "pipe_inv q \<and> read_open q = read_open p \<and> write_open q = write_open p"
proof -
  obtain rest p' where f: "fill src p = (rest, p')" by fastforce
  then have "q = p'" using assms(2) by (auto simp: pipe_write_def split: if_splits)
  then show ?thesis using fill_queue(1) [OF assms(1) f] fill_ends [OF f] by simp
qed

lemma fd_inv_pipe:
  assumes "fd_inv tabs s" "files s r = Some f" "ftype f = FD_TYPE_PIPE"
  obtains p where "pipes s (fpipe f) = Some p" "fpipe f \<noteq> 0" "pipe_inv p"
  using pipes_ok_pipe [of s r f] assms by (metis fd_inv_def)

lemma fd_inv_put_pipe:
  assumes "fd_inv tabs s" "pipes s a = Some p" "pipe_inv q" "read_open q = read_open p" "write_open q = write_open p"
  shows "fd_inv tabs (put_pipe a q s)"
  using assms by (intro fd_inv_same [OF assms(1)]) auto

lemma file_read_position:
  assumes "file_read blk fs gm junk f dst count = Some (n, dst', f')"
  shows "\<exists>p. f' = f\<lparr>f_position := p\<rparr>"
proof -
  have id: "\<exists>p. f = f\<lparr>f_position := p\<rparr>" by (intro exI [of _ "f_position f"]) simp
  then show ?thesis
    using assms by (auto simp: file_read_def Let_def split: if_splits option.splits prod.splits)
qed

lemma fd_read_inv:
  assumes inv: "fd_inv tabs s" and k: "k < length tabs"
    and r: "fd_read blk fs gm junk (tabs ! k) fd buf count s u = Some (res, s', u')"
  shows "fd_inv tabs s'"
proof (cases "fd_valid (tabs ! k) fd")
  case False
  then show ?thesis using r inv by (simp add: fd_read_def)
next
  case True
  obtain rf f where f: "tabs ! k ! nat fd = Some rf" "files s rf = Some f"
    using fd_inv_slot [OF inv k True] by metis
  show ?thesis
  proof (cases "ftype f")
    case FD_TYPE_PIPE
    obtain p where p: "pipes s (fpipe f) = Some p" "fpipe f \<noteq> 0" "pipe_inv p"
      using fd_inv_pipe [OF inv f(2) FD_TYPE_PIPE] .
    obtain x q where x: "pipe_read count p = (x, q)" by fastforce
    have "s' = put_pipe (fpipe f) q s"
      using r True f p x FD_TYPE_PIPE by (simp add: fd_read_def split: attempt.splits)
    then show ?thesis using fd_inv_put_pipe [OF inv p(1)] pipe_read_keeps [OF p(3) x] by simp
  next
    case FD_TYPE_FILE
    obtain n b f' where x: "file_read blk fs gm junk f buf count = Some (n, b, f')" "s' = put_file rf f' s"
      using r True f FD_TYPE_FILE by (auto simp: fd_read_def)
    obtain p where "f' = f\<lparr>f_position := p\<rparr>" using file_read_position [OF x(1)] by blast
    then show ?thesis
      using f FD_TYPE_FILE unfolding x(2) by (intro fd_inv_same [OF inv]) auto
  next
    case FD_TYPE_CONSOLE
    then show ?thesis using r True f inv by (auto simp: fd_read_def split: option.splits)
  next
    case FD_TYPE_NONE
    then show ?thesis using r True f inv by (auto simp: fd_read_def)
  qed
qed

lemma fd_write_inv:
  assumes inv: "fd_inv tabs s" and k: "k < length tabs"
    and r: "fd_write first (tabs ! k) fd src count s u = Some (res, s', u')"
  shows "fd_inv tabs s'"
proof (cases "fd_valid (tabs ! k) fd")
  case False
  then show ?thesis using r inv by (simp add: fd_write_def)
next
  case True
  obtain rf f where f: "tabs ! k ! nat fd = Some rf" "files s rf = Some f"
    using fd_inv_slot [OF inv k True] by metis
  show ?thesis
  proof (cases "ftype f = FD_TYPE_PIPE")
    case pipe: True
    obtain p where p: "pipes s (fpipe f) = Some p" "fpipe f \<noteq> 0" "pipe_inv p"
      using fd_inv_pipe [OF inv f(2) pipe] .
    obtain x q where x: "pipe_write src p = (x, q)" by fastforce
    have "s' = s \<or> s' = put_pipe (fpipe f) q s"
      using r True f p x pipe by (auto simp: fd_write_def split: if_splits option.splits)
    then show ?thesis using inv fd_inv_put_pipe [OF inv p(1)] pipe_write_keeps [OF p(3) x] by auto
  next
    case False
    then show ?thesis using r True f inv by (auto simp: fd_write_def split: fd_type.splits)
  qed
qed

end
