(* ===== verification/FdSpec.thy ===== *)
theory FdSpec
  imports Fd
begin

text \<open>
  The file-descriptor layer as a state machine over the tables of all processes and the shared
  store: one step per call of \<^verbatim>\<open>fd.c\<close>, in any order by any process. The properties of the layer
  are stated on its reachable states.
\<close>

section \<open>Steps\<close>

text \<open>
  The allocating steps take fresh pointers, as \<open>kzalloc\<close> gives them; after a NULL the later
  allocations are not made, and their pointers are not looked at. \<open>fd_dup2\<close> of a descriptor onto
  itself is left out: it faults (below).
\<close>

inductive fd_step :: "fd_table list \<times> fdsys \<Rightarrow> fd_table list \<times> fdsys \<Rightarrow> bool" where
  spawn: "fd_table_init s = Some (t, s') \<Longrightarrow> fd_step (tabs, s) (tabs @ [t], s')"
| fork: "\<lbrakk>k < length tabs; fd_table_dup (tabs ! k) s = Some (t, s')\<rbrakk> \<Longrightarrow> fd_step (tabs, s) (tabs @ [t], s')"
| exit: "\<lbrakk>k < length tabs; fd_table_destroy (tabs ! k) s = Some (t, s')\<rbrakk> \<Longrightarrow> fd_step (tabs, s) (tabs[k := t], s')"
| open_file: "\<lbrakk>k < length tabs; Obj new \<notin> dom (files s); fd_open (tabs ! k) opened flags new s = (r, t, s')\<rbrakk>
    \<Longrightarrow> fd_step (tabs, s) (tabs[k := t], s')"
| close: "\<lbrakk>k < length tabs; fd_close (tabs ! k) fd s = Some (r, t, s')\<rbrakk> \<Longrightarrow> fd_step (tabs, s) (tabs[k := t], s')"
| dup2: "\<lbrakk>k < length tabs; oldfd \<noteq> newfd; fd_dup2 (tabs ! k) oldfd newfd s = Some (r, t, s')\<rbrakk>
    \<Longrightarrow> fd_step (tabs, s) (tabs[k := t], s')"
| new_pipe: "\<lbrakk>k < length tabs; p \<notin> dom (pipes s); Obj rn \<notin> dom (files s); Obj wn \<notin> dom (files s); rn \<noteq> wn;
    fd_pipe (tabs ! k) p rn wn s = (r, fds, t, s')\<rbrakk> \<Longrightarrow> fd_step (tabs, s) (tabs[k := t], s')"
| read_fd: "\<lbrakk>k < length tabs; fd_read blk fs gm junk (tabs ! k) fd buf count s u = Some (res, s', u')\<rbrakk>
    \<Longrightarrow> fd_step (tabs, s) (tabs, s')"
| write_fd: "\<lbrakk>k < length tabs; fd_write first (tabs ! k) fd src count s u = Some (w, s', u')\<rbrakk>
    \<Longrightarrow> fd_step (tabs, s) (tabs, s')"

lemma fd_inv_boot: "fd_inv [] fd_boot"
  by (auto simp: fd_inv_def fd_boot_def refs_def pipes_ok_def console_file_def zero_file_def split: if_splits)

lemma fd_step_inv:
  assumes "fd_step c c'" "fd_inv (fst c) (snd c)"
  shows "fd_inv (fst c') (snd c')"
  using assms
proof (induction rule: fd_step.induct)
  case (spawn s t s' tabs)
  then have inv: "fd_inv tabs s" by simp
  show ?case using fd_table_init_inv [OF inv] spawn(1) by (metis Pair_inject fst_conv option.inject snd_conv)
next
  case (fork k tabs s t s')
  then have inv: "fd_inv tabs s" by simp
  show ?case using fd_table_dup_inv [OF inv fork(1)] fork(2) by (metis Pair_inject fst_conv option.inject snd_conv)
next
  case (exit k tabs s t s')
  then have inv: "fd_inv tabs s" by simp
  show ?case using fd_table_destroy_inv [OF inv exit(1)] exit(2) by (metis Pair_inject fst_conv option.inject snd_conv)
next
  case (open_file k tabs new s opened flags r t s')
  then show ?case using fd_open_inv(1) by simp
next
  case (close k tabs fd s r t s')
  then have inv: "fd_inv tabs s" by simp
  obtain r1 t1 s1 where "fd_close (tabs ! k) fd s = Some (r1, t1, s1)" "fd_inv (tabs[k := t1]) s1"
    using fd_close_inv [OF inv close(1)] by metis
  then show ?case using close(2) by simp
next
  case (dup2 k tabs oldfd newfd s r t s')
  then have inv: "fd_inv tabs s" by simp
  obtain r1 t1 s1 where "fd_dup2 (tabs ! k) oldfd newfd s = Some (r1, t1, s1)" "fd_inv (tabs[k := t1]) s1"
    using fd_dup2_inv [OF inv dup2(1,2)] by metis
  then show ?case using dup2(3) by simp
next
  case (new_pipe k tabs p s rn wn r fds t s')
  then show ?case using fd_pipe_inv(1) by simp
next
  case (read_fd k tabs blk fs gm junk fd buf count s u res s' u')
  then show ?case using fd_read_inv by simp
next
  case (write_fd k tabs first fd src count s u w s' u')
  then show ?case using fd_write_inv by simp
qed

inductive_cases fd_step_from: "fd_step (tabs, s) c"

lemma pipe_end_slot:
  assumes inv: "fd_inv tabs s"
  shows "pipe_ends s a fl \<noteq> {} \<longleftrightarrow>
    (\<exists>t \<in> set tabs. \<exists>r f. Some r \<in> set t \<and> files s r = Some f \<and> ftype f = FD_TYPE_PIPE \<and> fpipe f = a \<and> fflags f = fl)"
proof
  assume "pipe_ends s a fl \<noteq> {}"
  then obtain r f where f: "files s r = Some f" "ftype f = FD_TYPE_PIPE" "fpipe f = a" "fflags f = fl"
    by (auto simp: pipe_ends_def)
  have "r \<noteq> Console" using inv f unfolding fd_inv_def pipes_ok_def by blast
  then have "0 < refs tabs r" using inv f(1) unfolding fd_inv_def by blast
  then have "\<not> (\<forall>t \<in> set tabs. Some r \<notin> set t)"
  proof (rule contrapos_pn)
    assume "\<forall>t \<in> set tabs. Some r \<notin> set t"
    then have "\<forall>t \<in> set tabs. filter (\<lambda>x. x = Some r) t = []" by (auto simp: filter_empty_conv)
    then show "\<not> 0 < refs tabs r" by (simp add: refs_def)
  qed
  then show "\<exists>t \<in> set tabs. \<exists>r f. Some r \<in> set t \<and> files s r = Some f \<and> ftype f = FD_TYPE_PIPE \<and> fpipe f = a \<and> fflags f = fl"
    using f by blast
next
  assume "\<exists>t \<in> set tabs. \<exists>r f. Some r \<in> set t \<and> files s r = Some f \<and> ftype f = FD_TYPE_PIPE \<and> fpipe f = a \<and> fflags f = fl"
  then show "pipe_ends s a fl \<noteq> {}" unfolding pipe_ends_def by blast
qed

section \<open>Properties\<close>

text \<open>
  C12: whatever sequence of calls the processes make from boot, in any interleaving, the reference
  counts are exact, no table slot dangles, no object is kept without a reference, and the open
  flags of every pipe say exactly which of its ends still has a descriptor.
\<close>

theorem fd_reachable_inv:
  assumes "fd_step\<^sup>*\<^sup>* ([], fd_boot) (tabs, s)"
  shows "fd_inv tabs s"
proof -
  have "fd_inv (fst c) (snd c)" if "fd_step\<^sup>*\<^sup>* ([], fd_boot) c" for c
    using that by (induction rule: rtranclp_induct) (auto simp: fd_inv_boot intro: fd_step_inv)
  from this [OF assms] show ?thesis by simp
qed

theorem fd_reachable_inv_witness:
  "\<exists>t s. fd_step\<^sup>*\<^sup>* ([], fd_boot) ([t], s) \<and> t ! 2 = Some Console \<and> fd_inv [t] s"
proof -
  obtain t s where i: "fd_table_init fd_boot = Some (t, s)"
    "t = [Some Console, Some Console, Some Console] @ replicate 13 None"
    using fd_table_init_inv [OF fd_inv_boot] by metis
  then have r: "fd_step\<^sup>*\<^sup>* ([], fd_boot) ([t], s)" using fd_step.spawn [of fd_boot t s "[]"] by simp
  show ?thesis using r fd_reachable_inv [OF r] i(2) by (intro exI [of _ t] exI [of _ s]) simp
qed

text \<open>
  \<open>dup2 (fd, fd)\<close> of an open descriptor closes it and then follows the NULL pointer left in
  the slot.
\<close>

lemma fd_dup2_self:
  assumes "length fdt = 16" "fd_valid fdt fd"
  shows "fd_dup2 fdt fd fd s = None"
proof -
  have fd: "0 \<le> fd" "nat fd < length fdt" "fdt ! nat fd \<noteq> None"
    using assms by (auto simp: fd_valid_def MAX_FDS_PER_TASK_def)
  have "t = fdt[nat fd := None]" if "fd_close fdt fd s = Some (r, t, s')" for r t s'
    using that assms(2) by (auto simp: fd_close_def Let_def split: option.splits if_splits)
  then show ?thesis
    using fd assms by (auto simp: fd_dup2_def Let_def fd_valid_def split: option.splits)
qed

text \<open>
  C30: in a state with exact counts, \<open>fd_close\<close>, the duplication of a table for \<open>fork\<close>, its destruction at exit and
  \<open>fd_dup2\<close> find every object that they follow, and return the result and the table that the documentation promises;
  except that \<open>fd_dup2\<close> of an open descriptor onto itself follows a NULL pointer (\<open>None\<close>).
\<close>

theorem fd_operations_return:
  assumes "fd_inv tabs s" "k < length tabs"
  shows "(\<exists>s'. fd_close (tabs ! k) fd s = Some (if fd_valid (tabs ! k) fd
      then (0, (tabs ! k)[nat fd := None], s') else (-1, tabs ! k, s')))
    \<and> (\<exists>s'. fd_table_dup (tabs ! k) s = Some (tabs ! k, s'))
    \<and> (\<exists>s'. fd_table_destroy (tabs ! k) s = Some (replicate 16 None, s'))
    \<and> (if fd_valid (tabs ! k) fd \<and> newfd = fd then fd_dup2 (tabs ! k) fd newfd s = None
       else \<exists>s'. fd_dup2 (tabs ! k) fd newfd s = Some
         (if fd_valid (tabs ! k) fd \<and> 0 \<le> newfd \<and> newfd < 16
          then (newfd, (tabs ! k)[nat newfd := tabs ! k ! nat fd], s') else (-1, tabs ! k, s')))"
proof (intro conjI)
  obtain r t s' where "fd_close (tabs ! k) fd s = Some (r, t, s')"
    "r = (if fd_valid (tabs ! k) fd then 0 else -1)"
    "t = (if fd_valid (tabs ! k) fd then (tabs ! k)[nat fd := None] else tabs ! k)"
    using fd_close_inv [OF assms] by metis
  then show "\<exists>s'. fd_close (tabs ! k) fd s = Some (if fd_valid (tabs ! k) fd
      then (0, (tabs ! k)[nat fd := None], s') else (-1, tabs ! k, s'))" by auto
  show "\<exists>s'. fd_table_dup (tabs ! k) s = Some (tabs ! k, s')" using fd_table_dup_inv [OF assms] by metis
  show "\<exists>s'. fd_table_destroy (tabs ! k) s = Some (replicate 16 None, s')"
    using fd_table_destroy_inv [OF assms] unfolding MAX_FDS_PER_TASK_def by metis
  have len: "length (tabs ! k) = 16" using fd_inv_tables(1) [OF assms] by (simp add: MAX_FDS_PER_TASK_def)
  show "if fd_valid (tabs ! k) fd \<and> newfd = fd then fd_dup2 (tabs ! k) fd newfd s = None
       else \<exists>s'. fd_dup2 (tabs ! k) fd newfd s = Some
         (if fd_valid (tabs ! k) fd \<and> 0 \<le> newfd \<and> newfd < 16
          then (newfd, (tabs ! k)[nat newfd := tabs ! k ! nat fd], s') else (-1, tabs ! k, s'))"
  proof (cases "newfd = fd")
    case False
    obtain r t s' where "fd_dup2 (tabs ! k) fd newfd s = Some (r, t, s')"
      "r = (if fd_valid (tabs ! k) fd \<and> 0 \<le> newfd \<and> newfd < int MAX_FDS_PER_TASK then newfd else -1)"
      "t = (if r = -1 then tabs ! k else (tabs ! k)[nat newfd := tabs ! k ! nat fd])"
      using fd_dup2_inv [OF assms, of fd newfd] False by metis
    then show ?thesis using False by (auto simp: MAX_FDS_PER_TASK_def)
  next
    case True
    then show ?thesis using fd_dup2_self [OF len] by (simp add: fd_dup2_def)
  qed
qed

theorem fd_operations_return_witness:
  "\<exists>t s s'. fd_inv [t] s \<and> fd_dup2 t 1 5 s = Some (5, t[5 := Some Console], s') \<and> fd_dup2 t 1 1 s = None"
proof -
  obtain t s where i: "fd_inv [t] s" "t = [Some Console, Some Console, Some Console] @ replicate 13 None"
    using fd_table_init_inv [OF fd_inv_boot] by (metis append_Nil)
  have v: "fd_valid t 1" by (simp add: i(2) fd_valid_def MAX_FDS_PER_TASK_def)
  have "t ! 1 = Some Console" by (simp add: i(2))
  then show ?thesis using fd_operations_return [OF i(1), of 0 1 5] fd_operations_return [OF i(1), of 0 1 1] i(1) v by auto
qed

text \<open>
  A reader of an empty pipe waits exactly as long as some process still has a descriptor of
  the write end, and sees the end of file once the last one is closed.
\<close>

theorem pipe_end_of_file:
  assumes inv: "fd_inv tabs s" and k: "k < length tabs" and v: "fd_valid (tabs ! k) fd"
    and f: "tabs ! k ! nat fd = Some r" "files s r = Some f" "ftype f = FD_TYPE_PIPE"
    and p: "pipes s (fpipe f) = Some p" "pipe_contents p = []"
  shows "fd_read blk fs gm junk (tabs ! k) fd buf count s u =
    Some (if \<exists>t \<in> set tabs. \<exists>r g. Some r \<in> set t \<and> files s r = Some g
              \<and> ftype g = FD_TYPE_PIPE \<and> fpipe g = fpipe f \<and> fflags g = O_WRONLY
          then Blocked else Done (0, buf), s, u)"
proof -
  have ok: "pipes_ok s" using inv by (simp add: fd_inv_def)
  obtain q where q: "pipes s (fpipe f) = Some q" "fpipe f \<noteq> 0"
    "write_open q \<longleftrightarrow> pipe_ends s (fpipe f) O_WRONLY \<noteq> {}"
    using pipes_ok_pipe [OF ok f(2,3)] by metis
  have "pcount p = 0" using p(2) length_pipe_contents [of p] by (simp add: unat_eq_0)
  moreover have "put_pipe (fpipe f) p s = s" using p(1) by (simp add: put_pipe_def fun_upd_idem)
  ultimately show ?thesis
    using q p(1) v f pipe_end_slot [OF inv, of "fpipe f" O_WRONLY]
    by (auto simp: fd_read_def pipe_read_def)
qed

theorem pipe_end_of_file_witness:
  "\<exists>t s buf. fd_inv [t] s \<and> fd_read demo_disk demo_fs True (\<lambda>_. 0) t 3 buf 10 s \<lparr>rx = [], tx = []\<rparr>
     = Some (Blocked, s, \<lparr>rx = [], tx = []\<rparr>)"
proof -
  obtain t0 s0 where i: "fd_inv [t0] s0" "t0 = [Some Console, Some Console, Some Console] @ replicate 13 None"
    and s0: "fd_table_init fd_boot = Some (t0, s0)"
    using fd_table_init_inv [OF fd_inv_boot] by (metis append_Nil)
  have files: "files s0 = [Console \<mapsto> console_file\<lparr>ref_count := ref_count console_file + 3\<rparr>]" "pipes s0 = Map.empty"
    using s0 by (auto simp: fd_table_init_def add_ref_def fd_boot_def)
  obtain r fds t s where o: "fd_pipe t0 16 32 48 s0 = (r, fds, t, s)" by (metis prod_cases4)
  have fresh: "16 \<notin> dom (pipes s0)" "Obj 32 \<notin> dom (files s0)" "Obj 48 \<notin> dom (files s0)" "(32 :: u64) \<noteq> 48"
    by (simp_all add: files)
  have "[t0] ! 0 = t0" by simp
  from fd_pipe_inv(1) [OF i(1), of 0, unfolded this, OF _ fresh o] have inv: "fd_inv [t] s" by simp
  have free: "find_free_fd t0 = 3" "find_free_fd (t0[3 := Some (Obj 0)]) = 4"
    by (simp_all add: i(2) find_free_fd_def numeral_eq_Suc)
  have t: "t = t0[3 := Some (Obj 32), 4 := Some (Obj 48)]"
    and f: "files s (Obj 32) = Some (zero_file\<lparr>ftype := FD_TYPE_PIPE, fflags := O_RDONLY, ref_count := 1, fpipe := 16\<rparr>)"
      "files s (Obj 48) = Some (zero_file\<lparr>ftype := FD_TYPE_PIPE, fflags := O_WRONLY, ref_count := 1, fpipe := 16\<rparr>)"
      "pipes s 16 = Some (zero_pipe\<lparr>read_open := True, write_open := True\<rparr>)"
    using o free by (auto simp: fd_pipe_def Let_def alloc_file_def)
  have len: "length t0 = 16" by (simp add: i(2))
  have v: "fd_valid t 3" "t ! 3 = Some (Obj 32)" "Some (Obj 48) \<in> set t"
    using len by (auto simp: t fd_valid_def MAX_FDS_PER_TASK_def in_set_conv_nth intro!: exI [of _ 4])
  have e: "pipe_contents (zero_pipe\<lparr>read_open := True, write_open := True\<rparr>) = []"
    by (simp add: pipe_contents_def zero_pipe_def)
  have w: "\<exists>t \<in> set [t]. \<exists>r g. Some r \<in> set t \<and> files s r = Some g \<and> ftype g = FD_TYPE_PIPE \<and> fpipe g = 16 \<and> fflags g = O_WRONLY"
    using v(3) f(2) by (auto intro!: exI [of _ "Obj 48"])
  have "fd_read demo_disk demo_fs True (\<lambda>_. 0) ([t] ! 0) 3 buf 10 s \<lparr>rx = [], tx = []\<rparr>
     = Some (Blocked, s, \<lparr>rx = [], tx = []\<rparr>)" for buf
    by (subst pipe_end_of_file [OF inv, of 0 3 "Obj 32"
        "zero_file\<lparr>ftype := FD_TYPE_PIPE, fflags := O_RDONLY, ref_count := 1, fpipe := 16\<rparr>"
        "zero_pipe\<lparr>read_open := True, write_open := True\<rparr>"]) (use v f e w in \<open>simp_all add: zero_file_def\<close>)
  then show ?thesis using inv by auto
qed

text \<open>
  C31: reading a file through a descriptor at position \<open>p\<close> returns the next bytes of the file, at
  most \<open>count\<close> and not past its end, and moves the position behind them. But the caller's buffer
  is used as scratch space: the bytes of the file up to \<open>p + n\<close> are left in it, past the \<open>n\<close> bytes
  returned and past the \<open>count\<close> bytes that the caller provided.
\<close>

theorem file_read_result:
  assumes p: "p = unat (f_position f)" "p < unat (f_file_size f)" and n: "n = min (unat count) (unat (f_file_size f) - p)" "0 < n"
    and big: "p + n + 512 < 2 ^ 31" and spc: "0 < unat (sectors_per_cluster (bpb fs))"
    and ok: "file_ok blk fs (f_first_cluster f) (p + n)"
  shows "file_read blk fs True junk f dst count =
    Some (int n,
      \<lambda>i. if unat i < n then file_byte blk fs (f_first_cluster f) (p + unat i)
          else if unat i < p + n then file_byte blk fs (f_first_cluster f) (unat i) else dst i,
      f\<lparr>f_position := f_position f + of_nat n\<rparr>)"
proof -
  let ?B = "file_byte blk fs (f_first_cluster f)"
  let ?rem = "f_file_size f - f_position f"
  let ?count = "if count > ?rem then ?rem else count"
  let ?tmp = "\<lparr>ff_first_cluster = f_first_cluster f, ff_file_size = f_file_size f,
                   ff_position = f_position f, ff_current_cluster = f_first_cluster f\<rparr>"
  have word_id: "of_nat (unat w) = w" for w :: u32 by simp
  have lt: "f_position f < f_file_size f" using p by (simp add: word_less_nat_alt)
  have rem: "unat ?rem = unat (f_file_size f) - p" using lt p(1) by (simp add: unat_sub order_less_imp_le)
  have c: "unat ?count = n" using rem n(1) by (auto simp: word_less_nat_alt)
  have cn: "?count = of_nat n" using c by (metis word_id)
  have upn: "unat (f_position f + ?count) = p + n" using c p(1) big by (subst unat_add_small) simp_all
  have sz: "p + n \<le> unat (f_file_size f)" using n(1) p(2) by auto
  have rd: "fat16_read_file blk fs ?tmp d (f_position f + ?count) =
      Some (int (p + n), \<lambda>i. if unat i < p + n then ?B (unat i) else d i)" for d
  proof -
    have m: "p + n = min (unat (ff_file_size ?tmp)) (unat (f_position f + ?count))" using upn sz by simp
    have "(if ff_file_size ?tmp > f_position f + ?count then f_position f + ?count else ff_file_size ?tmp) = of_nat (p + n)"
      using upn sz by (metis fat16_file.select_convs(2) linorder_not_le nle_le word_le_nat_alt word_id)
    moreover have "read_chain blk fs (of_nat (p + n)) (f_first_cluster f) 0 d =
        Some (int (p + n), \<lambda>i. if 0 \<le> unat i \<and> unat i < p + n then ?B (unat i) else d i)"
      using read_chain_ok [OF spc big ok, of 0 0 d] by simp
    ultimately show ?thesis by (simp add: fat16_read_file_def)
  qed
  have b1: "(of_int (int (p + n)) :: u32) > f_position f"
  proof -
    have "unat (of_nat (p + n) :: u32) = p + n" using big by (intro unat_of_nat_small) simp
    then show ?thesis using p(1) n(2) by (simp add: word_less_nat_alt)
  qed
  have b2: "\<not> (f_position f + ?count = 0)" using upn n(2) by (metis add_is_0 less_not_refl unat_0)
  have sp: "sint (f_position f) = int p" using p(1) big sint_small [of "f_position f"] by simp
  have act: "(of_int (int (p + n)) :: u32) - f_position f = of_nat n" using p(1) by simp
  have un: "unat (of_nat n :: u32) = n" using big by (intro unat_of_nat_small) simp
  have sn: "sint (of_nat n :: u32) = int n" using un big sint_small [of "of_nat n :: u32"] by simp
  have cp: "fold (\<lambda>j d. d(of_nat j := h j)) [0..<m] d =
      (\<lambda>i. if unat i < m then h (unat i) else d i)" if "m \<le> n" for m h and d :: "u32 \<Rightarrow> u8"
    using that
  proof (induction m)
    case (Suc m)
    have "unat (of_nat m :: u32) = m" using Suc.prems big by (intro unat_of_nat_small) simp
    then have "i = of_nat m \<longleftrightarrow> unat i = m" for i :: u32 by (metis word_id)
    then show ?case using Suc by (auto simp: fun_eq_iff less_Suc_eq)
  qed simp
  have off: "unat (f_position f + i) = p + unat i" if "unat i < n" for i
    using that p(1) big by (subst unat_add_small) simp_all
  show ?thesis
    unfolding file_read_def Let_def rd option.case prod.case
    using lt b1 b2 sp act un sn cn n(2)
    by (simp add: cp off fun_eq_iff linorder_not_le)
qed

theorem file_read_result_witness:
  "\<exists>buf f'. file_read demo_disk demo_fs True (\<lambda>_. 0)
      (zero_file\<lparr>f_first_cluster := 2, f_file_size := 700, f_position := 600\<rparr>) (\<lambda>_. 9) 512 = Some (100, buf, f')
    \<and> f_position f' = 700 \<and> buf 99 = 4 \<and> buf 699 = 4"
proof -
  let ?f = "zero_file\<lparr>f_first_cluster := 2, f_file_size := 700, f_position := 600\<rparr>"
  have "file_read demo_disk demo_fs True (\<lambda>_. 0) ?f (\<lambda>_. 9) 512 = Some (int 100,
      \<lambda>i. if unat i < 100 then file_byte demo_disk demo_fs (f_first_cluster ?f) (600 + unat i)
          else if unat i < 600 + 100 then file_byte demo_disk demo_fs (f_first_cluster ?f) (unat i) else 9,
      ?f\<lparr>f_position := f_position ?f + of_nat 100\<rparr>)"
    by (rule file_read_result) (simp_all add: demo_file_ok, simp_all add: demo_fs_def demo_bpb_def)
  then show ?thesis
    by (simp add: file_byte_def block_sector_def demo_fs_def demo_bpb_def demo_disk_def Let_def)
qed

end
