(* ===== verification/Task.thy ===== *)
theory Task
  imports Fd Mmu
begin

text \<open>
  The state the scheduler and the signals share: tasks (\<^verbatim>\<open>src/sched.h\<close>), signal state
  (\<^verbatim>\<open>src/signal.h\<close>) and the kernel state around the task table, with \<open>signal_init\<close> and
  \<open>signal_send\<close> of \<^verbatim>\<open>src/signal.c\<close>, which \<open>sched_exit\<close> uses.
\<close>

section \<open>Tasks\<close>

datatype task_state = TASK_UNUSED | TASK_READY | TASK_RUNNING | TASK_BLOCKED | TASK_FINISHED

record task_context =
  x19 :: u64
  x20 :: u64
  x21 :: u64
  x22 :: u64
  x23 :: u64
  x24 :: u64
  x25 :: u64
  x26 :: u64
  x27 :: u64
  x28 :: u64
  x29 :: u64
  x30 :: u64
  ctx_sp :: u64

definition NSIG :: nat where "NSIG = 32"
definition SIGKILL :: nat where "SIGKILL = 9"
definition SIGSEGV :: nat where "SIGSEGV = 11"
definition SIGCHLD :: nat where "SIGCHLD = 17"
definition SIG_DFL :: u64 where "SIG_DFL = 0"
definition SIG_IGN :: u64 where "SIG_IGN = 1"

record signal_state =
  handlers :: "u64 list"
  pending :: u32

record task =
  ctx :: task_context
  tstate :: task_state
  tid :: nat
  tname :: "u8 list"
  ticks :: u64
  is_user :: bool
  user_entry :: u64
  user_sp :: u64
  ttbr0 :: u64
  code_pa :: u64
  code_pages :: u32
  stack_pa :: u64
  heap_break :: u64
  wait_for_tid :: int
  parent_tid :: int
  fdt :: fd_table
  sig :: signal_state

definition SCHED_MAX_TASKS :: nat where "SCHED_MAX_TASKS = 8"
definition SCHED_STACK_SIZE :: nat where "SCHED_STACK_SIZE = 8192"

section \<open>Kernel state\<close>

text \<open>
  \<open>cpu\<close> holds the callee-saved registers of the code that is running and \<open>ttbr0_el1\<close> the register
  that selects the user page table. \<open>image\<close> holds the addresses that the linker chose.
\<close>

record kernel =
  tasks :: "task list"
  current_task :: nat
  num_tasks :: nat
  start_info :: "(u64 \<times> u64) list"
  cpu :: task_context
  ttbr0_el1 :: u64
  kmm :: kmem
  fds :: fdsys

record image =
  task_stacks :: u64
  task_wrapper :: u64
  fork_child_return :: u64
  boot_l1 :: u64

definition upd_task :: "nat \<Rightarrow> (task \<Rightarrow> task) \<Rightarrow> kernel \<Rightarrow> kernel" where
  "upd_task i f k = k\<lparr>tasks := (tasks k)[i := f (tasks k ! i)]\<rparr>"

abbreviation task_at :: "kernel \<Rightarrow> nat \<Rightarrow> task" where
  "task_at k i \<equiv> tasks k ! i"

abbreviation cur_task :: "kernel \<Rightarrow> task" where
  "cur_task k \<equiv> tasks k ! current_task k"

definition sched_current_id :: "kernel \<Rightarrow> nat" where
  "sched_current_id k = current_task k"

definition sched_get_task :: "int \<Rightarrow> kernel \<Rightarrow> nat option" where
  "sched_get_task i k = (if i < 0 \<or> i \<ge> int (num_tasks k) then None else Some (nat i))"

definition sched_task_count :: "kernel \<Rightarrow> nat" where
  "sched_task_count k = num_tasks k"

lemma upd_task_simps [simp]:
  "length (tasks (upd_task i f k)) = length (tasks k)"
  "current_task (upd_task i f k) = current_task k" "num_tasks (upd_task i f k) = num_tasks k"
  "start_info (upd_task i f k) = start_info k" "cpu (upd_task i f k) = cpu k"
  "ttbr0_el1 (upd_task i f k) = ttbr0_el1 k" "kmm (upd_task i f k) = kmm k" "fds (upd_task i f k) = fds k"
  by (simp_all add: upd_task_def)

lemma task_at_upd:
  "i < length (tasks k) \<Longrightarrow> task_at (upd_task i f k) j = (if j = i then f (task_at k i) else task_at k j)"
  by (simp add: upd_task_def)

section \<open>Sending a signal\<close>

definition signal_init :: "signal_state \<Rightarrow> signal_state" where
  "signal_init ss = fold (\<lambda>i ss. ss\<lparr>handlers := (handlers ss)[i := SIG_DFL]\<rparr>) [0..<NSIG] ss \<lparr>pending := 0\<rparr>"

definition signal_send :: "int \<Rightarrow> int \<Rightarrow> kernel \<Rightarrow> int \<times> kernel" where
  "signal_send t sg k =
     (if sg < 1 \<or> sg \<ge> int NSIG then (-1, k)
      else case sched_get_task t k of
        None \<Rightarrow> (-1, k)
      | Some i \<Rightarrow>
          if tstate (task_at k i) = TASK_UNUSED \<or> tstate (task_at k i) = TASK_FINISHED then (-1, k)
          else
            let k = upd_task i (\<lambda>t. t\<lparr>sig := (sig t)\<lparr>pending := pending (sig t) OR push_bit (nat sg) 1\<rparr>\<rparr>) k;
                k = (if tstate (task_at k i) = TASK_BLOCKED
                     then upd_task i (\<lambda>t. t\<lparr>tstate := TASK_READY, wait_for_tid := -1\<rparr>) k else k)
            in (0, k))"

lemma signal_init_eq:
  assumes "length (handlers ss) = NSIG"
  shows "signal_init ss = ss\<lparr>handlers := replicate NSIG SIG_DFL, pending := 0\<rparr>"
proof -
  have "fold (\<lambda>i ss. ss\<lparr>handlers := (handlers ss)[i := SIG_DFL]\<rparr>) [0..<n] ss =
      ss\<lparr>handlers := replicate n SIG_DFL @ drop n (handlers ss)\<rparr>" if "n \<le> NSIG" for n
    using that
  proof (induction n)
    case (Suc n)
    then have "drop n (handlers ss) = handlers ss ! n # drop (Suc n) (handlers ss)"
      using assms by (simp add: Cons_nth_drop_Suc)
    then show ?case using Suc by (simp add: list_update_append replicate_app_Cons_same)
  qed simp
  from this [of NSIG] assms show ?thesis by (simp add: signal_init_def)
qed

end
