(* ===== verification/Sched.thy ===== *)
theory Sched
  imports Task
begin

text \<open>
  The scheduler, \<^verbatim>\<open>src/sched.c\<close>: the task table, round-robin choice, voluntary and timer-driven
  switches, exit, wait, and the creation of tasks, by copying a program image or by \<open>fork\<close>. The
  cache maintenance instructions and the console messages are not modelled.
\<close>

section \<open>Initialisation and creation\<close>

definition sched_init :: "kernel \<Rightarrow> kernel" where
  "sched_init k =
     (let k = fold (\<lambda>i. upd_task i (\<lambda>t. t\<lparr>tstate := TASK_UNUSED, tid := i, ticks := 0, wait_for_tid := -1\<rparr>))
                [0..<SCHED_MAX_TASKS] k;
          k = upd_task 0 (\<lambda>t. t\<lparr>tstate := TASK_RUNNING, tname := [0x69, 0x64, 0x6C, 0x65]\<rparr>) k
      in k\<lparr>current_task := 0, num_tasks := 1\<rparr>)"

definition kstack_top :: "image \<Rightarrow> nat \<Rightarrow> u64" where
  "kstack_top im i = (task_stacks im + of_nat ((i + 1) * SCHED_STACK_SIZE)) AND NOT 0xF"

definition start_ctx :: "u64 \<Rightarrow> u64 \<Rightarrow> task_context" where
  "start_ctx stack pc = \<lparr>x19 = 0, x20 = 0, x21 = 0, x22 = 0, x23 = 0, x24 = 0, x25 = 0, x26 = 0, x27 = 0,
     x28 = 0, x29 = 0, x30 = pc, ctx_sp = stack\<rparr>"

definition sched_create :: "image \<Rightarrow> u8 list \<Rightarrow> u64 \<Rightarrow> u64 \<Rightarrow> kernel \<Rightarrow> int \<times> kernel" where
  "sched_create im name entry_fn arg k =
     (if num_tasks k \<ge> SCHED_MAX_TASKS then (-1, k)
      else
        let i = num_tasks k; k = k\<lparr>num_tasks := num_tasks k + 1\<rparr>;
            k = upd_task i (\<lambda>t. t\<lparr>tstate := TASK_READY, tname := name, ticks := 0, is_user := False,
                  user_entry := 0, user_sp := 0, ttbr0 := 0, code_pa := 0, code_pages := 0, stack_pa := 0,
                  heap_break := 0, wait_for_tid := -1, parent_tid := -1\<rparr>) k;
            k = k\<lparr>start_info := (start_info k)[i := (entry_fn, arg)]\<rparr>;
            k = upd_task i (\<lambda>t. t\<lparr>ctx := start_ctx (kstack_top im i) (task_wrapper im)\<rparr>) k
        in (int i, k))"

text \<open>
  The kernel memory of a task's pages: the run of frames that \<open>pmm_alloc_pages\<close> gives, and the
  release of a run on an error path.
\<close>

definition alloc_run_of :: "u32 \<Rightarrow> kernel \<Rightarrow> u64 \<times> kernel" where
  "alloc_run_of n k = (let (pa, pm) = pmm_alloc_pages n (kpmm (kmm k)) in (pa, k\<lparr>kmm := (kmm k)\<lparr>kpmm := pm\<rparr>\<rparr>))"

definition free_run :: "u64 \<Rightarrow> u32 \<Rightarrow> kernel \<Rightarrow> kernel" where
  "free_run pa n k = k\<lparr>kmm := (kmm k)\<lparr>kpmm := pmm_free_pages pa n (kpmm (kmm k))\<rparr>\<rparr>"

definition set_bytes :: "(memory \<Rightarrow> memory) \<Rightarrow> kernel \<Rightarrow> kernel" where
  "set_bytes f k = k\<lparr>kmm := (kmm k)\<lparr>kbytes := f (kbytes (kmm k))\<rparr>\<rparr>"

definition make_pgd :: "u64 \<Rightarrow> u32 \<Rightarrow> u64 \<Rightarrow> kernel \<Rightarrow> u64 \<times> kernel" where
  "make_pgd code_base cpages ustack_base k =
     (let (pgd, m) = mmu_create_user_pgd code_base cpages ustack_base USER_STACK_PAGES (kmm k)
      in (pgd, k\<lparr>kmm := m\<rparr>))"

text \<open>
  \<open>sched_create_user\<close>: \<open>src\<close> is the kernel address of the program image. \<open>None\<close> only if the
  console object of the descriptor layer is missing.
\<close>

definition image_pages :: "u32 \<Rightarrow> u32" where
  "image_pages code_size =
     (let n = (code_size + 4096 - 1) div 4096 in (if n = 0 then 1 else n) + 4)"

definition new_user_task :: "u64 \<Rightarrow> u64 \<Rightarrow> u32 \<Rightarrow> u64 \<Rightarrow> u8 list \<Rightarrow> task \<Rightarrow> task" where
  "new_user_task pgd code_base cpages ustack_base name t = t\<lparr>tstate := TASK_READY, tname := name, ticks := 0,
     is_user := True, user_entry := USER_VA_CODE, user_sp := USER_VA_STACK, ttbr0 := pgd, code_pa := code_base,
     code_pages := cpages, stack_pa := ustack_base, wait_for_tid := -1\<rparr>"

definition sched_create_user :: "image \<Rightarrow> u8 list \<Rightarrow> u64 \<Rightarrow> u32 \<Rightarrow> kernel \<Rightarrow> (int \<times> kernel) option" where
  "sched_create_user im name src code_size k =
     (if num_tasks k \<ge> SCHED_MAX_TASKS then Some (-1, k)
      else
        let cpages = image_pages code_size; (code_base, k) = alloc_run_of cpages k
        in if code_base = 0 then Some (-1, k)
        else
          let dst = phys_to_virt code_base;
              k = set_bytes (copy_bytes (unat code_size) dst src) k;
              k = set_bytes (fill_bytes (unat code_size) (unat (cpages * 4096)) dst (\<lambda>_. 0)) k;
              (ustack_alloc, k) = alloc_run_of (USER_STACK_PAGES + 1) k
          in if ustack_alloc = 0 then Some (-1, free_run code_base cpages k)
          else
            let ustack_base = ustack_alloc + 4096; (pgd, k) = make_pgd code_base cpages ustack_base k
            in if pgd = 0
               then Some (-1, free_run ustack_alloc (USER_STACK_PAGES + 1) (free_run code_base cpages k))
               else
                 let i = num_tasks k; k = k\<lparr>num_tasks := num_tasks k + 1\<rparr>;
                     k = upd_task i (\<lambda>t. (new_user_task pgd code_base cpages ustack_base name t)
                           \<lparr>heap_break := USER_VA_CODE + ucast (cpages * 4096), parent_tid := -1\<rparr>) k
                 in case fd_table_init (fds k) of
                      None \<Rightarrow> None
                    | Some (tab, s) \<Rightarrow>
                        Some (int i, upd_task i (\<lambda>t. t\<lparr>fdt := tab, sig := signal_init (sig t),
                          ctx := start_ctx (kstack_top im i) (task_wrapper im)\<rparr>) (k\<lparr>fds := s\<rparr>)))"

section \<open>Switching\<close>

definition pick_next :: "kernel \<Rightarrow> nat" where
  "pick_next k =
     (case List.find (\<lambda>i. tstate (task_at k i) = TASK_READY)
             (map (\<lambda>i. (current_task k + i) mod num_tasks k) [1..<num_tasks k + 1]) of
        Some i \<Rightarrow> i
      | None \<Rightarrow> if tstate (cur_task k) = TASK_RUNNING then current_task k else 0)"

text \<open>\<open>context_switch.S\<close>: save the callee-saved registers of one task, load those of the other.\<close>

definition context_switch :: "nat \<Rightarrow> nat \<Rightarrow> kernel \<Rightarrow> kernel" where
  "context_switch prev nxt k =
     (let k = upd_task prev (\<lambda>t. t\<lparr>ctx := cpu k\<rparr>) k in k\<lparr>cpu := ctx (task_at k nxt)\<rparr>)"

definition run_task :: "image \<Rightarrow> nat \<Rightarrow> kernel \<Rightarrow> kernel" where
  "run_task im nxt k =
     (let prev = current_task k;
          k = (if tstate (task_at k prev) = TASK_RUNNING
               then upd_task prev (\<lambda>t. t\<lparr>tstate := TASK_READY\<rparr>) k else k);
          k = upd_task nxt (\<lambda>t. t\<lparr>tstate := TASK_RUNNING\<rparr>) k;
          k = k\<lparr>current_task := nxt\<rparr>;
          k = k\<lparr>ttbr0_el1 := mmu_switch_ttbr0 (boot_l1 im) (ttbr0 (task_at k nxt))\<rparr>
      in context_switch prev nxt k)"

definition switch_to :: "image \<Rightarrow> nat \<Rightarrow> kernel \<Rightarrow> kernel" where
  "switch_to im nxt k = (if nxt = current_task k then k else run_task im nxt k)"

definition sched_yield :: "image \<Rightarrow> kernel \<Rightarrow> kernel" where
  "sched_yield im k = switch_to im (pick_next k) k"

definition sched_tick :: "image \<Rightarrow> kernel \<Rightarrow> kernel" where
  "sched_tick im k =
     (let k = upd_task (current_task k) (\<lambda>t. t\<lparr>ticks := ticks t + 1\<rparr>) k; nxt = pick_next k
      in if nxt \<noteq> current_task k then run_task im nxt k else k)"

text \<open>The loop of \<open>sched_exit\<close> over the tasks that may wait for \<open>me\<close>.\<close>

definition wake_waiters :: "nat \<Rightarrow> kernel \<Rightarrow> kernel" where
  "wake_waiters me k = fold (\<lambda>i k.
       if tstate (task_at k i) = TASK_BLOCKED \<and> wait_for_tid (task_at k i) = int me
       then upd_task i (\<lambda>t. t\<lparr>tstate := TASK_READY, wait_for_tid := -1\<rparr>) k else k)
     [0..<num_tasks k] k"

text \<open>\<open>None\<close>: a descriptor table of the exiting task points to no object.\<close>

definition sched_exit :: "image \<Rightarrow> kernel \<Rightarrow> kernel option" where
  "sched_exit im k =
     (let me = current_task k; k = upd_task me (\<lambda>t. t\<lparr>tstate := TASK_FINISHED\<rparr>) k
      in case fd_table_destroy (fdt (task_at k me)) (fds k) of
           None \<Rightarrow> None
         | Some (tab, s) \<Rightarrow>
             let k = (upd_task me (\<lambda>t. t\<lparr>fdt := tab\<rparr>) k)\<lparr>fds := s\<rparr>;
                 k = (if parent_tid (task_at k me) \<ge> 0
                      then snd (signal_send (parent_tid (task_at k me)) (int SIGCHLD) k) else k)
             in Some (sched_yield im (wake_waiters me k)))"

text \<open>
  \<open>sched_wait\<close>: \<open>Blocked\<close> when the task gave the CPU up; the call then returns 0 when the task
  is resumed.
\<close>

definition sched_wait :: "image \<Rightarrow> int \<Rightarrow> kernel \<Rightarrow> int attempt \<times> kernel" where
  "sched_wait im t k =
     (if t < 0 \<or> t \<ge> int (num_tasks k) then (Done (-1), k)
      else if tstate (task_at k (nat t)) = TASK_FINISHED then (Done 0, k)
      else (Blocked,
        sched_yield im (upd_task (current_task k) (\<lambda>x. x\<lparr>tstate := TASK_BLOCKED, wait_for_tid := t\<rparr>) k)))"

section \<open>Fork\<close>

text \<open>The 34 registers of a system-call frame: x0 to x30, SP_EL0, ELR_EL1, SPSR_EL1.\<close>

type_synonym regs = "u64 list"

definition put_frame :: "u64 \<Rightarrow> regs \<Rightarrow> memory \<Rightarrow> memory" where
  "put_frame a rs m = fold (\<lambda>i. store64 (a + of_nat (8 * i)) (rs ! i)) [0..<34] m"

definition get_frame :: "u64 \<Rightarrow> memory \<Rightarrow> regs" where
  "get_frame a m = map (\<lambda>i. load64 m (a + of_nat (8 * i))) [0..<34]"

definition sched_fork :: "image \<Rightarrow> regs \<Rightarrow> kernel \<Rightarrow> (int \<times> kernel) option" where
  "sched_fork im parent_regs k =
     (let parent = cur_task k
      in if \<not> is_user parent then Some (-1, k)
      else if num_tasks k \<ge> SCHED_MAX_TASKS then Some (-1, k)
      else
        let cpages = code_pages parent; (child_code, k) = alloc_run_of cpages k
        in if child_code = 0 then Some (-1, k)
        else
          let k = set_bytes (copy_bytes (unat (cpages * 4096)) (phys_to_virt child_code)
                    (phys_to_virt (code_pa parent))) k;
              (child_salloc, k) = alloc_run_of (USER_STACK_PAGES + 1) k
          in if child_salloc = 0 then Some (-1, free_run child_code cpages k)
          else
            let child_stack = child_salloc + 4096;
                k = set_bytes (copy_bytes (unat (USER_STACK_PAGES * 4096)) (phys_to_virt child_stack)
                      (phys_to_virt (stack_pa parent))) k;
                (pgd, k) = make_pgd child_code cpages child_stack k
            in if pgd = 0
               then Some (-1, free_run child_salloc (USER_STACK_PAGES + 1) (free_run child_code cpages k))
               else
                 let i = num_tasks k; k = k\<lparr>num_tasks := num_tasks k + 1\<rparr>;
                     k = upd_task i (\<lambda>t. (new_user_task pgd child_code cpages child_stack (tname parent) t)
                           \<lparr>heap_break := heap_break parent, parent_tid := int (current_task k)\<rparr>) k
                 in case fd_table_dup (fdt parent) (fds k) of
                      None \<Rightarrow> None
                    | Some (tab, s) \<Rightarrow>
                        let k = upd_task i (\<lambda>t. t\<lparr>fdt := tab,
                                  sig := (sig t)\<lparr>handlers := handlers (sig parent), pending := 0\<rparr>\<rparr>) (k\<lparr>fds := s\<rparr>);
                            child_frame = kstack_top im i - 272;
                            k = set_bytes (put_frame child_frame parent_regs) k;
                            k = set_bytes (store64 child_frame 0) k
                        in Some (int i, upd_task i (\<lambda>t. t\<lparr>ctx := start_ctx child_frame (fork_child_return im)\<rparr>) k))"

end
