(* ===== verification/SchedSpec.thy ===== *)
theory SchedSpec
  imports Sched
begin

text \<open>
  The scheduler's invariant, what each of its operations does to the task table, and the
  properties of the round-robin choice, of switching and of waiting.
\<close>

section \<open>Invariant\<close>

text \<open>
  \<open>sched_wf\<close>: the table's shape, at most one running task, a user page table register that belongs
  to the current task, and no task blocked on a task that has finished. \<open>sched_inv\<close> adds that the
  current task is marked running; only task 0, to which the scheduler falls back when nothing is
  ready, can be current without it.
\<close>

definition waits_but :: "int set \<Rightarrow> kernel \<Rightarrow> bool" where
  "waits_but S k \<longleftrightarrow> (\<forall>i < num_tasks k. tstate (task_at k i) = TASK_BLOCKED \<longrightarrow> wait_for_tid (task_at k i) \<notin> S \<longrightarrow>
     0 \<le> wait_for_tid (task_at k i) \<and> wait_for_tid (task_at k i) < int (num_tasks k)
     \<and> tstate (task_at k (nat (wait_for_tid (task_at k i)))) \<noteq> TASK_FINISHED)"

abbreviation waits_ok :: "kernel \<Rightarrow> bool" where
  "waits_ok \<equiv> waits_but {}"

definition table_ok :: "image \<Rightarrow> kernel \<Rightarrow> bool" where
  "table_ok im k \<longleftrightarrow> length (tasks k) = SCHED_MAX_TASKS \<and> num_tasks k \<le> SCHED_MAX_TASKS
     \<and> current_task k < num_tasks k
     \<and> (\<forall>i < SCHED_MAX_TASKS. tid (task_at k i) = i)
     \<and> (\<forall>i < SCHED_MAX_TASKS. tstate (task_at k i) = TASK_UNUSED \<longleftrightarrow> num_tasks k \<le> i)
     \<and> (\<forall>i < SCHED_MAX_TASKS. tstate (task_at k i) = TASK_RUNNING \<longrightarrow> i = current_task k)
     \<and> ttbr0_el1 k = mmu_switch_ttbr0 (boot_l1 im) (ttbr0 (cur_task k))"

definition sched_wf :: "image \<Rightarrow> kernel \<Rightarrow> bool" where
  "sched_wf im k \<longleftrightarrow> table_ok im k \<and> waits_ok k"

definition sched_inv :: "image \<Rightarrow> kernel \<Rightarrow> bool" where
  "sched_inv im k \<longleftrightarrow> sched_wf im k \<and> (tstate (cur_task k) = TASK_RUNNING \<or> current_task k = 0)"

lemmas sched_defs = table_ok_def waits_but_def sched_wf_def sched_inv_def

lemma table_ok_len: "table_ok im k \<Longrightarrow> i < num_tasks k \<Longrightarrow> i < length (tasks k)"
  by (auto simp: table_ok_def)

section \<open>Switching\<close>

lemma run_task_simps:
  assumes "nxt < length (tasks k)" "current_task k < length (tasks k)" "nxt \<noteq> current_task k"
  shows "current_task (run_task im nxt k) = nxt" "num_tasks (run_task im nxt k) = num_tasks k"
    "length (tasks (run_task im nxt k)) = length (tasks k)" "cpu (run_task im nxt k) = ctx (task_at k nxt)"
    "ttbr0_el1 (run_task im nxt k) = mmu_switch_ttbr0 (boot_l1 im) (ttbr0 (task_at k nxt))"
    "kmm (run_task im nxt k) = kmm k" "fds (run_task im nxt k) = fds k" "start_info (run_task im nxt k) = start_info k"
    "task_at (run_task im nxt k) i = (if i = nxt then (task_at k nxt)\<lparr>tstate := TASK_RUNNING\<rparr>
      else if i = current_task k then (task_at k i)\<lparr>ctx := cpu k,
        tstate := if tstate (task_at k i) = TASK_RUNNING then TASK_READY else tstate (task_at k i)\<rparr>
      else task_at k i)"
  using assms by (auto simp: run_task_def context_switch_def Let_def task_at_upd)

lemma pick_next_cases:
  assumes n: "0 < num_tasks k"
  obtains (ready) d where "1 \<le> d" "d \<le> num_tasks k" "pick_next k = (current_task k + d) mod num_tasks k"
      "tstate (task_at k (pick_next k)) = TASK_READY"
      "\<And>e. \<lbrakk>1 \<le> e; e < d\<rbrakk> \<Longrightarrow> tstate (task_at k ((current_task k + e) mod num_tasks k)) \<noteq> TASK_READY"
  | (stay) "pick_next k = current_task k" "tstate (cur_task k) = TASK_RUNNING"
      "\<And>i. i < num_tasks k \<Longrightarrow> tstate (task_at k i) \<noteq> TASK_READY"
  | (idle) "pick_next k = 0" "tstate (cur_task k) \<noteq> TASK_RUNNING"
      "\<And>i. i < num_tasks k \<Longrightarrow> tstate (task_at k i) \<noteq> TASK_READY"
proof -
  let ?n = "num_tasks k" and ?c = "current_task k"
  let ?f = "List.find (\<lambda>i. tstate (task_at k i) = TASK_READY) (map (\<lambda>i. (?c + i) mod ?n) [1..<?n + 1])"
  have all: "\<forall>i < ?n. tstate (task_at k i) \<noteq> TASK_READY" if "?f = None"
  proof (intro allI impI)
    fix i assume i: "i < ?n"
    define d where "d = (if ?c mod ?n < i then i - ?c mod ?n else i + ?n - ?c mod ?n)"
    have c: "?c mod ?n < ?n" using n by simp
    have d: "1 \<le> d" "d \<le> ?n" unfolding d_def using i c by (auto simp del: mod_less_divisor)
    have "(?c + d) mod ?n = (?c mod ?n + d) mod ?n" by (simp add: mod_add_left_eq)
    also have "\<dots> = i"
    proof (cases "?c mod ?n < i")
      case True
      then show ?thesis using i by (simp add: d_def)
    next
      case False
      then have "?c mod ?n + d = i + ?n" using c by (simp add: d_def)
      then show ?thesis using i by simp
    qed
    finally have di: "(?c + d) mod ?n = i" .
    have "d \<in> set [1..<?n + 1]" using d by (simp del: upt_Suc)
    from imageI [OF this, of "\<lambda>i. (?c + i) mod ?n"]
    have "i \<in> set (map (\<lambda>i. (?c + i) mod ?n) [1..<?n + 1])" unfolding di set_map .
    then show "tstate (task_at k i) \<noteq> TASK_READY" using that by (auto simp: find_None_iff)
  qed
  show ?thesis
  proof (cases ?f)
    case None
    show ?thesis
    proof (cases "tstate (cur_task k) = TASK_RUNNING")
      case True
      then have "pick_next k = ?c" unfolding pick_next_def None by simp
      with True show ?thesis using stay all [OF None] by blast
    next
      case False
      then have "pick_next k = 0" unfolding pick_next_def None by simp
      with False show ?thesis using idle all [OF None] by blast
    qed
  next
    case (Some i)
    then have p: "pick_next k = i" unfolding pick_next_def by simp
    from Some obtain e where e: "e < ?n" "tstate (task_at k i) = TASK_READY" "i = (?c + Suc e) mod ?n"
      "\<forall>j < e. tstate (task_at k ((?c + Suc j) mod ?n)) \<noteq> TASK_READY"
      by (auto simp: find_Some_iff simp del: upt_Suc)
    show ?thesis
    proof (rule ready [of "Suc e"])
      fix j assume "1 \<le> j" "j < Suc e"
      then have "j - 1 < e" "Suc (j - 1) = j" by auto
      then show "tstate (task_at k ((?c + j) mod ?n)) \<noteq> TASK_READY" using e(4) by metis
    qed (use e p in auto)
  qed
qed

lemma pick_next_less: "0 < num_tasks k \<Longrightarrow> current_task k < num_tasks k \<Longrightarrow> pick_next k < num_tasks k"
  by (cases rule: pick_next_cases [of k]) auto


lemma cur_less: "table_ok im k \<Longrightarrow> current_task k < length (tasks k)"
  by (auto simp: table_ok_def)

lemma run_task_wf:
  assumes t: "table_ok im k" and nxt: "nxt < num_tasks k" "nxt \<noteq> current_task k"
  shows "table_ok im (run_task im nxt k)" "tstate (cur_task (run_task im nxt k)) = TASK_RUNNING"
    "waits_ok k \<Longrightarrow> waits_ok (run_task im nxt k)"
proof -
  note l = table_ok_len [OF t nxt(1)] cur_less [OF t] nxt(2)
  note s = run_task_simps [OF l]
  have st: "tstate (task_at k nxt) \<noteq> TASK_UNUSED" "tstate (cur_task k) \<noteq> TASK_UNUSED" "current_task k < num_tasks k"
    using t nxt(1) by (auto simp: table_ok_def)
  show "table_ok im (run_task im nxt k)"
    unfolding table_ok_def s
  proof (intro conjI allI impI)
    fix i assume i: "i < SCHED_MAX_TASKS"
    show "tid (if i = nxt then task_at k nxt\<lparr>tstate := TASK_RUNNING\<rparr> else if i = current_task k then (task_at k i)\<lparr>ctx := cpu k,
        tstate := if tstate (task_at k i) = TASK_RUNNING then TASK_READY else tstate (task_at k i)\<rparr> else task_at k i) = i"
      using t i by (auto simp: table_ok_def)
  qed (use t nxt st in \<open>auto simp: table_ok_def split: if_splits\<close>)
  show "tstate (cur_task (run_task im nxt k)) = TASK_RUNNING" by (simp add: s)
  show "waits_ok (run_task im nxt k)" if "waits_ok k"
    using that unfolding waits_but_def s by (auto split: if_splits)
qed

lemma switch_to_inv:
  assumes "sched_wf im k" "nxt < num_tasks k" "nxt = current_task k \<longrightarrow> tstate (cur_task k) = TASK_RUNNING \<or> nxt = 0"
  shows "sched_inv im (switch_to im nxt k)"
  using assms run_task_wf [of im k nxt] by (auto simp: switch_to_def sched_inv_def sched_wf_def)

lemma pick_next_running:
  assumes "table_ok im k"
  shows "pick_next k < num_tasks k" "pick_next k = current_task k \<longrightarrow> tstate (cur_task k) = TASK_RUNNING \<or> pick_next k = 0 \<or> tstate (cur_task k) = TASK_READY"
proof -
  have n: "0 < num_tasks k" "current_task k < num_tasks k" using assms by (auto simp: table_ok_def)
  show "pick_next k < num_tasks k" using pick_next_less [OF n] .
  show "pick_next k = current_task k \<longrightarrow> tstate (cur_task k) = TASK_RUNNING \<or> pick_next k = 0 \<or> tstate (cur_task k) = TASK_READY"
    using n(1) by (cases rule: pick_next_cases [of k]) auto
qed

lemma sched_yield_inv:
  assumes "sched_wf im k" "tstate (cur_task k) \<noteq> TASK_READY"
  shows "sched_inv im (sched_yield im k)"
proof -
  have "table_ok im k" using assms(1) by (simp add: sched_wf_def)
  then show ?thesis
    unfolding sched_yield_def using pick_next_running [of im k] assms by (intro switch_to_inv) auto
qed


section \<open>The other operations\<close>

lemma upd_table_ok:
  assumes "table_ok im k" "i < length (tasks k)"
    "tid (f (task_at k i)) = tid (task_at k i)" "ttbr0 (f (task_at k i)) = ttbr0 (task_at k i)"
    "tstate (f (task_at k i)) = TASK_UNUSED \<longleftrightarrow> tstate (task_at k i) = TASK_UNUSED"
    "tstate (f (task_at k i)) = TASK_RUNNING \<longrightarrow> tstate (task_at k i) = TASK_RUNNING"
  shows "table_ok im (upd_task i f k)"
  using assms unfolding table_ok_def by (auto simp: task_at_upd)

lemma upd_waits:
  assumes "waits_but S k" "i < length (tasks k)" "num_tasks k \<le> length (tasks k)" "S \<subseteq> S'"
    "tstate (f (task_at k i)) = TASK_FINISHED \<longrightarrow> tstate (task_at k i) = TASK_FINISHED \<or> int i \<in> S'"
    "tstate (f (task_at k i)) = TASK_BLOCKED \<longrightarrow> tstate (task_at k i) = TASK_BLOCKED
       \<and> wait_for_tid (f (task_at k i)) = wait_for_tid (task_at k i)"
  shows "waits_but S' (upd_task i f k)"
proof -
  have *: "0 \<le> wait_for_tid (task_at k j) \<and> wait_for_tid (task_at k j) < int (num_tasks k)
      \<and> tstate (task_at (upd_task i f k) (nat (wait_for_tid (task_at k j)))) \<noteq> TASK_FINISHED"
    if j: "j < num_tasks k" "tstate (task_at k j) = TASK_BLOCKED" "wait_for_tid (task_at k j) \<notin> S'" for j
  proof -
    have "0 \<le> wait_for_tid (task_at k j)" "wait_for_tid (task_at k j) < int (num_tasks k)"
      "tstate (task_at k (nat (wait_for_tid (task_at k j)))) \<noteq> TASK_FINISHED"
      using j assms(1,4) unfolding waits_but_def by blast+
    then show ?thesis using assms(2,5) j(3) by (auto simp: task_at_upd)
  qed
  show ?thesis
    unfolding waits_but_def
  proof (intro allI impI)
    fix j assume j: "j < num_tasks (upd_task i f k)" "tstate (task_at (upd_task i f k) j) = TASK_BLOCKED"
      "wait_for_tid (task_at (upd_task i f k) j) \<notin> S'"
    then have "tstate (task_at k j) = TASK_BLOCKED" "wait_for_tid (task_at (upd_task i f k) j) = wait_for_tid (task_at k j)"
      using assms(2,6) by (auto simp: task_at_upd split: if_splits)
    then show "0 \<le> wait_for_tid (task_at (upd_task i f k) j)
        \<and> wait_for_tid (task_at (upd_task i f k) j) < int (num_tasks (upd_task i f k))
        \<and> tstate (task_at (upd_task i f k) (nat (wait_for_tid (task_at (upd_task i f k) j)))) \<noteq> TASK_FINISHED"
      using * [of j] j by simp
  qed
qed

text \<open>Posting a signal to a task: the pending bit, and waking it when it is blocked.\<close>

definition posted :: "nat \<Rightarrow> task \<Rightarrow> task" where
  "posted sg t = (let t = t\<lparr>sig := (sig t)\<lparr>pending := pending (sig t) OR push_bit sg 1\<rparr>\<rparr>
     in if tstate t = TASK_BLOCKED then t\<lparr>tstate := TASK_READY, wait_for_tid := -1\<rparr> else t)"

lemma signal_send_cases:
  assumes "signal_send t sg k = (r, k')" "num_tasks k \<le> length (tasks k)"
  obtains (refused) "r = -1" "k' = k"
  | (sent) "1 \<le> sg" "sg < int NSIG" "0 \<le> t" "t < int (num_tasks k)" "tstate (task_at k (nat t)) \<noteq> TASK_UNUSED"
      "tstate (task_at k (nat t)) \<noteq> TASK_FINISHED" "r = 0" "k' = upd_task (nat t) (posted (nat sg)) k"
proof (cases "1 \<le> sg \<and> sg < int NSIG \<and> 0 \<le> t \<and> t < int (num_tasks k)
    \<and> tstate (task_at k (nat t)) \<noteq> TASK_UNUSED \<and> tstate (task_at k (nat t)) \<noteq> TASK_FINISHED")
  case True
  then have l: "nat t < length (tasks k)" using assms(2) by auto
  have "(r, k') = (0, upd_task (nat t) (posted (nat sg)) k)"
    using True assms(1) l
    by (auto simp: signal_send_def sched_get_task_def Let_def upd_task_def posted_def split: if_splits)
  then show ?thesis using True sent by simp
next
  case False
  then have "(r, k') = (-1, k)"
    using assms(1) by (auto simp: signal_send_def sched_get_task_def split: if_splits)
  then show ?thesis using refused by simp
qed

lemma posted_simps [simp]:
  "tid (posted sg t) = tid t" "ttbr0 (posted sg t) = ttbr0 t" "ctx (posted sg t) = ctx t" "fdt (posted sg t) = fdt t"
  "is_user (posted sg t) = is_user t" "code_pa (posted sg t) = code_pa t" "code_pages (posted sg t) = code_pages t"
  "stack_pa (posted sg t) = stack_pa t" "parent_tid (posted sg t) = parent_tid t" "heap_break (posted sg t) = heap_break t"
  "tstate (posted sg t) = (if tstate t = TASK_BLOCKED then TASK_READY else tstate t)"
  by (simp_all add: posted_def Let_def)

lemma signal_send_wf:
  assumes w: "table_ok im k" "waits_but S k" and r: "signal_send t sg k = (r, k')"
  shows "table_ok im k' \<and> waits_but S k' \<and> current_task k' = current_task k \<and> num_tasks k' = num_tasks k
    \<and> kmm k' = kmm k \<and> fds k' = fds k \<and> cpu k' = cpu k
    \<and> (tstate (cur_task k') = TASK_READY \<longrightarrow> tstate (cur_task k) = TASK_READY \<or> tstate (cur_task k) = TASK_BLOCKED)
    \<and> (tstate (cur_task k) = TASK_RUNNING \<longrightarrow> tstate (cur_task k') = TASK_RUNNING)
    \<and> (\<forall>i. task_at k' i = task_at k i \<or> task_at k' i = posted (nat sg) (task_at k i))"
proof -
  have len: "num_tasks k \<le> length (tasks k)" using w by (auto simp: table_ok_def)
  from r len show ?thesis
  proof (cases rule: signal_send_cases)
    case refused
    then show ?thesis using w by simp
  next
    case sent
    then have i: "nat t < length (tasks k)" using len by auto
    have "table_ok im k'" unfolding sent(8) using w i by (intro upd_table_ok) auto
    moreover have "waits_but S k'" unfolding sent(8) using w i len by (intro upd_waits) auto
    ultimately show ?thesis using i by (auto simp: sent(8) task_at_upd)
  qed
qed

lemma wake_waiters_simps:
  shows "length (tasks (wake_waiters me k)) = length (tasks k)" "current_task (wake_waiters me k) = current_task k"
    "num_tasks (wake_waiters me k) = num_tasks k" "cpu (wake_waiters me k) = cpu k" "kmm (wake_waiters me k) = kmm k"
    "fds (wake_waiters me k) = fds k" "ttbr0_el1 (wake_waiters me k) = ttbr0_el1 k"
    "num_tasks k \<le> length (tasks k) \<Longrightarrow> task_at (wake_waiters me k) i =
      (if i < num_tasks k \<and> tstate (task_at k i) = TASK_BLOCKED \<and> wait_for_tid (task_at k i) = int me
       then (task_at k i)\<lparr>tstate := TASK_READY, wait_for_tid := -1\<rparr> else task_at k i)"
proof -
  let ?w = "\<lambda>n. fold (\<lambda>i k. if tstate (task_at k i) = TASK_BLOCKED \<and> wait_for_tid (task_at k i) = int me
       then upd_task i (\<lambda>t. t\<lparr>tstate := TASK_READY, wait_for_tid := -1\<rparr>) k else k) [0..<n] k"
  have "length (tasks (?w n)) = length (tasks k) \<and> current_task (?w n) = current_task k \<and> num_tasks (?w n) = num_tasks k
    \<and> cpu (?w n) = cpu k \<and> kmm (?w n) = kmm k \<and> fds (?w n) = fds k \<and> ttbr0_el1 (?w n) = ttbr0_el1 k" for n
    by (induction n) auto
  then show "length (tasks (wake_waiters me k)) = length (tasks k)" "current_task (wake_waiters me k) = current_task k"
    "num_tasks (wake_waiters me k) = num_tasks k" "cpu (wake_waiters me k) = cpu k" "kmm (wake_waiters me k) = kmm k"
    "fds (wake_waiters me k) = fds k" "ttbr0_el1 (wake_waiters me k) = ttbr0_el1 k" by (simp_all add: wake_waiters_def)
  have "length (tasks (?w n)) = length (tasks k) \<and> task_at (?w n) i =
      (if i < n \<and> tstate (task_at k i) = TASK_BLOCKED \<and> wait_for_tid (task_at k i) = int me
       then (task_at k i)\<lparr>tstate := TASK_READY, wait_for_tid := -1\<rparr> else task_at k i)" if "n \<le> length (tasks k)" for n i
    using that
  proof (induction n arbitrary: i)
    case (Suc n)
    then show ?case by (auto simp: task_at_upd less_Suc_eq)
  qed simp
  then show "task_at (wake_waiters me k) i =
      (if i < num_tasks k \<and> tstate (task_at k i) = TASK_BLOCKED \<and> wait_for_tid (task_at k i) = int me
       then (task_at k i)\<lparr>tstate := TASK_READY, wait_for_tid := -1\<rparr> else task_at k i)"
    if "num_tasks k \<le> length (tasks k)" using that by (simp only: wake_waiters_def)
qed


text \<open>A new task in the first free slot.\<close>

lemma new_task_wf:
  assumes w: "table_ok im k" "waits_ok k" and n: "num_tasks k < SCHED_MAX_TASKS"
    and t: "length (tasks k') = length (tasks k)" "current_task k' = current_task k" "num_tasks k' = Suc (num_tasks k)"
      "ttbr0_el1 k' = ttbr0_el1 k" "\<And>i. i \<noteq> num_tasks k \<Longrightarrow> task_at k' i = task_at k i"
    and s: "tstate (task_at k' (num_tasks k)) = TASK_READY" "tid (task_at k' (num_tasks k)) = tid (task_at k (num_tasks k))"
  shows "table_ok im k'" "waits_ok k'" "cur_task k' = cur_task k"
proof -
  have c: "current_task k < num_tasks k" using w(1) by (auto simp: table_ok_def)
  have at: "task_at k' i = (if i = num_tasks k then task_at k' (num_tasks k) else task_at k i)" for i
    using t(5) by simp
  show "cur_task k' = cur_task k" using c t by simp
  show "table_ok im k'"
    unfolding table_ok_def t(1-4)
  proof (intro conjI allI impI)
    fix i assume i: "i < SCHED_MAX_TASKS"
    show "tid (task_at k' i) = i" using w(1) i s(2) by (subst at) (auto simp: table_ok_def)
    show "(tstate (task_at k' i) = TASK_UNUSED) = (Suc (num_tasks k) \<le> i)"
      using w(1) i s(1) by (subst at) (auto simp: table_ok_def)
    show "i = current_task k" if "tstate (task_at k' i) = TASK_RUNNING"
      using that w(1) i s(1) by (subst (asm) at) (auto simp: table_ok_def split: if_splits)
  qed (use w(1) n c t(5) in \<open>auto simp: table_ok_def\<close>)
  show "waits_ok k'"
    unfolding waits_but_def t(3)
  proof (intro allI impI)
    fix i assume i: "i < Suc (num_tasks k)" "tstate (task_at k' i) = TASK_BLOCKED"
    then have i': "i < num_tasks k" "task_at k' i = task_at k i" using s(1) t(5) by (auto simp: less_Suc_eq)
    then have "0 \<le> wait_for_tid (task_at k i) \<and> wait_for_tid (task_at k i) < int (num_tasks k)
        \<and> tstate (task_at k (nat (wait_for_tid (task_at k i)))) \<noteq> TASK_FINISHED"
      using w(2) i(2) unfolding waits_but_def by auto
    then show "0 \<le> wait_for_tid (task_at k' i) \<and> wait_for_tid (task_at k' i) < int (Suc (num_tasks k))
        \<and> tstate (task_at k' (nat (wait_for_tid (task_at k' i)))) \<noteq> TASK_FINISHED"
      unfolding i'(2) using t(5) by (metis nat_less_iff less_irrefl of_nat_Suc less_Suc_eq of_nat_less_iff zless_nat_eq_int_zless order.strict_trans lessI)
  qed
qed

lemma sched_create_inv:
  assumes "sched_inv im k" "sched_create im name e a k = (r, k')"
  shows "sched_inv im k'"
proof (cases "num_tasks k < SCHED_MAX_TASKS")
  case False
  then show ?thesis using assms by (simp add: sched_create_def)
next
  case True
  have w: "table_ok im k" "waits_ok k" using assms(1) by (auto simp: sched_inv_def sched_wf_def)
  have l: "num_tasks k < length (tasks k)" using w True by (auto simp: table_ok_def)
  have k': "k' = snd (sched_create im name e a k)" using assms(2) by simp
  have "table_ok im k'" "waits_ok k'" "cur_task k' = cur_task k"
    by (rule new_task_wf [OF w True]; use l True in \<open>simp add: k' sched_create_def Let_def upd_task_def\<close>)+
  moreover have "current_task k' = current_task k" using True by (simp add: k' sched_create_def Let_def)
  ultimately show ?thesis using assms(1) by (auto simp: sched_inv_def sched_wf_def)
qed

lemma sched_tick_inv:
  assumes "sched_inv im k"
  shows "sched_inv im (sched_tick im k)"
proof -
  let ?k = "upd_task (current_task k) (\<lambda>t. t\<lparr>ticks := ticks t + 1\<rparr>) k"
  have w: "table_ok im k" "waits_ok k" using assms by (auto simp: sched_inv_def sched_wf_def)
  have l: "current_task k < length (tasks k)" "num_tasks k \<le> length (tasks k)" using w by (auto simp: table_ok_def)
  have t: "table_ok im ?k" using w l by (intro upd_table_ok) auto
  have v: "waits_ok ?k" using w l by (intro upd_waits) auto
  have "sched_tick im k = switch_to im (pick_next ?k) ?k" by (simp add: sched_tick_def switch_to_def Let_def)
  moreover have "sched_inv im (switch_to im (pick_next ?k) ?k)"
  proof (rule switch_to_inv)
    show "sched_wf im ?k" using t v by (simp add: sched_wf_def)
    show "pick_next ?k < num_tasks ?k" using pick_next_running [OF t] by simp
    show "pick_next ?k = current_task ?k \<longrightarrow> tstate (cur_task ?k) = TASK_RUNNING \<or> pick_next ?k = 0"
      using assms l by (auto simp: sched_inv_def task_at_upd)
  qed
  ultimately show ?thesis by simp
qed


text \<open>The state in which an exiting or waiting task calls \<open>sched_yield\<close>.\<close>

lemma sched_exit_yields:
  assumes inv: "sched_inv im k" and r: "sched_exit im k = Some k'"
  obtains tab s k2 where "fd_table_destroy (fdt (cur_task k)) (fds k) = Some (tab, s)"
    "k' = sched_yield im k2" "sched_wf im k2" "current_task k2 = current_task k" "num_tasks k2 = num_tasks k"
    "tstate (cur_task k2) = TASK_FINISHED" "fds k2 = s" "kmm k2 = kmm k" "cpu k2 = cpu k" "fdt (cur_task k2) = tab"
    "\<And>i. i < num_tasks k \<Longrightarrow> tstate (task_at k2 i) = TASK_BLOCKED \<Longrightarrow> wait_for_tid (task_at k2 i) \<noteq> int (current_task k)"
    "\<And>i. i \<noteq> current_task k \<Longrightarrow> fdt (task_at k2 i) = fdt (task_at k i)"
    "\<And>i. is_user (task_at k2 i) = is_user (task_at k i) \<and> ttbr0 (task_at k2 i) = ttbr0 (task_at k i)
       \<and> ctx (task_at k2 i) = ctx (task_at k i) \<and> code_pa (task_at k2 i) = code_pa (task_at k i)
       \<and> code_pages (task_at k2 i) = code_pages (task_at k i) \<and> stack_pa (task_at k2 i) = stack_pa (task_at k i)
       \<and> heap_break (task_at k2 i) = heap_break (task_at k i)"
    "length (tasks k2) = length (tasks k)"
    "\<And>i. \<lbrakk>i < num_tasks k; i \<noteq> current_task k; tstate (task_at k i) = TASK_BLOCKED; wait_for_tid (task_at k i) = int (current_task k)\<rbrakk>
       \<Longrightarrow> tstate (task_at k2 i) = TASK_READY"
    "\<And>i. i \<noteq> current_task k \<Longrightarrow> tstate (task_at k2 i) = tstate (task_at k i)
       \<or> tstate (task_at k i) = TASK_BLOCKED \<and> tstate (task_at k2 i) = TASK_READY"
    "sig (cur_task k2) = sig (cur_task k)"
proof -
  let ?me = "current_task k"
  have w: "table_ok im k" "waits_ok k" using inv by (auto simp: sched_inv_def sched_wf_def)
  have l: "?me < length (tasks k)" "num_tasks k \<le> length (tasks k)" "?me < num_tasks k" using w by (auto simp: table_ok_def)
  have nu: "tstate (cur_task k) \<noteq> TASK_UNUSED" using w l by (auto simp: table_ok_def)
  obtain tab s where d: "fd_table_destroy (fdt (cur_task k)) (fds k) = Some (tab, s)"
    using r l by (auto simp: sched_exit_def Let_def task_at_upd split: option.splits)
  define k1 where "k1 = (upd_task ?me (\<lambda>t. t\<lparr>tstate := TASK_FINISHED, fdt := tab\<rparr>) k)\<lparr>fds := s\<rparr>"
  define k1' where "k1' = upd_task ?me (\<lambda>t. t\<lparr>tstate := TASK_FINISHED, fdt := tab\<rparr>) k"
  have "table_ok im k1'" unfolding k1'_def using w l nu by (intro upd_table_ok) auto
  then have t1: "table_ok im k1" by (simp add: k1_def k1'_def table_ok_def)
  have "waits_but {int ?me} k1'" unfolding k1'_def using w(2) l by (intro upd_waits) auto
  then have w1: "waits_but {int ?me} k1" by (simp add: k1_def k1'_def waits_but_def)
  define k2 where "k2 = (if parent_tid (task_at k1 ?me) \<ge> 0
      then snd (signal_send (parent_tid (task_at k1 ?me)) (int SIGCHLD) k1) else k1)"
  have k1s: "current_task k1 = ?me" "num_tasks k1 = num_tasks k" "fds k1 = s" "kmm k1 = kmm k" "cpu k1 = cpu k"
    "length (tasks k1) = length (tasks k)"
    "task_at k1 i = (if i = ?me then (task_at k i)\<lparr>tstate := TASK_FINISHED, fdt := tab\<rparr> else task_at k i)" for i
    using l by (simp_all add: k1_def upd_task_def)
  have "(upd_task ?me (\<lambda>t. t\<lparr>fdt := tab\<rparr>) (upd_task ?me (\<lambda>t. t\<lparr>tstate := TASK_FINISHED\<rparr>) k))\<lparr>fds := s\<rparr> = k1"
    using l by (simp add: k1_def upd_task_def)
  then have k': "k' = sched_yield im (wake_waiters ?me k2)"
    using r d l k1s(7) [of ?me] by (auto simp: sched_exit_def Let_def task_at_upd k2_def)
  have P: "table_ok im k2 \<and> waits_but {int ?me} k2 \<and> current_task k2 = ?me \<and> num_tasks k2 = num_tasks k
    \<and> kmm k2 = kmm k \<and> fds k2 = s \<and> cpu k2 = cpu k \<and> tstate (cur_task k2) = TASK_FINISHED
    \<and> (\<forall>i. task_at k2 i = task_at k1 i \<or> task_at k2 i = posted SIGCHLD (task_at k1 i)) \<and> length (tasks k2) = length (tasks k)"
  proof (cases "parent_tid (task_at k1 ?me) \<ge> 0")
    case False
    then show ?thesis using t1 w1 k1s by (simp add: k2_def)
  next
    case True
    obtain r1 k1x where x: "signal_send (parent_tid (task_at k1 ?me)) (int SIGCHLD) k1 = (r1, k1x)" by fastforce
    then have k2: "k2 = k1x" using True by (simp add: k2_def)
    note c = signal_send_wf [OF t1 w1 x]
    have len: "length (tasks k1x) = length (tasks k1)" using t1 c by (simp add: table_ok_def)
    have "task_at k1x ?me = task_at k1 ?me \<or> task_at k1x ?me = posted SIGCHLD (task_at k1 ?me)"
      using c by simp
    then have "tstate (task_at k1x ?me) = TASK_FINISHED" using k1s(7) [of ?me] by auto
    then show ?thesis using c len k1s unfolding k2 by auto
  qed
  have own: "task_at k2 ?me = task_at k1 ?me"
  proof (cases "parent_tid (task_at k1 ?me) \<ge> 0")
    case True
    obtain r1 k1x where x: "signal_send (parent_tid (task_at k1 ?me)) (int SIGCHLD) k1 = (r1, k1x)" by fastforce
    then have k2: "k2 = k1x" using True by (simp add: k2_def)
    have "num_tasks k1 \<le> length (tasks k1)" using k1s l by simp
    with x show ?thesis unfolding k2
    proof (cases rule: signal_send_cases)
      case sent
      then have "nat (parent_tid (task_at k1 ?me)) \<noteq> ?me" using k1s(7) [of ?me] by auto
      then show "task_at k1x ?me = task_at k1 ?me" using sent(3,4,8) k1s(2,6) l by (simp add: task_at_upd)
    qed simp
  qed (simp add: k2_def)
  have len2: "num_tasks k2 \<le> length (tasks k2)" using P l by simp
  note v = wake_waiters_simps(1-7) [of ?me k2] wake_waiters_simps(8) [OF len2, of ?me]
  have F: "task_at k2 i = task_at k1 i \<or> task_at k2 i = posted SIGCHLD (task_at k1 i)" for i using P by blast
  have P': "current_task k2 = ?me" "num_tasks k2 = num_tasks k" using P by blast+
  have table: "table_ok im (wake_waiters ?me k2)"
    using P unfolding table_ok_def v by (auto split: if_splits)
  have wait: "waits_ok (wake_waiters ?me k2)"
    unfolding waits_but_def
  proof (intro allI impI)
    fix i assume i: "i < num_tasks (wake_waiters ?me k2)" "tstate (task_at (wake_waiters ?me k2) i) = TASK_BLOCKED"
    then have i': "i < num_tasks k2" "tstate (task_at k2 i) = TASK_BLOCKED" "wait_for_tid (task_at k2 i) \<noteq> int ?me"
      "task_at (wake_waiters ?me k2) i = task_at k2 i"
      by (auto simp: v split: if_splits)
    have "0 \<le> wait_for_tid (task_at k2 i) \<and> wait_for_tid (task_at k2 i) < int (num_tasks k2)
        \<and> tstate (task_at k2 (nat (wait_for_tid (task_at k2 i)))) \<noteq> TASK_FINISHED"
      using P i' unfolding waits_but_def by blast
    then show "0 \<le> wait_for_tid (task_at (wake_waiters ?me k2) i)
        \<and> wait_for_tid (task_at (wake_waiters ?me k2) i) < int (num_tasks (wake_waiters ?me k2))
        \<and> tstate (task_at (wake_waiters ?me k2) (nat (wait_for_tid (task_at (wake_waiters ?me k2) i)))) \<noteq> TASK_FINISHED"
      unfolding i'(4) by (simp add: v)
  qed
  have same: "is_user (task_at (wake_waiters ?me k2) i) = is_user (task_at k i) \<and> ttbr0 (task_at (wake_waiters ?me k2) i) = ttbr0 (task_at k i)
       \<and> ctx (task_at (wake_waiters ?me k2) i) = ctx (task_at k i) \<and> code_pa (task_at (wake_waiters ?me k2) i) = code_pa (task_at k i)
       \<and> code_pages (task_at (wake_waiters ?me k2) i) = code_pages (task_at k i) \<and> stack_pa (task_at (wake_waiters ?me k2) i) = stack_pa (task_at k i)
       \<and> heap_break (task_at (wake_waiters ?me k2) i) = heap_break (task_at k i)" for i
    using F [of i] by (cases "i = ?me") (auto simp: v k1s(7))
  have fdts: "fdt (task_at (wake_waiters ?me k2) i) = (if i = ?me then tab else fdt (task_at k i))" for i
    using F [of i] by (cases "i = ?me") (auto simp: v k1s(7))
  show ?thesis
  proof (rule that [OF d k'])
    show "sched_wf im (wake_waiters ?me k2)" using table wait by (simp add: sched_wf_def)
    show "tstate (cur_task (wake_waiters ?me k2)) = TASK_FINISHED"
      using P by (auto simp: v)
    show "wait_for_tid (task_at (wake_waiters ?me k2) i) \<noteq> int ?me"
      if "i < num_tasks k" "tstate (task_at (wake_waiters ?me k2) i) = TASK_BLOCKED" for i
      using that P'(2) by (auto simp: v split: if_splits)
    show "fdt (cur_task (wake_waiters ?me k2)) = tab" using fdts [of ?me] P'(1) v(2) by simp
    show "tstate (task_at (wake_waiters ?me k2) i) = TASK_READY" if "i < num_tasks k" "i \<noteq> ?me"
      "tstate (task_at k i) = TASK_BLOCKED" "wait_for_tid (task_at k i) = int ?me" for i
      using F [of i] that P'(2) by (auto simp: v k1s(7))
    show "tstate (task_at (wake_waiters ?me k2) i) = tstate (task_at k i)
       \<or> tstate (task_at k i) = TASK_BLOCKED \<and> tstate (task_at (wake_waiters ?me k2) i) = TASK_READY" if "i \<noteq> ?me" for i
      using F [of i] that by (auto simp: v k1s(7) split: if_splits)
    show "sig (cur_task (wake_waiters ?me k2)) = sig (cur_task k)"
      using P own by (auto simp: v k1s(7))
  qed (use P P' same fdts in \<open>simp_all add: v\<close>)
qed

lemma sched_exit_inv:
  assumes "sched_inv im k" "sched_exit im k = Some k'"
  shows "sched_inv im k'"
  using assms
proof (rule sched_exit_yields)
  fix k2 assume "k' = sched_yield im k2" "sched_wf im k2" "tstate (cur_task k2) = TASK_FINISHED"
  then show ?thesis using sched_yield_inv [of im k2] by simp
qed

lemma sched_wait_inv:
  assumes inv: "sched_inv im k" and r: "sched_wait im t k = (r, k')"
  shows "sched_inv im k'"
proof (cases "t < 0 \<or> t \<ge> int (num_tasks k) \<or> tstate (task_at k (nat t)) = TASK_FINISHED")
  case True
  then show ?thesis using inv r by (auto simp: sched_wait_def split: if_splits)
next
  case False
  let ?k = "upd_task (current_task k) (\<lambda>x. x\<lparr>tstate := TASK_BLOCKED, wait_for_tid := t\<rparr>) k"
  have w: "table_ok im k" "waits_ok k" using inv by (auto simp: sched_inv_def sched_wf_def)
  have l: "current_task k < length (tasks k)" "num_tasks k \<le> length (tasks k)" "current_task k < num_tasks k"
    using w by (auto simp: table_ok_def)
  have "tstate (cur_task k) \<noteq> TASK_UNUSED" using w l by (auto simp: table_ok_def)
  then have "table_ok im ?k" using w l by (intro upd_table_ok) auto
  moreover have "waits_ok ?k"
    unfolding waits_but_def
  proof (intro allI impI)
    fix i assume i: "i < num_tasks ?k" "tstate (task_at ?k i) = TASK_BLOCKED"
    show "0 \<le> wait_for_tid (task_at ?k i) \<and> wait_for_tid (task_at ?k i) < int (num_tasks ?k)
        \<and> tstate (task_at ?k (nat (wait_for_tid (task_at ?k i)))) \<noteq> TASK_FINISHED"
    proof (cases "i = current_task k")
      case True
      then show ?thesis using False l by (auto simp: task_at_upd)
    next
      case ne: False
      then have "0 \<le> wait_for_tid (task_at k i) \<and> wait_for_tid (task_at k i) < int (num_tasks k)
        \<and> tstate (task_at k (nat (wait_for_tid (task_at k i)))) \<noteq> TASK_FINISHED"
        using w(2) i l unfolding waits_but_def by (auto simp: task_at_upd)
      then show ?thesis using ne l by (auto simp: task_at_upd)
    qed
  qed
  ultimately have "sched_wf im ?k" by (simp add: sched_wf_def)
  moreover have "tstate (cur_task ?k) \<noteq> TASK_READY" using l by (simp add: task_at_upd)
  moreover have "k' = sched_yield im ?k" using False r by (auto simp: sched_wait_def)
  ultimately show ?thesis using sched_yield_inv by simp
qed


section \<open>Round robin\<close>

lemma mod_add_neq: "(c + d) mod n \<noteq> c" if "c < n" "0 < d" "d < n" for c d n :: nat
proof (cases "c + d < n")
  case False
  then have "(c + d) mod n = c + d - n" using that by (simp add: le_mod_geq)
  then show ?thesis using that False by linarith
qed (use that in simp)

lemma mod_add_rest: "d \<le> m \<Longrightarrow> ((c + d) mod n + (m - d)) mod n = (c + m) mod n" for c d m n :: nat
proof -
  assume "d \<le> m"
  then have "c + d + (m - d) = c + m" by simp
  then show ?thesis by (metis mod_add_left_eq)
qed

lemma tick_towards:
  assumes inv: "sched_inv im k" and m: "0 < m" "m < num_tasks k" "(current_task k + m) mod num_tasks k = j"
    and j: "tstate (task_at k j) = TASK_READY"
  shows "\<exists>d. 0 < d \<and> d \<le> m \<and> current_task (sched_tick im k) = (current_task k + d) mod num_tasks k
    \<and> num_tasks (sched_tick im k) = num_tasks k
    \<and> tstate (task_at (sched_tick im k) j) = (if d = m then TASK_RUNNING else TASK_READY)"
proof -
  let ?n = "num_tasks k" and ?c = "current_task k"
  let ?k = "upd_task ?c (\<lambda>t. t\<lparr>ticks := ticks t + 1\<rparr>) k"
  have w: "table_ok im k" using inv by (auto simp: sched_inv_def sched_wf_def)
  have l: "?c < length (tasks k)" "?n \<le> length (tasks k)" "?c < ?n" using w by (auto simp: table_ok_def)
  have st: "tstate (task_at ?k i) = tstate (task_at k i)" for i using l by (simp add: task_at_upd)
  have n0: "0 < num_tasks ?k" using l by simp
  have jl: "j < ?n" using m l by auto
  show ?thesis
  proof (cases rule: pick_next_cases [OF n0])
    case (1 d)
    have dm: "d \<le> m"
    proof (rule ccontr)
      assume "\<not> d \<le> m"
      then show False using 1(5) [of m] m j st by simp
    qed
    have p: "pick_next ?k = (?c + d) mod ?n" using 1(3) by simp
    have pn: "pick_next ?k \<noteq> ?c" unfolding p using mod_add_neq [of ?c ?n d] 1(1) dm m l by simp
    have pl: "pick_next ?k < ?n" unfolding p using l by simp
    have jd: "j = pick_next ?k \<longleftrightarrow> d = m"
    proof
      assume "j = pick_next ?k"
      then have eq: "(?c + m) mod ?n = (?c + d) mod ?n" using p m(3) by simp
      show "d = m"
      proof (rule ccontr)
        assume ne: "d \<noteq> m"
        have "((?c + d) mod ?n + (m - d)) mod ?n = (?c + m) mod ?n"
          using dm by (rule mod_add_rest)
        moreover have "(?c + d) mod ?n < ?n" using l by simp
        moreover have "0 < m - d" "m - d < ?n" using ne dm m by auto
        ultimately show False using mod_add_neq [of "(?c + d) mod ?n" ?n "m - d"] eq by simp
      qed
    qed (use p m in simp)
    have jc: "j \<noteq> ?c" using mod_add_neq [of ?c ?n m] m l by auto
    have ln: "pick_next ?k < length (tasks ?k)" "current_task ?k < length (tasks ?k)" "pick_next ?k \<noteq> current_task ?k"
      using pl pn l by auto
    have t: "sched_tick im k = run_task im (pick_next ?k) ?k" using pn by (simp add: sched_tick_def Let_def)
    note s = run_task_simps [OF ln, of im]
    have "tstate (task_at (sched_tick im k) j) = (if d = m then TASK_RUNNING else TASK_READY)"
      unfolding t s using jd jc j st by auto
    moreover have "current_task (sched_tick im k) = (?c + d) mod ?n" "num_tasks (sched_tick im k) = ?n"
      using s(1,2) p by (simp_all add: t)
    ultimately show ?thesis using 1(1) dm by (intro exI [of _ d]) simp
  next
    case 2
    then show ?thesis using jl j st by auto
  next
    case 3
    then show ?thesis using jl j st by auto
  qed
qed

lemma tick_reaches:
  assumes "sched_inv im k" "0 < m" "m < num_tasks k" "(current_task k + m) mod num_tasks k = j"
    "tstate (task_at k j) = TASK_READY"
  shows "\<exists>n. 0 < n \<and> n \<le> m \<and> current_task ((sched_tick im ^^ n) k) = j
    \<and> tstate (task_at ((sched_tick im ^^ n) k) j) = TASK_RUNNING"
  using assms
proof (induction m arbitrary: k rule: less_induct)
  case (less m)
  let ?k = "sched_tick im k"
  obtain d where d: "0 < d" "d \<le> m" "current_task ?k = (current_task k + d) mod num_tasks k" "num_tasks ?k = num_tasks k"
    "tstate (task_at ?k j) = (if d = m then TASK_RUNNING else TASK_READY)"
    using tick_towards [OF less.prems] by blast
  show ?case
  proof (cases "d = m")
    case True
    then show ?thesis using d less.prems by (intro exI [of _ 1]) simp
  next
    case False
    have md: "m - d < m" "0 < m - d" "m - d < num_tasks ?k" using False d less.prems by auto
    have "(current_task ?k + (m - d)) mod num_tasks ?k = j"
      using mod_add_rest [OF d(2)] d(3,4) less.prems(4) by simp
    then obtain n where n: "0 < n" "n \<le> m - d" "current_task ((sched_tick im ^^ n) ?k) = j"
      "tstate (task_at ((sched_tick im ^^ n) ?k) j) = TASK_RUNNING"
      using less.IH [OF _ sched_tick_inv [OF less.prems(1)] _ _ _, of "m - d"] md False d by auto
    then show ?thesis using d by (intro exI [of _ "Suc n"]) (simp add: funpow_swap1)
  qed
qed

section \<open>Boot\<close>

lemma sched_init_inv:
  assumes len: "length (tasks k) = SCHED_MAX_TASKS"
    and b: "ttbr0 (task_at k 0) = 0" "ttbr0_el1 k = virt_to_phys (boot_l1 im)"
  shows "sched_inv im (sched_init k)" "num_tasks (sched_init k) = 1" "current_task (sched_init k) = 0"
    "fds (sched_init k) = fds k" "kmm (sched_init k) = kmm k"
    "i < SCHED_MAX_TASKS \<Longrightarrow> is_user (task_at (sched_init k) i) = is_user (task_at k i) \<and> fdt (task_at (sched_init k) i) = fdt (task_at k i)"
proof -
  let ?f = "\<lambda>i t. t\<lparr>tstate := TASK_UNUSED, tid := i, ticks := 0, wait_for_tid := -1\<rparr>"
  let ?w = "\<lambda>n. fold (\<lambda>i. upd_task i (?f i)) [0..<n] k"
  have w: "length (tasks (?w n)) = length (tasks k) \<and> fds (?w n) = fds k \<and> kmm (?w n) = kmm k \<and> ttbr0_el1 (?w n) = ttbr0_el1 k
      \<and> (\<forall>i. task_at (?w n) i = (if i < n then ?f i (task_at k i) else task_at k i))" if "n \<le> SCHED_MAX_TASKS" for n
    using that by (induction n) (auto simp: task_at_upd len)
  note w8 = w [of SCHED_MAX_TASKS, simplified]
  have at: "task_at (sched_init k) i = (if i = 0 then (?f 0 (task_at k 0))\<lparr>tstate := TASK_RUNNING, tname := [0x69, 0x64, 0x6C, 0x65]\<rparr>
      else if i < SCHED_MAX_TASKS then ?f i (task_at k i) else task_at k i)" for i
  proof -
    have "0 < length (tasks (?w SCHED_MAX_TASKS))" using w8 len by (simp add: SCHED_MAX_TASKS_def)
    moreover have "0 < SCHED_MAX_TASKS" by (simp add: SCHED_MAX_TASKS_def)
    ultimately show ?thesis using w8 by (auto simp: sched_init_def Let_def upd_task_def)
  qed
  show n: "num_tasks (sched_init k) = 1" "current_task (sched_init k) = 0" by (simp_all add: sched_init_def Let_def)
  show "fds (sched_init k) = fds k" "kmm (sched_init k) = kmm k" using w8 by (simp_all add: sched_init_def Let_def)
  have t: "ttbr0_el1 (sched_init k) = ttbr0_el1 k" "length (tasks (sched_init k)) = SCHED_MAX_TASKS"
    using w8 len by (simp_all add: sched_init_def Let_def)
  show "sched_inv im (sched_init k)"
    unfolding sched_defs n t at using b by (auto simp: SCHED_MAX_TASKS_def mmu_switch_ttbr0_def)
  show "i < SCHED_MAX_TASKS \<Longrightarrow> is_user (task_at (sched_init k) i) = is_user (task_at k i) \<and> fdt (task_at (sched_init k) i) = fdt (task_at k i)"
    by (simp add: at)
qed

text \<open>The zeroed kernel data, as \<^verbatim>\<open>start.S\<close> leaves it.\<close>

definition zero_task :: task where
  "zero_task = \<lparr>ctx = start_ctx 0 0, tstate = TASK_UNUSED, tid = 0, tname = [], ticks = 0, is_user = False, user_entry = 0,
     user_sp = 0, ttbr0 = 0, code_pa = 0, code_pages = 0, stack_pa = 0, heap_break = 0, wait_for_tid = 0, parent_tid = 0,
     fdt = replicate MAX_FDS_PER_TASK None, sig = \<lparr>handlers = replicate NSIG 0, pending = 0\<rparr>\<rparr>"

definition boot_kernel :: "image \<Rightarrow> kmem \<Rightarrow> kernel" where
  "boot_kernel im m = \<lparr>tasks = replicate SCHED_MAX_TASKS zero_task, current_task = 0, num_tasks = 0,
     start_info = replicate SCHED_MAX_TASKS (0, 0), cpu = start_ctx 0 0, ttbr0_el1 = virt_to_phys (boot_l1 im),
     kmm = m, fds = fd_boot\<rparr>"

lemma boot_inv: "sched_inv im (sched_init (boot_kernel im m))"
  by (rule sched_init_inv) (simp_all add: boot_kernel_def zero_task_def SCHED_MAX_TASKS_def)

text \<open>A kernel with two more kernel tasks.\<close>

definition demo_im :: image where
  "demo_im = \<lparr>task_stacks = 0xFFFFFF8040100000, task_wrapper = 0xFFFFFF8040081000, fork_child_return = 0xFFFFFF8040082000,
     boot_l1 = 0xFFFFFF8040090000\<rparr>"

definition demo_tasks :: kernel where
  "demo_tasks = snd (sched_create demo_im [] 0 0 (snd (sched_create demo_im [] 0 0 (sched_init (boot_kernel demo_im blank_mm)))))"

lemma demo_tasks: "sched_inv demo_im demo_tasks" "num_tasks demo_tasks = 3" "current_task demo_tasks = 0"
  "tstate (task_at demo_tasks 1) = TASK_READY" "tstate (task_at demo_tasks 2) = TASK_READY"
  "fdt (task_at demo_tasks 1) = replicate MAX_FDS_PER_TASK None" "length (tasks demo_tasks) = SCHED_MAX_TASKS"
  "tstate (task_at demo_tasks 0) = TASK_RUNNING"
proof -
  let ?k0 = "sched_init (boot_kernel demo_im blank_mm)"
  let ?k1 = "snd (sched_create demo_im [] 0 0 ?k0)"
  have l: "length (tasks ?k0) = SCHED_MAX_TASKS" "num_tasks ?k0 = 1" "current_task ?k0 = 0"
    using boot_inv [of demo_im blank_mm] by (simp_all add: sched_defs sched_init_def Let_def)
  have "sched_inv demo_im ?k1" using sched_create_inv [OF boot_inv] by (metis prod.collapse)
  then show "sched_inv demo_im demo_tasks" unfolding demo_tasks_def using sched_create_inv by (metis prod.collapse)
  have f: "fdt (task_at ?k0 1) = replicate MAX_FDS_PER_TASK None"
    using sched_init_inv(6) [of "boot_kernel demo_im blank_mm" demo_im 1] by (simp add: boot_kernel_def zero_task_def SCHED_MAX_TASKS_def)
  have r: "tstate (task_at ?k0 0) = TASK_RUNNING"
    by (simp add: sched_init_def Let_def boot_kernel_def SCHED_MAX_TASKS_def task_at_upd upd_task_def nth_append upt_conv_Cons)
  show "num_tasks demo_tasks = 3" "current_task demo_tasks = 0"
    "tstate (task_at demo_tasks 1) = TASK_READY" "tstate (task_at demo_tasks 2) = TASK_READY"
    "fdt (task_at demo_tasks 1) = replicate MAX_FDS_PER_TASK None" "length (tasks demo_tasks) = SCHED_MAX_TASKS"
    "tstate (task_at demo_tasks 0) = TASK_RUNNING"
    using l f r by (simp_all add: demo_tasks_def sched_create_def Let_def SCHED_MAX_TASKS_def task_at_upd)
qed

lemmas demo_tasks_simps = demo_tasks demo_tasks [unfolded One_nat_def]

text \<open>There, task 0 waits for task 1.\<close>

lemma demo_wait:
  "let k = snd (sched_wait demo_im 1 demo_tasks)
   in current_task k = 1 \<and> num_tasks k = 3 \<and> length (tasks k) = SCHED_MAX_TASKS \<and> tstate (task_at k 0) = TASK_BLOCKED
     \<and> wait_for_tid (task_at k 0) = 1 \<and> fdt (task_at k 1) = replicate MAX_FDS_PER_TASK None
     \<and> tstate (task_at k 1) = TASK_RUNNING \<and> tstate (task_at k 2) = TASK_READY"
proof -
  let ?k = "upd_task 0 (\<lambda>x. x\<lparr>tstate := TASK_BLOCKED, wait_for_tid := 1\<rparr>) demo_tasks"
  have l: "0 < length (tasks demo_tasks)" using demo_tasks(7) by (simp add: SCHED_MAX_TASKS_def)
  have "[1..<4] = [1, 2, 3 :: nat]" by (simp add: upt_conv_Cons)
  then have p: "pick_next ?k = 1"
    using l by (simp add: pick_next_def demo_tasks_simps task_at_upd)
  have w: "snd (sched_wait demo_im 1 demo_tasks) = run_task demo_im 1 ?k"
    using p by (simp add: sched_wait_def demo_tasks_simps sched_yield_def switch_to_def)
  have "1 < length (tasks ?k)" "current_task ?k < length (tasks ?k)" "1 \<noteq> current_task ?k"
    using demo_tasks by (simp_all add: SCHED_MAX_TASKS_def)
  note s = run_task_simps [OF this, of demo_im]
  show ?thesis unfolding w Let_def s using demo_tasks_simps l by (simp add: task_at_upd)
qed

text \<open>And then task 1 for task 2: only task 2 is left to run.\<close>

lemma demo_wait2:
  defines "k \<equiv> snd (sched_wait demo_im 2 (snd (sched_wait demo_im 1 demo_tasks)))"
  shows "sched_inv demo_im k" "current_task k = 2" "num_tasks k = 3" "tstate (task_at k 0) = TASK_BLOCKED"
    "tstate (task_at k 1) = TASK_BLOCKED" "tstate (task_at k 2) = TASK_RUNNING"
proof -
  let ?k1 = "snd (sched_wait demo_im 1 demo_tasks)"
  have "sched_inv demo_im ?k1" using sched_wait_inv [OF demo_tasks(1)] by (metis prod.collapse)
  then show "sched_inv demo_im k" unfolding k_def using sched_wait_inv by (metis prod.collapse)
  note f = demo_wait [unfolded Let_def] demo_wait [unfolded Let_def One_nat_def]
  let ?k = "upd_task 1 (\<lambda>x. x\<lparr>tstate := TASK_BLOCKED, wait_for_tid := 2\<rparr>) ?k1"
  have l: "1 < length (tasks ?k1)" "Suc 0 < length (tasks ?k1)" using f by (simp_all add: SCHED_MAX_TASKS_def)
  have "[1..<4] = [1, 2, 3 :: nat]" by (simp add: upt_conv_Cons)
  then have p: "pick_next ?k = 2" using l f by (simp add: pick_next_def task_at_upd flip: numeral_2_eq_2)
  have w: "k = run_task demo_im 2 ?k"
    using p f by (simp add: k_def sched_wait_def sched_yield_def switch_to_def)
  have "2 < length (tasks ?k)" "current_task ?k < length (tasks ?k)" "2 \<noteq> current_task ?k"
    using f by (simp_all add: SCHED_MAX_TASKS_def)
  note s = run_task_simps [OF this, of demo_im]
  show "current_task k = 2" "num_tasks k = 3" "tstate (task_at k 0) = TASK_BLOCKED"
    "tstate (task_at k 1) = TASK_BLOCKED" "tstate (task_at k 2) = TASK_RUNNING"
    unfolding w s using f l by (simp_all add: task_at_upd)
qed

lemma fd_table_destroy_empty:
  "fd_table_destroy (replicate MAX_FDS_PER_TASK None) s = Some (replicate MAX_FDS_PER_TASK None, s)"
proof -
  have "destroy_from i n (replicate MAX_FDS_PER_TASK None) s = Some (replicate MAX_FDS_PER_TASK None, s)"
    if "i + n \<le> MAX_FDS_PER_TASK" for i n
    using that by (induction n arbitrary: i) simp_all
  then show ?thesis by (simp add: fd_table_destroy_def)
qed

section \<open>Properties\<close>

lemma ready_task_runs:
  assumes "sched_inv im k" "j < num_tasks k" "j \<noteq> current_task k" "tstate (task_at k j) = TASK_READY"
  shows "\<exists>n. 0 < n \<and> n < num_tasks k \<and> current_task ((sched_tick im ^^ n) k) = j
    \<and> tstate (task_at ((sched_tick im ^^ n) k) j) = TASK_RUNNING"
proof -
  let ?n = "num_tasks k" and ?c = "current_task k"
  have c: "?c < ?n" using assms(1) by (auto simp: sched_defs)
  define m where "m = (if ?c < j then j - ?c else j + ?n - ?c)"
  have m: "0 < m" "m < ?n" using assms(2,3) c by (auto simp: m_def)
  have "(?c + m) mod ?n = j" using assms(2,3) c by (auto simp: m_def)
  from tick_reaches [OF assms(1) m this assms(4)] obtain n where
    n: "0 < n" "n \<le> m" "current_task ((sched_tick im ^^ n) k) = j" "tstate (task_at ((sched_tick im ^^ n) k) j) = TASK_RUNNING"
    by blast
  show ?thesis by (rule exI [of _ n]) (use n m(2) in simp)
qed

text \<open>
  C14: round robin is fair: a ready task gets the CPU within fewer timer ticks than there are tasks,
  if no task calls into the kernel in between.
\<close>

theorem sched_round_robin:
  assumes "sched_inv im k" "j < num_tasks k" "j \<noteq> current_task k" "tstate (task_at k j) = TASK_READY"
  shows "\<exists>n. 0 < n \<and> n < num_tasks k \<and> current_task ((sched_tick im ^^ n) k) = j
    \<and> tstate (task_at ((sched_tick im ^^ n) k) j) = TASK_RUNNING"
  by (rule ready_task_runs [OF assms])

theorem sched_round_robin_witness:
  "\<exists>n < 3. current_task ((sched_tick demo_im ^^ n) demo_tasks) = 2"
proof -
  have "\<exists>n. 0 < n \<and> n < num_tasks demo_tasks \<and> current_task ((sched_tick demo_im ^^ n) demo_tasks) = 2
    \<and> tstate (task_at ((sched_tick demo_im ^^ n) demo_tasks) 2) = TASK_RUNNING"
    by (rule sched_round_robin) (simp_all add: demo_tasks)
  then show ?thesis unfolding demo_tasks(2) by blast
qed


text \<open>Except for task 0, the task that exits is left and stays finished.\<close>

lemma sched_exit_finishes:
  assumes inv: "sched_inv im k" and r: "sched_exit im k = Some k'" and z: "current_task k \<noteq> 0"
  shows "current_task k' \<noteq> current_task k \<and> tstate (task_at k' (current_task k)) = TASK_FINISHED"
  using inv r
proof (rule sched_exit_yields)
  fix k2
  assume k': "k' = sched_yield im k2" and wf: "sched_wf im k2" and c: "current_task k2 = current_task k"
    and fin: "tstate (cur_task k2) = TASK_FINISHED"
  have t: "table_ok im k2" using wf by (simp add: sched_wf_def)
  have p: "pick_next k2 < num_tasks k2" "pick_next k2 \<noteq> current_task k2"
    using pick_next_running [OF t] fin z c by auto
  then have k: "k' = run_task im (pick_next k2) k2" by (simp add: k' sched_yield_def switch_to_def)
  note s = run_task_simps [OF table_ok_len [OF t p(1)] cur_less [OF t] p(2), of im]
  show ?thesis unfolding k s using p(2) c fin by auto
qed

text \<open>
  C15: when a task exits, every task that waited for it becomes ready or runs, nobody is left
  waiting for it, and (task 0 apart, to which the scheduler falls back) it is finished for good:
  another task has the CPU.
\<close>

theorem sched_exit_wakes:
  assumes inv: "sched_inv im k" and r: "sched_exit im k = Some k'"
  shows "(\<forall>i < num_tasks k'. tstate (task_at k' i) = TASK_BLOCKED \<longrightarrow> wait_for_tid (task_at k' i) \<noteq> int (current_task k))
    \<and> (\<forall>i < num_tasks k'. i \<noteq> current_task k \<and> tstate (task_at k i) = TASK_BLOCKED \<and> wait_for_tid (task_at k i) = int (current_task k)
         \<longrightarrow> tstate (task_at k' i) = TASK_READY \<or> tstate (task_at k' i) = TASK_RUNNING)
    \<and> (current_task k \<noteq> 0 \<longrightarrow> current_task k' \<noteq> current_task k \<and> tstate (task_at k' (current_task k)) = TASK_FINISHED)"
  using inv r
proof (rule sched_exit_yields)
  fix k2
  assume k': "k' = sched_yield im k2" and wf: "sched_wf im k2" and c: "current_task k2 = current_task k" "num_tasks k2 = num_tasks k"
    and fin: "tstate (cur_task k2) = TASK_FINISHED"
    and none: "\<And>i. i < num_tasks k \<Longrightarrow> tstate (task_at k2 i) = TASK_BLOCKED \<Longrightarrow> wait_for_tid (task_at k2 i) \<noteq> int (current_task k)"
    and woken: "\<And>i. \<lbrakk>i < num_tasks k; i \<noteq> current_task k; tstate (task_at k i) = TASK_BLOCKED;
         wait_for_tid (task_at k i) = int (current_task k)\<rbrakk> \<Longrightarrow> tstate (task_at k2 i) = TASK_READY"
  have t: "table_ok im k2" using wf by (simp add: sched_wf_def)
  have p: "pick_next k2 < num_tasks k2" "pick_next k2 = current_task k2 \<longrightarrow> pick_next k2 = 0"
    using pick_next_running [OF t] fin by auto
  show ?thesis
  proof (cases "pick_next k2 = current_task k2")
    case True
    then have "k' = k2" by (simp add: k' sched_yield_def switch_to_def)
    then show ?thesis using True p(2) c none woken by auto
  next
    case False
    then have k: "k' = run_task im (pick_next k2) k2" by (simp add: k' sched_yield_def switch_to_def)
    note s = run_task_simps [OF table_ok_len [OF t p(1)] cur_less [OF t] False, of im]
    show ?thesis unfolding k s using False c fin none woken by auto
  qed
qed

theorem sched_exit_wakes_witness:
  "\<exists>k'. sched_exit demo_im (snd (sched_wait demo_im 1 demo_tasks)) = Some k' \<and> tstate (task_at k' 0) \<noteq> TASK_BLOCKED"
proof -
  let ?k = "snd (sched_wait demo_im 1 demo_tasks)"
  have inv: "sched_inv demo_im ?k" using sched_wait_inv [OF demo_tasks(1)] by (metis prod.collapse)
  note k = demo_wait [unfolded Let_def] demo_wait [unfolded Let_def One_nat_def]
  have "fd_table_destroy (fdt (cur_task ?k)) (fds ?k) = Some (replicate MAX_FDS_PER_TASK None, fds ?k)"
    using k by (simp add: fd_table_destroy_empty)
  then obtain k' where k': "sched_exit demo_im ?k = Some k'"
    using k by (simp add: sched_exit_def Let_def task_at_upd SCHED_MAX_TASKS_def)
  have "0 < num_tasks k'" using sched_exit_inv [OF inv k'] by (auto simp: sched_defs)
  then show ?thesis using sched_exit_wakes [OF inv k'] k k' by auto
qed


text \<open>
  a task blocked in \<open>sched_wait\<close> that is sent a signal becomes ready although the task it waits
  for has not finished; once resumed, \<open>sched_wait\<close> returns 0 all the same.
\<close>

theorem sched_wait_interrupted:
  assumes "sched_inv im k" "j < num_tasks k" "tstate (task_at k j) = TASK_BLOCKED" "1 \<le> sg" "sg < int NSIG"
  shows "\<exists>k'. signal_send (int j) sg k = (0, k') \<and> tstate (task_at k' j) = TASK_READY
    \<and> tstate (task_at k' (nat (wait_for_tid (task_at k j)))) \<noteq> TASK_FINISHED"
proof -
  have w: "table_ok im k" "waits_ok k" using assms(1) by (auto simp: sched_inv_def sched_wf_def)
  have l: "j < length (tasks k)" "num_tasks k \<le> length (tasks k)" using w assms(2) by (auto simp: table_ok_def)
  obtain r k' where s: "signal_send (int j) sg k = (r, k')" by fastforce
  from s l(2) show ?thesis
  proof (cases rule: signal_send_cases)
    case refused
    then show ?thesis using s assms by (auto simp: signal_send_def sched_get_task_def Let_def split: if_splits)
  next
    case sent
    have "tstate (task_at k (nat (wait_for_tid (task_at k j)))) \<noteq> TASK_FINISHED"
      using w(2) assms(2,3) unfolding waits_but_def by auto
    then show ?thesis using s sent(7,8) l(1) assms(3) by (auto simp: task_at_upd)
  qed
qed

theorem sched_wait_interrupted_witness:
  "\<exists>k'. signal_send 0 10 (snd (sched_wait demo_im 1 demo_tasks)) = (0, k') \<and> tstate (task_at k' 0) = TASK_READY
    \<and> tstate (task_at k' 1) \<noteq> TASK_FINISHED"
proof -
  let ?k = "snd (sched_wait demo_im 1 demo_tasks)"
  have inv: "sched_inv demo_im ?k" using sched_wait_inv [OF demo_tasks(1)] by (metis prod.collapse)
  note f = demo_wait [unfolded Let_def]
  have "\<exists>k'. signal_send (int 0) 10 ?k = (0, k') \<and> tstate (task_at k' 0) = TASK_READY
    \<and> tstate (task_at k' (nat (wait_for_tid (task_at ?k 0)))) \<noteq> TASK_FINISHED"
    by (rule sched_wait_interrupted [OF inv]) (use f in \<open>simp_all add: NSIG_def\<close>)
  then show ?thesis using f by simp
qed

text \<open>
  when the last task that could run blocks, the scheduler resumes task 0 even if task 0 is
  itself blocked: its \<open>sched_wait\<close> returns although the task it waits for has not finished.
\<close>

theorem sched_idle_fallback:
  assumes inv: "sched_inv im k" and t: "0 \<le> t" "t < int (num_tasks k)" "tstate (task_at k (nat t)) \<noteq> TASK_FINISHED"
    and none: "\<forall>i < num_tasks k. tstate (task_at k i) \<noteq> TASK_READY"
    and zero: "current_task k \<noteq> 0" "tstate (task_at k 0) = TASK_BLOCKED"
  shows "\<exists>k'. sched_wait im t k = (Blocked, k') \<and> current_task k' = 0 \<and> tstate (task_at k' 0) = TASK_RUNNING
    \<and> wait_for_tid (task_at k' 0) = wait_for_tid (task_at k 0)
    \<and> tstate (task_at k' (nat (wait_for_tid (task_at k 0)))) \<noteq> TASK_FINISHED"
proof -
  let ?k = "upd_task (current_task k) (\<lambda>x. x\<lparr>tstate := TASK_BLOCKED, wait_for_tid := t\<rparr>) k"
  have w: "table_ok im k" "waits_ok k" using inv by (auto simp: sched_inv_def sched_wf_def)
  have l: "current_task k < length (tasks k)" "num_tasks k \<le> length (tasks k)" "0 < num_tasks k" "current_task k < num_tasks k"
    using w by (auto simp: table_ok_def)
  have at: "task_at ?k i = (if i = current_task k then (cur_task k)\<lparr>tstate := TASK_BLOCKED, wait_for_tid := t\<rparr> else task_at k i)" for i
    using l(1) by (simp add: task_at_upd)
  have none': "tstate (task_at ?k i) \<noteq> TASK_READY" if "i < num_tasks k" for i using that none by (simp add: at)
  have n: "0 < num_tasks ?k" using l by simp
  have p: "pick_next ?k = 0"
    using n
  proof (cases rule: pick_next_cases)
    case (ready d)
    then show ?thesis using none' pick_next_less [OF n] l by simp
  next
    case stay
    then show ?thesis by (simp add: at)
  next
    case idle
    then show ?thesis by simp
  qed
  have k': "sched_wait im t k = (Blocked, run_task im 0 ?k)"
    using t zero(1) p by (simp add: sched_wait_def sched_yield_def switch_to_def)
  have "0 < length (tasks k)" using l by linarith
  then have "0 < length (tasks ?k)" "current_task ?k < length (tasks ?k)" "0 \<noteq> current_task ?k" using l zero by simp_all
  note s = run_task_simps [OF this, of im]
  have u: "tstate (task_at k (nat (wait_for_tid (task_at k 0)))) \<noteq> TASK_FINISHED"
    using w(2) l(3) zero(2) unfolding waits_but_def by auto
  show ?thesis
    by (rule exI [of _ "run_task im 0 ?k"]) (use k' u zero in \<open>simp add: s at\<close>)
qed

theorem sched_idle_fallback_witness:
  "\<exists>k k'. sched_wait demo_im 0 k = (Blocked, k') \<and> tstate (task_at k 0) = TASK_BLOCKED \<and> tstate (task_at k' 0) = TASK_RUNNING"
proof -
  let ?k = "snd (sched_wait demo_im 2 (snd (sched_wait demo_im 1 demo_tasks)))"
  note f = demo_wait2 demo_wait2 [unfolded One_nat_def]
  have "\<exists>k'. sched_wait demo_im 0 ?k = (Blocked, k') \<and> current_task k' = 0 \<and> tstate (task_at k' 0) = TASK_RUNNING
    \<and> wait_for_tid (task_at k' 0) = wait_for_tid (task_at ?k 0)
    \<and> tstate (task_at k' (nat (wait_for_tid (task_at ?k 0)))) \<noteq> TASK_FINISHED"
  proof (rule sched_idle_fallback [OF demo_wait2(1)])
    show "\<forall>i < num_tasks ?k. tstate (task_at ?k i) \<noteq> TASK_READY"
      using f by (auto simp: less_Suc_eq numeral_3_eq_3 numeral_2_eq_2)
  qed (use f in simp_all)
  then show ?thesis using f by blast
qed

end
