(* ===== verification/Spaces.thy ===== *)
theory Spaces
  imports Mmu
begin

text \<open>
  Ownership of page frames: which frames hold a process's tables and which its memory, what it
  means for a kernel operation to leave the frames in use alone, and that a process's translation
  depends on the frames of its tables only.
\<close>

section \<open>Pages and addresses\<close>

text \<open>The page of an address: translation ignores the upper bits.\<close>

definition page_no :: "u64 \<Rightarrow> nat" where
  "page_no v = unat v div 4096 mod 2 ^ 27"

lemma desc_addr_frame: "p < TOTAL_PAGES \<Longrightarrow> desc_addr (page_desc (frame p)) = frame p"
  using page_desc_addr [OF frame_aligned] unat_page_to_addr by (simp add: TOTAL_PAGES_def)

lemma page_desc_inj: "\<lbrakk>p < TOTAL_PAGES; q < TOTAL_PAGES; page_desc (frame p) = page_desc (frame q)\<rbrakk> \<Longrightarrow> p = q"
  by (metis desc_addr_frame page_to_addr_inj)

lemma in_page_iff:
  assumes "p < TOTAL_PAGES"
  shows "in_page p x \<longleftrightarrow> 0xFFFFFF8040000000 + p * 4096 \<le> unat x \<and> unat x < 0xFFFFFF8040000000 + p * 4096 + 4096"
proof -
  have p: "p < 32768" using assms by (simp add: TOTAL_PAGES_def)
  have u: "unat (x - phys_to_virt (frame p)) = (if 0xFFFFFF8040000000 + p * 4096 \<le> unat x
      then unat x - (0xFFFFFF8040000000 + p * 4096) else unat x + 2 ^ 64 - (0xFFFFFF8040000000 + p * 4096))"
    using unat_frame_kva [OF assms] by (simp add: unat_sub_if' word_le_nat_alt)
  show ?thesis using p u by (auto simp: in_page_def word_less_nat_alt)
qed

lemma in_page_unique: "\<lbrakk>p < TOTAL_PAGES; q < TOTAL_PAGES; in_page p x; in_page q x\<rbrakk> \<Longrightarrow> p = q"
  by (simp add: in_page_iff)

lemma in_page_run:
  assumes "q + n \<le> TOTAL_PAGES" "unat (x - phys_to_virt (frame q)) < n * 4096" "p < TOTAL_PAGES"
  shows "in_page p x \<longleftrightarrow> p = q + unat (x - phys_to_virt (frame q)) div 4096"
    and "q + unat (x - phys_to_virt (frame q)) div 4096 \<in> {q..<q + n}"
proof -
  let ?d = "unat (x - phys_to_virt (frame q))"
  have q: "q < TOTAL_PAGES" using assms(1,2) by (cases n) auto
  have T: "q + n \<le> 32768" using assms(1) by (simp add: TOTAL_PAGES_def)
  have "unat (phys_to_virt (frame q) + (x - phys_to_virt (frame q))) = unat (phys_to_virt (frame q)) + ?d"
    using unat_frame_kva [OF q] assms(2) T by (intro unat_add_small) simp
  then have x: "unat x = 0xFFFFFF8040000000 + q * 4096 + ?d" using unat_frame_kva [OF q] by simp
  show "in_page p x \<longleftrightarrow> p = q + ?d div 4096" unfolding in_page_iff [OF assms(3)] x by auto
  show "q + ?d div 4096 \<in> {q..<q + n}" using assms(2) by (simp add: div_less_iff_less_mult)
qed

lemma entry_cong:
  assumes "p < TOTAL_PAGES" "i < 512" "\<And>x. in_page p x \<Longrightarrow> m x = m' x"
  shows "entry m p i = entry m' p i"
  unfolding entry_def table_get_def
proof (rule load64_cong)
  fix j :: nat assume j: "j < 8"
  have "unat (8 * of_nat i + of_nat j :: u64) = 8 * i + j"
    using assms(2) j by (simp add: unat_word_ariths unat_of_nat_small)
  then have "in_page p (phys_to_virt (frame p) + 8 * of_nat i + of_nat j)"
    using assms(2) j by (simp add: in_page_def word_less_nat_alt add.assoc)
  then show "m (phys_to_virt (frame p) + 8 * of_nat i + of_nat j) = m' (phys_to_virt (frame p) + 8 * of_nat i + of_nat j)"
    by (rule assms(3))
qed

section \<open>Leaving frames alone\<close>

text \<open>The frames \<open>U\<close> stay in use with the bytes they hold.\<close>

definition keeps :: "nat set \<Rightarrow> kmem \<Rightarrow> kmem \<Rightarrow> bool" where
  "keeps U s s' \<longleftrightarrow> pmm_inv (kpmm s') \<and> U \<subseteq> used (kpmm s')
     \<and> (\<forall>x. (\<exists>p \<in> U. in_page p x) \<longrightarrow> kbytes s' x = kbytes s x)"

lemma keeps_refl: "pmm_inv (kpmm s) \<Longrightarrow> U \<subseteq> used (kpmm s) \<Longrightarrow> keeps U s s"
  by (simp add: keeps_def)

lemma keeps_trans: "keeps U s s' \<Longrightarrow> keeps U s' s'' \<Longrightarrow> keeps U s s''"
  by (auto simp: keeps_def)

lemma keeps_mono: "keeps U s s' \<Longrightarrow> V \<subseteq> U \<Longrightarrow> keeps V s s'"
  by (auto simp: keeps_def)

lemma keeps_inv: "keeps U s s' \<Longrightarrow> pmm_inv (kpmm s')"
  by (simp add: keeps_def)

lemma keeps_used: "keeps U s s' \<Longrightarrow> U \<subseteq> used (kpmm s')"
  by (simp add: keeps_def)

lemma keeps_alloc_pages:
  assumes "pmm_inv (kpmm s)" "0 < n" "pmm_alloc_pages n (kpmm s) = (a, pm)"
  shows "keeps (used (kpmm s)) s (s\<lparr>kpmm := pm\<rparr>)"
    and "a \<noteq> 0 \<Longrightarrow> \<exists>q. a = frame q \<and> q + unat n \<le> TOTAL_PAGES \<and> {q..<q + unat n} \<inter> used (kpmm s) = {}
      \<and> used pm = used (kpmm s) \<union> {q..<q + unat n}"
  using pmm_alloc_pages_cases [OF assms] assms(1)
  by (auto simp: keeps_def free_window_used free_window_def used_def)

lemma keeps_free_run:
  assumes "pmm_inv (kpmm s)" "q + unat n \<le> TOTAL_PAGES" "U \<inter> {q..<q + unat n} = {}" "U \<subseteq> used (kpmm s)"
  shows "keeps U s (s\<lparr>kpmm := pmm_free_pages (frame q) n (kpmm s)\<rparr>)"
  using pmm_free_pages_used [OF assms(1,2)] assms(3,4) by (auto simp: keeps_def)

lemma keeps_bytes_run:
  assumes "pmm_inv (kpmm s)" "U \<subseteq> used (kpmm s)" "q + n \<le> TOTAL_PAGES" "U \<inter> {q..<q + n} = {}"
    and "\<And>x. \<not> unat (x - phys_to_virt (frame q)) < n * 4096 \<Longrightarrow> m' x = kbytes s x"
  shows "keeps U s (s\<lparr>kbytes := m'\<rparr>)"
  unfolding keeps_def
proof (intro conjI allI impI)
  fix x assume "\<exists>p \<in> U. in_page p x"
  then obtain p where p: "p \<in> U" "in_page p x" by blast
  then have "p < TOTAL_PAGES" using assms(2) used_le by blast
  then have "\<not> unat (x - phys_to_virt (frame q)) < n * 4096"
    using in_page_run [OF assms(3), of x p] p assms(4) by blast
  then show "kbytes (s\<lparr>kbytes := m'\<rparr>) x = kbytes s x" using assms(5) by simp
qed (use assms in simp_all)

section \<open>Process tables\<close>

text \<open>A process's table and translation survive any operation that keeps the frames of its table.\<close>

lemma keeps_entry:
  assumes "pt_wf rl root s" "keeps (dom rl) s s'" "rl p = Some r" "i < 512"
  shows "entry (kbytes s') p i = entry (kbytes s) p i"
proof (rule entry_cong [OF pt_wf_page [OF assms(1,3)] assms(4)])
  fix x assume "in_page p x"
  then show "kbytes s' x = kbytes s x" using assms(2,3) unfolding keeps_def by blast
qed

lemma keeps_pt_wf:
  assumes "pt_wf rl root s" "keeps (dom rl) s s'"
  shows "pt_wf rl root s'"
proof -
  have "pmm_inv (kpmm s') \<and> dom rl \<subseteq> used (kpmm s') \<and> rl root = Some Root"
    using assms by (simp add: keeps_def pt_wf_def)
  moreover have "entry (kbytes s') p i = 0 \<or> (\<exists>q. entry (kbytes s') p i = table_desc (frame q) \<and> rl q = Some c)"
    if "rl p = Some r" "i < 512" "child r i = Some c" for p r i c
    unfolding keeps_entry [OF assms that(1,2)] using assms(1) that unfolding pt_wf_def by blast
  ultimately show ?thesis unfolding pt_wf_def by blast
qed

lemma keeps_walk:
  assumes "pt_wf rl root s" "keeps (dom rl) s s'"
  shows "walk (kbytes s') (frame root) va = walk (kbytes s) (frame root) va"
proof -
  note e = keeps_entry [OF assms _ va_index_less]
  have root: "rl root = Some Root" using assms(1) by (simp add: pt_wf_def)
  from assms(1) show ?thesis
  proof (cases rule: walk_entries [of rl root s va])
    case no_mid
    then show ?thesis using e [OF root, of 30 va] walk_none1 [of "kbytes s'" root va] by simp
  next
    case (no_low q)
    then show ?thesis
      using e [OF root, of 30 va] e [OF no_low(2), of 21 va] walk_none2 [of "kbytes s'" root va q] by simp
  next
    case (low q r)
    then show ?thesis
      using e [OF root, of 30 va] e [OF low(2), of 21 va] e [OF low(5), of 12 va]
        walk_leaf [of "kbytes s'" root va q r] by simp
  qed
qed

text \<open>No two pages of an address space are the same frame.\<close>

definition mapped_once :: "memory \<Rightarrow> u64 \<Rightarrow> bool" where
  "mapped_once m pgd \<longleftrightarrow> (\<forall>v v' d. walk m pgd v = Some d \<longrightarrow> walk m pgd v' = Some d \<longrightarrow> page_no v = page_no v')"

lemma mapped_once_same: "mapped_once m pgd \<Longrightarrow> (\<And>v. walk m' pgd v = walk m pgd v) \<Longrightarrow> mapped_once m' pgd"
  by (simp only: mapped_once_def)

text \<open>A process's address space: its tables in the frames \<open>dom rl\<close>, its memory in the frames \<open>F\<close>.\<close>

definition space_ok :: "(nat \<Rightarrow> role option) \<Rightarrow> nat set \<Rightarrow> u64 \<Rightarrow> kmem \<Rightarrow> bool" where
  "space_ok rl F pgd s \<longleftrightarrow> (\<exists>root. pgd = frame root \<and> pt_wf rl root s \<and> F \<subseteq> used (kpmm s) \<and> F \<inter> dom rl = {}
     \<and> (\<forall>va d. walk (kbytes s) pgd va = Some d \<longrightarrow> (\<exists>p \<in> F. d = page_desc (frame p)))
     \<and> mapped_once (kbytes s) pgd)"

lemma keeps_space_ok:
  assumes "space_ok rl F pgd s" "keeps (dom rl \<union> F) s s'"
  shows "space_ok rl F pgd s'"
proof -
  obtain root where r: "pgd = frame root" "pt_wf rl root s" "F \<subseteq> used (kpmm s)" "F \<inter> dom rl = {}"
    "\<forall>va d. walk (kbytes s) pgd va = Some d \<longrightarrow> (\<exists>p \<in> F. d = page_desc (frame p))" "mapped_once (kbytes s) pgd"
    using assms(1) by (auto simp: space_ok_def)
  have k: "keeps (dom rl) s s'" using assms(2) by (rule keeps_mono) simp
  have "F \<subseteq> used (kpmm s')" using keeps_used [OF assms(2)] by blast
  moreover have "mapped_once (kbytes s') pgd"
    unfolding r(1) by (rule mapped_once_same [OF r(6) [unfolded r(1)] keeps_walk [OF r(2) k]])
  ultimately show ?thesis
    using r keeps_pt_wf [OF r(2) k] keeps_walk [OF r(2) k] by (auto simp: space_ok_def)
qed

lemma space_ok_used:
  assumes "space_ok rl F pgd s"
  shows "dom rl \<union> F \<subseteq> used (kpmm s)" "pmm_inv (kpmm s)"
  using assms by (auto simp: space_ok_def pt_wf_def)

section \<open>Building and changing tables\<close>

lemma keeps_bytes:
  assumes "keeps U s t" "kpmm t' = kpmm t" "q \<notin> U" "q < TOTAL_PAGES"
    and "\<And>x. \<not> in_page q x \<Longrightarrow> kbytes t' x = kbytes t x"
  shows "keeps U s t'"
  unfolding keeps_def
proof (intro conjI allI impI)
  fix x assume x: "\<exists>p \<in> U. in_page p x"
  then obtain p where p: "p \<in> U" "in_page p x" by blast
  have "p < TOTAL_PAGES" using keeps_used [OF assms(1)] p(1) used_le by blast
  then have "\<not> in_page q x" using in_page_unique [OF _ assms(4) p(2)] p(1) assms(3) by blast
  then show "kbytes t' x = kbytes s x" using assms(1,5) x by (simp add: keeps_def)
qed (use assms in \<open>simp_all add: keeps_def\<close>)

lemma keeps_clear_table:
  "\<lbrakk>keeps U s t; q \<notin> U; q < TOTAL_PAGES\<rbrakk> \<Longrightarrow> keeps U s (clear_table (phys_to_virt (frame q)) t)"
  by (rule keeps_bytes [where q = q], assumption) (simp_all add: kbytes_clear_table)

lemma keeps_set_entry:
  "\<lbrakk>keeps U s t; q \<notin> U; q < TOTAL_PAGES; i < 512\<rbrakk> \<Longrightarrow> keeps U s (set_entry (phys_to_virt (frame q)) i v t)"
  by (rule keeps_bytes [where q = q], assumption) (simp_all add: kbytes_set_entry)

lemma keeps_map_code:
  "\<lbrakk>keeps U s t; q \<notin> U; q < TOTAL_PAGES\<rbrakk> \<Longrightarrow> keeps U s (map_code (phys_to_virt (frame q)) ca n t)"
  by (rule keeps_bytes [where q = q], assumption) (simp_all add: kbytes_map_code, simp add: map_code_def kpmm_fold_set_entry)

lemma keeps_alloc_frame:
  assumes "keeps U s t" "alloc_frame t = (a, t')"
  shows "keeps U s t'" and "a \<noteq> 0 \<Longrightarrow> \<exists>q. a = frame q \<and> q < TOTAL_PAGES \<and> q \<notin> U \<and> q \<notin> used (kpmm t) \<and> q \<in> used (kpmm t')"
proof -
  show "keeps U s t'"
    using keeps_inv [OF assms(1)] assms(2)
  proof (cases rule: alloc_frame_cases)
    case full
    then show ?thesis using assms(1) by simp
  next
    case (got q)
    then show ?thesis using assms(1) by (auto simp: keeps_def)
  qed
  show "a \<noteq> 0 \<Longrightarrow> \<exists>q. a = frame q \<and> q < TOTAL_PAGES \<and> q \<notin> U \<and> q \<notin> used (kpmm t) \<and> q \<in> used (kpmm t')"
    using alloc_frame_cases [OF keeps_inv [OF assms(1)] assms(2)] keeps_used [OF assms(1)] by blast
qed

lemma keeps_free_frame:
  assumes "keeps U s t" "q \<notin> U" "q < TOTAL_PAGES"
  shows "keeps U s (t\<lparr>kpmm := pmm_free_page (frame q) (kpmm t)\<rparr>)"
  using pmm_free_page_used [OF keeps_inv [OF assms(1)] assms(3)] assms(1,2) by (auto simp: keeps_def)

lemma create_user_pgd_keeps:
  assumes inv: "pmm_inv (kpmm s)" and cp: "unat cp \<le> 512"
    and r: "mmu_create_user_pgd ca cp sa USER_STACK_PAGES s = (r, s')"
  shows "keeps (used (kpmm s)) s s'"
proof (cases "r = 0")
  case False
  have sp: "0 < USER_STACK_PAGES" "unat USER_STACK_PAGES \<le> 512" by (simp_all add: USER_STACK_PAGES_def)
  show ?thesis
  proof (rule create_user_pgd [OF inv cp sp r])
    fix p1 rl assume c: "pt_wf rl p1 s'" "dom rl \<inter> used (kpmm s) = {}" "used (kpmm s') = used (kpmm s) \<union> dom rl"
      "\<And>x. \<not> (\<exists>p \<in> dom rl. in_page p x) \<Longrightarrow> kbytes s' x = kbytes s x"
    have "kbytes s' x = kbytes s x" if x: "p \<in> used (kpmm s)" "in_page p x" for p x
    proof (rule c(4), rule notI)
      assume "\<exists>q \<in> dom rl. in_page q x"
      then obtain q where q: "q \<in> dom rl" "in_page q x" by blast
      then have "q < TOTAL_PAGES" "p < TOTAL_PAGES" using c(3) used_le x(1) by blast+
      then show False using in_page_unique [OF _ _ q(2) x(2)] q(1) x(1) c(2) by blast
    qed
    then show ?thesis using c by (auto simp: keeps_def pt_wf_def)
  qed (use False in simp)
next
  case True
  let ?U = "used (kpmm s)"
  obtain a1 s1 where 1: "alloc_frame s = (a1, s1)" by fastforce
  define t1 where "t1 = clear_table (phys_to_virt a1) s1"
  obtain a2 s2 where 2: "alloc_frame t1 = (a2, s2)" by fastforce
  define t2 where "t2 = set_entry (phys_to_virt a1) 0 (table_desc a2) (clear_table (phys_to_virt a2) s2)"
  obtain a3 s3 where 3: "alloc_frame t2 = (a3, s3)" by fastforce
  define base where "base = USER_VA_STACK - ucast (USER_STACK_PAGES * 4096)"
  define t3 where "t3 = set_entry (phys_to_virt a2) (va_index 21 USER_VA_CODE) (table_desc a3)
    (map_code (phys_to_virt a3) ca cp (clear_table (phys_to_virt a3) s3))"
  obtain l3s s4 where 4: "next_table (phys_to_virt a2) (va_index 21 base) t3 = (l3s, s4)" by fastforce
  note def = mmu_create_user_pgd_def [of ca cp sa USER_STACK_PAGES s, unfolded 1 Let_def prod.case,
    folded t1_def, unfolded 2 prod.case, folded t2_def, unfolded 3 prod.case, folded base_def t3_def, unfolded 4 prod.case]
  note k1 = keeps_alloc_frame [OF keeps_refl [OF inv order_refl] 1]
  show ?thesis
  proof (cases "a1 = 0")
    case True
    then show ?thesis using r k1(1) unfolding def by simp
  next
    case a1: False
    obtain p1 where p1: "a1 = frame p1" "p1 < TOTAL_PAGES" "p1 \<notin> ?U" using k1(2) [OF a1] by blast
    have kt1: "keeps ?U s t1" unfolding t1_def p1(1) by (rule keeps_clear_table [OF k1(1) p1(3,2)])
    note k2 = keeps_alloc_frame [OF kt1 2]
    show ?thesis
    proof (cases "a2 = 0")
      case True
      then show ?thesis using r a1 keeps_free_frame [OF k2(1) p1(3,2)] unfolding def by (simp add: p1(1))
    next
      case a2: False
      obtain p2 where p2: "a2 = frame p2" "p2 < TOTAL_PAGES" "p2 \<notin> ?U" "p2 \<in> used (kpmm s2)" using k2(2) [OF a2] by blast
      have kt2: "keeps ?U s t2"
        unfolding t2_def p1(1) p2(1)
        by (intro keeps_set_entry keeps_clear_table k2(1) p1(2,3) p2(2,3)) simp
      note k3 = keeps_alloc_frame [OF kt2 3]
      show ?thesis
      proof (cases "a3 = 0")
        case True
        then show ?thesis using r a1 a2 k3(1) unfolding def by simp
      next
        case a3: False
        obtain p3 where p3: "a3 = frame p3" "p3 < TOTAL_PAGES" "p3 \<notin> ?U" "p3 \<notin> used (kpmm t2)" using k3(2) [OF a3] by blast
        have kt3: "keeps ?U s t3"
          unfolding t3_def p2(1) p3(1)
          by (intro keeps_set_entry keeps_map_code keeps_clear_table k3(1) p2(2,3) p3(2,3) va_index_less)
        have "l3s = 0" using r True a1 a2 a3 unfolding def by (auto split: if_splits)
        obtain a4 s5 where 5: "alloc_frame t3 = (a4, s5)" by fastforce
        note k5 = keeps_alloc_frame [OF kt3 5]
        have empty: "table_get (phys_to_virt a2) 3 (kbytes t3) = 0"
        proof -
          have ne: "p3 \<noteq> p2" using p2(4) p3(4) by (auto simp: t2_def)
          have kb: "kbytes s3 = kbytes t2" using alloc_frame_cases [OF keeps_inv [OF kt2] 3] by metis
          have kb2: "kbytes s2 = kbytes t1" using alloc_frame_cases [OF keeps_inv [OF kt1] 2] by metis
          have "va_index 21 USER_VA_CODE = 2" by (simp add: va_index_eq USER_VA_CODE_def)
          then have "entry (kbytes t3) p2 3 = (if p1 = p2 then 0 else 0)"
            using p1(2) p2(2) p3(2) cp ne
            by (simp add: t3_def t2_def p1(1) p2(1) p3(1) entry_set_entry entry_map_code entry_clear_table kb)
          then show ?thesis by (simp add: entry_def p2(1))
        qed
        have ib: "va_index 21 base = 3" by (simp add: base_def va_index_def USER_VA_STACK_def USER_STACK_PAGES_def)
        have "a4 = 0"
        proof (rule ccontr)
          assume "a4 \<noteq> 0"
          then obtain p4 where "a4 = frame p4" "p4 < TOTAL_PAGES" using k5(2) by blast
          then show False using 4 5 empty \<open>l3s = 0\<close> \<open>a4 \<noteq> 0\<close> frame_kva_nonzero [of p4]
            by (auto simp: ib next_table_def Let_def)
        qed
        then have "s4 = s5" using 4 5 empty by (auto simp: ib next_table_def Let_def)
        then show ?thesis using r a1 a2 a3 \<open>l3s = 0\<close> k5(1) unfolding def by simp
      qed
    qed
  qed
qed

text \<open>Mapping the frame \<open>p\<close> into a process's table.\<close>

lemma map_page_space:
  assumes sp: "space_ok rl F pgd s" and p: "p \<in> used (kpmm s)" "p \<notin> dom rl" "p \<notin> F"
    and r: "mmu_map_user_page_in_pgd pgd va (frame p) s = (r, s')"
  obtains rl' where "r = 0 \<or> r = -1" "space_ok rl' (if r = 0 then insert p F else F) pgd s'"
    "dom rl' = dom rl \<union> (used (kpmm s') - used (kpmm s))" "keeps (used (kpmm s) - dom rl) s s'"
    "\<And>va'. walk (kbytes s') pgd va' = (if r = 0 \<and> unat va' div 4096 mod 2 ^ 27 = unat va div 4096 mod 2 ^ 27
       then Some (page_desc (frame p)) else walk (kbytes s) pgd va')"
proof -
  obtain root where root: "pgd = frame root" "pt_wf rl root s" "F \<subseteq> used (kpmm s)" "F \<inter> dom rl = {}"
    "\<forall>va d. walk (kbytes s) pgd va = Some d \<longrightarrow> (\<exists>p \<in> F. d = page_desc (frame p))" "mapped_once (kbytes s) pgd"
    using sp by (auto simp: space_ok_def)
  note wr = root(2) r [unfolded root(1)] and conclude = that
  have main: thesis if rr: "r = 0 \<or> r = -1" and wf: "pt_wf rl' root s'" and le: "rl \<subseteq>\<^sub>m rl'"
      and u: "used (kpmm s) \<subseteq> used (kpmm s')" and dm: "dom rl' = dom rl \<union> (used (kpmm s') - used (kpmm s))"
      and kb: "\<And>x. \<not> (\<exists>p \<in> dom rl'. in_page p x) \<Longrightarrow> kbytes s' x = kbytes s x"
      and w: "\<And>va'. walk (kbytes s') (frame root) va' = (if r = 0 \<and> unat va' div 4096 mod 2 ^ 27 = unat va div 4096 mod 2 ^ 27
         then Some (page_desc (frame p)) else walk (kbytes s) (frame root) va')" for rl'
  proof (rule conclude [OF rr _ dm])
    show "space_ok rl' (if r = 0 then insert p F else F) pgd s'"
      unfolding space_ok_def
    proof (intro exI [of _ root] conjI allI impI)
      show "(if r = 0 then insert p F else F) \<subseteq> used (kpmm s')" using u root(3) p(1) by auto
      show "(if r = 0 then insert p F else F) \<inter> dom rl' = {}" using root(3,4) p dm by auto
      fix va' d assume "walk (kbytes s') pgd va' = Some d"
      then show "\<exists>q \<in> (if r = 0 then insert p F else F). d = page_desc (frame q)"
        using root(1,5) by (auto simp: w split: if_splits)
    next
      have lt: "q < TOTAL_PAGES" if "q \<in> used (kpmm s)" for q using that used_le by blast
      have new: False if at: "walk (kbytes s) pgd v = Some (page_desc (frame p))" for v
      proof -
        obtain q where q: "q \<in> F" "page_desc (frame p) = page_desc (frame q)" using root(5) [rule_format, OF at] by blast
        have "p = q" by (rule page_desc_inj [OF lt [OF p(1)] lt q(2)]) (use root(3) q(1) in blast)
        then show False using p(3) q(1) by simp
      qed
      show "mapped_once (kbytes s') pgd"
        unfolding mapped_once_def root(1) w page_no_def
      proof (intro allI impI, goal_cases)
        case h: (1 v v' d)
        have old: "unat v div 4096 mod 2 ^ 27 = unat v' div 4096 mod 2 ^ 27"
          if "walk (kbytes s) (frame root) v = Some d" "walk (kbytes s) (frame root) v' = Some d"
          using root(6) [unfolded mapped_once_def root(1) page_no_def, rule_format, OF that] .
        show ?case using h old new [of v, unfolded root(1)] new [of v', unfolded root(1)] by (auto split: if_splits)
      qed
    qed (use root(1) wf in auto)
    show "keeps (used (kpmm s) - dom rl) s s'"
      unfolding keeps_def
    proof (intro conjI allI impI)
      show "pmm_inv (kpmm s')" using wf by (simp add: pt_wf_def)
      show "used (kpmm s) - dom rl \<subseteq> used (kpmm s')" using u by auto
      fix x assume "\<exists>q \<in> used (kpmm s) - dom rl. in_page q x"
      then obtain q where q: "q \<in> used (kpmm s)" "q \<notin> dom rl" "in_page q x" by blast
      show "kbytes s' x = kbytes s x"
      proof (rule kb, rule notI)
        assume "\<exists>y \<in> dom rl'. in_page y x"
        then obtain y where y: "y \<in> dom rl'" "in_page y x" by blast
        have "y \<in> used (kpmm s')" using wf y(1) by (auto simp: pt_wf_def)
        then have "y < TOTAL_PAGES" "q < TOTAL_PAGES" using used_le q(1) by blast+
        then have "y = q" using in_page_unique y(2) q(3) by blast
        then show False using dm y(1) q by auto
      qed
    qed
    fix va'
    show "walk (kbytes s') pgd va' = (if r = 0 \<and> unat va' div 4096 mod 2 ^ 27 = unat va div 4096 mod 2 ^ 27
       then Some (page_desc (frame p)) else walk (kbytes s) pgd va')"
      using w root(1) by simp
  qed
  from wr show ?thesis
  proof (cases rule: map_user_page)
    case (ok rl')
    show ?thesis by (rule main [of rl']) (use ok in auto)
  next
    case (failed rl')
    show ?thesis by (rule main [of rl']) (use failed in auto)
  qed
qed

section \<open>A new process\<close>

text \<open>
  What \<open>sched_create_user\<close> and \<open>sched_fork\<close> share: a run of frames for the image, one for the
  guard and the stack, both filled, and a table that maps them.
\<close>

lemma walk_take_bit: "walk m pgd (take_bit 39 va) = walk m pgd va"
proof -
  have "va_index n (take_bit 39 va) = va_index n va" if "n \<le> 30" for n
  proof -
    have "(w :: u64) AND 0x1FF = take_bit 9 w" for w by (simp add: take_bit_eq_mask mask_eq_exp_minus_1)
    then show ?thesis using that by (simp add: va_index_def drop_bit_take_bit take_bit_take_bit min_def)
  qed
  then have "va_index 30 (take_bit 39 va) = va_index 30 va" "va_index 21 (take_bit 39 va) = va_index 21 va"
    "va_index 12 (take_bit 39 va) = va_index 12 va" by simp_all
  note ix = this
  show ?thesis unfolding walk_def ix by (rule refl)
qed

lemma frame_add: "p + i < TOTAL_PAGES \<Longrightarrow> frame p + of_nat i * 4096 = frame (p + i)"
proof -
  assume a: "p + i < TOTAL_PAGES"
  have "unat (of_nat i * 4096 :: u64) = i * 4096" using a by (simp add: unat_word_ariths unat_of_nat_small TOTAL_PAGES_def)
  moreover have "unat (frame p) = 0x40000000 + p * 4096" "unat (frame (p + i)) = 0x40000000 + (p + i) * 4096"
    using a by (simp_all only: unat_page_to_addr)
  ultimately have "unat (frame p + of_nat i * 4096) = unat (frame (p + i))"
    using a by (subst unat_add_small) (simp_all add: TOTAL_PAGES_def)
  then show ?thesis by (simp only: word_unat_eq_iff)
qed

lemma user_map_frames:
  assumes "user_map ca n sa 4 v = Some d" "ca = frame c" "c + n \<le> TOTAL_PAGES" "sa = frame st" "st + 4 \<le> TOTAL_PAGES"
  obtains (code) "0x400 \<le> v" "v < 0x400 + n" "d = page_desc (frame (c + (v - 0x400)))"
  | (stack) "0x800 - 4 \<le> v" "v < 0x800" "d = page_desc (frame (st + (v - (0x800 - 4))))"
proof (cases "0x400 \<le> v \<and> v < 0x400 + n")
  case True
  then show ?thesis using code assms frame_add [of c "v - 0x400"] by (auto simp: user_map_def)
next
  case False
  then have "0x800 - 4 \<le> v" "v < 0x800" "d = page_desc (frame (st + (v - (0x800 - 4))))"
    using assms frame_add [of st "v - (0x800 - 4)"] by (auto simp: user_map_def split: if_splits)
  then show ?thesis by (rule stack)
qed

lemma user_map_once:
  assumes "user_map ca n sa 4 v = Some d" "user_map ca n sa 4 v' = Some d"
    and fr: "ca = frame c" "c + n \<le> TOTAL_PAGES" "sa = frame st" "st + 4 \<le> TOTAL_PAGES" and dj: "{c..<c + n} \<inter> {st..<st + 4} = {}"
  shows "v = v'"
proof -
  have ap: "c + i \<noteq> st + j" if "i < n" "j < 4" for i j
  proof
    assume "c + i = st + j"
    then have "c + i \<in> {c..<c + n} \<inter> {st..<st + 4}" using that by simp
    then show False using dj by simp
  qed
  from assms(1) fr show ?thesis
  proof (cases rule: user_map_frames)
    case c1: code
    from assms(2) fr show ?thesis
    proof (cases rule: user_map_frames)
      case code
      have "c + (v - 0x400) = c + (v' - 0x400)"
        by (rule page_desc_inj [OF _ _ trans [OF c1(3) [symmetric] code(3)]]) (use c1(1,2) code(1,2) fr(2) in arith)+
      then show ?thesis using c1(1) code(1) by arith
    next
      case stack
      have "c + (v - 0x400) = st + (v' - (0x800 - 4))"
        by (rule page_desc_inj [OF _ _ trans [OF c1(3) [symmetric] stack(3)]]) (use c1(1,2) stack(1,2) fr(2,4) in arith)+
      then show ?thesis using ap [of "v - 0x400" "v' - (0x800 - 4)"] c1(1,2) stack(1,2) by arith
    qed
  next
    case c1: stack
    from assms(2) fr show ?thesis
    proof (cases rule: user_map_frames)
      case code
      have "c + (v' - 0x400) = st + (v - (0x800 - 4))"
        by (rule page_desc_inj [OF _ _ trans [OF code(3) [symmetric] c1(3)]]) (use c1(1,2) code(1,2) fr(2,4) in arith)+
      then show ?thesis using ap [of "v' - 0x400" "v - (0x800 - 4)"] c1(1,2) code(1,2) by arith
    next
      case stack
      have "st + (v - (0x800 - 4)) = st + (v' - (0x800 - 4))"
        by (rule page_desc_inj [OF _ _ trans [OF c1(3) [symmetric] stack(3)]]) (use c1(1,2) stack(1,2) fr(4) in arith)+
      then show ?thesis using c1(1) stack(1) by arith
    qed
  qed
qed

lemma page_no_take_bit: "unat (take_bit 39 va) div 4096 = page_no (va :: u64)"
proof -
  have "(x :: nat) mod (4096 * 2 ^ 27) div 4096 = x div 4096 mod 2 ^ 27" for x by (simp only: mod_mult2_eq)
  then show ?thesis by (simp add: unat_take_bit page_no_def)
qed

lemma build_space:
  assumes inv: "pmm_inv (kpmm m)" and cp: "0 < cp" "unat cp \<le> 512"
    and a1: "pmm_alloc_pages cp (kpmm m) = (ca, pm1)" "ca \<noteq> 0"
    and b2: "\<And>x. \<not> unat (x - phys_to_virt ca) < unat cp * 4096 \<Longrightarrow> b2 x = kbytes m x"
    and a3: "pmm_alloc_pages (USER_STACK_PAGES + 1) pm1 = (sa, pm3)" "sa \<noteq> 0"
    and b4: "\<And>x. \<not> unat (x - phys_to_virt (sa + 4096)) < 4 * 4096 \<Longrightarrow> b4 x = b2 x"
    and m4: "m4 = m\<lparr>kpmm := pm3, kbytes := b4\<rparr>"
    and pgd: "mmu_create_user_pgd ca cp (sa + 4096) USER_STACK_PAGES m4 = (pgd, m5)"
  obtains c st where "ca = frame c" "c + unat cp \<le> TOTAL_PAGES" "sa = frame st" "sa + 4096 = frame (Suc st)"
    "st + 5 \<le> TOTAL_PAGES" "{c..<c + unat cp} \<inter> used (kpmm m) = {}" "{st..<st + 5} \<inter> used (kpmm m) = {}"
    "{c..<c + unat cp} \<inter> {st..<st + 5} = {}"
    "keeps (used (kpmm m) \<union> {c..<c + unat cp}) (m\<lparr>kpmm := pm1, kbytes := b2\<rparr>) m4" "keeps (used (kpmm m)) m m4"
    "keeps (used (kpmm m) \<union> {c..<c + unat cp} \<union> {st..<st + 5}) m4 m5"
    "pgd \<noteq> 0 \<Longrightarrow> \<exists>rl. space_ok rl ({c..<c + unat cp} \<union> {Suc st..<st + 5}) pgd m5
       \<and> dom rl \<inter> (used (kpmm m) \<union> {c..<c + unat cp} \<union> {st..<st + 5}) = {}
       \<and> (\<forall>v. unat v < 2 ^ 39 \<longrightarrow> walk (kbytes m5) pgd v = user_map ca (unat cp) (sa + 4096) 4 (unat v div 4096))"
proof -
  have five: "unat (USER_STACK_PAGES + 1) = 5" "0 < USER_STACK_PAGES + 1" "unat USER_STACK_PAGES = 4"
    by (simp_all add: USER_STACK_PAGES_def)
  obtain c where c: "ca = frame c" "c + unat cp \<le> TOTAL_PAGES" "{c..<c + unat cp} \<inter> used (kpmm m) = {}"
    "used pm1 = used (kpmm m) \<union> {c..<c + unat cp}"
    using keeps_alloc_pages(2) [OF inv cp(1) a1] by blast
  have inv1: "pmm_inv pm1" using keeps_inv [OF keeps_alloc_pages(1) [OF inv cp(1) a1(1)]] by simp
  obtain st where st: "sa = frame st" "st + 5 \<le> TOTAL_PAGES" "{st..<st + 5} \<inter> used pm1 = {}"
    "used pm3 = used pm1 \<union> {st..<st + 5}"
    using keeps_alloc_pages(2) [of "m\<lparr>kpmm := pm1\<rparr>", OF _ five(2)] inv1 a3 five(1) by auto
  have inv3: "pmm_inv pm3"
    using keeps_inv [OF keeps_alloc_pages(1) [of "m\<lparr>kpmm := pm1\<rparr>", OF _ five(2)]] inv1 a3 by simp
  have sa: "sa + 4096 = frame (Suc st)" using page_to_addr_add [of st 1] st(1,2) by simp
  let ?C = "{c..<c + unat cp}" and ?S = "{st..<st + 5}" and ?U = "used (kpmm m)"
  let ?m2 = "m\<lparr>kpmm := pm1, kbytes := b2\<rparr>"
  have u4: "used (kpmm m4) = ?U \<union> ?C \<union> ?S" using c(4) st(4) by (simp add: m4)
  have k2: "keeps ?U m ?m2"
  proof -
    have "keeps ?U (m\<lparr>kpmm := pm1\<rparr>) (m\<lparr>kpmm := pm1\<rparr>\<lparr>kbytes := b2\<rparr>)"
      by (rule keeps_bytes_run [of _ _ c "unat cp"]) (use inv1 c b2 in auto)
    then show ?thesis by (simp add: keeps_def)
  qed
  have k4: "keeps (?U \<union> ?C) ?m2 m4"
  proof -
    have "keeps (?U \<union> ?C) (m\<lparr>kpmm := pm3, kbytes := b2\<rparr>) (m\<lparr>kpmm := pm3, kbytes := b2\<rparr>\<lparr>kbytes := b4\<rparr>)"
    proof (rule keeps_bytes_run [of _ _ "Suc st" 4])
      show "(?U \<union> ?C) \<inter> {Suc st..<Suc st + 4} = {}" using st(3) unfolding c(4) disjoint_iff by auto
    qed (use inv3 st c(4) b4 sa in auto)
    then show ?thesis by (simp add: keeps_def m4)
  qed
  have i4: "pmm_inv (kpmm m4)" using inv3 by (simp add: m4)
  have k5: "keeps (?U \<union> ?C \<union> ?S) m4 m5" using create_user_pgd_keeps [OF i4 cp(2) pgd] by (simp only: u4)
  have sp: "0 < USER_STACK_PAGES" "unat USER_STACK_PAGES \<le> 512" by (simp_all add: USER_STACK_PAGES_def)
  have new: "\<exists>rl. space_ok rl (?C \<union> {Suc st..<st + 5}) pgd m5 \<and> dom rl \<inter> (?U \<union> ?C \<union> ?S) = {}
       \<and> (\<forall>v. unat v < 2 ^ 39 \<longrightarrow> walk (kbytes m5) pgd v = user_map ca (unat cp) (sa + 4096) 4 (unat v div 4096))"
    if nz: "pgd \<noteq> 0"
  proof (rule create_user_pgd [OF i4 cp(2) sp pgd])
    fix p1 rl assume r: "pgd = frame p1" "pt_wf rl p1 m5" "dom rl \<inter> used (kpmm m4) = {}"
      "used (kpmm m5) = used (kpmm m4) \<union> dom rl"
      "\<And>v. unat v < 2 ^ 39 \<Longrightarrow> walk (kbytes m5) pgd v = user_map ca (unat cp) (sa + 4096) (unat USER_STACK_PAGES) (unat v div 4096)"
    have um: "user_map ca (unat cp) (sa + 4096) 4 (page_no va) = Some d" if w: "walk (kbytes m5) pgd va = Some d" for va d
    proof -
      have "walk (kbytes m5) pgd (take_bit 39 va) = Some d" using w by (simp add: walk_take_bit)
      moreover have "unat (take_bit 39 va) < 2 ^ 39" by (simp add: unat_take_bit)
      ultimately show ?thesis using r(5) [of "take_bit 39 va"] unfolding five(3) page_no_take_bit by simp
    qed
    have st4: "Suc st + 4 \<le> TOTAL_PAGES" using st(2) by simp
    have fr: "\<exists>p \<in> ?C \<union> {Suc st..<st + 5}. d = page_desc (frame p)" if "walk (kbytes m5) pgd va = Some d" for va d
      using um [OF that] c(1,2) sa st4
    proof (cases rule: user_map_frames)
      case code
      then show ?thesis by (intro bexI [of _ "c + (page_no va - 0x400)"]) auto
    next
      case stack
      then show ?thesis by (intro bexI [of _ "Suc st + (page_no va - (0x800 - 4))"]) auto
    qed
    have "?C \<inter> {Suc st..<Suc st + 4} = {}" using st(3) unfolding c(4) disjoint_iff by auto
    then have once: "mapped_once (kbytes m5) pgd"
      unfolding mapped_once_def using user_map_once [OF um um c(1,2) sa st4] by blast
    have "space_ok rl (?C \<union> {Suc st..<st + 5}) pgd m5"
      unfolding space_ok_def
    proof (intro exI [of _ p1] conjI allI impI)
      show "?C \<union> {Suc st..<st + 5} \<subseteq> used (kpmm m5)" using r(4) u4 by auto
      show "(?C \<union> {Suc st..<st + 5}) \<inter> dom rl = {}" using r(3) u4 by auto
    qed (use r fr once in auto)
    then show ?thesis using r(3,5) five(3) u4 by auto
  qed (use nz in simp)
  have d: "?S \<inter> ?U = {}" "?C \<inter> ?S = {}" using st(3) unfolding c(4) disjoint_iff by auto
  show ?thesis
    by (rule that [of c st, OF c(1,2) st(1) sa st(2) c(3) d k4 _ k5 new])
      (use keeps_trans [OF k2 keeps_mono [OF k4]] in auto)
qed

end
