(* ===== verification/Sbrk.thy ===== *)
theory Sbrk
  imports Sched Spaces
begin

text \<open>
  Growing a process's heap: the \<open>SYS_SBRK\<close> case of \<^verbatim>\<open>src/syscall.c\<close>. Its loop runs over pages
  below the stack guard, so \<open>0x800\<close> iterations are always enough (\<open>sbrk_map_spec\<close>).
\<close>

section \<open>Operation\<close>

text \<open>The mapping loop; the flag is \<open>failed\<close>. \<open>None\<close>: out of fuel.\<close>

fun sbrk_map :: "nat \<Rightarrow> u64 \<Rightarrow> u64 \<Rightarrow> u64 \<Rightarrow> kmem \<Rightarrow> (bool \<times> kmem) option" where
  "sbrk_map 0 pgd va page_end m = None"
| "sbrk_map (Suc n) pgd va page_end m =
     (if va < page_end then
        let (pa, m) = alloc_frame m
        in if pa = 0 then Some (True, m)
           else
             let m = m\<lparr>kbytes := fill_bytes 0 4096 (phys_to_virt pa) (\<lambda>_. 0) (kbytes m)\<rparr>;
                 (r, m) = mmu_map_user_page_in_pgd pgd va pa m
             in if r < 0 then Some (True, m\<lparr>kpmm := pmm_free_page pa (kpmm m)\<rparr>)
                else sbrk_map n pgd (va + 4096) page_end m
      else Some (False, m))"

definition sys_sbrk :: "u64 \<Rightarrow> kernel \<Rightarrow> (u64 \<times> kernel) option" where
  "sys_sbrk increment k =
     (let t = cur_task k
      in if \<not> is_user t then Some (-1, k)
      else if increment = 0 then Some (heap_break t, k)
      else
        let old_break = heap_break t; new_break = old_break + increment
        in if new_break \<ge> USER_VA_GUARD then Some (-1, k)
        else
          let page_end = PAGE_ALIGN_UP new_break; map_from = PAGE_ALIGN_UP old_break
          in case sbrk_map 0x800 (ttbr0 t) map_from page_end (kmm k) of
               None \<Rightarrow> None
             | Some (failed, m) \<Rightarrow>
                 if failed then Some (-1, k\<lparr>kmm := m\<rparr>)
                 else Some (old_break, upd_task (current_task k) (\<lambda>t. t\<lparr>heap_break := new_break\<rparr>) (k\<lparr>kmm := m\<rparr>)))"

section \<open>The loop\<close>

lemma fill_page:
  assumes "p < TOTAL_PAGES"
  shows "fill_bytes 0 4096 (phys_to_virt (frame p)) (\<lambda>_. 0) b x = (if in_page p x then 0 else b x)"
  by (simp add: fill_bytes_apply in_page_def word_less_nat_alt)

lemma unat_page_addr: "A \<le> 0x800 \<Longrightarrow> unat (of_nat A * 4096 :: u64) = A * 4096"
  by (simp add: unat_word_ariths unat_of_nat_small)

lemma space_ok_walk:
  assumes "space_ok rl F pgd s" "keeps (dom rl) s s'"
  shows "walk (kbytes s') pgd v = walk (kbytes s) pgd v"
  using assms keeps_walk by (auto simp: space_ok_def)

lemma sbrk_map_spec:
  assumes "space_ok rl F pgd m" "E \<le> 0x800" "A \<le> 0x800" "E - A < n"
  shows "\<exists>rl' F' b m' M. sbrk_map n pgd (of_nat (A * 4096)) (of_nat (E * 4096)) m = Some (b, m')
    \<and> space_ok rl' F' pgd m' \<and> dom rl \<subseteq> dom rl' \<and> F \<subseteq> F'
    \<and> dom rl' \<union> F' \<subseteq> dom rl \<union> F \<union> (used (kpmm m') - used (kpmm m)) \<and> keeps (used (kpmm m) - dom rl) m m'
    \<and> A \<le> M \<and> (b \<or> E \<le> M) \<and> M \<le> max A E
    \<and> (\<forall>v. if A \<le> page_no v \<and> page_no v < M
           then \<exists>p \<in> F' - F. walk (kbytes m') pgd v = Some (page_desc (frame p)) \<and> (\<forall>x. in_page p x \<longrightarrow> kbytes m' x = 0)
           else walk (kbytes m') pgd v = walk (kbytes m) pgd v)"
  (is "\<exists>rl' F' b m' M. ?P m A n F rl rl' F' b m' M")
  using assms
proof (induction n arbitrary: A m rl F)
  case (Suc n)
  note sp = Suc.prems(1)
  have inv: "pmm_inv (kpmm m)" and own: "dom rl \<union> F \<subseteq> used (kpmm m)" using space_ok_used [OF sp] by blast+
  have w: "(of_nat (A * 4096) :: u64) < of_nat (E * 4096) \<longleftrightarrow> A < E"
  proof -
    show ?thesis using unat_page_addr [of A] unat_page_addr [of E] Suc.prems(2,3) by (simp add: word_less_nat_alt)
  qed
  show ?case
  proof (cases "A < E")
    case False
    then have "sbrk_map (Suc n) pgd (of_nat (A * 4096)) (of_nat (E * 4096)) m = Some (False, m)" using w by simp
    then show ?thesis
      using sp False keeps_refl [OF inv, of "used (kpmm m) - dom rl"]
      by (intro exI [of _ rl] exI [of _ F] exI [of _ False] exI [of _ m] exI [of _ A]) auto
  next
    case True
    obtain pa m1 where al: "alloc_frame m = (pa, m1)" by fastforce
    note ka = keeps_alloc_frame [OF keeps_refl [OF inv order_refl] al]
    show ?thesis
    proof (cases "pa = 0")
      case z: True
      have "m1 = m" using alloc_frame_cases [OF inv al] z by metis
      then have "sbrk_map (Suc n) pgd (of_nat (A * 4096)) (of_nat (E * 4096)) m = Some (True, m)"
        using w True al z by simp
      then show ?thesis
        using sp keeps_refl [OF inv, of "used (kpmm m) - dom rl"]
        by (intro exI [of _ rl] exI [of _ F] exI [of _ True] exI [of _ m] exI [of _ A]) auto
    next
      case nz: False
      obtain p where p: "pa = frame p" "p < TOTAL_PAGES" "p \<notin> used (kpmm m)" "used (kpmm m1) = insert p (used (kpmm m))"
        using alloc_frame_cases [OF inv al] nz by metis
      define m2 where "m2 = m1\<lparr>kbytes := fill_bytes 0 4096 (phys_to_virt pa) (\<lambda>_. 0) (kbytes m1)\<rparr>"
      have k2: "keeps (used (kpmm m)) m m2"
        by (rule keeps_bytes [OF ka(1) _ p(3,2)]) (simp_all add: m2_def p(1,2) fill_page)
      have zero2: "kbytes m2 x = 0" if "in_page p x" for x using that by (simp add: m2_def p(1,2) fill_page)
      have u2: "used (kpmm m2) = insert p (used (kpmm m))" by (simp add: m2_def p(4))
      have sp2: "space_ok rl F pgd m2" by (rule keeps_space_ok [OF sp]) (rule keeps_mono [OF k2 own])
      have w2: "walk (kbytes m2) pgd v = walk (kbytes m) pgd v" for v
        using own by (intro space_ok_walk [OF sp keeps_mono [OF k2]]) auto
      obtain r m3 where r: "mmu_map_user_page_in_pgd pgd (of_nat (A * 4096)) (frame p) m2 = (r, m3)" by fastforce
      have p2: "p \<in> used (kpmm m2)" "p \<notin> dom rl" "p \<notin> F" using p own by (auto simp: u2)
      have step: "sbrk_map (Suc n) pgd (of_nat (A * 4096)) (of_nat (E * 4096)) m =
          (if r < 0 then Some (True, m3\<lparr>kpmm := pmm_free_page (frame p) (kpmm m3)\<rparr>)
           else sbrk_map n pgd (of_nat (Suc A * 4096)) (of_nat (E * 4096)) m3)"
        using w True al nz r by (simp add: m2_def p(1) add.commute)
      from sp2 p2 r show ?thesis
      proof (rule map_page_space)
        fix rl1 assume m3: "r = 0 \<or> r = -1" "space_ok rl1 (if r = 0 then insert p F else F) pgd m3"
          "dom rl1 = dom rl \<union> (used (kpmm m3) - used (kpmm m2))" "keeps (used (kpmm m2) - dom rl) m2 m3"
          and wk: "\<And>v. walk (kbytes m3) pgd v = (if r = 0 \<and> unat v div 4096 mod 2 ^ 27 = unat (of_nat (A * 4096) :: u64) div 4096 mod 2 ^ 27
            then Some (page_desc (frame p)) else walk (kbytes m2) pgd v)"
        have "unat (of_nat (A * 4096) :: u64) div 4096 mod 2 ^ 27 = A" using Suc.prems(3) by (simp add: unat_page_addr)
        then have w3: "walk (kbytes m3) pgd v = (if r = 0 \<and> page_no v = A then Some (page_desc (frame p)) else walk (kbytes m) pgd v)" for v
          by (simp only: wk w2 page_no_def)
        have "dom rl1 \<subseteq> used (kpmm m3)" using space_ok_used(1) [OF m3(2)] by blast
        then have u3: "used (kpmm m2) \<subseteq> used (kpmm m3)" using keeps_used [OF m3(4)] m3(3) by blast
        have k3: "keeps (used (kpmm m) - dom rl) m m3"
          by (rule keeps_trans [OF keeps_mono [OF k2] keeps_mono [OF m3(4)]]) (auto simp: u2)
        show ?thesis
        proof (cases "r = 0")
          case False
          let ?m = "m3\<lparr>kpmm := pmm_free_page (frame p) (kpmm m3)\<rparr>"
          have res: "sbrk_map (Suc n) pgd (of_nat (A * 4096)) (of_nat (E * 4096)) m = Some (True, ?m)"
            using step m3(1) False by simp
          have sp3: "space_ok rl1 F pgd m3" using m3(2) False by simp
          note i3 = space_ok_used [OF sp3]
          have um: "used (kpmm ?m) = used (kpmm m3) - {p}" using pmm_free_page_used(2) [OF i3(2) p(2)] by simp
          have pn: "p \<notin> dom rl1 \<union> F" using m3(3) p2 by auto
          have kf: "keeps (dom rl1 \<union> F) m3 ?m" by (rule keeps_free_frame [OF keeps_refl [OF i3(2,1)] pn p(2)])
          have kf': "keeps (used (kpmm m) - dom rl) m ?m" by (rule keeps_free_frame [OF k3 _ p(2)]) (use p(3) in auto)
          have sub: "dom rl1 \<union> F \<subseteq> dom rl \<union> F \<union> (used (kpmm ?m) - used (kpmm m))"
            unfolding um m3(3) u2 by auto
          show ?thesis
            using res keeps_space_ok [OF sp3 kf] kf' sub m3(3) w3 False
            by (intro exI [of _ rl1] exI [of _ F] exI [of _ True] exI [of _ ?m] exI [of _ A]) auto
        next
          case r0: True
          have sp3: "space_ok rl1 (insert p F) pgd m3" using m3(2) r0 by simp
          have "E - Suc A < n" "Suc A \<le> 0x800" using Suc.prems True by auto
          from Suc.IH [OF sp3 Suc.prems(2) this(2,1)] obtain rl' F' b m' M
            where R: "sbrk_map n pgd (of_nat (Suc A * 4096)) (of_nat (E * 4096)) m3 = Some (b, m')"
              "space_ok rl' F' pgd m'" "dom rl1 \<subseteq> dom rl'" "insert p F \<subseteq> F'"
              "dom rl' \<union> F' \<subseteq> dom rl1 \<union> insert p F \<union> (used (kpmm m') - used (kpmm m3))"
              "keeps (used (kpmm m3) - dom rl1) m3 m'" "Suc A \<le> M" "b \<or> E \<le> M" "M \<le> max (Suc A) E"
            and W: "\<forall>v. if Suc A \<le> page_no v \<and> page_no v < M
               then \<exists>q \<in> F' - insert p F. walk (kbytes m') pgd v = Some (page_desc (frame q)) \<and> (\<forall>x. in_page q x \<longrightarrow> kbytes m' x = 0)
               else walk (kbytes m') pgd v = walk (kbytes m3) pgd v"
            by (elim exE conjE) (rule that)
          have res: "sbrk_map (Suc n) pgd (of_nat (A * 4096)) (of_nat (E * 4096)) m = Some (b, m')"
            using step r0 R(1) by simp
          have own': "dom rl' \<union> F' \<subseteq> used (kpmm m')" using space_ok_used(1) [OF R(2)] .
          have sub: "dom rl' \<union> F' \<subseteq> dom rl \<union> F \<union> (used (kpmm m') - used (kpmm m))"
          proof
            fix x assume x: "x \<in> dom rl' \<union> F'"
            have "x \<in> used (kpmm m')" using own' x by (rule subsetD)
            moreover have "x \<in> dom rl1 \<union> insert p F \<union> (used (kpmm m') - used (kpmm m3))" using R(5) x by (rule subsetD)
            moreover have "x \<notin> used (kpmm m)" if "x \<notin> used (kpmm m3)" using that u2 u3 by auto
            ultimately show "x \<in> dom rl \<union> F \<union> (used (kpmm m') - used (kpmm m))" using p(3) unfolding m3(3) u2 by auto
          qed
          have kk: "keeps (used (kpmm m) - dom rl) m m'"
            by (rule keeps_trans [OF k3 keeps_mono [OF R(6)]]) (use u3 in \<open>auto simp: m3(3) u2\<close>)
          have pz: "kbytes m' x = 0" if "in_page p x" for x
          proof -
            have "kbytes m3 x = kbytes m2 x" using m3(4) that p2(1,2) unfolding keeps_def by blast
            moreover have "kbytes m' x = kbytes m3 x" using R(6) that p2(1,2) u3 m3(3) unfolding keeps_def by blast
            ultimately show ?thesis using zero2 [OF that] by simp
          qed
          have WW: "if A \<le> page_no v \<and> page_no v < M
               then \<exists>q \<in> F' - F. walk (kbytes m') pgd v = Some (page_desc (frame q)) \<and> (\<forall>x. in_page q x \<longrightarrow> kbytes m' x = 0)
               else walk (kbytes m') pgd v = walk (kbytes m) pgd v" for v
          proof (cases "page_no v = A")
            case eq: True
            then have "walk (kbytes m') pgd v = Some (page_desc (frame p))" using W [rule_format, of v] w3 r0 by simp
            then show ?thesis using eq R(4,7) p2(3) pz by (auto intro!: bexI [of _ p])
          next
            case ne: False
            show ?thesis
            proof (cases "Suc A \<le> page_no v \<and> page_no v < M")
              case True
              then show ?thesis using W [rule_format, of v] by auto
            next
              case False
              then have "walk (kbytes m') pgd v = walk (kbytes m3) pgd v" using W [rule_format, of v] by simp
              then show ?thesis using False ne w3 by auto
            qed
          qed
          have "M \<le> max A E" using R(9) True by simp
          then show ?thesis
            using res R(2,3,4,7,8) sub kk WW m3(3)
            by (intro exI [of _ rl'] exI [of _ F'] exI [of _ b] exI [of _ m'] exI [of _ M]) auto
        qed
      qed
    qed
  qed
qed simp

end
