(* ===== verification/Isolation.thy ===== *)
theory Isolation
  imports SchedSpec Spaces Sbrk
begin

text \<open>
  Memory isolation between processes: who owns which page frames, and that creating a process,
  forking one and growing a heap keep the frames of different processes, their page tables and
  the frames of the kernel apart.
\<close>

section \<open>Ownership\<close>

text \<open>
  \<open>own i\<close>: the table pages of process \<open>i\<close> and the frames of its memory. \<open>K\<close>: the frames that hold
  the kernel, its task stacks among them.
\<close>

type_synonym ownership = "nat \<Rightarrow> (nat \<Rightarrow> role option) \<times> nat set"

definition owned :: "ownership \<Rightarrow> nat \<Rightarrow> nat set" where
  "owned own i = dom (fst (own i)) \<union> snd (own i)"

definition task_pages_ok :: "nat set \<Rightarrow> task \<Rightarrow> bool" where
  "task_pages_ok F t \<longleftrightarrow> 0 < code_pages t \<and> unat (code_pages t) \<le> 512
     \<and> (\<exists>c. code_pa t = frame c \<and> c + unat (code_pages t) \<le> TOTAL_PAGES \<and> {c..<c + unat (code_pages t)} \<subseteq> F)
     \<and> (\<exists>st. stack_pa t = frame st \<and> st + 4 \<le> TOTAL_PAGES \<and> {st..<st + 4} \<subseteq> F)"

definition isolated :: "nat set \<Rightarrow> ownership \<Rightarrow> kernel \<Rightarrow> bool" where
  "isolated K own k \<longleftrightarrow> pmm_inv (kpmm (kmm k)) \<and> K \<subseteq> used (kpmm (kmm k))
     \<and> (\<forall>i < num_tasks k. is_user (task_at k i) \<longrightarrow>
          space_ok (fst (own i)) (snd (own i)) (ttbr0 (task_at k i)) (kmm k)
          \<and> task_pages_ok (snd (own i)) (task_at k i) \<and> owned own i \<inter> K = {})
     \<and> (\<forall>i < num_tasks k. \<forall>j < num_tasks k. i \<noteq> j \<longrightarrow> is_user (task_at k i) \<longrightarrow> is_user (task_at k j) \<longrightarrow>
          owned own i \<inter> owned own j = {})"

text \<open>The fields of a task that its address space depends on.\<close>

definition same_space :: "task \<Rightarrow> task \<Rightarrow> bool" where
  "same_space t t' \<longleftrightarrow> is_user t' = is_user t \<and> ttbr0 t' = ttbr0 t \<and> code_pa t' = code_pa t
     \<and> code_pages t' = code_pages t \<and> stack_pa t' = stack_pa t"

lemma same_space_pages: "same_space t t' \<Longrightarrow> task_pages_ok F t' = task_pages_ok F t"
  by (simp add: same_space_def task_pages_ok_def)

lemma isolated_user:
  assumes "isolated K own k" "i < num_tasks k" "is_user (task_at k i)"
  shows "space_ok (fst (own i)) (snd (own i)) (ttbr0 (task_at k i)) (kmm k)"
    "task_pages_ok (snd (own i)) (task_at k i)" "owned own i \<inter> K = {}" "owned own i \<subseteq> used (kpmm (kmm k))"
  using assms space_ok_used(1) unfolding isolated_def owned_def by blast+

lemma isolated_pmm: "isolated K own k \<Longrightarrow> pmm_inv (kpmm (kmm k))" "isolated K own k \<Longrightarrow> K \<subseteq> used (kpmm (kmm k))"
  by (simp_all add: isolated_def)

lemma isolated_keeps:
  assumes iso: "isolated K own k" and n: "num_tasks k' = num_tasks k"
    and t: "\<And>i. i < num_tasks k \<Longrightarrow> same_space (task_at k i) (task_at k' i)"
    and K: "K \<subseteq> used (kpmm (kmm k'))" and inv: "pmm_inv (kpmm (kmm k'))"
    and keep: "\<And>i. i < num_tasks k \<Longrightarrow> is_user (task_at k i) \<Longrightarrow> keeps (owned own i) (kmm k) (kmm k')"
  shows "isolated K own k'"
  unfolding isolated_def n
proof (intro conjI allI impI)
  fix i assume i: "i < num_tasks k" "is_user (task_at k' i)"
  then have u: "is_user (task_at k i)" using t by (simp add: same_space_def)
  note o = isolated_user [OF iso i(1) u]
  show "space_ok (fst (own i)) (snd (own i)) (ttbr0 (task_at k' i)) (kmm k')"
    using keeps_space_ok [OF o(1)] keep [OF i(1) u] t [OF i(1)] by (simp add: owned_def same_space_def)
  show "task_pages_ok (snd (own i)) (task_at k' i)" using o(2) same_space_pages [OF t [OF i(1)]] by simp
  show "owned own i \<inter> K = {}" by (rule o(3))
next
  fix i j assume "i < num_tasks k" "j < num_tasks k" "i \<noteq> j" "is_user (task_at k' i)" "is_user (task_at k' j)"
  then show "owned own i \<inter> owned own j = {}" using iso t unfolding isolated_def same_space_def by blast
qed (use K inv in auto)

lemma isolated_same:
  assumes "isolated K own k" "num_tasks k' = num_tasks k" "kmm k' = kmm k"
    "\<And>i. i < num_tasks k \<Longrightarrow> same_space (task_at k i) (task_at k' i)"
  shows "isolated K own k'"
  using assms(1,2,4)
proof (rule isolated_keeps)
  show "keeps (owned own i) (kmm k) (kmm k')" if "i < num_tasks k" "is_user (task_at k i)" for i
    unfolding assms(3) by (rule keeps_refl [OF isolated_pmm(1) [OF assms(1)] isolated_user(4) [OF assms(1) that]])
qed (use isolated_pmm [OF assms(1)] assms(3) in auto)

text \<open>A new process in the next slot, on frames that nobody used.\<close>

lemma isolated_new:
  assumes iso: "isolated K own k" and n: "num_tasks k' = Suc (num_tasks k)"
    and t: "\<And>i. i < num_tasks k \<Longrightarrow> same_space (task_at k i) (task_at k' i)"
    and keep: "keeps (used (kpmm (kmm k)) - K) (kmm k) (kmm k')" and K: "K \<subseteq> used (kpmm (kmm k'))"
    and new: "is_user (task_at k' (num_tasks k)) \<Longrightarrow> space_ok rl F (ttbr0 (task_at k' (num_tasks k))) (kmm k')
      \<and> task_pages_ok F (task_at k' (num_tasks k)) \<and> (dom rl \<union> F) \<inter> used (kpmm (kmm k)) = {}"
  shows "isolated K (own(num_tasks k := (rl, F))) k'"
  unfolding isolated_def n
proof (intro conjI allI impI)
  let ?own = "own(num_tasks k := (rl, F))" and ?n = "num_tasks k"
  have old: "owned ?own i = owned own i" if "i < ?n" for i using that by (simp add: owned_def)
  have nw: "owned ?own ?n = dom rl \<union> F" by (simp add: owned_def)
  have user: "is_user (task_at k i)" if "i < ?n" "is_user (task_at k' i)" for i using t [OF that(1)] that by (simp add: same_space_def)
  show "pmm_inv (kpmm (kmm k'))" by (rule keeps_inv [OF keep])
  show "K \<subseteq> used (kpmm (kmm k'))" by (rule K)
  fix i assume i: "i < Suc ?n" "is_user (task_at k' i)"
  show "space_ok (fst (?own i)) (snd (?own i)) (ttbr0 (task_at k' i)) (kmm k')"
    "task_pages_ok (snd (?own i)) (task_at k' i)" "owned ?own i \<inter> K = {}"
  proof -
    have "space_ok (fst (?own i)) (snd (?own i)) (ttbr0 (task_at k' i)) (kmm k')
      \<and> task_pages_ok (snd (?own i)) (task_at k' i) \<and> owned ?own i \<inter> K = {}"
    proof (cases "i = ?n")
      case True
      then show ?thesis using new i(2) nw isolated_pmm(2) [OF iso] by auto
    next
      case False
      then have l: "i < ?n" using i by simp
      note o = isolated_user [OF iso l user [OF l i(2)]]
      have "keeps (owned own i) (kmm k) (kmm k')" by (rule keeps_mono [OF keep]) (use o(3,4) in blast)
      then show ?thesis
        using keeps_space_ok [OF o(1)] t [OF l] o(2,3) same_space_pages [OF t [OF l]] False old [OF l]
        by (simp add: owned_def same_space_def)
    qed
    then show "space_ok (fst (?own i)) (snd (?own i)) (ttbr0 (task_at k' i)) (kmm k')"
      "task_pages_ok (snd (?own i)) (task_at k' i)" "owned ?own i \<inter> K = {}" by blast+
  qed
  fix j assume j: "j < Suc ?n" "i \<noteq> j" "is_user (task_at k' j)"
  have fresh: "owned ?own a \<inter> owned ?own ?n = {}" if a: "a < ?n" "is_user (task_at k' a)" "is_user (task_at k' ?n)" for a
    unfolding old [OF a(1)] nw using isolated_user(4) [OF iso a(1) user [OF a(1,2)]] new [OF a(3)] by blast
  consider "i < ?n" "j < ?n" | "i < ?n" "j = ?n" | "i = ?n" "j < ?n" using i(1) j(1,2) by linarith
  then show "owned ?own i \<inter> owned ?own j = {}"
  proof cases
    case 1
    then show ?thesis using iso user i(2) j(2,3) old unfolding isolated_def by blast
  next
    case 2
    then show ?thesis using fresh [of i] i(2) j(3) by simp
  next
    case 3
    then show ?thesis using fresh [of j] i(2) j(3) by blast
  qed
qed

section \<open>The steps of process creation\<close>

lemma copy_bytes_outside:
  assumes "\<not> unat (x - d) < n" "n < 2 ^ 64"
  shows "copy_bytes n d s m x = m x"
  using assms
proof (induction n)
  case (Suc n)
  have "unat (of_nat n :: u64) = n" using Suc.prems(2) by (intro unat_of_nat_small) simp
  then have "x \<noteq> d + of_nat n" using Suc.prems(1) by auto
  then show ?case using Suc by (simp add: copy_bytes_def)
qed (simp add: copy_bytes_def)

lemma fill_bytes_outside:
  assumes "\<not> unat (x - d) < n" "n < 2 ^ 64"
  shows "fill_bytes a n d f m x = m x"
proof (cases "a \<le> n")
  case True
  then show ?thesis using assms by (simp add: fill_bytes_apply)
qed (simp add: fill_bytes_def)

lemma alloc_run_ofD:
  assumes "alloc_run_of n k = (a, k')"
  obtains pm where "pmm_alloc_pages n (kpmm (kmm k)) = (a, pm)" "k' = k\<lparr>kmm := (kmm k)\<lparr>kpmm := pm\<rparr>\<rparr>"
  using assms by (auto simp: alloc_run_of_def split: prod.splits)

lemma image_pages:
  assumes "unat sz \<le> 0x1FC000"
  shows "0 < image_pages sz" "unat (image_pages sz) \<le> 512" "unat sz \<le> unat (image_pages sz) * 4096"
    "unat (image_pages sz * 4096) = unat (image_pages sz) * 4096"
proof -
  have s: "unat (sz + 4096 - 1) = unat sz + 4095"
  proof -
    have "sz + 4096 - 1 = sz + 4095" by simp
    then show ?thesis using assms by (simp add: unat_add_small)
  qed
  let ?n = "(sz + 4096 - 1) div 4096"
  have n: "unat ?n = (unat sz + 4095) div 4096" by (simp only: unat_div s) simp
  have z: "?n = 0 \<longleftrightarrow> (unat sz + 4095) div 4096 = 0" using n by (metis unat_eq_zero)
  have b: "(unat sz + 4095) div 4096 \<le> 508" using assms by simp
  have u: "unat (image_pages sz) = (if (unat sz + 4095) div 4096 = 0 then 1 else (unat sz + 4095) div 4096) + 4"
  proof -
    have "unat ((if ?n = 0 then 1 else ?n) + 4) = unat (if ?n = 0 then 1 else ?n) + 4"
      using b n by (subst unat_add_small) auto
    then show ?thesis using z n by (auto simp: image_pages_def Let_def)
  qed
  then show "0 < image_pages sz" by (simp add: word_less_nat_alt)
  show "unat (image_pages sz) \<le> 512" using u b by simp
  show "unat sz \<le> unat (image_pages sz) * 4096" using u by (auto split: if_splits)
  show "unat (image_pages sz * 4096) = unat (image_pages sz) * 4096"
    using u b by (simp add: unat_word_ariths)
qed


definition same_but_mem :: "kernel \<Rightarrow> kernel \<Rightarrow> bool" where
  "same_but_mem k k' \<longleftrightarrow> k' = k\<lparr>kmm := kmm k'\<rparr>"

text \<open>
  The part that \<open>sched_create_user\<close> and \<open>sched_fork\<close> have in common, on kernel states: \<open>f\<close> and \<open>g\<close>
  fill the image and the stack.
\<close>

lemma new_space:
  assumes inv: "pmm_inv (kpmm (kmm k))" and cp: "0 < cp" "unat cp \<le> 512"
    and 1: "alloc_run_of cp k = (ca, k1)"
    and f': "\<forall>x b. ca \<noteq> 0 \<longrightarrow> \<not> unat (x - phys_to_virt ca) < unat cp * 4096 \<longrightarrow> f b x = b x"
    and 3: "alloc_run_of (USER_STACK_PAGES + 1) (set_bytes f k1) = (sa, k3)"
    and g': "\<forall>x b. sa \<noteq> 0 \<longrightarrow> \<not> unat (x - phys_to_virt (sa + 4096)) < 4 * 4096 \<longrightarrow> g b x = b x"
    and 5: "make_pgd ca cp (sa + 4096) (set_bytes g k3) = (pgd, k5)"
  shows "same_but_mem k k1 \<and> keeps (used (kpmm (kmm k))) (kmm k) (kmm k1)"
    and "ca \<noteq> 0 \<Longrightarrow> same_but_mem k (free_run ca cp k3)
      \<and> (sa = 0 \<longrightarrow> keeps (used (kpmm (kmm k))) (kmm k) (kmm (free_run ca cp k3)))"
    and "\<lbrakk>ca \<noteq> 0; sa \<noteq> 0\<rbrakk> \<Longrightarrow> same_but_mem k (free_run sa (USER_STACK_PAGES + 1) (free_run ca cp k5))
      \<and> keeps (used (kpmm (kmm k))) (kmm k) (kmm (free_run sa (USER_STACK_PAGES + 1) (free_run ca cp k5)))"
    and "\<lbrakk>ca \<noteq> 0; sa \<noteq> 0; pgd \<noteq> 0\<rbrakk> \<Longrightarrow> same_but_mem k k5 \<and> keeps (used (kpmm (kmm k))) (kmm k) (kmm k5)
      \<and> (\<exists>c st rl. ca = frame c \<and> c + unat cp \<le> TOTAL_PAGES \<and> sa + 4096 = frame (Suc st) \<and> st + 5 \<le> TOTAL_PAGES
        \<and> {c..<c + unat cp} \<inter> {st..<st + 5} = {}
        \<and> space_ok rl ({c..<c + unat cp} \<union> {Suc st..<st + 5}) pgd (kmm k5)
        \<and> (dom rl \<union> {c..<c + unat cp} \<union> {Suc st..<st + 5}) \<inter> used (kpmm (kmm k)) = {}
        \<and> dom rl \<inter> ({c..<c + unat cp} \<union> {Suc st..<st + 5}) = {}
        \<and> (\<forall>v. unat v < 2 ^ 39 \<longrightarrow> walk (kbytes (kmm k5)) pgd v = user_map ca (unat cp) (sa + 4096) 4 (unat v div 4096))
        \<and> (\<forall>x. (\<exists>p \<in> {c..<c + unat cp}. in_page p x) \<longrightarrow> kbytes (kmm k5) x = f (kbytes (kmm k)) x)
        \<and> (\<forall>x. (\<exists>p \<in> {Suc st..<st + 5}. in_page p x) \<longrightarrow> kbytes (kmm k5) x = g (f (kbytes (kmm k))) x))"
proof -
  have f: "\<And>x b. ca \<noteq> 0 \<Longrightarrow> \<not> unat (x - phys_to_virt ca) < unat cp * 4096 \<Longrightarrow> f b x = b x" using f' by blast
  have g: "\<And>x b. sa \<noteq> 0 \<Longrightarrow> \<not> unat (x - phys_to_virt (sa + 4096)) < 4 * 4096 \<Longrightarrow> g b x = b x" using g' by blast
  let ?U = "used (kpmm (kmm k))"
  obtain pm1 where p1: "pmm_alloc_pages cp (kpmm (kmm k)) = (ca, pm1)" "k1 = k\<lparr>kmm := (kmm k)\<lparr>kpmm := pm1\<rparr>\<rparr>"
    using alloc_run_ofD [OF 1] .
  have m2: "kpmm (kmm (set_bytes f k1)) = pm1" by (simp add: set_bytes_def p1(2))
  obtain pm3 where p3: "pmm_alloc_pages (USER_STACK_PAGES + 1) pm1 = (sa, pm3)"
    "k3 = (set_bytes f k1)\<lparr>kmm := (kmm (set_bytes f k1))\<lparr>kpmm := pm3\<rparr>\<rparr>"
    using alloc_run_ofD [OF 3] unfolding m2 .
  obtain m5 where p5: "mmu_create_user_pgd ca cp (sa + 4096) USER_STACK_PAGES (kmm (set_bytes g k3)) = (pgd, m5)"
    "k5 = (set_bytes g k3)\<lparr>kmm := m5\<rparr>"
    using 5 by (auto simp: make_pgd_def split: prod.splits)
  have m4: "kmm (set_bytes g k3) = (kmm k)\<lparr>kpmm := pm3, kbytes := g (f (kbytes (kmm k)))\<rparr>"
    by (simp add: set_bytes_def p3(2) p1(2))
  note a1 = keeps_alloc_pages [OF inv cp(1) p1(1)]
  have inv1: "pmm_inv pm1" using keeps_inv [OF a1(1)] by simp
  have km3: "kmm k3 = (kmm k)\<lparr>kpmm := pm3, kbytes := f (kbytes (kmm k))\<rparr>" by (simp add: p3(2) set_bytes_def p1(2))
  show "same_but_mem k k1 \<and> keeps ?U (kmm k) (kmm k1)" using a1(1) by (simp add: same_but_mem_def p1(2))
  have same: "same_but_mem k (free_run ca cp k3)" "same_but_mem k (free_run sa (USER_STACK_PAGES + 1) (free_run ca cp k5))"
    "same_but_mem k k5"
    by (simp_all add: same_but_mem_def free_run_def p3(2) p5(2) set_bytes_def p1(2))
  show "ca \<noteq> 0 \<Longrightarrow> same_but_mem k (free_run ca cp k3)
      \<and> (sa = 0 \<longrightarrow> keeps (used (kpmm (kmm k))) (kmm k) (kmm (free_run ca cp k3)))"
  proof (intro conjI impI)
    assume ca: "ca \<noteq> 0" and sa: "sa = 0"
    obtain c where c: "ca = frame c" "c + unat cp \<le> TOTAL_PAGES" "{c..<c + unat cp} \<inter> ?U = {}"
      using a1(2) [OF ca] by blast
    have "pm3 = pm1"
      using pmm_alloc_pages_cases [OF inv1 _ p3(1)] sa page_addr_in_RAM(3)
      by (auto simp: USER_STACK_PAGES_def free_window_def)
    then have "keeps ?U (kmm k) (kmm k3)"
      using keeps_bytes_run [of "(kmm k)\<lparr>kpmm := pm1\<rparr>" ?U c "unat cp" "f (kbytes (kmm k))"] c keeps_used [OF a1(1)]
        f [OF ca] inv1 by (auto simp: keeps_def km3)
    then have "keeps ?U (kmm k) (kmm k3)" .
    then show "keeps ?U (kmm k) (kmm (free_run ca cp k3))"
      using keeps_trans [OF _ keeps_free_run [of "kmm k3" c cp ?U]] c keeps_inv keeps_used
      by (simp add: free_run_def Int_commute)
  qed (use same in blast)
  have k5: "kmm k5 = m5" by (simp add: p5(2))
  have five: "unat (USER_STACK_PAGES + 1) = 5" by (simp add: USER_STACK_PAGES_def)
  show "\<lbrakk>ca \<noteq> 0; sa \<noteq> 0\<rbrakk> \<Longrightarrow> same_but_mem k (free_run sa (USER_STACK_PAGES + 1) (free_run ca cp k5))
      \<and> keeps (used (kpmm (kmm k))) (kmm k) (kmm (free_run sa (USER_STACK_PAGES + 1) (free_run ca cp k5)))"
  proof (intro conjI)
    assume ca: "ca \<noteq> 0" and sa: "sa \<noteq> 0"
    show "keeps ?U (kmm k) (kmm (free_run sa (USER_STACK_PAGES + 1) (free_run ca cp k5)))"
    proof (rule build_space [OF inv cp p1(1) ca f [OF ca] p3(1) sa g [OF sa] m4 p5(1)])
      fix c st assume c: "ca = frame c" "c + unat cp \<le> TOTAL_PAGES" "{c..<c + unat cp} \<inter> ?U = {}"
        and st: "sa = frame st" "st + 5 \<le> TOTAL_PAGES" "{st..<st + 5} \<inter> ?U = {}"
        and k: "keeps ?U (kmm k) (kmm (set_bytes g k3))"
          "keeps (?U \<union> {c..<c + unat cp} \<union> {st..<st + 5}) (kmm (set_bytes g k3)) m5"
      have 1: "keeps ?U (kmm k) m5" by (rule keeps_trans [OF k(1) keeps_mono [OF k(2)]]) auto
      have 2: "keeps ?U (kmm k) (kmm (free_run ca cp k5))"
        using keeps_trans [OF 1 keeps_free_run [OF keeps_inv [OF 1] c(2) _ keeps_used [OF 1]]] c(1,3)
        by (simp add: free_run_def k5 Int_commute)
      show ?thesis
        using keeps_trans [OF 2 keeps_free_run [OF keeps_inv [OF 2] _ _ keeps_used [OF 2], of st "USER_STACK_PAGES + 1"]] st
        by (simp add: free_run_def five Int_commute)
    qed
  qed (rule same(2))
  show "\<lbrakk>ca \<noteq> 0; sa \<noteq> 0; pgd \<noteq> 0\<rbrakk> \<Longrightarrow> same_but_mem k k5 \<and> keeps (used (kpmm (kmm k))) (kmm k) (kmm k5)
      \<and> (\<exists>c st rl. ca = frame c \<and> c + unat cp \<le> TOTAL_PAGES \<and> sa + 4096 = frame (Suc st) \<and> st + 5 \<le> TOTAL_PAGES
        \<and> {c..<c + unat cp} \<inter> {st..<st + 5} = {}
        \<and> space_ok rl ({c..<c + unat cp} \<union> {Suc st..<st + 5}) pgd (kmm k5)
        \<and> (dom rl \<union> {c..<c + unat cp} \<union> {Suc st..<st + 5}) \<inter> used (kpmm (kmm k)) = {}
        \<and> dom rl \<inter> ({c..<c + unat cp} \<union> {Suc st..<st + 5}) = {}
        \<and> (\<forall>v. unat v < 2 ^ 39 \<longrightarrow> walk (kbytes (kmm k5)) pgd v = user_map ca (unat cp) (sa + 4096) 4 (unat v div 4096))
        \<and> (\<forall>x. (\<exists>p \<in> {c..<c + unat cp}. in_page p x) \<longrightarrow> kbytes (kmm k5) x = f (kbytes (kmm k)) x)
        \<and> (\<forall>x. (\<exists>p \<in> {Suc st..<st + 5}. in_page p x) \<longrightarrow> kbytes (kmm k5) x = g (f (kbytes (kmm k))) x))"
  proof (intro conjI)
    assume ca: "ca \<noteq> 0" and sa: "sa \<noteq> 0" and pgd: "pgd \<noteq> 0"
    show "same_but_mem k k5" by (rule same(3))
    show "keeps ?U (kmm k) (kmm k5)"
    proof (rule build_space [OF inv cp p1(1) ca f [OF ca] p3(1) sa g [OF sa] m4 p5(1)])
      fix c st assume k: "keeps ?U (kmm k) (kmm (set_bytes g k3))"
          "keeps (?U \<union> {c..<c + unat cp} \<union> {st..<st + 5}) (kmm (set_bytes g k3)) m5"
      show ?thesis unfolding k5 by (rule keeps_trans [OF k(1) keeps_mono [OF k(2)]]) auto
    qed
    show "(\<exists>c st rl. ca = frame c \<and> c + unat cp \<le> TOTAL_PAGES \<and> sa + 4096 = frame (Suc st) \<and> st + 5 \<le> TOTAL_PAGES
        \<and> {c..<c + unat cp} \<inter> {st..<st + 5} = {}
        \<and> space_ok rl ({c..<c + unat cp} \<union> {Suc st..<st + 5}) pgd (kmm k5)
        \<and> (dom rl \<union> {c..<c + unat cp} \<union> {Suc st..<st + 5}) \<inter> used (kpmm (kmm k)) = {}
        \<and> dom rl \<inter> ({c..<c + unat cp} \<union> {Suc st..<st + 5}) = {}
        \<and> (\<forall>v. unat v < 2 ^ 39 \<longrightarrow> walk (kbytes (kmm k5)) pgd v = user_map ca (unat cp) (sa + 4096) 4 (unat v div 4096))
        \<and> (\<forall>x. (\<exists>p \<in> {c..<c + unat cp}. in_page p x) \<longrightarrow> kbytes (kmm k5) x = f (kbytes (kmm k)) x)
        \<and> (\<forall>x. (\<exists>p \<in> {Suc st..<st + 5}. in_page p x) \<longrightarrow> kbytes (kmm k5) x = g (f (kbytes (kmm k))) x))"
    proof (rule build_space [OF inv cp p1(1) ca f [OF ca] p3(1) sa g [OF sa] m4 p5(1)])
      fix c st
      let ?C = "{c..<c + unat cp}" and ?S = "{Suc st..<st + 5}"
      assume c: "ca = frame c" "c + unat cp \<le> TOTAL_PAGES" "?C \<inter> ?U = {}"
        and st: "sa + 4096 = frame (Suc st)" "st + 5 \<le> TOTAL_PAGES" "{st..<st + 5} \<inter> ?U = {}" "?C \<inter> {st..<st + 5} = {}"
        and k4: "keeps (?U \<union> ?C) ((kmm k)\<lparr>kpmm := pm1, kbytes := f (kbytes (kmm k))\<rparr>) (kmm (set_bytes g k3))"
        and kk: "keeps (?U \<union> ?C \<union> {st..<st + 5}) (kmm (set_bytes g k3)) m5"
        and new: "pgd \<noteq> 0 \<Longrightarrow> \<exists>rl. space_ok rl (?C \<union> ?S) pgd m5 \<and> dom rl \<inter> (?U \<union> ?C \<union> {st..<st + 5}) = {}
          \<and> (\<forall>v. unat v < 2 ^ 39 \<longrightarrow> walk (kbytes m5) pgd v = user_map ca (unat cp) (sa + 4096) 4 (unat v div 4096))"
      obtain rl where rl: "space_ok rl (?C \<union> ?S) pgd m5" "dom rl \<inter> (?U \<union> ?C \<union> {st..<st + 5}) = {}"
        "\<forall>v. unat v < 2 ^ 39 \<longrightarrow> walk (kbytes m5) pgd v = user_map ca (unat cp) (sa + 4096) 4 (unat v div 4096)"
        using new [OF pgd] by blast
      have S: "?S \<subseteq> {st..<st + 5}" by auto
      have "kbytes m5 x = f (kbytes (kmm k)) x" if "\<exists>p \<in> ?C. in_page p x" for x
      proof -
        have "kbytes m5 x = kbytes (kmm (set_bytes g k3)) x" using kk that unfolding keeps_def by blast
        moreover have "kbytes (kmm (set_bytes g k3)) x = kbytes ((kmm k)\<lparr>kpmm := pm1, kbytes := f (kbytes (kmm k))\<rparr>) x"
          using k4 that unfolding keeps_def by blast
        ultimately show ?thesis by simp
      qed
      moreover have "kbytes m5 x = g (f (kbytes (kmm k))) x" if "\<exists>p \<in> ?S. in_page p x" for x
      proof -
        have "kbytes m5 x = kbytes (kmm (set_bytes g k3)) x" using kk that S unfolding keeps_def by blast
        then show ?thesis by (simp add: m4)
      qed
      moreover have "(dom rl \<union> ?C \<union> ?S) \<inter> ?U = {}" "dom rl \<inter> (?C \<union> ?S) = {}" using rl(2) c(3) st(3) S by blast+
      ultimately show ?thesis
        unfolding k5 using c(1,2) st(1,2,4) rl(1,3) by (intro exI [of _ c] exI [of _ st] exI [of _ rl] conjI) blast+
    qed
  qed
qed


section \<open>Creating a process\<close>

lemma same_but_memD:
  assumes "same_but_mem k k'"
  shows "tasks k' = tasks k" "num_tasks k' = num_tasks k" "current_task k' = current_task k" "fds k' = fds k"
    "cpu k' = cpu k" "ttbr0_el1 k' = ttbr0_el1 k" "start_info k' = start_info k"
  using assms by (metis kernel.select_convs kernel.surjective kernel.update_convs(7) same_but_mem_def)+

text \<open>What creating a process in slot \<open>n = num_tasks k\<close> amounts to.\<close>

definition created :: "kernel \<Rightarrow> fd_table \<Rightarrow> fdsys \<Rightarrow> (nat \<Rightarrow> role option) \<Rightarrow> nat set \<Rightarrow> kernel \<Rightarrow> bool" where
  "created k tab s rl F k' \<longleftrightarrow> num_tasks k' = Suc (num_tasks k) \<and> current_task k' = current_task k \<and> fds k' = s
     \<and> cpu k' = cpu k \<and> ttbr0_el1 k' = ttbr0_el1 k \<and> length (tasks k') = length (tasks k)
     \<and> (\<forall>i. i \<noteq> num_tasks k \<longrightarrow> task_at k' i = task_at k i)
     \<and> (let t = task_at k' (num_tasks k) in tstate t = TASK_READY \<and> tid t = tid (task_at k (num_tasks k)) \<and> is_user t
          \<and> fdt t = tab \<and> space_ok rl F (ttbr0 t) (kmm k') \<and> task_pages_ok F t
          \<and> (\<forall>v. unat v < 2 ^ 39 \<longrightarrow> walk (kbytes (kmm k')) (ttbr0 t) v
              = user_map (code_pa t) (unat (code_pages t)) (stack_pa t) 4 (unat v div 4096)))
     \<and> (dom rl \<union> F) \<inter> used (kpmm (kmm k)) = {}"

lemma created_isolated:
  assumes "isolated K own k" "created k tab s rl F k'" "keeps (used (kpmm (kmm k)) - K) (kmm k) (kmm k')" "K \<subseteq> used (kpmm (kmm k'))"
  shows "isolated K (own(num_tasks k := (rl, F))) k'"
  by (rule isolated_new [OF assms(1) _ _ assms(3,4)]) (use assms(2) in \<open>auto simp: created_def Let_def same_space_def\<close>)

lemma created_sched:
  assumes "sched_inv im k" "created k tab s rl F k'" "num_tasks k < SCHED_MAX_TASKS"
  shows "sched_inv im k'"
proof -
  have w: "table_ok im k" "waits_ok k" using assms(1) by (auto simp: sched_inv_def sched_wf_def)
  have "table_ok im k'" "waits_ok k'" "cur_task k' = cur_task k"
    by (rule new_task_wf [OF w assms(3)]; use assms(2) in \<open>simp add: created_def Let_def\<close>)+
  then show ?thesis using assms by (auto simp: sched_inv_def sched_wf_def created_def)
qed

lemma task_pages_okI:
  assumes "code_pages t = cp" "0 < cp" "unat cp \<le> 512" "code_pa t = frame c" "c + unat cp \<le> TOTAL_PAGES"
    "stack_pa t = frame (Suc st)" "st + 5 \<le> TOTAL_PAGES"
  shows "task_pages_ok ({c..<c + unat cp} \<union> {Suc st..<st + 5}) t"
  unfolding task_pages_ok_def
proof (intro conjI)
  show "\<exists>c'. code_pa t = frame c' \<and> c' + unat (code_pages t) \<le> TOTAL_PAGES
      \<and> {c'..<c' + unat (code_pages t)} \<subseteq> {c..<c + unat cp} \<union> {Suc st..<st + 5}"
    using assms(1,4,5) by (intro exI [of _ c]) simp
  show "\<exists>st'. stack_pa t = frame st' \<and> st' + 4 \<le> TOTAL_PAGES \<and> {st'..<st' + 4} \<subseteq> {c..<c + unat cp} \<union> {Suc st..<st + 5}"
    by (intro exI [of _ "Suc st"] conjI) (use assms(6,7) in auto)
qed (use assms in simp_all)

lemma same_but_mem_sched: "sched_inv im k \<Longrightarrow> same_but_mem k k' \<Longrightarrow> sched_inv im k'"
  using same_but_memD [of k k'] by (simp add: sched_defs)

lemma set_bytes_set_bytes: "set_bytes g (set_bytes f k) = set_bytes (\<lambda>b. g (f b)) k"
  by (simp add: set_bytes_def)

text \<open>The image pages of a new process: the program, then zeros, in frames that were free.\<close>

definition loaded :: "kernel \<Rightarrow> u64 \<Rightarrow> u32 \<Rightarrow> kernel \<Rightarrow> bool" where
  "loaded k src code_size k' \<longleftrightarrow> (let t = task_at k' (num_tasks k); cp = unat (code_pages t) in
     \<exists>q. code_pa t = frame q \<and> q + cp \<le> TOTAL_PAGES \<and> {q..<q + cp} \<inter> used (kpmm (kmm k)) = {}
       \<and> (\<forall>x < cp * 4096. kbytes (kmm k') (phys_to_virt (frame q) + of_nat x) =
            (if x < unat code_size then copy_bytes (unat code_size) (phys_to_virt (frame q)) src (kbytes (kmm k)) (phys_to_virt (frame q) + of_nat x) else 0)))"

lemma run_addr:
  assumes "q + n \<le> TOTAL_PAGES" "i < n * 4096"
  shows "unat (phys_to_virt (frame q) + of_nat i - phys_to_virt (frame q)) = i"
    "in_page (q + i div 4096) (phys_to_virt (frame q) + of_nat i)" "q + i div 4096 \<in> {q..<q + n}"
proof -
  have "i < 2 ^ 64" using assms by (simp add: TOTAL_PAGES_def)
  then have u: "unat (of_nat i :: u64) = i" by (intro unat_of_nat_small) simp
  then show d: "unat (phys_to_virt (frame q) + of_nat i - phys_to_virt (frame q)) = i" by simp
  show m: "q + i div 4096 \<in> {q..<q + n}" using assms(2) by (simp add: div_less_iff_less_mult)
  then have "q + i div 4096 < TOTAL_PAGES" using assms(1) by simp
  from in_page_run(1) [OF assms(1) _ this, of "phys_to_virt (frame q) + of_nat i"] d assms(2)
  show "in_page (q + i div 4096) (phys_to_virt (frame q) + of_nat i)" by simp
qed

lemma sched_create_user_cases:
  assumes inv: "pmm_inv (kpmm (kmm k))" and len: "num_tasks k < SCHED_MAX_TASKS \<Longrightarrow> num_tasks k < length (tasks k)"
    and sz: "unat code_size \<le> 0x1FC000"
    and r: "sched_create_user im name src code_size k = Some (r, k')"
  obtains (refused) "r = -1" "same_but_mem k k'" "keeps (used (kpmm (kmm k))) (kmm k) (kmm k')"
  | (new) tab s rl F where "r = int (num_tasks k)" "num_tasks k < SCHED_MAX_TASKS" "fd_table_init (fds k) = Some (tab, s)"
      "created k tab s rl F k'" "keeps (used (kpmm (kmm k))) (kmm k) (kmm k')"
      "code_pages (task_at k' (num_tasks k)) = image_pages code_size"
      "heap_break (task_at k' (num_tasks k)) = USER_VA_CODE + ucast (image_pages code_size * 4096)"
      "ctx (task_at k' (num_tasks k)) = start_ctx (kstack_top im (num_tasks k)) (task_wrapper im)" "loaded k src code_size k'"
proof (cases "num_tasks k < SCHED_MAX_TASKS")
  case False
  then show ?thesis using r refused keeps_refl [OF inv order_refl] by (simp add: sched_create_user_def same_but_mem_def)
next
  case True
  let ?cp = "image_pages code_size" and ?n = "num_tasks k"
  note ip = image_pages [OF sz]
  obtain ca k1 where 1: "alloc_run_of ?cp k = (ca, k1)" by fastforce
  define f where "f b = fill_bytes (unat code_size) (unat (?cp * 4096)) (phys_to_virt ca) (\<lambda>_. 0)
    (copy_bytes (unat code_size) (phys_to_virt ca) src b)" for b
  have fs: "set_bytes (fill_bytes (unat code_size) (unat (?cp * 4096)) (phys_to_virt ca) (\<lambda>_. 0))
      (set_bytes (copy_bytes (unat code_size) (phys_to_virt ca) src) k1) = set_bytes f k1"
    by (simp add: set_bytes_set_bytes f_def [abs_def])
  obtain sa k3 where 3: "alloc_run_of (USER_STACK_PAGES + 1) (set_bytes f k1) = (sa, k3)" by fastforce
  obtain pgd k5 where 5: "make_pgd ca ?cp (sa + 4096) k3 = (pgd, k5)" by fastforce
  have id: "set_bytes (\<lambda>b. b) k3 = k3" by (simp add: set_bytes_def)
  have out: "f b x = b x" if "\<not> unat (x - phys_to_virt ca) < unat ?cp * 4096" for x b
  proof -
    have "\<not> unat (x - phys_to_virt ca) < unat code_size" using that ip(3) by linarith
    then show ?thesis
      unfolding f_def using that ip by (simp add: fill_bytes_outside copy_bytes_outside)
  qed
  have out': "\<forall>x b. ca \<noteq> 0 \<longrightarrow> \<not> unat (x - phys_to_virt ca) < unat ?cp * 4096 \<longrightarrow> f b x = b x" using out by blast
  have 5: "make_pgd ca ?cp (sa + 4096) (set_bytes (\<lambda>b. b) k3) = (pgd, k5)" unfolding id by (rule 5)
  have triv: "\<forall>x b. sa \<noteq> 0 \<longrightarrow> \<not> unat (x - phys_to_virt (sa + 4096)) < 4 * 4096 \<longrightarrow> b x = (b :: memory) x" by simp
  note N = new_space [OF inv ip(1,2) 1 out' 3 triv 5]
  define fin where "fin tab s = upd_task (num_tasks k5) (\<lambda>t. t\<lparr>fdt := tab, sig := signal_init (sig t),
        ctx := start_ctx (kstack_top im (num_tasks k5)) (task_wrapper im)\<rparr>)
      ((upd_task (num_tasks k5) (\<lambda>t. (new_user_task pgd ca ?cp (sa + 4096) name t)
          \<lparr>heap_break := USER_VA_CODE + ucast (?cp * 4096), parent_tid := -1\<rparr>)
        (k5\<lparr>num_tasks := Suc (num_tasks k5)\<rparr>))\<lparr>fds := s\<rparr>)" for tab s
  have def: "sched_create_user im name src code_size k =
      (if ca = 0 then Some (-1, k1) else if sa = 0 then Some (-1, free_run ca ?cp k3)
       else if pgd = 0 then Some (-1, free_run sa (USER_STACK_PAGES + 1) (free_run ca ?cp k5))
       else case fd_table_init (fds k5) of None \<Rightarrow> None | Some (tab, s) \<Rightarrow> Some (int (num_tasks k5), fin tab s))"
    using True by (simp add: sched_create_user_def Let_def 1 fs 3 5 [unfolded id] fin_def split: option.splits)
  consider "ca = 0" | "ca \<noteq> 0" "sa = 0" | "ca \<noteq> 0" "sa \<noteq> 0" "pgd = 0" | "ca \<noteq> 0" "sa \<noteq> 0" "pgd \<noteq> 0" by blast
  then show ?thesis
  proof cases
    case 1
    then have "r = -1" "k' = k1" using r unfolding def by simp_all
    then show ?thesis using N(1) refused by simp
  next
    case 2
    then have "r = -1" "k' = free_run ca ?cp k3" using r unfolding def by simp_all
    then show ?thesis using N(2) 2 refused by simp
  next
    case 3
    then have "r = -1" "k' = free_run sa (USER_STACK_PAGES + 1) (free_run ca ?cp k5)" using r unfolding def by simp_all
    then show ?thesis using N(3) 3 refused by simp
  next
    case 4
    note c = N(4) [OF 4]
    note d = same_but_memD [OF conjunct1 [OF c]]
    obtain tab s where ts: "fd_table_init (fds k) = Some (tab, s)" and k': "r = int ?n" "k' = fin tab s"
      using r 4 d unfolding def by (auto split: option.splits)
    obtain c0 st rl where o: "ca = frame c0" "c0 + unat ?cp \<le> TOTAL_PAGES" "sa + 4096 = frame (Suc st)" "st + 5 \<le> TOTAL_PAGES"
      "space_ok rl ({c0..<c0 + unat ?cp} \<union> {Suc st..<st + 5}) pgd (kmm k5)"
      "(dom rl \<union> {c0..<c0 + unat ?cp} \<union> {Suc st..<st + 5}) \<inter> used (kpmm (kmm k)) = {}"
      "\<forall>v. unat v < 2 ^ 39 \<longrightarrow> walk (kbytes (kmm k5)) pgd v = user_map ca (unat ?cp) (sa + 4096) 4 (unat v div 4096)"
      "\<forall>x. (\<exists>p \<in> {c0..<c0 + unat ?cp}. in_page p x) \<longrightarrow> kbytes (kmm k5) x = f (kbytes (kmm k)) x"
      using c by blast
    have l: "?n < length (tasks k5)" using d len [OF True] by simp
    have at: "task_at k' i = (if i = ?n then (new_user_task pgd ca ?cp (sa + 4096) name (task_at k ?n))
          \<lparr>heap_break := USER_VA_CODE + ucast (?cp * 4096), parent_tid := -1, fdt := tab, sig := signal_init (sig (task_at k ?n)),
           ctx := start_ctx (kstack_top im ?n) (task_wrapper im)\<rparr> else task_at k i)" for i
      using l d by (simp add: k'(2) fin_def upd_task_def new_user_task_def)
    have rest: "num_tasks k' = Suc ?n" "current_task k' = current_task k" "fds k' = s" "cpu k' = cpu k"
      "ttbr0_el1 k' = ttbr0_el1 k" "length (tasks k') = length (tasks k)" "kmm k' = kmm k5"
      using d by (simp_all add: k'(2) fin_def upd_task_def)
    have "created k tab s rl ({c0..<c0 + unat ?cp} \<union> {Suc st..<st + 5}) k'"
      unfolding created_def rest at Let_def using o
      by (intro conjI task_pages_okI ip(1,2)) (simp_all add: new_user_task_def Un_assoc)
    moreover have "kbytes (kmm k5) (phys_to_virt (frame c0) + of_nat x) = (if x < unat code_size
        then copy_bytes (unat code_size) (phys_to_virt (frame c0)) src (kbytes (kmm k)) (phys_to_virt (frame c0) + of_nat x) else 0)"
      if x: "x < unat ?cp * 4096" for x
    proof -
      note ra = run_addr [OF o(2) x]
      have "kbytes (kmm k5) (phys_to_virt (frame c0) + of_nat x) = f (kbytes (kmm k)) (phys_to_virt (frame c0) + of_nat x)"
        using o(8) ra(2,3) by blast
      then show ?thesis using ra(1) x ip(2,3,4) by (simp add: f_def o(1) fill_bytes_apply)
    qed
    then have "loaded k src code_size k'"
      unfolding loaded_def Let_def at rest using o(1,2,6) by (intro exI [of _ c0]) (auto simp: new_user_task_def)
    ultimately show ?thesis using new [OF k'(1) True ts] c rest at by (simp add: new_user_task_def)
  qed
qed


section \<open>Fork\<close>

text \<open>The task stacks lie in frames of the kernel and are aligned, as \<^verbatim>\<open>sched.c\<close> declares them.\<close>

definition image_ok :: "nat set \<Rightarrow> image \<Rightarrow> bool" where
  "image_ok K im \<longleftrightarrow> 16 dvd unat (task_stacks im)
     \<and> (\<forall>x. unat (x - task_stacks im) < SCHED_MAX_TASKS * SCHED_STACK_SIZE \<longrightarrow> (\<exists>p \<in> K. in_page p x))"

lemma store64_outside: "\<not> unat (x - a) < 8 \<Longrightarrow> store64 a v m x = m x"
  by (simp add: store64_def word_less_nat_alt)

lemma unat_diff_small:
  assumes "unat (x - (a + of_nat n)) < l" "n + l \<le> 2 ^ 63"
  shows "unat ((x :: u64) - a) = n + unat (x - (a + of_nat n))"
proof -
  have u: "unat (of_nat n :: u64) = n" using assms(2) by (intro unat_of_nat_small) simp
  have "unat (of_nat n + (x - (a + of_nat n))) = unat (of_nat n :: u64) + unat (x - (a + of_nat n))"
    by (rule unat_add_small) (use u assms in simp)
  moreover have "of_nat n + (x - (a + of_nat n)) = x - a" by simp
  ultimately show ?thesis using u by (simp only:)
qed

lemma put_frame_outside:
  assumes "\<not> unat (x - a) < 272"
  shows "put_frame a rs m x = m x"
proof -
  have "fold (\<lambda>i. store64 (a + of_nat (8 * i)) (rs ! i)) [0..<n] m x = m x" if "n \<le> 34" for n
    using that
  proof (induction n)
    case (Suc n)
    have "\<not> unat (x - (a + of_nat (8 * n))) < 8"
    proof
      assume l: "unat (x - (a + of_nat (8 * n))) < 8"
      have "unat (x - a) = 8 * n + unat (x - (a + of_nat (8 * n)))"
        by (rule unat_diff_small [OF l]) (use Suc.prems in simp)
      then show False using l Suc.prems assms by simp
    qed
    then show ?case using Suc by (simp add: store64_outside)
  qed simp
  then show ?thesis by (simp add: put_frame_def)
qed

lemma kstack_frame:
  assumes im: "image_ok K im" and i: "i < SCHED_MAX_TASKS" and x: "unat (x - (kstack_top im i - 272)) < 272"
  shows "\<exists>p \<in> K. in_page p x"
proof -
  have i8: "i < 8" using i by (simp add: SCHED_MAX_TASKS_def)
  have al: "kstack_top im i = task_stacks im + of_nat ((i + 1) * 8192)"
  proof -
    let ?a = "task_stacks im + of_nat ((i + 1) * 8192)"
    have "16 dvd unat (of_nat ((i + 1) * 8192) :: u64)" using i8 by (subst unat_of_nat_small) (auto intro: dvdI [of _ _ "512 + i * 512"])
    then have "16 dvd (unat (task_stacks im) + unat (of_nat ((i + 1) * 8192) :: u64)) mod 2 ^ 64"
      using im by (intro dvd_mod dvd_add) (auto simp: image_ok_def)
    then have d: "16 dvd unat ?a" by (simp add: unat_word_ariths)
    have "unat (?a AND NOT 0xF) = unat ?a div 16 * 16" using unat_and_neg_16 [of ?a] by simp
    then have "unat (?a AND NOT 0xF) = unat ?a" using d by simp
    then have "?a AND NOT 0xF = ?a" by (simp only: word_unat_eq_iff)
    then show ?thesis by (simp add: kstack_top_def SCHED_STACK_SIZE_def)
  qed
  have fr: "kstack_top im i - 272 = task_stacks im + of_nat ((i + 1) * 8192 - 272)" unfolding al by (simp add: algebra_simps of_nat_diff)
  have "unat (x - task_stacks im) = (i + 1) * 8192 - 272 + unat (x - (kstack_top im i - 272))"
    unfolding fr by (rule unat_diff_small) (use x [unfolded fr] i8 in auto)
  then have "unat (x - task_stacks im) < SCHED_MAX_TASKS * SCHED_STACK_SIZE"
    using x i8 by (simp add: SCHED_MAX_TASKS_def SCHED_STACK_SIZE_def)
  then show ?thesis using im by (simp add: image_ok_def)
qed

lemma keeps_child_frame:
  assumes im: "image_ok K im" and i: "i < SCHED_MAX_TASKS" and k: "keeps U s t" and K: "K \<subseteq> used (kpmm t)" "U \<inter> K = {}"
  shows "keeps U s (t\<lparr>kbytes := store64 (kstack_top im i - 272) 0 (put_frame (kstack_top im i - 272) rs (kbytes t))\<rparr>)"
  unfolding keeps_def
proof (intro conjI allI impI)
  let ?a = "kstack_top im i - 272"
  fix x assume x: "\<exists>p \<in> U. in_page p x"
  then obtain p where p: "p \<in> U" "in_page p x" by blast
  have "\<not> unat (x - ?a) < 272"
  proof
    assume "unat (x - ?a) < 272"
    then obtain q where q: "q \<in> K" "in_page q x" using kstack_frame [OF im i] by blast
    have "p < TOTAL_PAGES" "q < TOTAL_PAGES" using keeps_used [OF k] K(1) p(1) q(1) used_le by blast+
    then have "p = q" using in_page_unique p(2) q(2) by blast
    then show False using p q K(2) by blast
  qed
  then have "store64 ?a 0 (put_frame ?a rs (kbytes t)) x = kbytes t x"
    by (simp add: store64_outside put_frame_outside)
  then show "kbytes (t\<lparr>kbytes := store64 ?a 0 (put_frame ?a rs (kbytes t))\<rparr>) x = kbytes s x"
    using k x by (simp add: keeps_def)
qed (use k in \<open>simp_all add: keeps_def\<close>)


text \<open>
  What a successful fork does to memory: the child's image and stack are copies, at the same
  addresses, of the parent's pages, and nothing else is mapped.
\<close>

definition forked :: "kernel \<Rightarrow> kernel \<Rightarrow> u64 \<Rightarrow> regs \<Rightarrow> bool" where
  "forked k k' fr rs \<longleftrightarrow> (let p = cur_task k; t = task_at k' (num_tasks k); cp = unat (code_pages p) in
     (\<exists>c st. code_pa t = frame c \<and> stack_pa t = frame (Suc st) \<and> c + cp \<le> TOTAL_PAGES \<and> st + 5 \<le> TOTAL_PAGES
        \<and> (\<forall>x < cp * 4096. kbytes (kmm k') (phys_to_virt (code_pa t) + of_nat x) = kbytes (kmm k) (phys_to_virt (code_pa p) + of_nat x))
        \<and> (\<forall>x < 4 * 4096. kbytes (kmm k') (phys_to_virt (stack_pa t) + of_nat x) = kbytes (kmm k) (phys_to_virt (stack_pa p) + of_nat x)))
     \<and> (\<forall>v. unat v < 2 ^ 39 \<longrightarrow> walk (kbytes (kmm k')) (ttbr0 t) v = user_map (code_pa t) cp (stack_pa t) 4 (unat v div 4096))
     \<and> code_pages t = code_pages p \<and> heap_break t = heap_break p \<and> parent_tid t = int (current_task k)
     \<and> handlers (sig t) = handlers (sig p) \<and> pending (sig t) = 0
     \<and> ctx_sp (ctx t) = fr \<and> get_frame fr (kbytes (kmm k')) = rs[0 := 0])"

lemma frame_apart:
  fixes a :: u64
  assumes "i \<noteq> j" "i < 34" "j < 34"
  shows "8 \<le> (a + of_nat (8 * i)) - (a + of_nat (8 * j))"
proof -
  have u: "unat (of_nat (8 * i) :: u64) = 8 * i" "unat (of_nat (8 * j) :: u64) = 8 * j"
    by (rule unat_of_nat_small, use assms in simp)+
  have d: "(a + of_nat (8 * i)) - (a + of_nat (8 * j)) = of_nat (8 * i) - (of_nat (8 * j) :: u64)" by (rule add_diff_cancel_left)
  have "8 \<le> unat (of_nat (8 * i) - (of_nat (8 * j) :: u64))"
    unfolding unat_sub_if' word_le_nat_alt u using assms by (cases "i < j") auto
  then show ?thesis unfolding d by (simp add: word_le_nat_alt del: of_nat_mult)
qed

lemma load_put_frame:
  assumes "j < 34"
  shows "load64 (put_frame a rs m) (a + of_nat (8 * j)) = rs ! j"
proof -
  have "load64 (fold (\<lambda>i. store64 (a + of_nat (8 * i)) (rs ! i)) [0..<n] m) (a + of_nat (8 * j)) = rs ! j"
    if "j < n" "n \<le> 34" for j n
    using that
  proof (induction n)
    case (Suc n)
    show ?case
    proof (cases "j = n")
      case True
      then show ?thesis by (simp add: load64_store64_same del: of_nat_mult)
    next
      case False
      then have "j < n" "n < 34" using Suc.prems by auto
      then show ?thesis
        using Suc.IH load64_store64_other [OF frame_apart [of j n] frame_apart [of n j]] False by (simp del: of_nat_mult)
    qed
  qed simp
  then show ?thesis using assms by (simp add: put_frame_def)
qed

lemma get_put_frame:
  assumes "length rs = 34"
  shows "get_frame a (store64 a 0 (put_frame a rs m)) = rs[0 := 0]"
proof -
  have ap: "8 \<le> (a + of_nat (8 * i)) - (a + of_nat (8 * j))" if "i \<noteq> j" "i < 34" "j < 34" for i j :: nat
    by (rule frame_apart [OF that])
  have l: "load64 (put_frame a rs m) (a + of_nat (8 * j)) = rs ! j" if "j < 34" for j by (rule load_put_frame [OF that])
  show ?thesis
  proof (rule nth_equalityI)
    show "length (get_frame a (store64 a 0 (put_frame a rs m))) = length (rs[0 := 0])" using assms by (simp add: get_frame_def)
    fix j assume "j < length (get_frame a (store64 a 0 (put_frame a rs m)))"
    then have j: "j < 34" by (simp add: get_frame_def)
    show "get_frame a (store64 a 0 (put_frame a rs m)) ! j = rs[0 := 0] ! j"
    proof (cases "j = 0")
      case True
      then show ?thesis using assms by (simp add: get_frame_def load64_store64_same)
    next
      case False
      then have "load64 (store64 a 0 (put_frame a rs m)) (a + of_nat (8 * j)) = rs ! j"
        using l [OF j] load64_store64_other [OF ap [of j 0] ap [of 0 j]] j by (simp del: of_nat_mult)
      then show ?thesis using False j assms by (simp add: get_frame_def del: of_nat_mult)
    qed
  qed
qed


lemma run_disjoint:
  assumes "q + n \<le> TOTAL_PAGES" "r + n' \<le> TOTAL_PAGES" "{q..<q + n} \<inter> {r..<r + n'} = {}" "i < n * 4096" "j < n' * 4096"
  shows "phys_to_virt (frame q) + of_nat i \<noteq> phys_to_virt (frame r) + of_nat j"
proof
  assume eq: "phys_to_virt (frame q) + of_nat i = phys_to_virt (frame r) + of_nat j"
  note a = run_addr [OF assms(1,4)] and b = run_addr [OF assms(2,5)]
  have "q + i div 4096 = r + j div 4096"
    by (rule in_page_unique [OF _ _ a(2) b(2) [folded eq]]) (use a(3) b(3) assms(1,2) in auto)
  then show False using a(3) b(3) assms(3) by auto
qed

lemma copy_run:
  assumes "q + n \<le> TOTAL_PAGES" "r + n \<le> TOTAL_PAGES" "{q..<q + n} \<inter> {r..<r + n} = {}" "i < n * 4096"
  shows "copy_bytes (n * 4096) (phys_to_virt (frame q)) (phys_to_virt (frame r)) m (phys_to_virt (frame q) + of_nat i)
    = m (phys_to_virt (frame r) + of_nat i)"
proof -
  have "n * 4096 < 2 ^ 64" using assms(1) by (simp add: TOTAL_PAGES_def)
  note c = copy_bytes_apply [OF this run_disjoint [OF assms(1,2,3)]]
  have "unat (phys_to_virt (frame q) + of_nat i - phys_to_virt (frame q)) = i" using run_addr(1) [OF assms(1,4)] .
  then show ?thesis using assms(4) by (subst c) simp_all
qed

lemma copy_run_outside:
  assumes "q + n \<le> TOTAL_PAGES" "r + l \<le> TOTAL_PAGES" "{q..<q + n} \<inter> {r..<r + l} = {}" "i < l * 4096"
  shows "copy_bytes (n * 4096) (phys_to_virt (frame q)) src m (phys_to_virt (frame r) + of_nat i) = m (phys_to_virt (frame r) + of_nat i)"
proof (rule copy_bytes_outside)
  show "\<not> unat (phys_to_virt (frame r) + of_nat i - phys_to_virt (frame q)) < n * 4096"
  proof
    let ?x = "phys_to_virt (frame r) + of_nat i"
    assume l: "unat (?x - phys_to_virt (frame q)) < n * 4096"
    note b = run_addr [OF assms(2,4)]
    have "r + i div 4096 < TOTAL_PAGES" using b(3) assms(2) by simp
    from in_page_run [OF assms(1) l this] b(2,3) assms(3) show False by auto
  qed
  show "n * 4096 < 2 ^ 64" using assms(1) by (simp add: TOTAL_PAGES_def)
qed

lemma sched_fork_cases:
  assumes iso: "isolated K own k" and inv: "sched_inv im k" and im: "image_ok K im" and rs: "length rs = 34"
    and r: "sched_fork im rs k = Some (r, k')"
  obtains (refused) "r = -1" "same_but_mem k k'" "keeps (used (kpmm (kmm k))) (kmm k) (kmm k')"
  | (new) tab s rl F where "r = int (num_tasks k)" "num_tasks k < SCHED_MAX_TASKS" "is_user (cur_task k)"
      "fd_table_dup (fdt (cur_task k)) (fds k) = Some (tab, s)"
      "created k tab s rl F k'" "keeps (used (kpmm (kmm k)) - K) (kmm k) (kmm k')" "K \<subseteq> used (kpmm (kmm k'))"
      "forked k k' (kstack_top im (num_tasks k) - 272) rs" "x30 (ctx (task_at k' (num_tasks k))) = fork_child_return im"
proof (cases "is_user (cur_task k) \<and> num_tasks k < SCHED_MAX_TASKS")
  case False
  then have "sched_fork im rs k = Some (-1, k)"
    by (cases "is_user (cur_task k)") (simp_all add: sched_fork_def not_less)
  then have "r = -1 \<and> k' = k" using r by simp
  then show ?thesis using refused keeps_refl [OF isolated_pmm(1) [OF iso] order_refl] by (simp add: same_but_mem_def)
next
  case True
  let ?n = "num_tasks k" and ?p = "cur_task k" and ?cp = "code_pages (cur_task k)" and ?U = "used (kpmm (kmm k))"
  have tb: "current_task k < ?n" "?n \<le> length (tasks k)" "?n < length (tasks k)"
    using inv True by (auto simp: sched_defs)
  note io = isolated_user [OF iso tb(1)] and pinv = isolated_pmm [OF iso]
  have tp: "task_pages_ok (snd (own (current_task k))) ?p" using io(2) True by blast
  then have cp: "0 < ?cp" "unat ?cp \<le> 512" by (auto simp: task_pages_ok_def)
  have sub: "snd (own (current_task k)) \<subseteq> ?U" using io(4) True by (auto simp: owned_def)
  obtain pc ps where pc: "code_pa ?p = frame pc" "pc + unat ?cp \<le> TOTAL_PAGES" "{pc..<pc + unat ?cp} \<subseteq> ?U"
    and ps: "stack_pa ?p = frame ps" "ps + 4 \<le> TOTAL_PAGES" "{ps..<ps + 4} \<subseteq> ?U"
    using tp sub unfolding task_pages_ok_def by blast
  have ucp: "unat (?cp * 4096) = unat ?cp * 4096" "unat (USER_STACK_PAGES * 4096) = 4 * 4096"
    using cp(2) by (simp_all add: unat_word_ariths USER_STACK_PAGES_def)
  obtain ca k1 where 1: "alloc_run_of ?cp k = (ca, k1)" by fastforce
  define f where "f = copy_bytes (unat ?cp * 4096) (phys_to_virt ca) (phys_to_virt (code_pa ?p))"
  obtain sa k3 where 3: "alloc_run_of (USER_STACK_PAGES + 1) (set_bytes f k1) = (sa, k3)" by fastforce
  define g where "g = copy_bytes (4 * 4096) (phys_to_virt (sa + 4096)) (phys_to_virt (stack_pa ?p))"
  have g16: "copy_bytes 16384 (phys_to_virt (sa + 4096)) (phys_to_virt (stack_pa ?p)) = g" by (simp add: g_def)
  obtain pgd k5 where 5: "make_pgd ca ?cp (sa + 4096) (set_bytes g k3) = (pgd, k5)" by fastforce
  have fo: "\<forall>x b. ca \<noteq> 0 \<longrightarrow> \<not> unat (x - phys_to_virt ca) < unat ?cp * 4096 \<longrightarrow> f b x = b x"
    using cp(2) by (simp add: f_def copy_bytes_outside)
  have go: "\<forall>x b. sa \<noteq> 0 \<longrightarrow> \<not> unat (x - phys_to_virt (sa + 4096)) < 4 * 4096 \<longrightarrow> g b x = b x"
    by (simp add: g_def copy_bytes_outside)
  note N = new_space [OF pinv(1) cp 1 fo 3 go 5]
  define fr where "fr = kstack_top im (num_tasks k5) - 272"
  define k6 where "k6 = upd_task (num_tasks k5) (\<lambda>t. (new_user_task pgd ca ?cp (sa + 4096) (tname ?p) t)
        \<lparr>heap_break := heap_break ?p, parent_tid := int (current_task k5)\<rparr>) (k5\<lparr>num_tasks := Suc (num_tasks k5)\<rparr>)"
  define fin where "fin tab s = upd_task (num_tasks k5) (\<lambda>t. t\<lparr>ctx := start_ctx fr (fork_child_return im)\<rparr>)
      (set_bytes (store64 fr 0) (set_bytes (put_frame fr rs)
        (upd_task (num_tasks k5) (\<lambda>t. t\<lparr>fdt := tab, sig := (sig t)\<lparr>handlers := handlers (sig ?p), pending := 0\<rparr>\<rparr>)
          (k6\<lparr>fds := s\<rparr>))))" for tab s
  have def: "sched_fork im rs k =
      (if ca = 0 then Some (-1, k1) else if sa = 0 then Some (-1, free_run ca ?cp k3)
       else if pgd = 0 then Some (-1, free_run sa (USER_STACK_PAGES + 1) (free_run ca ?cp k5))
       else case fd_table_dup (fdt ?p) (fds k6) of None \<Rightarrow> None | Some (tab, s) \<Rightarrow> Some (int (num_tasks k5), fin tab s))"
    using True ucp by (simp add: sched_fork_def Let_def 1 3 5 fin_def k6_def fr_def f_def [symmetric] g16 split: option.splits)
  consider "ca = 0" | "ca \<noteq> 0" "sa = 0" | "ca \<noteq> 0" "sa \<noteq> 0" "pgd = 0" | "ca \<noteq> 0" "sa \<noteq> 0" "pgd \<noteq> 0" by blast
  then show ?thesis
  proof cases
    case 1
    then have "r = -1" "k' = k1" using r unfolding def by simp_all
    then show ?thesis using N(1) refused by simp
  next
    case 2
    then have "r = -1" "k' = free_run ca ?cp k3" using r unfolding def by simp_all
    then show ?thesis using N(2) 2 refused by simp
  next
    case 3
    then have "r = -1" "k' = free_run sa (USER_STACK_PAGES + 1) (free_run ca ?cp k5)" using r unfolding def by simp_all
    then show ?thesis using N(3) 3 refused by simp
  next
    case 4
    note c = N(4) [OF 4]
    note d = same_but_memD [OF conjunct1 [OF c]]
    have k6: "fds k6 = fds k" using d by (simp add: k6_def)
    obtain tab s where ts: "fd_table_dup (fdt ?p) (fds k) = Some (tab, s)" and k': "r = int ?n" "k' = fin tab s"
      using r 4 d k6 unfolding def by (auto split: option.splits)
    obtain c0 st rl where o: "ca = frame c0" "c0 + unat ?cp \<le> TOTAL_PAGES" "sa + 4096 = frame (Suc st)" "st + 5 \<le> TOTAL_PAGES"
      "{c0..<c0 + unat ?cp} \<inter> {st..<st + 5} = {}"
      "space_ok rl ({c0..<c0 + unat ?cp} \<union> {Suc st..<st + 5}) pgd (kmm k5)"
      "(dom rl \<union> {c0..<c0 + unat ?cp} \<union> {Suc st..<st + 5}) \<inter> ?U = {}"
      "\<forall>v. unat v < 2 ^ 39 \<longrightarrow> walk (kbytes (kmm k5)) pgd v = user_map ca (unat ?cp) (sa + 4096) 4 (unat v div 4096)"
      and img: "\<forall>x. (\<exists>p \<in> {c0..<c0 + unat ?cp}. in_page p x) \<longrightarrow> kbytes (kmm k5) x = f (kbytes (kmm k)) x"
      and stk: "\<forall>x. (\<exists>p \<in> {Suc st..<st + 5}. in_page p x) \<longrightarrow> kbytes (kmm k5) x = g (f (kbytes (kmm k))) x"
      using c by blast
    let ?C = "{c0..<c0 + unat ?cp}" and ?S = "{Suc st..<st + 5}"
    have keep5: "keeps ?U (kmm k) (kmm k5)" using c by blast
    have l: "?n < length (tasks k5)" using d tb by simp
    have fr: "fr = kstack_top im ?n - 272" using d by (simp add: fr_def)
    have at: "task_at k' i = (if i = ?n then (new_user_task pgd ca ?cp (sa + 4096) (tname ?p) (task_at k ?n))
          \<lparr>heap_break := heap_break ?p, parent_tid := int (current_task k), fdt := tab,
           sig := (sig (task_at k ?n))\<lparr>handlers := handlers (sig ?p), pending := 0\<rparr>,
           ctx := start_ctx fr (fork_child_return im)\<rparr> else task_at k i)" for i
      using l d by (simp add: k'(2) fin_def k6_def upd_task_def new_user_task_def set_bytes_def)
    have rest: "num_tasks k' = Suc ?n" "current_task k' = current_task k" "fds k' = s" "cpu k' = cpu k"
      "ttbr0_el1 k' = ttbr0_el1 k" "length (tasks k') = length (tasks k)"
      "kmm k' = (kmm k5)\<lparr>kbytes := store64 fr 0 (put_frame fr rs (kbytes (kmm k5)))\<rparr>"
      using d by (simp_all add: k'(2) fin_def k6_def upd_task_def set_bytes_def)
    have own5: "dom rl \<union> (?C \<union> ?S) \<subseteq> used (kpmm (kmm k5))" "pmm_inv (kpmm (kmm k5))" using space_ok_used [OF o(6)] by blast+
    have K5: "K \<subseteq> used (kpmm (kmm k5))" using keeps_used [OF keep5] pinv(2) by blast
    have fin: "keeps U s0 (kmm k')" if "keeps U s0 (kmm k5)" "U \<inter> K = {}" for U s0
      unfolding rest(7) fr by (rule keeps_child_frame [OF im _ that(1) K5 that(2)]) (use True in simp)
    have ex: "(dom rl \<union> (?C \<union> ?S)) \<inter> K = {}" using o(7) pinv(2) by blast
    have keepCS: "keeps (dom rl \<union> (?C \<union> ?S)) (kmm k5) (kmm k')" by (rule fin [OF keeps_refl [OF own5(2,1)] ex])
    have sp: "space_ok rl (?C \<union> ?S) pgd (kmm k')" by (rule keeps_space_ok [OF o(6) keepCS])
    have wk: "walk (kbytes (kmm k')) pgd v = walk (kbytes (kmm k5)) pgd v" for v
      by (rule space_ok_walk [OF o(6) keeps_mono [OF keepCS]]) simp
    have cr: "created k tab s rl (?C \<union> ?S) k'"
      unfolding created_def rest(1-6) at Let_def using o sp
      by (intro conjI task_pages_okI cp) (simp_all add: new_user_task_def Un_assoc wk)
    have same: "kbytes (kmm k') x = kbytes (kmm k5) x" if "\<exists>p \<in> ?C \<union> ?S. in_page p x" for x
      using keepCS that unfolding keeps_def by blast
    have imgC: "kbytes (kmm k') x = f (kbytes (kmm k)) x" if "\<exists>p \<in> ?C. in_page p x" for x
    proof -
      have "\<exists>p \<in> ?C \<union> ?S. in_page p x" using that by blast
      from same [OF this] show ?thesis using img that by simp
    qed
    have stkS: "kbytes (kmm k') x = g (f (kbytes (kmm k))) x" if "\<exists>p \<in> ?S. in_page p x" for x
    proof -
      have "\<exists>p \<in> ?C \<union> ?S. in_page p x" using that by blast
      from same [OF this] show ?thesis using stk that by simp
    qed
    have dC: "?C \<inter> {pc..<pc + unat ?cp} = {}" "?C \<inter> {ps..<ps + 4} = {}" "?S \<inter> {ps..<ps + 4} = {}"
      using o(7) pc(3) ps(3) by blast+
    have S4: "{Suc st..<Suc st + 4} = ?S" "Suc st + 4 \<le> TOTAL_PAGES" using o(4) by auto
    have code: "kbytes (kmm k') (phys_to_virt ca + of_nat x) = kbytes (kmm k) (phys_to_virt (code_pa ?p) + of_nat x)"
      if x: "x < unat ?cp * 4096" for x
    proof -
      note ra = run_addr(2,3) [OF o(2) x, folded o(1)]
      have "\<exists>p \<in> ?C. in_page p (phys_to_virt ca + of_nat x)" using ra by blast
      then have "kbytes (kmm k') (phys_to_virt ca + of_nat x) = f (kbytes (kmm k)) (phys_to_virt ca + of_nat x)"
        by (rule imgC)
      then show ?thesis unfolding f_def o(1) pc(1) using copy_run [OF o(2) pc(2) dC(1) x] by simp
    qed
    have stack: "kbytes (kmm k') (phys_to_virt (sa + 4096) + of_nat x) = kbytes (kmm k) (phys_to_virt (stack_pa ?p) + of_nat x)"
      if x: "x < 4 * 4096" for x
    proof -
      note ra = run_addr(2,3) [OF S4(2) x, unfolded S4(1), folded o(3)]
      have "\<exists>p \<in> ?S. in_page p (phys_to_virt (sa + 4096) + of_nat x)" using ra by blast
      then have "kbytes (kmm k') (phys_to_virt (sa + 4096) + of_nat x) = g (f (kbytes (kmm k))) (phys_to_virt (sa + 4096) + of_nat x)"
        by (rule stkS)
      also have "\<dots> = f (kbytes (kmm k)) (phys_to_virt (stack_pa ?p) + of_nat x)"
        unfolding g_def o(3) ps(1) using copy_run [OF S4(2) ps(2) _ x] dC(3) S4(1) by simp
      also have "\<dots> = kbytes (kmm k) (phys_to_virt (stack_pa ?p) + of_nat x)"
        unfolding f_def o(1) ps(1) by (rule copy_run_outside [OF o(2) ps(2) dC(2) x])
      finally show ?thesis .
    qed
    have t: "code_pa (task_at k' ?n) = ca" "stack_pa (task_at k' ?n) = sa + 4096" "ttbr0 (task_at k' ?n) = pgd"
      "code_pages (task_at k' ?n) = ?cp" "heap_break (task_at k' ?n) = heap_break ?p" "parent_tid (task_at k' ?n) = int (current_task k)"
      "handlers (sig (task_at k' ?n)) = handlers (sig ?p)" "pending (sig (task_at k' ?n)) = 0" "ctx_sp (ctx (task_at k' ?n)) = fr"
      by (simp_all add: at new_user_task_def start_ctx_def)
    have fk: "forked k k' (kstack_top im ?n - 272) rs"
      unfolding forked_def Let_def t fr [symmetric]
    proof (intro conjI)
      show "\<exists>c st. ca = frame c \<and> sa + 4096 = frame (Suc st) \<and> c + unat ?cp \<le> TOTAL_PAGES \<and> st + 5 \<le> TOTAL_PAGES
        \<and> (\<forall>x < unat ?cp * 4096. kbytes (kmm k') (phys_to_virt ca + of_nat x) = kbytes (kmm k) (phys_to_virt (code_pa ?p) + of_nat x))
        \<and> (\<forall>x < 4 * 4096. kbytes (kmm k') (phys_to_virt (sa + 4096) + of_nat x) = kbytes (kmm k) (phys_to_virt (stack_pa ?p) + of_nat x))"
        by (intro exI [of _ c0] exI [of _ st] conjI allI impI code stack o(1-4))
      show "get_frame fr (kbytes (kmm k')) = rs[0 := 0]" by (simp add: rest(7) get_put_frame rs)
    qed (use o(8) in \<open>simp_all add: wk\<close>)
    have kk: "keeps (?U - K) (kmm k) (kmm k')" by (rule fin [OF keeps_mono [OF keep5]]) auto
    have Kk: "K \<subseteq> used (kpmm (kmm k'))" using K5 by (simp add: rest(7))
    have "x30 (ctx (task_at k' ?n)) = fork_child_return im" by (simp add: at start_ctx_def)
    then show ?thesis using new [OF k'(1) _ _ ts cr kk Kk fk] True by simp
  qed
qed

end
