(* ===== verification/Signal.thy ===== *)
theory Signal
  imports Isolation
begin

text \<open>
  Kernel accesses to user memory and the delivery of signals, \<^verbatim>\<open>src/signal.c\<close>: a handler is entered
  by saving the interrupted registers on the user stack, and \<open>signal_return\<close> restores them.
\<close>

section \<open>Kernel accesses to user memory\<close>

text \<open>
  The kernel follows the pointers a process passes as they are. Addresses below \<open>2 ^ 39\<close> go
  through the user page table in TTBR0, those from \<open>KERN_VA_OFFSET\<close> on are kernel addresses; the
  rest fault (\<open>None\<close>). Only 4 KB pages are translated, the kind a process has; holes in the kernel
  half, which fault too, are not modelled.
\<close>

definition el1_addr :: "kernel \<Rightarrow> u64 \<Rightarrow> u64 option" where
  "el1_addr k va =
     (if va < 0x8000000000 then
        map_option (\<lambda>d. phys_to_virt (desc_addr d) + (va AND 0xFFF)) (walk (kbytes (kmm k)) (ttbr0_el1 k) va)
      else if KERN_VA_OFFSET \<le> va then Some va
      else None)"

definition el1_load :: "nat \<Rightarrow> u64 \<Rightarrow> kernel \<Rightarrow> u64 option" where
  "el1_load n va k = foldr (\<lambda>i acc. case acc of None \<Rightarrow> None | Some v \<Rightarrow>
       map_option (\<lambda>a. push_bit 8 v OR ucast (kbytes (kmm k) a)) (el1_addr k (va + of_nat i))) [0..<n] (Some 0)"

definition el1_store8 :: "u64 \<Rightarrow> u8 \<Rightarrow> kernel \<Rightarrow> kernel option" where
  "el1_store8 va b k = map_option (\<lambda>a. set_bytes (\<lambda>m. m(a := b)) k) (el1_addr k va)"

definition el1_store :: "nat \<Rightarrow> u64 \<Rightarrow> u64 \<Rightarrow> kernel \<Rightarrow> kernel option" where
  "el1_store n va v k = fold (\<lambda>i k. Option.bind k (el1_store8 (va + of_nat i) (ucast (drop_bit (8 * i) v)))) [0..<n] (Some k)"

section \<open>Delivery and return\<close>

definition SIGFRAME_SIZE :: u64 where "SIGFRAME_SIZE = 288"

definition sigreturn_trampoline :: "u64 list" where
  "sigreturn_trampoline = [0xd2800208, 0xd4000001]"

text \<open>\<open>Switched\<close>: the task was ended and another one has the CPU.\<close>

datatype delivery = Returned int regs kernel | Switched kernel

definition signal_default_action :: "image \<Rightarrow> nat \<Rightarrow> regs \<Rightarrow> kernel \<Rightarrow> delivery option" where
  "signal_default_action im sg regs k =
     (if sg = SIGCHLD then Some (Returned 0 regs k) else map_option Switched (sched_exit im k))"

definition lowest_pending :: "u32 \<Rightarrow> nat" where
  "lowest_pending p = (case List.find (\<lambda>i. p AND push_bit i 1 \<noteq> 0) [1..<NSIG] of None \<Rightarrow> 0 | Some i \<Rightarrow> i)"

definition push_sigframe :: "u64 \<Rightarrow> nat \<Rightarrow> regs \<Rightarrow> kernel \<Rightarrow> kernel option" where
  "push_sigframe fr sg regs k =
     (let st = (\<lambda>i v k. Option.bind k (el1_store 8 (fr + of_nat (8 * i)) v));
          k = fold (\<lambda>i. st i (regs ! i)) [0..<31] (Some k);
          k = st 31 (regs ! 31) k; k = st 32 (regs ! 32) k; k = st 33 (regs ! 33) k;
          k = st 34 (of_nat sg) k;
          k = Option.bind k (el1_store 4 (fr + 35 * 8) (sigreturn_trampoline ! 0))
      in Option.bind k (el1_store 4 (fr + 35 * 8 + 4) (sigreturn_trampoline ! 1)))"

definition signal_deliver :: "image \<Rightarrow> regs \<Rightarrow> kernel \<Rightarrow> delivery option" where
  "signal_deliver im regs k =
     (case sched_get_task (int (sched_current_id k)) k of
        None \<Rightarrow> Some (Returned 0 regs k)
      | Some i \<Rightarrow>
          if \<not> is_user (task_at k i) then Some (Returned 0 regs k)
          else
            let pend = pending (sig (task_at k i))
            in if pend = 0 then Some (Returned 0 regs k)
            else
              let sg = lowest_pending pend
              in if sg = 0 then Some (Returned 0 regs k)
              else
                let k = upd_task i (\<lambda>t. t\<lparr>sig := (sig t)\<lparr>pending := pending (sig t) AND NOT (push_bit sg 1)\<rparr>\<rparr>) k
                in if sg = SIGKILL then map_option Switched (sched_exit im k)
                else
                  let handler = handlers (sig (task_at k i)) ! sg
                  in if handler = SIG_IGN then Some (Returned 0 regs k)
                  else if handler = SIG_DFL then signal_default_action im sg regs k
                  else
                    let user_sp = (regs ! 31 - SIGFRAME_SIZE) AND NOT 0xF
                    in case push_sigframe user_sp sg regs k of
                         None \<Rightarrow> None
                       | Some k \<Rightarrow> Some (Returned 1
                           (regs[0 := of_nat sg, 30 := user_sp + 35 * 8, 31 := user_sp, 32 := handler]) k))"

text \<open>\<open>signal_return\<close>: \<open>None\<close> if the user stack pointer does not point to memory.\<close>

definition load_regs :: "u64 \<Rightarrow> kernel \<Rightarrow> nat list \<Rightarrow> regs \<Rightarrow> regs option" where
  "load_regs fr k is regs = fold (\<lambda>i regs. case regs of None \<Rightarrow> None | Some regs \<Rightarrow>
       map_option (\<lambda>v. regs[i := v]) (el1_load 8 (fr + of_nat (8 * i)) k)) is (Some regs)"

definition signal_return :: "regs \<Rightarrow> kernel \<Rightarrow> regs option" where
  "signal_return regs k = (let fr = regs ! 31 in load_regs fr k ([0..<31] @ [31, 32, 33]) regs)"

definition signal_set_handler :: "int \<Rightarrow> u64 \<Rightarrow> kernel \<Rightarrow> u64 \<times> kernel" where
  "signal_set_handler sg handler k =
     (if sg < 1 \<or> sg \<ge> int NSIG \<or> sg = int SIGKILL then (-1, k)
      else case sched_get_task (int (sched_current_id k)) k of
        None \<Rightarrow> (-1, k)
      | Some i \<Rightarrow>
          (handlers (sig (task_at k i)) ! nat sg,
           upd_task i (\<lambda>t. t\<lparr>sig := (sig t)\<lparr>handlers := (handlers (sig t))[nat sg := handler]\<rparr>\<rparr>) k))"

end
