(* ===== verification/Kernel.thy ===== *)
theory Kernel
  imports Signal SchedSpec FdSpec
begin

text \<open>
  The kernel as a whole, as a step relation: the scheduler's operations, process creation, heap
  growth, descriptor calls and memory writes, in any order. The invariant joins those of the
  scheduler, of the address spaces and of the descriptor layer.
\<close>

section \<open>Steps\<close>

text \<open>
  The state is the kernel's together with the set of page frames the kernel holds for itself (its
  image, its task stacks and what its heap took), which the code does not record. Registers change
  while a task runs. \<open>user_write\<close>: a byte of the current process's memory, by the process itself or
  by the kernel through a user pointer. \<open>kernel_write\<close>: a byte of the kernel's frames. \<open>lim\<close> bounds the size of
  the programs that \<open>create_user\<close> is given; the code has no such bound.
\<close>

definition tabs :: "kernel \<Rightarrow> fd_table list" where
  "tabs k = map (\<lambda>i. fdt (task_at k i)) [0..<num_tasks k]"

text \<open>
  A program of at most \<open>MAX_PROGRAM\<close> bytes has, with the four pages behind it, no more than 512 pages, as many as
  one third-level table maps; the index of a further page wraps around in \<open>mmu_create_user_pgd\<close>.
\<close>

abbreviation MAX_PROGRAM :: nat where
  "MAX_PROGRAM \<equiv> 0x1FC000"

inductive kstep :: "nat \<Rightarrow> image \<Rightarrow> nat set \<times> kernel \<Rightarrow> nat set \<times> kernel \<Rightarrow> bool" for lim im where
  create: "sched_create im name e a k = (r, k') \<Longrightarrow> kstep lim im (K, k) (K, k')"
| create_user: "\<lbrakk>unat code_size \<le> lim; sched_create_user im name src code_size k = Some (r, k')\<rbrakk>
    \<Longrightarrow> kstep lim im (K, k) (K, k')"
| fork: "\<lbrakk>length rs = 34; sched_fork im rs k = Some (r, k')\<rbrakk> \<Longrightarrow> kstep lim im (K, k) (K, k')"
| yield: "kstep lim im (K, k) (K, sched_yield im k)"
| tick: "kstep lim im (K, k) (K, sched_tick im k)"
| exit: "sched_exit im k = Some k' \<Longrightarrow> kstep lim im (K, k) (K, k')"
| wait: "sched_wait im t k = (r, k') \<Longrightarrow> kstep lim im (K, k) (K, k')"
| send: "signal_send t sg k = (r, k') \<Longrightarrow> kstep lim im (K, k) (K, k')"
| signal_state: "kstep lim im (K, k) (K, upd_task (current_task k) (\<lambda>t. t\<lparr>sig := ss\<rparr>) k)"
| registers: "kstep lim im (K, k) (K, k\<lparr>cpu := c\<rparr>)"
| descriptors: "fd_step (tabs k, fds k) ((tabs k)[current_task k := t], s)
    \<Longrightarrow> kstep lim im (K, k) (K, (upd_task (current_task k) (\<lambda>x. x\<lparr>fdt := t\<rparr>) k)\<lparr>fds := s\<rparr>)"
| sbrk: "sys_sbrk increment k = Some (r, k') \<Longrightarrow> kstep lim im (K, k) (K, k')"
| user_write: "\<lbrakk>is_user (cur_task k); va < 0x8000000000; el1_addr k va = Some a\<rbrakk>
    \<Longrightarrow> kstep lim im (K, k) (K, set_bytes (\<lambda>m. m(a := b)) k)"
| kernel_write: "\<lbrakk>p \<in> K; in_page p a\<rbrakk> \<Longrightarrow> kstep lim im (K, k) (K, set_bytes (\<lambda>m. m(a := b)) k)"
| kernel_alloc: "\<lbrakk>0 < n; alloc_run_of n k = (a, k'); a \<noteq> 0\<rbrakk>
    \<Longrightarrow> kstep lim im (K, k) (K \<union> {p. p < TOTAL_PAGES \<and> p \<in> used (kpmm (kmm k')) - used (kpmm (kmm k))}, k')"

lemma kstep_mono: "kstep lim im c c' \<Longrightarrow> lim \<le> lim' \<Longrightarrow> kstep lim' im c c'"
  by (induction rule: kstep.induct) (blast intro: kstep.intros order.trans)+

section \<open>Invariant\<close>

text \<open>The stack of a process is where its table maps it, and its heap ends below the guard page.\<close>

definition task_ok :: "memory \<Rightarrow> task \<Rightarrow> bool" where
  "task_ok m t \<longleftrightarrow> heap_break t < USER_VA_GUARD \<and> (\<forall>v. 0x7FC \<le> page_no v \<longrightarrow> page_no v < 0x800 \<longrightarrow>
     walk m (ttbr0 t) v = Some (page_desc (stack_pa t + of_nat (page_no v - 0x7FC) * 4096)))"

definition proc_inv :: "nat set \<Rightarrow> ownership \<Rightarrow> kernel \<Rightarrow> bool" where
  "proc_inv K own k \<longleftrightarrow> isolated K own k \<and> fd_inv (tabs k) (fds k)
     \<and> (\<forall>i < SCHED_MAX_TASKS. num_tasks k \<le> i \<longrightarrow> fdt (task_at k i) = replicate MAX_FDS_PER_TASK None)
     \<and> (\<forall>i < num_tasks k. is_user (task_at k i) \<longrightarrow> task_ok (kbytes (kmm k)) (task_at k i))"

definition kernel_inv :: "image \<Rightarrow> nat set \<times> kernel \<Rightarrow> bool" where
  "kernel_inv im c \<longleftrightarrow> image_ok (fst c) im \<and> sched_inv im (snd c) \<and> (\<exists>own. proc_inv (fst c) own (snd c))"

text \<open>What a step of the current task must leave of the others: their frames and their bytes.\<close>

definition preserves :: "ownership \<Rightarrow> kernel \<Rightarrow> kernel \<Rightarrow> bool" where
  "preserves own k k' \<longleftrightarrow> (\<forall>i < num_tasks k. is_user (task_at k i) \<longrightarrow> i \<noteq> current_task k \<longrightarrow>
     keeps (owned own i) (kmm k) (kmm k'))"

definition steps_to :: "nat set \<Rightarrow> ownership \<Rightarrow> kernel \<Rightarrow> nat set \<Rightarrow> ownership \<Rightarrow> kernel \<Rightarrow> bool" where
  "steps_to K own k K' own' k' \<longleftrightarrow> proc_inv K' own' k' \<and> preserves own k k'
     \<and> (\<forall>i < num_tasks k. same_space (task_at k i) (task_at k' i))"

section \<open>Steps that leave the processes alone\<close>

definition same_procs :: "kernel \<Rightarrow> kernel \<Rightarrow> bool" where
  "same_procs k k' \<longleftrightarrow> num_tasks k' = num_tasks k \<and> kmm k' = kmm k \<and> fds k' = fds k
     \<and> (\<forall>i. same_space (task_at k i) (task_at k' i) \<and> heap_break (task_at k' i) = heap_break (task_at k i)
          \<and> fdt (task_at k' i) = fdt (task_at k i))"

lemma task_ok_same: "\<lbrakk>same_space t t'; heap_break t' = heap_break t\<rbrakk> \<Longrightarrow> task_ok m t' = task_ok m t"
  by (simp add: same_space_def task_ok_def)

lemma tabs_same: "\<lbrakk>num_tasks k' = num_tasks k; \<And>i. i < num_tasks k \<Longrightarrow> fdt (task_at k' i) = fdt (task_at k i)\<rbrakk> \<Longrightarrow> tabs k' = tabs k"
  by (simp add: tabs_def)

lemma preserves_refl: "isolated K own k \<Longrightarrow> kmm k' = kmm k \<Longrightarrow> preserves own k k'"
  unfolding preserves_def by (metis keeps_refl isolated_pmm(1) isolated_user(4))

text \<open>A step that leaves the memory and the address spaces alone may change the descriptors.\<close>

lemma procs_steps:
  assumes inv: "proc_inv K own k" and n: "num_tasks k' = num_tasks k" "kmm k' = kmm k"
    and t: "\<And>i. same_space (task_at k i) (task_at k' i) \<and> heap_break (task_at k' i) = heap_break (task_at k i)"
    and fd: "fd_inv (tabs k') (fds k')" "\<And>i. num_tasks k \<le> i \<Longrightarrow> fdt (task_at k' i) = fdt (task_at k i)"
  shows "steps_to K own k K own k'"
proof -
  have iso: "isolated K own k" using inv by (simp add: proc_inv_def)
  have "isolated K own k'" by (rule isolated_same [OF iso]) (use n t in auto)
  moreover have "task_ok (kbytes (kmm k')) (task_at k' i)" if "i < num_tasks k'" "is_user (task_at k' i)" for i
  proof -
    have "is_user (task_at k i)" "i < num_tasks k" using that n t by (simp_all add: same_space_def)
    then show ?thesis using inv n(2) t task_ok_same [of "task_at k i" "task_at k' i"] by (simp add: proc_inv_def)
  qed
  ultimately have "proc_inv K own k'" using inv n fd by (simp add: proc_inv_def)
  then show ?thesis using t preserves_refl [OF iso n(2)] by (auto simp: steps_to_def)
qed

lemma same_procs_steps:
  assumes inv: "proc_inv K own k" and s: "same_procs k k'"
  shows "steps_to K own k K own k'"
proof -
  have "tabs k' = tabs k" by (rule tabs_same) (use s in \<open>auto simp: same_procs_def\<close>)
  then have "fd_inv (tabs k') (fds k')" using inv s by (simp add: proc_inv_def same_procs_def)
  then show ?thesis by (intro procs_steps [OF inv]) (use s in \<open>simp_all add: same_procs_def\<close>)
qed

lemma same_procs_refl [simp]: "same_procs k k"
  by (simp add: same_procs_def same_space_def)

lemma same_procs_trans: "same_procs k k1 \<Longrightarrow> same_procs k1 k2 \<Longrightarrow> same_procs k k2"
  by (simp add: same_procs_def same_space_def)

lemma same_procs_upd:
  assumes "i < length (tasks k)"
    "\<And>t. same_space t (f t) \<and> heap_break (f t) = heap_break t \<and> fdt (f t) = fdt t"
  shows "same_procs k (upd_task i f k)"
  using assms by (auto simp: same_procs_def same_space_def task_at_upd)

lemma same_procs_yield:
  assumes "table_ok im k"
  shows "same_procs k (sched_yield im k)"
proof (cases "pick_next k = current_task k")
  case True
  then show ?thesis by (simp add: sched_yield_def switch_to_def)
next
  case False
  note s = run_task_simps [OF table_ok_len [OF assms] cur_less [OF assms] False, of im]
  have "pick_next k < num_tasks k" using pick_next_running(1) [OF assms] .
  from s [OF this] False show ?thesis by (simp add: sched_yield_def switch_to_def same_procs_def same_space_def)
qed

lemma same_procs_tick:
  assumes "table_ok im k"
  shows "same_procs k (sched_tick im k)"
proof -
  let ?k = "upd_task (current_task k) (\<lambda>t. t\<lparr>ticks := ticks t + 1\<rparr>) k"
  have l: "current_task k < length (tasks k)" by (rule cur_less [OF assms])
  have t: "table_ok im ?k" using assms l by (intro upd_table_ok) auto
  have "sched_tick im k = sched_yield im ?k" by (simp add: sched_tick_def sched_yield_def switch_to_def Let_def)
  moreover have "same_procs k ?k" using l by (intro same_procs_upd) (auto simp: same_space_def)
  ultimately show ?thesis using same_procs_trans [OF _ same_procs_yield [OF t]] by simp
qed

lemma same_procs_wait:
  assumes "table_ok im k" "sched_wait im t k = (r, k')"
  shows "same_procs k k'"
proof (cases "t < 0 \<or> t \<ge> int (num_tasks k) \<or> tstate (task_at k (nat t)) = TASK_FINISHED")
  case True
  then show ?thesis using assms by (auto simp: sched_wait_def split: if_splits)
next
  case False
  let ?k = "upd_task (current_task k) (\<lambda>x. x\<lparr>tstate := TASK_BLOCKED, wait_for_tid := t\<rparr>) k"
  have l: "current_task k < length (tasks k)" by (rule cur_less [OF assms(1)])
  have "tstate (cur_task k) \<noteq> TASK_UNUSED" using assms(1) by (auto simp: table_ok_def)
  then have t: "table_ok im ?k" using assms(1) l by (intro upd_table_ok) auto
  have "same_procs k ?k" using l by (intro same_procs_upd) (auto simp: same_space_def)
  then show ?thesis using same_procs_trans [OF _ same_procs_yield [OF t]] assms(2) False by (auto simp: sched_wait_def)
qed

lemma same_procs_send:
  assumes "table_ok im k" "signal_send t sg k = (r, k')"
  shows "same_procs k k'"
proof -
  have len: "num_tasks k \<le> length (tasks k)" using assms(1) by (auto simp: table_ok_def)
  from assms(2) len show ?thesis
  proof (cases rule: signal_send_cases)
    case sent
    then show ?thesis using len by (auto intro!: same_procs_upd simp: same_space_def)
  qed simp
qed

section \<open>Steps that change descriptors\<close>

lemma tabs_nth: "i < num_tasks k \<Longrightarrow> tabs k ! i = fdt (task_at k i)"
  by (simp add: tabs_def)

lemma length_tabs [simp]: "length (tabs k) = num_tasks k"
  by (simp add: tabs_def)

lemma tabs_update:
  assumes "num_tasks k' = num_tasks k" "c < num_tasks k"
    "\<And>i. i < num_tasks k \<Longrightarrow> fdt (task_at k' i) = (if i = c then t else fdt (task_at k i))"
  shows "tabs k' = (tabs k)[c := t]"
  by (rule nth_equalityI) (use assms in \<open>simp_all add: tabs_nth nth_list_update\<close>)

lemma descriptor_steps:
  assumes inv: "proc_inv K own k" and t: "table_ok im k"
    and r: "fd_step (tabs k, fds k) ((tabs k)[current_task k := tab], s)"
  shows "steps_to K own k K own ((upd_task (current_task k) (\<lambda>x. x\<lparr>fdt := tab\<rparr>) k)\<lparr>fds := s\<rparr>)"
proof -
  let ?k = "(upd_task (current_task k) (\<lambda>x. x\<lparr>fdt := tab\<rparr>) k)\<lparr>fds := s\<rparr>"
  have l: "current_task k < length (tasks k)" "current_task k < num_tasks k" using t by (auto simp: table_ok_def)
  have at: "task_at ?k i = (if i = current_task k then (cur_task k)\<lparr>fdt := tab\<rparr> else task_at k i)" for i
    using l(1) by (simp add: upd_task_def)
  have "tabs ?k = (tabs k)[current_task k := tab]" by (rule tabs_update) (use l at in auto)
  moreover have "fd_inv ((tabs k)[current_task k := tab]) s" using fd_step_inv [OF r] inv by (simp add: proc_inv_def)
  ultimately show ?thesis
    by (intro procs_steps [OF inv]) (use l at in \<open>auto simp: same_space_def\<close>)
qed

lemma exit_steps:
  assumes inv: "proc_inv K own k" and sch: "sched_inv im k" and r: "sched_exit im k = Some k'"
  shows "steps_to K own k K own k'"
  using sch r
proof (rule sched_exit_yields)
  fix tab s k2
  assume d: "fd_table_destroy (fdt (cur_task k)) (fds k) = Some (tab, s)" and k': "k' = sched_yield im k2" "sched_wf im k2"
    and c: "current_task k2 = current_task k" "num_tasks k2 = num_tasks k" "fds k2 = s" "kmm k2 = kmm k"
    and f: "fdt (cur_task k2) = tab" "\<And>i. i \<noteq> current_task k \<Longrightarrow> fdt (task_at k2 i) = fdt (task_at k i)"
    and same: "\<And>i. is_user (task_at k2 i) = is_user (task_at k i) \<and> ttbr0 (task_at k2 i) = ttbr0 (task_at k i)
       \<and> ctx (task_at k2 i) = ctx (task_at k i) \<and> code_pa (task_at k2 i) = code_pa (task_at k i)
       \<and> code_pages (task_at k2 i) = code_pages (task_at k i) \<and> stack_pa (task_at k2 i) = stack_pa (task_at k i)
       \<and> heap_break (task_at k2 i) = heap_break (task_at k i)"
  let ?c = "current_task k"
  have l: "?c < num_tasks k" using sch by (auto simp: sched_defs)
  have t2: "table_ok im k2" using k'(2) by (simp add: sched_wf_def)
  note y = same_procs_yield [OF t2]
  have fdinv: "fd_inv (tabs k) (fds k)" using inv by (simp add: proc_inv_def)
  obtain s' where s': "fd_table_destroy (tabs k ! ?c) (fds k) = Some (replicate MAX_FDS_PER_TASK None, s')"
    "fd_inv ((tabs k)[?c := replicate MAX_FDS_PER_TASK None]) s'"
    using fd_table_destroy_inv [OF fdinv, of ?c] l by auto
  then have e: "tab = replicate MAX_FDS_PER_TASK None" "s = s'" using d l by (simp_all add: tabs_nth)
  have "tabs k2 = (tabs k)[?c := tab]"
    by (rule tabs_update) (use c l f in auto)
  moreover have "tabs k' = tabs k2" by (rule tabs_same) (use y k' in \<open>auto simp: same_procs_def\<close>)
  ultimately have "fd_inv (tabs k') (fds k')" using s'(2) e y k' c by (simp add: same_procs_def)
  then show ?thesis
    by (intro procs_steps [OF inv]) (use y k' c l f same in \<open>auto simp: same_procs_def same_space_def\<close>)
qed

section \<open>Steps that change memory\<close>

lemma space_ok_write:
  assumes "space_ok rl F pgd s" "keeps (dom rl) s s'" "F \<subseteq> used (kpmm s')"
  shows "space_ok rl F pgd s'"
proof -
  obtain root where r: "pgd = frame root" "pt_wf rl root s" "F \<inter> dom rl = {}"
    "\<forall>va d. walk (kbytes s) pgd va = Some d \<longrightarrow> (\<exists>p \<in> F. d = page_desc (frame p))" "mapped_once (kbytes s) pgd"
    using assms(1) by (auto simp: space_ok_def)
  then show ?thesis
    using keeps_pt_wf [OF r(2) assms(2)] keeps_walk [OF r(2) assms(2)] mapped_once_same [OF r(5)] assms(3) by (auto simp: space_ok_def)
qed

lemma task_ok_keeps:
  assumes "task_ok (kbytes s) t" "space_ok rl F (ttbr0 t) s" "keeps (dom rl) s s'"
  shows "task_ok (kbytes s') t"
  using assms space_ok_walk [OF assms(2,3)] by (simp add: task_ok_def)

lemma mem_steps:
  assumes inv: "proc_inv K own k" and s: "same_but_mem k k'"
    and m: "pmm_inv (kpmm (kmm k'))" "K \<subseteq> used (kpmm (kmm k'))"
    and u: "\<And>i. i < num_tasks k \<Longrightarrow> is_user (task_at k i) \<Longrightarrow> keeps (dom (fst (own i))) (kmm k) (kmm k')
      \<and> snd (own i) \<subseteq> used (kpmm (kmm k'))"
    and o: "\<And>i. i < num_tasks k \<Longrightarrow> is_user (task_at k i) \<Longrightarrow> i \<noteq> current_task k \<Longrightarrow> keeps (owned own i) (kmm k) (kmm k')"
  shows "steps_to K own k K own k'"
proof -
  have iso: "isolated K own k" using inv by (simp add: proc_inv_def)
  note d = same_but_memD [OF s]
  have "isolated K own k'"
    unfolding isolated_def
  proof (intro conjI allI impI)
    fix i assume "i < num_tasks k'" "is_user (task_at k' i)"
    then have i: "i < num_tasks k" "is_user (task_at k i)" using d by auto
    note g = isolated_user [OF iso i]
    show "space_ok (fst (own i)) (snd (own i)) (ttbr0 (task_at k' i)) (kmm k')"
      using space_ok_write [OF g(1)] u [OF i] d by simp
    show "task_pages_ok (snd (own i)) (task_at k' i)" "owned own i \<inter> K = {}" using g d by auto
  next
    fix i j assume "i < num_tasks k'" "j < num_tasks k'" "i \<noteq> j" "is_user (task_at k' i)" "is_user (task_at k' j)"
    then show "owned own i \<inter> owned own j = {}" using iso d unfolding isolated_def by auto
  qed (use m in auto)
  moreover have "task_ok (kbytes (kmm k')) (task_at k' i)" if "i < num_tasks k'" "is_user (task_at k' i)" for i
  proof -
    have i: "i < num_tasks k" "is_user (task_at k i)" using that d by auto
    have "task_ok (kbytes (kmm k)) (task_at k i)" using inv i by (simp add: proc_inv_def)
    then show ?thesis using task_ok_keeps [OF _ isolated_user(1) [OF iso i]] u [OF i] d by simp
  qed
  moreover have "tabs k' = tabs k" by (rule tabs_same) (use d in auto)
  ultimately have "proc_inv K own k'" using inv d by (simp add: proc_inv_def)
  then show ?thesis using o d by (auto simp: steps_to_def preserves_def same_space_def)
qed

lemma keeps_steps:
  assumes inv: "proc_inv K own k" and s: "same_but_mem k k'"
    and k: "keeps (used (kpmm (kmm k)) - K) (kmm k) (kmm k')" "K \<subseteq> used (kpmm (kmm k'))"
  shows "steps_to K own k K own k'"
proof -
  have iso: "isolated K own k" using inv by (simp add: proc_inv_def)
  have o: "keeps (owned own i) (kmm k) (kmm k')" if "i < num_tasks k" "is_user (task_at k i)" for i
    by (rule keeps_mono [OF k(1)]) (use isolated_user(3,4) [OF iso that] in auto)
  show ?thesis
  proof (rule mem_steps [OF inv s keeps_inv [OF k(1)] k(2)])
    fix i assume i: "i < num_tasks k" "is_user (task_at k i)"
    show "keeps (dom (fst (own i))) (kmm k) (kmm k') \<and> snd (own i) \<subseteq> used (kpmm (kmm k'))"
      using keeps_mono [OF o [OF i]] keeps_used [OF o [OF i]] by (auto simp: owned_def)
  qed (rule o)
qed

lemma refused_steps:
  assumes "proc_inv K own k" "same_but_mem k k'" "keeps (used (kpmm (kmm k))) (kmm k) (kmm k')"
  shows "steps_to K own k K own k'"
proof (rule keeps_steps [OF assms(1,2) keeps_mono [OF assms(3)]])
  show "K \<subseteq> used (kpmm (kmm k'))"
    using keeps_used [OF assms(3)] assms(1) isolated_pmm(2) by (force simp: proc_inv_def)
qed auto

text \<open>One byte of a frame \<open>p\<close>, which belongs to the current process's memory or to no process.\<close>

lemma write_steps:
  assumes inv: "proc_inv K own k" and p: "p \<in> used (kpmm (kmm k))" "in_page p a"
    and o: "\<And>i. i < num_tasks k \<Longrightarrow> is_user (task_at k i) \<Longrightarrow> p \<notin> dom (fst (own i)) \<and> (i \<noteq> current_task k \<longrightarrow> p \<notin> snd (own i))"
  shows "steps_to K own k K own (set_bytes (\<lambda>m. m(a := b)) k)"
proof -
  let ?k = "set_bytes (\<lambda>m. m(a := b)) k"
  have iso: "isolated K own k" using inv by (simp add: proc_inv_def)
  have mem: "kmm ?k = (kmm k)\<lparr>kbytes := (kbytes (kmm k))(a := b)\<rparr>" by (simp add: set_bytes_def)
  have P: "p < TOTAL_PAGES" using p(1) by (simp add: used_def)
  have keep: "keeps U (kmm k) (kmm ?k)" if "U \<subseteq> used (kpmm (kmm k))" "p \<notin> U" for U
  proof (rule keeps_bytes [OF keeps_refl [OF isolated_pmm(1) [OF iso] that(1)] _ that(2) P])
    show "kbytes (kmm ?k) x = kbytes (kmm k) x" if "\<not> in_page p x" for x
      using that p(2) by (auto simp: mem)
  qed (simp add: mem)
  show ?thesis
  proof (rule mem_steps [OF inv])
    show "same_but_mem k ?k" by (simp add: same_but_mem_def set_bytes_def)
    fix i assume i: "i < num_tasks k" "is_user (task_at k i)"
    have u: "owned own i \<subseteq> used (kpmm (kmm k))" by (rule isolated_user(4) [OF iso i])
    show "keeps (dom (fst (own i))) (kmm k) (kmm ?k) \<and> snd (own i) \<subseteq> used (kpmm (kmm ?k))"
      using keep [of "dom (fst (own i))"] u o [OF i] by (auto simp: owned_def mem)
    assume "i \<noteq> current_task k"
    then show "keeps (owned own i) (kmm k) (kmm ?k)" using keep [OF u] o [OF i] by (auto simp: owned_def)
  qed (use isolated_pmm [OF iso] in \<open>simp_all add: mem\<close>)
qed

lemma kernel_write_steps:
  assumes inv: "proc_inv K own k" and p: "p \<in> K" "in_page p a"
  shows "steps_to K own k K own (set_bytes (\<lambda>m. m(a := b)) k)"
proof (rule write_steps [OF inv _ p(2)])
  have iso: "isolated K own k" using inv by (simp add: proc_inv_def)
  show "p \<in> used (kpmm (kmm k))" using isolated_pmm(2) [OF iso] p(1) by auto
  fix i assume "i < num_tasks k" "is_user (task_at k i)"
  then have "owned own i \<inter> K = {}" by (rule isolated_user(3) [OF iso])
  then show "p \<notin> dom (fst (own i)) \<and> (i \<noteq> current_task k \<longrightarrow> p \<notin> snd (own i))" using p(1) by (auto simp: owned_def)
qed

lemma user_ttbr0:
  assumes "table_ok im k" "space_ok rl F (ttbr0 (cur_task k)) s"
  shows "ttbr0_el1 k = ttbr0 (cur_task k)"
proof -
  obtain root where "ttbr0 (cur_task k) = frame root" "pt_wf rl root s" using assms(2) by (auto simp: space_ok_def)
  then have "ttbr0 (cur_task k) \<noteq> 0" using pt_wf_page [of rl root s root] page_addr_in_RAM(3) by (auto simp: pt_wf_def)
  then show ?thesis using assms(1) by (simp add: table_ok_def mmu_switch_ttbr0_def)
qed

lemma space_ok_frame: "space_ok rl F pgd s \<Longrightarrow> walk (kbytes s) pgd va = Some d \<Longrightarrow> \<exists>p \<in> F. d = page_desc (frame p)"
  unfolding space_ok_def by blast

lemma user_addr:
  assumes iso: "isolated K own k" and t: "table_ok im k" and u: "is_user (cur_task k)"
    and a: "va < 0x8000000000" "el1_addr k va = Some a"
  obtains p where "p \<in> snd (own (current_task k))" "in_page p a" "p < TOTAL_PAGES"
    "walk (kbytes (kmm k)) (ttbr0 (cur_task k)) va = Some (page_desc (frame p))" "a = phys_to_virt (frame p) + (va AND 0xFFF)"
proof -
  have c: "current_task k < num_tasks k" using t by (auto simp: table_ok_def)
  note g = isolated_user [OF iso c u]
  obtain d where d: "walk (kbytes (kmm k)) (ttbr0 (cur_task k)) va = Some d" "a = phys_to_virt (desc_addr d) + (va AND 0xFFF)"
    using a user_ttbr0 [OF t g(1)] by (auto simp: el1_addr_def)
  obtain p where p: "p \<in> snd (own (current_task k))" "d = page_desc (frame p)"
    using space_ok_frame [OF g(1) d(1)] by blast
  have P: "p < TOTAL_PAGES" using p(1) g(4) by (auto simp: owned_def used_def)
  have e: "desc_addr d = frame p"
    using page_desc_addr [OF frame_aligned [OF P]] unat_page_to_addr [OF P] P p(2) by (simp add: TOTAL_PAGES_def)
  have "va AND 0xFFF = take_bit 12 va" by (simp add: take_bit_eq_mask mask_eq_exp_minus_1)
  then have "va AND 0xFFF < 4096" by (simp add: word_less_nat_alt unat_take_bit)
  then have "in_page p a" by (simp add: in_page_def d(2) e)
  from p(1) this P show ?thesis by (rule that) (use d e p(2) in simp_all)
qed

lemma user_write_steps:
  assumes inv: "proc_inv K own k" and t: "table_ok im k" and u: "is_user (cur_task k)"
    and a: "va < 0x8000000000" "el1_addr k va = Some a"
  shows "steps_to K own k K own (set_bytes (\<lambda>m. m(a := b)) k)"
proof -
  have iso: "isolated K own k" using inv by (simp add: proc_inv_def)
  have c: "current_task k < num_tasks k" using t by (auto simp: table_ok_def)
  obtain p where p: "p \<in> snd (own (current_task k))" "in_page p a" using user_addr [OF iso t u a] by metis
  show ?thesis
  proof (rule write_steps [OF inv _ p(2)])
    show "p \<in> used (kpmm (kmm k))" using p(1) isolated_user(4) [OF iso c u] by (auto simp: owned_def)
    fix i assume i: "i < num_tasks k" "is_user (task_at k i)"
    have "p \<notin> dom (fst (own (current_task k)))"
      using isolated_user(1) [OF iso c u] p(1) by (auto simp: space_ok_def)
    moreover have "p \<notin> owned own i" if "i \<noteq> current_task k"
      using iso i c u that p(1) unfolding isolated_def owned_def by blast
    ultimately show "p \<notin> dom (fst (own i)) \<and> (i \<noteq> current_task k \<longrightarrow> p \<notin> snd (own i))"
      by (auto simp: owned_def)
  qed
qed

lemma kernel_alloc_steps:
  assumes inv: "proc_inv K own k" and n: "0 < n" "alloc_run_of n k = (a, k')"
  shows "steps_to K own k (K \<union> (used (kpmm (kmm k')) - used (kpmm (kmm k)))) own k'"
proof -
  have iso: "isolated K own k" using inv by (simp add: proc_inv_def)
  obtain pm where pm: "pmm_alloc_pages n (kpmm (kmm k)) = (a, pm)" "k' = k\<lparr>kmm := (kmm k)\<lparr>kpmm := pm\<rparr>\<rparr>"
    using alloc_run_ofD [OF n(2)] .
  have "steps_to K own k K own k'"
    using keeps_alloc_pages(1) [OF isolated_pmm(1) [OF iso] n(1) pm(1)]
    by (intro refused_steps [OF inv]) (simp_all add: pm(2) same_but_mem_def)
  moreover have "owned own i \<subseteq> used (kpmm (kmm k))" if "i < num_tasks k'" "is_user (task_at k' i)" for i
    using isolated_user(4) [OF iso] that by (simp add: pm(2))
  ultimately show ?thesis unfolding steps_to_def proc_inv_def isolated_def by blast
qed

section \<open>Heap growth\<close>

lemma page_align_up:
  assumes "a \<le> USER_VA_GUARD"
  defines "n \<equiv> (unat a + 4095) div 4096"
  shows "PAGE_ALIGN_UP a = of_nat (n * 4096)" "n \<le> 0x7FB"
proof -
  have b: "unat a \<le> 0x7FB000"
    using assms(1) by (simp add: USER_VA_GUARD_def USER_VA_STACK_def USER_STACK_PAGES_def word_le_nat_alt)
  show n: "n \<le> 0x7FB" using b by (simp add: n_def)
  have "unat (of_nat (n * 4096) :: u64) = n * 4096" by (rule unat_of_nat_small) (use n in simp)
  moreover have "unat (PAGE_ALIGN_UP a) = n * 4096" using b by (simp add: unat_PAGE_ALIGN_UP n_def)
  ultimately show "PAGE_ALIGN_UP a = of_nat (n * 4096)" by (simp add: word_unat_eq_iff del: of_nat_mult)
qed

lemma sys_sbrk_total:
  assumes sp: "space_ok rl F (ttbr0 (cur_task k)) (kmm k)" and hb: "heap_break (cur_task k) < USER_VA_GUARD"
  obtains r k' where "sys_sbrk inc k = Some (r, k')"
proof (cases "is_user (cur_task k) \<and> inc \<noteq> 0 \<and> heap_break (cur_task k) + inc < USER_VA_GUARD")
  case True
  let ?A = "(unat (heap_break (cur_task k)) + 4095) div 4096" and ?E = "(unat (heap_break (cur_task k) + inc) + 4095) div 4096"
  have a: "PAGE_ALIGN_UP (heap_break (cur_task k)) = of_nat (?A * 4096)" "?A \<le> 0x7FB"
    by (rule page_align_up, use hb in simp)+
  have e: "PAGE_ALIGN_UP (heap_break (cur_task k) + inc) = of_nat (?E * 4096)" "?E \<le> 0x7FB"
    by (rule page_align_up, use True in \<open>blast intro: less_imp_le\<close>)+
  have "?E \<le> 0x800" "?A \<le> 0x800" "?E - ?A < 0x800" using a(2) e(2) by linarith+
  then obtain b m' where "sbrk_map 0x800 (ttbr0 (cur_task k)) (of_nat (?A * 4096)) (of_nat (?E * 4096)) (kmm k) = Some (b, m')"
    using sbrk_map_spec [OF sp] by meson
  then have "\<exists>x. sys_sbrk inc k = Some x"
    using True by (simp add: sys_sbrk_def Let_def a(1) e(1) not_le del: of_nat_mult)
  then show ?thesis using that by auto
next
  case False
  then have "\<exists>x. sys_sbrk inc k = Some x" by (auto simp: sys_sbrk_def Let_def not_less)
  then show ?thesis using that by auto
qed

text \<open>
  The cases of \<open>sys_sbrk\<close>. With \<open>b\<close> the loop failed after some pages; otherwise all pages up to the
  new break are mapped to fresh zeroed frames.
\<close>

lemma sys_sbrk_cases:
  assumes iso: "isolated K own k" and t: "current_task k < num_tasks k"
    and hb: "is_user (cur_task k) \<longrightarrow> heap_break (cur_task k) < USER_VA_GUARD"
    and r: "sys_sbrk inc k = Some (r, k')"
  obtains (refused) "k' = k" "\<not> is_user (cur_task k) \<or> USER_VA_GUARD \<le> heap_break (cur_task k) + inc" "r = -1"
  | (query) "is_user (cur_task k)" "inc = 0" "k' = k" "r = heap_break (cur_task k)"
  | (grow) rl' F' b m' M where "is_user (cur_task k)" "heap_break (cur_task k) + inc < USER_VA_GUARD" "inc \<noteq> 0"
      "space_ok rl' F' (ttbr0 (cur_task k)) m'" "dom (fst (own (current_task k))) \<subseteq> dom rl'" "snd (own (current_task k)) \<subseteq> F'"
      "dom rl' \<union> F' \<subseteq> owned own (current_task k) \<union> (used (kpmm m') - used (kpmm (kmm k)))"
      "keeps (used (kpmm (kmm k)) - dom (fst (own (current_task k)))) (kmm k) m'"
      "(unat (heap_break (cur_task k)) + 4095) div 4096 \<le> M" "b \<or> (unat (heap_break (cur_task k) + inc) + 4095) div 4096 \<le> M" "M \<le> 0x7FB"
      "\<forall>v. if (unat (heap_break (cur_task k)) + 4095) div 4096 \<le> page_no v \<and> page_no v < M
        then \<exists>p \<in> F' - snd (own (current_task k)). walk (kbytes m') (ttbr0 (cur_task k)) v = Some (page_desc (frame p))
          \<and> (\<forall>x. in_page p x \<longrightarrow> kbytes m' x = 0)
        else walk (kbytes m') (ttbr0 (cur_task k)) v = walk (kbytes (kmm k)) (ttbr0 (cur_task k)) v"
      "r = (if b then -1 else heap_break (cur_task k))"
      "k' = (if b then k\<lparr>kmm := m'\<rparr> else upd_task (current_task k) (\<lambda>x. x\<lparr>heap_break := heap_break (cur_task k) + inc\<rparr>) (k\<lparr>kmm := m'\<rparr>))"
      "M \<le> max ((unat (heap_break (cur_task k)) + 4095) div 4096) ((unat (heap_break (cur_task k) + inc) + 4095) div 4096)"
proof -
  let ?t = "cur_task k" and ?c = "current_task k"
  consider "\<not> is_user ?t" | "is_user ?t" "inc = 0" | "is_user ?t" "inc \<noteq> 0" "\<not> heap_break ?t + inc < USER_VA_GUARD"
    | "is_user ?t" "inc \<noteq> 0" "heap_break ?t + inc < USER_VA_GUARD" by blast
  then show ?thesis
  proof cases
    case 1
    show ?thesis by (rule refused) (use r 1 in \<open>simp_all add: sys_sbrk_def\<close>)
  next
    case 2
    show ?thesis by (rule query) (use r 2 in \<open>auto simp: sys_sbrk_def\<close>)
  next
    case 3
    show ?thesis by (rule refused) (use r 3 in \<open>simp_all add: sys_sbrk_def Let_def not_less\<close>)
  next
    case 4
    let ?A = "(unat (heap_break ?t) + 4095) div 4096" and ?E = "(unat (heap_break ?t + inc) + 4095) div 4096"
    have a: "PAGE_ALIGN_UP (heap_break ?t) = of_nat (?A * 4096)" "?A \<le> 0x7FB"
      by (rule page_align_up, use hb 4(1) in simp)+
    have e: "PAGE_ALIGN_UP (heap_break ?t + inc) = of_nat (?E * 4096)" "?E \<le> 0x7FB"
      by (rule page_align_up, use 4(3) in simp)+
    have sp: "space_ok (fst (own ?c)) (snd (own ?c)) (ttbr0 ?t) (kmm k)" by (rule isolated_user(1) [OF iso t 4(1)])
    have "?E \<le> 0x800" "?A \<le> 0x800" "?E - ?A < 0x800" using a(2) e(2) by linarith+
    from sbrk_map_spec [OF sp this] obtain rl' F' b m' M where
      R: "sbrk_map 0x800 (ttbr0 ?t) (of_nat (?A * 4096)) (of_nat (?E * 4096)) (kmm k) = Some (b, m')"
      "space_ok rl' F' (ttbr0 ?t) m'" "dom (fst (own ?c)) \<subseteq> dom rl'" "snd (own ?c) \<subseteq> F'"
      "dom rl' \<union> F' \<subseteq> dom (fst (own ?c)) \<union> snd (own ?c) \<union> (used (kpmm m') - used (kpmm (kmm k)))"
      "keeps (used (kpmm (kmm k)) - dom (fst (own ?c))) (kmm k) m'" "?A \<le> M" "b \<or> ?E \<le> M" "M \<le> max ?A ?E"
      "\<forall>v. if ?A \<le> page_no v \<and> page_no v < M
           then \<exists>p \<in> F' - snd (own ?c). walk (kbytes m') (ttbr0 ?t) v = Some (page_desc (frame p)) \<and> (\<forall>x. in_page p x \<longrightarrow> kbytes m' x = 0)
           else walk (kbytes m') (ttbr0 ?t) v = walk (kbytes (kmm k)) (ttbr0 ?t) v"
      by (elim exE conjE) (rule that)
    have "M \<le> 0x7FB" using R(9) a(2) e(2) by linarith
    moreover have "r = (if b then -1 else heap_break ?t)"
      "k' = (if b then k\<lparr>kmm := m'\<rparr> else upd_task ?c (\<lambda>x. x\<lparr>heap_break := heap_break ?t + inc\<rparr>) (k\<lparr>kmm := m'\<rparr>))"
      using r 4 R(1) by (auto simp: sys_sbrk_def Let_def a(1) e(1) simp del: of_nat_mult split: if_splits)
    ultimately show ?thesis
      by (intro grow [OF 4(1,3,2) R(2-4) R(5) [folded owned_def] R(6-8) _ R(10) _ _ R(9)])
  qed
qed

text \<open>A process's address space grows by frames that nobody used.\<close>

lemma isolated_grow:
  assumes iso: "isolated K own k" and n: "num_tasks k' = num_tasks k" and c: "c < num_tasks k" "is_user (task_at k c)"
    and t: "\<And>i. i < num_tasks k \<Longrightarrow> same_space (task_at k i) (task_at k' i)"
    and sp: "space_ok rl F (ttbr0 (task_at k c)) (kmm k')" "snd (own c) \<subseteq> F"
    and fresh: "dom rl \<union> F \<subseteq> owned own c \<union> (used (kpmm (kmm k')) - used (kpmm (kmm k)))"
    and keep: "keeps (used (kpmm (kmm k)) - dom (fst (own c))) (kmm k) (kmm k')"
  shows "isolated K (own(c := (rl, F))) k'"
  unfolding isolated_def n
proof (intro conjI allI impI)
  let ?own = "own(c := (rl, F))"
  have user: "is_user (task_at k i)" if "i < num_tasks k" "is_user (task_at k' i)" for i using t [OF that(1)] that by (simp add: same_space_def)
  have disj: "owned own i \<inter> owned own j = {}" if "i < num_tasks k" "j < num_tasks k" "i \<noteq> j" "is_user (task_at k i)" "is_user (task_at k j)" for i j
    using iso that unfolding isolated_def by blast
  have Kc: "K \<inter> dom (fst (own c)) = {}" using isolated_user(3) [OF iso c] by (auto simp: owned_def)
  have new: "x \<in> owned own c \<or> x \<notin> used (kpmm (kmm k))" if "x \<in> owned ?own c" for x using fresh that by (auto simp: owned_def)
  show "pmm_inv (kpmm (kmm k'))" by (rule keeps_inv [OF keep])
  show "K \<subseteq> used (kpmm (kmm k'))" using keeps_used [OF keep] isolated_pmm(2) [OF iso] Kc by blast
  fix i assume i: "i < num_tasks k" "is_user (task_at k' i)"
  note g = isolated_user [OF iso i(1) user [OF i]]
  have "space_ok (fst (?own i)) (snd (?own i)) (ttbr0 (task_at k' i)) (kmm k') \<and> task_pages_ok (snd (?own i)) (task_at k' i)
    \<and> owned ?own i \<inter> K = {}"
  proof (cases "i = c")
    case True
    have "task_pages_ok F (task_at k c)" using g(2) sp(2) True unfolding task_pages_ok_def by force
    moreover have "owned ?own c \<inter> K = {}" using new g(3) isolated_pmm(2) [OF iso] True by blast
    ultimately show ?thesis using sp(1) t [OF c(1)] same_space_pages [OF t [OF c(1)]] True by (simp add: same_space_def)
  next
    case False
    have "owned own i \<subseteq> used (kpmm (kmm k)) - dom (fst (own c))"
      using disj [OF i(1) c(1) False user [OF i] c(2)] g(4) by (auto simp: owned_def)
    from keeps_space_ok [OF g(1)] keeps_mono [OF keep this] show ?thesis
      using g(2,3) t [OF i(1)] same_space_pages [OF t [OF i(1)]] False by (simp add: owned_def same_space_def)
  qed
  then show "space_ok (fst (?own i)) (snd (?own i)) (ttbr0 (task_at k' i)) (kmm k')"
    "task_pages_ok (snd (?own i)) (task_at k' i)" "owned ?own i \<inter> K = {}" by blast+
  fix j assume j: "j < num_tasks k" "i \<noteq> j" "is_user (task_at k' j)"
  have old: "owned ?own a = owned own a" if "a \<noteq> c" for a using that by (simp add: owned_def)
  have away: "owned ?own a \<inter> owned ?own c = {}" if "a < num_tasks k" "a \<noteq> c" "is_user (task_at k a)" for a
    using new disj [OF that(1) c(1) that(2,3) c(2)] isolated_user(4) [OF iso that(1,3)] unfolding old [OF that(2)] by blast
  show "owned ?own i \<inter> owned ?own j = {}"
    using away [of i] away [of j] disj [of i j] user [OF i] user [OF j(1,3)] i(1) j old by (cases "i = c"; cases "j = c") auto
qed

lemma sbrk_steps:
  assumes inv: "proc_inv K own k" and t: "table_ok im k" and r: "sys_sbrk inc k = Some (r, k')"
  shows "\<exists>own'. steps_to K own k K own' k'"
proof -
  have iso: "isolated K own k" using inv by (simp add: proc_inv_def)
  have c: "current_task k < num_tasks k" "current_task k < length (tasks k)" using t by (auto simp: table_ok_def)
  have ok: "task_ok (kbytes (kmm k)) (task_at k i)" if "i < num_tasks k" "is_user (task_at k i)" for i
    using inv that by (simp add: proc_inv_def)
  have hb: "is_user (cur_task k) \<longrightarrow> heap_break (cur_task k) < USER_VA_GUARD" using ok c(1) by (simp add: task_ok_def)
  from iso c(1) hb r show ?thesis
  proof (cases rule: sys_sbrk_cases)
    case refused
    then show ?thesis using same_procs_steps [OF inv, of k'] by auto
  next
    case query
    then show ?thesis using same_procs_steps [OF inv, of k'] by auto
  next
    case (grow rl' F' b m' M)
    let ?c = "current_task k" and ?new = "heap_break (cur_task k) + inc"
    have at: "task_at k' i = (if i = ?c \<and> \<not> b then (cur_task k)\<lparr>heap_break := ?new\<rparr> else task_at k i)" for i
      using c(2) by (simp add: grow(14) upd_task_def)
    have rest: "num_tasks k' = num_tasks k" "kmm k' = m'" "fds k' = fds k" "current_task k' = ?c"
      by (simp_all add: grow(14))
    have same: "same_space (task_at k i) (task_at k' i)" for i by (simp add: at same_space_def)
    let ?own = "own(?c := (rl', F'))"
    have iso': "isolated K ?own k'"
      by (rule isolated_grow [OF iso rest(1) c(1) grow(1) same]) (use grow rest in simp_all)
    have keep: "keeps (owned own i) (kmm k) m'" if i: "i < num_tasks k" "is_user (task_at k i)" "i \<noteq> ?c" for i
    proof (rule keeps_mono [OF grow(8)])
      have "owned own i \<inter> owned own ?c = {}" using iso c(1) i grow(1) unfolding isolated_def by blast
      then show "owned own i \<subseteq> used (kpmm (kmm k)) - dom (fst (own ?c))"
        using isolated_user(4) [OF iso i(1,2)] by (auto simp: owned_def)
    qed
    have "task_ok (kbytes m') (task_at k' i)" if "i < num_tasks k" "is_user (task_at k i)" for i
    proof (cases "i = ?c")
      case True
      have "walk (kbytes m') (ttbr0 (cur_task k)) v = walk (kbytes (kmm k)) (ttbr0 (cur_task k)) v" if "0x7FC \<le> page_no v" for v
        using grow(12) [rule_format, of v] grow(11) that by (auto split: if_splits)
      then show ?thesis using ok [OF that] grow(2) True at by (auto simp: task_ok_def)
    next
      case False
      have "keeps (dom (fst (own i))) (kmm k) m'" by (rule keeps_mono [OF keep [OF that False]]) (simp add: owned_def)
      then show ?thesis using task_ok_keeps [OF ok [OF that] isolated_user(1) [OF iso that]] False at by simp
    qed
    moreover have "tabs k' = tabs k" by (rule tabs_same) (use rest at in auto)
    ultimately have "proc_inv K ?own k'"
      using inv iso' rest same at by (auto simp: proc_inv_def same_space_def)
    then have "steps_to K own k K ?own k'" using keep rest same by (simp add: steps_to_def preserves_def)
    then show ?thesis by blast
  qed
qed

section \<open>New tasks\<close>

lemma fd_inv_append_empty:
  assumes "fd_inv ts s"
  shows "fd_inv (ts @ [replicate MAX_FDS_PER_TASK None]) s"
proof -
  have "refs (ts @ [replicate MAX_FDS_PER_TASK None]) r = refs ts r" for r by (simp add: refs_def)
  then show ?thesis using assms by (simp add: fd_inv_def)
qed

lemma tabs_append:
  assumes "num_tasks k' = Suc (num_tasks k)" "\<And>i. i < num_tasks k \<Longrightarrow> fdt (task_at k' i) = fdt (task_at k i)"
  shows "tabs k' = tabs k @ [fdt (task_at k' (num_tasks k))]"
  using assms by (simp add: tabs_def)

lemma walk_page_no:
  assumes "\<forall>v. unat v < 2 ^ 39 \<longrightarrow> walk m pgd v = user_map ca cp sa 4 (unat v div 4096)"
  shows "walk m pgd v = user_map ca cp sa 4 (page_no v)"
proof -
  have u: "unat (take_bit 39 v) = unat v mod 2 ^ 39" by (simp add: unat_take_bit)
  have "unat v mod 2 ^ 39 div 4096 = unat v div 4096 mod 2 ^ 27"
    using div_exp_mod_exp_eq [of "unat v" 12 27, symmetric] by (simp add: mod_mult2_eq)
  then have n: "unat (take_bit 39 v) div 4096 = page_no v" by (simp add: u page_no_def)
  have "walk m pgd v = walk m pgd (take_bit 39 v)" by (simp add: walk_take_bit)
  also have "\<dots> = user_map ca cp sa 4 (page_no v)"
    unfolding n [symmetric] by (rule assms [rule_format]) (simp add: u)
  finally show ?thesis .
qed

lemma new_task_ok:
  assumes "\<forall>v. unat v < 2 ^ 39 \<longrightarrow> walk m (ttbr0 t) v = user_map (code_pa t) (unat (code_pages t)) (stack_pa t) 4 (unat v div 4096)"
    "unat (code_pages t) \<le> 512" "heap_break t < USER_VA_GUARD"
  shows "task_ok m t"
  using walk_page_no [OF assms(1)] assms(2,3) by (simp add: task_ok_def user_map_def)

lemma created_steps:
  assumes inv: "proc_inv K own k" and sch: "sched_inv im k" and n: "num_tasks k < SCHED_MAX_TASKS"
    and cr: "created k tab s rl F k'" and keep: "keeps (used (kpmm (kmm k)) - K) (kmm k) (kmm k')" "K \<subseteq> used (kpmm (kmm k'))"
    and fd: "fd_inv (tabs k @ [tab]) s" and hb: "heap_break (task_at k' (num_tasks k)) < USER_VA_GUARD"
  shows "steps_to K own k K (own(num_tasks k := (rl, F))) k'"
proof -
  let ?n = "num_tasks k"
  have iso: "isolated K own k" using inv by (simp add: proc_inv_def)
  have iso': "isolated K (own(?n := (rl, F))) k'" by (rule created_isolated [OF iso cr keep])
  have c: "num_tasks k' = Suc ?n" "fds k' = s" "\<And>i. i \<noteq> ?n \<Longrightarrow> task_at k' i = task_at k i" "fdt (task_at k' ?n) = tab"
    using cr by (simp_all add: created_def Let_def)
  have o: "keeps (owned own i) (kmm k) (kmm k')" if "i < ?n" "is_user (task_at k i)" for i
    by (rule keeps_mono [OF keep(1)]) (use isolated_user(3,4) [OF iso that] in auto)
  have "task_ok (kbytes (kmm k')) (task_at k' i)" if i: "i < Suc ?n" "is_user (task_at k' i)" for i
  proof (cases "i = ?n")
    case True
    show ?thesis unfolding True using cr hb by (intro new_task_ok) (simp_all add: created_def Let_def task_pages_ok_def)
  next
    case False
    then have l: "i < ?n" "is_user (task_at k i)" using i c(3) by auto
    have k: "keeps (dom (fst (own i))) (kmm k) (kmm k')" by (rule keeps_mono [OF o [OF l]]) (simp add: owned_def)
    have "task_ok (kbytes (kmm k)) (task_at k i)" using inv l by (simp add: proc_inv_def)
    then show ?thesis using task_ok_keeps [OF _ isolated_user(1) [OF iso l] k] c(3) [OF False] by simp
  qed
  moreover have "tabs k' = tabs k @ [tab]" using tabs_append [OF c(1)] c(3,4) by simp
  ultimately have "proc_inv K (own(?n := (rl, F))) k'" using inv iso' c fd by (simp add: proc_inv_def)
  then show ?thesis using o c(3) by (simp add: steps_to_def preserves_def same_space_def)
qed

lemma create_user_steps:
  assumes inv: "proc_inv K own k" and sch: "sched_inv im k" and sz: "unat code_size \<le> 0x1FC000"
    and r: "sched_create_user im name src code_size k = Some (r, k')"
  shows "sched_inv im k' \<and> (\<exists>own'. steps_to K own k K own' k')"
proof -
  have iso: "isolated K own k" using inv by (simp add: proc_inv_def)
  have len: "num_tasks k < SCHED_MAX_TASKS \<Longrightarrow> num_tasks k < length (tasks k)" using sch by (auto simp: sched_defs)
  show ?thesis
  proof (rule sched_create_user_cases [OF isolated_pmm(1) [OF iso] len sz r])
    assume "same_but_mem k k'" "keeps (used (kpmm (kmm k))) (kmm k) (kmm k')"
    then show ?thesis using same_but_mem_sched [OF sch] refused_steps [OF inv] by blast
  next
    fix tab s rl F
    assume new: "r = int (num_tasks k)" "num_tasks k < SCHED_MAX_TASKS" "fd_table_init (fds k) = Some (tab, s)"
      "created k tab s rl F k'" "keeps (used (kpmm (kmm k))) (kmm k) (kmm k')"
      "code_pages (task_at k' (num_tasks k)) = image_pages code_size"
      "heap_break (task_at k' (num_tasks k)) = USER_VA_CODE + ucast (image_pages code_size * 4096)"
    have "fd_inv (tabs k) (fds k)" using inv by (simp add: proc_inv_def)
    from fd_table_init_inv [OF this] have fd: "fd_inv (tabs k @ [tab]) s" using new(3) by force
    note ip = image_pages [OF sz]
    have "unat (ucast (image_pages code_size * 4096) :: u64) = unat (image_pages code_size) * 4096"
      by (simp add: unat_ucast ip(4) take_bit_nat_eq_self) (use ip(2) in simp)
    then have "unat (USER_VA_CODE + ucast (image_pages code_size * 4096)) < unat USER_VA_GUARD"
      using ip(2) by (simp add: unat_word_ariths USER_VA_CODE_def USER_VA_GUARD_def USER_VA_STACK_def USER_STACK_PAGES_def)
    then have hb: "heap_break (task_at k' (num_tasks k)) < USER_VA_GUARD" by (simp add: new(7) word_less_nat_alt)
    have keep: "keeps (used (kpmm (kmm k)) - K) (kmm k) (kmm k')" by (rule keeps_mono [OF new(5)]) auto
    have K: "K \<subseteq> used (kpmm (kmm k'))" using keeps_used [OF new(5)] isolated_pmm(2) [OF iso] by blast
    show ?thesis using created_sched [OF sch new(4,2)] created_steps [OF inv sch new(2,4) keep K fd hb] by blast
  qed
qed

lemma fork_steps:
  assumes inv: "proc_inv K own k" and sch: "sched_inv im k" and im: "image_ok K im" and rs: "length rs = 34"
    and r: "sched_fork im rs k = Some (r, k')"
  shows "sched_inv im k' \<and> (\<exists>own'. steps_to K own k K own' k')"
proof -
  have iso: "isolated K own k" using inv by (simp add: proc_inv_def)
  have c: "current_task k < num_tasks k" using sch by (auto simp: sched_defs)
  from iso sch im rs r show ?thesis
  proof (cases rule: sched_fork_cases)
    case refused
    then show ?thesis using same_but_mem_sched [OF sch] refused_steps [OF inv] by blast
  next
    case (new tab s rl F)
    have "fd_inv (tabs k) (fds k)" using inv by (simp add: proc_inv_def)
    from fd_table_dup_inv [OF this, of "current_task k"] have fd: "fd_inv (tabs k @ [tab]) s"
      using new(4) c by (force simp: tabs_nth)
    have "task_ok (kbytes (kmm k)) (cur_task k)" using inv c new(3) by (simp add: proc_inv_def)
    then have hb: "heap_break (task_at k' (num_tasks k)) < USER_VA_GUARD"
      using new(8) by (simp add: forked_def Let_def task_ok_def)
    show ?thesis using created_sched [OF sch new(5,2)] created_steps [OF inv sch new(2,5,6,7) fd hb] by blast
  qed
qed

lemma create_steps:
  assumes inv: "proc_inv K own k" and sch: "sched_inv im k" and r: "sched_create im name e a k = (r, k')"
  shows "steps_to K own k K own k'"
proof (cases "num_tasks k < SCHED_MAX_TASKS")
  case False
  then show ?thesis using r same_procs_steps [OF inv same_procs_refl] by (auto simp: sched_create_def)
next
  case True
  let ?n = "num_tasks k"
  have iso: "isolated K own k" using inv by (simp add: proc_inv_def)
  have l: "?n < length (tasks k)" using sch True by (auto simp: sched_defs)
  have k': "k' = snd (sched_create im name e a k)" using r by simp
  have c: "num_tasks k' = Suc ?n" "kmm k' = kmm k" "fds k' = fds k" "\<And>i. i \<noteq> ?n \<Longrightarrow> task_at k' i = task_at k i"
    "\<not> is_user (task_at k' ?n)" "fdt (task_at k' ?n) = fdt (task_at k ?n)"
    using True l by (simp_all add: k' sched_create_def Let_def upd_task_def)
  have same: "same_space (task_at k i) (task_at k' i)" if "i < ?n" for i using c(4) that by (simp add: same_space_def)
  have "isolated K (own(?n := own ?n)) k'"
    by (subst surjective_pairing [of "own ?n"], rule isolated_new [OF iso c(1) same])
      (use c isolated_pmm [OF iso] in \<open>auto intro!: keeps_refl\<close>)
  moreover have "fdt (task_at k ?n) = replicate MAX_FDS_PER_TASK None" using inv True by (simp add: proc_inv_def)
  then have "tabs k' = tabs k @ [replicate MAX_FDS_PER_TASK None]" using tabs_append [OF c(1)] c(4,6) by simp
  moreover have "task_ok (kbytes (kmm k')) (task_at k' i)" if "i < Suc ?n" "is_user (task_at k' i)" for i
    using inv that c by (cases "i = ?n") (auto simp: proc_inv_def)
  ultimately have "proc_inv K own k'"
    using inv c fd_inv_append_empty by (auto simp: proc_inv_def)
  then show ?thesis using same preserves_refl [OF iso c(2)] by (simp add: steps_to_def)
qed

section \<open>All steps\<close>

lemma kstep_steps:
  assumes st: "kstep MAX_PROGRAM im (K, k) (K', k')" and inv: "proc_inv K own k" and sch: "sched_inv im k" and im: "image_ok K im"
  shows "sched_inv im k' \<and> image_ok K' im \<and> (\<exists>own'. steps_to K own k K' own' k')"
proof -
  have t: "table_ok im k" "waits_ok k" using sch by (auto simp: sched_inv_def sched_wf_def)
  have l: "current_task k < length (tasks k)" "current_task k < num_tasks k" using t by (auto simp: table_ok_def)
  have mem: "sched_inv im (set_bytes f k)" for f
    by (rule same_but_mem_sched [OF sch]) (simp add: same_but_mem_def set_bytes_def)
  have upd: "sched_inv im (upd_task (current_task k) f k)"
    if "\<And>t. tid (f t) = tid t \<and> ttbr0 (f t) = ttbr0 t \<and> tstate (f t) = tstate t \<and> wait_for_tid (f t) = wait_for_tid t" for f
  proof -
    have "table_ok im (upd_task (current_task k) f k)" using t l that by (intro upd_table_ok) auto
    moreover have "waits_ok (upd_task (current_task k) f k)"
      using t l that by (intro upd_waits) (auto simp: table_ok_def)
    ultimately show ?thesis using sch l that by (simp add: sched_inv_def sched_wf_def task_at_upd)
  qed
  from st show ?thesis
  proof cases
    case create
    then show ?thesis using create_steps [OF inv sch] sched_create_inv [OF sch] im by blast
  next
    case create_user
    then show ?thesis using create_user_steps [OF inv sch] im by blast
  next
    case fork
    then show ?thesis using fork_steps [OF inv sch im] im by blast
  next
    case yield
    have "sched_inv im (sched_yield im k)"
      unfolding sched_yield_def using sch pick_next_running [OF t(1)] by (intro switch_to_inv) (auto simp: sched_inv_def)
    then show ?thesis using yield same_procs_steps [OF inv same_procs_yield [OF t(1)]] im by blast
  next
    case tick
    then show ?thesis using sched_tick_inv [OF sch] same_procs_steps [OF inv same_procs_tick [OF t(1)]] im by blast
  next
    case exit
    then show ?thesis using sched_exit_inv [OF sch] exit_steps [OF inv sch] im by blast
  next
    case wait
    then show ?thesis using sched_wait_inv [OF sch] same_procs_steps [OF inv same_procs_wait [OF t(1)]] im by blast
  next
    case (send t' sg r)
    note w = signal_send_wf [OF t send(2)]
    have "sched_inv im k'"
      using w sch by (auto simp: sched_inv_def sched_wf_def)
    then show ?thesis using send same_procs_steps [OF inv same_procs_send [OF t(1)]] im by blast
  next
    case (signal_state ss)
    have "same_procs k k'" unfolding signal_state by (rule same_procs_upd [OF l(1)]) (simp add: same_space_def)
    then show ?thesis using signal_state upd same_procs_steps [OF inv] im by auto
  next
    case (registers c)
    have "same_procs k k'" unfolding registers by (simp add: same_procs_def same_space_def)
    moreover have "sched_inv im k'" using sch by (simp add: registers sched_defs)
    ultimately show ?thesis using registers(1) same_procs_steps [OF inv] im by auto
  next
    case (descriptors tab s)
    have "sched_inv im (upd_task (current_task k) (\<lambda>x. x\<lparr>fdt := tab\<rparr>) k)" by (rule upd) simp
    then have "sched_inv im k'" by (simp add: descriptors(2) sched_defs)
    then show ?thesis using descriptors descriptor_steps [OF inv t(1)] im by blast
  next
    case (sbrk inc r)
    have "sched_inv im k'"
    proof -
      have iso: "isolated K own k" using inv by (simp add: proc_inv_def)
      have hb: "is_user (cur_task k) \<longrightarrow> heap_break (cur_task k) < USER_VA_GUARD"
        using inv l(2) by (simp add: proc_inv_def task_ok_def)
      let ?f = "\<lambda>x. x\<lparr>heap_break := heap_break (cur_task k) + inc\<rparr>"
      have g: "sched_inv im (upd_task (current_task k) ?f k)" by (rule upd) simp
      have e: "upd_task (current_task k) ?f (k\<lparr>kmm := m\<rparr>) = (upd_task (current_task k) ?f k)\<lparr>kmm := m\<rparr>" for m
        by (simp add: upd_task_def)
      have "sched_inv im (q\<lparr>kmm := m\<rparr>) = sched_inv im q" for q m by (simp add: sched_defs)
      note m = this
      from iso l(2) hb sbrk(2) show ?thesis by (cases rule: sys_sbrk_cases) (use sch g e m in simp_all)
    qed
    then show ?thesis using sbrk sbrk_steps [OF inv t(1)] im by blast
  next
    case (user_write va a b)
    then show ?thesis using user_write_steps [OF inv t(1)] mem im by blast
  next
    case (kernel_write p a b)
    then show ?thesis using kernel_write_steps [OF inv] mem im by blast
  next
    case (kernel_alloc n a)
    obtain pm where pm: "k' = k\<lparr>kmm := (kmm k)\<lparr>kpmm := pm\<rparr>\<rparr>" using alloc_run_ofD [OF kernel_alloc(3)] .
    have "sched_inv im k'" by (rule same_but_mem_sched [OF sch]) (simp add: pm same_but_mem_def)
    moreover have "K' = K \<union> (used (kpmm (kmm k')) - used (kpmm (kmm k)))" using kernel_alloc(1) by (auto simp: used_def)
    moreover have "image_ok K' im" using im kernel_alloc(1) unfolding image_ok_def by blast
    ultimately show ?thesis using kernel_alloc_steps [OF inv kernel_alloc(2,3)] by blast
  qed
qed

end
