(* ===== verification/KernelSpec.thy ===== *)
theory KernelSpec
  imports Kernel
begin

text \<open>
  Properties of the whole kernel: its invariant in every reachable state, isolation between
  processes, and what \<open>sbrk\<close> and \<open>fork\<close> do to a process's memory.
\<close>

section \<open>A kernel with two processes\<close>

text \<open>While memory is plentiful, creating a process succeeds.\<close>

lemma window_exists:
  assumes "(card (used s) + 1) * n \<le> TOTAL_PAGES" "0 < n"
  shows "\<exists>p. free_window p n s"
proof (rule ccontr)
  assume none: "\<nexists>p. free_window p n s"
  have "\<exists>q \<in> used s. q div n = i" if "i < card (used s) + 1" for i
  proof -
    have "(i + 1) * n \<le> (card (used s) + 1) * n" using that by (intro mult_le_mono1) simp
    then have "(i + 1) * n \<le> TOTAL_PAGES" using assms(1) by linarith
    then have "i * n + n \<le> TOTAL_PAGES" by simp
    then obtain q where "q \<in> {i * n..<i * n + n}" "bit_test q s" using none unfolding free_window_def by blast
    then show ?thesis using \<open>i * n + n \<le> TOTAL_PAGES\<close> assms(2)
      by (intro bexI [of _ q]) (auto simp: div_nat_eqI mult.commute)
  qed
  then have "{..<card (used s) + 1} \<subseteq> (\<lambda>q. q div n) ` used s" by (metis imageI lessThan_iff subsetI)
  then have "card (used s) + 1 \<le> card ((\<lambda>q. q div n) ` used s)"
    using card_mono [of "(\<lambda>q. q div n) ` used s" "{..<card (used s) + 1}"] by simp
  then show False using card_image_le [of "used s" "\<lambda>q. q div n"] by simp
qed

lemma alloc_run_ok:
  assumes "pmm_inv (kpmm (kmm k))" "0 < n" "(card (used (kpmm (kmm k))) + 1) * unat n \<le> TOTAL_PAGES"
  obtains a k' where "alloc_run_of n k = (a, k')" "a \<noteq> 0" "same_but_mem k k'" "pmm_inv (kpmm (kmm k'))"
    "card (used (kpmm (kmm k'))) = card (used (kpmm (kmm k))) + unat n" "kbytes (kmm k') = kbytes (kmm k)"
proof -
  obtain a pm where p: "pmm_alloc_pages n (kpmm (kmm k)) = (a, pm)" by fastforce
  have n: "0 < unat n" using assms(2) by (simp add: word_less_nat_alt)
  obtain w where w: "free_window w (unat n) (kpmm (kmm k))" "a = page_to_addr (of_nat w)" "pmm_inv pm"
    "used pm = used (kpmm (kmm k)) \<union> {w..<w + unat n}"
    using pmm_alloc_pages_cases [OF assms(1,2) p] window_exists [OF assms(3) n] by blast
  have "card (used pm) = card (used (kpmm (kmm k))) + unat n"
    unfolding w(4) using free_window_used [OF w(1)] by (subst card_Un_disjoint) auto
  moreover have "a \<noteq> 0" using w(1,2) n page_addr_in_RAM(3) [of w] by (simp add: free_window_def)
  ultimately show ?thesis
    using that [of a "k\<lparr>kmm := (kmm k)\<lparr>kpmm := pm\<rparr>\<rparr>"] p w(3) by (simp add: alloc_run_of_def same_but_mem_def)
qed

lemma set_bytes_kpmm [simp]: "kpmm (kmm (set_bytes f k)) = kpmm (kmm k)"
  by (simp add: set_bytes_def)

lemma new_space_ok:
  fixes f g :: "u64 \<Rightarrow> memory \<Rightarrow> memory"
  assumes inv: "pmm_inv (kpmm (kmm k))" and cp: "0 < cp" "unat cp \<le> 512"
    and mem: "(card (used (kpmm (kmm k))) + unat cp + 9) * (unat cp + 5) \<le> TOTAL_PAGES"
  obtains ca k1 sa k3 pgd k5 where "alloc_run_of cp k = (ca, k1)" "ca \<noteq> 0"
    "alloc_run_of (USER_STACK_PAGES + 1) (set_bytes (f ca) k1) = (sa, k3)" "sa \<noteq> 0"
    "make_pgd ca cp (sa + 4096) (set_bytes (g sa) k3) = (pgd, k5)" "pgd \<noteq> 0" "num_tasks k5 = num_tasks k" "fds k5 = fds k"
    "card (used (kpmm (kmm k5))) = card (used (kpmm (kmm k))) + unat cp + 9"
proof -
  let ?c = "card (used (kpmm (kmm k)))"
  have five: "unat (USER_STACK_PAGES + 1) = 5" "0 < USER_STACK_PAGES + 1" "unat USER_STACK_PAGES = 4" "0 < USER_STACK_PAGES"
    by (simp_all add: USER_STACK_PAGES_def)
  have "(?c + 1) * unat cp \<le> (?c + unat cp + 9) * (unat cp + 5)" by (rule mult_le_mono) auto
  then have m1: "(?c + 1) * unat cp \<le> TOTAL_PAGES" using mem by linarith
  have "(?c + unat cp + 1) * 5 \<le> (?c + unat cp + 9) * (unat cp + 5)" by (rule mult_le_mono) auto
  then have m2: "(?c + unat cp + 1) * 5 \<le> TOTAL_PAGES" using mem by linarith
  have "(?c + unat cp + 9) * 1 \<le> (?c + unat cp + 9) * (unat cp + 5)" by (rule mult_le_mono) auto
  then have m3: "?c + unat cp + 9 \<le> TOTAL_PAGES" using mem by (simp only: mult_1_right)
  obtain ca k1 where 1: "alloc_run_of cp k = (ca, k1)" "ca \<noteq> 0" "same_but_mem k k1" "pmm_inv (kpmm (kmm k1))"
    "card (used (kpmm (kmm k1))) = ?c + unat cp" using alloc_run_ok [OF inv cp(1) m1] by metis
  let ?k2 = "set_bytes (f ca) k1"
  obtain sa k3 where 3: "alloc_run_of (USER_STACK_PAGES + 1) ?k2 = (sa, k3)" "sa \<noteq> 0" "same_but_mem ?k2 k3"
    "pmm_inv (kpmm (kmm k3))" "card (used (kpmm (kmm k3))) = ?c + unat cp + 5"
    using alloc_run_ok [of ?k2 "USER_STACK_PAGES + 1"] 1(4,5) m2 five unfolding set_bytes_kpmm by metis
  let ?k4 = "set_bytes (g sa) k3"
  obtain pgd m5 where 5: "mmu_create_user_pgd ca cp (sa + 4096) USER_STACK_PAGES (kmm ?k4) = (pgd, m5)" by fastforce
  have i4: "pmm_inv (kpmm (kmm ?k4))" using 3(4) by simp
  have room: "pgd \<noteq> 0 \<or> card (used (kpmm (kmm ?k4))) + 4 \<le> TOTAL_PAGES" using 3(5) m3 by simp
  have sp: "unat USER_STACK_PAGES \<le> 512" using five by simp
  obtain p1 rl where r: "pgd = frame p1" "pt_wf rl p1 m5" "dom rl \<inter> used (kpmm (kmm k3)) = {}"
    "used (kpmm m5) = used (kpmm (kmm k3)) \<union> dom rl" "card (dom rl) = 4"
    using create_user_pgd [OF i4 cp(2) five(4) sp 5 room] unfolding set_bytes_kpmm by metis
  have "p1 < TOTAL_PAGES" using r(2) pt_wf_page [of rl p1 m5 p1] by (auto simp: pt_wf_def)
  then have nz: "pgd \<noteq> 0" using r(1) page_addr_in_RAM(3) by simp
  have "finite (dom rl)" using r(5) card.infinite by fastforce
  then have card5: "card (used (kpmm m5)) = ?c + unat cp + 9"
    unfolding r(4) using r(3,5) 3(5) by (subst card_Un_disjoint) auto
  have d: "num_tasks k3 = num_tasks k" "fds k3 = fds k"
    using same_but_memD [OF 1(3)] same_but_memD [OF 3(3)] by (simp_all add: set_bytes_def)
  have mk: "make_pgd ca cp (sa + 4096) ?k4 = (pgd, ?k4\<lparr>kmm := m5\<rparr>)" by (simp add: make_pgd_def 5)
  show ?thesis by (rule that [OF 1(1,2) 3(1,2) mk nz]) (simp_all add: d card5 set_bytes_def)
qed

lemma sched_create_user_ok:
  assumes inv: "pmm_inv (kpmm (kmm k))" and sz: "unat code_size \<le> 0x1FC000" and n: "num_tasks k < SCHED_MAX_TASKS"
    and fd: "fd_inv ts (fds k)"
    and mem: "(card (used (kpmm (kmm k))) + unat (image_pages code_size) + 9) * (unat (image_pages code_size) + 5) \<le> TOTAL_PAGES"
  shows "\<exists>k'. sched_create_user im name src code_size k = Some (int (num_tasks k), k')
    \<and> card (used (kpmm (kmm k'))) = card (used (kpmm (kmm k))) + unat (image_pages code_size) + 9"
proof -
  let ?cp = "image_pages code_size"
  note ip = image_pages [OF sz]
  obtain tab s where fi: "fd_table_init (fds k) = Some (tab, s)" using fd_table_init_inv [OF fd] by metis
  have id: "set_bytes (\<lambda>b. b) q = q" for q by (simp add: set_bytes_def)
  obtain ca k1 sa k3 pgd k5 where r: "alloc_run_of ?cp k = (ca, k1)" "ca \<noteq> 0"
    "alloc_run_of (USER_STACK_PAGES + 1) (set_bytes (\<lambda>b. fill_bytes (unat code_size) (unat (?cp * 4096)) (phys_to_virt ca) (\<lambda>_. 0)
      (copy_bytes (unat code_size) (phys_to_virt ca) src b)) k1) = (sa, k3)" "sa \<noteq> 0"
    "make_pgd ca ?cp (sa + 4096) k3 = (pgd, k5)" "pgd \<noteq> 0" "num_tasks k5 = num_tasks k" "fds k5 = fds k"
    "card (used (kpmm (kmm k5))) = card (used (kpmm (kmm k))) + unat ?cp + 9"
    using new_space_ok [OF inv ip(1,2) mem, of "\<lambda>ca b. fill_bytes (unat code_size) (unat (?cp * 4096)) (phys_to_virt ca) (\<lambda>_. 0)
      (copy_bytes (unat code_size) (phys_to_virt ca) src b)" "\<lambda>_ b. b"] unfolding id by metis
  then show ?thesis
    using n by (simp add: sched_create_user_def Let_def set_bytes_set_bytes fi)
qed

lemma sched_fork_ok:
  assumes inv: "pmm_inv (kpmm (kmm k))" and n: "num_tasks k < SCHED_MAX_TASKS" and u: "is_user (cur_task k)"
    and cp: "0 < code_pages (cur_task k)" "unat (code_pages (cur_task k)) \<le> 512"
    and fd: "fd_table_dup (fdt (cur_task k)) (fds k) = Some (tab, s)"
    and mem: "(card (used (kpmm (kmm k))) + unat (code_pages (cur_task k)) + 9) * (unat (code_pages (cur_task k)) + 5) \<le> TOTAL_PAGES"
  shows "\<exists>k'. sched_fork im rs k = Some (int (num_tasks k), k')"
proof -
  let ?p = "cur_task k" and ?cp = "code_pages (cur_task k)"
  obtain ca k1 sa k3 pgd k5 where r: "alloc_run_of ?cp k = (ca, k1)" "ca \<noteq> 0"
    "alloc_run_of (USER_STACK_PAGES + 1) (set_bytes (copy_bytes (unat (?cp * 4096)) (phys_to_virt ca) (phys_to_virt (code_pa ?p))) k1) = (sa, k3)"
    "sa \<noteq> 0" "make_pgd ca ?cp (sa + 4096) (set_bytes (copy_bytes (unat (USER_STACK_PAGES * 4096)) (phys_to_virt (sa + 4096)) (phys_to_virt (stack_pa ?p))) k3) = (pgd, k5)"
    "pgd \<noteq> 0" "num_tasks k5 = num_tasks k" "fds k5 = fds k"
    using new_space_ok [OF inv cp mem, of "\<lambda>ca. copy_bytes (unat (?cp * 4096)) (phys_to_virt ca) (phys_to_virt (code_pa ?p))"
      "\<lambda>sa. copy_bytes (unat (USER_STACK_PAGES * 4096)) (phys_to_virt (sa + 4096)) (phys_to_virt (stack_pa ?p))"] by metis
  then show ?thesis using n u by (simp add: sched_fork_def Let_def fd)
qed

text \<open>The demonstration kernel holds the first 272 frames; its task stacks are the last 16 of them.\<close>

definition demo_mm :: kmem where
  "demo_mm = \<lparr>kbytes = \<lambda>_. 0, kpmm = mark_from 0 272 pmm_empty\<rparr>"

definition demo_K :: "nat set" where
  "demo_K = {..<272}"

lemma demo_mm: "pmm_inv (kpmm demo_mm)" "used (kpmm demo_mm) = demo_K" "card (used (kpmm demo_mm)) = 272"
proof -
  show i: "pmm_inv (kpmm demo_mm)" "used (kpmm demo_mm) = demo_K"
    using mark_from_spec [OF pmm_inv_empty, of 0 272] used_pmm_empty
    by (auto simp: demo_mm_def demo_K_def TOTAL_PAGES_def)
  show "card (used (kpmm demo_mm)) = 272" unfolding i(2) demo_K_def by simp
qed

lemma demo_image: "image_ok demo_K demo_im"
  unfolding image_ok_def
proof (intro conjI allI impI)
  show "16 dvd unat (task_stacks demo_im)" by (simp add: demo_im_def)
  fix x :: u64 assume x: "unat (x - task_stacks demo_im) < SCHED_MAX_TASKS * SCHED_STACK_SIZE"
  have e: "task_stacks demo_im = phys_to_virt (frame 256)"
    by (simp add: demo_im_def phys_to_virt_def KERN_VA_OFFSET_def page_to_addr_def RAM_BASE_def)
  have "unat (x - phys_to_virt (frame 256)) < 16 * 4096"
    using x unfolding e by (simp add: SCHED_MAX_TASKS_def SCHED_STACK_SIZE_def)
  then obtain p where "p \<in> {256..<256 + 16}" "in_page p x"
    using in_page_run [of 256 16 x] by (auto simp: TOTAL_PAGES_def)
  then show "\<exists>p \<in> demo_K. in_page p x" by (auto simp: demo_K_def)
qed

abbreviation demo_boot :: kernel where
  "demo_boot \<equiv> sched_init (boot_kernel demo_im demo_mm)"

section \<open>Reachable states\<close>

lemma kernel_inv_step:
  assumes "kernel_inv im c" "kstep MAX_PROGRAM im c c'"
  shows "kernel_inv im c'"
proof -
  obtain K k K' k' where c: "c = (K, k)" "c' = (K', k')" by fastforce
  obtain own where inv: "image_ok K im" "sched_inv im k" "proc_inv K own k" using assms(1) by (auto simp: kernel_inv_def c)
  show ?thesis
    using kstep_steps [OF assms(2) [unfolded c] inv(3,2,1)] by (auto simp: kernel_inv_def c steps_to_def)
qed

lemma kernel_inv_steps: "(kstep MAX_PROGRAM im)\<^sup>*\<^sup>* c c' \<Longrightarrow> kernel_inv im c \<Longrightarrow> kernel_inv im c'"
  by (induction rule: rtranclp_induct) (auto intro: kernel_inv_step)

lemma boot_kernel_inv:
  assumes "pmm_inv (kpmm m)" "K \<subseteq> used (kpmm m)" "image_ok K im"
  shows "kernel_inv im (K, sched_init (boot_kernel im m))"
proof -
  let ?k = "sched_init (boot_kernel im m)"
  have b: "length (tasks (boot_kernel im m)) = SCHED_MAX_TASKS" "ttbr0 (task_at (boot_kernel im m) 0) = 0"
    "ttbr0_el1 (boot_kernel im m) = virt_to_phys (boot_l1 im)"
    by (simp_all add: boot_kernel_def zero_task_def SCHED_MAX_TASKS_def)
  note s = sched_init_inv [OF b]
  have t: "is_user (task_at ?k i) = False \<and> fdt (task_at ?k i) = replicate MAX_FDS_PER_TASK None" if "i < SCHED_MAX_TASKS" for i
    using s(6) [OF that] that by (simp add: boot_kernel_def zero_task_def)
  have z: "(0 :: nat) < SCHED_MAX_TASKS" by (simp add: SCHED_MAX_TASKS_def)
  have m: "kmm ?k = m" "fds ?k = fd_boot" using s(4,5) by (simp_all add: boot_kernel_def)
  have "tabs ?k = [] @ [replicate MAX_FDS_PER_TASK None]" using s(2) t [OF z] by (simp add: tabs_def)
  then have "fd_inv (tabs ?k) (fds ?k)" using fd_inv_append_empty [OF fd_inv_boot] m by simp
  moreover have "isolated K own ?k" for own using assms s(2) t [OF z] m by (simp add: isolated_def)
  ultimately have "proc_inv K (\<lambda>_. (Map.empty, {})) ?k" using s(2) t z by (simp add: proc_inv_def)
  then show ?thesis using s(1) assms(3) by (auto simp: kernel_inv_def)
qed

text \<open>Booted, with two processes, the first of which runs.\<close>

definition demo_fdt :: fd_table where
  "demo_fdt = (replicate MAX_FDS_PER_TASK None)[0 := Some Console, 1 := Some Console, 2 := Some Console]"

lemma fd_table_init_same: "fd_table_init s = Some (t, s') \<Longrightarrow> t = demo_fdt \<and> dom (files s') = dom (files s) \<and> pipes s' = pipes s"
  by (auto simp: demo_fdt_def fd_table_init_def add_ref_def put_file_def split: if_splits)

lemma demo_create:
  assumes inv: "kernel_inv demo_im (demo_K, k)" and n: "num_tasks k < SCHED_MAX_TASKS"
    and c: "card (used (kpmm (kmm k))) \<le> 300"
  obtains k' where "kstep MAX_PROGRAM demo_im (demo_K, k) (demo_K, k')" "num_tasks k' = Suc (num_tasks k)" "current_task k' = current_task k"
    "is_user (task_at k' (num_tasks k))" "tstate (task_at k' (num_tasks k)) = TASK_READY" "unat (code_pages (task_at k' (num_tasks k))) = 5"
    "\<And>i. i \<noteq> num_tasks k \<Longrightarrow> task_at k' i = task_at k i" "card (used (kpmm (kmm k'))) = card (used (kpmm (kmm k))) + 14"
    "fdt (task_at k' (num_tasks k)) = demo_fdt" "dom (files (fds k')) = dom (files (fds k))" "pipes (fds k') = pipes (fds k)"
proof -
  obtain own where o: "sched_inv demo_im k" "proc_inv demo_K own k" using inv by (auto simp: kernel_inv_def)
  have iso: "isolated demo_K own k" "fd_inv (tabs k) (fds k)" using o(2) by (simp_all add: proc_inv_def)
  have five: "unat (image_pages 0) = 5" by (simp add: image_pages_def)
  obtain k' where k': "sched_create_user demo_im [] 0 0 k = Some (int (num_tasks k), k')"
    "card (used (kpmm (kmm k'))) = card (used (kpmm (kmm k))) + 14"
    using sched_create_user_ok [OF isolated_pmm(1) [OF iso(1)] _ n iso(2), of 0 demo_im "[]" 0] c five by (auto simp: TOTAL_PAGES_def)
  have z: "unat (0 :: u32) \<le> 0x1FC000" by simp
  have len: "num_tasks k < SCHED_MAX_TASKS \<Longrightarrow> num_tasks k < length (tasks k)" using o(1) by (auto simp: sched_defs)
  have st: "kstep MAX_PROGRAM demo_im (demo_K, k) (demo_K, k')" using kstep.create_user [OF z k'(1)] .
  show ?thesis
    by (rule sched_create_user_cases [OF isolated_pmm(1) [OF iso(1)] len z k'(1)])
      (use that [OF st] k'(2) five in \<open>auto simp: created_def Let_def dest!: fd_table_init_same\<close>)
qed

lemma demo_two:
  obtains k where "(kstep MAX_PROGRAM demo_im)\<^sup>*\<^sup>* (demo_K, demo_boot) (demo_K, k)" "kernel_inv demo_im (demo_K, k)"
    "current_task k = 1" "num_tasks k = 3" "fdt (task_at k 1) = demo_fdt" "dom (files (fds k)) = {Console}" "pipes (fds k) = Map.empty"
    "is_user (task_at k 1)" "is_user (task_at k 2)" "tstate (task_at k 2) = TASK_READY" "unat (code_pages (task_at k 1)) = 5" "card (used (kpmm (kmm k))) = 300"
proof -
  have b: "kernel_inv demo_im (demo_K, demo_boot)"
    using boot_kernel_inv [OF demo_mm(1) _ demo_image] demo_mm(2) by simp
  have n: "num_tasks demo_boot = 1" "current_task demo_boot = 0"  "kmm demo_boot = demo_mm" "fds demo_boot = fd_boot"
    by (subst sched_init_inv [of _ demo_im]; simp add: boot_kernel_def zero_task_def SCHED_MAX_TASKS_def)+
  have lim0: "num_tasks demo_boot < SCHED_MAX_TASKS" "card (used (kpmm (kmm demo_boot))) \<le> 300"
    using demo_mm(3) by (simp_all add: n SCHED_MAX_TASKS_def)
  obtain k1 where k1: "kstep MAX_PROGRAM demo_im (demo_K, demo_boot) (demo_K, k1)" "num_tasks k1 = 2" "current_task k1 = 0"
    "is_user (task_at k1 1)" "tstate (task_at k1 1) = TASK_READY" "card (used (kpmm (kmm k1))) = 286"
    "unat (code_pages (task_at k1 1)) = 5" "fdt (task_at k1 1) = demo_fdt" "dom (files (fds k1)) = {Console}" "pipes (fds k1) = Map.empty"
    by (rule demo_create [OF b lim0]) (rule that, assumption, simp_all add: n demo_mm(3) fd_boot_def)
  have i1: "kernel_inv demo_im (demo_K, k1)" by (rule kernel_inv_step [OF b k1(1)])
  have lim1: "num_tasks k1 < SCHED_MAX_TASKS" "card (used (kpmm (kmm k1))) \<le> 300" by (simp_all add: k1 SCHED_MAX_TASKS_def)
  obtain k2 where k2: "kstep MAX_PROGRAM demo_im (demo_K, k1) (demo_K, k2)" "num_tasks k2 = 3" "current_task k2 = 0"
    "is_user (task_at k2 2)" "tstate (task_at k2 2) = TASK_READY" "task_at k2 1 = task_at k1 1" "card (used (kpmm (kmm k2))) = 300"
    "dom (files (fds k2)) = {Console}" "pipes (fds k2) = Map.empty"
    by (rule demo_create [OF i1 lim1]) (rule that, assumption, simp_all add: k1 numeral_3_eq_3)
  have i2: "kernel_inv demo_im (demo_K, k2)" by (rule kernel_inv_step [OF i1 k2(1)])
  let ?k = "upd_task (current_task k2) (\<lambda>t. t\<lparr>ticks := ticks t + 1\<rparr>) k2"
  have len: "length (tasks k2) = 8" using i2 by (simp add: kernel_inv_def sched_defs SCHED_MAX_TASKS_def)
  then have at: "task_at ?k i = (if i = 0 then (task_at k2 0)\<lparr>ticks := ticks (task_at k2 0) + 1\<rparr> else task_at k2 i)" for i
    using k2(3) by (simp add: task_at_upd)
  have r: "tstate (task_at ?k 1) = TASK_READY" using k1(5) k2(6) by (simp add: at)
  have "pick_next ?k = 1"
  proof -
    have "0 < num_tasks ?k" using k2(2) by simp
    then show ?thesis
    proof (cases rule: pick_next_cases)
      case (ready d)
      then have "d = 1" using ready(5) [of 1] r k2(2,3) by (cases "d = 1") auto
      then show ?thesis using ready(3) k2(2,3) by simp
    next
      case stay
      then show ?thesis using r k2(2) by auto
    next
      case idle
      then show ?thesis using r k2(2) by auto
    qed
  qed
  then have t: "sched_tick demo_im k2 = run_task demo_im 1 ?k" using k2(3) by (simp add: sched_tick_def Let_def)
  have l: "1 < length (tasks ?k)" "current_task ?k < length (tasks ?k)" "1 \<noteq> current_task ?k" using len k2(3) by simp_all
  note s = run_task_simps [OF l, of demo_im]
  show ?thesis
  proof (rule that)
    show "(kstep MAX_PROGRAM demo_im)\<^sup>*\<^sup>* (demo_K, demo_boot) (demo_K, sched_tick demo_im k2)"
      using k1(1) k2(1) kstep.tick [of MAX_PROGRAM demo_im demo_K k2] by (metis converse_rtranclp_into_rtranclp rtranclp.rtrancl_refl)
    show "current_task (sched_tick demo_im k2) = 1" "num_tasks (sched_tick demo_im k2) = 3"
      "is_user (task_at (sched_tick demo_im k2) 1)" "is_user (task_at (sched_tick demo_im k2) 2)"
      "tstate (task_at (sched_tick demo_im k2) 2) = TASK_READY"
      "unat (code_pages (task_at (sched_tick demo_im k2) 1)) = 5" "card (used (kpmm (kmm (sched_tick demo_im k2)))) = 300"
      "fdt (task_at (sched_tick demo_im k2) 1) = demo_fdt" "dom (files (fds (sched_tick demo_im k2))) = {Console}" "pipes (fds (sched_tick demo_im k2)) = Map.empty"
      unfolding t s using k1 k2 at by simp_all
    show "kernel_inv demo_im (demo_K, sched_tick demo_im k2)" by (rule kernel_inv_step [OF i2 kstep.tick])
  qed
qed

text \<open>
  C3: as long as no program of more than \<open>MAX_PROGRAM\<close> bytes is loaded, every state that a sequence of scheduler calls,
  process creations, forks, exits, heap growth, descriptor calls and memory writes can reach from boot satisfies the
  invariant: the task table is consistent, no task waits for a finished one, the address spaces are well-formed and
  disjoint, and the descriptor layer's reference counts are exact. The code does not check the size of a program.
\<close>

theorem kernel_reachable_inv:
  assumes "pmm_inv (kpmm m)" "K \<subseteq> used (kpmm m)" "image_ok K im"
    and "(kstep lim im)\<^sup>*\<^sup>* (K, sched_init (boot_kernel im m)) c" "lim \<le> MAX_PROGRAM"
  shows "kernel_inv im c"
proof -
  have "(kstep MAX_PROGRAM im)\<^sup>*\<^sup>* (K, sched_init (boot_kernel im m)) c"
    using assms(4) by (rule rtranclp_mono [THEN predicate2D, rotated]) (use kstep_mono assms(5) in blast)
  from kernel_inv_steps [OF this boot_kernel_inv [OF assms(1-3)]] show ?thesis .
qed

theorem kernel_reachable_inv_witness:
  "\<exists>k. (kstep MAX_PROGRAM demo_im)\<^sup>*\<^sup>* (demo_K, demo_boot) (demo_K, k) \<and> is_user (task_at k 1) \<and> is_user (task_at k 2)
    \<and> kernel_inv demo_im (demo_K, k)"
proof -
  obtain k where k: "(kstep MAX_PROGRAM demo_im)\<^sup>*\<^sup>* (demo_K, demo_boot) (demo_K, k)" "is_user (task_at k 1)" "is_user (task_at k 2)"
    using demo_two by metis
  have "kernel_inv demo_im (demo_K, k)"
    using kernel_reachable_inv [OF demo_mm(1) _ demo_image k(1)] demo_mm(2) by simp
  then show ?thesis using k by blast
qed

text \<open>The size does matter: a process made of a program of about 4 MB starts with a break above the guard page.\<close>

lemma large_program_breaks_inv:
  assumes r: "sched_create_user im name src sz k = Some (int (num_tasks k), k')" and l: "length (tasks k) = SCHED_MAX_TASKS"
    and sz: "0x3F6000 < unat sz" "unat sz < 2 ^ 31"
  shows "\<not> kernel_inv im (K, k')"
proof
  assume inv: "kernel_inv im (K, k')"
  let ?n = "num_tasks k"
  have t: "is_user (task_at k' ?n)" "heap_break (task_at k' ?n) = USER_VA_CODE + ucast (image_pages sz * 4096)" "num_tasks k' = Suc ?n"
    using r l by (auto simp: sched_create_user_def Let_def alloc_run_of_def set_bytes_def make_pgd_def free_run_def
      new_user_task_def task_at_upd upd_task_def split: if_splits prod.splits option.splits)
  obtain own where "proc_inv K own k'" using inv by (auto simp: kernel_inv_def)
  then have hb: "heap_break (task_at k' ?n) < USER_VA_GUARD" using t(1,3) by (simp add: proc_inv_def task_ok_def)
  have "unat ((sz + 4095) div 4096) = (unat sz + 4095) div 4096" using sz(2) by (simp add: unat_div unat_word_ariths)
  then have p: "unat (image_pages sz) = (unat sz + 4095) div 4096 + 4"
    using sz by (auto simp: image_pages_def Let_def unat_word_ariths word_unat_eq_iff)
  then have "unat (image_pages sz * 4096) = unat (image_pages sz) * 4096" using sz(2) by (simp add: unat_word_ariths)
  then have "unat (USER_VA_CODE + ucast (image_pages sz * 4096) :: u64) = 0x400000 + ((unat sz + 4095) div 4096 + 4) * 4096"
    using sz(2) p by (simp add: unat_word_ariths unat_ucast USER_VA_CODE_def)
  moreover have "1015 \<le> (unat sz + 4095) div 4096" using sz(1) by simp
  ultimately have "0x7FB000 \<le> unat (heap_break (task_at k' ?n))" using t(2) by simp
  then show False using hb by (simp add: word_less_nat_alt USER_VA_GUARD_def USER_VA_STACK_def USER_STACK_PAGES_def)
qed

section \<open>Isolation\<close>

text \<open>The byte that process \<open>i\<close> sees at an address: \<open>None\<close> is a fault.\<close>

definition page_addr :: "u64 \<Rightarrow> u64 \<Rightarrow> u64" where
  "page_addr d va = phys_to_virt (desc_addr d) + (va AND 0xFFF)"

definition process_byte :: "kernel \<Rightarrow> nat \<Rightarrow> u64 \<Rightarrow> u8 option" where
  "process_byte k i va = map_option (\<lambda>d. kbytes (kmm k) (page_addr d va)) (walk (kbytes (kmm k)) (ttbr0 (task_at k i)) va)"

lemma in_page_addr: "p < TOTAL_PAGES \<Longrightarrow> in_page p (page_addr (page_desc (frame p)) va)"
proof -
  assume p: "p < TOTAL_PAGES"
  have "va AND 0xFFF = take_bit 12 va" by (simp add: take_bit_eq_mask mask_eq_exp_minus_1)
  then have "va AND 0xFFF < 4096" by (simp add: word_less_nat_alt unat_take_bit)
  then show ?thesis by (simp add: in_page_def page_addr_def desc_addr_frame [OF p])
qed

lemma process_byte_keeps:
  assumes sp: "space_ok rl F (ttbr0 (task_at k i)) (kmm k)" and keep: "keeps U (kmm k) (kmm k')"
    and sub: "dom rl \<union> F \<subseteq> U" and t: "ttbr0 (task_at k' i) = ttbr0 (task_at k i)"
  shows "process_byte k' i va = process_byte k i va"
proof -
  have w: "walk (kbytes (kmm k')) (ttbr0 (task_at k i)) va = walk (kbytes (kmm k)) (ttbr0 (task_at k i)) va"
    by (rule space_ok_walk [OF sp keeps_mono [OF keep]]) (use sub in auto)
  have "kbytes (kmm k') (page_addr d va) = kbytes (kmm k) (page_addr d va)"
    if d: "walk (kbytes (kmm k)) (ttbr0 (task_at k i)) va = Some d" for d
  proof -
    obtain p where p: "p \<in> F" "d = page_desc (frame p)" using space_ok_frame [OF sp d] by blast
    have "p < TOTAL_PAGES" using p(1) space_ok_used(1) [OF sp] used_le by blast
    then have "in_page p (page_addr d va)" by (simp add: p(2) in_page_addr)
    then show ?thesis using keep p(1) sub unfolding keeps_def by blast
  qed
  then show ?thesis by (simp add: process_byte_def w t split: option.splits) (auto simp: map_option_case split: option.splits)
qed

lemma kernel_invE:
  assumes "kernel_inv im (K, k)"
  obtains own where "image_ok K im" "sched_inv im k" "proc_inv K own k" "isolated K own k" "table_ok im k"
    "current_task k < num_tasks k"
  using assms that by (auto simp: kernel_inv_def proc_inv_def sched_defs)

text \<open>
  C1: two processes never share memory: an address of the one and an address of the other are never
  mapped to the same page frame, and no process can reach a frame of the kernel or a free one. This is so in every state
  that satisfies the kernel invariant, which a program above \<open>MAX_PROGRAM\<close> bytes or a kernel pointer given to a system
  call can destroy.
\<close>

theorem process_isolation:
  assumes "kernel_inv im (K, k)" "i < num_tasks k" "is_user (task_at k i)"
    and "walk (kbytes (kmm k)) (ttbr0 (task_at k i)) va = Some d"
  shows "\<exists>p. d = page_desc (frame p) \<and> p \<in> used (kpmm (kmm k)) \<and> p \<notin> K
    \<and> (\<forall>j vb. j < num_tasks k \<longrightarrow> is_user (task_at k j) \<longrightarrow> j \<noteq> i \<longrightarrow>
         walk (kbytes (kmm k)) (ttbr0 (task_at k j)) vb \<noteq> Some d)"
proof -
  obtain own where iso: "isolated K own k" using kernel_invE [OF assms(1)] by metis
  note g = isolated_user [OF iso assms(2,3)]
  obtain p where p: "p \<in> snd (own i)" "d = page_desc (frame p)" using space_ok_frame [OF g(1) assms(4)] by blast
  have o: "p \<in> owned own i" using p(1) by (simp add: owned_def)
  then have pu: "p \<in> used (kpmm (kmm k))" using g(4) by (rule rev_subsetD)
  then have P: "p < TOTAL_PAGES" by simp
  have "walk (kbytes (kmm k)) (ttbr0 (task_at k j)) vb \<noteq> Some d"
    if j: "j < num_tasks k" "is_user (task_at k j)" "j \<noteq> i" for j vb
  proof
    assume w: "walk (kbytes (kmm k)) (ttbr0 (task_at k j)) vb = Some d"
    note h = isolated_user [OF iso j(1,2)]
    obtain q where q: "q \<in> snd (own j)" "d = page_desc (frame q)" using space_ok_frame [OF h(1) w] by blast
    have "q \<in> used (kpmm (kmm k))" using q(1) h(4) by (auto simp: owned_def)
    then have Q: "q < TOTAL_PAGES" by simp
    have "frame p = frame q" using p(2) q(2) desc_addr_frame [OF P] desc_addr_frame [OF Q] by simp
    then have "p = q" by (rule page_to_addr_inj [OF P Q])
    moreover have "owned own i \<inter> owned own j = {}" using iso assms(2,3) j unfolding isolated_def by metis
    ultimately show False using o q(1) by (auto simp: owned_def)
  qed
  then show ?thesis using p(2) pu o g(3) by blast
qed

lemma stack_va_walk:
  assumes "task_ok m t" "0x7FC \<le> page_no va" "page_no va < 0x800"
  shows "walk m (ttbr0 t) va = Some (page_desc (stack_pa t + of_nat (page_no va - 0x7FC) * 4096))"
  using assms by (simp add: task_ok_def)

theorem process_isolation_witness:
  "\<exists>k d. walk (kbytes (kmm k)) (ttbr0 (task_at k 1)) 0x7FF000 = Some d
    \<and> walk (kbytes (kmm k)) (ttbr0 (task_at k 2)) 0x7FF000 \<noteq> Some d \<and> is_user (task_at k 2)"
proof -
  obtain k where k: "(kstep MAX_PROGRAM demo_im)\<^sup>*\<^sup>* (demo_K, demo_boot) (demo_K, k)" "num_tasks k = 3" "is_user (task_at k 1)" "is_user (task_at k 2)"
    and inv: "kernel_inv demo_im (demo_K, k)"
    using demo_two by metis
  obtain own where "proc_inv demo_K own k" using kernel_invE [OF inv] by metis
  then have "task_ok (kbytes (kmm k)) (task_at k 1)" using k by (simp add: proc_inv_def)
  from stack_va_walk [OF this, of "0x7FF000"] obtain d where d: "walk (kbytes (kmm k)) (ttbr0 (task_at k 1)) 0x7FF000 = Some d"
    by (simp add: page_no_def)
  have "\<forall>j vb. j < num_tasks k \<longrightarrow> is_user (task_at k j) \<longrightarrow> j \<noteq> 1 \<longrightarrow> walk (kbytes (kmm k)) (ttbr0 (task_at k j)) vb \<noteq> Some d"
    using process_isolation [OF inv _ k(3) d] k(2) by auto
  then have "walk (kbytes (kmm k)) (ttbr0 (task_at k 2)) 0x7FF000 \<noteq> Some d" using k(2,4) by simp
  then show ?thesis using d k(4) by blast
qed

lemma kstep_process_byte:
  assumes inv: "kernel_inv im (K, k)" and st: "kstep MAX_PROGRAM im (K, k) (K', k')"
    and i: "i < num_tasks k" "is_user (task_at k i)" "i \<noteq> current_task k"
  shows "process_byte k' i va = process_byte k i va"
proof -
  obtain own where o: "image_ok K im" "sched_inv im k" "proc_inv K own k" "isolated K own k" using kernel_invE [OF inv] by metis
  obtain own' where s: "steps_to K own k K' own' k'" using kstep_steps [OF st o(3,2,1)] by blast
  show ?thesis
  proof (rule process_byte_keeps [OF isolated_user(1) [OF o(4) i(1,2)]])
    show "keeps (owned own i) (kmm k) (kmm k')" using s i by (simp add: steps_to_def preserves_def)
    show "ttbr0 (task_at k' i) = ttbr0 (task_at k i)" using s i(1) by (simp add: steps_to_def same_space_def)
  qed (simp add: owned_def)
qed

text \<open>
  C2: no step of the kernel or of the running process changes what another process sees in its
  memory, nor where it faults. The steps are those of \<open>kstep\<close>, with programs of at most \<open>MAX_PROGRAM\<close> bytes; a store
  through a pointer into kernel memory that a process passes to a system call is not among them.
\<close>

theorem memory_integrity:
  assumes inv: "kernel_inv im (K, k)" and st: "kstep MAX_PROGRAM im (K, k) (K', k')"
    and i: "i < num_tasks k" "is_user (task_at k i)" "i \<noteq> current_task k"
  shows "process_byte k' i va = process_byte k i va"
  by (rule kstep_process_byte [OF assms])

theorem memory_integrity_witness:
  "\<exists>k a. current_task k = 1 \<and> is_user (task_at k 1) \<and> el1_addr k 0x7FF000 = Some a
    \<and> process_byte (set_bytes (\<lambda>m. m(a := 42)) k) 2 0x7FF000 = process_byte k 2 0x7FF000"
proof -
  obtain k where k: "(kstep MAX_PROGRAM demo_im)\<^sup>*\<^sup>* (demo_K, demo_boot) (demo_K, k)" "current_task k = 1" "num_tasks k = 3"
    "is_user (task_at k 1)" "is_user (task_at k 2)"
    and inv: "kernel_inv demo_im (demo_K, k)"
    using demo_two by metis
  obtain own where o: "proc_inv demo_K own k" "isolated demo_K own k" "table_ok demo_im k" using kernel_invE [OF inv] by metis
  have "task_ok (kbytes (kmm k)) (task_at k 1)" using o(1) k by (simp add: proc_inv_def)
  from stack_va_walk [OF this, of "0x7FF000"] obtain d where "walk (kbytes (kmm k)) (ttbr0 (task_at k 1)) 0x7FF000 = Some d"
    by (simp add: page_no_def)
  moreover have "space_ok (fst (own 1)) (snd (own 1)) (ttbr0 (task_at k 1)) (kmm k)"
    by (rule isolated_user(1) [OF o(2)]) (use k in simp_all)
  then have "ttbr0_el1 k = ttbr0 (task_at k 1)" using user_ttbr0 [OF o(3), unfolded k(2)] by blast
  ultimately obtain a where a: "el1_addr k 0x7FF000 = Some a" by (auto simp: el1_addr_def)
  have "kstep MAX_PROGRAM demo_im (demo_K, k) (demo_K, set_bytes (\<lambda>m. m(a := 42)) k)"
    by (rule kstep.user_write [OF _ _ a]) (use k in simp_all)
  from memory_integrity [OF inv this, where i = 2 and va = "0x7FF000"] show ?thesis using k a by auto
qed

section \<open>Heap growth and fork\<close>

text \<open>The number of a page boundary at or above an address.\<close>

definition page_up :: "u64 \<Rightarrow> nat" where
  "page_up a = (unat a + 4095) div 4096"

lemma sbrk_effect:
  assumes inv: "kernel_inv im (K, k)" and u: "is_user (cur_task k)"
  defines "c \<equiv> current_task k" and "old \<equiv> heap_break (cur_task k)"
  shows "\<exists>r k'. sys_sbrk inc k = Some (r, k')
    \<and> (inc = 0 \<longrightarrow> r = old \<and> k' = k) \<and> (USER_VA_GUARD \<le> old + inc \<longrightarrow> r = -1 \<and> k' = k)
    \<and> heap_break (task_at k' c) = (if r = -1 then old else old + inc) \<and> (r = -1 \<or> r = old)
    \<and> (r \<noteq> -1 \<longrightarrow> (\<forall>v. page_up old \<le> page_no v \<longrightarrow> page_no v < page_up (old + inc) \<longrightarrow>
         process_byte k' c v = Some 0 \<and> (\<exists>p. walk (kbytes (kmm k')) (ttbr0 (task_at k' c)) v = Some (page_desc (frame p)) \<and> p \<notin> used (kpmm (kmm k)))))
    \<and> (\<forall>v. \<not> (page_up old \<le> page_no v \<and> page_no v < page_up (old + inc)) \<longrightarrow> process_byte k' c v = process_byte k c v)"
proof -
  obtain own where o: "proc_inv K own k" "isolated K own k" "table_ok im k" "current_task k < num_tasks k"
    using kernel_invE [OF inv] by metis
  note g = isolated_user [OF o(2,4) u]
  have "task_ok (kbytes (kmm k)) (cur_task k)" using o(1,4) u by (simp add: proc_inv_def)
  then have hb: "old < USER_VA_GUARD" by (simp add: task_ok_def old_def)
  have l: "c < length (tasks k)" using cur_less [OF o(3)] by (simp add: c_def)
  have cur: "cur_task k = task_at k c" by (simp add: c_def)
  have neg: "old \<noteq> -1" using hb by (auto simp: USER_VA_GUARD_def USER_VA_STACK_def USER_STACK_PAGES_def)
  obtain r k' where r: "sys_sbrk inc k = Some (r, k')" using sys_sbrk_total [OF g(1)] hb by (auto simp: old_def)
  have hb': "is_user (cur_task k) \<longrightarrow> heap_break (cur_task k) < USER_VA_GUARD" using hb by (simp add: old_def)
  from o(2,4) hb' r show ?thesis
  proof (cases rule: sys_sbrk_cases)
    case refused
    have "inc \<noteq> 0" using refused(2) u hb by (auto simp: old_def)
    then show ?thesis using r refused u by (simp add: old_def cur)
  next
    case query
    then show ?thesis using r neg hb by (auto simp: old_def cur page_up_def not_le)
  next
    case (grow rl' F' b m' M)
    note pu = page_up_def old_def
    have at: "task_at k' c = (if b then task_at k c else (task_at k c)\<lparr>heap_break := old + inc\<rparr>)" and km: "kmm k' = m'"
      using l by (simp_all add: grow(14) upd_task_def old_def c_def)
    have tt: "ttbr0 (task_at k' c) = ttbr0 (task_at k c)" by (simp add: at)
    have own': "dom rl' \<union> F' \<subseteq> used (kpmm m')" using space_ok_used(1) [OF grow(4)] .
    have new: "process_byte k' c v = Some 0 \<and> (\<exists>p. walk (kbytes (kmm k')) (ttbr0 (task_at k' c)) v = Some (page_desc (frame p)) \<and> p \<notin> used (kpmm (kmm k)))"
      if v: "page_up old \<le> page_no v" "page_no v < M" for v
    proof -
      obtain p where p: "p \<in> F'" "p \<notin> snd (own c)" "walk (kbytes m') (ttbr0 (task_at k c)) v = Some (page_desc (frame p))"
        "\<forall>x. in_page p x \<longrightarrow> kbytes m' x = 0"
        using grow(12) [rule_format, of v] v by (auto simp: pu c_def)
      have P: "p < TOTAL_PAGES" using p(1) own' used_le by blast
      have "p \<notin> dom (fst (own c))" using p(1) grow(4,5) by (auto simp: space_ok_def c_def)
      then have "p \<notin> used (kpmm (kmm k))" using p(1,2) grow(7) by (auto simp: owned_def c_def)
      then show ?thesis using p in_page_addr [OF P] by (auto simp: process_byte_def tt km)
    qed
    have old: "process_byte k' c v = process_byte k c v" if v: "\<not> (page_up old \<le> page_no v \<and> page_no v < M)" for v
    proof -
      have w: "walk (kbytes m') (ttbr0 (task_at k c)) v = walk (kbytes (kmm k)) (ttbr0 (task_at k c)) v"
        using grow(12) [rule_format, of v] v by (simp add: pu c_def split: if_splits)
      show ?thesis
      proof (cases "walk (kbytes (kmm k)) (ttbr0 (task_at k c)) v")
        case None
        then show ?thesis by (simp add: process_byte_def tt km w)
      next
        case (Some d)
        obtain p where p: "p \<in> snd (own c)" "d = page_desc (frame p)"
          using space_ok_frame [OF g(1)] Some by (auto simp: c_def)
        have "p \<in> used (kpmm (kmm k)) - dom (fst (own c))" using g(1,4) p(1) by (auto simp: owned_def c_def space_ok_def)
        moreover have "p < TOTAL_PAGES" using calculation by simp
        ultimately have "kbytes m' (page_addr d v) = kbytes (kmm k) (page_addr d v)"
          using grow(8) in_page_addr [of p v] p(2) unfolding keeps_def c_def by blast
        then show ?thesis using Some by (simp add: process_byte_def tt km w)
      qed
    qed
    have M: "M \<le> page_up (old + inc) \<or> M \<le> page_up old" using grow(15) by (auto simp: pu)
    have ok: "page_up (old + inc) \<le> M" "r = old" "\<not> b" if "r \<noteq> -1" using grow(10,13) that by (auto simp: pu split: if_splits)
    have hbc: "heap_break (task_at k c) = old" by (simp add: old_def c_def)
    show ?thesis
    proof (intro exI [of _ r] exI [of _ k'] conjI)
      show "heap_break (task_at k' c) = (if r = -1 then old else old + inc)"
        using grow(13) neg ok hbc at by (cases b) (auto simp: old_def)
      show "r \<noteq> -1 \<longrightarrow> (\<forall>v. page_up old \<le> page_no v \<longrightarrow> page_no v < page_up (old + inc) \<longrightarrow> process_byte k' c v = Some 0
          \<and> (\<exists>p. walk (kbytes (kmm k')) (ttbr0 (task_at k' c)) v = Some (page_desc (frame p)) \<and> p \<notin> used (kpmm (kmm k))))"
        using new ok(1) by (meson less_le_trans)
      show "\<forall>v. \<not> (page_up old \<le> page_no v \<and> page_no v < page_up (old + inc)) \<longrightarrow> process_byte k' c v = process_byte k c v"
        using old M by (meson leD less_le_trans)
    qed (use r grow(2,3) ok(2) in \<open>auto simp: old_def not_le\<close>)
  qed
qed

text \<open>
  C9: \<open>sbrk\<close> always returns. It moves the break only on success; then every page between the old and
  the new break is a fresh page of zeros, and in all cases the process sees its other pages
  unchanged. A break at or above the guard page is refused without effect.
\<close>

theorem sbrk_result:
  assumes inv: "kernel_inv im (K, k)" and u: "is_user (cur_task k)"
  defines "c \<equiv> current_task k" and "old \<equiv> heap_break (cur_task k)"
  shows "\<exists>r k'. sys_sbrk inc k = Some (r, k')
    \<and> (inc = 0 \<longrightarrow> r = old \<and> k' = k) \<and> (USER_VA_GUARD \<le> old + inc \<longrightarrow> r = -1 \<and> k' = k)
    \<and> heap_break (task_at k' c) = (if r = -1 then old else old + inc) \<and> (r = -1 \<or> r = old)
    \<and> (r \<noteq> -1 \<longrightarrow> (\<forall>v. page_up old \<le> page_no v \<longrightarrow> page_no v < page_up (old + inc) \<longrightarrow>
         process_byte k' c v = Some 0 \<and> (\<exists>p. walk (kbytes (kmm k')) (ttbr0 (task_at k' c)) v = Some (page_desc (frame p)) \<and> p \<notin> used (kpmm (kmm k)))))
    \<and> (\<forall>v. \<not> (page_up old \<le> page_no v \<and> page_no v < page_up (old + inc)) \<longrightarrow> process_byte k' c v = process_byte k c v)"
  unfolding c_def old_def using sbrk_effect [OF inv u] .

theorem sbrk_result_witness:
  "\<exists>k r k'. heap_break (task_at k 1) < USER_VA_GUARD \<and> sys_sbrk 0x2000 k = Some (r, k')
    \<and> heap_break (task_at k' 1) = (if r = -1 then heap_break (task_at k 1) else heap_break (task_at k 1) + 0x2000)"
proof -
  obtain k where k: "(kstep MAX_PROGRAM demo_im)\<^sup>*\<^sup>* (demo_K, demo_boot) (demo_K, k)" "current_task k = 1" "num_tasks k = 3" "is_user (task_at k 1)"
    and inv: "kernel_inv demo_im (demo_K, k)"
    using demo_two by metis
  obtain own where "proc_inv demo_K own k" using kernel_invE [OF inv] by metis
  then have "heap_break (task_at k 1) < USER_VA_GUARD" using k by (simp add: proc_inv_def task_ok_def)
  then have l: "heap_break (task_at k 1) < USER_VA_GUARD" .
  have "is_user (cur_task k)" using k(2,4) by simp
  from sbrk_result [OF inv this, of "0x2000", unfolded k(2)] obtain r k' where
    "sys_sbrk 0x2000 k = Some (r, k')" "heap_break (task_at k' 1) = (if r = -1 then heap_break (task_at k 1) else heap_break (task_at k 1) + 0x2000)"
    by (elim exE conjE) (rule that)
  then show ?thesis using l by blast
qed

lemma run_page_addr:
  assumes "c + n \<le> TOTAL_PAGES" "q < n"
  shows "page_addr (page_desc (frame c + of_nat q * 4096)) v = phys_to_virt (frame c) + of_nat (q * 4096 + unat (v AND 0xFFF))"
proof -
  have q: "c + q < TOTAL_PAGES" using assms by simp
  have "phys_to_virt (frame (c + q)) = phys_to_virt (frame c) + of_nat q * 4096"
    unfolding phys_to_virt_def frame_add [OF q, symmetric] by simp
  then have "phys_to_virt (desc_addr (page_desc (frame (c + q)))) = phys_to_virt (frame c) + of_nat q * 4096"
    unfolding desc_addr_frame [OF q] .
  then show ?thesis unfolding page_addr_def frame_add [OF q] by (simp add: add.assoc)
qed

lemma unat_low: "unat ((v :: u64) AND 0xFFF) = unat v mod 4096"
proof -
  have "v AND 0xFFF = take_bit 12 v" by (simp add: take_bit_eq_mask mask_eq_exp_minus_1)
  then show ?thesis by (simp add: unat_take_bit)
qed

text \<open>The program pages of a process, as it sees them.\<close>

lemma process_code_byte:
  assumes wk: "\<And>v. walk (kbytes (kmm k)) (ttbr0 (task_at k n)) v = user_map (code_pa (task_at k n)) cp sp 4 (page_no v)"
    and a: "code_pa (task_at k n) = frame a" "a + cp \<le> TOTAL_PAGES" and x: "x < cp * 4096" and cp: "cp \<le> 512"
  shows "process_byte k n (USER_VA_CODE + of_nat x) = Some (kbytes (kmm k) (phys_to_virt (frame a) + of_nat x))"
proof -
  let ?v = "USER_VA_CODE + of_nat x :: u64"
  have "unat (of_nat x :: u64) = x" by (rule unat_of_nat_small) (use x cp in simp)
  then have uv: "unat ?v = 0x400000 + x" using x cp by (simp add: USER_VA_CODE_def unat_word_ariths)
  have pn: "page_no ?v = 0x400 + x div 4096" "unat (?v AND 0xFFF) = x mod 4096"
    using x cp mod_mult_self3 [of 1024 4096 x] by (simp_all add: page_no_def uv unat_low)
  have q: "x div 4096 < cp" using x by (simp add: div_less_iff_less_mult)
  have "walk (kbytes (kmm k)) (ttbr0 (task_at k n)) ?v = Some (page_desc (frame a + of_nat (x div 4096) * 4096))"
    using q by (simp add: wk user_map_def a(1) pn(1))
  then have "process_byte k n ?v = Some (kbytes (kmm k) (phys_to_virt (frame a) + of_nat (x div 4096 * 4096 + x mod 4096)))"
    by (simp only: process_byte_def run_page_addr [OF a(2) q] option.map pn(2))
  then show ?thesis by (simp only: div_mult_mod_eq)
qed

text \<open>
  C8: a successful \<open>fork\<close> makes a ready child whose stack and program pages are copies of the
  parent's, with the same descriptors, which will return from its system call with 0 in x0 and the
  parent's other registers: its first switch goes to \<open>fork_child_return\<close>, which restores them from its kernel stack. The parent's memory is unchanged. The child inherits the heap break, but
  none of the pages that \<open>sbrk\<close> mapped: it faults on all of them.
\<close>

theorem fork_copies:
  assumes inv: "kernel_inv im (K, k)" and rs: "length rs = 34" and r: "sched_fork im rs k = Some (r, k')" "r \<noteq> -1"
  defines "c \<equiv> current_task k" and "n \<equiv> num_tasks k" and "cp \<equiv> unat (code_pages (cur_task k))"
  shows "r = int n \<and> num_tasks k' = Suc n \<and> tstate (task_at k' n) = TASK_READY \<and> parent_tid (task_at k' n) = int c
    \<and> (\<forall>v. 0x7FC \<le> page_no v \<longrightarrow> page_no v < 0x800 \<longrightarrow> process_byte k' n v = process_byte k c v \<and> process_byte k c v \<noteq> None)
    \<and> (\<forall>x < cp * 4096. process_byte k' n (USER_VA_CODE + of_nat x) = Some (kbytes (kmm k) (phys_to_virt (code_pa (task_at k c)) + of_nat x)))
    \<and> (\<forall>v. 0x400 + cp \<le> page_no v \<longrightarrow> page_no v < 0x7FC \<longrightarrow> process_byte k' n v = None)
    \<and> heap_break (task_at k' n) = heap_break (task_at k c)
    \<and> (\<forall>v. process_byte k' c v = process_byte k c v)
    \<and> get_frame (ctx_sp (ctx (task_at k' n))) (kbytes (kmm k')) = rs[0 := 0] \<and> x30 (ctx (task_at k' n)) = fork_child_return im
    \<and> fdt (task_at k' n) = fdt (task_at k c)"
proof -
  obtain own where o: "image_ok K im" "sched_inv im k" "proc_inv K own k" "isolated K own k" "current_task k < num_tasks k"
    using kernel_invE [OF inv] by metis
  from o(4,2,1) rs r(1) show ?thesis
  proof (cases rule: sched_fork_cases)
    case refused
    then show ?thesis using r(2) by simp
  next
    case (new tab s rl F)
    let ?t = "task_at k' n" and ?p = "task_at k c"
    have u: "is_user ?p" using new(3) by (simp add: c_def)
    note g = isolated_user [OF o(4,5), folded c_def, OF u]
    have cr: "num_tasks k' = Suc n" "tstate ?t = TASK_READY" "fdt ?t = tab" "task_at k' c = ?p"
      "code_pages ?t = code_pages ?p" "heap_break ?t = heap_break ?p" "parent_tid ?t = int c"
      using new(5,8) o(5) by (auto simp: created_def forked_def Let_def n_def c_def)
    have cp: "cp \<le> 512" using g(2) by (simp add: task_pages_ok_def cp_def c_def)
    have wk: "walk (kbytes (kmm k')) (ttbr0 ?t) v = user_map (code_pa ?t) cp (stack_pa ?t) 4 (page_no v)" for v
      by (rule walk_page_no) (use new(8) in \<open>simp add: forked_def Let_def n_def cp_def\<close>)
    obtain a b where ab: "code_pa ?t = frame a" "stack_pa ?t = frame (Suc b)" "a + cp \<le> TOTAL_PAGES" "b + 5 \<le> TOTAL_PAGES"
      "\<forall>x < cp * 4096. kbytes (kmm k') (phys_to_virt (code_pa ?t) + of_nat x) = kbytes (kmm k) (phys_to_virt (code_pa ?p) + of_nat x)"
      "\<forall>x < 4 * 4096. kbytes (kmm k') (phys_to_virt (stack_pa ?t) + of_nat x) = kbytes (kmm k) (phys_to_virt (stack_pa ?p) + of_nat x)"
      using new(8) unfolding forked_def Let_def n_def [symmetric] c_def [symmetric] cp_def by blast
    have b4: "Suc b + 4 \<le> TOTAL_PAGES" using ab(4) by simp
    obtain st where st: "stack_pa ?p = frame st" "st + 4 \<le> TOTAL_PAGES" using g(2) by (auto simp: task_pages_ok_def)
    have ok: "task_ok (kbytes (kmm k)) ?p" using o(3,5) u by (simp add: proc_inv_def c_def)
    have stack: "process_byte k' n v = process_byte k c v \<and> process_byte k c v \<noteq> None" if v: "0x7FC \<le> page_no v" "page_no v < 0x800" for v
    proof -
      let ?q = "page_no v - 0x7FC"
      let ?x = "?q * 4096 + unat (v AND 0xFFF)"
      have q: "?q < 4" using v by simp
      have x: "?x < 4 * 4096" using q unat_low [of v] by simp
      have "walk (kbytes (kmm k')) (ttbr0 ?t) v = Some (page_desc (frame (Suc b) + of_nat ?q * 4096))"
        using v cp by (simp add: wk user_map_def ab(2))
      then have "process_byte k' n v = Some (kbytes (kmm k') (phys_to_virt (stack_pa ?t) + of_nat ?x))"
        by (simp only: process_byte_def run_page_addr [OF b4 q] ab(2) option.map)
      moreover have "process_byte k c v = Some (kbytes (kmm k) (phys_to_virt (stack_pa ?p) + of_nat ?x))"
        using stack_va_walk [OF ok v] by (simp only: process_byte_def st(1) run_page_addr [OF st(2) q] option.map)
      moreover have "kbytes (kmm k') (phys_to_virt (stack_pa ?t) + of_nat ?x) = kbytes (kmm k) (phys_to_virt (stack_pa ?p) + of_nat ?x)"
        using ab(6) x by blast
      ultimately show ?thesis by (simp only: option.distinct simp_thms)
    qed
    have code: "process_byte k' n (USER_VA_CODE + of_nat x) = Some (kbytes (kmm k) (phys_to_virt (code_pa ?p) + of_nat x))"
      if x: "x < cp * 4096" for x
      using process_code_byte [OF wk ab(1,3) x cp] ab(5) x by (simp only: ab(1))
    have heap: "process_byte k' n v = None" if "0x400 + cp \<le> page_no v" "page_no v < 0x7FC" for v
      using that by (simp add: process_byte_def wk user_map_def)
    have par: "process_byte k' c v = process_byte k c v" for v
    proof (rule process_byte_keeps [OF g(1) new(6)])
      show "dom (fst (own c)) \<union> snd (own c) \<subseteq> used (kpmm (kmm k)) - K" using g(3,4) by (auto simp: owned_def c_def)
    qed (simp add: cr(4))
    have "fdt ?t = fdt ?p"
    proof -
      have "fd_inv (tabs k) (fds k)" using o(3) by (simp add: proc_inv_def)
      from fd_table_dup_inv [OF this, of c] show ?thesis using new(4) o(5) cr(3) by (force simp: tabs_nth c_def)
    qed
    moreover have "get_frame (ctx_sp (ctx ?t)) (kbytes (kmm k')) = rs[0 := 0]" "x30 (ctx ?t) = fork_child_return im"
      using new(8,9) by (simp_all add: forked_def Let_def n_def)
    ultimately show ?thesis using new(1) cr stack code heap par by (simp add: n_def)
  qed
qed

theorem fork_copies_witness:
  "\<exists>k k'. is_user (task_at k 1) \<and> sched_fork demo_im (replicate 34 7) k = Some (3, k')
    \<and> process_byte k' 3 0x7FF000 = process_byte k 1 0x7FF000 \<and> get_frame (ctx_sp (ctx (task_at k' 3))) (kbytes (kmm k')) = 0 # replicate 33 7"
proof -
  obtain k where k: "(kstep MAX_PROGRAM demo_im)\<^sup>*\<^sup>* (demo_K, demo_boot) (demo_K, k)" "current_task k = 1" "num_tasks k = 3" "is_user (task_at k 1)"
    "unat (code_pages (task_at k 1)) = 5" "card (used (kpmm (kmm k))) = 300"
    and inv: "kernel_inv demo_im (demo_K, k)"
    using demo_two by metis
  obtain own where o: "proc_inv demo_K own k" "isolated demo_K own k" "current_task k < num_tasks k" using kernel_invE [OF inv] by metis
  have fd: "fd_inv (tabs k) (fds k)" using o(1) by (simp add: proc_inv_def)
  obtain s where dup: "fd_table_dup (fdt (cur_task k)) (fds k) = Some (fdt (cur_task k), s)"
    using fd_table_dup_inv [OF fd, of "current_task k"] o(3) by (auto simp: tabs_nth)
  have "\<exists>k'. sched_fork demo_im (replicate 34 7) k = Some (int (num_tasks k), k')"
    by (rule sched_fork_ok [OF isolated_pmm(1) [OF o(2)] _ _ _ _ dup])
      (use k in \<open>simp_all add: SCHED_MAX_TASKS_def TOTAL_PAGES_def word_less_nat_alt\<close>)
  then obtain k' where f: "sched_fork demo_im (replicate 34 7) k = Some (3, k')" using k(3) by auto
  have pn: "page_no 0x7FF000 = 0x7FF" by (simp add: page_no_def)
  have "process_byte k' 3 0x7FF000 = process_byte k 1 0x7FF000"
    "get_frame (ctx_sp (ctx (task_at k' 3))) (kbytes (kmm k')) = (replicate 34 7)[0 := 0]"
    using fork_copies [OF inv _ f] k(2,3) pn by auto
  moreover have "(replicate 34 (7 :: u64))[0 := 0] = 0 # replicate 33 7" by (simp add: numeral_eq_Suc)
  ultimately show ?thesis using k(4) f by auto
qed

end
