(* ===== verification/SignalSpec.thy ===== *)
theory SignalSpec
  imports KernelSpec
begin

text \<open>
  Signal delivery on a process's stack: the handler runs with the frame the kernel pushed, and
  \<open>sigreturn\<close> brings back the interrupted registers.
\<close>

section \<open>The user stack in kernel memory\<close>

text \<open>The stack of the current process is one run of kernel memory, which starts at \<open>stack_kva k\<close>.\<close>

definition stack_kva :: "kernel \<Rightarrow> u64 \<Rightarrow> u64" where
  "stack_kva k va = phys_to_virt (stack_pa (cur_task k)) + (va - 0x7FC000)"

definition in_stack :: "u64 \<Rightarrow> nat \<Rightarrow> bool" where
  "in_stack va n \<longleftrightarrow> 0x7FC000 \<le> unat va \<and> unat va + n \<le> 0x800000"

lemma unat_va_add: "in_stack va n \<Longrightarrow> i \<le> n \<Longrightarrow> unat (va + of_nat i) = unat va + i"
proof -
  assume a: "in_stack va n" "i \<le> n"
  have "unat (of_nat i :: u64) = i" by (rule unat_of_nat_small) (use a in \<open>simp add: in_stack_def\<close>)
  then show ?thesis using a by (subst unat_add_small) (auto simp: in_stack_def)
qed

lemma stack_addr:
  assumes inv: "kernel_inv im (K, k)" and u: "is_user (cur_task k)" and va: "in_stack va (Suc n)"
  shows "el1_addr k va = Some (stack_kva k va)"
proof -
  obtain own where o: "proc_inv K own k" "isolated K own k" "table_ok im k" "current_task k < num_tasks k"
    using kernel_invE [OF inv] by metis
  note g = isolated_user [OF o(2,4) u]
  have tt: "ttbr0_el1 k = ttbr0 (cur_task k)" by (rule user_ttbr0 [OF o(3) g(1)])
  have ok: "task_ok (kbytes (kmm k)) (cur_task k)" using o(1,4) u by (simp add: proc_inv_def)
  obtain st where st: "stack_pa (cur_task k) = frame st" "st + 4 \<le> TOTAL_PAGES" using g(2) by (auto simp: task_pages_ok_def)
  have v: "0x7FC000 \<le> unat va" "unat va < 0x800000" using va by (simp_all add: in_stack_def)
  have pn: "page_no va = unat va div 4096" using v by (simp add: page_no_def)
  have q: "page_no va - 0x7FC < 4" "0x7FC \<le> page_no va" "page_no va < 0x800"
    using v unfolding pn by linarith+
  have w: "walk (kbytes (kmm k)) (ttbr0 (cur_task k)) va = Some (page_desc (frame st + of_nat (page_no va - 0x7FC) * 4096))"
    using stack_va_walk [OF ok q(2,3)] by (simp add: st(1))
  have "unat va = 0x7FC000 + ((page_no va - 0x7FC) * 4096 + unat (va AND 0xFFF))"
    using q(2) unat_low [of va] div_mult_mod_eq [of "unat va" 4096] by (simp add: pn diff_mult_distrib)
  from arg_cong [OF this, of "of_nat :: nat \<Rightarrow> u64"]
  have "va = 0x7FC000 + of_nat ((page_no va - 0x7FC) * 4096 + unat (va AND 0xFFF))" by simp
  then have e: "of_nat ((page_no va - 0x7FC) * 4096 + unat (va AND 0xFFF)) = va - 0x7FC000"
    by (metis add_diff_cancel_left')
  have "va < 0x8000000000" using v(2) by (simp add: word_less_nat_alt)
  then have "el1_addr k va = Some (page_addr (page_desc (frame st + of_nat (page_no va - 0x7FC) * 4096)) va)"
    by (simp add: el1_addr_def tt w page_addr_def)
  then show ?thesis unfolding run_page_addr [OF st(2) q(1)] e by (simp add: stack_kva_def st(1))
qed

lemma el1_store8_stack:
  assumes inv: "kernel_inv im (K, k)" and u: "is_user (cur_task k)" and va: "in_stack va (Suc n)"
  shows "el1_store8 va b k = Some (set_bytes (\<lambda>m. m(stack_kva k va := b)) k)"
    "kernel_inv im (K, set_bytes (\<lambda>m. m(stack_kva k va := b)) k)"
proof -
  note a = stack_addr [OF inv u va]
  show "el1_store8 va b k = Some (set_bytes (\<lambda>m. m(stack_kva k va := b)) k)" by (simp add: el1_store8_def a)
  have "va < 0x8000000000" using va by (simp add: word_less_nat_alt in_stack_def)
  from kstep.user_write [OF u this a] show "kernel_inv im (K, set_bytes (\<lambda>m. m(stack_kva k va := b)) k)"
    by (rule kernel_inv_step [OF inv])
qed

lemma set_bytes_tasks [simp]: "tasks (set_bytes f k) = tasks k" "current_task (set_bytes f k) = current_task k"
  "num_tasks (set_bytes f k) = num_tasks k" "ttbr0_el1 (set_bytes f k) = ttbr0_el1 k" "kbytes (kmm (set_bytes f k)) = f (kbytes (kmm k))"
  by (simp_all add: set_bytes_def)

lemma stack_kva_set_bytes [simp]: "stack_kva (set_bytes f k) va = stack_kva k va"
  by (simp add: stack_kva_def)

text \<open>So a store of \<open>n\<close> bytes to the stack is the byte loop at its kernel address.\<close>

definition store_bytes :: "nat \<Rightarrow> u64 \<Rightarrow> u64 \<Rightarrow> memory \<Rightarrow> memory" where
  "store_bytes n a v m = fill_bytes 0 n a (\<lambda>i. ucast (drop_bit (8 * i) v)) m"

lemma store_bytes_Suc: "store_bytes (Suc n) a v m = (store_bytes n a v m)(a + of_nat n := ucast (drop_bit (8 * n) v))"
  by (simp add: store_bytes_def fill_bytes_def)

lemma store_bytes_8: "store_bytes 8 a v m = store64 a v m"
  by (rule ext) (simp add: store_bytes_def store64_def fill_bytes_apply word_less_nat_alt)

lemma el1_store_stack:
  assumes inv: "kernel_inv im (K, k)" and u: "is_user (cur_task k)" and va: "in_stack va n"
  shows "el1_store n va v k = Some (set_bytes (store_bytes n (stack_kva k va) v) k)
    \<and> kernel_inv im (K, set_bytes (store_bytes n (stack_kva k va) v) k)"
  using va
proof (induction n)
  case 0
  have "set_bytes (store_bytes 0 (stack_kva k va) v) k = k" by (simp add: store_bytes_def fill_bytes_def set_bytes_def)
  then show ?case using inv by (simp add: el1_store_def)
next
  case (Suc n)
  let ?k = "set_bytes (store_bytes n (stack_kva k va) v) k"
  have IH: "el1_store n va v k = Some ?k" "kernel_inv im (K, ?k)" using Suc by (simp_all add: in_stack_def)
  have w: "in_stack (va + of_nat n) (Suc 0)" using Suc.prems unat_va_add [OF Suc.prems, of n] by (simp add: in_stack_def)
  have u': "is_user (cur_task ?k)" using u by simp
  note s = el1_store8_stack [OF IH(2) u' w, of "ucast (drop_bit (8 * n) v)"]
  have a: "stack_kva ?k (va + of_nat n) = stack_kva k va + of_nat n" by (simp add: stack_kva_def)
  have "set_bytes (\<lambda>m. m(stack_kva k va + of_nat n := ucast (drop_bit (8 * n) v))) ?k = set_bytes (store_bytes (Suc n) (stack_kva k va) v) k"
    by (simp add: set_bytes_set_bytes store_bytes_Suc [abs_def])
  moreover have "el1_store (Suc n) va v k = Option.bind (el1_store n va v k) (el1_store8 (va + of_nat n) (ucast (drop_bit (8 * n) v)))"
    by (simp add: el1_store_def)
  ultimately show ?case using IH(1) s unfolding a by simp
qed

text \<open>Loads depend on the bytes at the addresses only.\<close>

definition el1_byte :: "kernel \<Rightarrow> u64 \<Rightarrow> u8 option" where
  "el1_byte k va = map_option (kbytes (kmm k)) (el1_addr k va)"

lemma el1_load_cong:
  assumes "\<And>i. i < n \<Longrightarrow> el1_byte k (va + of_nat i) = el1_byte k' (va + of_nat i)"
  shows "el1_load n va k = el1_load n va k'"
proof -
  have step: "map_option (\<lambda>a. push_bit 8 v OR ucast (kbytes (kmm k) a)) (el1_addr k w) = map_option (\<lambda>b. push_bit 8 v OR ucast b) (el1_byte k w)"
    for v w and k :: kernel by (simp add: el1_byte_def option.map_comp comp_def)
  show ?thesis unfolding el1_load_def step
    by (rule foldr_cong [OF refl refl]) (use assms in \<open>simp split: option.splits\<close>)
qed

lemma el1_load_stack:
  assumes inv: "kernel_inv im (K, k)" and u: "is_user (cur_task k)" and va: "in_stack va n"
  shows "el1_load n va k = Some (foldr (\<lambda>i acc. push_bit 8 acc OR ucast (kbytes (kmm k) (stack_kva k va + of_nat i))) [0..<n] 0)"
proof -
  have a: "el1_addr k (va + of_nat i) = Some (stack_kva k va + of_nat i)" if "i < n" for i
  proof -
    have "in_stack (va + of_nat i) (Suc 0)" using va that unat_va_add [OF va, of i] by (simp add: in_stack_def)
    from stack_addr [OF inv u this] show ?thesis by (simp add: stack_kva_def)
  qed
  have "foldr (\<lambda>i acc. case acc of None \<Rightarrow> None | Some v \<Rightarrow>
       map_option (\<lambda>a. push_bit 8 v OR ucast (kbytes (kmm k) a)) (el1_addr k (va + of_nat i))) xs (Some 0)
     = Some (foldr (\<lambda>i acc. push_bit 8 acc OR ucast (kbytes (kmm k) (stack_kva k va + of_nat i))) xs 0)"
    if "set xs \<subseteq> {..<n}" for xs
    using that by (induction xs) (simp_all add: a)
  moreover have "set [0..<n] \<subseteq> {..<n}" by auto
  ultimately show ?thesis unfolding el1_load_def by blast
qed

lemma el1_load_stack_8:
  assumes "kernel_inv im (K, k)" "is_user (cur_task k)" "in_stack va 8"
  shows "el1_load 8 va k = Some (load64 (kbytes (kmm k)) (stack_kva k va))"
  using el1_load_stack [OF assms] by (simp add: load64_def)

lemma store_bytes_apply: "n < 2 ^ 64 \<Longrightarrow> store_bytes n a v m x = (if unat (x - a) < n then ucast (drop_bit (8 * unat (x - a)) v) else m x)"
  by (simp add: store_bytes_def fill_bytes_apply)

lemma load_stored:
  fixes m :: memory
  assumes "n \<le> 8" "\<And>i. i < n \<Longrightarrow> m (a + of_nat i) = ucast (drop_bit (8 * i) v)"
  shows "foldr (\<lambda>i acc. push_bit 8 acc OR ucast (m (a + of_nat i))) [0..<n] 0 = take_bit (8 * n) (v :: u64)"
proof (rule bit_eqI)
  fix j assume "possible_bit TYPE(u64) j"
  then have j: "j < 64" by simp
  have "bit (foldr (\<lambda>i acc. push_bit 8 acc OR ucast (m (a + of_nat i))) [0..<n] (0 :: u64)) j \<longleftrightarrow>
      j < 8 * n \<and> bit (m (a + of_nat (j div 8))) (j mod 8)"
    using bit_bytes [of "\<lambda>i. m (a + of_nat i)" 0 n j] j by auto
  also have "\<dots> \<longleftrightarrow> j < 8 * n \<and> bit v j"
    using assms(2) [of "j div 8"] j by (auto simp: bit_simps)
  finally show "bit (foldr (\<lambda>i acc. push_bit 8 acc OR ucast (m (a + of_nat i))) [0..<n] (0 :: u64)) j = bit (take_bit (8 * n) v) j"
    by (simp add: bit_simps)
qed

section \<open>The signal frame\<close>

definition sigframe :: "u64 \<Rightarrow> nat \<Rightarrow> regs \<Rightarrow> memory \<Rightarrow> memory" where
  "sigframe a sg regs m = store_bytes 4 (a + 284) (sigreturn_trampoline ! 1) (store_bytes 4 (a + 280) (sigreturn_trampoline ! 0)
     (store64 (a + 272) (of_nat sg) (put_frame a regs m)))"

lemma push_sigframe_stack:
  assumes inv: "kernel_inv im (K, k)" and u: "is_user (cur_task k)" and fr: "in_stack fr 288"
  shows "push_sigframe fr sg regs k = Some (set_bytes (sigframe (stack_kva k fr) sg regs) k)
    \<and> kernel_inv im (K, set_bytes (sigframe (stack_kva k fr) sg regs) k)"
proof -
  let ?A = "stack_kva k fr"
  define ok where "ok f kk \<longleftrightarrow> kk = Some (set_bytes f k) \<and> kernel_inv im (K, set_bytes f k)" for f kk
  have off: "in_stack (fr + of_nat i) n" "stack_kva k (fr + of_nat i) = ?A + of_nat i" if "i + n \<le> 288" for i n
    using fr that unat_va_add [OF fr, of i] by (simp_all add: in_stack_def stack_kva_def)
  have store: "ok (\<lambda>m. store_bytes n (?A + of_nat i) v (f m)) (Option.bind kk (el1_store n (fr + of_nat i) v))"
    if "ok f kk" "i + n \<le> 288" for f kk i n v
  proof -
    have "is_user (cur_task (set_bytes f k))" using u by simp
    note s = el1_store_stack [OF _ this off(1) [OF that(2)], of im K v]
    show ?thesis using that(1) s unfolding ok_def by (simp add: off(2) [OF that(2)] set_bytes_set_bytes)
  qed
  have st8: "ok (\<lambda>m. store64 (?A + of_nat (8 * i)) v (f m)) (Option.bind kk (el1_store 8 (fr + of_nat (8 * i)) v))"
    if "ok f kk" "i \<le> 34" for f kk i v
    using store [OF that(1), of "8 * i" 8 v] that(2) by (simp add: store_bytes_8)
  have start: "ok (\<lambda>m. m) (Some k)" using inv by (simp add: ok_def set_bytes_def)
  have loop: "ok (fold (\<lambda>i. store64 (?A + of_nat (8 * i)) (regs ! i)) [0..<n])
      (fold (\<lambda>i kk. Option.bind kk (el1_store 8 (fr + of_nat (8 * i)) (regs ! i))) [0..<n] (Some k))" if "n \<le> 34" for n
    using that
  proof (induction n)
    case 0
    then show ?case using start by (simp add: id_def)
  next
    case (Suc n)
    then show ?case using st8 [of "fold (\<lambda>i. store64 (?A + of_nat (8 * i)) (regs ! i)) [0..<n]" _ n "regs ! n"]
      by (simp add: comp_def del: of_nat_mult)
  qed
  have l34: "[0..<34] = [0..<31] @ [31, 32, 33]" by (simp add: upt_conv_Cons upt_rec)
  have "ok (put_frame ?A regs) (fold (\<lambda>i kk. Option.bind kk (el1_store 8 (fr + of_nat (8 * i)) (regs ! i))) [0..<34] (Some k))"
    using loop [of 34] by (simp add: put_frame_def [abs_def])
  from st8 [OF this, of 34 "of_nat sg"]
  have *: "ok (\<lambda>m. store64 (?A + 272) (of_nat sg) (put_frame ?A regs m)) (Option.bind
      (fold (\<lambda>i kk. Option.bind kk (el1_store 8 (fr + of_nat (8 * i)) (regs ! i))) [0..<34] (Some k))
      (el1_store 8 (fr + 272) (of_nat sg)))" by simp
  from store [OF store [OF *, of 280 4 "sigreturn_trampoline ! 0"], of 284 4 "sigreturn_trampoline ! 1"]
  have "ok (sigframe ?A sg regs) (push_sigframe fr sg regs k)"
    unfolding push_sigframe_def Let_def sigframe_def [abs_def] l34 by (simp add: add.assoc)
  then show ?thesis by (simp add: ok_def)
qed

lemma unat_below:
  fixes a :: u64
  assumes "x < c" "c < 2 ^ 32"
  shows "unat (a + of_nat x - (a + of_nat c)) = 2 ^ 64 + x - c"
proof -
  have u: "unat (of_nat x :: u64) = x" "unat (of_nat c :: u64) = c" by (rule unat_of_nat_small, use assms in simp)+
  have "a + of_nat x - (a + of_nat c) = of_nat x - (of_nat c :: u64)" by simp
  then show ?thesis using assms by (simp only: unat_sub_if' u) simp
qed

lemma unat_above:
  fixes a :: u64
  assumes "c \<le> x" "x < 2 ^ 32"
  shows "unat (a + of_nat x - (a + of_nat c)) = x - c"
proof -
  have u: "unat (of_nat x :: u64) = x" "unat (of_nat c :: u64) = c" by (rule unat_of_nat_small, use assms in simp)+
  have "a + of_nat x - (a + of_nat c) = of_nat x - (of_nat c :: u64)" by simp
  then show ?thesis using assms by (simp only: unat_sub_if' u) simp
qed

lemma sigframe_bytes:
  shows "x < 272 \<Longrightarrow> sigframe a sg regs m (a + of_nat x) = put_frame a regs m (a + of_nat x)"
    and "i < 4 \<Longrightarrow> sigframe a sg regs m (a + 280 + of_nat i) = ucast (drop_bit (8 * i) (sigreturn_trampoline ! 0))"
    and "i < 4 \<Longrightarrow> sigframe a sg regs m (a + 284 + of_nat i) = ucast (drop_bit (8 * i) (sigreturn_trampoline ! 1))"
proof -
  note sb = store_bytes_apply [where n = 4, simplified]
  show "sigframe a sg regs m (a + of_nat x) = put_frame a regs m (a + of_nat x)" if "x < 272"
  proof -
    have "unat (a + of_nat x - (a + 284)) = 2 ^ 64 + x - 284" "unat (a + of_nat x - (a + 280)) = 2 ^ 64 + x - 280"
      "unat (a + of_nat x - (a + 272)) = 2 ^ 64 + x - 272"
      using unat_below [of x 284 a] unat_below [of x 280 a] unat_below [of x 272 a] that by simp_all
    then show ?thesis using that by (simp add: sigframe_def sb store64_def word_less_nat_alt)
  qed
  show "sigframe a sg regs m (a + 280 + of_nat i) = ucast (drop_bit (8 * i) (sigreturn_trampoline ! 0))" if "i < 4"
  proof -
    have "unat (a + 280 + of_nat i - (a + 284)) = 2 ^ 64 + (280 + i) - 284" "unat (a + 280 + of_nat i - (a + 280)) = i"
      using unat_below [of "280 + i" 284 a] unat_above [of 280 "280 + i" a] that by (simp_all add: add.assoc)
    then show ?thesis using that by (simp add: sigframe_def sb)
  qed
  show "sigframe a sg regs m (a + 284 + of_nat i) = ucast (drop_bit (8 * i) (sigreturn_trampoline ! 1))" if "i < 4"
  proof -
    have "unat (a + 284 + of_nat i - (a + 284)) = i" using unat_above [of 284 "284 + i" a] that by (simp add: add.assoc)
    then show ?thesis using that by (simp add: sigframe_def sb)
  qed
qed

lemma load_sigframe:
  assumes "j < 34"
  shows "load64 (sigframe a sg regs m) (a + of_nat (8 * j)) = regs ! j"
proof -
  have "load64 (sigframe a sg regs m) (a + of_nat (8 * j)) = load64 (put_frame a regs m) (a + of_nat (8 * j))"
  proof (rule load64_cong)
    fix i :: nat assume i: "i < 8"
    have "a + of_nat (8 * j) + of_nat i = a + of_nat (8 * j + i)" by (simp add: add.assoc)
    moreover have "8 * j + i < 272" using i assms by simp
    ultimately show "sigframe a sg regs m (a + of_nat (8 * j) + of_nat i) = put_frame a regs m (a + of_nat (8 * j) + of_nat i)"
      using sigframe_bytes(1) by metis
  qed
  then show ?thesis using load_put_frame [OF assms] by simp
qed

text \<open>Loading the 34 registers back.\<close>

lemma load_regs_all:
  assumes "\<And>i. i < 34 \<Longrightarrow> el1_load 8 (fr + of_nat (8 * i)) k = Some (v ! i)" "length regs = 34" "length v = 34"
  shows "load_regs fr k ([0..<31] @ [31, 32, 33]) regs = Some v"
proof -
  have "load_regs fr k [0..<n] regs = Some (take n v @ drop n regs)" if "n \<le> 34" for n
    using that
  proof (induction n)
    case (Suc n)
    have "(take n v @ drop n regs)[n := v ! n] = take (Suc n) v @ drop (Suc n) regs"
      using Suc.prems assms(2,3)
      by (simp add: list_update_append take_Suc_conv_app_nth Cons_nth_drop_Suc [symmetric])
    then show ?case using Suc assms(1) [of n] by (simp add: load_regs_def)
  qed (simp add: load_regs_def)
  from this [of 34] assms(2,3) have "load_regs fr k [0..<34] regs = Some v" by simp
  moreover have "[0..<34] = [0..<31] @ [31, 32, 33]" by (simp add: upt_conv_Cons upt_rec)
  ultimately show ?thesis by simp
qed

section \<open>Properties\<close>

lemma align_sp:
  fixes r :: u64
  assumes "0x7FC000 + 304 \<le> unat r" "unat r \<le> 0x800000"
  shows "in_stack ((r - SIGFRAME_SIZE) AND NOT 0xF) 288" "16 dvd unat ((r - SIGFRAME_SIZE) AND NOT 0xF)"
proof -
  have sub: "unat (r - 288) = unat r - 288" using assms by (simp add: unat_sub word_le_nat_alt)
  moreover have "unat ((r - 288) AND NOT 0xF) = unat (r - 288) div 16 * 16"
  proof -
    have "(r - 288) AND NOT 0xF = (r - 288) AND NOT (mask 4)" by (simp add: mask_eq_exp_minus_1)
    also have "\<dots> = push_bit 4 (drop_bit 4 (r - 288))" by (rule bit_eqI) (auto simp: bit_simps)
    finally show ?thesis using assms(2) by (simp add: push_bit_eq_mult unat_word_ariths unat_drop_bit_eq drop_bit_eq_div sub)
  qed
  ultimately have e: "unat ((r - SIGFRAME_SIZE) AND NOT 0xF) = (unat r - 288) div 16 * 16" by (simp add: SIGFRAME_SIZE_def)
  show "in_stack ((r - SIGFRAME_SIZE) AND NOT 0xF) 288" unfolding in_stack_def e
    using div_le_mono [of 8372240 "unat r - 288" 16] div_le_mono [of "unat r - 288" 8388320 16] assms by simp
  show "16 dvd unat ((r - SIGFRAME_SIZE) AND NOT 0xF)" unfolding e by simp
qed

text \<open>
  C11: delivering a signal to a process with a handler enters the handler with the signal number in
  x0, an aligned stack, and a return address at which the two instructions of the trampoline stand;
  when \<open>sigreturn\<close> is then called with the frame untouched, all interrupted registers come back.
\<close>

theorem signal_deliver_return:
  assumes inv: "kernel_inv im (K, k)" and u: "is_user (cur_task k)" and len: "length regs = 34"
    and sp: "0x7FC000 + 304 \<le> unat (regs ! 31)" "unat (regs ! 31) \<le> 0x800000"
    and sg: "sg = lowest_pending (pending (sig (cur_task k)))" "sg \<noteq> 0" "sg \<noteq> SIGKILL"
    and h: "handlers (sig (cur_task k)) ! sg = handler" "handler \<noteq> SIG_IGN" "handler \<noteq> SIG_DFL"
  shows "\<exists>regs' k'. signal_deliver im regs k = Some (Returned 1 regs' k') \<and> kernel_inv im (K, k')
    \<and> regs' ! 0 = of_nat sg \<and> regs' ! 32 = handler \<and> regs' ! 33 = regs ! 33 \<and> 16 dvd unat (regs' ! 31)
    \<and> el1_load 4 (regs' ! 30) k' = Some 0xd2800208 \<and> el1_load 4 (regs' ! 30 + 4) k' = Some 0xd4000001
    \<and> (\<forall>rs kr. length rs = 34 \<longrightarrow> rs ! 31 = regs' ! 31
        \<longrightarrow> (\<forall>i < 272. el1_byte kr (regs' ! 31 + of_nat i) = el1_byte k' (regs' ! 31 + of_nat i))
        \<longrightarrow> signal_return rs kr = Some regs)"
proof -
  let ?c = "current_task k" and ?fr = "(regs ! 31 - SIGFRAME_SIZE) AND NOT 0xF"
  let ?f = "\<lambda>t. t\<lparr>sig := (sig t)\<lparr>pending := pending (sig t) AND NOT (push_bit sg 1)\<rparr>\<rparr>"
  define k1 where "k1 = upd_task ?c ?f k"
  obtain own where o: "table_ok im k" "current_task k < num_tasks k" using kernel_invE [OF inv] by metis
  have l: "?c < length (tasks k)" by (rule cur_less [OF o(1)])
  have at: "task_at k1 ?c = ?f (cur_task k)" "current_task k1 = ?c" using l by (simp_all add: k1_def task_at_upd)
  have "k1 = upd_task ?c (\<lambda>t. t\<lparr>sig := (sig (cur_task k))\<lparr>pending := pending (sig (cur_task k)) AND NOT (push_bit sg 1)\<rparr>\<rparr>) k"
    by (simp add: k1_def upd_task_def)
  then have inv1: "kernel_inv im (K, k1)" using kernel_inv_step [OF inv kstep.signal_state] by metis
  have u1: "is_user (cur_task k1)" using u by (simp add: at)
  note fr = align_sp [OF sp]
  let ?A = "stack_kva k1 ?fr" and ?k2 = "set_bytes (sigframe (stack_kva k1 ?fr) sg regs) k1"
  note p = push_sigframe_stack [OF inv1 u1 fr(1), of sg regs]
  let ?r = "regs[0 := of_nat sg, 30 := ?fr + 35 * 8, 31 := ?fr, 32 := handler]"
  have pz: "pending (sig (cur_task k)) \<noteq> 0" using sg(1,2) by (auto simp: lowest_pending_def find_Some_iff split: option.splits)
  have g: "sched_get_task (int (sched_current_id k)) k = Some ?c" using o(2) by (simp add: sched_get_task_def sched_current_id_def)
  have del: "signal_deliver im regs k = Some (Returned 1 ?r ?k2)"
    unfolding signal_deliver_def Let_def g option.case sg(1) [symmetric] k1_def [symmetric]
    using u pz sg(2,3) h p at by simp
  have u2: "is_user (cur_task ?k2)" using u1 by simp
  have r: "?r ! 0 = of_nat sg" "?r ! 30 = ?fr + 280" "?r ! 31 = ?fr" "?r ! 32 = handler" "?r ! 33 = regs ! 33" using len by simp_all
  have tr: "in_stack (?fr + 280) 4" "in_stack (?fr + 280 + 4) 4"
    using fr(1) unat_va_add [OF fr(1), of 280] unat_va_add [OF fr(1), of 284] by (simp_all add: in_stack_def add.assoc)
  have "el1_load 4 (?fr + 280) ?k2 = Some (take_bit (8 * 4) (sigreturn_trampoline ! 0))"
  proof -
    have "stack_kva ?k2 (?fr + 280) = ?A + 280" by (simp add: stack_kva_def)
    then show ?thesis using el1_load_stack [OF conjunct2 [OF p] u2 tr(1)]
        load_stored [of 4 "sigframe ?A sg regs (kbytes (kmm k1))" "?A + 280" "sigreturn_trampoline ! 0"] sigframe_bytes(2) by simp
  qed
  then have t0: "el1_load 4 (?r ! 30) ?k2 = Some 0xd2800208" unfolding r by (simp add: sigreturn_trampoline_def take_bit_eq_mod)
  have "el1_load 4 (?fr + 280 + 4) ?k2 = Some (take_bit (8 * 4) (sigreturn_trampoline ! 1))"
  proof -
    have "stack_kva ?k2 (?fr + 280 + 4) = ?A + 284" by (simp add: stack_kva_def)
    then show ?thesis using el1_load_stack [OF conjunct2 [OF p] u2 tr(2)]
        load_stored [of 4 "sigframe ?A sg regs (kbytes (kmm k1))" "?A + 284" "sigreturn_trampoline ! 1"] sigframe_bytes(3) by simp
  qed
  then have t1: "el1_load 4 (?r ! 30 + 4) ?k2 = Some 0xd4000001" unfolding r by (simp add: sigreturn_trampoline_def take_bit_eq_mod)
  have load: "el1_load 8 (?fr + of_nat (8 * i)) ?k2 = Some (regs ! i)" if i: "i < 34" for i
  proof -
    have s: "in_stack (?fr + of_nat (8 * i)) 8" using fr(1) i unat_va_add [OF fr(1), of "8 * i"] by (simp add: in_stack_def)
    have "stack_kva ?k2 (?fr + of_nat (8 * i)) = ?A + of_nat (8 * i)" by (simp add: stack_kva_def)
    then show ?thesis using el1_load_stack_8 [OF conjunct2 [OF p] u2 s] load_sigframe [OF i] by simp
  qed
  have restored: "signal_return rs kr = Some regs" if "length rs = 34" "rs ! 31 = ?r ! 31"
    "\<forall>i < 272. el1_byte kr (?r ! 31 + of_nat i) = el1_byte ?k2 (?r ! 31 + of_nat i)" for rs kr
  proof -
    note same = that(3)
    have "el1_load 8 (?fr + of_nat (8 * i)) kr = Some (regs ! i)" if i: "i < 34" for i
    proof -
      have "el1_load 8 (?fr + of_nat (8 * i)) kr = el1_load 8 (?fr + of_nat (8 * i)) ?k2"
      proof (rule el1_load_cong)
        fix j :: nat assume "j < 8"
        then have "8 * i + j < 272" using i by simp
        then have "el1_byte kr (?fr + of_nat (8 * i + j)) = el1_byte ?k2 (?fr + of_nat (8 * i + j))" using same unfolding r by blast
        then show "el1_byte kr (?fr + of_nat (8 * i) + of_nat j) = el1_byte ?k2 (?fr + of_nat (8 * i) + of_nat j)"
          by (simp add: add.assoc)
      qed
      then show ?thesis using load [OF i] by simp
    qed
    from load_regs_all [OF this that(1) len] show ?thesis unfolding signal_return_def Let_def that(2) r .
  qed
  show ?thesis
    by (intro exI [of _ ?r] exI [of _ ?k2] conjI del conjunct2 [OF p] r(1,4,5) t0 t1 allI impI restored)
      (use fr(2) r in simp_all)
qed

theorem signal_deliver_return_witness:
  "\<exists>k regs' k'. is_user (cur_task k) \<and> signal_deliver demo_im (replicate 34 0x7FF000) k = Some (Returned 1 regs' k')
    \<and> regs' ! 0 = 10 \<and> regs' ! 32 = 0x400100 \<and> signal_return regs' k' = Some (replicate 34 0x7FF000)"
proof -
  obtain k0 where k0: "(kstep MAX_PROGRAM demo_im)\<^sup>*\<^sup>* (demo_K, demo_boot) (demo_K, k0)" "current_task k0 = 1" "num_tasks k0 = 3" "is_user (task_at k0 1)"
    and inv0: "kernel_inv demo_im (demo_K, k0)"
    using demo_two by metis
  let ?ss = "\<lparr>handlers = replicate 32 0x400100, pending = 0x400\<rparr>"
  define k where "k = upd_task (current_task k0) (\<lambda>t. t\<lparr>sig := ?ss\<rparr>) k0"
  have inv: "kernel_inv demo_im (demo_K, k)" using kernel_inv_step [OF inv0 kstep.signal_state] by (simp add: k_def)
  obtain own where "table_ok demo_im k0" using kernel_invE [OF inv0] by metis
  from cur_less [OF this] have at: "cur_task k = (cur_task k0)\<lparr>sig := ?ss\<rparr>" by (simp add: k_def task_at_upd)
  have u: "is_user (cur_task k)" using k0(2,4) by (simp only: at) simp
  have sg: "10 = lowest_pending (pending (sig (cur_task k)))"
    by (simp add: at lowest_pending_def NSIG_def upt_conv_Cons)
  have hd: "handlers (sig (cur_task k)) ! 10 = 0x400100" by (simp add: at)
  have ne: "(10 :: nat) \<noteq> 0" "10 \<noteq> SIGKILL" "(0x400100 :: u64) \<noteq> SIG_IGN" "(0x400100 :: u64) \<noteq> SIG_DFL"
    by (simp_all add: SIGKILL_def SIG_IGN_def SIG_DFL_def)
  let ?regs = "replicate 34 0x7FF000 :: regs"
  have r: "length ?regs = 34" "0x7FC000 + 304 \<le> unat (?regs ! 31)" "unat (?regs ! 31) \<le> 0x800000" by simp_all
  obtain regs' k' where d: "signal_deliver demo_im ?regs k = Some (Returned 1 regs' k')" "regs' ! 0 = of_nat 10" "regs' ! 32 = 0x400100"
    "\<forall>rs kr. length rs = 34 \<longrightarrow> rs ! 31 = regs' ! 31
        \<longrightarrow> (\<forall>i < 272. el1_byte kr (regs' ! 31 + of_nat i) = el1_byte k' (regs' ! 31 + of_nat i)) \<longrightarrow> signal_return rs kr = Some ?regs"
    using signal_deliver_return [OF inv u r sg ne(1,2) hd ne(3,4)] by (elim exE conjE) (rule that)
  have "length regs' = 34"
    using d(1) by (auto simp: signal_deliver_def signal_default_action_def Let_def split: option.splits if_splits)
  then have "signal_return regs' k' = Some ?regs" using d(4) by blast
  then show ?thesis using u d by (intro exI [of _ k] exI [of _ regs'] exI [of _ k']) simp
qed

text \<open>
  \<open>sigreturn\<close> believes the frame on the user stack: all 34 registers, the saved program status
  in the last one included, become what the process has stored there. Nothing restricts the status
  to the unprivileged mode.
\<close>

theorem signal_return_registers:
  assumes inv: "kernel_inv im (K, k)" and u: "is_user (cur_task k)" and len: "length regs = 34" and fr: "in_stack (regs ! 31) 272"
  shows "signal_return regs k = Some (get_frame (stack_kva k (regs ! 31)) (kbytes (kmm k)))"
proof -
  have "el1_load 8 (regs ! 31 + of_nat (8 * i)) k = Some (get_frame (stack_kva k (regs ! 31)) (kbytes (kmm k)) ! i)" if i: "i < 34" for i
  proof -
    have s: "in_stack (regs ! 31 + of_nat (8 * i)) 8" using fr i unat_va_add [OF fr, of "8 * i"] by (simp add: in_stack_def)
    have "stack_kva k (regs ! 31 + of_nat (8 * i)) = stack_kva k (regs ! 31) + of_nat (8 * i)" by (simp add: stack_kva_def)
    then show ?thesis using el1_load_stack_8 [OF inv u s] i by (simp add: get_frame_def del: of_nat_mult)
  qed
  from load_regs_all [OF this len] show ?thesis by (simp add: signal_return_def Let_def get_frame_def)
qed

theorem signal_return_registers_witness:
  "\<exists>k. is_user (cur_task k) \<and> signal_return (replicate 34 0x7FF000) k = Some (get_frame (stack_kva k 0x7FF000) (kbytes (kmm k)))"
proof -
  obtain k where k: "(kstep MAX_PROGRAM demo_im)\<^sup>*\<^sup>* (demo_K, demo_boot) (demo_K, k)" "current_task k = 1" "num_tasks k = 3" "is_user (task_at k 1)"
    and inv: "kernel_inv demo_im (demo_K, k)"
    using demo_two by metis
  have "is_user (cur_task k)" using k by simp
  moreover have "in_stack (replicate 34 0x7FF000 ! 31) 272" by (simp add: in_stack_def)
  ultimately have "signal_return (replicate 34 0x7FF000) k = Some (get_frame (stack_kva k (replicate 34 0x7FF000 ! 31)) (kbytes (kmm k)))"
    by (intro signal_return_registers [OF inv]) simp_all
  then show ?thesis using \<open>is_user (cur_task k)\<close> by auto
qed

end
