(* ===== verification/Syscall.thy ===== *)
theory Syscall
  imports SignalSpec
begin

text \<open>
  System-call dispatch, \<^verbatim>\<open>src/syscall.c\<close>. The registers are those of the saved frame: the number in
  x8, arguments and result in x0 to x2. A call returns, or gives the CPU away and goes on when the
  task is resumed, or ends the task.
\<close>

section \<open>User memory\<close>

text \<open>The bytes at a user pointer; what is not mapped faults when it is accessed.\<close>

definition user_bytes :: "kernel \<Rightarrow> u64 \<Rightarrow> nat \<Rightarrow> u8 list option" where
  "user_bytes k va n = foldr (\<lambda>i acc. case acc of None \<Rightarrow> None | Some bs \<Rightarrow>
     map_option (\<lambda>b. b # bs) (el1_byte k (va + of_nat i))) [0..<n] (Some [])"

partial_function (option) user_str :: "kernel \<Rightarrow> u64 \<Rightarrow> u8 list option" where
  "user_str k va = (case el1_byte k va of None \<Rightarrow> None | Some b \<Rightarrow>
     if b = 0 then Some [] else Option.bind (user_str k (va + 1)) (\<lambda>bs. Some (b # bs)))"

definition store_user :: "u64 \<Rightarrow> u8 list \<Rightarrow> kernel \<Rightarrow> kernel option" where
  "store_user va bs k = fold (\<lambda>i k. Option.bind k (el1_store8 (va + of_nat i) (bs ! i))) [0..<length bs] (Some k)"

text \<open>
  \<open>fd_read\<close> stores into the buffer of its caller and never looks at what is there. Its stores are found by
  running it on a buffer of zeros and on one of ones: where the two results agree, a byte has been stored. Each of these
  is a store to user memory, which faults where that is not mapped. \<open>fd_read_stored\<close> in \<open>Buffers\<close> shows that this is right.
\<close>

definition stored :: "(u32 \<Rightarrow> u8) \<Rightarrow> (u32 \<Rightarrow> u8) \<Rightarrow> u32 \<Rightarrow> u8 option" where
  "stored on_zeros on_ones i = (if on_zeros i = on_ones i then Some (on_zeros i) else None)"

definition write_back :: "nat \<Rightarrow> u64 \<Rightarrow> (u32 \<Rightarrow> u8 option) \<Rightarrow> kernel \<Rightarrow> kernel option" where
  "write_back n va bytes k = fold (\<lambda>i k. case bytes (of_nat i) of
       None \<Rightarrow> k
     | Some b \<Rightarrow> Option.bind k (el1_store8 (va + of_nat i) b)) [0..<n] (Some k)"

section \<open>Directory listing\<close>

text \<open>Appending a character while there is room: \<open>pos < buflen - 1\<close>.\<close>

definition put_char :: "nat \<Rightarrow> u8 \<Rightarrow> u8 list \<Rightarrow> u8 list" where
  "put_char lim c out = (if length out < lim then out @ [c] else out)"

definition put_name :: "nat \<Rightarrow> u8 list \<Rightarrow> u8 list \<Rightarrow> u8 list" where
  "put_name lim cs out = fold (\<lambda>c out. if c \<noteq> 0x20 then put_char lim c out else out) cs out"

definition put_entry :: "nat \<Rightarrow> fat16_dirent \<Rightarrow> u8 list \<Rightarrow> u8 list" where
  "put_entry lim de out =
     (let out = put_name lim (take 8 (de_name de)) out;
          out = (if de_ext de ! 0 \<noteq> 0x20 \<and> length out < lim
                 then put_name lim (take 3 (de_ext de)) (out @ [0x2E]) else out)
      in put_char lim 0x0A out)"

fun listdir_entries :: "nat \<Rightarrow> fat16_dirent list \<Rightarrow> u8 list \<Rightarrow> u8 list \<times> bool" where
  "listdir_entries lim [] out = (out, False)"
| "listdir_entries lim (de # des) out =
     (if length out < lim then
        if de_name de ! 0 = 0x00 then (out, True)
        else if de_name de ! 0 = 0xE5 then listdir_entries lim des out
        else if de_attr de AND 0x1E \<noteq> 0 then listdir_entries lim des out
        else listdir_entries lim des (put_entry lim de out)
      else (out, False))"

fun listdir_sectors :: "disk \<Rightarrow> nat \<Rightarrow> u32 \<Rightarrow> nat \<Rightarrow> u8 list \<Rightarrow> u8 list" where
  "listdir_sectors blk lim sec 0 out = out"
| "listdir_sectors blk lim sec (Suc n) out =
     (if length out < lim then
        case blk sec of
          None \<Rightarrow> out
        | Some b \<Rightarrow> (case listdir_entries lim (sector_entries b) out of
              (out, True) \<Rightarrow> out
            | (out, False) \<Rightarrow> listdir_sectors blk lim (sec + 1) n out)
      else out)"

text \<open>\<open>buflen - 1\<close> is a 32-bit difference.\<close>

definition listdir :: "disk \<Rightarrow> fat16_fs \<Rightarrow> u32 \<Rightarrow> u8 list" where
  "listdir blk fs buflen = listdir_sectors blk (unat (buflen - 1)) (root_dir_sector (bpb fs)) (unat (root_dir_sectors (bpb fs))) []"

section \<open>Calls\<close>

text \<open>
  What the calls take from outside the kernel state: the disk and the mounted file system, and the
  results of the kernel heap (0 where \<open>kmalloc\<close> fails; \<open>junk\<close> is what a fresh buffer holds).
\<close>

record sys_env =
  blk :: disk
  root_fs :: fat16_fs
  new_file :: u64
  new_pipe_ptr :: u64
  rd_file :: u64
  wr_file :: u64
  exec_buf :: u64
  tmp_ok :: bool
  junk :: "u32 \<Rightarrow> u8"

text \<open>
  \<open>Ret\<close>: the call is over, with these registers. \<open>Later\<close>: the CPU was given away; when the task is
  resumed the call ends with these registers. \<open>Again\<close>: the same, but the call is then tried again;
  a write goes on with the rest of its bytes. \<open>Ended\<close>: the task has exited.
\<close>

datatype outcome = Ret regs kernel uart | Later regs kernel uart | Again kernel uart "u8 list" | Ended kernel

abbreviation arg_int :: "u64 \<Rightarrow> int" where
  "arg_int a \<equiv> sint (ucast a :: u32)"

abbreviation ret :: "regs \<Rightarrow> int \<Rightarrow> kernel \<Rightarrow> uart \<Rightarrow> outcome option" where
  "ret regs n k u \<equiv> Some (Ret (regs[0 := of_int n]) k u)"

definition current_fdt :: "kernel \<Rightarrow> fd_table" where
  "current_fdt k = fdt (task_at k (sched_current_id k))"

definition set_fdt :: "fd_table \<Rightarrow> fdsys \<Rightarrow> kernel \<Rightarrow> kernel" where
  "set_fdt t s k = (upd_task (current_task k) (\<lambda>x. x\<lparr>fdt := t\<rparr>) k)\<lparr>fds := s\<rparr>"

text \<open>How far \<open>fd_read\<close> may write into its buffer: a console read of no bytes has no limit, and a file
  read also leaves the bytes before its position there.\<close>

definition read_extent :: "fd_table \<Rightarrow> int \<Rightarrow> u32 \<Rightarrow> fdsys \<Rightarrow> nat" where
  "read_extent tab fd count s =
     (if \<not> fd_valid tab fd then 0
      else case files s (the (tab ! nat fd)) of
        None \<Rightarrow> 0
      | Some f \<Rightarrow> if ftype f = FD_TYPE_FILE then unat (f_position f) + unat count
          else if count = 0 \<and> ftype f = FD_TYPE_CONSOLE then 2 ^ 32 else unat count)"

definition sys_read :: "image \<Rightarrow> sys_env \<Rightarrow> regs \<Rightarrow> kernel \<Rightarrow> uart \<Rightarrow> outcome option" where
  "sys_read im e regs k u =
     (let fd = arg_int (regs ! 0); va = regs ! 1; count = ucast (regs ! 2) :: u32;
          n = read_extent (current_fdt k) fd count (fds k);
          rd = (\<lambda>b. fd_read (blk e) (root_fs e) (tmp_ok e) (junk e) (current_fdt k) fd (\<lambda>_. b) count (fds k) u)
      in case (rd 0, rd 1) of
           (Some (Blocked, s, u), _) \<Rightarrow> Some (Again (sched_yield im (k\<lparr>fds := s\<rparr>)) u [])
         | (Some (Done (r, on_zeros), s, u), Some (Done (_, on_ones), _)) \<Rightarrow>
             (case write_back n va (stored on_zeros on_ones) k of
                None \<Rightarrow> None
              | Some k \<Rightarrow> ret regs r (k\<lparr>fds := s\<rparr>) u)
         | _ \<Rightarrow> None)"

definition sys_write_rest :: "image \<Rightarrow> bool \<Rightarrow> u8 list \<Rightarrow> regs \<Rightarrow> kernel \<Rightarrow> uart \<Rightarrow> outcome option" where
  "sys_write_rest im first src regs k u =
     (case fd_write first (current_fdt k) (arg_int (regs ! 0)) src (sint (ucast (regs ! 2) :: u32)) (fds k) u of
        None \<Rightarrow> None
      | Some (Wrote r, s, u) \<Rightarrow> ret regs r (k\<lparr>fds := s\<rparr>) u
      | Some (Waiting rest, s, u) \<Rightarrow> Some (Again (sched_yield im (k\<lparr>fds := s\<rparr>)) u rest))"

text \<open>Whether \<open>fd_write\<close> comes to read from its buffer at all.\<close>

definition reads_source :: "fd_table \<Rightarrow> int \<Rightarrow> fdsys \<Rightarrow> bool" where
  "reads_source tab fd s \<longleftrightarrow> fd_valid tab fd \<and>
     (case files s (the (tab ! nat fd)) of
        None \<Rightarrow> True
      | Some f \<Rightarrow> ftype f = FD_TYPE_CONSOLE \<or> ftype f = FD_TYPE_PIPE \<and> fpipe f \<noteq> 0
          \<and> (case pipes s (fpipe f) of None \<Rightarrow> True | Some p \<Rightarrow> read_open p))"

definition sys_write :: "image \<Rightarrow> regs \<Rightarrow> kernel \<Rightarrow> uart \<Rightarrow> outcome option" where
  "sys_write im regs k u =
     (case user_bytes k (regs ! 1) (unat (ucast (regs ! 2) :: u32)) of
        None \<Rightarrow> if reads_source (current_fdt k) (arg_int (regs ! 0)) (fds k) then None else sys_write_rest im True [] regs k u
      | Some src \<Rightarrow> sys_write_rest im True src regs k u)"

definition sys_open :: "sys_env \<Rightarrow> regs \<Rightarrow> kernel \<Rightarrow> uart \<Rightarrow> outcome option" where
  "sys_open e regs k u =
     (case (if find_free_fd (current_fdt k) < 0 then Some None
            else map_option (\<lambda>path. fat16_open (blk e) (root_fs e) path) (user_str k (regs ! 0))) of
        None \<Rightarrow> None
      | Some opened \<Rightarrow>
          (case fd_open (current_fdt k) opened (arg_int (regs ! 1)) (new_file e) (fds k) of
             (r, t, s) \<Rightarrow> ret regs r (set_fdt t s k) u))"

definition sys_close :: "regs \<Rightarrow> kernel \<Rightarrow> uart \<Rightarrow> outcome option" where
  "sys_close regs k u =
     (case fd_close (current_fdt k) (arg_int (regs ! 0)) (fds k) of
        None \<Rightarrow> None
      | Some (r, t, s) \<Rightarrow> ret regs r (set_fdt t s k) u)"

definition sys_pipe :: "sys_env \<Rightarrow> regs \<Rightarrow> kernel \<Rightarrow> uart \<Rightarrow> outcome option" where
  "sys_pipe e regs k u =
     (case fd_pipe (current_fdt k) (new_pipe_ptr e) (rd_file e) (wr_file e) (fds k) of
        (r, None, t, s) \<Rightarrow> ret regs r (set_fdt t s k) u
      | (r, Some (rfd, wfd), t, s) \<Rightarrow>
          (case Option.bind (el1_store 4 (regs ! 0) (of_int rfd) (set_fdt t s k)) (el1_store 4 (regs ! 0 + 4) (of_int wfd)) of
             None \<Rightarrow> None
           | Some k \<Rightarrow> ret regs r k u))"

definition sys_dup2 :: "regs \<Rightarrow> kernel \<Rightarrow> uart \<Rightarrow> outcome option" where
  "sys_dup2 regs k u =
     (case fd_dup2 (current_fdt k) (arg_int (regs ! 0)) (arg_int (regs ! 1)) (fds k) of
        None \<Rightarrow> None
      | Some (r, t, s) \<Rightarrow> ret regs r (set_fdt t s k) u)"

text \<open>\<open>SYS_EXEC\<close>: the file is read into a kernel buffer at \<open>exec_buf\<close>, from which the program is copied.\<close>

definition sys_exec :: "image \<Rightarrow> sys_env \<Rightarrow> regs \<Rightarrow> kernel \<Rightarrow> uart \<Rightarrow> outcome option" where
  "sys_exec im e regs k u =
     (let name_len = ucast (regs ! 1) :: u32; name_len = (if name_len > 30 then 30 else name_len)
      in case user_bytes k (regs ! 0) (unat name_len) of
           None \<Rightarrow> None
         | Some bs \<Rightarrow>
             let fname = takeWhile (\<lambda>c. c \<noteq> 0) bs
             in case fat16_open (blk e) (root_fs e) fname of
                  None \<Rightarrow> ret regs (-1) k u
                | Some file \<Rightarrow>
                    if ff_file_size file = 0 \<or> exec_buf e = 0 then ret regs (-1) k u
                    else case fat16_read_file (blk e) (root_fs e) file (junk e) (ff_file_size file) of
                      None \<Rightarrow> None
                    | Some (bytes, buf) \<Rightarrow>
                        let k = set_bytes (fill_bytes 0 (unat (ff_file_size file)) (exec_buf e) (\<lambda>i. buf (of_nat i))) k
                        in if bytes < 0 then ret regs (-1) k u
                        else case sched_create_user im fname (exec_buf e) (of_int bytes) k of
                          None \<Rightarrow> None
                        | Some (t, k) \<Rightarrow> ret regs (if t < 0 then -1 else t) k u)"

definition sys_listdir :: "sys_env \<Rightarrow> regs \<Rightarrow> kernel \<Rightarrow> uart \<Rightarrow> outcome option" where
  "sys_listdir e regs k u =
     (let out = listdir (blk e) (root_fs e) (ucast (regs ! 1))
      in case store_user (regs ! 0) (out @ [0]) k of
           None \<Rightarrow> None
         | Some k \<Rightarrow> ret regs (int (length out)) k u)"

section \<open>Dispatch\<close>

definition dispatch :: "image \<Rightarrow> sys_env \<Rightarrow> regs \<Rightarrow> kernel \<Rightarrow> uart \<Rightarrow> outcome option" where
  "dispatch im e regs k u =
     (let num = regs ! 8 in
      if num = 0 then sys_read im e regs k u
      else if num = 1 then sys_write im regs k u
      else if num = 2 then sys_open e regs k u
      else if num = 3 then sys_close regs k u
      else if num = 4 then ret regs (int (sched_current_id k)) k u
      else if num = 5 then map_option Ended (sched_exit im k)
      else if num = 6 then Some (Later (regs[0 := 0]) (sched_yield im k) u)
      else if num = 7 then sys_exec im e regs k u
      else if num = 8 then
        (case sched_wait im (arg_int (regs ! 0)) k of
           (Done r, k) \<Rightarrow> ret regs r k u
         | (Blocked, k) \<Rightarrow> Some (Later (regs[0 := 0]) k u))
      else if num = 9 then map_option (\<lambda>(r, k). Ret (regs[0 := r]) k u) (sys_sbrk (regs ! 0) k)
      else if num = 10 then sys_listdir e regs k u
      else if num = 11 then map_option (\<lambda>(r, k). Ret (regs[0 := of_int r]) k u) (sched_fork im regs k)
      else if num = 12 then sys_pipe e regs k u
      else if num = 13 then sys_dup2 regs k u
      else if num = 14 then (case signal_send (arg_int (regs ! 0)) (arg_int (regs ! 1)) k of (r, k) \<Rightarrow> ret regs r k u)
      else if num = 15 then (case signal_set_handler (arg_int (regs ! 0)) (regs ! 1) k of (r, k) \<Rightarrow> Some (Ret (regs[0 := r]) k u))
      else if num = 16 then map_option (\<lambda>regs. Ret regs k u) (signal_return regs k)
      else ret regs (-1) k u)"

text \<open>
  Pending signals are looked at when a call is over. After \<open>Later regs\<close> that is when the task runs
  again, with \<open>syscall_return\<close> on those registers; after \<open>Again\<close> the call goes on with \<open>dispatch\<close>, or
  with \<open>sys_write_rest\<close> for the rest of a write.
\<close>

definition syscall_return :: "image \<Rightarrow> regs \<Rightarrow> kernel \<Rightarrow> uart \<Rightarrow> outcome option" where
  "syscall_return im regs k u =
     map_option (\<lambda>d. case d of Returned _ regs k \<Rightarrow> Ret regs k u | Switched k \<Rightarrow> Ended k) (signal_deliver im regs k)"

definition syscall_handler :: "image \<Rightarrow> sys_env \<Rightarrow> regs \<Rightarrow> kernel \<Rightarrow> uart \<Rightarrow> outcome option" where
  "syscall_handler im e regs k u =
     (case dispatch im e regs k u of Some (Ret regs k u) \<Rightarrow> syscall_return im regs k u | r \<Rightarrow> r)"

end
