(* ===== verification/Turns.thy ===== *)
theory Turns
  imports KernelSpec
begin

text \<open>
  What a task finds when it is current again: whatever the other tasks and the timer did in the meantime, its memory,
  its break, its descriptors and the console are as it left them, and it can still be chosen to run.
\<close>

section \<open>The console object stays\<close>

definition console_type :: "fdsys \<Rightarrow> fd_type option" where
  "console_type s = map_option ftype (files s Console)"

lemma add_ref_console: "add_ref n r s = Some s' \<Longrightarrow> console_type s' = console_type s"
  by (auto simp: add_ref_def console_type_def)

lemma fd_close_console: "fd_close t fd s = Some (r, t', s') \<Longrightarrow> console_type s' = console_type s"
  by (auto simp: fd_close_def close_pipe_end_def console_type_def files_free_file Let_def split: if_splits option.splits)

lemma destroy_from_console: "destroy_from i n t s = Some (t', s') \<Longrightarrow> console_type s' = console_type s"
proof (induction n arbitrary: i t s)
  case (Suc n)
  then show ?case using fd_close_console by (fastforce split: if_splits option.splits)
qed simp

lemma fd_table_dup_console: "fd_table_dup src s = Some (t, s') \<Longrightarrow> console_type s' = console_type s"
  by (induction src arbitrary: s t) (fastforce split: option.splits dest: add_ref_console)+

lemma fd_table_init_console: "fd_table_init s = Some (t, s') \<Longrightarrow> console_type s' = console_type s"
  by (auto simp: fd_table_init_def dest: add_ref_console)

lemma file_read_ftype: "file_read blk fs gm junk f dst count = Some (n, dst', f') \<Longrightarrow> ftype f' = ftype f"
  by (auto dest: file_read_position)

lemma fd_read_console:
  assumes "fd_read blk fs gm junk t fd buf count s u = Some (res, s', u')"
  shows "console_type s' = console_type s"
proof (cases "fd_valid t fd")
  case False
  then show ?thesis using assms by (simp add: fd_read_def)
next
  case True
  obtain f where f: "files s (the (t ! nat fd)) = Some f" using assms True by (auto simp: fd_read_def Let_def split: option.splits)
  show ?thesis
  proof (cases "ftype f")
    case FD_TYPE_FILE
    then show ?thesis using assms True f
      by (auto simp: fd_read_def console_type_def Let_def dest!: file_read_ftype)
  qed (use assms True f in \<open>auto simp: fd_read_def console_type_def Let_def split: if_splits option.splits attempt.splits prod.splits\<close>)
qed

lemma fd_step_console:
  assumes "fd_step c c'"
  shows "console_type (snd c') = console_type (snd c)"
  using assms
proof (induction rule: fd_step.induct)
  case (open_file k tabs new s opened flags r t s')
  then show ?case
    by (auto simp: fd_open_def Let_def alloc_file_def console_type_def split: if_splits option.splits)
next
  case (dup2 k tabs oldfd newfd s r t s')
  then show ?case
    by (auto simp: fd_dup2_def Let_def split: if_splits option.splits dest!: add_ref_console fd_close_console)
next
  case (new_pipe k tabs p s rn wn r fds t s')
  then show ?case
    by (auto simp: fd_pipe_def Let_def alloc_file_def free_file_def console_type_def split: if_splits)
next
  case (read_fd k tabs blk fs gm junk fd buf count s u res s' u')
  then show ?case using fd_read_console by simp
next
  case (write_fd k tabs first fd src count s u w s' u')
  then show ?case
    by (auto simp: fd_write_def console_type_def split: if_splits option.splits fd_type.splits prod.splits)
qed (auto simp: fd_table_destroy_def dest: fd_table_init_console fd_table_dup_console destroy_from_console fd_close_console)

section \<open>States\<close>

text \<open>A task that can run still can, and one that has finished stays so; task 0 is the scheduler's last resort.\<close>

definition kept :: "task \<Rightarrow> task \<Rightarrow> bool" where
  "kept t t' \<longleftrightarrow> (tstate t \<in> {TASK_READY, TASK_RUNNING} \<longrightarrow> tstate t' \<in> {TASK_READY, TASK_RUNNING})
     \<and> (tstate t = TASK_FINISHED \<longrightarrow> tstate t' = TASK_FINISHED)"

lemma kept_refl [simp]: "kept t t"
  by (simp add: kept_def)

lemma kept_trans: "kept t t1 \<Longrightarrow> kept t1 t2 \<Longrightarrow> kept t t2"
  by (auto simp: kept_def)

lemma kept_yield:
  assumes t: "table_ok im k" and i: "i \<noteq> 0"
  shows "kept (task_at k i) (task_at (sched_yield im k) i)"
proof (cases "pick_next k = current_task k")
  case True
  then show ?thesis by (simp add: sched_yield_def switch_to_def)
next
  case False
  have n: "0 < num_tasks k" "current_task k < num_tasks k" using t by (auto simp: table_ok_def)
  note s = run_task_simps [OF table_ok_len [OF t pick_next_less [OF n]] cur_less [OF t] False, of im]
  have "i = pick_next k \<Longrightarrow> tstate (task_at k i) = TASK_READY"
    using n(1) i False by (cases rule: pick_next_cases [of k]) auto
  then show ?thesis using False by (auto simp: sched_yield_def switch_to_def s kept_def)
qed

lemma kept_upd:
  assumes "i < length (tasks k)" "kept (task_at k i) (f (task_at k i))"
  shows "kept (task_at k j) (task_at (upd_task i f k) j)"
  using assms by (simp add: task_at_upd)

lemma kept_tick:
  assumes t: "table_ok im k" and i: "i \<noteq> 0"
  shows "kept (task_at k i) (task_at (sched_tick im k) i)"
proof -
  let ?k = "upd_task (current_task k) (\<lambda>t. t\<lparr>ticks := ticks t + 1\<rparr>) k"
  have l: "current_task k < length (tasks k)" by (rule cur_less [OF t])
  have tk: "table_ok im ?k" using t l by (intro upd_table_ok) auto
  have e: "sched_tick im k = sched_yield im ?k" by (simp add: sched_tick_def sched_yield_def switch_to_def Let_def)
  have "kept (task_at k i) (task_at ?k i)" by (rule kept_upd [OF l]) (simp add: kept_def)
  from kept_trans [OF this kept_yield [OF tk i]] show ?thesis unfolding e .
qed

lemma kept_exit:
  assumes inv: "sched_inv im k" and r: "sched_exit im k = Some k'" and i: "i \<noteq> 0" "i \<noteq> current_task k"
  shows "kept (task_at k i) (task_at k' i)"
  using inv r
proof (rule sched_exit_yields)
  fix k2
  assume k2: "k' = sched_yield im k2" "sched_wf im k2"
    and s: "\<And>i. i \<noteq> current_task k \<Longrightarrow> tstate (task_at k2 i) = tstate (task_at k i)
       \<or> tstate (task_at k i) = TASK_BLOCKED \<and> tstate (task_at k2 i) = TASK_READY"
  have "kept (task_at k i) (task_at k2 i)" using s [OF i(2)] by (auto simp: kept_def)
  then show ?thesis using kept_trans kept_yield [of im k2 i] k2 i(1) by (simp add: sched_wf_def)
qed

lemma kept_wait:
  assumes t: "table_ok im k" and r: "sched_wait im tn k = (r, k')" and i: "i \<noteq> 0" "i \<noteq> current_task k"
  shows "kept (task_at k i) (task_at k' i)"
proof (cases "tn < 0 \<or> tn \<ge> int (num_tasks k) \<or> tstate (task_at k (nat tn)) = TASK_FINISHED")
  case True
  then show ?thesis using r by (auto simp: sched_wait_def split: if_splits)
next
  case False
  let ?k = "upd_task (current_task k) (\<lambda>x. x\<lparr>tstate := TASK_BLOCKED, wait_for_tid := tn\<rparr>) k"
  have l: "current_task k < length (tasks k)" "tstate (cur_task k) \<noteq> TASK_UNUSED" using t by (auto simp: table_ok_def)
  have "table_ok im ?k" using t l by (intro upd_table_ok) auto
  moreover have "task_at ?k i = task_at k i" using i(2) l by (simp add: task_at_upd)
  moreover have "k' = sched_yield im ?k" using False r by (auto simp: sched_wait_def)
  ultimately show ?thesis using kept_yield [of im ?k i] i(1) by simp
qed

lemma kept_send:
  assumes "table_ok im k" "signal_send t sg k = (r, k')"
  shows "kept (task_at k i) (task_at k' i)"
proof -
  have len: "num_tasks k \<le> length (tasks k)" using assms(1) by (auto simp: table_ok_def)
  from assms(2) len show ?thesis
  proof (cases rule: signal_send_cases)
    case sent
    have "nat t < length (tasks k)" using sent(3,4) len by simp
    then show ?thesis unfolding sent(8) by (rule kept_upd) (simp add: kept_def)
  qed simp
qed

section \<open>A step of another task\<close>

definition unharmed :: "kernel \<Rightarrow> kernel \<Rightarrow> nat \<Rightarrow> bool" where
  "unharmed k k' i \<longleftrightarrow> i < num_tasks k' \<and> is_user (task_at k' i) = is_user (task_at k i)
     \<and> heap_break (task_at k' i) = heap_break (task_at k i) \<and> fdt (task_at k' i) = fdt (task_at k i)
     \<and> kept (task_at k i) (task_at k' i) \<and> console_type (fds k') = console_type (fds k)
     \<and> (\<forall>va. process_byte k' i va = process_byte k i va)"

lemma unharmed_refl: "i < num_tasks k \<Longrightarrow> unharmed k k i"
  by (simp add: unharmed_def)

lemma unharmed_trans: "unharmed k k1 i \<Longrightarrow> unharmed k1 k2 i \<Longrightarrow> unharmed k k2 i"
  by (auto simp: unharmed_def intro: kept_trans)

lemma same_procs_unharmed:
  assumes "same_procs k k'" "kept (task_at k i) (task_at k' i)" "i < num_tasks k"
  shows "unharmed k k' i"
  using assms by (simp add: unharmed_def same_procs_def same_space_def process_byte_def)

lemma tick_unharmed:
  assumes inv: "kernel_inv im (K, k)" and i: "i < num_tasks k" "i \<noteq> 0"
  shows "unharmed k (sched_tick im k) i"
proof -
  have "table_ok im k" using kernel_invE [OF inv] by metis
  then show ?thesis using same_procs_unharmed same_procs_tick kept_tick i by metis
qed

lemma kstep_unharmed:
  assumes inv: "kernel_inv im (K, k)" and st: "kstep MAX_PROGRAM im (K, k) (K', k')"
    and i: "i < num_tasks k" "is_user (task_at k i)" "i \<noteq> current_task k" "i \<noteq> 0"
  shows "unharmed k k' i"
proof -
  obtain own where o: "sched_inv im k" "table_ok im k" "proc_inv K own k" "isolated K own k" "image_ok K im" "current_task k < num_tasks k"
    using kernel_invE [OF inv] by metis
  obtain own' where s: "steps_to K own k K' own' k'" using kstep_steps [OF st o(3,1,5)] by blast
  have l: "current_task k < length (tasks k)" by (rule cur_less [OF o(2)])
  have user: "is_user (task_at k' i) = is_user (task_at k i)" using s i(1) by (simp add: steps_to_def same_space_def)
  have same: "unharmed k k' i"
    if "i < num_tasks k'" "heap_break (task_at k' i) = heap_break (task_at k i)" "fdt (task_at k' i) = fdt (task_at k i)"
      "kept (task_at k i) (task_at k' i)" "console_type (fds k') = console_type (fds k)"
    using that user kstep_process_byte [OF inv st i(1-3)] by (simp add: unharmed_def)
  from st show ?thesis
  proof cases
    case (create name e a r)
    have "k' = snd (sched_create im name e a k)" using create by (metis snd_conv)
    then show ?thesis using i(1) o(2)
      by (intro same) (auto simp: sched_create_def Let_def upd_task_def)
  next
    case (create_user sz name src r)
    have len: "num_tasks k < SCHED_MAX_TASKS \<Longrightarrow> num_tasks k < length (tasks k)" using o(1) by (auto simp: sched_defs)
    show ?thesis
      by (rule sched_create_user_cases [OF isolated_pmm(1) [OF o(4)] len create_user(2,3)])
        (use i(1) in \<open>auto intro!: same simp: created_def dest: same_but_memD fd_table_init_console\<close>)
  next
    case (fork rs r)
    from o(4,1,5) fork(2,3) show ?thesis
      by (cases rule: sched_fork_cases)
        (use i(1) in \<open>auto intro!: same simp: created_def dest: same_but_memD fd_table_dup_console\<close>)
  next
    case yield
    then show ?thesis using same_procs_unharmed [OF same_procs_yield [OF o(2)] kept_yield [OF o(2) i(4)] i(1)] by simp
  next
    case tick
    then show ?thesis using tick_unharmed [OF inv i(1,4)] by simp
  next
    case exit
    from o(1) exit(2) show ?thesis
    proof (rule sched_exit_yields)
      fix tab s k2
      assume d: "fd_table_destroy (fdt (cur_task k)) (fds k) = Some (tab, s)" and k2: "k' = sched_yield im k2" "sched_wf im k2"
        "num_tasks k2 = num_tasks k" "fds k2 = s"
        and f: "\<And>i. i \<noteq> current_task k \<Longrightarrow> fdt (task_at k2 i) = fdt (task_at k i)"
        and h: "\<And>i. is_user (task_at k2 i) = is_user (task_at k i) \<and> ttbr0 (task_at k2 i) = ttbr0 (task_at k i)
       \<and> ctx (task_at k2 i) = ctx (task_at k i) \<and> code_pa (task_at k2 i) = code_pa (task_at k i)
       \<and> code_pages (task_at k2 i) = code_pages (task_at k i) \<and> stack_pa (task_at k2 i) = stack_pa (task_at k i)
       \<and> heap_break (task_at k2 i) = heap_break (task_at k i)"
      have "table_ok im k2" using k2(2) by (simp add: sched_wf_def)
      note y = same_procs_yield [OF this, folded k2(1)]
      have "console_type s = console_type (fds k)" using d destroy_from_console by (auto simp: fd_table_destroy_def)
      then show ?thesis using y k2 f [OF i(3)] h [of i] kept_exit [OF o(1) exit(2) i(4,3)] i(1)
        by (intro same) (simp_all add: same_procs_def)
    qed
  next
    case (wait tn r)
    then show ?thesis
      using same_procs_unharmed [OF same_procs_wait [OF o(2) wait(2)] kept_wait [OF o(2) wait(2) i(4,3)] i(1)] by simp
  next
    case (send t sg r)
    then show ?thesis
      using same_procs_unharmed [OF same_procs_send [OF o(2) send(2)] kept_send [OF o(2) send(2)] i(1)] by simp
  next
    case (signal_state ss)
    then show ?thesis using i l by (intro same) (simp_all add: task_at_upd)
  next
    case (registers c)
    then show ?thesis using i by (intro same) simp_all
  next
    case (descriptors t s)
    have "console_type s = console_type (fds k)" using fd_step_console [OF descriptors(3)] by simp
    then show ?thesis using i l descriptors by (intro same) (simp_all add: upd_task_def)
  next
    case (sbrk inc r)
    have hb: "is_user (cur_task k) \<longrightarrow> heap_break (cur_task k) < USER_VA_GUARD"
      using o(3,6) by (simp add: proc_inv_def task_ok_def)
    have at: "num_tasks k' = num_tasks k \<and> fds k' = fds k \<and> task_at k' i = task_at k i"
      by (rule sys_sbrk_cases [OF o(4,6) hb sbrk(2)]) (use i(3) in \<open>simp_all add: upd_task_def\<close>)
    then show ?thesis using i(1) by (intro same) simp_all
  next
    case (user_write va a b)
    then show ?thesis using i by (intro same) (simp_all add: set_bytes_def)
  next
    case (kernel_write p a b)
    then show ?thesis using i by (intro same) (simp_all add: set_bytes_def)
  next
    case (kernel_alloc n a)
    obtain pm where "k' = k\<lparr>kmm := (kmm k)\<lparr>kpmm := pm\<rparr>\<rparr>" using alloc_run_ofD [OF kernel_alloc(3)] .
    then show ?thesis using i by (intro same) simp_all
  qed
qed

section \<open>Turns\<close>

text \<open>
  What a task does while it is current: steps of the kernel, of which only the last may give the processor to another
  task.
\<close>

inductive turn :: "image \<Rightarrow> nat set \<Rightarrow> kernel \<Rightarrow> kernel \<Rightarrow> bool" for im K where
  none: "turn im K k k"
| last_step: "kstep MAX_PROGRAM im (K, k) (K, k') \<Longrightarrow> turn im K k k'"
| more: "\<lbrakk>kstep MAX_PROGRAM im (K, k) (K, k1); current_task k1 = current_task k; turn im K k1 k'\<rbrakk> \<Longrightarrow> turn im K k k'"

declare turn.none [simp, intro]

lemma turn_steps: "turn im K k k' \<Longrightarrow> (kstep MAX_PROGRAM im)\<^sup>*\<^sup>* (K, k) (K, k')"
  by (induction rule: turn.induct) (auto intro: converse_rtranclp_into_rtranclp)

lemma turn_trans:
  assumes "turn im K k k1" "turn im K k1 k2" "current_task k1 = current_task k"
  shows "turn im K k k2"
  using assms
proof (induction rule: turn.induct)
  case (last_step k k')
  then show ?case using turn.more by blast
next
  case (more k k1 k')
  show ?case by (rule turn.more [OF more.hyps(1,2)]) (use more in simp)
qed

lemma turn_unharmed:
  assumes "turn im K k k'" "kernel_inv im (K, k)" "i < num_tasks k" "is_user (task_at k i)" "i \<noteq> current_task k" "i \<noteq> 0"
  shows "unharmed k k' i"
  using assms
proof (induction rule: turn.induct)
  case (none k)
  then show ?case by (simp add: unharmed_refl)
next
  case (last_step k k')
  then show ?case using kstep_unharmed by blast
next
  case (more k k1 k')
  have u: "unharmed k k1 i" using kstep_unharmed more by blast
  moreover have "unharmed k1 k' i"
    using more.IH kernel_inv_step [OF more.prems(1) more.hyps(1)] u more by (simp add: unharmed_def)
  ultimately show ?case by (rule unharmed_trans)
qed

end
