(* ===== verification/SyscallSpec.thy ===== *)
theory SyscallSpec
  imports Syscall Turns
begin

text \<open>
  What a system call may do: with pointers into user space, every call is a sequence of steps of the
  kernel, so all invariants and the isolation of other processes survive it. With pointers into
  kernel space, which nothing refuses, they do not.
\<close>

section \<open>Stores through user pointers are steps\<close>

definition user_range :: "u64 \<Rightarrow> nat \<Rightarrow> bool" where
  "user_range va n \<longleftrightarrow> unat va + n \<le> 2 ^ 39"

lemma user_range_at:
  assumes "user_range va n" "i < n"
  shows "va + of_nat i < 0x8000000000"
proof -
  have "unat (of_nat i :: u64) = i" by (rule unat_of_nat_small) (use assms in \<open>simp add: user_range_def\<close>)
  then have "unat (va + of_nat i) = unat va + i" using assms by (subst unat_add_small) (simp_all add: user_range_def)
  then show ?thesis using assms by (simp add: user_range_def word_less_nat_alt)
qed

text \<open>The state a sequence of stores leaves: only memory differs.\<close>

definition writes :: "image \<Rightarrow> nat set \<Rightarrow> kernel \<Rightarrow> kernel \<Rightarrow> bool" where
  "writes im K k k' \<longleftrightarrow> turn im K k k' \<and> same_but_mem k k'"

lemma writes_refl: "writes im K k k"
  by (simp add: writes_def same_but_mem_def turn.none)

lemma same_but_mem_trans: "same_but_mem k k1 \<Longrightarrow> same_but_mem k1 k2 \<Longrightarrow> same_but_mem k k2"
  unfolding same_but_mem_def by (metis kernel.update_convs(7) kernel.surjective kernel.ext_inject kernel.select_convs(7))

lemma writes_trans: "writes im K k k1 \<Longrightarrow> writes im K k1 k2 \<Longrightarrow> writes im K k k2"
  using same_but_mem_trans turn_trans same_but_memD(3) unfolding writes_def by blast

lemma store8_writes:
  assumes "is_user (cur_task k)" "va < 0x8000000000" "el1_store8 va b k = Some k'"
  shows "writes im K k k'"
proof -
  obtain a where a: "el1_addr k va = Some a" "k' = set_bytes (\<lambda>m. m(a := b)) k" using assms(3) by (auto simp: el1_store8_def)
  have "kstep MAX_PROGRAM im (K, k) (K, k')" unfolding a(2) by (rule kstep.user_write [OF assms(1,2) a(1)])
  then show ?thesis using turn.last_step by (auto simp: writes_def a(2) same_but_mem_def set_bytes_def)
qed

lemma writes_user: "writes im K k k' \<Longrightarrow> is_user (cur_task k) \<Longrightarrow> is_user (cur_task k')"
  using same_but_memD by (auto simp: writes_def)

text \<open>A loop of optional byte stores below the limit.\<close>

lemma fold_store_writes:
  assumes u: "is_user (cur_task k)" and va: "user_range va n"
    and step: "\<And>i k1 k2. \<lbrakk>i < n; is_user (cur_task k1); f i (Some k1) = Some k2\<rbrakk> \<Longrightarrow> k2 = k1 \<or> (\<exists>b. el1_store8 (va + of_nat i) b k1 = Some k2)"
    and none: "\<And>i. f i None = None" and r: "fold f [0..<n] (Some k) = Some k'"
  shows "writes im K k k'"
proof -
  have "m \<le> n \<Longrightarrow> fold f [0..<m] (Some k) = Some q \<Longrightarrow> writes im K k q \<and> is_user (cur_task q)" for m q
  proof (induction m arbitrary: q)
    case 0
    then show ?case using u writes_refl by simp
  next
    case (Suc m)
    obtain k1 where k1: "fold f [0..<m] (Some k) = Some k1" "f m (Some k1) = Some q"
      using Suc.prems(2) none by (cases "fold f [0..<m] (Some k)") auto
    have w: "writes im K k k1" "is_user (cur_task k1)" using Suc k1(1) by auto
    have m: "m < n" using Suc.prems(1) by simp
    have "writes im K k1 q"
      using step [OF m w(2) k1(2)] store8_writes [OF w(2) user_range_at [OF va m]] writes_refl by metis
    then show ?case using writes_trans [OF w(1)] writes_user w(2) by blast
  qed
  then show ?thesis using r by blast
qed

lemma write_back_writes:
  assumes "is_user (cur_task k)" "user_range va n" "write_back n va bytes k = Some k'"
  shows "writes im K k k'"
  using assms(3) unfolding write_back_def
  by (rule fold_store_writes [OF assms(1,2), rotated 2]) (auto split: option.splits)

lemma store_user_writes:
  assumes "is_user (cur_task k)" "user_range va (length bs)" "store_user va bs k = Some k'"
  shows "writes im K k k'"
  using assms(3) unfolding store_user_def
  by (rule fold_store_writes [OF assms(1,2), rotated 2]) auto

lemma el1_store_writes:
  assumes "is_user (cur_task k)" "user_range va n" "el1_store n va v k = Some k'"
  shows "writes im K k k'"
  using assms(3) unfolding el1_store_def
  by (rule fold_store_writes [OF assms(1,2), rotated 2]) auto

lemma fill_bytes_Suc: "fill_bytes 0 (Suc n) a f m = (fill_bytes 0 n a f m)(a + of_nat n := f n)"
  by (simp add: fill_bytes_def)

lemma kernel_fill_steps:
  assumes "\<And>i. i < n \<Longrightarrow> \<exists>p \<in> K. in_page p (a + of_nat i)"
  shows "writes im K k (set_bytes (fill_bytes 0 n a f) k)"
  using assms
proof (induction n)
  case 0
  have "set_bytes (fill_bytes 0 0 a f) k = k" by (simp add: fill_bytes_def set_bytes_def)
  then show ?case using writes_refl by simp
next
  case (Suc n)
  let ?k = "set_bytes (fill_bytes 0 n a f) k"
  obtain p where p: "p \<in> K" "in_page p (a + of_nat n)" using Suc.prems by blast
  have e: "set_bytes (fill_bytes 0 (Suc n) a f) k = set_bytes (\<lambda>m. m(a + of_nat n := f n)) ?k"
    by (simp add: set_bytes_set_bytes fill_bytes_Suc [abs_def])
  have "writes im K ?k (set_bytes (\<lambda>m. m(a + of_nat n := f n)) ?k)"
    unfolding writes_def
  proof
    show "turn im K ?k (set_bytes (\<lambda>m. m(a + of_nat n := f n)) ?k)"
      using kstep.kernel_write [OF p] by (rule turn.last_step)
  qed (simp add: same_but_mem_def set_bytes_def)
  then show ?case unfolding e using writes_trans [OF Suc.IH] Suc.prems by simp
qed

section \<open>Calls are steps\<close>

text \<open>
  What a call relies on: fresh pointers from the kernel heap, and a buffer in kernel frames for the file that \<open>SYS_EXEC\<close>
  reads. \<open>programs_fit\<close> is about the disk, and nothing in the code makes sure of it: what \<open>SYS_EXEC\<close> reads of a file is
  not larger than a program may be.
\<close>

definition env_ok :: "sys_env \<Rightarrow> nat set \<Rightarrow> kernel \<Rightarrow> bool" where
  "env_ok e K k \<longleftrightarrow> Obj (new_file e) \<notin> dom (files (fds k)) \<and> new_pipe_ptr e \<notin> dom (pipes (fds k))
     \<and> Obj (rd_file e) \<notin> dom (files (fds k)) \<and> Obj (wr_file e) \<notin> dom (files (fds k)) \<and> rd_file e \<noteq> wr_file e
     \<and> (\<forall>name f. fat16_open (blk e) (root_fs e) name = Some f \<longrightarrow>
          (\<forall>i < unat (ff_file_size f). \<exists>p \<in> K. in_page p (exec_buf e + of_nat i)))"

definition programs_fit :: "sys_env \<Rightarrow> bool" where
  "programs_fit e \<longleftrightarrow> (\<forall>name f r buf. fat16_open (blk e) (root_fs e) name = Some f \<longrightarrow>
     fat16_read_file (blk e) (root_fs e) f (junk e) (ff_file_size f) = Some (r, buf) \<longrightarrow> 0 \<le> r \<longrightarrow>
     unat (of_int r :: u32) \<le> MAX_PROGRAM)"

text \<open>The pointers a call writes through are user addresses.\<close>

definition user_args :: "sys_env \<Rightarrow> regs \<Rightarrow> kernel \<Rightarrow> bool" where
  "user_args e regs k \<longleftrightarrow>
     (regs ! 8 = 0 \<longrightarrow> user_range (regs ! 1) (read_extent (current_fdt k) (arg_int (regs ! 0)) (ucast (regs ! 2)) (fds k)))
     \<and> (regs ! 8 = 10 \<longrightarrow> user_range (regs ! 0) (length (listdir (blk e) (root_fs e) (ucast (regs ! 1))) + 1))
     \<and> (regs ! 8 = 12 \<longrightarrow> user_range (regs ! 0) 8)"

fun out_kernel :: "outcome \<Rightarrow> kernel" where
  "out_kernel (Ret regs k u) = k"
| "out_kernel (Later regs k u) = k"
| "out_kernel (Again k u rest) = k"
| "out_kernel (Ended k) = k"

lemma current_tab: "table_ok im k \<Longrightarrow> current_fdt k = tabs k ! current_task k"
  by (auto simp: current_fdt_def sched_current_id_def tabs_nth table_ok_def)

lemma tabs_self: "table_ok im k \<Longrightarrow> (tabs k)[current_task k := current_fdt k] = tabs k"
  by (simp add: current_tab)

lemma fd_call_step:
  assumes "fd_step (tabs k, fds k) ((tabs k)[current_task k := t], s)"
  shows "turn im K k (set_fdt t s k)"
  using kstep.descriptors [OF assms] unfolding set_fdt_def by (rule turn.last_step)

lemma fd_same_step:
  assumes t: "table_ok im k" and "fd_step (tabs k, fds k) (tabs k, s)"
  shows "turn im K k (k\<lparr>fds := s\<rparr>)"
proof -
  have "set_fdt (current_fdt k) s k = k\<lparr>fds := s\<rparr>"
    by (simp add: set_fdt_def upd_task_def current_fdt_def sched_current_id_def)
  then show ?thesis using fd_call_step [of k "current_fdt k" s im K] assms(2) tabs_self [OF t] by simp
qed

lemma turn_yield: "turn im K k k' \<Longrightarrow> current_task k' = current_task k \<Longrightarrow> turn im K k (sched_yield im k')"
  by (erule turn_trans) (rule turn.last_step, rule kstep.yield)

lemma writes_turn: "writes im K k k1 \<Longrightarrow> turn im K k1 k2 \<Longrightarrow> turn im K k k2"
  using turn_trans same_but_memD(3) unfolding writes_def by blast

lemma set_fdt_current [simp]: "current_task (set_fdt t s k) = current_task k"
  by (simp add: set_fdt_def)

lemma call_facts:
  assumes "kernel_inv im (K, k)"
  shows "table_ok im k" "current_task k < length (tabs k)" "current_fdt k = tabs k ! current_task k"
  using kernel_invE [OF assms] current_tab by auto

lemma sys_read_steps:
  assumes inv: "kernel_inv im (K, k)" and u: "is_user (cur_task k)" and r: "sys_read im e regs k con = Some out"
    and va: "user_range (regs ! 1) (read_extent (current_fdt k) (arg_int (regs ! 0)) (ucast (regs ! 2)) (fds k))"
  shows "turn im K k (out_kernel out)"
proof -
  note cf = call_facts [OF inv]
  let ?rd = "\<lambda>b. fd_read (blk e) (root_fs e) (tmp_ok e) (junk e) (current_fdt k) (arg_int (regs ! 0)) (\<lambda>_. b) (ucast (regs ! 2)) (fds k) con"
  obtain res s con' where f: "?rd 0 = Some (res, s, con')"
    using r by (auto simp: sys_read_def Let_def split: option.splits)
  have st: "fd_step (tabs k, fds k) (tabs k, s)"
    by (rule fd_step.read_fd [OF cf(2) f [unfolded cf(3)]])
  show ?thesis
  proof (cases res)
    case Blocked
    then have "out = Again (sched_yield im (k\<lparr>fds := s\<rparr>)) con' []" using r f by (simp add: sys_read_def Let_def)
    then show ?thesis using turn_yield [OF fd_same_step [OF cf(1) st]] by simp
  next
    case (Done x)
    obtain n on_zeros where x: "x = (n, on_zeros)" by fastforce
    obtain y on_ones s1 con1 where g: "?rd 1 = Some (Done (y, on_ones), s1, con1)"
      using r f Done x by (auto simp: sys_read_def Let_def split: option.splits attempt.splits)
    obtain k1 where k1: "write_back (read_extent (current_fdt k) (arg_int (regs ! 0)) (ucast (regs ! 2)) (fds k)) (regs ! 1)
        (stored on_zeros on_ones) k = Some k1" "out_kernel out = k1\<lparr>fds := s\<rparr>"
      using r f g Done x by (auto simp: sys_read_def Let_def split: option.splits)
    have w: "writes im K k k1" by (rule write_back_writes [OF u va k1(1)])
    note d = same_but_memD [OF conjunct2 [OF w [unfolded writes_def]]]
    have "table_ok im k1" "tabs k1 = tabs k" using cf(1) d by (simp_all add: table_ok_def tabs_def)
    then have "turn im K k1 (k1\<lparr>fds := s\<rparr>)" using st d by (intro fd_same_step) simp_all
    then show ?thesis using writes_turn [OF w] k1(2) by simp
  qed
qed

lemma sys_write_rest_steps:
  assumes inv: "kernel_inv im (K, k)" and r: "sys_write_rest im first src regs k con = Some out"
  shows "turn im K k (out_kernel out)"
proof -
  note cf = call_facts [OF inv]
  obtain w s con' where f: "fd_write first (current_fdt k) (arg_int (regs ! 0)) src (sint (ucast (regs ! 2) :: u32)) (fds k) con = Some (w, s, con')"
    using r by (auto simp: sys_write_rest_def split: option.splits)
  have "turn im K k (k\<lparr>fds := s\<rparr>)"
    by (rule fd_same_step [OF cf(1) fd_step.write_fd [OF cf(2) f [unfolded cf(3)]]])
  then show ?thesis using r f turn_yield by (cases w) (auto simp: sys_write_rest_def)
qed

lemma sys_write_steps:
  assumes inv: "kernel_inv im (K, k)" and r: "sys_write im regs k con = Some out"
  shows "turn im K k (out_kernel out)"
  using r sys_write_rest_steps [OF inv] by (auto simp: sys_write_def split: option.splits if_splits)

lemma sys_open_steps:
  assumes inv: "kernel_inv im (K, k)" and r: "sys_open e regs k con = Some out" and e: "env_ok e K k"
  shows "turn im K k (out_kernel out)"
proof -
  note cf = call_facts [OF inv]
  obtain opened rr t s where f: "fd_open (current_fdt k) opened (arg_int (regs ! 1)) (new_file e) (fds k) = (rr, t, s)"
    "out_kernel out = set_fdt t s k"
    using r by (auto simp: sys_open_def split: option.splits prod.splits)
  have n: "Obj (new_file e) \<notin> dom (files (fds k))" using e by (simp add: env_ok_def)
  show ?thesis unfolding f(2)
    by (rule fd_call_step [OF fd_step.open_file [OF cf(2) n f(1) [unfolded cf(3)]]])
qed

lemma sys_close_steps:
  assumes inv: "kernel_inv im (K, k)" and r: "sys_close regs k con = Some out"
  shows "turn im K k (out_kernel out)"
proof -
  note cf = call_facts [OF inv]
  obtain rr t s where f: "fd_close (current_fdt k) (arg_int (regs ! 0)) (fds k) = Some (rr, t, s)" "out_kernel out = set_fdt t s k"
    using r by (auto simp: sys_close_def split: option.splits prod.splits)
  show ?thesis unfolding f(2)
    by (rule fd_call_step [OF fd_step.close [OF cf(2) f(1) [unfolded cf(3)]]])
qed

lemma sys_dup2_steps:
  assumes inv: "kernel_inv im (K, k)" and r: "sys_dup2 regs k con = Some out"
  shows "turn im K k (out_kernel out)"
proof -
  note cf = call_facts [OF inv]
  let ?o = "arg_int (regs ! 0)" and ?n = "arg_int (regs ! 1)"
  obtain rr t s where f: "fd_dup2 (current_fdt k) ?o ?n (fds k) = Some (rr, t, s)" "out_kernel out = set_fdt t s k"
    using r by (auto simp: sys_dup2_def split: option.splits prod.splits)
  show ?thesis
  proof (cases "?o = ?n")
    case False
    show ?thesis unfolding f(2)
      by (rule fd_call_step [OF fd_step.dup2 [OF cf(2) False f(1) [unfolded cf(3)]]])
  next
    case True
    have "\<not> fd_valid (current_fdt k) ?o"
    proof
      assume v: "fd_valid (current_fdt k) ?o"
      have "length (current_fdt k) = MAX_FDS_PER_TASK"
      proof -
        obtain own where "proc_inv K own k" using kernel_invE [OF inv] by metis
        then have "fd_inv (tabs k) (fds k)" by (simp add: proc_inv_def)
        then show ?thesis using cf(2,3) by (simp add: fd_inv_def)
      qed
      then show False using f(1) v True fd_dup2_self [of "current_fdt k" ?o "fds k"] by (simp add: MAX_FDS_PER_TASK_def)
    qed
    then have "t = current_fdt k" "s = fds k" using f(1) by (simp_all add: fd_dup2_def)
    then have "set_fdt t s k = k" by (simp add: set_fdt_def upd_task_def current_fdt_def sched_current_id_def)
    then show ?thesis using f(2) by simp
  qed
qed

lemma user_range_sub:
  assumes "user_range va n" "i + m \<le> n" "n < 2 ^ 32"
  shows "user_range (va + of_nat i) m"
proof -
  have "unat (of_nat i :: u64) = i" by (rule unat_of_nat_small) (use assms in simp)
  then have "unat (va + of_nat i) = unat va + i" using assms by (subst unat_add_small) (simp_all add: user_range_def)
  then show ?thesis using assms by (simp add: user_range_def)
qed

lemma sys_pipe_steps:
  assumes inv: "kernel_inv im (K, k)" and u: "is_user (cur_task k)" and r: "sys_pipe e regs k con = Some out"
    and e: "env_ok e K k" and va: "user_range (regs ! 0) 8"
  shows "turn im K k (out_kernel out)"
proof -
  note cf = call_facts [OF inv]
  obtain rr fds' t s where f: "fd_pipe (current_fdt k) (new_pipe_ptr e) (rd_file e) (wr_file e) (fds k) = (rr, fds', t, s)"
    by (metis prod_cases4)
  have st: "turn im K k (set_fdt t s k)"
    using e by (intro fd_call_step fd_step.new_pipe [OF cf(2) _ _ _ _ f [unfolded cf(3)]]) (simp_all add: env_ok_def)
  have u1: "is_user (cur_task (set_fdt t s k))" using u cf(2) cur_less [OF cf(1)] by (simp add: set_fdt_def upd_task_def)
  show ?thesis
  proof (cases fds')
    case None
    then show ?thesis using r f st by (auto simp: sys_pipe_def)
  next
    case (Some ab)
    obtain k1 k2 where s1: "el1_store 4 (regs ! 0) (of_int (fst ab)) (set_fdt t s k) = Some k1"
      "el1_store 4 (regs ! 0 + 4) (of_int (snd ab)) k1 = Some k2" "out_kernel out = k2"
      using r f Some by (cases ab) (auto simp: sys_pipe_def split: option.splits bind_splits)
    have v: "user_range (regs ! 0) 4" "user_range (regs ! 0 + 4) 4"
      using va user_range_sub [OF va, of 4 4] by (simp_all add: user_range_def)
    have w1: "writes im K (set_fdt t s k) k1" by (rule el1_store_writes [OF u1 v(1) s1(1)])
    have w2: "writes im K k1 k2" by (rule el1_store_writes [OF writes_user [OF w1 u1] v(2) s1(2)])
    have "turn im K (set_fdt t s k) k2" using writes_trans [OF w1 w2] by (simp add: writes_def)
    then show ?thesis using turn_trans [OF st] s1(3) by simp
  qed
qed

lemma sys_listdir_steps:
  assumes u: "is_user (cur_task k)" and r: "sys_listdir e regs k con = Some out"
    and va: "user_range (regs ! 0) (length (listdir (blk e) (root_fs e) (ucast (regs ! 1))) + 1)"
  shows "turn im K k (out_kernel out)"
proof -
  obtain k1 where k1: "store_user (regs ! 0) (listdir (blk e) (root_fs e) (ucast (regs ! 1)) @ [0]) k = Some k1" "out_kernel out = k1"
    using r by (auto simp: sys_listdir_def Let_def split: option.splits)
  have "writes im K k k1" by (rule store_user_writes [OF u _ k1(1)]) (use va in simp)
  then show ?thesis using k1(2) by (simp add: writes_def)
qed

lemma sys_exec_steps:
  assumes r: "sys_exec im e regs k con = Some out" and e: "env_ok e K k" and p: "programs_fit e"
  shows "turn im K k (out_kernel out)"
proof -
  let ?n = "if (ucast (regs ! 1) :: u32) > 30 then 30 else ucast (regs ! 1) :: u32"
  obtain bs where bs: "user_bytes k (regs ! 0) (unat ?n) = Some bs"
  proof (cases "user_bytes k (regs ! 0) (unat ?n)")
    case None
    then show ?thesis using r by (simp only: sys_exec_def Let_def option.case) simp
  qed (rule that)
  let ?f = "takeWhile (\<lambda>c. c \<noteq> 0) bs"
  note rr = r [unfolded sys_exec_def Let_def bs option.case]
  show ?thesis
  proof (cases "fat16_open (blk e) (root_fs e) ?f")
    case None
    then show ?thesis using rr by auto
  next
    case (Some ff)
    note ra = rr [unfolded Some option.case]
    show ?thesis
    proof (cases "ff_file_size ff = 0 \<or> exec_buf e = 0")
      case True
      then show ?thesis using ra by auto
    next
      case False
      note rb = ra [unfolded if_not_P [OF False]]
      obtain b buf where b: "fat16_read_file (blk e) (root_fs e) ff (junk e) (ff_file_size ff) = Some (b, buf)"
        using rb by (auto split: option.splits)
      note rc = rb [unfolded b option.case prod.case]
      let ?k = "set_bytes (fill_bytes 0 (unat (ff_file_size ff)) (exec_buf e) (\<lambda>i. buf (of_nat i))) k"
      have st: "turn im K k ?k"
        using kernel_fill_steps [of "unat (ff_file_size ff)" K "exec_buf e" im k] e Some by (simp add: env_ok_def writes_def)
      show ?thesis
      proof (cases "b < 0")
        case True
        then show ?thesis using rc st by auto
      next
        case nn: False
        obtain t k1 where c: "sched_create_user im ?f (exec_buf e) (of_int b) ?k = Some (t, k1)" "out_kernel out = k1"
          using rc [unfolded if_not_P [OF nn]] by (auto split: option.splits prod.splits)
        have "unat (of_int b :: u32) \<le> MAX_PROGRAM" using p Some b nn unfolding programs_fit_def by fastforce
        from turn.last_step [OF kstep.create_user [OF this c(1), of K]] show ?thesis unfolding c(2)
          by (intro turn_trans [OF st]) (simp_all add: set_bytes_def)
      qed
    qed
  qed
qed

section \<open>Delivery is steps\<close>

lemma push_sigframe_writes:
  assumes u: "is_user (cur_task k)" and fr: "user_range fr 288" and r: "push_sigframe fr sg regs k = Some k'"
  shows "writes im K k k'"
proof -
  define ok where "ok kk \<longleftrightarrow> (\<forall>k'. kk = Some k' \<longrightarrow> writes im K k k' \<and> is_user (cur_task k'))" for kk
  have store: "ok (Option.bind kk (el1_store n (fr + of_nat i) v))" if o: "ok kk" and i: "i + n \<le> 288" for kk i n v
    unfolding ok_def
  proof (intro allI impI)
    fix k2 assume "Option.bind kk (el1_store n (fr + of_nat i) v) = Some k2"
    then obtain k1 where k1: "kk = Some k1" "el1_store n (fr + of_nat i) v k1 = Some k2" by (auto split: bind_splits)
    have w: "writes im K k k1" "is_user (cur_task k1)" using o k1(1) by (simp_all add: ok_def)
    have "user_range (fr + of_nat i) n" by (rule user_range_sub [OF fr i]) simp
    then have "writes im K k1 k2" by (rule el1_store_writes [OF w(2) _ k1(2)])
    then show "writes im K k k2 \<and> is_user (cur_task k2)" using writes_trans [OF w(1)] writes_user w(2) by blast
  qed
  have st8: "ok (Option.bind kk (el1_store 8 (fr + of_nat (8 * i)) v))" if "ok kk" "i \<le> 34" for kk i v
    using store [OF that(1), of "8 * i" 8 v] that(2) by simp
  have loop: "ok (fold (\<lambda>i kk. Option.bind kk (el1_store 8 (fr + of_nat (8 * i)) (regs ! i))) [0..<n] (Some k))" if "n \<le> 31" for n
    using that
  proof (induction n)
    case 0
    then show ?case using u writes_refl by (simp add: ok_def)
  next
    case (Suc n)
    then show ?case using st8 [of _ n "regs ! n"] by simp
  qed
  have last4: "ok (Option.bind kk (el1_store 4 (fr + 35 * 8 + 4) v))" if "ok kk" for kk v
    using store [OF that, of 284 4] by (simp add: add.assoc)
  have first4: "ok (Option.bind kk (el1_store 4 (fr + 35 * 8) v))" if "ok kk" for kk v
    using store [OF that, of 280 4] by simp
  have "ok (push_sigframe fr sg regs k)"
    unfolding push_sigframe_def Let_def
    by (intro last4 first4 st8 loop) simp_all
  then show ?thesis using r by (simp add: ok_def)
qed

text \<open>\<open>delivered d\<close>: the kernel state after an attempt to deliver a signal.\<close>

fun delivered :: "delivery \<Rightarrow> kernel" where
  "delivered (Returned r regs k) = k"
| "delivered (Switched k) = k"

lemma get_current:
  assumes "kernel_inv im (K, k)"
  shows "sched_get_task (int (sched_current_id k)) k = Some (current_task k)"
  using call_facts(2) [OF assms] by (simp add: sched_get_task_def sched_current_id_def)

lemma signal_deliver_steps:
  assumes inv: "kernel_inv im (K, k)" and r: "signal_deliver im regs k = Some d"
    and sp: "user_range ((regs ! 31 - SIGFRAME_SIZE) AND NOT 0xF) 288"
  shows "turn im K k (delivered d)"
proof (cases "is_user (cur_task k)")
  case False
  then show ?thesis using r get_current [OF inv] by (auto simp: signal_deliver_def)
next
  case u: True
  let ?c = "current_task k" and ?p = "pending (sig (cur_task k))"
  let ?sg = "lowest_pending ?p"
  let ?f = "\<lambda>t. t\<lparr>sig := (sig t)\<lparr>pending := pending (sig t) AND NOT (push_bit ?sg 1)\<rparr>\<rparr>"
  define k1 where "k1 = upd_task ?c ?f k"
  note cf = call_facts [OF inv]
  note g = get_current [OF inv]
  have "k1 = upd_task ?c (\<lambda>t. t\<lparr>sig := (sig (cur_task k))\<lparr>pending := pending (sig (cur_task k)) AND NOT (push_bit ?sg 1)\<rparr>\<rparr>) k"
    by (simp add: k1_def upd_task_def)
  then have st: "kstep MAX_PROGRAM im (K, k) (K, k1)" using kstep.signal_state by metis
  have u1: "is_user (cur_task k1)" using u cur_less [OF cf(1)] by (simp add: k1_def upd_task_def)
  have def: "signal_deliver im regs k =
      (if ?p = 0 \<or> ?sg = 0 then Some (Returned 0 regs k)
       else if ?sg = SIGKILL then map_option Switched (sched_exit im k1)
       else if handlers (sig (task_at k1 ?c)) ! ?sg = SIG_IGN then Some (Returned 0 regs k1)
       else if handlers (sig (task_at k1 ?c)) ! ?sg = SIG_DFL then signal_default_action im ?sg regs k1
       else case push_sigframe ((regs ! 31 - SIGFRAME_SIZE) AND NOT 0xF) ?sg regs k1 of None \<Rightarrow> None
         | Some k \<Rightarrow> Some (Returned 1 (regs[0 := of_nat ?sg, 30 := ((regs ! 31 - SIGFRAME_SIZE) AND NOT 0xF) + 35 * 8,
             31 := (regs ! 31 - SIGFRAME_SIZE) AND NOT 0xF, 32 := handlers (sig (task_at k1 ?c)) ! ?sg]) k))"
    unfolding signal_deliver_def Let_def g option.case k1_def [symmetric] using u by simp
  have c1: "current_task k1 = ?c" by (simp add: k1_def)
  have ex: "turn im K k (delivered (Switched q))" if "sched_exit im k1 = Some q" for q
    using turn.more [OF st c1 turn.last_step [OF kstep.exit [OF that]]] by simp
  have same: "turn im K k k1" by (rule turn.last_step [OF st])
  have push: "turn im K k q" if "push_sigframe ((regs ! 31 - SIGFRAME_SIZE) AND NOT 0xF) ?sg regs k1 = Some q" for q
    using turn_trans [OF same _ c1] push_sigframe_writes [OF u1 sp that, of im K] unfolding writes_def by blast
  show ?thesis
    using r ex same push unfolding def by (auto simp: signal_default_action_def split: if_splits option.splits)
qed


section \<open>Dispatch is steps\<close>


lemma set_handler_steps:
  assumes inv: "kernel_inv im (K, k)" and r: "signal_set_handler sg h k = (q, k')"
  shows "turn im K k k'"
proof -
  let ?ss = "(sig (cur_task k))\<lparr>handlers := (handlers (sig (cur_task k)))[nat sg := h]\<rparr>"
  have "upd_task (current_task k) (\<lambda>t. t\<lparr>sig := (sig t)\<lparr>handlers := (handlers (sig t))[nat sg := h]\<rparr>\<rparr>) k
      = upd_task (current_task k) (\<lambda>t. t\<lparr>sig := ?ss\<rparr>) k" by (simp add: upd_task_def)
  then have "k' = k \<or> k' = upd_task (current_task k) (\<lambda>t. t\<lparr>sig := ?ss\<rparr>) k"
    using r get_current [OF inv] by (auto simp: signal_set_handler_def split: if_splits)
  then show ?thesis using turn.last_step [OF kstep.signal_state [of MAX_PROGRAM im K k ?ss]] turn.none by auto
qed

lemma dispatch_steps:
  assumes inv: "kernel_inv im (K, k)" and u: "is_user (cur_task k)" and len: "length regs = 34"
    and e: "regs ! 8 \<in> {2, 7, 12} \<Longrightarrow> env_ok e K k" and p: "regs ! 8 = 7 \<Longrightarrow> programs_fit e"
    and a: "user_args e regs k" and r: "dispatch im e regs k con = Some out"
  shows "turn im K k (out_kernel out)"
proof -
  have ex: "turn im K k q" if "sched_exit im k = Some q" for q using turn.last_step [OF kstep.exit [OF that]] by blast
  have wt: "turn im K k q" if "sched_wait im t k = (v, q)" for t v q using turn.last_step [OF kstep.wait [OF that]] by blast
  have sb: "turn im K k q" if "sys_sbrk t k = Some (v, q)" for t v q using turn.last_step [OF kstep.sbrk [OF that]] by blast
  have fk: "turn im K k q" if "sched_fork im regs k = Some (v, q)" for v q using turn.last_step [OF kstep.fork [OF len that]] by blast
  have sd: "turn im K k q" if "signal_send t s k = (v, q)" for t s v q using turn.last_step [OF kstep.send [OF that]] by blast
  have yl: "turn im K k (sched_yield im k)" using turn.last_step [OF kstep.yield] by blast
  have def: "regs ! 8 = 0 \<or> regs ! 8 = 10 \<or> regs ! 8 = 12 \<or> (regs ! 8 \<noteq> 0 \<and> regs ! 8 \<noteq> 10 \<and> regs ! 8 \<noteq> 12)" by blast
  note calls = sys_write_steps [OF inv] sys_open_steps [OF inv] sys_close_steps [OF inv] sys_dup2_steps [OF inv]
    sys_exec_steps set_handler_steps [OF inv]
  from def show ?thesis
  proof (elim disjE conjE)
    assume "regs ! 8 = 0"
    then show ?thesis using r a sys_read_steps [OF inv u] by (simp add: dispatch_def user_args_def)
  next
    assume "regs ! 8 = 10"
    then show ?thesis using r a sys_listdir_steps [OF u] by (simp add: dispatch_def user_args_def)
  next
    assume "regs ! 8 = 12"
    then show ?thesis using r a sys_pipe_steps [OF inv u _ e] by (simp add: dispatch_def user_args_def)
  next
    assume "regs ! 8 \<noteq> 0" "regs ! 8 \<noteq> 10" "regs ! 8 \<noteq> 12"
    then show ?thesis using r
      by (auto simp: dispatch_def Let_def split: if_splits prod.splits attempt.splits
            intro: calls ex wt sb fk sd yl e p)
  qed
qed

text \<open>A call that returns has not given the processor away.\<close>

lemma user_store_current:
  assumes "fold f [0..<n] (Some k) = Some k'" "\<And>i. f i None = None"
    and "\<And>i k1 k2. f i (Some k1) = Some k2 \<Longrightarrow> current_task k2 = current_task k1"
  shows "current_task k' = current_task k"
proof -
  have "fold f [0..<m] (Some k) = Some q \<Longrightarrow> current_task q = current_task k" for m q
  proof (induction m arbitrary: q)
    case (Suc m)
    then obtain k1 where "fold f [0..<m] (Some k) = Some k1" "f m (Some k1) = Some q"
      using assms(2) by (cases "fold f [0..<m] (Some k)") auto
    then show ?case using Suc.IH assms(3) by metis
  qed simp
  then show ?thesis using assms(1) by blast
qed

lemma el1_store8_current: "el1_store8 va b k = Some k' \<Longrightarrow> current_task k' = current_task k"
  by (auto simp: el1_store8_def set_bytes_def)

lemma stores_current:
  shows "write_back n va bytes k = Some k' \<Longrightarrow> current_task k' = current_task k"
    "store_user va bs k = Some k' \<Longrightarrow> current_task k' = current_task k"
    "el1_store n va v k = Some k' \<Longrightarrow> current_task k' = current_task k"
  unfolding write_back_def store_user_def el1_store_def
  by (erule user_store_current; auto split: option.splits dest: el1_store8_current)+

lemma alloc_run_current: "alloc_run_of n k = (a, k') \<Longrightarrow> current_task k' = current_task k"
  by (auto simp: alloc_run_of_def split: prod.splits)

lemma make_pgd_current: "make_pgd cb cp sb k = (a, k') \<Longrightarrow> current_task k' = current_task k"
  by (auto simp: make_pgd_def split: prod.splits)

lemma set_bytes_current [simp]: "current_task (set_bytes f k) = current_task k" "current_task (free_run a n k) = current_task k"
  by (simp_all add: set_bytes_def free_run_def)

lemma create_user_current: "sched_create_user im name src sz k = Some (r, k') \<Longrightarrow> current_task k' = current_task k"
  by (auto simp: sched_create_user_def Let_def split: if_splits prod.splits option.splits dest!: alloc_run_current make_pgd_current)

lemma fork_current: "sched_fork im rs k = Some (r, k') \<Longrightarrow> current_task k' = current_task k"
  by (auto simp: sched_fork_def Let_def split: if_splits prod.splits option.splits dest!: alloc_run_current make_pgd_current)

lemma send_current: "signal_send t sg k = (r, k') \<Longrightarrow> current_task k' = current_task k"
  by (auto simp: signal_send_def Let_def split: if_splits option.splits)

lemma set_handler_current: "signal_set_handler sg h k = (q, k') \<Longrightarrow> current_task k' = current_task k"
  by (auto simp: signal_set_handler_def Let_def split: if_splits option.splits)

lemma sbrk_current: "sys_sbrk n k = Some (r, k') \<Longrightarrow> current_task k' = current_task k"
  by (auto simp: sys_sbrk_def Let_def split: if_splits option.splits)

lemma exec_current: "sys_exec im e regs k con = Some (Ret rs k1 u) \<Longrightarrow> current_task k1 = current_task k"
  by (auto simp: sys_exec_def Let_def split: if_splits option.splits prod.splits dest!: create_user_current)

lemma dispatch_current:
  assumes "dispatch im e regs k con = Some (Ret rs k1 u)"
  shows "current_task k1 = current_task k"
proof -
  have w: "sys_write_rest im first src regs k con = Some (Ret rs k1 u) \<Longrightarrow> current_task k1 = current_task k" for first src
    by (auto simp: sys_write_rest_def split: option.splits prod.splits write_result.splits)
  have r: "sys_read im e regs k con = Some (Ret rs k1 u) \<Longrightarrow> current_task k1 = current_task k"
    by (auto simp: sys_read_def Let_def split: option.splits prod.splits attempt.splits dest!: stores_current)
  have p: "sys_pipe e regs k con = Some (Ret rs k1 u) \<Longrightarrow> current_task k1 = current_task k"
    by (auto simp: sys_pipe_def split: option.splits prod.splits bind_splits dest!: stores_current)
  have l: "sys_listdir e regs k con = Some (Ret rs k1 u) \<Longrightarrow> current_task k1 = current_task k"
    by (auto simp: sys_listdir_def Let_def split: option.splits dest!: stores_current)
  show ?thesis
    using assms r p l exec_current
    by (auto simp: dispatch_def sys_write_def sys_open_def sys_close_def sys_dup2_def sched_wait_def Let_def
          split: if_splits option.splits prod.splits attempt.splits
          dest: w sbrk_current fork_current send_current set_handler_current)
qed

text \<open>
  C4: a system call of a process whose pointers are user addresses is a sequence of steps of the
  kernel, whatever its number and other arguments, delivery of a signal on return included; so the
  invariant survives it. For \<open>SYS_EXEC\<close> this takes a disk on which no program is larger than \<open>MAX_PROGRAM\<close> bytes:
  neither the pointers nor the size of a program are checked by the code.
\<close>

theorem syscall_keeps_inv:
  assumes inv: "kernel_inv im (K, k)" and u: "is_user (cur_task k)" and len: "length regs = 34"
    and e: "env_ok e K k" and p: "programs_fit e" and a: "user_args e regs k"
    and sp: "\<And>rs k1 c. dispatch im e regs k con = Some (Ret rs k1 c) \<Longrightarrow> user_range ((rs ! 31 - SIGFRAME_SIZE) AND NOT 0xF) 288"
    and r: "syscall_handler im e regs k con = Some out"
  shows "(kstep MAX_PROGRAM im)\<^sup>*\<^sup>* (K, k) (K, out_kernel out) \<and> kernel_inv im (K, out_kernel out)"
proof -
  obtain o1 where o1: "dispatch im e regs k con = Some o1" using r by (cases "dispatch im e regs k con") (auto simp: syscall_handler_def)
  note s1 = dispatch_steps [OF inv u len _ _ a o1]
  have "turn im K k (out_kernel out)"
  proof (cases o1)
    case (Ret rs k1 c)
    obtain d where d: "signal_deliver im rs k1 = Some d" "out_kernel out = delivered d"
    proof -
      have "map_option (\<lambda>d. case d of Returned _ regs k \<Rightarrow> Ret regs k c | Switched k \<Rightarrow> Ended k) (signal_deliver im rs k1) = Some out"
        using r o1 Ret by (simp add: syscall_handler_def syscall_return_def)
      then obtain d where d: "signal_deliver im rs k1 = Some d" "out = (case d of Returned _ regs k \<Rightarrow> Ret regs k c | Switched k \<Rightarrow> Ended k)" by auto
      show ?thesis by (rule that [OF d(1)]) (use d(2) in \<open>cases d; simp\<close>)
    qed
    have s2: "turn im K k k1" using s1 e p Ret by simp
    have "turn im K k1 (delivered d)"
      by (rule signal_deliver_steps [OF kernel_inv_steps [OF turn_steps [OF s2] inv] d(1) sp]) (use o1 Ret in simp)
    then show ?thesis using turn_trans [OF s2] dispatch_current [OF o1 [unfolded Ret]] d(2) by simp
  qed (use r o1 s1 e p in \<open>auto simp: syscall_handler_def\<close>)
  then show ?thesis using kernel_inv_steps turn_steps inv by blast
qed

text \<open>Process 1 sends signal 15 to process 2.\<close>

definition demo_env :: sys_env where
  "demo_env = \<lparr>blk = (\<lambda>_. None), root_fs = \<lparr>bpb = \<lparr>bytes_per_sector = 512, sectors_per_cluster = 1, reserved_sectors = 1, num_fats = 1,
       root_entry_count = 16, total_sectors_16 = 8, total_sectors_32 = 0, fat_size_16 = 1, root_dir_sector = 2, root_dir_sectors = 1, data_start_sector = 3\<rparr>,
       fat_table = []\<rparr>, new_file = 1, new_pipe_ptr = 2, rd_file = 3, wr_file = 4, exec_buf = 0, tmp_ok = True, junk = (\<lambda>_. 0)\<rparr>"

definition kill_regs :: regs where
  "kill_regs = (replicate 34 0x7FF000)[0 := 2, 1 := 15, 8 := 14]"

lemma kill_regs: "length kill_regs = 34" "kill_regs ! 0 = 2" "kill_regs ! 1 = 15" "kill_regs ! 8 = 14" "kill_regs ! 31 = 0x7FF000"
  by (simp_all add: kill_regs_def)

theorem syscall_keeps_inv_witness:
  "\<exists>k out. signal_send 2 15 k = (0, out_kernel out) \<and> syscall_handler demo_im demo_env kill_regs k \<lparr>rx = [], tx = []\<rparr> = Some out
     \<and> kernel_inv demo_im (demo_K, out_kernel out)"
proof -
  obtain k0 where k0: "current_task k0 = 1" "num_tasks k0 = 3" "is_user (task_at k0 1)" "tstate (task_at k0 2) = TASK_READY"
      "dom (files (fds k0)) = {Console}" "pipes (fds k0) = Map.empty"
    and inv0: "kernel_inv demo_im (demo_K, k0)"
    using demo_two by metis
  let ?ss = "\<lparr>handlers = replicate 32 0, pending = 0\<rparr>"
  define k where "k = upd_task (current_task k0) (\<lambda>t. t\<lparr>sig := ?ss\<rparr>) k0"
  have inv: "kernel_inv demo_im (demo_K, k)" using kernel_inv_step [OF inv0 kstep.signal_state] by (simp add: k_def)
  obtain own where "sched_inv demo_im k0" using kernel_invE [OF inv0] by metis
  then have len: "length (tasks k0) = SCHED_MAX_TASKS" by (simp add: sched_defs)
  then have k: "current_task k = 1" "num_tasks k = 3" "is_user (task_at k 1)" "pending (sig (task_at k 1)) = 0" "fds k = fds k0"
    "tstate (task_at k 2) = TASK_READY" "length (tasks k) = 8"
    using k0 by (simp_all add: k_def SCHED_MAX_TASKS_def upd_task_def)
  obtain k' where k': "signal_send 2 15 k = (0, k')" "current_task k' = 1" "num_tasks k' = 3" "is_user (task_at k' 1)"
      "pending (sig (task_at k' 1)) = 0"
    using k by (simp add: signal_send_def sched_get_task_def NSIG_def upd_task_def)
  let ?u = "\<lparr>rx = [], tx = []\<rparr>"
  have d: "dispatch demo_im demo_env kill_regs k ?u = Some (Ret (kill_regs[0 := 0]) k' ?u)"
    using k' kill_regs by (simp add: dispatch_def Let_def)
  then have h: "syscall_handler demo_im demo_env kill_regs k ?u = Some (Ret (kill_regs[0 := 0]) k' ?u)"
    using k' by (simp add: syscall_handler_def syscall_return_def signal_deliver_def sched_get_task_def sched_current_id_def)
  have e: "env_ok demo_env demo_K k"
    using k0(5,6) k(5) by (simp add: env_ok_def demo_env_def fat16_open_def)
  have "kernel_inv demo_im (demo_K, k')"
    using syscall_keeps_inv [OF inv _ kill_regs(1) e _ _ _ h] d k kill_regs
    by (simp add: user_args_def user_range_def SIGFRAME_SIZE_def programs_fit_def demo_env_def fat16_open_def)
  then show ?thesis using h k'(1) by (intro exI [of _ k] exI [of _ "Ret (kill_regs[0 := 0]) k' ?u"]) simp
qed

section \<open>Kernel pointers\<close>

lemma el1_store_kernel:
  assumes "KERN_VA_OFFSET \<le> va" "unat va + n \<le> 2 ^ 64"
  shows "el1_store n va v k = Some (set_bytes (store_bytes n va v) k)"
  using assms(2)
proof (induction n)
  case 0
  have "set_bytes (store_bytes 0 va v) k = k" by (simp add: store_bytes_def fill_bytes_def set_bytes_def)
  then show ?case by (simp add: el1_store_def)
next
  case (Suc n)
  let ?k = "set_bytes (store_bytes n va v) k"
  have "unat (of_nat n :: u64) = n" by (rule unat_of_nat_small) (use Suc.prems in simp)
  then have "va \<le> va + of_nat n" using Suc.prems by (simp add: word_le_nat_alt unat_add_small)
  then have "KERN_VA_OFFSET \<le> va + of_nat n" "\<not> va + of_nat n < 0x8000000000"
    using assms(1) by (auto simp: KERN_VA_OFFSET_def word_le_nat_alt word_less_nat_alt)
  then have "el1_store8 (va + of_nat n) b ?k = Some (set_bytes (\<lambda>m. m(va + of_nat n := b)) ?k)" for b
    by (simp add: el1_store8_def el1_addr_def)
  moreover have "el1_store (Suc n) va v k = Option.bind (el1_store n va v k) (el1_store8 (va + of_nat n) (ucast (drop_bit (8 * n) v)))"
    by (simp add: el1_store_def)
  moreover have "set_bytes (\<lambda>m. m(va + of_nat n := ucast (drop_bit (8 * n) v))) ?k = set_bytes (store_bytes (Suc n) va v) k"
    by (simp add: set_bytes_set_bytes store_bytes_Suc [abs_def])
  ultimately show ?case using Suc by simp
qed

text \<open>
  a pointer into kernel space is not refused: \<open>pipe\<close> then writes the two descriptor numbers over
  eight bytes of kernel memory that the process chose.
\<close>

theorem pipe_writes_kernel:
  assumes num: "regs ! 8 = 12" and va: "KERN_VA_OFFSET \<le> regs ! 0" "unat (regs ! 0) + 8 \<le> 2 ^ 64"
    and f: "fd_pipe (current_fdt k) (new_pipe_ptr e) (rd_file e) (wr_file e) (fds k) = (0, Some (rfd, wfd), t, s)"
  shows "dispatch im e regs k u = Some (Ret (regs[0 := 0])
      (set_bytes (store_bytes 4 (regs ! 0 + 4) (of_int wfd) \<circ> store_bytes 4 (regs ! 0) (of_int rfd)) (set_fdt t s k)) u)"
proof -
  have u4: "unat (regs ! 0 + 4) = unat (regs ! 0) + 4" using va(2) by (simp add: unat_add_small)
  have "regs ! 0 \<le> regs ! 0 + 4" using u4 by (simp add: word_le_nat_alt)
  then have v4: "KERN_VA_OFFSET \<le> regs ! 0 + 4" "unat (regs ! 0 + 4) + 4 \<le> 2 ^ 64" using va u4 by simp_all
  have "unat (regs ! 0) + 4 \<le> 2 ^ 64" using va(2) by simp
  note w = el1_store_kernel [OF va(1) this] el1_store_kernel [OF v4]
  show ?thesis by (simp add: dispatch_def Let_def num sys_pipe_def f w set_bytes_set_bytes comp_def)
qed

theorem pipe_writes_kernel_witness:
  "\<exists>k k'. kernel_inv demo_im (demo_K, k) \<and> is_user (cur_task k)
     \<and> dispatch demo_im demo_env ((replicate 34 0)[0 := 0xFFFFFF8040080000, 8 := 12]) k \<lparr>rx = [], tx = []\<rparr>
         = Some (Ret ((replicate 34 0)[8 := 12]) k' \<lparr>rx = [], tx = []\<rparr>)
     \<and> kbytes (kmm k') 0xFFFFFF8040080000 = 3"
proof -
  obtain k where k: "kernel_inv demo_im (demo_K, k)" "current_task k = 1" "num_tasks k = 3" "is_user (task_at k 1)"
      "fdt (task_at k 1) = demo_fdt"
    using demo_two by metis
  let ?r = "(replicate 34 0)[0 := 0xFFFFFF8040080000, 8 := 12] :: regs"
  have r: "?r ! 8 = 12" "?r ! 0 = 0xFFFFFF8040080000" "?r[0 := 0] = (replicate 34 0)[8 := 12]" by (simp_all add: numeral_eq_Suc)
  have "find_free_fd demo_fdt = 3" "find_free_fd (demo_fdt[3 := Some (Obj 0)]) = 4"
    by (simp_all add: demo_fdt_def MAX_FDS_PER_TASK_def find_free_fd_def numeral_eq_Suc)
  then obtain t s where f: "fd_pipe (current_fdt k) (new_pipe_ptr demo_env) (rd_file demo_env) (wr_file demo_env) (fds k) = (0, Some (3, 4), t, s)"
    using k(2,5) by (simp add: fd_pipe_def current_fdt_def sched_current_id_def demo_env_def Let_def)
  have va: "KERN_VA_OFFSET \<le> ?r ! 0" "unat (?r ! 0) + 8 \<le> 2 ^ 64" by (simp_all only: r) (simp_all add: KERN_VA_OFFSET_def)
  note d = pipe_writes_kernel [OF r(1) va f, of demo_im "\<lparr>rx = [], tx = []\<rparr>"]
  have "store_bytes 4 0xFFFFFF8040080004 4 (store_bytes 4 0xFFFFFF8040080000 3 m) 0xFFFFFF8040080000 = 3" for m
    by (simp add: store_bytes_apply)
  then show ?thesis using d k by (intro exI conjI, (simp_all add: r)[3]) (simp_all add: r)
qed

end
