(* ===== verification/Virtqueue.thy ===== *)
theory Virtqueue
  imports Prelude
begin

text \<open>
  Split virtqueues, \<^verbatim>\<open>src/virtqueue.c\<close>: a table of descriptors that holds the free list and the chains
  given to the device, a ring of chains offered to the device and a ring of chains it is done with.
  The rings are memory shared with the device, whose writes are \<open>device_used\<close> in \<open>VirtqueueSpec\<close>.
  \<open>None\<close> is an access outside the descriptor table, a division by zero or a loop without end.
\<close>

section \<open>Data\<close>

definition VRING_DESC_F_NEXT :: u16 where "VRING_DESC_F_NEXT = 1"
definition VRING_DESC_F_WRITE :: u16 where "VRING_DESC_F_WRITE = 2"
definition VIRTQ_MAX_SIZE :: nat where "VIRTQ_MAX_SIZE = 256"
definition VIRTQ_MAX_QUEUES :: nat where "VIRTQ_MAX_QUEUES = 16"

record vring_desc =
  d_addr :: u64
  d_len :: u32
  d_flags :: u16
  d_next :: u16

text \<open>A queue with the ring memory of its slot: \<open>avail->idx\<close> is \<open>avail_hdr_idx\<close>, \<open>used->idx\<close> is \<open>used_hdr_idx\<close>.\<close>

record virtqueue =
  desc :: "vring_desc list"
  avail_hdr_idx :: u16
  avail_ring :: "u16 list"
  used_hdr_idx :: u16
  used_ring :: "(u32 \<times> u32) list"
  num :: u16
  free_head :: u16
  last_used_idx :: u16
  avail_idx :: u16
  queue_index :: u16
  notify_addr :: u64

record vq_buf =
  b_addr :: u64
  b_len :: u32
  b_flags :: u16

section \<open>Operations\<close>

text \<open>The free list after initialisation: entry \<open>i\<close> leads to \<open>i + 1\<close>, the last one to the end mark.\<close>

definition free_list :: "nat \<Rightarrow> vring_desc list" where
  "free_list n = (map (\<lambda>i. \<lparr>d_addr = 0, d_len = 0, d_flags = 0, d_next = of_nat (Suc i)\<rparr>) [0..<n])
     [n - 1 := \<lparr>d_addr = 0, d_len = 0, d_flags = 0, d_next = 0xFFFF\<rparr>]"

text \<open>A fresh slot of the static ring memory is all zero.\<close>

definition zero_desc :: vring_desc where
  "zero_desc = \<lparr>d_addr = 0, d_len = 0, d_flags = 0, d_next = 0\<rparr>"

definition virtqueue_init :: "u16 \<Rightarrow> u16 \<Rightarrow> u64 \<Rightarrow> nat \<Rightarrow> virtqueue \<Rightarrow> (nat \<times> virtqueue) option" where
  "virtqueue_init n index notify next_queue_slot vq =
     (if next_queue_slot \<ge> VIRTQ_MAX_QUEUES then Some (next_queue_slot, vq)
      else
        let n = (if unat n > VIRTQ_MAX_SIZE then of_nat VIRTQ_MAX_SIZE else n)
        in if n = 0 then None
           else Some (Suc next_queue_slot,
             \<lparr>desc = free_list (unat n) @ replicate (VIRTQ_MAX_SIZE - unat n) zero_desc,
              avail_hdr_idx = 0, avail_ring = replicate VIRTQ_MAX_SIZE 0,
              used_hdr_idx = 0, used_ring = replicate VIRTQ_MAX_SIZE (0, 0),
              num = n, free_head = 0, last_used_idx = 0, avail_idx = 0,
              queue_index = index, notify_addr = notify\<rparr>))"

definition desc_at :: "vring_desc list \<Rightarrow> u16 \<Rightarrow> vring_desc option" where
  "desc_at d i = (if unat i < length d then Some (d ! unat i) else None)"

text \<open>The check that the free list is long enough: \<open>n\<close> descriptors from \<open>idx\<close> on.\<close>

fun enough_free :: "vring_desc list \<Rightarrow> u16 \<Rightarrow> nat \<Rightarrow> bool option" where
  "enough_free d idx 0 = Some True"
| "enough_free d idx (Suc n) =
     (if idx = 0xFFFF then Some False
      else if n = 0 then Some True
      else Option.bind (desc_at d idx) (\<lambda>e. enough_free d (d_next e) n))"

text \<open>Filling a chain from \<open>idx\<close> on; the result is the table and the new head of the free list.\<close>

fun fill_chain :: "vring_desc list \<Rightarrow> u16 \<Rightarrow> u16 \<Rightarrow> vq_buf list \<Rightarrow> (vring_desc list \<times> u16) option" where
  "fill_chain d fh idx [] = Some (d, fh)"
| "fill_chain d fh idx (b # bs) =
     Option.bind (desc_at d idx) (\<lambda>e.
       if bs \<noteq> [] then
         fill_chain (d[unat idx := \<lparr>d_addr = virt_to_phys (b_addr b), d_len = b_len b,
             d_flags = b_flags b OR VRING_DESC_F_NEXT, d_next = d_next e\<rparr>]) fh (d_next e) bs
       else Some (d[unat idx := \<lparr>d_addr = virt_to_phys (b_addr b), d_len = b_len b, d_flags = b_flags b, d_next = 0\<rparr>],
         d_next e))"

definition virtqueue_add_chain :: "vq_buf list \<Rightarrow> virtqueue \<Rightarrow> (u16 \<times> virtqueue) option" where
  "virtqueue_add_chain bufs vq =
     Option.bind (enough_free (desc vq) (free_head vq) (length bufs)) (\<lambda>enough.
       if \<not> enough then Some (0xFFFF, vq)
       else Option.bind (fill_chain (desc vq) (free_head vq) (free_head vq) bufs) (\<lambda>(d, fh).
         if num vq = 0 then None
         else Some (free_head vq,
           vq\<lparr>desc := d, free_head := fh,
              avail_ring := (avail_ring vq)[unat (avail_idx vq mod num vq) := free_head vq],
              avail_idx := avail_idx vq + 1, avail_hdr_idx := avail_idx vq + 1\<rparr>)))"

definition virtqueue_add_buf_write :: "u64 \<Rightarrow> u32 \<Rightarrow> virtqueue \<Rightarrow> (u16 \<times> virtqueue) option" where
  "virtqueue_add_buf_write buf len vq =
     virtqueue_add_chain [\<lparr>b_addr = buf, b_len = len, b_flags = VRING_DESC_F_WRITE\<rparr>] vq"

text \<open>The 16-bit store that notifies the device: its address and value.\<close>

definition virtqueue_kick :: "virtqueue \<Rightarrow> u64 \<times> u16" where
  "virtqueue_kick vq = (notify_addr vq, queue_index vq)"

text \<open>Giving a chain back to the free list, as long as the descriptors say that there is a next one.\<close>

partial_function (option) free_chain :: "vring_desc list \<Rightarrow> u16 \<Rightarrow> u16 \<Rightarrow> (vring_desc list \<times> u16) option" where
  "free_chain d fh cur =
     (case desc_at d cur of
        None \<Rightarrow> None
      | Some e \<Rightarrow>
          if d_flags e AND VRING_DESC_F_NEXT \<noteq> 0
          then free_chain (d[unat cur := e\<lparr>d_next := fh\<rparr>]) cur (d_next e)
          else Some (d[unat cur := e\<lparr>d_next := fh\<rparr>], cur))"

definition virtqueue_get_used :: "virtqueue \<Rightarrow> ((u16 \<times> u32) option \<times> virtqueue) option" where
  "virtqueue_get_used vq =
     (if last_used_idx vq = used_hdr_idx vq then Some (None, vq)
      else if num vq = 0 then None
      else
        let (id, len) = used_ring vq ! unat (last_used_idx vq mod num vq); head = ucast id
        in map_option (\<lambda>(d, fh). (Some (head, len),
             vq\<lparr>desc := d, free_head := fh, last_used_idx := last_used_idx vq + 1\<rparr>))
             (free_chain (desc vq) (free_head vq) head))"

end
