(* ===== verification/VirtqueueSpec.thy ===== *)
theory VirtqueueSpec
  imports Virtqueue
begin

text \<open>
  Correctness of the virtqueue: the descriptors of a queue are always split, without loss, between
  the free list and the chains in the hands of the device, as long as the device reports only chains
  it was given. A chain carries its buffers in order, and every completed chain becomes free again.
\<close>

section \<open>Lists of descriptors\<close>

text \<open>\<open>free_path d i xs\<close>: from \<open>i\<close>, the free list runs through exactly \<open>xs\<close>.\<close>

fun free_path :: "vring_desc list \<Rightarrow> u16 \<Rightarrow> nat list \<Rightarrow> bool" where
  "free_path d i [] \<longleftrightarrow> i = 0xFFFF"
| "free_path d i (x # xs) \<longleftrightarrow> unat i = x \<and> x < length d \<and> free_path d (d_next (d ! x)) xs"

text \<open>\<open>linked d c\<close>: \<open>c\<close> is a whole chain of the table.\<close>

fun linked :: "vring_desc list \<Rightarrow> nat list \<Rightarrow> bool" where
  "linked d [] \<longleftrightarrow> False"
| "linked d [x] \<longleftrightarrow> x < length d \<and> d_flags (d ! x) AND VRING_DESC_F_NEXT = 0"
| "linked d (x # y # ys) \<longleftrightarrow> x < length d \<and> d_flags (d ! x) AND VRING_DESC_F_NEXT \<noteq> 0
     \<and> unat (d_next (d ! x)) = y \<and> linked d (y # ys)"

lemma free_path_cong:
  assumes "free_path d i xs" "length d' = length d" "\<And>x. x \<in> set xs \<Longrightarrow> d' ! x = d ! x"
  shows "free_path d' i xs"
  using assms by (induction xs arbitrary: i) auto

lemma linked_cong:
  assumes "linked d c" "length d' = length d" "\<And>x. x \<in> set c \<Longrightarrow> d' ! x = d ! x"
  shows "linked d' c"
  using assms by (induction c rule: linked.induct) auto

lemma linked_bound: "linked d c \<Longrightarrow> x \<in> set c \<Longrightarrow> x < length d"
  by (induction c rule: linked.induct) auto

lemma enough_free_path:
  assumes "free_path d i fl" "length d \<le> 0xFFFF"
  shows "enough_free d i n = Some (n \<le> length fl)"
  using assms
proof (induction n arbitrary: i fl)
  case (Suc n)
  show ?case
  proof (cases fl)
    case (Cons x xs)
    then have x: "unat i = x" "x < length d" "free_path d (d_next (d ! x)) xs" using Suc.prems by auto
    then have "i \<noteq> 0xFFFF" using Suc.prems(2) by (auto simp: unat_arith_simps)
    then show ?thesis using x Suc.IH [OF x(3) Suc.prems(2)] Cons by (simp add: desc_at_def)
  qed (use Suc.prems in simp)
qed simp

text \<open>What the device sees of a descriptor: address, length and whether it may write.\<close>

definition seen :: "vring_desc \<Rightarrow> u64 \<times> u32 \<times> u16" where
  "seen e = (d_addr e, d_len e, d_flags e AND NOT VRING_DESC_F_NEXT)"

definition offered :: "vq_buf \<Rightarrow> u64 \<times> u32 \<times> u16" where
  "offered b = (virt_to_phys (b_addr b), b_len b, b_flags b)"

lemma next_flag:
  assumes "(a :: u16) AND VRING_DESC_F_NEXT = 0"
  shows "a AND NOT VRING_DESC_F_NEXT = a" "(a OR VRING_DESC_F_NEXT) AND NOT VRING_DESC_F_NEXT = a"
    "(a OR VRING_DESC_F_NEXT) AND VRING_DESC_F_NEXT \<noteq> 0"
proof -
  have z: "\<not> bit a 0" using assms by (simp add: VRING_DESC_F_NEXT_def and_one_eq bit_0 even_iff_mod_2_eq_zero)
  then have "bit a n \<longrightarrow> n \<noteq> 0" for n by metis
  then show "a AND NOT VRING_DESC_F_NEXT = a" "(a OR VRING_DESC_F_NEXT) AND NOT VRING_DESC_F_NEXT = a"
    by (auto intro!: bit_eqI simp: VRING_DESC_F_NEXT_def bit_simps)
  have "bit ((a OR VRING_DESC_F_NEXT) AND VRING_DESC_F_NEXT) 0" by (simp add: VRING_DESC_F_NEXT_def bit_simps)
  then show "(a OR VRING_DESC_F_NEXT) AND VRING_DESC_F_NEXT \<noteq> 0" by auto
qed

lemma fill_chain_path:
  assumes "free_path d i fl" "distinct fl" "bs \<noteq> []" "length bs \<le> length fl" "\<forall>b \<in> set bs. b_flags b AND VRING_DESC_F_NEXT = 0"
  shows "\<exists>d' i'. fill_chain d fh i bs = Some (d', i') \<and> length d' = length d \<and> free_path d' i' (drop (length bs) fl)
    \<and> linked d' (take (length bs) fl) \<and> (\<forall>x. x \<notin> set (take (length bs) fl) \<longrightarrow> d' ! x = d ! x)
    \<and> map (\<lambda>x. seen (d' ! x)) (take (length bs) fl) = map offered bs"
  using assms
proof (induction bs arbitrary: d i fl)
  case (Cons b bs)
  obtain x xs where fl: "fl = x # xs" using Cons.prems(4) by (cases fl) auto
  have x: "unat i = x" "x < length d" "free_path d (d_next (d ! x)) xs" "x \<notin> set xs" "distinct xs"
    using Cons.prems(1,2) fl by auto
  have f: "b_flags b AND VRING_DESC_F_NEXT = 0" using Cons.prems(5) by simp
  show ?case
  proof (cases "bs = []")
    case True
    let ?d = "d[x := \<lparr>d_addr = virt_to_phys (b_addr b), d_len = b_len b, d_flags = b_flags b, d_next = 0\<rparr>]"
    have "free_path ?d (d_next (d ! x)) xs" by (rule free_path_cong [OF x(3)]) (simp, metis x(4) nth_list_update_neq)
    then show ?thesis using True x f next_flag [OF f] by (auto simp: fl desc_at_def seen_def offered_def)
  next
    case False
    let ?d = "d[x := \<lparr>d_addr = virt_to_phys (b_addr b), d_len = b_len b, d_flags = b_flags b OR VRING_DESC_F_NEXT, d_next = d_next (d ! x)\<rparr>]"
    have p: "free_path ?d (d_next (d ! x)) xs" by (rule free_path_cong [OF x(3)]) (simp, metis x(4) nth_list_update_neq)
    obtain d' i' where r: "fill_chain ?d fh (d_next (d ! x)) bs = Some (d', i')" "length d' = length d"
      "free_path d' i' (drop (length bs) xs)" "linked d' (take (length bs) xs)"
      "\<forall>z. z \<notin> set (take (length bs) xs) \<longrightarrow> d' ! z = ?d ! z" "map (\<lambda>z. seen (d' ! z)) (take (length bs) xs) = map offered bs"
      using Cons.IH [OF p x(5) False] Cons.prems(4,5) fl by auto
    have xd: "d' ! x = ?d ! x" using r(5) x(4) in_set_takeD by metis
    obtain y ys where y: "take (length bs) xs = y # ys" using False Cons.prems(4) fl by (cases xs; cases bs) auto
    then obtain zs where "xs = y # zs" by (cases xs; cases bs) auto
    then have nx: "unat (d_next (d ! x)) = y" using x(3) by simp
    have "linked d' (x # take (length bs) xs)" using r(2,4) x(2) xd nx next_flag [OF f] by (simp add: y)
    then show ?thesis using False r x next_flag [OF f] xd by (auto simp: fl desc_at_def seen_def offered_def)
  qed
qed simp

lemma free_chain_linked:
  assumes "linked d c" "distinct (c @ fl)" "free_path d fh fl" "length d \<le> 0xFFFF" "unat i = hd c"
  shows "\<exists>d'. free_chain d fh i = Some (d', of_nat (last c)) \<and> length d' = length d
    \<and> free_path d' (of_nat (last c)) (rev c @ fl) \<and> (\<forall>x. x \<notin> set c \<longrightarrow> d' ! x = d ! x)"
  using assms
proof (induction c arbitrary: d fh fl i)
  case (Cons x c)
  let ?d = "d[x := (d ! x)\<lparr>d_next := fh\<rparr>]"
  have x: "x < length d" "x \<notin> set c" "x \<notin> set fl" "unat i = x" "distinct c"
    using linked_bound [OF Cons.prems(1)] Cons.prems by auto
  have i: "i = of_nat x" using x(4) [symmetric] by simp
  have "free_path ?d fh fl" by (rule free_path_cong [OF Cons.prems(3)]) (simp, metis x(3) nth_list_update_neq)
  then have p: "free_path ?d i (x # fl)" using x by simp
  show ?case
  proof (cases c)
    case Nil
    then show ?thesis using Cons.prems(1) x p by (subst free_chain.simps) (simp add: desc_at_def i)
  next
    case (Cons y ys)
    have l: "linked d c" "d_flags (d ! x) AND VRING_DESC_F_NEXT \<noteq> 0" "unat (d_next (d ! x)) = hd c" using Cons.prems(1) Cons by auto
    have l': "linked ?d c" by (rule linked_cong [OF l(1)]) (simp, metis x(2) nth_list_update_neq)
    obtain d' where r: "free_chain ?d i (d_next (d ! x)) = Some (d', of_nat (last c))" "length d' = length d"
      "free_path d' (of_nat (last c)) (rev c @ x # fl)" "\<forall>z. z \<notin> set c \<longrightarrow> d' ! z = ?d ! z"
      using Cons.IH [OF l' _ p _ l(3)] Cons.prems(2,4) by auto
    have "free_chain d fh i = free_chain ?d i (d_next (d ! x))"
      using x l(2) by (subst free_chain.simps) (simp add: desc_at_def)
    then show ?thesis using r Cons by auto
  qed
qed simp

section \<open>Invariant\<close>

text \<open>
  The entries of the used ring that the driver has not looked at. Ring positions are taken modulo the
  queue size, counters modulo 65536, so the size has to divide 65536: it is a power of two.
\<close>

definition ring_slot :: "virtqueue \<Rightarrow> nat \<Rightarrow> nat" where
  "ring_slot vq i = unat ((last_used_idx vq + of_nat i) mod num vq)"

definition vq_wf :: "virtqueue \<Rightarrow> bool" where
  "vq_wf vq \<longleftrightarrow> num vq \<noteq> 0 \<and> unat (num vq) \<le> VIRTQ_MAX_SIZE \<and> unat (num vq) dvd 65536 \<and> length (desc vq) = VIRTQ_MAX_SIZE
     \<and> length (avail_ring vq) = VIRTQ_MAX_SIZE \<and> length (used_ring vq) = VIRTQ_MAX_SIZE \<and> avail_hdr_idx vq = avail_idx vq"

text \<open>
  \<open>fl\<close> is the free list, \<open>cs\<close> the chains given to the device, \<open>ds\<close> the heads of those it is done with
  and the driver has not taken back.
\<close>

definition vq_inv :: "nat list \<Rightarrow> nat list set \<Rightarrow> nat list \<Rightarrow> virtqueue \<Rightarrow> bool" where
  "vq_inv fl cs ds vq \<longleftrightarrow> vq_wf vq
     \<and> free_path (desc vq) (free_head vq) fl \<and> (\<forall>c \<in> cs. linked (desc vq) c)
     \<and> distinct fl \<and> (\<forall>c \<in> cs. distinct c \<and> set c \<inter> set fl = {}) 
     \<and> (\<forall>c \<in> cs. \<forall>c' \<in> cs. c \<noteq> c' \<longrightarrow> set c \<inter> set c' = {})
     \<and> set fl \<union> \<Union> (set ` cs) = {..<unat (num vq)}
     \<and> distinct ds \<and> set ds \<subseteq> hd ` cs
     \<and> used_hdr_idx vq = last_used_idx vq + of_nat (length ds)
     \<and> (\<forall>i < length ds. fst (used_ring vq ! ring_slot vq i) = of_nat (ds ! i))"

lemma ring_slot:
  assumes "unat (num vq) dvd 65536"
  shows "ring_slot vq i = (unat (last_used_idx vq) + i) mod unat (num vq)"
proof -
  have "unat (last_used_idx vq + of_nat i) = (unat (last_used_idx vq) + i) mod 65536"
    by (simp add: unat_word_ariths unat_of_nat mod_simps)
  then show ?thesis using assms by (simp add: ring_slot_def unat_mod_distrib mod_mod_cancel)
qed

lemma slot_less:
  assumes "vq_wf vq"
  shows "unat (x mod num vq) < VIRTQ_MAX_SIZE"
proof -
  have "0 < unat (num vq)" using assms by (simp add: vq_wf_def unat_gt_0)
  then have "unat (x mod num vq) < unat (num vq)" by (simp add: unat_mod_distrib)
  then show ?thesis using assms by (simp add: vq_wf_def)
qed

lemma ring_slot_less:
  assumes "vq_wf vq"
  shows "ring_slot vq k < 256"
  using slot_less [OF assms] by (simp add: ring_slot_def VIRTQ_MAX_SIZE_def)

lemma ring_slot_inj:
  assumes "vq_wf vq" "k < l" "l < unat (num vq)"
  shows "ring_slot vq k \<noteq> ring_slot vq l"
proof
  let ?n = "unat (num vq)"
  assume e: "ring_slot vq k = ring_slot vq l"
  have "?n dvd 65536" using assms(1) by (simp add: vq_wf_def)
  then have "(unat (last_used_idx vq) + k) mod ?n = (unat (last_used_idx vq) + l) mod ?n" using e by (simp add: ring_slot)
  then have "?n dvd (l - k)"
    using assms(2) by (metis add_diff_cancel_left le_add_diff_inverse less_imp_le mod_eq_dvd_iff_nat nat_add_left_cancel_le)
  then show False using assms(2,3) by (meson dvd_imp_le le_less_trans less_le_not_le nat_less_le zero_less_diff diff_le_self)
qed

lemma vq_invD:
  assumes "vq_inv fl cs ds vq"
  shows "vq_wf vq" "free_path (desc vq) (free_head vq) fl" "distinct fl" "distinct ds" "set ds \<subseteq> hd ` cs"
    "used_hdr_idx vq = last_used_idx vq + of_nat (length ds)" "length (desc vq) = 256"
    "\<And>c. c \<in> cs \<Longrightarrow> linked (desc vq) c \<and> distinct c \<and> set c \<inter> set fl = {}"
    "\<And>c c'. c \<in> cs \<Longrightarrow> c' \<in> cs \<Longrightarrow> c \<noteq> c' \<Longrightarrow> set c \<inter> set c' = {}"
    "set fl \<union> \<Union> (set ` cs) = {..<unat (num vq)}"
    "\<And>i. i < length ds \<Longrightarrow> fst (used_ring vq ! ring_slot vq i) = of_nat (ds ! i)"
  using assms by (auto simp: vq_inv_def vq_wf_def VIRTQ_MAX_SIZE_def)

text \<open>What the device reads in a chain.\<close>

definition carries :: "virtqueue \<Rightarrow> nat list \<Rightarrow> vq_buf list \<Rightarrow> bool" where
  "carries vq c bufs \<longleftrightarrow> linked (desc vq) c \<and> map (\<lambda>x. seen (desc vq ! x)) c = map offered bufs"

lemma add_chain_full:
  assumes "vq_inv fl cs ds vq" "length fl < length bufs"
  shows "virtqueue_add_chain bufs vq = Some (0xFFFF, vq)"
  using enough_free_path [OF vq_invD(2) [OF assms(1)], of "length bufs"] vq_invD(7) [OF assms(1)] assms(2)
  by (simp add: virtqueue_add_chain_def)

lemma add_chain_ok:
  assumes inv: "vq_inv fl cs ds vq" and bufs: "bufs \<noteq> []" "length bufs \<le> length fl" "\<forall>b \<in> set bufs. b_flags b AND VRING_DESC_F_NEXT = 0"
  shows "\<exists>d fh. virtqueue_add_chain bufs vq = Some (of_nat (hd fl), vq\<lparr>desc := d, free_head := fh,
        avail_ring := (avail_ring vq)[unat (avail_idx vq mod num vq) := of_nat (hd fl)],
        avail_idx := avail_idx vq + 1, avail_hdr_idx := avail_idx vq + 1\<rparr>)
     \<and> vq_inv (drop (length bufs) fl) (insert (take (length bufs) fl) cs) ds (vq\<lparr>desc := d, free_head := fh,
        avail_ring := (avail_ring vq)[unat (avail_idx vq mod num vq) := of_nat (hd fl)],
        avail_idx := avail_idx vq + 1, avail_hdr_idx := avail_idx vq + 1\<rparr>)
     \<and> linked d (take (length bufs) fl) \<and> map (\<lambda>x. seen (d ! x)) (take (length bufs) fl) = map offered bufs
     \<and> (\<forall>c \<in> cs. \<forall>x \<in> set c. d ! x = desc vq ! x)"
proof -
  note i = vq_invD [OF inv]
  let ?n = "length bufs"
  obtain x xs where fl: "fl = x # xs" using bufs by (cases fl; cases bufs) auto
  have h: "free_head vq = of_nat (hd fl)" using i(2) by (auto simp: fl)
  obtain d fh where r: "fill_chain (desc vq) (free_head vq) (free_head vq) bufs = Some (d, fh)" "length d = 256"
    "free_path d fh (drop ?n fl)" "linked d (take ?n fl)" "\<forall>x. x \<notin> set (take ?n fl) \<longrightarrow> d ! x = desc vq ! x"
    "map (\<lambda>x. seen (d ! x)) (take ?n fl) = map offered bufs"
    using fill_chain_path [OF i(2,3) bufs(1,2,3), of "free_head vq"] i(7) by auto
  let ?vq = "vq\<lparr>desc := d, free_head := fh,
        avail_ring := (avail_ring vq)[unat (avail_idx vq mod num vq) := of_nat (hd fl)],
        avail_idx := avail_idx vq + 1, avail_hdr_idx := avail_idx vq + 1\<rparr>"
  have a: "virtqueue_add_chain bufs vq = Some (of_nat (hd fl), ?vq)"
    using enough_free_path [OF i(2), of ?n] i(1,7) bufs(2) r(1) h by (simp add: virtqueue_add_chain_def vq_wf_def)
  have td: "set (take ?n fl) \<inter> set (drop ?n fl) = {}" using i(3) by (rule set_take_disj_set_drop_if_distinct) simp
  have un: "set (take ?n fl) \<union> set (drop ?n fl) = set fl" by (metis append_take_drop_id set_append)
  have keep: "d ! z = desc vq ! z" if "c \<in> cs" "z \<in> set c" for c z using i(8) [OF that(1)] that(2) r(5) in_set_takeD by fast
  have new: "linked d c \<and> distinct c \<and> set c \<inter> set (drop ?n fl) = {}" if c: "c \<in> insert (take ?n fl) cs" for c
  proof (cases "c = take ?n fl")
    case True
    then show ?thesis using r(4) i(3) td by simp
  next
    case False
    then have c: "c \<in> cs" using c by simp
    have "linked d c" by (rule linked_cong [of "desc vq"]) (use i(7) i(8) [OF c] r(2) keep [OF c] in auto)
    then show ?thesis using i(8) [OF c] un by auto
  qed
  have dis: "set c \<inter> set c' = {}" if "c \<in> insert (take ?n fl) cs" "c' \<in> insert (take ?n fl) cs" "c \<noteq> c'" for c c'
  proof -
    have "set q \<inter> set (take ?n fl) = {}" if "q \<in> cs" for q using i(8) [OF that] un by blast
    then show ?thesis using that i(9) by (metis Int_commute insertE)
  qed
  have cov: "set (drop ?n fl) \<union> \<Union> (set ` insert (take ?n fl) cs) = {..<unat (num vq)}" using i(10) un by auto
  have wf: "vq_wf ?vq" using i(1) r(2) by (simp add: vq_wf_def VIRTQ_MAX_SIZE_def)
  have rs: "ring_slot ?vq k = ring_slot vq k" for k by (simp add: ring_slot_def)
  have "vq_inv (drop ?n fl) (insert (take ?n fl) cs) ds ?vq"
    unfolding vq_inv_def rs using wf r(3) new dis cov i(3,4,5,6,11) by (auto simp: distinct_drop)
  then show ?thesis using a r(4,6) keep by blast
qed

lemma get_used_none:
  assumes "vq_inv fl cs [] vq"
  shows "virtqueue_get_used vq = Some (None, vq)"
  using vq_invD(6) [OF assms] by (simp add: virtqueue_get_used_def)

lemma ds_length:
  assumes "vq_inv fl cs ds vq"
  shows "length ds \<le> card cs" "card cs \<le> unat (num vq)" "finite cs"
proof -
  note i = vq_invD [OF assms]
  have inj: "inj_on hd cs"
  proof (rule inj_onI)
    fix c c' assume "c \<in> cs" "c' \<in> cs" "hd c = hd c'"
    moreover have "hd q \<in> set q" if "q \<in> cs" for q using i(8) [OF that] by (cases q) auto
    ultimately show "c = c'" using i(9) by (metis disjoint_iff)
  qed
  have sub: "hd ` cs \<subseteq> {..<unat (num vq)}"
  proof
    fix x assume "x \<in> hd ` cs"
    then obtain c where c: "c \<in> cs" "x = hd c" by auto
    then have "x \<in> set c" using i(8) [OF c(1)] by (cases c) auto
    then show "x \<in> {..<unat (num vq)}" using i(10) c(1) by auto
  qed
  then have f: "finite (hd ` cs)" using finite_subset by blast
  then show "finite cs" using inj finite_imageD by blast
  have "card (set ds) \<le> card (hd ` cs)" using f i(5) by (rule card_mono)
  then show "length ds \<le> card cs" using i(4) inj by (simp add: distinct_card card_image)
  have "card (hd ` cs) \<le> card {..<unat (num vq)}" using sub by (intro card_mono) simp_all
  then show "card cs \<le> unat (num vq)" using inj by (simp add: card_image)
qed

lemma get_used_ok:
  assumes inv: "vq_inv fl cs (hd c # ds) vq" and c: "c \<in> cs"
  shows "\<exists>d len. virtqueue_get_used vq = Some (Some (of_nat (hd c), len),
        vq\<lparr>desc := d, free_head := of_nat (last c), last_used_idx := last_used_idx vq + 1\<rparr>)
     \<and> len = snd (used_ring vq ! ring_slot vq 0)
     \<and> vq_inv (rev c @ fl) (cs - {c}) ds (vq\<lparr>desc := d, free_head := of_nat (last c), last_used_idx := last_used_idx vq + 1\<rparr>)
     \<and> (\<forall>x. x \<notin> set c \<longrightarrow> d ! x = desc vq ! x)"
proof -
  note i = vq_invD [OF inv]
  have ne: "c \<noteq> []" using i(8) [OF c] by auto
  have b: "x < 256" if "x \<in> set c" for x using linked_bound [of "desc vq" c x] i(7) i(8) [OF c] that by simp
  then have hb: "hd c < 256" using ne by simp
  have len: "length (hd c # ds) \<le> 256" using ds_length [OF inv] i(1) by (simp add: vq_wf_def VIRTQ_MAX_SIZE_def)
  have ne': "last_used_idx vq \<noteq> used_hdr_idx vq"
  proof
    assume "last_used_idx vq = used_hdr_idx vq"
    then have "(of_nat (length (hd c # ds)) :: u16) = 0" using i(6) by simp
    then have "unat (of_nat (length (hd c # ds)) :: u16) = 0" by simp
    moreover have "unat (of_nat (length (hd c # ds)) :: u16) = length (hd c # ds)" by (rule unat_of_nat_small) (use len in simp)
    ultimately show False by simp
  qed
  obtain n where n: "used_ring vq ! ring_slot vq 0 = (of_nat (hd c), n)"
    using i(11) [of 0] by (cases "used_ring vq ! ring_slot vq 0") auto
  have hu: "unat (ucast (of_nat (hd c) :: u32) :: u16) = hd c" using hb by (simp add: unat_ucast unat_of_nat)
  have e: "ucast (of_nat (hd c) :: u32) = (of_nat (hd c) :: u16)" by (rule word_unat_eq_iff [THEN iffD2]) (use hu hb in \<open>simp add: unat_of_nat\<close>)
  have dis: "distinct (c @ fl)" using i(3) i(8) [OF c] by auto
  have l: "linked (desc vq) c" using i(8) [OF c] by simp
  have len256: "length (desc vq) \<le> 0xFFFF" using i(7) by simp
  obtain d where r: "free_chain (desc vq) (free_head vq) (of_nat (hd c)) = Some (d, of_nat (last c))" "length d = 256"
    "free_path d (of_nat (last c)) (rev c @ fl)" "\<forall>x. x \<notin> set c \<longrightarrow> d ! x = desc vq ! x"
    using free_chain_linked [OF l dis i(2) len256 hu] i(7) unfolding e by auto
  let ?vq = "vq\<lparr>desc := d, free_head := of_nat (last c), last_used_idx := last_used_idx vq + 1\<rparr>"
  have g: "virtqueue_get_used vq = Some (Some (of_nat (hd c), n), ?vq)"
    using ne' i(1) n r(1) e by (simp add: virtqueue_get_used_def vq_wf_def ring_slot_def)
  have rs: "ring_slot ?vq k = ring_slot vq (Suc k)" for k by (simp add: ring_slot_def add.commute add.left_commute)
  have ch: "linked d q \<and> distinct q \<and> set q \<inter> set (rev c @ fl) = {}" if q: "q \<in> cs - {c}" for q
  proof -
    have qc: "q \<in> cs" "set q \<inter> set c = {}" using q i(9) [of q c] c by auto
    have "linked d q" by (rule linked_cong [of "desc vq"]) (use i(7) i(8) [OF qc(1)] r(2,4) qc(2) in auto)
    then show ?thesis using i(8) [OF qc(1)] qc(2) by auto
  qed
  have hds: "set ds \<subseteq> hd ` (cs - {c})" using i(4,5) by auto
  have cov: "set (rev c @ fl) \<union> \<Union> (set ` (cs - {c})) = {..<unat (num vq)}" using i(10) c by auto
  have us: "fst (used_ring vq ! ring_slot vq (Suc k)) = of_nat (ds ! k)" if "k < length ds" for k
    using i(11) [of "Suc k"] that by simp
  have "vq_inv (rev c @ fl) (cs - {c}) ds ?vq"
    unfolding vq_inv_def rs
  proof (intro conjI)
    show "vq_wf ?vq" using i(1) r(2) by (simp add: vq_wf_def VIRTQ_MAX_SIZE_def)
  qed (use r(3) ch dis i(4,6,9) hds cov us in auto)
  then show ?thesis using g r(4) n by auto
qed

text \<open>What the device writes when it is done with the chain at \<open>h\<close> (virtio 1.1, 2.6.8).\<close>

definition device_used :: "nat \<Rightarrow> u32 \<Rightarrow> virtqueue \<Rightarrow> virtqueue" where
  "device_used h len vq = vq\<lparr>used_ring := (used_ring vq)[unat (used_hdr_idx vq mod num vq) := (of_nat h, len)],
     used_hdr_idx := used_hdr_idx vq + 1\<rparr>"

lemma ds_room:
  assumes inv: "vq_inv fl cs ds vq" and h: "h \<in> hd ` cs" "h \<notin> set ds"
  shows "length ds < unat (num vq)"
proof -
  note i = vq_invD [OF inv]
  have "card (set (h # ds)) \<le> card (hd ` cs)" using h i(5) ds_length(3) [OF inv] by (intro card_mono) auto
  also have "\<dots> \<le> card cs" by (rule card_image_le [OF ds_length(3) [OF inv]])
  finally show ?thesis using h(2) i(4) ds_length(2) [OF inv] by (simp add: distinct_card)
qed

text \<open>A report goes behind those the driver has not looked at.\<close>

lemma device_used_ring:
  assumes inv: "vq_inv fl cs ds vq" and h: "h \<in> hd ` cs" "h \<notin> set ds" and le: "i \<le> length ds"
  shows "used_ring (device_used h len vq) ! ring_slot vq i
    = (if i = length ds then (of_nat h, len) else used_ring vq ! ring_slot vq i)"
proof -
  note i = vq_invD [OF inv]
  have us: "unat (used_hdr_idx vq mod num vq) = ring_slot vq (length ds)" by (simp add: ring_slot_def i(6))
  have "length (used_ring vq) = 256" using i(1) by (simp add: vq_wf_def VIRTQ_MAX_SIZE_def)
  then show ?thesis
    using le ring_slot_inj [OF i(1) _ ds_room [OF inv h], of i] ring_slot_less [OF i(1), of "length ds"]
    by (cases "i = length ds") (simp_all add: device_used_def us)
qed

lemma ring_slot_device_used [simp]: "ring_slot (device_used h len vq) i = ring_slot vq i"
  by (simp add: ring_slot_def device_used_def)

lemma device_used_ok:
  assumes inv: "vq_inv fl cs ds vq" and h: "h \<in> hd ` cs" "h \<notin> set ds"
  shows "vq_inv fl cs (ds @ [h]) (device_used h len vq)"
proof -
  note i = vq_invD [OF inv]
  have nth: "fst (used_ring (device_used h len vq) ! ring_slot vq k) = of_nat ((ds @ [h]) ! k)"
    if "k < length (ds @ [h])" for k
    using that i(11) [of k] device_used_ring [OF inv h, of k] by (cases "k < length ds") (auto simp: nth_append)
  show ?thesis
    unfolding vq_inv_def ring_slot_device_used
  proof (intro conjI)
    show "vq_wf (device_used h len vq)" using i(1) by (simp add: vq_wf_def device_used_def)
    show "\<forall>k<length (ds @ [h]). fst (used_ring (device_used h len vq) ! ring_slot vq k) = of_nat ((ds @ [h]) ! k)"
      using nth by simp
  qed (use i h in \<open>auto simp: device_used_def\<close>)
qed

section \<open>Reachable queues\<close>

lemma free_list_path: "m \<le> n \<Longrightarrow> n \<le> 256 \<Longrightarrow> 0 < n \<Longrightarrow> free_path (free_list n @ zs) (if m = n then 0xFFFF else of_nat m) [m..<n]"
proof (induction "n - m" arbitrary: m)
  case (Suc k)
  then have m: "m < n" by simp
  have nx: "d_next ((free_list n @ zs) ! m) = (if Suc m = n then 0xFFFF else of_nat (Suc m))"
    using m by (auto simp: free_list_def nth_append nth_list_update)
  have "unat (of_nat m :: u16) = m" by (rule unat_of_nat_small) (use m Suc.prems in simp)
  moreover have "length (free_list n) = n" by (simp add: free_list_def)
  moreover have "free_path (free_list n @ zs) (if Suc m = n then 0xFFFF else of_nat (Suc m)) [Suc m..<n]"
    by (rule Suc.hyps(1)) (use m Suc.hyps(2) Suc.prems in simp_all)
  ultimately show ?case using m nx by (simp add: upt_conv_Cons del: of_nat_Suc)
qed simp

lemma virtqueue_init_inv:
  assumes "next < VIRTQ_MAX_QUEUES" "n \<noteq> 0" "unat n dvd 65536"
  shows "\<exists>vq'. virtqueue_init n qi na next vq = Some (Suc next, vq') \<and> num vq' = (if unat n > 256 then 256 else n)
    \<and> queue_index vq' = qi \<and> notify_addr vq' = na \<and> vq_inv [0..<unat (num vq')] {} [] vq'"
proof -
  define m where "m = (if unat n > VIRTQ_MAX_SIZE then of_nat VIRTQ_MAX_SIZE else n)"
  have m: "m \<noteq> 0" "unat m \<le> 256" "unat m dvd 65536" "m = (if unat n > 256 then 256 else n)"
    using assms by (auto simp: m_def VIRTQ_MAX_SIZE_def)
  have m0: "0 < unat m" using m(1) by (metis unat_gt_0)
  let ?vq = "\<lparr>desc = free_list (unat m) @ replicate (VIRTQ_MAX_SIZE - unat m) zero_desc,
    avail_hdr_idx = 0, avail_ring = replicate VIRTQ_MAX_SIZE 0, used_hdr_idx = 0, used_ring = replicate VIRTQ_MAX_SIZE (0, 0),
    num = m, free_head = 0, last_used_idx = 0, avail_idx = 0, queue_index = qi, notify_addr = na\<rparr> :: virtqueue"
  have "virtqueue_init n qi na next vq = Some (Suc next, ?vq)"
    using assms(1) m(1) by (simp add: virtqueue_init_def m_def [symmetric] Let_def not_le)
  moreover have "vq_inv [0..<unat m] {} [] ?vq"
    unfolding vq_inv_def
  proof (intro conjI)
    show "vq_wf ?vq" using m by (simp add: vq_wf_def VIRTQ_MAX_SIZE_def free_list_def)
    show "free_path (desc ?vq) (free_head ?vq) [0..<unat m]"
      using free_list_path [of 0 "unat m"] m(2) m0 by simp
    show "set [0..<unat m] \<union> \<Union> (set ` {}) = {..<unat (num ?vq)}" by auto
  qed simp_all
  ultimately show ?thesis using m(4) by (intro exI [of _ ?vq]) simp
qed

text \<open>
  The driver adds chains and takes completed ones back; in between the device completes chains it
  holds. \<open>hs\<close> are the heads of the chains it holds, \<open>ds\<close> those it has reported.
\<close>

inductive vq_step :: "virtqueue \<times> nat set \<times> nat list \<Rightarrow> virtqueue \<times> nat set \<times> nat list \<Rightarrow> bool" where
  add: "\<lbrakk>bufs \<noteq> []; \<forall>b \<in> set bufs. b_flags b AND VRING_DESC_F_NEXT = 0; virtqueue_add_chain bufs vq = Some (h, vq')\<rbrakk>
    \<Longrightarrow> vq_step (vq, hs, ds) (vq', if h = 0xFFFF then hs else insert (unat h) hs, ds)"
| complete: "\<lbrakk>h \<in> hs; h \<notin> set ds\<rbrakk> \<Longrightarrow> vq_step (vq, hs, ds) (device_used h len vq, hs, ds @ [h])"
| take: "virtqueue_get_used vq = Some (Some (h, len), vq') \<Longrightarrow> vq_step (vq, hs, ds) (vq', hs - {unat h}, tl ds)"

definition vq_ok :: "virtqueue \<times> nat set \<times> nat list \<Rightarrow> bool" where
  "vq_ok c \<longleftrightarrow> (\<exists>fl cs. vq_inv fl cs (snd (snd c)) (fst c) \<and> fst (snd c) = hd ` cs)"

lemma vq_hd:
  assumes "vq_inv fl cs ds vq" "c \<in> cs"
  shows "hd c \<in> set c" "hd c < 256" "unat (of_nat (hd c) :: u16) = hd c" "of_nat (hd c) \<noteq> (0xFFFF :: u16)"
proof -
  have l: "linked (desc vq) c" using vq_invD(8) [OF assms] by simp
  then show h: "hd c \<in> set c" by (cases c) auto
  show b: "hd c < 256" using linked_bound [OF l h] vq_invD(7) [OF assms(1)] by simp
  show u: "unat (of_nat (hd c) :: u16) = hd c" by (rule unat_of_nat_small) (use b in simp)
  show "of_nat (hd c) \<noteq> (0xFFFF :: u16)" using u b by (auto simp: unat_arith_simps)
qed

lemma vq_hd_inj:
  assumes "vq_inv fl cs ds vq" "c \<in> cs" "c' \<in> cs" "hd c = hd c'"
  shows "c = c'"
  using vq_invD(9) [OF assms(1-3)] vq_hd(1) [OF assms(1,2)] vq_hd(1) [OF assms(1,3)] assms(4) by auto

lemma vq_step_ok:
  assumes "vq_step c c'" "vq_ok c"
  shows "vq_ok c'"
  using assms
proof (induction rule: vq_step.induct)
  case (add bufs vq h vq' hs ds)
  then obtain fl cs where i: "vq_inv fl cs ds vq" "hs = hd ` cs" by (auto simp: vq_ok_def)
  show ?case
  proof (cases "length bufs \<le> length fl")
    case True
    obtain d fh where a: "h = of_nat (hd fl)" "vq_inv (drop (length bufs) fl) (insert (take (length bufs) fl) cs) ds vq'"
      using add_chain_ok [OF i(1) add(1) True add(2)] add(3) by auto
    have "hd (take (length bufs) fl) = hd fl" using add(1) by (cases fl; cases bufs) auto
    then have "h \<noteq> 0xFFFF" "unat h = hd (take (length bufs) fl)"
      using vq_hd [OF a(2), of "take (length bufs) fl"] a(1) by simp_all
    then show ?thesis using a(2) i(2) by (auto simp: vq_ok_def)
  next
    case False
    then show ?thesis using add_chain_full [OF i(1), of bufs] add(3) i by (auto simp: vq_ok_def)
  qed
next
  case (complete h hs ds vq len)
  then show ?case using device_used_ok by (fastforce simp: vq_ok_def)
next
  case (take vq h len vq' hs ds)
  then obtain fl cs where i: "vq_inv fl cs ds vq" "hs = hd ` cs" by (auto simp: vq_ok_def)
  show ?case
  proof (cases ds)
    case Nil
    then show ?thesis using get_used_none i(1) take(1) by simp
  next
    case (Cons x ds')
    then obtain c where c: "c \<in> cs" "x = hd c" using vq_invD(5) [OF i(1)] by auto
    have inv: "vq_inv fl cs (hd c # ds') vq" using i(1) Cons c(2) by simp
    have g: "h = of_nat (hd c)" "vq_inv (rev c @ fl) (cs - {c}) ds' vq'"
      using get_used_ok [OF inv c(1)] take(1) by auto
    have "hs - {unat h} = hd ` (cs - {c})"
      using vq_hd(3) [OF i(1) c(1)] g(1) vq_hd_inj [OF i(1) _ c(1)] i(2) by auto
    then show ?thesis using g(2) Cons by (auto simp: vq_ok_def)
  qed
qed

text \<open>
  C17: however driver and device interleave, every descriptor of a queue is in exactly one place, the
  free list or one chain of the device, and taking back a completed chain always ends.
\<close>

theorem virtqueue_reachable:
  assumes "next < VIRTQ_MAX_QUEUES" "n \<noteq> 0" "unat n dvd 65536" "virtqueue_init n qi na next vq0 = Some (next', vq)"
    and "vq_step\<^sup>*\<^sup>* (vq, {}, []) (vq', hs, ds)"
  shows "\<exists>fl cs. free_path (desc vq') (free_head vq') fl \<and> (\<forall>c \<in> cs. linked (desc vq') c) \<and> hd ` cs = hs
     \<and> distinct fl \<and> (\<forall>c \<in> cs. distinct c \<and> set c \<inter> set fl = {}) \<and> (\<forall>c \<in> cs. \<forall>c' \<in> cs. c \<noteq> c' \<longrightarrow> set c \<inter> set c' = {})
     \<and> set fl \<union> \<Union> (set ` cs) = {..<unat (num vq')} \<and> virtqueue_get_used vq' \<noteq> None"
proof -
  have "vq_ok (vq, {}, [])" using virtqueue_init_inv [OF assms(1-3), of qi na vq0] assms(4) by (auto simp: vq_ok_def)
  with assms(5) have "vq_ok (vq', hs, ds)" by (induction rule: rtranclp_induct) (auto intro: vq_step_ok)
  then obtain fl cs where i: "vq_inv fl cs ds vq'" "hs = hd ` cs" by (auto simp: vq_ok_def)
  have "virtqueue_get_used vq' \<noteq> None"
  proof (cases ds)
    case Nil
    then show ?thesis using get_used_none i(1) by simp
  next
    case (Cons x ds')
    then obtain c where c: "c \<in> cs" "x = hd c" using vq_invD(5) [OF i(1)] by auto
    then show ?thesis using get_used_ok [of fl cs c ds' vq'] i(1) Cons by auto
  qed
  then show ?thesis using i vq_invD [OF i(1)] by (intro exI [of _ fl] exI [of _ cs]) blast
qed

text \<open>A queue of four descriptors and a request of one buffer.\<close>

definition demo_buf :: vq_buf where
  "demo_buf = \<lparr>b_addr = 0xFFFFFF8040100000, b_len = 16, b_flags = VRING_DESC_F_WRITE\<rparr>"

lemma demo_buf: "\<forall>b \<in> set (replicate n demo_buf). b_flags b AND VRING_DESC_F_NEXT = 0"
  by (simp add: demo_buf_def VRING_DESC_F_WRITE_def VRING_DESC_F_NEXT_def)

theorem virtqueue_reachable_witness:
  "\<exists>vq0 vq vq' c. virtqueue_init 4 0 0 0 vq0 = Some (1, vq) \<and> vq_step\<^sup>*\<^sup>* (vq, {}, []) (vq', {0}, [0])
     \<and> linked (desc vq') c \<and> hd c = 0 \<and> virtqueue_get_used vq' \<noteq> None"
proof -
  have n: "(0 :: nat) < VIRTQ_MAX_QUEUES" "(4 :: u16) \<noteq> 0" "unat (4 :: u16) dvd 65536" by (simp_all add: VIRTQ_MAX_QUEUES_def)
  obtain vq0 vq where q: "virtqueue_init 4 0 0 0 vq0 = Some (Suc 0, vq)" "num vq = 4" "vq_inv [0..<unat (num vq)] {} [] vq"
    using virtqueue_init_inv [OF n, of 0 0] by fastforce
  have fl: "[0..<unat (num vq)] = [0, 1, 2, 3]" by (simp add: q(2) upt_conv_Cons)
  have b: "[demo_buf, demo_buf] \<noteq> []" "\<forall>b \<in> set [demo_buf, demo_buf]. b_flags b AND VRING_DESC_F_NEXT = 0" using demo_buf [of 1] by simp_all
  obtain vq1 where a: "virtqueue_add_chain [demo_buf, demo_buf] vq = Some (0, vq1)"
    using add_chain_ok [OF q(3) [unfolded fl] b(1) _ b(2)] by auto
  let ?vq = "device_used 0 16 vq1"
  have "vq_step (vq, {}, []) (vq1, {0}, [])" using vq_step.add [OF b a, of "{}" "[]"] by simp
  moreover have "vq_step (vq1, {0}, []) (?vq, {0}, [0])" using vq_step.complete [of 0 "{0}" "[]" vq1 16] by simp
  ultimately have st: "vq_step\<^sup>*\<^sup>* (vq, {}, []) (?vq, {0}, [0])" by (metis converse_rtranclp_into_rtranclp rtranclp.rtrancl_refl)
  from virtqueue_reachable [OF n q(1) st] obtain cs where cs: "\<forall>c \<in> cs. linked (desc ?vq) c" "hd ` cs = {0}" "virtqueue_get_used ?vq \<noteq> None"
    by (elim exE conjE) (rule that)
  then obtain c where "c \<in> cs" "hd c = 0" by (metis imageE insertI1)
  then show ?thesis using q(1) st cs
    by (intro exI [of _ vq0] exI [of _ vq] exI [of _ ?vq] exI [of _ c] conjI) (simp_all add: One_nat_def [symmetric] del: One_nat_def)
qed

text \<open>
  C18: a request that fits goes to the device as one chain that carries its buffers in order; when
  the device has reported it, the driver gets its head and length and the queue is free again, up to
  the order of the free list. A request that does not fit leaves the queue unchanged.
\<close>

theorem virtqueue_round_trip:
  assumes "vq_inv fl {} [] vq" "bufs \<noteq> []" "\<forall>b \<in> set bufs. b_flags b AND VRING_DESC_F_NEXT = 0"
  shows "if length fl < length bufs then virtqueue_add_chain bufs vq = Some (0xFFFF, vq)
     else (\<exists>vq1 vq2. let c = take (length bufs) fl in
       virtqueue_add_chain bufs vq = Some (of_nat (hd c), vq1) \<and> linked (desc vq1) c
       \<and> map (\<lambda>x. seen (desc vq1 ! x)) c = map offered bufs
       \<and> avail_ring vq1 ! unat (avail_idx vq mod num vq) = of_nat (hd c) \<and> avail_hdr_idx vq1 = avail_idx vq + 1
       \<and> virtqueue_get_used vq1 = Some (None, vq1)
       \<and> virtqueue_get_used (device_used (hd c) len vq1) = Some (Some (of_nat (hd c), len), vq2)
       \<and> vq_inv (rev c @ drop (length bufs) fl) {} [] vq2)"
proof (cases "length fl < length bufs")
  case True
  then show ?thesis using add_chain_full [OF assms(1) True] by simp
next
  case False
  let ?c = "take (length bufs) fl"
  have hd: "hd ?c = hd fl" using assms(2) False by (cases fl; cases bufs) auto
  have le: "length bufs \<le> length fl" using False by simp
  obtain d fh where dfh: "virtqueue_add_chain bufs vq = Some (of_nat (hd fl), vq\<lparr>desc := d, free_head := fh,
        avail_ring := (avail_ring vq)[unat (avail_idx vq mod num vq) := of_nat (hd fl)],
        avail_idx := avail_idx vq + 1, avail_hdr_idx := avail_idx vq + 1\<rparr>)"
      "vq_inv (drop (length bufs) fl) (insert ?c {}) [] (vq\<lparr>desc := d, free_head := fh,
        avail_ring := (avail_ring vq)[unat (avail_idx vq mod num vq) := of_nat (hd fl)],
        avail_idx := avail_idx vq + 1, avail_hdr_idx := avail_idx vq + 1\<rparr>)"
      "linked d ?c" "map (\<lambda>x. seen (d ! x)) ?c = map offered bufs"
    using add_chain_ok [OF assms(1,2) le assms(3)] by (elim exE conjE) (rule that)
  define vq1 where "vq1 = vq\<lparr>desc := d, free_head := fh,
        avail_ring := (avail_ring vq)[unat (avail_idx vq mod num vq) := of_nat (hd fl)],
        avail_idx := avail_idx vq + 1, avail_hdr_idx := avail_idx vq + 1\<rparr>"
  have a: "virtqueue_add_chain bufs vq = Some (of_nat (hd fl), vq1)" "vq_inv (drop (length bufs) fl) {?c} [] vq1"
    "linked (desc vq1) ?c" "map (\<lambda>x. seen (desc vq1 ! x)) ?c = map offered bufs" "avail_hdr_idx vq1 = avail_idx vq + 1"
    "avail_ring vq1 = (avail_ring vq)[unat (avail_idx vq mod num vq) := of_nat (hd fl)]"
    using dfh by (simp_all add: vq1_def)
  note w = vq_invD(1) [OF assms(1)]
  have r: "unat (avail_idx vq mod num vq) < length (avail_ring vq)" using slot_less [OF w] w by (simp add: vq_wf_def)
  let ?u = "device_used (hd ?c) len vq1"
  have u: "vq_inv (drop (length bufs) fl) {?c} (hd ?c # []) ?u"
    using device_used_ok [OF a(2), of "hd ?c" len] by simp
  have e: "used_ring ?u ! ring_slot ?u 0 = (of_nat (hd ?c), len)"
  proof -
    have "ring_slot ?u 0 = unat (used_hdr_idx vq1 mod num vq1)" using vq_invD(6) [OF a(2)] by (simp add: ring_slot_def device_used_def)
    moreover have "unat (used_hdr_idx vq1 mod num vq1) < length (used_ring vq1)"
      using vq_invD(1) [OF a(2)] slot_less [OF vq_invD(1) [OF a(2)]] by (simp add: vq_wf_def)
    ultimately show ?thesis by (simp add: device_used_def)
  qed
  obtain vq2 where g: "virtqueue_get_used ?u = Some (Some (of_nat (hd ?c), len), vq2)" "vq_inv (rev ?c @ drop (length bufs) fl) {} [] vq2"
    using get_used_ok [OF u] e by fastforce
  have "avail_ring vq1 ! unat (avail_idx vq mod num vq) = of_nat (hd ?c)" using a(6) r by (simp add: hd)
  then show ?thesis
    using False a(1,3,4,5) g get_used_none [OF a(2)] by (auto simp: Let_def hd intro!: exI [of _ vq1] exI [of _ vq2])
qed

theorem virtqueue_round_trip_witness:
  "\<exists>vq vq1 vq2. virtqueue_add_chain [demo_buf, demo_buf] vq = Some (0, vq1) \<and> linked (desc vq1) [0, 1]
     \<and> virtqueue_get_used (device_used 0 16 vq1) = Some (Some (0, 16), vq2) \<and> vq_inv [1, 0, 2, 3] {} [] vq2"
proof -
  have n: "(0 :: nat) < VIRTQ_MAX_QUEUES" "(4 :: u16) \<noteq> 0" "unat (4 :: u16) dvd 65536" by (simp_all add: VIRTQ_MAX_QUEUES_def)
  obtain vq0 vq where q: "virtqueue_init 4 0 0 0 vq0 = Some (Suc 0, vq)" "num vq = 4" "vq_inv [0..<unat (num vq)] {} [] vq"
    using virtqueue_init_inv [OF n, of 0 0] by fastforce
  have fl: "[0..<unat (num vq)] = [0, 1, 2, 3]" by (simp add: q(2) upt_conv_Cons)
  have b: "[demo_buf, demo_buf] \<noteq> []" "\<forall>b \<in> set [demo_buf, demo_buf]. b_flags b AND VRING_DESC_F_NEXT = 0" using demo_buf [of 2] by simp_all
  show ?thesis using virtqueue_round_trip [OF q(3) [unfolded fl] b, of 16] by (auto simp: Let_def)
qed

end
