(* ===== verification/Virtio.thy ===== *)
theory Virtio
  imports Memory Virtqueue
begin

text \<open>
  What the virtio drivers share: little-endian stores to the request structures, the state of a
  driver with its queue, the polling loop, and the requests of the entropy driver
  (\<^verbatim>\<open>src/virtio_rng.c\<close>) and the block driver (\<^verbatim>\<open>src/virtio_blk.c\<close>). The device is a parameter
  \<open>dv\<close>: \<open>dv i\<close> is what it does to memory and to the used ring before the driver polls the \<open>i\<close>-th time.
\<close>

definition store_le :: "nat \<Rightarrow> u64 \<Rightarrow> u64 \<Rightarrow> memory \<Rightarrow> memory" where
  "store_le n a v m = (\<lambda>x. if unat (x - a) < n then ucast (drop_bit (8 * unat (x - a)) v) else m x)"

definition load_le :: "nat \<Rightarrow> memory \<Rightarrow> u64 \<Rightarrow> u64" where
  "load_le n m a = foldr (\<lambda>i acc. push_bit 8 acc OR ucast (m (a + of_nat i))) [0..<n] 0"

record io =
  queue :: virtqueue
  mem :: memory
  kicks :: "(u64 \<times> u16) list"

type_synonym device = "nat \<Rightarrow> io \<Rightarrow> io"

definition kick :: "io \<Rightarrow> io" where
  "kick s = s\<lparr>kicks := kicks s @ [virtqueue_kick (queue s)]\<rparr>"

text \<open>
  \<open>while (!virtqueue_get_used(...)) if (--timeout == 0) return -1;\<close> looks at the queue \<open>timeout\<close> times.
\<close>

fun poll_used :: "device \<Rightarrow> nat \<Rightarrow> nat \<Rightarrow> io \<Rightarrow> ((u16 \<times> u32) option \<times> io) option" where
  "poll_used dv i 0 s = Some (None, s)"
| "poll_used dv i (Suc timeout) s =
     (let s = dv i s
      in case virtqueue_get_used (queue s) of
           None \<Rightarrow> None
         | Some (Some used, vq) \<Rightarrow> Some (Some used, s\<lparr>queue := vq\<rparr>)
         | Some (None, vq) \<Rightarrow> poll_used dv (Suc i) timeout s)"

section \<open>Entropy\<close>

definition virtio_rng_read :: "device \<Rightarrow> u64 \<Rightarrow> u32 \<Rightarrow> io \<Rightarrow> (int \<times> io) option" where
  "virtio_rng_read dv buf len s =
     (case virtqueue_add_buf_write buf len (queue s) of
        None \<Rightarrow> None
      | Some (h, vq) \<Rightarrow>
          let s = s\<lparr>queue := vq\<rparr>
          in if h = 0xFFFF then Some (-1, s)
             else case poll_used dv 0 10000000 (kick s) of
               None \<Rightarrow> None
             | Some (None, s) \<Rightarrow> Some (-1, s)
             | Some (Some (_, written), s) \<Rightarrow> Some (sint written, s))"

section \<open>Block requests\<close>

definition VIRTIO_BLK_T_IN :: u32 where "VIRTIO_BLK_T_IN = 0"
definition VIRTIO_BLK_T_OUT :: u32 where "VIRTIO_BLK_T_OUT = 1"
definition VIRTIO_BLK_S_OK :: u8 where "VIRTIO_BLK_S_OK = 0"

text \<open>The addresses of the two static objects that all requests share.\<close>

record blk_statics =
  blk_req_hdr :: u64
  blk_status :: u64

definition write_blk_req :: "blk_statics \<Rightarrow> u32 \<Rightarrow> u64 \<Rightarrow> memory \<Rightarrow> memory" where
  "write_blk_req g ty sector m =
     store_le 1 (blk_status g) 0xFF
       (store_le 8 (blk_req_hdr g + 8) sector
         (store_le 4 (blk_req_hdr g + 4) 0
           (store_le 4 (blk_req_hdr g) (ucast ty) m)))"

definition blk_chain :: "blk_statics \<Rightarrow> u32 \<Rightarrow> u64 \<Rightarrow> u32 \<Rightarrow> vq_buf list" where
  "blk_chain g ty buf len =
     [\<lparr>b_addr = blk_req_hdr g, b_len = 16, b_flags = 0\<rparr>,
      \<lparr>b_addr = buf, b_len = len, b_flags = (if ty = VIRTIO_BLK_T_IN then VRING_DESC_F_WRITE else 0)\<rparr>,
      \<lparr>b_addr = blk_status g, b_len = 1, b_flags = VRING_DESC_F_WRITE\<rparr>]"

definition blk_do_request :: "device \<Rightarrow> blk_statics \<Rightarrow> u32 \<Rightarrow> u64 \<Rightarrow> u64 \<Rightarrow> u32 \<Rightarrow> io \<Rightarrow> (int \<times> io) option" where
  "blk_do_request dv g ty sector buf len s =
     (let s = s\<lparr>mem := write_blk_req g ty sector (mem s)\<rparr>
      in case virtqueue_add_chain (blk_chain g ty buf len) (queue s) of
           None \<Rightarrow> None
         | Some (head, vq) \<Rightarrow>
             let s = s\<lparr>queue := vq\<rparr>
             in if head = 0xFFFF then Some (-1, s)
                else case poll_used dv 0 50000000 (kick s) of
                  None \<Rightarrow> None
                | Some (None, s) \<Rightarrow> Some (-1, s)
                | Some (Some _, s) \<Rightarrow>
                    if mem s (blk_status g) \<noteq> VIRTIO_BLK_S_OK then Some (-1, s) else Some (0, s))"

definition virtio_blk_read :: "device \<Rightarrow> blk_statics \<Rightarrow> u64 \<Rightarrow> u32 \<Rightarrow> u64 \<Rightarrow> io \<Rightarrow> (int \<times> io) option" where
  "virtio_blk_read dv g sector count buf s = blk_do_request dv g VIRTIO_BLK_T_IN sector buf (count * 512) s"

definition virtio_blk_write :: "device \<Rightarrow> blk_statics \<Rightarrow> u64 \<Rightarrow> u32 \<Rightarrow> u64 \<Rightarrow> io \<Rightarrow> (int \<times> io) option" where
  "virtio_blk_write dv g sector count buf s = blk_do_request dv g VIRTIO_BLK_T_OUT sector buf (count * 512) s"

end
