(* ===== verification/VirtioSpec.thy ===== *)
theory VirtioSpec
  imports Virtio VirtqueueSpec
begin

text \<open>
  The block driver against its device: a read that the device answers in time gives the contents of
  the disk, which is what the file system takes a disk to be; a request that timed out leaves its
  chain with the device, and the next request then takes the late answer for its own.
\<close>

section \<open>Little-endian stores\<close>

definition region :: "u64 \<Rightarrow> nat \<Rightarrow> u64 set" where
  "region a n = {x. unat (x - a) < n}"

lemma store_le_outside: "x \<notin> region a n \<Longrightarrow> store_le n a v m x = m x"
  by (simp add: store_le_def region_def)

lemma region_self: "i < n \<Longrightarrow> n \<le> 2 ^ 64 \<Longrightarrow> a + of_nat i \<in> region a n"
  using unat_of_nat_small [where 'a = 64, of i] by (simp add: region_def)

lemma bit_load_le: "bit (load_le n m a) k \<longleftrightarrow> k < 64 \<and> k < 8 * n \<and> bit (m (a + of_nat (k div 8))) (k mod 8)"
  using bit_bytes [of "\<lambda>i. m (a + of_nat i)" 0 n k] by (auto simp: load_le_def)

lemma load_le_cong:
  assumes "\<And>i. i < n \<Longrightarrow> m (a + of_nat i) = m' (a + of_nat i)"
  shows "load_le n m a = load_le n m' a"
  by (rule bit_eqI) (use assms in \<open>simp add: bit_load_le less_mult_imp_div_less mult.commute cong: conj_cong\<close>)

lemma load_le_store_le:
  assumes "n \<le> 8"
  shows "load_le n (store_le n a v m) a = take_bit (8 * n) v"
proof (rule bit_eqI)
  fix k assume "possible_bit TYPE(u64) k"
  then have k: "k < 64" "unat (of_nat (k div 8) :: u64) = k div 8" by (simp_all add: unat_of_nat)
  show "bit (load_le n (store_le n a v m) a) k = bit (take_bit (8 * n) v) k"
    using k by (auto simp: bit_load_le store_le_def bit_simps less_mult_imp_div_less mult.commute)
qed

lemma load_le_outside:
  assumes "region a n \<inter> region b l = {}" "n \<le> 2 ^ 64"
  shows "load_le n (store_le l b v m) a = load_le n m a"
  by (rule load_le_cong) (use assms region_self in \<open>blast intro: store_le_outside\<close>)

section \<open>Requests\<close>

text \<open>The three static and caller-supplied areas of a request do not overlap.\<close>

definition areas_apart :: "blk_statics \<Rightarrow> u64 \<Rightarrow> nat \<Rightarrow> bool" where
  "areas_apart g buf n \<longleftrightarrow> region (blk_req_hdr g) 16 \<inter> region (blk_status g) 1 = {}
     \<and> region (blk_req_hdr g) 16 \<inter> region buf n = {} \<and> region (blk_status g) 1 \<inter> region buf n = {}"

lemma region_sub: "i + k \<le> n \<Longrightarrow> n \<le> 2 ^ 32 \<Longrightarrow> region (a + of_nat i) k \<subseteq> region a n"
proof
  fix x assume le: "i + k \<le> n" "n \<le> 2 ^ 32" and x: "x \<in> region (a + of_nat i) k"
  define d where "d = x - (a + of_nat i)"
  have u: "unat (of_nat i :: u64) = i" by (rule unat_of_nat_small) (use le in simp)
  have d: "unat d < k" using x by (simp add: region_def d_def)
  have "unat (d + of_nat i) = unat d + i" using d le u by (subst unat_add_small) simp_all
  moreover have "x - a = d + of_nat i" by (simp add: d_def)
  ultimately show "x \<in> region a n" using d le by (simp add: region_def)
qed

lemma region_apart: "i + k \<le> j \<Longrightarrow> j + l \<le> 2 ^ 32 \<Longrightarrow> region (a + of_nat i) k \<inter> region (a + of_nat j) l = {}"
proof (rule ccontr)
  assume le: "i + k \<le> j" "j + l \<le> 2 ^ 32" and "region (a + of_nat i) k \<inter> region (a + of_nat j) l \<noteq> {}"
  then obtain x where x: "unat (x - (a + of_nat i)) < k" "unat (x - (a + of_nat j)) < l" by (auto simp: region_def)
  define d where "d = x - (a + of_nat i)"
  define e where "e = x - (a + of_nat j)"
  have u: "unat (of_nat i :: u64) = i" "unat (of_nat j :: u64) = j" by (rule unat_of_nat_small; use le in simp)+
  have "unat (d + of_nat i) = unat d + i" using x le u by (subst unat_add_small) (simp_all add: d_def)
  moreover have "unat (e + of_nat j) = unat e + j" using x le u by (subst unat_add_small) (simp_all add: e_def)
  moreover have "d + of_nat i = e + of_nat j" by (simp add: d_def e_def)
  ultimately show False using x le by (simp add: d_def e_def)
qed

lemma write_blk_req_loads:
  assumes "areas_apart g buf n"
  shows "load_le 4 (write_blk_req g ty sector m) (blk_req_hdr g) = ucast ty"
    "load_le 8 (write_blk_req g ty sector m) (blk_req_hdr g + 8) = sector"
    "write_blk_req g ty sector m (blk_status g) = 0xFF"
proof -
  let ?h = "blk_req_hdr g" and ?s = "blk_status g"
  have a: "region ?h 16 \<inter> region ?s 1 = {}" using assms by (simp add: areas_apart_def)
  have h4: "region ?h 4 \<inter> region ?s 1 = {}" using region_sub [of 0 4 16 ?h] a by auto
  have h8: "region (?h + 8) 8 \<inter> region ?s 1 = {}" using region_sub [of 8 8 16 ?h] a by auto
  have i: "region ?h 4 \<inter> region (?h + 4) 4 = {}" "region ?h 4 \<inter> region (?h + 8) 8 = {}"
    using region_apart [of 0 4 4 4 ?h] region_apart [of 0 4 8 8 ?h] by simp_all
  have t: "take_bit 32 (ucast ty :: u64) = ucast ty" by (rule bit_eqI) (auto simp: bit_simps dest: bit_imp_le_length)
  show "load_le 4 (write_blk_req g ty sector m) ?h = ucast ty"
    by (simp add: write_blk_req_def load_le_outside h4 i load_le_store_le t del: One_nat_def)
  show "load_le 8 (write_blk_req g ty sector m) (?h + 8) = sector"
    by (simp add: write_blk_req_def load_le_outside h8 load_le_store_le take_bit_word_eq_self del: One_nat_def)
  show "write_blk_req g ty sector m ?s = 0xFF" by (simp add: write_blk_req_def store_le_def)
qed

lemma write_blk_req_outside:
  assumes "x \<notin> region (blk_req_hdr g) 16" "x \<noteq> blk_status g"
  shows "write_blk_req g ty sector m x = m x"
proof -
  have "x \<notin> region (blk_req_hdr g + of_nat 0) 4" "x \<notin> region (blk_req_hdr g + of_nat 4) 4" "x \<notin> region (blk_req_hdr g + of_nat 8) 8"
    using region_sub [of 0 4 16 "blk_req_hdr g"] region_sub [of 4 4 16 "blk_req_hdr g"] region_sub [of 8 8 16 "blk_req_hdr g"] assms(1)
    by (simp_all add: subset_iff) metis+
  moreover have "x \<notin> region (blk_status g) 1"
    using assms(2) by (auto simp: region_def unat_eq_0)
  ultimately show ?thesis by (simp add: write_blk_req_def store_le_outside del: One_nat_def)
qed

lemma poll_silent:
  assumes "\<And>j. i \<le> j \<Longrightarrow> j < i + n \<Longrightarrow> dv j s = s" "virtqueue_get_used (queue s) = Some (None, vq)"
  shows "poll_used dv i (n + t) s = poll_used dv (i + n) t s"
  using assms(1)
proof (induction n arbitrary: i)
  case (Suc n)
  then show ?case using assms(2) Suc.IH [of "Suc i"] by simp
qed simp

section \<open>The device\<close>

text \<open>
  Virtio 1.1, 5.2.6: the request at \<open>h\<close> is a chain of header, data and status; a read request has
  type 0 and a data buffer the device may write. The answer to it is the contents of the disk from
  the sector in the header on, status 0, and an entry in the used ring.
\<close>

definition req_desc :: "nat \<Rightarrow> nat \<Rightarrow> io \<Rightarrow> vring_desc" where
  "req_desc k h s = (let d = desc (queue s) in (d ! (((\<lambda>i. unat (d_next (d ! i))) ^^ k) h)))"

definition read_request :: "nat \<Rightarrow> io \<Rightarrow> bool" where
  "read_request h s \<longleftrightarrow> linked (desc (queue s)) [h, unat (d_next (req_desc 0 h s)), unat (d_next (req_desc 1 h s))]
     \<and> d_len (req_desc 0 h s) = 16 \<and> d_flags (req_desc 1 h s) AND VRING_DESC_F_WRITE \<noteq> 0 \<and> d_flags (req_desc 2 h s) AND VRING_DESC_F_WRITE \<noteq> 0
     \<and> load_le 4 (mem s) (phys_to_virt (d_addr (req_desc 0 h s))) = 0"

definition read_reply :: "(u64 \<Rightarrow> u8 list) \<Rightarrow> nat \<Rightarrow> io \<Rightarrow> io" where
  "read_reply disk h s =
     (let sector = load_le 8 (mem s) (phys_to_virt (d_addr (req_desc 0 h s)) + 8);
          data = phys_to_virt (d_addr (req_desc 1 h s)); n = unat (d_len (req_desc 1 h s))
      in s\<lparr>queue := device_used h (d_len (req_desc 1 h s) + 1) (queue s),
           mem := (\<lambda>x. if x = phys_to_virt (d_addr (req_desc 2 h s)) then 0
                     else if unat (x - data) < n then disk (sector + of_nat (unat (x - data) div 512)) ! (unat (x - data) mod 512)
                     else mem s x)\<rparr>)"

text \<open>The newest chain of the available ring, and a device that answers it at the \<open>n\<close>-th look.\<close>

definition newest :: "io \<Rightarrow> nat" where
  "newest s = unat (avail_ring (queue s) ! unat ((avail_hdr_idx (queue s) - 1) mod num (queue s)))"

definition answers_reads :: "(u64 \<Rightarrow> u8 list) \<Rightarrow> nat \<Rightarrow> device \<Rightarrow> bool" where
  "answers_reads disk n dv \<longleftrightarrow> (\<forall>i < n. \<forall>s. dv i s = s) \<and> (\<forall>s. read_request (newest s) s \<longrightarrow> dv n s = read_reply disk (newest s) s)"

lemma take3: "3 \<le> length fl \<Longrightarrow> \<exists>a b c r. fl = a # b # c # r"
  by (cases fl; cases "tl fl"; cases "tl (tl fl)") auto

text \<open>The state in which a chain that was just submitted waits for the device.\<close>

lemma linked_next: "linked d c \<Longrightarrow> i < length c \<Longrightarrow> ((\<lambda>i. unat (d_next (d ! i))) ^^ i) (hd c) = c ! i"
proof (induction c arbitrary: i rule: linked.induct)
  case (3 d x y ys)
  then show ?case by (cases i) (simp_all add: funpow_Suc_right del: funpow.simps(2))
qed simp_all

lemma carries_req:
  assumes "carries (queue s) c bufs" "i < length c"
  shows "req_desc i (hd c) s = desc (queue s) ! (c ! i)" "seen (req_desc i (hd c) s) = offered (bufs ! i)"
proof -
  have l: "linked (desc (queue s)) c" and m: "map (\<lambda>x. seen (desc (queue s) ! x)) c = map offered bufs"
    using assms(1) by (simp_all add: carries_def)
  show r: "req_desc i (hd c) s = desc (queue s) ! (c ! i)" by (simp add: req_desc_def Let_def linked_next [OF l assms(2)])
  have "length c = length bufs" using m by (metis length_map)
  then show "seen (req_desc i (hd c) s) = offered (bufs ! i)" unfolding r using m assms(2) by (metis nth_map)
qed

lemma chain_submitted:
  assumes inv: "vq_inv fl cs [] (queue s)" and bs: "bufs \<noteq> []" "length bufs \<le> length fl" "\<forall>b \<in> set bufs. b_flags b AND VRING_DESC_F_NEXT = 0"
  shows "\<exists>vq s1. virtqueue_add_chain bufs (queue s) = Some (of_nat (hd fl), vq) \<and> s1 = kick (s\<lparr>mem := m, queue := vq\<rparr>)
    \<and> vq_inv (drop (length bufs) fl) (insert (take (length bufs) fl) cs) [] (queue s1) \<and> of_nat (hd fl) \<noteq> (0xFFFF :: u16)
    \<and> newest s1 = hd fl \<and> carries (queue s1) (take (length bufs) fl) bufs
    \<and> (\<forall>ch \<in> cs. \<forall>x \<in> set ch. desc (queue s1) ! x = desc (queue s) ! x) \<and> mem s1 = m"
proof -
  obtain d fh where r: "virtqueue_add_chain bufs (queue s) = Some (of_nat (hd fl), (queue s)\<lparr>desc := d, free_head := fh,
        avail_ring := (avail_ring (queue s))[unat (avail_idx (queue s) mod num (queue s)) := of_nat (hd fl)],
        avail_idx := avail_idx (queue s) + 1, avail_hdr_idx := avail_idx (queue s) + 1\<rparr>)"
      "vq_inv (drop (length bufs) fl) (insert (take (length bufs) fl) cs) [] ((queue s)\<lparr>desc := d, free_head := fh,
        avail_ring := (avail_ring (queue s))[unat (avail_idx (queue s) mod num (queue s)) := of_nat (hd fl)],
        avail_idx := avail_idx (queue s) + 1, avail_hdr_idx := avail_idx (queue s) + 1\<rparr>)"
      "linked d (take (length bufs) fl)" "map (\<lambda>x. seen (d ! x)) (take (length bufs) fl) = map offered bufs"
      "\<forall>c \<in> cs. \<forall>x \<in> set c. d ! x = desc (queue s) ! x"
    using add_chain_ok [OF inv bs] by (elim exE conjE) (rule that)
  define vq where "vq = (queue s)\<lparr>desc := d, free_head := fh,
        avail_ring := (avail_ring (queue s))[unat (avail_idx (queue s) mod num (queue s)) := of_nat (hd fl)],
        avail_idx := avail_idx (queue s) + 1, avail_hdr_idx := avail_idx (queue s) + 1\<rparr>"
  define s1 where "s1 = kick (s\<lparr>mem := m, queue := vq\<rparr>)"
  have q: "queue s1 = vq" "mem s1 = m" "desc vq = d" by (simp_all add: s1_def kick_def vq_def)
  have i1: "vq_inv (drop (length bufs) fl) (insert (take (length bufs) fl) cs) [] vq" using r(2) by (simp add: vq_def)
  have "hd (take (length bufs) fl) = hd fl" using bs by (cases fl; cases bufs) auto
  note h = vq_hd [OF i1 insertI1, unfolded this]
  have "unat (avail_idx (queue s) mod num (queue s)) < length (avail_ring (queue s))"
    using slot_less vq_invD(1) [OF inv] unfolding vq_wf_def by metis
  moreover have "avail_hdr_idx vq - 1 = avail_idx (queue s)" "num vq = num (queue s)"
    "avail_ring vq = (avail_ring (queue s))[unat (avail_idx (queue s) mod num (queue s)) := of_nat (hd fl)]" by (simp_all add: vq_def)
  ultimately have nw: "newest s1 = hd fl" unfolding newest_def q(1) using h(3) by simp
  have "carries vq (take (length bufs) fl) bufs" using r(3,4) by (simp add: carries_def q(3))
  then show ?thesis
    using r(1) [folded vq_def] i1 h(4) nw r(5) q by (intro exI [of _ vq] exI [of _ s1] conjI) (simp_all add: s1_def kick_def)
qed

text \<open>A chain that the device may not write.\<close>

lemma seen_write: "seen e = (x, y, f) \<Longrightarrow> d_flags e AND VRING_DESC_F_WRITE = f AND VRING_DESC_F_WRITE"
proof -
  assume "seen e = (x, y, f)"
  then have "f = d_flags e AND NOT VRING_DESC_F_NEXT" by (simp add: seen_def)
  then have "f AND VRING_DESC_F_WRITE = d_flags e AND (NOT VRING_DESC_F_NEXT AND VRING_DESC_F_WRITE)" by (simp only: ac_simps)
  then show ?thesis by (simp add: VRING_DESC_F_WRITE_def VRING_DESC_F_NEXT_def)
qed

lemma read_submitted:
  assumes inv: "vq_inv fl cs [] (queue s)" and fl: "fl = a # b # c # fl'" and ap: "areas_apart g buf (unat len)"
  shows "\<exists>vq s1. virtqueue_add_chain (blk_chain g VIRTIO_BLK_T_IN buf len) (queue s) = Some (of_nat a, vq)
    \<and> s1 = kick (s\<lparr>mem := write_blk_req g VIRTIO_BLK_T_IN sector (mem s), queue := vq\<rparr>)
    \<and> vq_inv fl' (insert [a, b, c] cs) [] (queue s1) \<and> unat (of_nat a :: u16) = a \<and> of_nat a \<noteq> (0xFFFF :: u16)
    \<and> newest s1 = a \<and> read_request a s1 \<and> (\<forall>ch \<in> cs. \<forall>x \<in> set ch. desc (queue s1) ! x = desc (queue s) ! x)
    \<and> phys_to_virt (d_addr (req_desc 0 a s1)) = blk_req_hdr g \<and> phys_to_virt (d_addr (req_desc 1 a s1)) = buf
    \<and> d_len (req_desc 1 a s1) = len \<and> phys_to_virt (d_addr (req_desc 2 a s1)) = blk_status g
    \<and> mem s1 = write_blk_req g VIRTIO_BLK_T_IN sector (mem s)"
proof -
  let ?bs = "blk_chain g VIRTIO_BLK_T_IN buf len"
  have bs: "?bs \<noteq> []" "length ?bs = 3" "\<forall>b \<in> set ?bs. b_flags b AND VRING_DESC_F_NEXT = 0"
    by (simp_all add: blk_chain_def VRING_DESC_F_WRITE_def VRING_DESC_F_NEXT_def)
  have le: "length ?bs \<le> length fl" by (simp add: bs(2) fl)
  have abc: "hd fl = a" "drop (length ?bs) fl = fl'" "take (length ?bs) fl = [a, b, c]" by (simp_all add: bs(2) fl numeral_3_eq_3)
  obtain vq s1 where r: "virtqueue_add_chain ?bs (queue s) = Some (of_nat a, vq)"
    "s1 = kick (s\<lparr>mem := write_blk_req g VIRTIO_BLK_T_IN sector (mem s), queue := vq\<rparr>)"
    "vq_inv fl' (insert [a, b, c] cs) [] (queue s1)" "of_nat a \<noteq> (0xFFFF :: u16)" "newest s1 = a" "carries (queue s1) [a, b, c] ?bs"
    "\<forall>ch \<in> cs. \<forall>x \<in> set ch. desc (queue s1) ! x = desc (queue s) ! x" "mem s1 = write_blk_req g VIRTIO_BLK_T_IN sector (mem s)"
    using chain_submitted [OF inv bs(1) le bs(3), of "write_blk_req g VIRTIO_BLK_T_IN sector (mem s)", unfolded abc] by (elim exE conjE) (rule that)
  have sn: "seen (req_desc 0 a s1) = (virt_to_phys (blk_req_hdr g), 16, 0)" "seen (req_desc 1 a s1) = (virt_to_phys buf, len, VRING_DESC_F_WRITE)"
    "seen (req_desc 2 a s1) = (virt_to_phys (blk_status g), 1, VRING_DESC_F_WRITE)"
    using carries_req(2) [OF r(6), of 0] carries_req(2) [OF r(6), of 1] carries_req(2) [OF r(6), of 2]
    by (simp_all add: blk_chain_def offered_def)
  have l: "linked (desc (queue s1)) [a, b, c]" using r(6) by (simp add: carries_def)
  then have nx: "unat (d_next (desc (queue s1) ! a)) = b" "unat (d_next (desc (queue s1) ! b)) = c" by simp_all
  have rd: "req_desc 0 a s1 = desc (queue s1) ! a" "req_desc 1 a s1 = desc (queue s1) ! b"
    using carries_req(1) [OF r(6), of 0] carries_req(1) [OF r(6), of 1] by simp_all
  have rr: "read_request a s1"
    unfolding read_request_def using l nx sn seen_write [OF sn(2)] seen_write [OF sn(3)] write_blk_req_loads(1) [OF ap]
    by (simp add: rd r(8) seen_def VIRTIO_BLK_T_IN_def VRING_DESC_F_WRITE_def del: One_nat_def)
  have ph: "phys_to_virt (d_addr (req_desc 0 a s1)) = blk_req_hdr g" "phys_to_virt (d_addr (req_desc 1 a s1)) = buf"
    "d_len (req_desc 1 a s1) = len" "phys_to_virt (d_addr (req_desc 2 a s1)) = blk_status g"
    using sn unfolding seen_def by simp_all
  have u: "unat (of_nat a :: u16) = a" using vq_hd(3) [OF r(3) insertI1] by simp
  show ?thesis
    by (intro exI [of _ vq] exI [of _ s1] conjI) (fact r(1-5) u rr r(7) ph r(8))+
qed

section \<open>Reading\<close>

text \<open>A chain that the device reports at the \<open>n\<close>-th look is what the loop returns.\<close>

lemma poll_reported:
  assumes inv: "vq_inv fl (insert ch cs) [] (queue s)" and ch: "ch \<notin> cs"
    and silent: "\<forall>i < n. \<forall>s. dv i s = s" and n: "n < timeout"
    and dv: "dv n s = s\<lparr>queue := device_used (hd ch) len (queue s), mem := m\<rparr>"
  shows "\<exists>vq used. poll_used dv 0 timeout s = Some (Some used, s\<lparr>queue := vq, mem := m\<rparr>) \<and> vq_inv (rev ch @ fl) cs [] vq"
proof -
  let ?u = "device_used (hd ch) len (queue s)"
  have u: "vq_inv fl (insert ch cs) (hd ch # []) ?u" using device_used_ok [OF inv, of "hd ch" len] by simp
  obtain vq r where g: "virtqueue_get_used ?u = Some (Some r, vq)" "vq_inv (rev ch @ fl) (insert ch cs - {ch}) [] vq"
    using get_used_ok [OF u insertI1] by (elim exE conjE) (rule that)
  have c: "insert ch cs - {ch} = cs" using ch by blast
  obtain t where t: "timeout = n + Suc t" using n less_imp_Suc_add by auto
  have "poll_used dv 0 (n + Suc t) s = poll_used dv (0 + n) (Suc t) s"
    by (rule poll_silent [OF _ get_used_none [OF inv]]) (use silent in simp)
  also have "\<dots> = Some (Some r, s\<lparr>queue := vq, mem := m\<rparr>)" using g(1) by (simp add: dv)
  finally show ?thesis using g(2) unfolding t c by blast
qed

lemma buffer_small: "unat (n :: u32) < 2 ^ 32"
  using unsigned_less [of n] by simp

lemma areas_apartD:
  assumes "areas_apart g buf n"
  shows "blk_status g \<notin> region (blk_req_hdr g) 16" "blk_status g \<notin> region buf n" "region (blk_req_hdr g) 16 \<inter> region buf n = {}"
proof -
  have "blk_status g \<in> region (blk_status g) 1" by (simp add: region_def)
  then show "blk_status g \<notin> region (blk_req_hdr g) 16" "blk_status g \<notin> region buf n" "region (blk_req_hdr g) 16 \<inter> region buf n = {}"
    using assms by (auto simp: areas_apart_def)
qed

text \<open>A disk whose sectors are filled with their numbers, and a device that answers at once.\<close>

definition demo_disk :: "u64 \<Rightarrow> u8 list" where
  "demo_disk sector = replicate 512 (ucast sector)"

definition demo_device :: "(io \<Rightarrow> nat) \<Rightarrow> device" where
  "demo_device h i s = (if i = 0 then read_reply demo_disk (h s) s else s)"

definition demo_g :: blk_statics where
  "demo_g = \<lparr>blk_req_hdr = 0xFFFFFF8040200000, blk_status = 0xFFFFFF8040200010\<rparr>"

lemma demo_areas: "areas_apart demo_g 0xFFFFFF8040200020 512" "areas_apart demo_g 0xFFFFFF8040200220 512"
    "region 0xFFFFFF8040200020 512 \<inter> region 0xFFFFFF8040200220 512 = {}"
  using region_apart [of 0 16 16 1 "0xFFFFFF8040200000"] region_apart [of 0 16 32 512 "0xFFFFFF8040200000"]
    region_apart [of 16 1 32 512 "0xFFFFFF8040200000"] region_apart [of 0 16 544 512 "0xFFFFFF8040200000"]
    region_apart [of 16 1 544 512 "0xFFFFFF8040200000"] region_apart [of 32 512 544 512 "0xFFFFFF8040200000"]
  by (simp_all add: areas_apart_def demo_g_def)

lemma demo_queue:
  obtains vq where "vq_inv [0, 1, 2, 3, 4, 5, 6, 7] {} [] vq"
proof -
  have n: "(0 :: nat) < VIRTQ_MAX_QUEUES" "(8 :: u16) \<noteq> 0" "unat (8 :: u16) dvd 65536" by (simp_all add: VIRTQ_MAX_QUEUES_def)
  obtain vq where q: "num vq = 8" "vq_inv [0..<unat (num vq)] {} [] vq"
    using virtqueue_init_inv [OF n, of 0 0 undefined] by auto
  have "[0..<unat (num vq)] = [0, 1, 2, 3, 4, 5, 6, 7]" by (simp add: q(1) upt_conv_Cons)
  then show ?thesis using q(2) that by simp
qed

text \<open>
  C19: when the device answers in time, a read returns 0, the buffer holds the sectors asked for, no
  other memory than the request's own has changed, and all descriptors of the queue are free again.
\<close>

theorem virtio_blk_read_ok:
  assumes inv: "vq_inv fl {} [] (queue s)" and fl: "3 \<le> length fl" and ap: "areas_apart g buf (unat (count * 512))"
    and dv: "answers_reads disk n dv" and n: "n < 50000000"
  shows "\<exists>s' fl'. virtio_blk_read dv g sector count buf s = Some (0, s')
     \<and> (\<forall>i < unat (count * 512). mem s' (buf + of_nat i) = disk (sector + of_nat (i div 512)) ! (i mod 512))
     \<and> (\<forall>x. x \<notin> region buf (unat (count * 512)) \<longrightarrow> x \<notin> region (blk_req_hdr g) 16 \<longrightarrow> x \<noteq> blk_status g \<longrightarrow> mem s' x = mem s x)
     \<and> vq_inv fl' {} [] (queue s') \<and> set fl' = set fl"
proof -
  let ?n = "unat (count * 512)"
  obtain a b c fl' where fl: "fl = a # b # c # fl'" using take3 [OF fl] by auto
  obtain vq s1 where r: "virtqueue_add_chain (blk_chain g VIRTIO_BLK_T_IN buf (count * 512)) (queue s) = Some (of_nat a, vq)"
    "s1 = kick (s\<lparr>mem := write_blk_req g VIRTIO_BLK_T_IN sector (mem s), queue := vq\<rparr>)"
    "vq_inv fl' {[a, b, c]} [] (queue s1)" "of_nat a \<noteq> (0xFFFF :: u16)" "newest s1 = a" "read_request a s1"
    "phys_to_virt (d_addr (req_desc 0 a s1)) = blk_req_hdr g" "phys_to_virt (d_addr (req_desc 1 a s1)) = buf"
    "d_len (req_desc 1 a s1) = count * 512" "phys_to_virt (d_addr (req_desc 2 a s1)) = blk_status g"
    "mem s1 = write_blk_req g VIRTIO_BLK_T_IN sector (mem s)"
    using read_submitted [OF inv fl ap, of sector] by (elim exE conjE) (rule that)
  have sec: "load_le 8 (mem s1) (blk_req_hdr g + 8) = sector" unfolding r(11) by (rule write_blk_req_loads(2) [OF ap])
  define m where "m = (\<lambda>x. if x = blk_status g then 0 else if unat (x - buf) < ?n
    then disk (sector + of_nat (unat (x - buf) div 512)) ! (unat (x - buf) mod 512) else mem s1 x)"
  have silent: "\<forall>i < n. \<forall>s. dv i s = s" using dv by (simp add: answers_reads_def)
  have "dv n s1 = read_reply disk a s1" using dv r(5,6) by (simp add: answers_reads_def)
  then have d: "dv n s1 = s1\<lparr>queue := device_used (hd [a, b, c]) (count * 512 + 1) (queue s1), mem := m\<rparr>"
    unfolding read_reply_def Let_def r(7-10) sec by (simp add: m_def)
  obtain vq2 used where p: "poll_used dv 0 50000000 s1 = Some (Some used, s1\<lparr>queue := vq2, mem := m\<rparr>)"
    "vq_inv (rev [a, b, c] @ fl') {} [] vq2"
    using poll_reported [where ch = "[a, b, c]" and cs = "{}", OF r(3) _ silent n d] by auto
  let ?s = "s1\<lparr>queue := vq2, mem := m\<rparr>"
  have "virtio_blk_read dv g sector count buf s = Some (0, ?s)"
    using r(1,4) p(1) unfolding virtio_blk_read_def blk_do_request_def Let_def r(2)
    by (simp add: m_def VIRTIO_BLK_S_OK_def kick_def)
  moreover have "m (buf + of_nat i) = disk (sector + of_nat (i div 512)) ! (i mod 512)" if i: "i < ?n" for i
  proof -
    have lt: "?n < 2 ^ 64" using buffer_small [of "count * 512"] by simp
    have "buf + of_nat i \<in> region buf ?n" using region_self [OF i] lt by simp
    then have "buf + of_nat i \<noteq> blk_status g" using areas_apartD(2) [OF ap] by metis
    moreover have "unat (of_nat i :: u64) = i" by (rule unat_of_nat_small) (use i lt in simp)
    ultimately show ?thesis using i by (simp add: m_def)
  qed
  moreover have "m x = mem s x" if "x \<notin> region buf ?n" "x \<notin> region (blk_req_hdr g) 16" "x \<noteq> blk_status g" for x
    using that write_blk_req_outside [OF that(2,3)] by (simp add: m_def r(11) region_def)
  ultimately show ?thesis
    using p(2) by (intro exI [of _ ?s] exI [of _ "rev [a, b, c] @ fl'"]) (auto simp: fl)
qed

theorem virtio_blk_read_ok_witness:
  "\<exists>s s'. virtio_blk_read (demo_device newest) demo_g 5 1 0xFFFFFF8040200020 s = Some (0, s')
     \<and> mem s 0xFFFFFF8040200021 = 0 \<and> mem s' 0xFFFFFF8040200021 = 5"
proof -
  obtain vq where q: "vq_inv [0, 1, 2, 3, 4, 5, 6, 7] {} [] vq" by (rule demo_queue)
  let ?s = "\<lparr>queue = vq, mem = (\<lambda>_. 0), kicks = []\<rparr>"
  have i: "vq_inv [0, 1, 2, 3, 4, 5, 6, 7] {} [] (queue ?s)" using q by simp
  have a: "areas_apart demo_g 0xFFFFFF8040200020 (unat ((1 :: u32) * 512))" using demo_areas by simp
  have d: "answers_reads demo_disk 0 (demo_device newest)" by (simp add: answers_reads_def demo_device_def)
  obtain s' where r: "virtio_blk_read (demo_device newest) demo_g 5 1 0xFFFFFF8040200020 ?s = Some (0, s')"
    "\<forall>i < unat ((1 :: u32) * 512). mem s' (0xFFFFFF8040200020 + of_nat i) = demo_disk (5 + of_nat (i div 512)) ! (i mod 512)"
  proof -
    have "3 \<le> length [0, 1, 2, 3, 4, 5, 6, 7 :: nat]" "0 < (50000000 :: nat)" by simp_all
    from virtio_blk_read_ok [OF i this(1) a d this(2), of 5] show ?thesis by (elim exE conjE) (rule that)
  qed
  have "mem s' (0xFFFFFF8040200020 + of_nat 1) = 5" using spec [OF r(2), of 1] by (simp add: demo_disk_def)
  then show ?thesis using r(1) by (intro exI [of _ ?s] exI [of _ s']) simp
qed

text \<open>
  C21: when a read times out and its answer arrives during the next read, the next read returns 0,
  but its buffer is unchanged: the answer went to the buffer of the first.
\<close>

theorem blk_late_answer:
  assumes inv: "vq_inv fl {} [] (queue s)" and fl: "6 \<le> length fl"
    and ap: "areas_apart g buf (unat (count * 512))" "areas_apart g buf' (unat (count' * 512))"
    and dis: "region buf (unat (count * 512)) \<inter> region buf' (unat (count' * 512)) = {}"
    and silent: "\<forall>i s. dv i s = s"
    and late: "n < 50000000" "\<forall>i < n. \<forall>s. dv' i s = s" "\<forall>s. read_request (hd fl) s \<longrightarrow> dv' n s = read_reply disk (hd fl) s"
  shows "\<exists>s1 s2. virtio_blk_read dv g sector count buf s = Some (-1, s1) \<and> virtio_blk_read dv' g sector' count' buf' s1 = Some (0, s2)
     \<and> (\<forall>i < unat (count' * 512). mem s2 (buf' + of_nat i) = mem s (buf' + of_nat i))"
proof -
  let ?n = "unat (count * 512)" and ?n' = "unat (count' * 512)"
  have "3 \<le> length fl" using fl by simp
  then obtain a b c fl1 where fl1: "fl = a # b # c # fl1" using take3 by metis
  then have "3 \<le> length fl1" using fl by simp
  then obtain a' b' c' fl2 where fl2: "fl1 = a' # b' # c' # fl2" using take3 by metis
  obtain vq s1 where r: "virtqueue_add_chain (blk_chain g VIRTIO_BLK_T_IN buf (count * 512)) (queue s) = Some (of_nat a, vq)"
    "s1 = kick (s\<lparr>mem := write_blk_req g VIRTIO_BLK_T_IN sector (mem s), queue := vq\<rparr>)"
    "vq_inv fl1 {[a, b, c]} [] (queue s1)" "of_nat a \<noteq> (0xFFFF :: u16)" "read_request a s1"
    "phys_to_virt (d_addr (req_desc 0 a s1)) = blk_req_hdr g" "phys_to_virt (d_addr (req_desc 1 a s1)) = buf"
    "d_len (req_desc 1 a s1) = count * 512" "phys_to_virt (d_addr (req_desc 2 a s1)) = blk_status g"
    "mem s1 = write_blk_req g VIRTIO_BLK_T_IN sector (mem s)"
    using read_submitted [OF inv fl1 ap(1), of sector] by (elim exE conjE) (rule that)
  have "poll_used dv 0 (50000000 + 0) s1 = poll_used dv (0 + 50000000) 0 s1"
    by (rule poll_silent [OF _ get_used_none [OF r(3)]]) (use silent in simp)
  then have first: "virtio_blk_read dv g sector count buf s = Some (-1, s1)"
    using r(1,4) unfolding virtio_blk_read_def blk_do_request_def Let_def r(2) by simp
  obtain vq' s2 where q: "virtqueue_add_chain (blk_chain g VIRTIO_BLK_T_IN buf' (count' * 512)) (queue s1) = Some (of_nat a', vq')"
    "s2 = kick (s1\<lparr>mem := write_blk_req g VIRTIO_BLK_T_IN sector' (mem s1), queue := vq'\<rparr>)"
    "vq_inv fl2 (insert [a', b', c'] {[a, b, c]}) [] (queue s2)" "of_nat a' \<noteq> (0xFFFF :: u16)"
    "\<forall>ch \<in> {[a, b, c]}. \<forall>x \<in> set ch. desc (queue s2) ! x = desc (queue s1) ! x"
    "mem s2 = write_blk_req g VIRTIO_BLK_T_IN sector' (mem s1)"
    using read_submitted [OF r(3) fl2 ap(2), of sector'] by (elim exE conjE) (rule that)
  have l: "linked (desc (queue s1)) [a, b, c]" by (rule vq_invD(8) [OF r(3), THEN conjunct1]) simp
  then have nx: "unat (d_next (desc (queue s1) ! a)) = b" "unat (d_next (desc (queue s1) ! b)) = c" by simp_all
  have same: "desc (queue s2) ! x = desc (queue s1) ! x" if "x \<in> {a, b, c}" for x using q(5) that by auto
  have rd: "req_desc 0 a s2 = req_desc 0 a s1" "req_desc 1 a s2 = req_desc 1 a s1" "req_desc 2 a s2 = req_desc 2 a s1"
    using nx same by (simp_all add: req_desc_def Let_def numeral_2_eq_2)
  have l2: "linked (desc (queue s2)) [a, b, c]" by (rule vq_invD(8) [OF q(3), THEN conjunct1]) simp
  have rr: "read_request a s2"
    using r(5) l2 write_blk_req_loads(1) [OF ap(2)] unfolding read_request_def rd r(6) q(6)
    using nx by (simp add: req_desc_def Let_def VIRTIO_BLK_T_IN_def)
  define m where "m = (\<lambda>x. if x = blk_status g then 0 else if unat (x - buf) < ?n
    then disk (load_le 8 (mem s2) (blk_req_hdr g + 8) + of_nat (unat (x - buf) div 512)) ! (unat (x - buf) mod 512) else mem s2 x)"
  have "dv' n s2 = read_reply disk a s2" using late(3) rr fl1 by simp
  then have d: "dv' n s2 = s2\<lparr>queue := device_used (hd [a, b, c]) (count * 512 + 1) (queue s2), mem := m\<rparr>"
    unfolding read_reply_def Let_def rd r(6-9) by (simp add: m_def)
  have i: "vq_inv fl2 (insert [a, b, c] {[a', b', c']}) [] (queue s2)" using q(3) by (simp add: insert_commute)
  have ne: "[a, b, c] \<notin> {[a', b', c']}" using vq_invD(3) [OF inv] by (auto simp: fl1 fl2)
  obtain vq2 used where p: "poll_used dv' 0 50000000 s2 = Some (Some used, s2\<lparr>queue := vq2, mem := m\<rparr>)"
    using poll_reported [OF i ne late(2,1) d] by blast
  let ?s = "s2\<lparr>queue := vq2, mem := m\<rparr>"
  have second: "virtio_blk_read dv' g sector' count' buf' s1 = Some (0, ?s)"
    using q(1,4) p unfolding virtio_blk_read_def blk_do_request_def Let_def q(2)
    by (simp add: m_def VIRTIO_BLK_S_OK_def kick_def)
  have "m (buf' + of_nat i) = mem s (buf' + of_nat i)" if i: "i < ?n'" for i
  proof -
    have "?n' < 2 ^ 64" using buffer_small [of "count' * 512"] by simp
    then have x: "buf' + of_nat i \<in> region buf' ?n'" using region_self [OF i] by simp
    then have "buf' + of_nat i \<notin> region (blk_req_hdr g) 16" "buf' + of_nat i \<noteq> blk_status g" "buf' + of_nat i \<notin> region buf ?n"
      using areas_apartD [OF ap(2)] dis by auto
    then show ?thesis using write_blk_req_outside [of _ g] by (simp add: m_def q(6) r(10) region_def)
  qed
  then show ?thesis using first second by (intro exI [of _ s1] exI [of _ ?s]) simp
qed

theorem blk_late_answer_witness:
  "\<exists>s s1 s2. virtio_blk_read (\<lambda>i s. s) demo_g 5 1 0xFFFFFF8040200020 s = Some (-1, s1)
     \<and> virtio_blk_read (demo_device (\<lambda>_. 0)) demo_g 6 1 0xFFFFFF8040200220 s1 = Some (0, s2) \<and> mem s2 0xFFFFFF8040200220 = 7"
proof -
  obtain vq where q: "vq_inv [0, 1, 2, 3, 4, 5, 6, 7] {} [] vq" by (rule demo_queue)
  let ?s = "\<lparr>queue = vq, mem = (\<lambda>_. 7), kicks = []\<rparr>"
  have i: "vq_inv [0, 1, 2, 3, 4, 5, 6, 7] {} [] (queue ?s)" using q by simp
  have c: "unat ((1 :: u32) * 512) = 512" by simp
  obtain s1 s2 where r: "virtio_blk_read (\<lambda>i s. s) demo_g 5 1 0xFFFFFF8040200020 ?s = Some (-1, s1)"
    "virtio_blk_read (demo_device (\<lambda>_. 0)) demo_g 6 1 0xFFFFFF8040200220 s1 = Some (0, s2)"
    "\<forall>i < 512. mem s2 (0xFFFFFF8040200220 + of_nat i) = mem ?s (0xFFFFFF8040200220 + of_nat i)"
  proof -
    have h: "6 \<le> length [0, 1, 2, 3, 4, 5, 6, 7 :: nat]" "\<forall>(i :: nat) (s :: io). s = s" "0 < (50000000 :: nat)"
      "\<forall>i < 0. \<forall>s. demo_device (\<lambda>_. 0) i s = s"
      "\<forall>s. read_request (hd [0, 1, 2, 3, 4, 5, 6, 7]) s \<longrightarrow> demo_device (\<lambda>_. 0) 0 s = read_reply demo_disk (hd [0, 1, 2, 3, 4, 5, 6, 7]) s"
      by (simp_all add: demo_device_def)
    from blk_late_answer [OF i h(1), of demo_g _ 1 _ 1, unfolded c, OF demo_areas, of "\<lambda>i s. s", OF h(2-5), of 5 6]
    show ?thesis by (elim exE conjE) (rule that)
  qed
  have "mem s2 (0xFFFFFF8040200220 + of_nat 0) = 7" using spec [OF r(3), of 0] by simp
  then show ?thesis using r by (intro exI [of _ ?s] exI [of _ s1] exI [of _ s2]) simp
qed

end
