(* ===== verification/Gic.thy ===== *)
theory Gic
  imports Prelude
begin

text \<open>
  The interrupt controller and the timer, \<^verbatim>\<open>src/gic.c\<close> and \<^verbatim>\<open>src/timer.c\<close>. An operation is the sequence of
  register writes it makes; what a register read returns is a parameter.
\<close>

datatype icc_reg = ICC_SRE | ICC_PMR | ICC_BPR1 | ICC_IGRPEN1 | ICC_EOIR1

datatype reg_write = W32 u64 u32 | Icc icc_reg u64 | Cntp_tval u64 | Cntp_ctl u64

definition GICD_BASE :: u64 where "GICD_BASE = 0x08000000 + KERN_VA_OFFSET"
definition GICR_BASE :: u64 where "GICR_BASE = 0x080A0000 + KERN_VA_OFFSET"

definition GICD_CTLR :: u64 where "GICD_CTLR = GICD_BASE"
definition GICD_IGROUPR :: "u32 \<Rightarrow> u64" where "GICD_IGROUPR n = GICD_BASE + 0x80 + ucast (4 * n)"
definition GICD_ISENABLER :: "u32 \<Rightarrow> u64" where "GICD_ISENABLER n = GICD_BASE + 0x100 + ucast (4 * n)"
definition GICD_ICENABLER :: "u32 \<Rightarrow> u64" where "GICD_ICENABLER n = GICD_BASE + 0x180 + ucast (4 * n)"
definition GICD_IPRIORITYR :: "u32 \<Rightarrow> u64" where "GICD_IPRIORITYR n = GICD_BASE + 0x400 + ucast (4 * n)"
definition GICD_ICFGR :: "u32 \<Rightarrow> u64" where "GICD_ICFGR n = GICD_BASE + 0xC00 + ucast (4 * n)"
definition GICD_CTLR_EN_GRP1NS :: u32 where "GICD_CTLR_EN_GRP1NS = 2"
definition GICD_CTLR_ARE_NS :: u32 where "GICD_CTLR_ARE_NS = 16"

definition GICR_WAKER :: u64 where "GICR_WAKER = GICR_BASE + 0x14"
definition GICR_SGI_BASE :: u64 where "GICR_SGI_BASE = GICR_BASE + 0x10000"
definition GICR_IGROUPR0 :: u64 where "GICR_IGROUPR0 = GICR_SGI_BASE + 0x80"
definition GICR_ISENABLER0 :: u64 where "GICR_ISENABLER0 = GICR_SGI_BASE + 0x100"
definition GICR_IPRIORITYR :: "u32 \<Rightarrow> u64" where "GICR_IPRIORITYR n = GICR_SGI_BASE + 0x400 + ucast (4 * n)"
definition GICR_WAKER_PSLEEP :: u32 where "GICR_WAKER_PSLEEP = 2"
definition GICR_WAKER_CASLEEP :: u32 where "GICR_WAKER_CASLEEP = 4"

section \<open>Interrupt controller\<close>

text \<open>
  \<open>while ((waker & CASLEEP) && --timeout);\<close>: the timeout that is left; \<open>rd i\<close> is the \<open>i\<close>-th read.
\<close>

fun wake_wait :: "(nat \<Rightarrow> u32) \<Rightarrow> nat \<Rightarrow> nat \<Rightarrow> nat" where
  "wake_wait rd i 0 = 0"
| "wake_wait rd i (Suc timeout) =
     (if rd i AND GICR_WAKER_CASLEEP \<noteq> 0 then wake_wait rd (Suc i) timeout else Suc timeout)"

definition gic_init :: "u32 \<Rightarrow> u32 \<Rightarrow> reg_write list" where
  "gic_init typer waker =
     (let it_lines = unat ((typer AND 0x1F) + 1)
      in [W32 GICD_CTLR 0]
         @ map (\<lambda>i. W32 (GICD_IGROUPR (of_nat i)) 0xFFFFFFFF) [1..<it_lines]
         @ map (\<lambda>i. W32 (GICD_ICFGR (of_nat i)) 0) [2..<it_lines * 2]
         @ map (\<lambda>i. W32 (GICD_IPRIORITYR (of_nat i)) 0xA0A0A0A0) [8..<it_lines * 8]
         @ map (\<lambda>i. W32 (GICD_ICENABLER (of_nat i)) 0xFFFFFFFF) [1..<it_lines]
         @ [W32 GICD_CTLR (GICD_CTLR_EN_GRP1NS OR GICD_CTLR_ARE_NS)]
         @ [W32 GICR_WAKER (waker AND NOT GICR_WAKER_PSLEEP)]
         @ [W32 GICR_IGROUPR0 0xFFFFFFFF]
         @ map (\<lambda>i. W32 (GICR_IPRIORITYR (of_nat i)) 0xA0A0A0A0) [0..<8]
         @ [Icc ICC_SRE 7, Icc ICC_PMR 0xFF, Icc ICC_BPR1 0, Icc ICC_IGRPEN1 1])"

definition gic_enable_irq :: "u32 \<Rightarrow> reg_write list" where
  "gic_enable_irq irq_id =
     (let reg = irq_id div 32; bit = irq_id mod 32
      in if irq_id < 32 then [W32 GICR_ISENABLER0 (push_bit (unat bit) 1)]
         else [W32 (GICD_ISENABLER reg) (push_bit (unat bit) 1)])"

definition prio_reg :: "u32 \<Rightarrow> u64" where
  "prio_reg irq_id = (if irq_id < 32 then GICR_IPRIORITYR (irq_id div 4) else GICD_IPRIORITYR (irq_id div 4))"

definition gic_set_priority :: "(u64 \<Rightarrow> u32) \<Rightarrow> u32 \<Rightarrow> u8 \<Rightarrow> reg_write list" where
  "gic_set_priority rd irq_id prio =
     (let shift = unat ((irq_id mod 4) * 8); addr = prio_reg irq_id
      in [W32 addr ((rd addr AND NOT (push_bit shift 0xFF)) OR push_bit shift (ucast prio))])"

definition gic_eoi :: "u32 \<Rightarrow> reg_write list" where
  "gic_eoi irq_id = [Icc ICC_EOIR1 (ucast irq_id)]"

section \<open>Timer\<close>

definition TIMER_IRQ_ID :: u32 where "TIMER_IRQ_ID = 30"
definition CNTP_CTL_ENABLE :: u64 where "CNTP_CTL_ENABLE = 1"

record timer =
  ticks_per_ms :: u64
  tick_interval :: u32
  start_count :: u64

text \<open>\<open>freq\<close> is the counter frequency, \<open>count\<close> the counter at that moment.\<close>

definition timer_init :: "(u64 \<Rightarrow> u32) \<Rightarrow> u64 \<Rightarrow> u64 \<Rightarrow> u32 \<Rightarrow> timer \<times> reg_write list" where
  "timer_init rd freq count interval_ms =
     (let t = \<lparr>ticks_per_ms = freq div 1000, tick_interval = ucast (freq div 1000 * ucast interval_ms), start_count = count\<rparr>
      in (t, gic_set_priority rd TIMER_IRQ_ID 0xA0 @ gic_enable_irq TIMER_IRQ_ID
             @ [Cntp_tval (ucast (tick_interval t)), Cntp_ctl CNTP_CTL_ENABLE]))"

definition timer_rearm :: "timer \<Rightarrow> reg_write list" where
  "timer_rearm t = [Cntp_tval (ucast (tick_interval t))]"

text \<open>Division by zero gives 0, as the processor's does.\<close>

definition timer_ms :: "timer \<Rightarrow> u64 \<Rightarrow> u64" where
  "timer_ms t count = (count - start_count t) div ticks_per_ms t"

definition timer_get_interval :: "timer \<Rightarrow> u32" where
  "timer_get_interval t = tick_interval t"

section \<open>Properties\<close>

lemma unat_ucast64 [simp]: "unat (ucast (x :: u32) :: u64) = unat x"
proof -
  have "unat x < 2 ^ 32" using unsigned_less [of x] by simp
  then show ?thesis by (simp add: unat_ucast)
qed

text \<open>The byte of a priority register that belongs to an interrupt.\<close>

definition prio_byte :: "nat \<Rightarrow> u32 \<Rightarrow> u8" where
  "prio_byte lane v = ucast (drop_bit (8 * lane) v)"

text \<open>
  setting a priority writes one register, whose byte for the interrupt becomes the priority
  while the three other interrupts that share it keep theirs; the byte is the one the controller's
  layout assigns, number \<open>irq_id\<close> of the priority array of its bank.
\<close>

theorem gic_set_priority_lane:
  assumes "irq_id < 1020"
  shows "\<exists>v. gic_set_priority rd irq_id prio = [W32 (prio_reg irq_id) v]
     \<and> prio_byte (unat irq_id mod 4) v = prio
     \<and> (\<forall>lane < 4. lane \<noteq> unat irq_id mod 4 \<longrightarrow> prio_byte lane v = prio_byte lane (rd (prio_reg irq_id)))
     \<and> prio_reg irq_id + of_nat (unat irq_id mod 4)
         = (if irq_id < 32 then GICR_SGI_BASE else GICD_BASE) + 0x400 + ucast irq_id"
proof -
  let ?l = "unat irq_id mod 4" and ?r = "rd (prio_reg irq_id)"
  define v :: u32 where "v = (?r AND NOT (push_bit (8 * ?l) 0xFF)) OR push_bit (8 * ?l) (ucast prio)"
  have l: "?l < 4" by simp
  have sh: "unat ((irq_id mod 4) * 8) = 8 * ?l"
    by (simp add: unat_word_ariths unat_mod_distrib)
  have ff: "(0xFF :: u32) = mask 8" by (simp add: mask_eq_exp_minus_1)
  have bits: "bit v n \<longleftrightarrow> (if 8 * ?l \<le> n \<and> n < 8 * ?l + 8 then bit prio (n - 8 * ?l) else bit ?r n)" if n: "n < 32" for n
    unfolding v_def ff using n l by (auto simp: bit_simps dest: bit_imp_le_length)
  have lane: "bit (prio_byte k v) n \<longleftrightarrow> (if k = ?l then bit prio n else bit (prio_byte k ?r) n)" if k: "k < 4" and n: "n < 8" for k n
  proof -
    have "8 * k + n < 32" using k n by simp
    moreover have "(8 * ?l \<le> 8 * k + n \<and> 8 * k + n < 8 * ?l + 8) \<longleftrightarrow> k = ?l" using n by linarith
    ultimately show ?thesis using n by (simp add: prio_byte_def bit_simps bits add.commute)
  qed
  have "prio_byte ?l v = prio" by (rule bit_eqI) (use lane [OF l] in simp)
  moreover have "prio_byte k v = prio_byte k ?r" if "k < 4" "k \<noteq> ?l" for k by (rule bit_eqI) (use lane that in simp)
  moreover have "ucast (4 * (irq_id div 4)) + of_nat ?l = (ucast irq_id :: u64)"
  proof -
    have u: "unat irq_id < 1020" using assms by (simp add: word_less_nat_alt)
    have "unat (4 * (irq_id div 4)) = 4 * (unat irq_id div 4)" using u by (simp add: unat_word_ariths unat_div_distrib)
    then have "unat (ucast (4 * (irq_id div 4)) + of_nat ?l :: u64) = 4 * (unat irq_id div 4) + ?l"
      using u by (simp add: unat_word_ariths unat_of_nat)
    then show ?thesis using u by (simp add: word_unat_eq_iff)
  qed
  then have "prio_reg irq_id + of_nat ?l = (if irq_id < 32 then GICR_SGI_BASE else GICD_BASE) + 0x400 + ucast irq_id"
    by (simp add: prio_reg_def GICR_IPRIORITYR_def GICD_IPRIORITYR_def add.assoc)
  ultimately show ?thesis by (intro exI [of _ v]) (simp add: gic_set_priority_def Let_def sh v_def)
qed

theorem gic_set_priority_lane_witness:
  "\<exists>v. gic_set_priority (\<lambda>_. 0x11223344) 35 0xA0 = [W32 (prio_reg 35) v] \<and> prio_byte 3 v = 0xA0 \<and> prio_byte 0 v = 0x44"
proof -
  have "(35 :: u32) < 1020" by simp
  from gic_set_priority_lane [OF this, of "\<lambda>_. 0x11223344" "0xA0"] obtain v where
    v: "gic_set_priority (\<lambda>_. 0x11223344) 35 0xA0 = [W32 (prio_reg 35) v]" "prio_byte 3 v = 0xA0"
    "\<forall>lane < 4. lane \<noteq> 3 \<longrightarrow> prio_byte lane v = prio_byte lane 0x11223344" by auto
  have "prio_byte 0 v = prio_byte 0 0x11223344" using v(3) by simp
  then show ?thesis using v(1,2) by (simp add: prio_byte_def)
qed

end
