(* ===== verification/Irq.thy ===== *)
theory Irq
  imports Gic Kernel
begin

text \<open>
  Interrupt dispatch and faults of user programs, \<^verbatim>\<open>src/irq.c\<close>, with the end of the entry code in
  \<^verbatim>\<open>src/el0_entry.S\<close> that calls the fault handler. The interrupt a read of the acknowledge register
  gives, the interrupt status of a device and the priority registers are parameters.
\<close>

section \<open>State\<close>

text \<open>The flags that tell the main loop which device has something to do.\<close>

datatype irq_flag = Irq_rng | Irq_blk | Irq_net_rx | Irq_gpu | Irq_input

definition MAX_IRQ_DEVS :: nat where "MAX_IRQ_DEVS = 8"

record irq_dev_entry =
  isr_cfg :: u64
  flag :: irq_flag
  irq_id :: u32
  active :: bool

record irqs =
  irq_pending :: "irq_flag \<Rightarrow> bool"
  irq_timer_ticks :: u64
  timer_registered :: bool
  irq_devs :: "irq_dev_entry list"
  irq_dev_count :: nat

definition irq_init :: "irqs \<Rightarrow> irqs" where
  "irq_init s = \<lparr>irq_pending = (\<lambda>_. False), irq_timer_ticks = 0, timer_registered = False,
     irq_devs = map (\<lambda>e. e\<lparr>active := False\<rparr>) (irq_devs s), irq_dev_count = 0\<rparr>"

definition register_dev :: "(u64 \<Rightarrow> u32) \<Rightarrow> u64 \<Rightarrow> irq_flag \<Rightarrow> u32 \<Rightarrow> irqs \<Rightarrow> irqs \<times> reg_write list" where
  "register_dev rd isr f irq s =
     (if irq_dev_count s \<ge> MAX_IRQ_DEVS then (s, [])
      else (s\<lparr>irq_devs := (irq_devs s)[irq_dev_count s := \<lparr>isr_cfg = isr, flag = f, irq_id = irq, active = True\<rparr>],
              irq_dev_count := irq_dev_count s + 1\<rparr>,
            gic_set_priority rd irq 0xA0 @ gic_enable_irq irq))"

definition irq_register_rng :: "(u64 \<Rightarrow> u32) \<Rightarrow> u64 \<Rightarrow> u32 \<Rightarrow> irqs \<Rightarrow> irqs \<times> reg_write list" where
  "irq_register_rng rd isr irq s = register_dev rd isr Irq_rng irq s"

definition irq_register_blk :: "(u64 \<Rightarrow> u32) \<Rightarrow> u64 \<Rightarrow> u32 \<Rightarrow> irqs \<Rightarrow> irqs \<times> reg_write list" where
  "irq_register_blk rd isr irq s = register_dev rd isr Irq_blk irq s"

definition irq_register_net :: "(u64 \<Rightarrow> u32) \<Rightarrow> u64 \<Rightarrow> u32 \<Rightarrow> irqs \<Rightarrow> irqs \<times> reg_write list" where
  "irq_register_net rd isr irq s = register_dev rd isr Irq_net_rx irq s"

definition irq_register_gpu :: "(u64 \<Rightarrow> u32) \<Rightarrow> u64 \<Rightarrow> u32 \<Rightarrow> irqs \<Rightarrow> irqs \<times> reg_write list" where
  "irq_register_gpu rd isr irq s = register_dev rd isr Irq_gpu irq s"

definition irq_register_input :: "(u64 \<Rightarrow> u32) \<Rightarrow> u64 \<Rightarrow> u32 \<Rightarrow> irqs \<Rightarrow> irqs \<times> reg_write list" where
  "irq_register_input rd isr irq s = register_dev rd isr Irq_input irq s"

definition irq_register_timer :: "irqs \<Rightarrow> irqs" where
  "irq_register_timer s = s\<lparr>timer_registered := True\<rparr>"

section \<open>Interrupts\<close>

text \<open>
  The loop over the registered devices: reading the status of a device on the line acknowledges it.
  The result is the new state and the status registers read.
\<close>

fun walk_devs :: "u32 \<Rightarrow> (u64 \<Rightarrow> u8) \<Rightarrow> irq_dev_entry list \<Rightarrow> irqs \<Rightarrow> irqs \<times> u64 list" where
  "walk_devs iar isr [] s = (s, [])"
| "walk_devs iar isr (e # es) s =
     (if \<not> active e \<or> irq_id e \<noteq> iar then walk_devs iar isr es s
      else
        let s = (if isr (isr_cfg e) AND 1 \<noteq> 0 then s\<lparr>irq_pending := (irq_pending s)(flag e := True)\<rparr> else s);
            (s, rs) = walk_devs iar isr es s
        in (s, isr_cfg e # rs))"

text \<open>
  The registers written come before the call of the scheduler, which is the last thing the handler does.
\<close>

definition irq_handler :: "image \<Rightarrow> timer \<Rightarrow> u32 \<Rightarrow> (u64 \<Rightarrow> u8) \<Rightarrow> irqs \<times> kernel \<Rightarrow> (irqs \<times> kernel) \<times> u64 list \<times> reg_write list" where
  "irq_handler im t iar isr c =
     (let (s, k) = c in
      if iar \<ge> 1020 then ((s, k), [], [])
      else if iar = TIMER_IRQ_ID \<and> timer_registered s then
        ((s\<lparr>irq_timer_ticks := irq_timer_ticks s + 1\<rparr>, sched_tick im k), [], timer_rearm t @ gic_eoi iar)
      else if iar = TIMER_IRQ_ID \<and> \<not> timer_registered s then ((s, k), [], gic_eoi iar)
      else
        let (s, rs) = walk_devs iar isr (take (irq_dev_count s) (irq_devs s)) s
        in ((s, k), rs, gic_eoi iar))"

section \<open>Faults\<close>

text \<open>The message of the handler, from the exception syndrome.\<close>

definition fault_message :: "u64 \<Rightarrow> string" where
  "fault_message esr =
     (let ec = drop_bit 26 esr AND 0x3F in
      if ec = 0x20 \<or> ec = 0x21 then ''instruction abort at ''
      else if ec = 0x24 \<or> ec = 0x25 then
        (let dfsc = esr AND 0x3F in
         if 0x04 \<le> dfsc \<and> dfsc \<le> 0x07 then ''SEGFAULT (translation fault) accessing ''
         else if 0x0C \<le> dfsc \<and> dfsc \<le> 0x0F then ''SEGFAULT (permission fault) accessing ''
         else ''data abort accessing '')
      else ''unhandled exception EC='')"

text \<open>
  With a handler installed the signal is posted and the function returns, to code that does nothing
  but branch to itself (\<open>Spins\<close>). Otherwise the task ends and another one runs.
\<close>

datatype fault_outcome = Spins kernel | Switches kernel

definition unhandled_sync_el0 :: "image \<Rightarrow> kernel \<Rightarrow> fault_outcome option" where
  "unhandled_sync_el0 im k =
     (case sched_get_task (int (sched_current_id k)) k of
        Some i \<Rightarrow>
          if SIG_IGN < handlers (sig (task_at k i)) ! SIGSEGV
          then Some (Spins (snd (signal_send (int (sched_current_id k)) (int SIGSEGV) k)))
          else map_option Switches (sched_exit im k)
      | None \<Rightarrow> map_option Switches (sched_exit im k))"

end
