(* ===== verification/IrqSpec.thy ===== *)
theory IrqSpec
  imports Irq KernelSpec
begin

text \<open>
  Interrupts and faults keep the kernel consistent; an interrupt is ended exactly once and flags
  exactly the devices that raised it; a fault ends the process, unless it has installed a handler
  for it, in which case the processor stops for good.
\<close>

section \<open>Interrupts\<close>

definition on_line :: "u32 \<Rightarrow> irq_dev_entry \<Rightarrow> bool" where
  "on_line iar e \<longleftrightarrow> active e \<and> irq_id e = iar"

lemma walk_devs_result:
  "walk_devs iar isr es s =
     (s\<lparr>irq_pending := (\<lambda>f. irq_pending s f \<or> (\<exists>e \<in> set es. on_line iar e \<and> flag e = f \<and> isr (isr_cfg e) AND 1 \<noteq> 0))\<rparr>,
      map isr_cfg (filter (on_line iar) es))"
proof (induction es arbitrary: s)
  case (Cons e es)
  then show ?case by (auto simp: on_line_def Let_def fun_eq_iff intro!: irqs.equality)
qed simp

text \<open>
  C32: every acknowledged interrupt is ended exactly once. A timer interrupt counts a tick, rearms the
  timer before the end of the interrupt and lets the scheduler run; any other interrupt reads the
  status of exactly the devices registered on its line and flags those with a used-buffer
  notification; in all cases the kernel invariant is kept.
\<close>

theorem irq_handler_result:
  assumes inv: "kernel_inv im (K, k)" and r: "irq_handler im t iar isr (s, k) = ((s', k'), rs, ws)"
  defines "devs \<equiv> take (irq_dev_count s) (irq_devs s)"
  shows "kernel_inv im (K, k')
    \<and> (1020 \<le> iar \<longrightarrow> s' = s \<and> k' = k \<and> rs = [] \<and> ws = [])
    \<and> (iar < 1020 \<longrightarrow> filter (\<lambda>w. \<exists>v. w = Icc ICC_EOIR1 v) ws = [Icc ICC_EOIR1 (ucast iar)])
    \<and> (iar = TIMER_IRQ_ID \<and> timer_registered s \<longrightarrow>
         k' = sched_tick im k \<and> irq_timer_ticks s' = irq_timer_ticks s + 1 \<and> ws = [Cntp_tval (ucast (tick_interval t)), Icc ICC_EOIR1 (ucast iar)])
    \<and> (iar < 1020 \<and> iar \<noteq> TIMER_IRQ_ID \<longrightarrow>
         k' = k \<and> rs = map isr_cfg (filter (on_line iar) devs)
         \<and> (\<forall>f. irq_pending s' f \<longleftrightarrow> irq_pending s f \<or> (\<exists>e \<in> set devs. on_line iar e \<and> flag e = f \<and> isr (isr_cfg e) AND 1 \<noteq> 0)))"
proof -
  have tick: "kernel_inv im (K, sched_tick im k)" by (rule kernel_inv_step [OF inv kstep.tick])
  consider "1020 \<le> iar" | "iar < 1020" "iar = TIMER_IRQ_ID" | "iar < 1020" "iar \<noteq> TIMER_IRQ_ID" by (meson linorder_not_le)
  then show ?thesis
  proof cases
    case 1
    then have "\<not> iar < 1020" "iar \<noteq> TIMER_IRQ_ID" by (auto simp: TIMER_IRQ_ID_def)
    then show ?thesis using 1 r inv by (auto simp: irq_handler_def)
  next
    case 2
    then show ?thesis using r inv tick
      by (cases "timer_registered s") (auto simp: irq_handler_def TIMER_IRQ_ID_def timer_rearm_def gic_eoi_def)
  next
    case 3
    then have "\<not> 1020 \<le> iar" by simp
    then have "s' = s\<lparr>irq_pending := (\<lambda>f. irq_pending s f \<or> (\<exists>e \<in> set devs. on_line iar e \<and> flag e = f \<and> isr (isr_cfg e) AND 1 \<noteq> 0))\<rparr>"
      "k' = k" "rs = map isr_cfg (filter (on_line iar) devs)" "ws = [Icc ICC_EOIR1 (ucast iar)]"
      using r 3 by (simp_all add: irq_handler_def walk_devs_result devs_def gic_eoi_def)
    then show ?thesis using 3 inv by simp
  qed
qed

definition demo_irqs :: irqs where
  "demo_irqs = \<lparr>irq_pending = (\<lambda>_. False), irq_timer_ticks = 0, timer_registered = True,
     irq_devs = [\<lparr>isr_cfg = 0x1000, flag = Irq_blk, irq_id = 35, active = True\<rparr>, \<lparr>isr_cfg = 0x2000, flag = Irq_gpu, irq_id = 35, active = True\<rparr>],
     irq_dev_count = 2\<rparr>"

theorem irq_handler_result_witness:
  "\<exists>k s' rs ws. irq_handler demo_im \<lparr>ticks_per_ms = 1, tick_interval = 10, start_count = 0\<rparr> 35 (\<lambda>a. if a = 0x1000 then 1 else 0) (demo_irqs, k)
      = ((s', k), rs, ws) \<and> irq_pending s' Irq_blk \<and> \<not> irq_pending s' Irq_gpu \<and> rs = [0x1000, 0x2000] \<and> kernel_inv demo_im (demo_K, k)"
proof -
  obtain k where inv: "kernel_inv demo_im (demo_K, k)" using demo_two by metis
  let ?t = "\<lparr>ticks_per_ms = 1, tick_interval = 10, start_count = 0\<rparr>" and ?isr = "\<lambda>a :: u64. if a = 0x1000 then 1 else 0 :: u8"
  obtain s' k' rs ws where r: "irq_handler demo_im ?t 35 ?isr (demo_irqs, k) = ((s', k'), rs, ws)" by (metis prod.collapse)
  have n: "(35 :: u32) < 1020" "(35 :: u32) \<noteq> TIMER_IRQ_ID" by (simp_all add: TIMER_IRQ_ID_def)
  have d: "take (irq_dev_count demo_irqs) (irq_devs demo_irqs)
      = [\<lparr>isr_cfg = 0x1000, flag = Irq_blk, irq_id = 35, active = True\<rparr>, \<lparr>isr_cfg = 0x2000, flag = Irq_gpu, irq_id = 35, active = True\<rparr>]"
    by (simp add: demo_irqs_def)
  note h = irq_handler_result [OF inv r]
  have f: "k' = k" "rs = map isr_cfg (filter (on_line 35) (take (irq_dev_count demo_irqs) (irq_devs demo_irqs)))"
    "\<forall>f. irq_pending s' f \<longleftrightarrow> irq_pending demo_irqs f \<or> (\<exists>e \<in> set (take (irq_dev_count demo_irqs) (irq_devs demo_irqs)). on_line 35 e \<and> flag e = f \<and> ?isr (isr_cfg e) AND 1 \<noteq> 0)"
    using h n by blast+
  note g = f(2,3) [unfolded d]
  show ?thesis using r f(1) inv
    by (intro exI [of _ k] exI [of _ s'] exI [of _ rs] exI [of _ ws]) (simp add: g on_line_def, simp add: demo_irqs_def)
qed

section \<open>Faults\<close>

lemma sched_exit_returns:
  assumes inv: "kernel_inv im (K, k)"
  shows "\<exists>k'. sched_exit im k = Some k' \<and> kernel_inv im (K, k')"
proof -
  obtain own where o: "proc_inv K own k" "table_ok im k" "current_task k < num_tasks k" using kernel_invE [OF inv] by metis
  have fd: "fd_inv (tabs k) (fds k)" using o(1) by (simp add: proc_inv_def)
  have c: "current_task k < length (tabs k)" using o(3) by (simp add: tabs_def)
  obtain s where s: "fd_table_destroy (tabs k ! current_task k) (fds k) = Some (replicate MAX_FDS_PER_TASK None, s)"
    using fd_table_destroy_inv [OF fd c] by metis
  let ?k = "upd_task (current_task k) (\<lambda>t. t\<lparr>tstate := TASK_FINISHED\<rparr>) k"
  have "fdt (task_at ?k (current_task k)) = tabs k ! current_task k" "fds ?k = fds k"
    using cur_less [OF o(2)] o(3) by (simp_all add: task_at_upd tabs_nth)
  then obtain k' where "sched_exit im k = Some k'" using s by (simp add: sched_exit_def Let_def)
  then show ?thesis using kernel_inv_step [OF inv kstep.exit] by blast
qed

text \<open>
  C16: a fault of a task that has no handler for SIGSEGV ends the task, and another one runs. If the
  task has installed a handler, the signal is recorded, the task stays the running one and the
  processor spins in the kernel: the handler is never entered and no other task runs again.
\<close>

theorem fault_result:
  assumes inv: "kernel_inv im (K, k)" and z: "current_task k \<noteq> 0"
  defines "c \<equiv> current_task k"
  shows "if SIG_IGN < handlers (sig (task_at k c)) ! SIGSEGV
    then (\<exists>k'. unhandled_sync_el0 im k = Some (Spins k') \<and> current_task k' = c \<and> tstate (task_at k' c) = tstate (task_at k c)
      \<and> bit (pending (sig (task_at k' c))) SIGSEGV \<and> kernel_inv im (K, k'))
    else (\<exists>k'. unhandled_sync_el0 im k = Some (Switches k') \<and> current_task k' \<noteq> c \<and> tstate (task_at k' c) = TASK_FINISHED
      \<and> kernel_inv im (K, k'))"
proof -
  obtain own where o: "sched_inv im k" "table_ok im k" "c < num_tasks k" using kernel_invE [OF inv] unfolding c_def by metis
  have run: "tstate (task_at k c) = TASK_RUNNING" using o(1) z by (simp add: sched_inv_def c_def)
  have len: "c < length (tasks k)" using cur_less [OF o(2)] by (simp add: c_def)
  have g: "sched_get_task (int (sched_current_id k)) k = Some c"
    using o(3) by (simp add: sched_get_task_def sched_current_id_def c_def)
  show ?thesis
  proof (cases "SIG_IGN < handlers (sig (task_at k c)) ! SIGSEGV")
    case True
    let ?k = "upd_task c (\<lambda>t. t\<lparr>sig := (sig t)\<lparr>pending := pending (sig t) OR push_bit SIGSEGV 1\<rparr>\<rparr>) k"
    have s: "signal_send (int (sched_current_id k)) (int SIGSEGV) k = (0, ?k)"
      using g run len by (simp add: signal_send_def SIGSEGV_def NSIG_def task_at_upd)
    then have u: "unhandled_sync_el0 im k = Some (Spins ?k)" using g True by (simp add: unhandled_sync_el0_def)
    have "kernel_inv im (K, ?k)" by (rule kernel_inv_step [OF inv kstep.send [OF s]])
    then show ?thesis using True u len
      by (simp add: task_at_upd c_def bit_simps SIGSEGV_def)
  next
    case False
    obtain k' where x: "sched_exit im k = Some k'" "kernel_inv im (K, k')" using sched_exit_returns [OF inv] by blast
    then have "unhandled_sync_el0 im k = Some (Switches k')" using g False by (simp add: unhandled_sync_el0_def)
    then show ?thesis using False x(2) sched_exit_finishes [OF o(1) x(1) z] by (simp add: c_def)
  qed
qed

text \<open>The first process of the demonstration state, once with a handler and once without.\<close>

theorem fault_result_witness:
  "\<exists>k k'. kernel_inv demo_im (demo_K, k) \<and> is_user (task_at k 1) \<and> unhandled_sync_el0 demo_im k = Some (Spins k') \<and> current_task k' = 1"
proof -
  obtain k0 where k0: "current_task k0 = 1" "is_user (task_at k0 1)" and inv0: "kernel_inv demo_im (demo_K, k0)"
    using demo_two by metis
  let ?ss = "\<lparr>handlers = replicate 32 0x400100, pending = 0\<rparr>"
  define k where "k = upd_task (current_task k0) (\<lambda>t. t\<lparr>sig := ?ss\<rparr>) k0"
  have inv: "kernel_inv demo_im (demo_K, k)" using kernel_inv_step [OF inv0 kstep.signal_state] by (simp add: k_def)
  obtain own where "table_ok demo_im k0" using kernel_invE [OF inv0] by metis
  from cur_less [OF this] have at: "task_at k 1 = (task_at k0 1)\<lparr>sig := ?ss\<rparr>" "current_task k = 1"
    using k0(1) by (simp_all add: k_def task_at_upd)
  have h: "SIG_IGN < handlers (sig (task_at k 1)) ! SIGSEGV" unfolding at(1) by (simp add: SIG_IGN_def SIGSEGV_def)
  have z: "current_task k \<noteq> 0" using at(2) by simp
  obtain k' where "unhandled_sync_el0 demo_im k = Some (Spins k')" "current_task k' = 1"
    using fault_result [OF inv z] h unfolding at(2) by (metis (full_types))
  then show ?thesis using inv k0(2) unfolding at(1) [symmetric] by (intro exI [of _ k] exI [of _ k']) (simp add: at(1) del: One_nat_def)
qed

end
