(* ===== verification/Machine.thy ===== *)
theory Machine
  imports Prelude "HOL-Library.State_Monad"
begin

text \<open>
  Device registers, the accessors of \<^verbatim>\<open>src/types.h\<close>: a bus answers every access with a value and may
  change the devices behind it. Driver code that talks to devices is written in the state monad over
  a machine, which also holds the allocators that initialisation uses.
\<close>

datatype mmio_op = R8 u64 | R16 u64 | R32 u64 | W8 u64 u8 | W16 u64 u16 | W32 u64 u32

type_synonym 'd bus = "mmio_op \<Rightarrow> 'd \<Rightarrow> u32 \<times> 'd"

record 'd machine =
  hw :: 'd
  mmio32_alloc :: u64
  pio_alloc :: u64
  next_queue_slot :: nat

definition access :: "'d bus \<Rightarrow> mmio_op \<Rightarrow> ('d machine, u32) state" where
  "access b op = State (\<lambda>m. case b op (hw m) of (v, h) \<Rightarrow> (v, m\<lparr>hw := h\<rparr>))"

definition mmio_read8 :: "'d bus \<Rightarrow> u64 \<Rightarrow> ('d machine, u8) state" where
  "mmio_read8 b a = do { v \<leftarrow> access b (R8 a); State_Monad.return (ucast v) }"

definition mmio_read16 :: "'d bus \<Rightarrow> u64 \<Rightarrow> ('d machine, u16) state" where
  "mmio_read16 b a = do { v \<leftarrow> access b (R16 a); State_Monad.return (ucast v) }"

definition mmio_read32 :: "'d bus \<Rightarrow> u64 \<Rightarrow> ('d machine, u32) state" where
  "mmio_read32 b a = access b (R32 a)"

definition mmio_write8 :: "'d bus \<Rightarrow> u64 \<Rightarrow> u8 \<Rightarrow> ('d machine, unit) state" where
  "mmio_write8 b a v = do { _ \<leftarrow> access b (W8 a v); State_Monad.return () }"

definition mmio_write16 :: "'d bus \<Rightarrow> u64 \<Rightarrow> u16 \<Rightarrow> ('d machine, unit) state" where
  "mmio_write16 b a v = do { _ \<leftarrow> access b (W16 a v); State_Monad.return () }"

definition mmio_write32 :: "'d bus \<Rightarrow> u64 \<Rightarrow> u32 \<Rightarrow> ('d machine, unit) state" where
  "mmio_write32 b a v = do { _ \<leftarrow> access b (W32 a v); State_Monad.return () }"

lemmas mmio_defs = mmio_read8_def mmio_read16_def mmio_read32_def mmio_write8_def mmio_write16_def mmio_write32_def

text \<open>A bus that also records the accesses it has seen, reads with their answers.\<close>

fun is_write :: "mmio_op \<Rightarrow> bool" where
  "is_write (W8 a v) = True"
| "is_write (W16 a v) = True"
| "is_write (W32 a v) = True"
| "is_write op = False"

definition logged :: "'d bus \<Rightarrow> ('d \<times> (mmio_op \<times> u32) list) bus" where
  "logged b op h = (case b op (fst h) of (v, d) \<Rightarrow> (v, (d, snd h @ [(op, if is_write op then 0 else v)])))"

lemma access_logged:
  "run_state (access (logged b) op) m =
     (fst (b op (fst (hw m))), m\<lparr>hw := (snd (b op (fst (hw m))), snd (hw m) @ [(op, if is_write op then 0 else fst (b op (fst (hw m))))])\<rparr>)"
  by (simp add: access_def logged_def split: prod.splits)

end
