(* ===== verification/Pci.thy ===== *)
theory Pci
  imports Machine
begin

text \<open>
  PCI devices, \<^verbatim>\<open>src/pci.c\<close>: configuration space, address windows for base address registers, and the
  search for virtio devices on bus 0.
\<close>

section \<open>Configuration space\<close>

definition PCI_ECAM_BASE :: u64 where "PCI_ECAM_BASE = 0x4010000000 + KERN_VA_OFFSET"
definition PCI_MMIO32_BASE_PA :: u64 where "PCI_MMIO32_BASE_PA = 0x10000000"
definition PCI_PIO_BASE_PA :: u64 where "PCI_PIO_BASE_PA = 0x3EFF0000"
definition PCI_VENDOR_ID :: u16 where "PCI_VENDOR_ID = 0x00"
definition PCI_DEVICE_ID :: u16 where "PCI_DEVICE_ID = 0x02"
definition PCI_COMMAND :: u16 where "PCI_COMMAND = 0x04"
definition PCI_CLASS_REVISION :: u16 where "PCI_CLASS_REVISION = 0x08"
definition PCI_BAR0 :: u16 where "PCI_BAR0 = 0x10"
definition PCI_SUBSYSTEM :: u16 where "PCI_SUBSYSTEM = 0x2C"
definition PCI_INTERRUPT_PIN :: u16 where "PCI_INTERRUPT_PIN = 0x3D"
definition PCI_CMD_IO :: u16 where "PCI_CMD_IO = 1"
definition PCI_CMD_MEMORY :: u16 where "PCI_CMD_MEMORY = 2"
definition PCI_CMD_BUS_MASTER :: u16 where "PCI_CMD_BUS_MASTER = 4"
definition VIRTIO_PCI_VENDOR :: u16 where "VIRTIO_PCI_VENDOR = 0x1AF4"

definition pci_ecam_addr :: "u8 \<Rightarrow> u8 \<Rightarrow> u8 \<Rightarrow> u16 \<Rightarrow> u64" where
  "pci_ecam_addr bus dev func offset =
     PCI_ECAM_BASE OR push_bit 20 (ucast bus) OR push_bit 15 (ucast dev) OR push_bit 12 (ucast func) OR ucast offset"

definition pci_config_read32 :: "'d bus \<Rightarrow> u8 \<Rightarrow> u8 \<Rightarrow> u8 \<Rightarrow> u16 \<Rightarrow> ('d machine, u32) state" where
  "pci_config_read32 b bus dev func offset = mmio_read32 b (pci_ecam_addr bus dev func offset)"

definition pci_config_read16 :: "'d bus \<Rightarrow> u8 \<Rightarrow> u8 \<Rightarrow> u8 \<Rightarrow> u16 \<Rightarrow> ('d machine, u16) state" where
  "pci_config_read16 b bus dev func offset = mmio_read16 b (pci_ecam_addr bus dev func offset)"

definition pci_config_read8 :: "'d bus \<Rightarrow> u8 \<Rightarrow> u8 \<Rightarrow> u8 \<Rightarrow> u16 \<Rightarrow> ('d machine, u8) state" where
  "pci_config_read8 b bus dev func offset = mmio_read8 b (pci_ecam_addr bus dev func offset)"

definition pci_config_write32 :: "'d bus \<Rightarrow> u8 \<Rightarrow> u8 \<Rightarrow> u8 \<Rightarrow> u16 \<Rightarrow> u32 \<Rightarrow> ('d machine, unit) state" where
  "pci_config_write32 b bus dev func offset v = mmio_write32 b (pci_ecam_addr bus dev func offset) v"

definition pci_config_write16 :: "'d bus \<Rightarrow> u8 \<Rightarrow> u8 \<Rightarrow> u8 \<Rightarrow> u16 \<Rightarrow> u16 \<Rightarrow> ('d machine, unit) state" where
  "pci_config_write16 b bus dev func offset v = mmio_write16 b (pci_ecam_addr bus dev func offset) v"

section \<open>Address windows\<close>

record pci_device =
  bus :: u8
  dev :: u8
  func :: u8
  vendor_id :: u16
  device_id :: u16
  irq_pin :: u8
  bar :: "u32 list"
  bar_addr :: "u64 list"

text \<open>Rounding up to a multiple of \<open>sz\<close>, for a power of two.\<close>

definition align_to :: "u64 \<Rightarrow> u32 \<Rightarrow> u64" where
  "align_to a sz = (a + ucast sz - 1) AND NOT (ucast sz - 1)"

definition alloc_mmio32 :: "u32 \<Rightarrow> ('d machine, u64) state" where
  "alloc_mmio32 sz = do {
     m \<leftarrow> State_Monad.get;
     let addr = align_to (mmio32_alloc m) sz;
     State_Monad.set (m\<lparr>mmio32_alloc := addr + ucast sz\<rparr>);
     State_Monad.return addr }"

definition alloc_pio :: "u32 \<Rightarrow> ('d machine, u64) state" where
  "alloc_pio sz = do {
     m \<leftarrow> State_Monad.get;
     let addr = align_to (pio_alloc m) sz;
     State_Monad.set (m\<lparr>pio_alloc := addr + ucast sz\<rparr>);
     State_Monad.return addr }"

definition set_bar :: "nat \<Rightarrow> u32 \<Rightarrow> u64 \<Rightarrow> pci_device \<Rightarrow> pci_device" where
  "set_bar i v a d = d\<lparr>bar := (bar d)[i := v], bar_addr := (bar_addr d)[i := a]\<rparr>"

text \<open>
  The loop over the six registers, \<open>n\<close> of them left from \<open>i\<close> on. \<open>None\<close>: a 64-bit register in the last
  place, where the code writes behind the array.
\<close>

fun assign_from :: "'d bus \<Rightarrow> nat \<Rightarrow> nat \<Rightarrow> pci_device \<Rightarrow> ('d machine, pci_device option) state" where
  "assign_from b 0 i d = State_Monad.return (Some d)"
| "assign_from b (Suc n) i d = do {
     let off = PCI_BAR0 + of_nat (i * 4);
     orig \<leftarrow> pci_config_read32 b (bus d) (dev d) (func d) off;
     pci_config_write32 b (bus d) (dev d) (func d) off 0xFFFFFFFF;
     sized \<leftarrow> pci_config_read32 b (bus d) (dev d) (func d) off;
     pci_config_write32 b (bus d) (dev d) (func d) off orig;
     if sized = 0 \<or> sized = 0xFFFFFFFF then assign_from b n (Suc i) (set_bar i 0 0 d)
     else if sized AND 1 \<noteq> 0 then do {
       let sz = (NOT (sized AND 0xFFFFFFFC) + 1) AND 0xFFFF;
       addr \<leftarrow> alloc_pio sz;
       let pio_offset = ucast (addr - PCI_PIO_BASE_PA);
       pci_config_write32 b (bus d) (dev d) (func d) off (pio_offset OR 1);
       assign_from b n (Suc i) (set_bar i (pio_offset OR 1) (phys_to_virt addr) d) }
     else do {
       let sz = NOT (sized AND 0xFFFFFFF0) + 1;
       addr \<leftarrow> alloc_mmio32 sz;
       pci_config_write32 b (bus d) (dev d) (func d) off (ucast addr);
       if drop_bit 1 sized AND 3 = 2 then do {
         pci_config_write32 b (bus d) (dev d) (func d) (off + 4) 0;
         if i + 1 < length (bar d)
         then assign_from b (n - 1) (Suc (Suc i)) (set_bar (Suc i) 0 0 (set_bar i (ucast addr) (phys_to_virt addr) d))
         else State_Monad.return None }
       else assign_from b n (Suc i) (set_bar i (ucast addr) (phys_to_virt addr) d) } }"

definition pci_assign_bars :: "'d bus \<Rightarrow> pci_device \<Rightarrow> ('d machine, pci_device option) state" where
  "pci_assign_bars b d = assign_from b 6 0 d"

definition pci_enable_device :: "'d bus \<Rightarrow> pci_device \<Rightarrow> ('d machine, pci_device) state" where
  "pci_enable_device b d = do {
     cmd \<leftarrow> pci_config_read16 b (bus d) (dev d) (func d) PCI_COMMAND;
     let cmd = cmd OR (PCI_CMD_IO OR PCI_CMD_MEMORY OR PCI_CMD_BUS_MASTER);
     let cmd = cmd AND NOT (push_bit 10 1);
     pci_config_write16 b (bus d) (dev d) (func d) PCI_COMMAND cmd;
     pin \<leftarrow> pci_config_read8 b (bus d) (dev d) (func d) PCI_INTERRUPT_PIN;
     State_Monad.return (d\<lparr>irq_pin := pin\<rparr>) }"

definition GIC_SPI :: "u32 \<Rightarrow> u32" where
  "GIC_SPI n = n + 32"

definition pci_get_irq :: "pci_device \<Rightarrow> u32" where
  "pci_get_irq d =
     (if irq_pin d = 0 then 0
      else GIC_SPI (3 + (ucast (irq_pin d) - 1 + ucast (dev d)) mod 4))"

section \<open>Search\<close>

text \<open>What the enumeration prints: slot, vendor, device and class of every device of bus 0.\<close>

fun enumerate_from :: "'d bus \<Rightarrow> nat \<Rightarrow> u8 \<Rightarrow> ('d machine, (u8 \<times> u16 \<times> u16 \<times> u32) list) state" where
  "enumerate_from b 0 slot = State_Monad.return []"
| "enumerate_from b (Suc n) slot = do {
     vendor \<leftarrow> pci_config_read16 b 0 slot 0 PCI_VENDOR_ID;
     if vendor = 0xFFFF then enumerate_from b n (slot + 1)
     else do {
       device \<leftarrow> pci_config_read16 b 0 slot 0 PCI_DEVICE_ID;
       class_rev \<leftarrow> pci_config_read32 b 0 slot 0 PCI_CLASS_REVISION;
       ds \<leftarrow> enumerate_from b n (slot + 1);
       State_Monad.return ((slot, vendor, device, drop_bit 8 class_rev) # ds) } }"

definition pci_enumerate :: "'d bus \<Rightarrow> ('d machine, (u8 \<times> u16 \<times> u16 \<times> u32) list) state" where
  "pci_enumerate b = enumerate_from b 32 0"

text \<open>
  The search for the first virtio device with one of two device numbers; \<open>subsys\<close> says whether the
  subsystem register is read on the way. The result is \<open>None\<close> if assigning the registers fails.
\<close>

fun find_from :: "'d bus \<Rightarrow> u16 \<times> u16 \<Rightarrow> bool \<Rightarrow> nat \<Rightarrow> u8 \<Rightarrow> pci_device \<Rightarrow> ('d machine, (bool \<times> pci_device) option) state" where
  "find_from b ids subsys 0 slot out = State_Monad.return (Some (False, out))"
| "find_from b ids subsys (Suc n) slot out = do {
     vendor \<leftarrow> pci_config_read16 b 0 slot 0 PCI_VENDOR_ID;
     if vendor \<noteq> VIRTIO_PCI_VENDOR then find_from b ids subsys n (slot + 1) out
     else do {
       device \<leftarrow> pci_config_read16 b 0 slot 0 PCI_DEVICE_ID;
       if device \<noteq> fst ids \<and> device \<noteq> snd ids then find_from b ids subsys n (slot + 1) out
       else do {
         _ \<leftarrow> (if subsys then pci_config_read32 b 0 slot 0 PCI_SUBSYSTEM else State_Monad.return 0);
         r \<leftarrow> pci_assign_bars b (out\<lparr>bus := 0, dev := slot, func := 0, vendor_id := vendor, device_id := device\<rparr>);
         case r of
           None \<Rightarrow> State_Monad.return None
         | Some d \<Rightarrow> do { d \<leftarrow> pci_enable_device b d; State_Monad.return (Some (True, d)) } } } }"

definition pci_find_virtio_rng :: "'d bus \<Rightarrow> pci_device \<Rightarrow> ('d machine, (bool \<times> pci_device) option) state" where
  "pci_find_virtio_rng b out = find_from b (0x1005, 0x1044) True 32 0 out"

definition pci_find_virtio_blk :: "'d bus \<Rightarrow> pci_device \<Rightarrow> ('d machine, (bool \<times> pci_device) option) state" where
  "pci_find_virtio_blk b out = find_from b (0x1001, 0x1042) False 32 0 out"

definition pci_find_virtio_gpu :: "'d bus \<Rightarrow> pci_device \<Rightarrow> ('d machine, (bool \<times> pci_device) option) state" where
  "pci_find_virtio_gpu b out = find_from b (0x1050, 0x1050) False 32 0 out"

definition pci_find_virtio_net :: "'d bus \<Rightarrow> pci_device \<Rightarrow> ('d machine, (bool \<times> pci_device) option) state" where
  "pci_find_virtio_net b out = find_from b (0x1000, 0x1041) False 32 0 out"

end
