(* ===== verification/Virtio_pci.thy ===== *)
theory Virtio_pci
  imports Pci Virtqueue
begin

text \<open>
  Virtio over PCI, \<^verbatim>\<open>src/virtio_pci.c\<close>: finding the register regions of a device in its capability
  list, and the initialisation sequence up to a queue that the device may use.
\<close>

definition PCI_CAP_PTR :: u16 where "PCI_CAP_PTR = 0x34"
definition PCI_CAP_ID_VENDOR :: u8 where "PCI_CAP_ID_VENDOR = 0x09"
definition VIRTIO_PCI_CAP_COMMON_CFG :: u8 where "VIRTIO_PCI_CAP_COMMON_CFG = 1"
definition VIRTIO_PCI_CAP_NOTIFY_CFG :: u8 where "VIRTIO_PCI_CAP_NOTIFY_CFG = 2"
definition VIRTIO_PCI_CAP_ISR_CFG :: u8 where "VIRTIO_PCI_CAP_ISR_CFG = 3"
definition VIRTIO_PCI_CAP_DEVICE_CFG :: u8 where "VIRTIO_PCI_CAP_DEVICE_CFG = 4"
definition VIRTIO_COMMON_DFSELECT :: u64 where "VIRTIO_COMMON_DFSELECT = 0x00"
definition VIRTIO_COMMON_DF :: u64 where "VIRTIO_COMMON_DF = 0x04"
definition VIRTIO_COMMON_GFSELECT :: u64 where "VIRTIO_COMMON_GFSELECT = 0x08"
definition VIRTIO_COMMON_GF :: u64 where "VIRTIO_COMMON_GF = 0x0C"
definition VIRTIO_COMMON_STATUS :: u64 where "VIRTIO_COMMON_STATUS = 0x14"
definition VIRTIO_COMMON_Q_SELECT :: u64 where "VIRTIO_COMMON_Q_SELECT = 0x16"
definition VIRTIO_COMMON_Q_SIZE :: u64 where "VIRTIO_COMMON_Q_SIZE = 0x18"
definition VIRTIO_COMMON_Q_ENABLE :: u64 where "VIRTIO_COMMON_Q_ENABLE = 0x1C"
definition VIRTIO_COMMON_Q_NOTIFYOFF :: u64 where "VIRTIO_COMMON_Q_NOTIFYOFF = 0x1E"
definition VIRTIO_COMMON_Q_DESCLO :: u64 where "VIRTIO_COMMON_Q_DESCLO = 0x20"
definition VIRTIO_COMMON_Q_DESCHI :: u64 where "VIRTIO_COMMON_Q_DESCHI = 0x24"
definition VIRTIO_COMMON_Q_AVAILLO :: u64 where "VIRTIO_COMMON_Q_AVAILLO = 0x28"
definition VIRTIO_COMMON_Q_AVAILHI :: u64 where "VIRTIO_COMMON_Q_AVAILHI = 0x2C"
definition VIRTIO_COMMON_Q_USEDLO :: u64 where "VIRTIO_COMMON_Q_USEDLO = 0x30"
definition VIRTIO_COMMON_Q_USEDHI :: u64 where "VIRTIO_COMMON_Q_USEDHI = 0x34"
definition VIRTIO_STATUS_ACKNOWLEDGE :: u8 where "VIRTIO_STATUS_ACKNOWLEDGE = 1"
definition VIRTIO_STATUS_DRIVER :: u8 where "VIRTIO_STATUS_DRIVER = 2"
definition VIRTIO_STATUS_DRIVER_OK :: u8 where "VIRTIO_STATUS_DRIVER_OK = 4"
definition VIRTIO_STATUS_FEATURES_OK :: u8 where "VIRTIO_STATUS_FEATURES_OK = 8"
definition VIRTIO_STATUS_FAILED :: u8 where "VIRTIO_STATUS_FAILED = 128"

record virtio_pci_dev =
  common_cfg :: u64
  notify_base :: u64
  notify_off_mul :: u32
  isr_cfg :: u64
  device_cfg :: u64

section \<open>Capabilities\<close>

record caps =
  vpci :: virtio_pci_dev
  found_common :: bool
  found_notify :: bool
  found_isr :: bool

text \<open>One turn of the loop; \<open>None\<close>: the register number is outside the array of addresses.\<close>

definition cap_step :: "'d bus \<Rightarrow> pci_device \<Rightarrow> u8 \<Rightarrow> caps \<Rightarrow> ('d machine, (u8 \<times> caps) option) state" where
  "cap_step b pci cap_off c = do {
     let rd8 = (\<lambda>k. pci_config_read8 b (bus pci) (dev pci) (func pci) (ucast cap_off + k));
     let rd32 = (\<lambda>k. pci_config_read32 b (bus pci) (dev pci) (func pci) (ucast cap_off + k));
     cap_id \<leftarrow> rd8 0;
     cap_next \<leftarrow> rd8 1;
     if cap_id \<noteq> PCI_CAP_ID_VENDOR then State_Monad.return (Some (cap_next, c))
     else do {
       cfg_type \<leftarrow> rd8 3;
       br \<leftarrow> rd8 4;
       offset \<leftarrow> rd32 8;
       _ \<leftarrow> rd32 12;
       if unat br \<ge> length (bar_addr pci) then State_Monad.return None
       else if bar_addr pci ! unat br = 0 then State_Monad.return (Some (cap_next, c))
       else do {
         let region = bar_addr pci ! unat br + ucast offset;
         if cfg_type = VIRTIO_PCI_CAP_COMMON_CFG then
           State_Monad.return (Some (cap_next, c\<lparr>vpci := (vpci c)\<lparr>common_cfg := region\<rparr>, found_common := True\<rparr>))
         else if cfg_type = VIRTIO_PCI_CAP_NOTIFY_CFG then do {
           mul \<leftarrow> rd32 16;
           State_Monad.return (Some (cap_next, c\<lparr>vpci := (vpci c)\<lparr>notify_base := region, notify_off_mul := mul\<rparr>, found_notify := True\<rparr>)) }
         else if cfg_type = VIRTIO_PCI_CAP_ISR_CFG then
           State_Monad.return (Some (cap_next, c\<lparr>vpci := (vpci c)\<lparr>isr_cfg := region\<rparr>, found_isr := True\<rparr>))
         else if cfg_type = VIRTIO_PCI_CAP_DEVICE_CFG then
           State_Monad.return (Some (cap_next, c\<lparr>vpci := (vpci c)\<lparr>device_cfg := region\<rparr>\<rparr>))
         else State_Monad.return (Some (cap_next, c)) } } }"

partial_function (option) cap_loop :: "'d bus \<Rightarrow> pci_device \<Rightarrow> u8 \<Rightarrow> caps \<Rightarrow> 'd machine \<Rightarrow> (caps \<times> 'd machine) option" where
  "cap_loop b pci cap_off c m =
     (if cap_off = 0 then Some (c, m)
      else case run_state (cap_step b pci cap_off c) m of
        (None, m) \<Rightarrow> None
      | (Some (cap_next, c), m) \<Rightarrow> cap_loop b pci cap_next c m)"

definition virtio_pci_parse_caps :: "'d bus \<Rightarrow> pci_device \<Rightarrow> virtio_pci_dev \<Rightarrow> 'd machine \<Rightarrow> (int \<times> virtio_pci_dev \<times> 'd machine) option" where
  "virtio_pci_parse_caps b pci v m =
     (case run_state (pci_config_read8 b (bus pci) (dev pci) (func pci) PCI_CAP_PTR) m of
        (ptr, m) \<Rightarrow>
          case cap_loop b pci (ptr AND 0xFC) \<lparr>vpci = v, found_common = False, found_notify = False, found_isr = False\<rparr> m of
            None \<Rightarrow> None
          | Some (c, m) \<Rightarrow>
              Some (if \<not> found_common c \<or> \<not> found_notify c \<or> \<not> found_isr c then -1 else 0, vpci c, m))"

section \<open>Initialisation\<close>

text \<open>\<open>while (mmio_read8(status) != 0);\<close>\<close>

partial_function (option) reset_wait :: "'d bus \<Rightarrow> u64 \<Rightarrow> 'd machine \<Rightarrow> 'd machine option" where
  "reset_wait b common m =
     (case run_state (mmio_read8 b (common + VIRTIO_COMMON_STATUS)) m of
        (v, m) \<Rightarrow> if v \<noteq> 0 then reset_wait b common m else Some m)"

definition negotiate :: "'d bus \<Rightarrow> u64 \<Rightarrow> u32 \<Rightarrow> u32 \<Rightarrow> ('d machine, int) state" where
  "negotiate b common accepted_features_lo required_features_hi_mask = do {
     mmio_write8 b (common + VIRTIO_COMMON_STATUS) VIRTIO_STATUS_ACKNOWLEDGE;
     mmio_write8 b (common + VIRTIO_COMMON_STATUS) (VIRTIO_STATUS_ACKNOWLEDGE OR VIRTIO_STATUS_DRIVER);
     mmio_write32 b (common + VIRTIO_COMMON_DFSELECT) 0;
     feat_lo \<leftarrow> mmio_read32 b (common + VIRTIO_COMMON_DF);
     mmio_write32 b (common + VIRTIO_COMMON_DFSELECT) 1;
     feat_hi \<leftarrow> mmio_read32 b (common + VIRTIO_COMMON_DF);
     let guest_lo = feat_lo AND accepted_features_lo;
     let guest_hi = feat_hi AND (0x01 OR required_features_hi_mask);
     mmio_write32 b (common + VIRTIO_COMMON_GFSELECT) 0;
     mmio_write32 b (common + VIRTIO_COMMON_GF) guest_lo;
     mmio_write32 b (common + VIRTIO_COMMON_GFSELECT) 1;
     mmio_write32 b (common + VIRTIO_COMMON_GF) guest_hi;
     mmio_write8 b (common + VIRTIO_COMMON_STATUS) (VIRTIO_STATUS_ACKNOWLEDGE OR VIRTIO_STATUS_DRIVER OR VIRTIO_STATUS_FEATURES_OK);
     status \<leftarrow> mmio_read8 b (common + VIRTIO_COMMON_STATUS);
     if status AND VIRTIO_STATUS_FEATURES_OK = 0 then do {
       mmio_write8 b (common + VIRTIO_COMMON_STATUS) VIRTIO_STATUS_FAILED;
       State_Monad.return (-1) }
     else State_Monad.return 0 }"

definition virtio_pci_init_device :: "'d bus \<Rightarrow> virtio_pci_dev \<Rightarrow> u32 \<Rightarrow> u32 \<Rightarrow> 'd machine \<Rightarrow> (int \<times> 'd machine) option" where
  "virtio_pci_init_device b v accepted_features_lo required_features_hi_mask m =
     (let common = common_cfg v
      in map_option (run_state (negotiate b common accepted_features_lo required_features_hi_mask))
           (reset_wait b common (snd (run_state (mmio_write8 b (common + VIRTIO_COMMON_STATUS) 0) m))))"

text \<open>
  \<open>rings i\<close> are the kernel addresses of the descriptor table and the two rings of slot \<open>i\<close>; \<open>ptrs\<close> those
  the queue structure holds before, which stay if no slot is left. \<open>None\<close>: \<open>virtqueue_init\<close> fails.
\<close>

definition virtio_pci_setup_queue :: "'d bus \<Rightarrow> (nat \<Rightarrow> u64 \<times> u64 \<times> u64) \<Rightarrow> virtio_pci_dev \<Rightarrow> u64 \<times> u64 \<times> u64 \<Rightarrow> virtqueue \<Rightarrow> u16 \<Rightarrow> u16
    \<Rightarrow> ('d machine, (int \<times> virtqueue) option) state" where
  "virtio_pci_setup_queue b rings v ptrs vq index desired_size = do {
     let common = common_cfg v;
     mmio_write16 b (common + VIRTIO_COMMON_Q_SELECT) index;
     max_size \<leftarrow> mmio_read16 b (common + VIRTIO_COMMON_Q_SIZE);
     if max_size = 0 then State_Monad.return (Some (-1, vq))
     else do {
       let qsize = (if desired_size > max_size then max_size else desired_size);
       mmio_write16 b (common + VIRTIO_COMMON_Q_SIZE) qsize;
       notify_off \<leftarrow> mmio_read16 b (common + VIRTIO_COMMON_Q_NOTIFYOFF);
       m \<leftarrow> State_Monad.get;
       case virtqueue_init qsize index (notify_base v + ucast notify_off * ucast (notify_off_mul v)) (next_queue_slot m) vq of
         None \<Rightarrow> State_Monad.return None
       | Some (slots, vq) \<Rightarrow> do {
           State_Monad.set (m\<lparr>next_queue_slot := slots\<rparr>);
           let (d, av, us) = (if next_queue_slot m < VIRTQ_MAX_QUEUES then rings (next_queue_slot m) else ptrs);
           mmio_write32 b (common + VIRTIO_COMMON_Q_DESCLO) (ucast (virt_to_phys d AND 0xFFFFFFFF));
           mmio_write32 b (common + VIRTIO_COMMON_Q_DESCHI) (ucast (drop_bit 32 (virt_to_phys d)));
           mmio_write32 b (common + VIRTIO_COMMON_Q_AVAILLO) (ucast (virt_to_phys av AND 0xFFFFFFFF));
           mmio_write32 b (common + VIRTIO_COMMON_Q_AVAILHI) (ucast (drop_bit 32 (virt_to_phys av)));
           mmio_write32 b (common + VIRTIO_COMMON_Q_USEDLO) (ucast (virt_to_phys us AND 0xFFFFFFFF));
           mmio_write32 b (common + VIRTIO_COMMON_Q_USEDHI) (ucast (drop_bit 32 (virt_to_phys us)));
           mmio_write16 b (common + VIRTIO_COMMON_Q_ENABLE) 1;
           State_Monad.return (Some (0, vq)) } } }"

definition virtio_pci_set_driver_ok :: "'d bus \<Rightarrow> virtio_pci_dev \<Rightarrow> ('d machine, unit) state" where
  "virtio_pci_set_driver_ok b v =
     mmio_write8 b (common_cfg v + VIRTIO_COMMON_STATUS)
       (VIRTIO_STATUS_ACKNOWLEDGE OR VIRTIO_STATUS_DRIVER OR VIRTIO_STATUS_FEATURES_OK OR VIRTIO_STATUS_DRIVER_OK)"

end
