(* ===== verification/PciSpec.thy ===== *)
theory PciSpec
  imports Virtio_pci VirtqueueSpec
begin

text \<open>
  What initialisation over PCI guarantees: the order of accesses that the virtio specification asks
  for, a queue that is ready when the device is told about it, and address windows that do not
  overlap. The capability loop trusts the device to give a list that ends.
\<close>

section \<open>Initialisation sequence\<close>

lemma reset_wait_log:
  assumes "reset_wait (logged b) common m = Some m'"
  shows "\<exists>vs. snd (hw m') = snd (hw m) @ map (\<lambda>v. (R8 (common + VIRTIO_COMMON_STATUS), v)) vs \<and> vs \<noteq> []
    \<and> (ucast (last vs) :: u8) = 0 \<and> (\<forall>v \<in> set (butlast vs). (ucast v :: u8) \<noteq> 0)"
proof -
  have "b' = logged b \<longrightarrow> (\<exists>vs. snd (hw m') = snd (hw m) @ map (\<lambda>v. (R8 (common + VIRTIO_COMMON_STATUS), v)) vs \<and> vs \<noteq> []
    \<and> (ucast (last vs) :: u8) = 0 \<and> (\<forall>v \<in> set (butlast vs). (ucast v :: u8) \<noteq> 0))" if "reset_wait b' common m = Some m'" for b'
  proof (rule reset_wait.raw_induct [OF _ that], rule impI)
  fix f b' common m m'
  assume IH: "\<And>b' common m m'. f b' common m = Some m' \<Longrightarrow> b' = logged b \<longrightarrow>
      (\<exists>vs. snd (hw m') = snd (hw m) @ map (\<lambda>v. (R8 (common + VIRTIO_COMMON_STATUS), v)) vs \<and> vs \<noteq> []
       \<and> (ucast (last vs) :: u8) = 0 \<and> (\<forall>v \<in> set (butlast vs). (ucast v :: u8) \<noteq> 0))"
    and r: "(case run_state (mmio_read8 b' (common + VIRTIO_COMMON_STATUS)) m of (v, m) \<Rightarrow> if v \<noteq> 0 then f b' common m else Some m) = Some m'"
    and b': "b' = logged b"
  let ?a = "R8 (common + VIRTIO_COMMON_STATUS)"
  define v where "v = fst (b ?a (fst (hw m)))"
  define m1 where "m1 = m\<lparr>hw := (snd (b ?a (fst (hw m))), snd (hw m) @ [(?a, v)])\<rparr>"
  have st: "run_state (mmio_read8 (logged b) (common + VIRTIO_COMMON_STATUS)) m = (ucast v, m1)"
    by (simp add: mmio_read8_def access_logged v_def m1_def)
  show "\<exists>vs. snd (hw m') = snd (hw m) @ map (\<lambda>v. (R8 (common + VIRTIO_COMMON_STATUS), v)) vs \<and> vs \<noteq> []
    \<and> (ucast (last vs) :: u8) = 0 \<and> (\<forall>v \<in> set (butlast vs). (ucast v :: u8) \<noteq> 0)"
  proof (cases "(ucast v :: u8) = 0")
    case True
    then have "m' = m1" using r st by (simp add: b')
    then show ?thesis using True by (intro exI [of _ "[v]"]) (simp add: m1_def)
  next
    case False
    then have "f (logged b) common m1 = Some m'" using r st by (simp add: b')
    from IH [rule_format, OF this refl] obtain vs where vs: "snd (hw m') = snd (hw m1) @ map (\<lambda>v. (?a, v)) vs" "vs \<noteq> []"
      "(ucast (last vs) :: u8) = 0" "\<forall>v \<in> set (butlast vs). (ucast v :: u8) \<noteq> 0" by blast
    then show ?thesis using False by (intro exI [of _ "v # vs"]) (simp add: m1_def)
  qed
  qed
  then show ?thesis using assms by blast
qed

lemmas status_defs = VIRTIO_STATUS_ACKNOWLEDGE_def VIRTIO_STATUS_DRIVER_def VIRTIO_STATUS_FEATURES_OK_def VIRTIO_STATUS_FAILED_def

lemma negotiate_log:
  fixes common :: u64
  defines "S \<equiv> common + VIRTIO_COMMON_STATUS" and "dfs \<equiv> common + VIRTIO_COMMON_DFSELECT" and "df \<equiv> common + VIRTIO_COMMON_DF"
    and "gfs \<equiv> common + VIRTIO_COMMON_GFSELECT" and "gf \<equiv> common + VIRTIO_COMMON_GF"
  shows "\<exists>flo fhi st. run_state (negotiate (logged b) common lo hi) m = (r, m') \<longrightarrow>
     snd (hw m') = snd (hw m) @ [(W8 S 1, 0), (W8 S 3, 0), (W32 dfs 0, 0), (R32 df, flo), (W32 dfs 1, 0), (R32 df, fhi),
       (W32 gfs 0, 0), (W32 gf (flo AND lo), 0), (W32 gfs 1, 0), (W32 gf (fhi AND (1 OR hi)), 0), (W8 S 11, 0), (R8 S, st)]
       @ (if (ucast st :: u8) AND 8 = 0 then [(W8 S 128, 0)] else [])
     \<and> r = (if (ucast st :: u8) AND 8 = 0 then -1 else 0)"
proof -
  define d0 where "d0 = fst (hw m)"
  define d1 where "d1 = snd (b (W8 S 1) d0)"
  define d2 where "d2 = snd (b (W8 S 3) d1)"
  define d3 where "d3 = snd (b (W32 dfs 0) d2)"
  define flo where "flo = fst (b (R32 df) d3)"
  define d4 where "d4 = snd (b (R32 df) d3)"
  define d5 where "d5 = snd (b (W32 dfs 1) d4)"
  define fhi where "fhi = fst (b (R32 df) d5)"
  define d6 where "d6 = snd (b (R32 df) d5)"
  define d7 where "d7 = snd (b (W32 gfs 0) d6)"
  define d8 where "d8 = snd (b (W32 gf (flo AND lo)) d7)"
  define d9 where "d9 = snd (b (W32 gfs 1) d8)"
  define d10 where "d10 = snd (b (W32 gf (fhi AND (1 OR hi))) d9)"
  define d11 where "d11 = snd (b (W8 S 11) d10)"
  define st where "st = fst (b (R8 S) d11)"
  note ds = d0_def [symmetric] d1_def [symmetric] d2_def [symmetric] d3_def [symmetric] flo_def [symmetric] d4_def [symmetric]
    d5_def [symmetric] fhi_def [symmetric] d6_def [symmetric] d7_def [symmetric] d8_def [symmetric] d9_def [symmetric]
    d10_def [symmetric] d11_def [symmetric] st_def [symmetric]
  show ?thesis
    by (rule exI [of _ flo], rule exI [of _ fhi], rule exI [of _ st])
      (auto simp: negotiate_def mmio_defs access_logged status_defs S_def [symmetric] dfs_def [symmetric] df_def [symmetric]
        gfs_def [symmetric] gf_def [symmetric] ds Let_def split: if_splits)
qed

text \<open>
  Initialising a device makes exactly the accesses of the virtio specification (3.1.1) in their
  order: reset and wait for it, acknowledge, driver, read both feature words, accept features that
  were offered and asked for, FEATURES_OK and check that it stuck. If it did not, the device is
  marked failed and the result is -1.
\<close>

theorem virtio_init_sequence:
  assumes "virtio_pci_init_device (logged b) v lo hi m = Some (r, m')"
  shows "\<exists>polls flo fhi st. let S = common_cfg v + 0x14; dfs = common_cfg v; df = common_cfg v + 4; gfs = common_cfg v + 8; gf = common_cfg v + 12
     in snd (hw m') = snd (hw m) @ [(W8 S 0, 0)] @ map (\<lambda>x. (R8 S, x)) polls
          @ [(W8 S 1, 0), (W8 S 3, 0), (W32 dfs 0, 0), (R32 df, flo), (W32 dfs 1, 0), (R32 df, fhi),
             (W32 gfs 0, 0), (W32 gf (flo AND lo), 0), (W32 gfs 1, 0), (W32 gf (fhi AND (1 OR hi)), 0), (W8 S 11, 0), (R8 S, st)]
          @ (if (ucast st :: u8) AND 8 = 0 then [(W8 S 128, 0)] else [])
     \<and> polls \<noteq> [] \<and> (ucast (last polls) :: u8) = 0 \<and> r = (if (ucast st :: u8) AND 8 = 0 then -1 else 0)"
proof -
  let ?S = "common_cfg v + VIRTIO_COMMON_STATUS"
  define m0 where "m0 = snd (run_state (mmio_write8 (logged b) ?S 0) m)"
  have l0: "snd (hw m0) = snd (hw m) @ [(W8 ?S 0, 0)]" by (simp add: m0_def mmio_defs access_logged)
  obtain m1 where m1: "reset_wait (logged b) (common_cfg v) m0 = Some m1" "run_state (negotiate (logged b) (common_cfg v) lo hi) m1 = (r, m')"
    using assms by (auto simp: virtio_pci_init_device_def Let_def m0_def)
  obtain polls where p: "snd (hw m1) = snd (hw m0) @ map (\<lambda>x. (R8 ?S, x)) polls" "polls \<noteq> []" "(ucast (last polls) :: u8) = 0"
    using reset_wait_log [OF m1(1)] by blast
  note regs = VIRTIO_COMMON_STATUS_def VIRTIO_COMMON_DFSELECT_def VIRTIO_COMMON_DF_def VIRTIO_COMMON_GFSELECT_def VIRTIO_COMMON_GF_def
  from negotiate_log [of b "common_cfg v" lo hi m1 r m'] m1(2) p l0 show ?thesis
    unfolding Let_def regs by (elim exE) (intro exI conjI; simp)
qed

text \<open>A device with a status register, two words of features and queues of four entries.\<close>

definition demo_bus :: "u8 bus" where
  "demo_bus op h = (case op of W8 a v \<Rightarrow> (0, if a = 0x1014 then v else h) | R8 a \<Rightarrow> (ucast h, h) | R16 a \<Rightarrow> (4, h) | R32 a \<Rightarrow> (0x61, h) | _ \<Rightarrow> (0, h))"

definition demo_vpci :: virtio_pci_dev where
  "demo_vpci = \<lparr>common_cfg = 0x1000, notify_base = 0x2000, notify_off_mul = 4, isr_cfg = 0x3000, device_cfg = 0x4000\<rparr>"

definition demo_machine :: "(u8 \<times> (mmio_op \<times> u32) list) machine" where
  "demo_machine = \<lparr>hw = (9, []), mmio32_alloc = 0, pio_alloc = 0, next_queue_slot = 3\<rparr>"

theorem virtio_init_sequence_witness:
  "\<exists>m' log. virtio_pci_init_device (logged demo_bus) demo_vpci 0x41 0 demo_machine = Some (0, m')
     \<and> snd (hw m') = (W8 0x1014 0, 0) # log \<and> (W8 0x1014 11, 0) \<in> set log"
proof -
  define m0 where "m0 = snd (run_state (mmio_write8 (logged demo_bus) (0x1000 + VIRTIO_COMMON_STATUS) 0) demo_machine)"
  have h: "fst (hw m0) = 0" by (simp add: m0_def mmio_defs access_logged demo_bus_def VIRTIO_COMMON_STATUS_def demo_machine_def)
  have w: "\<exists>m1. reset_wait (logged demo_bus) 0x1000 m0 = Some m1"
    by (subst reset_wait.simps) (simp add: mmio_defs access_logged demo_bus_def h)
  then obtain m1 where m1: "reset_wait (logged demo_bus) 0x1000 m0 = Some m1" by blast
  have "\<exists>m'. run_state (negotiate (logged demo_bus) 0x1000 0x41 0) m1 = (0, m')"
    by (simp add: negotiate_def mmio_defs access_logged demo_bus_def status_defs VIRTIO_COMMON_STATUS_def Let_def)
  then obtain m' where "virtio_pci_init_device (logged demo_bus) demo_vpci 0x41 0 demo_machine = Some (0, m')"
    using m1 by (auto simp: virtio_pci_init_device_def Let_def demo_vpci_def m0_def)
  from this virtio_init_sequence [OF this] show ?thesis
    by (auto simp: Let_def demo_vpci_def demo_machine_def)
qed

section \<open>Queue setup\<close>

lemma ucast_mask_low: "(ucast (x AND mask 32) :: u32) = ucast (x :: u64)"
  by (rule bit_eqI) (simp add: bit_simps)


lemma setup_queue_runs:
  assumes r: "run_state (virtio_pci_setup_queue (logged b) rings v ptrs vq index desired) m = (Some (0, vq'), m')"
    and slot: "next_queue_slot m < VIRTQ_MAX_QUEUES"
    and pow: "desired \<noteq> 0" "unat desired dvd 65536"
      "\<forall>h. unat (ucast (fst (b (R16 (common_cfg v + 0x18)) h)) :: u16) dvd 65536 \<or> (ucast (fst (b (R16 (common_cfg v + 0x18)) h)) :: u16) = 0"
  defines "d \<equiv> virt_to_phys (fst (rings (next_queue_slot m)))" and "av \<equiv> virt_to_phys (fst (snd (rings (next_queue_slot m))))"
    and "us \<equiv> virt_to_phys (snd (snd (rings (next_queue_slot m))))" and "c \<equiv> common_cfg v"
  shows "vq_inv [0..<unat (num vq')] {} [] vq' \<and> 0 < num vq' \<and> num vq' \<le> desired \<and> queue_index vq' = index
    \<and> next_queue_slot m' = Suc (next_queue_slot m)
    \<and> (\<exists>mx pre. num vq' \<le> (ucast mx :: u16) \<and> (R16 (c + 0x18), mx) \<in> set pre \<and> snd (hw m') = snd (hw m) @ pre
       @ [(W32 (c + 0x20) (ucast d), 0), (W32 (c + 0x24) (ucast (drop_bit 32 d)), 0), (W32 (c + 0x28) (ucast av), 0),
          (W32 (c + 0x2C) (ucast (drop_bit 32 av)), 0), (W32 (c + 0x30) (ucast us), 0), (W32 (c + 0x34) (ucast (drop_bit 32 us)), 0),
          (W16 (c + 0x1C) 1, 0)])"
proof -
  define d0 where "d0 = fst (hw m)"
  define d1 where "d1 = snd (b (W16 (c + 0x16) index) d0)"
  define mx where "mx = fst (b (R16 (c + 0x18)) d1)"
  define d2 where "d2 = snd (b (R16 (c + 0x18)) d1)"
  define q where "q = (if desired > ucast mx then ucast mx else desired)"
  define d3 where "d3 = snd (b (W16 (c + 0x18) q) d2)"
  define nf where "nf = fst (b (R16 (c + 0x1E)) d3)"
  note ds = d0_def [symmetric] d1_def [symmetric] mx_def [symmetric] d2_def [symmetric] q_def [symmetric] d3_def [symmetric] nf_def [symmetric]
  note regs = VIRTIO_COMMON_Q_SELECT_def VIRTIO_COMMON_Q_SIZE_def VIRTIO_COMMON_Q_NOTIFYOFF_def VIRTIO_COMMON_Q_ENABLE_def
    VIRTIO_COMMON_Q_DESCLO_def VIRTIO_COMMON_Q_DESCHI_def VIRTIO_COMMON_Q_AVAILLO_def VIRTIO_COMMON_Q_AVAILHI_def
    VIRTIO_COMMON_Q_USEDLO_def VIRTIO_COMMON_Q_USEDHI_def
  have lo: "ucast (x AND 0xFFFFFFFF) = (ucast x :: u32)" for x :: u64
    using ucast_mask_low [of x] by (simp add: mask_eq_exp_minus_1)
  have mx0: "(ucast mx :: u16) \<noteq> 0"
  proof
    assume "(ucast mx :: u16) = 0"
    then show False using r by (simp add: virtio_pci_setup_queue_def Let_def mmio_defs access_logged regs c_def [symmetric] ds)
  qed
  have q: "q \<noteq> 0" "unat q dvd 65536" "q \<le> desired" "q \<le> ucast mx" using pow mx0 by (auto simp: q_def mx_def c_def)
  obtain vq1 where i: "virtqueue_init q index (notify_base v + ucast (ucast nf :: u16) * ucast (notify_off_mul v)) (next_queue_slot m) vq = Some (Suc (next_queue_slot m), vq1)"
    "num vq1 = (if unat q > 256 then 256 else q)" "queue_index vq1 = index" "vq_inv [0..<unat (num vq1)] {} [] vq1"
    using virtqueue_init_inv [OF slot q(1,2), of index "notify_base v + ucast (ucast nf :: u16) * ucast (notify_off_mul v)" vq] by blast
  have le: "num vq1 \<le> q" "0 < num vq1" using i(2) q(1) by (auto simp: word_le_nat_alt word_gt_0)
  obtain rd ra ru where rg: "rings (next_queue_slot m) = (rd, ra, ru)" by (metis prod_cases3)
  have "vq' = vq1 \<and> next_queue_slot m' = Suc (next_queue_slot m)
     \<and> snd (hw m') = snd (hw m) @ [(W16 (c + 0x16) index, 0), (R16 (c + 0x18), mx), (W16 (c + 0x18) q, 0), (R16 (c + 0x1E), nf)]
       @ [(W32 (c + 0x20) (ucast d), 0), (W32 (c + 0x24) (ucast (drop_bit 32 d)), 0), (W32 (c + 0x28) (ucast av), 0),
          (W32 (c + 0x2C) (ucast (drop_bit 32 av)), 0), (W32 (c + 0x30) (ucast us), 0), (W32 (c + 0x34) (ucast (drop_bit 32 us)), 0),
          (W16 (c + 0x1C) 1, 0)]"
    using r mx0 i(1) slot unfolding d_def av_def us_def
    by (auto simp: virtio_pci_setup_queue_def Let_def mmio_defs access_logged regs c_def [symmetric] ds lo rg cong: if_cong)
  then show ?thesis using i le q
    by (intro conjI exI [of _ mx] exI [of _ "[(W16 (c + 0x16) index, 0), (R16 (c + 0x18), mx), (W16 (c + 0x18) q, 0), (R16 (c + 0x1E), nf)]"])
      (simp_all add: order_trans [OF le(1)])
qed

text \<open>
  When setting up a queue succeeds and a slot was left, the queue has all its descriptors free, at
  most as many as asked for and as the device allows; the device is told the physical addresses of
  the slot's table and rings before the queue is enabled, which is the last access.
\<close>

theorem setup_queue_ready:
  assumes r: "run_state (virtio_pci_setup_queue (logged b) rings v ptrs vq index desired) m = (Some (0, vq'), m')"
    and slot: "next_queue_slot m < VIRTQ_MAX_QUEUES"
    and pow: "desired \<noteq> 0" "unat desired dvd 65536"
      "\<forall>h. unat (ucast (fst (b (R16 (common_cfg v + 0x18)) h)) :: u16) dvd 65536 \<or> (ucast (fst (b (R16 (common_cfg v + 0x18)) h)) :: u16) = 0"
  defines "d \<equiv> virt_to_phys (fst (rings (next_queue_slot m)))" and "av \<equiv> virt_to_phys (fst (snd (rings (next_queue_slot m))))"
    and "us \<equiv> virt_to_phys (snd (snd (rings (next_queue_slot m))))" and "c \<equiv> common_cfg v"
  shows "vq_inv [0..<unat (num vq')] {} [] vq' \<and> 0 < num vq' \<and> num vq' \<le> desired \<and> queue_index vq' = index
    \<and> next_queue_slot m' = Suc (next_queue_slot m)
    \<and> (\<exists>mx pre. num vq' \<le> (ucast mx :: u16) \<and> (R16 (c + 0x18), mx) \<in> set pre \<and> snd (hw m') = snd (hw m) @ pre
       @ [(W32 (c + 0x20) (ucast d), 0), (W32 (c + 0x24) (ucast (drop_bit 32 d)), 0), (W32 (c + 0x28) (ucast av), 0),
          (W32 (c + 0x2C) (ucast (drop_bit 32 av)), 0), (W32 (c + 0x30) (ucast us), 0), (W32 (c + 0x34) (ucast (drop_bit 32 us)), 0),
          (W16 (c + 0x1C) 1, 0)])"
  unfolding d_def av_def us_def c_def by (rule setup_queue_runs [OF r slot pow])

theorem setup_queue_ready_witness:
  "\<exists>vq0 vq' m'. run_state (virtio_pci_setup_queue (logged demo_bus) (\<lambda>i. (0xFFFFFF8040300000, 0xFFFFFF8040301000, 0xFFFFFF8040302000))
       demo_vpci (0, 0, 0) vq0 1 8) demo_machine = (Some (0, vq'), m')
     \<and> vq_inv [0..<unat (num vq')] {} [] vq' \<and> next_queue_slot m' = 4 \<and> last (snd (hw m')) = (W16 0x101C 1, 0)"
proof -
  let ?rings = "\<lambda>i :: nat. (0xFFFFFF8040300000, 0xFFFFFF8040301000, 0xFFFFFF8040302000) :: u64 \<times> u64 \<times> u64"
  have slot: "next_queue_slot demo_machine < VIRTQ_MAX_QUEUES" "next_queue_slot demo_machine = 3"
    by (simp_all add: demo_machine_def VIRTQ_MAX_QUEUES_def)
  have n: "(4 :: u16) \<noteq> 0" "unat (4 :: u16) dvd 65536" by simp_all
  obtain vq0 vq' where i: "virtqueue_init 4 1 (0x2000 + 4 * 4) 3 vq0 = Some (Suc 3, vq')"
    using virtqueue_init_inv [OF slot(1) n, of 1 "0x2000 + 4 * 4" undefined] slot(2) by auto
  have pow: "(8 :: u16) \<noteq> 0" "unat (8 :: u16) dvd 65536"
    "\<forall>h. unat (ucast (fst (demo_bus (R16 (common_cfg demo_vpci + 0x18)) h)) :: u16) dvd 65536
      \<or> (ucast (fst (demo_bus (R16 (common_cfg demo_vpci + 0x18)) h)) :: u16) = 0"
    by (simp_all add: demo_bus_def)
  obtain m' where r: "run_state (virtio_pci_setup_queue (logged demo_bus) ?rings demo_vpci (0, 0, 0) vq0 1 8) demo_machine = (Some (0, vq'), m')"
    using i slot by (simp add: virtio_pci_setup_queue_def Let_def mmio_defs access_logged demo_bus_def demo_vpci_def)
  from setup_queue_ready [OF r slot(1) pow] r slot(2) show ?thesis
    by (intro exI [of _ vq0] exI [of _ vq'] exI [of _ m']) (auto simp: demo_vpci_def)
qed

section \<open>Address windows\<close>

lemma align_to:
  assumes sz: "sz = push_bit n 1" "n < 32" and a: "unat a + 2 ^ n \<le> 2 ^ 64"
  shows "unat a \<le> unat (align_to a sz)" "unat (align_to a sz) < unat a + 2 ^ n" "2 ^ n dvd unat (align_to a sz)" "unat sz = 2 ^ n"
proof -
  have "sz = of_nat (2 ^ n)" using sz(1) by (simp add: push_bit_eq_mult)
  with sz(2) have u: "unat sz = 2 ^ n" using power_strict_increasing [of n 32 "2 :: nat"]
    unat_of_nat_small [of "2 ^ n", where 'a = 32] by simp
  have "(ucast sz :: u64) = of_nat (unat sz)" by simp
  then have m: "ucast sz - 1 = (mask n :: u64)" unfolding u by (simp add: mask_eq_exp_minus_1)
  have "(2 :: nat) ^ n < 2 ^ 64" using sz(2) by (intro power_strict_increasing) simp_all
  moreover have "(mask n :: u64) = of_nat (2 ^ n - 1)" by (simp add: mask_eq_exp_minus_1 of_nat_diff)
  ultimately have mu: "unat (mask n :: u64) = 2 ^ n - 1"
    using unat_of_nat_small [of "2 ^ n - 1", where 'a = 64] by simp
  have e: "a + ucast sz - 1 = a + mask n" using m by (metis add_diff_eq)
  have am: "unat (a + mask n) = unat a + (2 ^ n - 1)"
    using a mu by (subst unat_add_small) simp_all
  have r: "unat (align_to a sz) = (unat a + (2 ^ n - 1)) div 2 ^ n * 2 ^ n"
    unfolding align_to_def e m using unat_and_not_mask [of n "a + mask n"] sz(2) am by simp
  have "(unat a + (2 ^ n - 1)) mod 2 ^ n < 2 ^ n" by simp
  moreover have "unat (align_to a sz) + (unat a + (2 ^ n - 1)) mod 2 ^ n = unat a + (2 ^ n - 1)"
    unfolding r by (rule div_mult_mod_eq)
  moreover have "0 < (2 :: nat) ^ n" by simp
  ultimately show "unat a \<le> unat (align_to a sz)" "unat (align_to a sz) < unat a + 2 ^ n" by linarith+
  show "2 ^ n dvd unat (align_to a sz)" unfolding r by simp
  show "unat sz = 2 ^ n" by (rule u)
qed

text \<open>
  Two windows handed out one after the other are aligned to their sizes and do not overlap, as long
  as the sizes are powers of two below 4 GiB and the addresses do not wrap. A register that asks for
  4 GiB or more has size 0 in the low word: its window is at address 0, where all later ones follow.
\<close>

theorem alloc_mmio32_windows:
  assumes "sz = push_bit n 1" "n < 32" "sz' = push_bit n' 1" "n' < 32" "unat (mmio32_alloc m) + 2 ^ 34 \<le> 2 ^ 64"
    and "run_state (alloc_mmio32 sz) m = (x, m1)" "run_state (alloc_mmio32 sz') m1 = (y, m2)"
  shows "2 ^ n dvd unat x \<and> 2 ^ n' dvd unat y \<and> unat (mmio32_alloc m) \<le> unat x \<and> unat x + 2 ^ n \<le> unat y
    \<and> run_state (alloc_mmio32 0) m = (0, m\<lparr>mmio32_alloc := 0\<rparr>)"
proof -
  have p: "(2 :: nat) ^ n \<le> 2 ^ 31" "(2 :: nat) ^ n' \<le> 2 ^ 31" using power_increasing [of n 31 "2 :: nat"] power_increasing [of n' 31 "2 :: nat"] assms(2,4) by simp_all
  have x: "x = align_to (mmio32_alloc m) sz" "mmio32_alloc m1 = x + ucast sz"
    using assms(6) by (auto simp: alloc_mmio32_def Let_def)
  have y: "y = align_to (mmio32_alloc m1) sz'" using assms(7) by (auto simp: alloc_mmio32_def Let_def)
  have a: "unat (mmio32_alloc m) + 2 ^ n \<le> 2 ^ 64" using assms(5) p by simp
  note A = align_to [OF assms(1,2) a, folded x(1)]
  have us: "unat (ucast sz :: u64) = 2 ^ n" using A(4) p by (simp add: unat_ucast)
  have "unat (mmio32_alloc m1) = unat x + 2 ^ n" unfolding x(2) using A(2) us p assms(5) by (subst unat_add_small) simp_all
  moreover from this have b: "unat (mmio32_alloc m1) + 2 ^ n' \<le> 2 ^ 64" using A(2) p assms(5) by simp
  note B = align_to [OF assms(3,4) b, folded y]
  ultimately show ?thesis using A B by (simp add: alloc_mmio32_def Let_def align_to_def)
qed

section \<open>Capabilities\<close>

text \<open>A capability that is its own successor keeps the loop going for ever.\<close>

lemma cap_loop_cycle:
  assumes b: "\<And>a h. b (R8 a) h = (cfg a, h)" and off: "off \<noteq> 0"
    and self: "ucast (cfg (pci_ecam_addr (bus pci) (dev pci) (func pci) (ucast off + 1))) = off"
    and other: "ucast (cfg (pci_ecam_addr (bus pci) (dev pci) (func pci) (ucast off))) \<noteq> PCI_CAP_ID_VENDOR"
  shows "cap_loop b pci off c m = None"
proof (rule ccontr)
  assume "cap_loop b pci off c m \<noteq> None"
  then obtain r where "cap_loop b pci off c m = Some r" by auto
  moreover have "\<not> (b' = b \<and> pci' = pci \<and> o' = off)" if "cap_loop b' pci' o' c' m' = Some r'" for b' pci' o' c' m' r'
  proof (rule cap_loop.raw_induct [OF _ that])
    fix f b' pci' o' c' m' r'
    assume IH: "\<And>b' pci' o' c' m' r'. f b' pci' o' c' m' = Some r' \<Longrightarrow> \<not> (b' = b \<and> pci' = pci \<and> o' = off)"
      and r: "(if o' = 0 then Some (c', m') else case run_state (cap_step b' pci' o' c') m' of
        (None, m) \<Rightarrow> None | (Some (cap_next, c), m) \<Rightarrow> f b' pci' cap_next c m) = Some r'"
    show "\<not> (b' = b \<and> pci' = pci \<and> o' = off)"
    proof
      assume e: "b' = b \<and> pci' = pci \<and> o' = off"
      have "run_state (cap_step b pci off c') m' = (Some (off, c'), m')"
        using self other b by (simp add: cap_step_def Let_def pci_config_read8_def mmio_read8_def access_def)
      then have "f b pci off c' m' = Some r'" using r e off by simp
      then show False using IH by blast
    qed
  qed
  ultimately show False by blast
qed

end
