(* ===== verification/Pool.thy ===== *)
theory Pool
  imports VirtioSpec
begin

text \<open>
  Receive buffers, as the network and the input driver use them (\<^verbatim>\<open>src/virtio_net.c\<close>,
  \<^verbatim>\<open>src/virtio_input.c\<close>): a static array of buffers, each given to the device as a chain of one
  descriptor, and a table that says which buffer a descriptor carries. The locale states when the
  buffers are usable, and shows that the pool is a queue of messages that loses no buffer.
\<close>

section \<open>Posting buffers\<close>

record pool =
  pq :: virtqueue
  slot_of :: "nat list"

definition post_buffer :: "(nat \<Rightarrow> u64) \<Rightarrow> u32 \<Rightarrow> nat \<Rightarrow> pool \<Rightarrow> pool option" where
  "post_buffer addr len slot p =
     Option.bind (virtqueue_add_chain [\<lparr>b_addr = addr slot, b_len = len, b_flags = VRING_DESC_F_WRITE\<rparr>] (pq p)) (\<lambda>(idx, vq).
       if idx = 0xFFFF then Some (p\<lparr>pq := vq\<rparr>)
       else if unat idx < length (slot_of p) then Some (p\<lparr>pq := vq, slot_of := (slot_of p)[unat idx := slot]\<rparr>)
       else None)"

fun post_from :: "(nat \<Rightarrow> u64) \<Rightarrow> u32 \<Rightarrow> nat \<Rightarrow> nat \<Rightarrow> pool \<Rightarrow> pool option" where
  "post_from addr len 0 i p = Some p"
| "post_from addr len (Suc n) i p = Option.bind (post_buffer addr len i p) (post_from addr len n (Suc i))"

section \<open>Messages\<close>

text \<open>
  The device holds one chain per buffer. \<open>ds\<close> are the heads it has reported and the driver has not
  taken; the message of a reported head is what the device wrote to its buffer.
\<close>

definition posted :: "(nat \<Rightarrow> u64) \<Rightarrow> u32 \<Rightarrow> nat list set \<Rightarrow> pool \<Rightarrow> bool" where
  "posted addr len cs p \<longleftrightarrow> (\<forall>c \<in> cs. \<exists>x. c = [x]
     \<and> seen (desc (pq p) ! x) = (virt_to_phys (addr (slot_of p ! x)), len, VRING_DESC_F_WRITE))"

definition pool_inv :: "(nat \<Rightarrow> u64) \<Rightarrow> u32 \<Rightarrow> nat \<Rightarrow> nat set \<Rightarrow> nat list \<Rightarrow> pool \<Rightarrow> bool" where
  "pool_inv addr len n hs ds p \<longleftrightarrow> (\<exists>fl cs. vq_inv fl cs ds (pq p) \<and> length (slot_of p) = VIRTQ_MAX_SIZE \<and> posted addr len cs p
     \<and> hs = hd ` cs \<and> bij_betw (\<lambda>h. slot_of p ! h) hs {..<n}
     \<and> (\<forall>i < length ds. unat (snd (used_ring (pq p) ! ring_slot (pq p) i)) \<le> unat len))"

definition message :: "(nat \<Rightarrow> u64) \<Rightarrow> memory \<Rightarrow> pool \<Rightarrow> nat \<Rightarrow> nat \<Rightarrow> u8 list" where
  "message addr m p h l = map (\<lambda>j. m (addr (slot_of p ! h) + of_nat j)) [0..<l]"

definition messages :: "(nat \<Rightarrow> u64) \<Rightarrow> memory \<Rightarrow> nat list \<Rightarrow> pool \<Rightarrow> u8 list list" where
  "messages addr m ds p = map (\<lambda>i. message addr m p (ds ! i) (unat (snd (used_ring (pq p) ! ring_slot (pq p) i)))) [0..<length ds]"

text \<open>The device writes a message to the buffer of the chain \<open>h\<close> and reports it (virtio 1.1, 5.1.6.4).\<close>

definition device_fill :: "(nat \<Rightarrow> u64) \<Rightarrow> nat \<Rightarrow> u8 list \<Rightarrow> pool \<Rightarrow> memory \<Rightarrow> pool \<times> memory" where
  "device_fill addr h bs p m =
     (p\<lparr>pq := device_used h (of_nat (length bs)) (pq p)\<rparr>,
      \<lambda>x. let k = unat (x - addr (slot_of p ! h)) in if k < length bs then bs ! k else m x)"

section \<open>The pool as a queue\<close>

text \<open>Adding a chain changes nothing of what the driver has still to read.\<close>

definition same_used :: "virtqueue \<Rightarrow> virtqueue \<Rightarrow> bool" where
  "same_used vq vq' \<longleftrightarrow> used_ring vq' = used_ring vq \<and> last_used_idx vq' = last_used_idx vq \<and> num vq' = num vq
     \<and> queue_index vq' = queue_index vq \<and> notify_addr vq' = notify_addr vq"

lemma same_used_slot: "same_used vq vq' \<Longrightarrow> ring_slot vq' i = ring_slot vq i"
  by (simp add: same_used_def ring_slot_def)

lemma post_buffer_ok:
  assumes inv: "vq_inv fl cs ds (pq p)" and fl: "fl \<noteq> []" and len: "length (slot_of p) = VIRTQ_MAX_SIZE" and ps: "posted addr len cs p"
  shows "\<exists>p'. post_buffer addr len slot p = Some p' \<and> vq_inv (tl fl) (insert [hd fl] cs) ds (pq p')
     \<and> posted addr len (insert [hd fl] cs) p' \<and> slot_of p' = (slot_of p)[hd fl := slot] \<and> same_used (pq p) (pq p')"
proof -
  let ?b = "\<lparr>b_addr = addr slot, b_len = len, b_flags = VRING_DESC_F_WRITE\<rparr>"
  let ?vq = "\<lambda>d fh. (pq p)\<lparr>desc := d, free_head := fh,
        avail_ring := (avail_ring (pq p))[unat (avail_idx (pq p) mod num (pq p)) := of_nat (hd fl)],
        avail_idx := avail_idx (pq p) + 1, avail_hdr_idx := avail_idx (pq p) + 1\<rparr>"
  have b: "[?b] \<noteq> []" "length [?b] \<le> length fl" "\<forall>b \<in> set [?b]. b_flags b AND VRING_DESC_F_NEXT = 0"
    using fl by (auto simp: VRING_DESC_F_WRITE_def VRING_DESC_F_NEXT_def neq_Nil_conv)
  have one: "take (length [?b]) fl = [hd fl]" "drop (length [?b]) fl = tl fl" using fl by (cases fl; simp)+
  obtain d fh where r: "virtqueue_add_chain [?b] (pq p) = Some (of_nat (hd fl), ?vq d fh)" "vq_inv (tl fl) (insert [hd fl] cs) ds (?vq d fh)"
    "map (\<lambda>x. seen (d ! x)) [hd fl] = map offered [?b]" "\<forall>c \<in> cs. \<forall>x \<in> set c. d ! x = desc (pq p) ! x"
    using add_chain_ok [OF inv b, unfolded one] by (elim exE conjE) (rule that)
  define p' where "p' = p\<lparr>pq := ?vq d fh, slot_of := (slot_of p)[hd fl := slot]\<rparr>"
  have p': "desc (pq p') = d" "slot_of p' = (slot_of p)[hd fl := slot]" by (simp_all add: p'_def)
  note h = vq_hd [OF r(2) insertI1, unfolded list.sel(1)]
  have "\<exists>x. c = [x] \<and> seen (d ! x) = (virt_to_phys (addr (slot_of p' ! x)), len, VRING_DESC_F_WRITE)"
    if "c \<in> insert [hd fl] cs" for c
    using that
  proof (elim insertE)
    assume "c = [hd fl]"
    then show ?thesis using r(3) h(2) len by (simp add: offered_def VIRTQ_MAX_SIZE_def p')
  next
    assume c: "c \<in> cs"
    then obtain x where x: "c = [x]" "seen (desc (pq p) ! x) = (virt_to_phys (addr (slot_of p ! x)), len, VRING_DESC_F_WRITE)"
      using ps by (auto simp: posted_def)
    then have "x \<noteq> hd fl" using vq_invD(8) [OF inv c] fl by (cases fl) auto
    then show ?thesis using x r(4) c by (simp add: p')
  qed
  then have "posted addr len (insert [hd fl] cs) p'" by (simp add: posted_def p'(1))
  moreover have "post_buffer addr len slot p = Some p'"
    using r(1) h len by (simp add: post_buffer_def VIRTQ_MAX_SIZE_def p'_def)
  moreover have "vq_inv (tl fl) (insert [hd fl] cs) ds (pq p')" "same_used (pq p) (pq p')"
    using r(2) by (simp_all add: p'_def same_used_def)
  ultimately show ?thesis using p'(2) by blast
qed

text \<open>Filling an empty queue: one chain for each of the buffers \<open>i, ..., i + n - 1\<close>.\<close>

lemma post_from_ok:
  assumes "vq_inv fl cs [] (pq p)" "n \<le> length fl" "length (slot_of p) = VIRTQ_MAX_SIZE" "posted addr len cs p"
    and "bij_betw (\<lambda>h. slot_of p ! h) (hd ` cs) {..<i}"
  shows "\<exists>p'. post_from addr len n i p = Some p' \<and> pool_inv addr len (i + n) (hd ` cs \<union> set (take n fl)) [] p' \<and> same_used (pq p) (pq p')"
  using assms
proof (induction n arbitrary: i p fl cs)
  case 0
  then show ?case by (auto simp: pool_inv_def same_used_def)
next
  case (Suc n)
  then obtain x xs where fl: "fl = x # xs" by (cases fl) auto
  then obtain p1 where p1: "post_buffer addr len i p = Some p1" "vq_inv xs (insert [x] cs) [] (pq p1)"
    "posted addr len (insert [x] cs) p1" "slot_of p1 = (slot_of p)[x := i]" "same_used (pq p) (pq p1)"
    using post_buffer_ok [OF Suc.prems(1) _ Suc.prems(3,4), of i] by auto
  have x: "x < 256" using vq_hd(2) [OF p1(2) insertI1] by simp
  have new: "x \<notin> hd ` cs"
  proof
    assume "x \<in> hd ` cs"
    then obtain c where c: "c \<in> cs" "x = hd c" by blast
    then have "x \<in> set c" using vq_hd(1) [OF Suc.prems(1) c(1)] by simp
    then show False using vq_invD(8) [OF Suc.prems(1) c(1)] fl by auto
  qed
  have "bij_betw (\<lambda>h. slot_of p1 ! h) (hd ` cs) {..<i}"
    using Suc.prems(5) by (rule bij_betw_cong [THEN iffD1, rotated]) (use new p1(4) in \<open>metis nth_list_update_neq\<close>)
  then have "bij_betw (\<lambda>h. slot_of p1 ! h) (insert x (hd ` cs)) (insert (slot_of p1 ! x) {..<i})"
    using new x p1(4) Suc.prems(3) by (subst notIn_Un_bij_betw3 [symmetric, simplified]) (auto simp: VIRTQ_MAX_SIZE_def)
  then have b: "bij_betw (\<lambda>h. slot_of p1 ! h) (hd ` insert [x] cs) {..<Suc i}"
    using x p1(4) Suc.prems(3) by (simp add: VIRTQ_MAX_SIZE_def lessThan_Suc)
  have "n \<le> length xs" "length (slot_of p1) = VIRTQ_MAX_SIZE" using Suc.prems(2,3) fl p1(4) by simp_all
  from Suc.IH [OF p1(2) this p1(3) b] show ?case using p1(1,5) by (auto simp: same_used_def fl)
qed

text \<open>
  Taking a message and giving its buffer back, for buffers that do not overlap. The device may report
  a chain it holds and has not reported.
\<close>

lemma pool_invE:
  assumes "pool_inv addr len n hs ds p"
  obtains fl cs where "vq_inv fl cs ds (pq p)" "length (slot_of p) = VIRTQ_MAX_SIZE" "posted addr len cs p" "hs = hd ` cs"
    "bij_betw (\<lambda>h. slot_of p ! h) hs {..<n}" "\<And>i. i < length ds \<Longrightarrow> unat (snd (used_ring (pq p) ! ring_slot (pq p) i)) \<le> unat len"
  using assms unfolding pool_inv_def by blast

lemma pool_slot_less: "pool_inv addr len n hs ds p \<Longrightarrow> h \<in> hs \<Longrightarrow> slot_of p ! h < n"
  by (elim pool_invE) (auto dest: bij_betwE)

lemma pool_reported: "pool_inv addr len n hs ds p \<Longrightarrow> set ds \<subseteq> hs \<and> distinct ds"
  by (elim pool_invE) (auto dest: vq_invD(4,5))

lemma pool_take:
  assumes "pool_inv addr len n hs (h # ds) p"
  shows "\<exists>vq l p'. virtqueue_get_used (pq p) = Some (Some (of_nat h, l), vq) \<and> unat (of_nat h :: u16) = h \<and> h < VIRTQ_MAX_SIZE
     \<and> l = snd (used_ring (pq p) ! ring_slot (pq p) 0) \<and> unat l \<le> unat len
     \<and> post_buffer addr len (slot_of p ! h) (p\<lparr>pq := vq\<rparr>) = Some p' \<and> pool_inv addr len n hs ds p' \<and> slot_of p' = slot_of p
     \<and> (\<forall>i < length ds. used_ring (pq p') ! ring_slot (pq p') i = used_ring (pq p) ! ring_slot (pq p) (Suc i))
     \<and> queue_index (pq p') = queue_index (pq p) \<and> notify_addr (pq p') = notify_addr (pq p)"
  using assms
proof (elim pool_invE)
  fix fl cs
  assume i: "vq_inv fl cs (h # ds) (pq p)" "length (slot_of p) = VIRTQ_MAX_SIZE" "posted addr len cs p" "hs = hd ` cs"
    "bij_betw (\<lambda>h. slot_of p ! h) hs {..<n}"
    and le: "\<And>i. i < length (h # ds) \<Longrightarrow> unat (snd (used_ring (pq p) ! ring_slot (pq p) i)) \<le> unat len"
  have "h \<in> hd ` cs" using vq_invD(5) [OF i(1)] by simp
  then have c: "[h] \<in> cs" using i(3) by (fastforce simp: posted_def)
  obtain d l where g: "virtqueue_get_used (pq p) = Some (Some (of_nat h, l), (pq p)\<lparr>desc := d, free_head := of_nat h, last_used_idx := last_used_idx (pq p) + 1\<rparr>)"
    "l = snd (used_ring (pq p) ! ring_slot (pq p) 0)"
    "vq_inv (h # fl) (cs - {[h]}) ds ((pq p)\<lparr>desc := d, free_head := of_nat h, last_used_idx := last_used_idx (pq p) + 1\<rparr>)"
    "\<And>x. x \<noteq> h \<Longrightarrow> d ! x = desc (pq p) ! x"
    using get_used_ok [of fl cs "[h]" ds "pq p"] i(1) c by auto
  define vq where "vq = (pq p)\<lparr>desc := d, free_head := of_nat h, last_used_idx := last_used_idx (pq p) + 1\<rparr>"
  note g = g [folded vq_def]
  have vq: "used_ring vq = used_ring (pq p)" "ring_slot vq k = ring_slot (pq p) (Suc k)" "desc vq = d"
      "queue_index vq = queue_index (pq p)" "notify_addr vq = notify_addr (pq p)" for k
    by (simp_all add: vq_def ring_slot_def add.commute add.left_commute)
  let ?p = "p\<lparr>pq := vq\<rparr>"
  have ps: "posted addr len (cs - {[h]}) ?p"
    unfolding posted_def
  proof
    fix q assume q: "q \<in> cs - {[h]}"
    then obtain x where x: "q = [x]" "seen (desc (pq p) ! x) = (virt_to_phys (addr (slot_of p ! x)), len, VRING_DESC_F_WRITE)"
      using i(3) by (auto simp: posted_def)
    then show "\<exists>x. q = [x] \<and> seen (desc (pq ?p) ! x) = (virt_to_phys (addr (slot_of ?p ! x)), len, VRING_DESC_F_WRITE)"
      using q g(4) [of x] by (simp add: vq)
  qed
  obtain p' where p': "post_buffer addr len (slot_of p ! h) ?p = Some p'" "vq_inv fl (insert [h] (cs - {[h]})) ds (pq p')"
    "posted addr len (insert [h] (cs - {[h]})) p'" "slot_of p' = slot_of p" "same_used vq (pq p')"
    using post_buffer_ok [of "h # fl" "cs - {[h]}" ds ?p addr len "slot_of p ! h"] g(3) ps i(2) by auto
  have ins: "insert [h] (cs - {[h]}) = cs" using c by blast
  have ur: "used_ring (pq p') ! ring_slot (pq p') k = used_ring (pq p) ! ring_slot (pq p) (Suc k)" for k
    using p'(5) same_used_slot [OF p'(5)] by (simp add: same_used_def vq)
  have "pool_inv addr len n hs ds p'"
    unfolding pool_inv_def
    by (intro exI [of _ fl] exI [of _ cs]) (use p' i ins ur le [of "Suc k" for k] in auto)
  then show ?thesis
    using g(1,2) le [of 0] p'(1,4,5) ur vq_hd(2,3) [OF i(1) c]
    by (intro exI [of _ vq] exI [of _ l] exI [of _ p']) (simp add: VIRTQ_MAX_SIZE_def same_used_def vq)
qed

lemma pool_empty: "pool_inv addr len n hs [] p \<Longrightarrow> virtqueue_get_used (pq p) = Some (None, pq p)"
  by (elim pool_invE) (rule get_used_none)

locale receive_pool =
  fixes addr :: "nat \<Rightarrow> u64" and len :: u32 and n :: nat
  assumes apart: "\<lbrakk>i < n; j < n; i \<noteq> j\<rbrakk> \<Longrightarrow> region (addr i) (unat len) \<inter> region (addr j) (unat len) = {}"
begin

lemma messages_take:
  assumes "pool_inv addr len n hs (h # ds) p" "slot_of p' = slot_of p"
    "\<forall>i < length ds. used_ring (pq p') ! ring_slot (pq p') i = used_ring (pq p) ! ring_slot (pq p) (Suc i)"
  shows "messages addr m (h # ds) p = message addr m p h (unat (snd (used_ring (pq p) ! ring_slot (pq p) 0))) # messages addr m ds p'"
proof -
  have "[0..<length (h # ds)] = 0 # map Suc [0..<length ds]" by (simp add: map_Suc_upt upt_conv_Cons del: upt_Suc)
  then show ?thesis using assms(2,3) by (simp add: messages_def message_def)
qed

text \<open>Memory outside the buffers does not matter to the messages.\<close>

lemma messages_outside:
  assumes inv: "pool_inv addr len n hs ds p" and m: "\<And>i x. i < n \<Longrightarrow> x \<in> region (addr i) (unat len) \<Longrightarrow> m' x = m x"
  shows "messages addr m' ds p = messages addr m ds p"
  unfolding messages_def
proof (rule map_cong [OF refl])
  fix i assume "i \<in> set [0..<length ds]"
  then have i: "i < length ds" by simp
  let ?l = "unat (snd (used_ring (pq p) ! ring_slot (pq p) i))"
  have l: "?l \<le> unat len" using inv i by (auto elim: pool_invE)
  have "ds ! i \<in> hs" using pool_reported [OF inv] i by auto
  then have s: "slot_of p ! (ds ! i) < n" by (rule pool_slot_less [OF inv])
  have lt: "unat len < 2 ^ 64" using buffer_small [of len] by simp
  have "m' (addr (slot_of p ! (ds ! i)) + of_nat j) = m (addr (slot_of p ! (ds ! i)) + of_nat j)" if "j < ?l" for j
    by (rule m [OF s]) (use that l lt in \<open>simp add: region_self\<close>)
  then show "message addr m' p (ds ! i) ?l = message addr m p (ds ! i) ?l" by (simp add: message_def)
qed

lemma fill_ok:
  assumes inv: "pool_inv addr len n hs ds p" and h: "h \<in> hs" "h \<notin> set ds" and bs: "length bs \<le> unat len"
    and f: "device_fill addr h bs p m = (p', m')"
  shows "pool_inv addr len n hs (ds @ [h]) p'" "messages addr m' (ds @ [h]) p' = messages addr m ds p @ [bs]"
    "slot_of p' = slot_of p" "queue_index (pq p') = queue_index (pq p)" "notify_addr (pq p') = notify_addr (pq p)"
proof -
  obtain fl cs where i: "vq_inv fl cs ds (pq p)" "length (slot_of p) = VIRTQ_MAX_SIZE" "posted addr len cs p" "hs = hd ` cs"
    "bij_betw (\<lambda>h. slot_of p ! h) hs {..<n}" and le: "\<And>i. i < length ds \<Longrightarrow> unat (snd (used_ring (pq p) ! ring_slot (pq p) i)) \<le> unat len"
    using inv by (rule pool_invE) blast
  let ?a = "addr (slot_of p ! h)"
  have p': "p' = p\<lparr>pq := device_used h (of_nat (length bs)) (pq p)\<rparr>"
    and m': "m' = (\<lambda>x. let k = unat (x - ?a) in if k < length bs then bs ! k else m x)"
    using f by (simp_all add: device_fill_def)
  have hc: "h \<in> hd ` cs" using h i(4) by simp
  have lt: "length bs < 2 ^ 32" using bs buffer_small [of len] by simp
  have u: "unat (of_nat (length bs) :: u32) = length bs" by (rule unat_of_nat_small) (use lt in simp)
  have ring: "used_ring (pq p') ! ring_slot (pq p') k = (if k = length ds then (of_nat h, of_nat (length bs)) else used_ring (pq p) ! ring_slot (pq p) k)"
    if "k \<le> length ds" for k using device_used_ring [OF i(1) hc h(2) that] by (simp add: p')
  have "vq_inv fl cs (ds @ [h]) (pq p')" unfolding p' using device_used_ok [OF i(1) hc h(2)] by simp
  moreover have "posted addr len cs p'" using i(3) by (simp add: posted_def p' device_used_def)
  moreover have "unat (snd (used_ring (pq p') ! ring_slot (pq p') k)) \<le> unat len" if "k < length (ds @ [h])" for k
    using ring [of k] le [of k] that bs u by (cases "k = length ds") simp_all
  ultimately show "pool_inv addr len n hs (ds @ [h]) p'"
    unfolding pool_inv_def using i(2,4,5) by (intro exI [of _ fl] exI [of _ cs]) (simp add: p')
  show "slot_of p' = slot_of p" "queue_index (pq p') = queue_index (pq p)" "notify_addr (pq p') = notify_addr (pq p)"
    by (simp_all add: p' device_used_def)
  have lt64: "unat len < 2 ^ 64" using buffer_small [of len] by simp
  have old: "message addr m' p (ds ! k) (unat (snd (used_ring (pq p) ! ring_slot (pq p) k)))
     = message addr m p (ds ! k) (unat (snd (used_ring (pq p) ! ring_slot (pq p) k)))" if k: "k < length ds" for k
  proof -
    have d: "ds ! k \<in> hs" "ds ! k \<noteq> h" using pool_reported [OF inv] k h(2) nth_mem by blast+
    then have ne: "slot_of p ! (ds ! k) \<noteq> slot_of p ! h" using i(5) h(1) by (metis bij_betw_imp_inj_on inj_onD)
    have "m' (addr (slot_of p ! (ds ! k)) + of_nat j) = m (addr (slot_of p ! (ds ! k)) + of_nat j)"
      if j: "j < unat (snd (used_ring (pq p) ! ring_slot (pq p) k))" for j
    proof -
      have "addr (slot_of p ! (ds ! k)) + of_nat j \<in> region (addr (slot_of p ! (ds ! k))) (unat len)"
        using j le [OF k] lt64 by (intro region_self) simp_all
      then have "addr (slot_of p ! (ds ! k)) + of_nat j \<notin> region ?a (unat len)"
        using apart [OF pool_slot_less [OF inv d(1)] pool_slot_less [OF inv h(1)] ne] by blast
      then show ?thesis using bs by (simp add: m' region_def Let_def)
    qed
    then show ?thesis by (simp add: message_def)
  qed
  have new: "message addr m' p h (length bs) = bs"
  proof (rule nth_equalityI)
    fix j assume "j < length (message addr m' p h (length bs))"
    then have j: "j < length bs" by (simp add: message_def)
    then have "unat (of_nat j :: u64) = j" by (intro unat_of_nat_small) (use lt in simp)
    then show "message addr m' p h (length bs) ! j = bs ! j" using j by (simp add: message_def m')
  qed (simp add: message_def)
  have "messages addr m' (ds @ [h]) p' = map (\<lambda>k. message addr m' p ((ds @ [h]) ! k) (unat (snd (used_ring (pq p') ! ring_slot (pq p') k)))) [0..<length ds]
      @ [message addr m' p h (length bs)]"
    using ring [of "length ds"] u by (simp add: messages_def message_def p')
  also have "\<dots> = messages addr m ds p @ [bs]"
    unfolding messages_def new using ring old by (auto simp: nth_append)
  finally show "messages addr m' (ds @ [h]) p' = messages addr m ds p @ [bs]" .
qed

end

end
