(* ===== verification/Net.thy ===== *)
theory Net
  imports Pool
begin

text \<open>
  The network driver, \<^verbatim>\<open>src/virtio_net.c\<close>: sixteen receive buffers that circulate between driver and
  device, and transmission of one frame at a time. As in \<open>Virtio\<close> the device is a parameter.
\<close>

section \<open>State\<close>

definition VIRTIO_NET_HDR_SIZE :: u32 where "VIRTIO_NET_HDR_SIZE = 12"
definition NET_MTU :: u32 where "NET_MTU = 1514"
definition NET_RX_BUF_SIZE :: u32 where "NET_RX_BUF_SIZE = VIRTIO_NET_HDR_SIZE + NET_MTU + 2"
definition NET_RX_RING_SIZE :: nat where "NET_RX_RING_SIZE = 16"
definition VIRTIO_NET_HDR_GSO_NONE :: u8 where "VIRTIO_NET_HDR_GSO_NONE = 0"

text \<open>The addresses of the static objects; buffer \<open>i\<close> is row \<open>i\<close> of an array.\<close>

record net_statics =
  rx_buffers :: u64
  tx_hdr :: u64

definition rx_buffer :: "net_statics \<Rightarrow> nat \<Rightarrow> u64" where
  "rx_buffer g slot = rx_buffers g + of_nat (slot * unat NET_RX_BUF_SIZE)"

record net =
  rxq :: virtqueue
  txq :: virtqueue
  desc_to_rxbuf :: "nat list"
  next_rx_slot :: nat
  net_mem :: memory
  net_kicks :: "(u64 \<times> u16) list"

definition kick_queue :: "virtqueue \<Rightarrow> net \<Rightarrow> net" where
  "kick_queue vq s = s\<lparr>net_kicks := net_kicks s @ [virtqueue_kick vq]\<rparr>"

section \<open>Receiving\<close>

definition rx_pool :: "net \<Rightarrow> pool" where
  "rx_pool s = \<lparr>pq = rxq s, slot_of = desc_to_rxbuf s\<rparr>"

definition set_rx_pool :: "pool \<Rightarrow> net \<Rightarrow> net" where
  "set_rx_pool p s = s\<lparr>rxq := pq p, desc_to_rxbuf := slot_of p\<rparr>"

definition post_rx_buffer :: "net_statics \<Rightarrow> nat \<Rightarrow> net \<Rightarrow> net option" where
  "post_rx_buffer g slot s =
     map_option (\<lambda>p. set_rx_pool p s) (post_buffer (rx_buffer g) NET_RX_BUF_SIZE slot (rx_pool s))"

definition fill_rx_queue :: "net_statics \<Rightarrow> net \<Rightarrow> net option" where
  "fill_rx_queue g s =
     (let count = (if NET_RX_RING_SIZE > unat (num (rxq s)) then unat (num (rxq s)) else NET_RX_RING_SIZE)
      in map_option (\<lambda>p. let s = (set_rx_pool p s)\<lparr>next_rx_slot := count\<rparr> in kick_queue (rxq s) s)
           (post_from (rx_buffer g) NET_RX_BUF_SIZE count 0 (rx_pool s)))"

text \<open>
  The result is the length of the frame, cut off at the size of the caller's buffer. \<open>int\<close> in C: a length
  with the top bit set is negative, the copying loop then does nothing.
\<close>

definition virtio_net_rx :: "net_statics \<Rightarrow> u64 \<Rightarrow> u32 \<Rightarrow> net \<Rightarrow> (int \<times> net) option" where
  "virtio_net_rx g buf buf_size s =
     (case virtqueue_get_used (rxq s) of
        None \<Rightarrow> None
      | Some (None, vq) \<Rightarrow> Some (0, s\<lparr>rxq := vq\<rparr>)
      | Some (Some (desc_idx, total_len), vq) \<Rightarrow>
          if unat desc_idx \<ge> length (desc_to_rxbuf s) then None
          else
            let s = s\<lparr>rxq := vq\<rparr>;
                slot = desc_to_rxbuf s ! unat desc_idx;
                frame_len = (if total_len > VIRTIO_NET_HDR_SIZE
                  then (if total_len - VIRTIO_NET_HDR_SIZE > buf_size then buf_size else total_len - VIRTIO_NET_HDR_SIZE) else 0);
                s = s\<lparr>net_mem := copy_bytes (nat (sint frame_len)) buf (rx_buffer g slot + ucast VIRTIO_NET_HDR_SIZE) (net_mem s)\<rparr>
            in map_option (\<lambda>s. (sint frame_len, kick_queue (rxq s) s)) (post_rx_buffer g slot s))"

section \<open>Transmitting\<close>

definition tx_io :: "net \<Rightarrow> io" where
  "tx_io s = \<lparr>queue = txq s, mem = net_mem s, kicks = net_kicks s\<rparr>"

definition set_tx_io :: "io \<Rightarrow> net \<Rightarrow> net" where
  "set_tx_io i s = s\<lparr>txq := queue i, net_mem := mem i, net_kicks := kicks i\<rparr>"

definition write_tx_hdr :: "net_statics \<Rightarrow> memory \<Rightarrow> memory" where
  "write_tx_hdr g m =
     store_le 2 (tx_hdr g + 10) 0
       (store_le 2 (tx_hdr g + 8) 0
         (store_le 2 (tx_hdr g + 6) 0
           (store_le 2 (tx_hdr g + 4) 0
             (store_le 2 (tx_hdr g + 2) 0
               (store_le 1 (tx_hdr g + 1) (ucast VIRTIO_NET_HDR_GSO_NONE)
                 (store_le 1 (tx_hdr g) 0 m))))))"

definition tx_chain :: "net_statics \<Rightarrow> u64 \<Rightarrow> u32 \<Rightarrow> vq_buf list" where
  "tx_chain g fr len =
     [\<lparr>b_addr = tx_hdr g, b_len = VIRTIO_NET_HDR_SIZE, b_flags = 0\<rparr>,
      \<lparr>b_addr = fr, b_len = len, b_flags = 0\<rparr>]"

definition net_send :: "device \<Rightarrow> net_statics \<Rightarrow> u64 \<Rightarrow> u32 \<Rightarrow> io \<Rightarrow> (int \<times> io) option" where
  "net_send dv g fr len s =
     (let s = s\<lparr>mem := write_tx_hdr g (mem s)\<rparr>
      in case virtqueue_add_chain (tx_chain g fr len) (queue s) of
           None \<Rightarrow> None
         | Some (head, vq) \<Rightarrow>
             let s = s\<lparr>queue := vq\<rparr>
             in if head = 0xFFFF then Some (-1, s)
                else case poll_used dv 0 50000000 (kick s) of
                  None \<Rightarrow> None
                | Some (None, s) \<Rightarrow> Some (-1, s)
                | Some (Some _, s) \<Rightarrow> Some (0, s))"

definition virtio_net_tx :: "device \<Rightarrow> net_statics \<Rightarrow> u64 \<Rightarrow> u32 \<Rightarrow> net \<Rightarrow> (int \<times> net) option" where
  "virtio_net_tx dv g fr len s = map_option (\<lambda>(r, i). (r, set_tx_io i s)) (net_send dv g fr len (tx_io s))"

end
