(* ===== verification/NetSpec.thy ===== *)
theory NetSpec
  imports Net
begin

text \<open>
  The receive path of the network driver is a queue of frames: what the device delivers is what the
  caller gets, in order and without its header, and every buffer stays in circulation. A frame that
  is sent reaches the device as one chain of header and data.
\<close>

section \<open>Receive buffers\<close>

lemma NET_RX_BUF_SIZE_unat: "unat NET_RX_BUF_SIZE = 1528"
  by (simp add: NET_RX_BUF_SIZE_def VIRTIO_NET_HDR_SIZE_def NET_MTU_def)

lemma rx_buffers_apart:
  assumes "i < NET_RX_RING_SIZE" "j < NET_RX_RING_SIZE" "i \<noteq> j"
  shows "region (rx_buffer g i) (unat NET_RX_BUF_SIZE) \<inter> region (rx_buffer g j) (unat NET_RX_BUF_SIZE) = {}"
proof -
  have "region (rx_buffer g i) 1528 \<inter> region (rx_buffer g j) 1528 = {}" if "i < j" "j < 16" for i j
    unfolding rx_buffer_def NET_RX_BUF_SIZE_unat using that by (intro region_apart) simp_all
  from this [of i j] this [of j i] show ?thesis
    using assms by (auto simp: NET_RX_BUF_SIZE_unat NET_RX_RING_SIZE_def neq_iff)
qed

interpretation rx: receive_pool "rx_buffer g" NET_RX_BUF_SIZE NET_RX_RING_SIZE for g
  by unfold_locales (rule rx_buffers_apart)

definition rx_inv :: "net_statics \<Rightarrow> nat set \<Rightarrow> nat list \<Rightarrow> net \<Rightarrow> bool" where
  "rx_inv g hs ds s \<longleftrightarrow> pool_inv (rx_buffer g) NET_RX_BUF_SIZE NET_RX_RING_SIZE hs ds (rx_pool s)"

lemma pool_eta [simp]: "\<lparr>pq = pq p, slot_of = slot_of p\<rparr> = p"
  by (cases p) simp

text \<open>The frames that wait to be taken, without their headers.\<close>

definition frames :: "net_statics \<Rightarrow> nat list \<Rightarrow> net \<Rightarrow> u8 list list" where
  "frames g ds s = map (drop (unat VIRTIO_NET_HDR_SIZE)) (messages (rx_buffer g) (net_mem s) ds (rx_pool s))"

definition buf_apart :: "net_statics \<Rightarrow> u64 \<Rightarrow> u32 \<Rightarrow> bool" where
  "buf_apart g buf n \<longleftrightarrow> (\<forall>i < NET_RX_RING_SIZE. region (rx_buffer g i) (unat NET_RX_BUF_SIZE) \<inter> region buf (unat n) = {})"

lemma fill_rx_queue_ok:
  assumes "vq_inv [0..<unat (num (rxq s))] {} [] (rxq s)" "NET_RX_RING_SIZE \<le> unat (num (rxq s))" "length (desc_to_rxbuf s) = VIRTQ_MAX_SIZE"
  shows "\<exists>s'. fill_rx_queue g s = Some s' \<and> rx_inv g {..<NET_RX_RING_SIZE} [] s' \<and> txq s' = txq s \<and> net_mem s' = net_mem s
     \<and> net_kicks s' = net_kicks s @ [virtqueue_kick (rxq s)]"
proof -
  have i: "vq_inv [0..<unat (num (rxq s))] {} [] (pq (rx_pool s))" "length (slot_of (rx_pool s)) = VIRTQ_MAX_SIZE"
    "NET_RX_RING_SIZE \<le> length [0..<unat (num (rxq s))]" using assms by (simp_all add: rx_pool_def)
  have tk: "set (take NET_RX_RING_SIZE [0..<unat (num (rxq s))]) = {..<NET_RX_RING_SIZE}" using assms(2) by (auto simp: take_upt)
  obtain p' where "post_from (rx_buffer g) NET_RX_BUF_SIZE NET_RX_RING_SIZE 0 (rx_pool s) = Some p'"
    "pool_inv (rx_buffer g) NET_RX_BUF_SIZE (0 + NET_RX_RING_SIZE) {..<NET_RX_RING_SIZE} [] p'" "same_used (rxq s) (pq p')"
    using post_from_ok [OF i(1,3,2), of "rx_buffer g" NET_RX_BUF_SIZE 0, unfolded tk] by (auto simp: posted_def bij_betw_def rx_pool_def)
  then show ?thesis using assms(2)
    by (simp add: fill_rx_queue_def Let_def rx_inv_def rx_pool_def set_rx_pool_def kick_queue_def virtqueue_kick_def same_used_def)
qed

lemma sint_length: "unat (w :: u32) < 2 ^ 31 \<Longrightarrow> sint w = int (unat w)"
  by (rule sint_small) simp

text \<open>
  One call takes the oldest frame, if there is one, and puts what fits of it into the caller's buffer.
\<close>

lemma virtio_net_rx_ok:
  assumes inv: "rx_inv g hs ds s" and buf: "buf_apart g buf n" and n: "unat n < 2 ^ 31"
  defines "fr \<equiv> (case frames g ds s of [] \<Rightarrow> [] | f # _ \<Rightarrow> take (unat n) f)"
  shows "\<exists>s'. virtio_net_rx g buf n s = Some (int (length fr), s') \<and> rx_inv g hs (tl ds) s' \<and> frames g (tl ds) s' = tl (frames g ds s)
     \<and> map (\<lambda>j. net_mem s' (buf + of_nat j)) [0..<length fr] = fr \<and> (\<forall>x. x \<notin> region buf (unat n) \<longrightarrow> net_mem s' x = net_mem s x)
     \<and> txq s' = txq s \<and> queue_index (rxq s') = queue_index (rxq s) \<and> notify_addr (rxq s') = notify_addr (rxq s)"
proof (cases ds)
  case Nil
  have "virtqueue_get_used (rxq s) = Some (None, rxq s)"
    using pool_empty [of "rx_buffer g" NET_RX_BUF_SIZE NET_RX_RING_SIZE hs "rx_pool s"] inv Nil by (simp add: rx_inv_def rx_pool_def)
  moreover have "frames g ds s = []" by (simp add: frames_def messages_def Nil)
  ultimately show ?thesis using inv Nil by (simp add: virtio_net_rx_def fr_def)
next
  case (Cons h ds')
  let ?A = "rx_buffer g" and ?p = "rx_pool s"
  have inv': "pool_inv ?A NET_RX_BUF_SIZE NET_RX_RING_SIZE hs (h # ds') ?p" using inv Cons by (simp add: rx_inv_def)
  obtain vq l p' where t: "virtqueue_get_used (rxq s) = Some (Some (of_nat h, l), vq)" "unat (of_nat h :: u16) = h" "h < 256"
    "l = snd (used_ring (pq ?p) ! ring_slot (pq ?p) 0)" "unat l \<le> 1528"
    "post_buffer ?A NET_RX_BUF_SIZE (desc_to_rxbuf s ! h) \<lparr>pq = vq, slot_of = desc_to_rxbuf s\<rparr> = Some p'"
    "pool_inv ?A NET_RX_BUF_SIZE NET_RX_RING_SIZE hs ds' p'" "slot_of p' = slot_of ?p"
    "\<forall>i < length ds'. used_ring (pq p') ! ring_slot (pq p') i = used_ring (pq ?p) ! ring_slot (pq ?p) (Suc i)"
    "queue_index (pq p') = queue_index (rxq s)" "notify_addr (pq p') = notify_addr (rxq s)"
    using pool_take [OF inv'] by (auto simp: rx_pool_def VIRTQ_MAX_SIZE_def NET_RX_BUF_SIZE_unat)
  have len: "length (desc_to_rxbuf s) = 256" using inv' by (elim pool_invE) (simp add: rx_pool_def VIRTQ_MAX_SIZE_def)
  define src where "src = ?A (desc_to_rxbuf s ! h)"
  define fl where "fl = (if l > VIRTIO_NET_HDR_SIZE then (if l - VIRTIO_NET_HDR_SIZE > n then n else l - VIRTIO_NET_HDR_SIZE) else 0)"
  have slot: "desc_to_rxbuf s ! h < NET_RX_RING_SIZE"
    using pool_slot_less [OF inv', of h] pool_reported [OF inv'] by (simp add: rx_pool_def)
  have fl: "unat fl = min (unat l - 12) (unat n)"
    by (auto simp: fl_def VIRTIO_NET_HDR_SIZE_def word_less_nat_alt unat_sub word_le_nat_alt min_def)
  then have sfl: "sint fl = int (unat fl)" using n by (intro sint_length) simp
  define m' where "m' = copy_bytes (unat fl) buf (src + 12) (net_mem s)"
  have hdr: "src + ucast VIRTIO_NET_HDR_SIZE = src + 12" by (simp add: VIRTIO_NET_HDR_SIZE_def)
  define s' where "s' = kick_queue (pq p') (set_rx_pool p' (s\<lparr>rxq := vq, net_mem := m'\<rparr>))"
  have r: "virtio_net_rx g buf n s = Some (int (unat fl), s')"
    using t(1,2,3,6) len
    by (simp add: virtio_net_rx_def fl_def [symmetric] src_def [symmetric] Let_def post_rx_buffer_def rx_pool_def sfl hdr
      m'_def [symmetric] s'_def) (simp add: set_rx_pool_def kick_queue_def)
  have s': "rx_pool s' = p'" "net_mem s' = m'" "txq s' = txq s" by (simp_all add: s'_def rx_pool_def kick_queue_def set_rx_pool_def)
  have near: "src + 12 + of_nat j \<in> region src 1528" "buf + of_nat j \<in> region buf (unat n)" if "j < unat fl" for j
  proof -
    have "12 + j < 1528" using that fl t(5) by linarith
    from region_self [OF this, of src] show "src + 12 + of_nat j \<in> region src 1528" by (simp add: add.assoc)
    show "buf + of_nat j \<in> region buf (unat n)" using that fl buffer_small [of n] by (intro region_self) simp_all
  qed
  have dis: "region src 1528 \<inter> region buf (unat n) = {}"
    using buf slot by (simp add: buf_apart_def src_def NET_RX_BUF_SIZE_unat)
  have m': "m' x = (if unat (x - buf) < unat fl then net_mem s (src + 12 + (x - buf)) else net_mem s x)" for x
    unfolding m'_def
  proof (rule copy_bytes_apply)
    show "unat fl < 2 ^ 64" using buffer_small [of fl] by simp
    show "buf + of_nat i \<noteq> src + 12 + of_nat j" if "i < unat fl" "j < unat fl" for i j
      using near(1) [OF that(2)] near(2) [OF that(1)] dis by (metis disjoint_iff)
  qed
  have keep: "m' x = net_mem s x" if "x \<notin> region buf (unat n)" for x
    using that fl by (simp add: m' region_def)
  have msg: "messages ?A (net_mem s) ds ?p = message ?A (net_mem s) ?p h (unat l) # messages ?A (net_mem s) ds' p'"
    unfolding Cons t(4) by (rule rx.messages_take [OF inv' t(8,9)])
  have out: "messages ?A m' ds' p' = messages ?A (net_mem s) ds' p'"
    by (rule rx.messages_outside [OF t(7)]) (use keep buf in \<open>auto simp: buf_apart_def\<close>)
  have fr: "fr = map (\<lambda>j. net_mem s (src + 12 + of_nat j)) [0..<unat fl]"
    unfolding fr_def frames_def msg message_def
    by (rule nth_equalityI) (simp_all add: fl VIRTIO_NET_HDR_SIZE_def src_def rx_pool_def drop_map less_diff_conv add.assoc min.commute)
  have "net_mem s' (buf + of_nat j) = fr ! j" if "j < unat fl" for j
  proof -
    have "unat (of_nat j :: u64) = j" by (rule unat_of_nat_small) (use that buffer_small [of fl] in simp)
    then show ?thesis using that by (simp add: s' m' fr)
  qed
  then have "map (\<lambda>j. net_mem s' (buf + of_nat j)) [0..<length fr] = fr" by (intro nth_equalityI) (simp_all add: fr)
  moreover have "frames g (tl ds) s' = tl (frames g ds s)" using out by (simp add: frames_def s' msg) (simp add: Cons)
  ultimately show ?thesis
    using r t(7,10,11) keep s' by (intro exI [of _ s']) (simp add: fr rx_inv_def Cons s'_def kick_queue_def set_rx_pool_def)
qed

section \<open>Sending\<close>

text \<open>
  Virtio 1.1, 5.1.6.2: a packet is a device-readable chain of a header without offloads, all zero, and the
  frame. A device that takes exactly the frame \<open>bs\<close>, at the \<open>n\<close>-th look:
\<close>

definition tx_request :: "nat \<Rightarrow> io \<Rightarrow> bool" where
  "tx_request h s \<longleftrightarrow> linked (desc (queue s)) [h, unat (d_next (req_desc 0 h s))] \<and> d_len (req_desc 0 h s) = 12
     \<and> d_flags (req_desc 0 h s) AND VRING_DESC_F_WRITE = 0 \<and> d_flags (req_desc 1 h s) AND VRING_DESC_F_WRITE = 0
     \<and> (\<forall>i < 12. mem s (phys_to_virt (d_addr (req_desc 0 h s)) + of_nat i) = 0)"

definition bytes :: "memory \<Rightarrow> u64 \<Rightarrow> nat \<Rightarrow> u8 list" where
  "bytes m a n = map (\<lambda>i. m (a + of_nat i)) [0..<n]"

definition sent_frame :: "nat \<Rightarrow> io \<Rightarrow> u8 list" where
  "sent_frame h s = bytes (mem s) (phys_to_virt (d_addr (req_desc 1 h s))) (unat (d_len (req_desc 1 h s)))"

definition takes_frame :: "u8 list \<Rightarrow> nat \<Rightarrow> device \<Rightarrow> bool" where
  "takes_frame bs n dv \<longleftrightarrow> (\<forall>i < n. \<forall>s. dv i s = s)
     \<and> (\<forall>s. tx_request (newest s) s \<and> sent_frame (newest s) s = bs \<longrightarrow> dv n s = s\<lparr>queue := device_used (newest s) 0 (queue s)\<rparr>)"

lemma write_tx_hdr:
  shows "i < 12 \<Longrightarrow> write_tx_hdr g m (tx_hdr g + of_nat i) = 0" "x \<notin> region (tx_hdr g) 12 \<Longrightarrow> write_tx_hdr g m x = m x"
proof -
  assume i: "i < 12"
  then have u: "unat (of_nat i :: u64) = i" by (intro unat_of_nat_small) simp
  have d: "tx_hdr g + of_nat i - (tx_hdr g + k) = of_nat i - k" for k by simp
  have "i \<in> {0, 1, 2, 3, 4, 5, 6, 7, 8, 9, 10, 11}" unfolding insert_iff empty_iff using i by arith
  then show "write_tx_hdr g m (tx_hdr g + of_nat i) = 0"
    by (elim insertE; simp add: write_tx_hdr_def store_le_def VIRTIO_NET_HDR_GSO_NONE_def)
next
  assume x: "x \<notin> region (tx_hdr g) 12"
  have "x \<notin> region (tx_hdr g + of_nat k) l" if "k + l \<le> 12" for k l
    using x region_sub [of k l 12 "tx_hdr g"] that by auto
  from this [of 0 1] this [of 1 1] this [of 2 2] this [of 4 2] this [of 6 2] this [of 8 2] this [of 10 2]
  show "write_tx_hdr g m x = m x" by (simp add: write_tx_hdr_def store_le_outside)
qed

lemma take2: "2 \<le> length fl \<Longrightarrow> \<exists>a b r. fl = a # b # r"
  by (cases fl; cases "tl fl") auto

text \<open>
  C33: when the device takes, at poll number \<open>n\<close>, exactly the bytes of the caller's frame, which it does only of a request
  of the form of the virtio specification that carries the frame, then sending it succeeds if \<open>n\<close> is within the 50,000,000 polls
  of the driver, and all descriptors are free again afterwards; otherwise the result is -1, and the chain of the header and the frame
  stays with the device. In both cases only the header was written.
\<close>

theorem net_tx_sends:
  assumes inv: "vq_inv fl {} [] (txq s)" and fl: "2 \<le> length fl" and ap: "region (tx_hdr g) 12 \<inter> region fr (unat len) = {}"
    and dv: "takes_frame (bytes (net_mem s) fr (unat len)) n dv"
  shows "\<exists>s' fl'. virtio_net_tx dv g fr len s = Some (if n < 50000000 then 0 else -1, s')
     \<and> (if n < 50000000 then vq_inv fl' {} [] (txq s') \<and> set fl' = set fl
        else (\<exists>a b. fl = a # b # fl' \<and> vq_inv fl' {[a, b]} [] (txq s')))
     \<and> (\<forall>x. x \<notin> region (tx_hdr g) 12 \<longrightarrow> net_mem s' x = net_mem s x) \<and> rx_pool s' = rx_pool s"
proof -
  let ?bs = "tx_chain g fr len" and ?i = "tx_io s"
  obtain a b fl' where fl: "fl = a # b # fl'" using take2 [OF fl] by auto
  have bs: "?bs \<noteq> []" "length ?bs \<le> length fl" "\<forall>b \<in> set ?bs. b_flags b AND VRING_DESC_F_NEXT = 0" by (simp_all add: tx_chain_def fl)
  have ab: "hd fl = a" "drop (length ?bs) fl = fl'" "take (length ?bs) fl = [a, b]" by (simp_all add: tx_chain_def fl)
  have i: "vq_inv fl {} [] (queue ?i)" using inv by (simp add: tx_io_def)
  obtain vq s1 where r: "virtqueue_add_chain ?bs (queue ?i) = Some (of_nat a, vq)"
    "s1 = kick (?i\<lparr>mem := write_tx_hdr g (net_mem s), queue := vq\<rparr>)"
    "vq_inv fl' {[a, b]} [] (queue s1)" "of_nat a \<noteq> (0xFFFF :: u16)" "newest s1 = a" "carries (queue s1) [a, b] ?bs"
    "mem s1 = write_tx_hdr g (net_mem s)"
    using chain_submitted [OF i bs, of "write_tx_hdr g (net_mem s)", unfolded ab] by (elim exE conjE) (rule that)
  have sn: "seen (req_desc 0 a s1) = (virt_to_phys (tx_hdr g), 12, 0)" "seen (req_desc 1 a s1) = (virt_to_phys fr, len, 0)"
    using carries_req(2) [OF r(6), of 0] carries_req(2) [OF r(6), of 1] by (simp_all add: tx_chain_def offered_def VIRTIO_NET_HDR_SIZE_def)
  have nx: "unat (d_next (req_desc 0 a s1)) = b" "linked (desc (queue s1)) [a, b]"
    using carries_req(1) [OF r(6), of 0] r(6) by (simp_all add: carries_def)
  have "tx_request a s1"
    unfolding tx_request_def using nx seen_write [OF sn(1)] seen_write [OF sn(2)] sn(1) by (simp add: seen_def r(7) write_tx_hdr(1))
  moreover have "sent_frame a s1 = bytes (net_mem s) fr (unat len)"
    unfolding sent_frame_def bytes_def
  proof (rule map_cong)
    show "[0..<unat (d_len (req_desc 1 a s1))] = [0..<unat len]" using sn(2) by (simp add: seen_def)
    fix j assume "j \<in> set [0..<unat len]"
    then have "fr + of_nat j \<in> region fr (unat len)" using buffer_small [of len] by (intro region_self) simp_all
    then have "fr + of_nat j \<notin> region (tx_hdr g) 12" using ap by blast
    then show "mem s1 (phys_to_virt (d_addr (req_desc 1 a s1)) + of_nat j) = net_mem s (fr + of_nat j)"
      using sn(2) write_tx_hdr(2) by (simp add: seen_def r(7))
  qed
  ultimately have d: "dv n s1 = s1\<lparr>queue := device_used (hd [a, b]) 0 (queue s1), mem := mem s1\<rparr>"
    using dv r(5) by (simp add: takes_frame_def)
  have silent: "\<forall>i < n. \<forall>s. dv i s = s" using dv by (simp add: takes_frame_def)
  show ?thesis
  proof (cases "n < 50000000")
    case n: True
    obtain vq2 used where p: "poll_used dv 0 50000000 s1 = Some (Some used, s1\<lparr>queue := vq2, mem := mem s1\<rparr>)"
      "vq_inv (rev [a, b] @ fl') {} [] vq2"
      using poll_reported [where ch = "[a, b]" and cs = "{}", OF r(3) _ silent n d] by auto
    have "virtio_net_tx dv g fr len s = Some (0, set_tx_io (s1\<lparr>queue := vq2, mem := mem s1\<rparr>) s)"
      using r(1,4) p(1) unfolding virtio_net_tx_def net_send_def Let_def r(2) by (simp add: tx_io_def kick_def)
    then show ?thesis
      using n p(2) write_tx_hdr(2) by (intro exI [of _ "set_tx_io (s1\<lparr>queue := vq2, mem := mem s1\<rparr>) s"] exI [of _ "rev [a, b] @ fl'"])
        (auto simp: set_tx_io_def fl r(7) rx_pool_def)
  next
    case n: False
    have "poll_used dv 0 (50000000 + 0) s1 = poll_used dv (0 + 50000000) 0 s1"
      by (rule poll_silent [OF _ get_used_none [OF r(3)]]) (use silent n in simp)
    then have "virtio_net_tx dv g fr len s = Some (-1, set_tx_io s1 s)"
      using r(1,4) unfolding virtio_net_tx_def net_send_def Let_def r(2) by (simp add: tx_io_def kick_def)
    then show ?thesis
      using n r(3) write_tx_hdr(2) by (intro exI [of _ "set_tx_io s1 s"] exI [of _ fl']) (auto simp: set_tx_io_def fl r(7) rx_pool_def)
  qed
qed

definition demo_net_g :: net_statics where
  "demo_net_g = \<lparr>rx_buffers = 0xFFFFFF8040200000, tx_hdr = 0xFFFFFF8040210000\<rparr>"

definition demo_net :: "virtqueue \<Rightarrow> virtqueue \<Rightarrow> net" where
  "demo_net rq tq = \<lparr>rxq = rq, txq = tq, desc_to_rxbuf = replicate 256 0, next_rx_slot = 0, net_mem = (\<lambda>_. 7), net_kicks = []\<rparr>"

definition demo_wire :: device where
  "demo_wire i s = (if i = 0 then s\<lparr>queue := device_used (newest s) 0 (queue s)\<rparr> else s)"

theorem net_tx_sends_witness:
  "\<exists>s s'. virtio_net_tx demo_wire demo_net_g 0xFFFFFF8040220000 3 s = Some (0, s') \<and> net_mem s 0xFFFFFF8040210000 = 7
     \<and> net_mem s' 0xFFFFFF8040220000 = 7"
proof -
  obtain vq where q: "vq_inv [0, 1, 2, 3, 4, 5, 6, 7] {} [] vq" by (rule demo_queue)
  let ?s = "demo_net vq vq"
  have h: "vq_inv [0, 1, 2, 3, 4, 5, 6, 7] {} [] (txq ?s)" "2 \<le> length [0, 1, 2, 3, 4, 5, 6, 7 :: nat]"
    "region (tx_hdr demo_net_g) 12 \<inter> region 0xFFFFFF8040220000 (unat (3 :: u32)) = {}"
    "takes_frame (bytes (net_mem ?s) 0xFFFFFF8040220000 (unat (3 :: u32))) 0 demo_wire"
    using q region_apart [of 0 12 65536 3 "0xFFFFFF8040210000"] by (simp_all add: demo_net_def demo_net_g_def takes_frame_def demo_wire_def)
  obtain s' where "virtio_net_tx demo_wire demo_net_g 0xFFFFFF8040220000 3 ?s = Some (0, s')"
    "\<forall>x. x \<notin> region (tx_hdr demo_net_g) 12 \<longrightarrow> net_mem s' x = net_mem ?s x"
    using net_tx_sends [OF h] by auto
  then show ?thesis by (intro exI [of _ ?s] exI [of _ s']) (simp add: demo_net_def demo_net_g_def region_def)
qed

section \<open>Runs\<close>

text \<open>
  The life of the driver after initialisation: packets arrive in buffers the device holds, the caller
  takes frames into its buffer and sends frames. \<open>sent\<close> are the packets that arrived, \<open>got\<close> the frames
  that the caller was given.
\<close>

inductive net_run :: "net_statics \<Rightarrow> u64 \<Rightarrow> u32 \<Rightarrow> net \<Rightarrow> nat list \<Rightarrow> u8 list list \<Rightarrow> u8 list list \<Rightarrow> bool" for g buf n where
  start: "\<lbrakk>virtqueue_init 256 0 na k vq0 = Some (k', rxq s); k < VIRTQ_MAX_QUEUES; length (desc_to_rxbuf s) = VIRTQ_MAX_SIZE;
    fill_rx_queue g s = Some s'\<rbrakk> \<Longrightarrow> net_run g buf n s' [] [] []"
| arrive: "\<lbrakk>net_run g buf n s ds sent got; h < NET_RX_RING_SIZE; h \<notin> set ds; length bs \<le> unat NET_RX_BUF_SIZE;
    device_fill (rx_buffer g) h bs (rx_pool s) (net_mem s) = (p, m)\<rbrakk>
    \<Longrightarrow> net_run g buf n ((set_rx_pool p s)\<lparr>net_mem := m\<rparr>) (ds @ [h]) (sent @ [bs]) got"
| receive: "\<lbrakk>net_run g buf n s ds sent got; virtio_net_rx g buf n s = Some (r, s')\<rbrakk>
    \<Longrightarrow> net_run g buf n s' (tl ds) sent (if r = 0 then got else got @ [bytes (net_mem s') buf (nat r)])"
| transmit: "\<lbrakk>net_run g buf n s ds sent got; virtio_net_tx dv g fr len s = Some (r, s'); \<forall>i t. mem (dv i t) = mem t\<rbrakk>
    \<Longrightarrow> net_run g buf n s' ds sent got"

lemma poll_used_mem:
  assumes "\<forall>i t. mem (dv i t) = mem t" "poll_used dv i k t = Some (r, t')"
  shows "mem t' = mem t"
  using assms by (induction dv i k t rule: poll_used.induct) (auto simp: Let_def split: option.splits prod.splits)

lemma virtio_net_tx_keeps:
  assumes "virtio_net_tx dv g fr len s = Some (r, s')" "\<forall>i t. mem (dv i t) = mem t"
  shows "rx_pool s' = rx_pool s" "x \<notin> region (tx_hdr g) 12 \<Longrightarrow> net_mem s' x = net_mem s x"
proof -
  obtain t where t: "net_send dv g fr len (tx_io s) = Some (r, t)" "s' = set_tx_io t s"
    using assms(1) by (auto simp: virtio_net_tx_def)
  show "rx_pool s' = rx_pool s" by (simp add: t(2) rx_pool_def set_tx_io_def)
  have "mem t = write_tx_hdr g (net_mem s)"
    using t(1) by (auto simp: net_send_def Let_def tx_io_def kick_def split: option.splits prod.splits if_splits dest: poll_used_mem [OF assms(2)])
  then show "x \<notin> region (tx_hdr g) 12 \<Longrightarrow> net_mem s' x = net_mem s x" by (simp add: t(2) set_tx_io_def write_tx_hdr(2))
qed

definition hdr_apart :: "net_statics \<Rightarrow> bool" where
  "hdr_apart g \<longleftrightarrow> (\<forall>i < NET_RX_RING_SIZE. region (rx_buffer g i) (unat NET_RX_BUF_SIZE) \<inter> region (tx_hdr g) 12 = {})"

text \<open>
  C20: the receive path is a queue. However arrivals, receptions and transmissions interleave, all sixteen
  buffers stay in circulation, and the frames the caller was given followed by those that wait are the
  frames that arrived, in order, without headers, cut off at the caller's buffer, empty ones left out.
\<close>

theorem net_receives_in_order:
  assumes "net_run g buf n s ds sent got" and buf: "buf_apart g buf n" "hdr_apart g" and n: "unat n < 2 ^ 31"
  shows "rx_inv g {..<NET_RX_RING_SIZE} ds s
     \<and> got @ filter (\<lambda>f. f \<noteq> []) (map (take (unat n)) (frames g ds s))
       = filter (\<lambda>f. f \<noteq> []) (map (\<lambda>bs. take (unat n) (drop (unat VIRTIO_NET_HDR_SIZE) bs)) sent)"
  using assms(1)
proof (induction rule: net_run.induct)
  case (start na k vq0 k' s s')
  have n256: "(256 :: u16) \<noteq> 0" "unat (256 :: u16) dvd 65536" by simp_all
  have "num (rxq s) = 256 \<and> vq_inv [0..<unat (num (rxq s))] {} [] (rxq s)"
    using virtqueue_init_inv [OF start(2) n256, of 0 na vq0] start(1) by auto
  then have "rx_inv g {..<NET_RX_RING_SIZE} [] s'"
    using fill_rx_queue_ok [of s g] start.hyps(3,4) by (auto simp: NET_RX_RING_SIZE_def)
  then show ?case by (simp add: frames_def messages_def)
next
  case (arrive s ds sent got h bs p m)
  let ?s = "(set_rx_pool p s)\<lparr>net_mem := m\<rparr>"
  have inv: "pool_inv (rx_buffer g) NET_RX_BUF_SIZE NET_RX_RING_SIZE {..<NET_RX_RING_SIZE} ds (rx_pool s)"
    using arrive.IH by (simp add: rx_inv_def)
  have h: "h \<in> {..<NET_RX_RING_SIZE}" using arrive by simp
  note f = rx.fill_ok [OF inv h arrive(3,4,5)]
  have "rx_pool ?s = p" by (simp add: rx_pool_def set_rx_pool_def)
  then have "rx_inv g {..<NET_RX_RING_SIZE} (ds @ [h]) ?s" "frames g (ds @ [h]) ?s = frames g ds s @ [drop (unat VIRTIO_NET_HDR_SIZE) bs]"
    using f(1,2) by (simp_all add: rx_inv_def frames_def set_rx_pool_def)
  then show ?case using arrive.IH by simp
next
  case (receive s ds sent got r s')
  let ?fr = "case frames g ds s of [] \<Rightarrow> [] | f # _ \<Rightarrow> take (unat n) f"
  have inv: "rx_inv g {..<NET_RX_RING_SIZE} ds s" using receive.IH by simp
  have r: "r = int (length ?fr)" "rx_inv g {..<NET_RX_RING_SIZE} (tl ds) s'" "frames g (tl ds) s' = tl (frames g ds s)"
    "bytes (net_mem s') buf (length ?fr) = ?fr"
    using virtio_net_rx_ok [OF inv buf(1) n] receive(2) by (auto simp: bytes_def)
  have e1: "(if r = 0 then got else got @ [bytes (net_mem s') buf (nat r)]) = got @ filter (\<lambda>f. f \<noteq> []) [?fr]"
    using r(1,4) by simp
  have e2: "filter (\<lambda>f. f \<noteq> []) [?fr] @ filter (\<lambda>f. f \<noteq> []) (map (take (unat n)) (tl (frames g ds s)))
     = filter (\<lambda>f. f \<noteq> []) (map (take (unat n)) (frames g ds s))" by (cases "frames g ds s") simp_all
  show ?case using r(2) receive.IH by (simp only: e1 r(3) append_assoc e2 simp_thms)
next
  case (transmit s ds sent got dv fr len r s')
  note k = virtio_net_tx_keeps [OF transmit(2,3)]
  have inv: "pool_inv (rx_buffer g) NET_RX_BUF_SIZE NET_RX_RING_SIZE {..<NET_RX_RING_SIZE} ds (rx_pool s)"
    using transmit.IH by (simp add: rx_inv_def)
  have "messages (rx_buffer g) (net_mem s') ds (rx_pool s) = messages (rx_buffer g) (net_mem s) ds (rx_pool s)"
    by (rule rx.messages_outside [OF inv]) (use k(2) buf(2) in \<open>auto simp: hdr_apart_def\<close>)
  then show ?case using transmit.IH k(1) by (simp add: rx_inv_def frames_def)
qed

lemma demo_apart: "buf_apart demo_net_g 0xFFFFFF8040220000 1514" "hdr_apart demo_net_g"
proof -
  have "region (0xFFFFFF8040200000 + of_nat (i * 1528)) 1528 \<inter> region (0xFFFFFF8040200000 + of_nat 131072) 1514 = {}"
    "region (0xFFFFFF8040200000 + of_nat (i * 1528)) 1528 \<inter> region (0xFFFFFF8040200000 + of_nat 65536) 12 = {}" if "i < 16" for i
    using that by (intro region_apart; simp)+
  then show "buf_apart demo_net_g 0xFFFFFF8040220000 1514" "hdr_apart demo_net_g"
    by (simp_all add: buf_apart_def hdr_apart_def rx_buffer_def demo_net_g_def NET_RX_BUF_SIZE_unat NET_RX_RING_SIZE_def)
qed

theorem net_receives_in_order_witness:
  "\<exists>s. net_run demo_net_g 0xFFFFFF8040220000 1514 s [] [replicate 12 0 @ [1, 2, 3]] [[1, 2, 3]]"
proof -
  let ?g = demo_net_g and ?buf = "0xFFFFFF8040220000 :: u64" and ?bs = "replicate 12 0 @ [1, 2, 3] :: u8 list"
  have h: "(0 :: nat) < VIRTQ_MAX_QUEUES" "(256 :: u16) \<noteq> 0" "unat (256 :: u16) dvd 65536" by (simp_all add: VIRTQ_MAX_QUEUES_def)
  obtain vq where v: "virtqueue_init 256 0 0 0 undefined = Some (Suc 0, vq)" "num vq = 256" "vq_inv [0..<unat (num vq)] {} [] vq"
    using virtqueue_init_inv [OF h, of 0 0 undefined] by auto
  let ?s0 = "demo_net vq vq"
  have l: "length (desc_to_rxbuf ?s0) = VIRTQ_MAX_SIZE" by (simp add: demo_net_def VIRTQ_MAX_SIZE_def)
  obtain s1 where s1: "fill_rx_queue ?g ?s0 = Some s1"
    using fill_rx_queue_ok [of ?s0 ?g] v l by (auto simp: demo_net_def NET_RX_RING_SIZE_def)
  have r1: "net_run ?g ?buf 1514 s1 [] [] []"
    by (rule net_run.start [OF _ h(1) l s1]) (use v in \<open>simp add: demo_net_def\<close>)
  obtain p m where f: "device_fill (rx_buffer ?g) 0 ?bs (rx_pool s1) (net_mem s1) = (p, m)" by (metis surj_pair)
  let ?s2 = "(set_rx_pool p s1)\<lparr>net_mem := m\<rparr>"
  have "net_run ?g ?buf 1514 ?s2 ([] @ [0]) ([] @ [?bs]) []"
    by (rule net_run.arrive [OF r1 _ _ _ f]) (simp_all add: NET_RX_RING_SIZE_def NET_RX_BUF_SIZE_unat)
  then have r2: "net_run ?g ?buf 1514 ?s2 [0] [?bs] []" by simp
  have n: "unat (1514 :: u32) < 2 ^ 31" by simp
  note i2 = net_receives_in_order [OF r2 demo_apart n]
  obtain r s3 where s3: "virtio_net_rx ?g ?buf 1514 ?s2 = Some (r, s3)" "frames ?g (tl [0]) s3 = tl (frames ?g [0] ?s2)"
    using virtio_net_rx_ok [OF conjunct1 [OF i2] demo_apart(1) n] by blast
  have r3: "net_run ?g ?buf 1514 s3 [] [?bs] (if r = 0 then [] else [] @ [bytes (net_mem s3) ?buf (nat r)])"
    using net_run.receive [OF r2 s3(1)] by simp
  have "(if r = 0 then [] else [] @ [bytes (net_mem s3) ?buf (nat r)]) @ filter (\<lambda>f. f \<noteq> []) (map (take 1514) (frames ?g [] s3)) = [[1, 2, 3]]"
    using net_receives_in_order [OF r3 demo_apart n] by (simp add: VIRTIO_NET_HDR_SIZE_def)
  moreover have "frames ?g [] s3 = []" by (simp add: frames_def messages_def)
  ultimately show ?thesis using r3 by (intro exI [of _ s3]) simp
qed

end
