(* ===== verification/Packets.thy ===== *)
theory Packets
  imports Prelude "HOL-Library.Monad_Syntax"
begin

text \<open>
  Packet building in \<^verbatim>\<open>src/main.c\<close>: big-endian fields, the internet checksum, an ARP request and an
  ICMP echo request. A frame is the list of bytes of the caller's array; a store outside it is \<open>None\<close>.
\<close>

section \<open>Fields\<close>

text \<open>Stores of the given bytes from \<open>off\<close> on.\<close>

fun put_bytes :: "nat \<Rightarrow> u8 list \<Rightarrow> u8 list \<Rightarrow> u8 list option" where
  "put_bytes off [] f = Some f"
| "put_bytes off (b # bs) f = (if off < length f then put_bytes (Suc off) bs (f[off := b]) else None)"

definition memset8 :: "nat \<Rightarrow> u8 \<Rightarrow> nat \<Rightarrow> u8 list \<Rightarrow> u8 list option" where
  "memset8 off val n = put_bytes off (replicate n val)"

definition memcpy8 :: "nat \<Rightarrow> u8 list \<Rightarrow> nat \<Rightarrow> u8 list \<Rightarrow> u8 list option" where
  "memcpy8 off src n f = (if n \<le> length src then put_bytes off (take n src) f else None)"

definition put8 :: "nat \<Rightarrow> u8 \<Rightarrow> u8 list \<Rightarrow> u8 list option" where
  "put8 off v = put_bytes off [v]"

definition be16 :: "u16 \<Rightarrow> u8 list" where
  "be16 v = [ucast (drop_bit 8 v), ucast (v AND 0xFF)]"

definition write16be :: "nat \<Rightarrow> u16 \<Rightarrow> u8 list \<Rightarrow> u8 list option" where
  "write16be off v = put_bytes off (be16 v)"

definition read16be :: "u8 list \<Rightarrow> nat \<Rightarrow> u16" where
  "read16be p i = push_bit 8 (ucast (p ! i)) OR ucast (p ! Suc i)"

section \<open>Checksum\<close>

text \<open>\<open>while (sum >> 16) sum = (sum & 0xffff) + (sum >> 16);\<close>\<close>

function fold_carry :: "u32 \<Rightarrow> u32" where
  "fold_carry s = (if drop_bit 16 s = 0 then s else fold_carry ((s AND 0xFFFF) + drop_bit 16 s))"
  by pat_completeness auto

lemma fold_carry_step: "unat (((s :: u32) AND 0xFFFF) + drop_bit 16 s) = unat s mod 65536 + unat s div 65536"
proof -
  have "s AND 0xFFFF = take_bit 16 s" by (simp add: take_bit_eq_mask mask_eq_exp_minus_1)
  then have "unat (s AND 0xFFFF) = unat s mod 65536" "unat (drop_bit 16 s) = unat s div 65536"
    by (simp_all add: unat_take_bit unat_drop_bit_div)
  moreover have "unat s < 2 ^ 32" using unsigned_less [of s] by simp
  ultimately show ?thesis by (subst unat_add_small) simp_all
qed

lemma carry_left: "drop_bit 16 (s :: u32) = 0 \<longleftrightarrow> unat s < 65536"
proof -
  have "unat (drop_bit 16 s) = unat s div 65536" by (simp add: unat_drop_bit_div)
  then show ?thesis by (metis div_less div_eq_0_iff unat_eq_0 zero_neq_numeral)
qed

termination fold_carry
proof (relation "measure unat")
  fix s :: u32
  assume "drop_bit 16 s \<noteq> 0"
  then have "65536 \<le> unat s" using carry_left by simp
  then have "0 < unat s div 65536" by simp
  moreover have "unat s = 65536 * (unat s div 65536) + unat s mod 65536" by simp
  ultimately have "unat s mod 65536 + unat s div 65536 < unat s" by linarith
  then show "((s AND 0xFFFF) + drop_bit 16 s, s) \<in> measure unat" by (simp add: fold_carry_step)
qed simp

declare fold_carry.simps [simp del]

text \<open>The checksum of \<open>len\<close> bytes from \<open>i0\<close> on; an odd last byte is the upper half of a word.\<close>

definition ip_checksum :: "u8 list \<Rightarrow> nat \<Rightarrow> nat \<Rightarrow> u16" where
  "ip_checksum data i0 len =
     (let sum = fold (\<lambda>i sum. sum + ucast (read16be data (i0 + 2 * i))) [0..<len div 2] 0;
          sum = (if odd len then sum + push_bit 8 (ucast (data ! (i0 + len - 1))) else sum)
      in NOT (ucast (fold_carry (sum :: u32))))"

section \<open>Frames\<close>

definition build_arp_request :: "u8 list \<Rightarrow> u8 list \<Rightarrow> u8 list \<Rightarrow> u8 list \<Rightarrow> (nat \<times> u8 list) option" where
  "build_arp_request frm src_mac src_ip target_ip = do {
     let off = 0;
     frm \<leftarrow> memset8 off 0xFF 6 frm; let off = off + 6;
     frm \<leftarrow> memcpy8 off src_mac 6 frm; let off = off + 6;
     frm \<leftarrow> write16be off 0x0806 frm; let off = off + 2;
     frm \<leftarrow> write16be off 0x0001 frm; let off = off + 2;
     frm \<leftarrow> write16be off 0x0800 frm; let off = off + 2;
     frm \<leftarrow> put8 off 6 frm; let off = off + 1;
     frm \<leftarrow> put8 off 4 frm; let off = off + 1;
     frm \<leftarrow> write16be off 0x0001 frm; let off = off + 2;
     frm \<leftarrow> memcpy8 off src_mac 6 frm; let off = off + 6;
     frm \<leftarrow> memcpy8 off src_ip 4 frm; let off = off + 4;
     frm \<leftarrow> memset8 off 0 6 frm; let off = off + 6;
     frm \<leftarrow> memcpy8 off target_ip 4 frm; let off = off + 4;
     frm \<leftarrow> memset8 off 0 (60 - off) frm; let off = max off 60;
     Some (off, frm) }"

definition build_icmp_echo :: "u8 list \<Rightarrow> u8 list \<Rightarrow> u8 list \<Rightarrow> u8 list \<Rightarrow> u8 list \<Rightarrow> u16 \<Rightarrow> (nat \<times> u8 list) option" where
  "build_icmp_echo frm src_mac dst_mac src_ip dst_ip seq = do {
     let off = 0;
     frm \<leftarrow> memcpy8 off dst_mac 6 frm; let off = off + 6;
     frm \<leftarrow> memcpy8 off src_mac 6 frm; let off = off + 6;
     frm \<leftarrow> write16be off 0x0800 frm; let off = off + 2;
     let ip_start = off;
     frm \<leftarrow> put8 off 0x45 frm; let off = off + 1;
     frm \<leftarrow> put8 off 0x00 frm; let off = off + 1;
     let total_len_off = off; let off = off + 2;
     frm \<leftarrow> write16be off 0x1234 frm; let off = off + 2;
     frm \<leftarrow> write16be off 0x0000 frm; let off = off + 2;
     frm \<leftarrow> put8 off 64 frm; let off = off + 1;
     frm \<leftarrow> put8 off 1 frm; let off = off + 1;
     let ip_csum_off = off; let off = off + 2;
     frm \<leftarrow> memcpy8 off src_ip 4 frm; let off = off + 4;
     frm \<leftarrow> memcpy8 off dst_ip 4 frm; let off = off + 4;
     let icmp_start = off;
     frm \<leftarrow> put8 off 8 frm; let off = off + 1;
     frm \<leftarrow> put8 off 0 frm; let off = off + 1;
     let icmp_csum_off = off; let off = off + 2;
     frm \<leftarrow> write16be off 0x0001 frm; let off = off + 2;
     frm \<leftarrow> write16be off seq frm; let off = off + 2;
     frm \<leftarrow> put_bytes off (map (\<lambda>i. of_nat (0x41 + i mod 26)) [0..<32]) frm; let off = off + 32;
     let ip_total = of_nat (off - ip_start);
     frm \<leftarrow> write16be total_len_off ip_total frm;
     frm \<leftarrow> write16be ip_csum_off 0 frm;
     let ipcsum = ip_checksum frm ip_start 20;
     frm \<leftarrow> write16be ip_csum_off ipcsum frm;
     let icmp_len = off - icmp_start;
     frm \<leftarrow> write16be icmp_csum_off 0 frm;
     let icmpcsum = ip_checksum frm icmp_start icmp_len;
     frm \<leftarrow> write16be icmp_csum_off icmpcsum frm;
     Some (off, frm) }"

end
