(* ===== verification/Shell.thy ===== *)
theory Shell
  imports Fd "HOL-Library.Monad_Syntax"
begin

text \<open>
  The shell, \<^verbatim>\<open>src/uprogs/shell.c\<close>: how a line is split and which command is run, the word counter,
  and the descriptor plumbing of a pipe chain over the descriptor layer of the kernel. Text is a
  \<open>string\<close> without its terminator.
\<close>

section \<open>Strings\<close>

text \<open>The difference of the first characters that differ; the terminator counts as 0.\<close>

fun strncmp :: "string \<Rightarrow> string \<Rightarrow> nat \<Rightarrow> int" where
  "strncmp a b 0 = 0"
| "strncmp (x # a) (y # b) (Suc n) = (if x \<noteq> y then of_char x - of_char y else strncmp a b n)"
| "strncmp (x # a) [] (Suc n) = of_char x"
| "strncmp [] (y # b) (Suc n) = - of_char y"
| "strncmp [] [] (Suc n) = 0"

fun streq :: "string \<Rightarrow> string \<Rightarrow> bool" where
  "streq (x # a) (y # b) = (if x = y then streq a b else False)"
| "streq [] [] = True"
| "streq _ _ = False"

fun skip_spaces :: "string \<Rightarrow> string" where
  "skip_spaces (c # s) = (if c = CHR '' '' then skip_spaces s else c # s)"
| "skip_spaces [] = []"

definition trim_end :: "string \<Rightarrow> string" where
  "trim_end s = rev (skip_spaces (rev s))"

text \<open>\<open>find_pipe\<close>: the text before the next bar and the text behind it, if there is a bar.\<close>

fun find_pipe :: "string \<Rightarrow> (string \<times> string) option" where
  "find_pipe [] = None"
| "find_pipe (c # s) = (if c = CHR ''|'' then Some ([], s) else map_option (\<lambda>(a, b). (c # a, b)) (find_pipe s))"

section \<open>Commands\<close>

datatype action = Nothing | Help | Ls | Ps | Wc | Cat string | Echo string | Program string

definition run_single_cmd :: "string \<Rightarrow> action" where
  "run_single_cmd cmd =
     (let cmd = skip_spaces cmd
      in if cmd = [] then Nothing
         else if streq cmd ''help'' then Help
         else if streq cmd ''ls'' then Ls
         else if streq cmd ''ps'' then Ps
         else if streq cmd ''wc'' then Wc
         else if strncmp cmd ''cat '' 4 = 0 then Cat (skip_spaces (drop 4 cmd))
         else if strncmp cmd ''echo '' 5 = 0 then Echo (drop 5 cmd)
         else Program cmd)"

datatype line_action = Skip | Exit | Direct action | Pipeline "string list"

text \<open>The segments of a line, at most \<open>n\<close>.\<close>

fun segments_of :: "nat \<Rightarrow> string \<Rightarrow> string list" where
  "segments_of 0 p = []"
| "segments_of (Suc n) p =
     (case find_pipe p of
        Some (a, rest) \<Rightarrow> trim_end a # segments_of n rest
      | None \<Rightarrow> [trim_end p])"

definition execute_line :: "string \<Rightarrow> line_action" where
  "execute_line cmdline =
     (if find_pipe cmdline = None then
        let cmd = skip_spaces cmdline
        in if cmd = [] then Skip
           else if streq cmd ''exit'' then Exit
           else Direct (run_single_cmd cmd)
      else Pipeline (segments_of 8 cmdline))"

text \<open>The result of \<open>readline\<close> on what \<open>read\<close> gave: without the newline at the end.\<close>

definition readline :: "string \<Rightarrow> int \<times> string" where
  "readline inp = (if inp \<noteq> [] \<and> last inp = CHR 0x0A then (int (length inp) - 1, butlast inp) else (int (length inp), inp))"

section \<open>Output\<close>

fun num_digits :: "nat \<Rightarrow> int \<Rightarrow> string" where
  "num_digits 0 n = []"
| "num_digits (Suc k) n = (if n > 0 then num_digits k (n div 10) @ [char_of (48 + nat (n mod 10))] else [])"

text \<open>
  \<open>n\<close> is a 64-bit number; its negation wraps around. The buffer has 20 places.
\<close>

definition print_num :: "64 word \<Rightarrow> string" where
  "print_num n =
     (if n = 0 then ''0''
      else if sint n < 0 then ''-'' @ num_digits 20 (sint (- n))
      else num_digits 20 (sint n))"

section \<open>Counting words\<close>

record wc_state =
  wc_lines :: u64
  wc_words :: u64
  wc_bytes :: u64
  in_word :: bool

definition wc_byte :: "char \<Rightarrow> wc_state \<Rightarrow> wc_state" where
  "wc_byte c w =
     (let w = w\<lparr>wc_bytes := wc_bytes w + 1\<rparr>;
          w = (if c = CHR 0x0A then w\<lparr>wc_lines := wc_lines w + 1\<rparr> else w)
      in if c = CHR '' '' \<or> c = CHR 0x0A \<or> c = CHR 0x09 then w\<lparr>in_word := False\<rparr>
         else if \<not> in_word w then w\<lparr>in_word := True, wc_words := wc_words w + 1\<rparr>
         else w)"

text \<open>
  \<open>reads\<close> are the pieces that \<open>read\<close> gives. The loop stops at the first read that gives none: the empty piece stands for
  the end of the input and for an error. The counters are 64 bits wide.
\<close>

definition builtin_wc :: "string list \<Rightarrow> u64 \<times> u64 \<times> u64" where
  "builtin_wc reads =
     (let w = fold (fold wc_byte) (takeWhile (\<lambda>s. s \<noteq> []) reads) \<lparr>wc_lines = 0, wc_words = 0, wc_bytes = 0, in_word = False\<rparr>
      in (wc_lines w, wc_words w, wc_bytes w))"

section \<open>Pipe chains\<close>

text \<open>The calls of a process on its own table.\<close>

definition do_close :: "int \<Rightarrow> fd_table \<times> fdsys \<Rightarrow> (fd_table \<times> fdsys) option" where
  "do_close fd c = map_option snd (fd_close (fst c) fd (snd c))"

definition do_dup2 :: "int \<Rightarrow> int \<Rightarrow> fd_table \<times> fdsys \<Rightarrow> (fd_table \<times> fdsys) option" where
  "do_dup2 oldfd newfd c = map_option snd (fd_dup2 (fst c) oldfd newfd (snd c))"

definition child_plumbing :: "int \<Rightarrow> int \<times> int \<Rightarrow> fd_table \<times> fdsys \<Rightarrow> (fd_table \<times> fdsys) option" where
  "child_plumbing prev_read_fd pipefd c = do {
     c \<leftarrow> (if prev_read_fd \<ge> 0 then do { c \<leftarrow> do_dup2 prev_read_fd 0 c; do_close prev_read_fd c } else Some c);
     c \<leftarrow> (if snd pipefd \<ge> 0 then do { c \<leftarrow> do_dup2 (snd pipefd) 1 c; do_close (snd pipefd) c } else Some c);
     if fst pipefd \<ge> 0 then do_close (fst pipefd) c else Some c }"

definition parent_plumbing :: "int \<Rightarrow> int \<times> int \<Rightarrow> fd_table \<times> fdsys \<Rightarrow> (fd_table \<times> fdsys) option" where
  "parent_plumbing prev_read_fd pipefd c = do {
     c \<leftarrow> (if prev_read_fd \<ge> 0 then do_close prev_read_fd c else Some c);
     if snd pipefd \<ge> 0 then do_close (snd pipefd) c else Some c }"

text \<open>
  The loop over the segments, \<open>n\<close> of them left; \<open>al n\<close> are the addresses that \<open>fd_pipe\<close> allocates when
  \<open>n\<close> segments are behind this one, \<open>forks\<close> says whether \<open>fork\<close> succeeds. A child runs its plumbing as soon as it is forked: every call
  works on the caller's own table, so its results do not depend on when it is made. The result is
  whether all pipes could be created, the table of the shell, and those of the children in front of
  their commands.
\<close>

fun pipe_chain :: "(nat \<Rightarrow> u64 \<times> u64 \<times> u64) \<Rightarrow> (fdsys \<Rightarrow> bool) \<Rightarrow> nat \<Rightarrow> int \<Rightarrow> fd_table \<Rightarrow> fdsys
    \<Rightarrow> (bool \<times> fd_table \<times> fd_table list \<times> fdsys) option" where
  "pipe_chain al forks 0 prev par s =
     map_option (\<lambda>(par, s). (True, par, [], s)) (if prev \<ge> 0 then do_close prev (par, s) else Some (par, s))"
| "pipe_chain al forks (Suc n) prev par s =
     (let (ok, pipefd, par, s) =
        (if n \<noteq> 0 then
           let (p, rnew, wnew) = al n; (r, fds, par, s) = fd_pipe par p rnew wnew s
           in (r \<ge> 0, (case fds of None \<Rightarrow> (-1, -1) | Some fds \<Rightarrow> fds), par, s)
         else (True, (-1, -1), par, s))
      in if \<not> ok then Some (False, par, [], s)
         else do {
           (cs, s) \<leftarrow> (if forks s then do {
               (child, s) \<leftarrow> fd_table_dup par s;
               (child, s) \<leftarrow> child_plumbing prev pipefd (child, s);
               Some ([child], s) }
             else Some ([], s));
           (par, s) \<leftarrow> parent_plumbing prev pipefd (par, s);
           (ok, par, children, s) \<leftarrow> pipe_chain al forks n (fst pipefd) par s;
           Some (ok, par, cs @ children, s) })"

end
