(* ===== verification/ShellSpec.thy ===== *)
theory ShellSpec
  imports Shell
begin

text \<open>
  The shell does what its user expects: a line with bars is cut at the bars, \<open>wc\<close> counts lines,
  words and bytes however the input arrives.
\<close>

section \<open>Words\<close>

lemma streq_eq: "streq a b \<longleftrightarrow> a = b"
  by (induction a b rule: streq.induct) simp_all

definition blank :: "char \<Rightarrow> bool" where
  "blank c \<longleftrightarrow> c = CHR '' '' \<or> c = CHR 0x0A \<or> c = CHR 0x09"

text \<open>The words of a text: its longest pieces without blanks.\<close>

function words :: "string \<Rightarrow> string list" where
  "words [] = []"
| "words (c # s) = (if blank c then words s else takeWhile (\<lambda>c. \<not> blank c) (c # s) # words (dropWhile (\<lambda>c. \<not> blank c) s))"
  by pat_completeness auto
termination
  by (relation "measure length") (auto simp: le_imp_less_Suc length_dropWhile_le)

lemma wc_fold:
  "fold wc_byte s w = \<lparr>wc_lines = wc_lines w + of_nat (count_list s (CHR 0x0A)),
     wc_words = wc_words w + of_nat (length (words (if in_word w then dropWhile (\<lambda>c. \<not> blank c) s else s))),
     wc_bytes = wc_bytes w + of_nat (length s), in_word = (if s = [] then in_word w else \<not> blank (last s))\<rparr>"
proof (induction s arbitrary: w)
  case (Cons c s)
  show ?case unfolding fold_simps(2) Cons.IH by (auto simp: wc_byte_def blank_def Let_def)
qed simp

text \<open>
  C37: \<open>wc\<close> prints the number of lines, words and bytes of its input, in whatever pieces the reads deliver it, as
  64-bit numbers. The input ends at the first read that delivers nothing.
\<close>

theorem builtin_wc_counts:
  "builtin_wc reads = (let input = concat (takeWhile (\<lambda>s. s \<noteq> []) reads)
     in (of_nat (count_list input (CHR 0x0A)), of_nat (length (words input)), of_nat (length input)))"
proof -
  have "fold (fold wc_byte) ss w = fold wc_byte (concat ss) w" for w ss
    by (induction ss arbitrary: w) simp_all
  then show ?thesis by (simp add: builtin_wc_def Let_def wc_fold)
qed

section \<open>Lines\<close>

fun join :: "string list \<Rightarrow> string" where
  "join [] = []"
| "join [p] = p"
| "join (p # q # ps) = p @ CHR ''|'' # join (q # ps)"

lemma find_pipe_none: "CHR ''|'' \<notin> set p \<Longrightarrow> find_pipe p = None"
  by (induction p) auto

lemma find_pipe_some: "CHR ''|'' \<notin> set p \<Longrightarrow> find_pipe (p @ CHR ''|'' # r) = Some (p, r)"
  by (induction p) auto

lemma segments_join:
  assumes "ps \<noteq> []" "\<forall>p \<in> set ps. CHR ''|'' \<notin> set p"
  shows "segments_of n (join ps) = map trim_end (take n ps)"
  using assms
proof (induction ps arbitrary: n rule: join.induct)
  case (2 p)
  then show ?case by (cases n) (simp_all add: find_pipe_none)
next
  case (3 p q ps)
  then show ?case by (cases n) (simp_all add: find_pipe_some)
qed simp

lemma trim_end_spaces: "trim_end (s @ replicate k (CHR '' '')) = trim_end s"
proof -
  have "skip_spaces (replicate k (CHR '' '') @ t) = skip_spaces t" for t by (induction k) simp_all
  then show ?thesis by (simp add: trim_end_def)
qed

text \<open>
  A line of at least two parts joined by bars is run as a chain of these parts in order, with spaces at their
  ends removed; parts behind the eighth are not run.
\<close>

theorem execute_line_segments:
  assumes "2 \<le> length ps" "\<forall>p \<in> set ps. CHR ''|'' \<notin> set p"
  shows "execute_line (join ps) = Pipeline (map trim_end (take 8 ps))"
proof -
  obtain p q r where "ps = p # q # r" using assms(1) by (cases ps; cases "tl ps") auto
  then show ?thesis using assms segments_join [of ps 8] by (auto simp: execute_line_def find_pipe_some)
qed

theorem execute_line_segments_witness:
  "execute_line ''cat a.txt | wc'' = Pipeline [''cat a.txt'', '' wc'']"
  using execute_line_segments [of "[''cat a.txt '', '' wc'']"] by (simp add: trim_end_def)

end
