(* ===== verification/ShellPipes.thy ===== *)
theory ShellPipes
  imports Shell FdSpec
begin

text \<open>
  The pipe chain of the shell over the descriptor layer of the kernel: every command reads from the
  command before it and writes to the one behind it, no other end of a pipe stays open anywhere, and
  the shell's own table is as before.
\<close>

section \<open>What calls keep\<close>

text \<open>An open file that some process holds stays the file it is; only its reference count changes.\<close>

definition held :: "fd_table list \<Rightarrow> file_ref \<Rightarrow> bool" where
  "held tabs r \<longleftrightarrow> (\<exists>t \<in> set tabs. Some r \<in> set t)"

definition file_keeps :: "fdsys \<Rightarrow> fdsys \<Rightarrow> file_ref \<Rightarrow> bool" where
  "file_keeps s s' r \<longleftrightarrow> (\<forall>f. files s r = Some f \<longrightarrow> (\<exists>n. files s' r = Some (f\<lparr>ref_count := n\<rparr>)))"

lemma file_keeps_refl: "file_keeps s s r"
  unfolding file_keeps_def
proof (intro allI impI)
  fix f assume "files s r = Some f"
  then show "\<exists>n. files s r = Some (f\<lparr>ref_count := n\<rparr>)" by (intro exI [of _ "ref_count f"]) simp
qed

lemma file_keeps_trans: "file_keeps s s1 r \<Longrightarrow> file_keeps s1 s2 r \<Longrightarrow> file_keeps s s2 r"
  unfolding file_keeps_def
proof (intro allI impI)
  fix f
  assume k: "\<forall>f. files s r = Some f \<longrightarrow> (\<exists>n. files s1 r = Some (f\<lparr>ref_count := n\<rparr>))"
    "\<forall>f. files s1 r = Some f \<longrightarrow> (\<exists>n. files s2 r = Some (f\<lparr>ref_count := n\<rparr>))" and f: "files s r = Some f"
  then obtain n where "files s1 r = Some (f\<lparr>ref_count := n\<rparr>)" by blast
  with k(2) obtain n' where "files s2 r = Some (f\<lparr>ref_count := n\<rparr>\<lparr>ref_count := n'\<rparr>)" by blast
  then show "\<exists>n. files s2 r = Some (f\<lparr>ref_count := n\<rparr>)" by auto
qed

lemma held_refs: "held tabs r \<longleftrightarrow> 0 < refs tabs r"
proof -
  have "length (filter (\<lambda>x. x = Some r) t) \<noteq> 0 \<longleftrightarrow> Some r \<in> set t" for t by (auto simp: filter_empty_conv)
  then show ?thesis by (induction tabs) (auto simp: held_def refs_def)
qed

definition shrinks :: "fdsys \<Rightarrow> fdsys \<Rightarrow> bool" where
  "shrinks s s' \<longleftrightarrow> (\<forall>r. files s r = None \<longrightarrow> files s' r = None) \<and> (\<forall>a. pipes s a = None \<longrightarrow> pipes s' a = None)"

lemma shrinks_refl [simp]: "shrinks s s"
  by (simp add: shrinks_def)

lemma shrinks_trans: "shrinks s s1 \<Longrightarrow> shrinks s1 s2 \<Longrightarrow> shrinks s s2"
  by (simp add: shrinks_def)

text \<open>Between two states of the descriptor layer: what \<open>tabs\<close> hold is kept, and nothing is created.\<close>

definition evolves :: "fd_table list \<Rightarrow> fdsys \<Rightarrow> fdsys \<Rightarrow> bool" where
  "evolves tabs s s' \<longleftrightarrow> (\<forall>r. held tabs r \<longrightarrow> file_keeps s s' r) \<and> shrinks s s'"

lemma held_dom: "fd_inv tabs s \<Longrightarrow> held tabs r \<Longrightarrow> r \<in> dom (files s)"
  by (simp add: held_refs fd_inv_def del: domIff)

lemma fd_close_keeps:
  assumes inv: "fd_inv tabs s" and c: "fd_close t fd s = Some (x, t', s')" and after: "r \<in> dom (files s')"
  shows "file_keeps s s' r"
proof (cases "fd_valid t fd")
  case False
  then show ?thesis using c file_keeps_refl by (simp add: fd_close_def)
next
  case True
  define q where "q = the (t ! nat fd)"
  obtain f where f: "files s q = Some f" using c True by (auto simp: fd_close_def Let_def q_def split: option.splits)
  let ?f = "f\<lparr>ref_count := ref_count f - 1\<rparr>"
  have console: "ftype f \<noteq> FD_TYPE_PIPE" if "q = Console"
    using inv f that by (auto simp: fd_inv_def pipes_ok_def)
  obtain s2 where s2: "(if ftype f = FD_TYPE_PIPE \<and> fpipe f \<noteq> 0 \<and> ref_count f - 1 \<le> 0 then close_pipe_end q ?f (put_file q ?f s)
      else Some (put_file q ?f s)) = Some s2" "s' = (if ref_count f - 1 \<le> 0 \<and> q \<noteq> Console then free_file q s2 else s2)"
    using c True f by (auto simp: fd_close_def Let_def q_def [symmetric] split: option.splits)
  have other: "files s2 p = files s p" if "p \<noteq> q" for p
    using s2(1) that by (auto simp: close_pipe_end_def Let_def split: if_splits option.splits)
  have same: "files s2 q = Some ?f" if "\<not> (ref_count f - 1 \<le> 0 \<and> q \<noteq> Console)"
    using s2(1) that console by (auto split: if_splits)
  show ?thesis
  proof (cases "r = q")
    case True
    have "\<not> (ref_count f - 1 \<le> 0 \<and> q \<noteq> Console)" using after s2(2) True by (auto simp: files_free_file split: if_splits)
    then show ?thesis using same s2(2) f True by (auto simp: file_keeps_def)
  next
    case False
    then show ?thesis using other s2(2) file_keeps_refl by (auto simp: file_keeps_def files_free_file)
  qed
qed

lemma fd_close_shrinks:
  assumes "fd_close t fd s = Some (x, t', s')"
  shows "shrinks s s'"
proof -
  have put: "shrinks s (put_file r f s1)" if "shrinks s s1" "r \<in> dom (files s)" for r f s1
    using that by (auto simp: shrinks_def)
  have free: "shrinks s (free_file r s1)" if "shrinks s s1" for r s1
    using that by (auto simp: shrinks_def files_free_file split: if_splits)
  have ends: "shrinks s s1" if c: "close_pipe_end r f s0 = Some s1" and "shrinks s s0" "r \<in> dom (files s)" for r f s0 s1
  proof -
    obtain p where p: "pipes s0 (fpipe f) = Some p" using c by (auto simp: close_pipe_end_def split: option.splits)
    then show ?thesis using that p by (auto simp: close_pipe_end_def shrinks_def kfree_pipe_def put_pipe_def Let_def split: if_splits)
  qed
  show ?thesis using assms
    by (auto simp: fd_close_def Let_def split: if_splits option.splits intro!: free put intro: ends [OF _ put] domI)
qed

lemma add_ref_shrinks: "add_ref k q s = Some s' \<Longrightarrow> shrinks s s'"
  by (auto simp: add_ref_def shrinks_def split: if_splits)

lemma add_ref_keeps:
  assumes "add_ref k q s = Some s'"
  shows "file_keeps s s' r"
proof (cases "q = r \<and> files s r \<noteq> None")
  case True
  then obtain f where "files s r = Some f" "s' = put_file r (f\<lparr>ref_count := ref_count f + k\<rparr>) s" using assms by (auto simp: add_ref_def)
  then show ?thesis by (auto simp: file_keeps_def intro: exI [of _ "ref_count f + k"])
next
  case False
  then have "files s' r = files s r" using assms by (auto simp: add_ref_def split: option.splits)
  then show ?thesis using file_keeps_refl [of s r] by (simp add: file_keeps_def)
qed

text \<open>Calls of process \<open>k\<close> that keep the invariant and change its table by \<open>f\<close>, which opens nothing new.\<close>

definition runs :: "(fd_table \<times> fdsys \<Rightarrow> (fd_table \<times> fdsys) option) \<Rightarrow> (fd_table \<Rightarrow> fd_table) \<Rightarrow> bool" where
  "runs c f \<longleftrightarrow> (\<forall>t. length t = MAX_FDS_PER_TASK \<longrightarrow> length (f t) = MAX_FDS_PER_TASK \<and> set (f t) \<subseteq> insert None (set t))
     \<and> (\<forall>tabs s k. fd_inv tabs s \<longrightarrow> k < length tabs \<longrightarrow>
       (\<exists>s'. c (tabs ! k, s) = Some (f (tabs ! k), s') \<and> fd_inv (tabs[k := f (tabs ! k)]) s'
          \<and> evolves (tabs[k := f (tabs ! k)]) s s'))"

lemma runsD:
  assumes "runs c f" "fd_inv tabs s" "k < length tabs"
  shows "\<exists>s'. c (tabs ! k, s) = Some (f (tabs ! k), s') \<and> fd_inv (tabs[k := f (tabs ! k)]) s'
     \<and> evolves (tabs[k := f (tabs ! k)]) s s'"
  using assms unfolding runs_def by blast

lemma runs_held:
  assumes "runs c f" "fd_inv tabs s" "k < length tabs" "held (tabs[k := f (tabs ! k)]) r"
  shows "held tabs r"
proof -
  have "length (tabs ! k) = MAX_FDS_PER_TASK" using fd_inv_tables [OF assms(2,3)] by simp
  then have "set (f (tabs ! k)) \<subseteq> insert None (set (tabs ! k))" using assms(1) unfolding runs_def by blast
  then have "Some r \<in> set (f (tabs ! k)) \<Longrightarrow> Some r \<in> set (tabs ! k)" by blast
  then show ?thesis using assms(3,4) unfolding held_def by (metis in_set_conv_nth length_list_update nth_list_update_eq nth_list_update_neq nth_mem)
qed

lemma runs_id: "runs Some (\<lambda>t. t)"
  by (auto simp: runs_def evolves_def file_keeps_refl)

definition close_t :: "int \<Rightarrow> fd_table \<Rightarrow> fd_table" where
  "close_t fd t = (if fd_valid t fd then t[nat fd := None] else t)"

lemma runs_close: "runs (do_close fd) (close_t fd)"
  unfolding runs_def
proof (intro conjI allI impI)
  fix t :: fd_table assume "length t = MAX_FDS_PER_TASK"
  then show "length (close_t fd t) = MAX_FDS_PER_TASK" by (simp add: close_t_def)
  show "set (close_t fd t) \<subseteq> insert None (set t)" using set_update_subset_insert [of t "nat fd" None] by (auto simp: close_t_def)
next
  fix tabs s k assume i: "fd_inv tabs s" "k < length tabs"
  obtain r t s' where c: "fd_close (tabs ! k) fd s = Some (r, t, s')" "fd_inv (tabs[k := t]) s'"
    "t = (if fd_valid (tabs ! k) fd then (tabs ! k)[nat fd := None] else tabs ! k)"
    by (rule fd_close_inv [OF i]) (rule that)
  then have "evolves (tabs[k := t]) s s'"
    using fd_close_keeps [OF i(1) c(1)] held_dom [OF c(2)] fd_close_shrinks [OF c(1)] unfolding evolves_def by blast
  then show "\<exists>s'. do_close fd (tabs ! k, s) = Some (close_t fd (tabs ! k), s') \<and> fd_inv (tabs[k := close_t fd (tabs ! k)]) s'
     \<and> evolves (tabs[k := close_t fd (tabs ! k)]) s s'"
    using c by (auto simp: do_close_def close_t_def)
qed

definition dup2_t :: "int \<Rightarrow> int \<Rightarrow> fd_table \<Rightarrow> fd_table" where
  "dup2_t a b t = (if fd_valid t a \<and> 0 \<le> b \<and> b < int MAX_FDS_PER_TASK then t[nat b := t ! nat a] else t)"

lemma fd_dup2_cases:
  assumes "fd_dup2 t a b s = Some (x, t', s')"
  obtains "s' = s" | s1 q t1 y where "fd_close t b s = Some (y, t1, s1)" "add_ref 1 q s1 = Some s'" | q where "add_ref 1 q s = Some s'"
  using assms by (auto simp: fd_dup2_def Let_def split: if_splits option.splits)

lemma fd_dup2_shrinks: "fd_dup2 t a b s = Some (x, t', s') \<Longrightarrow> shrinks s s'"
  by (erule fd_dup2_cases) (use fd_close_shrinks add_ref_shrinks shrinks_trans in \<open>simp, blast, blast\<close>)

lemma fd_dup2_keeps:
  assumes inv: "fd_inv tabs s" and ne: "a \<noteq> b" and c: "fd_dup2 t a b s = Some (x, t', s')" and after: "r \<in> dom (files s')"
  shows "file_keeps s s' r"
  using c
proof (cases rule: fd_dup2_cases)
  case 1
  then show ?thesis by (simp add: file_keeps_refl)
next
  case (2 s1 q t1 y)
  have "r \<in> dom (files s1)" using 2(2) after by (auto simp: add_ref_def split: if_splits)
  then show ?thesis using fd_close_keeps [OF inv 2(1)] add_ref_keeps [OF 2(2)] file_keeps_trans by blast
next
  case (3 q)
  then show ?thesis by (rule add_ref_keeps)
qed

lemma runs_dup2:
  assumes "a \<noteq> b" "0 \<le> b"
  shows "runs (do_dup2 a b) (dup2_t a b)"
  unfolding runs_def
proof (intro conjI allI impI)
  fix t :: fd_table assume l: "length t = MAX_FDS_PER_TASK"
  then show "length (dup2_t a b t) = MAX_FDS_PER_TASK" by (simp add: dup2_t_def)
  have "t ! nat a \<in> set t" if "fd_valid t a" using that l by (intro nth_mem) (auto simp: fd_valid_def)
  then show "set (dup2_t a b t) \<subseteq> insert None (set t)"
    using set_update_subset_insert [of t "nat b" "t ! nat a"] by (auto simp: dup2_t_def)
next
  fix tabs s k assume i: "fd_inv tabs s" "k < length tabs"
  obtain r t s' where c: "fd_dup2 (tabs ! k) a b s = Some (r, t, s')" "fd_inv (tabs[k := t]) s'"
    "r = (if fd_valid (tabs ! k) a \<and> 0 \<le> b \<and> b < int MAX_FDS_PER_TASK then b else -1)"
    "t = (if r = -1 then tabs ! k else (tabs ! k)[nat b := tabs ! k ! nat a])" using fd_dup2_inv [OF i assms(1)] by metis
  have "evolves (tabs[k := t]) s s'"
    using fd_dup2_keeps [OF i(1) assms(1) c(1)] held_dom [OF c(2)] fd_dup2_shrinks [OF c(1)] unfolding evolves_def by blast
  moreover have "t = dup2_t a b (tabs ! k)" using c(3,4) assms(2) by (auto simp: dup2_t_def)
  ultimately show "\<exists>s'. do_dup2 a b (tabs ! k, s) = Some (dup2_t a b (tabs ! k), s') \<and> fd_inv (tabs[k := dup2_t a b (tabs ! k)]) s'
     \<and> evolves (tabs[k := dup2_t a b (tabs ! k)]) s s'"
    using c(1,2) by (auto simp: do_dup2_def)
qed

lemma runs_bind:
  assumes c: "runs c f" and d: "runs d g"
  shows "runs (\<lambda>x. Option.bind (c x) d) (\<lambda>t. g (f t))"
  unfolding runs_def
proof (intro conjI allI impI)
  fix t :: fd_table assume l: "length t = MAX_FDS_PER_TASK"
  have f: "length (f t) = MAX_FDS_PER_TASK" "set (f t) \<subseteq> insert None (set t)" using c l unfolding runs_def by blast+
  have "length (g (f t)) = MAX_FDS_PER_TASK" "set (g (f t)) \<subseteq> insert None (set (f t))" using d f(1) unfolding runs_def by blast+
  then show "length (g (f t)) = MAX_FDS_PER_TASK" "set (g (f t)) \<subseteq> insert None (set t)" using f(2) by blast+
next
  fix tabs s k assume i: "fd_inv tabs s" "k < length tabs"
  let ?t = "tabs[k := f (tabs ! k)]"
  obtain s1 where s1: "c (tabs ! k, s) = Some (f (tabs ! k), s1)" "fd_inv ?t s1" "evolves ?t s s1"
    using runsD [OF c i] by (elim exE conjE) (rule that)
  have k: "k < length ?t" using i(2) by simp
  obtain s2 where s2: "d (?t ! k, s1) = Some (g (?t ! k), s2)" "fd_inv (?t[k := g (?t ! k)]) s2"
    "evolves (?t[k := g (?t ! k)]) s1 s2"
    using runsD [OF d s1(2) k] by (elim exE conjE) (rule that)
  have "file_keeps s s2 r" if "held (?t[k := g (?t ! k)]) r" for r
    using s1(3) s2(3) runs_held [OF d s1(2) k that] that file_keeps_trans unfolding evolves_def by blast
  moreover have "shrinks s s2" using s1(3) s2(3) shrinks_trans unfolding evolves_def by blast
  ultimately have "evolves (tabs[k := g (f (tabs ! k))]) s s2" using i(2) unfolding evolves_def by simp
  then show "\<exists>s'. Option.bind (c (tabs ! k, s)) d = Some (g (f (tabs ! k)), s') \<and> fd_inv (tabs[k := g (f (tabs ! k))]) s'
     \<and> evolves (tabs[k := g (f (tabs ! k))]) s s'"
    using s1(1) s2(1,2) i(2) by auto
qed

lemma runs_if: "(P \<Longrightarrow> runs c f) \<Longrightarrow> (\<not> P \<Longrightarrow> runs d g) \<Longrightarrow> runs (\<lambda>x. if P then c x else d x) (\<lambda>t. if P then f t else g t)"
  by (cases P) simp_all

section \<open>The plumbing of one segment\<close>

definition child_t :: "int \<Rightarrow> int \<times> int \<Rightarrow> fd_table \<Rightarrow> fd_table" where
  "child_t prev pf t =
     (let t = (if prev \<ge> 0 then close_t prev (dup2_t prev 0 t) else t);
          t = (if snd pf \<ge> 0 then close_t (snd pf) (dup2_t (snd pf) 1 t) else t)
      in if fst pf \<ge> 0 then close_t (fst pf) t else t)"

definition parent_t :: "int \<Rightarrow> int \<times> int \<Rightarrow> fd_table \<Rightarrow> fd_table" where
  "parent_t prev pf t =
     (let t = (if prev \<ge> 0 then close_t prev t else t)
      in if snd pf \<ge> 0 then close_t (snd pf) t else t)"

lemma runs_child:
  assumes "prev \<noteq> 0" "snd pf \<noteq> 1"
  shows "runs (child_plumbing prev pf) (child_t prev pf)"
proof -
  have a: "runs (\<lambda>c. if prev \<ge> 0 then Option.bind (do_dup2 prev 0 c) (do_close prev) else Some c)
      (\<lambda>t. if prev \<ge> 0 then close_t prev (dup2_t prev 0 t) else t)"
    by (intro runs_if runs_bind runs_close runs_id runs_dup2) (use assms in simp_all)
  have b: "runs (\<lambda>c. if snd pf \<ge> 0 then Option.bind (do_dup2 (snd pf) 1 c) (do_close (snd pf)) else Some c)
      (\<lambda>t. if snd pf \<ge> 0 then close_t (snd pf) (dup2_t (snd pf) 1 t) else t)"
    by (intro runs_if runs_bind runs_close runs_id runs_dup2) (use assms in simp_all)
  have c: "runs (\<lambda>c. if fst pf \<ge> 0 then do_close (fst pf) c else Some c) (\<lambda>t. if fst pf \<ge> 0 then close_t (fst pf) t else t)"
    by (intro runs_if runs_close runs_id)
  show ?thesis using runs_bind [OF a runs_bind [OF b c]] unfolding child_plumbing_def child_t_def Let_def .
qed

lemma runs_parent: "runs (parent_plumbing prev pf) (parent_t prev pf)"
proof -
  have a: "runs (\<lambda>c. if prev \<ge> 0 then do_close prev c else Some c) (\<lambda>t. if prev \<ge> 0 then close_t prev t else t)"
    "runs (\<lambda>c. if snd pf \<ge> 0 then do_close (snd pf) c else Some c) (\<lambda>t. if snd pf \<ge> 0 then close_t (snd pf) t else t)"
    by (intro runs_if runs_close runs_id)+
  show ?thesis using runs_bind [OF a] unfolding parent_plumbing_def parent_t_def Let_def .
qed

lemma fd_table_dup_evolves: "fd_table_dup t s = Some (t', s') \<Longrightarrow> shrinks s s' \<and> file_keeps s s' r"
proof (induction t arbitrary: s t')
  case (Cons x t)
  obtain s1 where s1: "(case x of None \<Rightarrow> Some s | Some r \<Rightarrow> add_ref 1 r s) = Some s1"
    using Cons.prems by (auto split: option.splits)
  then obtain t1 where t1: "fd_table_dup t s1 = Some (t1, s')" using Cons.prems by (auto split: option.splits)
  have "shrinks s s1" "file_keeps s s1 r" using s1 add_ref_shrinks add_ref_keeps file_keeps_refl by (auto split: option.splits)
  then show ?case using Cons.IH [OF t1] shrinks_trans file_keeps_trans by blast
qed (simp add: file_keeps_refl)

lemma segment:
  assumes inv: "fd_inv (par # rest) s" and pf: "prev \<noteq> 0" "snd pf \<noteq> 1"
  defines "c \<equiv> child_t prev pf par" and "par' \<equiv> parent_t prev pf par"
  shows "\<exists>s2 s3 s4. fd_table_dup par s = Some (par, s2) \<and> child_plumbing prev pf (par, s2) = Some (c, s3)
     \<and> parent_plumbing prev pf (par, s3) = Some (par', s4) \<and> fd_inv (par' # rest @ [c]) s4 \<and> evolves (par' # rest @ [c]) s s4"
proof -
  let ?n = "Suc (length rest)"
  obtain s2 where d: "fd_table_dup par s = Some (par, s2)" "fd_inv (par # rest @ [par]) s2" using fd_table_dup_inv [OF inv, of 0] by auto
  obtain s3 where c: "child_plumbing prev pf (par, s2) = Some (c, s3)" "fd_inv (par # rest @ [c]) s3" "evolves (par # rest @ [c]) s2 s3"
    using runsD [OF runs_child [OF pf] d(2), of ?n] by (auto simp: nth_append c_def)
  obtain s4 where p: "parent_plumbing prev pf (par, s3) = Some (par', s4)" "fd_inv (par' # rest @ [c]) s4" "evolves (par' # rest @ [c]) s3 s4"
    using runsD [OF runs_parent [of prev pf] c(2), of 0] by (auto simp: par'_def)
  have "file_keeps s s4 r" if h: "held (par' # rest @ [c]) r" for r
  proof -
    have "held (par # rest @ [c]) r" using runs_held [OF runs_parent c(2), of 0 prev pf r] h by (simp add: par'_def)
    then show ?thesis using fd_table_dup_evolves [OF d(1)] c(3) p(3) h file_keeps_trans unfolding evolves_def by blast
  qed
  then have "evolves (par' # rest @ [c]) s s4"
    using fd_table_dup_evolves [OF d(1)] c(3) p(3) shrinks_trans unfolding evolves_def by blast
  then show ?thesis using d(1) c(1) p(1,2) by blast
qed

section \<open>The tables\<close>

text \<open>The table of a process whose standard input and output are given, and the shell's own table in the loop.\<close>

definition std :: "file_ref \<Rightarrow> file_ref \<Rightarrow> fd_table" where
  "std i o' = [Some i, Some o', Some Console, None, None, None, None, None, None, None, None, None, None, None, None, None]"

definition at_loop :: "int \<Rightarrow> file_ref \<Rightarrow> fd_table \<Rightarrow> bool" where
  "at_loop prev inp par \<longleftrightarrow> prev = -1 \<and> inp = Console \<and> par = std Console Console
     \<or> (prev = 3 \<or> prev = 4) \<and> par = (std Console Console)[nat prev := Some inp]"

definition next_fds :: "int \<Rightarrow> int \<times> int" where
  "next_fds prev = (if prev = 3 then (4, 5) else if prev = 4 then (3, 5) else (3, 4))"

lemmas table_defs = at_loop_def next_fds_def std_def child_t_def parent_t_def close_t_def dup2_t_def fd_valid_def
  MAX_FDS_PER_TASK_def find_free_fd_def

lemma free_fds:
  assumes "at_loop prev inp par"
  shows "find_free_fd par = fst (next_fds prev)" "find_free_fd (par[nat (fst (next_fds prev)) := Some x]) = snd (next_fds prev)"
  using assms by (auto simp: table_defs)

lemma inner_tables:
  fixes R W :: file_ref
  assumes "at_loop prev inp par"
  defines "pf \<equiv> next_fds prev"
  defines "par1 \<equiv> par[nat (fst pf) := Some R, nat (snd pf) := Some W]"
  shows "child_t prev pf par1 = std inp W" "at_loop (fst pf) R (parent_t prev pf par1)"
  using assms(1) unfolding pf_def par1_def by (auto simp: table_defs)

lemma last_tables:
  assumes "at_loop prev inp par"
  shows "child_t prev (-1, -1) par = std inp Console" "parent_t prev (-1, -1) par = std Console Console"
  using assms by (auto simp: table_defs)

section \<open>The chain\<close>

text \<open>The addresses for the pipes of \<open>n\<close> further segments: not null, not in use, pairwise different.\<close>

fun usable :: "fdsys \<Rightarrow> u64 \<times> u64 \<times> u64 \<Rightarrow> bool" where
  "usable s (p, r, w) \<longleftrightarrow> p \<noteq> 0 \<and> r \<noteq> 0 \<and> w \<noteq> 0 \<and> r \<noteq> w
     \<and> pipes s p = None \<and> files s (Obj r) = None \<and> files s (Obj w) = None"

fun different :: "u64 \<times> u64 \<times> u64 \<Rightarrow> u64 \<times> u64 \<times> u64 \<Rightarrow> bool" where
  "different (p, r, w) (p', r', w') \<longleftrightarrow> p \<noteq> p' \<and> {r, w} \<inter> {r', w'} = {}"

definition news :: "(nat \<Rightarrow> u64 \<times> u64 \<times> u64) \<Rightarrow> nat \<Rightarrow> fdsys \<Rightarrow> bool" where
  "news al n s \<longleftrightarrow> (\<forall>i \<in> {1..n}. usable s (al i)) \<and> (\<forall>i \<in> {1..n}. \<forall>j \<in> {1..n}. i \<noteq> j \<longrightarrow> different (al i) (al j))"

text \<open>
  The processes \<open>cs\<close> form a chain that reads from \<open>inp\<close>: neighbours share a pipe, and among all tables
  each of its ends is held once.
\<close>

definition pipe_end :: "fdsys \<Rightarrow> u64 \<Rightarrow> int \<Rightarrow> file_ref \<Rightarrow> bool" where
  "pipe_end s p fl r \<longleftrightarrow> (\<exists>f. files s r = Some f \<and> ftype f = FD_TYPE_PIPE \<and> fpipe f = p \<and> fflags f = fl)"

fun piped :: "fd_table list \<Rightarrow> fdsys \<Rightarrow> file_ref \<Rightarrow> fd_table list \<Rightarrow> bool" where
  "piped tabs s inp [] \<longleftrightarrow> False"
| "piped tabs s inp [c] \<longleftrightarrow> c = std inp Console"
| "piped tabs s inp (c # d # cs) \<longleftrightarrow> (\<exists>p R W. c = std inp W \<and> pipe_end s p O_WRONLY W \<and> pipe_end s p O_RDONLY R
     \<and> refs tabs W = 1 \<and> refs tabs R = 1 \<and> piped tabs s R (d # cs))"

lemma file_keeps_pipe_end: "file_keeps s s' r \<Longrightarrow> pipe_end s p fl r \<Longrightarrow> pipe_end s' p fl r"
  unfolding file_keeps_def pipe_end_def by (elim exE conjE) (auto dest!: spec)

lemma news_step:
  assumes "news al (Suc n) s" "al (Suc n) = (p, r, w)"
    and "\<And>x. files s x = None \<Longrightarrow> x \<noteq> Obj r \<Longrightarrow> x \<noteq> Obj w \<Longrightarrow> files s1 x = None"
    and "\<And>a. pipes s a = None \<Longrightarrow> a \<noteq> p \<Longrightarrow> pipes s1 a = None" and "shrinks s1 s'"
  shows "news al n s'"
proof -
  have "usable s' (al i)" if "i \<in> {1..n}" for i
  proof -
    have "i \<in> {1..Suc n}" "Suc n \<in> {1..Suc n}" "i \<noteq> Suc n" using that by auto
    then have "usable s (al i)" "different (al i) (al (Suc n))" using assms(1) unfolding news_def by blast+
    then show ?thesis using assms(2-5) by (cases "al i") (auto simp: shrinks_def)
  qed
  moreover have "different (al i) (al j)" if "i \<in> {1..n}" "j \<in> {1..n}" "i \<noteq> j" for i j
  proof -
    have "i \<in> {1..Suc n}" "j \<in> {1..Suc n}" using that by auto
    then show ?thesis using assms(1) that(3) unfolding news_def by blast
  qed
  ultimately show ?thesis unfolding news_def by blast
qed

lemma pipe_created:
  assumes inv: "fd_inv (par # rest) s" and at: "at_loop prev inp par" and new: "news al (Suc n) s" "al (Suc n) = (p, r, w)"
  defines "pf \<equiv> next_fds prev"
  defines "par1 \<equiv> par[nat (fst pf) := Some (Obj r), nat (snd pf) := Some (Obj w)]"
  shows "\<exists>s1. fd_pipe par p r w s = (0, Some pf, par1, s1) \<and> fd_inv (par1 # rest) s1
     \<and> pipe_end s1 p O_RDONLY (Obj r) \<and> pipe_end s1 p O_WRONLY (Obj w) \<and> (\<forall>x. files s x \<noteq> None \<longrightarrow> files s1 x = files s x)
     \<and> (\<forall>x. files s x = None \<longrightarrow> x \<noteq> Obj r \<longrightarrow> x \<noteq> Obj w \<longrightarrow> files s1 x = None) \<and> (\<forall>a. pipes s a = None \<longrightarrow> a \<noteq> p \<longrightarrow> pipes s1 a = None)"
proof -
  have "Suc n \<in> {1..Suc n}" by simp
  then have "usable s (al (Suc n))" using new(1) unfolding news_def by blast
  then have nz: "p \<noteq> 0" "r \<noteq> 0" "w \<noteq> 0" "r \<noteq> w" "pipes s p = None" "files s (Obj r) = None" "files s (Obj w) = None"
    using new(2) by simp_all
  have pos: "0 \<le> fst pf" "0 \<le> snd pf" by (simp_all add: pf_def next_fds_def)
  define s1 where "s1 = put_file (Obj w) (zero_file\<lparr>ftype := FD_TYPE_PIPE, fflags := O_WRONLY, ref_count := 1, fpipe := p\<rparr>)
    (alloc_file w (put_file (Obj r) (zero_file\<lparr>ftype := FD_TYPE_PIPE, fflags := O_RDONLY, ref_count := 1, fpipe := p\<rparr>)
      (alloc_file r (put_pipe p (zero_pipe\<lparr>read_open := True, write_open := True\<rparr>) s))))"
  have s1: "fd_pipe par p r w s = (0, Some pf, par1, s1)"
    "files s1 = (files s)(Obj r \<mapsto> zero_file\<lparr>ftype := FD_TYPE_PIPE, fflags := O_RDONLY, ref_count := 1, fpipe := p\<rparr>,
       Obj w \<mapsto> zero_file\<lparr>ftype := FD_TYPE_PIPE, fflags := O_WRONLY, ref_count := 1, fpipe := p\<rparr>)"
    "pipes s1 = (pipes s)(p \<mapsto> zero_pipe\<lparr>read_open := True, write_open := True\<rparr>)"
    using free_fds [OF at] nz pos by (simp_all add: fd_pipe_def pf_def [symmetric] par1_def Let_def alloc_file_def put_pipe_def s1_def)
  have "fd_inv (par1 # rest) s1" using fd_pipe_inv(1) [OF inv, of 0 p r w 0 "Some pf" par1 s1] nz s1(1) by auto
  moreover have "pipe_end s1 p O_RDONLY (Obj r)" "pipe_end s1 p O_WRONLY (Obj w)"
    using nz(4) by (simp_all add: pipe_end_def s1(2) zero_file_def)
  ultimately show ?thesis using s1(1) nz(6,7) by (intro exI [of _ s1]) (auto simp: s1(2,3))
qed

lemma refs_Cons: "refs (t # tabs) x = refs [t] x + refs tabs x"
  by (simp add: refs_def)

lemma refs_simps: "refs [] x = 0" "refs (tabs @ tabs') x = refs tabs x + refs tabs' x"
  "refs [std i o'] x = of_bool (i = x) + of_bool (o' = x) + of_bool (Console = x)"
  by (simp_all add: refs_def std_def)

lemma held_simps: "held (t # tabs) x \<longleftrightarrow> Some x \<in> set t \<or> held tabs x" "held (tabs @ tabs') x \<longleftrightarrow> held tabs x \<or> held tabs' x"
  "held [] x \<longleftrightarrow> False" "Some x \<in> set (std i o') \<longleftrightarrow> x = i \<or> x = o' \<or> x = Console"
  by (auto simp: held_def std_def)

lemma at_loop_held: "at_loop prev inp par \<Longrightarrow> Some x \<in> set par \<longleftrightarrow> x = inp \<or> x = Console"
  by (auto simp: at_loop_def std_def)

lemma file_keeps_dom: "file_keeps s s' x \<Longrightarrow> files s x \<noteq> None \<Longrightarrow> files s' x \<noteq> None"
  by (auto simp: file_keeps_def)

text \<open>All that exists before a segment is still there behind it: what the shell gives up, its child has.\<close>

lemma segment_keeps:
  assumes inv: "fd_inv (par # rest) s" and at: "at_loop prev inp par" and same: "\<forall>x. files s x \<noteq> None \<longrightarrow> files s1 x = files s x"
    and ev: "evolves (par' # rest @ [std inp o']) s1 s4"
  shows "file_keeps s s4 x"
proof (cases "files s x = None")
  case True
  then show ?thesis by (simp add: file_keeps_def)
next
  case False
  then obtain f where f: "files s x = Some f" by blast
  have "x = Console \<or> held (par # rest) x"
  proof (cases "x = Console")
    case False
    then have "0 < refs (par # rest) x" using inv f unfolding fd_inv_def by blast
    then show ?thesis by (simp add: held_refs)
  qed simp
  then have "held (par' # rest @ [std inp o']) x" using at_loop_held [OF at] by (auto simp: held_simps)
  then have "file_keeps s1 s4 x" using ev by (simp add: evolves_def)
  then show ?thesis using same f by (simp add: file_keeps_def)
qed

lemma chain_runs:
  assumes "fd_inv (par # rest) s" "at_loop prev inp par" "news al n s" and fk: "\<forall>s. forks s"
  shows "\<exists>cs s'. pipe_chain al forks (Suc n) prev par s = Some (True, std Console Console, cs, s') \<and> length cs = Suc n
     \<and> fd_inv (std Console Console # rest @ cs) s' \<and> piped (std Console Console # rest @ cs) s' inp cs \<and> (\<forall>x. file_keeps s s' x)
     \<and> (\<forall>x. held cs x \<longrightarrow> x = inp \<or> x = Console \<or> files s x = None) \<and> (inp \<noteq> Console \<longrightarrow> refs cs inp = 1)"
  using assms(1-3)
proof (induction n arbitrary: prev inp par rest s)
  case 0
  have pf: "prev \<noteq> 0" "snd (-1 :: int, -1 :: int) \<noteq> 1" using 0(2) by (auto simp: at_loop_def)
  obtain s2 s3 s4 where g: "fd_table_dup par s = Some (par, s2)" "child_plumbing prev (-1, -1) (par, s2) = Some (std inp Console, s3)"
    "parent_plumbing prev (-1, -1) (par, s3) = Some (std Console Console, s4)"
    "fd_inv (std Console Console # rest @ [std inp Console]) s4" "evolves (std Console Console # rest @ [std inp Console]) s s4"
    using segment [OF 0(1) pf, unfolded last_tables [OF 0(2)]] by blast
  have "pipe_chain al forks (Suc 0) prev par s = Some (True, std Console Console, [std inp Console], s4)"
    using g(1-3) fk by simp
  moreover have "file_keeps s s4 x" for x by (rule segment_keeps [OF 0(1,2) _ g(5)]) simp
  ultimately show ?case
    by (intro exI [of _ "[std inp Console]"] exI [of _ s4]) (simp add: g(4) held_simps refs_simps del: pipe_chain.simps)
next
  case (Suc n)
  let ?t = "std Console Console"
  define pf where "pf = next_fds prev"
  obtain p r w where al: "al (Suc n) = (p, r, w)" by (cases "al (Suc n)")
  define par1 where "par1 = par[nat (fst pf) := Some (Obj r), nat (snd pf) := Some (Obj w)]"
  obtain s1 where s1: "fd_pipe par p r w s = (0, Some pf, par1, s1)" "fd_inv (par1 # rest) s1"
     "pipe_end s1 p O_RDONLY (Obj r)" "pipe_end s1 p O_WRONLY (Obj w)" "\<forall>x. files s x \<noteq> None \<longrightarrow> files s1 x = files s x"
     "\<And>x. files s x = None \<Longrightarrow> x \<noteq> Obj r \<Longrightarrow> x \<noteq> Obj w \<Longrightarrow> files s1 x = None" "\<And>a. pipes s a = None \<Longrightarrow> a \<noteq> p \<Longrightarrow> pipes s1 a = None"
    using pipe_created [OF Suc.prems al, folded pf_def, folded par1_def] by blast
  have pfs: "prev \<noteq> 0" "snd pf \<noteq> 1" using Suc.prems(2) by (auto simp: at_loop_def pf_def next_fds_def)
  let ?c = "std inp (Obj w)"
  define par' where "par' = parent_t prev pf par1"
  have t: "child_t prev pf par1 = ?c" "at_loop (fst pf) (Obj r) par'"
    unfolding par'_def par1_def pf_def by (rule inner_tables [OF Suc.prems(2)])+
  obtain s2 s3 s4 where g: "fd_table_dup par1 s1 = Some (par1, s2)" "child_plumbing prev pf (par1, s2) = Some (?c, s3)"
    "parent_plumbing prev pf (par1, s3) = Some (par', s4)" "fd_inv (par' # rest @ [?c]) s4" "evolves (par' # rest @ [?c]) s1 s4"
    using segment [OF s1(2) pfs, folded par'_def, unfolded t(1)] by blast
  note k = segment_keeps [OF Suc.prems(1,2) s1(5) g(5)]
  have "news al n s4" using news_step [OF Suc.prems(3) al s1(6,7)] g(5) by (simp add: evolves_def)
  then obtain cs s' where i: "pipe_chain al forks (Suc n) (fst pf) par' s4 = Some (True, ?t, cs, s')" "length cs = Suc n"
    "fd_inv (?t # rest @ ?c # cs) s'" "piped (?t # rest @ ?c # cs) s' (Obj r) cs" "\<And>x. file_keeps s4 s' x"
    "\<And>x. held cs x \<Longrightarrow> x = Obj r \<or> x = Console \<or> files s4 x = None" "refs cs (Obj r) = 1"
    using Suc.IH [OF g(4) t(2)] by auto
  have "Suc n \<in> {1..Suc n}" by simp
  then have "usable s (al (Suc n))" using Suc.prems(3) unfolding news_def by blast
  then have fr: "files s (Obj r) = None" "files s (Obj w) = None" "r \<noteq> w" using al by simp_all
  have dom: "files s x \<noteq> None" if "held (par # rest) x" for x using held_dom [OF Suc.prems(1) that] by (simp add: domIff)
  have inp: "inp \<noteq> Obj r" "inp \<noteq> Obj w" "inp \<noteq> Console \<Longrightarrow> files s inp \<noteq> None"
    using dom [of inp] at_loop_held [OF Suc.prems(2)] fr by (auto simp: held_simps)
  have s4: "files s4 x \<noteq> None" if "files s x \<noteq> None \<or> x = Obj w" for x
  proof (cases "x = Obj w")
    case True
    then have "held (par' # rest @ [?c]) x" by (simp add: held_simps)
    then show ?thesis using held_dom [OF g(4)] by (simp add: domIff)
  qed (use that file_keeps_dom [OF k] in blast)
  have new: "pipe_end s' p O_RDONLY (Obj r)" "pipe_end s' p O_WRONLY (Obj w)"
  proof -
    have "held (par' # rest @ [?c]) (Obj r)" "held (par' # rest @ [?c]) (Obj w)" using at_loop_held [OF t(2)] by (simp_all add: held_simps)
    then have "file_keeps s1 s4 (Obj r)" "file_keeps s1 s4 (Obj w)" using g(5) by (simp_all add: evolves_def)
    then show "pipe_end s' p O_RDONLY (Obj r)" "pipe_end s' p O_WRONLY (Obj w)"
      using s1(3,4) i(5) file_keeps_pipe_end by blast+
  qed
  have "\<not> held rest (Obj r)" "\<not> held rest (Obj w)" using dom [of "Obj r"] dom [of "Obj w"] fr by (auto simp: held_simps)
  moreover have "\<not> held cs (Obj w)" using i(6) [of "Obj w"] s4 fr(3) by auto
  ultimately have one: "refs (?t # rest @ ?c # cs) (Obj r) = 1" "refs (?t # rest @ ?c # cs) (Obj w) = 1"
    using i(7) inp fr(3) by (simp_all add: refs_Cons [of ?t] refs_Cons [of ?c] refs_simps held_refs)
  obtain d cs' where cs: "cs = d # cs'" using i(2) by (cases cs) auto
  have "piped (?t # rest @ ?c # cs) s' inp (?c # cs)" using new one i(4) unfolding cs by auto
  moreover have "pipe_chain al forks (Suc (Suc n)) prev par s = Some (True, ?t, ?c # cs, s')"
    using s1(1) g(1-3) i(1) fk al by (simp add: pipe_chain.simps(2) [of _ _ "Suc n"] del: pipe_chain.simps)
  moreover have "file_keeps s s' x" for x using file_keeps_trans [OF k i(5)] .
  moreover have "x = inp \<or> x = Console \<or> files s x = None" if "held (?c # cs) x" for x
    using that i(6) [of x] s4 [of x] fr by (auto simp: held_simps)
  moreover have "refs (?c # cs) inp = 1" if "inp \<noteq> Console"
  proof -
    have "\<not> held cs inp" using i(6) [of inp] s4 [of inp] inp that by auto
    then show ?thesis using inp that by (simp add: refs_Cons [of ?c] refs_simps held_refs)
  qed
  ultimately show ?case using i(2,3) by (intro exI [of _ "?c # cs"] exI [of _ s']) simp
qed

text \<open>
  C22: a line of \<open>n\<close> segments starts \<open>n\<close> processes that form a chain: the first reads the console, each of the
  others the pipe that the one before it writes, the last writes the console, and none has another descriptor.
  Every end of a pipe is held by one process only, the shell has its three descriptors as before, and the
  invariant of the descriptor layer holds. So a reader sees the end of its input when its writer ends.
\<close>

theorem pipe_chain_connects:
  assumes "fd_inv (std Console Console # others) s" "news al n s" "\<forall>s. forks s"
  shows "\<exists>cs s'. pipe_chain al forks (Suc n) (-1) (std Console Console) s = Some (True, std Console Console, cs, s')
     \<and> length cs = Suc n \<and> piped (std Console Console # others @ cs) s' Console cs \<and> fd_inv (std Console Console # others @ cs) s'"
proof -
  have "at_loop (-1) Console (std Console Console)" by (simp add: at_loop_def)
  from chain_runs [OF assms(1) this assms(2,3)] show ?thesis by blast
qed

text \<open>The shell as the first process, and a line of three segments.\<close>

theorem pipe_chain_connects_witness:
  "\<exists>s cs s'. fd_table_init fd_boot = Some (std Console Console, s)
     \<and> pipe_chain (\<lambda>i. (of_nat i, 100 * of_nat i, 100 * of_nat i + 50)) (\<lambda>_. True) 3 (-1) (std Console Console) s = Some (True, std Console Console, cs, s')
     \<and> length cs = 3 \<and> piped (std Console Console # cs) s' Console cs"
proof -
  let ?al = "\<lambda>i. (of_nat i, 100 * of_nat i, 100 * of_nat i + 50) :: u64 \<times> u64 \<times> u64"
  define s where "s = put_file Console (console_file\<lparr>ref_count := 3\<rparr>) fd_boot"
  have i: "fd_table_init fd_boot = Some (std Console Console, s)"
    by (simp add: fd_table_init_def add_ref_def fd_boot_def s_def std_def MAX_FDS_PER_TASK_def console_file_def zero_file_def numeral_eq_Suc)
  then have s: "fd_inv [std Console Console] s" using fd_table_init_inv [OF fd_inv_boot] by (metis append_Nil fst_conv option.inject snd_conv)
  have "{1..2} = {1, 2 :: nat}" by auto
  then have "news ?al 2 s" by (simp add: news_def s_def fd_boot_def)
  then show ?thesis using pipe_chain_connects [of "[]" s ?al 2 "\<lambda>_. True"] i s by (auto simp: numeral_3_eq_3 numeral_2_eq_2)
qed

end
