(* ===== verification/Drivers.thy ===== *)
theory Drivers
  imports Virtio_pci Virtio Net
begin

text \<open>
  Initialisation of the entropy, block and network driver (\<^verbatim>\<open>src/virtio_rng.c\<close>, \<^verbatim>\<open>src/virtio_blk.c\<close>,
  \<^verbatim>\<open>src/virtio_net.c\<close>): from the search on the bus to a device that may use its queues. \<open>None\<close> stands for
  a run that does not end or leaves an array, as in \<open>Virtio_pci\<close>.
\<close>

section \<open>Common steps\<close>

record virtio_dev =
  d_pci :: pci_device
  d_vpci :: virtio_pci_dev

definition run_opt :: "('d machine, 'a option) state \<Rightarrow> 'd machine \<Rightarrow> ('a \<times> 'd machine) option" where
  "run_opt f m = (case run_state f m of (r, m) \<Rightarrow> map_option (\<lambda>r. (r, m)) r)"

text \<open>
  How every driver starts: it searches the device, parses its capabilities and negotiates features.
\<close>

definition probe :: "'d bus \<Rightarrow> (pci_device \<Rightarrow> ('d machine, (bool \<times> pci_device) option) state) \<Rightarrow> u32 \<Rightarrow> pci_device \<Rightarrow> virtio_pci_dev \<Rightarrow> 'd machine
    \<Rightarrow> (int \<times> pci_device \<times> virtio_pci_dev \<times> 'd machine) option" where
  "probe b search want_features p v m = do {
     ((found, p), m) \<leftarrow> run_opt (search p) m;
     if \<not> found then Some (-1, p, v, m)
     else do {
       (r, v, m) \<leftarrow> virtio_pci_parse_caps b p v m;
       if r < 0 then Some (-1, p, v, m)
       else do {
         (r, m) \<leftarrow> virtio_pci_init_device b v want_features 0 m;
         Some (if r < 0 then -1 else 0, p, v, m) } } }"

fun read_config :: "'d bus \<Rightarrow> u64 \<Rightarrow> nat \<Rightarrow> ('d machine, u8 list) state" where
  "read_config b a 0 = State_Monad.return []"
| "read_config b a (Suc n) = do { x \<leftarrow> mmio_read8 b a; xs \<leftarrow> read_config b (a + 1) n; State_Monad.return (x # xs) }"

section \<open>Entropy\<close>

record rng_dev = virtio_dev +
  rng_vq :: virtqueue

definition virtio_rng_init :: "'d bus \<Rightarrow> (nat \<Rightarrow> u64 \<times> u64 \<times> u64) \<Rightarrow> u64 \<times> u64 \<times> u64 \<Rightarrow> rng_dev \<Rightarrow> 'd machine
    \<Rightarrow> (int \<times> rng_dev \<times> 'd machine) option" where
  "virtio_rng_init b rings ptrs d m = do {
     (r, p, v, m) \<leftarrow> probe b (pci_find_virtio_rng b) 0 (d_pci d) (d_vpci d) m;
     let d = d\<lparr>d_pci := p, d_vpci := v\<rparr>;
     if r < 0 then Some (-1, d, m)
     else do {
       ((r, vq), m) \<leftarrow> run_opt (virtio_pci_setup_queue b rings (d_vpci d) ptrs (rng_vq d) 0 16) m;
       let d = d\<lparr>rng_vq := vq\<rparr>;
       if r < 0 then Some (-1, d, m)
       else Some (0, d, snd (run_state (virtio_pci_set_driver_ok b (d_vpci d)) m)) } }"

section \<open>Block device\<close>

definition VIRTIO_BLK_F_BLK_SIZE :: u32 where "VIRTIO_BLK_F_BLK_SIZE = push_bit 6 1"
definition BLK_CFG_CAPACITY :: u64 where "BLK_CFG_CAPACITY = 0x00"
definition BLK_CFG_BLK_SIZE :: u64 where "BLK_CFG_BLK_SIZE = 0x18"

record blk_dev = virtio_dev +
  blk_vq :: virtqueue
  capacity :: u64
  blk_size :: u32

definition read_blk_config :: "'d bus \<Rightarrow> u64 \<Rightarrow> blk_dev \<Rightarrow> ('d machine, blk_dev) state" where
  "read_blk_config b dcfg d = do {
     cap_lo \<leftarrow> mmio_read32 b (dcfg + BLK_CFG_CAPACITY);
     cap_hi \<leftarrow> mmio_read32 b (dcfg + BLK_CFG_CAPACITY + 4);
     let d = d\<lparr>capacity := push_bit 32 (ucast cap_hi) OR ucast cap_lo, blk_size := 512\<rparr>;
     bs \<leftarrow> mmio_read32 b (dcfg + BLK_CFG_BLK_SIZE);
     State_Monad.return (if bs \<ge> 512 \<and> bs \<le> 4096 then d\<lparr>blk_size := bs\<rparr> else d) }"

definition virtio_blk_init :: "'d bus \<Rightarrow> (nat \<Rightarrow> u64 \<times> u64 \<times> u64) \<Rightarrow> u64 \<times> u64 \<times> u64 \<Rightarrow> blk_dev \<Rightarrow> 'd machine
    \<Rightarrow> (int \<times> blk_dev \<times> 'd machine) option" where
  "virtio_blk_init b rings ptrs d m = do {
     (r, p, v, m) \<leftarrow> probe b (pci_find_virtio_blk b) VIRTIO_BLK_F_BLK_SIZE (d_pci d) (d_vpci d) m;
     let d = d\<lparr>d_pci := p, d_vpci := v\<rparr>;
     if r < 0 then Some (-1, d, m)
     else do {
       let dcfg = device_cfg (d_vpci d);
       if dcfg = 0 then Some (-1, d, m)
       else do {
         let (d, m) = run_state (read_blk_config b dcfg d) m;
         ((r, vq), m) \<leftarrow> run_opt (virtio_pci_setup_queue b rings (d_vpci d) ptrs (blk_vq d) 0 32) m;
         let d = d\<lparr>blk_vq := vq\<rparr>;
         if r < 0 then Some (-1, d, m)
         else Some (0, d, snd (run_state (virtio_pci_set_driver_ok b (d_vpci d)) m)) } } }"

section \<open>Network device\<close>

definition VIRTIO_NET_F_MAC :: u32 where "VIRTIO_NET_F_MAC = push_bit 5 1"
definition VIRTIO_NET_F_STATUS :: u32 where "VIRTIO_NET_F_STATUS = push_bit 16 1"
definition NET_CFG_MAC :: u64 where "NET_CFG_MAC = 0x00"
definition NET_CFG_STATUS :: u64 where "NET_CFG_STATUS = 0x06"

record net_dev = virtio_dev +
  mac :: "u8 list"
  net_of :: net

text \<open>The result is also whether the link is up, which the driver prints.\<close>

definition virtio_net_init :: "'d bus \<Rightarrow> (nat \<Rightarrow> u64 \<times> u64 \<times> u64) \<Rightarrow> u64 \<times> u64 \<times> u64 \<Rightarrow> u64 \<times> u64 \<times> u64 \<Rightarrow> net_statics \<Rightarrow> net_dev \<Rightarrow> 'd machine
    \<Rightarrow> (int \<times> net_dev \<times> 'd machine) option" where
  "virtio_net_init b rings rxptrs txptrs g d m = do {
     (r, p, v, m) \<leftarrow> probe b (pci_find_virtio_net b) (VIRTIO_NET_F_MAC OR VIRTIO_NET_F_STATUS) (d_pci d) (d_vpci d) m;
     let d = d\<lparr>d_pci := p, d_vpci := v\<rparr>;
     if r < 0 then Some (-1, d, m)
     else do {
       let dcfg = device_cfg (d_vpci d);
       if dcfg = 0 then Some (-1, d, m)
       else do {
         let (a, m) = run_state (read_config b (dcfg + NET_CFG_MAC) 6) m;
         let d = d\<lparr>mac := a\<rparr>;
         let (status, m) = run_state (mmio_read16 b (dcfg + NET_CFG_STATUS)) m;
         ((r, vq), m) \<leftarrow> run_opt (virtio_pci_setup_queue b rings (d_vpci d) rxptrs (rxq (net_of d)) 0 256) m;
         let d = d\<lparr>net_of := (net_of d)\<lparr>rxq := vq\<rparr>\<rparr>;
         if r < 0 then Some (-1, d, m)
         else do {
           ((r, vq), m) \<leftarrow> run_opt (virtio_pci_setup_queue b rings (d_vpci d) txptrs (txq (net_of d)) 1 256) m;
           let d = d\<lparr>net_of := (net_of d)\<lparr>txq := vq\<rparr>\<rparr>;
           if r < 0 then Some (-1, d, m)
           else do {
             let m = snd (run_state (virtio_pci_set_driver_ok b (d_vpci d)) m);
             n \<leftarrow> fill_rx_queue g (net_of d);
             let (a, q) = virtqueue_kick (rxq n);
             Some (0, d\<lparr>net_of := n\<rparr>, snd (run_state (mmio_write16 b a q) m)) } } } } }"

end
