(* ===== verification/DriversSpec.thy ===== *)
theory DriversSpec
  imports Drivers PciSpec NetSpec
begin

text \<open>
  What a driver may rely on when its initialisation has succeeded: the queues are as the request
  functions expect them, and the device was told to start only after everything else.
\<close>

section \<open>Access runs\<close>

text \<open>A run on a logged bus that takes no queue slot only extends the log.\<close>

definition quiet :: "('d \<times> (mmio_op \<times> u32) list) machine \<Rightarrow> ('d \<times> (mmio_op \<times> u32) list) machine \<Rightarrow> bool" where
  "quiet m m' \<longleftrightarrow> next_queue_slot m' = next_queue_slot m \<and> (\<exists>l. snd (hw m') = snd (hw m) @ l)"

lemma quiet_refl: "quiet m m"
  by (simp add: quiet_def)

lemma quiet_trans: "quiet m m1 \<Longrightarrow> quiet m1 m2 \<Longrightarrow> quiet m m2"
  by (auto simp: quiet_def)

definition steps :: "(('d \<times> (mmio_op \<times> u32) list) machine, 'a) state \<Rightarrow> bool" where
  "steps f \<longleftrightarrow> (\<forall>m. quiet m (snd (run_state f m)))"

lemma steps_access: "steps (access (logged b) op)"
  by (simp add: steps_def quiet_def access_logged)

lemma steps_bind: "steps f \<Longrightarrow> (\<And>x. steps (g x)) \<Longrightarrow> steps (State_Monad.bind f g)"
  unfolding steps_def
proof (intro allI)
  fix m
  assume f: "\<forall>m. quiet m (snd (run_state f m))" and g: "\<And>x. \<forall>m. quiet m (snd (run_state (g x) m))"
  obtain x m1 where x: "run_state f m = (x, m1)" by (cases "run_state f m")
  then have "quiet m m1" using f [THEN spec, of m] by simp
  then show "quiet m (snd (run_state (State_Monad.bind f g) m))" using g [of x, THEN spec, of m1] x by (auto intro: quiet_trans)
qed

lemma steps_return: "steps (State_Monad.return x)"
  by (simp add: steps_def quiet_refl)

lemma steps_if: "(c \<Longrightarrow> steps f) \<Longrightarrow> (\<not> c \<Longrightarrow> steps g) \<Longrightarrow> steps (if c then f else g)"
  by simp

lemma steps_option: "steps f \<Longrightarrow> (\<And>x. steps (g x)) \<Longrightarrow> steps (case x of None \<Rightarrow> f | Some x \<Rightarrow> g x)"
  by (cases x) simp_all

lemma steps_alloc: "steps (alloc_mmio32 sz)" "steps (alloc_pio sz)"
  by (simp_all add: steps_def quiet_def alloc_mmio32_def alloc_pio_def Let_def)

lemmas steps_rules = steps_bind steps_return steps_if steps_option steps_access steps_alloc

lemma steps_mmio:
  "steps (mmio_read8 (logged b) a)" "steps (mmio_read16 (logged b) a)" "steps (mmio_read32 (logged b) a)"
  "steps (mmio_write8 (logged b) a v)" "steps (mmio_write16 (logged b) a v')" "steps (mmio_write32 (logged b) a v'')"
  unfolding mmio_defs by (intro steps_rules)+

lemmas config_defs = pci_config_read8_def pci_config_read16_def pci_config_read32_def pci_config_write16_def pci_config_write32_def

lemma steps_assign: "steps (assign_from (logged b) n i d)"
proof (induction "logged b" n i d rule: assign_from.induct)
  case (1 i d)
  then show ?case by (simp add: steps_return)
next
  case (2 n i d)
  then show ?case unfolding assign_from.simps Let_def config_defs by (intro steps_rules steps_mmio) simp_all
qed

lemma steps_find: "steps (find_from (logged b) ids subsys n slot out)"
proof (induction n arbitrary: slot)
  case (Suc n)
  then show ?case
    unfolding find_from.simps config_defs pci_assign_bars_def pci_enable_device_def Let_def
    by (intro steps_rules steps_mmio steps_assign) simp_all
qed (simp add: steps_return)

lemma steps_cap: "steps (cap_step (logged b) pci off c)"
  unfolding cap_step_def Let_def config_defs by (intro steps_rules steps_mmio)

lemma steps_negotiate: "steps (negotiate (logged b) c lo hi)"
  unfolding negotiate_def Let_def by (intro steps_rules steps_mmio)

lemma run_quiet: "steps f \<Longrightarrow> run_state f m = (x, m') \<Longrightarrow> quiet m m'"
  by (metis snd_conv steps_def)

lemma run_opt_quiet: "steps f \<Longrightarrow> run_opt f m = Some (x, m') \<Longrightarrow> quiet m m'"
  by (auto simp: run_opt_def split: prod.splits dest: run_quiet)

lemma cap_loop_quiet:
  assumes "cap_loop (logged b) pci off c m = Some (c', m')"
  shows "quiet m m'"
proof -
  have "b' = logged b \<longrightarrow> quiet m (snd r)" if "cap_loop b' pci off c m = Some r" for b' r
  proof (rule cap_loop.raw_induct [OF _ that], rule impI)
    fix f b' pci off c m r
    assume IH: "\<And>b' pci off c m r. f b' pci off c m = Some r \<Longrightarrow> b' = logged b \<longrightarrow> quiet m (snd r)"
      and r: "(if off = 0 then Some (c, m) else case run_state (cap_step b' pci off c) m of
         (None, m) \<Rightarrow> None | (Some (cap_next, c), m) \<Rightarrow> f b' pci cap_next c m) = Some r" and b: "b' = logged b"
    show "quiet m (snd r)"
    proof (cases "off = 0")
      case True
      then show ?thesis using r quiet_refl by auto
    next
      case False
      then obtain n c1 m1 where s: "run_state (cap_step b' pci off c) m = (Some (n, c1), m1)" "f b' pci n c1 m1 = Some r"
        using r by (auto split: prod.splits option.splits)
      have "quiet m m1" using run_quiet [OF steps_cap] s(1) b by blast
      then show ?thesis using IH [OF s(2)] b quiet_trans by blast
    qed
  qed
  then show ?thesis using assms by fastforce
qed

lemma reset_wait_quiet:
  assumes "reset_wait (logged b) common m = Some m'"
  shows "quiet m m'"
proof -
  have "b' = logged b \<longrightarrow> quiet m m'" if "reset_wait b' common m = Some m'" for b'
  proof (rule reset_wait.raw_induct [OF _ that], rule impI)
    fix f b' common m m'
    assume IH: "\<And>b' common m m'. f b' common m = Some m' \<Longrightarrow> b' = logged b \<longrightarrow> quiet m m'"
      and r: "(case run_state (mmio_read8 b' (common + VIRTIO_COMMON_STATUS)) m of (v, m) \<Rightarrow> if v \<noteq> 0 then f b' common m else Some m) = Some m'"
      and b: "b' = logged b"
    obtain v m1 where s: "run_state (mmio_read8 b' (common + VIRTIO_COMMON_STATUS)) m = (v, m1)" by (cases "run_state (mmio_read8 b' (common + VIRTIO_COMMON_STATUS)) m")
    have q: "quiet m m1" using run_quiet [OF steps_mmio(1)] s b by blast
    have "f b' common m1 = Some m' \<or> m' = m1" using r s by (auto split: if_splits)
    then show "quiet m m'" using q IH b quiet_trans by blast
  qed
  then show ?thesis using assms by blast
qed

text \<open>A device that is probed has confirmed its features.\<close>

definition confirmed :: "virtio_pci_dev \<Rightarrow> (mmio_op \<times> u32) list \<Rightarrow> bool" where
  "confirmed v l \<longleftrightarrow> (\<exists>st. (R8 (common_cfg v + 0x14), st) \<in> set l \<and> (ucast st :: u8) AND 8 \<noteq> 0)"

lemma negotiate_confirmed:
  assumes "run_state (negotiate (logged b) c lo hi) m = (0, m')" and c: "c = common_cfg v"
  shows "\<exists>l. snd (hw m') = snd (hw m) @ l \<and> confirmed v l"
proof -
  obtain flo fhi st where l: "snd (hw m') = snd (hw m) @ [(W8 (c + VIRTIO_COMMON_STATUS) 1, 0), (W8 (c + VIRTIO_COMMON_STATUS) 3, 0),
       (W32 (c + VIRTIO_COMMON_DFSELECT) 0, 0), (R32 (c + VIRTIO_COMMON_DF), flo), (W32 (c + VIRTIO_COMMON_DFSELECT) 1, 0), (R32 (c + VIRTIO_COMMON_DF), fhi),
       (W32 (c + VIRTIO_COMMON_GFSELECT) 0, 0), (W32 (c + VIRTIO_COMMON_GF) (flo AND lo), 0), (W32 (c + VIRTIO_COMMON_GFSELECT) 1, 0),
       (W32 (c + VIRTIO_COMMON_GF) (fhi AND (1 OR hi)), 0), (W8 (c + VIRTIO_COMMON_STATUS) 11, 0), (R8 (c + VIRTIO_COMMON_STATUS), st)]
       @ (if (ucast st :: u8) AND 8 = 0 then [(W8 (c + VIRTIO_COMMON_STATUS) 128, 0)] else [])"
    "(0 :: int) = (if (ucast st :: u8) AND 8 = 0 then -1 else 0)"
    using negotiate_log [of b c lo hi m 0 m'] assms(1) by blast
  from l(2) have "(ucast st :: u8) AND 8 \<noteq> 0" by auto
  then show ?thesis using l(1) c by (auto simp: confirmed_def VIRTIO_COMMON_STATUS_def)
qed

lemma parse_caps_quiet: "virtio_pci_parse_caps (logged b) p v m = Some (r, v', m') \<Longrightarrow> quiet m m'"
  using run_quiet [OF steps_mmio(1)] cap_loop_quiet quiet_trans
  by (fastforce simp: virtio_pci_parse_caps_def config_defs split: prod.splits option.splits)

lemma init_device_ready:
  assumes i: "virtio_pci_init_device (logged b) v lo hi m = Some (r, m')"
  shows "quiet m m'" "\<not> r < 0 \<Longrightarrow> \<exists>l. snd (hw m') = snd (hw m) @ l \<and> confirmed v l"
proof -
  let ?m = "snd (run_state (mmio_write8 (logged b) (common_cfg v + VIRTIO_COMMON_STATUS) 0) m)"
  obtain m1 where m1: "reset_wait (logged b) (common_cfg v) ?m = Some m1" "run_state (negotiate (logged b) (common_cfg v) lo hi) m1 = (r, m')"
    using i by (auto simp: virtio_pci_init_device_def Let_def)
  have "quiet m ?m" using steps_mmio(4) unfolding steps_def by blast
  then have q: "quiet m m1" using reset_wait_quiet [OF m1(1)] quiet_trans by blast
  then show "quiet m m'" using run_quiet [OF steps_negotiate m1(2)] quiet_trans by blast
  assume nr: "\<not> r < 0"
  have "r = 0 \<or> r = -1" using negotiate_log [of b "common_cfg v" lo hi m1 r m'] m1(2) by (auto split: if_splits)
  then have "r = 0" using nr by auto
  then obtain l where "snd (hw m') = snd (hw m1) @ l" "confirmed v l" using negotiate_confirmed m1(2) by blast
  then show "\<exists>l. snd (hw m') = snd (hw m) @ l \<and> confirmed v l" using q by (auto simp: quiet_def confirmed_def)
qed

lemma probe_ready:
  assumes p: "probe (logged b) search lo p v m = Some (r, p', v', m')" and search: "\<And>p. steps (search p)"
  shows "quiet m m'" "\<not> r < 0 \<Longrightarrow> \<exists>l. snd (hw m') = snd (hw m) @ l \<and> confirmed v' l"
proof -
  obtain fd p1 m1 where a: "run_opt (search p) m = Some ((fd, p1), m1)"
    and p1: "(if \<not> fd then Some (-1, p1, v, m1) else Option.bind (virtio_pci_parse_caps (logged b) p1 v m1) (\<lambda>(r, v, m).
       if r < 0 then Some (-1, p1, v, m) else Option.bind (virtio_pci_init_device (logged b) v lo 0 m) (\<lambda>(r, m).
         Some (if r < 0 then -1 else 0, p1, v, m)))) = Some (r, p', v', m')"
    using p by (auto simp: probe_def bind_eq_Some_conv)
  have q1: "quiet m m1" using run_opt_quiet [OF search a] .
  have "quiet m m' \<and> r < 0 \<or> (\<exists>m2 r3. quiet m m2 \<and> virtio_pci_init_device (logged b) v' lo 0 m2 = Some (r3, m') \<and> r = (if r3 < 0 then -1 else 0))"
  proof (cases fd)
    case True
    then obtain r2 v2 m2 where c: "virtio_pci_parse_caps (logged b) p1 v m1 = Some (r2, v2, m2)"
      and p2: "(if r2 < 0 then Some (-1, p1, v2, m2) else Option.bind (virtio_pci_init_device (logged b) v2 lo 0 m2) (\<lambda>(r, m).
         Some (if r < 0 then -1 else 0, p1, v2, m))) = Some (r, p', v', m')"
      using p1 by (auto simp: bind_eq_Some_conv)
    have "quiet m m2" using q1 parse_caps_quiet [OF c] by (rule quiet_trans)
    show ?thesis
    proof (cases "r2 < 0")
      case False
      then obtain r3 where "virtio_pci_init_device (logged b) v' lo 0 m2 = Some (r3, m')" "r = (if r3 < 0 then -1 else 0)"
        using p2 by (auto simp: bind_eq_Some_conv)
      then show ?thesis using \<open>quiet m m2\<close> by blast
    qed (use p2 \<open>quiet m m2\<close> in simp)
  qed (use p1 q1 in simp)
  then have "quiet m m' \<and> (\<not> r < 0 \<longrightarrow> (\<exists>l. snd (hw m') = snd (hw m) @ l \<and> confirmed v' l))"
  proof (elim disjE exE conjE)
    fix m2 r3
    assume m2: "quiet m m2" "virtio_pci_init_device (logged b) v' lo 0 m2 = Some (r3, m')" "r = (if r3 < 0 then -1 else 0)"
    note i = init_device_ready [OF m2(2)]
    have "\<exists>l. snd (hw m') = snd (hw m) @ l \<and> confirmed v' l" if nr: "\<not> r < 0"
    proof -
      obtain l where "snd (hw m') = snd (hw m2) @ l" "confirmed v' l" using i(2) nr m2(3) by (auto split: if_splits)
      then show ?thesis using m2(1) by (auto simp: quiet_def confirmed_def)
    qed
    then show ?thesis using quiet_trans [OF m2(1) i(1)] by blast
  qed simp
  then show "quiet m m'" "\<not> r < 0 \<Longrightarrow> \<exists>l. snd (hw m') = snd (hw m) @ l \<and> confirmed v' l" by blast+
qed

section \<open>Ready drivers\<close>

text \<open>A queue of at most \<open>n\<close> descriptors that are all free; devices have queues of a power of two.\<close>

definition fresh_queue :: "u16 \<Rightarrow> virtqueue \<Rightarrow> bool" where
  "fresh_queue n vq \<longleftrightarrow> vq_inv [0..<unat (num vq)] {} [] vq \<and> 0 < num vq \<and> num vq \<le> n"

definition queue_sizes_ok :: "'d bus \<Rightarrow> virtio_pci_dev \<Rightarrow> bool" where
  "queue_sizes_ok b v \<longleftrightarrow> (\<forall>h. unat (ucast (fst (b (R16 (common_cfg v + 0x18)) h)) :: u16) dvd 65536
     \<or> (ucast (fst (b (R16 (common_cfg v + 0x18)) h)) :: u16) = 0)"

lemma setup_queue_result:
  "run_state (virtio_pci_setup_queue b rings v ptrs vq index n) m = (Some (r, vq'), m') \<Longrightarrow> r = 0 \<or> r = -1"
  by (auto simp: virtio_pci_setup_queue_def Let_def split: if_splits option.splits prod.splits)

lemma queue_ready:
  assumes r: "run_opt (virtio_pci_setup_queue (logged b) rings v ptrs vq index n) m = Some ((r, vq'), m')" and "\<not> r < 0"
    and slot: "next_queue_slot m < VIRTQ_MAX_QUEUES" and pow: "n \<noteq> 0" "unat n dvd 65536" "queue_sizes_ok b v"
  shows "fresh_queue n vq' \<and> queue_index vq' = index \<and> next_queue_slot m' = Suc (next_queue_slot m)
     \<and> (\<exists>l. snd (hw m') = snd (hw m) @ l \<and> (W16 (common_cfg v + 0x1C) 1, 0) \<in> set l)"
proof -
  have s0: "run_state (virtio_pci_setup_queue (logged b) rings v ptrs vq index n) m = (Some (r, vq'), m')"
    using r by (auto simp: run_opt_def split: prod.splits)
  have "r = 0" using setup_queue_result [OF s0] assms(2) by auto
  with s0 have s: "run_state (virtio_pci_setup_queue (logged b) rings v ptrs vq index n) m = (Some (0, vq'), m')" by simp
  from setup_queue_runs [OF s slot pow(1,2) pow(3) [unfolded queue_sizes_ok_def]]
  show ?thesis unfolding fresh_queue_def by (elim conjE exE) (simp, blast?)
qed

lemma driver_ok_log:
  "snd (hw (snd (run_state (virtio_pci_set_driver_ok (logged b) v) m))) = snd (hw m) @ [(W8 (common_cfg v + 0x14) 15, 0)]"
  "next_queue_slot (snd (run_state (virtio_pci_set_driver_ok (logged b) v) m)) = next_queue_slot m"
  by (simp_all add: virtio_pci_set_driver_ok_def mmio_defs access_logged status_defs VIRTIO_STATUS_DRIVER_OK_def VIRTIO_COMMON_STATUS_def)

text \<open>
  C34: when the block driver has been initialised and a queue slot was left, its queue has all of its at
  most 32 descriptors free, the capacity is what the device says, the block size is sensible, and the device
  was told to start last of all, after it had confirmed the features and its queue was enabled.
\<close>

theorem virtio_blk_init_ready:
  assumes r: "virtio_blk_init (logged b) rings ptrs d m = Some (0, d', m')" and slot: "next_queue_slot m < VIRTQ_MAX_QUEUES"
    and sizes: "queue_sizes_ok b (d_vpci d')"
  defines "c \<equiv> common_cfg (d_vpci d')" and "dcfg \<equiv> device_cfg (d_vpci d')"
  shows "fresh_queue 32 (blk_vq d') \<and> 512 \<le> blk_size d' \<and> blk_size d' \<le> 4096 \<and> next_queue_slot m' = Suc (next_queue_slot m)
    \<and> (\<exists>l lo hi. snd (hw m') = snd (hw m) @ l @ [(W8 (c + 0x14) 15, 0)] \<and> confirmed (d_vpci d') l \<and> (W16 (c + 0x1C) 1, 0) \<in> set l
       \<and> (R32 dcfg, lo) \<in> set l \<and> (R32 (dcfg + 4), hi) \<in> set l \<and> capacity d' = push_bit 32 (ucast hi) OR ucast lo)"
proof -
  obtain r1 p v m1 where p: "probe (logged b) (pci_find_virtio_blk (logged b)) VIRTIO_BLK_F_BLK_SIZE (d_pci d) (d_vpci d) m = Some (r1, p, v, m1)"
    using r by (auto simp: virtio_blk_init_def bind_eq_Some_conv)
  note r1 = r [unfolded virtio_blk_init_def p bind.bind_lunit prod.case Let_def]
  have n1: "\<not> r1 < 0" "device_cfg v \<noteq> 0" using r1 by (auto split: if_splits)
  have "\<And>p. steps (pci_find_virtio_blk (logged b) p)" unfolding pci_find_virtio_blk_def by (rule steps_find)
  note P = probe_ready [OF p this]
  obtain l1 where l1: "snd (hw m1) = snd (hw m) @ l1" "confirmed v l1" using P(2) n1(1) by blast
  obtain d2 m2 where d2: "run_state (read_blk_config (logged b) (device_cfg v) (d\<lparr>d_pci := p, d_vpci := v\<rparr>)) m1 = (d2, m2)" by (metis surj_pair)
  obtain lo hi bs where cfg: "d_vpci d2 = v" "capacity d2 = push_bit 32 (ucast hi) OR ucast lo" "512 \<le> blk_size d2" "blk_size d2 \<le> 4096"
    "next_queue_slot m2 = next_queue_slot m1" "snd (hw m2) = snd (hw m1) @ [(R32 (device_cfg v), lo), (R32 (device_cfg v + 4), hi), (R32 (device_cfg v + 0x18), bs)]"
    using d2 by (auto simp: read_blk_config_def mmio_defs access_logged Let_def BLK_CFG_CAPACITY_def BLK_CFG_BLK_SIZE_def split: if_splits)
  obtain r3 vq m3 where q: "run_opt (virtio_pci_setup_queue (logged b) rings v ptrs (blk_vq d2) 0 32) m2 = Some ((r3, vq), m3)"
    and e: "\<not> r3 < 0" "d' = d2\<lparr>blk_vq := vq\<rparr>" "m' = snd (run_state (virtio_pci_set_driver_ok (logged b) v) m3)"
    using r1 n1 d2 cfg(1) by (auto simp: bind_eq_Some_conv split: if_splits)
  have dv: "d_vpci d' = v" using e(2) cfg(1) by simp
  have "next_queue_slot m2 = next_queue_slot m" using P(1) cfg(5) by (simp add: quiet_def)
  then have Q: "fresh_queue 32 vq \<and> queue_index vq = 0 \<and> next_queue_slot m3 = Suc (next_queue_slot m)
     \<and> (\<exists>l. snd (hw m3) = snd (hw m2) @ l \<and> (W16 (common_cfg v + 0x1C) 1, 0) \<in> set l)"
    using queue_ready [OF q e(1)] slot sizes by (simp add: dv)
  then obtain l3 where "snd (hw m3) = snd (hw m2) @ l3" "(W16 (common_cfg v + 0x1C) 1, 0) \<in> set l3" by blast
  then have "snd (hw m') = snd (hw m) @ (l1 @ [(R32 (device_cfg v), lo), (R32 (device_cfg v + 4), hi), (R32 (device_cfg v + 0x18), bs)] @ l3) @ [(W8 (c + 0x14) 15, 0)]
     \<and> (W16 (c + 0x1C) 1, 0) \<in> set l3"
    using l1 cfg(6) by (simp add: e(3) driver_ok_log dv c_def)
  then show ?thesis using Q l1(2) cfg e(2) driver_ok_log(2) [of b v m3] unfolding e(3) dcfg_def dv
    by (intro conjI exI [of _ "l1 @ [(R32 (device_cfg v), lo), (R32 (device_cfg v + 4), hi), (R32 (device_cfg v + 0x18), bs)] @ l3"] exI [of _ lo] exI [of _ hi])
      (auto simp: confirmed_def)
qed

text \<open>
  A virtio device in slot 0 whose 32-bit registers all read the same. Its number is a parameter, its only state the status register.
\<close>

fun demo_vdev :: "u16 \<Rightarrow> u8 bus" where
  "demo_vdev ident (R8 a) st = (if a = 0xFFFFFF810FFFF014 then ucast st
     else if a = 0xFFFFFFC010000034 then 0x40
     else if a = 0xFFFFFFC010000041 then 0x48 else if a = 0xFFFFFFC010000049 then 0x50 else if a = 0xFFFFFFC010000051 then 0x58
     else if a = 0xFFFFFFC010000043 then 1 else if a = 0xFFFFFFC01000004B then 2 else if a = 0xFFFFFFC010000053 then 3
     else if a = 0xFFFFFFC01000005B then 4
     else if a = 0xFFFFFFC010000040 \<or> a = 0xFFFFFFC010000048 \<or> a = 0xFFFFFFC010000050 \<or> a = 0xFFFFFFC010000058 then 9 else 0, st)"
| "demo_vdev ident (R16 a) st = (if a = 0xFFFFFFC010000000 then 0x1AF4 else if a = 0xFFFFFFC010000002 then ucast ident else 64, st)"
| "demo_vdev ident (R32 a) st = (0xFFFFF000, st)"
| "demo_vdev ident (W8 a v) st = (0, if a = 0xFFFFFF810FFFF014 then v else st)"
| "demo_vdev ident (W16 a v16) st = (0, st)"
| "demo_vdev ident (W32 a v32) st = (0, st)"

text \<open>The static objects of the drivers are zero before.\<close>

definition zero_pci :: pci_device where
  "zero_pci = \<lparr>bus = 0, dev = 0, func = 0, vendor_id = 0, device_id = 0, irq_pin = 0, bar = [0, 0, 0, 0, 0, 0], bar_addr = [0, 0, 0, 0, 0, 0]\<rparr>"

definition zero_vpci :: virtio_pci_dev where
  "zero_vpci = \<lparr>common_cfg = 0, notify_base = 0, notify_off_mul = 0, isr_cfg = 0, device_cfg = 0\<rparr>"

definition zero_vq :: virtqueue where
  "zero_vq = \<lparr>desc = [], avail_hdr_idx = 0, avail_ring = [], used_hdr_idx = 0, used_ring = [], num = 0, free_head = 0, last_used_idx = 0,
     avail_idx = 0, queue_index = 0, notify_addr = 0\<rparr>"

definition demo_m :: "u8 \<Rightarrow> (mmio_op \<times> u32) list \<Rightarrow> u64 \<Rightarrow> (u8 \<times> (mmio_op \<times> u32) list) machine" where
  "demo_m st l a = \<lparr>hw = (st, l), mmio32_alloc = a, pio_alloc = 0x3EFF0000, next_queue_slot = 0\<rparr>"

fun demo_bars :: "nat \<Rightarrow> nat \<Rightarrow> u64 \<Rightarrow> pci_device \<Rightarrow> u64 \<times> pci_device" where
  "demo_bars 0 i a d = (a, d)"
| "demo_bars (Suc n) i a d = (let x = align_to a 4096 in demo_bars n (Suc i) (x + 4096) (set_bar i (ucast x) (phys_to_virt x) d))"

lemma demo_size: "(- 4294963200 :: 32 word) = 4096"
  by code_simp

lemma demo_aligned: "align_to 0x10000000 0x1000 = 0x10000000" "align_to 0x10001000 0x1000 = 0x10001000" "align_to 0x10002000 0x1000 = 0x10002000"
  "align_to 0x10003000 0x1000 = 0x10003000" "align_to 0x10004000 0x1000 = 0x10004000" "align_to 0x10005000 0x1000 = 0x10005000"
  by code_simp+

lemma demo_assign:
  "\<exists>l'. run_state (assign_from (logged (demo_vdev ident)) n i d) (demo_m st l a) = (Some (snd (demo_bars n i a d)), demo_m st l' (fst (demo_bars n i a d)))"
proof (induction n arbitrary: i d l a)
  case 0
  then show ?case by auto
next
  case (Suc n)
  obtain l1 where "run_state (assign_from (logged (demo_vdev ident)) (Suc n) i d) (demo_m st l a)
    = run_state (assign_from (logged (demo_vdev ident)) n (Suc i) (set_bar i (ucast (align_to a 4096)) (phys_to_virt (align_to a 4096)) d))
      (demo_m st l1 (align_to a 4096 + 4096))"
    by (simp add: config_defs mmio_defs access_logged alloc_mmio32_def Let_def demo_m_def demo_size)
  then show ?case using Suc.IH [of "Suc i"] by (simp add: Let_def)
qed

lemma demo_config: "pci_ecam_addr 0 0 0 off = 0xFFFFFFC010000000 OR ucast off"
  by (simp add: pci_ecam_addr_def PCI_ECAM_BASE_def KERN_VA_OFFSET_def)

definition demo_p :: "u16 \<Rightarrow> pci_device" where
  "demo_p ident = \<lparr>bus = 0, dev = 0, func = 0, vendor_id = 0x1AF4, device_id = ident, irq_pin = 0, 
     bar = [0x10000000, 0x10001000, 0x10002000, 0x10003000, 0x10004000, 0x10005000],
     bar_addr = [0xFFFFFF8010000000, 0xFFFFFF8010001000, 0xFFFFFF8010002000, 0xFFFFFF8010003000, 0xFFFFFF8010004000, 0xFFFFFF8010005000]\<rparr>"

lemma demo_ident: "ucast (ucast (x :: u16) :: u32) = x"
  by (rule bit_eqI) (auto simp: bit_simps dest: bit_imp_le_length)

lemma demo_find:
  "\<exists>l' a. run_opt (find_from (logged (demo_vdev ident)) (x, ident) False 32 0 zero_pci) (demo_m 0 [] 0x10000000) = Some ((True, demo_p ident), demo_m 0 l' a)"
proof -
  have 32: "(32 :: nat) = Suc 31" by simp
  have 6: "(6 :: nat) = Suc (Suc (Suc (Suc (Suc (Suc 0)))))" by simp
  let ?d = "zero_pci\<lparr>bus := 0, dev := 0, func := 0, vendor_id := 0x1AF4, device_id := ident\<rparr>"
  have b: "snd (demo_bars 6 0 0x10000000 ?d) = (demo_p ident)"
    unfolding demo_bars.simps 6 by (simp add: demo_aligned Let_def demo_p_def zero_pci_def set_bar_def phys_to_virt_def KERN_VA_OFFSET_def upt_rec)
  let ?l = "[(R16 0xFFFFFFC010000000, 0x1AF4), (R16 0xFFFFFFC010000002, ucast ident)]"
  obtain l a where a: "run_state (assign_from (logged (demo_vdev ident)) 6 0 ?d) (demo_m 0 ?l 0x10000000) = (Some (demo_p ident), demo_m 0 l a)"
    using demo_assign [of ident 6 0 ?d 0 ?l "0x10000000", unfolded b] by blast
  show ?thesis unfolding 32 find_from.simps run_opt_def
    using a by (simp add: config_defs mmio_defs access_logged demo_config demo_ident PCI_VENDOR_ID_def PCI_DEVICE_ID_def VIRTIO_PCI_VENDOR_def pci_assign_bars_def demo_m_def
     pci_enable_device_def PCI_COMMAND_def PCI_INTERRUPT_PIN_def demo_p_def)
qed

definition demo_v :: virtio_pci_dev where
  "demo_v = \<lparr>common_cfg = 0xFFFFFF810FFFF000, notify_base = 0xFFFFFF810FFFF000, notify_off_mul = 0xFFFFF000,
     isr_cfg = 0xFFFFFF810FFFF000, device_cfg = 0xFFFFFF810FFFF000\<rparr>"

lemma demo_cap:
  "\<exists>l'. run_state (cap_step (logged (demo_vdev ident)) (demo_p ident) 0x40 c) (demo_m st l a) = (Some (0x48, c\<lparr>vpci := (vpci c)\<lparr>common_cfg := 0xFFFFFF810FFFF000\<rparr>, found_common := True\<rparr>), demo_m st l' a)"
  "\<exists>l'. run_state (cap_step (logged (demo_vdev ident)) (demo_p ident) 0x48 c) (demo_m st l a) = (Some (0x50, c\<lparr>vpci := (vpci c)\<lparr>notify_base := 0xFFFFFF810FFFF000, notify_off_mul := 0xFFFFF000\<rparr>, found_notify := True\<rparr>), demo_m st l' a)"
  "\<exists>l'. run_state (cap_step (logged (demo_vdev ident)) (demo_p ident) 0x50 c) (demo_m st l a) = (Some (0x58, c\<lparr>vpci := (vpci c)\<lparr>isr_cfg := 0xFFFFFF810FFFF000\<rparr>, found_isr := True\<rparr>), demo_m st l' a)"
  "\<exists>l'. run_state (cap_step (logged (demo_vdev ident)) (demo_p ident) 0x58 c) (demo_m st l a) = (Some (0, c\<lparr>vpci := (vpci c)\<lparr>device_cfg := 0xFFFFFF810FFFF000\<rparr>\<rparr>), demo_m st l' a)"
  by (simp_all add: cap_step_def Let_def config_defs mmio_defs access_logged demo_config demo_m_def demo_p_def PCI_CAP_ID_VENDOR_def
     VIRTIO_PCI_CAP_COMMON_CFG_def VIRTIO_PCI_CAP_NOTIFY_CFG_def VIRTIO_PCI_CAP_ISR_CFG_def VIRTIO_PCI_CAP_DEVICE_CFG_def)

lemma demo_caps:
  "\<exists>l'. virtio_pci_parse_caps (logged (demo_vdev ident)) (demo_p ident) zero_vpci (demo_m 0 l a) = Some (0, demo_v, demo_m 0 l' a)"
proof -
  let ?b = "logged (demo_vdev ident)" and ?v = zero_vpci
  let ?c0 = "\<lparr>vpci = ?v, found_common = False, found_notify = False, found_isr = False\<rparr>"
  obtain l0 where l0: "run_state (pci_config_read8 ?b 0 0 0 PCI_CAP_PTR) (demo_m 0 l a) = (0x40, demo_m 0 l0 a)"
    by (simp add: config_defs mmio_defs access_logged demo_config demo_m_def PCI_CAP_PTR_def)
  let ?c1 = "?c0\<lparr>vpci := (vpci ?c0)\<lparr>common_cfg := 0xFFFFFF810FFFF000\<rparr>, found_common := True\<rparr>"
  let ?c2 = "?c1\<lparr>vpci := (vpci ?c1)\<lparr>notify_base := 0xFFFFFF810FFFF000, notify_off_mul := 0xFFFFF000\<rparr>, found_notify := True\<rparr>"
  let ?c3 = "?c2\<lparr>vpci := (vpci ?c2)\<lparr>isr_cfg := 0xFFFFFF810FFFF000\<rparr>, found_isr := True\<rparr>"
  obtain l1 where l1: "run_state (cap_step ?b (demo_p ident) 0x40 ?c0) (demo_m 0 l0 a) = (Some (0x48, ?c1), demo_m 0 l1 a)" using demo_cap(1) by blast
  obtain l2 where l2: "run_state (cap_step ?b (demo_p ident) 0x48 ?c1) (demo_m 0 l1 a) = (Some (0x50, ?c2), demo_m 0 l2 a)" using demo_cap(2) by blast
  obtain l3 where l3: "run_state (cap_step ?b (demo_p ident) 0x50 ?c2) (demo_m 0 l2 a) = (Some (0x58, ?c3), demo_m 0 l3 a)" using demo_cap(3) by blast
  obtain l4 where l4: "run_state (cap_step ?b (demo_p ident) 0x58 ?c3) (demo_m 0 l3 a) = (Some (0, ?c3\<lparr>vpci := (vpci ?c3)\<lparr>device_cfg := 0xFFFFFF810FFFF000\<rparr>\<rparr>), demo_m 0 l4 a)"
    using demo_cap(4) by blast
  have "cap_loop ?b (demo_p ident) 0x40 ?c0 (demo_m 0 l0 a) = Some (?c3\<lparr>vpci := (vpci ?c3)\<lparr>device_cfg := 0xFFFFFF810FFFF000\<rparr>\<rparr>, demo_m 0 l4 a)"
    using l1 l2 l3 l4 by (simp add: cap_loop.simps)
  then show ?thesis using l0 by (auto simp: virtio_pci_parse_caps_def demo_p_def demo_v_def zero_vpci_def)
qed

lemma demo_init:
  "\<exists>l'. virtio_pci_init_device (logged (demo_vdev ident)) demo_v lo 0 (demo_m 0 l a) = Some (0, demo_m 11 l' a)"
proof -
  let ?b = "logged (demo_vdev ident)"
  obtain l0 where l0: "snd (run_state (mmio_write8 ?b (common_cfg demo_v + VIRTIO_COMMON_STATUS) 0) (demo_m 0 l a)) = demo_m 0 l0 a"
    by (simp add: mmio_defs access_logged demo_m_def demo_v_def VIRTIO_COMMON_STATUS_def)
  have "\<exists>l1. reset_wait ?b (common_cfg demo_v) (demo_m 0 l0 a) = Some (demo_m 0 l1 a)"
    by (subst reset_wait.simps) (simp add: mmio_defs access_logged demo_m_def demo_v_def VIRTIO_COMMON_STATUS_def)
  then obtain l1 where l1: "reset_wait ?b (common_cfg demo_v) (demo_m 0 l0 a) = Some (demo_m 0 l1 a)" by blast
  have "\<exists>l2. run_state (negotiate ?b (common_cfg demo_v) lo 0) (demo_m 0 l1 a) = (0, demo_m 11 l2 a)"
    by (simp add: negotiate_def mmio_defs access_logged demo_m_def demo_v_def status_defs VIRTIO_COMMON_STATUS_def Let_def
      VIRTIO_COMMON_DFSELECT_def VIRTIO_COMMON_GFSELECT_def VIRTIO_COMMON_GF_def)
  then show ?thesis using l0 l1 by (auto simp: virtio_pci_init_device_def)
qed

lemma demo_probe:
  "\<exists>l a. probe (logged (demo_vdev ident)) (find_from (logged (demo_vdev ident)) (x, ident) False 32 0) lo zero_pci zero_vpci (demo_m 0 [] 0x10000000)
     = Some (0, demo_p ident, demo_v, demo_m 11 l a)"
proof -
  let ?b = "logged (demo_vdev ident)"
  obtain l1 a where 1: "run_opt (find_from ?b (x, ident) False 32 0 zero_pci) (demo_m 0 [] 0x10000000) = Some ((True, demo_p ident), demo_m 0 l1 a)"
    using demo_find by blast
  obtain l2 where 2: "virtio_pci_parse_caps ?b (demo_p ident) zero_vpci (demo_m 0 l1 a) = Some (0, demo_v, demo_m 0 l2 a)"
    using demo_caps by blast
  obtain l3 where 3: "virtio_pci_init_device ?b demo_v lo 0 (demo_m 0 l2 a) = Some (0, demo_m 11 l3 a)"
    using demo_init by blast
  show ?thesis using 1 2 3 by (auto simp: probe_def)
qed

lemma demo_queue_set_up:
  assumes "n = 32 \<or> n = 256" "q < VIRTQ_MAX_QUEUES"
  shows "\<exists>vq' m' l'. run_opt (virtio_pci_setup_queue (logged (demo_vdev ident)) rings demo_v ptrs vq k n) \<lparr>hw = (st, l), mmio32_alloc = a, pio_alloc = p, next_queue_slot = q\<rparr>
     = Some ((0, vq'), \<lparr>hw = (st, l'), mmio32_alloc = a, pio_alloc = p, next_queue_slot = Suc q\<rparr>) \<and> unat (num vq') = min 64 (unat n)"
proof -
  let ?n = "if n > 64 then 64 else n"
  have n: "?n \<noteq> 0" "unat ?n dvd 65536" using assms(1) by auto
  let ?na = "notify_base demo_v + 64 * ucast (notify_off_mul demo_v)"
  obtain vq' where vq: "virtqueue_init ?n k ?na q vq = Some (Suc q, vq')" "num vq' = (if unat ?n > 256 then 256 else ?n)"
    using virtqueue_init_inv [OF assms(2) n, of k ?na vq] by auto
  then show ?thesis using assms
    by (auto simp: run_opt_def virtio_pci_setup_queue_def Let_def mmio_defs access_logged demo_v_def
      VIRTIO_COMMON_Q_SIZE_def VIRTIO_COMMON_Q_NOTIFYOFF_def split: prod.splits)
qed

definition demo_rings :: "nat \<Rightarrow> u64 \<times> u64 \<times> u64" where
  "demo_rings i = (0xFFFFFF8040300000, 0xFFFFFF8040301000, 0xFFFFFF8040302000)"

definition demo_blk_dev :: blk_dev where
  "demo_blk_dev = \<lparr>d_pci = zero_pci, d_vpci = zero_vpci, blk_vq = zero_vq, capacity = 0, blk_size = 0\<rparr>"

lemma demo_blk_started:
  "\<exists>d' m'. virtio_blk_init (logged (demo_vdev 0x1042)) demo_rings (0, 0, 0) demo_blk_dev (demo_m 0 [] 0x10000000) = Some (0, d', m')
     \<and> d_vpci d' = demo_v"
proof -
  let ?b = "logged (demo_vdev 0x1042)"
  obtain l a where 1: "probe ?b (pci_find_virtio_blk ?b) VIRTIO_BLK_F_BLK_SIZE zero_pci zero_vpci
     (demo_m 0 [] 0x10000000) = Some (0, demo_p 0x1042, demo_v, demo_m 11 l a)" using demo_probe unfolding pci_find_virtio_blk_def by blast
  obtain d2 l2 where 2: "run_state (read_blk_config ?b (device_cfg demo_v) (demo_blk_dev\<lparr>d_pci := demo_p 0x1042, d_vpci := demo_v\<rparr>)) (demo_m 11 l a) = (d2, demo_m 11 l2 a)"
    "d_vpci d2 = demo_v"
    by (simp add: read_blk_config_def mmio_defs access_logged demo_m_def Let_def)
  have n: "0 < VIRTQ_MAX_QUEUES" by (simp add: VIRTQ_MAX_QUEUES_def)
  obtain vq m3 where 3: "run_opt (virtio_pci_setup_queue ?b demo_rings demo_v (0, 0, 0) (blk_vq d2) 0 32) (demo_m 11 l2 a) = Some ((0, vq), m3)"
    using demo_queue_set_up [of 32 0 "0x1042" demo_rings "(0, 0, 0)" "blk_vq d2" 0 11 l2 a "0x3EFF0000"] n by (auto simp: demo_m_def)
  show ?thesis
    by (intro exI [of _ "d2\<lparr>blk_vq := vq\<rparr>"] exI) (use 1 2 3 in \<open>simp add: virtio_blk_init_def demo_v_def demo_blk_dev_def\<close>)
qed

theorem virtio_blk_init_ready_witness:
  "\<exists>d' m' l. virtio_blk_init (logged (demo_vdev 0x1042)) demo_rings (0, 0, 0) demo_blk_dev (demo_m 0 [] 0x10000000) = Some (0, d', m')
     \<and> fresh_queue 32 (blk_vq d') \<and> next_queue_slot m' = 1 \<and> snd (hw m') = l @ [(W8 0xFFFFFF810FFFF014 15, 0)]"
proof -
  obtain d' m' where r: "virtio_blk_init (logged (demo_vdev 0x1042)) demo_rings (0, 0, 0) demo_blk_dev (demo_m 0 [] 0x10000000) = Some (0, d', m')"
    "d_vpci d' = demo_v"
    using demo_blk_started by blast
  have n: "0 < VIRTQ_MAX_QUEUES" by (simp add: VIRTQ_MAX_QUEUES_def)
  have h: "next_queue_slot (demo_m 0 [] 0x10000000) < VIRTQ_MAX_QUEUES" "queue_sizes_ok (demo_vdev 0x1042) (d_vpci d')"
    using r(2) n by (simp_all add: demo_m_def queue_sizes_ok_def demo_v_def)
  from virtio_blk_init_ready [OF r(1) h] r show ?thesis
    by (intro exI [of _ d'] exI [of _ m']) (auto simp: demo_m_def demo_v_def)
qed

section \<open>The network driver\<close>

lemma steps_config: "steps (read_config (logged b) a n)"
  by (induction n arbitrary: a) (auto intro!: steps_rules steps_mmio)

text \<open>The bytes are those of the device at consecutive addresses.\<close>

lemma read_config_log:
  assumes "run_state (read_config (logged b) a n) m = (ys, m')"
  shows "\<exists>xs. length xs = n \<and> ys = map ucast xs \<and> snd (hw m') = snd (hw m) @ map (\<lambda>i. (R8 (a + of_nat i), xs ! i)) [0..<n]"
  using assms
proof (induction n arbitrary: a m ys)
  case (Suc n)
  obtain zs where z: "run_state (read_config (logged b) (a + 1) n) (snd (run_state (mmio_read8 (logged b) a) m)) = (zs, m')"
    "ys = fst (run_state (mmio_read8 (logged b) a) m) # zs"
    using Suc.prems by (auto split: prod.splits)
  obtain xs where xs: "length xs = n" "zs = map ucast xs"
    "snd (hw m') = snd (hw (snd (run_state (mmio_read8 (logged b) a) m))) @ map (\<lambda>i. (R8 (a + 1 + of_nat i), xs ! i)) [0..<n]"
    using Suc.IH [OF z(1)] by blast
  show ?case
    by (rule exI [of _ "fst (b (R8 a) (fst (hw m))) # xs"])
      (simp add: xs z(2) mmio_defs access_logged upt_conv_Cons map_Suc_upt [symmetric] add_ac del: upt_Suc)
qed simp

text \<open>A queue is set up by its index; its notification address is computed from the offset that the device answers.\<close>

lemma setup_queue_log:
  assumes r: "run_opt (virtio_pci_setup_queue (logged b) rings v ptrs vq index n) m = Some ((r, vq'), m')" "\<not> r < 0"
    and slot: "next_queue_slot m < VIRTQ_MAX_QUEUES"
  shows "\<exists>mx sz off l. snd (hw m') = snd (hw m) @ [(W16 (common_cfg v + 0x16) index, 0), (R16 (common_cfg v + 0x18), mx),
      (W16 (common_cfg v + 0x18) sz, 0), (R16 (common_cfg v + 0x1E), off)] @ l
    \<and> notify_addr vq' = notify_base v + ucast (ucast off :: u16) * ucast (notify_off_mul v)"
proof -
  define c where "c = common_cfg v"
  define d1 where "d1 = snd (b (W16 (c + 0x16) index) (fst (hw m)))"
  define mx where "mx = fst (b (R16 (c + 0x18)) d1)"
  define d2 where "d2 = snd (b (R16 (c + 0x18)) d1)"
  define q where "q = (if n > ucast mx then ucast mx else n)"
  define d3 where "d3 = snd (b (W16 (c + 0x18) q) d2)"
  define off where "off = fst (b (R16 (c + 0x1E)) d3)"
  note ds = c_def [symmetric] d1_def [symmetric] mx_def [symmetric] d2_def [symmetric] q_def [symmetric] d3_def [symmetric] off_def [symmetric]
  note regs = VIRTIO_COMMON_Q_SELECT_def VIRTIO_COMMON_Q_SIZE_def VIRTIO_COMMON_Q_NOTIFYOFF_def
  have s: "run_state (virtio_pci_setup_queue (logged b) rings v ptrs vq index n) m = (Some (r, vq'), m')"
    using r(1) by (auto simp: run_opt_def split: prod.splits)
  have mx0: "(ucast mx :: u16) \<noteq> 0"
    using s r(2) by (auto simp: virtio_pci_setup_queue_def Let_def mmio_defs access_logged regs ds)
  obtain slots vq1 where vq: "virtqueue_init q index (notify_base v + ucast (ucast off :: u16) * ucast (notify_off_mul v)) (next_queue_slot m) vq = Some (slots, vq1)"
    using s mx0 by (cases "virtqueue_init q index (notify_base v + ucast (ucast off :: u16) * ucast (notify_off_mul v)) (next_queue_slot m) vq")
      (auto simp: virtio_pci_setup_queue_def Let_def mmio_defs access_logged regs ds cong: if_cong)
  have "notify_addr vq1 = notify_base v + ucast (ucast off :: u16) * ucast (notify_off_mul v)"
    using vq slot by (auto simp: virtqueue_init_def Let_def split: if_splits)
  moreover obtain rd ra ru where "rings (next_queue_slot m) = (rd, ra, ru)" by (metis prod_cases3)
  then have "vq' = vq1 \<and> (\<exists>l. snd (hw m') = snd (hw m) @ [(W16 (c + 0x16) index, 0), (R16 (c + 0x18), mx), (W16 (c + 0x18) q, 0), (R16 (c + 0x1E), off)] @ l)"
    using s mx0 vq slot by (auto simp: virtio_pci_setup_queue_def Let_def mmio_defs access_logged regs ds cong: if_cong)
  ultimately show ?thesis unfolding c_def by blast
qed

lemma post_from_same:
  "post_from addr len n i p = Some p' \<Longrightarrow>
    num (pq p') = num (pq p) \<and> queue_index (pq p') = queue_index (pq p) \<and> notify_addr (pq p') = notify_addr (pq p)"
proof (induction n arbitrary: i p)
  case (Suc n)
  then obtain p1 where p1: "post_buffer addr len i p = Some p1" "post_from addr len n (Suc i) p1 = Some p'" by (auto simp: bind_eq_Some_conv)
  have "num (pq p1) = num (pq p) \<and> queue_index (pq p1) = queue_index (pq p) \<and> notify_addr (pq p1) = notify_addr (pq p)"
    using p1(1) by (auto simp: post_buffer_def virtqueue_add_chain_def Let_def bind_eq_Some_conv split: if_splits option.splits prod.splits)
  then show ?case using Suc.IH [OF p1(2)] by simp
qed simp

text \<open>
  C35: when the network driver has been initialised, its sixteen buffers are with the device, so that reception may
  begin as \<open>net_run\<close> describes it; the transmission queue has all its descriptors free. After the device had confirmed
  the features, the MAC address was read, byte by byte, from the first six bytes of the device's configuration, then the link
  status behind it; then the receive queue, queue 0, was set up. The device is told to start, and then notified of the
  buffers at the address of queue 0, as the last two accesses.
\<close>

theorem virtio_net_init_ready:
  assumes r: "virtio_net_init (logged b) rings rxptrs txptrs g d m = Some (0, d', m')" and slot: "Suc (next_queue_slot m) < VIRTQ_MAX_QUEUES"
    and sizes: "queue_sizes_ok b (d_vpci d')" and room: "NET_RX_RING_SIZE \<le> unat (num (rxq (net_of d')))"
    and len: "length (desc_to_rxbuf (net_of d)) = VIRTQ_MAX_SIZE"
  shows "rx_inv g {..<NET_RX_RING_SIZE} [] (net_of d') \<and> fresh_queue 256 (txq (net_of d')) \<and> queue_index (txq (net_of d')) = 1
    \<and> next_queue_slot m' = Suc (Suc (next_queue_slot m))
    \<and> (\<exists>l xs st mx sz off l'. length xs = 6 \<and> mac d' = map ucast xs \<and> confirmed (d_vpci d') l \<and> snd (hw m') = snd (hw m) @ l
         @ map (\<lambda>i. (R8 (device_cfg (d_vpci d') + of_nat i), xs ! i)) [0..<6] @ [(R16 (device_cfg (d_vpci d') + 6), st)]
         @ [(W16 (common_cfg (d_vpci d') + 0x16) 0, 0), (R16 (common_cfg (d_vpci d') + 0x18), mx),
            (W16 (common_cfg (d_vpci d') + 0x18) sz, 0), (R16 (common_cfg (d_vpci d') + 0x1E), off)] @ l'
         @ [(W8 (common_cfg (d_vpci d') + 0x14) 15, 0),
            (W16 (notify_base (d_vpci d') + ucast (ucast off :: u16) * ucast (notify_off_mul (d_vpci d'))) 0, 0)])"
proof -
  let ?b = "logged b"
  obtain r1 p v m1 where p: "probe ?b (pci_find_virtio_net ?b) (VIRTIO_NET_F_MAC OR VIRTIO_NET_F_STATUS) (d_pci d) (d_vpci d) m = Some (r1, p, v, m1)"
    using r by (auto simp: virtio_net_init_def bind_eq_Some_conv)
  note r1 = r [unfolded virtio_net_init_def p bind.bind_lunit prod.case Let_def]
  have n1: "\<not> r1 < 0" "device_cfg v \<noteq> 0" using r1 by (auto split: if_splits)
  have "\<And>p. steps (pci_find_virtio_net ?b p)" unfolding pci_find_virtio_net_def by (rule steps_find)
  note P = probe_ready [OF p this]
  obtain l1 where l1: "snd (hw m1) = snd (hw m) @ l1" "confirmed v l1" using P(2) n1(1) by blast
  obtain a m2 where a: "run_state (read_config ?b (device_cfg v + NET_CFG_MAC) 6) m1 = (a, m2)" by (metis surj_pair)
  obtain st m3 where st: "run_state (mmio_read16 ?b (device_cfg v + NET_CFG_STATUS)) m2 = (st, m3)" by (metis surj_pair)
  have q3: "quiet m m3" "quiet m1 m3" using P(1) run_quiet [OF steps_config a] run_quiet [OF steps_mmio(2) st] quiet_trans by blast+
  obtain rr vqr m4 where rx: "run_opt (virtio_pci_setup_queue ?b rings v rxptrs (rxq (net_of d)) 0 256) m3 = Some ((rr, vqr), m4)" "\<not> rr < 0"
    using r1 n1 a st by (auto simp: bind_eq_Some_conv split: if_splits)
  have pow: "(256 :: u16) \<noteq> 0" "unat (256 :: u16) dvd 65536" by simp_all
  have dv: "d_vpci d' = v" using r1 n1 a st rx by (auto simp: bind_eq_Some_conv virtqueue_kick_def split: if_splits)
  have s3: "next_queue_slot m3 < VIRTQ_MAX_QUEUES" "next_queue_slot m3 = next_queue_slot m" using q3 slot by (simp_all add: quiet_def)
  have q4: "fresh_queue 256 vqr" "next_queue_slot m4 = Suc (next_queue_slot m)" "queue_index vqr = 0" "\<exists>l. snd (hw m4) = snd (hw m1) @ l"
    using queue_ready [OF rx s3(1) pow sizes [unfolded dv]] s3(2) q3(2) by (auto simp: quiet_def)
  obtain rt vqt m5 where tx: "run_opt (virtio_pci_setup_queue ?b rings v txptrs (txq (net_of d)) 1 256) m4 = Some ((rt, vqt), m5)" "\<not> rt < 0"
    using r1 n1 a st rx by (auto simp: bind_eq_Some_conv split: if_splits)
  let ?n = "(net_of d)\<lparr>rxq := vqr, txq := vqt\<rparr>" and ?m = "snd (run_state (virtio_pci_set_driver_ok ?b v) m5)"
  obtain n where n: "fill_rx_queue g ?n = Some n" "d' = d\<lparr>d_pci := p, d_vpci := v, mac := a, net_of := n\<rparr>"
    "m' = snd (run_state (mmio_write16 ?b (notify_addr (rxq n)) (queue_index (rxq n))) ?m)"
    using r1 n1 a st rx tx by (auto simp: bind_eq_Some_conv virtqueue_kick_def split: if_splits)
  have q5: "fresh_queue 256 vqt" "next_queue_slot m5 = Suc (Suc (next_queue_slot m))" "queue_index vqt = 1" "\<exists>l. snd (hw m5) = snd (hw m4) @ l"
    using queue_ready [OF tx _ pow sizes [unfolded dv]] slot q4(2) by auto
  have k: "num (rxq n) = num vqr \<and> queue_index (rxq n) = 0 \<and> notify_addr (rxq n) = notify_addr vqr"
    using n(1) q4(3) by (auto simp: fill_rx_queue_def Let_def set_rx_pool_def rx_pool_def kick_queue_def dest!: post_from_same)
  then have "NET_RX_RING_SIZE \<le> unat (num (rxq ?n))" using room n(2) k by simp
  then obtain n' where n': "fill_rx_queue g ?n = Some n'" "rx_inv g {..<NET_RX_RING_SIZE} [] n'" "txq n' = vqt"
    using fill_rx_queue_ok [of ?n g] q4(1) len by (auto simp: fresh_queue_def)
  obtain xs where xs: "length xs = 6" "a = map ucast xs" "snd (hw m2) = snd (hw m1) @ map (\<lambda>i. (R8 (device_cfg v + of_nat i), xs ! i)) [0..<6]"
    using read_config_log [OF a] by (auto simp: NET_CFG_MAC_def)
  obtain st' where st': "snd (hw m3) = snd (hw m2) @ [(R16 (device_cfg v + 6), st')]"
    using st by (auto simp: mmio_defs access_logged NET_CFG_STATUS_def)
  obtain mx sz off l2 where l2: "snd (hw m4) = snd (hw m3) @ [(W16 (common_cfg v + 0x16) 0, 0), (R16 (common_cfg v + 0x18), mx),
      (W16 (common_cfg v + 0x18) sz, 0), (R16 (common_cfg v + 0x1E), off)] @ l2"
    "notify_addr vqr = notify_base v + ucast (ucast off :: u16) * ucast (notify_off_mul v)"
    using setup_queue_log [OF rx s3(1)] by blast
  obtain l3 where l3: "snd (hw m5) = snd (hw m4) @ l3" using q5(4) by blast
  let ?na = "notify_base v + ucast (ucast off :: u16) * ucast (notify_off_mul v)"
  have "snd (hw m') = snd (hw m5) @ [(W8 (common_cfg v + 0x14) 15, 0), (W16 ?na 0, 0)]"
    by (simp add: n(3) k l2(2) mmio_defs access_logged driver_ok_log)
  then have "snd (hw m') = snd (hw m) @ l1 @ map (\<lambda>i. (R8 (device_cfg v + of_nat i), xs ! i)) [0..<6] @ [(R16 (device_cfg v + 6), st')]
      @ [(W16 (common_cfg v + 0x16) 0, 0), (R16 (common_cfg v + 0x18), mx), (W16 (common_cfg v + 0x18) sz, 0), (R16 (common_cfg v + 0x1E), off)]
      @ (l2 @ l3) @ [(W8 (common_cfg v + 0x14) 15, 0), (W16 ?na 0, 0)]"
    unfolding l3 l2(1) st' xs(3) l1(1) by simp
  moreover have "next_queue_slot m' = Suc (Suc (next_queue_slot m))" by (simp add: n(3) mmio_defs access_logged driver_ok_log q5(2))
  moreover have "mac d' = map ucast xs" by (simp add: n(2) xs(2))
  moreover have "rx_inv g {..<NET_RX_RING_SIZE} [] (net_of d') \<and> fresh_queue 256 (txq (net_of d')) \<and> queue_index (txq (net_of d')) = 1"
    using n' n(1,2) q5(1,3) by auto
  ultimately show ?thesis using xs(1) l1(2) unfolding dv by blast
qed

lemma demo_config_read:
  "\<exists>xs l'. run_state (read_config (logged (demo_vdev ident)) x n) (demo_m st l a) = (xs, demo_m st l' a)"
proof (induction n arbitrary: x l)
  case (Suc n)
  obtain v l1 where "run_state (mmio_read8 (logged (demo_vdev ident)) x) (demo_m st l a) = (v, demo_m st l1 a)"
    by (simp add: mmio_defs access_logged demo_m_def)
  moreover obtain xs l2 where "run_state (read_config (logged (demo_vdev ident)) (x + 1) n) (demo_m st l1 a) = (xs, demo_m st l2 a)"
    using Suc.IH by blast
  ultimately show ?case by auto
qed (auto simp: demo_m_def)

definition demo_net_dev :: net_dev where
  "demo_net_dev = \<lparr>d_pci = zero_pci, d_vpci = zero_vpci, mac = replicate 6 0,
     net_of = \<lparr>rxq = zero_vq, txq = zero_vq, desc_to_rxbuf = replicate 256 0, next_rx_slot = 0, net_mem = (\<lambda>_. 0), net_kicks = []\<rparr>\<rparr>"

theorem virtio_net_init_ready_witness:
  "\<exists>d' m'. virtio_net_init (logged (demo_vdev 0x1041)) demo_rings (0, 0, 0) (0, 0, 0) demo_net_g demo_net_dev (demo_m 0 [] 0x10000000) = Some (0, d', m')
     \<and> rx_inv demo_net_g {..<NET_RX_RING_SIZE} [] (net_of d') \<and> fresh_queue 256 (txq (net_of d')) \<and> next_queue_slot m' = 2"
proof -
  let ?b = "logged (demo_vdev 0x1041)" and ?d = demo_net_dev
  let ?q = "\<lambda>l a q. \<lparr>hw = (11, l), mmio32_alloc = a, pio_alloc = 0x3EFF0000, next_queue_slot = q\<rparr>"
  obtain l1 a where 1: "probe ?b (pci_find_virtio_net ?b) (VIRTIO_NET_F_MAC OR VIRTIO_NET_F_STATUS) zero_pci zero_vpci
     (demo_m 0 [] 0x10000000) = Some (0, demo_p 0x1041, demo_v, demo_m 11 l1 a)" using demo_probe unfolding pci_find_virtio_net_def by blast
  obtain xs l2 where 2: "run_state (read_config ?b (device_cfg demo_v + NET_CFG_MAC) 6) (demo_m 11 l1 a) = (xs, demo_m 11 l2 a)"
    using demo_config_read by blast
  obtain st l3 where 3: "run_state (mmio_read16 ?b (device_cfg demo_v + NET_CFG_STATUS)) (demo_m 11 l2 a) = (st, ?q l3 a 0)"
    by (simp add: mmio_defs access_logged demo_m_def)
  have slots: "0 < VIRTQ_MAX_QUEUES" "Suc 0 < VIRTQ_MAX_QUEUES" by (simp_all add: VIRTQ_MAX_QUEUES_def)
  have sizes: "queue_sizes_ok (demo_vdev 0x1041) demo_v" by (simp add: queue_sizes_ok_def demo_v_def)
  obtain rq l4 where 4: "run_opt (virtio_pci_setup_queue ?b demo_rings demo_v (0, 0, 0) zero_vq 0 256) (?q l3 a 0) = Some ((0, rq), ?q l4 a (Suc 0))" "unat (num rq) = 64"
    using demo_queue_set_up [of 256 0 "0x1041" demo_rings "(0, 0, 0)" zero_vq 0 11 l3 a "0x3EFF0000"] slots(1) by auto
  obtain tq l5 where 5: "run_opt (virtio_pci_setup_queue ?b demo_rings demo_v (0, 0, 0) zero_vq 1 256) (?q l4 a (Suc 0)) = Some ((0, tq), ?q l5 a (Suc (Suc 0)))"
    using demo_queue_set_up [of 256 "Suc 0" "0x1041" demo_rings "(0, 0, 0)" zero_vq 1 11 l4 a "0x3EFF0000"] slots(2) by auto
  let ?n = "(net_of ?d)\<lparr>rxq := rq, txq := tq\<rparr>"
  have "fresh_queue 256 rq" using queue_ready [OF 4(1) _ _ _ _ sizes] slots(1) by simp
  then obtain n where n: "fill_rx_queue demo_net_g ?n = Some n" using fill_rx_queue_ok [of ?n demo_net_g] 4(2)
    by (auto simp: fresh_queue_def NET_RX_RING_SIZE_def demo_net_dev_def VIRTQ_MAX_SIZE_def)
  have "num (rxq n) = num rq"
    using n by (auto simp: fill_rx_queue_def Let_def set_rx_pool_def rx_pool_def kick_queue_def dest!: post_from_same)
  then have room: "NET_RX_RING_SIZE \<le> unat (num (rxq n))" using 4(2) by (simp add: NET_RX_RING_SIZE_def)
  let ?d' = "?d\<lparr>d_pci := demo_p 0x1041, d_vpci := demo_v, mac := xs, net_of := n\<rparr>"
  obtain m' where r: "virtio_net_init ?b demo_rings (0, 0, 0) (0, 0, 0) demo_net_g ?d (demo_m 0 [] 0x10000000) = Some (0, ?d', m')"
    using 1 2 3 4(1) 5 n by (simp add: virtio_net_init_def virtqueue_kick_def demo_net_dev_def demo_v_def)
  have h: "Suc (next_queue_slot (demo_m 0 [] 0x10000000)) < VIRTQ_MAX_QUEUES" "queue_sizes_ok (demo_vdev 0x1041) (d_vpci ?d')"
    "NET_RX_RING_SIZE \<le> unat (num (rxq (net_of ?d')))" "length (desc_to_rxbuf (net_of ?d)) = VIRTQ_MAX_SIZE"
    using slots(2) sizes room by (simp_all add: demo_m_def demo_net_dev_def VIRTQ_MAX_SIZE_def)
  from virtio_net_init_ready [OF r h] r show ?thesis by (intro exI [of _ ?d'] exI [of _ m']) (simp add: demo_m_def)
qed

end
