(* ===== verification/Gpu.thy ===== *)
theory Gpu
  imports Drivers
begin

text \<open>
  The graphics driver, \<^verbatim>\<open>src/virtio_gpu.c\<close>: commands are packed structures in a static buffer, sent one at a
  time with a buffer for the answer behind them. As in \<open>Virtio\<close> the device is a parameter.
\<close>

section \<open>Commands\<close>

definition VIRTIO_GPU_CMD_GET_DISPLAY_INFO :: u32 where "VIRTIO_GPU_CMD_GET_DISPLAY_INFO = 0x0100"
definition VIRTIO_GPU_CMD_RESOURCE_CREATE_2D :: u32 where "VIRTIO_GPU_CMD_RESOURCE_CREATE_2D = 0x0101"
definition VIRTIO_GPU_CMD_SET_SCANOUT :: u32 where "VIRTIO_GPU_CMD_SET_SCANOUT = 0x0103"
definition VIRTIO_GPU_CMD_RESOURCE_FLUSH :: u32 where "VIRTIO_GPU_CMD_RESOURCE_FLUSH = 0x0104"
definition VIRTIO_GPU_CMD_TRANSFER_TO_HOST_2D :: u32 where "VIRTIO_GPU_CMD_TRANSFER_TO_HOST_2D = 0x0105"
definition VIRTIO_GPU_CMD_RESOURCE_ATTACH_BACKING :: u32 where "VIRTIO_GPU_CMD_RESOURCE_ATTACH_BACKING = 0x0106"
definition VIRTIO_GPU_RESP_OK_NODATA :: u32 where "VIRTIO_GPU_RESP_OK_NODATA = 0x1100"
definition VIRTIO_GPU_RESP_OK_DISPLAY_INFO :: u32 where "VIRTIO_GPU_RESP_OK_DISPLAY_INFO = 0x1101"
definition VIRTIO_GPU_FORMAT_R8G8B8A8_UNORM :: u32 where "VIRTIO_GPU_FORMAT_R8G8B8A8_UNORM = 67"
definition VIRTIO_GPU_MAX_SCANOUTS :: nat where "VIRTIO_GPU_MAX_SCANOUTS = 16"
definition GPU_WIDTH :: u32 where "GPU_WIDTH = 640"
definition GPU_HEIGHT :: u32 where "GPU_HEIGHT = 480"
definition FB_RESOURCE_ID :: u32 where "FB_RESOURCE_ID = 1"

text \<open>The addresses of the static objects.\<close>

record gpu_statics =
  framebuffer :: u64
  cmd_buf :: u64
  resp_buf :: u64

text \<open>Assignments to consecutive fields of a packed structure, given by size and value.\<close>

fun put_fields :: "u64 \<Rightarrow> (nat \<times> u64) list \<Rightarrow> memory \<Rightarrow> memory" where
  "put_fields a [] m = m"
| "put_fields a ((n, v) # fs) m = put_fields (a + of_nat n) fs (store_le n a v m)"

definition gpu_ctrl_hdr_init :: "u64 \<Rightarrow> u32 \<Rightarrow> memory \<Rightarrow> memory" where
  "gpu_ctrl_hdr_init hdr ty = put_fields hdr [(4, ucast ty), (4, 0), (8, 0), (4, 0), (4, 0)]"

text \<open>A rectangle: position, width and height.\<close>

definition rect_fields :: "u32 \<Rightarrow> u32 \<Rightarrow> u32 \<Rightarrow> u32 \<Rightarrow> (nat \<times> u64) list" where
  "rect_fields x y w h = [(4, ucast x), (4, ucast y), (4, ucast w), (4, ucast h)]"

definition put_cmd :: "gpu_statics \<Rightarrow> u32 \<Rightarrow> (nat \<times> u64) list \<Rightarrow> io \<Rightarrow> io" where
  "put_cmd g ty fs s = s\<lparr>mem := put_fields (cmd_buf g + 24) fs (gpu_ctrl_hdr_init (cmd_buf g) ty (mem s))\<rparr>"

section \<open>Sending\<close>

definition gpu_chain :: "gpu_statics \<Rightarrow> u32 \<Rightarrow> u32 \<Rightarrow> vq_buf list" where
  "gpu_chain g cmd_len resp_len =
     [\<lparr>b_addr = cmd_buf g, b_len = cmd_len, b_flags = 0\<rparr>,
      \<lparr>b_addr = resp_buf g, b_len = resp_len, b_flags = VRING_DESC_F_WRITE\<rparr>]"

text \<open>The result is the type of the answer, 0 when there is none.\<close>

definition gpu_send_cmd :: "device \<Rightarrow> gpu_statics \<Rightarrow> u32 \<Rightarrow> u32 \<Rightarrow> io \<Rightarrow> (u32 \<times> io) option" where
  "gpu_send_cmd dv g cmd_len resp_len s =
     (let s = s\<lparr>mem := fill_bytes 0 (min (unat resp_len) 4096) (resp_buf g) (\<lambda>_. 0) (mem s)\<rparr>
      in case virtqueue_add_chain (gpu_chain g cmd_len resp_len) (queue s) of
           None \<Rightarrow> None
         | Some (head, vq) \<Rightarrow>
             let s = s\<lparr>queue := vq\<rparr>
             in if head = 0xFFFF then Some (0, s)
                else case poll_used dv 0 50000000 (kick s) of
                  None \<Rightarrow> None
                | Some (None, s) \<Rightarrow> Some (0, s)
                | Some (Some _, s) \<Rightarrow> Some (ucast (load_le 4 (mem s) (resp_buf g)), s))"

text \<open>A command that is expected to be answered by \<open>ok\<close>.\<close>

definition gpu_request :: "device \<Rightarrow> gpu_statics \<Rightarrow> u32 \<Rightarrow> u32 \<Rightarrow> u32 \<Rightarrow> io \<Rightarrow> (int \<times> io) option" where
  "gpu_request dv g cmd_len resp_len ok s =
     map_option (\<lambda>(resp_type, s). (if resp_type \<noteq> ok then -1 else 0, s)) (gpu_send_cmd dv g cmd_len resp_len s)"

definition gpu_get_display_info :: "device \<Rightarrow> gpu_statics \<Rightarrow> io \<Rightarrow> (int \<times> io) option" where
  "gpu_get_display_info dv g s =
     gpu_request dv g 24 408 VIRTIO_GPU_RESP_OK_DISPLAY_INFO (put_cmd g VIRTIO_GPU_CMD_GET_DISPLAY_INFO [] s)"

text \<open>What is printed of the answer: the enabled outputs with their sizes.\<close>

definition display_modes :: "gpu_statics \<Rightarrow> memory \<Rightarrow> (nat \<times> u64 \<times> u64) list" where
  "display_modes g m =
     (let mode = (\<lambda>i. resp_buf g + 24 + of_nat (24 * i))
      in map (\<lambda>i. (i, load_le 4 m (mode i + 8), load_le 4 m (mode i + 12)))
           (filter (\<lambda>i. load_le 4 m (mode i + 16) \<noteq> 0) [0..<VIRTIO_GPU_MAX_SCANOUTS]))"

definition gpu_create_resource :: "device \<Rightarrow> gpu_statics \<Rightarrow> io \<Rightarrow> (int \<times> io) option" where
  "gpu_create_resource dv g s =
     gpu_request dv g 40 24 VIRTIO_GPU_RESP_OK_NODATA
       (put_cmd g VIRTIO_GPU_CMD_RESOURCE_CREATE_2D
         [(4, ucast FB_RESOURCE_ID), (4, ucast VIRTIO_GPU_FORMAT_R8G8B8A8_UNORM), (4, ucast GPU_WIDTH), (4, ucast GPU_HEIGHT)] s)"

definition gpu_attach_backing :: "device \<Rightarrow> gpu_statics \<Rightarrow> io \<Rightarrow> (int \<times> io) option" where
  "gpu_attach_backing dv g s =
     gpu_request dv g 48 24 VIRTIO_GPU_RESP_OK_NODATA
       (put_cmd g VIRTIO_GPU_CMD_RESOURCE_ATTACH_BACKING
         ([(4, ucast FB_RESOURCE_ID), (4, 1)] @ [(8, framebuffer g), (4, ucast (GPU_WIDTH * GPU_HEIGHT * 4)), (4, 0)]) s)"

definition gpu_set_scanout :: "device \<Rightarrow> gpu_statics \<Rightarrow> io \<Rightarrow> (int \<times> io) option" where
  "gpu_set_scanout dv g s =
     gpu_request dv g 48 24 VIRTIO_GPU_RESP_OK_NODATA
       (put_cmd g VIRTIO_GPU_CMD_SET_SCANOUT
         (rect_fields 0 0 GPU_WIDTH GPU_HEIGHT @ [(4, 0), (4, ucast FB_RESOURCE_ID)]) s)"

section \<open>Interface\<close>

definition virtio_gpu_get_framebuffer :: "gpu_statics \<Rightarrow> u64" where
  "virtio_gpu_get_framebuffer g = framebuffer g"

text \<open>The offset is computed in 32 bits and widened before the multiplication by 4.\<close>

definition virtio_gpu_flush :: "device \<Rightarrow> gpu_statics \<Rightarrow> u32 \<Rightarrow> u32 \<Rightarrow> u32 \<Rightarrow> u32 \<Rightarrow> io \<Rightarrow> (int \<times> io) option" where
  "virtio_gpu_flush dv g x y w h s = do {
     (r, s) \<leftarrow> gpu_request dv g 56 24 VIRTIO_GPU_RESP_OK_NODATA
       (put_cmd g VIRTIO_GPU_CMD_TRANSFER_TO_HOST_2D
         (rect_fields x y w h @ [(8, ucast (y * GPU_WIDTH + x) * 4), (4, ucast FB_RESOURCE_ID), (4, 0)]) s);
     if r < 0 then Some (-1, s)
     else do {
       (r, s) \<leftarrow> gpu_request dv g 48 24 VIRTIO_GPU_RESP_OK_NODATA
         (put_cmd g VIRTIO_GPU_CMD_RESOURCE_FLUSH (rect_fields x y w h @ [(4, ucast FB_RESOURCE_ID), (4, 0)]) s);
       if r < 0 then Some (-1, s) else Some (0, s) } }"

text \<open>The commands of the initialisation.\<close>

definition gpu_commands :: "device \<Rightarrow> gpu_statics \<Rightarrow> io \<Rightarrow> (int \<times> io) option" where
  "gpu_commands dv g s = do {
     (r, s) \<leftarrow> gpu_get_display_info dv g s;
     if r < 0 then Some (-1, s)
     else do {
       (r, s) \<leftarrow> gpu_create_resource dv g s;
       if r < 0 then Some (-1, s)
       else do {
         (r, s) \<leftarrow> gpu_attach_backing dv g s;
         if r < 0 then Some (-1, s)
         else do {
           (r, s) \<leftarrow> gpu_set_scanout dv g s;
           if r < 0 then Some (-1, s) else Some (0, s) } } } }"

text \<open>\<open>n\<close> words of 32 bits with the value \<open>v\<close>.\<close>

definition fill_words :: "u32 \<Rightarrow> nat \<Rightarrow> u64 \<Rightarrow> memory \<Rightarrow> memory" where
  "fill_words v n a m = (\<lambda>x. let k = unat (x - a) in if k < 4 * n then ucast (drop_bit (8 * (k mod 4)) v) else m x)"

record gpu_dev = virtio_dev +
  ctlq :: virtqueue
  width :: u32
  height :: u32

definition virtio_gpu_init :: "'d bus \<Rightarrow> device \<Rightarrow> (nat \<Rightarrow> u64 \<times> u64 \<times> u64) \<Rightarrow> u64 \<times> u64 \<times> u64 \<Rightarrow> gpu_statics \<Rightarrow> gpu_dev \<Rightarrow> memory \<Rightarrow> 'd machine
    \<Rightarrow> (int \<times> gpu_dev \<times> memory \<times> 'd machine) option" where
  "virtio_gpu_init b dv rings ptrs g d me m = do {
     (r, p, v, m) \<leftarrow> probe b (pci_find_virtio_gpu b) 0 (d_pci d) (d_vpci d) m;
     let d = d\<lparr>d_pci := p, d_vpci := v\<rparr>;
     if r < 0 then Some (-1, d, me, m)
     else do {
       ((r, vq), m) \<leftarrow> run_opt (virtio_pci_setup_queue b rings (d_vpci d) ptrs (ctlq d) 0 64) m;
       let d = d\<lparr>ctlq := vq\<rparr>;
       if r < 0 then Some (-1, d, me, m)
       else do {
         let m = snd (run_state (virtio_pci_set_driver_ok b (d_vpci d)) m);
         let d = d\<lparr>width := GPU_WIDTH, height := GPU_HEIGHT\<rparr>;
         let me = fill_words 0xFF000000 (unat (GPU_WIDTH * GPU_HEIGHT)) (framebuffer g) me;
         (r, s) \<leftarrow> gpu_commands dv g \<lparr>queue = ctlq d, mem = me, kicks = []\<rparr>;
         Some (if r < 0 then -1 else 0, d\<lparr>ctlq := queue s\<rparr>, mem s, m) } } }"

end
