(* ===== verification/GpuSpec.thy ===== *)
theory GpuSpec
  imports Gpu NetSpec Pmm
begin

text \<open>
  The commands of the graphics driver against a device of the virtio specification (1.1, 5.7.6): updating the screen
  sends the two commands for the rectangle. Initialisation gives the device a kernel address where it needs
  a physical one.
\<close>

section \<open>Packed structures\<close>

definition le_bytes :: "nat \<Rightarrow> u64 \<Rightarrow> u8 list" where
  "le_bytes n v = map (\<lambda>i. ucast (drop_bit (8 * i) v)) [0..<n]"

definition fields_bytes :: "(nat \<times> u64) list \<Rightarrow> u8 list" where
  "fields_bytes fs = concat (map (\<lambda>(n, v). le_bytes n v) fs)"

definition fields_size :: "(nat \<times> u64) list \<Rightarrow> nat" where
  "fields_size fs = sum_list (map fst fs)"

lemma bytes_append: "bytes m a (i + j) = bytes m a i @ bytes m (a + of_nat i) j"
  by (rule nth_equalityI) (auto simp: bytes_def nth_append of_nat_diff)

lemma bytes_cong: "(\<And>x. x \<in> region a n \<Longrightarrow> m x = m' x) \<Longrightarrow> n \<le> 2 ^ 32 \<Longrightarrow> bytes m a n = bytes m' a n"
  unfolding bytes_def by (intro map_cong refl) (simp add: region_self)

lemma bytes_store_le: "n \<le> 2 ^ 32 \<Longrightarrow> bytes (store_le n a v m) a n = le_bytes n v"
  unfolding bytes_def le_bytes_def by (intro map_cong refl) (simp add: store_le_def unat_of_nat_small)

lemma put_fields_ok:
  assumes "fields_size fs \<le> 2 ^ 32"
  shows "bytes (put_fields a fs m) a (fields_size fs) = fields_bytes fs" "x \<notin> region a (fields_size fs) \<Longrightarrow> put_fields a fs m x = m x"
proof -
  have "bytes (put_fields a fs m) a (fields_size fs) = fields_bytes fs \<and> (\<forall>x. x \<notin> region a (fields_size fs) \<longrightarrow> put_fields a fs m x = m x)"
    using assms
  proof (induction fs arbitrary: a m)
    case Nil
    then show ?case by (simp add: fields_size_def fields_bytes_def bytes_def)
  next
    case (Cons f fs)
    obtain n v where f: "f = (n, v)" by (cases f)
    let ?m = "store_le n a v m" and ?k = "fields_size fs"
    have k: "fields_size (f # fs) = n + ?k" "n + ?k \<le> 2 ^ 32" using Cons.prems by (simp_all add: fields_size_def f)
    note IH = Cons.IH [of "a + of_nat n" ?m]
    have out: "put_fields (a + of_nat n) fs ?m x = ?m x" if "x \<notin> region (a + of_nat n) ?k" for x using IH k(2) that by simp
    have ap: "region a n \<inter> region (a + of_nat n) ?k = {}" using region_apart [of 0 n n ?k a] k(2) by simp
    have "bytes (put_fields (a + of_nat n) fs ?m) a n = bytes ?m a n"
      by (rule bytes_cong) (use out ap k(2) in auto)
    also have "\<dots> = le_bytes n v" using k(2) by (simp add: bytes_store_le)
    finally have b: "bytes (put_fields a (f # fs) m) a (fields_size (f # fs)) = fields_bytes (f # fs)"
      using IH k by (simp add: f bytes_append fields_bytes_def)
    have "put_fields a (f # fs) m x = m x" if x: "x \<notin> region a (n + ?k)" for x
    proof -
      have "x \<notin> region (a + of_nat n) ?k" "x \<notin> region a n"
        using x region_sub [of n ?k "n + ?k" a] region_sub [of 0 n "n + ?k" a] k(2) by auto
      then show ?thesis using out by (simp add: f store_le_outside)
    qed
    then show ?case using b k(1) by simp
  qed
  then show "bytes (put_fields a fs m) a (fields_size fs) = fields_bytes fs" "x \<notin> region a (fields_size fs) \<Longrightarrow> put_fields a fs m x = m x"
    by blast+
qed

lemma put_fields_append: "put_fields a (fs @ fs') m = put_fields (a + of_nat (fields_size fs)) fs' (put_fields a fs m)"
  by (induction a fs m rule: put_fields.induct) (simp_all add: fields_size_def add.assoc)

definition hdr_fields :: "u32 \<Rightarrow> (nat \<times> u64) list" where
  "hdr_fields ty = [(4, ucast ty), (4, 0), (8, 0), (4, 0), (4, 0)]"

lemma put_cmd_fields: "put_cmd g ty fs s = s\<lparr>mem := put_fields (cmd_buf g) (hdr_fields ty @ fs) (mem s)\<rparr>"
  by (simp add: put_cmd_def put_fields_append gpu_ctrl_hdr_init_def hdr_fields_def fields_size_def add.commute)

section \<open>The device\<close>

text \<open>Commands as the specification lays them out.\<close>

datatype gpu_cmd =
    Get_display_info
  | Create_2d (res: u32) (format: u32) u32 u32
  | Attach_backing (res: u32) (backing: u64) u32
  | Set_scanout u32 u32 u32 u32 u32 (res: u32)
  | Transfer_to_host u32 u32 u32 u32 (offset: u64) (res: u32)
  | Flush u32 u32 u32 u32 (res: u32)

fun encode :: "gpu_cmd \<Rightarrow> u8 list" where
  "encode Get_display_info = fields_bytes (hdr_fields 0x0100)"
| "encode (Create_2d i f w h) = fields_bytes (hdr_fields 0x0101 @ [(4, ucast i), (4, ucast f), (4, ucast w), (4, ucast h)])"
| "encode (Set_scanout x y w h k i) =
     fields_bytes (hdr_fields 0x0103 @ [(4, ucast x), (4, ucast y), (4, ucast w), (4, ucast h), (4, ucast k), (4, ucast i)])"
| "encode (Flush x y w h i) = fields_bytes (hdr_fields 0x0104 @ [(4, ucast x), (4, ucast y), (4, ucast w), (4, ucast h), (4, ucast i), (4, 0)])"
| "encode (Transfer_to_host x y w h off i) =
     fields_bytes (hdr_fields 0x0105 @ [(4, ucast x), (4, ucast y), (4, ucast w), (4, ucast h), (8, off), (4, ucast i), (4, 0)])"
| "encode (Attach_backing i a l) = fields_bytes (hdr_fields 0x0106 @ [(4, ucast i), (4, 1), (8, a), (4, ucast l), (4, 0)])"

text \<open>
  A request is a command the device reads and a buffer it writes. The device answers with \<open>ans\<close> of the bytes of the
  command, a type and further bytes, at the \<open>n\<close>-th look.
\<close>

definition gpu_chained :: "nat \<Rightarrow> io \<Rightarrow> bool" where
  "gpu_chained h s \<longleftrightarrow> linked (desc (queue s)) [h, unat (d_next (req_desc 0 h s))]
     \<and> d_flags (req_desc 0 h s) AND VRING_DESC_F_WRITE = 0 \<and> d_flags (req_desc 1 h s) AND VRING_DESC_F_WRITE \<noteq> 0"

definition gpu_reply :: "(u8 list \<Rightarrow> u32 \<times> u8 list) \<Rightarrow> nat \<Rightarrow> io \<Rightarrow> io" where
  "gpu_reply ans h s =
     (let c = bytes (mem s) (phys_to_virt (d_addr (req_desc 0 h s))) (unat (d_len (req_desc 0 h s)));
          r = phys_to_virt (d_addr (req_desc 1 h s));
          bs = take (unat (d_len (req_desc 1 h s))) (le_bytes 4 (ucast (fst (ans c))) @ snd (ans c))
      in s\<lparr>queue := device_used h (of_nat (length bs)) (queue s), mem := (\<lambda>x. if unat (x - r) < length bs then bs ! unat (x - r) else mem s x)\<rparr>)"

definition answers_commands :: "(u8 list \<Rightarrow> u32 \<times> u8 list) \<Rightarrow> nat \<Rightarrow> device \<Rightarrow> bool" where
  "answers_commands ans n dv \<longleftrightarrow> (\<forall>i < n. \<forall>s. dv i s = s) \<and> (\<forall>s. gpu_chained (newest s) s \<longrightarrow> dv n s = gpu_reply ans (newest s) s)"

definition gpu_areas :: "gpu_statics \<Rightarrow> bool" where
  "gpu_areas g \<longleftrightarrow> region (cmd_buf g) 256 \<inter> region (resp_buf g) 4096 = {}"

lemma load_le_bytes: "n \<le> 8 \<Longrightarrow> bytes m a n = le_bytes n v \<Longrightarrow> load_le n m a = take_bit (8 * n) v"
proof -
  assume n: "n \<le> 8" and b: "bytes m a n = le_bytes n v"
  have "m (a + of_nat i) = store_le n a v m (a + of_nat i)" if "i < n" for i
    using b [THEN arg_cong, of "\<lambda>l. l ! i"] bytes_store_le [of n a v m, THEN arg_cong, of "\<lambda>l. l ! i"] that n by (simp add: bytes_def)
  then show ?thesis using load_le_store_le [OF n, of a v m] load_le_cong [of n m a "store_le n a v m"] by simp
qed

lemma low_word: "ucast (take_bit 32 (ucast (x :: u32) :: u64)) = x"
  by (rule bit_eqI) (auto simp: bit_simps dest: bit_imp_le_length)

text \<open>One command: the device gets its bytes, the driver the type of the answer; the queue is as before.\<close>

lemma gpu_send_ok:
  assumes inv: "vq_inv fl {} [] (queue s)" and fl: "2 \<le> length fl" and ap: "gpu_areas g" and dv: "answers_commands ans n dv" and n: "n < 50000000"
    and len: "unat cl \<le> 256" "4 \<le> unat rl" "unat rl \<le> 4096"
  shows "\<exists>s' fl'. gpu_send_cmd dv g cl rl s = Some (fst (ans (bytes (mem s) (cmd_buf g) (unat cl))), s') \<and> vq_inv fl' {} [] (queue s')
     \<and> length fl' = length fl \<and> (\<forall>x. x \<notin> region (resp_buf g) (unat rl) \<longrightarrow> mem s' x = mem s x)"
proof -
  let ?bs = "gpu_chain g cl rl" and ?m = "fill_bytes 0 (unat rl) (resp_buf g) (\<lambda>_. 0) (mem s)"
  let ?c = "bytes (mem s) (cmd_buf g) (unat cl)"
  obtain a b fl' where fl: "fl = a # b # fl'" using take2 [OF fl] by auto
  have bs: "?bs \<noteq> []" "length ?bs \<le> length fl" "\<forall>b \<in> set ?bs. b_flags b AND VRING_DESC_F_NEXT = 0"
    by (auto simp: gpu_chain_def fl VRING_DESC_F_WRITE_def VRING_DESC_F_NEXT_def)
  have ab: "hd fl = a" "drop (length ?bs) fl = fl'" "take (length ?bs) fl = [a, b]" by (simp_all add: gpu_chain_def fl)
  obtain vq s1 where r: "virtqueue_add_chain ?bs (queue s) = Some (of_nat a, vq)" "s1 = kick (s\<lparr>mem := ?m, queue := vq\<rparr>)"
    "vq_inv fl' {[a, b]} [] (queue s1)" "of_nat a \<noteq> (0xFFFF :: u16)" "newest s1 = a" "carries (queue s1) [a, b] ?bs" "mem s1 = ?m"
    using chain_submitted [OF inv bs, of ?m, unfolded ab] by (elim exE conjE) (rule that)
  have sn: "seen (req_desc 0 a s1) = (virt_to_phys (cmd_buf g), cl, 0)" "seen (req_desc 1 a s1) = (virt_to_phys (resp_buf g), rl, VRING_DESC_F_WRITE)"
    using carries_req(2) [OF r(6), of 0] carries_req(2) [OF r(6), of 1] by (simp_all add: gpu_chain_def offered_def)
  have nx: "unat (d_next (req_desc 0 a s1)) = b" "linked (desc (queue s1)) [a, b]"
    using carries_req(1) [OF r(6), of 0] r(6) by (simp_all add: carries_def)
  have out: "?m x = mem s x" if "x \<notin> region (resp_buf g) (unat rl)" for x
    using that len(3) by (simp add: fill_bytes_apply region_def)
  have sub: "region (resp_buf g) (unat rl) \<subseteq> region (resp_buf g) 4096" "region (cmd_buf g) (unat cl) \<subseteq> region (cmd_buf g) 256"
    using len by (auto simp: region_def)
  have c: "bytes ?m (cmd_buf g) (unat cl) = ?c"
    by (rule bytes_cong) (use out ap sub len in \<open>auto simp: gpu_areas_def\<close>)
  let ?r = "take (unat rl) (le_bytes 4 (ucast (fst (ans ?c))) @ snd (ans ?c))"
  let ?m2 = "\<lambda>x. if unat (x - resp_buf g) < length ?r then ?r ! unat (x - resp_buf g) else ?m x"
  have "gpu_chained a s1" unfolding gpu_chained_def using nx seen_write [OF sn(1)] seen_write [OF sn(2)] by (simp add: VRING_DESC_F_WRITE_def)
  then have "dv n s1 = gpu_reply ans a s1" using dv r(5) by (simp add: answers_commands_def)
  moreover have "phys_to_virt (d_addr (req_desc 0 a s1)) = cmd_buf g" "unat (d_len (req_desc 0 a s1)) = unat cl"
    "phys_to_virt (d_addr (req_desc 1 a s1)) = resp_buf g" "unat (d_len (req_desc 1 a s1)) = unat rl" using sn by (simp_all add: seen_def)
  ultimately have d: "dv n s1 = s1\<lparr>queue := device_used (hd [a, b]) (of_nat (length ?r)) (queue s1), mem := ?m2\<rparr>"
    unfolding gpu_reply_def Let_def r(7) list.sel(1) by (simp only: c)
  have silent: "\<forall>i < n. \<forall>s. dv i s = s" using dv by (simp add: answers_commands_def)
  obtain vq2 used where p: "poll_used dv 0 50000000 s1 = Some (Some used, s1\<lparr>queue := vq2, mem := ?m2\<rparr>)" "vq_inv (rev [a, b] @ fl') {} [] vq2"
    using poll_reported [where ch = "[a, b]" and cs = "{}", OF r(3) _ silent n d] by auto
  have "bytes ?m2 (resp_buf g) 4 = le_bytes 4 (ucast (fst (ans ?c)))"
    using len(2) by (intro nth_equalityI) (auto simp: bytes_def le_bytes_def nth_append unat_of_nat_small)
  then have "load_le 4 ?m2 (resp_buf g) = take_bit 32 (ucast (fst (ans ?c)))" using load_le_bytes [of 4 ?m2] by simp
  then have "(ucast (load_le 4 ?m2 (resp_buf g)) :: u32) = fst (ans ?c)" by (simp add: low_word)
  then have "gpu_send_cmd dv g cl rl s = Some (fst (ans ?c), s1\<lparr>queue := vq2, mem := ?m2\<rparr>)"
    using r(1,4) p(1) len(3) unfolding gpu_send_cmd_def Let_def r(2) by (simp add: min_absorb1)
  moreover have "?m2 x = mem s x" if "x \<notin> region (resp_buf g) (unat rl)" for x using that out by (auto simp: region_def)
  ultimately show ?thesis using p(2)
    by (intro exI [of _ "s1\<lparr>queue := vq2, mem := ?m2\<rparr>"] exI [of _ "rev [a, b] @ fl'"]) (simp add: fl)
qed

text \<open>Filling in a command, sending it and checking the answer. Only the two buffers change.\<close>

definition gpu_buffers :: "gpu_statics \<Rightarrow> u64 set" where
  "gpu_buffers g = region (cmd_buf g) 256 \<union> region (resp_buf g) 4096"

lemma gpu_request_ok:
  assumes inv: "vq_inv fl {} [] (queue s)" and fl: "2 \<le> length fl" and ap: "gpu_areas g" and dv: "answers_commands ans n dv" and n: "n < 50000000"
    and cl: "fields_size (hdr_fields ty @ fs) = unat cl" "unat cl \<le> 256" and rl: "4 \<le> unat rl" "unat rl \<le> 4096"
  shows "\<exists>s' fl'. gpu_request dv g cl rl ok (put_cmd g ty fs s) = Some (if fst (ans (fields_bytes (hdr_fields ty @ fs))) \<noteq> ok then -1 else 0, s')
     \<and> vq_inv fl' {} [] (queue s') \<and> length fl' = length fl \<and> (\<forall>x. x \<notin> gpu_buffers g \<longrightarrow> mem s' x = mem s x)"
proof -
  let ?s = "put_cmd g ty fs s"
  have small: "fields_size (hdr_fields ty @ fs) \<le> 2 ^ 32" using cl by simp
  have i: "vq_inv fl {} [] (queue ?s)" using inv by (simp add: put_cmd_fields)
  have c: "bytes (mem ?s) (cmd_buf g) (unat cl) = fields_bytes (hdr_fields ty @ fs)"
    using put_fields_ok(1) [OF small] cl(1) by (simp add: put_cmd_fields)
  have o: "mem ?s x = mem s x" if "x \<notin> region (cmd_buf g) 256" for x
    using put_fields_ok(2) [OF small] that cl by (simp add: put_cmd_fields region_def)
  obtain s' fl' where r: "gpu_send_cmd dv g cl rl ?s = Some (fst (ans (fields_bytes (hdr_fields ty @ fs))), s')" "vq_inv fl' {} [] (queue s')"
    "length fl' = length fl" "\<forall>x. x \<notin> region (resp_buf g) (unat rl) \<longrightarrow> mem s' x = mem ?s x"
    using gpu_send_ok [OF i fl ap dv n cl(2) rl, unfolded c] by blast
  have "mem s' x = mem s x" if "x \<notin> gpu_buffers g" for x
    using that r(4) o rl(2) by (simp add: gpu_buffers_def region_def)
  then show ?thesis using r by (auto simp: gpu_request_def)
qed

lemmas gpu_sizes = fields_size_def hdr_fields_def rect_fields_def

lemmas gpu_consts = VIRTIO_GPU_CMD_GET_DISPLAY_INFO_def VIRTIO_GPU_CMD_RESOURCE_CREATE_2D_def VIRTIO_GPU_CMD_SET_SCANOUT_def
  VIRTIO_GPU_CMD_RESOURCE_FLUSH_def VIRTIO_GPU_CMD_TRANSFER_TO_HOST_2D_def VIRTIO_GPU_CMD_RESOURCE_ATTACH_BACKING_def
  VIRTIO_GPU_RESP_OK_NODATA_def VIRTIO_GPU_RESP_OK_DISPLAY_INFO_def VIRTIO_GPU_FORMAT_R8G8B8A8_UNORM_def FB_RESOURCE_ID_def
  GPU_WIDTH_def GPU_HEIGHT_def

section \<open>Updating the screen\<close>

text \<open>The byte offset of a pixel of the screen.\<close>

definition pixel :: "u32 \<Rightarrow> u32 \<Rightarrow> u64" where
  "pixel x y = of_nat (4 * (640 * unat y + unat x))"

lemma flush_offset:
  assumes "x < 640" "y < 480"
  shows "ucast (y * GPU_WIDTH + x) * 4 = pixel x y"
proof -
  have xy: "unat x < 640" "unat y < 480" using assms by (simp_all add: word_less_nat_alt)
  have "y * GPU_WIDTH + x = of_nat (640 * unat y + unat x)" by (simp add: GPU_WIDTH_def mult.commute)
  moreover have "unat (of_nat (640 * unat y + unat x) :: u32) = 640 * unat y + unat x" by (rule unat_of_nat_small) (use xy in simp)
  ultimately have "unat (y * GPU_WIDTH + x) = 640 * unat y + unat x" by simp
  then have "(ucast (y * GPU_WIDTH + x) :: u64) = of_nat (640 * unat y + unat x)" by (metis of_nat_unat)
  then show ?thesis by (simp add: pixel_def)
qed

text \<open>
  C38: updating a rectangle that begins on the screen sends the device the pixels of the rectangle, from the place of its
  first pixel on, and then the command to show them. It succeeds exactly when the device accepts both,
  and changes nothing but the command and answer buffers.
\<close>

theorem gpu_flush_sends:
  assumes inv: "vq_inv fl {} [] (queue s)" and fl: "2 \<le> length fl" and ap: "gpu_areas g" and dv: "answers_commands ans n dv" and n: "n < 50000000"
    and xy: "x < 640" "y < 480"
  defines "ok \<equiv> \<lambda>c. fst (ans (encode c)) = 0x1100"
  shows "\<exists>s' fl'. virtio_gpu_flush dv g x y w h s = Some (if ok (Transfer_to_host x y w h (pixel x y) 1) \<and> ok (Flush x y w h 1) then 0 else -1, s')
     \<and> vq_inv fl' {} [] (queue s') \<and> length fl' = length fl \<and> (\<forall>a. a \<notin> gpu_buffers g \<longrightarrow> mem s' a = mem s a)"
proof -
  let ?t = "rect_fields x y w h @ [(8, pixel x y), (4, ucast FB_RESOURCE_ID), (4, 0)]"
  let ?f = "rect_fields x y w h @ [(4, ucast FB_RESOURCE_ID), (4, 0)]"
  have e: "fields_bytes (hdr_fields VIRTIO_GPU_CMD_TRANSFER_TO_HOST_2D @ ?t) = encode (Transfer_to_host x y w h (pixel x y) 1)"
    "fields_bytes (hdr_fields VIRTIO_GPU_CMD_RESOURCE_FLUSH @ ?f) = encode (Flush x y w h 1)"
    by (simp_all add: gpu_consts rect_fields_def)
  obtain s1 fl1 where 1: "gpu_request dv g 56 24 VIRTIO_GPU_RESP_OK_NODATA (put_cmd g VIRTIO_GPU_CMD_TRANSFER_TO_HOST_2D ?t s)
      = Some (if \<not> ok (Transfer_to_host x y w h (pixel x y) 1) then -1 else 0, s1)"
    "vq_inv fl1 {} [] (queue s1)" "length fl1 = length fl" "\<forall>a. a \<notin> gpu_buffers g \<longrightarrow> mem s1 a = mem s a"
    using gpu_request_ok [OF inv fl ap dv n, of VIRTIO_GPU_CMD_TRANSFER_TO_HOST_2D ?t 56 24 VIRTIO_GPU_RESP_OK_NODATA, unfolded e]
    by (auto simp: gpu_sizes ok_def gpu_consts)
  have fl1: "2 \<le> length fl1" using fl 1(3) by simp
  obtain s2 fl2 where 2: "gpu_request dv g 48 24 VIRTIO_GPU_RESP_OK_NODATA (put_cmd g VIRTIO_GPU_CMD_RESOURCE_FLUSH ?f s1)
      = Some (if \<not> ok (Flush x y w h 1) then -1 else 0, s2)"
    "vq_inv fl2 {} [] (queue s2)" "length fl2 = length fl1" "\<forall>a. a \<notin> gpu_buffers g \<longrightarrow> mem s2 a = mem s1 a"
    using gpu_request_ok [OF 1(2) fl1 ap dv n, of VIRTIO_GPU_CMD_RESOURCE_FLUSH ?f 48 24 VIRTIO_GPU_RESP_OK_NODATA, unfolded e]
    by (auto simp: gpu_sizes ok_def gpu_consts)
  show ?thesis
  proof (cases "ok (Transfer_to_host x y w h (pixel x y) 1)")
    case True
    then show ?thesis using 1 2 unfolding virtio_gpu_flush_def flush_offset [OF xy] by (intro exI [of _ s2] exI [of _ fl2]) simp
  next
    case False
    then show ?thesis using 1 unfolding virtio_gpu_flush_def flush_offset [OF xy] by (intro exI [of _ s1] exI [of _ fl1]) simp
  qed
qed

text \<open>A device that accepts everything at once, with the buffers at fixed places.\<close>

definition demo_gpu :: device where
  "demo_gpu i s = gpu_reply (\<lambda>_. (0x1100, replicate 20 0)) (newest s) s"

definition demo_gpu_g :: gpu_statics where
  "demo_gpu_g = \<lparr>framebuffer = 0xFFFFFF8040400000, cmd_buf = 0xFFFFFF8040200000, resp_buf = 0xFFFFFF8040200100\<rparr>"

lemma demo_gpu_ok: "answers_commands (\<lambda>_. (0x1100, replicate 20 0)) 0 demo_gpu" "gpu_areas demo_gpu_g"
  using region_apart [of 0 256 256 4096 "0xFFFFFF8040200000"] by (simp_all add: answers_commands_def demo_gpu_def gpu_areas_def demo_gpu_g_def)

theorem gpu_flush_sends_witness:
  "\<exists>vq s'. virtio_gpu_flush demo_gpu demo_gpu_g 100 479 540 1 \<lparr>queue = vq, mem = (\<lambda>_. 7), kicks = []\<rparr> = Some (0, s')
     \<and> mem s' (framebuffer demo_gpu_g) = 7"
proof -
  obtain vq where q: "vq_inv [0, 1, 2, 3, 4, 5, 6, 7] {} [] vq" by (rule demo_queue)
  let ?s = "\<lparr>queue = vq, mem = (\<lambda>_. 7), kicks = []\<rparr> :: io"
  have h: "vq_inv [0, 1, 2, 3, 4, 5, 6, 7] {} [] (queue ?s)" "2 \<le> length [0, 1, 2, 3, 4, 5, 6, 7 :: nat]" "(0 :: nat) < 50000000"
    "(100 :: u32) < 640" "(479 :: u32) < 480" using q by simp_all
  have "framebuffer demo_gpu_g \<notin> gpu_buffers demo_gpu_g" by (simp add: gpu_buffers_def region_def demo_gpu_g_def)
  then show ?thesis using gpu_flush_sends [OF h(1,2) demo_gpu_ok(2,1) h(3-5), of 540 1] by (intro exI [of _ vq]) auto
qed

section \<open>Initialisation\<close>

lemma gpu_commands_result:
  assumes inv: "vq_inv fl {} [] (queue s)" and fl: "2 \<le> length fl" and ap: "gpu_areas g" and dv: "answers_commands ans n dv" and n: "n < 50000000"
  shows "\<exists>s'. gpu_commands dv g s = Some (if fst (ans (encode Get_display_info)) = 0x1101 \<and> fst (ans (encode (Create_2d 1 67 640 480))) = 0x1100
       \<and> fst (ans (encode (Attach_backing 1 (framebuffer g) 1228800))) = 0x1100 \<and> fst (ans (encode (Set_scanout 0 0 640 480 0 1))) = 0x1100
       then 0 else -1, s')"
proof -
  let ?a = "[(4, ucast FB_RESOURCE_ID), (4, ucast VIRTIO_GPU_FORMAT_R8G8B8A8_UNORM), (4, ucast GPU_WIDTH), (4, ucast GPU_HEIGHT)]"
  let ?b = "[(4, ucast FB_RESOURCE_ID), (4, 1)] @ [(8, framebuffer g), (4, ucast (GPU_WIDTH * GPU_HEIGHT * 4)), (4, 0)]"
  let ?c = "rect_fields 0 0 GPU_WIDTH GPU_HEIGHT @ [(4, 0), (4, ucast FB_RESOURCE_ID)]"
  have e: "fields_bytes (hdr_fields VIRTIO_GPU_CMD_GET_DISPLAY_INFO @ []) = encode Get_display_info"
    "fields_bytes (hdr_fields VIRTIO_GPU_CMD_RESOURCE_CREATE_2D @ ?a) = encode (Create_2d 1 67 640 480)"
    "fields_bytes (hdr_fields VIRTIO_GPU_CMD_RESOURCE_ATTACH_BACKING @ ?b) = encode (Attach_backing 1 (framebuffer g) 1228800)"
    "fields_bytes (hdr_fields VIRTIO_GPU_CMD_SET_SCANOUT @ ?c) = encode (Set_scanout 0 0 640 480 0 1)"
    by (simp_all add: gpu_consts rect_fields_def)
  obtain s1 fl1 where 1: "gpu_get_display_info dv g s = Some (if fst (ans (encode Get_display_info)) \<noteq> 0x1101 then -1 else 0, s1)"
    "vq_inv fl1 {} [] (queue s1)" "length fl1 = length fl"
    using gpu_request_ok [OF inv fl ap dv n, of VIRTIO_GPU_CMD_GET_DISPLAY_INFO "[]" 24 408 VIRTIO_GPU_RESP_OK_DISPLAY_INFO, unfolded e]
    by (auto simp: gpu_sizes gpu_consts gpu_get_display_info_def)
  have fl1: "2 \<le> length fl1" using fl 1(3) by simp
  obtain s2 fl2 where 2: "gpu_create_resource dv g s1 = Some (if fst (ans (encode (Create_2d 1 67 640 480))) \<noteq> 0x1100 then -1 else 0, s2)"
    "vq_inv fl2 {} [] (queue s2)" "length fl2 = length fl1"
    using gpu_request_ok [OF 1(2) fl1 ap dv n, of VIRTIO_GPU_CMD_RESOURCE_CREATE_2D ?a 40 24 VIRTIO_GPU_RESP_OK_NODATA, unfolded e]
    unfolding gpu_create_resource_def by (auto simp: gpu_sizes VIRTIO_GPU_RESP_OK_NODATA_def)
  have fl2: "2 \<le> length fl2" using fl1 2(3) by simp
  obtain s3 fl3 where 3: "gpu_attach_backing dv g s2 = Some (if fst (ans (encode (Attach_backing 1 (framebuffer g) 1228800))) \<noteq> 0x1100 then -1 else 0, s3)"
    "vq_inv fl3 {} [] (queue s3)" "length fl3 = length fl2"
    using gpu_request_ok [OF 2(2) fl2 ap dv n, of VIRTIO_GPU_CMD_RESOURCE_ATTACH_BACKING ?b 48 24 VIRTIO_GPU_RESP_OK_NODATA, unfolded e]
    unfolding gpu_attach_backing_def by (auto simp: gpu_sizes VIRTIO_GPU_RESP_OK_NODATA_def)
  have fl3: "2 \<le> length fl3" using fl2 3(3) by simp
  obtain s4 where 4: "gpu_set_scanout dv g s3 = Some (if fst (ans (encode (Set_scanout 0 0 640 480 0 1))) \<noteq> 0x1100 then -1 else 0, s4)"
    using gpu_request_ok [OF 3(2) fl3 ap dv n, of VIRTIO_GPU_CMD_SET_SCANOUT ?c 48 24 VIRTIO_GPU_RESP_OK_NODATA, unfolded e]
    unfolding gpu_set_scanout_def by (auto simp: gpu_sizes VIRTIO_GPU_RESP_OK_NODATA_def)
  show ?thesis unfolding gpu_commands_def using 1(1) 2(1) 3(1) 4 by auto
qed

text \<open>
  C39: the memory of the screen is given to the device by its kernel address, while everything else is
  translated to physical addresses. A device that accepts only addresses of RAM refuses it, and the
  initialisation fails, although the memory itself lies in RAM.
\<close>

theorem gpu_backing_refused:
  assumes inv: "vq_inv fl {} [] (queue s)" and fl: "2 \<le> length fl" and ap: "gpu_areas g" and dv: "answers_commands ans n dv" and n: "n < 50000000"
    and fb: "framebuffer g = phys_to_virt pa" "RAM_BASE \<le> pa" "pa < RAM_END"
    and ram: "\<forall>i a l. fst (ans (encode (Attach_backing i a l))) = 0x1100 \<longrightarrow> RAM_BASE \<le> a \<and> a < RAM_END"
  shows "(\<exists>s'. gpu_commands dv g s = Some (-1, s')) \<and> virt_to_phys (framebuffer g) = pa"
proof -
  have p: "unat pa < unat RAM_END" "unat RAM_END = 0x48000000" using fb(3) by (simp_all add: word_less_nat_alt RAM_END_def RAM_BASE_def)
  then have "unat (framebuffer g) = unat pa + 0xFFFFFF8000000000"
    unfolding fb(1) phys_to_virt_def KERN_VA_OFFSET_def by (subst unat_add_small) simp_all
  then have "\<not> framebuffer g < RAM_END" using p(2) by (simp add: word_less_nat_alt)
  then have "fst (ans (encode (Attach_backing 1 (framebuffer g) 1228800))) \<noteq> 0x1100" using ram by blast
  then show ?thesis using gpu_commands_result [OF inv fl ap dv n] by (auto simp: fb(1))
qed

text \<open>A device that looks at the address of the backing.\<close>

definition careful_answer :: "u8 list \<Rightarrow> u32 \<times> u8 list" where
  "careful_answer c = (if \<exists>i a l. c = encode (Attach_backing i a l) \<and> \<not> (RAM_BASE \<le> a \<and> a < RAM_END) then 0x1200
     else if c = encode Get_display_info then 0x1101 else 0x1100, replicate 20 0)"

theorem gpu_backing_refused_witness:
  "\<exists>vq s'. gpu_commands (\<lambda>i s. gpu_reply careful_answer (newest s) s) demo_gpu_g \<lparr>queue = vq, mem = (\<lambda>_. 0), kicks = []\<rparr> = Some (-1, s')"
proof -
  obtain vq where q: "vq_inv [0, 1, 2, 3, 4, 5, 6, 7] {} [] vq" by (rule demo_queue)
  let ?s = "\<lparr>queue = vq, mem = (\<lambda>_. 0), kicks = []\<rparr> :: io"
  have h: "vq_inv [0, 1, 2, 3, 4, 5, 6, 7] {} [] (queue ?s)" "2 \<le> length [0, 1, 2, 3, 4, 5, 6, 7 :: nat]"
    "answers_commands careful_answer 0 (\<lambda>i s. gpu_reply careful_answer (newest s) s)" "(0 :: nat) < 50000000"
    "framebuffer demo_gpu_g = phys_to_virt 0x40400000" "RAM_BASE \<le> 0x40400000" "0x40400000 < RAM_END"
    using q by (simp_all add: answers_commands_def demo_gpu_g_def phys_to_virt_def KERN_VA_OFFSET_def RAM_BASE_def RAM_END_def)
  have "\<forall>i a l. fst (careful_answer (encode (Attach_backing i a l))) = 0x1100 \<longrightarrow> RAM_BASE \<le> a \<and> a < RAM_END"
    by (auto simp: careful_answer_def simp del: encode.simps split: if_splits)
  from gpu_backing_refused [OF h(1,2) demo_gpu_ok(2) h(3-7) this] show ?thesis by blast
qed

end
