(* ===== verification/Input.thy ===== *)
theory Input
  imports Drivers Pool
begin

text \<open>
  The input driver, \<^verbatim>\<open>src/virtio_input.c\<close>: up to four keyboards and mice, each with a pool of event buffers,
  and a call that takes one event from any of them.
\<close>

section \<open>State\<close>

definition INPUT_EVENT_SIZE :: u32 where "INPUT_EVENT_SIZE = 8"
definition INPUT_EVT_RING_SIZE :: nat where "INPUT_EVT_RING_SIZE = 64"
definition MAX_INPUT_DEVS :: nat where "MAX_INPUT_DEVS = 4"

record virtio_input_event =
  ev_type :: u16
  ev_code :: u16
  ev_value :: u32

record virtio_input = virtio_dev +
  evtq :: virtqueue
  stsq :: virtqueue
  name :: "u8 list"
  is_keyboard :: bool
  is_mouse :: bool

text \<open>\<open>input_devs\<close> has \<open>MAX_INPUT_DEVS\<close> entries; so has \<open>desc_to_evt\<close>, a table for each device.\<close>

record inputs =
  input_devs :: "virtio_input list"
  input_dev_count :: nat
  desc_to_evt :: "nat list list"
  in_mem :: memory
  in_kicks :: "(u64 \<times> u16) list"

text \<open>\<open>evt_buffers[dev_idx][slot]\<close>, an array of arrays of events at \<open>g\<close>.\<close>

definition evt_buffer :: "u64 \<Rightarrow> nat \<Rightarrow> nat \<Rightarrow> u64" where
  "evt_buffer g dev_idx slot = g + of_nat ((dev_idx * INPUT_EVT_RING_SIZE + slot) * unat INPUT_EVENT_SIZE)"

definition evt_pool :: "inputs \<Rightarrow> nat \<Rightarrow> pool" where
  "evt_pool s i = \<lparr>pq = evtq (input_devs s ! i), slot_of = desc_to_evt s ! i\<rparr>"

definition set_evt_pool :: "nat \<Rightarrow> pool \<Rightarrow> inputs \<Rightarrow> inputs" where
  "set_evt_pool i p s = s\<lparr>input_devs := (input_devs s)[i := (input_devs s ! i)\<lparr>evtq := pq p\<rparr>],
     desc_to_evt := (desc_to_evt s)[i := slot_of p]\<rparr>"

definition kick_evtq :: "nat \<Rightarrow> inputs \<Rightarrow> inputs" where
  "kick_evtq i s = s\<lparr>in_kicks := in_kicks s @ [virtqueue_kick (evtq (input_devs s ! i))]\<rparr>"

definition post_evt_buffer :: "u64 \<Rightarrow> nat \<Rightarrow> nat \<Rightarrow> inputs \<Rightarrow> inputs option" where
  "post_evt_buffer g dev_idx slot s =
     map_option (\<lambda>p. set_evt_pool dev_idx p s) (post_buffer (evt_buffer g dev_idx) INPUT_EVENT_SIZE slot (evt_pool s dev_idx))"

definition fill_evt_queue :: "u64 \<Rightarrow> nat \<Rightarrow> inputs \<Rightarrow> inputs option" where
  "fill_evt_queue g dev_idx s =
     (let n = unat (num (evtq (input_devs s ! dev_idx)));
          count = (if INPUT_EVT_RING_SIZE > n then n else INPUT_EVT_RING_SIZE)
      in map_option (\<lambda>p. kick_evtq dev_idx (set_evt_pool dev_idx p s))
           (post_from (evt_buffer g dev_idx) INPUT_EVENT_SIZE count 0 (evt_pool s dev_idx)))"

section \<open>Events\<close>

definition read_event :: "memory \<Rightarrow> u64 \<Rightarrow> virtio_input_event" where
  "read_event m a = \<lparr>ev_type = ucast (load_le 2 m a), ev_code = ucast (load_le 2 m (a + 2)), ev_value = ucast (load_le 4 m (a + 4))\<rparr>"

text \<open>The loop over the devices, \<open>n\<close> of them left from \<open>i\<close> on; the result is the event that is stored for the caller.\<close>

fun poll_from :: "u64 \<Rightarrow> nat \<Rightarrow> nat \<Rightarrow> inputs \<Rightarrow> (virtio_input_event option \<times> inputs) option" where
  "poll_from g 0 i s = Some (None, s)"
| "poll_from g (Suc n) i s =
     (case virtqueue_get_used (evtq (input_devs s ! i)) of
        None \<Rightarrow> None
      | Some (None, vq) \<Rightarrow> poll_from g n (Suc i) (set_evt_pool i ((evt_pool s i)\<lparr>pq := vq\<rparr>) s)
      | Some (Some (desc_idx, len), vq) \<Rightarrow>
          let s = set_evt_pool i ((evt_pool s i)\<lparr>pq := vq\<rparr>) s
          in if unat desc_idx \<ge> length (desc_to_evt s ! i) then None
             else
               let slot = desc_to_evt s ! i ! unat desc_idx
               in if len \<ge> INPUT_EVENT_SIZE then
                    let evt = read_event (in_mem s) (evt_buffer g i slot)
                    in map_option (\<lambda>s. (Some evt, kick_evtq i s)) (post_evt_buffer g i slot s)
                  else
                    Option.bind (post_evt_buffer g i slot s) (\<lambda>s. poll_from g n (Suc i) (kick_evtq i s)))"

definition virtio_input_poll :: "u64 \<Rightarrow> inputs \<Rightarrow> (virtio_input_event option \<times> inputs) option" where
  "virtio_input_poll g s = poll_from g (input_dev_count s) 0 s"

definition virtio_input_get_count :: "inputs \<Rightarrow> nat" where
  "virtio_input_get_count s = input_dev_count s"

definition virtio_input_get_dev :: "inputs \<Rightarrow> int \<Rightarrow> virtio_input option" where
  "virtio_input_get_dev s index = (if index < 0 \<or> index \<ge> int (input_dev_count s) then None else Some (input_devs s ! nat index))"

section \<open>Identification\<close>

definition VIRTIO_INPUT_CFG_ID_NAME :: u8 where "VIRTIO_INPUT_CFG_ID_NAME = 0x01"
definition VIRTIO_INPUT_CFG_EV_BITS :: u8 where "VIRTIO_INPUT_CFG_EV_BITS = 0x11"
definition VIRTIO_INPUT_CFG_SELECT_OFF :: u64 where "VIRTIO_INPUT_CFG_SELECT_OFF = 0x00"
definition VIRTIO_INPUT_CFG_SUBSEL_OFF :: u64 where "VIRTIO_INPUT_CFG_SUBSEL_OFF = 0x01"
definition VIRTIO_INPUT_CFG_SIZE_OFF :: u64 where "VIRTIO_INPUT_CFG_SIZE_OFF = 0x02"
definition VIRTIO_INPUT_CFG_DATA_OFF :: u64 where "VIRTIO_INPUT_CFG_DATA_OFF = 0x08"
definition EV_KEY :: u8 where "EV_KEY = 0x01"
definition EV_REL :: u8 where "EV_REL = 0x02"
definition EV_ABS :: u8 where "EV_ABS = 0x03"

text \<open>The bytes that are stored for the caller, none when the query fails.\<close>

definition input_cfg_query :: "'d bus \<Rightarrow> virtio_input \<Rightarrow> u8 \<Rightarrow> u8 \<Rightarrow> nat \<Rightarrow> ('d machine, u8 list) state" where
  "input_cfg_query b inp select subsel max_len =
     (let dcfg = device_cfg (d_vpci inp)
      in if dcfg = 0 then State_Monad.return []
         else do {
           mmio_write8 b (dcfg + VIRTIO_INPUT_CFG_SELECT_OFF) select;
           mmio_write8 b (dcfg + VIRTIO_INPUT_CFG_SUBSEL_OFF) subsel;
           sz \<leftarrow> mmio_read8 b (dcfg + VIRTIO_INPUT_CFG_SIZE_OFF);
           if sz = 0 then State_Monad.return []
           else
             let len = (if unat sz > max_len then max_len else unat sz)
             in read_config b (dcfg + VIRTIO_INPUT_CFG_DATA_OFF) len })"

definition read_device_name :: "'d bus \<Rightarrow> virtio_input \<Rightarrow> ('d machine, virtio_input) state" where
  "read_device_name b inp = do {
     data \<leftarrow> input_cfg_query b inp VIRTIO_INPUT_CFG_ID_NAME 0 63;
     State_Monad.return (inp\<lparr>name := if data = [] then [0x3F] else data\<rparr>) }"

definition detect_device_type :: "'d bus \<Rightarrow> virtio_input \<Rightarrow> ('d machine, virtio_input) state" where
  "detect_device_type b inp = do {
     let inp = inp\<lparr>is_keyboard := False, is_mouse := False\<rparr>;
     bits \<leftarrow> input_cfg_query b inp VIRTIO_INPUT_CFG_EV_BITS EV_KEY 32;
     let inp = (if length bits > 3 \<and> bits ! 3 AND push_bit 6 1 \<noteq> 0 then inp\<lparr>is_keyboard := True\<rparr> else inp);
     bits \<leftarrow> input_cfg_query b inp VIRTIO_INPUT_CFG_EV_BITS EV_REL 32;
     let inp = (if length bits > 0 \<and> bits ! 0 AND 0x03 \<noteq> 0 then inp\<lparr>is_mouse := True\<rparr> else inp);
     if \<not> is_mouse inp then do {
       bits \<leftarrow> input_cfg_query b inp VIRTIO_INPUT_CFG_EV_BITS EV_ABS 32;
       State_Monad.return (if length bits > 0 \<and> bits ! 0 AND 0x03 \<noteq> 0 then inp\<lparr>is_mouse := True\<rparr> else inp) }
     else State_Monad.return inp }"

section \<open>Search and initialisation\<close>

definition VIRTIO_PCI_DEVICE_INPUT_TRANSITIONAL :: u16 where "VIRTIO_PCI_DEVICE_INPUT_TRANSITIONAL = 0x1052"
definition VIRTIO_PCI_DEVICE_INPUT_MODERN :: u16 where "VIRTIO_PCI_DEVICE_INPUT_MODERN = 0x1052"

text \<open>
  The steps for a device that was found in a slot, on the next free entry: whether it is ready, and the entry. A step
  that fails leaves the entry as it is by then.
\<close>

definition start_input :: "'d bus \<Rightarrow> (nat \<Rightarrow> u64 \<times> u64 \<times> u64) \<Rightarrow> u64 \<times> u64 \<times> u64 \<Rightarrow> u8 \<Rightarrow> u16 \<Rightarrow> u16 \<Rightarrow> virtio_input \<Rightarrow> 'd machine
    \<Rightarrow> (bool \<times> virtio_input \<times> 'd machine) option" where
  "start_input b rings ptrs slot vendor device inp m = do {
     let p = (d_pci inp)\<lparr>bus := 0, dev := slot, func := 0, vendor_id := vendor, device_id := device\<rparr>;
     (p, m) \<leftarrow> run_opt (pci_assign_bars b p) m;
     let (p, m) = run_state (pci_enable_device b p) m;
     let inp = inp\<lparr>d_pci := p\<rparr>;
     (r, v, m) \<leftarrow> virtio_pci_parse_caps b p (d_vpci inp) m;
     let inp = inp\<lparr>d_vpci := v\<rparr>;
     if r < 0 then Some (False, inp, m)
     else do {
       (r, m) \<leftarrow> virtio_pci_init_device b v 0 0 m;
       if r < 0 then Some (False, inp, m)
       else do {
         ((r, vq), m) \<leftarrow> run_opt (virtio_pci_setup_queue b rings v ptrs (evtq inp) 0 64) m;
         let inp = inp\<lparr>evtq := vq\<rparr>;
         if r < 0 then Some (False, inp, m)
         else do {
           ((r, vq), m) \<leftarrow> run_opt (virtio_pci_setup_queue b rings v ptrs (stsq inp) 1 8) m;
           let inp = inp\<lparr>stsq := vq\<rparr>;
           if r < 0 then Some (False, inp, m)
           else do {
             let m = snd (run_state (virtio_pci_set_driver_ok b v) m);
             let (inp, m) = run_state (read_device_name b inp) m;
             let (inp, m) = run_state (detect_device_type b inp) m;
             Some (True, inp, m) } } } } }"

text \<open>The loop over the slots, \<open>n\<close> of them left; the result is the slot to go on with, or -1.\<close>

fun find_input_from :: "'d bus \<Rightarrow> (nat \<Rightarrow> u64 \<times> u64 \<times> u64) \<Rightarrow> u64 \<times> u64 \<times> u64 \<Rightarrow> u64 \<Rightarrow> nat \<Rightarrow> u8 \<Rightarrow> inputs \<Rightarrow> 'd machine
    \<Rightarrow> (int \<times> inputs \<times> 'd machine) option" where
  "find_input_from b rings ptrs g 0 slot s m = Some (-1, s, m)"
| "find_input_from b rings ptrs g (Suc n) slot s m =
     (let (vendor, m) = run_state (pci_config_read16 b 0 slot 0 PCI_VENDOR_ID) m
      in if vendor \<noteq> VIRTIO_PCI_VENDOR then find_input_from b rings ptrs g n (slot + 1) s m
         else
           let (device, m) = run_state (pci_config_read16 b 0 slot 0 PCI_DEVICE_ID) m;
               k = input_dev_count s
           in if device \<noteq> VIRTIO_PCI_DEVICE_INPUT_TRANSITIONAL \<and> device \<noteq> VIRTIO_PCI_DEVICE_INPUT_MODERN
              then find_input_from b rings ptrs g n (slot + 1) s m
              else if list_ex (\<lambda>d. dev (d_pci d) = slot) (take k (input_devs s))
              then find_input_from b rings ptrs g n (slot + 1) s m
              else Option.bind (start_input b rings ptrs slot vendor device (input_devs s ! k) m) (\<lambda>(ready, inp, m).
                let s = s\<lparr>input_devs := (input_devs s)[k := inp]\<rparr>
                in if \<not> ready then find_input_from b rings ptrs g n (slot + 1) s m
                   else Option.bind (fill_evt_queue g k s) (\<lambda>s.
                     let (a, q) = virtqueue_kick (evtq (input_devs s ! k));
                         m = snd (run_state (mmio_write16 b a q) m)
                     in Some (int (unat slot) + 1, s\<lparr>input_dev_count := Suc k\<rparr>, m))))"

definition find_and_init_input :: "'d bus \<Rightarrow> (nat \<Rightarrow> u64 \<times> u64 \<times> u64) \<Rightarrow> u64 \<times> u64 \<times> u64 \<Rightarrow> u64 \<Rightarrow> int \<Rightarrow> inputs \<Rightarrow> 'd machine
    \<Rightarrow> (int \<times> inputs \<times> 'd machine) option" where
  "find_and_init_input b rings ptrs g start_slot s m = find_input_from b rings ptrs g (nat (32 - start_slot)) (of_int start_slot) s m"

text \<open>The loop ends with the last free entry or the last slot; \<open>n\<close> are the free entries.\<close>

fun init_inputs :: "'d bus \<Rightarrow> (nat \<Rightarrow> u64 \<times> u64 \<times> u64) \<Rightarrow> u64 \<times> u64 \<times> u64 \<Rightarrow> u64 \<Rightarrow> nat \<Rightarrow> int \<Rightarrow> inputs \<Rightarrow> 'd machine
    \<Rightarrow> (inputs \<times> 'd machine) option" where
  "init_inputs b rings ptrs g 0 nxt s m = Some (s, m)"
| "init_inputs b rings ptrs g (Suc n) nxt s m =
     Option.bind (find_and_init_input b rings ptrs g nxt s m) (\<lambda>(nxt, s, m).
       if nxt < 0 then Some (s, m) else init_inputs b rings ptrs g n nxt s m)"

definition virtio_input_init_all :: "'d bus \<Rightarrow> (nat \<Rightarrow> u64 \<times> u64 \<times> u64) \<Rightarrow> u64 \<times> u64 \<times> u64 \<Rightarrow> u64 \<Rightarrow> inputs \<Rightarrow> 'd machine
    \<Rightarrow> (nat \<times> inputs \<times> 'd machine) option" where
  "virtio_input_init_all b rings ptrs g s m =
     map_option (\<lambda>(s, m). (input_dev_count s, s, m)) (init_inputs b rings ptrs g MAX_INPUT_DEVS 0 (s\<lparr>input_dev_count := 0\<rparr>) m)"

section \<open>Keys\<close>

definition key_names :: "(u16 \<times> string) list" where
  "key_names =
     [(1, ''Esc''), (2, ''1''), (3, ''2''), (4, ''3''), (5, ''4''), (6, ''5''), (7, ''6''), (8, ''7''),
      (9, ''8''), (10, ''9''), (11, ''0''), (12, ''-''), (13, ''=''), (14, ''Bksp''), (15, ''Tab''),
      (16, ''Q''), (17, ''W''), (18, ''E''), (19, ''R''), (20, ''T''), (21, ''Y''), (22, ''U''), (23, ''I''),
      (24, ''O''), (25, ''P''), (26, ''[''), (27, '']''), (28, ''Enter''), (29, ''LCtrl''), (30, ''A''),
      (31, ''S''), (32, ''D''), (33, ''F''), (34, ''G''), (35, ''H''), (36, ''J''), (37, ''K''), (38, ''L''),
      (39, '';''), (40, [CHR 0x27]), (41, [CHR 0x60]), (42, ''LShift''), (43, [CHR 0x5C]), (44, ''Z''),
      (45, ''X''), (46, ''C''), (47, ''V''), (48, ''B''), (49, ''N''), (50, ''M''), (51, '',''), (52, ''.''),
      (53, ''/''), (54, ''RShift''), (56, ''LAlt''), (57, ''Space''), (58, ''Caps''), (103, ''Up''),
      (108, ''Down''), (105, ''Left''), (106, ''Right'')]"

definition key_name :: "u16 \<Rightarrow> string" where
  "key_name code = (case map_of key_names code of Some n \<Rightarrow> n | None \<Rightarrow> ''?'')"

end
