(* ===== verification/InputSpec.thy ===== *)
theory InputSpec
  imports Input NetSpec
begin

text \<open>
  The input driver as a family of event queues: what devices report is taken in order, one event at a call, from the
  first device that has one, and no buffer is lost.
\<close>

section \<open>The pools\<close>

lemma event_sizes: "unat INPUT_EVENT_SIZE = 8" "INPUT_EVT_RING_SIZE = 64"
  by (simp_all add: INPUT_EVENT_SIZE_def INPUT_EVT_RING_SIZE_def)

lemma evt_buffers_apart:
  assumes "i < INPUT_EVT_RING_SIZE" "j < INPUT_EVT_RING_SIZE" "k < MAX_INPUT_DEVS" "k' < MAX_INPUT_DEVS" "(k, i) \<noteq> (k', j)"
  shows "region (evt_buffer g k i) (unat INPUT_EVENT_SIZE) \<inter> region (evt_buffer g k' j) (unat INPUT_EVENT_SIZE) = {}"
proof -
  have b: "i < 64" "j < 64" "k < 4" "k' < 4" using assms by (simp_all add: event_sizes MAX_INPUT_DEVS_def)
  have "k * 64 + i \<noteq> k' * 64 + j"
  proof
    assume e: "k * 64 + i = k' * 64 + j"
    then have "(k * 64 + i) div 64 = (k' * 64 + j) div 64" "(k * 64 + i) mod 64 = (k' * 64 + j) mod 64" by simp_all
    then show False using b assms(5) by simp
  qed
  then have "(k * 64 + i) * 8 + 8 \<le> (k' * 64 + j) * 8 \<or> (k' * 64 + j) * 8 + 8 \<le> (k * 64 + i) * 8"
    by (cases "k * 64 + i < k' * 64 + j") simp_all
  moreover have "(k * 64 + i) * 8 + 8 \<le> 2 ^ 32" "(k' * 64 + j) * 8 + 8 \<le> 2 ^ 32" using b by simp_all
  ultimately show ?thesis
    using region_apart [of "(k * 64 + i) * 8" 8 "(k' * 64 + j) * 8" 8 g] region_apart [of "(k' * 64 + j) * 8" 8 "(k * 64 + i) * 8" 8 g]
    by (auto simp: evt_buffer_def event_sizes)
qed

interpretation ev: receive_pool "evt_buffer g (k mod MAX_INPUT_DEVS)" INPUT_EVENT_SIZE INPUT_EVT_RING_SIZE for g k
  by unfold_locales (rule evt_buffers_apart; simp add: MAX_INPUT_DEVS_def)

text \<open>Every device has a pool of 64 buffers; \<open>hs i\<close> are the chains of device \<open>i\<close>, \<open>ds i\<close> those it has reported.\<close>

definition input_inv :: "u64 \<Rightarrow> (nat \<Rightarrow> nat set) \<Rightarrow> (nat \<Rightarrow> nat list) \<Rightarrow> inputs \<Rightarrow> bool" where
  "input_inv g hs ds s \<longleftrightarrow> length (input_devs s) = MAX_INPUT_DEVS \<and> length (desc_to_evt s) = MAX_INPUT_DEVS \<and> input_dev_count s \<le> MAX_INPUT_DEVS
     \<and> (\<forall>i < input_dev_count s. pool_inv (evt_buffer g i) INPUT_EVENT_SIZE INPUT_EVT_RING_SIZE (hs i) (ds i) (evt_pool s i))"

definition waiting :: "u64 \<Rightarrow> (nat \<Rightarrow> nat list) \<Rightarrow> inputs \<Rightarrow> nat \<Rightarrow> u8 list list" where
  "waiting g ds s i = messages (evt_buffer g i) (in_mem s) (ds i) (evt_pool s i)"

lemma evt_pool_set [simp]:
  assumes "length (input_devs s) = MAX_INPUT_DEVS" "length (desc_to_evt s) = MAX_INPUT_DEVS" "i < MAX_INPUT_DEVS"
  shows "evt_pool (set_evt_pool i p s) j = (if j = i then p else evt_pool s j)"
  using assms by (simp add: evt_pool_def set_evt_pool_def)

lemma set_evt_pool_simps [simp]:
  "length (input_devs (set_evt_pool i p s)) = length (input_devs s)" "length (desc_to_evt (set_evt_pool i p s)) = length (desc_to_evt s)"
  "input_dev_count (set_evt_pool i p s) = input_dev_count s" "in_mem (set_evt_pool i p s) = in_mem s"
  "set_evt_pool i (evt_pool s i) s = s"
  by (simp_all add: set_evt_pool_def evt_pool_def)

lemma set_evt_pool_twice [simp]: "set_evt_pool i p (set_evt_pool i p' s) = set_evt_pool i p s"
  by (cases "i < length (input_devs s)") (simp_all add: set_evt_pool_def list_update_beyond)

lemma kick_evtq_simps [simp]:
  "evt_pool (kick_evtq i s) = evt_pool s" "input_devs (kick_evtq i s) = input_devs s" "desc_to_evt (kick_evtq i s) = desc_to_evt s"
  "input_dev_count (kick_evtq i s) = input_dev_count s" "in_mem (kick_evtq i s) = in_mem s"
  by (simp_all add: kick_evtq_def evt_pool_def fun_eq_iff)

section \<open>Taking an event\<close>

text \<open>The specification: the first message of the first device that has one; messages that are too short are dropped.\<close>

fun take_event :: "u8 list list list \<Rightarrow> u8 list option \<times> u8 list list list" where
  "take_event [] = (None, [])"
| "take_event ([] # qs) = (case take_event qs of (e, qs) \<Rightarrow> (e, [] # qs))"
| "take_event ((msg # ms) # qs) = (if 8 \<le> length msg then (Some msg, ms # qs) else case take_event qs of (e, qs) \<Rightarrow> (e, ms # qs))"

definition event_of :: "u8 list \<Rightarrow> virtio_input_event" where
  "event_of msg = read_event (\<lambda>x. msg ! unat x) 0"

lemma load_le_move:
  assumes "\<And>i. i < n \<Longrightarrow> m (a + of_nat i) = m' (a' + of_nat i)"
  shows "load_le n m a = load_le n m' a'"
  by (rule bit_eqI) (use assms in \<open>simp add: bit_load_le less_mult_imp_div_less mult.commute cong: conj_cong\<close>)

lemma read_event_message: "read_event m (addr (slot_of p ! h)) = event_of (message addr m p h 8)"
proof -
  have b: "m (addr (slot_of p ! h) + of_nat k) = message addr m p h 8 ! unat (of_nat k :: u64)" if "k < 8" for k
    using that by (simp add: message_def unat_of_nat_small)
  have "load_le n m (addr (slot_of p ! h) + of_nat k) = load_le n (\<lambda>x. message addr m p h 8 ! unat x) (0 + of_nat k)" if "n + k \<le> 8" for n k
  proof (rule load_le_move)
    fix i assume "i < n"
    then show "m (addr (slot_of p ! h) + of_nat k + of_nat i) = message addr m p h 8 ! unat (0 + of_nat k + of_nat i :: u64)"
      using b [of "k + i"] that by (simp add: add.assoc)
  qed
  from this [of 2 0] this [of 2 2] this [of 4 4] show ?thesis by (simp add: read_event_def event_of_def)
qed

text \<open>One device: its first message is taken and the buffer given back.\<close>

lemma device_step:
  assumes inv: "input_inv g hs ds s" and i: "i < input_dev_count s" and ds: "ds i = h # d"
  defines "s1 \<equiv> \<lambda>vq. set_evt_pool i ((evt_pool s i)\<lparr>pq := vq\<rparr>) s"
  shows "\<exists>vq l s2 msg. virtqueue_get_used (evtq (input_devs s ! i)) = Some (Some (of_nat h, l), vq) \<and> unat (of_nat h :: u16) = h
     \<and> h < length (desc_to_evt (s1 vq) ! i) \<and> post_evt_buffer g i (desc_to_evt (s1 vq) ! i ! h) (s1 vq) = Some s2
     \<and> input_inv g hs (ds(i := d)) s2 \<and> input_dev_count s2 = input_dev_count s \<and> in_mem s2 = in_mem s \<and> (\<forall>j. j \<noteq> i \<longrightarrow> evt_pool s2 j = evt_pool s j)
     \<and> waiting g ds s i = msg # waiting g (ds(i := d)) s2 i \<and> length msg = unat l \<and> unat l \<le> 8
     \<and> (length msg = 8 \<longrightarrow> read_event (in_mem (s1 vq)) (evt_buffer g i (desc_to_evt (s1 vq) ! i ! h)) = event_of msg)"
proof -
  let ?a = "evt_buffer g i" and ?p = "evt_pool s i"
  have im: "i < MAX_INPUT_DEVS" "length (input_devs s) = MAX_INPUT_DEVS" "length (desc_to_evt s) = MAX_INPUT_DEVS"
    and pi: "pool_inv ?a INPUT_EVENT_SIZE INPUT_EVT_RING_SIZE (hs i) (h # d) ?p"
    using inv i ds by (auto simp: input_inv_def)
  obtain vq l p' where t: "virtqueue_get_used (pq ?p) = Some (Some (of_nat h, l), vq)" "unat (of_nat h :: u16) = h" "h < VIRTQ_MAX_SIZE"
    "l = snd (used_ring (pq ?p) ! ring_slot (pq ?p) 0)" "unat l \<le> unat INPUT_EVENT_SIZE"
    "post_buffer ?a INPUT_EVENT_SIZE (slot_of ?p ! h) (?p\<lparr>pq := vq\<rparr>) = Some p'" "pool_inv ?a INPUT_EVENT_SIZE INPUT_EVT_RING_SIZE (hs i) d p'"
    "slot_of p' = slot_of ?p" "\<forall>j < length d. used_ring (pq p') ! ring_slot (pq p') j = used_ring (pq ?p) ! ring_slot (pq ?p) (Suc j)"
    using pool_take [OF pi] by (elim exE conjE) (rule that)
  have len: "length (slot_of ?p) = VIRTQ_MAX_SIZE" using pi by (auto elim: pool_invE)
  have s1: "evt_pool (s1 vq) i = ?p\<lparr>pq := vq\<rparr>" "desc_to_evt (s1 vq) ! i = slot_of ?p" "in_mem (s1 vq) = in_mem s"
    using im by (simp_all add: s1_def) (simp add: set_evt_pool_def evt_pool_def)
  let ?s2 = "set_evt_pool i p' s" and ?msg = "message ?a (in_mem s) ?p h (unat l)"
  have "post_evt_buffer g i (slot_of ?p ! h) (s1 vq) = Some ?s2" using t(6) by (simp add: post_evt_buffer_def s1(1)) (simp add: s1_def)
  moreover have "input_inv g hs (ds(i := d)) ?s2" using inv im t(7) by (auto simp: input_inv_def)
  moreover have "waiting g ds s i = ?msg # waiting g (ds(i := d)) ?s2 i"
    using ev.messages_take [of g i "hs i" h d ?p p' "in_mem s"] pi t(4,8,9) im by (simp add: waiting_def ds)
  moreover have "unat l = 8 \<longrightarrow> read_event (in_mem s) (?a (slot_of ?p ! h)) = event_of ?msg" using read_event_message [of "in_mem s" ?a ?p h] by simp
  moreover have "length ?msg = unat l" by (simp add: message_def)
  moreover have "evt_pool ?s2 j = evt_pool s j" if "j \<noteq> i" for j using im that by simp
  moreover have "pq ?p = evtq (input_devs s ! i)" by (simp add: evt_pool_def)
  ultimately show ?thesis using t(1,2,3,5) len s1(2,3)
    by (intro exI [of _ vq] exI [of _ l] exI [of _ ?s2] exI [of _ ?msg]) (simp add: event_sizes)
qed

lemma poll_from_ok:
  assumes "input_inv g hs ds s" "i + n = input_dev_count s"
  shows "\<exists>e s' ds'. poll_from g n i s = Some (map_option event_of e, s') \<and> input_inv g hs ds' s' \<and> input_dev_count s' = input_dev_count s
     \<and> in_mem s' = in_mem s \<and> (\<forall>j < i. evt_pool s' j = evt_pool s j \<and> ds' j = ds j)
     \<and> take_event (map (waiting g ds s) [i..<i + n]) = (e, map (waiting g ds' s') [i..<i + n])"
  using assms
proof (induction n arbitrary: i s ds)
  case 0
  then show ?case by (intro exI [of _ None] exI [of _ s] exI [of _ ds]) simp
next
  case (Suc n)
  have i: "i < input_dev_count s" "Suc i + n = input_dev_count s" using Suc.prems(2) by simp_all
  have upt: "[i..<Suc (i + n)] = i # [Suc i..<Suc (i + n)]" by (simp add: upt_conv_Cons)
  show ?case
  proof (cases "ds i")
    case Nil
    have "pool_inv (evt_buffer g i) INPUT_EVENT_SIZE INPUT_EVT_RING_SIZE (hs i) [] (evt_pool s i)"
      using Suc.prems(1) i(1) Nil unfolding input_inv_def by metis
    from pool_empty [OF this] have "virtqueue_get_used (evtq (input_devs s ! i)) = Some (None, pq (evt_pool s i))"
      by (simp add: evt_pool_def)
    then have step: "poll_from g (Suc n) i s = poll_from g n (Suc i) s" by simp
    obtain e s' ds' where r: "poll_from g n (Suc i) s = Some (map_option event_of e, s')" "input_inv g hs ds' s'" "input_dev_count s' = input_dev_count s"
      "in_mem s' = in_mem s" "\<forall>j < Suc i. evt_pool s' j = evt_pool s j \<and> ds' j = ds j"
      "take_event (map (waiting g ds s) [Suc i..<Suc i + n]) = (e, map (waiting g ds' s') [Suc i..<Suc i + n])"
      using Suc.IH [OF Suc.prems(1) i(2)] by blast
    have "waiting g ds s i = []" "waiting g ds' s' i = []" using Nil r(5) by (simp_all add: waiting_def messages_def)
    then show ?thesis using r by (intro exI [of _ e] exI [of _ s'] exI [of _ ds']) (simp add: step upt del: upt_Suc poll_from.simps)
  next
    case (Cons h d)
    obtain vq l s2 msg where t: "virtqueue_get_used (evtq (input_devs s ! i)) = Some (Some (of_nat h, l), vq)" "unat (of_nat h :: u16) = h"
      "h < length (desc_to_evt (set_evt_pool i ((evt_pool s i)\<lparr>pq := vq\<rparr>) s) ! i)"
      "post_evt_buffer g i (desc_to_evt (set_evt_pool i ((evt_pool s i)\<lparr>pq := vq\<rparr>) s) ! i ! h) (set_evt_pool i ((evt_pool s i)\<lparr>pq := vq\<rparr>) s) = Some s2"
      "input_inv g hs (ds(i := d)) s2" "input_dev_count s2 = input_dev_count s" "in_mem s2 = in_mem s" "\<forall>j. j \<noteq> i \<longrightarrow> evt_pool s2 j = evt_pool s j"
      "waiting g ds s i = msg # waiting g (ds(i := d)) s2 i" "length msg = unat l" "unat l \<le> 8"
      "length msg = 8 \<longrightarrow> read_event (in_mem (set_evt_pool i ((evt_pool s i)\<lparr>pq := vq\<rparr>) s))
         (evt_buffer g i (desc_to_evt (set_evt_pool i ((evt_pool s i)\<lparr>pq := vq\<rparr>) s) ! i ! h)) = event_of msg"
      using device_step [OF Suc.prems(1) i(1) Cons] by (elim exE conjE) (rule that)
    let ?s = "kick_evtq i s2" and ?ds = "ds(i := d)"
    have inv: "input_inv g hs ?ds ?s" using t(5) by (simp add: input_inv_def)
    have w: "waiting g ?ds ?s j = (if j = i then waiting g ?ds s2 i else waiting g ds s j)" for j
      using t(7,8) by (simp add: waiting_def)
    have rest: "map (waiting g ?ds ?s) [Suc i..<Suc i + n] = map (waiting g ds s) [Suc i..<Suc i + n]" by (rule map_cong) (auto simp: w)
    show ?thesis
    proof (cases "length msg = 8")
      case True
      then have "l \<ge> INPUT_EVENT_SIZE" using t(10) by (simp add: word_le_nat_alt event_sizes)
      then have "poll_from g (Suc n) i s = Some (Some (event_of msg), ?s)" using t(1-4,12) True by (simp add: Let_def)
      then show ?thesis using inv t(6-9) True rest w [of i]
        by (intro exI [of _ "Some msg"] exI [of _ ?s] exI [of _ ?ds]) (simp add: upt fun_upd_def del: upt_Suc poll_from.simps)
    next
      case False
      then have "\<not> l \<ge> INPUT_EVENT_SIZE" using t(10,11) by (simp add: word_le_nat_alt event_sizes)
      then have step: "poll_from g (Suc n) i s = poll_from g n (Suc i) ?s" using t(1-4) by (simp add: Let_def)
      have c: "Suc i + n = input_dev_count ?s" using i(2) t(6) by simp
      obtain e s' ds' where r: "poll_from g n (Suc i) ?s = Some (map_option event_of e, s')" "input_inv g hs ds' s'" "input_dev_count s' = input_dev_count ?s"
        "in_mem s' = in_mem ?s" "\<forall>j < Suc i. evt_pool s' j = evt_pool ?s j \<and> ds' j = ?ds j"
        "take_event (map (waiting g ?ds ?s) [Suc i..<Suc i + n]) = (e, map (waiting g ds' s') [Suc i..<Suc i + n])"
        using Suc.IH [OF inv c] by blast
      have "waiting g ds' s' i = waiting g ?ds s2 i" using r(4,5) by (simp add: waiting_def)
      then have "take_event (map (waiting g ds s) [i..<i + Suc n]) = (e, map (waiting g ds' s') [i..<i + Suc n])"
        using r(6) [unfolded rest] t(9-11) False by (simp add: upt del: upt_Suc)
      then show ?thesis using r(1-5) t(6-8) by (intro exI [of _ e] exI [of _ s'] exI [of _ ds']) (simp add: step del: upt_Suc poll_from.simps)
    qed
  qed
qed

text \<open>
  C40: a poll is the specification \<open>take_event\<close> on the queues of waiting messages: the event is the first message of
  the first device that has one, it leaves its queue, and so do messages too short for an event that
  are met on the way. No buffer is lost.
\<close>

theorem input_poll_refines:
  assumes "input_inv g hs ds s"
  defines "queues \<equiv> \<lambda>ds s. map (waiting g ds s) [0..<input_dev_count s]"
  shows "\<exists>e s' ds'. virtio_input_poll g s = Some (map_option event_of e, s') \<and> input_inv g hs ds' s'
     \<and> take_event (queues ds s) = (e, queues ds' s')"
proof -
  obtain e s' ds' where "poll_from g (input_dev_count s) 0 s = Some (map_option event_of e, s')" "input_inv g hs ds' s'"
    "input_dev_count s' = input_dev_count s" "take_event (queues ds s) = (e, map (waiting g ds' s') [0..<input_dev_count s])"
    using poll_from_ok [OF assms(1), of 0 "input_dev_count s"] by (auto simp: queues_def)
  then show ?thesis by (intro exI [of _ e] exI [of _ s'] exI [of _ ds']) (simp add: virtio_input_poll_def queues_def)
qed

section \<open>Arrival\<close>

text \<open>The device \<open>i\<close> writes a message to a buffer it holds and reports it: the message joins its queue, the others stay.\<close>

lemma event_arrives:
  assumes inv: "input_inv g hs ds s" and i: "i < input_dev_count s" and h: "h \<in> hs i" "h \<notin> set (ds i)" and bs: "length bs \<le> 8"
    and f: "device_fill (evt_buffer g i) h bs (evt_pool s i) (in_mem s) = (p, m)"
  defines "s' \<equiv> (set_evt_pool i p s)\<lparr>in_mem := m\<rparr>" and "ds' \<equiv> ds(i := ds i @ [h])"
  shows "input_inv g hs ds' s'" "j < input_dev_count s \<Longrightarrow> waiting g ds' s' j = waiting g ds s j @ (if j = i then [bs] else [])"
proof -
  have im: "i < MAX_INPUT_DEVS" "length (input_devs s) = MAX_INPUT_DEVS" "length (desc_to_evt s) = MAX_INPUT_DEVS" "input_dev_count s \<le> MAX_INPUT_DEVS"
    and pi: "\<And>j. j < input_dev_count s \<Longrightarrow> pool_inv (evt_buffer g j) INPUT_EVENT_SIZE INPUT_EVT_RING_SIZE (hs j) (ds j) (evt_pool s j)"
    using inv i by (auto simp: input_inv_def)
  have e: "evt_pool s' j = (if j = i then p else evt_pool s j)" for j using im by (simp add: s'_def evt_pool_def set_evt_pool_def)
  have le: "length bs \<le> unat INPUT_EVENT_SIZE" using bs by (simp add: event_sizes)
  have mod: "j mod MAX_INPUT_DEVS = j" if "j < input_dev_count s" for j using that im(4) by simp
  note F = ev.fill_ok [of g i, unfolded mod [OF i], OF pi [OF i] h le f]
  show "input_inv g hs ds' s'" using inv F(1) e by (auto simp: input_inv_def s'_def ds'_def)
  have out: "m x = in_mem s x" if x: "x \<notin> region (evt_buffer g i (slot_of (evt_pool s i) ! h)) (unat INPUT_EVENT_SIZE)" for x
    using f x le by (auto simp: device_fill_def region_def Let_def)
  have sl: "slot_of (evt_pool s i) ! h < INPUT_EVT_RING_SIZE" by (rule pool_slot_less [OF pi [OF i] h(1)])
  show "waiting g ds' s' j = waiting g ds s j @ (if j = i then [bs] else [])" if j: "j < input_dev_count s"
  proof (cases "j = i")
    case True
    then show ?thesis using F(2) e by (simp add: waiting_def s'_def ds'_def)
  next
    case False
    have "m x = in_mem s x" if "k < INPUT_EVT_RING_SIZE" "x \<in> region (evt_buffer g j k) (unat INPUT_EVENT_SIZE)" for k x
      using evt_buffers_apart [OF that(1) sl, of j i g] that(2) out False j i im(4) by auto
    from ev.messages_outside [of g j, unfolded mod [OF j], OF pi [OF j] this] show ?thesis using e False by (simp add: waiting_def s'_def ds'_def)
  qed
qed

text \<open>A device that was just initialised holds all its buffers.\<close>

lemma fill_evt_queue_ok:
  assumes vq: "vq_inv [0..<unat (num (evtq (input_devs s ! i)))] {} [] (evtq (input_devs s ! i))"
    and n: "INPUT_EVT_RING_SIZE \<le> unat (num (evtq (input_devs s ! i)))" and t: "length (desc_to_evt s ! i) = VIRTQ_MAX_SIZE"
  shows "\<exists>p. fill_evt_queue g i s = Some (kick_evtq i (set_evt_pool i p s))
     \<and> pool_inv (evt_buffer g i) INPUT_EVENT_SIZE INPUT_EVT_RING_SIZE {..<INPUT_EVT_RING_SIZE} [] p"
proof -
  have i: "vq_inv [0..<unat (num (evtq (input_devs s ! i)))] {} [] (pq (evt_pool s i))" "length (slot_of (evt_pool s i)) = VIRTQ_MAX_SIZE"
    "INPUT_EVT_RING_SIZE \<le> length [0..<unat (num (evtq (input_devs s ! i)))]" using vq n t by (simp_all add: evt_pool_def)
  have tk: "set (take INPUT_EVT_RING_SIZE [0..<unat (num (evtq (input_devs s ! i)))]) = {..<INPUT_EVT_RING_SIZE}" using n by (auto simp: take_upt)
  obtain p where "post_from (evt_buffer g i) INPUT_EVENT_SIZE INPUT_EVT_RING_SIZE 0 (evt_pool s i) = Some p"
    "pool_inv (evt_buffer g i) INPUT_EVENT_SIZE (0 + INPUT_EVT_RING_SIZE) {..<INPUT_EVT_RING_SIZE} [] p"
    using post_from_ok [OF i(1,3,2), of "evt_buffer g i" INPUT_EVENT_SIZE 0, unfolded tk] by (auto simp: posted_def bij_betw_def)
  then show ?thesis using n by (intro exI [of _ p]) (simp add: fill_evt_queue_def Let_def)
qed

text \<open>One keyboard whose queue was just filled, and the key \<open>A\<close> goes down.\<close>

definition demo_key :: "u8 list" where
  "demo_key = [1, 0, 30, 0, 1, 0, 0, 0]"

theorem input_poll_refines_witness:
  "\<exists>s s' s''. virtio_input_poll 0xFFFFFF8040210000 s = Some (Some \<lparr>ev_type = 1, ev_code = 30, ev_value = 1\<rparr>, s')
     \<and> virtio_input_poll 0xFFFFFF8040210000 s' = Some (None, s'')"
proof -
  let ?g = "0xFFFFFF8040210000 :: u64" and ?ds = "\<lambda>_ :: nat. [] :: nat list" and ?hs = "\<lambda>_ :: nat. {..<INPUT_EVT_RING_SIZE}"
  have h: "(0 :: nat) < VIRTQ_MAX_QUEUES" "(64 :: u16) \<noteq> 0" "unat (64 :: u16) dvd 65536" by (simp_all add: VIRTQ_MAX_QUEUES_def)
  obtain vq where v: "num vq = 64" "vq_inv [0..<unat (num vq)] {} [] vq"
    using virtqueue_init_inv [OF h, of 0 0 undefined] by auto
  let ?s0 = "\<lparr>input_devs = replicate MAX_INPUT_DEVS ((undefined :: virtio_input)\<lparr>evtq := vq\<rparr>), input_dev_count = 1,
    desc_to_evt = replicate MAX_INPUT_DEVS (replicate VIRTQ_MAX_SIZE 0), in_mem = \<lambda>_. 0, in_kicks = []\<rparr>"
  have l: "length (input_devs ?s0) = MAX_INPUT_DEVS" "length (desc_to_evt ?s0) = MAX_INPUT_DEVS" "0 < MAX_INPUT_DEVS" by (simp_all add: MAX_INPUT_DEVS_def)
  obtain p where p: "fill_evt_queue ?g 0 ?s0 = Some (kick_evtq 0 (set_evt_pool 0 p ?s0))" "pool_inv (evt_buffer ?g 0) INPUT_EVENT_SIZE INPUT_EVT_RING_SIZE {..<INPUT_EVT_RING_SIZE} [] p"
    using fill_evt_queue_ok [of ?s0 0 ?g] v l by (auto simp: INPUT_EVT_RING_SIZE_def)
  let ?s1 = "kick_evtq 0 (set_evt_pool 0 p ?s0)"
  have i1: "input_inv ?g ?hs ?ds ?s1" using p(2) l by (simp add: input_inv_def)
  have w1: "waiting ?g ?ds ?s1 0 = []" by (simp add: waiting_def messages_def)
  obtain p' m where f: "device_fill (evt_buffer ?g 0) 0 demo_key (evt_pool ?s1 0) (in_mem ?s1) = (p', m)" by (metis surj_pair)
  let ?s2 = "(set_evt_pool 0 p' ?s1)\<lparr>in_mem := m\<rparr>"
  have c: "input_dev_count ?s1 = 1" "input_dev_count ?s2 = 1" by simp_all
  have a: "0 < input_dev_count ?s1" "0 \<in> ?hs 0" "0 \<notin> set (?ds 0)" "length demo_key \<le> 8" by (simp_all add: c demo_key_def INPUT_EVT_RING_SIZE_def)
  note i2 = event_arrives [OF i1 a f]
  have q: "map (waiting ?g (?ds(0 := ?ds 0 @ [0])) ?s2) [0..<input_dev_count ?s2] = [[demo_key]]" using i2(2) [OF a(1)] w1 by (simp add: c)
  obtain e s3 ds3 where s3: "virtio_input_poll ?g ?s2 = Some (map_option event_of e, s3)" "input_inv ?g ?hs ds3 s3"
    "take_event (map (waiting ?g (?ds(0 := ?ds 0 @ [0])) ?s2) [0..<input_dev_count ?s2]) = (e, map (waiting ?g ds3 s3) [0..<input_dev_count s3])"
    using input_poll_refines [OF i2(1)] by (elim exE conjE) (rule that)
  have e: "e = Some demo_key" "map (waiting ?g ds3 s3) [0..<input_dev_count s3] = [[]]"
    using s3(3) unfolding q by (simp_all add: demo_key_def)
  obtain e4 s4 where s4: "virtio_input_poll ?g s3 = Some (map_option event_of e4, s4)"
    "fst (take_event (map (waiting ?g ds3 s3) [0..<input_dev_count s3])) = e4"
    using input_poll_refines [OF s3(2)] by auto
  have "event_of demo_key = \<lparr>ev_type = 1, ev_code = 30, ev_value = 1\<rparr>"
    by (simp add: event_of_def demo_key_def read_event_def load_le_def upt_rec)
  then show ?thesis using s3(1) s4 by (intro exI [of _ ?s2] exI [of _ s3] exI [of _ s4]) (simp add: e)
qed

end
