(* ===== verification/Boot.thy ===== *)
theory Boot
  imports KernelSpec Kmalloc Drivers
begin

text \<open>
  The way from power-on to the first process, \<^verbatim>\<open>kernel_main\<close> of \<^verbatim>\<open>src/main.c\<close>: the page allocator and the heap, their
  self test, the disk, the scheduler, and the shell that is loaded from the disk. What the kernel prints is left out.
\<close>

section \<open>Memory\<close>

text \<open>\<open>kernel_end\<close> is the address behind the kernel image that the linker gives.\<close>

definition memory_init :: "u64 \<Rightarrow> heap option" where
  "memory_init kernel_end = Option.bind (pmm_init (virt_to_phys kernel_end + 4 * 4096)) kmalloc_init"

text \<open>The result is whether the three addresses are kernel addresses.\<close>

definition verify_high_va :: "u64 \<Rightarrow> u64 \<Rightarrow> u64 \<Rightarrow> heap \<Rightarrow> (bool \<times> heap) option" where
  "verify_high_va fn_addr sp static_data s = do {
     (heap_ptr, s) \<leftarrow> kmalloc 16 s;
     s \<leftarrow> kfree heap_ptr s;
     let ok = True;
     let ok = (if fn_addr < KERN_VA_OFFSET then False else ok);
     let ok = (if sp < KERN_VA_OFFSET then False else ok);
     let ok = (if static_data < KERN_VA_OFFSET then False else ok);
     Some (ok, s) }"

text \<open>The page half of the self test.\<close>

definition demo_pages :: "pmm \<Rightarrow> pmm" where
  "demo_pages pm =
     (let (p1, pm) = pmm_alloc_page pm;
          (p2, pm) = pmm_alloc_page pm;
          (p3, pm) = pmm_alloc_page pm;
          (p4, pm) = pmm_alloc_page pm;
          pm = pmm_free_page p2 pm;
          pm = pmm_free_page p3 pm;
          (contig, pm) = pmm_alloc_pages 8 pm;
          pm = pmm_free_pages contig 8 pm;
          pm = pmm_free_page p1 pm
      in pmm_free_page p4 pm)"

text \<open>
  The whole test; the results are those of the zero check and of the write and read check. The headers of the heap are in
  the map of \<open>Kmalloc\<close> and not in the bytes \<open>m\<close>: the checks see the stores of the test and of \<open>kzalloc\<close>, but not a block
  that would lie over another one or over a header; that there is none is what the theorems of \<open>Kmalloc\<close> show.
\<close>

definition demo_memory :: "heap \<Rightarrow> memory \<Rightarrow> (bool \<times> bool \<times> heap \<times> memory) option" where
  "demo_memory s m = do {
     let s = s\<lparr>hpmm := demo_pages (hpmm s)\<rparr>;
     (a, s) \<leftarrow> kmalloc 128 s;
     (b, s) \<leftarrow> kmalloc 4096 s;
     (c, s, m) \<leftarrow> kzalloc 256 s m;
     let zero_ok = list_all (\<lambda>i. m (c + of_nat i) = 0) [0..<256];
     let m = fill_bytes 0 128 a of_nat m;
     let rw_ok = list_all (\<lambda>i. m (a + of_nat i) = of_nat i) [0..<128];
     s \<leftarrow> kfree b s;
     s \<leftarrow> kfree a s;
     s \<leftarrow> kfree c s;
     Some (zero_ok, rw_ok, s, m) }"

section \<open>The first process\<close>

text \<open>The heap and the kernel state share the page allocator.\<close>

definition with_heap :: "heap \<Rightarrow> kernel \<Rightarrow> kernel" where
  "with_heap s k = k\<lparr>kmm := (kmm k)\<lparr>kpmm := hpmm s\<rparr>\<rparr>"

definition heap_with :: "kernel \<Rightarrow> heap \<Rightarrow> heap" where
  "heap_with k s = s\<lparr>hpmm := kpmm (kmm k)\<rparr>"

definition shell_bin :: "u8 list" where
  "shell_bin = [0x73, 0x68, 0x65, 0x6C, 0x6C, 0x2E, 0x62, 0x69, 0x6E]"

definition shell_name :: "u8 list" where
  "shell_name = [0x73, 0x68, 0x65, 0x6C, 0x6C]"

text \<open>\<open>Started\<close> has the number of bytes that were read and the result of \<open>sched_create_user\<close>.\<close>

datatype loading = Not_found | No_memory | Unreadable | Started int int

definition load_shell :: "image \<Rightarrow> disk \<Rightarrow> fat16_fs \<Rightarrow> heap \<Rightarrow> kernel \<Rightarrow> (loading \<times> heap \<times> kernel) option" where
  "load_shell im blk fs s k =
     (case fat16_open blk fs shell_bin of
        None \<Rightarrow> Some (Not_found, s, k)
      | Some f \<Rightarrow> do {
          (code, s) \<leftarrow> kmalloc (ucast (ff_file_size f)) s;
          let k = with_heap s k;
          if code = 0 then Some (No_memory, s, k)
          else do {
            (bytes, buf) \<leftarrow> fat16_read_file blk fs f (\<lambda>i. kbytes (kmm k) (code + ucast i)) (ff_file_size f);
            let k = set_bytes (fill_bytes 0 (unat (ff_file_size f)) code (\<lambda>i. buf (of_nat i))) k;
            if bytes \<le> 0 then do { s \<leftarrow> kfree code s; Some (Unreadable, s, k) }
            else do {
              (t, k) \<leftarrow> sched_create_user im shell_name code (of_int bytes) k;
              s \<leftarrow> kfree code (heap_with k s);
              Some (Started bytes t, s, k) } } })"

text \<open>
  How much memory \<open>fat16_mount\<close> asks the heap for, 0 if it fails before; the cache is the list
  \<open>fat_table\<close>, its bytes are not kept in the memory of the kernel state.
\<close>

definition fat_cache :: "disk \<Rightarrow> u32" where
  "fat_cache blk =
     (case blk 0 of
        None \<Rightarrow> 0
      | Some b \<Rightarrow> if b ! 510 \<noteq> 0x55 \<or> b ! 511 \<noteq> 0xAA \<or> bytes_per_sector (parse_bpb b) \<noteq> 512 then 0
          else ucast (fat_size_16 (parse_bpb b)) * 512)"

definition mount_root :: "disk \<Rightarrow> heap \<Rightarrow> (fat16_fs option \<times> heap) option" where
  "mount_root blk s =
     map_option (\<lambda>(p, s). (fat16_mount blk (\<lambda>_. p \<noteq> 0), s)) (kmalloc (ucast (fat_cache blk)) s)"

definition list_callback :: "u8 list \<Rightarrow> u32 \<Rightarrow> uart \<Rightarrow> uart" where
  "list_callback fname sz u =
     uart_puts [0x20, 0x62, 0x79, 0x74, 0x65, 0x73, 0x29, 0x0A] (uart_putdec (ucast sz)
       (uart_puts [0x20, 0x28] (uart_puts fname (uart_puts [0x20, 0x20] u))))"

text \<open>\<open>Shell\<close> has what is listed of the root directory and how loading went.\<close>

datatype booting = No_disk | No_file_system | Shell "(u8 list \<times> u32) list" loading

definition demo_filesystem :: "image \<Rightarrow> 'd bus \<Rightarrow> (nat \<Rightarrow> u64 \<times> u64 \<times> u64) \<Rightarrow> u64 \<times> u64 \<times> u64 \<Rightarrow> disk \<Rightarrow> blk_dev \<Rightarrow> 'd machine \<Rightarrow> heap \<Rightarrow> kernel
    \<Rightarrow> (booting \<times> heap \<times> kernel \<times> blk_dev \<times> 'd machine) option" where
  "demo_filesystem im b rings ptrs blk d m s k = do {
     (r, d, m) \<leftarrow> virtio_blk_init b rings ptrs d m;
     if r < 0 then Some (No_disk, s, k, d, m)
     else do {
       (fs, s) \<leftarrow> mount_root blk s;
       case fs of
         None \<Rightarrow> Some (No_file_system, s, with_heap s k, d, m)
       | Some fs \<Rightarrow> do {
           let files = fst (fat16_list_root blk fs);
           let k = sched_init (with_heap s k);
           (r, s, k) \<leftarrow> load_shell im blk fs s k;
           Some (Shell files r, s, k, d, m) } } }"

text \<open>What the kernel's first task does from then on: give the processor away while another task is alive.\<close>

definition any_alive :: "kernel \<Rightarrow> bool" where
  "any_alive k = list_ex (\<lambda>i. case sched_get_task (int i) k of
     None \<Rightarrow> False
   | Some t \<Rightarrow> tstate (task_at k t) \<noteq> TASK_FINISHED \<and> tstate (task_at k t) \<noteq> TASK_UNUSED) [1..<sched_task_count k]"

definition idle_step :: "image \<Rightarrow> kernel \<Rightarrow> kernel option" where
  "idle_step im k = (if any_alive k then Some (sched_yield im k) else None)"

section \<open>The kernel's entry\<close>

text \<open>
  \<open>m\<close> is the machine when the disk is initialised, after the interrupt controller was set up and the
  bus was listed; \<open>k\<close> holds the static variables, with memory as it was at power-on.
\<close>

definition kernel_main :: "image \<Rightarrow> u64 \<Rightarrow> u64 \<times> u64 \<times> u64 \<Rightarrow> 'd bus \<Rightarrow> (nat \<Rightarrow> u64 \<times> u64 \<times> u64) \<Rightarrow> u64 \<times> u64 \<times> u64 \<Rightarrow> disk \<Rightarrow> blk_dev \<Rightarrow> 'd machine
    \<Rightarrow> kernel \<Rightarrow> ((bool \<times> bool \<times> bool \<times> booting) \<times> heap \<times> kernel \<times> blk_dev \<times> 'd machine) option" where
  "kernel_main im kernel_end addrs b rings ptrs blk d m k = do {
     s \<leftarrow> memory_init kernel_end;
     (va_ok, s) \<leftarrow> (case addrs of (fn_addr, sp, static_data) \<Rightarrow> verify_high_va fn_addr sp static_data s);
     (zero_ok, rw_ok, s, mem) \<leftarrow> demo_memory s (kbytes (kmm k));
     (r, s, k, d, m) \<leftarrow> demo_filesystem im b rings ptrs blk d m s (with_heap s (set_bytes (\<lambda>_. mem) k));
     Some ((va_ok, zero_ok, rw_ok, r), s, k, d, m) }"

end
