(* ===== verification/BootSpec.thy ===== *)
theory BootSpec
  imports Boot SyscallSpec DriversSpec
begin

text \<open>
  The boot establishes what every later step of the kernel relies on: the self tests pass and give
  everything back, and the shell runs as the first process of a kernel whose invariant holds.
\<close>

section \<open>The heap\<close>

lemma heap_grow_hpmm: "heap_grow n s = Some s' \<Longrightarrow> hpmm s' = snd (pmm_alloc_pages n (hpmm s))"
  by (auto simp: heap_grow_def Let_def put_header_def split: prod.splits if_splits option.splits)

lemma merge_hpmm:
  "pred_option (\<lambda>t. hpmm t = hpmm s) (merge_next p b s)" "pred_option (\<lambda>t. hpmm t = hpmm s) (merge_prev p s)"
  by (auto simp: merge_next_def merge_prev_def put_header_def Let_def bind_eq_Some_conv pred_option_def split: option.splits)

lemma kfree_hpmm: "kfree p s = Some s' \<Longrightarrow> hpmm s' = hpmm s"
  using merge_hpmm by (fastforce simp: kfree_def put_header_def Let_def bind_eq_Some_conv pred_option_def split: if_splits option.splits)

text \<open>A block that is free again joins what it was carved from.\<close>

lemma kmalloc_then_kfree:
  assumes h: "heap_inv s bs" and co: "coalesced bs" and sz: "sz \<noteq> 0" and a: "spec_alloc (ALIGN16 sz) bs = Some (p, bs')"
  obtains s' where "kmalloc sz s = Some (p + 32, s')" "heap_inv s' bs'" "hpmm s' = hpmm s" "p + 32 \<noteq> 0"
    "\<forall>t. heap_chain t bs' \<longrightarrow> (\<exists>t'. kfree (p + 32) t = Some t' \<and> heap_chain t' bs)"
proof -
  obtain s' where s': "kmalloc sz s = Some (p + 32, s')" "heap_inv s' bs'" "hpmm s' = hpmm s"
    using heap_inv_fit [OF h sz a] .
  obtain xs z ys where b: "bs = xs @ (p, z, True) # ys" "bs' = xs @ carve (ALIGN16 sz) p z @ ys"
    using spec_alloc_Some [OF a] by metis
  have lay: "layout bs'" using s'(2) by (simp add: heap_inv_def heap_is_def)
  have "\<exists>y. (p, y, False) \<in> set (carve (ALIGN16 sz) p z)"
    by (cases "unat (ALIGN16 sz) + 48 \<le> unat z") (simp_all add: carve_def)
  then obtain y where mem: "(p, y, False) \<in> set bs'" unfolding b(2) by auto
  have "unat (p + 32) = unat p + 32" using layout_ok [OF lay mem] by (simp add: unat_add_small)
  then have nz: "p + 32 \<noteq> 0" by (metis add_is_0 unat_0 zero_neq_numeral)
  have "p \<notin> fst ` set xs" using h unfolding b(1) by (auto simp: heap_inv_def heap_is_def heap_chain_def)
  from spec_free_carve [OF co [unfolded b(1)] this] have f: "spec_free p bs' = bs" unfolding b(1,2) .
  have "\<exists>t'. kfree (p + 32) t = Some t' \<and> heap_chain t' bs" if t: "heap_chain t bs'" for t
  proof -
    have "p \<in> fst ` set bs'" using mem by force
    from kfree_chain [OF t this nz] show ?thesis unfolding f by blast
  qed
  with s' nz show ?thesis using that by blast
qed

lemma heap_inv_chain: "heap_inv s bs \<Longrightarrow> heap_chain t bs \<Longrightarrow> hpmm t = hpmm s \<Longrightarrow> heap_inv t bs"
  by (simp add: heap_inv_def heap_is_def)

text \<open>After initialisation: the pages of the image and sixteen more are taken, and the heap is one free block.\<close>

lemma window_above: "\<lbrakk>used pm = {..<n}; n + c \<le> TOTAL_PAGES\<rbrakk> \<Longrightarrow> free_window n c pm"
  unfolding free_window_def by (metis add_lessD1 atLeastLessThan_iff lessThan_iff linorder_not_le order_less_le_trans used_iff)

lemma alloc_above:
  assumes "pmm_inv pm" "used pm = {..<n}" "0 < c" "n + unat c \<le> TOTAL_PAGES" "pmm_alloc_pages c pm = (a, pm')"
  shows "a = frame n" "pmm_inv pm'" "used pm' = {..<n + unat c}"
proof -
  have w: "free_window n (unat c) pm" by (rule window_above [OF assms(2,4)])
  have c: "0 < unat c" using assms(3) by (simp add: word_less_nat_alt)
  obtain p where p: "free_window p (unat c) pm" "\<forall>q. free_window q (unat c) pm \<longrightarrow> p \<le> q" "a = frame p"
    "pmm_inv pm'" "used pm' = used pm \<union> {p..<p + unat c}"
    using pmm_alloc_pages_cases [OF assms(1,3,5)] w by blast
  have "p \<le> n" using p(2) w by blast
  moreover have "p \<notin> used pm" using p(1) c by (auto simp: free_window_def)
  ultimately have "p = n" using assms(2) by auto
  then show "a = frame n" "pmm_inv pm'" "used pm' = {..<n + unat c}" using p assms(2) by auto
qed

lemma memory_init_ok:
  assumes k: "RAM_BASE \<le> kend" "kend \<le> RAM_BASE + 0x400000"
  defines "n \<equiv> (unat kend - 0x40000000 + 4095) div 4096 + 4"
  obtains s a where "memory_init (phys_to_virt kend) = Some s" "heap_inv s [(a, 65504, True)]" "used (hpmm s) = {..<n + 16}"
    "hpmm s = snd (pmm_alloc_pages 16 (the (pmm_init (kend + 4 * 4096))))"
proof -
  have kb: "0x40000000 \<le> unat kend" "unat kend \<le> 0x40400000" using k by (simp_all add: word_le_nat_alt RAM_BASE_def)
  have u: "unat (kend + 4 * 4096) = unat kend + 0x4000" using kb by (subst unat_add_small) simp_all
  have r: "RAM_BASE \<le> kend + 4 * 4096" "kend + 4 * 4096 \<le> RAM_END"
    unfolding word_le_nat_alt u using kb by (simp_all add: RAM_BASE_def RAM_END_def)
  have n: "(unat (kend + 4 * 4096) - 0x40000000 + 4095) div 4096 = n" unfolding u n_def using kb by (simp add: algebra_simps)
  obtain pm where pm: "pmm_init (kend + 4 * 4096) = Some pm" "pmm_inv pm" "used pm = {..<n}" using pmm_init_spec [OF r] unfolding n .
  have le: "n + 16 \<le> TOTAL_PAGES" using kb by (simp add: n_def TOTAL_PAGES_def)
  have "free_window n 16 pm" by (rule window_above [OF pm(3) le])
  then obtain a s where s: "kmalloc_init pm = Some s" "heap_inv s [(a, 65504, True)]" by (rule kmalloc_init_inv [OF pm(2)])
  have h: "hpmm s = snd (pmm_alloc_pages 16 pm)" using s(1) heap_grow_hpmm unfolding kmalloc_init_def by force
  have "0 < (16 :: u32)" "n + unat (16 :: u32) \<le> TOTAL_PAGES" using le by simp_all
  from alloc_above(3) [OF pm(2,3) this surjective_pairing] have "used (hpmm s) = {..<n + 16}" by (simp add: h)
  moreover have "memory_init (phys_to_virt kend) = Some s" using pm(1) s(1) by (simp add: memory_init_def)
  ultimately show ?thesis using that s(2) h pm(1) by simp
qed

text \<open>The page half of the test takes nothing.\<close>

lemma demo_pages_same:
  assumes inv: "pmm_inv pm" and u: "used pm = {..<n}" and n: "n + 16 \<le> TOTAL_PAGES"
  shows "demo_pages pm = pm"
proof -
  obtain p1 m1 p2 m2 p3 m3 p4 m4 where a: "pmm_alloc_page pm = (p1, m1)" "pmm_alloc_page m1 = (p2, m2)" "pmm_alloc_page m2 = (p3, m3)" "pmm_alloc_page m3 = (p4, m4)"
    by (metis surj_pair)
  have step: "p = frame j \<and> pmm_inv m' \<and> used m' = {..<Suc j}" 
    if m: "pmm_alloc_page m = (p, m')" "pmm_inv m" "used m = {..<j}" "j < TOTAL_PAGES" for m m' p j
  proof -
    have "used m \<noteq> {..<TOTAL_PAGES}" using m(3,4) by auto
    then obtain q where "p = frame q" "q \<notin> used m" "{..<q} \<subseteq> used m" "used m' = insert q (used m)" "pmm_inv m'"
      using pmm_alloc_page_cases [OF m(2,1)] by blast
    moreover from this have "q = j" using m(3) by (metis lessThan_iff lessThan_subset_iff linorder_not_le order_antisym)
    ultimately show ?thesis using m(3) by (simp add: lessThan_Suc)
  qed
  note s1 = step [OF a(1) inv u] and T = n
  have 1: "p1 = frame n" "pmm_inv m1" "used m1 = {..<Suc n}" using s1 T by simp_all
  have 2: "p2 = frame (Suc n)" "pmm_inv m2" "used m2 = {..<n + 2}" using step [OF a(2) 1(2,3)] T by simp_all
  have 3: "p3 = frame (n + 2)" "pmm_inv m3" "used m3 = {..<n + 3}" using step [OF a(3) 2(2,3)] T by simp_all
  have 4: "p4 = frame (n + 3)" "pmm_inv m4" "used m4 = {..<n + 4}" using step [OF a(4) 3(2,3)] T by simp_all
  define m5 where "m5 = pmm_free_page p3 (pmm_free_page p2 m4)"
  have f: "pmm_inv (pmm_free_page (frame q) m)" "used (pmm_free_page (frame q) m) = used m - {q}" if "pmm_inv m" "q < n + 16" for m q
    using pmm_free_page_used [OF that(1), of q] that(2) T by simp_all
  have 5: "pmm_inv m5" "used m5 = {..<n + 4} - {Suc n, n + 2}" unfolding m5_def 2(1) 3(1) using 4 f [OF 4(2), of "Suc n"] f [OF f(1) [OF 4(2), of "Suc n"], of "n + 2"] by auto
  obtain q m6 where al: "pmm_alloc_pages 8 m5 = (q, m6)" by (metis surj_pair)
  have "\<not> bit_test r m5" if "r \<in> {n + 4..<n + 12}" for r using 5(2) used_iff [of r m5] that T by auto
  then have "free_window (n + 4) 8 m5" using T by (auto simp: free_window_def)
  then obtain r where r: "free_window r 8 m5" "q = frame r" "pmm_inv m6" "used m6 = used m5 \<union> {r..<r + 8}"
    using pmm_alloc_pages_cases [OF 5(1) _ al] by auto
  have le: "r + unat (8 :: u32) \<le> TOTAL_PAGES" using r(1) by (simp add: free_window_def)
  have "pmm_free_pages q 8 m6 = m5"
    using pmm_free_pages_used [OF r(3) le] r(2,4) free_window_used [OF r(1)] 5(1) by (auto intro: pmm_ext)
  then have "demo_pages pm = pmm_free_page p4 (pmm_free_page p1 m5)"
    by (simp add: demo_pages_def a al m5_def [symmetric])
  moreover have "pmm_free_page p4 (pmm_free_page p1 m5) = pm"
    unfolding 1(1) 4(1)
  proof (rule pmm_ext [OF _ inv])
    have g: "pmm_inv (pmm_free_page (frame n) m5)" "used (pmm_free_page (frame n) m5) = used m5 - {n}" using f [OF 5(1), of n] by simp_all
    show "pmm_inv (pmm_free_page (frame (n + 3)) (pmm_free_page (frame n) m5))" using f(1) [OF g(1), of "n + 3"] by simp
    have "used (pmm_free_page (frame (n + 3)) (pmm_free_page (frame n) m5)) = {..<n + 4} - {Suc n, n + 2} - {n} - {n + 3}"
      using f(2) [OF g(1), of "n + 3"] by (simp only: g(2) 5(2))
    moreover have "{..<n + 4} - {Suc n, n + 2} - {n} - {n + 3} = {..<n}"
      by (intro set_eqI) (simp only: Diff_iff lessThan_iff insert_iff empty_iff, presburger)
    ultimately show "used (pmm_free_page (frame (n + 3)) (pmm_free_page (frame n) m5)) = used pm" using u by (simp only:)
  qed
  ultimately show ?thesis by simp
qed

text \<open>The heap half: the pieces are given back in an order that needs every case of the merging.\<close>

lemma block_nz: "blk_ok (p, z, fr) \<Longrightarrow> p + 32 \<noteq> 0"
proof -
  assume "blk_ok (p, z, fr)"
  then have "unat (p + 32) = unat p + 32" by (simp add: unat_add_small)
  then show ?thesis by (metis add_is_0 unat_0 zero_neq_numeral)
qed

lemma demo_memory_ok:
  assumes h: "heap_inv s [(a, 65504, True)]" and u: "used (hpmm s) = {..<n}" "n + 16 \<le> TOTAL_PAGES"
  obtains s' m' where "demo_memory s m = Some (True, True, s', m')" "heap_inv s' [(a, 65504, True)]" "hpmm s' = hpmm s"
proof -
  have inv: "pmm_inv (hpmm s)" using h by (simp add: heap_inv_def)
  have same: "s\<lparr>hpmm := demo_pages (hpmm s)\<rparr> = s" using demo_pages_same [OF inv u] by simp
  have al: "ALIGN16 128 = 128" "ALIGN16 4096 = 4096" "ALIGN16 256 = 256" by (simp_all add: ALIGN16_def)
  have b: "spec_alloc (ALIGN16 128) [(a, 65504, True)] = Some (a, [(a, 128, False), (a + 160, 65344, True)])"
    "spec_alloc (ALIGN16 4096) [(a, 128, False), (a + 160, 65344, True)] = Some (a + 160, [(a, 128, False), (a + 160, 4096, False), (a + 4288, 61216, True)])"
    "spec_alloc (ALIGN16 256) [(a, 128, False), (a + 160, 4096, False), (a + 4288, 61216, True)] =
      Some (a + 4288, [(a, 128, False), (a + 160, 4096, False), (a + 4288, 256, False), (a + 4576, 60928, True)])"
    by (simp_all add: carve_def al)
  have n0: "(128 :: u64) \<noteq> 0" "(4096 :: u64) \<noteq> 0" "(256 :: u64) \<noteq> 0" by simp_all
  obtain s1 where 1: "kmalloc 128 s = Some (a + 32, s1)" "heap_inv s1 [(a, 128, False), (a + 160, 65344, True)]" "hpmm s1 = hpmm s"
    using heap_inv_fit [OF h n0(1) b(1)] .
  obtain s2 where 2: "kmalloc 4096 s1 = Some (a + 160 + 32, s2)"
    "heap_inv s2 [(a, 128, False), (a + 160, 4096, False), (a + 4288, 61216, True)]" "hpmm s2 = hpmm s1"
    using heap_inv_fit [OF 1(2) n0(2) b(2)] .
  obtain s3 where 3: "kmalloc 256 s2 = Some (a + 4288 + 32, s3)"
    "heap_inv s3 [(a, 128, False), (a + 160, 4096, False), (a + 4288, 256, False), (a + 4576, 60928, True)]" "hpmm s3 = hpmm s2"
    using heap_inv_fit [OF 2(2) n0(3) b(3)] .
  let ?z = "fill_bytes 0 256 (a + 4288 + 32) (\<lambda>_. 0) m"
  let ?m = "fill_bytes 0 128 (a + 32) of_nat ?z"
  have lay: "layout [(a, 128, False), (a + 160, 4096, False), (a + 4288, 256, False), (a + 4576, 60928, True)]"
    using 3(2) by (simp only: heap_inv_def heap_is_def)
  have nz: "a + 32 \<noteq> 0" "a + 160 + 32 \<noteq> 0" "a + 4288 + 32 \<noteq> 0" using lay block_nz by (force simp only: layout.simps)+
  have kz: "kzalloc 256 s2 m = Some (a + 4288 + 32, s3, ?z)" using 3(1) nz(3) by (simp add: kzalloc_def fill_bytes_def)
  have checks: "list_all (\<lambda>i. ?z (a + 4288 + 32 + of_nat i) = 0) [0..<256]" "list_all (\<lambda>i. ?m (a + 32 + of_nat i) = of_nat i) [0..<128]"
    by (auto simp: list_all_iff fill_bytes_apply unat_of_nat_small)
  have h3: "heap_chain s3 [(a, 128, False), (a + 160, 4096, False), (a + 4288, 256, False), (a + 4576, 60928, True)]"
    using 3(2) by (simp only: heap_inv_def heap_is_def)
  have sf: "spec_free (a + 160) [(a, 128, False), (a + 160, 4096, False), (a + 4288, 256, False), (a + 4576, 60928, True)]
      = [(a, 128, False), (a + 160, 4096, True), (a + 4288, 256, False), (a + 4576, 60928, True)]"
    "spec_free a [(a, 128, False), (a + 160, 4096, True), (a + 4288, 256, False), (a + 4576, 60928, True)]
      = [(a, 4256, True), (a + 4288, 256, False), (a + 4576, 60928, True)]"
    "spec_free (a + 4288) [(a, 4256, True), (a + 4288, 256, False), (a + 4576, 60928, True)] = [(a, 65504, True)]"
    by (simp_all add: spec_free.simps)
  obtain s4 where 4: "kfree (a + 160 + 32) s3 = Some s4" "heap_chain s4 [(a, 128, False), (a + 160, 4096, True), (a + 4288, 256, False), (a + 4576, 60928, True)]"
    by (rule kfree_chain [OF h3 _ nz(2)], simp) (rule that, assumption, simp only: sf)
  obtain s5 where 5: "kfree (a + 32) s4 = Some s5" "heap_chain s5 [(a, 4256, True), (a + 4288, 256, False), (a + 4576, 60928, True)]"
    by (rule kfree_chain [OF 4(2) _ nz(1)], simp) (rule that, assumption, simp only: sf)
  obtain s6 where 6: "kfree (a + 4288 + 32) s5 = Some s6" "heap_chain s6 [(a, 65504, True)]"
    by (rule kfree_chain [OF 5(2) _ nz(3)], simp) (rule that, assumption, simp only: sf)
  have "hpmm s6 = hpmm s" using kfree_hpmm [OF 4(1)] kfree_hpmm [OF 5(1)] kfree_hpmm [OF 6(1)] 1(3) 2(3) 3(3) by simp
  moreover have "demo_memory s m = Some (True, True, s6, ?m)"
    by (simp only: demo_memory_def same Let_def 1(1) 2(1) kz 4(1) 5(1) 6(1) checks Option.bind.simps prod.case)
  ultimately show ?thesis using that heap_inv_chain [OF h 6(2)] by blast
qed

section \<open>Loading a program\<close>

text \<open>The program at \<open>src\<close> lies in frames that are taken, so the frames of the new process are others.\<close>

definition in_frames :: "kernel \<Rightarrow> u64 \<Rightarrow> nat \<Rightarrow> bool" where
  "in_frames k src n \<longleftrightarrow> (\<forall>i < n. \<exists>p \<in> used (kpmm (kmm k)). in_page p (src + of_nat i))"

lemma loaded_bytes:
  assumes l: "loaded k src sz k'" and src: "in_frames k src (unat sz)" and cp: "cp = unat (code_pages (task_at k' (num_tasks k)))"
    and sz: "unat sz \<le> cp * 4096" "cp \<le> 512"
  obtains q where "code_pa (task_at k' (num_tasks k)) = frame q" "q + cp \<le> TOTAL_PAGES"
    "\<forall>x < cp * 4096. kbytes (kmm k') (phys_to_virt (frame q) + of_nat x) = (if x < unat sz then kbytes (kmm k) (src + of_nat x) else 0)"
proof -
  obtain q where q: "code_pa (task_at k' (num_tasks k)) = frame q" "q + cp \<le> TOTAL_PAGES" "{q..<q + cp} \<inter> used (kpmm (kmm k)) = {}"
    "\<forall>x < cp * 4096. kbytes (kmm k') (phys_to_virt (frame q) + of_nat x) = (if x < unat sz
       then copy_bytes (unat sz) (phys_to_virt (frame q)) src (kbytes (kmm k)) (phys_to_virt (frame q) + of_nat x) else 0)"
    using l unfolding loaded_def Let_def cp [symmetric] by blast
  have ap: "phys_to_virt (frame q) + of_nat i \<noteq> src + of_nat j" if ij: "i < unat sz" "j < unat sz" for i j
  proof
    assume e: "phys_to_virt (frame q) + of_nat i = src + of_nat j"
    have "i < cp * 4096" using ij(1) sz(1) by simp
    note ra = run_addr [OF q(2) this]
    obtain p where p: "p \<in> used (kpmm (kmm k))" "in_page p (src + of_nat j)" using src ij(2) by (auto simp: in_frames_def)
    have "p = q + i div 4096" by (rule in_page_unique [OF _ _ p(2) ra(2) [unfolded e]]) (use p(1) ra(3) q(2) in auto)
    then show False using p(1) ra(3) q(3) by blast
  qed
  have b: "unat sz < 2 ^ 64" using sz by simp
  have "copy_bytes (unat sz) (phys_to_virt (frame q)) src (kbytes (kmm k)) (phys_to_virt (frame q) + of_nat x) = kbytes (kmm k) (src + of_nat x)"
    if x: "x < unat sz" for x
  proof -
    have "unat (of_nat x :: u64) = x" by (rule unat_of_nat_small) (use x sz in simp)
    then show ?thesis using x by (subst copy_bytes_apply [OF b ap]) simp_all
  qed
  then show ?thesis using that [OF q(1,2)] q(4) by simp
qed

text \<open>A process that was created holds the program and zeros behind it, and is ready to start.\<close>

definition holds_program :: "kernel \<Rightarrow> nat \<Rightarrow> nat \<Rightarrow> (nat \<Rightarrow> u8) \<Rightarrow> bool" where
  "holds_program k t n prog \<longleftrightarrow> is_user (task_at k t) \<and> tstate (task_at k t) = TASK_READY
     \<and> n \<le> unat (code_pages (task_at k t)) * 4096
     \<and> (\<forall>i < unat (code_pages (task_at k t)) * 4096. process_byte k t (USER_VA_CODE + of_nat i) = Some (if i < n then prog i else 0))"

lemma create_user_holds:
  assumes inv: "kernel_inv im (K, k)" and sz: "unat sz \<le> 0x1FC000" and src: "in_frames k src (unat sz)"
    and r: "sched_create_user im nm src sz k = Some (r, k')" "r \<noteq> -1"
  shows "r = int (num_tasks k) \<and> num_tasks k' = Suc (num_tasks k) \<and> current_task k' = current_task k \<and> kernel_inv im (K, k')
    \<and> holds_program k' (num_tasks k) (unat sz) (\<lambda>i. kbytes (kmm k) (src + of_nat i))
    \<and> (\<forall>i. i \<noteq> num_tasks k \<longrightarrow> task_at k' i = task_at k i)"
proof -
  obtain own where o: "sched_inv im k" "isolated K own k" using kernel_invE [OF inv] by metis
  have len: "num_tasks k < SCHED_MAX_TASKS \<Longrightarrow> num_tasks k < length (tasks k)" using o(1) by (auto simp: sched_defs)
  have inv': "kernel_inv im (K, k')" by (rule kernel_inv_step [OF inv kstep.create_user [OF sz r(1)]])
  note ip = image_pages [OF sz]
  show ?thesis
  proof (rule sched_create_user_cases [OF isolated_pmm(1) [OF o(2)] len sz r(1)])
    fix tab s rl F
    let ?t = "task_at k' (num_tasks k)"
    assume c: "r = int (num_tasks k)" "created k tab s rl F k'" "code_pages ?t = image_pages sz" "loaded k src sz k'"
    let ?cp = "unat (image_pages sz)"
    obtain q where q: "code_pa ?t = frame q" "q + ?cp \<le> TOTAL_PAGES"
      "\<forall>x < ?cp * 4096. kbytes (kmm k') (phys_to_virt (frame q) + of_nat x) = (if x < unat sz then kbytes (kmm k) (src + of_nat x) else 0)"
      using loaded_bytes [OF c(4) src refl] ip(2,3) unfolding c(3) by blast
    have wk: "walk (kbytes (kmm k')) (ttbr0 ?t) v = user_map (code_pa ?t) ?cp (stack_pa ?t) 4 (page_no v)" for v
      by (rule walk_page_no) (use c(2) in \<open>simp add: created_def Let_def c(3)\<close>)
    have "process_byte k' (num_tasks k) (USER_VA_CODE + of_nat i) = Some (if i < unat sz then kbytes (kmm k) (src + of_nat i) else 0)"
      if "i < ?cp * 4096" for i using process_code_byte [OF wk q(1,2) that ip(2)] q(3) that by simp
    then have "holds_program k' (num_tasks k) (unat sz) (\<lambda>i. kbytes (kmm k) (src + of_nat i))"
      using c(2) ip(3) by (simp add: holds_program_def created_def Let_def c(3))
    then show ?thesis using c inv' by (simp add: created_def)
  qed (use r(2) in blast)+
qed

lemma block_in_page:
  assumes h: "heap_inv s bs" and b: "(p, z, fr) \<in> set bs" "i < unat z"
  shows "\<exists>q \<in> used (hpmm s). in_page q (p + 32 + of_nat i)"
proof -
  have ok: "blk_ok (p, z, fr)" using h layout_ok [OF _ b(1)] by (simp add: heap_inv_def heap_is_def)
  have "i < 2 ^ 64" using b(2) ok by simp
  then have i: "unat (of_nat i :: u64) = i" by (intro unat_of_nat_small) simp
  have "unat (p + 32) = unat p + 32" using ok by (simp add: unat_add_small)
  then have u: "unat (p + 32 + of_nat i) = unat p + 32 + i" using ok b(2) i by (subst unat_add_small) simp_all
  then have "unat (p + 32 + of_nat i) \<in> extent (p, z, fr)" using b(2) by simp
  then have "unat (p + 32 + of_nat i) \<in> covers bs" using b(1) unfolding covers_def by blast
  then have "unat (p + 32 + of_nat i) \<in> page_bytes (used (hpmm s))" using h by (auto simp: heap_inv_def)
  then obtain q where q: "q \<in> used (hpmm s)" "0xFFFFFF8040000000 \<le> unat (p + 32 + of_nat i)"
    "q = (unat (p + 32 + of_nat i) - 0xFFFFFF8040000000) div 4096"
    by (auto simp only: page_of_byte)
  then have "q < TOTAL_PAGES" using used_le by blast
  moreover have "q * 4096 \<le> unat (p + 32 + of_nat i) - 0xFFFFFF8040000000 \<and> unat (p + 32 + of_nat i) - 0xFFFFFF8040000000 < q * 4096 + 4096"
    unfolding q(3) using div_mult_mod_eq [of "unat (p + 32 + of_nat i) - 0xFFFFFF8040000000" 4096]
      mod_less_divisor [of 4096 "unat (p + 32 + of_nat i) - 0xFFFFFF8040000000"] by linarith
  ultimately have "in_page q (p + 32 + of_nat i)" using q(2) unfolding in_page_iff [OF \<open>q < TOTAL_PAGES\<close>] by linarith
  then show ?thesis using q(1) by blast
qed

lemma holds_cong: "\<lbrakk>holds_program k t n f; \<And>i. i < n \<Longrightarrow> f i = g i\<rbrakk> \<Longrightarrow> holds_program k t n g"
  by (auto simp: holds_program_def)

lemma with_heap_same [simp]: "hpmm s = kpmm (kmm k) \<Longrightarrow> with_heap s k = k"
  by (simp add: with_heap_def)

lemma heap_chain_with [simp]: "heap_chain (heap_with k s) bs = heap_chain s bs"
  by (simp add: heap_chain_def heap_with_def)

text \<open>The steps from the buffer on: the file is read into it and becomes a process.\<close>

lemma buffer_to_process:
  assumes k: "kernel_inv im (K, k)" "num_tasks k < SCHED_MAX_TASKS" and K: "K = used (kpmm (kmm k))"
    and f: "0 < sz" "sz = unat (ff_file_size f)" "sz \<le> 0x1FC000" "0 < unat (sectors_per_cluster (bpb fs))" "file_ok dk fs (ff_first_cluster f) sz"
    and room: "(card K + unat (image_pages (ff_file_size f)) + 9) * (unat (image_pages (ff_file_size f)) + 5) \<le> TOTAL_PAGES"
    and code: "\<And>i. i < sz \<Longrightarrow> \<exists>q \<in> K. in_page q (code + of_nat i)"
  obtains buf k' where "fat16_read_file dk fs f dst (ff_file_size f) = Some (int sz, buf)"
    "sched_create_user im nm code (ff_file_size f) (set_bytes (fill_bytes 0 sz code (\<lambda>i. buf (of_nat i))) k) = Some (int (num_tasks k), k')"
    "kernel_inv im (K, k')" "num_tasks k' = Suc (num_tasks k)" "current_task k' = current_task k"
    "holds_program k' (num_tasks k) sz (file_byte dk fs (ff_first_cluster f))" "\<forall>i. i \<noteq> num_tasks k \<longrightarrow> task_at k' i = task_at k i"
proof -
  let ?sz = "ff_file_size f" and ?buf = "\<lambda>i :: u32. if unat i < sz then file_byte dk fs (ff_first_cluster f) (unat i) else dst i"
  define k2 where "k2 = set_bytes (fill_bytes 0 sz code (\<lambda>i. ?buf (of_nat i))) k"
  have rd: "fat16_read_file dk fs f dst ?sz = Some (int sz, ?buf)" by (rule read_file_ok) (use f in simp_all)
  have "writes im K k k2" unfolding k2_def by (rule kernel_fill_steps) (rule code)
  then have inv2: "kernel_inv im (K, k2)" using kernel_inv_steps [OF turn_steps] k(1) by (auto simp: writes_def)
  have e: "kpmm (kmm k2) = kpmm (kmm k)" "num_tasks k2 = num_tasks k" "current_task k2 = current_task k" "tasks k2 = tasks k" "fds k2 = fds k"
    by (simp_all add: k2_def set_bytes_def)
  obtain own where o: "proc_inv K own k2" "isolated K own k2" using kernel_invE [OF inv2] by metis
  have fd: "fd_inv (tabs k2) (fds k2)" using o(1) by (simp add: proc_inv_def)
  obtain k' where r: "sched_create_user im nm code ?sz k2 = Some (int (num_tasks k2), k')"
    using sched_create_user_ok [OF isolated_pmm(1) [OF o(2)] _ _ fd] f(2,3) k(2) room unfolding e K by blast
  have "in_frames k2 code (unat ?sz)" using code by (simp add: in_frames_def e(1) K f(2))
  from create_user_holds [OF inv2 _ this r] f(2,3)
  have c: "num_tasks k' = Suc (num_tasks k)" "current_task k' = current_task k" "kernel_inv im (K, k')"
    "holds_program k' (num_tasks k) sz (\<lambda>i. kbytes (kmm k2) (code + of_nat i))" "\<forall>i. i \<noteq> num_tasks k \<longrightarrow> task_at k' i = task_at k i"
    by (simp_all add: e)
  have "kbytes (kmm k2) (code + of_nat i) = file_byte dk fs (ff_first_cluster f) i" if "i < sz" for i
  proof -
    have "unat (of_nat i :: u64) = i" "unat (of_nat i :: u32) = i" using that f(3) by (simp_all add: unat_of_nat_small)
    then show ?thesis using that f(3) by (simp add: k2_def set_bytes_def fill_bytes_apply)
  qed
  from holds_cong [OF c(4) this] show ?thesis using that [OF rd r [unfolded e, unfolded k2_def]] c by simp
qed

lemma load_shell_ok:
  assumes h: "heap_inv s bs" "coalesced bs" "spec_alloc (ALIGN16 (ucast (ff_file_size f))) bs = Some (p, bs')"
    and k: "kernel_inv im (used (hpmm s), k)" "kpmm (kmm k) = hpmm s" "num_tasks k < SCHED_MAX_TASKS"
    and f: "fat16_open dk fs shell_bin = Some f" "0 < sz" "sz = unat (ff_file_size f)" "sz \<le> 0x1FC000"
      "0 < unat (sectors_per_cluster (bpb fs))" "file_ok dk fs (ff_first_cluster f) sz"
    and room: "(card (used (hpmm s)) + unat (image_pages (ff_file_size f)) + 9) * (unat (image_pages (ff_file_size f)) + 5) \<le> TOTAL_PAGES"
  shows "\<exists>s' k'. load_shell im dk fs s k = Some (Started (int sz) (int (num_tasks k)), s', k') \<and> kernel_inv im (used (hpmm s), k')
    \<and> num_tasks k' = Suc (num_tasks k) \<and> current_task k' = current_task k
    \<and> holds_program k' (num_tasks k) sz (file_byte dk fs (ff_first_cluster f)) \<and> heap_chain s' bs \<and> hpmm s' = kpmm (kmm k')"
proof -
  let ?sz = "ff_file_size f" and ?K = "used (hpmm s)"
  have u: "unat (ucast ?sz :: u64) = sz" using f(3,4) by (simp add: unat_ucast)
  then have nz: "ucast ?sz \<noteq> (0 :: u64)" using f(2) by auto
  obtain s1 where s1: "kmalloc (ucast ?sz) s = Some (p + 32, s1)" "heap_inv s1 bs'" "hpmm s1 = hpmm s" "p + 32 \<noteq> 0"
    "\<forall>t. heap_chain t bs' \<longrightarrow> (\<exists>t'. kfree (p + 32) t = Some t' \<and> heap_chain t' bs)"
    using kmalloc_then_kfree [OF h(1,2) nz h(3)] .
  have lay: "layout bs" "layout bs'" using h(1) s1(2) by (simp_all add: heap_inv_def heap_is_def)
  obtain z where z: "(p, z, False) \<in> set bs'" "ALIGN16 (ucast ?sz) \<le> z" using spec_alloc_in_use [OF lay(1) h(3) lay(2)] by metis
  have "sz \<le> unat (ALIGN16 (ucast ?sz))" using ALIGN16_ge [of "ucast ?sz"] u f(4) by simp
  then have zs: "sz \<le> unat z" using z(2) by (simp add: word_le_nat_alt)
  have code: "\<exists>q \<in> ?K. in_page q (p + 32 + of_nat i)" if "i < sz" for i
    using block_in_page [OF s1(2) z(1), of i] that zs s1(3) by simp
  let ?dst = "\<lambda>i. kbytes (kmm k) (p + 32 + ucast i)"
  have K: "?K = used (kpmm (kmm k))" by (simp add: k(2))
  obtain buf k' where c: "fat16_read_file dk fs f ?dst ?sz = Some (int sz, buf)"
    "sched_create_user im shell_name (p + 32) ?sz (set_bytes (fill_bytes 0 sz (p + 32) (\<lambda>i. buf (of_nat i))) k) = Some (int (num_tasks k), k')"
    "kernel_inv im (?K, k')" "num_tasks k' = Suc (num_tasks k)" "current_task k' = current_task k"
    "holds_program k' (num_tasks k) sz (file_byte dk fs (ff_first_cluster f))"
    by (rule buffer_to_process [OF k(1,3) K f(2-6) room code, where dst = ?dst and nm = shell_name]) (assumption, rule that, assumption+)
  have hc: "heap_chain (heap_with k' s1) bs'" using s1(2) by (simp add: heap_inv_def heap_is_def)
  obtain s' where s': "kfree (p + 32) (heap_with k' s1) = Some s'" "heap_chain s' bs" using s1(5) hc by blast
  have w: "(of_int (int sz) :: u32) = ?sz" using f(3) by simp
  have "load_shell im dk fs s k = Some (Started (int sz) (int (num_tasks k)), s', k')"
    using s1(1,3,4) k(2) c(1,2) f(1,2) s'(1) w by (simp add: load_shell_def Let_def f(3) [symmetric])
  moreover have "hpmm s' = kpmm (kmm k')" using kfree_hpmm [OF s'(1)] by (simp add: heap_with_def)
  ultimately show ?thesis using c(3-6) s'(2) by blast
qed

section \<open>The boot\<close>

text \<open>The linker put the task stacks into the kernel image, which ends at the physical address \<open>kend\<close>.\<close>

definition image_below :: "u64 \<Rightarrow> image \<Rightarrow> bool" where
  "image_below kend im \<longleftrightarrow> 16 dvd unat (task_stacks im)
     \<and> (\<forall>x. unat (x - task_stacks im) < SCHED_MAX_TASKS * SCHED_STACK_SIZE \<longrightarrow> phys_to_virt RAM_BASE \<le> x \<and> x < phys_to_virt kend)"

lemma image_below_ok:
  assumes im: "image_below kend im" and k: "RAM_BASE \<le> kend" "kend \<le> RAM_BASE + 0x400000"
    and n: "(unat kend - 0x40000000 + 4095) div 4096 \<le> n" "n \<le> TOTAL_PAGES"
  shows "image_ok {..<n} im"
  unfolding image_ok_def
proof (intro conjI allI impI)
  show "16 dvd unat (task_stacks im)" using im by (simp add: image_below_def)
  fix x assume "unat (x - task_stacks im) < SCHED_MAX_TASKS * SCHED_STACK_SIZE"
  then have x: "phys_to_virt RAM_BASE \<le> x" "x < phys_to_virt kend" using im by (simp_all add: image_below_def)
  have kb: "0x40000000 \<le> unat kend" "unat kend \<le> 0x40400000" using k by (simp_all add: word_le_nat_alt RAM_BASE_def)
  have "unat (phys_to_virt kend) = 0xFFFFFF8000000000 + unat kend"
    unfolding phys_to_virt_def KERN_VA_OFFSET_def using kb by (subst unat_add_small) simp_all
  moreover have "unat (phys_to_virt RAM_BASE) = 0xFFFFFF8040000000" by (simp add: phys_to_virt_def KERN_VA_OFFSET_def RAM_BASE_def)
  ultimately have b: "0xFFFFFF8040000000 \<le> unat x" "unat x < 0xFFFFFF8000000000 + unat kend" using x by (simp_all add: word_le_nat_alt word_less_nat_alt)
  define p where "p = (unat x - 0xFFFFFF8040000000) div 4096"
  define r where "r = (unat x - 0xFFFFFF8040000000) mod 4096"
  have d: "unat x - 0xFFFFFF8040000000 = p * 4096 + r" "r < 4096" by (simp_all add: p_def r_def)
  have "p * 4096 < unat kend - 0x40000000" using b kb d by linarith
  then have "p < n" using n(1) by linarith
  moreover from this have "p < TOTAL_PAGES" using n(2) by simp
  from in_page_iff [OF this, of x] have "in_page p x" using b d by linarith
  ultimately show "\<exists>p \<in> {..<n}. in_page p x" by blast
qed

lemma mount_any: "fat16_mount dk g = Some fs \<Longrightarrow> h (fat_cache dk) \<Longrightarrow> fat16_mount dk h = Some fs"
  by (auto simp: fat16_mount_def fat_cache_def Let_def split: option.splits if_splits)

text \<open>The cache of the allocation table comes first, the program of the shell behind it.\<close>

lemma room_for_both:
  assumes "0 < unat n" "unat n + sz \<le> 65000" "u = ALIGN16 (ucast (n :: u32))" "w = ALIGN16 (ucast (m :: u32))" "sz = unat m"
  shows "spec_alloc u [(a, 65504, True)] = Some (a, [(a, u, False), (a + 32 + u, 65504 - u - 32, True)])"
    "\<exists>bs. spec_alloc w [(a, u, False), (a + 32 + u, 65504 - u - 32, True)] = Some (a + 32 + u, bs)"
    "coalesced [(a, u, False), (a + 32 + u, 65504 - u - 32, True)]" "(ucast n :: u64) \<noteq> 0"
proof -
  have c: "unat (ucast n :: u64) = unat n" "unat (ucast m :: u64) = unat m" using assms(2,5) by (simp_all add: unat_ucast)
  have uw: "unat u \<le> unat n + 15" "unat w \<le> unat m + 15" using assms(2,5) c by (simp_all add: assms(3,4) unat_ALIGN16)
  have z: "unat (65504 - u - 32) = 65504 - unat u - 32" using uw(1) assms(2) by (simp add: unat_sub word_le_nat_alt unat_sub_if')
  have f: "u \<le> 65504" "w \<le> 65504 - u - 32" using uw z assms(2,5) by (simp_all add: word_le_nat_alt)
  show "spec_alloc u [(a, 65504, True)] = Some (a, [(a, u, False), (a + 32 + u, 65504 - u - 32, True)])"
    using f(1) uw(1) assms(2) by (simp add: carve_def)
  show "\<exists>bs. spec_alloc w [(a, u, False), (a + 32 + u, 65504 - u - 32, True)] = Some (a + 32 + u, bs)" using f(2) by simp
  show "coalesced [(a, u, False), (a + 32 + u, 65504 - u - 32, True)]" by simp
  show "(ucast n :: u64) \<noteq> 0" using assms(1) c(1) by auto
qed

lemma shell_pages:
  assumes "0 < sz" "sz \<le> 65000" "sz = unat m"
  shows "unat (image_pages m) \<le> 20"
proof -
  have "unat (m + 4096 - 1) = sz + 4095" using assms(2,3) by (simp add: unat_add_small)
  then have "unat ((m + 4096 - 1) div 4096) \<le> 16" using assms(2) by (simp add: unat_div)
  then show ?thesis by (simp add: image_pages_def Let_def unat_word_ariths)
qed

lemma self_tests_ok:
  assumes kend: "RAM_BASE \<le> kend" "kend \<le> RAM_BASE + 0x400000"
    and addrs: "KERN_VA_OFFSET \<le> fn_addr" "KERN_VA_OFFSET \<le> sp" "KERN_VA_OFFSET \<le> st"
  obtains s a s2 s3 mem n where "memory_init (phys_to_virt kend) = Some s" "verify_high_va fn_addr sp st s = Some (True, s2)"
    "demo_memory s2 m = Some (True, True, s3, mem)" "heap_inv s3 [(a, 65504, True)]" "used (hpmm s3) = {..<n + 16}"
    "(unat kend - 0x40000000 + 4095) div 4096 \<le> n" "n \<le> 1028"
proof -
  define n where "n = (unat kend - 0x40000000 + 4095) div 4096 + 4"
  have n: "n \<le> 1028" using kend by (simp add: n_def word_le_nat_alt RAM_BASE_def)
  then have T: "n + 16 + 16 \<le> TOTAL_PAGES" by (simp add: TOTAL_PAGES_def)
  obtain s a where s: "memory_init (phys_to_virt kend) = Some s" "heap_inv s [(a, 65504, True)]" "used (hpmm s) = {..<n + 16}"
    using memory_init_ok [OF kend] unfolding n_def by metis
  have sixteen: "spec_alloc (ALIGN16 16) [(a, 65504, True)] = Some (a, [(a, 16, False), (a + 48, 65456, True)])" "(16 :: u64) \<noteq> 0"
    by (simp_all add: carve_def ALIGN16_def)
  have one: "coalesced [(a, 65504, True)]" by simp
  obtain s1 where s1: "kmalloc 16 s = Some (a + 32, s1)" "heap_inv s1 [(a, 16, False), (a + 48, 65456, True)]" "hpmm s1 = hpmm s" "a + 32 \<noteq> 0"
    "\<forall>t. heap_chain t [(a, 16, False), (a + 48, 65456, True)] \<longrightarrow> (\<exists>t'. kfree (a + 32) t = Some t' \<and> heap_chain t' [(a, 65504, True)])"
    using kmalloc_then_kfree [OF s(2) one sixteen(2,1)] .
  have "heap_chain s1 [(a, 16, False), (a + 48, 65456, True)]" using s1(2) by (simp only: heap_inv_def heap_is_def)
  then obtain s2 where s2: "kfree (a + 32) s1 = Some s2" "heap_chain s2 [(a, 65504, True)]" using s1(5) by blast
  have h2: "hpmm s2 = hpmm s" using kfree_hpmm [OF s2(1)] s1(3) by simp
  have va: "verify_high_va fn_addr sp st s = Some (True, s2)" using addrs s1(1) s2(1) by (simp add: verify_high_va_def not_less)
  note i2 = heap_inv_chain [OF s(2) s2(2) h2]
  obtain s3 mem where s3: "demo_memory s2 m = Some (True, True, s3, mem)" "heap_inv s3 [(a, 65504, True)]" "hpmm s3 = hpmm s2"
    using demo_memory_ok [OF i2 _ T] s(3) h2 by metis
  show ?thesis by (rule that [where n = n, OF s(1) va s3(1,2)]) (use s(3) s3(3) h2 n in \<open>simp_all add: n_def\<close>)
qed

lemma demo_filesystem_ok:
  assumes h: "heap_inv s [(a, 65504, True)]" "used (hpmm s) = {..<n}" "n \<le> 1044" and im: "image_ok {..<n} im" and mm: "kpmm mm = hpmm s"
    and dev: "virtio_blk_init b rings ptrs d m = Some (0, d', m')" and mnt: "fat16_mount dk (\<lambda>_. True) = Some fs"
    and f: "fat16_open dk fs shell_bin = Some f" "0 < unat (ff_file_size f)" "unat (fat_cache dk) + unat (ff_file_size f) \<le> 65000"
      "0 < unat (sectors_per_cluster (bpb fs))" "file_ok dk fs (ff_first_cluster f) (unat (ff_file_size f))"
  obtains s' k' u where "demo_filesystem im b rings ptrs dk d m s (boot_kernel im mm) =
      Some (Shell (fst (fat16_list_root dk fs)) (Started (int (unat (ff_file_size f))) 1), s', k', d', m')"
    "kernel_inv im ({..<n}, k')" "num_tasks k' = 2" "current_task k' = 0" "hpmm s' = kpmm (kmm k')"
    "holds_program k' 1 (unat (ff_file_size f)) (file_byte dk fs (ff_first_cluster f))"
    "heap_chain s' [(a, ALIGN16 (ucast (fat_cache dk)), False), (a + 32 + ALIGN16 (ucast (fat_cache dk)), u, True)]"
proof -
  let ?n = "ucast (fat_cache dk) :: u64" and ?k = "sched_init (boot_kernel im mm)"
  have "fat_cache dk \<noteq> 0" using mnt by (auto simp: fat16_mount_def fat_cache_def Let_def split: option.splits if_splits)
  then have fc: "0 < unat (fat_cache dk)" using unat_eq_0 by auto
  note r = room_for_both(1-3) [where a = a, OF fc f(3) refl refl refl] room_for_both(4) [OF fc f(3) refl refl refl]
  obtain s1 where s1: "kmalloc ?n s = Some (a + 32, s1)" "heap_inv s1 [(a, ALIGN16 ?n, False), (a + 32 + ALIGN16 ?n, 65504 - ALIGN16 ?n - 32, True)]" "hpmm s1 = hpmm s" "a + 32 \<noteq> 0"
    using kmalloc_then_kfree [OF h(1) _ r(4,1)] by auto
  have mr: "mount_root dk s = Some (Some fs, s1)" using s1(1,4) mount_any [OF mnt] by (simp add: mount_root_def)
  have kk: "kmm ?k = mm" "num_tasks ?k = 1" "current_task ?k = 0"
    by (subst sched_init_inv [of _ im]; simp add: boot_kernel_def zero_task_def SCHED_MAX_TASKS_def)+
  have "pmm_inv (kpmm mm)" using h(1) mm by (simp add: heap_inv_def)
  then have inv: "kernel_inv im (used (hpmm s1), ?k)" using boot_kernel_inv [of mm "{..<n}" im] h(2) mm im by (simp add: s1(3))
  obtain bs where bs: "spec_alloc (ALIGN16 (ucast (ff_file_size f))) [(a, ALIGN16 ?n, False), (a + 32 + ALIGN16 ?n, 65504 - ALIGN16 ?n - 32, True)]
      = Some (a + 32 + ALIGN16 ?n, bs)" using r(2) by blast
  let ?p = "unat (image_pages (ff_file_size f))"
  have "?p \<le> 20" using shell_pages f(2,3) by simp
  then have "(n + ?p + 9) * (?p + 5) \<le> 1073 * 25" using h(3) by (intro mult_le_mono) simp_all
  then have room: "(card (used (hpmm s1)) + ?p + 9) * (?p + 5) \<le> TOTAL_PAGES" by (simp add: s1(3) h(2) TOTAL_PAGES_def)
  obtain s' k' where ld: "load_shell im dk fs s1 ?k = Some (Started (int (unat (ff_file_size f))) (int (num_tasks ?k)), s', k')"
    "kernel_inv im (used (hpmm s1), k')" "num_tasks k' = Suc (num_tasks ?k)" "current_task k' = current_task ?k"
    "holds_program k' (num_tasks ?k) (unat (ff_file_size f)) (file_byte dk fs (ff_first_cluster f))"
    "heap_chain s' [(a, ALIGN16 ?n, False), (a + 32 + ALIGN16 ?n, 65504 - ALIGN16 ?n - 32, True)]" "hpmm s' = kpmm (kmm k')"
    using load_shell_ok [OF s1(2) r(3) bs inv _ _ f(1,2) refl _ f(4,5) room] f(3) kk mm s1(3) by (auto simp: SCHED_MAX_TASKS_def)
  have "with_heap s1 (boot_kernel im mm) = boot_kernel im mm" by (rule with_heap_same) (simp add: boot_kernel_def mm s1(3))
  then have "demo_filesystem im b rings ptrs dk d m s (boot_kernel im mm) =
      Some (Shell (fst (fat16_list_root dk fs)) (Started (int (unat (ff_file_size f))) 1), s', k', d', m')"
    using dev mr ld(1) by (simp add: demo_filesystem_def kk(2))
  then show ?thesis using that ld(2-7) by (simp add: kk s1(3) h(2) numeral_2_eq_2)
qed

text \<open>
  C7: the boot reaches the first process. If the kernel image ends in the first four megabytes of RAM and the disk
  can be started, mounted and holds a shell that fits in the first heap pages together with the allocation
  table, then \<open>kernel_main\<close> passes its three self tests and arrives at its idle loop with one process, which is ready
  to run and whose memory is the file, followed by zeros; the kernel invariant holds, and of the heap only
  the cache of the allocation table is still in use.
\<close>

theorem kernel_main_boots:
  assumes kend: "RAM_BASE \<le> kend" "kend \<le> RAM_BASE + 0x400000" and im: "image_below kend im"
    and addrs: "KERN_VA_OFFSET \<le> fn_addr" "KERN_VA_OFFSET \<le> sp" "KERN_VA_OFFSET \<le> st"
    and dev: "virtio_blk_init b rings ptrs d m = Some (0, d', m')" and mnt: "fat16_mount dk (\<lambda>_. True) = Some fs"
    and f: "fat16_open dk fs shell_bin = Some f" "0 < unat (ff_file_size f)" "unat (fat_cache dk) + unat (ff_file_size f) \<le> 65000"
      "0 < unat (sectors_per_cluster (bpb fs))" "file_ok dk fs (ff_first_cluster f) (unat (ff_file_size f))"
  shows "\<exists>s k K. kernel_main im (phys_to_virt kend) (fn_addr, sp, st) b rings ptrs dk d m (boot_kernel im mm)
       = Some ((True, True, True, Shell (fst (fat16_list_root dk fs)) (Started (int (unat (ff_file_size f))) 1)), s, k, d', m')
     \<and> kernel_inv im (K, k) \<and> num_tasks k = 2 \<and> current_task k = 0 \<and> any_alive k
     \<and> holds_program k 1 (unat (ff_file_size f)) (file_byte dk fs (ff_first_cluster f))
     \<and> (\<exists>bs a. heap_chain s bs \<and> in_use bs = {(a, ALIGN16 (ucast (fat_cache dk)), False)}) \<and> hpmm s = kpmm (kmm k)"
proof -
  obtain s a s2 s3 mem n where t: "memory_init (phys_to_virt kend) = Some s" "verify_high_va fn_addr sp st s = Some (True, s2)"
    "demo_memory s2 (kbytes mm) = Some (True, True, s3, mem)" "heap_inv s3 [(a, 65504, True)]" "used (hpmm s3) = {..<n + 16}"
    "(unat kend - 0x40000000 + 4095) div 4096 \<le> n" "n \<le> 1028"
    using self_tests_ok [OF kend addrs] .
  let ?mm = "\<lparr>kbytes = mem, kpmm = hpmm s3\<rparr>" and ?u = "ALIGN16 (ucast (fat_cache dk)) :: u64"
  have i: "image_ok {..<n + 16} im" by (rule image_below_ok [OF im kend]) (use t(6,7) in \<open>simp_all add: TOTAL_PAGES_def\<close>)
  obtain s' k' u where r: "demo_filesystem im b rings ptrs dk d m s3 (boot_kernel im ?mm) =
      Some (Shell (fst (fat16_list_root dk fs)) (Started (int (unat (ff_file_size f))) 1), s', k', d', m')"
    "kernel_inv im ({..<n + 16}, k')" "num_tasks k' = 2" "current_task k' = 0" "hpmm s' = kpmm (kmm k')"
    "holds_program k' 1 (unat (ff_file_size f)) (file_byte dk fs (ff_first_cluster f))" "heap_chain s' [(a, ?u, False), (a + 32 + ?u, u, True)]"
    using demo_filesystem_ok [OF t(4,5) _ i _ dev mnt f, of ?mm] t(7) by auto
  have k0: "with_heap s3 (set_bytes (\<lambda>_. mem) (boot_kernel im mm)) = boot_kernel im ?mm"
    by (simp add: with_heap_def set_bytes_def boot_kernel_def)
  have "kbytes (kmm (boot_kernel im mm)) = kbytes mm" by (simp add: boot_kernel_def)
  then have km: "kernel_main im (phys_to_virt kend) (fn_addr, sp, st) b rings ptrs dk d m (boot_kernel im mm)
       = Some ((True, True, True, Shell (fst (fat16_list_root dk fs)) (Started (int (unat (ff_file_size f))) 1)), s', k', d', m')"
    using t(1-3) r(1) k0 by (simp add: kernel_main_def)
  have "any_alive k'" unfolding any_alive_def list_ex_iff
    using r(3,6) by (intro bexI [of _ 1]) (simp_all add: sched_task_count_def sched_get_task_def holds_program_def)
  moreover have "in_use [(a, ?u, False), (a + 32 + ?u, u, True)] = {(a, ?u, False)}" by simp
  ultimately show ?thesis using km r(2-7) by blast
qed

text \<open>A disk with a shell of five bytes in the one cluster that its directory entry names.\<close>

definition boot_disk :: disk where
  "boot_disk sec = Some (
     if sec = 0 then replicate 11 0 @ [0, 2, 1, 1, 0, 1, 16, 0, 100, 0, 0xF8, 1, 0] @ replicate 486 0 @ [0x55, 0xAA]
     else if sec = 1 then [0xF8, 0xFF, 0xFF, 0xFF, 0xFF, 0xFF] @ replicate 506 0
     else if sec = 2 then [0x53, 0x48, 0x45, 0x4C, 0x4C, 0x20, 0x20, 0x20, 0x42, 0x49, 0x4E, 0x20] @ replicate 14 0
       @ [2, 0, 5, 0, 0, 0] @ replicate 480 0
     else [1, 2, 3, 4, 5] @ replicate 507 0)"

lemma boot_readable: "readable boot_disk sec"
  by (simp add: readable_def boot_disk_def)

lemma boot_sector: "parse_bpb (the (boot_disk 0)) = demo_bpb" "the (boot_disk 0) ! 510 = 0x55" "the (boot_disk 0) ! 511 = 0xAA" "fat_cache boot_disk = 512"
proof -
  show b: "parse_bpb (the (boot_disk 0)) = demo_bpb" "the (boot_disk 0) ! 510 = 0x55" "the (boot_disk 0) ! 511 = 0xAA" by code_simp+
  then show "fat_cache boot_disk = 512" by (simp add: fat_cache_def boot_disk_def demo_bpb_def)
qed

lemma boot_mount:
  obtains fs where "fat16_mount boot_disk (\<lambda>_. True) = Some fs" "bpb fs = demo_bpb" "length (fat_table fs) = 256"
proof -
  obtain b0 b1 where b: "boot_disk 0 = Some b0" "boot_disk 1 = Some b1" "length b1 = 512" by (simp add: boot_disk_def)
  have "parse_bpb b0 = demo_bpb" "b0 ! 510 = 0x55" "b0 ! 511 = 0xAA" using boot_sector(1-3) by (simp_all add: b(1))
  then have "fat16_mount boot_disk (\<lambda>_. True) = Some \<lparr>bpb = demo_bpb, fat_table = map (\<lambda>i. read16 b1 (2 * i)) [0..<256]\<rparr>"
    using b by (simp add: fat16_mount_def demo_bpb_def)
  then show ?thesis by (rule that) simp_all
qed

lemma boot_file: "bpb fs = demo_bpb \<Longrightarrow>
  fat16_open boot_disk fs shell_bin = Some \<lparr>ff_first_cluster = 2, ff_file_size = 5, ff_position = 0, ff_current_cluster = 2\<rparr>"
proof -
  assume fs: "bpb fs = demo_bpb"
  have "fat16_open boot_disk fs shell_bin = dir_find (to_fat83 shell_bin) (dir_entries boot_disk 2 1)"
    using open_sectors_find [OF length_to_fat83, of 1 boot_disk 2] boot_readable by (simp add: fat16_open_def fs demo_bpb_def)
  moreover have "dir_entries boot_disk 2 1 = parse_dirent (take 32 (the (boot_disk 2)))
      # map (\<lambda>i. parse_dirent (take 32 (drop (i * 32) (the (boot_disk 2))))) [1..<16]"
    by (simp add: dir_entries_def sector_entries_def upt_conv_Cons)
  moreover have "to_fat83 shell_bin = [0x53, 0x48, 0x45, 0x4C, 0x4C, 0x20, 0x20, 0x20, 0x42, 0x49, 0x4E]" by code_simp
  moreover have "parse_dirent (take 32 (the (boot_disk 2))) = \<lparr>de_name = [0x53, 0x48, 0x45, 0x4C, 0x4C, 0x20, 0x20, 0x20],
      de_ext = [0x42, 0x49, 0x4E], de_attr = 0x20, de_first_cluster = 2, de_file_size = 5\<rparr>"
    by code_simp
  ultimately show ?thesis by (simp add: dir_find_def live_def file_of_def)
qed

lemma demo_image_below: "image_below 0x40110000 demo_im"
  unfolding image_below_def
proof (intro conjI allI impI)
  show "16 dvd unat (task_stacks demo_im)" by (simp add: demo_im_def)
  fix x :: u64 assume x: "unat (x - task_stacks demo_im) < SCHED_MAX_TASKS * SCHED_STACK_SIZE"
  define y where "y = x - 0xFFFFFF8040100000"
  have y: "unat y < 65536" using x by (simp add: y_def demo_im_def SCHED_MAX_TASKS_def SCHED_STACK_SIZE_def)
  have "x = 0xFFFFFF8040100000 + y" by (simp add: y_def)
  then have "unat x = 0xFFFFFF8040100000 + unat y" using y by (simp add: unat_add_small)
  then show "phys_to_virt RAM_BASE \<le> x" "x < phys_to_virt 0x40110000"
    using y by (simp_all add: word_le_nat_alt word_less_nat_alt phys_to_virt_def KERN_VA_OFFSET_def RAM_BASE_def)
qed

theorem kernel_main_boots_witness:
  "\<exists>r s k d' m' K. kernel_main demo_im 0xFFFFFF8040110000 (0xFFFFFF8040080000, 0xFFFFFF8040100000, 0xFFFFFF8040090000)
       (logged (demo_vdev 0x1042)) demo_rings (0, 0, 0) boot_disk demo_blk_dev (demo_m 0 [] 0x10000000) (boot_kernel demo_im demo_mm)
     = Some ((True, True, True, r), s, k, d', m')
     \<and> kernel_inv demo_im (K, k) \<and> num_tasks k = 2 \<and> process_byte k 1 0x400000 = Some 1 \<and> process_byte k 1 0x400004 = Some 5 \<and> process_byte k 1 0x400005 = Some 0"
proof -
  let ?f = "\<lparr>ff_first_cluster = 2, ff_file_size = 5, ff_position = 0, ff_current_cluster = 2\<rparr>"
  obtain fs where fs: "fat16_mount boot_disk (\<lambda>_. True) = Some fs" "bpb fs = demo_bpb" "length (fat_table fs) = 256" by (rule boot_mount)
  obtain d' m' where dev: "virtio_blk_init (logged (demo_vdev 0x1042)) demo_rings (0, 0, 0) demo_blk_dev (demo_m 0 [] 0x10000000) = Some (0, d', m')"
    using demo_blk_started by blast
  have ok: "file_ok boot_disk fs (ff_first_cluster ?f) (unat (ff_file_size ?f))"
  proof -
    have "k * 512 < (5 :: nat) \<longleftrightarrow> k = 0" for k by arith
    then show ?thesis using fs by (simp add: file_ok_def boot_readable demo_bpb_def)
  qed
  have h: "RAM_BASE \<le> 0x40110000" "0x40110000 \<le> RAM_BASE + 0x400000" "KERN_VA_OFFSET \<le> 0xFFFFFF8040080000" "KERN_VA_OFFSET \<le> 0xFFFFFF8040100000"
    "KERN_VA_OFFSET \<le> 0xFFFFFF8040090000" "0 < unat (ff_file_size ?f)" "unat (fat_cache boot_disk) + unat (ff_file_size ?f) \<le> 65000"
    "0 < unat (sectors_per_cluster (bpb fs))"
    by (simp_all add: RAM_BASE_def KERN_VA_OFFSET_def boot_sector fs(2) demo_bpb_def)
  have e: "phys_to_virt 0x40110000 = 0xFFFFFF8040110000" by (simp add: phys_to_virt_def KERN_VA_OFFSET_def)
  obtain s k K where r: "kernel_main demo_im 0xFFFFFF8040110000 (0xFFFFFF8040080000, 0xFFFFFF8040100000, 0xFFFFFF8040090000)
       (logged (demo_vdev 0x1042)) demo_rings (0, 0, 0) boot_disk demo_blk_dev (demo_m 0 [] 0x10000000) (boot_kernel demo_im demo_mm)
     = Some ((True, True, True, Shell (fst (fat16_list_root boot_disk fs)) (Started (int (unat (ff_file_size ?f))) 1)), s, k, d', m')"
    "kernel_inv demo_im (K, k)" "num_tasks k = 2" "holds_program k 1 (unat (ff_file_size ?f)) (file_byte boot_disk fs (ff_first_cluster ?f))"
    using kernel_main_boots [OF h(1,2) demo_image_below h(3-5) dev fs(1) boot_file [OF fs(2)] h(6-8) ok, of demo_mm] unfolding e
    by (elim exE conjE) (rule that)
  have "process_byte k 1 (USER_VA_CODE + of_nat i) = Some (if i < 5 then file_byte boot_disk fs 2 i else 0)" if "i < 6" for i
  proof -
    have "0 < unat (code_pages (task_at k 1))" using r(4) by (intro gr0I) (simp add: holds_program_def)
    then have "i < unat (code_pages (task_at k 1)) * 4096" using that by linarith
    then show ?thesis using r(4) by (simp add: holds_program_def)
  qed
  from this [of 0] this [of 4] this [of 5]
  have "process_byte k 1 0x400000 = Some 1" "process_byte k 1 0x400004 = Some 5" "process_byte k 1 0x400005 = Some 0"
    by (simp_all add: USER_VA_CODE_def file_byte_def block_sector_def fs(2) demo_bpb_def boot_disk_def Let_def)
  then show ?thesis using r(1-3) by blast
qed

end
