(* ===== verification/Buffers.thy ===== *)
theory Buffers
  imports Syscall
begin

text \<open>
  Why \<open>sys_read\<close> may find the bytes that \<open>fd_read\<close> stores by running it on two buffers: \<open>fd_read\<close> stores the same
  bytes at the same places whatever the buffer of its caller holds.
\<close>

text \<open>A buffer with the stores \<open>w\<close> made to it.\<close>

definition overlay :: "(u32 \<Rightarrow> u8 option) \<Rightarrow> (u32 \<Rightarrow> u8) \<Rightarrow> u32 \<Rightarrow> u8" where
  "overlay w d i = (case w i of None \<Rightarrow> d i | Some b \<Rightarrow> b)"

lemma overlay_empty [simp]: "overlay Map.empty d = d"
  by (simp add: overlay_def fun_eq_iff)

lemma overlay_upd [simp]: "(overlay w d)(i := b) = overlay (w(i \<mapsto> b)) d"
  by (simp add: overlay_def fun_eq_iff)

lemma stored_overlay [simp]: "stored (overlay w (\<lambda>_. 0)) (overlay w (\<lambda>_. 1)) = w"
  by (auto simp: stored_def overlay_def fun_eq_iff split: option.splits)

lemma overlay_fold: "fold (\<lambda>j d. d(f j := g j)) js (overlay w d) = overlay (fold (\<lambda>j w. w(f j \<mapsto> g j)) js w) d"
  by (induction js arbitrary: w) simp_all

lemma read_sectors_overlay: "\<exists>x w'. \<forall>d. read_sectors dk sec k to_read n (overlay w d) = (x, overlay w' d)"
proof (induction k arbitrary: sec n w)
  case (Suc k)
  show ?case
    by (cases "n < to_read"; cases "dk sec") (auto simp: overlay_fold Let_def Suc.IH)
qed auto

lemma read_chain_overlay:
  assumes "read_chain dk fs to_read c n (overlay w d) = Some r"
  shows "\<exists>x w'. \<forall>d. read_chain dk fs to_read c n (overlay w d) = Some (x, overlay w' d)"
proof -
  have "\<forall>w d. b = overlay w d \<longrightarrow> (\<exists>x w'. \<forall>d. read_chain dk fs to_read c n (overlay w d) = Some (x, overlay w' d))"
    if "read_chain dk fs to_read c n b = Some r" for dk fs to_read c n b r
  proof (rule read_chain.raw_induct [where P = "\<lambda>dk fs to_read c n b r. \<forall>w d. b = overlay w d \<longrightarrow>
      (\<exists>x w'. \<forall>d. read_chain dk fs to_read c n (overlay w d) = Some (x, overlay w' d))", OF _ that], intro allI impI)
    fix rc :: "disk \<Rightarrow> fat16_fs \<Rightarrow> u32 \<Rightarrow> u16 \<Rightarrow> u32 \<Rightarrow> (u32 \<Rightarrow> u8) \<Rightarrow> (int \<times> (u32 \<Rightarrow> u8)) option"
      and dk fs to_read n b r w d and c :: u16
    assume IH: "\<And>dk fs to_read c n b r. rc dk fs to_read c n b = Some r \<Longrightarrow> \<forall>w d. b = overlay w d \<longrightarrow>
        (\<exists>x w'. \<forall>d. read_chain dk fs to_read c n (overlay w d) = Some (x, overlay w' d))"
      and body: "(if n < to_read \<and> 2 \<le> c \<and> c < 0xFFF8 then
        (case read_sectors dk (data_start_sector (bpb fs) + ucast (c - 2) * ucast (sectors_per_cluster (bpb fs)))
            (unat (sectors_per_cluster (bpb fs))) to_read n b of
           (Inl _, dst) \<Rightarrow> Some (-1, dst)
         | (Inr n, dst) \<Rightarrow> if unat c < length (fat_table fs) then rc dk fs to_read (fat_table fs ! unat c) n dst else None)
      else Some (sint n, b)) = Some r"
      and b: "b = overlay w d"
    let ?sec = "data_start_sector (bpb fs) + ucast (c - 2) * ucast (sectors_per_cluster (bpb fs))"
    obtain y v where rs: "\<And>d. read_sectors dk ?sec (unat (sectors_per_cluster (bpb fs))) to_read n (overlay w d) = (y, overlay v d)"
      using read_sectors_overlay by metis
    show "\<exists>x w'. \<forall>d. read_chain dk fs to_read c n (overlay w d) = Some (x, overlay w' d)"
    proof (cases "n < to_read \<and> 2 \<le> c \<and> c < 0xFFF8")
      case False
      then show ?thesis by (subst read_chain.simps) auto
    next
      case True
      show ?thesis
      proof (cases y)
        case (Inl z)
        then show ?thesis using True by (subst read_chain.simps) (auto simp: rs)
      next
        case (Inr n2)
        have l: "unat c < length (fat_table fs)" and "rc dk fs to_read (fat_table fs ! unat c) n2 (overlay v d) = Some r"
          using body True Inr by (auto simp: b rs split: if_splits)
        from IH [OF this(2)] obtain x w' where
          "\<And>d. read_chain dk fs to_read (fat_table fs ! unat c) n2 (overlay v d) = Some (x, overlay w' d)" by blast
        then have "read_chain dk fs to_read c n (overlay w e) = Some (x, overlay w' e)" for e
          using True Inr l by (subst read_chain.simps) (simp add: rs)
        then show ?thesis by blast
      qed
    qed
  qed
  then show ?thesis using assms by blast
qed

lemma read_file_overlay:
  "(\<forall>d. fat16_read_file dk fs f (overlay w d) n = None) \<or> (\<exists>x w'. \<forall>d. fat16_read_file dk fs f (overlay w d) n = Some (x, overlay w' d))"
proof (cases "\<forall>d. fat16_read_file dk fs f (overlay w d) n = None")
  case False
  then obtain d r where "read_chain dk fs (if ff_file_size f > n then n else ff_file_size f) (ff_first_cluster f) 0 (overlay w d) = Some r"
    by (auto simp: fat16_read_file_def)
  from read_chain_overlay [OF this] show ?thesis by (simp add: fat16_read_file_def)
qed simp

lemma file_read_overlay:
  "(\<forall>d. file_read dk fs got jk f (overlay w d) n = None) \<or> (\<exists>x w' f'. \<forall>d. file_read dk fs got jk f (overlay w d) n = Some (x, overlay w' d, f'))"
proof (cases "f_position f \<ge> f_file_size f")
  case False
  let ?n = "if n > f_file_size f - f_position f then f_file_size f - f_position f else n"
  let ?t = "\<lparr>ff_first_cluster = f_first_cluster f, ff_file_size = f_file_size f, ff_position = f_position f, ff_current_cluster = f_first_cluster f\<rparr>"
  show ?thesis
    using read_file_overlay [of dk fs ?t w "f_position f + ?n"]
  proof
    assume "\<forall>d. fat16_read_file dk fs ?t (overlay w d) (f_position f + ?n) = None"
    then show ?thesis using False by (simp add: file_read_def Let_def)
  next
    assume "\<exists>x w'. \<forall>d. fat16_read_file dk fs ?t (overlay w d) (f_position f + ?n) = Some (x, overlay w' d)"
    then obtain x v where "\<And>d. fat16_read_file dk fs ?t (overlay w d) (f_position f + ?n) = Some (x, overlay v d)" by blast
    then show ?thesis using False
      by (cases "fat16_read_file dk fs ?t jk (f_position f + ?n)"; cases "fst (the (fat16_read_file dk fs ?t jk (f_position f + ?n))) > sint (f_position f)")
        (auto simp: file_read_def Let_def overlay_fold cong: if_cong)
  qed
qed (simp add: file_read_def, metis)

lemma console_read_overlay:
  "(\<forall>d. console_read count i (overlay w d) echo inp = None)
    \<or> (\<exists>j w' es rest. \<forall>d. console_read count i (overlay w d) echo inp = Some (j, overlay w' d, es, rest))"
proof (induction inp arbitrary: i w echo)
  case (Cons c inp)
  consider "\<not> i < count - 1 \<or> c = 0x0D \<or> c = 0x0A" | "i < count - 1" "c = 127 \<or> c = 8" "i > 0"
    | "i < count - 1" "c = 127 \<or> c = 8" "\<not> i > 0" | "i < count - 1" "c \<noteq> 127" "c \<noteq> 8" "c \<noteq> 0x0D" "c \<noteq> 0x0A" "c \<ge> 32 \<and> c < 127"
    | "i < count - 1" "c \<noteq> 127" "c \<noteq> 8" "c \<noteq> 0x0D" "c \<noteq> 0x0A" "\<not> (c \<ge> 32 \<and> c < 127)"
    by blast
  then show ?case
  proof cases
    case 1
    then show ?thesis by (cases "i < count - 1") auto
  next
    case 2
    then show ?thesis using Cons.IH [of "i - 1" w "echo @ [8, 0x20, 8]"] by auto
  next
    case 3
    then show ?thesis using Cons.IH [of i w echo] by auto
  next
    case 4
    then show ?thesis using Cons.IH [of "i + 1" "w(i \<mapsto> c)" "echo @ [c]"] by (simp only: console_read.simps if_True if_False simp_thms overlay_upd)
  next
    case 5
    then show ?thesis using Cons.IH [of i w echo] by (simp only: console_read.simps if_True if_False simp_thms)
  qed
qed auto

lemma fd_read_overlay:
  "(\<forall>d. fd_read dk fs got jk tab fd (overlay w d) count s u = None)
    \<or> (\<exists>s' u'. \<forall>d. fd_read dk fs got jk tab fd (overlay w d) count s u = Some (Blocked, s', u'))
    \<or> (\<exists>r w' s' u'. \<forall>d. fd_read dk fs got jk tab fd (overlay w d) count s u = Some (Done (r, overlay w' d), s', u'))"
proof (cases "fd_valid tab fd \<and> files s (the (tab ! nat fd)) \<noteq> None")
  case True
  then obtain f where f: "fd_valid tab fd" "files s (the (tab ! nat fd)) = Some f" by blast
  show ?thesis
  proof (cases "ftype f")
    case FD_TYPE_CONSOLE
    then show ?thesis using f console_read_overlay [of count 0 w "[]" "rx u"] by (auto simp: fd_read_def)
  next
    case FD_TYPE_PIPE
    then show ?thesis using f
      by (cases "fpipe f = 0"; cases "pipes s (fpipe f)"; cases "pipe_read count (the (pipes s (fpipe f)))"; cases "fst (pipe_read count (the (pipes s (fpipe f))))")
        (auto simp: fd_read_def overlay_fold)
  next
    case FD_TYPE_FILE
    then show ?thesis using f file_read_overlay [of dk fs got jk f w count] by (auto simp: fd_read_def)
  qed (use f in \<open>auto simp: fd_read_def\<close>)
qed (auto simp: fd_read_def)

text \<open>What is in the buffer after \<open>fd_read\<close> are the stored bytes, and what was there before everywhere else.\<close>

lemma fd_read_stored:
  assumes "fd_read dk fs got jk tab fd buf count s u = Some (Done (r, buf'), s', u')"
  obtains on_zeros on_ones where
    "fd_read dk fs got jk tab fd (\<lambda>_. 0) count s u = Some (Done (r, on_zeros), s', u')"
    "fd_read dk fs got jk tab fd (\<lambda>_. 1) count s u = Some (Done (r, on_ones), s', u')"
    "buf' = overlay (stored on_zeros on_ones) buf"
proof -
  obtain w where "\<And>d. fd_read dk fs got jk tab fd d count s u = Some (Done (r, overlay w d), s', u')" "buf' = overlay w buf"
    using fd_read_overlay [of dk fs got jk tab fd Map.empty count s u] assms by auto
  then show ?thesis using that by simp
qed

end
