(* ===== verification/Usys.thy ===== *)
theory Usys
  imports SyscallSpec
begin

text \<open>
  What a user program does, as the kernel sees it: loads and stores in its own memory and system calls.
  The wrappers and helpers of \<^verbatim>\<open>src/uprogs/usys.h\<close>, and the helpers that the programs under \<^verbatim>\<open>src/uprogs\<close> share.
\<close>

section \<open>Programs\<close>

text \<open>
  \<open>Svc\<close>: a system call with its number and arguments; the rest of the program depends on the result.
  Programs may run forever, so they are a codatatype; a function of a program takes what comes
  after it as its last argument. \<open>Continue\<close> and \<open>Break\<close> end the body of a loop.
\<close>

codatatype prog =
    Unreachable
  | Continue
  | Break
  | Fetch u64 "u8 \<Rightarrow> prog"
  | Store u64 u8 prog
  | Svc u64 u64 u64 u64 "u64 \<Rightarrow> prog"

text \<open>Where the linker and the compiler put string literals and local or static variables.\<close>

record layout =
  lit :: "string \<Rightarrow> u64"
  var :: "string \<Rightarrow> u64"

section \<open>System calls\<close>

definition STDIN :: int where "STDIN = 0"
definition STDOUT :: int where "STDOUT = 1"
definition SIGUSR1 :: int where "SIGUSR1 = 10"

definition syscall3 :: "u64 \<Rightarrow> u64 \<Rightarrow> u64 \<Rightarrow> u64 \<Rightarrow> (u64 \<Rightarrow> prog) \<Rightarrow> prog" where
  "syscall3 num a0 a1 a2 next = Svc num a0 a1 a2 next"

definition syscall2 :: "u64 \<Rightarrow> u64 \<Rightarrow> u64 \<Rightarrow> (u64 \<Rightarrow> prog) \<Rightarrow> prog" where
  "syscall2 num a0 a1 = syscall3 num a0 a1 0"

definition syscall1 :: "u64 \<Rightarrow> u64 \<Rightarrow> (u64 \<Rightarrow> prog) \<Rightarrow> prog" where
  "syscall1 num a0 = syscall3 num a0 0 0"

definition syscall0 :: "u64 \<Rightarrow> (u64 \<Rightarrow> prog) \<Rightarrow> prog" where
  "syscall0 num = syscall3 num 0 0 0"

definition u_read :: "int \<Rightarrow> u64 \<Rightarrow> u64 \<Rightarrow> (u64 \<Rightarrow> prog) \<Rightarrow> prog" where
  "u_read fd buf count = syscall3 0 (of_int fd) buf count"

definition u_write :: "int \<Rightarrow> u64 \<Rightarrow> u64 \<Rightarrow> (u64 \<Rightarrow> prog) \<Rightarrow> prog" where
  "u_write fd buf count = syscall3 1 (of_int fd) buf count"

definition u_open :: "u64 \<Rightarrow> int \<Rightarrow> (u64 \<Rightarrow> prog) \<Rightarrow> prog" where
  "u_open path flags = syscall2 2 path (of_int flags)"

definition u_close :: "int \<Rightarrow> (u64 \<Rightarrow> prog) \<Rightarrow> prog" where
  "u_close fd = syscall1 3 (of_int fd)"

definition u_getpid :: "(u64 \<Rightarrow> prog) \<Rightarrow> prog" where
  "u_getpid = syscall0 4"

definition u_exit :: "int \<Rightarrow> prog" where
  "u_exit code = syscall1 5 (of_int code) (\<lambda>_. Unreachable)"

definition u_yield :: "prog \<Rightarrow> prog" where
  "u_yield next = syscall0 6 (\<lambda>_. next)"

definition u_exec :: "u64 \<Rightarrow> u64 \<Rightarrow> (u64 \<Rightarrow> prog) \<Rightarrow> prog" where
  "u_exec name len = syscall2 7 name len"

definition u_wait :: "int \<Rightarrow> (u64 \<Rightarrow> prog) \<Rightarrow> prog" where
  "u_wait t = syscall1 8 (of_int t)"

definition u_sbrk :: "u64 \<Rightarrow> (u64 \<Rightarrow> prog) \<Rightarrow> prog" where
  "u_sbrk sz = syscall1 9 sz"

definition u_listdir :: "u64 \<Rightarrow> u64 \<Rightarrow> (u64 \<Rightarrow> prog) \<Rightarrow> prog" where
  "u_listdir buf buflen = syscall2 10 buf buflen"

definition u_fork :: "(u64 \<Rightarrow> prog) \<Rightarrow> prog" where
  "u_fork = syscall0 11"

definition u_pipe :: "u64 \<Rightarrow> (u64 \<Rightarrow> prog) \<Rightarrow> prog" where
  "u_pipe pipefd = syscall1 12 pipefd"

definition u_dup2 :: "int \<Rightarrow> int \<Rightarrow> (u64 \<Rightarrow> prog) \<Rightarrow> prog" where
  "u_dup2 oldfd newfd = syscall2 13 (of_int oldfd) (of_int newfd)"

definition u_kill :: "int \<Rightarrow> int \<Rightarrow> (u64 \<Rightarrow> prog) \<Rightarrow> prog" where
  "u_kill pid sg = syscall2 14 (of_int pid) (of_int sg)"

definition u_signal :: "int \<Rightarrow> u64 \<Rightarrow> (u64 \<Rightarrow> prog) \<Rightarrow> prog" where
  "u_signal sg handler = syscall2 15 (of_int sg) handler"

section \<open>Helpers\<close>

primcorec strlen_from :: "u64 \<Rightarrow> u64 \<Rightarrow> (u64 \<Rightarrow> prog) \<Rightarrow> prog" where
  "strlen_from s n next = Fetch (s + n) (\<lambda>b. if b = 0 then next n else strlen_from s (n + 1) next)"

definition strlen :: "u64 \<Rightarrow> (u64 \<Rightarrow> prog) \<Rightarrow> prog" where
  "strlen s = strlen_from s 0"

definition print :: "u64 \<Rightarrow> prog \<Rightarrow> prog" where
  "print s next = strlen s (\<lambda>n. u_write STDOUT s n (\<lambda>_. next))"

text \<open>An \<open>int\<close> result of a call, and the \<open>int\<close> in four bytes of memory.\<close>

definition to_int :: "u64 \<Rightarrow> int" where
  "to_int x = sint (ucast x :: u32)"

definition fetch_int :: "u64 \<Rightarrow> (int \<Rightarrow> prog) \<Rightarrow> prog" where
  "fetch_int a next = Fetch a (\<lambda>b0. Fetch (a + 1) (\<lambda>b1. Fetch (a + 2) (\<lambda>b2. Fetch (a + 3) (\<lambda>b3.
     next (to_int (ucast b0 OR push_bit 8 (ucast b1) OR push_bit 16 (ucast b2) OR push_bit 24 (ucast b3)))))))"

definition store_int :: "u64 \<Rightarrow> int \<Rightarrow> prog \<Rightarrow> prog" where
  "store_int a n next = (let w = of_int n :: u32 in
     Store a (ucast w) (Store (a + 1) (ucast (drop_bit 8 w)) (Store (a + 2) (ucast (drop_bit 16 w)) (Store (a + 3) (ucast (drop_bit 24 w)) next))))"

text \<open>A loop that runs \<open>n\<close> times, from \<open>i\<close> on.\<close>

primrec for_from :: "nat \<Rightarrow> nat \<Rightarrow> (nat \<Rightarrow> prog \<Rightarrow> prog) \<Rightarrow> prog \<Rightarrow> prog" where
  "for_from 0 i body next = next"
| "for_from (Suc n) i body next = body i (for_from n (Suc i) body next)"

text \<open>Of an \<open>int64_t\<close>.\<close>

definition positive :: "u64 \<Rightarrow> bool" where
  "positive n \<longleftrightarrow> 0 < sint n"

text \<open>
  Loops that may run forever: \<open>Continue\<close> in \<open>body\<close> starts the next iteration, \<open>Break\<close> goes on with \<open>after\<close>.
  The state is whether the loop still runs, and what is left of the program.
\<close>

fun again :: "prog \<Rightarrow> prog \<Rightarrow> bool \<times> prog \<Rightarrow> bool \<times> prog" where
  "again body after (r, p) = (if r then (case p of Continue \<Rightarrow> (True, body) | Break \<Rightarrow> (False, after) | _ \<Rightarrow> (True, p)) else (False, p))"

primcorec looping :: "prog \<Rightarrow> prog \<Rightarrow> bool \<times> prog \<Rightarrow> prog" where
  "looping body after st =
     (case snd (again body after st) of
        Unreachable \<Rightarrow> Unreachable
      | Continue \<Rightarrow> Continue
      | Break \<Rightarrow> Break
      | Fetch a f \<Rightarrow> Fetch a (\<lambda>b. looping body after (fst (again body after st), f b))
      | Store a b q \<Rightarrow> Store a b (looping body after (fst (again body after st), q))
      | Svc num a0 a1 a2 f \<Rightarrow> Svc num a0 a1 a2 (\<lambda>x. looping body after (fst (again body after st), f x)))"

definition loop :: "prog \<Rightarrow> prog \<Rightarrow> prog" where
  "loop body after = looping body after (True, body)"

definition forever :: "prog \<Rightarrow> prog" where
  "forever body = loop body Unreachable"

section \<open>Printing numbers\<close>

text \<open>The digits of a number, the last one first.\<close>

function digits :: "u64 \<Rightarrow> u8 list" where
  "digits n = (if positive n then (48 + ucast (n mod 10)) # digits (n div 10) else [])"
  by pat_completeness auto

lemma positive_nonzero: "positive n \<Longrightarrow> 0 < unat n"
  by (auto simp: positive_def unat_gt_0)

termination digits
  by (relation "measure unat") (auto simp: unat_div dest!: positive_nonzero)

declare digits.simps [simp del]

primrec put_digits :: "u64 \<Rightarrow> u8 list \<Rightarrow> nat \<Rightarrow> (nat \<Rightarrow> prog) \<Rightarrow> prog" where
  "put_digits buf [] i next = next i"
| "put_digits buf (d # ds) i next = Store (buf + of_nat i) d (put_digits buf ds (Suc i) next)"

primrec write_digits :: "u64 \<Rightarrow> nat \<Rightarrow> prog \<Rightarrow> prog" where
  "write_digits buf 0 next = next"
| "write_digits buf (Suc i) next = u_write STDOUT (buf + of_nat i) 1 (\<lambda>_. write_digits buf i next)"

text \<open>\<open>print_num\<close> of \<open>pipetest\<close>, \<open>sigtest\<close> and \<open>sbrktest\<close>, and that of \<open>forktest\<close>.\<close>

definition u_print_num :: "layout \<Rightarrow> u64 \<Rightarrow> prog \<Rightarrow> prog" where
  "u_print_num l n next =
     (let show = (\<lambda>n. put_digits (var l ''buf'') (digits n) 0 (\<lambda>i. write_digits (var l ''buf'') i next))
      in if n = 0 then print (lit l ''0'') next
         else if sint n < 0 then print (lit l ''-'') (show (- n))
         else show n)"

definition fork_print_num :: "layout \<Rightarrow> u64 \<Rightarrow> prog \<Rightarrow> prog" where
  "fork_print_num l n next =
     (let show = (\<lambda>n. if n = 0 then Store (var l ''buf'') 48 (write_digits (var l ''buf'') 1 next)
        else put_digits (var l ''buf'') (digits n) 0 (\<lambda>i. write_digits (var l ''buf'') i next))
      in if sint n < 0 then print (lit l ''-'') (show (- n)) else show n)"

end
