(* ===== verification/Programs.thy ===== *)
theory Programs
  imports Usys Shell
begin

text \<open>
  The test programs \<^verbatim>\<open>forktest\<close>, \<^verbatim>\<open>pipetest\<close>, \<^verbatim>\<open>sigtest\<close> and \<^verbatim>\<open>sbrktest\<close> under \<^verbatim>\<open>src/uprogs\<close>, and the
  commands of the shell, as programs.
\<close>

definition nl :: "string \<Rightarrow> string" where
  "nl s = s @ [CHR 0x0A]"

definition put_char_at :: "u64 \<Rightarrow> u8 \<Rightarrow> prog \<Rightarrow> prog" where
  "put_char_at a c next = Store a c (u_write STDOUT a 1 (\<lambda>_. next))"

section \<open>forktest\<close>

definition forktest_child :: "layout \<Rightarrow> prog" where
  "forktest_child l =
     print (lit l ''[forktest] Child here! PID='') (u_getpid (\<lambda>p. fork_print_num l p (print (lit l (nl [])) (
     print (lit l ''[forktest] Child counting: '') (
     for_from 5 1 (\<lambda>i next. put_char_at (var l ''c'') (48 + of_nat i) (print (lit l '' '') (u_yield next))) (
     print (lit l (nl [])) (
     print (lit l (nl ''[forktest] Child exiting'')) (u_exit 0))))))))"

definition forktest_main :: "layout \<Rightarrow> prog" where
  "forktest_main l =
     (let fin = print (lit l (nl ''[forktest] Done'')) (u_exit 0) in
     print (lit l ''[forktest] Parent PID='') (u_getpid (\<lambda>p. fork_print_num l p (print (lit l (nl [])) (
     u_fork (\<lambda>pid.
       if pid = 0 then forktest_child l
       else if positive pid then
         print (lit l ''[forktest] Forked child PID='') (fork_print_num l pid (print (lit l (nl [])) (
         print (lit l (nl ''[forktest] Parent waiting for child...'')) (
         u_wait (to_int pid) (\<lambda>_.
         print (lit l ''[forktest] Child finished! Parent PID='') (u_getpid (\<lambda>p. fork_print_num l p (
         print (lit l (nl '' still alive'')) fin))))))))
       else print (lit l (nl ''[forktest] Fork failed!'')) fin))))))"

section \<open>pipetest\<close>

definition pipetest_first :: "layout \<Rightarrow> prog \<Rightarrow> prog" where
  "pipetest_first l next =
     u_fork (\<lambda>pid.
       if pid = 0 then
         fetch_int (var l ''fds'') (\<lambda>r. u_close r (\<lambda>_.
         strlen (lit l ''Hello through the pipe!'') (\<lambda>n.
         fetch_int (var l ''fds'' + 4) (\<lambda>w. u_write w (lit l ''Hello through the pipe!'') n (\<lambda>_.
         fetch_int (var l ''fds'' + 4) (\<lambda>w. u_close w (\<lambda>_. u_exit 0)))))))
       else
         fetch_int (var l ''fds'' + 4) (\<lambda>w. u_close w (\<lambda>_.
         fetch_int (var l ''fds'') (\<lambda>r. u_read r (var l ''buf'') 63 (\<lambda>n.
         fetch_int (var l ''fds'') (\<lambda>r. u_close r (\<lambda>_.
         let after = u_wait (to_int pid) (\<lambda>_. next) in
         if positive n then
           print (lit l (''[pipe] Parent received: '' @ [CHR 0x22])) (
           u_write STDOUT (var l ''buf'') n (\<lambda>_. print (lit l (nl [CHR 0x22])) after))
         else print (lit l (nl ''[pipe] Parent read failed!'')) after)))))))"

definition pipetest_second :: "layout \<Rightarrow> prog \<Rightarrow> prog" where
  "pipetest_second l next =
     u_pipe (var l ''fds2'') (\<lambda>_. u_fork (\<lambda>pid.
       if pid = 0 then
         fetch_int (var l ''fds2'') (\<lambda>r. u_close r (\<lambda>_.
         fetch_int (var l ''fds2'' + 4) (\<lambda>w. u_dup2 w STDOUT (\<lambda>_.
         fetch_int (var l ''fds2'' + 4) (\<lambda>w. u_close w (\<lambda>_.
         strlen (lit l ''Redirected output!'') (\<lambda>n. u_write STDOUT (lit l ''Redirected output!'') n (\<lambda>_. u_exit 0))))))))
       else
         fetch_int (var l ''fds2'' + 4) (\<lambda>w. u_close w (\<lambda>_.
         u_wait (to_int pid) (\<lambda>_.
         fetch_int (var l ''fds2'') (\<lambda>r. u_read r (var l ''buf2'') 63 (\<lambda>n.
         fetch_int (var l ''fds2'') (\<lambda>r. u_close r (\<lambda>_.
         if positive n then
           print (lit l (''[pipe] Captured from child stdout: '' @ [CHR 0x22])) (
           u_write STDOUT (var l ''buf2'') n (\<lambda>_. print (lit l (nl [CHR 0x22])) next))
         else next))))))))) "

definition pipetest_main :: "layout \<Rightarrow> prog" where
  "pipetest_main l =
     print (lit l (nl ''[pipe] === Pipe Test ==='')) (
     print (lit l (nl ''[pipe] Test 1: fork + pipe'')) (
     u_pipe (var l ''fds'') (\<lambda>r.
       if sint r < 0 then print (lit l (nl ''[pipe] pipe() failed!'')) (u_exit 1)
       else
         print (lit l ''[pipe] Created pipe: read='') (fetch_int (var l ''fds'') (\<lambda>r. u_print_num l (of_int r) (
         print (lit l '' write='') (fetch_int (var l ''fds'' + 4) (\<lambda>w. u_print_num l (of_int w) (
         print (lit l (nl [])) (
         pipetest_first l (
         print (lit l (nl ''[pipe] Test 2: dup2 stdout redirect'')) (
         pipetest_second l (
         print (lit l (nl ''[pipe] === All tests passed ==='')) (u_exit 0))))))))))))))"

section \<open>sigtest\<close>

text \<open>\<open>next\<close>: what the handler returns to.\<close>

definition sigusr1_handler :: "layout \<Rightarrow> u64 \<Rightarrow> prog \<Rightarrow> prog" where
  "sigusr1_handler l sg next = store_int (var l ''got_signal'') 1 (store_int (var l ''signal_num'') (to_int sg) next)"

definition spin :: prog where
  "spin = forever (u_yield Continue)"

definition sigtest_self :: "layout \<Rightarrow> prog \<Rightarrow> prog" where
  "sigtest_self l next =
     print (lit l (nl ''[sig] Test 1: SIGUSR1 to self'')) (
     u_signal SIGUSR1 (var l ''sigusr1_handler'') (\<lambda>_.
     store_int (var l ''got_signal'') 0 (
     u_getpid (\<lambda>p. u_kill (to_int p) SIGUSR1 (\<lambda>_.
     u_yield (
     fetch_int (var l ''got_signal'') (\<lambda>g.
       if g \<noteq> 0 then
         print (lit l ''[sig] Handler called! sig='') (fetch_int (var l ''signal_num'') (\<lambda>s. u_print_num l (of_int s) (
         print (lit l (nl '' PASS'')) next)))
       else print (lit l (nl ''[sig] Handler NOT called. FAIL'')) next)))))))"

definition sigtest_child :: "layout \<Rightarrow> prog \<Rightarrow> prog" where
  "sigtest_child l next =
     print (lit l (nl ''[sig] Test 2: child signals parent'')) (
     store_int (var l ''got_signal'') 0 (
     u_getpid (\<lambda>p. u_fork (\<lambda>child.
       if child = 0 then u_kill (to_int p) SIGUSR1 (\<lambda>_. u_exit 0)
       else
         u_wait (to_int child) (\<lambda>_. u_yield (
         fetch_int (var l ''got_signal'') (\<lambda>g.
           if g \<noteq> 0 then print (lit l (nl ''[sig] Parent got signal from child! PASS'')) next
           else print (lit l (nl ''[sig] Parent did NOT get signal. FAIL'')) next)))))))"

definition sigtest_main :: "layout \<Rightarrow> prog" where
  "sigtest_main l =
     print (lit l (nl ''[sig] === Signal Test ==='')) (
     sigtest_self l (
     sigtest_child l (
     print (lit l (nl ''[sig] Test 3: SIGKILL child'')) (
     u_fork (\<lambda>child2.
       if child2 = 0 then spin
       else
         u_kill (to_int child2) (int SIGKILL) (\<lambda>_. u_wait (to_int child2) (\<lambda>_.
         print (lit l (nl ''[sig] Child killed. PASS'')) (
         print (lit l (nl ''[sig] === All tests passed ==='')) (u_exit 0)))))))))"

section \<open>sbrktest\<close>

definition hex_digits :: string where
  "hex_digits = ''0123456789abcdef''"

text \<open>The low eight digits.\<close>

definition print_hex :: "layout \<Rightarrow> u64 \<Rightarrow> prog \<Rightarrow> prog" where
  "print_hex l v next =
     print (lit l ''0x'') (for_from 8 0 (\<lambda>i next.
       Fetch (lit l hex_digits + (drop_bit (28 - 4 * i) v AND 0xF)) (\<lambda>c. put_char_at (var l ''c'') c next)) next)"

definition fill_loop :: "nat \<Rightarrow> u64 \<Rightarrow> (nat \<Rightarrow> u8) \<Rightarrow> prog \<Rightarrow> prog" where
  "fill_loop n p f = for_from n 0 (\<lambda>i. Store (p + of_nat i) (f i))"

text \<open>Whether the \<open>n\<close> bytes from \<open>i\<close> on are as expected; the loop stops at the first that is not.\<close>

primrec check_loop :: "nat \<Rightarrow> nat \<Rightarrow> u64 \<Rightarrow> (nat \<Rightarrow> u8) \<Rightarrow> (bool \<Rightarrow> prog) \<Rightarrow> prog" where
  "check_loop 0 i p f next = next True"
| "check_loop (Suc n) i p f next = Fetch (p + of_nat i) (\<lambda>b. if b \<noteq> f i then next False else check_loop n (Suc i) p f next)"

definition verdict :: "layout \<Rightarrow> bool \<Rightarrow> prog \<Rightarrow> prog" where
  "verdict l ok next = print (lit l (if ok then ''PASS'' else ''FAIL'')) (print (lit l (nl [])) next)"

definition letters :: "nat \<Rightarrow> u8" where "letters i = of_nat (i + 65)"
definition pattern :: "nat \<Rightarrow> u8" where "pattern i = of_nat (i mod 256)"

definition show_hex :: "layout \<Rightarrow> string \<Rightarrow> u64 \<Rightarrow> prog \<Rightarrow> prog" where
  "show_hex l label v next = print (lit l label) (print_hex l v (print (lit l (nl [])) next))"

text \<open>\<open>main\<close> from the second fill on, from the first fill on, and as a whole.\<close>

definition sbrktest_large :: "layout \<Rightarrow> u64 \<Rightarrow> u64 \<Rightarrow> u64 \<Rightarrow> prog" where
  "sbrktest_large l brk0 addr addr2 =
     fill_loop 8192 addr2 pattern (
     check_loop 8192 0 addr2 pattern (\<lambda>ok.
     print (lit l ''[test4] write/read 8KB: '') (verdict l ok (
     u_sbrk 0 (\<lambda>brk_now.
     show_hex l ''[test5] break now = '' brk_now (
     show_hex l ''[test5] expected  = '' (brk0 + 64 + 8192) (
     print (lit l ''[test5] break tracking: '') (verdict l (brk_now = brk0 + 64 + 8192) (
     check_loop 64 0 addr letters (\<lambda>ok.
     print (lit l ''[test6] original region intact: '') (verdict l ok (
     print (lit l (nl ''[sbrktest] All tests done'')) (u_exit 0)))))))))))))"

definition sbrktest_small :: "layout \<Rightarrow> u64 \<Rightarrow> u64 \<Rightarrow> prog" where
  "sbrktest_small l brk0 addr =
     fill_loop 64 addr letters (
     check_loop 64 0 addr letters (\<lambda>ok.
     print (lit l ''[test3] write/read 64 bytes: '') (verdict l ok (
     u_sbrk 8192 (\<lambda>addr2.
     show_hex l ''[test4] sbrk(8192) = '' addr2 (
     if addr2 = -1 then print (lit l (nl ''[FAIL] sbrk(8192) returned -1'')) (u_exit 1)
     else sbrktest_large l brk0 addr addr2))))))"

definition sbrktest_main :: "layout \<Rightarrow> prog" where
  "sbrktest_main l =
     print (lit l ''[sbrktest] PID='') (u_getpid (\<lambda>p. u_print_num l p (print (lit l (nl [])) (
     u_sbrk 0 (\<lambda>brk0.
     show_hex l ''[test1] current break = '' brk0 (
     if brk0 = -1 then print (lit l (nl ''[FAIL] sbrk(0) returned -1'')) (u_exit 1)
     else
     u_sbrk 64 (\<lambda>addr.
     show_hex l ''[test2] sbrk(64) = '' addr (
     if addr = -1 then print (lit l (nl ''[FAIL] sbrk(64) returned -1'')) (u_exit 1)
     else sbrktest_small l brk0 addr))))))))"

section \<open>Commands of the shell\<close>

text \<open>The dash in the help text has three bytes.\<close>

definition dash :: string where
  "dash = [CHR 0xE2, CHR 0x80, CHR 0x94]"

definition help_text :: "string list" where
  "help_text =
     [nl ''Commands:'',
      nl (''  help          '' @ dash @ '' show this message''),
      nl (''  ls            '' @ dash @ '' list files on disk''),
      nl (''  cat <file>    '' @ dash @ '' print file contents''),
      nl (''  echo <text>   '' @ dash @ '' print text''),
      nl (''  wc            '' @ dash @ '' count lines/words/bytes from stdin''),
      nl (''  ps            '' @ dash @ '' show shell PID''),
      nl (''  exit          '' @ dash @ '' exit the shell''),
      nl (''  <file.bin>    '' @ dash @ '' run a program''),
      nl (''  cmd1 | cmd2   '' @ dash @ '' pipe output of cmd1 into cmd2'')]"

definition builtin_help :: "layout \<Rightarrow> prog \<Rightarrow> prog" where
  "builtin_help l next = fold (\<lambda>s. print (lit l s)) (rev help_text) next"

definition builtin_ls :: "layout \<Rightarrow> prog \<Rightarrow> prog" where
  "builtin_ls l next = u_listdir (var l ''dirbuf'') 1024 (\<lambda>n.
     if positive n then u_write STDOUT (var l ''dirbuf'') n (\<lambda>_. next) else next)"

definition builtin_cat :: "layout \<Rightarrow> u64 \<Rightarrow> prog \<Rightarrow> prog" where
  "builtin_cat l fname next =
     u_open fname O_RDONLY (\<lambda>fd.
       if sint fd < 0 then print (lit l (''cat: cannot open '' @ [CHR 0x27])) (print fname (print (lit l (nl [CHR 0x27])) next))
       else
         loop (u_read (to_int fd) (var l ''filebuf'') 4095 (\<lambda>n.
             if positive n then u_write STDOUT (var l ''filebuf'') n (\<lambda>_. Continue) else Break))
           (u_close (to_int fd) (\<lambda>_. next)))"

definition builtin_echo :: "layout \<Rightarrow> u64 \<Rightarrow> prog \<Rightarrow> prog" where
  "builtin_echo l text next = strlen text (\<lambda>n. u_write STDOUT text n (\<lambda>_. print (lit l (nl [])) next))"

definition builtin_ps :: "layout \<Rightarrow> prog \<Rightarrow> prog" where
  "builtin_ps l next = print (lit l ''Shell PID: '') (u_getpid (\<lambda>p. u_print_num l p (print (lit l (nl [])) next)))"

text \<open>The loop over the input, with \<open>n\<close> bytes in the buffer, \<open>i\<close> of them counted.\<close>

primcorec wc_loop :: "layout \<Rightarrow> wc_state \<Rightarrow> nat \<Rightarrow> nat \<Rightarrow> (wc_state \<Rightarrow> prog) \<Rightarrow> prog" where
  "wc_loop l w i n next =
     (if i < n then Fetch (var l ''buf'' + of_nat i) (\<lambda>b. wc_loop l (wc_byte (char_of (unat b)) w) (Suc i) n next)
      else Svc 0 0 (var l ''buf'') 256 (\<lambda>r. if positive r then wc_loop l w 0 (unat r) next else next w))"

definition wc_main :: "layout \<Rightarrow> prog \<Rightarrow> prog" where
  "wc_main l next =
     wc_loop l \<lparr>wc_lines = 0, wc_words = 0, wc_bytes = 0, in_word = False\<rparr> 0 0 (\<lambda>w.
     print (lit l ''  '') (u_print_num l (wc_lines w) (
     print (lit l ''  '') (u_print_num l (wc_words w) (
     print (lit l ''  '') (u_print_num l (wc_bytes w) (print (lit l (nl [])) next)))))))"

text \<open>The command at \<open>cmd\<close> with the text \<open>text\<close>; arguments are suffixes of it.\<close>

definition sh_run :: "layout \<Rightarrow> u64 \<Rightarrow> string \<Rightarrow> prog \<Rightarrow> prog" where
  "sh_run l cmd text next =
     (let suffix = (\<lambda>s. cmd + of_nat (length text - length s)) in
      case run_single_cmd text of
        Nothing \<Rightarrow> next
      | Help \<Rightarrow> builtin_help l next
      | Ls \<Rightarrow> builtin_ls l next
      | Ps \<Rightarrow> builtin_ps l next
      | Wc \<Rightarrow> wc_main l next
      | Cat s \<Rightarrow> builtin_cat l (suffix s) next
      | Echo s \<Rightarrow> builtin_echo l (suffix s) next
      | Program s \<Rightarrow> strlen (suffix s) (\<lambda>n. u_exec (suffix s) n (\<lambda>t.
          if sint t < 0 then print (lit l (''Error: '' @ [CHR 0x27])) (print (suffix s) (print (lit l (nl ([CHR 0x27] @ '' not found''))) next))
          else u_wait (to_int t) (\<lambda>_. next))))"

section \<open>Pipe chains and the main loop\<close>

text \<open>The segments of the line from address \<open>a\<close> on, cut apart and trimmed in place.\<close>

fun sh_split :: "nat \<Rightarrow> u64 \<Rightarrow> string \<Rightarrow> ((u64 \<times> string) list \<Rightarrow> prog) \<Rightarrow> prog" where
  "sh_split 0 a p next = next []"
| "sh_split (Suc n) a p next =
     (case find_pipe p of
        Some (x, rest) \<Rightarrow>
          Store (a + of_nat (length x)) 0 (Store (a + of_nat (length (trim_end x))) 0 (
          sh_split n (a + of_nat (length x) + 1) rest (\<lambda>segs. next ((a, trim_end x) # segs))))
      | None \<Rightarrow> Store (a + of_nat (length (trim_end p))) 0 (next [(a, trim_end p)]))"

definition close_if :: "int \<Rightarrow> prog \<Rightarrow> prog" where
  "close_if fd next = (if fd \<ge> 0 then u_close fd (\<lambda>_. next) else next)"

definition redirect :: "int \<Rightarrow> int \<Rightarrow> prog \<Rightarrow> prog" where
  "redirect fd std_fd next = (if fd \<ge> 0 then u_dup2 fd std_fd (\<lambda>_. u_close fd (\<lambda>_. next)) else next)"

definition sh_child :: "layout \<Rightarrow> int \<Rightarrow> u64 \<Rightarrow> string \<Rightarrow> prog" where
  "sh_child l prev a s =
     redirect prev STDIN (
     fetch_int (var l ''pipefd'' + 4) (\<lambda>w. redirect w STDOUT (
     fetch_int (var l ''pipefd'') (\<lambda>r. close_if r (
     sh_run l a s (u_exit 0))))))"

fun sh_chain :: "layout \<Rightarrow> (u64 \<times> string) list \<Rightarrow> int \<Rightarrow> int list \<Rightarrow> prog \<Rightarrow> prog" where
  "sh_chain l [] prev pids next = close_if prev (fold (\<lambda>pid next. u_wait pid (\<lambda>_. next)) (rev pids) next)"
| "sh_chain l ((a, s) # segs) prev pids next =
     (let start = u_fork (\<lambda>pid.
        if pid = 0 then sh_child l prev a s
        else
          close_if prev (
          fetch_int (var l ''pipefd'' + 4) (\<lambda>w. close_if w (
          fetch_int (var l ''pipefd'') (\<lambda>r. sh_chain l segs r (pids @ [to_int pid]) next)))))
      in store_int (var l ''pipefd'') (-1) (store_int (var l ''pipefd'' + 4) (-1) (
        if segs \<noteq> [] then u_pipe (var l ''pipefd'') (\<lambda>r. if sint r < 0 then print (lit l (nl ''pipe failed'')) next else start)
        else start)))"

definition sh_line :: "layout \<Rightarrow> u64 \<Rightarrow> string \<Rightarrow> prog \<Rightarrow> prog" where
  "sh_line l cmd text next =
     (case execute_line text of
        Skip \<Rightarrow> next
      | Exit \<Rightarrow> print (lit l (nl ''Goodbye!'')) (u_exit 0)
      | Direct _ \<Rightarrow> sh_run l cmd text next
      | Pipeline _ \<Rightarrow> sh_split 8 cmd text (\<lambda>segs. sh_chain l segs (-1) [] next))"

text \<open>The text at an address, as the helpers of the shell read it.\<close>

primcorec fetch_text :: "u64 \<Rightarrow> string \<Rightarrow> (string \<Rightarrow> prog) \<Rightarrow> prog" where
  "fetch_text a cs next = Fetch a (\<lambda>b. if b = 0 then next (rev cs) else fetch_text (a + 1) (char_of (unat b) # cs) next)"

definition sh_readline :: "u64 \<Rightarrow> u64 \<Rightarrow> (u64 \<Rightarrow> prog) \<Rightarrow> prog" where
  "sh_readline buf lim next = u_read STDIN buf lim (\<lambda>n.
     if positive n then Fetch (buf + n - 1) (\<lambda>b. if b = 0x0A then Store (buf + n - 1) 0 (next (n - 1)) else next n)
     else next n)"

definition banner :: "string list" where
  "banner = [nl [], nl ''  ============================='', nl ''  |   VirtIO-OS Shell v3.0    |'', nl ''  |     (now with pipes!)     |'',
     nl ''  ============================='', nl [], nl (nl (''Type '' @ [CHR 0x27] @ ''help'' @ [CHR 0x27] @ '' for commands.''))]"

definition shell_main :: "layout \<Rightarrow> prog" where
  "shell_main l =
     fold (\<lambda>s. print (lit l s)) (rev banner) (
     forever (
       print (lit l ''> '') (
       sh_readline (var l ''line'') 256 (\<lambda>n.
         if \<not> positive n then Continue
         else fetch_text (var l ''line'') [] (\<lambda>text. sh_line l (var l ''line'') text Continue)))))"

end
