(* ===== verification/Userland.thy ===== *)
theory Userland
  imports Programs Irq
begin

text \<open>
  User programs on the kernel: every task has a program and its registers, the current one executes, and
  its system calls are those of \<open>Syscall\<close>. A task that has given the processor away in a call goes on with the
  call when it is current again. The timer may switch tasks between any two steps.
\<close>

section \<open>States\<close>

text \<open>
  \<open>User\<close>: at EL0. \<open>Resuming\<close>: in a call that ends with these registers. \<open>Retrying\<close>: in a call that is tried
  again, a write with the rest of its bytes. \<open>Gone\<close>: the task has ended, or there is none.
\<close>

datatype activity =
    User regs prog
  | Resuming regs "u64 \<Rightarrow> prog"
  | Retrying regs "u8 list" "u64 \<Rightarrow> prog"
  | Gone

record sys =
  ker :: kernel
  con :: uart
  act :: "nat \<Rightarrow> activity"

text \<open>
  The programs on the disk: \<open>handler_at\<close> is the code at the address of a handler, called with the signal and what it
  returns to; \<open>program_of\<close> is the program of a task that \<open>exec\<close> has made.
\<close>

record programs =
  handler_at :: "u64 \<Rightarrow> u64 \<Rightarrow> prog \<Rightarrow> prog"
  program_of :: "kernel \<Rightarrow> nat \<Rightarrow> prog"

text \<open>\<open>drop_to_el0\<close>: the stack pointer, the program counter, and zero everywhere else.\<close>

definition start_regs :: "u64 \<Rightarrow> u64 \<Rightarrow> regs" where
  "start_regs sp pc = (replicate 34 0)[31 := sp, 32 := pc]"

definition svc_regs :: "regs \<Rightarrow> u64 \<Rightarrow> u64 \<Rightarrow> u64 \<Rightarrow> u64 \<Rightarrow> regs" where
  "svc_regs rs num a0 a1 a2 = rs[0 := a0, 1 := a1, 2 := a2, 8 := num]"

section \<open>System calls\<close>

text \<open>
  The end of a call: pending signals are delivered. A handler returns to the trampoline, whose call of
  \<open>sigreturn\<close> gives back the interrupted registers.
\<close>

definition end_call :: "image \<Rightarrow> programs \<Rightarrow> regs \<Rightarrow> (u64 \<Rightarrow> prog) \<Rightarrow> kernel \<Rightarrow> (activity \<times> kernel) option" where
  "end_call im ps regs f k =
     map_option (\<lambda>d. case d of
         Returned h regs k \<Rightarrow> (User regs (if h = 0 then f (regs ! 0) else handler_at ps (regs ! 32) (regs ! 0) (Svc 16 0 0 0 f)), k)
       | Switched k \<Rightarrow> (Gone, k)) (signal_deliver im regs k)"

fun settle :: "image \<Rightarrow> programs \<Rightarrow> regs \<Rightarrow> (u64 \<Rightarrow> prog) \<Rightarrow> uart \<Rightarrow> outcome \<Rightarrow> (activity \<times> kernel \<times> uart) option" where
  "settle im ps regs f u0 (Ret regs' k u) = map_option (\<lambda>(a, k). (a, k, u)) (end_call im ps regs' f k)"
| "settle im ps regs f u0 (Later regs' k u) = Some (Resuming regs' f, k, u)"
| "settle im ps regs f u0 (Again k u rest) = Some (Retrying regs rest f, k, u)"
| "settle im ps regs f u0 (Ended k) = Some (Gone, k, u0)"

text \<open>A call that is tried again.\<close>

definition next_try :: "image \<Rightarrow> sys_env \<Rightarrow> u8 list \<Rightarrow> regs \<Rightarrow> kernel \<Rightarrow> uart \<Rightarrow> outcome option" where
  "next_try im e rest regs k u = (if regs ! 8 = 1 then sys_write_rest im False rest regs k u else dispatch im e regs k u)"

text \<open>
  A task that the call has made. The first switch to it returns to the address that its context holds.
  \<open>fork_child_return\<close> restores the trap frame at the top of its kernel stack: where that has the program counter of the
  call, the child goes on from there with the result in its frame. \<open>task_wrapper\<close> enters the program at its start.
\<close>

definition first_run :: "image \<Rightarrow> programs \<Rightarrow> regs \<Rightarrow> (u64 \<Rightarrow> prog) \<Rightarrow> kernel \<Rightarrow> nat \<Rightarrow> activity" where
  "first_run im ps regs f k i =
     (let t = task_at k i; fr = get_frame (ctx_sp (ctx t)) (kbytes (kmm k))
      in if x30 (ctx t) = fork_child_return im then
           (if fr ! 32 = regs ! 32 then User fr (f (fr ! 0)) else Gone)
         else if x30 (ctx t) = task_wrapper im \<and> is_user t then
           User (start_regs (user_sp t) (user_entry t)) (program_of ps k i)
         else Gone)"

definition spawned :: "image \<Rightarrow> programs \<Rightarrow> regs \<Rightarrow> (u64 \<Rightarrow> prog) \<Rightarrow> kernel \<Rightarrow> kernel \<Rightarrow> (nat \<Rightarrow> activity) \<Rightarrow> nat \<Rightarrow> activity" where
  "spawned im ps regs f k k' ac =
     (if num_tasks k' = num_tasks k then ac else ac(num_tasks k := first_run im ps regs f k' (num_tasks k)))"

section \<open>Steps\<close>

text \<open>
  \<open>e\<close>: what the disk and the kernel heap answer in this step. A call that faults in the kernel has no step.
\<close>

inductive sys_step :: "image \<Rightarrow> programs \<Rightarrow> sys_env \<Rightarrow> sys \<Rightarrow> sys \<Rightarrow> bool" for im ps e where
  fetch: "\<lbrakk>c = current_task (ker s); is_user (task_at (ker s) c); act s c = User rs (Fetch va f); va < 0x8000000000;
      el1_byte (ker s) va = Some b\<rbrakk> \<Longrightarrow> sys_step im ps e s (s\<lparr>act := (act s)(c := User rs (f b))\<rparr>)"
| store: "\<lbrakk>c = current_task (ker s); is_user (task_at (ker s) c); act s c = User rs (Store va b p); va < 0x8000000000;
      el1_store8 va b (ker s) = Some k\<rbrakk> \<Longrightarrow> sys_step im ps e s (s\<lparr>ker := k, act := (act s)(c := User rs p)\<rparr>)"
| svc: "\<lbrakk>c = current_task (ker s); is_user (task_at (ker s) c); act s c = User rs (Svc num a0 a1 a2 f);
      regs = svc_regs rs num a0 a1 a2; dispatch im e regs (ker s) (con s) = Some out;
      settle im ps regs f (con s) out = Some (a, k, u)\<rbrakk>
    \<Longrightarrow> sys_step im ps e s \<lparr>ker = k, con = u, act = spawned im ps regs f (ker s) k ((act s)(c := a))\<rparr>"
| retry: "\<lbrakk>c = current_task (ker s); is_user (task_at (ker s) c); act s c = Retrying regs rest f;
      next_try im e rest regs (ker s) (con s) = Some out; settle im ps regs f (con s) out = Some (a, k, u)\<rbrakk>
    \<Longrightarrow> sys_step im ps e s \<lparr>ker = k, con = u, act = (act s)(c := a)\<rparr>"
| resume: "\<lbrakk>c = current_task (ker s); is_user (task_at (ker s) c); act s c = Resuming regs f;
      end_call im ps regs f (ker s) = Some (a, k)\<rbrakk>
    \<Longrightarrow> sys_step im ps e s (s\<lparr>ker := k, act := (act s)(c := a)\<rparr>)"
| fault: "\<lbrakk>c = current_task (ker s); is_user (task_at (ker s) c); act s c = User rs p;
      (\<exists>va f. p = Fetch va f \<and> (0x8000000000 \<le> va \<or> el1_byte (ker s) va = None))
        \<or> (\<exists>va b q. p = Store va b q \<and> (0x8000000000 \<le> va \<or> el1_addr (ker s) va = None));
      unhandled_sync_el0 im (ker s) = Some (Switches k)\<rbrakk>
    \<Longrightarrow> sys_step im ps e s (s\<lparr>ker := k, act := (act s)(c := Gone)\<rparr>)"
| tick: "sys_step im ps e s (s\<lparr>ker := sched_tick im (ker s)\<rparr>)"
| idle: "\<not> is_user (cur_task (ker s)) \<Longrightarrow> sys_step im ps e s (s\<lparr>ker := sched_yield im (ker s)\<rparr>)"

section \<open>Polite programs\<close>

text \<open>
  The kernel checks no pointer of a call, and writes the frame of a signal to wherever the stack pointer is. A program
  is polite when these are user addresses, and when the programs that it starts are not too large. A step is polite when
  the current task is, as to the call that it makes or goes on with, and the heap and the disk answer as \<open>env_ok\<close> says;
  a tick of the timer always is.
\<close>

definition polite_call :: "sys_env \<Rightarrow> nat set \<Rightarrow> regs \<Rightarrow> kernel \<Rightarrow> outcome option \<Rightarrow> bool" where
  "polite_call e K regs k out \<longleftrightarrow> (regs ! 8 \<in> {2, 7, 12} \<longrightarrow> env_ok e K k) \<and> (regs ! 8 = 7 \<longrightarrow> programs_fit e) \<and> user_args e regs k
     \<and> (\<forall>rs k1 u. out = Some (Ret rs k1 u) \<longrightarrow> user_range ((rs ! 31 - SIGFRAME_SIZE) AND NOT 0xF) 288)"

fun polite :: "image \<Rightarrow> sys_env \<Rightarrow> nat set \<Rightarrow> kernel \<Rightarrow> uart \<Rightarrow> activity \<Rightarrow> bool" where
  "polite im e K k u (User rs (Svc num a0 a1 a2 f)) =
     polite_call e K (svc_regs rs num a0 a1 a2) k (dispatch im e (svc_regs rs num a0 a1 a2) k u)"
| "polite im e K k u (Retrying regs rest f) = polite_call e K regs k (next_try im e rest regs k u)"
| "polite im e K k u (Resuming regs f) = user_range ((regs ! 31 - SIGFRAME_SIZE) AND NOT 0xF) 288"
| "polite im e K k u a = True"

definition polite_step :: "image \<Rightarrow> programs \<Rightarrow> nat set \<Rightarrow> sys \<Rightarrow> sys \<Rightarrow> bool" where
  "polite_step im ps K s s' \<longleftrightarrow> s' = s\<lparr>ker := sched_tick im (ker s)\<rparr>
     \<or> (\<exists>e. polite im e K (ker s) (con s) (act s (current_task (ker s))) \<and> sys_step im ps e s s')"

section \<open>The kernel invariant\<close>

fun activity_ok :: "activity \<Rightarrow> bool" where
  "activity_ok (User rs p) = (length rs = 34)"
| "activity_ok (Resuming rs f) = (length rs = 34)"
| "activity_ok (Retrying rs rest f) = (length rs = 34)"
| "activity_ok Gone = True"

definition sys_ok :: "image \<Rightarrow> nat set \<Rightarrow> sys \<Rightarrow> bool" where
  "sys_ok im K s \<longleftrightarrow> kernel_inv im (K, ker s) \<and> (\<forall>i. activity_ok (act s i))"

lemma length_svc_regs [simp]: "length (svc_regs rs num a0 a1 a2) = length rs"
  by (simp add: svc_regs_def)

lemma length_start_regs [simp]: "length (start_regs sp pc) = 34"
  by (simp add: start_regs_def)

lemma load_regs_length: "load_regs fr k ixs rs = Some rs' \<Longrightarrow> length rs' = length rs"
proof (induction ixs arbitrary: rs' rule: rev_induct)
  case Nil
  then show ?case by (simp add: load_regs_def)
next
  case (snoc i ixs)
  have "load_regs fr k (ixs @ [i]) rs = (case load_regs fr k ixs rs of None \<Rightarrow> None
      | Some r \<Rightarrow> map_option (\<lambda>v. r[i := v]) (el1_load 8 (fr + of_nat (8 * i)) k))"
    by (simp only: load_regs_def fold_append fold_simps comp_apply id_apply)
  then obtain r v where "load_regs fr k ixs rs = Some r" "rs' = r[i := v]"
    using snoc.prems by (cases "load_regs fr k ixs rs"; cases "el1_load 8 (fr + of_nat (8 * i)) k") auto
  then show ?case using snoc.IH [of r] by simp
qed

text \<open>The registers of every result are as many as those of the call.\<close>

fun out_regs :: "outcome \<Rightarrow> regs option" where
  "out_regs (Ret rs k u) = Some rs"
| "out_regs (Later rs k u) = Some rs"
| "out_regs (Again k u rest) = None"
| "out_regs (Ended k) = None"

lemma dispatch_length: "dispatch im e regs k u = Some out \<Longrightarrow> out_regs out = Some rs \<Longrightarrow> length rs = length regs"
  by (auto simp: dispatch_def sys_read_def sys_write_def sys_write_rest_def sys_open_def sys_close_def sys_pipe_def sys_dup2_def sys_exec_def
        sys_listdir_def signal_return_def Let_def
      split: if_splits option.splits prod.splits attempt.splits write_result.splits dest: load_regs_length)

lemma signal_deliver_length:
  assumes "signal_deliver im regs k = Some (Returned h rs k')"
  shows "length rs = length regs"
  using assms by (auto simp: signal_deliver_def signal_default_action_def Let_def split: if_splits option.splits)

lemma first_run_ok: "activity_ok (first_run im ps regs f k i)"
  by (simp add: first_run_def Let_def get_frame_def)

text \<open>The child of a fork goes on where its parent does, with the result 0.\<close>

lemma forked_first_run:
  assumes inv: "kernel_inv im (K, k)" and len: "length regs = 34" and r: "sched_fork im regs k = Some (int (num_tasks k), k')"
  shows "first_run im ps regs f k' (num_tasks k) = User (regs[0 := 0]) (f 0)"
proof -
  obtain own where o: "image_ok K im" "sched_inv im k" "isolated K own k" using kernel_invE [OF inv] by metis
  from o(3,2,1) len r show ?thesis
  proof (cases rule: sched_fork_cases)
    case (new tab s rl F)
    then have "get_frame (ctx_sp (ctx (task_at k' (num_tasks k)))) (kbytes (kmm k')) = regs[0 := 0]" by (simp add: forked_def Let_def)
    then show ?thesis using new(9) len by (simp add: first_run_def Let_def)
  qed simp
qed

lemma end_call_ok:
  assumes inv: "kernel_inv im (K, k)" and len: "length regs = 34"
    and sp: "user_range ((regs ! 31 - SIGFRAME_SIZE) AND NOT 0xF) 288" and r: "end_call im ps regs f k = Some (a, k')"
  shows "turn im K k k'" "activity_ok a"
proof -
  obtain d where d: "signal_deliver im regs k = Some d" using r by (auto simp: end_call_def)
  have k': "k' = delivered d" using r d by (cases d) (auto simp: end_call_def)
  show "turn im K k k'" unfolding k' by (rule signal_deliver_steps [OF inv d sp])
  show "activity_ok a" using r d signal_deliver_length len by (cases d) (auto simp: end_call_def)
qed

lemma settle_ok:
  assumes inv: "kernel_inv im (K, k)" and len: "length regs = 34" and c: "polite_call e K regs k (Some out)"
    and out: "turn im K k (out_kernel out)" "\<And>rs. out_regs out = Some rs \<Longrightarrow> length rs = 34"
    and cur: "\<And>rs k1 u. out = Ret rs k1 u \<Longrightarrow> current_task k1 = current_task k"
    and r: "settle im ps regs f u0 out = Some (a, k', u)"
  shows "turn im K k k'" "activity_ok a"
proof -
  have "turn im K k k' \<and> activity_ok a"
  proof (cases out)
    case (Ret rs k1 u1)
    have e: "end_call im ps rs f k1 = Some (a, k')" using r Ret by auto
    have k1: "kernel_inv im (K, k1)" "length rs = 34" using kernel_inv_steps [OF turn_steps [OF out(1)] inv] out(2) Ret by simp_all
    have "user_range ((rs ! 31 - SIGFRAME_SIZE) AND NOT 0xF) 288" using c Ret by (simp add: polite_call_def)
    from end_call_ok [OF k1 this e] show ?thesis using turn_trans [OF out(1) _] cur [OF Ret] Ret by simp
  qed (use r len out in auto)
  then show "turn im K k k'" "activity_ok a" by simp_all
qed

lemma next_try_ok:
  assumes inv: "kernel_inv im (K, k)" and u: "is_user (cur_task k)" and len: "length regs = 34"
    and c: "polite_call e K regs k (Some out)" and r: "next_try im e rest regs k u0 = Some out"
  shows "turn im K k (out_kernel out)" "out_regs out = Some rs \<Longrightarrow> length rs = 34" "out = Ret rs k1 u1 \<Longrightarrow> current_task k1 = current_task k"
proof -
  have d: "dispatch im e regs k u0 = Some out \<or> regs ! 8 = 1 \<and> sys_write_rest im False rest regs k u0 = Some out"
    using r by (auto simp: next_try_def split: if_splits)
  show "turn im K k (out_kernel out)"
    using d dispatch_steps [OF inv u len _ _ _, of e u0 out] sys_write_rest_steps [OF inv] c by (auto simp: polite_call_def)
  show "length rs = 34" if "out_regs out = Some rs"
    using d dispatch_length [OF _ that] that len by (auto simp: sys_write_rest_def split: option.splits prod.splits write_result.splits)
  show "current_task k1 = current_task k" if "out = Ret rs k1 u1"
    using d dispatch_current [of im e regs k u0 rs k1 u1] that by (auto simp: sys_write_rest_def split: option.splits prod.splits write_result.splits)
qed

text \<open>A polite step of the system is a turn of the current task in the kernel.\<close>

lemma sys_step_ok:
  assumes pol: "polite im e K (ker s) (con s) (act s (current_task (ker s)))" and st: "sys_step im ps e s s'" and s: "sys_ok im K s"
  shows "turn im K (ker s) (ker s') \<and> sys_ok im K s'"
proof -
  have inv: "kernel_inv im (K, ker s)" and ok: "\<And>i. activity_ok (act s i)" using s by (simp_all add: sys_ok_def)
  have "turn im K (ker s) (ker s') \<and> (\<forall>i. activity_ok (act s' i))"
    using st
  proof cases
    case (svc c rs num a0 a1 a2 f regs out a k u)
    have len: "length regs = 34" using ok [of c] svc(4,5) by simp
    have pc: "polite_call e K regs (ker s) (Some out)" using pol svc(2,4,5,6) by simp
    have t: "turn im K (ker s) (out_kernel out)"
      by (rule dispatch_steps [OF inv _ len _ _ _ svc(6)]) (use svc(2,3) pc in \<open>simp_all add: polite_call_def\<close>)
    note n = settle_ok [OF inv len pc t dispatch_length [OF svc(6), unfolded len] _ svc(7)]
    have "current_task k1 = current_task (ker s)" if "out = Ret rs1 k1 u1" for rs1 k1 u1
      using dispatch_current svc(6) that by blast
    then show ?thesis using svc(1) ok n first_run_ok by (auto simp: spawned_def)
  next
    case (retry c regs rest f out a k u)
    have len: "length regs = 34" using ok [of c] retry(4) by simp
    have pc: "polite_call e K regs (ker s) (Some out)" using pol retry(2,4,5) by simp
    have us: "is_user (cur_task (ker s))" using retry(2,3) by simp
    note t = next_try_ok [OF inv us len pc retry(5)]
    show ?thesis using settle_ok [OF inv len pc t retry(6)] retry(1) ok by auto
  next
    case (store c rs va b p k)
    have "writes im K (ker s) k" using store8_writes [OF _ store(5,6)] store(2,3) by simp
    then show ?thesis using store(1,4) ok ok [of c] by (auto simp: writes_def)
  next
    case (resume c regs f a k)
    have len: "length regs = 34" using ok [of c] resume(4) by simp
    have "user_range ((regs ! 31 - SIGFRAME_SIZE) AND NOT 0xF) 288" using pol resume(2,4) by simp
    from end_call_ok [OF inv len this resume(5)] show ?thesis using resume(1) ok by auto
  next
    case (fault c rs p k)
    have "sched_exit im (ker s) = Some k" using fault(6) by (auto simp: unhandled_sync_el0_def split: option.splits if_splits)
    then show ?thesis using fault(1) ok turn.last_step [OF kstep.exit, of im "ker s" k K] by auto
  next
    case tick
    then show ?thesis using ok turn.last_step [OF kstep.tick, of im K "ker s"] by auto
  next
    case idle
    then show ?thesis using ok turn.last_step [OF kstep.yield, of im K "ker s"] by auto
  next
    case (fetch c rs va f b)
    then show ?thesis using ok ok [of c] by auto
  qed
  then show ?thesis using kernel_inv_steps [OF turn_steps inv] by (simp add: sys_ok_def)
qed

lemma tick_ok: "sys_ok im K s \<Longrightarrow> sys_ok im K (s\<lparr>ker := sched_tick im (ker s)\<rparr>)"
  using kernel_inv_step [OF _ kstep.tick] by (simp add: sys_ok_def)

lemma polite_step_ok: "polite_step im ps K s s' \<Longrightarrow> sys_ok im K s \<Longrightarrow> turn im K (ker s) (ker s') \<and> sys_ok im K s'"
  using sys_step_ok tick_ok turn.last_step [OF kstep.tick] by (fastforce simp: polite_step_def)

text \<open>Only the current task goes on; a new one gets a slot that was free.\<close>

lemma sys_step_act:
  assumes "sys_step im ps e s s'" "i \<noteq> current_task (ker s)" "i < num_tasks (ker s)"
  shows "act s' i = act s i"
  using assms by (cases rule: sys_step.cases) (auto simp: spawned_def)

end
