(* ===== verification/Process.thy ===== *)
theory Process
  imports Userland
begin

text \<open>
  What a process is to its program: a memory of its own, a break, and a console. First how the loads, stores and
  calls of the current task act on its memory, then the machine that the program runs on.
\<close>

section \<open>The memory of the current process\<close>

lemma current_byte:
  assumes inv: "kernel_inv im (K, k)" and u: "is_user (cur_task k)" and va: "va < 0x8000000000"
  shows "el1_byte k va = process_byte k (current_task k) va"
proof -
  obtain own where o: "isolated K own k" "table_ok im k" "current_task k < num_tasks k" using kernel_invE [OF inv] by metis
  have "ttbr0_el1 k = ttbr0 (cur_task k)" by (rule user_ttbr0 [OF o(2) isolated_user(1) [OF o(1,3) u]])
  then show ?thesis using va
    by (cases "walk (kbytes (kmm k)) (ttbr0 (cur_task k)) va") (simp_all add: el1_byte_def el1_addr_def process_byte_def page_addr_def)
qed

lemma same_address:
  assumes "va < 0x8000000000" "v < 0x8000000000" "page_no v = page_no va" "v AND 0xFFF = va AND 0xFFF"
  shows "v = va"
proof -
  have b: "unat va < 2 ^ 39" "unat v < 2 ^ 39" using assms(1,2) by (simp_all add: word_less_nat_alt)
  have "unat v div 4096 = unat va div 4096" using assms(3) b by (simp add: page_no_def)
  moreover have "unat v mod 4096 = unat va mod 4096" using assms(4) unat_low by metis
  ultimately show ?thesis by (metis div_mult_mod_eq word_unat_eq_iff)
qed

text \<open>A store changes one byte of the process.\<close>

lemma current_store:
  assumes inv: "kernel_inv im (K, k)" and u: "is_user (cur_task k)" and va: "va < 0x8000000000"
    and old: "process_byte k (current_task k) va \<noteq> None"
  obtains a where "el1_addr k va = Some a" "el1_store8 va b k = Some (set_bytes (\<lambda>m. m(a := b)) k)"
    "kernel_inv im (K, set_bytes (\<lambda>m. m(a := b)) k)"
    "\<And>v. v < 0x8000000000 \<Longrightarrow> process_byte (set_bytes (\<lambda>m. m(a := b)) k) (current_task k) v
       = (if v = va then Some b else process_byte k (current_task k) v)"
proof -
  let ?c = "current_task k"
  obtain own where o: "proc_inv K own k" "isolated K own k" "table_ok im k" "?c < num_tasks k" using kernel_invE [OF inv] by metis
  note sp = isolated_user(1) [OF o(2,4) u]
  obtain a where a: "el1_addr k va = Some a"
    using old current_byte [OF inv u va] by (cases "el1_addr k va") (auto simp: el1_byte_def)
  let ?k = "set_bytes (\<lambda>m. m(a := b)) k"
  obtain p where p: "p < TOTAL_PAGES" "walk (kbytes (kmm k)) (ttbr0 (cur_task k)) va = Some (page_desc (frame p))"
      "a = page_addr (page_desc (frame p)) va" "p \<in> snd (own ?c)" "in_page p a"
    by (rule user_addr [OF o(2,3) u va a]) (use desc_addr_frame in \<open>simp add: page_addr_def that\<close>)
  have st: "kstep MAX_PROGRAM im (K, k) (K, ?k)" by (rule kstep.user_write [OF u va a])
  have "p \<notin> dom (fst (own ?c))" using sp p(4) by (auto simp: space_ok_def)
  then have "keeps (dom (fst (own ?c))) (kmm k) (kmm ?k)"
    by (rule keeps_bytes [OF keeps_refl _ _ p(1), rotated 3])
      (use space_ok_used [OF sp] p(5) in \<open>auto simp: set_bytes_def\<close>)
  then have w: "walk (kbytes (kmm ?k)) (ttbr0 (cur_task k)) v = walk (kbytes (kmm k)) (ttbr0 (cur_task k)) v" for v
    by (rule space_ok_walk [OF sp])
  have once: "mapped_once (kbytes (kmm k)) (ttbr0 (cur_task k))" using sp by (auto simp: space_ok_def)
  have pb: "process_byte ?k ?c v = (if v = va then Some b else process_byte k ?c v)" if v: "v < 0x8000000000" for v
  proof (cases "walk (kbytes (kmm k)) (ttbr0 (cur_task k)) v")
    case None
    then have "v \<noteq> va" using p(2) by auto
    then show ?thesis using None w by (simp add: process_byte_def)
  next
    case (Some d)
    obtain q where q: "q \<in> snd (own ?c)" "d = page_desc (frame q)" using space_ok_frame [OF sp Some] by blast
    have Q: "q < TOTAL_PAGES" using q(1) isolated_user(4) [OF o(2,4) u] by (auto simp: owned_def used_def)
    have "v = va" if e: "page_addr d v = a"
    proof (rule same_address [OF va v])
      have "in_page q a" "in_page p a" using e in_page_addr [OF Q, of v] in_page_addr [OF p(1), of va] p(3) q(2) by simp_all
      then have "p = q" using in_page_unique p(1) Q by blast
      then show "page_no v = page_no va" using once Some p(2) q(2) unfolding mapped_once_def by blast
      show "v AND 0xFFF = va AND 0xFFF" using e p(3) q(2) \<open>p = q\<close> by (simp add: page_addr_def)
    qed
    then show ?thesis using Some w p by (auto simp: process_byte_def)
  qed
  show ?thesis
    by (rule that [OF a _ kernel_inv_step [OF inv st] pb]) (simp add: el1_store8_def a)
qed

section \<open>The machine of a process\<close>

record process =
  pmem :: "u64 \<Rightarrow> u8 option"
  pbrk :: u64
  pout :: uart

text \<open>
  The break moves by \<open>inc\<close> with result \<open>r\<close>, or there is no room; then pages behind the break may have been mapped.
\<close>

definition new_page :: "u64 \<Rightarrow> u64 \<Rightarrow> u64 \<Rightarrow> bool" where
  "new_page old new v \<longleftrightarrow> page_up old \<le> page_no v \<and> page_no v < page_up new"

definition sbrk_to :: "process \<Rightarrow> u64 \<Rightarrow> u64 \<Rightarrow> process \<Rightarrow> bool" where
  "sbrk_to a inc r a' \<longleftrightarrow> pout a' = pout a \<and> pbrk a' = (if r = -1 then pbrk a else pbrk a + inc)
     \<and> (r = -1 \<and> inc \<noteq> 0 \<or> r = pbrk a \<and> (inc \<noteq> 0 \<longrightarrow> pbrk a + inc < USER_VA_GUARD))
     \<and> (\<forall>v < 0x8000000000. if pbrk a + inc < USER_VA_GUARD \<and> new_page (pbrk a) (pbrk a + inc) v then r \<noteq> -1 \<longrightarrow> pmem a' v = Some 0 else pmem a' v = pmem a v)"

text \<open>
  The steps of a program: a load, a store, \<open>write\<close> to the console, \<open>getpid\<close> and \<open>sbrk\<close>. A load or store where nothing
  is mapped has no step, nor has another call; the program is over at \<open>exit\<close>, \<open>Svc 5\<close>.
\<close>

inductive pstep :: "nat \<Rightarrow> prog \<times> process \<Rightarrow> prog \<times> process \<Rightarrow> bool" for pid where
  p_fetch: "\<lbrakk>va < 0x8000000000; pmem a va = Some b\<rbrakk> \<Longrightarrow> pstep pid (Fetch va f, a) (f b, a)"
| p_store: "\<lbrakk>va < 0x8000000000; pmem a va \<noteq> None\<rbrakk> \<Longrightarrow> pstep pid (Store va b p, a) (p, a\<lparr>pmem := (pmem a)(va \<mapsto> b)\<rparr>)"
| p_write: "\<lbrakk>unat n = length bs; length bs < 2 ^ 31;
      \<And>i. i < length bs \<Longrightarrow> buf + of_nat i < 0x8000000000 \<and> pmem a (buf + of_nat i) = Some (bs ! i)\<rbrakk>
    \<Longrightarrow> pstep pid (Svc 1 1 buf n f, a) (f n, a\<lparr>pout := console_write bs (pout a)\<rparr>)"
| p_getpid: "pstep pid (Svc 4 a0 a1 a2 f, a) (f (of_nat pid), a)"
| p_sbrk: "sbrk_to a inc r a' \<Longrightarrow> pstep pid (Svc 9 inc a1 a2 f, a) (f r, a')"

inductive_cases pstep_Fetch: "pstep pid (Fetch va f, a) z"
inductive_cases pstep_Store: "pstep pid (Store va b p, a) z"
inductive_cases pstep_Continue [elim!]: "pstep pid (Continue, a) z"
inductive_cases pstep_Svc: "pstep pid (Svc n a0 a1 a2 f, a) z"

lemma pstep_exit: "\<not> pstep pid (Svc 5 a0 a1 a2 f, a) z"
  by (auto elim: pstep_Svc)

lemma sbrk_to_exists: "\<exists>r a'. sbrk_to a inc r a'"
  by (rule exI [of _ "if inc = 0 then pbrk a else -1"], rule exI [of _ a]) (auto simp: sbrk_to_def new_page_def)

text \<open>\<open>ends\<close>: whatever \<open>sbrk\<close> does, the program never gets stuck, and exits with a code and a state that satisfy \<open>Q\<close>.\<close>

inductive ends :: "nat \<Rightarrow> (u64 \<Rightarrow> process \<Rightarrow> bool) \<Rightarrow> prog \<Rightarrow> process \<Rightarrow> bool" for pid Q where
  over: "Q code a \<Longrightarrow> ends pid Q (Svc 5 code a1 a2 f) a"
| goes_on: "\<lbrakk>pstep pid (p, a) z; \<And>q b. pstep pid (p, a) (q, b) \<Longrightarrow> ends pid Q q b\<rbrakk> \<Longrightarrow> ends pid Q p a"

lemma ends_exit: "Q code a \<Longrightarrow> ends pid Q (Svc 5 code a1 a2 f) a"
  by (rule ends.over)

lemma ends_fetch: "\<lbrakk>va < 0x8000000000; pmem a va = Some b; ends pid Q (f b) a\<rbrakk> \<Longrightarrow> ends pid Q (Fetch va f) a"
  by (rule ends.goes_on [OF pstep.p_fetch]) (auto elim: pstep_Fetch)

lemma ends_store:
  "\<lbrakk>va < 0x8000000000; pmem a va \<noteq> None; ends pid Q p (a\<lparr>pmem := (pmem a)(va \<mapsto> b)\<rparr>)\<rbrakk> \<Longrightarrow> ends pid Q (Store va b p) a"
  by (rule ends.goes_on [OF pstep.p_store]) (auto elim: pstep_Store)

lemma ends_write:
  assumes n: "unat n = length bs" "length bs < 2 ^ 31"
    and bs: "\<And>i. i < length bs \<Longrightarrow> buf + of_nat i < 0x8000000000 \<and> pmem a (buf + of_nat i) = Some (bs ! i)"
    and e: "ends pid Q (f n) (a\<lparr>pout := console_write bs (pout a)\<rparr>)"
  shows "ends pid Q (Svc 1 1 buf n f) a"
proof (rule ends.goes_on [OF pstep.p_write [OF n bs]])
  fix q b assume "pstep pid (Svc 1 1 buf n f, a) (q, b)"
  then obtain cs where cs: "q = f n" "b = a\<lparr>pout := console_write cs (pout a)\<rparr>" "length cs = length bs"
    "\<And>i. i < length cs \<Longrightarrow> pmem a (buf + of_nat i) = Some (cs ! i)"
    using n(1) by (auto elim!: pstep_Svc)
  have "cs = bs" by (rule nth_equalityI [OF cs(3)]) (use cs(3,4) bs in force)
  then show "ends pid Q q b" using cs(1,2) e by simp
qed

lemma ends_getpid: "ends pid Q (f (of_nat pid)) a \<Longrightarrow> ends pid Q (Svc 4 a0 a1 a2 f) a"
  by (rule ends.goes_on [OF pstep.p_getpid]) (auto elim: pstep_Svc)

lemma ends_sbrk:
  assumes "\<And>r a'. sbrk_to a inc r a' \<Longrightarrow> ends pid Q (f r) a'"
  shows "ends pid Q (Svc 9 inc a1 a2 f) a"
proof -
  obtain r a' where "sbrk_to a inc r a'" using sbrk_to_exists by blast
  then show ?thesis by (intro ends.goes_on [OF pstep.p_sbrk]) (auto elim!: pstep_Svc intro: assms)
qed

text \<open>\<open>never_stuck\<close>: the same of a program that need not end.\<close>

definition exits :: "prog \<Rightarrow> bool" where
  "exits p \<longleftrightarrow> (\<exists>code a1 a2 f. p = Svc 5 code a1 a2 f)"

definition never_stuck :: "nat \<Rightarrow> prog \<Rightarrow> process \<Rightarrow> bool" where
  "never_stuck pid p a \<longleftrightarrow> (\<forall>q b. (pstep pid)\<^sup>*\<^sup>* (p, a) (q, b) \<longrightarrow> exits q \<or> (\<exists>z. pstep pid (q, b) z))"

lemma ends_step: "ends pid Q p a \<Longrightarrow> pstep pid (p, a) (q, b) \<Longrightarrow> ends pid Q q b"
  by (erule ends.cases) (auto simp: pstep_exit)

lemma ends_steps: "(pstep pid)\<^sup>*\<^sup>* (p, a) (q, b) \<Longrightarrow> ends pid Q p a \<Longrightarrow> ends pid Q q b"
  by (induction "(q, b)" arbitrary: q b rule: rtranclp_induct) (auto intro: ends_step)

lemma ends_result: "ends pid Q (Svc 5 code a1 a2 f) a \<Longrightarrow> Q code a"
  by (erule ends.cases) (auto simp: pstep_exit)

lemma ends_never_stuck: "ends pid Q p a \<Longrightarrow> never_stuck pid p a"
  unfolding never_stuck_def
proof (intro allI impI)
  fix q b assume "(pstep pid)\<^sup>*\<^sup>* (p, a) (q, b)" "ends pid Q p a"
  then have "ends pid Q q b" by (rule ends_steps)
  then show "exits q \<or> (\<exists>z. pstep pid (q, b) z)" by (rule ends.cases) (auto simp: exits_def)
qed

lemma never_stuck_step: "never_stuck pid p a \<Longrightarrow> pstep pid (p, a) (q, b) \<Longrightarrow> never_stuck pid q b"
  unfolding never_stuck_def by (meson converse_rtranclp_into_rtranclp)

lemma never_stuckD: "never_stuck pid p a \<Longrightarrow> exits p \<or> (\<exists>z. pstep pid (p, a) z)"
  unfolding never_stuck_def by blast

end
