(* ===== verification/UserSpec.thy ===== *)
theory UserSpec
  imports Process IrqSpec BootSpec
begin

text \<open>
  The kernel implements the machine of a process: in every run of the system, with all its tasks and the timer, the steps
  of one process are those of its program on this machine.
\<close>

section \<open>The relation\<close>

text \<open>The process can run, no signal is pending for it, and its standard output is the console.\<close>

definition console_process :: "image \<Rightarrow> nat set \<Rightarrow> nat \<Rightarrow> kernel \<Rightarrow> bool" where
  "console_process im K c k \<longleftrightarrow> kernel_inv im (K, k) \<and> c \<noteq> 0 \<and> c < num_tasks k \<and> is_user (task_at k c)
     \<and> tstate (task_at k c) \<in> {TASK_READY, TASK_RUNNING} \<and> pending (sig (task_at k c)) = 0
     \<and> fdt (task_at k c) ! 1 = Some Console \<and> console_type (fds k) = Some FD_TYPE_CONSOLE"

definition implements :: "image \<Rightarrow> nat set \<Rightarrow> nat \<Rightarrow> sys \<Rightarrow> prog \<Rightarrow> process \<Rightarrow> bool" where
  "implements im K c s p a \<longleftrightarrow> sys_ok im K s \<and> console_process im K c (ker s)
     \<and> (\<exists>rs. act s c = User rs p \<and> user_range ((rs ! 31 - SIGFRAME_SIZE) AND NOT 0xF) 288)
     \<and> heap_break (task_at (ker s) c) = pbrk a \<and> (\<forall>v < 0x8000000000. process_byte (ker s) c v = pmem a v)"

definition ended :: "image \<Rightarrow> nat set \<Rightarrow> nat \<Rightarrow> sys \<Rightarrow> bool" where
  "ended im K c s \<longleftrightarrow> sys_ok im K s \<and> c \<noteq> 0 \<and> c < num_tasks (ker s) \<and> is_user (task_at (ker s) c)
     \<and> act s c = Gone \<and> tstate (task_at (ker s) c) = TASK_FINISHED"

text \<open>
  A run of polite steps, of any task, in which nobody sends a signal to \<open>c\<close>; \<open>out\<close> is what the steps of \<open>c\<close> send to
  the console in it.
\<close>

definition sent :: "nat \<Rightarrow> sys \<Rightarrow> sys \<Rightarrow> u8 list" where
  "sent c s s' = (if current_task (ker s) = c then drop (length (tx (con s))) (tx (con s')) else [])"

inductive quiet_run :: "image \<Rightarrow> programs \<Rightarrow> nat set \<Rightarrow> nat \<Rightarrow> sys \<Rightarrow> u8 list \<Rightarrow> sys \<Rightarrow> bool" for im ps K c s where
  start: "quiet_run im ps K c s [] s"
| onward: "\<lbrakk>quiet_run im ps K c s out s1; polite_step im ps K s1 s2; pending (sig (task_at (ker s2) c)) = 0\<rbrakk>
    \<Longrightarrow> quiet_run im ps K c s (out @ sent c s1 s2) s2"

lemma quiet_run_trans:
  assumes "quiet_run im ps K c s1 o2 s2" "quiet_run im ps K c s o1 s1"
  shows "quiet_run im ps K c s (o1 @ o2) s2"
  using assms
proof (induction rule: quiet_run.induct)
  case (onward out s1 s2)
  then show ?case using quiet_run.onward [of im ps K c s] by (metis append_assoc)
qed simp

lemma quiet_run_one:
  "\<lbrakk>polite_step im ps K s s'; pending (sig (task_at (ker s') c)) = 0\<rbrakk> \<Longrightarrow> quiet_run im ps K c s (sent c s s') s'"
  using quiet_run.onward [OF quiet_run.start] by fastforce

lemma implements_break:
  assumes "implements im K c s p a"
  shows "0 < c" "pbrk a < USER_VA_GUARD"
proof -
  have inv: "kernel_inv im (K, ker s)" and c: "c < num_tasks (ker s)" "c \<noteq> 0" "is_user (task_at (ker s) c)" and a: "heap_break (task_at (ker s) c) = pbrk a"
    using assms by (simp_all add: implements_def console_process_def)
  obtain own where "proc_inv K own (ker s)" using kernel_invE [OF inv] by metis
  then have "task_ok (kbytes (kmm (ker s))) (task_at (ker s) c)" using c by (simp add: proc_inv_def)
  then show "pbrk a < USER_VA_GUARD" using a c by (simp add: task_ok_def)
  show "0 < c" using c(2) by simp
qed

section \<open>While another task runs\<close>

lemma implements_unharmed:
  assumes i: "implements im K c s p a" and u: "unharmed (ker s) (ker s') c"
    and s': "sys_ok im K s'" "act s' c = act s c" "pending (sig (task_at (ker s') c)) = 0"
  shows "implements im K c s' p a"
  using assms by (simp add: implements_def console_process_def unharmed_def kept_def sys_ok_def)

lemma tick_sig:
  assumes "table_ok im k"
  shows "sig (task_at (sched_tick im k) i) = sig (task_at k i)"
proof -
  let ?k = "upd_task (current_task k) (\<lambda>t. t\<lparr>ticks := ticks t + 1\<rparr>) k"
  have l: "current_task k < length (tasks k)" by (rule cur_less [OF assms])
  have t: "table_ok im ?k" using assms l by (intro upd_table_ok) auto
  have e: "sched_tick im k = sched_yield im ?k" by (simp add: sched_tick_def sched_yield_def switch_to_def Let_def)
  have n: "0 < num_tasks ?k" "current_task ?k < num_tasks ?k" using t by (auto simp: table_ok_def)
  note s = run_task_simps [OF table_ok_len [OF t pick_next_less [OF n]] cur_less [OF t]]
  show ?thesis unfolding e using l by (auto simp: sched_yield_def switch_to_def s task_at_upd)
qed

lemma implements_tick:
  assumes i: "implements im K c s p a"
  shows "implements im K c (s\<lparr>ker := sched_tick im (ker s)\<rparr>) p a"
proof -
  have c: "kernel_inv im (K, ker s)" "c < num_tasks (ker s)" "c \<noteq> 0" "pending (sig (task_at (ker s) c)) = 0" "sys_ok im K s"
    using i by (simp_all add: implements_def console_process_def)
  have "table_ok im (ker s)" using kernel_invE [OF c(1)] by metis
  then show ?thesis
    using implements_unharmed [OF i, of "s\<lparr>ker := sched_tick im (ker s)\<rparr>"] tick_unharmed [OF c(1-3)] tick_ok [OF c(5)] tick_sig c(4)
    by simp
qed

lemma implements_others:
  assumes i: "implements im K c s p a" and st: "polite_step im ps K s s'" and c: "current_task (ker s) \<noteq> c"
    and q: "pending (sig (task_at (ker s') c)) = 0"
  shows "implements im K c s' p a"
proof (cases "s' = s\<lparr>ker := sched_tick im (ker s)\<rparr>")
  case True
  then show ?thesis using implements_tick [OF i] by simp
next
  case False
  have k: "kernel_inv im (K, ker s)" "c < num_tasks (ker s)" "is_user (task_at (ker s) c)" "c \<noteq> 0" "sys_ok im K s"
    using i by (simp_all add: implements_def console_process_def)
  obtain e where e: "sys_step im ps e s s'" using st False by (auto simp: polite_step_def)
  note ok = polite_step_ok [OF st k(5)]
  have "unharmed (ker s) (ker s') c" by (rule turn_unharmed) (use ok k c in auto)
  then show ?thesis using implements_unharmed [OF i] ok sys_step_act [OF e _ k(2)] c q by simp
qed

lemma ended_others:
  assumes d: "ended im K c s" and st: "polite_step im ps K s s'"
  shows "ended im K c s' \<and> sent c s s' = []"
proof -
  have k: "kernel_inv im (K, ker s)" "c < num_tasks (ker s)" "is_user (task_at (ker s) c)" "c \<noteq> 0" "sys_ok im K s"
    using d by (simp_all add: ended_def sys_ok_def)
  have "sched_inv im (ker s)" using k(1) by (simp add: kernel_inv_def)
  then have c: "c \<noteq> current_task (ker s)" using d k(4) by (auto simp: ended_def sched_inv_def)
  note ok = polite_step_ok [OF st k(5)]
  have u: "unharmed (ker s) (ker s') c" by (rule turn_unharmed) (use ok k c in auto)
  have "act s' c = act s c" using st sys_step_act c k(2) by (auto simp: polite_step_def)
  then show ?thesis using d u ok c by (auto simp: ended_def unharmed_def kept_def sent_def)
qed

section \<open>Calls of the process\<close>

text \<open>A call that returns: the task goes on with the result.\<close>

lemma returning_call:
  assumes cp: "console_process im K c k" "current_task k = c"
  shows "end_call im ps regs f k = Some (User regs (f (regs ! 0)), k)"
proof -
  have "kernel_inv im (K, k)" using cp by (simp add: console_process_def)
  then have "signal_deliver im regs k = Some (Returned 0 regs k)"
    using cp get_current [of im K k] by (simp add: signal_deliver_def console_process_def)
  then show ?thesis by (simp add: end_call_def)
qed

lemma user_bytes_all:
  assumes "\<And>i. i < length bs \<Longrightarrow> el1_byte k (va + of_nat i) = Some (bs ! i)"
  shows "user_bytes k va (length bs) = Some bs"
proof -
  have "foldr (\<lambda>i acc. case acc of None \<Rightarrow> None | Some cs \<Rightarrow> map_option (\<lambda>b. b # cs) (el1_byte k (va + of_nat i))) [m..<length bs] (Some [])
      = Some (drop m bs)" if "m \<le> length bs" for m
    using that
  proof (induction m rule: inc_induct)
    case base
    then show ?case by simp
  next
    case (step m)
    then show ?case using assms [of m] by (simp add: upt_conv_Cons Cons_nth_drop_Suc)
  qed
  from this [of 0] show ?thesis by (simp add: user_bytes_def)
qed

lemma console_write_call:
  assumes cp: "console_process im K c k" "current_task k = c" and n: "unat n = length bs" "length bs < 2 ^ 31" and len: "length rs = 34"
    and bs: "\<And>i. i < length bs \<Longrightarrow> buf + of_nat i < 0x8000000000 \<and> process_byte k c (buf + of_nat i) = Some (bs ! i)"
  shows "dispatch im e (svc_regs rs 1 1 buf n) k u = Some (Ret ((svc_regs rs 1 1 buf n)[0 := n]) k (console_write bs u))"
proof -
  let ?rs = "svc_regs rs 1 1 buf n"
  have r: "?rs ! 0 = 1" "?rs ! 1 = buf" "?rs ! 2 = n" "?rs ! 8 = 1" using len by (simp_all add: svc_regs_def)
  have inv: "kernel_inv im (K, k)" and u: "is_user (cur_task k)" and c: "current_task k = c" using cp by (simp_all add: console_process_def)
  have "el1_byte k (buf + of_nat i) = Some (bs ! i)" if "i < length bs" for i
    using current_byte [OF inv u] bs [OF that] c by simp
  then have b: "user_bytes k buf (length bs) = Some bs" by (rule user_bytes_all)
  have n32: "unat (ucast n :: u32) = length bs"
    using n by (simp add: unat_ucast)
  then have cnt: "sint (ucast n :: u32) = int (length bs)"
  proof -
    have "uint (ucast n :: u32) = int (length bs)" using n32 by (simp only: uint_nat)
    then show ?thesis using n(2) by (simp add: sint_uint signed_take_bit_int_eq_self)
  qed
  obtain f where f: "files (fds k) Console = Some f" "ftype f = FD_TYPE_CONSOLE" "fdt (task_at k c) ! 1 = Some Console"
    using cp by (auto simp: console_process_def console_type_def)
  have fdt: "current_fdt k ! 1 = Some Console" using f(3) c by (simp add: current_fdt_def sched_current_id_def)
  then have v: "fd_valid (current_fdt k) 1" by (simp add: fd_valid_def MAX_FDS_PER_TASK_def)
  have "of_int (int (length bs)) = n" by (simp flip: n(1))
  then have "sys_write im ?rs k u = Some (Ret (?rs[0 := n]) k (console_write bs u))"
    using b v fdt f r n32 cnt by (simp add: sys_write_def sys_write_rest_def fd_write_def)
  then show ?thesis using r by (simp add: dispatch_def)
qed

lemma sys_sbrk_frame:
  assumes "sys_sbrk inc k = Some (r, k')"
  shows "current_task k' = current_task k" "num_tasks k' = num_tasks k" "fds k' = fds k"
    "is_user (task_at k' i) = is_user (task_at k i)" "sig (task_at k' i) = sig (task_at k i)" "fdt (task_at k' i) = fdt (task_at k i)"
    "tstate (task_at k' i) = tstate (task_at k i)"
proof -
  have u: "is_user (task_at (upd_task j (\<lambda>t. t\<lparr>heap_break := b\<rparr>) k1) i) = is_user (task_at k1 i)"
    "sig (task_at (upd_task j (\<lambda>t. t\<lparr>heap_break := b\<rparr>) k1) i) = sig (task_at k1 i)"
    "fdt (task_at (upd_task j (\<lambda>t. t\<lparr>heap_break := b\<rparr>) k1) i) = fdt (task_at k1 i)"
    "tstate (task_at (upd_task j (\<lambda>t. t\<lparr>heap_break := b\<rparr>) k1) i) = tstate (task_at k1 i)" for j b k1
    by (cases "j < length (tasks k1)"; simp add: upd_task_def nth_list_update list_update_beyond)+
  show "current_task k' = current_task k" "num_tasks k' = num_tasks k" "fds k' = fds k"
    "is_user (task_at k' i) = is_user (task_at k i)" "sig (task_at k' i) = sig (task_at k i)" "fdt (task_at k' i) = fdt (task_at k i)"
    "tstate (task_at k' i) = tstate (task_at k i)"
    using assms u by (auto simp: sys_sbrk_def Let_def split: if_splits option.splits)
qed

lemma sbrk_call:
  assumes cp: "console_process im K c k" "current_task k = c" and len: "length rs = 34"
    and a: "heap_break (task_at k c) = pbrk a" "\<forall>v < 0x8000000000. process_byte k c v = pmem a v"
  shows "\<exists>r k'. (\<forall>e. dispatch im e (svc_regs rs 9 inc a1 a2) k u = Some (Ret ((svc_regs rs 9 inc a1 a2)[0 := r]) k' u))
    \<and> console_process im K c k' \<and> current_task k' = c \<and> num_tasks k' = num_tasks k
    \<and> sbrk_to a inc r \<lparr>pmem = process_byte k' c, pbrk = heap_break (task_at k' c), pout = pout a\<rparr>"
proof -
  have inv: "kernel_inv im (K, k)" and us: "is_user (cur_task k)" and c: "current_task k = c" using cp by (simp_all add: console_process_def)
  obtain own where "proc_inv K own k" "current_task k < num_tasks k" using kernel_invE [OF inv] by metis
  then have "task_ok (kbytes (kmm k)) (cur_task k)" using us by (simp add: proc_inv_def)
  then have hb: "pbrk a < USER_VA_GUARD" using a(1) c by (simp add: task_ok_def)
  obtain r k' where s: "sys_sbrk inc k = Some (r, k')" "inc = 0 \<longrightarrow> r = pbrk a \<and> k' = k" "USER_VA_GUARD \<le> pbrk a + inc \<longrightarrow> r = -1 \<and> k' = k"
    "heap_break (task_at k' c) = (if r = -1 then pbrk a else pbrk a + inc)" "r = -1 \<or> r = pbrk a"
    "r \<noteq> -1 \<longrightarrow> (\<forall>v. page_up (pbrk a) \<le> page_no v \<longrightarrow> page_no v < page_up (pbrk a + inc) \<longrightarrow> process_byte k' c v = Some 0)"
    "\<forall>v. \<not> (page_up (pbrk a) \<le> page_no v \<and> page_no v < page_up (pbrk a + inc)) \<longrightarrow> process_byte k' c v = process_byte k c v"
    using sbrk_effect [OF inv us, of inc, unfolded c, unfolded a(1)] by blast
  note fr = sys_sbrk_frame [OF s(1)]
  have d: "dispatch im e (svc_regs rs 9 inc a1 a2) k u = Some (Ret ((svc_regs rs 9 inc a1 a2)[0 := r]) k' u)" for e
    using len s(1) by (simp add: dispatch_def svc_regs_def)
  have "console_process im K c k'"
    using cp kernel_inv_step [OF inv kstep.sbrk [OF s(1)]] fr by (simp add: console_process_def)
  moreover have "pbrk a \<noteq> -1" using hb by (auto simp: USER_VA_GUARD_def USER_VA_STACK_def USER_STACK_PAGES_def)
  then have "sbrk_to a inc r \<lparr>pmem = process_byte k' c, pbrk = heap_break (task_at k' c), pout = pout a\<rparr>"
    using s(2-7) a hb by (auto simp: sbrk_to_def new_page_def not_le [symmetric])
  ultimately show ?thesis using d fr(1,2) c by blast
qed

lemma console_write_tx: "tx (console_write bs u) = tx u @ tx (console_write bs \<lparr>rx = [], tx = []\<rparr>)"
proof (induction bs arbitrary: u)
  case (Cons b bs)
  show ?case unfolding console_write.simps
    by (subst (1 2) Cons.IH) (simp add: uart_putc_def)
qed simp

text \<open>
  What a call of the process that is a step of its program does, whatever the heap and the disk answer.
\<close>

lemma own_call:
  assumes i: "implements im K c s (Svc n a0 a1 a2 f) a" "current_task (ker s) = c" "act s c = User rs (Svc n a0 a1 a2 f)"
    and st: "pstep c (Svc n a0 a1 a2 f, a) z"
  obtains r k u b where "\<And>e. dispatch im e (svc_regs rs n a0 a1 a2) (ker s) (con s) = Some (Ret ((svc_regs rs n a0 a1 a2)[0 := r]) k u)"
    "pstep c (Svc n a0 a1 a2 f, a) (f r, b)" "console_process im K c k" "current_task k = c" "num_tasks k = num_tasks (ker s)"
    "heap_break (task_at k c) = pbrk b" "\<forall>v < 0x8000000000. process_byte k c v = pmem b v"
    "tx (pout b) = tx (pout a) @ drop (length (tx (con s))) (tx u)" "n \<notin> {0, 2, 7, 10, 12}"
proof -
  have cp: "console_process im K c (ker s)" and len: "length rs = 34"
    and a: "heap_break (task_at (ker s) c) = pbrk a" "\<forall>v < 0x8000000000. process_byte (ker s) c v = pmem a v"
    using i by (auto simp: implements_def sys_ok_def split: activity.splits dest: spec [of _ c])
  consider (wr) bs where "n = 1" "a0 = 1" "unat a2 = length bs" "length bs < 2 ^ 31"
      "\<And>i. i < length bs \<Longrightarrow> a1 + of_nat i < 0x8000000000 \<and> pmem a (a1 + of_nat i) = Some (bs ! i)"
    | (getpid) "n = 4"
    | (sbrk) "n = 9"
    using st by (auto elim!: pstep_Svc)
  then show ?thesis
  proof cases
    case (wr bs)
    have bs: "a1 + of_nat j < 0x8000000000 \<and> process_byte (ker s) c (a1 + of_nat j) = Some (bs ! j)" if "j < length bs" for j
      using wr(5) [OF that] a(2) by simp
    have d: "dispatch im e (svc_regs rs 1 1 a1 a2) (ker s) (con s)
        = Some (Ret ((svc_regs rs 1 1 a1 a2)[0 := a2]) (ker s) (console_write bs (con s)))" for e
      by (rule console_write_call [OF cp i(2) wr(3,4) len bs])
    have tx: "tx (console_write bs (pout a)) = tx (pout a) @ drop (length (tx (con s))) (tx (console_write bs (con s)))"
      by (subst (1 2) console_write_tx) simp
    have d': "dispatch im e (svc_regs rs n a0 a1 a2) (ker s) (con s)
        = Some (Ret ((svc_regs rs n a0 a1 a2)[0 := a2]) (ker s) (console_write bs (con s)))" for e
      using d [of e] wr(1,2) by simp
    note tx
    moreover have "pstep c (Svc n a0 a1 a2 f, a) (f a2, a\<lparr>pout := console_write bs (pout a)\<rparr>)"
      unfolding wr(1,2) by (rule pstep.p_write [OF wr(3,4,5)])
    ultimately show ?thesis using wr(1,2) cp i(2) a
      by (intro that [OF d', of "a\<lparr>pout := console_write bs (pout a)\<rparr>"]) simp_all
  next
    case getpid
    have "dispatch im e (svc_regs rs 4 a0 a1 a2) (ker s) (con s) = Some (Ret ((svc_regs rs 4 a0 a1 a2)[0 := of_nat c]) (ker s) (con s))" for e
      using len i(2) by (simp add: dispatch_def svc_regs_def sched_current_id_def)
    then show ?thesis using getpid cp i(2) a pstep.p_getpid
      by (intro that [of "of_nat c" "ker s" "con s" a]) simp_all
  next
    case sbrk
    obtain r k where r: "\<And>e. dispatch im e (svc_regs rs 9 a0 a1 a2) (ker s) (con s) = Some (Ret ((svc_regs rs 9 a0 a1 a2)[0 := r]) k (con s))"
      "console_process im K c k" "current_task k = c" "num_tasks k = num_tasks (ker s)"
      "sbrk_to a a0 r \<lparr>pmem = process_byte k c, pbrk = heap_break (task_at k c), pout = pout a\<rparr>"
      using sbrk_call [OF cp i(2) len a] by blast
    then show ?thesis using sbrk r(1) pstep.p_sbrk [OF r(5)]
      by (intro that [of r k "con s" "\<lparr>pmem = process_byte k c, pbrk = heap_break (task_at k c), pout = pout a\<rparr>"]) (use r(2-4) in simp_all)
  qed
qed

lemma yield_sig:
  assumes t: "table_ok im k"
  shows "sig (task_at (sched_yield im k) i) = sig (task_at k i)"
proof -
  have n: "0 < num_tasks k" "current_task k < num_tasks k" using t by (auto simp: table_ok_def)
  note s = run_task_simps [OF table_ok_len [OF t pick_next_less [OF n]] cur_less [OF t]]
  show ?thesis by (auto simp: sched_yield_def switch_to_def s)
qed

lemma sched_exit_task:
  assumes inv: "sched_inv im k" and r: "sched_exit im k = Some k'"
  shows "num_tasks k' = num_tasks k \<and> is_user (task_at k' i) = is_user (task_at k i)
    \<and> sig (task_at k' (current_task k)) = sig (cur_task k)"
  using inv r
proof (rule sched_exit_yields)
  fix k2
  assume k2: "k' = sched_yield im k2" "sched_wf im k2" "num_tasks k2 = num_tasks k" "current_task k2 = current_task k"
    "sig (cur_task k2) = sig (cur_task k)"
    and h: "\<And>i. is_user (task_at k2 i) = is_user (task_at k i) \<and> ttbr0 (task_at k2 i) = ttbr0 (task_at k i)
       \<and> ctx (task_at k2 i) = ctx (task_at k i) \<and> code_pa (task_at k2 i) = code_pa (task_at k i)
       \<and> code_pages (task_at k2 i) = code_pages (task_at k i) \<and> stack_pa (task_at k2 i) = stack_pa (task_at k i)
       \<and> heap_break (task_at k2 i) = heap_break (task_at k i)"
  have t: "table_ok im k2" using k2(2) by (simp add: sched_wf_def)
  from same_procs_yield [OF t] yield_sig [OF t] show ?thesis using k2 h [of i] by (simp add: same_procs_def same_space_def)
qed

lemma exit_call:
  assumes cp: "console_process im K c (ker s)" "current_task (ker s) = c" and len: "length rs = 34"
  obtains k where "\<And>e. dispatch im e (svc_regs rs 5 code a1 a2) (ker s) u = Some (Ended k)"
    "tstate (task_at k c) = TASK_FINISHED" "c < num_tasks k" "num_tasks k = num_tasks (ker s)" "is_user (task_at k c)"
    "pending (sig (task_at k c)) = 0"
proof -
  have inv: "kernel_inv im (K, ker s)" and c: "c \<noteq> 0" "c < num_tasks (ker s)" "is_user (task_at (ker s) c)"
    "pending (sig (task_at (ker s) c)) = 0"
    using cp by (simp_all add: console_process_def)
  obtain k where k: "sched_exit im (ker s) = Some k" "kernel_inv im (K, k)" using sched_exit_returns [OF inv] by blast
  have sch: "sched_inv im (ker s)" using inv by (simp add: kernel_inv_def)
  show ?thesis
  proof (rule that [of k])
    show "dispatch im e (svc_regs rs 5 code a1 a2) (ker s) u = Some (Ended k)" for e
      using len k(1) by (simp add: dispatch_def svc_regs_def)
    show "tstate (task_at k c) = TASK_FINISHED" using sched_exit_finishes [OF sch k(1)] cp(2) c(1) by simp
  qed (use sched_exit_task [OF sch k(1)] c cp(2) in simp_all)
qed

section \<open>The steps of the process\<close>

text \<open>What the steps of \<open>c\<close> may do to the pair of its program and its state; \<open>s'\<close> is the system after it.\<close>

definition matches :: "image \<Rightarrow> nat set \<Rightarrow> nat \<Rightarrow> sys \<Rightarrow> prog \<Rightarrow> process \<Rightarrow> sys \<Rightarrow> bool" where
  "matches im K c s p a s' \<longleftrightarrow>
     (\<exists>q b. pstep c (p, a) (q, b) \<and> implements im K c s' q b \<and> tx (pout b) = tx (pout a) @ sent c s s')
     \<or> exits p \<and> ended im K c s' \<and> sent c s s' = []"

lemma implementsE:
  assumes "implements im K c s p a"
  obtains rs where "sys_ok im K s" "console_process im K c (ker s)" "act s c = User rs p" "length rs = 34"
    "user_range ((rs ! 31 - SIGFRAME_SIZE) AND NOT 0xF) 288" "heap_break (task_at (ker s) c) = pbrk a"
    "\<And>v. v < 0x8000000000 \<Longrightarrow> process_byte (ker s) c v = pmem a v"
  using assms by (auto simp: implements_def sys_ok_def dest: spec [of "\<lambda>i. activity_ok (act s i)" c])

lemma polite_user:
  assumes "act s (current_task (ker s)) = User rs p" "\<And>num a0 a1 a2 f. p \<noteq> Svc num a0 a1 a2 f"
  shows "polite im e K (ker s) (con s) (act s (current_task (ker s)))"
proof (cases p)
  case (Svc n a0 a1 a2 f)
  then show ?thesis using assms(2) by blast
qed (use assms(1) in auto)

text \<open>The process has exactly one step, apart from the tick of the timer, and this step is one of its program.\<close>

lemma own_fetch:
  assumes i: "implements im K c s (Fetch va f) a" "current_task (ker s) = c" and st: "pstep c (Fetch va f, a) z"
  shows "\<exists>s'. polite_step im ps K s s' \<and> matches im K c s (Fetch va f) a s' \<and> pending (sig (task_at (ker s') c)) = 0
    \<and> (\<forall>e t. sys_step im ps e s t \<longrightarrow> t = s' \<or> t = s\<lparr>ker := sched_tick im (ker s)\<rparr>)"
proof -
  obtain rs where rs: "sys_ok im K s" "console_process im K c (ker s)" "act s c = User rs (Fetch va f)"
    "user_range ((rs ! 31 - SIGFRAME_SIZE) AND NOT 0xF) 288" "heap_break (task_at (ker s) c) = pbrk a" "length rs = 34"
    "\<And>v. v < 0x8000000000 \<Longrightarrow> process_byte (ker s) c v = pmem a v"
    by (rule implementsE [OF i(1)]) (rule that)
  obtain b where b: "va < 0x8000000000" "pmem a va = Some b" using st by (auto elim: pstep_Fetch)
  have u: "kernel_inv im (K, ker s)" "is_user (cur_task (ker s))" "pending (sig (task_at (ker s) c)) = 0"
    using rs(2) i(2) by (simp_all add: console_process_def)
  have e: "el1_byte (ker s) va = Some b" using current_byte [OF u(1,2) b(1)] rs(7) b i(2) by simp
  let ?s = "s\<lparr>act := (act s)(c := User rs (f b))\<rparr>"
  have only: "t = ?s \<or> t = s\<lparr>ker := sched_tick im (ker s)\<rparr>" if "sys_step im ps e s t" for e t
    using that by (cases rule: sys_step.cases) (use rs(3) i(2) u(2) e b(1) in auto)
  have "polite_step im ps K s ?s"
    unfolding polite_step_def using sys_step.fetch [of c s rs va f b im ps] polite_user [of s rs "Fetch va f"] rs(3) i(2) u(2) e b(1) by auto
  note ps = this
  have "implements im K c ?s (f b) a" using i(1) rs by (auto simp: implements_def sys_ok_def)
  moreover have "sent c s ?s = []" by (simp add: sent_def)
  ultimately have "matches im K c s (Fetch va f) a ?s" using pstep.p_fetch [OF b] unfolding matches_def by fastforce
  then show ?thesis using ps only u(3) by (intro exI [of _ ?s]) auto
qed

lemma own_store:
  assumes i: "implements im K c s (Store va x p) a" "current_task (ker s) = c" and st: "pstep c (Store va x p, a) z"
  shows "\<exists>s'. polite_step im ps K s s' \<and> matches im K c s (Store va x p) a s' \<and> pending (sig (task_at (ker s') c)) = 0
    \<and> (\<forall>e t. sys_step im ps e s t \<longrightarrow> t = s' \<or> t = s\<lparr>ker := sched_tick im (ker s)\<rparr>)"
proof -
  obtain rs where rs: "sys_ok im K s" "console_process im K c (ker s)" "act s c = User rs (Store va x p)"
    "user_range ((rs ! 31 - SIGFRAME_SIZE) AND NOT 0xF) 288" "heap_break (task_at (ker s) c) = pbrk a" "length rs = 34"
    "\<And>v. v < 0x8000000000 \<Longrightarrow> process_byte (ker s) c v = pmem a v"
    by (rule implementsE [OF i(1)]) (rule that)
  have va: "va < 0x8000000000" "pmem a va \<noteq> None" using st by (auto elim: pstep_Store)
  have u: "kernel_inv im (K, ker s)" "is_user (cur_task (ker s))" "pending (sig (task_at (ker s) c)) = 0"
    using rs(2) i(2) by (simp_all add: console_process_def)
  have "process_byte (ker s) (current_task (ker s)) va \<noteq> None" using rs(7) va i(2) by simp
  then obtain y where y: "el1_addr (ker s) va = Some y" "el1_store8 va x (ker s) = Some (set_bytes (\<lambda>m. m(y := x)) (ker s))"
    "kernel_inv im (K, set_bytes (\<lambda>m. m(y := x)) (ker s))"
    "\<And>v. v < 0x8000000000 \<Longrightarrow> process_byte (set_bytes (\<lambda>m. m(y := x)) (ker s)) c v = (if v = va then Some x else process_byte (ker s) c v)"
    using current_store [OF u(1,2) va(1)] i(2) by metis
  let ?s = "s\<lparr>ker := set_bytes (\<lambda>m. m(y := x)) (ker s), act := (act s)(c := User rs p)\<rparr>"
  have only: "t = ?s \<or> t = s\<lparr>ker := sched_tick im (ker s)\<rparr>" if "sys_step im ps e s t" for e t
    using that by (cases rule: sys_step.cases) (use rs(3) i(2) u(2) y(1,2) va(1) in auto)
  have "polite_step im ps K s ?s"
    unfolding polite_step_def using sys_step.store [of c s rs va x p _ im ps] polite_user [of s rs "Store va x p"] rs(3) i(2) u(2) y(2) va(1)
    by auto
  note ps = this
  have "console_process im K c (ker ?s)" using rs(2) y(3) by (simp add: console_process_def set_bytes_def)
  then have "implements im K c ?s p (a\<lparr>pmem := (pmem a)(va \<mapsto> x)\<rparr>)"
    using i(1) rs y(3,4) by (auto simp: implements_def sys_ok_def set_bytes_def)
  moreover have "sent c s ?s = []" by (simp add: sent_def)
  ultimately have "matches im K c s (Store va x p) a ?s" using pstep.p_store [OF va] unfolding matches_def by fastforce
  then show ?thesis using ps only u(3) by (intro exI [of _ ?s]) (auto simp: set_bytes_def)
qed

lemma own_svc:
  assumes i: "implements im K c s (Svc n a0 a1 a2 f) a" "current_task (ker s) = c"
    and st: "exits (Svc n a0 a1 a2 f) \<or> (\<exists>z. pstep c (Svc n a0 a1 a2 f, a) z)"
  shows "\<exists>s'. polite_step im ps K s s' \<and> matches im K c s (Svc n a0 a1 a2 f) a s' \<and> pending (sig (task_at (ker s') c)) = 0
    \<and> (\<forall>e t. sys_step im ps e s t \<longrightarrow> t = s' \<or> t = s\<lparr>ker := sched_tick im (ker s)\<rparr>)"
proof -
  obtain rs where rs: "sys_ok im K s" "console_process im K c (ker s)" "act s c = User rs (Svc n a0 a1 a2 f)"
    "user_range ((rs ! 31 - SIGFRAME_SIZE) AND NOT 0xF) 288" "length rs = 34"
    by (rule implementsE [OF i(1)]) (rule that)
  have u: "is_user (cur_task (ker s))" "c < num_tasks (ker s)" "c \<noteq> 0" using rs(2) i(2) by (simp_all add: console_process_def)
  let ?rs = "svc_regs rs n a0 a1 a2"
  have l: "?rs ! 8 = n" using rs(5) by (simp add: svc_regs_def)
  have only: "t = \<lparr>ker = k, con = v, act = spawned im ps ?rs f (ker s) k ((act s)(c := x))\<rparr> \<or> t = s\<lparr>ker := sched_tick im (ker s)\<rparr>"
    if "sys_step im ps e s t" "\<And>e. dispatch im e ?rs (ker s) (con s) = Some out" "settle im ps ?rs f (con s) out = Some (x, k, v)" for e t out x k v
    using that(1) by (cases rule: sys_step.cases) (use rs(3) i(2) u(1) that(2,3) in auto)
  have step: "sys_step im ps e s \<lparr>ker = k, con = v, act = spawned im ps ?rs f (ker s) k ((act s)(c := x))\<rparr>"
    if "\<And>e. dispatch im e ?rs (ker s) (con s) = Some out" "settle im ps ?rs f (con s) out = Some (x, k, v)" for e out x k v
    by (rule sys_step.svc [OF _ _ rs(3) refl that]) (use i(2) u(1) in simp_all)
  have pol: "polite im e K (ker s) (con s) (act s (current_task (ker s)))"
    if "\<And>e. dispatch im e ?rs (ker s) (con s) = Some out" "n \<notin> {0, 2, 7, 10, 12}"
      "\<And>rs1 k1 u1. out = Ret rs1 k1 u1 \<Longrightarrow> rs1 ! 31 = rs ! 31" for e out
    using that rs(3,4) l i(2) by (auto simp: polite_call_def user_args_def)
  from st show ?thesis
  proof
    assume "exits (Svc n a0 a1 a2 f)"
    then have n: "n = 5" by (simp add: exits_def)
    obtain k where k: "\<And>e. dispatch im e ?rs (ker s) (con s) = Some (Ended k)"
      "tstate (task_at k c) = TASK_FINISHED" "c < num_tasks k" "num_tasks k = num_tasks (ker s)" "is_user (task_at k c)"
      "pending (sig (task_at k c)) = 0"
      by (rule exit_call [OF rs(2) i(2) rs(5), of a0 a1 a2 "con s"]) (rule that, simp_all add: n)
    have set: "settle im ps ?rs f (con s) (Ended k) = Some (Gone, k, con s)" by simp
    let ?s = "\<lparr>ker = k, con = con s, act = spawned im ps ?rs f (ker s) k ((act s)(c := Gone))\<rparr>"
    have ps: "polite_step im ps K s ?s" unfolding polite_step_def using pol [OF k(1)] step [OF k(1) set] n by fastforce
    have "sys_ok im K ?s" using polite_step_ok [OF ps rs(1)] by blast
    then have "ended im K c ?s" using k u by (simp add: ended_def spawned_def)
    then have "matches im K c s (Svc n a0 a1 a2 f) a ?s" using n by (auto simp: matches_def exits_def sent_def)
    then show ?thesis using ps only [OF _ k(1) set] k(6) by (intro exI [of _ ?s]) auto
  next
    assume "\<exists>z. pstep c (Svc n a0 a1 a2 f, a) z"
    then obtain z where z: "pstep c (Svc n a0 a1 a2 f, a) z" by blast
    obtain r k v b where k: "\<And>e. dispatch im e ?rs (ker s) (con s) = Some (Ret (?rs[0 := r]) k v)"
      "pstep c (Svc n a0 a1 a2 f, a) (f r, b)" "console_process im K c k" "current_task k = c" "num_tasks k = num_tasks (ker s)"
      "heap_break (task_at k c) = pbrk b" "\<forall>v < 0x8000000000. process_byte k c v = pmem b v"
      "tx (pout b) = tx (pout a) @ drop (length (tx (con s))) (tx v)" "n \<notin> {0, 2, 7, 10, 12}"
      by (rule own_call [OF i rs(3) z]) (rule that)
    have r: "?rs[0 := r] ! 0 = r" "?rs[0 := r] ! 31 = rs ! 31" using rs(5) by (simp_all add: svc_regs_def)
    have set: "settle im ps ?rs f (con s) (Ret (?rs[0 := r]) k v) = Some (User (?rs[0 := r]) (f r), k, v)"
      using returning_call [OF k(3,4)] r(1) by simp
    let ?s = "\<lparr>ker = k, con = v, act = spawned im ps ?rs f (ker s) k ((act s)(c := User (?rs[0 := r]) (f r)))\<rparr>"
    have ps: "polite_step im ps K s ?s"
      unfolding polite_step_def using pol [OF k(1,9)] step [OF k(1) set] r(2) by fastforce
    have "sys_ok im K ?s" using polite_step_ok [OF ps rs(1)] by blast
    then have "implements im K c ?s (f r) b" using k rs(4) r(2) by (auto simp: implements_def spawned_def)
    then have "matches im K c s (Svc n a0 a1 a2 f) a ?s" using k(2,8) i(2) by (auto simp: matches_def sent_def)
    moreover have "pending (sig (task_at k c)) = 0" using k(3) by (simp add: console_process_def)
    ultimately show ?thesis using ps only [OF _ k(1) set] by (intro exI [of _ ?s]) auto
  qed
qed

lemma own_step:
  assumes i: "implements im K c s p a" "current_task (ker s) = c" and st: "exits p \<or> (\<exists>z. pstep c (p, a) z)"
  shows "\<exists>s'. polite_step im ps K s s' \<and> matches im K c s p a s' \<and> pending (sig (task_at (ker s') c)) = 0
    \<and> (\<forall>e t. sys_step im ps e s t \<longrightarrow> t = s' \<or> t = s\<lparr>ker := sched_tick im (ker s)\<rparr>)"
proof (cases p)
  case (Svc n a0 a1 a2 f)
  then show ?thesis using own_svc [of im K c s n a0 a1 a2 f a ps] assms by simp
next
  case (Fetch va f)
  then obtain z where "pstep c (Fetch va f, a) z" using st by (auto simp: exits_def)
  from own_fetch [OF _ i(2) this] show ?thesis using i(1) Fetch by blast
next
  case (Store va x q)
  then obtain z where "pstep c (Store va x q, a) z" using st by (auto simp: exits_def)
  from own_store [OF _ i(2) this] show ?thesis using i(1) Store by blast
qed (use st in \<open>auto simp: exits_def elim: pstep.cases\<close>)

section \<open>Runs\<close>

lemma quiet_step:
  assumes i: "implements im K c s p a" and n: "never_stuck c p a" and st: "polite_step im ps K s s'"
    and q: "pending (sig (task_at (ker s') c)) = 0"
  shows "implements im K c s' p a \<and> sent c s s' = [] \<or> matches im K c s p a s'"
proof (cases "current_task (ker s) = c")
  case False
  then show ?thesis using implements_others [OF i st False q] by (simp add: sent_def)
next
  case True
  obtain t where t: "matches im K c s p a t" "\<And>e t'. sys_step im ps e s t' \<Longrightarrow> t' = t \<or> t' = s\<lparr>ker := sched_tick im (ker s)\<rparr>"
    using own_step [OF i True never_stuckD [OF n], of ps] by blast
  have "s' = t \<or> s' = s\<lparr>ker := sched_tick im (ker s)\<rparr>" using st t(2) by (auto simp: polite_step_def)
  then show ?thesis using t(1) implements_tick [OF i] by (auto simp: sent_def)
qed

lemma quiet_run_simulates:
  assumes "quiet_run im ps K c s out s'" "implements im K c s p a" "never_stuck c p a"
  shows "\<exists>q b. (pstep c)\<^sup>*\<^sup>* (p, a) (q, b) \<and> tx (pout b) = tx (pout a) @ out
    \<and> (implements im K c s' q b \<or> exits q \<and> ended im K c s')"
  using assms
proof (induction rule: quiet_run.induct)
  case start
  then show ?case by auto
next
  case (onward out s1 s2)
  obtain q b where q: "(pstep c)\<^sup>*\<^sup>* (p, a) (q, b)" "tx (pout b) = tx (pout a) @ out"
    "implements im K c s1 q b \<or> exits q \<and> ended im K c s1"
    using onward.IH onward.prems by blast
  from q(3) show ?case
  proof
    assume "exits q \<and> ended im K c s1"
    then show ?thesis using ended_others [OF _ onward.hyps(2)] q(1,2) by (intro exI [of _ q] exI [of _ b]) simp
  next
    assume i: "implements im K c s1 q b"
    have n: "never_stuck c q b" using onward.prems(2) q(1) unfolding never_stuck_def by (meson rtranclp_trans)
    from quiet_step [OF i n onward.hyps(2,3)] consider "implements im K c s2 q b" "sent c s1 s2 = []"
      | r d where "pstep c (q, b) (r, d)" "implements im K c s2 r d" "tx (pout d) = tx (pout b) @ sent c s1 s2"
      | "exits q" "ended im K c s2" "sent c s1 s2 = []"
      unfolding matches_def by blast
    then show ?thesis
    proof cases
      case (2 r d)
      then show ?thesis using q(1,2) rtranclp.rtrancl_into_rtrancl [OF q(1) 2(1)] by (intro exI [of _ r] exI [of _ d]) simp
    qed (use q(1,2) in auto)
  qed
qed

text \<open>The process is current again after some ticks of the timer, and then takes its next step.\<close>

lemma quiet_ticks:
  assumes "implements im K c s p a"
  shows "implements im K c (s\<lparr>ker := (sched_tick im ^^ n) (ker s)\<rparr>) p a
    \<and> quiet_run im ps K c s [] (s\<lparr>ker := (sched_tick im ^^ n) (ker s)\<rparr>)"
proof (induction n)
  case 0
  then show ?case using assms quiet_run.start by simp
next
  case (Suc n)
  let ?s = "s\<lparr>ker := (sched_tick im ^^ n) (ker s)\<rparr>" and ?t = "s\<lparr>ker := (sched_tick im ^^ Suc n) (ker s)\<rparr>"
  have i: "implements im K c ?t p a" using implements_tick [of im K c ?s p a] Suc by simp
  then have "pending (sig (task_at (ker ?t) c)) = 0" by (simp add: implements_def console_process_def)
  then have "quiet_run im ps K c s ([] @ sent c ?s ?t) ?t"
    using Suc by (intro quiet_run.onward [of im ps K c s "[]" ?s ?t]) (simp_all add: polite_step_def)
  moreover have "sent c ?s ?t = []" by (simp add: sent_def)
  ultimately show ?case using i by simp
qed

lemma process_goes_on:
  assumes i: "implements im K c s p a" and n: "never_stuck c p a"
  shows "\<exists>s' t. quiet_run im ps K c s [] t \<and> quiet_run im ps K c s (sent c t s') s' \<and> matches im K c t p a s'"
proof -
  have k: "kernel_inv im (K, ker s)" "c < num_tasks (ker s)" "tstate (task_at (ker s) c) \<in> {TASK_READY, TASK_RUNNING}"
    using i by (simp_all add: implements_def console_process_def)
  have sch: "sched_inv im (ker s)" using k(1) by (simp add: kernel_inv_def)
  obtain m where m: "current_task ((sched_tick im ^^ m) (ker s)) = c"
  proof (cases "current_task (ker s) = c")
    case True
    then show ?thesis using that [of 0] by simp
  next
    case False
    have "c < SCHED_MAX_TASKS" using k(2) sch by (auto simp: sched_defs)
    then have "tstate (task_at (ker s) c) \<noteq> TASK_RUNNING" using sch False by (auto simp: sched_defs)
    then have "tstate (task_at (ker s) c) = TASK_READY" using k(3) by simp
    from ready_task_runs [OF sch k(2) _ this] show ?thesis using False that by metis
  qed
  let ?t = "s\<lparr>ker := (sched_tick im ^^ m) (ker s)\<rparr>"
  note t = quiet_ticks [OF i, of m ps]
  obtain s' where s': "polite_step im ps K ?t s'" "matches im K c ?t p a s'" "pending (sig (task_at (ker s') c)) = 0"
    using own_step [OF conjunct1 [OF t] _ never_stuckD [OF n], of ps] m by auto
  have "quiet_run im ps K c s (sent c ?t s') s'"
    using quiet_run.onward [OF conjunct2 [OF t] s'(1,3)] by simp
  then show ?thesis using t s'(2) by blast
qed

text \<open>A program that always ends can always be brought to its end.\<close>

lemma process_finishes:
  assumes "ends c Q p a" "implements im K c s p a"
  shows "\<exists>out s' code b. quiet_run im ps K c s out s' \<and> ended im K c s' \<and> Q code b \<and> tx (pout b) = tx (pout a) @ out"
  using assms
proof (induction arbitrary: s rule: ends.induct)
  case (over code a a1 a2 f)
  have "ends c Q (Svc 5 code a1 a2 f) a" by (rule ends.over) (rule over(1))
  then have n: "never_stuck c (Svc 5 code a1 a2 f) a" by (rule ends_never_stuck)
  obtain s' t where s': "quiet_run im ps K c s (sent c t s') s'" "matches im K c t (Svc 5 code a1 a2 f) a s'"
    using process_goes_on [OF over(2) n, of ps] by blast
  then show ?case using over(1) pstep_exit unfolding matches_def by fastforce
next
  case (goes_on p a z)
  have e: "ends c Q p a" using ends.goes_on [OF goes_on(1)] goes_on(2) by blast
  obtain s' t where s': "quiet_run im ps K c s (sent c t s') s'" "matches im K c t p a s'"
    using process_goes_on [OF goes_on.prems ends_never_stuck [OF e], of ps] by blast
  have "\<not> exits p" using goes_on(1) pstep_exit unfolding exits_def by metis
  then obtain q b where q: "pstep c (p, a) (q, b)" "implements im K c s' q b" "tx (pout b) = tx (pout a) @ sent c t s'"
    using s'(2) by (auto simp: matches_def)
  obtain out s2 code d where "quiet_run im ps K c s' out s2" "ended im K c s2" "Q code d" "tx (pout d) = tx (pout b) @ out"
    using goes_on.IH [OF q(1,2)] by blast
  then show ?case using quiet_run_trans [OF _ s'(1)] q(3) by (metis append_assoc)
qed

lemma ending_run:
  assumes e: "ends c Q p a" and i: "implements im K c s p a" and r: "quiet_run im ps K c s out s'"
  shows "(act s' c = Gone \<longrightarrow> (\<exists>code b. Q code b \<and> tx (pout b) = tx (pout a) @ out))
    \<and> (\<exists>out' s'' code b. quiet_run im ps K c s' out' s'' \<and> act s'' c = Gone \<and> tstate (task_at (ker s'') c) = TASK_FINISHED
         \<and> Q code b \<and> tx (pout b) = tx (pout a) @ out @ out')"
proof -
  obtain q b where q: "(pstep c)\<^sup>*\<^sup>* (p, a) (q, b)" "tx (pout b) = tx (pout a) @ out"
    "implements im K c s' q b \<or> exits q \<and> ended im K c s'"
    using quiet_run_simulates [OF r i ends_never_stuck [OF e]] by blast
  have eq: "ends c Q q b" by (rule ends_steps [OF q(1) e])
  from q(3) show ?thesis
  proof
    assume d: "exits q \<and> ended im K c s'"
    then obtain code a1 a2 f where qe: "q = Svc 5 code a1 a2 f" by (auto simp: exits_def)
    have "Q code b" using eq unfolding qe by (rule ends_result)
    then have "quiet_run im ps K c s' [] s'" "act s' c = Gone" "tstate (task_at (ker s') c) = TASK_FINISHED" "Q code b"
      using d quiet_run.start by (auto simp: ended_def)
    then show ?thesis using q(2) by (metis append_Nil2)
  next
    assume j: "implements im K c s' q b"
    then have "act s' c \<noteq> Gone" by (auto simp: implements_def)
    moreover obtain out' s'' code d where "quiet_run im ps K c s' out' s''" "ended im K c s''" "Q code d" "tx (pout d) = tx (pout b) @ out'"
      using process_finishes [OF eq j] by blast
    ultimately show ?thesis using q(2) unfolding ended_def by (metis append_assoc)
  qed
qed

section \<open>A demonstration process\<close>

lemma tick_first:
  assumes "length (tasks k) = SCHED_MAX_TASKS" "current_task k = 0" "num_tasks k = 2" "tstate (task_at k 1) = TASK_READY"
  shows "current_task (sched_tick im k) = 1" "num_tasks (sched_tick im k) = 2" "kmm (sched_tick im k) = kmm k" "fds (sched_tick im k) = fds k"
    "task_at (sched_tick im k) 1 = (task_at k 1)\<lparr>tstate := TASK_RUNNING\<rparr>"
proof -
  let ?k = "upd_task (current_task k) (\<lambda>t. t\<lparr>ticks := ticks t + 1\<rparr>) k"
  have at: "task_at ?k 1 = task_at k 1" "num_tasks ?k = 2" "current_task ?k = 0" "length (tasks ?k) = 8"
    using assms by (simp_all add: task_at_upd SCHED_MAX_TASKS_def)
  have p: "pick_next ?k = 1"
    using assms(4) at by (simp add: pick_next_def upt_rec numeral_2_eq_2)
  have l: "1 < length (tasks ?k)" "current_task ?k < length (tasks ?k)" "1 \<noteq> current_task ?k" using at by simp_all
  have t: "sched_tick im k = run_task im 1 ?k" using assms(2,3) p at by (simp add: sched_tick_def Let_def)
  show "current_task (sched_tick im k) = 1" "num_tasks (sched_tick im k) = 2" "kmm (sched_tick im k) = kmm k" "fds (sched_tick im k) = fds k"
    "task_at (sched_tick im k) 1 = (task_at k 1)\<lparr>tstate := TASK_RUNNING\<rparr>"
    unfolding t using run_task_simps [OF l] at by simp_all
qed

definition image_at :: "u8 list \<Rightarrow> u64 \<Rightarrow> u64 \<Rightarrow> u8" where
  "image_at bs a x = (if unat (x - a) < length bs then bs ! unat (x - a) else 0)"

lemma demo_process:
  assumes bs: "length bs \<le> 4096"
  obtains k where "console_process demo_im demo_K 1 k" "heap_break (task_at k 1) = 0x405000"
    "\<And>i. i < 0x5000 \<Longrightarrow> process_byte k 1 (0x400000 + of_nat i) = Some (if i < length bs then bs ! i else 0)"
proof -
  let ?src = "phys_to_virt (frame 0)"
  define m where "m = demo_mm\<lparr>kbytes := image_at bs ?src\<rparr>"
  let ?b = "sched_init (boot_kernel demo_im m)"
  have b: "kernel_inv demo_im (demo_K, ?b)"
    using boot_kernel_inv [OF _ _ demo_image, of m] demo_mm by (simp add: m_def)
  have n: "num_tasks ?b = 1" "current_task ?b = 0" "kmm ?b = m" "fds ?b = fd_boot"
    by (subst sched_init_inv [of _ demo_im]; simp add: boot_kernel_def zero_task_def SCHED_MAX_TASKS_def)+
  obtain own where o: "sched_inv demo_im ?b" "proc_inv demo_K own ?b" using b by (auto simp: kernel_inv_def)
  have iso: "isolated demo_K own ?b" "fd_inv (tabs ?b) (fds ?b)" using o(2) by (simp_all add: proc_inv_def)
  have pg: "image_pages 4096 = 5" by (simp add: image_pages_def)
  have used: "used (kpmm (kmm ?b)) = demo_K" "card demo_K = 272" using demo_mm unfolding n by (simp_all add: m_def)
  have sz: "unat (4096 :: u32) \<le> 0x1FC000" by simp
  obtain k1 where k1: "sched_create_user demo_im [] ?src 4096 ?b = Some (int (num_tasks ?b), k1)"
    using sched_create_user_ok [OF isolated_pmm(1) [OF iso(1)] sz _ iso(2), of demo_im "[]" ?src] used
    unfolding pg n(1) by (auto simp: TOTAL_PAGES_def SCHED_MAX_TASKS_def)
  have src: "in_frames ?b ?src (unat (4096 :: u32))"
    using run_addr(2) [of 0 1] by (auto simp: in_frames_def used demo_K_def TOTAL_PAGES_def intro!: bexI [of _ 0])
  note h = create_user_holds [OF b sz src k1]
  have i1: "kernel_inv demo_im (demo_K, k1)" "num_tasks k1 = 2" "current_task k1 = 0"
    "holds_program k1 1 4096 (\<lambda>i. kbytes (kmm ?b) (?src + of_nat i))"
    using h by (simp_all add: n)
  have len: "num_tasks ?b < SCHED_MAX_TASKS \<Longrightarrow> num_tasks ?b < length (tasks ?b)" using o(1) by (auto simp: sched_defs)
  have c1: "fdt (task_at k1 1) = demo_fdt" "files (fds k1) Console = Some (console_file\<lparr>ref_count := ref_count console_file + 3\<rparr>)"
    "dom (files (fds k1)) = {Console}" "pipes (fds k1) = Map.empty" "code_pages (task_at k1 1) = 5" "heap_break (task_at k1 1) = 0x405000"
    by (rule sched_create_user_cases [OF isolated_pmm(1) [OF iso(1)] len sz k1]; 
        auto simp: n created_def Let_def fd_table_init_def add_ref_def put_file_def fd_boot_def demo_fdt_def pg USER_VA_CODE_def)+
  have l1: "length (tasks k1) = SCHED_MAX_TASKS" "tstate (task_at k1 1) = TASK_READY" "is_user (task_at k1 1)"
    using i1 by (auto simp: kernel_inv_def sched_defs holds_program_def)
  note t = tick_first [OF l1(1) i1(3,2) l1(2), of demo_im]
  let ?k2 = "sched_tick demo_im k1" and ?ss = "\<lparr>handlers = replicate 32 0, pending = 0\<rparr>"
  have i2: "kernel_inv demo_im (demo_K, ?k2)" by (rule kernel_inv_step [OF i1(1) kstep.tick])
  define k where "k = upd_task (current_task ?k2) (\<lambda>t. t\<lparr>sig := ?ss\<rparr>) ?k2"
  have inv: "kernel_inv demo_im (demo_K, k)" using kernel_inv_step [OF i2 kstep.signal_state] by (simp add: k_def)
  have "length (tasks ?k2) = 8" using i2 by (simp add: kernel_inv_def sched_defs SCHED_MAX_TASKS_def)
  then have k: "task_at k 1 = (task_at k1 1)\<lparr>tstate := TASK_RUNNING, sig := ?ss\<rparr>" "kmm k = kmm k1" "fds k = fds k1" "num_tasks k = 2"
    using t by (simp_all add: k_def task_at_upd)
  show ?thesis
  proof (rule that [of k])
    show "console_process demo_im demo_K 1 k"
      using inv k c1(1,2) l1(3) by (simp add: console_process_def console_type_def demo_fdt_def MAX_FDS_PER_TASK_def console_file_def)
    show "heap_break (task_at k 1) = 0x405000" using c1(6) k(1) by simp
    fix i :: nat assume i: "i < 0x5000"
    have "process_byte k1 1 (0x400000 + of_nat i) = Some (if i < 4096 then kbytes (kmm ?b) (?src + of_nat i) else 0)"
      using i1(4) i c1(5) by (simp add: holds_program_def USER_VA_CODE_def)
    moreover have "unat (of_nat i :: u64) = i" by (rule unat_of_nat_small) (use i in simp)
    moreover have pb: "process_byte k 1 v = process_byte k1 1 v" for v using k(1,2) by (simp add: process_byte_def)
    ultimately show "process_byte k 1 (0x400000 + of_nat i) = Some (if i < length bs then bs ! i else 0)"
      using bs pb unfolding n by (simp add: m_def image_at_def)
  qed
qed

text \<open>It runs a given program, with the given bytes at the start of its memory.\<close>

definition demo_uart :: uart where
  "demo_uart = \<lparr>rx = [], tx = []\<rparr>"

definition demo_regs :: regs where
  "demo_regs = start_regs USER_VA_STACK USER_VA_CODE"

lemma demo_runs:
  assumes bs: "length bs \<le> 4096"
  obtains s a where "act s 1 = User demo_regs p" "implements demo_im demo_K 1 s p a" "pout a = demo_uart" "pbrk a = 0x405000"
    "\<And>i. i < 0x5000 \<Longrightarrow> pmem a (0x400000 + of_nat i) = Some (if i < length bs then bs ! i else 0)"
proof -
  obtain k where k: "console_process demo_im demo_K 1 k" "heap_break (task_at k 1) = 0x405000"
    "\<And>i. i < 0x5000 \<Longrightarrow> process_byte k 1 (0x400000 + of_nat i) = Some (if i < length bs then bs ! i else 0)"
    by (rule demo_process [OF bs]) (rule that)
  let ?s = "\<lparr>ker = k, con = demo_uart, act = (\<lambda>_. Gone)(1 := User demo_regs p)\<rparr>"
  let ?a = "\<lparr>pmem = process_byte k 1, pbrk = 0x405000, pout = demo_uart\<rparr>"
  have "user_range ((demo_regs ! 31 - SIGFRAME_SIZE) AND NOT 0xF) 288"
    by (simp add: demo_regs_def start_regs_def USER_VA_STACK_def user_range_def SIGFRAME_SIZE_def)
  moreover have "length demo_regs = 34" by (simp add: demo_regs_def)
  ultimately show ?thesis using k by (intro that [of ?s ?a]) (auto simp: implements_def sys_ok_def console_process_def)
qed

text \<open>It greets and asks for memory.\<close>

definition greet :: prog where
  "greet = u_write STDOUT 0x400000 2 (\<lambda>_. u_sbrk 16 (\<lambda>_. u_exit 0))"

lemma greet_ends:
  assumes "pmem a 0x400000 = Some 72" "pmem a 0x400001 = Some 105"
  shows "ends c (\<lambda>ec a'. ec = 0 \<and> pout a' = console_write [72, 105] (pout a)) greet a"
proof -
  have e: "ends c (\<lambda>ec a'. ec = 0 \<and> pout a' = console_write [72, 105] (pout a)) (u_exit 0) a'"
    if "pout a' = console_write [72, 105] (pout a)" for a'
    unfolding u_exit_def syscall1_def syscall3_def by (rule ends_exit) (use that in simp)
  have n: "unat (2 :: u64) = length [72, 105 :: u8]" by simp
  show ?thesis unfolding greet_def u_write_def u_sbrk_def syscall1_def syscall3_def STDOUT_def of_int_1
  proof (rule ends_write [OF n])
    fix i assume "i < length [72, 105 :: u8]"
    then have "i = 0 \<or> i = 1" by auto
    then show "0x400000 + of_nat i < (0x8000000000 :: u64) \<and> pmem a (0x400000 + of_nat i) = Some ([72, 105] ! i)" using assms by auto
  qed (simp, rule ends_sbrk, rule e, simp add: sbrk_to_def)
qed

definition demo_programs :: programs where
  "demo_programs = \<lparr>handler_at = (\<lambda>h sg p. p), program_of = (\<lambda>k t. greet)\<rparr>"

text \<open>A run of it to the end.\<close>

lemma demo_greets:
  obtains s a out s' where "act s 1 = User demo_regs greet" "implements demo_im demo_K 1 s greet a" "never_stuck 1 greet a"
    "quiet_run demo_im demo_programs demo_K 1 s out s'" "out = [72, 105]" "act s' 1 = Gone"
proof -
  obtain s a where s: "act s 1 = User demo_regs greet" "implements demo_im demo_K 1 s greet a" "pout a = demo_uart"
    "\<And>i. i < 0x5000 \<Longrightarrow> pmem a (0x400000 + of_nat i) = Some (if i < length [72, 105 :: u8] then [72, 105] ! i else 0)"
    by (rule demo_runs [of "[72, 105]" greet], simp, rule that)
  have "pmem a 0x400000 = Some 72" "pmem a 0x400001 = Some 105" using s(4) [of 0] s(4) [of 1] by simp_all
  note e = greet_ends [OF this, of 1]
  obtain out s' and b :: process where r: "quiet_run demo_im demo_programs demo_K 1 s out s'" "ended demo_im demo_K 1 s'"
    "pout b = console_write [72, 105] (pout a)" "tx (pout b) = tx (pout a) @ out"
    using process_finishes [OF e s(2), of demo_programs] by blast
  have "out = [72, 105]" using r(3,4) s(3) by (simp add: demo_uart_def uart_putc_def)
  then show ?thesis using that [OF s(1,2) ends_never_stuck [OF e] r(1)] r(2) by (simp add: ended_def)
qed

section \<open>The system\<close>

text \<open>
  C6: the kernel invariant holds in every run of polite programs. Whatever the tasks load, store and ask of the
  kernel, with signals delivered at the end of calls and the timer between any two steps, what happens is a
  sequence of steps of the kernel; and every task keeps a full set of registers. Polite programs are those whose stack
  and whose buffers for the calls are in user space and which start no program above \<open>MAX_PROGRAM\<close> bytes; the kernel does
  not check this.
\<close>

theorem system_keeps_inv:
  assumes "(polite_step im ps K)\<^sup>*\<^sup>* s s'" "sys_ok im K s"
  shows "(kstep MAX_PROGRAM im)\<^sup>*\<^sup>* (K, ker s) (K, ker s') \<and> sys_ok im K s'"
  using assms
proof (induction rule: rtranclp_induct)
  case base
  then show ?case by simp
next
  case (step s1 s2)
  have "sys_ok im K s1" "(kstep MAX_PROGRAM im)\<^sup>*\<^sup>* (K, ker s) (K, ker s1)" using step by auto
  then show ?case using polite_step_ok [OF step.hyps(2)] turn_steps by (meson rtranclp_trans)
qed

lemma quiet_run_polite: "quiet_run im ps K c s out s' \<Longrightarrow> (polite_step im ps K)\<^sup>*\<^sup>* s s'"
  by (induction rule: quiet_run.induct) (auto intro: rtranclp.rtrancl_into_rtrancl)

theorem system_keeps_inv_witness:
  "\<exists>s s'. (polite_step demo_im demo_programs demo_K)\<^sup>*\<^sup>* s s' \<and> act s 1 = User demo_regs greet \<and> act s' 1 = Gone \<and> sys_ok demo_im demo_K s'"
proof -
  obtain s a out s' where s: "act s 1 = User demo_regs greet" "implements demo_im demo_K 1 s greet a" "act s' 1 = Gone"
    "quiet_run demo_im demo_programs demo_K 1 s out s'"
    by (rule demo_greets)
  have "sys_ok demo_im demo_K s" using s(2) by (simp add: implements_def)
  then show ?thesis using system_keeps_inv [OF quiet_run_polite [OF s(4)]] quiet_run_polite [OF s(4)] s(1,3) by blast
qed



end
