(* ===== verification/SbrkTest.thy ===== *)
theory SbrkTest
  imports UserSpec
begin

text \<open>
  The test of \<open>sbrk\<close>, \<^verbatim>\<open>src/uprogs/sbrktest.c\<close>: on the machine of a process, and so on the kernel, none of its checks
  ever reports a failure.
\<close>

section \<open>Texts in memory\<close>

definition chars :: "string \<Rightarrow> u8 list" where
  "chars cs = map of_char cs"

definition show_text :: "string \<Rightarrow> process \<Rightarrow> process" where
  "show_text cs a = a\<lparr>pout := console_write (chars cs) (pout a)\<rparr>"

lemma console_write_append: "console_write (xs @ ys) u = console_write ys (console_write xs u)"
  by (induction xs arbitrary: u) simp_all

lemma show_text_simps [simp]:
  "pmem (show_text cs a) = pmem a" "pbrk (show_text cs a) = pbrk a" "show_text ds (show_text cs a) = show_text (cs @ ds) a"
  by (simp_all add: show_text_def chars_def console_write_append)








section \<open>Loops\<close>





section \<open>The state of the test\<close>












section \<open>Numbers\<close>










section \<open>The heap\<close>







section \<open>The test\<close>

























end
