(* ===== verification/Spec2Isabelle.thy ===== *)
theory Spec2Isabelle
  imports Pmm Kmalloc Mmu Fat16 Uart Pipe Fd FdSpec Sched SchedSpec Spaces Sbrk Isolation Signal Kernel KernelSpec SignalSpec
    Syscall SyscallSpec Virtqueue VirtqueueSpec Virtio VirtioSpec Gic Irq IrqSpec
    Machine Pci Virtio_pci PciSpec Pool Net NetSpec Packets PacketsSpec Shell ShellSpec ShellPipes Drivers DriversSpec Gpu GpuSpec Input InputSpec Boot BootSpec
    Turns Buffers Usys Programs Userland Process UserSpec SbrkTest
begin

text \<open>
  \<^bold>\<open>A small AArch64 kernel for the QEMU virt machine.\<close>

  The program is a kernel in C with a little assembly: a physical page allocator and a heap, page
  tables for user processes, a preemptive round-robin scheduler with \<open>fork\<close>, \<open>exit\<close> and \<open>wait\<close>,
  signals, file descriptors with pipes, a read-only FAT16 file system, virtio drivers that share one
  virtqueue implementation, and a system-call dispatcher that ties them together. One processor runs
  it; kernel code is interrupted only where it gives the processor away.

  \<^bold>\<open>Theories and the code they model.\<close>
  \<^item> \<open>Prelude\<close>: C integers as words, \<^verbatim>\<open>kva.h\<close>, the alignment macros, general lemmas.
  \<^item> \<open>Frames\<close>: the interface of a page allocator as a locale. \<open>Pmm\<close> (\<^verbatim>\<open>pmm.c\<close>) interprets it.
  \<^item> \<open>Kmalloc\<close>: \<^verbatim>\<open>kmalloc.c\<close>, the free list of blocks, as a map from addresses to headers.
  \<^item> \<open>Memory\<close>: kernel memory as a map from addresses to bytes. \<open>Mmu\<close> (\<^verbatim>\<open>mmu.c\<close>): user page tables
    in that memory, and \<open>walk\<close>, the translation the processor makes.
  \<^item> \<open>Uart\<close> (\<^verbatim>\<open>uart.c\<close>), \<open>Pipe\<close> (the ring of \<^verbatim>\<open>fd.c\<close>, against a queue interface), \<open>Fat16\<close>
    (\<^verbatim>\<open>fat16.c\<close> over a disk that is a parameter), \<open>Fd\<close> and \<open>FdSpec\<close> (\<^verbatim>\<open>fd.c\<close>).
  \<^item> \<open>Task\<close>, \<open>Sched\<close>, \<open>SchedSpec\<close>: \<^verbatim>\<open>sched.c\<close> and \<open>signal_send\<close>. \<open>Spaces\<close>, \<open>Sbrk\<close>, \<open>Isolation\<close>: who
    owns which page frame, \<open>sys_sbrk\<close>, and that every operation of the scheduler respects it.
  \<^item> \<open>Signal\<close>, \<open>SignalSpec\<close>: \<^verbatim>\<open>signal.c\<close>; user memory is reached through the current page table.
  \<^item> \<open>Kernel\<close>, \<open>KernelSpec\<close>: the step relation \<open>kstep lim\<close> of the whole kernel over \<open>(K, k)\<close>, the frames the
    kernel keeps for itself and its state, and the invariant \<open>kernel_inv\<close>. Processes are created from programs of at most
    \<open>lim\<close> bytes; the code has no such bound.
  \<^item> \<open>Turns\<close>: sequences of kernel steps of which only the last may give the processor away, and what they leave alone
    of the other tasks.
  \<^item> \<open>Syscall\<close>, \<open>SyscallSpec\<close>: \<^verbatim>\<open>syscall.c\<close>. A call that gives the processor away is cut there: \<open>Later\<close>
    and \<open>Again\<close> say how it goes on when the task runs again. \<open>Buffers\<close>: which bytes a read stores.
  \<^item> \<open>Usys\<close>, \<open>Programs\<close> (\<^verbatim>\<open>uprogs/\<close>): user programs as a codatatype of loads, stores and system calls. \<open>Userland\<close>: every task
    of the kernel with a program and its registers; \<open>sys_step\<close> is a step of the current one, or of the timer. A new task starts
    where its context and its saved registers say, \<open>first_run\<close>.
  \<^item> \<open>Process\<close>, \<open>UserSpec\<close>, \<open>SbrkTest\<close>: the machine \<open>pstep\<close> of one process (a memory, a break, a console), that the kernel implements
    it, and \<^verbatim>\<open>uprogs/sbrktest.c\<close> on it. \<open>Boot\<close>, \<open>BootSpec\<close>: \<open>kernel_main\<close> of \<^verbatim>\<open>main.c\<close>.
  \<^item> \<open>Virtqueue\<close>, \<open>VirtqueueSpec\<close> (\<^verbatim>\<open>virtqueue.c\<close>), \<open>Virtio\<close>, \<open>VirtioSpec\<close> (\<^verbatim>\<open>virtio_blk.c\<close>,
    \<^verbatim>\<open>virtio_rng.c\<close>): the rings, and requests against a device that is a parameter.
  \<^item> \<open>Pool\<close>, \<open>Net\<close>, \<open>NetSpec\<close>: receive buffers that circulate between a driver and its device (a locale
    over where the buffers lie), and \<^verbatim>\<open>virtio_net.c\<close> on top of them.
  \<^item> \<open>Machine\<close>, \<open>Pci\<close>, \<open>Virtio_pci\<close>, \<open>PciSpec\<close> (\<^verbatim>\<open>pci.c\<close>, \<^verbatim>\<open>virtio_pci.c\<close>): discovery and
    initialisation of devices as programs in a state monad over a bus that answers every access.
  \<^item> \<open>Drivers\<close>, \<open>DriversSpec\<close>: \<^verbatim>\<open>virtio_rng_init\<close>, \<^verbatim>\<open>virtio_blk_init\<close> and \<^verbatim>\<open>virtio_net_init\<close> over that bus.
  \<^item> \<open>Gpu\<close>, \<open>GpuSpec\<close> (\<^verbatim>\<open>virtio_gpu.c\<close>): the commands of the screen; what the device reads is compared with
    a datatype of commands. \<open>Input\<close>, \<open>InputSpec\<close> (\<^verbatim>\<open>virtio_input.c\<close>): a receive pool for every keyboard and mouse.
  \<^item> \<open>Gic\<close>, \<open>Irq\<close>, \<open>IrqSpec\<close>: \<^verbatim>\<open>gic.c\<close>, \<^verbatim>\<open>timer.c\<close>, \<^verbatim>\<open>irq.c\<close> as register writes and changes of state.
  \<^item> \<open>Packets\<close>, \<open>PacketsSpec\<close>: the frames that \<^verbatim>\<open>main.c\<close> builds. \<open>Shell\<close>, \<open>ShellSpec\<close>: \<^verbatim>\<open>uprogs/shell.c\<close>, its
    lines and commands. \<open>ShellPipes\<close>: the descriptors of a pipe chain over \<open>Fd\<close>.

  \<^bold>\<open>What is shown.\<close>
  Every state of the kernel that is reachable without loading a program of more than \<open>MAX_PROGRAM\<close> (0x1FC000) bytes
  satisfies \<open>kernel_inv\<close>: the task table is consistent, nobody
  waits for a finished task, page tables map exactly the frames of their process, descriptor
  reference counts are exact. From it follow isolation of processes, integrity of their memory, the
  results of \<open>fork\<close>, \<open>sbrk\<close>, signal delivery, faults and interrupts. A system call with user pointers
  is a sequence of steps, so all this survives it; with kernel pointers, which are not refused, it
  does not: what the kernel writes through them is no step of \<open>kstep\<close>. Larger programs are not refused either; from about
  4 MB on the invariant fails (\<open>large_program_breaks_inv\<close>).

  A run of the system is a sequence of \<open>polite_step\<close>s: the timer may come between any two steps of the tasks, and the
  calls of the tasks keep to the two conditions above. Every such run is a run of the kernel. \<open>quiet_run\<close> is one in which nobody sends a
  signal to a given process. \<open>implements\<close> relates the system to the machine \<open>pstep\<close> of that process, and every quiet
  run is simulated by it, whatever the other tasks and the timer do; what the process may do next, some
  quiet run does. So properties of a program on its machine, such as \<open>ends\<close>, hold of it on the kernel.

  The components have their own contracts: first fit and exact counting in the page
  allocator, disjoint blocks and coalescing in the heap, FIFO pipes, file contents along the
  cluster chain, no lost descriptor in a virtqueue, a disk read that is the disk's contents, the
  accesses of device initialisation in the order of the virtio specification, network frames that arrive
  in order and without loss, screen updates that transfer the right pixels, input events taken from the queues of
  the devices, checksums that verify, lines and words counted as a user expects, commands of the
  shell connected each to the next. Several
  properties state what the code does wrong; they are listed as findings beside the development.

  \<^bold>\<open>Loops and fuel.\<close> Loops over data are structural recursion or folds. \<open>kmalloc\<close>, cluster chains,
  user strings and virtqueue chains may not end: they are \<open>partial_function\<close>s, and their theorems
  say when they return. \<open>sbrk_map\<close> has fuel, the number of pages below the guard page plus one, which
  \<open>sys_sbrk_total\<close> shows to be enough. The polling loops of the drivers have the code's own bound.

  \<^bold>\<open>Hypotheses.\<close> The disk and the virtio devices are parameters; \<open>answers_reads\<close> states what the virtio
  specification says of a block device. \<open>env_ok\<close> states that the kernel heap hands out fresh pointers
  and that the program buffer of \<open>exec\<close> lies in kernel frames. \<open>programs_fit\<close> states that no program on the disk is larger than
  \<open>MAX_PROGRAM\<close>, \<open>user_args\<close> that the pointers of a call are user addresses; the code makes sure of neither. \<open>image_ok\<close> states that the kernel image
  lies in the frames the kernel keeps.

  \<^bold>\<open>Not modelled.\<close> The boot code and vectors in assembly, except for where they end a fault and how a user task starts; caches,
  TLBs and barriers; the kernel's own log messages, so that the console has what the tasks write and no more; the
  demonstrations in \<^verbatim>\<open>main.c\<close> that only call and print, and the programs in assembly. The headers of the heap are a map of
  their own and not bytes of memory, so a store over a header is not seen. System calls get their heap pointers from the
  environment \<open>sys_env\<close>: in runs of \<open>sys_step\<close> the frames \<open>K\<close> of the kernel stay as they are and the heap does not grow. A call
  that faults in the kernel, or a write through a kernel pointer, ends a run of \<open>sys_step\<close> or is not polite.
\<close>

end
